(* ===== verification/Xv6_Prelude.thy ===== *)
theory Xv6_Prelude
  imports Main "HOL-Library.Word"
begin

text \<open>
  The prelude of the development: the machine integer types of types.h, the
  outcome of a piece of kernel code (it returns, panics, faults, gives up the
  CPU, or spins), the combinators in which the kernel's C functions are
  written, and the generic lemmas on lists and little-endian byte strings that
  the component theories share.
\<close>

unbundle bit_operations_syntax

section \<open>Machine integers\<close>

text \<open>types.h: \<open>uint\<close>, \<open>ushort\<close> and \<open>uchar\<close>.  Addresses are \<open>uint\<close>s.\<close>

type_synonym u8 = "8 word"
type_synonym u16 = "16 word"
type_synonym u32 = "32 word"
type_synonym bytes = "8 word list"

text \<open>A C string literal as the bytes the compiler stores (without the NUL).\<close>

definition cbytes :: "string \<Rightarrow> bytes" where
  "cbytes cs = map of_char cs"

lemma length_cbytes [simp]: "length (cbytes cs) = length cs"
  by (simp add: cbytes_def)

section \<open>Outcomes and the combinators of kernel code\<close>

text \<open>
  Every kernel function is a function from the state to an outcome.
  \<^item> \<open>Ok r s\<close>: the function returned \<open>r\<close> and left the state \<open>s\<close>.
  \<^item> \<open>Panic m\<close>: it called panic(m), which never returns (console.c).
  \<^item> \<open>Fault m\<close>: it dereferenced a null pointer or indexed outside an array.
  \<^item> \<open>Swtch s\<close>: it called sched(), so the CPU left the process; the
    process's entry in \<open>s\<close> says whether it is SLEEPING, RUNNABLE or ZOMBIE.
  \<^item> \<open>Spin\<close>: it busy-waits on something no other party of the model changes.
\<close>

datatype ('a, 's) outcome = Ok 'a 's | Panic string | Fault string | Swtch 's | Spin

type_synonym ('s, 'a) kfun = "'s \<Rightarrow> ('a, 's) outcome"

definition retM :: "'a \<Rightarrow> ('s, 'a) kfun" where
  "retM r = (\<lambda>s. Ok r s)"

definition bindM :: "('s, 'a) kfun \<Rightarrow> ('a \<Rightarrow> ('s, 'b) kfun) \<Rightarrow> ('s, 'b) kfun" where
  "bindM m f = (\<lambda>s. case m s of
       Ok r t \<Rightarrow> f r t
     | Panic msg \<Rightarrow> Panic msg
     | Fault msg \<Rightarrow> Fault msg
     | Swtch t \<Rightarrow> Swtch t
     | Spin \<Rightarrow> Spin)"

definition thenM :: "('s, 'a) kfun \<Rightarrow> ('s, 'b) kfun \<Rightarrow> ('s, 'b) kfun" where
  "thenM m n = bindM m (\<lambda>_. n)"

definition skipM :: "('s, unit) kfun" where
  "skipM = retM ()"

definition panicM :: "string \<Rightarrow> ('s, 'a) kfun" where
  "panicM msg = (\<lambda>_. Panic msg)"

definition faultM :: "string \<Rightarrow> ('s, 'a) kfun" where
  "faultM msg = (\<lambda>_. Fault msg)"

definition spinM :: "('s, 'a) kfun" where
  "spinM = (\<lambda>_. Spin)"

definition getM :: "('s \<Rightarrow> 'a) \<Rightarrow> ('s, 'a) kfun" where
  "getM f = (\<lambda>s. Ok (f s) s)"

definition modM :: "('s \<Rightarrow> 's) \<Rightarrow> ('s, unit) kfun" where
  "modM f = (\<lambda>s. Ok () (f s))"

definition whenM :: "bool \<Rightarrow> ('s, unit) kfun \<Rightarrow> ('s, unit) kfun" where
  "whenM b m = (if b then m else skipM)"

definition assertM :: "bool \<Rightarrow> string \<Rightarrow> ('s, unit) kfun" where
  "assertM b msg = (if b then skipM else panicM msg)"

text \<open>\<open>requireM b msg\<close>: the C code is only defined when \<open>b\<close> holds.\<close>

definition requireM :: "bool \<Rightarrow> string \<Rightarrow> ('s, unit) kfun" where
  "requireM b msg = (if b then skipM else faultM msg)"

text \<open>A \<open>for\<close> loop over a list of indices, and one that may \<open>return\<close> early.\<close>

primrec foreachM :: "'i list \<Rightarrow> ('i \<Rightarrow> ('s, unit) kfun) \<Rightarrow> ('s, unit) kfun" where
  "foreachM [] f = skipM"
| "foreachM (i # is) f = thenM (f i) (foreachM is f)"

primrec findM :: "'i list \<Rightarrow> ('i \<Rightarrow> ('s, 'r option) kfun) \<Rightarrow> ('s, 'r option) kfun" where
  "findM [] f = retM None"
| "findM (i # is) f = bindM (f i) (\<lambda>r. case r of None \<Rightarrow> findM is f | Some x \<Rightarrow> retM (Some x))"

text \<open>Statements one after the other.\<close>

definition seqM :: "('s, unit) kfun list \<Rightarrow> ('s, unit) kfun" where
  "seqM ops = foreachM ops (\<lambda>m. m)"

lemma foreachM_map: "foreachM (map g xs) f = foreachM xs (\<lambda>x. f (g x))"
  by (induction xs) simp_all

named_theorems kcode \<open>unfolding of the combinators in which kernel code is written\<close>

lemma retM_apply [kcode]: "retM r s = Ok r s"
  by (simp add: retM_def)

lemma bindM_apply [kcode]:
  "bindM m f s = (case m s of Ok r t \<Rightarrow> f r t | Panic msg \<Rightarrow> Panic msg
     | Fault msg \<Rightarrow> Fault msg | Swtch t \<Rightarrow> Swtch t | Spin \<Rightarrow> Spin)"
  by (simp add: bindM_def)

lemma thenM_apply [kcode]:
  "thenM m n s = (case m s of Ok _ t \<Rightarrow> n t | Panic msg \<Rightarrow> Panic msg
     | Fault msg \<Rightarrow> Fault msg | Swtch t \<Rightarrow> Swtch t | Spin \<Rightarrow> Spin)"
  by (simp add: thenM_def bindM_def)

lemma skipM_apply [kcode]: "skipM s = Ok () s"
  by (simp add: skipM_def retM_def)

lemma panicM_apply [kcode]: "panicM msg s = Panic msg"
  by (simp add: panicM_def)

lemma faultM_apply [kcode]: "faultM msg s = Fault msg"
  by (simp add: faultM_def)

lemma spinM_apply [kcode]: "spinM s = Spin"
  by (simp add: spinM_def)

lemma getM_apply [kcode]: "getM f s = Ok (f s) s"
  by (simp add: getM_def)

lemma modM_apply [kcode]: "modM f s = Ok () (f s)"
  by (simp add: modM_def)

lemma whenM_apply [kcode]: "whenM b m s = (if b then m s else Ok () s)"
  by (simp add: whenM_def skipM_apply)

lemma assertM_apply [kcode]: "assertM b msg s = (if b then Ok () s else Panic msg)"
  by (simp add: assertM_def skipM_apply panicM_apply)

lemma requireM_apply [kcode]: "requireM b msg s = (if b then Ok () s else Fault msg)"
  by (simp add: requireM_def skipM_apply faultM_apply)

text \<open>The monad laws, and the induction principle of a loop that keeps an invariant.\<close>

lemma bindM_retM [simp]: "bindM (retM r) f = f r"
  by (rule ext) (simp add: kcode)

lemma bindM_retM_right [simp]: "bindM m retM = m"
  by (rule ext) (simp add: kcode split: outcome.split)

lemma bindM_assoc: "bindM (bindM m f) g = bindM m (\<lambda>x. bindM (f x) g)"
  by (rule ext) (simp add: kcode split: outcome.split)

lemma bindM_OkE:
  assumes "bindM m f s = Ok r t"
  obtains x u where "m s = Ok x u" and "f x u = Ok r t"
  using assms by (auto simp: kcode split: outcome.splits)

lemma thenM_OkE:
  assumes "thenM m n s = Ok r t"
  obtains x u where "m s = Ok x u" and "n u = Ok r t"
  using assms by (auto simp: kcode split: outcome.splits)

text \<open>
  \<open>okpost P m Q\<close>: from every state of \<open>P\<close>, \<open>m\<close> returns, and in a
  state of \<open>Q\<close>.  This is total: a panic, a fault, a context switch or an
  endless wait refutes it.
\<close>

definition okpost :: "('s \<Rightarrow> bool) \<Rightarrow> ('s, 'a) kfun \<Rightarrow> ('a \<Rightarrow> 's \<Rightarrow> bool) \<Rightarrow> bool" where
  "okpost P m Q \<longleftrightarrow> (\<forall>s. P s \<longrightarrow> (\<exists>r t. m s = Ok r t \<and> Q r t))"

lemma okpostI: "(\<And>s. P s \<Longrightarrow> \<exists>r t. m s = Ok r t \<and> Q r t) \<Longrightarrow> okpost P m Q"
  by (auto simp: okpost_def)

lemma okpostD: "okpost P m Q \<Longrightarrow> P s \<Longrightarrow> \<exists>r t. m s = Ok r t \<and> Q r t"
  by (auto simp: okpost_def)

lemma okpost_bind:
  "okpost P m R \<Longrightarrow> (\<And>x. okpost (R x) (f x) Q) \<Longrightarrow> okpost P (bindM m f) Q"
  unfolding okpost_def by (fastforce simp: kcode)

lemma foreachM_okpost:
  "(\<And>i. i \<in> set is \<Longrightarrow> okpost P (f i) (\<lambda>_. P)) \<Longrightarrow> okpost P (foreachM is f) (\<lambda>_. P)"
proof (induction "is")
  case Nil
  then show ?case by (simp add: okpost_def kcode)
next
  case (Cons i "is")
  then have "okpost P (f i) (\<lambda>_. P)" and "okpost P (foreachM is f) (\<lambda>_. P)"
    by simp_all
  then show ?case
    unfolding foreachM.simps thenM_def by (rule okpost_bind)
qed

text \<open>A search loop whose body changes nothing until it finds what it looks for.\<close>

lemma findM_first:
  assumes "\<And>i. i \<in> set is \<Longrightarrow> \<not> P i \<Longrightarrow> f i s = Ok None s"
    and "\<And>i. i \<in> set is \<Longrightarrow> P i \<Longrightarrow> \<exists>x t. f i s = Ok (Some x) t"
  shows "findM is f s = (case find P is of None \<Rightarrow> Ok None s | Some i \<Rightarrow> f i s)"
  using assms
proof (induction "is")
  case (Cons i "is")
  show ?case
  proof (cases "P i")
    case True
    then obtain x t where "f i s = Ok (Some x) t" using Cons.prems(2) [of i] by auto
    then show ?thesis using True by (simp add: kcode)
  next
    case False
    then have "f i s = Ok None s" using Cons.prems(1) [of i] by simp
    then show ?thesis using False Cons by (simp add: kcode)
  qed
qed (simp add: kcode)

lemma find_append: "find P (xs @ ys) = (case find P xs of None \<Rightarrow> find P ys | Some x \<Rightarrow> Some x)"
  by (induction xs) auto

lemma find_upt_Some:
  "find P [a..<n] = Some i \<longleftrightarrow> a \<le> i \<and> i < n \<and> P i \<and> (\<forall>j. a \<le> j \<and> j < i \<longrightarrow> \<not> P j)"
proof -
  have "find P [a..<n] = Some i \<longleftrightarrow> (\<exists>k<n - a. P (a + k) \<and> i = a + k \<and> (\<forall>j<k. \<not> P (a + j)))"
    by (auto simp: find_Some_iff)
  also have "\<dots> \<longleftrightarrow> a \<le> i \<and> i < n \<and> P i \<and> (\<forall>j. a \<le> j \<and> j < i \<longrightarrow> \<not> P j)"
  proof
    assume "\<exists>k<n - a. P (a + k) \<and> i = a + k \<and> (\<forall>j<k. \<not> P (a + j))"
    then obtain k where k: "k < n - a" "P (a + k)" "i = a + k" "\<forall>j<k. \<not> P (a + j)" by blast
    have "\<not> P j" if "a \<le> j" "j < i" for j using k(3,4) that by (metis le_Suc_ex nat_add_left_cancel_less)
    then show "a \<le> i \<and> i < n \<and> P i \<and> (\<forall>j. a \<le> j \<and> j < i \<longrightarrow> \<not> P j)" using k by auto
  next
    assume *: "a \<le> i \<and> i < n \<and> P i \<and> (\<forall>j. a \<le> j \<and> j < i \<longrightarrow> \<not> P j)"
    then show "\<exists>k<n - a. P (a + k) \<and> i = a + k \<and> (\<forall>j<k. \<not> P (a + j))"
      by (intro exI [of _ "i - a"]) auto
  qed
  finally show ?thesis .
qed

lemma find_upt_None: "find P [a..<n] = None \<longleftrightarrow> (\<forall>j. a \<le> j \<and> j < n \<longrightarrow> \<not> P j)"
  by (auto simp: find_None_iff)

section \<open>Little-endian byte strings\<close>

text \<open>
  The on-disk structures of fs.h and the words of page tables are read and
  written through casts on a little-endian machine.
\<close>

definition le16_enc :: "u16 \<Rightarrow> bytes" where
  "le16_enc w = [ucast w, ucast (drop_bit 8 w)]"

definition le16_dec :: "bytes \<Rightarrow> u16" where
  "le16_dec bs = ucast (bs ! 0) OR push_bit 8 (ucast (bs ! 1))"

definition le32_enc :: "u32 \<Rightarrow> bytes" where
  "le32_enc w = [ucast w, ucast (drop_bit 8 w), ucast (drop_bit 16 w), ucast (drop_bit 24 w)]"

definition le32_dec :: "bytes \<Rightarrow> u32" where
  "le32_dec bs = ucast (bs ! 0) OR push_bit 8 (ucast (bs ! 1))
     OR push_bit 16 (ucast (bs ! 2)) OR push_bit 24 (ucast (bs ! 3))"

lemma length_le16_enc [simp]: "length (le16_enc w) = 2"
  by (simp add: le16_enc_def)

lemma length_le32_enc [simp]: "length (le32_enc w) = 4"
  by (simp add: le32_enc_def)

lemma le16_dec_enc [simp]: "le16_dec (le16_enc w @ xs) = w"
  unfolding le16_dec_def le16_enc_def
  by (rule bit_word_eqI)
     (auto simp: bit_simps; presburger)

lemma le32_split:
  "(ucast (ucast w :: u8) :: u32) OR push_bit 8 (ucast (ucast (drop_bit 8 w) :: u8))
     OR push_bit 16 (ucast (ucast (drop_bit 16 w) :: u8))
     OR push_bit 24 (ucast (ucast (drop_bit 24 w) :: u8)) = (w :: u32)"
proof (rule bit_word_eqI)
  fix n :: nat
  assume "n < LENGTH(32)"
  then show "bit ((ucast (ucast w :: u8) :: u32) OR push_bit 8 (ucast (ucast (drop_bit 8 w) :: u8))
     OR push_bit 16 (ucast (ucast (drop_bit 16 w) :: u8))
     OR push_bit 24 (ucast (ucast (drop_bit 24 w) :: u8))) n = bit w n"
    by (cases "n < 8"; cases "n < 16"; cases "n < 24") (auto simp: bit_simps)
qed

lemma le32_dec_enc [simp]: "le32_dec (le32_enc w @ xs) = w"
  using le32_split [of w] by (simp add: le32_dec_def le32_enc_def)

section \<open>Writing into a byte string\<close>

text \<open>\<open>patch off src dst\<close>: memmove(dst+off, src, length src) on an array.\<close>

definition patch :: "nat \<Rightarrow> 'a list \<Rightarrow> 'a list \<Rightarrow> 'a list" where
  "patch off src dst = take off dst @ src @ drop (off + length src) dst"

lemma length_patch [simp]:
  "off + length src \<le> length dst \<Longrightarrow> length (patch off src dst) = length dst"
  by (simp add: patch_def)

lemma patch_same:
  "off + length src \<le> length dst \<Longrightarrow> take (length src) (drop off (patch off src dst)) = src"
  by (simp add: patch_def)

lemma nth_patch:
  assumes "off + length src \<le> length dst" and "i < length dst"
  shows "patch off src dst ! i =
    (if off \<le> i \<and> i < off + length src then src ! (i - off) else dst ! i)"
  using assms by (auto simp: patch_def nth_append min_def)

lemma patch_other:
  assumes "off + length src \<le> length dst" and "j + n \<le> length dst"
    and "j + n \<le> off \<or> off + length src \<le> j"
  shows "take n (drop j (patch off src dst)) = take n (drop j dst)"
  by (rule nth_equalityI) (use assms in \<open>auto simp: nth_patch\<close>)

lemma patch_all: "length src = length dst \<Longrightarrow> patch 0 src dst = src"
  by (simp add: patch_def)

section \<open>Signed readings of words\<close>

lemma sint_nonneg: "\<not> sint (x :: u32) < 0 \<Longrightarrow> int (unat x) = sint x"
proof -
  assume "\<not> sint x < 0"
  moreover have "sint x < 2 ^ 31" using sint_lt [of x] by simp
  moreover have "uint x = sint x mod 2 ^ 32" by (simp add: uint_sint take_bit_eq_mod)
  ultimately show ?thesis by (simp add: unat_eq_nat_uint)
qed

lemma sint_small: "unat (x :: u32) < 2 ^ 31 \<Longrightarrow> sint x = int (unat x)"
proof -
  assume x: "unat x < 2 ^ 31"
  have "\<not> sint x < 0"
  proof
    assume neg: "sint x < 0"
    have "uint x = sint x mod 2 ^ 32" by (simp add: uint_sint take_bit_eq_mod)
    moreover have "- (2 ^ 31) \<le> sint x" using sint_ge [of x] by simp
    then have "(sint x + 2 ^ 32) mod 2 ^ 32 = sint x + 2 ^ 32" using neg by (intro mod_pos_pos_trivial) simp_all
    then have "sint x mod 2 ^ 32 = sint x + 2 ^ 32" by (simp only: mod_add_self2)
    ultimately have "2147483648 \<le> uint x" using \<open>- (2 ^ 31) \<le> sint x\<close> by simp
    moreover have "uint x = int (unat x)" "unat x < 2147483648" using x by simp_all
    ultimately show False by linarith
  qed
  then show ?thesis using sint_nonneg by simp
qed

end
