(* ===== verification/CString.thy ===== *)
theory CString
  imports Xv6_Prelude
begin

text \<open>
  string.c: the kernel's memory and string routines, over the byte-addressed
  memory of the machine.  Loops on a count recurse on the count; the one loop
  without a bound (strlen) is a partial function, whose value is \<open>None\<close> when
  no NUL is ever met.
\<close>

section \<open>Memory\<close>

type_synonym mem = "u32 \<Rightarrow> u8"

text \<open>The four bytes at an address as a little-endian word.\<close>

definition load32 :: "mem \<Rightarrow> u32 \<Rightarrow> u32" where
  "load32 m a = le32_dec [m a, m (a + 1), m (a + 2), m (a + 3)]"

definition store32 :: "mem \<Rightarrow> u32 \<Rightarrow> u32 \<Rightarrow> mem" where
  "store32 m a w = m(a := ucast w, a + 1 := ucast (drop_bit 8 w),
     a + 2 := ucast (drop_bit 16 w), a + 3 := ucast (drop_bit 24 w))"

text \<open>The addresses \<open>a, a + 1, ..., a + n - 1\<close> (they may wrap around).\<close>

definition in_range :: "u32 \<Rightarrow> nat \<Rightarrow> u32 \<Rightarrow> bool" where
  "in_range a n x \<longleftrightarrow> unat (x - a) < n"

section \<open>The routines of string.c\<close>

text \<open>x86.h, stosb and stosl: \<open>rep stos\<close> fills bytes or words upwards.\<close>

fun stosb :: "mem \<Rightarrow> u32 \<Rightarrow> u8 \<Rightarrow> nat \<Rightarrow> mem" where
  "stosb m d c 0 = m"
| "stosb m d c (Suc n) = stosb (m(d := c)) (d + 1) c n"

fun stosl :: "mem \<Rightarrow> u32 \<Rightarrow> u32 \<Rightarrow> nat \<Rightarrow> mem" where
  "stosl m d w 0 = m"
| "stosl m d w (Suc n) = stosl (store32 m d w) (d + 4) w n"

definition memset :: "mem \<Rightarrow> u32 \<Rightarrow> u32 \<Rightarrow> u32 \<Rightarrow> mem" where
  "memset m dst c n =
     (if dst mod 4 = 0 \<and> n mod 4 = 0 then
        (let c = c AND 0xFF in
         stosl m dst (push_bit 24 c OR push_bit 16 c OR push_bit 8 c OR c) (unat (n div 4)))
      else stosb m dst (ucast c) (unat n))"

fun memcmp_loop :: "mem \<Rightarrow> u32 \<Rightarrow> u32 \<Rightarrow> nat \<Rightarrow> int" where
  "memcmp_loop m s1 s2 0 = 0"
| "memcmp_loop m s1 s2 (Suc n) =
     (if m s1 \<noteq> m s2 then uint (m s1) - uint (m s2) else memcmp_loop m (s1 + 1) (s2 + 1) n)"

definition memcmp :: "mem \<Rightarrow> u32 \<Rightarrow> u32 \<Rightarrow> u32 \<Rightarrow> int" where
  "memcmp m v1 v2 n = memcmp_loop m v1 v2 (unat n)"

fun copy_up :: "mem \<Rightarrow> u32 \<Rightarrow> u32 \<Rightarrow> nat \<Rightarrow> mem" where
  "copy_up m d s 0 = m"
| "copy_up m d s (Suc n) = copy_up (m(d := m s)) (d + 1) (s + 1) n"

fun copy_down :: "mem \<Rightarrow> u32 \<Rightarrow> u32 \<Rightarrow> nat \<Rightarrow> mem" where
  "copy_down m d s 0 = m"
| "copy_down m d s (Suc n) = copy_down (m(d - 1 := m (s - 1))) (d - 1) (s - 1) n"

definition memmove :: "mem \<Rightarrow> u32 \<Rightarrow> u32 \<Rightarrow> u32 \<Rightarrow> mem" where
  "memmove m dst src n =
     (if src < dst \<and> src + n > dst
      then copy_down m (dst + n) (src + n) (unat n)
      else copy_up m dst src (unat n))"

definition memcpy :: "mem \<Rightarrow> u32 \<Rightarrow> u32 \<Rightarrow> u32 \<Rightarrow> mem" where
  "memcpy m dst src n = memmove m dst src n"

fun strncmp_loop :: "mem \<Rightarrow> u32 \<Rightarrow> u32 \<Rightarrow> nat \<Rightarrow> int" where
  "strncmp_loop m p q 0 = 0"
| "strncmp_loop m p q (Suc n) =
     (if m p \<noteq> 0 \<and> m p = m q then strncmp_loop m (p + 1) (q + 1) n
      else uint (m p) - uint (m q))"

definition strncmp :: "mem \<Rightarrow> u32 \<Rightarrow> u32 \<Rightarrow> u32 \<Rightarrow> int" where
  "strncmp m p q n = strncmp_loop m p q (unat n)"

fun fill_zero :: "mem \<Rightarrow> u32 \<Rightarrow> nat \<Rightarrow> mem" where
  "fill_zero m s 0 = m"
| "fill_zero m s (Suc n) = fill_zero (m(s := 0)) (s + 1) n"

fun strncpy_loop :: "mem \<Rightarrow> u32 \<Rightarrow> u32 \<Rightarrow> nat \<Rightarrow> mem" where
  "strncpy_loop m s t 0 = m"
| "strncpy_loop m s t (Suc n) =
     (let m' = m(s := m t) in
      if m t \<noteq> 0 then strncpy_loop m' (s + 1) (t + 1) n else fill_zero m' (s + 1) n)"

text \<open>The count is a C \<open>int\<close>; a negative one copies nothing.\<close>

definition strncpy :: "mem \<Rightarrow> u32 \<Rightarrow> u32 \<Rightarrow> int \<Rightarrow> mem" where
  "strncpy m s t n = strncpy_loop m s t (nat n)"

text \<open>The loop's count is what \<open>--n\<close> leaves for the copying.\<close>

fun safestrcpy_loop :: "mem \<Rightarrow> u32 \<Rightarrow> u32 \<Rightarrow> nat \<Rightarrow> mem" where
  "safestrcpy_loop m s t 0 = m(s := 0)"
| "safestrcpy_loop m s t (Suc n) =
     (let m' = m(s := m t) in
      if m t \<noteq> 0 then safestrcpy_loop m' (s + 1) (t + 1) n else m'(s + 1 := 0))"

definition safestrcpy :: "mem \<Rightarrow> u32 \<Rightarrow> u32 \<Rightarrow> int \<Rightarrow> mem" where
  "safestrcpy m s t n = (if n \<le> 0 then m else safestrcpy_loop m s t (nat (n - 1)))"

partial_function (option) strlen_loop :: "mem \<Rightarrow> u32 \<Rightarrow> nat \<Rightarrow> nat option" where
  "strlen_loop m s n = (if m (s + of_nat n) = 0 then Some n else strlen_loop m s (Suc n))"

definition strlen :: "mem \<Rightarrow> u32 \<Rightarrow> nat option" where
  "strlen m s = strlen_loop m s 0"

section \<open>Address arithmetic\<close>

lemma unat_u32: "unat (x :: u32) < 2 ^ 32"
  using unsigned_less [of x] by simp

lemma in_range_0 [simp]: "\<not> in_range a 0 x"
  by (simp add: in_range_def)

lemma in_range_Suc:
  assumes "n < 2 ^ 32"
  shows "in_range a (Suc n) x \<longleftrightarrow> x = a \<or> in_range (a + 1) n x"
proof (cases "x = a")
  case False
  then have "x - a \<noteq> 0" by simp
  then have "unat (x - a) = Suc (unat (x - a - 1))"
    by (simp add: unat_minus_one unat_gt_0)
  then show ?thesis using False by (simp add: in_range_def diff_diff_eq)
qed (simp add: in_range_def)

text \<open>The last byte of a range, for loops that run downwards.\<close>

lemma in_range_Suc_last:
  assumes "n < 2 ^ 32"
  shows "in_range a (Suc n) x \<longleftrightarrow> x = a + of_nat n \<or> in_range a n x"
proof -
  have "unat (x - a) = n \<longleftrightarrow> x = a + of_nat n"
  proof
    assume "unat (x - a) = n"
    then have "of_nat n = x - a" by (simp flip: \<open>unat (x - a) = n\<close>)
    then show "x = a + of_nat n" by simp
  next
    assume "x = a + of_nat n"
    then show "unat (x - a) = n"
      using assms by (simp add: unat_of_nat)
  qed
  then show ?thesis by (auto simp: in_range_def less_Suc_eq)
qed

lemma stosb_eq: "n < 2 ^ 32 \<Longrightarrow> stosb m d c n = (\<lambda>x. if in_range d n x then c else m x)"
proof (induction n arbitrary: m d)
  case (Suc n)
  then have "stosb m d c (Suc n) = (\<lambda>x. if in_range (d + 1) n x then c else (m(d := c)) x)"
    by simp
  then show ?case using Suc.prems by (auto simp: in_range_Suc)
qed simp

lemma fill_zero_stosb: "fill_zero m s n = stosb m s 0 n"
  by (induction n arbitrary: m s) auto


section \<open>Correctness\<close>

text \<open>memset: the word-filling branch writes the same bytes as the byte-filling one.\<close>

lemma byte_mask: "(0xFF :: u32) = mask 8"
  by (simp add: mask_eq_exp_minus_1)

lemma store32_replicated:
  fixes c :: u32
  assumes "c = c AND 0xFF"
  shows "store32 m d (push_bit 24 c OR push_bit 16 c OR push_bit 8 c OR c) = stosb m d (ucast c) 4"
proof -
  let ?w = "push_bit 24 c OR push_bit 16 c OR push_bit 8 c OR c"
  have hi: "\<not> bit c n" if "8 \<le> n" for n
  proof -
    have "bit c n \<Longrightarrow> bit (0xFF :: u32) n" using assms by (metis bit_and_iff)
    then show ?thesis using that by (metis byte_mask bit_mask_iff leD)
  qed
  have b: "(ucast ?w :: u8) = ucast c" "(ucast (drop_bit 8 ?w) :: u8) = ucast c"
    "(ucast (drop_bit 16 ?w) :: u8) = ucast c" "(ucast (drop_bit 24 ?w) :: u8) = ucast c"
    by (rule bit_word_eqI; auto simp: bit_simps hi)+
  show ?thesis unfolding store32_def b
    by (simp add: numeral_eq_Suc add.assoc)
qed

lemma stosb_append: "stosb m d c (k + n) = stosb (stosb m d c k) (d + of_nat k) c n"
  by (induction k arbitrary: m d) (auto simp: add.assoc add.commute add.left_commute)

lemma stosl_replicated:
  fixes c :: u32
  assumes "c = c AND 0xFF"
  shows "stosl m d (push_bit 24 c OR push_bit 16 c OR push_bit 8 c OR c) n = stosb m d (ucast c) (4 * n)"
proof (induction n arbitrary: m d)
  case (Suc n)
  have "4 * Suc n = 4 + 4 * n" by simp
  then show ?case
    using Suc store32_replicated [OF assms] by (simp only: stosl.simps stosb_append) simp
qed simp

lemma memset_eq: "memset m dst c n = (\<lambda>x. if in_range dst (unat n) x then ucast c else m x)"
proof (cases "dst mod 4 = 0 \<and> n mod 4 = 0")
  case True
  let ?c = "c AND 0xFF"
  have "(ucast ?c :: u8) = ucast c"
  proof (rule bit_word_eqI)
    fix k assume "k < LENGTH(8)"
    then show "bit (ucast ?c :: u8) k = bit (ucast c :: u8) k"
      unfolding byte_mask by (simp add: bit_simps)
  qed
  moreover have "4 * unat (n div 4) = unat n"
  proof -
    have "unat (n mod 4) = 0" using True by simp
    then have "unat n mod 4 = 0" by (simp add: unat_mod)
    then show ?thesis using mult_div_mod_eq [of 4 "unat n"] by (simp add: unat_div)
  qed
  moreover have "?c = ?c AND 0xFF" by simp
  ultimately have "memset m dst c n = stosb m dst (ucast c) (unat n)"
    using True stosl_replicated [of ?c m dst "unat (n div 4)"]
    by (simp add: memset_def)
  then show ?thesis using stosb_eq [OF unat_u32] by simp
next
  case False
  then have "memset m dst c n = stosb m dst (ucast c) (unat n)"
    by (auto simp: memset_def)
  then show ?thesis using stosb_eq [OF unat_u32] by simp
qed


text \<open>
  memmove: each direction is right unless a byte is overwritten before it is
  read, and the test on the pointers picks a direction that is right.
\<close>

lemma copy_up_eq:
  assumes "n < 2 ^ 32" and "unat (d - s) = 0 \<or> n \<le> unat (d - s)"
  shows "copy_up m d s n = (\<lambda>x. if in_range d n x then m (s + (x - d)) else m x)"
  using assms
proof (induction n arbitrary: m d s)
  case (Suc n)
  let ?m = "m(d := m s)"
  have "n < 2 ^ 32" and "unat (d + 1 - (s + 1)) = 0 \<or> n \<le> unat (d + 1 - (s + 1))"
    using Suc.prems by auto
  from Suc.IH [OF this]
  have eq: "copy_up m d s (Suc n) =
      (\<lambda>x. if in_range (d + 1) n x then ?m (s + 1 + (x - (d + 1))) else ?m x)"
    by (simp only: copy_up.simps)
  have keep: "?m (s + (x - d)) = m (s + (x - d))" if r: "in_range (d + 1) n x" for x
  proof (cases "s + (x - d) = d")
    case True
    then have "d - s = x - d" by (simp add: algebra_simps)
    moreover have "unat (x - d) \<noteq> 0 \<Longrightarrow> unat (x - d) < Suc n"
      using r Suc.prems(1) in_range_Suc [of n d x] by (simp add: in_range_def)
    ultimately have "unat (d - s) = 0" using Suc.prems(2) by auto
    then have "d = s" by (simp add: unat_eq_zero)
    then show ?thesis using True by simp
  qed simp
  show ?case
  proof
    fix x
    show "copy_up m d s (Suc n) x = (if in_range d (Suc n) x then m (s + (x - d)) else m x)"
      using keep [of x] Suc.prems(1) unfolding eq
      by (auto simp: in_range_Suc algebra_simps)
  qed
qed simp

lemma copy_down_eq:
  assumes "n < 2 ^ 32" and "unat (s - d) = 0 \<or> n \<le> unat (s - d)"
  shows "copy_down m (d + of_nat n) (s + of_nat n) n
    = (\<lambda>x. if in_range d n x then m (s + (x - d)) else m x)"
  using assms
proof (induction n arbitrary: m)
  case (Suc n)
  let ?m = "m(d + of_nat n := m (s + of_nat n))"
  have "n < 2 ^ 32" and "unat (s - d) = 0 \<or> n \<le> unat (s - d)"
    and "\<And>a :: u32. a + of_nat (Suc n) - 1 = a + of_nat n"
    using Suc.prems by auto
  from Suc.IH [OF this(1,2)] this(3)
  have eq: "copy_down m (d + of_nat (Suc n)) (s + of_nat (Suc n)) (Suc n) =
      (\<lambda>x. if in_range d n x then ?m (s + (x - d)) else ?m x)"
    by (simp only: copy_down.simps)
  have keep: "?m (s + (x - d)) = m (s + (x - d))" if r: "in_range d n x" for x
  proof (cases "s + (x - d) = d + of_nat n")
    case True
    then have e: "of_nat n - (x - d) = s - d" by (simp add: algebra_simps)
    have le: "(x - d) \<le> of_nat n" and un: "unat (of_nat n :: u32) = n"
      using r Suc.prems(1) by (simp_all add: in_range_def word_le_nat_alt unat_of_nat)
    have "unat (of_nat n - (x - d)) = n - unat (x - d)"
      using le un by (simp add: unat_sub)
    then have "unat (s - d) = n - unat (x - d)" using e by simp
    moreover have "unat (x - d) < n" using r by (simp add: in_range_def)
    ultimately have "0 < unat (s - d)" and "unat (s - d) < Suc n" by auto
    then show ?thesis using Suc.prems(2) by simp
  qed simp
  show ?case
  proof
    fix x
    show "copy_down m (d + of_nat (Suc n)) (s + of_nat (Suc n)) (Suc n) x
        = (if in_range d (Suc n) x then m (s + (x - d)) else m x)"
      using keep [of x] Suc.prems(1) unfolding eq
      by (auto simp: in_range_Suc_last)
  qed
qed simp

lemma unat_diff_wrap:
  fixes a b :: u32
  assumes "b < a"
  shows "unat (b - a) = 2 ^ 32 - (unat a - unat b)"
  using assms by (simp add: unat_sub_if' word_less_nat_alt)

lemma memmove_eq:
  assumes "unat src + unat n \<le> 2 ^ 32" and "unat dst + unat n \<le> 2 ^ 32"
  shows "memmove m dst src n
    = (\<lambda>x. if in_range dst (unat n) x then m (src + (x - dst)) else m x)"
proof (cases "src < dst \<and> src + n > dst")
  case True
  have "unat n \<le> unat (src - dst)"
    using True assms unat_diff_wrap [of src dst] by (simp add: word_less_nat_alt)
  then show ?thesis
    using True copy_down_eq [of "unat n" src dst m] unat_u32 [of n]
    by (simp add: memmove_def)
next
  case False
  have "unat (dst - src) = 0 \<or> unat n \<le> unat (dst - src)"
  proof (cases "src < dst")
    case True
    then have "\<not> src + n > dst" using False by simp
    have "unat src + unat n < 2 ^ 32 \<Longrightarrow> unat (src + n) = unat src + unat n"
      by (simp add: unat_word_ariths)
    then show ?thesis
      using True \<open>\<not> src + n > dst\<close> assms unat_u32 [of dst]
      by (cases "unat src + unat n < 2 ^ 32") (auto simp: word_less_nat_alt unat_sub_if')
  next
    case False
    then consider "dst = src" | "dst < src" by fastforce
    then show ?thesis
      using assms unat_diff_wrap [of dst src] by cases (auto simp: word_less_nat_alt)
  qed
  then show ?thesis
    using False copy_up_eq [of "unat n" dst src m] unat_u32 [of n]
    by (auto simp: memmove_def)
qed


section \<open>C strings\<close>

text \<open>
  The bytes of an array in memory, and the string an array of at most \<open>n\<close>
  bytes holds: what comes before the first NUL, or all \<open>n\<close> bytes.
\<close>

definition mem_bytes :: "mem \<Rightarrow> u32 \<Rightarrow> nat \<Rightarrow> bytes" where
  "mem_bytes m a n = map (\<lambda>i. m (a + of_nat i)) [0..<n]"

definition cname :: "nat \<Rightarrow> bytes \<Rightarrow> bytes" where
  "cname n bs = takeWhile (\<lambda>b. b \<noteq> 0) (take n bs)"

lemma length_mem_bytes [simp]: "length (mem_bytes m a n) = n"
  by (simp add: mem_bytes_def)

lemma mem_bytes_0 [simp]: "mem_bytes m a 0 = []"
  by (simp add: mem_bytes_def)

lemma mem_bytes_Suc: "mem_bytes m a (Suc n) = m a # mem_bytes m (a + 1) n"
proof -
  have "[0..<Suc n] = 0 # map Suc [0..<n]"
    by (simp only: map_Suc_upt upt_conv_Cons zero_less_Suc)
  then have "mem_bytes m a (Suc n) = m a # map ((\<lambda>i. m (a + of_nat i)) \<circ> Suc) [0..<n]"
    by (simp add: mem_bytes_def)
  then show ?thesis by (simp add: mem_bytes_def add.assoc comp_def)
qed

text \<open>
  The same routines on byte arrays held in kernel structures (\<open>name\<close> of
  struct proc, struct dirent and skipelem's buffer): reading past the end of
  a list reads a NUL, as for a string literal.
\<close>

definition headz :: "bytes \<Rightarrow> u8" where
  "headz bs = (case bs of [] \<Rightarrow> 0 | b # _ \<Rightarrow> b)"

lemma headz_simps [simp]: "headz [] = 0" "headz (b # bs) = b"
  by (simp_all add: headz_def)

fun strncmp_l :: "bytes \<Rightarrow> bytes \<Rightarrow> nat \<Rightarrow> int" where
  "strncmp_l p q 0 = 0"
| "strncmp_l p q (Suc n) =
     (if headz p \<noteq> 0 \<and> headz p = headz q then strncmp_l (tl p) (tl q) n
      else uint (headz p) - uint (headz q))"

fun strncpy_l :: "bytes \<Rightarrow> nat \<Rightarrow> bytes" where
  "strncpy_l t 0 = []"
| "strncpy_l t (Suc n) =
     (if headz t \<noteq> 0 then headz t # strncpy_l (tl t) n else replicate (Suc n) 0)"

fun safestrcpy_l :: "bytes \<Rightarrow> nat \<Rightarrow> bytes" where
  "safestrcpy_l t 0 = [0]"
| "safestrcpy_l t (Suc n) =
     (if headz t \<noteq> 0 then headz t # safestrcpy_l (tl t) n else [0, 0])"

lemma length_strncpy_l [simp]: "length (strncpy_l t n) = n"
  by (induction t n rule: strncpy_l.induct) auto

lemma length_safestrcpy_l: "length (safestrcpy_l t n) \<le> Suc n"
  by (induction t n rule: safestrcpy_l.induct) auto

lemma strncmp_loop_l:
  "strncmp_loop m p q n = strncmp_l (mem_bytes m p n) (mem_bytes m q n) n"
  by (induction n arbitrary: p q) (auto simp: mem_bytes_Suc)

lemma cname_Suc: "cname (Suc n) p = (if headz p \<noteq> 0 then headz p # cname n (tl p) else [])"
  by (cases p) (auto simp: cname_def)

lemma strncmp_l_eq: "strncmp_l p q n = 0 \<longleftrightarrow> cname n p = cname n q"
proof (induction p q n rule: strncmp_l.induct)
  case (2 p q n)
  then show ?case by (auto simp: cname_Suc uint_0_iff dest: unsigned_word_eqI)
qed (simp add: cname_def)

lemma cname_strncpy_l: "cname n (strncpy_l t n) = cname n t"
proof (induction t n rule: strncpy_l.induct)
  case (2 t n)
  then show ?case by (auto simp: cname_Suc)
qed (simp add: cname_def)

text \<open>
  What safestrcpy leaves is always NUL-terminated, and its string is the
  source's, cut to fit.
\<close>

lemma cname_safestrcpy_l: "cname (Suc n) (safestrcpy_l t n) = cname n t"
proof (induction t n rule: safestrcpy_l.induct)
  case (2 t n)
  then show ?case by (auto simp: cname_Suc)
qed (simp add: cname_def)

lemma safestrcpy_l_terminated: "0 \<in> set (take (Suc n) (safestrcpy_l t n))"
  by (induction t n rule: safestrcpy_l.induct) auto

lemma strlen_loop_Some:
  assumes "m (s + of_nat (n + k)) = 0" and "\<forall>i < k. m (s + of_nat (n + i)) \<noteq> 0"
  shows "strlen_loop m s n = Some (n + k)"
  using assms
proof (induction k arbitrary: n)
  case 0
  then show ?case by (subst strlen_loop.simps) simp
next
  case (Suc k)
  have "m (s + of_nat n) \<noteq> 0" using Suc.prems(2) by (metis add.right_neutral zero_less_Suc)
  moreover have "strlen_loop m s (Suc n) = Some (Suc n + k)"
  proof (rule Suc.IH)
    show "m (s + of_nat (Suc n + k)) = 0" using Suc.prems(1) by simp
    show "\<forall>i<k. m (s + of_nat (Suc n + i)) \<noteq> 0"
      using Suc.prems(2) by (metis Suc_less_eq add_Suc_shift)
  qed
  ultimately show ?case by (subst strlen_loop.simps) simp
qed


text \<open>
  The copying routines write the list versions' bytes, when the destination
  does not run into source bytes still to be read.
\<close>

fun write_bytes :: "mem \<Rightarrow> u32 \<Rightarrow> bytes \<Rightarrow> mem" where
  "write_bytes m a [] = m"
| "write_bytes m a (b # bs) = write_bytes (m(a := b)) (a + 1) bs"

lemma write_bytes_other:
  "length bs < 2 ^ 32 \<Longrightarrow> \<not> in_range a (length bs) x \<Longrightarrow> write_bytes m a bs x = m x"
proof (induction bs arbitrary: m a)
  case (Cons b bs)
  then have "x \<noteq> a" and "\<not> in_range (a + 1) (length bs) x"
    by (auto simp: in_range_Suc)
  then show ?case using Cons by simp
qed simp

lemma not_in_range_next:
  assumes "n < 2 ^ 32"
  shows "\<not> in_range (a + 1) n a"
proof
  assume "in_range (a + 1) n a"
  then have "unat (- 1 :: u32) < n" by (simp add: in_range_def)
  then have "2 ^ 32 - 1 < n" by (simp add: unsigned_minus_1_eq_mask mask_eq_exp_minus_1)
  then show False using assms by simp
qed

lemma mem_bytes_write_bytes:
  "length bs < 2 ^ 32 \<Longrightarrow> mem_bytes (write_bytes m a bs) a (length bs) = bs"
proof (induction bs arbitrary: m a)
  case (Cons b bs)
  have "write_bytes (m(a := b)) (a + 1) bs a = b"
    using Cons.prems not_in_range_next [of "length bs" a]
    by (subst write_bytes_other) auto
  then show ?case using Cons by (simp add: mem_bytes_Suc)
qed simp

lemma fill_zero_write: "fill_zero m s n = write_bytes m s (replicate n 0)"
  by (induction n arbitrary: m s) auto

lemma mem_bytes_upd:
  assumes "n < 2 ^ 32" and "\<not> in_range a n x"
  shows "mem_bytes (m(x := b)) a n = mem_bytes m a n"
proof -
  have "a + of_nat i \<noteq> x" if "i < n" for i
  proof
    assume "a + of_nat i = x"
    then have "x - a = of_nat i" by (simp add: algebra_simps)
    then have "unat (x - a) = i" using that assms(1) by (simp add: unat_of_nat)
    then show False using that assms(2) by (simp add: in_range_def)
  qed
  then show ?thesis by (auto simp: mem_bytes_def)
qed

lemma mem_bytes_after_copy:
  assumes "Suc n < 2 ^ 32" and "unat (s - t) = 0 \<or> Suc n \<le> unat (s - t)"
  shows "mem_bytes (m(s := m t)) (t + 1) n = mem_bytes m (t + 1) n"
proof (cases "s = t")
  case False
  then have "Suc n \<le> unat (s - t)" using assms(2) by (simp add: unat_eq_zero)
  then have "\<not> in_range (t + 1) n s"
    using False assms(1) in_range_Suc [of n t s] by (auto simp: in_range_def)
  then show ?thesis using assms(1) by (intro mem_bytes_upd) auto
qed simp

lemma strncpy_loop_eq:
  assumes "n < 2 ^ 32" and "unat (s - t) = 0 \<or> n \<le> unat (s - t)"
  shows "strncpy_loop m s t n = write_bytes m s (strncpy_l (mem_bytes m t n) n)"
  using assms
proof (induction n arbitrary: m s t)
  case (Suc n)
  have "n < 2 ^ 32" and "unat (s + 1 - (t + 1)) = 0 \<or> n \<le> unat (s + 1 - (t + 1))"
    using Suc.prems by auto
  note ih = Suc.IH [OF this, of "m(s := m t)"]
  have "strncpy_loop (m(s := m t)) (s + 1) (t + 1) n
      = write_bytes (m(s := m t)) (s + 1) (strncpy_l (mem_bytes m (t + 1) n) n)"
    by (simp only: ih mem_bytes_after_copy [OF Suc.prems])
  then show ?case by (simp add: mem_bytes_Suc Let_def fill_zero_write)
qed simp

lemma safestrcpy_loop_eq:
  assumes "n < 2 ^ 32" and "unat (s - t) = 0 \<or> n \<le> unat (s - t)"
  shows "safestrcpy_loop m s t n = write_bytes m s (safestrcpy_l (mem_bytes m t n) n)"
  using assms
proof (induction n arbitrary: m s t)
  case (Suc n)
  have "n < 2 ^ 32" and "unat (s + 1 - (t + 1)) = 0 \<or> n \<le> unat (s + 1 - (t + 1))"
    using Suc.prems by auto
  note ih = Suc.IH [OF this, of "m(s := m t)"]
  have "safestrcpy_loop (m(s := m t)) (s + 1) (t + 1) n
      = write_bytes (m(s := m t)) (s + 1) (safestrcpy_l (mem_bytes m (t + 1) n) n)"
    by (simp only: ih mem_bytes_after_copy [OF Suc.prems])
  then show ?case by (auto simp: mem_bytes_Suc Let_def)
qed simp

section \<open>memmove() on overlapping ranges\<close>

text \<open>
  Memmove copies as through a buffer of its own: afterwards the destination
  holds the bytes the source had before, also when the two ranges overlap in
  either direction, and no byte outside the destination changes.
\<close>

lemma memmove_as_buffered:
  assumes "unat src + unat n \<le> 2 ^ 32" and "unat dst + unat n \<le> 2 ^ 32"
  shows "mem_bytes (memmove m dst src n) dst (unat n) = mem_bytes m src (unat n)
    \<and> (\<forall>x. \<not> in_range dst (unat n) x \<longrightarrow> memmove m dst src n x = m x)"
proof -
  have "in_range dst (unat n) (dst + of_nat i)" if "i < unat n" for i
    using that unat_u32 [of n] by (simp add: in_range_def unat_of_nat)
  then show ?thesis using memmove_eq [OF assms, of m] by (simp add: mem_bytes_def)
qed

lemma memmove_as_buffered_witness:
  "mem_bytes (memmove (\<lambda>x. ucast x) 6 5 3) 6 3 = [5, 6, 7] \<and> mem_bytes (memmove (\<lambda>x. ucast x) 4 5 3) 4 3 = [5, 6, 7]"
proof -
  have src: "mem_bytes (\<lambda>x. ucast x) 5 3 = [5, 6, 7]" by (simp add: numeral_3_eq_3 mem_bytes_Suc)
  show ?thesis
    using memmove_as_buffered [of 5 3 6 "\<lambda>x. ucast x"] memmove_as_buffered [of 5 3 4 "\<lambda>x. ucast x"] by (simp add: src)
qed

end
