(* ===== verification/Kstate.thy ===== *)
theory Kstate
  imports CString
begin

text \<open>
  The kernel's shared objects: the constants of param.h, the identities of
  locks and sleep channels, the process structure of proc.h, and the part of
  the kernel state that every component needs: the spin locks the CPU holds,
  the process table, and the sleep locks.  Component theories extend the
  record with their own state, so their operations run on every larger state.
\<close>

section \<open>param.h\<close>

abbreviation (input) NPROC :: nat where "NPROC \<equiv> 64"
abbreviation (input) NOFILE :: nat where "NOFILE \<equiv> 16"
abbreviation (input) NFILE :: nat where "NFILE \<equiv> 100"
abbreviation (input) NINODE :: nat where "NINODE \<equiv> 50"
abbreviation (input) NDEV :: int where "NDEV \<equiv> 10"
abbreviation (input) ROOTDEV :: u32 where "ROOTDEV \<equiv> 1"
abbreviation (input) MAXARG :: nat where "MAXARG \<equiv> 32"
abbreviation (input) MAXOPBLOCKS :: int where "MAXOPBLOCKS \<equiv> 10"
abbreviation (input) LOGSIZE :: int where "LOGSIZE \<equiv> 30"
abbreviation (input) NBUF :: nat where "NBUF \<equiv> 30"
abbreviation (input) FSSIZE :: nat where "FSSIZE \<equiv> 1000"

section \<open>Locks and sleep channels\<close>

text \<open>
  C code names a lock and a sleep channel by an address.  These types have one
  value per object whose address the kernel uses so: the sleep lock of a
  buffer or an inode, the lock of a global table, of a pipe (a pipe is
  identified by the page it lives in) or of a sleep lock; and as channels a
  process, a sleep lock, the log, a pipe's counters, the tick counter, the
  console's read index and a buffer waiting for the disk.
\<close>

datatype slkid = SL_buf nat | SL_inode nat

datatype lockid = L_ptable | L_kmem | L_bcache | L_icache | L_ftable | L_log | L_cons
  | L_ticks | L_ide | L_pipe u32 | L_slk slkid

datatype chan = Ch_proc nat | Ch_slk slkid | Ch_log | Ch_nread u32 | Ch_nwrite u32
  | Ch_ticks | Ch_input | Ch_buf nat

section \<open>Processes (proc.h, x86.h)\<close>

datatype procstate = UNUSED | EMBRYO | SLEEPING | RUNNABLE | RUNNING | ZOMBIE

record trapframe =
  tf_edi :: u32
  tf_esi :: u32
  tf_ebp :: u32
  tf_ebx :: u32
  tf_edx :: u32
  tf_ecx :: u32
  tf_eax :: u32
  tf_es :: u16
  tf_ds :: u16
  tf_trapno :: u32
  tf_err :: u32
  tf_eip :: u32
  tf_cs :: u16
  tf_eflags :: u32
  tf_esp :: u32
  tf_ss :: u16

definition zero_tf :: trapframe where
  "zero_tf = \<lparr>tf_edi = 0, tf_esi = 0, tf_ebp = 0, tf_ebx = 0, tf_edx = 0, tf_ecx = 0, tf_eax = 0,
     tf_es = 0, tf_ds = 0, tf_trapno = 0, tf_err = 0, tf_eip = 0, tf_cs = 0, tf_eflags = 0,
     tf_esp = 0, tf_ss = 0\<rparr>"

text \<open>
  struct proc.  The saved kernel context of a process is represented by the
  address its next swtch() resumes at (\<open>ctx_eip\<close>); the trap frame, which lives
  at the top of the process's own kernel stack, is held by value; a null
  pointer is \<open>None\<close>, or 0 for an address.
\<close>

record proc =
  sz :: u32
  pgdir :: u32
  kstack :: u32
  pstate :: procstate
  pid :: int
  parent :: "nat option"
  tf :: trapframe
  ctx_eip :: u32
  pchan :: "chan option"
  killed :: bool
  ofile :: "nat option list"
  cwd :: "nat option"
  pname :: bytes

text \<open>A process slot as the zero-initialised bss leaves it.\<close>

definition zero_proc :: proc where
  "zero_proc = \<lparr>sz = 0, pgdir = 0, kstack = 0, pstate = UNUSED, pid = 0, parent = None, tf = zero_tf,
     ctx_eip = 0, pchan = None, killed = False, ofile = replicate NOFILE None, cwd = None,
     pname = replicate 16 0\<rparr>"

section \<open>The state every component shares\<close>

record sleeplock =
  sl_locked :: bool
  sl_pid :: int

text \<open>
  \<open>held\<close> lists the spin locks the CPU that runs the modelled code holds, the
  most recent first; \<open>cur\<close> is its \<open>cpu->proc\<close>.
\<close>

record kst =
  held :: "lockid list"
  cur :: "nat option"
  procs :: "proc list"
  nextpid :: int
  initproc :: "nat option"
  slks :: "slkid \<Rightarrow> sleeplock"

definition upd_proc :: "nat \<Rightarrow> (proc \<Rightarrow> proc) \<Rightarrow> ('z kst_scheme, unit) kfun" where
  "upd_proc i f = modM (\<lambda>s. s\<lparr>procs := (procs s)[i := f (procs s ! i)]\<rparr>)"

section \<open>Spin locks as kernel code uses them\<close>

text \<open>
  What acquire() and release() of spinlock.c do to the locks the running CPU
  holds; Spinlock.thy models the routines themselves on several CPUs and
  proves that they refine these.
\<close>

definition acquire :: "lockid \<Rightarrow> ('z kst_scheme, unit) kfun" where
  "acquire l = (\<lambda>s. if l \<in> set (held s) then Panic ''acquire''
     else Ok () (s\<lparr>held := l # held s\<rparr>))"

definition release :: "lockid \<Rightarrow> ('z kst_scheme, unit) kfun" where
  "release l = (\<lambda>s. if l \<notin> set (held s) then Panic ''release''
     else Ok () (s\<lparr>held := remove1 l (held s)\<rparr>))"

text \<open>proc.c, myproc(): the process on this CPU, or null.\<close>

definition myproc :: "('z kst_scheme, nat option) kfun" where
  "myproc = getM cur"

text \<open>\<open>myproc()->...\<close>: code that uses the current process without a null check.\<close>

definition curproc :: "('z kst_scheme, nat) kfun" where
  "curproc = bindM myproc (\<lambda>p. case p of None \<Rightarrow> faultM ''myproc() is null'' | Some i \<Rightarrow> retM i)"

lemma acquire_apply [kcode]:
  "acquire l s = (if l \<in> set (held s) then Panic ''acquire'' else Ok () (s\<lparr>held := l # held s\<rparr>))"
  by (simp add: acquire_def)

lemma release_apply [kcode]:
  "release l s = (if l \<notin> set (held s) then Panic ''release''
     else Ok () (s\<lparr>held := remove1 l (held s)\<rparr>))"
  by (simp add: release_def)

lemma myproc_apply [kcode]: "myproc s = Ok (cur s) s"
  by (simp add: myproc_def kcode)

lemma curproc_apply [kcode]:
  "curproc s = (case cur s of None \<Rightarrow> Fault ''myproc() is null'' | Some i \<Rightarrow> Ok i s)"
  by (simp add: curproc_def kcode split: option.split)

lemma upd_proc_apply [kcode]:
  "upd_proc i f s = Ok () (s\<lparr>procs := (procs s)[i := f (procs s ! i)]\<rparr>)"
  by (simp add: upd_proc_def kcode)


section \<open>Loops over the process table\<close>

lemma foreachM_append [kcode]:
  "foreachM (xs @ ys) f s = thenM (foreachM xs f) (foreachM ys f) s"
  by (induction xs arbitrary: s) (simp_all add: kcode split: outcome.split)

text \<open>A loop that visits every slot and updates some in place is a map over the table.\<close>

lemma foreachM_upd_proc:
  assumes "n \<le> length (procs s)"
  shows "foreachM [0..<n] (\<lambda>i. bindM (getM (\<lambda>s. procs s ! i)) (\<lambda>p. whenM (P p) (upd_proc i f))) s
    = Ok () (s\<lparr>procs := map (\<lambda>p. if P p then f p else p) (take n (procs s)) @ drop n (procs s)\<rparr>)"
  using assms
proof (induction n)
  case 0
  then show ?case by (simp add: kcode)
next
  case (Suc n)
  let ?g = "\<lambda>p. if P p then f p else p"
  let ?xs = "map ?g (take n (procs s)) @ drop n (procs s)"
  have n: "n < length (procs s)" using Suc.prems by simp
  have nth: "?xs ! n = procs s ! n"
    using n by (simp add: nth_append min_def)
  have upd: "?xs[n := f (procs s ! n)] = map ?g (take n (procs s)) @ f (procs s ! n) # drop (Suc n) (procs s)"
    using n by (simp add: list_update_append min_def Cons_nth_drop_Suc [symmetric])
  have tk: "take (Suc n) (procs s) = take n (procs s) @ [procs s ! n]"
    using n by (rule take_Suc_conv_app_nth)
  have dr: "drop n (procs s) = procs s ! n # drop (Suc n) (procs s)"
    using n by (rule Cons_nth_drop_Suc [symmetric])
  show ?case
    using Suc.IH n nth upd tk dr by (simp add: kcode)
qed

lemmas foreachM_all_procs = foreachM_upd_proc [where n = NPROC]

end
