(* ===== verification/Spinlock.thy ===== *)
theory Spinlock
  imports Kstate
begin

text \<open>
  spinlock.c on several CPUs: pushcli/popcli, holding, acquire and release as
  the code a CPU runs, the interleaving of their memory accesses as a step
  relation with mutual exclusion as its invariant, and the refinement of the
  lock set that the rest of the development works with.
\<close>

section \<open>State: struct cpu and struct spinlock\<close>

record cpu =
  apicid :: u8
  fl_if :: bool      \<comment> \<open>the interrupt flag of the CPU's eflags\<close>
  ncli :: int
  intena :: bool

text \<open>The debugging fields \<open>name\<close> and \<open>pcs\<close> are written and never tested.\<close>

record spinlock =
  locked :: bool
  lcpu :: "nat option"

record smp =
  cpus :: "cpu list"
  lks :: "lockid \<Rightarrow> spinlock"

section \<open>The routines, run by CPU c\<close>

definition upd_cpu :: "nat \<Rightarrow> (cpu \<Rightarrow> cpu) \<Rightarrow> (smp, unit) kfun" where
  "upd_cpu c f = modM (\<lambda>s. s\<lparr>cpus := (cpus s)[c := f (cpus s ! c)]\<rparr>)"

definition upd_lk :: "lockid \<Rightarrow> (spinlock \<Rightarrow> spinlock) \<Rightarrow> (smp, unit) kfun" where
  "upd_lk l f = modM (\<lambda>s. s\<lparr>lks := (lks s)(l := f (lks s l))\<rparr>)"

text \<open>
  mycpu(): find the CPU by the id its local APIC reports, with interrupts off.
\<close>

fun find_apic :: "cpu list \<Rightarrow> nat \<Rightarrow> u8 \<Rightarrow> nat option" where
  "find_apic [] i a = None"
| "find_apic (p # ps) i a = (if apicid p = a then Some i else find_apic ps (Suc i) a)"

definition mycpu :: "nat \<Rightarrow> (smp, nat) kfun" where
  "mycpu c = (\<lambda>s.
     if fl_if (cpus s ! c) then Panic ''mycpu called with interrupts enabled''
     else case find_apic (cpus s) 0 (apicid (cpus s ! c)) of
            Some i \<Rightarrow> Ok i s
          | None \<Rightarrow> Panic ''unknown apicid'')"

definition initlock :: "lockid \<Rightarrow> (smp, unit) kfun" where
  "initlock l = upd_lk l (\<lambda>_. \<lparr>locked = False, lcpu = None\<rparr>)"

definition pushcli :: "nat \<Rightarrow> (smp, unit) kfun" where
  "pushcli c =
     bindM (getM (\<lambda>s. fl_if (cpus s ! c))) (\<lambda>eflags.
     thenM (upd_cpu c (fl_if_update (\<lambda>_. False)))
     (bindM (mycpu c) (\<lambda>me.
     thenM (upd_cpu me (\<lambda>p. if ncli p = 0 then p\<lparr>intena := eflags\<rparr> else p))
     (upd_cpu me (\<lambda>p. p\<lparr>ncli := ncli p + 1\<rparr>)))))"

definition popcli :: "nat \<Rightarrow> (smp, unit) kfun" where
  "popcli c =
     bindM (getM (\<lambda>s. fl_if (cpus s ! c))) (\<lambda>fl.
     if fl then panicM ''popcli - interruptible'' else
     bindM (mycpu c) (\<lambda>me.
     thenM (upd_cpu me (\<lambda>p. p\<lparr>ncli := ncli p - 1\<rparr>))
     (bindM (getM (\<lambda>s. cpus s ! me)) (\<lambda>p.
      if ncli p < 0 then panicM ''popcli''
      else whenM (ncli p = 0 \<and> intena p) (upd_cpu c (fl_if_update (\<lambda>_. True)))))))"

definition holding :: "nat \<Rightarrow> lockid \<Rightarrow> (smp, bool) kfun" where
  "holding c l =
     thenM (pushcli c)
     (bindM (mycpu c) (\<lambda>me.
      bindM (getM (\<lambda>s. locked (lks s l) \<and> lcpu (lks s l) = Some me)) (\<lambda>r.
      thenM (popcli c) (retM r))))"

text \<open>
  The busy-wait ends at its first xchg when the lock is free; when another
  CPU has it, this CPU alone spins for ever.
\<close>

definition spin_acquire :: "nat \<Rightarrow> lockid \<Rightarrow> (smp, unit) kfun" where
  "spin_acquire c l =
     thenM (pushcli c)
     (bindM (holding c l) (\<lambda>h.
      if h then panicM ''acquire'' else
      bindM (getM (\<lambda>s. locked (lks s l))) (\<lambda>busy.
      if busy then spinM else
      thenM (upd_lk l (\<lambda>k. k\<lparr>locked := True\<rparr>))
      (bindM (mycpu c) (\<lambda>me. upd_lk l (\<lambda>k. k\<lparr>lcpu := Some me\<rparr>))))))"

definition spin_release :: "nat \<Rightarrow> lockid \<Rightarrow> (smp, unit) kfun" where
  "spin_release c l =
     bindM (holding c l) (\<lambda>h.
      if \<not> h then panicM ''release'' else
      thenM (upd_lk l (\<lambda>k. k\<lparr>lcpu := None\<rparr>))
      (thenM (upd_lk l (\<lambda>k. k\<lparr>locked := False\<rparr>))
      (popcli c)))"

section \<open>The routines on a well-formed state\<close>

text \<open>Each CPU has its own APIC id, and a CPU inside pushcli has interrupts off.\<close>

definition cpu_ok :: "cpu \<Rightarrow> bool" where
  "cpu_ok p \<longleftrightarrow> 0 \<le> ncli p \<and> (0 < ncli p \<longrightarrow> \<not> fl_if p)"

definition smp_ok :: "smp \<Rightarrow> bool" where
  "smp_ok s \<longleftrightarrow> distinct (map apicid (cpus s)) \<and> list_all cpu_ok (cpus s)"

lemma find_apic_nth:
  "distinct (map apicid ps) \<Longrightarrow> c < length ps \<Longrightarrow> find_apic ps i (apicid (ps ! c)) = Some (i + c)"
proof (induction ps arbitrary: i c)
  case (Cons p ps)
  show ?case
  proof (cases c)
    case (Suc c')
    then have "apicid (ps ! c') \<in> apicid ` set ps" using Cons.prems by simp
    then have "apicid p \<noteq> apicid (ps ! c')" using Cons.prems(1) by auto
    then show ?thesis using Cons Suc by simp
  qed simp
qed simp

lemma mycpu_self:
  assumes "distinct (map apicid (cpus s))" and "c < length (cpus s)" and "\<not> fl_if (cpus s ! c)"
  shows "mycpu c s = Ok c s"
  using find_apic_nth [OF assms(1,2), of 0] assms(3) by (simp add: mycpu_def)

lemma apicid_upd:
  assumes "\<And>p. apicid (f p) = apicid p"
  shows "map apicid (ps[c := f (ps ! c)]) = map apicid ps"
proof (cases "c < length ps")
  case True
  then have "apicid (ps ! c) = map apicid ps ! c" by simp
  then show ?thesis by (metis assms list_update_id map_update)
qed (simp add: list_update_beyond)

text \<open>What one pushcli and one popcli do to the running CPU.\<close>

definition pushed :: "cpu \<Rightarrow> cpu" where
  "pushed p = p\<lparr>fl_if := False, intena := (if ncli p = 0 then fl_if p else intena p), ncli := ncli p + 1\<rparr>"

definition popped :: "cpu \<Rightarrow> cpu" where
  "popped p = (if ncli p = 1 \<and> intena p then p\<lparr>ncli := ncli p - 1, fl_if := True\<rparr>
     else p\<lparr>ncli := ncli p - 1\<rparr>)"

lemma smp_ok_cpu: "smp_ok s \<Longrightarrow> c < length (cpus s) \<Longrightarrow> cpu_ok (cpus s ! c)"
  by (simp add: smp_ok_def list_all_length)

lemma smp_ok_upd:
  assumes "smp_ok s" and "cpu_ok (f (cpus s ! c))" and "\<And>p. apicid (f p) = apicid p"
  shows "smp_ok (s\<lparr>cpus := (cpus s)[c := f (cpus s ! c)]\<rparr>)"
  using assms apicid_upd [of f "cpus s" c]
  by (cases "c < length (cpus s)")
     (auto simp: smp_ok_def list_all_length nth_list_update list_update_beyond)

lemma pushcli_eq:
  assumes "smp_ok s" and "c < length (cpus s)"
  shows "pushcli c s = Ok () (s\<lparr>cpus := (cpus s)[c := pushed (cpus s ! c)]\<rparr>)"
proof -
  let ?s = "s\<lparr>cpus := (cpus s)[c := (cpus s ! c)\<lparr>fl_if := False\<rparr>]\<rparr>"
  have "mycpu c ?s = Ok c ?s"
    using assms apicid_upd [of "fl_if_update (\<lambda>_. False)" "cpus s" c]
    by (intro mycpu_self) (auto simp: smp_ok_def)
  then show ?thesis
    using assms(2) by (simp add: pushcli_def upd_cpu_def kcode pushed_def)
qed

lemma popcli_eq:
  assumes "smp_ok s" and "c < length (cpus s)" and "0 < ncli (cpus s ! c)"
  shows "popcli c s = Ok () (s\<lparr>cpus := (cpus s)[c := popped (cpus s ! c)]\<rparr>)"
proof -
  have nif: "\<not> fl_if (cpus s ! c)"
    using assms smp_ok_cpu [of s c] by (auto simp: cpu_ok_def)
  then have "mycpu c s = Ok c s"
    using assms by (intro mycpu_self) (auto simp: smp_ok_def)
  then show ?thesis
    using assms nif by (auto simp: popcli_def upd_cpu_def kcode popped_def)
qed

lemma popped_pushed:
  assumes "cpu_ok p" and "0 < ncli p"
  shows "popped (pushed p) = p"
  using assms by (cases p) (auto simp: popped_def pushed_def cpu_ok_def)

lemma cpu_ok_pushed [simp]: "cpu_ok p \<Longrightarrow> cpu_ok (pushed p)"
  by (auto simp: cpu_ok_def pushed_def)

lemma cpu_ok_popped [simp]: "cpu_ok p \<Longrightarrow> 0 < ncli p \<Longrightarrow> cpu_ok (popped p)"
  by (auto simp: cpu_ok_def popped_def)

lemma pushed_fields [simp]: "ncli (pushed p) = ncli p + 1" "fl_if (pushed p) = False"
  "apicid (pushed p) = apicid p" "apicid (popped p) = apicid p" "ncli (popped p) = ncli p - 1"
  by (simp_all add: pushed_def popped_def)

text \<open>With interrupts already pushed off, holding() is a pure test.\<close>

lemma holding_eq:
  assumes ok: "smp_ok s" and c: "c < length (cpus s)" and n: "0 < ncli (cpus s ! c)"
  shows "holding c l s = Ok (locked (lks s l) \<and> lcpu (lks s l) = Some c) s"
proof -
  let ?t = "s\<lparr>cpus := (cpus s)[c := pushed (cpus s ! c)]\<rparr>"
  have okp: "cpu_ok (cpus s ! c)" using ok c by (rule smp_ok_cpu)
  have ok': "smp_ok ?t" using ok okp by (intro smp_ok_upd) auto
  have "mycpu c ?t = Ok c ?t"
    using ok' c by (intro mycpu_self) (auto simp: smp_ok_def)
  moreover have "popcli c ?t = Ok () s"
    using popcli_eq [OF ok', of c] c n okp by (simp add: popped_pushed)
  ultimately show ?thesis
    using pushcli_eq [OF ok c] by (simp add: holding_def kcode)
qed


section \<open>The lock interface and its two implementations\<close>

text \<open>
  What a client of a spin lock relies on: acquire adds the lock to those held
  and panics when it is already held, release removes it and panics when it
  is not held, and both keep the provider's invariant.
\<close>

locale lock_ops =
  fixes acq :: "'l \<Rightarrow> ('s, unit) kfun"
    and rel :: "'l \<Rightarrow> ('s, unit) kfun"
    and hset :: "'s \<Rightarrow> 'l set"
    and inv :: "'s \<Rightarrow> bool"
    and avail :: "'l \<Rightarrow> 's \<Rightarrow> bool"
  assumes acq_free: "inv s \<Longrightarrow> avail l s \<Longrightarrow> l \<notin> hset s \<Longrightarrow>
      \<exists>t. acq l s = Ok () t \<and> inv t \<and> hset t = insert l (hset s)"
    and acq_held: "inv s \<Longrightarrow> l \<in> hset s \<Longrightarrow> acq l s = Panic ''acquire''"
    and rel_held: "inv s \<Longrightarrow> l \<in> hset s \<Longrightarrow>
      \<exists>t. rel l s = Ok () t \<and> inv t \<and> hset t = hset s - {l}"
begin

lemma critical_section:
  assumes "inv s" and "avail l s" and "l \<notin> hset s"
    and body: "\<And>u. inv u \<Longrightarrow> hset u = insert l (hset s) \<Longrightarrow>
        \<exists>r v. body u = Ok r v \<and> inv v \<and> hset v = hset u"
  shows "\<exists>r t. bindM (acq l) (\<lambda>_. bindM body (\<lambda>r. bindM (rel l) (\<lambda>_. retM r))) s = Ok r t
    \<and> inv t \<and> hset t = hset s"
proof -
  obtain u where u: "acq l s = Ok () u" "inv u" "hset u = insert l (hset s)"
    using acq_free assms(1-3) by blast
  obtain r v where v: "body u = Ok r v" "inv v" "hset v = hset u"
    using body u by blast
  obtain t where t: "rel l v = Ok () t" "inv t" "hset t = hset v - {l}"
    using rel_held [of v l] u v by auto
  have "hset t = hset s" using t(3) v(3) u(3) assms(3) by auto
  then show ?thesis using u v t by (simp add: kcode)
qed

lemma nested_acquire_panics:
  assumes "inv s" and "avail l s" and "l \<notin> hset s"
  shows "thenM (acq l) (acq l) s = Panic ''acquire''"
proof -
  obtain u where "acq l s = Ok () u" "inv u" "hset u = insert l (hset s)"
    using acq_free assms by blast
  then show ?thesis using acq_held [of u l] by (simp add: kcode)
qed

end

text \<open>The lock set of the kernel state is one implementation.\<close>

interpretation kst_locks: lock_ops acquire release "\<lambda>s :: 'z kst_scheme. set (held s)"
  "\<lambda>s. distinct (held s)" "\<lambda>_ _. True"
  by unfold_locales (auto simp: kcode)

text \<open>
  spinlock.c is the other: the locks a CPU holds are those that name it, its
  pushcli depth is their number, and a lock is available when no other CPU has
  it.
\<close>

definition cpu_holds :: "nat \<Rightarrow> smp \<Rightarrow> lockid set" where
  "cpu_holds c s = {l. locked (lks s l) \<and> lcpu (lks s l) = Some c}"

definition spin_inv :: "nat \<Rightarrow> smp \<Rightarrow> bool" where
  "spin_inv c s \<longleftrightarrow> smp_ok s \<and> c < length (cpus s) \<and> finite (cpu_holds c s)
     \<and> ncli (cpus s ! c) = int (card (cpu_holds c s))"

definition not_elsewhere :: "nat \<Rightarrow> lockid \<Rightarrow> smp \<Rightarrow> bool" where
  "not_elsewhere c l s \<longleftrightarrow> (locked (lks s l) \<longrightarrow> lcpu (lks s l) = Some c)"

lemma cpu_holds_cpus [simp]: "cpu_holds c (s\<lparr>cpus := ps\<rparr>) = cpu_holds c s"
  by (simp add: cpu_holds_def)

lemma spinlock_both [simp]:
  "k\<lparr>locked := a, lcpu := b\<rparr> = \<lparr>locked = a, lcpu = b\<rparr>"
  "k\<lparr>lcpu := b, locked := a\<rparr> = \<lparr>locked = a, lcpu = b\<rparr>"
  by (cases k; simp)+

lemma spin_acquire_eq:
  assumes "spin_inv c s"
  shows "spin_acquire c l s =
    (if l \<in> cpu_holds c s then Panic ''acquire''
     else if locked (lks s l) then Spin
     else Ok () (s\<lparr>cpus := (cpus s)[c := pushed (cpus s ! c)],
                  lks := (lks s)(l := \<lparr>locked = True, lcpu = Some c\<rparr>)\<rparr>))"
proof -
  let ?t = "s\<lparr>cpus := (cpus s)[c := pushed (cpus s ! c)]\<rparr>"
  have ok: "smp_ok s" and c: "c < length (cpus s)" and n: "0 \<le> ncli (cpus s ! c)"
    using assms by (auto simp: spin_inv_def)
  have ok': "smp_ok ?t" using ok c smp_ok_cpu [of s c] by (intro smp_ok_upd) auto
  have h: "holding c l ?t = Ok (l \<in> cpu_holds c s) ?t"
    using holding_eq [OF ok', of c l] c n by (simp add: cpu_holds_def)
  have "mycpu c (?t\<lparr>lks := f\<rparr>) = Ok c (?t\<lparr>lks := f\<rparr>)" for f
    using ok' c by (intro mycpu_self) (auto simp: smp_ok_def)
  then show ?thesis
    using h pushcli_eq [OF ok c] by (auto simp: spin_acquire_def upd_lk_def kcode)
qed

lemma spin_release_eq:
  assumes "spin_inv c s" and "l \<in> cpu_holds c s"
  shows "spin_release c l s =
    Ok () (s\<lparr>cpus := (cpus s)[c := popped (cpus s ! c)],
            lks := (lks s)(l := \<lparr>locked = False, lcpu = None\<rparr>)\<rparr>)"
proof -
  have ok: "smp_ok s" and c: "c < length (cpus s)"
    using assms(1) by (auto simp: spin_inv_def)
  have "0 < card (cpu_holds c s)" using assms by (auto simp: spin_inv_def card_gt_0_iff)
  then have n: "0 < ncli (cpus s ! c)" using assms(1) by (simp add: spin_inv_def)
  have h: "holding c l s = Ok True s"
    using holding_eq [OF ok c n] assms(2) by (simp add: cpu_holds_def)
  have "popcli c (s\<lparr>lks := f\<rparr>) = Ok () (s\<lparr>lks := f, cpus := (cpus s)[c := popped (cpus s ! c)]\<rparr>)" for f
    using popcli_eq [of "s\<lparr>lks := f\<rparr>" c] ok c n by (simp add: smp_ok_def)
  then show ?thesis
    using h by (simp add: spin_release_def upd_lk_def kcode)
qed


lemma spin_inv_locked:
  assumes "spin_inv c s" and "l \<notin> cpu_holds c s"
  shows "spin_inv c (s\<lparr>cpus := (cpus s)[c := pushed (cpus s ! c)],
           lks := (lks s)(l := \<lparr>locked = True, lcpu = Some c\<rparr>)\<rparr>)" (is "spin_inv c ?t")
    and "cpu_holds c (s\<lparr>cpus := (cpus s)[c := pushed (cpus s ! c)],
           lks := (lks s)(l := \<lparr>locked = True, lcpu = Some c\<rparr>)\<rparr>) = insert l (cpu_holds c s)"
proof -
  show hs: "cpu_holds c ?t = insert l (cpu_holds c s)"
    by (auto simp: cpu_holds_def)
  have "smp_ok (s\<lparr>cpus := (cpus s)[c := pushed (cpus s ! c)]\<rparr>)"
    using assms(1) smp_ok_cpu [of s c] by (intro smp_ok_upd) (auto simp: spin_inv_def)
  then have "smp_ok ?t" by (simp add: smp_ok_def)
  then show "spin_inv c ?t"
    using assms hs by (simp add: spin_inv_def)
qed

lemma spin_inv_unlocked:
  assumes "spin_inv c s" and "l \<in> cpu_holds c s"
  shows "spin_inv c (s\<lparr>cpus := (cpus s)[c := popped (cpus s ! c)],
           lks := (lks s)(l := \<lparr>locked = False, lcpu = None\<rparr>)\<rparr>)" (is "spin_inv c ?t")
    and "cpu_holds c (s\<lparr>cpus := (cpus s)[c := popped (cpus s ! c)],
           lks := (lks s)(l := \<lparr>locked = False, lcpu = None\<rparr>)\<rparr>) = cpu_holds c s - {l}"
proof -
  show hs: "cpu_holds c ?t = cpu_holds c s - {l}"
    by (auto simp: cpu_holds_def)
  have n: "0 < card (cpu_holds c s)" using assms by (auto simp: spin_inv_def card_gt_0_iff)
  have "smp_ok (s\<lparr>cpus := (cpus s)[c := popped (cpus s ! c)]\<rparr>)"
    using assms(1) n smp_ok_cpu [of s c] by (intro smp_ok_upd) (auto simp: spin_inv_def)
  then have "smp_ok ?t" by (simp add: smp_ok_def)
  then show "spin_inv c ?t"
    using assms n hs by (simp add: spin_inv_def of_nat_diff)
qed

interpretation spin_locks: lock_ops "spin_acquire c" "spin_release c" "cpu_holds c" "spin_inv c"
    "not_elsewhere c" for c
proof (unfold_locales, goal_cases)
  case (1 s l)
  then have "\<not> locked (lks s l)" by (auto simp: not_elsewhere_def cpu_holds_def)
  then show ?case
    using 1 spin_inv_locked [of c s l] by (auto simp: spin_acquire_eq)
next
  case (2 s l)
  then show ?case by (simp add: spin_acquire_eq)
next
  case (3 s l)
  then show ?case using spin_inv_unlocked [of c s l] by (auto simp: spin_release_eq)
qed

section \<open>Interleaved CPUs: mutual exclusion\<close>

text \<open>
  The memory accesses of acquire() and release() on one lock, each an atomic
  step of one CPU.  \<open>Want\<close> is the loop around the atomic xchg; after it
  succeeds the CPU still has to store \<open>lk->cpu\<close> (\<open>Got\<close>); release() clears
  \<open>lk->cpu\<close> first and \<open>lk->locked\<close> in a second store (\<open>Rel\<close>).
\<close>

datatype lkpc = Out | Want | Got | Crit | Rel

record lkstate =
  the_lk :: spinlock
  lkpcs :: "nat \<Rightarrow> lkpc"

inductive lkstep :: "nat \<Rightarrow> lkstate \<Rightarrow> lkstate \<Rightarrow> bool" where
  begin_acquire: "lkpcs s c = Out \<Longrightarrow> lcpu (the_lk s) \<noteq> Some c \<or> \<not> locked (the_lk s) \<Longrightarrow>
    lkstep c s (s\<lparr>lkpcs := (lkpcs s)(c := Want)\<rparr>)"
| xchg_busy: "lkpcs s c = Want \<Longrightarrow> locked (the_lk s) \<Longrightarrow>
    lkstep c s (s\<lparr>the_lk := (the_lk s)\<lparr>locked := True\<rparr>\<rparr>)"
| xchg_free: "lkpcs s c = Want \<Longrightarrow> \<not> locked (the_lk s) \<Longrightarrow>
    lkstep c s (s\<lparr>the_lk := (the_lk s)\<lparr>locked := True\<rparr>, lkpcs := (lkpcs s)(c := Got)\<rparr>)"
| set_cpu: "lkpcs s c = Got \<Longrightarrow>
    lkstep c s (s\<lparr>the_lk := (the_lk s)\<lparr>lcpu := Some c\<rparr>, lkpcs := (lkpcs s)(c := Crit)\<rparr>)"
| clear_cpu: "lkpcs s c = Crit \<Longrightarrow> locked (the_lk s) \<and> lcpu (the_lk s) = Some c \<Longrightarrow>
    lkstep c s (s\<lparr>the_lk := (the_lk s)\<lparr>lcpu := None\<rparr>, lkpcs := (lkpcs s)(c := Rel)\<rparr>)"
| clear_locked: "lkpcs s c = Rel \<Longrightarrow>
    lkstep c s (s\<lparr>the_lk := (the_lk s)\<lparr>locked := False\<rparr>, lkpcs := (lkpcs s)(c := Out)\<rparr>)"

inductive_cases lkstepE: "lkstep c s t"

definition lkinit :: lkstate where
  "lkinit = \<lparr>the_lk = \<lparr>locked = False, lcpu = None\<rparr>, lkpcs = (\<lambda>_. Out)\<rparr>"

inductive lkreach :: "lkstate \<Rightarrow> bool" where
  init: "lkreach lkinit"
| step: "lkreach s \<Longrightarrow> lkstep c s t \<Longrightarrow> lkreach t"

text \<open>
  The lock word is set exactly while some CPU is past its xchg and before its
  last store, only one CPU is, and \<open>lk->cpu\<close> names a CPU exactly while that
  CPU is in its critical section.
\<close>

definition owning :: "lkpc \<Rightarrow> bool" where
  "owning p \<longleftrightarrow> p = Got \<or> p = Crit \<or> p = Rel"

definition lkinv :: "lkstate \<Rightarrow> bool" where
  "lkinv s \<longleftrightarrow> (\<forall>c d. owning (lkpcs s c) \<longrightarrow> owning (lkpcs s d) \<longrightarrow> c = d)
     \<and> (\<forall>c. owning (lkpcs s c) \<longrightarrow> locked (the_lk s))
     \<and> (\<forall>c. lkpcs s c = Crit \<longleftrightarrow> lcpu (the_lk s) = Some c)"

lemma lkstep_inv: "lkstep c s t \<Longrightarrow> lkinv s \<Longrightarrow> lkinv t"
proof (induction rule: lkstep.induct)
  case (xchg_free s c)
  then have "\<not> owning (lkpcs s d)" for d unfolding lkinv_def by blast
  then show ?case using xchg_free by (simp add: lkinv_def owning_def)
next
  case (clear_locked s c)
  then have u: "owning (lkpcs s d) \<Longrightarrow> d = c" for d unfolding lkinv_def owning_def by blast
  have "\<not> owning (((lkpcs s)(c := Out)) d)" for d using u [of d] by (auto simp: owning_def)
  moreover have "lkpcs s d \<noteq> Crit" for d
    using u [of d] clear_locked(1) by (auto simp: owning_def)
  then have "lcpu (the_lk s) \<noteq> Some d" for d
    using clear_locked(2) unfolding lkinv_def by metis
  ultimately show ?case by (simp add: lkinv_def owning_def)
next
  case (set_cpu s c)
  then have u: "owning (lkpcs s d) \<Longrightarrow> d = c" for d unfolding lkinv_def owning_def by blast
  have "locked (the_lk s)" using set_cpu unfolding lkinv_def owning_def by blast
  moreover have "lkpcs s d \<noteq> Crit" for d
    using u [of d] set_cpu(1) by (auto simp: owning_def)
  ultimately show ?case using u by (auto simp: lkinv_def owning_def)
next
  case (clear_cpu s c)
  then have u: "owning (lkpcs s d) \<Longrightarrow> d = c" for d unfolding lkinv_def owning_def by blast
  then show ?case using clear_cpu(2) by (auto simp: lkinv_def owning_def)
qed (auto simp: lkinv_def owning_def)

lemma lkreach_inv: "lkreach s \<Longrightarrow> lkinv s"
proof (induction rule: lkreach.induct)
  case init
  show ?case by (simp add: lkinv_def lkinit_def owning_def)
next
  case (step s c t)
  then show ?case by (blast intro: lkstep_inv)
qed


section \<open>Properties\<close>

text \<open>
  C1: mutual exclusion.  However the CPUs interleave the memory accesses of
  acquire() and release(), two CPUs are never both between the end of
  acquire() and the start of release() of the same lock, and the test that
  holding() makes is true exactly for the CPU that is there.
\<close>

theorem spinlock_mutual_exclusion:
  assumes "lkreach s"
  shows "(lkpcs s c = Crit \<and> lkpcs s d = Crit \<longrightarrow> c = d)
    \<and> (locked (the_lk s) \<and> lcpu (the_lk s) = Some c \<longleftrightarrow> lkpcs s c = Crit)"
proof -
  have "lkinv s" using assms by (rule lkreach_inv)
  then show ?thesis unfolding lkinv_def owning_def by blast
qed

lemma lkreach_crit_example:
  "lkreach \<lparr>the_lk = \<lparr>locked = True, lcpu = Some 0\<rparr>, lkpcs = (\<lambda>_. Out)(0 := Crit, 1 := Want)\<rparr>"
proof -
  have a: "lkreach \<lparr>the_lk = \<lparr>locked = False, lcpu = None\<rparr>, lkpcs = (\<lambda>_. Out)(1 := Want)\<rparr>"
    using lkreach.step [OF lkreach.init, of 1] lkstep.begin_acquire [of lkinit 1]
    by (simp add: lkinit_def)
  have b: "lkreach \<lparr>the_lk = \<lparr>locked = False, lcpu = None\<rparr>, lkpcs = (\<lambda>_. Out)(1 := Want, 0 := Want)\<rparr>"
    using lkreach.step [OF a, of 0] lkstep.begin_acquire
      [of "\<lparr>the_lk = \<lparr>locked = False, lcpu = None\<rparr>, lkpcs = (\<lambda>_. Out)(1 := Want)\<rparr>" 0] by simp
  have c: "lkreach \<lparr>the_lk = \<lparr>locked = True, lcpu = None\<rparr>, lkpcs = (\<lambda>_. Out)(1 := Want, 0 := Got)\<rparr>"
    using lkreach.step [OF b, of 0] lkstep.xchg_free
      [of "\<lparr>the_lk = \<lparr>locked = False, lcpu = None\<rparr>, lkpcs = (\<lambda>_. Out)(1 := Want, 0 := Want)\<rparr>" 0] by simp
  show ?thesis
    using lkreach.step [OF c, of 0] lkstep.set_cpu
      [of "\<lparr>the_lk = \<lparr>locked = True, lcpu = None\<rparr>, lkpcs = (\<lambda>_. Out)(1 := Want, 0 := Got)\<rparr>" 0]
    by (simp add: fun_upd_twist)
qed

theorem spinlock_mutual_exclusion_witness:
  "lkreach \<lparr>the_lk = \<lparr>locked = True, lcpu = Some 0\<rparr>, lkpcs = (\<lambda>_. Out)(0 := Crit, 1 := Want)\<rparr>
    \<and> ((\<lambda>_. Out)(0 := Crit, 1 := Want)) (0 :: nat) = Crit"
  using spinlock_mutual_exclusion [OF lkreach_crit_example, of 0 1] lkreach_crit_example by simp

text \<open>
  C2: refinement.  A CPU of spinlock.c whose held locks are \<open>held k\<close> follows
  the lock set of the kernel state \<open>k\<close>: acquire() panics exactly when the lock
  is held already, and otherwise (no other CPU having the lock) returns with
  that lock added and interrupts off; release() of a held lock returns with it
  removed.
\<close>

theorem spinlock_refines_lock_set:
  fixes k :: "'z kst_scheme"
  assumes "spin_inv c s" and "cpu_holds c s = set (held k)" and "not_elsewhere c l s"
  shows "(case acquire l k of
       Ok _ k' \<Rightarrow> \<exists>t. spin_acquire c l s = Ok () t \<and> spin_inv c t \<and> cpu_holds c t = set (held k')
          \<and> \<not> fl_if (cpus t ! c)
     | Panic m \<Rightarrow> spin_acquire c l s = Panic m
     | _ \<Rightarrow> False)
    \<and> (l \<in> set (held k) \<longrightarrow> distinct (held k) \<longrightarrow>
       (\<exists>k' t. release l k = Ok () k' \<and> spin_release c l s = Ok () t \<and> spin_inv c t
          \<and> cpu_holds c t = set (held k')))"
proof (intro conjI impI)
  have c: "c < length (cpus s)" using assms(1) by (simp add: spin_inv_def)
  show "case acquire l k of
       Ok _ k' \<Rightarrow> \<exists>t. spin_acquire c l s = Ok () t \<and> spin_inv c t \<and> cpu_holds c t = set (held k')
          \<and> \<not> fl_if (cpus t ! c)
     | Panic m \<Rightarrow> spin_acquire c l s = Panic m
     | _ \<Rightarrow> False"
  proof (cases "l \<in> cpu_holds c s")
    case True
    then show ?thesis using assms spin_locks.acq_held by (simp add: kcode)
  next
    case False
    then have "\<not> locked (lks s l)" using assms(3) by (auto simp: not_elsewhere_def cpu_holds_def)
    then show ?thesis
      using False assms c spin_inv_locked [OF assms(1) False] by (simp add: kcode spin_acquire_eq)
  qed
next
  assume "l \<in> set (held k)" and "distinct (held k)"
  then show "\<exists>k' t. release l k = Ok () k' \<and> spin_release c l s = Ok () t \<and> spin_inv c t
      \<and> cpu_holds c t = set (held k')"
    using spin_locks.rel_held [OF assms(1), of l] assms(2) by (auto simp: kcode)
qed

lemma spin_inv_example:
  "spin_inv 0 \<lparr>cpus = [\<lparr>apicid = 0, fl_if = True, ncli = 0, intena = False\<rparr>],
              lks = (\<lambda>_. \<lparr>locked = False, lcpu = None\<rparr>)\<rparr>"
  by (simp add: spin_inv_def smp_ok_def cpu_ok_def cpu_holds_def)

theorem spinlock_refines_lock_set_witness:
  "\<exists>t. spin_acquire 0 L_kmem \<lparr>cpus = [\<lparr>apicid = 0, fl_if = True, ncli = 0, intena = False\<rparr>],
              lks = (\<lambda>_. \<lparr>locked = False, lcpu = None\<rparr>)\<rparr> = Ok () t \<and> cpu_holds 0 t = {L_kmem}"
  using spinlock_refines_lock_set [OF spin_inv_example, of "\<lparr>held = [], cur = None, procs = [],
      nextpid = 1, initproc = None, slks = (\<lambda>_. \<lparr>sl_locked = False, sl_pid = 0\<rparr>)\<rparr>" L_kmem]
  by (auto simp: cpu_holds_def not_elsewhere_def kcode)

end
