(* ===== verification/Segment.thy ===== *)
theory Segment
  imports Spinlock
begin

text \<open>
  The tables of the processor: the segment descriptors of mmu.h that seginit()
  of vm.c loads, and the gate descriptors that tvinit() of trap.c sets up; and
  getcallerpcs() of spinlock.c, which walks the stack.
\<close>

section \<open>mmu.h\<close>

text \<open>The bit fields of the descriptors have the words of their widths.\<close>

record segdesc =
  lim_15_0 :: "16 word"
  base_15_0 :: "16 word"
  base_23_16 :: "8 word"
  sd_type :: "4 word"
  sd_s :: "1 word"
  sd_dpl :: "2 word"
  sd_p :: "1 word"
  lim_19_16 :: "4 word"
  sd_avl :: "1 word"
  sd_rsv1 :: "1 word"
  sd_db :: "1 word"
  sd_g :: "1 word"
  base_31_24 :: "8 word"

definition SEG :: "4 word \<Rightarrow> u32 \<Rightarrow> u32 \<Rightarrow> 2 word \<Rightarrow> segdesc" where
  "SEG ty base lim dpl =
     \<lparr>lim_15_0 = ucast (drop_bit 12 lim AND 0xffff), base_15_0 = ucast (base AND 0xffff),
      base_23_16 = ucast (drop_bit 16 base AND 0xff), sd_type = ty, sd_s = 1, sd_dpl = dpl, sd_p = 1,
      lim_19_16 = ucast (drop_bit 28 lim), sd_avl = 0, sd_rsv1 = 0, sd_db = 1, sd_g = 1, base_31_24 = ucast (drop_bit 24 base)\<rparr>"

definition SEG16 :: "4 word \<Rightarrow> u32 \<Rightarrow> u32 \<Rightarrow> 2 word \<Rightarrow> segdesc" where
  "SEG16 ty base lim dpl =
     \<lparr>lim_15_0 = ucast (lim AND 0xffff), base_15_0 = ucast (base AND 0xffff),
      base_23_16 = ucast (drop_bit 16 base AND 0xff), sd_type = ty, sd_s = 1, sd_dpl = dpl, sd_p = 1,
      lim_19_16 = ucast (drop_bit 16 lim), sd_avl = 0, sd_rsv1 = 0, sd_db = 1, sd_g = 0, base_31_24 = ucast (drop_bit 24 base)\<rparr>"

record gatedesc =
  off_15_0 :: "16 word"
  gd_cs :: "16 word"
  gd_args :: "5 word"
  gd_rsv1 :: "3 word"
  gd_type :: "4 word"
  gd_s :: "1 word"
  gd_dpl :: "2 word"
  gd_p :: "1 word"
  off_31_16 :: "16 word"


section \<open>The tables\<close>

text \<open>
  The gdt of every CPU and its address, the idt that they share and its
  address, the lock of the tick counter, and the operands of the last lgdt
  and lidt instructions, three 16-bit words each.
\<close>

record gst =
  gdts :: "segdesc list list"
  gdt_addr :: "nat \<Rightarrow> u32"
  gdtr :: "u16 list"
  idt :: "gatedesc list"
  idt_addr :: u32
  idtr :: "u16 list"
  tickslk :: spinlock

definition pseudo_desc :: "u32 \<Rightarrow> int \<Rightarrow> u16 list" where
  "pseudo_desc p n = [of_int (n - 1), ucast p, ucast (drop_bit 16 p)]"

definition lgdt :: "u32 \<Rightarrow> int \<Rightarrow> ('z gst_scheme, unit) kfun" where
  "lgdt p n = modM (\<lambda>s. s\<lparr>gdtr := pseudo_desc p n\<rparr>)"

definition lidt :: "u32 \<Rightarrow> int \<Rightarrow> ('z gst_scheme, unit) kfun" where
  "lidt p n = modM (\<lambda>s. s\<lparr>idtr := pseudo_desc p n\<rparr>)"

text \<open>seginit() on the CPU \<open>c\<close>, the result of cpuid().\<close>

definition set_gdt :: "nat \<Rightarrow> nat \<Rightarrow> segdesc \<Rightarrow> ('z gst_scheme, unit) kfun" where
  "set_gdt c i d = modM (\<lambda>s. s\<lparr>gdts := (gdts s)[c := (gdts s ! c)[i := d]]\<rparr>)"

definition seginit :: "nat \<Rightarrow> ('z gst_scheme, unit) kfun" where
  "seginit c =
     thenM (set_gdt c 1 (SEG (0x8 OR 0x2) 0 0xffffffff 0))
     (thenM (set_gdt c 2 (SEG 0x2 0 0xffffffff 0))
     (thenM (set_gdt c 3 (SEG (0x8 OR 0x2) 0 0xffffffff 3))
     (thenM (set_gdt c 4 (SEG 0x2 0 0xffffffff 3))
     (bindM (getM (\<lambda>s. (gdt_addr s c, length (gdts s ! c)))) (\<lambda>(p, n). lgdt p (int (8 * n)))))))"



definition idtinit :: "('z gst_scheme, unit) kfun" where
  "idtinit = bindM (getM (\<lambda>s. (idt_addr s, length (idt s)))) (\<lambda>(p, n). lidt p (int (8 * n)))"

section \<open>getcallerpcs()\<close>

text \<open>The loop over the saved frame pointers, with \<open>n\<close> entries of \<open>pcs\<close> left.\<close>

fun callerpcs_loop :: "mem \<Rightarrow> nat \<Rightarrow> u32 \<Rightarrow> u32 list" where
  "callerpcs_loop m 0 ebp = []"
| "callerpcs_loop m (Suc n) ebp =
     (if ebp = 0 \<or> ebp < 0x80000000 \<or> ebp = 0xffffffff then replicate (Suc n) 0
      else load32 m (ebp + 4) # callerpcs_loop m n (load32 m ebp))"

definition getcallerpcs :: "mem \<Rightarrow> u32 \<Rightarrow> u32 list" where
  "getcallerpcs m v = callerpcs_loop m 10 (v - 8)"

section \<open>The processor's view of a descriptor\<close>

text \<open>The two words of a descriptor in memory, the first field in the lowest bits.\<close>

definition seg_words :: "segdesc \<Rightarrow> u32 \<times> u32" where
  "seg_words d = (ucast (lim_15_0 d) OR push_bit 16 (ucast (base_15_0 d)),
     ucast (base_23_16 d) OR push_bit 8 (ucast (sd_type d)) OR push_bit 12 (ucast (sd_s d)) OR push_bit 13 (ucast (sd_dpl d))
     OR push_bit 15 (ucast (sd_p d)) OR push_bit 16 (ucast (lim_19_16 d)) OR push_bit 20 (ucast (sd_avl d)) OR push_bit 21 (ucast (sd_rsv1 d))
     OR push_bit 22 (ucast (sd_db d)) OR push_bit 23 (ucast (sd_g d)) OR push_bit 24 (ucast (base_31_24 d)))"


text \<open>What the processor reads from the words, after Intel's manual.\<close>

definition cpu_base :: "u32 \<times> u32 \<Rightarrow> u32" where
  "cpu_base w = drop_bit 16 (fst w) OR push_bit 16 (snd w AND 0xff) OR (snd w AND 0xff000000)"

definition cpu_limit :: "u32 \<times> u32 \<Rightarrow> u32" where
  "cpu_limit w = (let l = (fst w AND 0xffff) OR (snd w AND 0x000f0000) in if bit (snd w) 23 then push_bit 12 l OR 0xfff else l)"


definition cpu_dpl :: "u32 \<times> u32 \<Rightarrow> 2 word" where
  "cpu_dpl w = ucast (drop_bit 13 (snd w))"

definition cpu_type :: "u32 \<times> u32 \<Rightarrow> 4 word" where
  "cpu_type w = ucast (drop_bit 8 (snd w))"


definition cpu_present :: "u32 \<times> u32 \<Rightarrow> bool" where
  "cpu_present w = bit (snd w) 15"

lemma masks: "(0xffff :: u32) = mask 16" "(0xff :: u32) = mask 8" "(0xffff0000 :: u32) = push_bit 16 (mask 16)" "(0xff000000 :: u32) = push_bit 24 (mask 8)"
  "(0x000f0000 :: u32) = push_bit 16 (mask 4)" "(0xfff :: u32) = mask 12"
  by (simp_all add: mask_eq_exp_minus_1)

lemma bit_low: "bit (w :: 'a :: len word) n \<Longrightarrow> n < LENGTH('a)"
  by (rule bit_imp_le_length)




lemma seg_fields:
  "cpu_dpl (seg_words d) = sd_dpl d" "cpu_type (seg_words d) = sd_type d" "cpu_present (seg_words d) = bit (sd_p d) 0" "bit (snd (seg_words d)) 23 = bit (sd_g d) 0"
  unfolding cpu_dpl_def cpu_type_def cpu_present_def seg_words_def fst_conv snd_conv
  by (rule bit_word_eqI; auto simp: bit_simps dest: bit_low)+ (auto simp: bit_simps dest: bit_low)

lemma seg_base_low: "drop_bit 16 (fst (seg_words d)) = ucast (base_15_0 d)"
  unfolding seg_words_def fst_conv by (rule bit_word_eqI) (auto simp: bit_simps dest: bit_low)

lemma seg_base_mid: "snd (seg_words d) AND 0xff = ucast (base_23_16 d)"
  unfolding seg_words_def snd_conv masks by (rule bit_word_eqI) (auto simp: bit_simps dest: bit_low)

lemma seg_base_high: "snd (seg_words d) AND 0xff000000 = push_bit 24 (ucast (base_31_24 d))"
  unfolding seg_words_def snd_conv masks by (rule bit_word_eqI) (auto simp: bit_simps dest: bit_low)

lemma seg_limit_low: "fst (seg_words d) AND 0xffff = ucast (lim_15_0 d)"
  unfolding seg_words_def fst_conv masks by (rule bit_word_eqI) (auto simp: bit_simps dest: bit_low)

lemma seg_limit_high: "snd (seg_words d) AND 0x000f0000 = push_bit 16 (ucast (lim_19_16 d))"
  unfolding seg_words_def snd_conv masks by (rule bit_word_eqI) (auto simp: bit_simps dest: bit_low)

text \<open>The processor finds in a descriptor made by SEG the base, the limit in whole pages, type and privilege.\<close>

lemma SEG_base: "cpu_base (seg_words (SEG ty b l d)) = b"
proof -
  have "ucast (ucast (b AND mask 16) :: u16) OR push_bit 16 (ucast (ucast (drop_bit 16 b AND mask 8) :: u8)) OR push_bit 24 (ucast (ucast (drop_bit 24 b) :: u8)) = b"
  proof (rule bit_word_eqI)
    fix n assume "n < LENGTH(32)"
    then show "bit (ucast (ucast (b AND mask 16) :: u16) OR push_bit 16 (ucast (ucast (drop_bit 16 b AND mask 8) :: u8)) OR push_bit 24 (ucast (ucast (drop_bit 24 b) :: u8)) :: u32) n = bit b n"
      by (cases "n < 16"; cases "n < 24") (auto simp: bit_simps)
  qed
  then show ?thesis unfolding cpu_base_def seg_base_low seg_base_mid seg_base_high by (simp add: SEG_def masks(1,2) flip: or.assoc)
qed

lemma SEG_limit: "cpu_limit (seg_words (SEG ty b l d)) = l OR 0xfff"
proof -
  have "push_bit 12 (ucast (ucast (drop_bit 12 l AND mask 16) :: u16) OR push_bit 16 (ucast (ucast (drop_bit 28 l) :: 4 word))) OR mask 12 = l OR mask 12"
  proof (rule bit_word_eqI)
    fix n assume "n < LENGTH(32)"
    then show "bit (push_bit 12 (ucast (ucast (drop_bit 12 l AND mask 16) :: u16) OR push_bit 16 (ucast (ucast (drop_bit 28 l) :: 4 word))) OR mask 12 :: u32) n = bit (l OR mask 12) n"
      by (cases "n < 12"; cases "n < 28") (auto simp: bit_simps)
  qed
  then show ?thesis
    unfolding cpu_limit_def Let_def seg_limit_low seg_limit_high seg_fields(4) by (simp add: SEG_def masks(1,6))
qed

section \<open>Properties\<close>

text \<open>seginit() gives the CPU flat segments: every address is its own, with one pair for each privilege level.\<close>

lemma seginit_flat:
  fixes s :: "'z gst_scheme"
  assumes "c < length (gdts s)" "length (gdts s ! c) = 6"
  shows "\<exists>t. seginit c s = Ok () t \<and> gdtr t = pseudo_desc (gdt_addr s c) 48 \<and> (\<forall>k. k \<noteq> c \<longrightarrow> gdts t ! k = gdts s ! k) \<and> (\<forall>i \<in> {1..4}.
    cpu_base (seg_words (gdts t ! c ! i)) = 0 \<and> cpu_limit (seg_words (gdts t ! c ! i)) = 0xffffffff \<and> cpu_present (seg_words (gdts t ! c ! i))
    \<and> cpu_dpl (seg_words (gdts t ! c ! i)) = (if i \<le> 2 then 0 else 3))"
proof -
  let ?c = "SEG (0x8 OR 0x2) 0 0xffffffff" and ?d = "SEG 0x2 0 0xffffffff"
  let ?T = "(gdts s ! c)[1 := ?c 0, 2 := ?d 0, 3 := ?c 3, 4 := ?d 3]"
  let ?t = "s\<lparr>gdts := (gdts s)[c := ?T], gdtr := pseudo_desc (gdt_addr s c) 48\<rparr>"
  have run: "seginit c s = Ok () ?t" using assms by (simp add: seginit_def set_gdt_def lgdt_def kcode)
  define T where "T = ?T"
  have g: "T ! 1 = ?c 0" "T ! Suc 0 = ?c 0" "T ! 2 = ?d 0" "T ! 3 = ?c 3" "T ! 4 = ?d 3" using assms by (simp_all add: T_def)
  have f: "cpu_base (seg_words (SEG ty 0 0xffffffff d)) = 0" "cpu_limit (seg_words (SEG ty 0 0xffffffff d)) = 0xffffffff"
    "cpu_present (seg_words (SEG ty 0 0xffffffff d))" "cpu_dpl (seg_words (SEG ty 0 0xffffffff d)) = d" for ty d
    by (simp_all add: SEG_base SEG_limit seg_fields) (simp_all add: SEG_def)
  have "\<forall>i \<in> {1..4}. cpu_base (seg_words (T ! i)) = 0 \<and> cpu_limit (seg_words (T ! i)) = 0xffffffff \<and> cpu_present (seg_words (T ! i))
    \<and> cpu_dpl (seg_words (T ! i)) = (if i \<le> 2 then 0 else 3)"
  proof
    fix i :: nat assume "i \<in> {1..4}"
    then consider "i = 1" | "i = 2" | "i = 3" | "i = 4" by force
    then show "cpu_base (seg_words (T ! i)) = 0 \<and> cpu_limit (seg_words (T ! i)) = 0xffffffff \<and> cpu_present (seg_words (T ! i))
      \<and> cpu_dpl (seg_words (T ! i)) = (if i \<le> 2 then 0 else 3)" by cases (simp_all add: g f)
  qed
  then show ?thesis using run assms T_def by (intro exI [of _ ?t]) simp
qed






text \<open>
  getcallerpcs() returns the return addresses of the frames, from the
  innermost on, and fills up with zeros.
\<close>

primrec frames :: "mem \<Rightarrow> u32 \<Rightarrow> u32 list \<Rightarrow> bool" where
  "frames m ebp [] \<longleftrightarrow> ebp < 0x80000000 \<or> ebp = 0xffffffff"
| "frames m ebp (pc # pcs) \<longleftrightarrow> 0x80000000 \<le> ebp \<and> ebp \<noteq> 0xffffffff \<and> load32 m (ebp + 4) = pc \<and> frames m (load32 m ebp) pcs"

lemma callerpcs_loop_ok: "frames m ebp pcs \<Longrightarrow> callerpcs_loop m n ebp = take n (pcs @ replicate n 0)"
proof (induction n arbitrary: ebp pcs)
  case (Suc n)
  show ?case
  proof (cases pcs)
    case Nil
    then show ?thesis using Suc.prems by auto
  next
    case (Cons pc r)
    then have "take n (r @ replicate (Suc n) 0) = take n (r @ replicate n (0 :: u32))" by (simp add: min_def del: replicate_Suc)
    then show ?thesis using Suc.prems Suc.IH [of "load32 m ebp" r] Cons by (auto simp: not_less)
  qed
qed simp

lemma getcallerpcs_spec: "frames m (v - 8) pcs \<Longrightarrow> getcallerpcs m v = take 10 (pcs @ replicate 10 0)"
  unfolding getcallerpcs_def by (rule callerpcs_loop_ok)

end
