(* ===== verification/Boot.thy ===== *)
theory Boot
  imports CString
begin

text \<open>
  bootmain.c, the boot loader: it reads the ELF file of the kernel from the
  disk, starting at sector 1, puts its segments at their physical addresses
  and jumps to the entry point.
\<close>

section \<open>State\<close>

text \<open>
  Physical memory, the values last written to the ports of the disk
  controller, the bytes that its status port will deliver, and the
  controller: the bytes that it delivers for what its registers hold.
\<close>

record bootst =
  bmem :: mem
  bregs :: "u16 \<Rightarrow> u8"
  bstat :: "u8 list"
  ata :: "(u16 \<Rightarrow> u8) \<Rightarrow> bytes"

definition boot_outb :: "u16 \<Rightarrow> u8 \<Rightarrow> (bootst, unit) kfun" where
  "boot_outb port v = modM (\<lambda>s. s\<lparr>bregs := (bregs s)(port := v)\<rparr>)"

definition boot_insl :: "u32 \<Rightarrow> nat \<Rightarrow> (bootst, unit) kfun" where
  "boot_insl dst n = modM (\<lambda>s. s\<lparr>bmem := write_bytes (bmem s) dst (take (4 * n) (ata s (bregs s)))\<rparr>)"

section \<open>The boot loader\<close>

primrec waitdisk_loop :: "u8 list \<Rightarrow> u8 list option" where
  "waitdisk_loop [] = None"
| "waitdisk_loop (r # rs) = (if r AND 0xC0 \<noteq> 0x40 then waitdisk_loop rs else Some rs)"

definition waitdisk :: "(bootst, unit) kfun" where
  "waitdisk = (\<lambda>s. case waitdisk_loop (bstat s) of None \<Rightarrow> Spin | Some rs \<Rightarrow> Ok () (s\<lparr>bstat := rs\<rparr>))"

definition readsect :: "u32 \<Rightarrow> u32 \<Rightarrow> (bootst, unit) kfun" where
  "readsect dst offset =
     thenM waitdisk
     (thenM (boot_outb 0x1F2 1)
     (thenM (boot_outb 0x1F3 (ucast offset))
     (thenM (boot_outb 0x1F4 (ucast (drop_bit 8 offset)))
     (thenM (boot_outb 0x1F5 (ucast (drop_bit 16 offset)))
     (thenM (boot_outb 0x1F6 (ucast (drop_bit 24 offset OR 0xE0)))
     (thenM (boot_outb 0x1F7 0x20)
     (thenM waitdisk
     (boot_insl dst (512 div 4)))))))))"

text \<open>The loop ends within 2^23 rounds of 512 bytes or it never does.\<close>

fun readseg_loop :: "nat \<Rightarrow> u32 \<Rightarrow> u32 \<Rightarrow> u32 \<Rightarrow> (bootst, unit) kfun" where
  "readseg_loop 0 pa epa offset = spinM"
| "readseg_loop (Suc fuel) pa epa offset =
     (if pa < epa then thenM (readsect pa offset) (readseg_loop fuel (pa + 512) epa (offset + 1)) else skipM)"

definition readseg :: "u32 \<Rightarrow> u32 \<Rightarrow> u32 \<Rightarrow> (bootst, unit) kfun" where
  "readseg pa count offset =
     (let epa = pa + count; pa = pa - offset mod 512; offset = offset div 512 + 1 in readseg_loop (Suc (2 ^ 23)) pa epa offset)"

definition load16 :: "mem \<Rightarrow> u32 \<Rightarrow> u16" where
  "load16 m a = le16_dec [m a, m (a + 1)]"

text \<open>One program header: the fields off, paddr, filesz and memsz of struct proghdr.\<close>

definition boot_ph :: "u32 \<Rightarrow> (bootst, unit) kfun" where
  "boot_ph ph =
     bindM (getM (\<lambda>s. load32 (bmem s) (ph + 12))) (\<lambda>pa.
     bindM (getM (\<lambda>s. (load32 (bmem s) (ph + 16), load32 (bmem s) (ph + 4)))) (\<lambda>(filesz, off).
     thenM (readseg pa filesz off)
     (bindM (getM (\<lambda>s. (load32 (bmem s) (ph + 20), load32 (bmem s) (ph + 16)))) (\<lambda>(memsz, filesz).
      whenM (memsz > filesz)
        (modM (\<lambda>s. s\<lparr>bmem := stosb (bmem s) (pa + filesz) 0 (unat (memsz - filesz))\<rparr>))))))"

fun boot_loop :: "nat \<Rightarrow> u32 \<Rightarrow> u32 \<Rightarrow> (bootst, unit) kfun" where
  "boot_loop 0 ph eph = spinM"
| "boot_loop (Suc fuel) ph eph = (if ph < eph then thenM (boot_ph ph) (boot_loop fuel (ph + 32) eph) else skipM)"

text \<open>bootmain(): \<open>Some e\<close> is the call of the kernel at \<open>e\<close>, \<open>None\<close> the return on a bad magic number.\<close>

definition bootmain :: "(bootst, u32 option) kfun" where
  "bootmain =
     (let elf = 0x10000 in
      thenM (readseg elf 4096 0)
      (bindM (getM (\<lambda>s. load32 (bmem s) elf)) (\<lambda>magic.
       if magic \<noteq> 0x464C457F then retM None
       else bindM (getM (\<lambda>s. (elf + load32 (bmem s) (elf + 28), load16 (bmem s) (elf + 44)))) (\<lambda>(ph, phnum).
         thenM (boot_loop (Suc (2 ^ 16)) ph (ph + 32 * ucast phnum))
         (bindM (getM (\<lambda>s. load32 (bmem s) (elf + 24))) (\<lambda>entry. retM (Some entry)))))))"

section \<open>The disk controller\<close>

text \<open>
  The documented behaviour of the controller: the command 0x20 for one sector
  with the drive bits 0xE0 delivers the sector whose 28-bit number is in the
  registers.
\<close>

definition lba :: "(u16 \<Rightarrow> u8) \<Rightarrow> u32" where
  "lba r = ucast (r 0x1F3) OR push_bit 8 (ucast (r 0x1F4)) OR push_bit 16 (ucast (r 0x1F5)) OR push_bit 24 (ucast (r 0x1F6 AND 0x0F))"

definition ata_reads :: "((u16 \<Rightarrow> u8) \<Rightarrow> bytes) \<Rightarrow> (u32 \<Rightarrow> bytes) \<Rightarrow> bool" where
  "ata_reads d disk \<longleftrightarrow> (\<forall>k. length (disk k) = 512) \<and> (\<forall>r. r 0x1F2 = 1 \<and> r 0x1F7 = 0x20 \<and> r 0x1F6 AND 0xF0 = 0xE0 \<longrightarrow> d r = disk (lba r))"

text \<open>The state has status bytes for \<open>n\<close> more waits.\<close>

definition boot_ok :: "(u32 \<Rightarrow> bytes) \<Rightarrow> nat \<Rightarrow> bootst \<Rightarrow> bool" where
  "boot_ok disk n s \<longleftrightarrow> ata_reads (ata s) disk \<and> n \<le> length (filter (\<lambda>r. r AND 0xC0 = 0x40) (bstat s))"

lemma waitdisk_ok:
  assumes "boot_ok disk (Suc n) s"
  obtains rs where "waitdisk s = Ok () (s\<lparr>bstat := rs\<rparr>)" "n \<le> length (filter (\<lambda>r. r AND 0xC0 = 0x40) rs)"
proof -
  have "Suc n \<le> length (filter (\<lambda>r. r AND 0xC0 = 0x40) st) \<Longrightarrow> \<exists>rs. waitdisk_loop st = Some rs \<and> n \<le> length (filter (\<lambda>r. r AND 0xC0 = 0x40) rs)" for st
    by (induction st) auto
  then obtain rs where "waitdisk_loop (bstat s) = Some rs" "n \<le> length (filter (\<lambda>r. r AND 0xC0 = 0x40) rs)" using assms by (auto simp: boot_ok_def)
  then show thesis using that by (simp add: waitdisk_def)
qed

lemma bit_below_28:
  assumes "unat (k :: u32) < 2 ^ 28" "bit k n"
  shows "n < 28"
proof -
  have "take_bit 28 k = k" by (rule word_unat_eq_iff [THEN iffD2]) (simp only: unsigned_take_bit_eq take_bit_nat_eq_self [OF assms(1)])
  then show ?thesis using assms(2) by (metis bit_take_bit_iff)
qed

lemma lba_split:
  assumes "unat k < 2 ^ 28"
  shows "ucast (ucast k :: u8) OR push_bit 8 (ucast (ucast (drop_bit 8 k) :: u8)) OR push_bit 16 (ucast (ucast (drop_bit 16 k) :: u8))
     OR push_bit 24 (ucast ((ucast (drop_bit 24 k OR 0xE0) :: u8) AND 0x0F)) = (k :: u32)"
proof -
  note hi = bit_below_28 [OF assms]
  have "(0xE0 :: u32) = push_bit 5 (mask 3)" "(0x0F :: u8) = mask 4" by (simp_all add: mask_eq_exp_minus_1)
  note c = this
  show ?thesis unfolding c
  proof (rule bit_word_eqI)
    fix n assume "n < LENGTH(32)"
    then show "bit (ucast (ucast k :: u8) OR push_bit 8 (ucast (ucast (drop_bit 8 k) :: u8)) OR push_bit 16 (ucast (ucast (drop_bit 16 k) :: u8))
     OR push_bit 24 (ucast ((ucast (drop_bit 24 k OR push_bit 5 (mask 3)) :: u8) AND mask 4)) :: u32) n = bit k n"
      using hi [of n] by (cases "n < 8"; cases "n < 16"; cases "n < 24"; cases "n < 28") (auto simp: bit_simps)
  qed
qed

lemma readsect_ok:
  assumes "boot_ok disk (Suc (Suc n)) s" "unat k < 2 ^ 28"
  obtains t where "readsect dst k s = Ok () t" "boot_ok disk n t" "bmem t = write_bytes (bmem s) dst (disk k)"
proof -
  from assms(1) obtain r1 where w1: "waitdisk s = Ok () (s\<lparr>bstat := r1\<rparr>)" "Suc n \<le> length (filter (\<lambda>r. r AND 0xC0 = 0x40) r1)"
    by (rule waitdisk_ok)
  define regs where "regs = (bregs s)(0x1F2 := 1, 0x1F3 := ucast k, 0x1F4 := ucast (drop_bit 8 k), 0x1F5 := ucast (drop_bit 16 k),
     0x1F6 := ucast (drop_bit 24 k OR 0xE0), 0x1F7 := 0x20)"
  let ?s = "s\<lparr>bstat := r1, bregs := regs\<rparr>"
  have "boot_ok disk (Suc n) ?s" using assms(1) w1(2) by (simp add: boot_ok_def)
  then obtain r2 where w2: "waitdisk ?s = Ok () (?s\<lparr>bstat := r2\<rparr>)" "n \<le> length (filter (\<lambda>r. r AND 0xC0 = 0x40) r2)" by (rule waitdisk_ok)
  have "lba regs = k" using lba_split [OF assms(2)] by (simp add: lba_def regs_def)
  moreover have "regs 0x1F6 AND 0xF0 = 0xE0"
  proof -
    have "(ucast (drop_bit 24 k OR push_bit 5 (mask 3)) :: u8) AND push_bit 4 (mask 4) = push_bit 5 (mask 3)"
      by (rule bit_word_eqI) (auto simp: bit_simps dest: bit_below_28 [OF assms(2)])
    moreover have "(0xE0 :: u32) = push_bit 5 (mask 3)" "(0xF0 :: u8) = push_bit 4 (mask 4)" "(0xE0 :: u8) = push_bit 5 (mask 3)"
      by (simp_all add: mask_eq_exp_minus_1)
    ultimately show ?thesis by (simp add: regs_def)
  qed
  ultimately have "ata s regs = disk k" "length (disk k) = 512" using assms(1) by (simp_all add: boot_ok_def ata_reads_def regs_def)
  then have "readsect dst k s = Ok () (?s\<lparr>bstat := r2, bmem := write_bytes (bmem s) dst (disk k)\<rparr>)"
    using w1(1) w2(1) by (simp add: readsect_def boot_outb_def boot_insl_def kcode regs_def)
  then show thesis by (rule that) (use assms(1) w2(2) in \<open>simp_all add: boot_ok_def\<close>)
qed

section \<open>Loading\<close>

text \<open>The byte at position \<open>i\<close> of the file that starts at sector 1.\<close>

definition fbyte :: "(u32 \<Rightarrow> bytes) \<Rightarrow> nat \<Rightarrow> u8" where
  "fbyte disk i = disk (of_nat (i div 512) + 1) ! (i mod 512)"

lemma write_bytes_at:
  "unat a + length bs \<le> 2 ^ 32 \<Longrightarrow>
   write_bytes m a bs x = (if unat a \<le> unat x \<and> unat x < unat a + length bs then bs ! (unat x - unat a) else m x)"
proof (induction bs arbitrary: m a)
  case (Cons b bs)
  show ?case
  proof (cases bs)
    case Nil
    then show ?thesis by (auto simp: word_unat_eq_iff)
  next
    case (Cons c cs)
    then have u: "unat (a + 1) = unat a + 1" using Cons.prems by (simp add: unat_word_ariths(1))
    have x: "(m(a := b)) x = (if unat x = unat a then b else m x)" by (simp add: word_unat_eq_iff)
    have IH: "write_bytes (m(a := b)) (a + 1) bs x
       = (if unat a + 1 \<le> unat x \<and> unat x < unat a + 1 + length bs then bs ! (unat x - (unat a + 1)) else (m(a := b)) x)"
      by (rule Cons.IH [of "a + 1" "m(a := b)", unfolded u]) (use Cons.prems in simp)
    have d: "unat a < unat x \<Longrightarrow> (b # bs) ! (unat x - unat a) = bs ! (unat x - (unat a + 1))" by (simp add: nth_Cons')
    show ?thesis unfolding write_bytes.simps IH x using d by auto
  qed
qed auto

text \<open>The loop of readseg() copies \<open>n\<close> sectors.\<close>

lemma readseg_loop_ok:
  assumes "boot_ok disk (k + 2 * n) s" "unat pa + 512 * n < 2 ^ 32" "n < fuel" "unat off + n < 2 ^ 28"
    and "0 < n \<longrightarrow> unat pa + 512 * (n - 1) < unat epa" "unat epa \<le> unat pa + 512 * n"
  obtains t where "readseg_loop fuel pa epa off s = Ok () t" "boot_ok disk k t"
    "\<And>x. bmem t x = (if unat pa \<le> unat x \<and> unat x < unat pa + 512 * n
       then disk (off + of_nat ((unat x - unat pa) div 512)) ! ((unat x - unat pa) mod 512) else bmem s x)"
  using assms
proof (induction n arbitrary: s pa off fuel thesis)
  case 0
  obtain f where "fuel = Suc f" using 0(4) by (cases fuel) auto
  moreover have "\<not> pa < epa" using 0 by (simp add: word_less_nat_alt)
  ultimately show ?case using 0(2) by (intro 0(1) [of s]) (auto simp: kcode)
next
  case (Suc n)
  obtain f where f: "fuel = Suc f" "n < f" using Suc.prems(4) by (cases fuel) auto
  have "boot_ok disk (Suc (Suc (k + 2 * n))) s" "unat off < 2 ^ 28" using Suc.prems(2,5) by simp_all
  then obtain t1 where t1: "readsect pa off s = Ok () t1" "boot_ok disk (k + 2 * n) t1" "bmem t1 = write_bytes (bmem s) pa (disk off)"
    by (rule readsect_ok)
  have lt: "pa < epa" using Suc.prems(6) by (simp add: word_less_nat_alt)
  have u: "unat (pa + 512) = unat pa + 512" using Suc.prems(3) by (simp add: unat_word_ariths(1))
  have v: "unat (off + 1) = unat off + 1" using Suc.prems(5) by (simp add: unat_word_ariths(1))
  obtain t where t: "readseg_loop f (pa + 512) epa (off + 1) t1 = Ok () t" "boot_ok disk k t"
    "\<And>x. bmem t x = (if unat (pa + 512) \<le> unat x \<and> unat x < unat (pa + 512) + 512 * n
       then disk (off + 1 + of_nat ((unat x - unat (pa + 512)) div 512)) ! ((unat x - unat (pa + 512)) mod 512) else bmem t1 x)"
  proof (rule Suc.IH [OF _ t1(2) _ f(2), of "pa + 512" "off + 1"])
    show "unat (pa + 512) + 512 * n < 2 ^ 32" "unat (off + 1) + n < 2 ^ 28" "unat epa \<le> unat (pa + 512) + 512 * n"
      "0 < n \<longrightarrow> unat (pa + 512) + 512 * (n - 1) < unat epa" using Suc.prems(3,5-7) u v by auto
  qed (use that in blast)
  have l: "length (disk off) = 512" using Suc.prems(2) by (simp add: boot_ok_def ata_reads_def)
  have m: "bmem t x = (if unat pa \<le> unat x \<and> unat x < unat pa + 512 * Suc n
       then disk (off + of_nat ((unat x - unat pa) div 512)) ! ((unat x - unat pa) mod 512) else bmem s x)" for x
  proof -
    have w: "bmem t1 x = (if unat pa \<le> unat x \<and> unat x < unat pa + 512 then disk off ! (unat x - unat pa) else bmem s x)"
      using write_bytes_at [of pa "disk off" "bmem s" x] Suc.prems(3) l t1(3) by simp
    show ?thesis
    proof (cases "unat pa + 512 \<le> unat x")
      case True
      define y where "y = unat x - (unat pa + 512)"
      have "unat x - unat pa = y + 512" using True y_def by simp
      then have "(unat x - unat pa) div 512 = y div 512 + 1" "(unat x - unat pa) mod 512 = y mod 512" by simp_all
      then show ?thesis using True unfolding t(3) u w y_def [symmetric] by (auto simp: add.assoc)
    next
      case False
      then show ?thesis unfolding t(3) u w by auto
    qed
  qed
  show ?case by (rule Suc.prems(1) [OF _ t(2) m]) (use t1(1) t(1) lt in \<open>simp add: f(1) kcode\<close>)
qed

definition seg_sectors :: "nat \<Rightarrow> nat \<Rightarrow> nat" where
  "seg_sectors count off = (off mod 512 + count + 511) div 512"

lemma readseg_ok:
  assumes "boot_ok disk (k + 2 * seg_sectors (unat count) (unat off)) s"
    and "unat off mod 512 \<le> unat pa" "unat pa + unat count + 512 \<le> 2 ^ 32"
  obtains t where "readseg pa count off s = Ok () t" "boot_ok disk k t"
    "\<And>x. bmem t x = (let a = unat pa - unat off mod 512 in if a \<le> unat x \<and> unat x < a + 512 * seg_sectors (unat count) (unat off)
       then fbyte disk (unat off - unat off mod 512 + (unat x - a)) else bmem s x)"
proof -
  let ?r = "unat off mod 512" and ?n = "seg_sectors (unat count) (unat off)"
  let ?p = "pa - off mod 512" and ?o = "off div 512 + 1"
  have r: "unat (off mod 512) = ?r" by (simp add: unat_mod)
  have p: "unat ?p = unat pa - ?r" using assms(2) r by (simp add: unat_sub word_le_nat_alt)
  have e: "unat (pa + count) = unat pa + unat count" using assms(3) by (simp add: unat_word_ariths(1))
  have n: "512 * ?n \<le> ?r + unat count + 511" "?r + unat count \<le> 512 * ?n" unfolding seg_sectors_def by linarith+
  have o: "unat (off div 512) = unat off div 512" by (simp add: unat_div)
  have "unat off div 512 < 2 ^ 23" using unat_u32 [of off] by simp
  then have o1: "unat ?o = unat off div 512 + 1" "unat ?o \<le> 2 ^ 23" using o by (simp_all add: unat_word_ariths(1))
  have n2: "?n < 2 ^ 23" using n(1) assms(2,3) by simp
  obtain t where t: "readseg_loop (Suc (2 ^ 23)) ?p (pa + count) ?o s = Ok () t" "boot_ok disk k t"
    "\<And>x. bmem t x = (if unat ?p \<le> unat x \<and> unat x < unat ?p + 512 * ?n
       then disk (?o + of_nat ((unat x - unat ?p) div 512)) ! ((unat x - unat ?p) mod 512) else bmem s x)"
  proof (rule readseg_loop_ok [OF assms(1), of ?p "Suc (2 ^ 23)" ?o "pa + count"])
    show "unat ?p + 512 * ?n < 2 ^ 32" "unat (pa + count) \<le> unat ?p + 512 * ?n" unfolding p e using n assms(2,3) by linarith+
    show "?n < Suc (2 ^ 23)" using n2 by linarith
    show "unat ?o + ?n < 2 ^ 28" using n2 o1(2) by simp
    show "0 < ?n \<longrightarrow> unat ?p + 512 * (?n - 1) < unat (pa + count)" unfolding p e using n(1) assms(2) by linarith
  qed (use that in blast)
  have f: "disk (?o + of_nat (y div 512)) ! (y mod 512) = fbyte disk (unat off - ?r + y)" for y
  proof -
    have q: "unat off - ?r = 512 * (unat off div 512)" by (simp add: minus_mod_eq_mult_div)
    have "(unat off - ?r + y) div 512 = unat off div 512 + y div 512" "(unat off - ?r + y) mod 512 = y mod 512" unfolding q by simp_all
    moreover have "off div 512 = of_nat (unat off div 512)" unfolding o [symmetric] by simp
    ultimately show ?thesis by (simp add: fbyte_def ac_simps)
  qed
  show thesis
    by (rule that [OF _ t(2)]) (use t(1,3) in \<open>simp_all add: readseg_def Let_def p f\<close>)
qed

section \<open>Properties\<close>


definition f32 :: "(u32 \<Rightarrow> bytes) \<Rightarrow> nat \<Rightarrow> u32" where
  "f32 disk k = le32_dec (map (fbyte disk) [k, k + 1, k + 2, k + 3])"










definition hdr_at :: "(u32 \<Rightarrow> bytes) \<Rightarrow> mem \<Rightarrow> bool" where
  "hdr_at disk m \<longleftrightarrow> (\<forall>i < 4096. m (0x10000 + of_nat i) = fbyte disk i)"

lemma hdr_load32: "hdr_at disk m \<Longrightarrow> p + 4 \<le> 4096 \<Longrightarrow> load32 m (0x10000 + of_nat p) = f32 disk p"
proof -
  assume a: "hdr_at disk m" "p + 4 \<le> 4096"
  have b: "m (0x10000 + of_nat (p + j)) = fbyte disk (p + j)" if "j < 4" for j using a that by (simp add: hdr_at_def del: of_nat_add)
  show ?thesis unfolding load32_def f32_def using b [of 0] b [of 1] b [of 2] b [of 3] by (simp add: add.assoc)
qed








lemma boot_hdr_ok:
  assumes "boot_ok disk (16 + k) s"
  obtains t1 where "readseg 0x10000 4096 0 s = Ok () t1" "boot_ok disk k t1" "hdr_at disk (bmem t1)"
proof -
  have "seg_sectors (unat (4096 :: u32)) (unat (0 :: u32)) = 8" by (simp add: seg_sectors_def)
  then have "boot_ok disk (k + 2 * seg_sectors (unat (4096 :: u32)) (unat (0 :: u32))) s" using assms by (simp only: add.commute) simp
  then obtain t1 where t1: "readseg 0x10000 4096 0 s = Ok () t1" "boot_ok disk k t1"
    "\<And>x. bmem t1 x = (let a = unat (0x10000 :: u32) - unat (0 :: u32) mod 512 in
       if a \<le> unat x \<and> unat x < a + 512 * seg_sectors (unat (4096 :: u32)) (unat (0 :: u32))
       then fbyte disk (unat (0 :: u32) - unat (0 :: u32) mod 512 + (unat x - a)) else bmem s x)"
  proof (rule readseg_ok [where pa = "0x10000"])
    show "unat (0 :: u32) mod 512 \<le> unat (0x10000 :: u32)" "unat (0x10000 :: u32) + unat (4096 :: u32) + 512 \<le> 2 ^ 32" by simp_all
  qed (use that in blast)
  have h: "hdr_at disk (bmem t1)" unfolding hdr_at_def
  proof (intro allI impI)
    fix i :: nat assume "i < 4096"
    then have "unat (0x10000 + of_nat i :: u32) = 0x10000 + i" by (simp add: unat_word_ariths(1) unat_of_nat)
    then show "bmem t1 (0x10000 + of_nat i) = fbyte disk i" using t1(3) [of "0x10000 + of_nat i"] \<open>i < 4096\<close> by (simp add: seg_sectors_def)
  qed
  show thesis by (rule that [OF t1(1,2) h])
qed













text \<open>A file with another magic number is not started.\<close>

lemma bootmain_bad_magic:
  assumes "boot_ok disk 16 s" "f32 disk 0 \<noteq> 0x464C457F"
  shows "\<exists>t. bootmain s = Ok None t"
proof -
  obtain t1 where t1: "readseg 0x10000 4096 0 s = Ok () t1" "hdr_at disk (bmem t1)" using boot_hdr_ok [of disk 0 s] assms(1) by auto
  then have "load32 (bmem t1) 0x10000 \<noteq> 0x464C457F" using hdr_load32 [OF t1(2), of 0] assms(2) by simp
  then show ?thesis using t1(1) by (simp add: bootmain_def kcode Let_def)
qed

end
