(* ===== verification/Mp.thy ===== *)
theory Mp
  imports Spinlock
begin

text \<open>
  mp.c, which finds the processors of the machine in the tables that the BIOS
  leaves in memory.
\<close>

section \<open>State\<close>

text \<open>
  \<open>cpus\<close> is the array of NCPU entries, of which \<open>ncpu\<close> are in use; \<open>mp_out\<close>
  records the writes to ports, and \<open>imcr\<close> is what port 0x23 delivers.
\<close>

record mpst = smp +
  mpmem :: mem
  ncpu :: int
  ioapicid :: u8
  lapic :: u32
  mp_out :: "(u16 \<times> u8) list"
  imcr :: u8

abbreviation (input) NCPU :: int where "NCPU \<equiv> 8"

text \<open>
  The addresses that the kernel's page table maps when mpinit() runs: physical
  memory up to PHYSTOP behind KERNBASE, and the devices.
\<close>

definition mp_mapped :: "u32 \<Rightarrow> bool" where
  "mp_mapped a \<longleftrightarrow> 0x80000000 \<le> a \<and> a < 0x8E000000 \<or> 0xFE000000 \<le> a"

definition mp_byte :: "u32 \<Rightarrow> ('z mpst_scheme, u8) kfun" where
  "mp_byte a = thenM (requireM (mp_mapped a) ''page fault'') (getM (\<lambda>s. mpmem s a))"

definition mp_u16 :: "u32 \<Rightarrow> ('z mpst_scheme, u16) kfun" where
  "mp_u16 a = bindM (mp_byte a) (\<lambda>b0. bindM (mp_byte (a + 1)) (\<lambda>b1. retM (le16_dec [b0, b1])))"

definition mp_u32 :: "u32 \<Rightarrow> ('z mpst_scheme, u32) kfun" where
  "mp_u32 a =
     bindM (mp_byte a) (\<lambda>b0. bindM (mp_byte (a + 1)) (\<lambda>b1.
     bindM (mp_byte (a + 2)) (\<lambda>b2. bindM (mp_byte (a + 3)) (\<lambda>b3. retM (le32_dec [b0, b1, b2, b3])))))"

definition mp_outb :: "u16 \<Rightarrow> u8 \<Rightarrow> ('z mpst_scheme, unit) kfun" where
  "mp_outb port v = modM (\<lambda>s. s\<lparr>mp_out := mp_out s @ [(port, v)]\<rparr>)"

section \<open>The search\<close>

text \<open>memcmp() of memory with the bytes of a string literal, as a test for equality.\<close>

primrec mp_memcmp :: "u32 \<Rightarrow> bytes \<Rightarrow> ('z mpst_scheme, bool) kfun" where
  "mp_memcmp a [] = retM True"
| "mp_memcmp a (b # bs) = bindM (mp_byte a) (\<lambda>c. if c \<noteq> b then retM False else mp_memcmp (a + 1) bs)"

text \<open>sum(): at most 2^16 bytes are added, so the int does not overflow.\<close>

primrec sum_loop :: "nat \<Rightarrow> u32 \<Rightarrow> int \<Rightarrow> ('z mpst_scheme, int) kfun" where
  "sum_loop 0 a acc = retM acc"
| "sum_loop (Suc n) a acc = bindM (mp_byte a) (\<lambda>b. sum_loop n (a + 1) (acc + uint b))"

definition mp_sum :: "u32 \<Rightarrow> nat \<Rightarrow> ('z mpst_scheme, u8) kfun" where
  "mp_sum a len = bindM (sum_loop len a 0) (\<lambda>n. retM (of_int n))"

text \<open>\<open>n\<close> is the number of 16-byte steps that fit between \<open>addr\<close> and \<open>e\<close>.\<close>

fun mpsearch1_loop :: "nat \<Rightarrow> u32 \<Rightarrow> u32 \<Rightarrow> ('z mpst_scheme, u32 option) kfun" where
  "mpsearch1_loop 0 p e = spinM"
| "mpsearch1_loop (Suc n) p e =
     (if \<not> p < e then retM None
      else bindM (mp_memcmp p (cbytes ''_MP_'')) (\<lambda>eq.
           bindM (if eq then mp_sum p 16 else retM 1) (\<lambda>c.
           if eq \<and> c = 0 then retM (Some p) else mpsearch1_loop n (p + 16) e)))"

definition mpsearch1 :: "u32 \<Rightarrow> nat \<Rightarrow> ('z mpst_scheme, u32 option) kfun" where
  "mpsearch1 a len = (let addr = a + 0x80000000 in mpsearch1_loop (Suc (Suc (len div 16))) addr (addr + of_nat len))"

definition ebda_of :: "u8 \<Rightarrow> u8 \<Rightarrow> u32" where
  "ebda_of hi lo = push_bit 4 (push_bit 8 (ucast hi) OR ucast lo)"

definition base_of :: "u8 \<Rightarrow> u8 \<Rightarrow> u32" where
  "base_of hi lo = (push_bit 8 (ucast hi) OR ucast lo) * 1024"

definition mpsearch :: "('z mpst_scheme, u32 option) kfun" where
  "mpsearch =
     (let bda = 0x400 + 0x80000000 in
      bindM (mp_byte (bda + 0x0F)) (\<lambda>hi. bindM (mp_byte (bda + 0x0E)) (\<lambda>lo.
      let p = ebda_of hi lo in
      bindM (if p \<noteq> 0 then mpsearch1 p 1024
             else bindM (mp_byte (bda + 0x14)) (\<lambda>hi. bindM (mp_byte (bda + 0x13)) (\<lambda>lo.
                  let p = base_of hi lo in mpsearch1 (p - 1024) 1024))) (\<lambda>mp.
      if mp \<noteq> None then retM mp else mpsearch1 0xF0000 0x10000))))"

text \<open>
  mpconfig(): the addresses of the floating pointer and of the configuration
  table.  The offsets are those of struct mp and struct mpconf.
\<close>

definition mpconfig :: "('z mpst_scheme, (u32 \<times> u32) option) kfun" where
  "mpconfig =
     bindM mpsearch (\<lambda>mp.
     case mp of None \<Rightarrow> retM None | Some mp \<Rightarrow>
       bindM (mp_u32 (mp + 4)) (\<lambda>physaddr.
       if physaddr = 0 then retM None
       else let conf = physaddr + 0x80000000 in
         bindM (mp_memcmp conf (cbytes ''PCMP'')) (\<lambda>eq.
         if \<not> eq then retM None
         else bindM (mp_byte (conf + 6)) (\<lambda>version.
           if version \<noteq> 1 \<and> version \<noteq> 4 then retM None
           else bindM (mp_u16 (conf + 4)) (\<lambda>len.
             bindM (mp_sum conf (unat len)) (\<lambda>c.
             if c \<noteq> 0 then retM None else retM (Some (mp, conf))))))))"

section \<open>mpinit()\<close>

definition mp_proc :: "u32 \<Rightarrow> ('z mpst_scheme, unit) kfun" where
  "mp_proc p =
     bindM (getM ncpu) (\<lambda>n.
     whenM (n < NCPU)
       (bindM (mp_byte (p + 1)) (\<lambda>i.
        thenM (modM (\<lambda>s. s\<lparr>cpus := (cpus s)[nat n := (cpus s ! nat n)\<lparr>apicid := i\<rparr>]\<rparr>))
        (modM (\<lambda>s. s\<lparr>ncpu := ncpu s + 1\<rparr>)))))"

text \<open>
  The loop over the entries; its value is \<open>ismp\<close>.  The \<open>break\<close> of the default
  case leaves the switch and not the loop, which goes on with the same \<open>p\<close>.
\<close>

fun mptable_loop :: "nat \<Rightarrow> u32 \<Rightarrow> u32 \<Rightarrow> bool \<Rightarrow> ('z mpst_scheme, bool) kfun" where
  "mptable_loop 0 p e ismp = spinM"
| "mptable_loop (Suc fuel) p e ismp =
     (if \<not> p < e then retM ismp
      else bindM (mp_byte p) (\<lambda>ty.
        if ty = 0 then thenM (mp_proc p) (mptable_loop fuel (p + 20) e ismp)
        else if ty = 2 then
          bindM (mp_byte (p + 1)) (\<lambda>i.
          thenM (modM (\<lambda>s. s\<lparr>ioapicid := i\<rparr>)) (mptable_loop fuel (p + 8) e ismp))
        else if ty = 1 \<or> ty = 3 \<or> ty = 4 then mptable_loop fuel (p + 8) e ismp
        else mptable_loop fuel p e False))"

definition mpinit :: "('z mpst_scheme, unit) kfun" where
  "mpinit =
     bindM mpconfig (\<lambda>r.
     case r of None \<Rightarrow> panicM ''Expect to run on an SMP'' | Some (mp, conf) \<Rightarrow>
       bindM (mp_u32 (conf + 36)) (\<lambda>a.
       thenM (modM (\<lambda>s. s\<lparr>lapic := a\<rparr>))
       (bindM (mp_u16 (conf + 4)) (\<lambda>len.
       bindM (mptable_loop (Suc (2 ^ 16)) (conf + 44) (conf + ucast len) True) (\<lambda>ismp.
       thenM (assertM ismp (''Didn'' @ [CHR 0x27] @ ''t find a suitable machine''))
       (bindM (mp_byte (mp + 12)) (\<lambda>i.
        whenM (i \<noteq> 0)
          (thenM (mp_outb 0x22 0x70)
          (bindM (getM imcr) (\<lambda>v. mp_outb 0x23 (v OR 1)))))))))))"

section \<open>Reading the tables\<close>

definition mp_block :: "u32 \<Rightarrow> nat \<Rightarrow> bool" where
  "mp_block a n \<longleftrightarrow> 0x80000000 \<le> unat a \<and> unat a + n \<le> 0x8E000000"

lemma mp_byte_ok: "mp_mapped a \<Longrightarrow> mp_byte a s = Ok (mpmem s a) s"
  by (simp add: mp_byte_def kcode)

lemma mp_block_unat: "mp_block a n \<Longrightarrow> i \<le> n \<Longrightarrow> unat (a + of_nat i) = unat a + i"
  unfolding mp_block_def by (subst unat_word_ariths(1)) (simp add: unat_of_nat)

lemma mp_block_mapped: "mp_block a n \<Longrightarrow> i < n \<Longrightarrow> mp_mapped (a + of_nat i)"
  using mp_block_unat [of a n i] by (auto simp: mp_block_def mp_mapped_def word_le_nat_alt word_less_nat_alt)

lemma mp_block_sub: "mp_block a n \<Longrightarrow> i + k \<le> n \<Longrightarrow> mp_block (a + of_nat i) k"
  using mp_block_unat [of a n i] by (simp add: mp_block_def)

lemma mp_block_next: "mp_block a (Suc n) \<Longrightarrow> mp_mapped a \<and> mp_block (a + 1) n"
  using mp_block_mapped [of a "Suc n" 0] mp_block_sub [of a "Suc n" 1 n] by simp

lemma sum_loop_ok:
  "mp_block a n \<Longrightarrow> sum_loop n a acc s = Ok (acc + sum_list (map uint (mem_bytes (mpmem s) a n))) s"
  by (induction n arbitrary: a acc) (auto simp: kcode mp_byte_ok mem_bytes_Suc dest!: mp_block_next)

lemma of_int_sum_uint: "(of_int (sum_list (map uint bs)) :: u8) = sum_list bs"
  by (induction bs) auto

lemma mp_sum_ok: "mp_block a n \<Longrightarrow> mp_sum a n s = Ok (sum_list (mem_bytes (mpmem s) a n)) s"
  by (simp add: mp_sum_def kcode sum_loop_ok of_int_sum_uint)

lemma mp_memcmp_ok: "mp_block a (length bs) \<Longrightarrow> mp_memcmp a bs s = Ok (mem_bytes (mpmem s) a (length bs) = bs) s"
  by (induction bs arbitrary: a) (auto simp: kcode mp_byte_ok mem_bytes_Suc dest!: mp_block_next)

lemma mp_sig_ok: "mp_block a 4 \<Longrightarrow> length c = 4 \<Longrightarrow> mp_memcmp a (cbytes c) s = Ok (mem_bytes (mpmem s) a 4 = cbytes c) s"
  using mp_memcmp_ok [of a "cbytes c" s] by simp

lemma mp_u16_ok: "mp_block a 2 \<Longrightarrow> mp_u16 a s = Ok (le16_dec (mem_bytes (mpmem s) a 2)) s"
  using mp_block_mapped [of a 2 0] mp_block_mapped [of a 2 1]
  by (simp add: mp_u16_def kcode mp_byte_ok mem_bytes_def numeral_2_eq_2)

lemma mp_u32_ok: "mp_block a 4 \<Longrightarrow> mp_u32 a s = Ok (le32_dec (mem_bytes (mpmem s) a 4)) s"
  using mp_block_mapped [of a 4 0] mp_block_mapped [of a 4 1] mp_block_mapped [of a 4 2] mp_block_mapped [of a 4 3]
  by (simp add: mp_u32_def kcode mp_byte_ok mem_bytes_def numeral_eq_Suc)

lemma mp_below:
  assumes "mp_block a n" "i \<le> n"
  shows "a + of_nat i < a + of_nat n \<longleftrightarrow> i < n"
  using mp_block_unat [OF assms] mp_block_unat [OF assms(1) order_refl] by (simp add: word_less_nat_alt)

section \<open>The search finds the first structure\<close>

definition mp_valid :: "mem \<Rightarrow> u32 \<Rightarrow> bool" where
  "mp_valid m p \<longleftrightarrow> mem_bytes m p 4 = cbytes ''_MP_'' \<and> sum_list (mem_bytes m p 16) = 0"

definition mp_slots :: "u32 \<Rightarrow> nat \<Rightarrow> u32 list" where
  "mp_slots a n = map (\<lambda>j. a + of_nat (16 * j)) [0..<n]"

lemma mp_slots_Suc: "mp_slots a (Suc n) = a # mp_slots (a + 16) n"
proof -
  have "[0..<Suc n] = 0 # map Suc [0..<n]" by (simp only: map_Suc_upt upt_conv_Cons zero_less_Suc)
  then show ?thesis unfolding mp_slots_def by (simp add: algebra_simps)
qed

lemma mpsearch1_loop_ok:
  assumes "n < fuel" "mp_block p (16 * n)"
  shows "mpsearch1_loop fuel p (p + of_nat (16 * n)) s = Ok (find (mp_valid (mpmem s)) (mp_slots p n)) s"
  using assms
proof (induction n arbitrary: fuel p)
  case 0
  then obtain f where "fuel = Suc f" by (cases fuel) auto
  then show ?case by (simp add: kcode mp_slots_def)
next
  case (Suc n)
  then obtain f where f: "fuel = Suc f" "n < f" by (cases fuel) auto
  have lt: "p < p + of_nat (16 * Suc n)" using mp_below [OF Suc.prems(2), of 0] by simp
  have b: "mp_block p 16" "mp_block p 4" "mp_block (p + 16) (16 * n)"
    using mp_block_sub [OF Suc.prems(2), of 0 16] mp_block_sub [OF Suc.prems(2), of 0 4] mp_block_sub [OF Suc.prems(2), of 16 "16 * n"] by simp_all
  have e: "p + of_nat (16 * Suc n) = (p + 16) + of_nat (16 * n)" by simp
  have IH: "mpsearch1_loop f (p + 16) (p + of_nat (16 * Suc n)) s = Ok (find (mp_valid (mpmem s)) (mp_slots (p + 16) n)) s"
    unfolding e by (rule Suc.IH [OF f(2) b(3)])
  have eq: "mp_memcmp p (cbytes ''_MP_'') s = Ok (mem_bytes (mpmem s) p 4 = cbytes ''_MP_'') s"
    by (rule mp_sig_ok [OF b(2)]) simp
  show ?case unfolding f(1) mpsearch1_loop.simps using lt IH
    by (simp add: kcode eq mp_sum_ok b(1) mp_slots_Suc mp_valid_def [of _ p] del: of_nat_mult)
qed

text \<open>
  The places where the structure may be: the first kilobyte of the extended
  BIOS data area, or the last of the base memory when there is none, and the ROM.
\<close>

definition ebda :: "mem \<Rightarrow> u32" where
  "ebda m = ebda_of (m 0x8000040F) (m 0x8000040E)"

definition basemem :: "mem \<Rightarrow> u32" where
  "basemem m = base_of (m 0x80000414) (m 0x80000413)"

text \<open>The code searches the ROM from 0xF0000, its comment names the ROM from 0xE0000.\<close>

definition mp_places :: "mem \<Rightarrow> u32 list" where
  "mp_places m = mp_slots ((if ebda m \<noteq> 0 then ebda m else basemem m - 1024) + 0x80000000) 64 @ mp_slots 0x800F0000 4096"

lemma u16_pair: "unat (push_bit 8 (ucast (hi :: u8)) OR ucast (lo :: u8) :: u32) < 2 ^ 16"
proof -
  let ?w = "push_bit 8 (ucast hi) OR ucast lo :: u32"
  have "?w = take_bit 16 ?w" by (rule bit_word_eqI) (auto simp: bit_simps dest: bit_imp_le_length)
  then have "unat ?w = unat (take_bit 16 ?w)" by (rule arg_cong)
  also have "\<dots> = take_bit 16 (unat ?w)" by (rule unsigned_take_bit_eq)
  also have "\<dots> < 2 ^ 16" by (rule take_bit_nat_less_exp)
  finally show ?thesis .
qed

lemma ebda_bound: "unat (ebda m) < 2 ^ 20"
proof -
  let ?w = "push_bit 8 (ucast (m 0x8000040F)) OR ucast (m 0x8000040E) :: u32"
  have "unat ?w * 16 < 2 ^ 20" using u16_pair [of "m 0x8000040F" "m 0x8000040E"] by simp
  moreover have "ebda m = ?w * 16" by (simp add: ebda_def ebda_of_def push_bit_eq_mult mult.commute)
  ultimately show ?thesis by (simp add: unat_word_ariths(2))
qed

lemma basemem_bound: "unat (basemem m) < 2 ^ 26" "basemem m \<noteq> 0 \<Longrightarrow> 1024 \<le> unat (basemem m)"
proof -
  let ?w = "push_bit 8 (ucast (m 0x80000414)) OR ucast (m 0x80000413) :: u32"
  have "unat ?w * 1024 < 2 ^ 26" using u16_pair [of "m 0x80000414" "m 0x80000413"] by simp
  then have u: "unat (basemem m) = unat ?w * 1024" by (simp add: basemem_def base_of_def unat_word_ariths(2))
  show "unat (basemem m) < 2 ^ 26" using u u16_pair [of "m 0x80000414" "m 0x80000413"] by simp
  assume "basemem m \<noteq> 0"
  then have "?w \<noteq> 0" by (auto simp: basemem_def base_of_def)
  then have "unat ?w \<noteq> 0" by (simp add: unat_eq_zero)
  then show "1024 \<le> unat (basemem m)" using u by simp
qed

lemma mp_block_P2V: "unat a + n \<le> 0xE000000 \<Longrightarrow> mp_block (a + 0x80000000) n"
  by (simp add: mp_block_def unat_word_ariths(1))

lemma mpsearch1_ok:
  assumes "unat a + 16 * n \<le> 0xE000000"
  shows "mpsearch1 a (16 * n) s = Ok (find (mp_valid (mpmem s)) (mp_slots (a + 0x80000000) n)) s"
  unfolding mpsearch1_def Let_def by (rule mpsearch1_loop_ok [OF _ mp_block_P2V [OF assms]]) simp

lemma mpsearch_ok:
  assumes "ebda (mpmem s) \<noteq> 0 \<or> basemem (mpmem s) \<noteq> 0"
  shows "mpsearch s = Ok (find (mp_valid (mpmem s)) (mp_places (mpmem s))) s"
proof -
  have lo: "mp_byte a s = Ok (mpmem s a) s" if "0x80000000 \<le> a" "a < 0x80001000" for a
    using that by (intro mp_byte_ok) (auto simp: mp_mapped_def word_less_nat_alt word_le_nat_alt)
  have rom: "mpsearch1 0xF0000 0x10000 s = Ok (find (mp_valid (mpmem s)) (mp_slots 0x800F0000 4096)) s"
    using mpsearch1_ok [of "0xF0000" 4096 s] by simp
  have e: "mpsearch1 (ebda (mpmem s)) 1024 s = Ok (find (mp_valid (mpmem s)) (mp_slots (ebda (mpmem s) + 0x80000000) 64)) s"
    using mpsearch1_ok [of "ebda (mpmem s)" 64 s] ebda_bound [of "mpmem s"] by simp
  have b: "mpsearch1 (basemem (mpmem s) - 1024) 1024 s = Ok (find (mp_valid (mpmem s)) (mp_slots (basemem (mpmem s) - 1024 + 0x80000000) 64)) s"
    if "ebda (mpmem s) = 0"
  proof -
    have "1024 \<le> unat (basemem (mpmem s))" "unat (basemem (mpmem s)) < 2 ^ 26" using basemem_bound [of "mpmem s"] assms that by auto
    then have "unat (basemem (mpmem s) - 1024) + 16 * 64 \<le> 0xE000000" by (subst unat_sub) (auto simp: word_le_nat_alt)
    then show ?thesis using mpsearch1_ok [of "basemem (mpmem s) - 1024" 64 s] by simp
  qed
  show ?thesis
    by (simp add: mpsearch_def Let_def kcode lo mp_places_def find_append e b rom flip: ebda_def basemem_def split: option.splits)
qed

section \<open>The configuration table\<close>

text \<open>The entries of a table, and their bytes.\<close>

datatype mpent = Ent_proc u8 bytes | Ent_ioapic u8 bytes | Ent_other u8 bytes

fun ent_bytes :: "mpent \<Rightarrow> bytes" where
  "ent_bytes (Ent_proc i r) = 0 # i # r"
| "ent_bytes (Ent_ioapic i r) = 2 # i # r"
| "ent_bytes (Ent_other t r) = t # r"

fun ent_ok :: "mpent \<Rightarrow> bool" where
  "ent_ok (Ent_proc i r) \<longleftrightarrow> length r = 18"
| "ent_ok (Ent_ioapic i r) \<longleftrightarrow> length r = 6"
| "ent_ok (Ent_other t r) \<longleftrightarrow> length r = 7 \<and> (t = 1 \<or> t = 3 \<or> t = 4)"

fun ent_apply :: "mpent \<Rightarrow> 'z mpst_scheme \<Rightarrow> 'z mpst_scheme" where
  "ent_apply (Ent_proc i r) s = (if ncpu s < NCPU then
     s\<lparr>cpus := (cpus s)[nat (ncpu s) := (cpus s ! nat (ncpu s))\<lparr>apicid := i\<rparr>], ncpu := ncpu s + 1\<rparr> else s)"
| "ent_apply (Ent_ioapic i r) s = s\<lparr>ioapicid := i\<rparr>"
| "ent_apply (Ent_other t r) s = s"

fun proc_id :: "mpent \<Rightarrow> u8 list" where
  "proc_id (Ent_proc i r) = [i]"
| "proc_id e = []"

fun ioapic_id :: "mpent \<Rightarrow> u8 list" where
  "ioapic_id (Ent_ioapic i r) = [i]"
| "ioapic_id e = []"

lemma mem_bytes_append: "mem_bytes m a (i + n) = mem_bytes m a i @ mem_bytes m (a + of_nat i) n"
  by (induction i arbitrary: a) (simp_all add: mem_bytes_Suc algebra_simps)

lemma mptable_step:
  assumes "ent_ok x" "mp_block p (length (ent_bytes x))" "mem_bytes (mpmem s) p (length (ent_bytes x)) = ent_bytes x" "p < e"
  shows "mptable_loop (Suc fuel) p e True s = mptable_loop fuel (p + of_nat (length (ent_bytes x))) e True (ent_apply x s)"
proof -
  have "2 \<le> length (ent_bytes x)" using assms(1) by (cases x) auto
  then obtain k where k: "length (ent_bytes x) = Suc (Suc k)" by (auto dest: le_Suc_ex)
  have m: "mp_mapped p" "mp_mapped (p + 1)" using assms(2) k by (auto dest!: mp_block_next)
  have b: "mpmem s p = ent_bytes x ! 0" "mpmem s (p + 1) = ent_bytes x ! 1"
    using assms(3) [unfolded k mem_bytes_Suc, symmetric] by simp_all
  then show ?thesis using assms(1,4) m by (cases x) (auto simp: kcode mp_byte_ok mp_proc_def)
qed

lemma mpmem_ent_apply [simp]: "mpmem (ent_apply x s) = mpmem s"
  by (cases x) auto

lemma mptable_loop_ok:
  assumes "\<forall>x \<in> set xs. ent_ok x" "mp_block p n" "mem_bytes (mpmem s) p n = concat (map ent_bytes xs)" "n < fuel"
  shows "mptable_loop fuel p (p + of_nat n) True s = Ok True (fold ent_apply xs s)"
  using assms
proof (induction xs arbitrary: p n fuel s)
  case Nil
  then have "n = 0" by (metis concat.simps(1) length_mem_bytes list.size(3) map_is_Nil_conv)
  then show ?case using Nil by (cases fuel) (simp_all add: kcode)
next
  case (Cons x xs)
  let ?l = "length (ent_bytes x)"
  have "length (mem_bytes (mpmem s) p n) = ?l + length (concat (map ent_bytes xs))" unfolding Cons.prems(3) by simp
  then obtain r where n: "n = ?l + r" by simp
  have l: "0 < ?l" using Cons.prems(1) by (cases x) auto
  obtain f where f: "fuel = Suc f" "r < f" using Cons.prems(4) n l by (cases fuel) auto
  have m: "mem_bytes (mpmem s) p ?l = ent_bytes x" "mem_bytes (mpmem s) (p + of_nat ?l) r = concat (map ent_bytes xs)"
    using Cons.prems(3) unfolding n mem_bytes_append by auto
  have lt: "p < p + of_nat n" using mp_below [OF Cons.prems(2), of 0] n l by simp
  have b: "mp_block p ?l" "mp_block (p + of_nat ?l) r"
    using mp_block_sub [OF Cons.prems(2), of 0 ?l] mp_block_sub [OF Cons.prems(2), of ?l r] n by simp_all
  have "mptable_loop fuel p (p + of_nat n) True s = mptable_loop f (p + of_nat ?l) (p + of_nat ?l + of_nat r) True (ent_apply x s)"
    using mptable_step [OF _ b(1) m(1) lt, of f] Cons.prems(1) by (simp add: f(1) n add.assoc)
  also have "\<dots> = Ok True (fold ent_apply xs (ent_apply x s))"
    by (rule Cons.IH [OF _ b(2) _ f(2)]) (use Cons.prems(1) m(2) in auto)
  finally show ?case by simp
qed

lemma take_room: "k < 8 \<Longrightarrow> take (8 - k) (x # xs) = x # take (7 - k) xs"
proof -
  assume "k < 8"
  then have "8 - k = Suc (7 - k)" by simp
  then show ?thesis by (metis take_Suc_Cons)
qed

text \<open>What the entries leave behind.\<close>

lemma ents_result:
  assumes "length (cpus s) = 8" "ncpu s = int k" "k \<le> 8"
  shows "ncpu (fold ent_apply xs s) = int (min 8 (k + length (concat (map proc_id xs))))
    \<and> map apicid (take (min 8 (k + length (concat (map proc_id xs)))) (cpus (fold ent_apply xs s)))
       = take 8 (map apicid (take k (cpus s)) @ concat (map proc_id xs))
    \<and> ioapicid (fold ent_apply xs s) = last (ioapicid s # concat (map ioapic_id xs))
    \<and> lapic (fold ent_apply xs s) = lapic s \<and> mp_out (fold ent_apply xs s) = mp_out s \<and> imcr (fold ent_apply xs s) = imcr s
    \<and> mpmem (fold ent_apply xs s) = mpmem s"
  using assms
proof (induction xs arbitrary: s k)
  case Nil
  then show ?case by (simp add: min_def)
next
  case (Cons x xs)
  let ?t = "ent_apply x s" and ?ys = "concat (map proc_id xs)"
  define k' where "k' = (if proc_id x \<noteq> [] \<and> k < 8 then Suc k else k)"
  have pre: "length (cpus ?t) = 8" "ncpu ?t = int k'" "k' \<le> 8" using Cons.prems by (cases x; simp add: k'_def)+
  have ids: "take 8 (map apicid (take k' (cpus ?t)) @ ?ys) = take 8 (map apicid (take k (cpus s)) @ proc_id x @ ?ys)"
    using Cons.prems by (cases x) (auto simp: k'_def take_Suc_conv_app_nth take_room)
  have len: "min 8 (k' + length ?ys) = min 8 (k + length (proc_id x @ ?ys))" using Cons.prems by (cases x) (auto simp: k'_def)
  have io: "last (ioapicid ?t # ys) = last (ioapicid s # ioapic_id x @ ys)" for ys by (cases x) auto
  have rest: "lapic ?t = lapic s" "mp_out ?t = mp_out s" "imcr ?t = imcr s" by (cases x; simp)+
  show ?case using Cons.IH [OF pre] unfolding len ids io rest by simp
qed

text \<open>
  An entry of unknown type makes the loop run forever, so that the panic
  behind it is never reached.
\<close>

lemma mptable_unknown_spins:
  assumes "p < e" "mp_mapped p" "mpmem s p \<notin> {0, 1, 2, 3, 4}"
  shows "mptable_loop fuel p e ismp s = Spin"
  using assms by (induction fuel arbitrary: ismp) (auto simp: kcode mp_byte_ok)

section \<open>Properties\<close>

text \<open>A configuration table: its header, whose other fields are not read, and its entries.\<close>

definition mpconf_bytes :: "u8 \<Rightarrow> bytes \<Rightarrow> u32 \<Rightarrow> bytes \<Rightarrow> mpent list \<Rightarrow> bytes" where
  "mpconf_bytes version mid addr tail ents = cbytes ''PCMP'' @ le16_enc (of_nat (44 + length (concat (map ent_bytes ents)))) @ [version] @
     mid @ le32_enc addr @ tail @ concat (map ent_bytes ents)"

definition mp_table_at :: "mem \<Rightarrow> u32 \<Rightarrow> u8 \<Rightarrow> u32 \<Rightarrow> mpent list \<Rightarrow> bool" where
  "mp_table_at m conf version addr ents \<longleftrightarrow> (version = 1 \<or> version = 4) \<and> (\<forall>x \<in> set ents. ent_ok x) \<and>
     (\<exists>mid tail. length mid = 29 \<and> length tail = 4 \<and> (let t = mpconf_bytes version mid addr tail ents in
        mem_bytes m conf (length t) = t \<and> sum_list t = 0 \<and> length t < 2 ^ 16 \<and> mp_block conf (length t)))"

lemma mem_bytes_sub: "mem_bytes m a n = xs @ ys @ zs \<Longrightarrow> mem_bytes m (a + of_nat (length xs)) (length ys) = ys"
proof -
  assume a: "mem_bytes m a n = xs @ ys @ zs"
  then have "n = length xs + (length ys + length zs)" by (metis length_append length_mem_bytes)
  then show ?thesis using a by (simp add: mem_bytes_append)
qed

lemma mp_table_fields:
  assumes "mp_table_at m conf version addr ents"
  obtains n where "n = length (concat (map ent_bytes ents))" "mp_block conf (44 + n)" "44 + n < 2 ^ 16" "version = 1 \<or> version = 4"
    "\<forall>x \<in> set ents. ent_ok x" "mem_bytes m conf 4 = cbytes ''PCMP''" "le16_dec (mem_bytes m (conf + 4) 2) = of_nat (44 + n)" "m (conf + 6) = version"
    "le32_dec (mem_bytes m (conf + 36) 4) = addr" "sum_list (mem_bytes m conf (44 + n)) = 0" "mem_bytes m (conf + 44) n = concat (map ent_bytes ents)"
proof -
  define n where "n = length (concat (map ent_bytes ents))"
  let ?l = "le16_enc (of_nat (44 + n))" and ?c = "concat (map ent_bytes ents)"
  from assms obtain mid tail where l: "length mid = 29" "length tail = 4"
    and t: "mem_bytes m conf (length (mpconf_bytes version mid addr tail ents)) = mpconf_bytes version mid addr tail ents"
      "sum_list (mpconf_bytes version mid addr tail ents) = 0"
      "length (mpconf_bytes version mid addr tail ents) < 2 ^ 16" "mp_block conf (length (mpconf_bytes version mid addr tail ents))"
    and e: "version = 1 \<or> version = 4" "\<forall>x \<in> set ents. ent_ok x"
    unfolding mp_table_at_def Let_def by blast
  have len: "length (mpconf_bytes version mid addr tail ents) = 44 + n" using l by (simp add: mpconf_bytes_def n_def)
  have b: "mem_bytes m conf (44 + n) = cbytes ''PCMP'' @ ?l @ [version] @ mid @ le32_enc addr @ tail @ ?c"
    using t(1) unfolding len by (simp add: mpconf_bytes_def n_def)
  note sub = mem_bytes_sub [of m conf "44 + n"]
  have f1: "mem_bytes m conf 4 = cbytes ''PCMP''" using sub [of "[]" "cbytes ''PCMP''"] b by (simp add: numeral_eq_Suc)
  have f2: "mem_bytes m (conf + 4) 2 = ?l" using sub [of "cbytes ''PCMP''" ?l] b by simp
  have f3: "m (conf + 6) = version" using sub [of "cbytes ''PCMP'' @ ?l" "[version]"] b by (simp add: mem_bytes_Suc)
  have f4: "mem_bytes m (conf + 36) 4 = le32_enc addr" using sub [of "cbytes ''PCMP'' @ ?l @ [version] @ mid" "le32_enc addr"] b l by simp
  have f5: "mem_bytes m (conf + 44) n = ?c" using sub [of "cbytes ''PCMP'' @ ?l @ [version] @ mid @ le32_enc addr @ tail" ?c "[]"] b l by (simp add: n_def)
  have f6: "sum_list (mem_bytes m conf (44 + n)) = 0" using t(1,2) unfolding len by simp
  show thesis
    by (rule that [OF n_def _ _ e f1 _ f3 _ f6 f5]) (use t(3,4) f2 f4 le16_dec_enc [of _ "[]"] le32_dec_enc [of _ "[]"] in \<open>simp_all add: len\<close>)
qed

lemma mpconfig_ok:
  assumes "ebda (mpmem s) \<noteq> 0 \<or> basemem (mpmem s) \<noteq> 0" "find (mp_valid (mpmem s)) (mp_places (mpmem s)) = Some mp" "mp_block mp 16"
    and "le32_dec (mem_bytes (mpmem s) (mp + 4) 4) = phys" "phys \<noteq> 0" "mp_table_at (mpmem s) (phys + 0x80000000) version addr ents"
  shows "mpconfig s = Ok (Some (mp, phys + 0x80000000)) s"
proof -
  let ?c = "phys + 0x80000000"
  obtain n where n: "mp_block ?c (44 + n)" "44 + n < 2 ^ 16" "version = 1 \<or> version = 4" "mem_bytes (mpmem s) ?c 4 = cbytes ''PCMP''"
     "le16_dec (mem_bytes (mpmem s) (?c + 4) 2) = of_nat (44 + n)" "mpmem s (?c + 6) = version" "sum_list (mem_bytes (mpmem s) ?c (44 + n)) = 0"
    using mp_table_fields [OF assms(6)] by metis
  note sub = mp_block_sub [OF n(1)]
  have "mp_memcmp ?c (cbytes ''PCMP'') s = Ok True s" using mp_sig_ok [of ?c "''PCMP''" s] sub [of 0 4] n(4) by simp
  moreover have "mp_byte (?c + 6) s = Ok version s" using mp_byte_ok [of _ s] mp_block_mapped [OF n(1), of 6] n(6) by simp
  moreover have "mp_u16 (?c + 4) s = Ok (of_nat (44 + n)) s" using mp_u16_ok [OF sub [of 4 2], of s] n(5) by simp
  moreover have "mp_sum ?c (unat (of_nat (44 + n) :: u16)) s = Ok 0 s" using mp_sum_ok [OF n(1), of s] n(2,7) by (simp add: unat_of_nat del: of_nat_add)
  moreover have "mp_u32 (mp + 4) s = Ok phys s" using mp_u32_ok [OF mp_block_sub [OF assms(3), of 4 4], of s] assms(4) by simp
  ultimately show ?thesis using n(3) assms(5)
    by (auto simp: mpconfig_def mpsearch_ok [OF assms(1)] assms(2) Let_def kcode simp del: of_nat_add of_nat_Suc)
qed

text \<open>
  C31: finding the processors.  When the BIOS left a valid floating pointer
  (the first valid one of the places the specification names is at \<open>mp\<close>) to
  a well-formed configuration table, mpinit() returns; the first eight
  processors of the table, in its order, become the CPUs with their APIC
  ids, and ioapicid and lapic are those of the table.  Interrupts are routed
  away from the old controller exactly if the pointer's IMCR flag is set.
\<close>

theorem mpinit_spec:
  fixes s :: "'z mpst_scheme"
  assumes "ebda (mpmem s) \<noteq> 0 \<or> basemem (mpmem s) \<noteq> 0" "find (mp_valid (mpmem s)) (mp_places (mpmem s)) = Some mp" "mp_block mp 16"
    and "le32_dec (mem_bytes (mpmem s) (mp + 4) 4) = phys" "phys \<noteq> 0" "mp_table_at (mpmem s) (phys + 0x80000000) version addr ents"
    and "length (cpus s) = 8" "ncpu s = 0"
  shows "\<exists>t. mpinit s = Ok () t \<and> ncpu t = int (length (take 8 (concat (map proc_id ents))))
    \<and> map apicid (take (nat (ncpu t)) (cpus t)) = take 8 (concat (map proc_id ents))
    \<and> ioapicid t = last (ioapicid s # concat (map ioapic_id ents)) \<and> lapic t = addr
    \<and> mp_out t = mp_out s @ (if mpmem s (mp + 12) = 0 then [] else [(0x22, 0x70), (0x23, imcr s OR 1)])"
proof -
  let ?c = "phys + 0x80000000" and ?s = "s\<lparr>lapic := addr\<rparr>"
  obtain n where n: "mp_block ?c (44 + n)" "44 + n < 2 ^ 16" "\<forall>x \<in> set ents. ent_ok x" "le16_dec (mem_bytes (mpmem s) (?c + 4) 2) = of_nat (44 + n)"
     "le32_dec (mem_bytes (mpmem s) (?c + 36) 4) = addr" "mem_bytes (mpmem s) (?c + 44) n = concat (map ent_bytes ents)"
    using mp_table_fields [OF assms(6)] by metis
  let ?t = "fold ent_apply ents ?s"
  have res: "ncpu ?t = int (min 8 (length (concat (map proc_id ents))))"
    "map apicid (take (min 8 (length (concat (map proc_id ents)))) (cpus ?t)) = take 8 (concat (map proc_id ents))"
    "ioapicid ?t = last (ioapicid s # concat (map ioapic_id ents))" "lapic ?t = addr" "mp_out ?t = mp_out s" "imcr ?t = imcr s" "mpmem ?t = mpmem s"
    using ents_result [of ?s 0 ents] assms(7,8) by simp_all
  have l: "mptable_loop (Suc (2 ^ 16)) (?c + 44) (?c + 44 + of_nat n) True ?s = Ok True ?t"
    by (rule mptable_loop_ok [OF n(3)]) (use mp_block_sub [OF n(1), of 44 n] n(2,6) in simp_all)
  have len: "ucast (of_nat (44 + n) :: u16) = (of_nat (44 + n) :: u32)"
    using n(2) by (intro word_unat_eq_iff [THEN iffD2]) (simp add: unat_of_nat unsigned_ucast_eq take_bit_nat_eq_self del: of_nat_add)
  have "mp_u32 (?c + 36) s = Ok addr s" using mp_u32_ok [OF mp_block_sub [OF n(1), of 36 4], of s] n(5) by simp
  moreover have "mp_u16 (?c + 4) ?s = Ok (of_nat (44 + n)) ?s" using mp_u16_ok [OF mp_block_sub [OF n(1), of 4 2], of ?s] n(4) by simp
  moreover have "mp_byte (mp + 12) ?t = Ok (mpmem s (mp + 12)) ?t" using mp_byte_ok [of "mp + 12" ?t] mp_block_mapped [OF assms(3), of 12] res(7) by simp
  ultimately have run: "mpinit s = Ok () (if mpmem s (mp + 12) = 0 then ?t else ?t\<lparr>mp_out := mp_out s @ [(0x22, 0x70), (0x23, imcr s OR 1)]\<rparr>)"
    using l len res(5,6) unfolding mpinit_def by (simp add: mpconfig_ok [OF assms(1-6)] kcode mp_outb_def add.assoc)
  show ?thesis unfolding run using res by (auto simp: min_def)
qed

text \<open>A machine with two processors.\<close>

definition two_cpus :: "mpent list" where
  "two_cpus = [Ent_proc 0 (replicate 18 0), Ent_proc 1 (replicate 18 0), Ent_ioapic 2 (replicate 6 0), Ent_other 1 (replicate 7 0)]"

definition two_float :: bytes where
  "two_float = cbytes ''_MP_'' @ le32_enc 0x1000 @ [1, 4, 0x10, 0, 0x80, 0, 0, 0]"

definition two_conf :: bytes where
  "two_conf = mpconf_bytes 4 (0x84 # replicate 28 0) 0xFEE00000 (replicate 4 0) two_cpus"

definition two_mem :: mem where
  "two_mem a = (let n = unat a in
     if 0x8009FC00 \<le> n \<and> n < 0x8009FC10 then two_float ! (n - 0x8009FC00)
     else if 0x80001000 \<le> n \<and> n < 0x80001064 then two_conf ! (n - 0x80001000)
     else if n = 0x8000040F then 0x9F else if n = 0x8000040E then 0xC0 else 0)"

definition two_state :: mpst where
  "two_state = \<lparr>cpus = replicate 8 \<lparr>apicid = 0, fl_if = False, ncli = 0, intena = False\<rparr>, lks = (\<lambda>_. \<lparr>locked = False, lcpu = None\<rparr>),
     mpmem = two_mem, ncpu = 0, ioapicid = 0, lapic = 0, mp_out = [], imcr = 0\<rparr>"

lemma mem_region:
  assumes "mp_block a (length l)" "\<And>i x. i < length l \<Longrightarrow> unat x = unat a + i \<Longrightarrow> m x = l ! i"
  shows "mem_bytes m a (length l) = l"
proof (rule nth_equalityI)
  fix i assume i: "i < length (mem_bytes m a (length l))"
  then have "unat (a + of_nat i) = unat a + i" by (intro mp_block_unat [OF assms(1)]) simp
  then show "mem_bytes m a (length l) ! i = l ! i" using assms(2) i by (simp add: mem_bytes_def)
qed simp

lemma two_lengths: "length two_float = 16" "length two_conf = 100"
  by (simp_all add: two_float_def two_conf_def mpconf_bytes_def two_cpus_def)

lemma two_float_at: "mem_bytes two_mem 0x8009FC00 16 = two_float"
  using mem_region [of "0x8009FC00" two_float two_mem] by (simp add: two_lengths mp_block_def two_mem_def)

lemma two_conf_at: "mem_bytes two_mem 0x80001000 100 = two_conf"
  using mem_region [of "0x80001000" two_conf two_mem] by (simp add: two_lengths mp_block_def two_mem_def)

lemma two_valid: "mp_valid two_mem 0x8009FC00"
proof -
  have "mem_bytes two_mem 0x8009FC00 (4 + 12) = two_float" using two_float_at by simp
  then have "mem_bytes two_mem 0x8009FC00 4 = take 4 two_float" unfolding mem_bytes_append by (metis append_eq_conv_conj length_mem_bytes)
  moreover have "take 4 two_float = cbytes ''_MP_''" by (simp add: two_float_def)
  moreover have "sum_list two_float = 0" by (simp add: two_float_def cbytes_def le32_enc_def)
  ultimately show ?thesis by (simp add: mp_valid_def two_float_at)
qed

theorem mpinit_spec_witness:
  "\<exists>t. mpinit two_state = Ok () t \<and> ncpu t = 2 \<and> map apicid (take 2 (cpus t)) = [0, 1] \<and> ioapicid t = 2 \<and> lapic t = 0xFEE00000
    \<and> mp_out t = [(0x22, 0x70), (0x23, 1)]"
proof -
  have e: "ebda two_mem = 0x9FC00" by (simp add: ebda_def ebda_of_def two_mem_def)
  have "find (mp_valid two_mem) (mp_places two_mem) = Some 0x8009FC00"
    using two_valid mp_slots_Suc [of "0x8009FC00" 63] by (simp add: mp_places_def e)
  moreover have "mem_bytes two_mem 0x8009FC04 4 = le32_enc 0x1000"
    using mem_bytes_sub [of two_mem "0x8009FC00" 16 "cbytes ''_MP_''" "le32_enc 0x1000"] two_float_at by (simp add: two_float_def)
  moreover have "mp_table_at two_mem 0x80001000 4 0xFEE00000 two_cpus"
  proof -
    have "sum_list two_conf = 0" by (simp add: two_conf_def mpconf_bytes_def two_cpus_def cbytes_def le32_enc_def le16_enc_def sum_list_replicate)
    moreover have "\<forall>x \<in> set two_cpus. ent_ok x" by (simp add: two_cpus_def)
    ultimately show ?thesis unfolding mp_table_at_def Let_def
      using two_conf_at two_lengths by (intro conjI exI [of _ "0x84 # replicate 28 0"] exI [of _ "replicate 4 0"]) (simp_all add: mp_block_def flip: two_conf_def)
  qed
  moreover have "two_mem 0x8009FC0C = 0x80" by (simp add: two_mem_def two_float_def le32_enc_def cbytes_def)
  ultimately show ?thesis
    using mpinit_spec [of two_state "0x8009FC00" "0x1000" 4 "0xFEE00000" two_cpus] le32_dec_enc [of "0x1000" "[]"]
    by (auto simp: two_state_def e mp_block_def two_cpus_def)
qed

end
