(* ===== verification/Proc_Sched.thy ===== *)
theory Proc_Sched
  imports Spinlock
begin

text \<open>
  The part of proc.c that needs only the process table: sched, yield, sleep,
  wakeup and kill, and the calls this repository adds to xv6
  (get_siblings_info, get_ancestors, getppid).
\<close>

section \<open>Giving up the CPU\<close>

text \<open>
  sched() ends in swtch() to the CPU's scheduler, so as seen from the process
  it does not return; the number of held locks is \<open>mycpu()->ncli\<close>, and a held
  spin lock means that interrupts are off.
\<close>

definition sched :: "('z kst_scheme, unit) kfun" where
  "sched =
     bindM curproc (\<lambda>p.
     bindM (getM (\<lambda>s. L_ptable \<in> set (held s))) (\<lambda>h.
     thenM (assertM h ''sched ptable.lock'')
     (bindM (getM (\<lambda>s. length (held s))) (\<lambda>ncli.
     thenM (assertM (ncli = 1) ''sched locks'')
     (bindM (getM (\<lambda>s. pstate (procs s ! p))) (\<lambda>st.
     thenM (assertM (st \<noteq> RUNNING) ''sched running'')
     (\<lambda>s. Swtch s)))))))"

text \<open>yield() up to the switch, and what it does when it is scheduled again.\<close>

definition yield :: "('z kst_scheme, unit) kfun" where
  "yield =
     thenM (acquire L_ptable)
     (bindM curproc (\<lambda>p.
     thenM (upd_proc p (\<lambda>q. q\<lparr>pstate := RUNNABLE\<rparr>))
     sched))"

definition yield_resume :: "('z kst_scheme, unit) kfun" where
  "yield_resume = release L_ptable"

text \<open>
  sleep(chan, lk) up to the switch, and its tail after a wakeup.  A null
  \<open>lk\<close> is \<open>None\<close>.  The statements behind the tests are a list, so that other
  CPUs can be interleaved between them (Interleave.thy).
\<close>

definition sleep_ops :: "nat \<Rightarrow> chan \<Rightarrow> lockid \<Rightarrow> ('z kst_scheme, unit) kfun list" where
  "sleep_ops p ch l =
     (if l \<noteq> L_ptable then [acquire L_ptable, release l] else []) @
     [upd_proc p (\<lambda>q. q\<lparr>pchan := Some ch\<rparr>),
      upd_proc p (\<lambda>q. q\<lparr>pstate := SLEEPING\<rparr>),
      sched]"

definition sleep :: "chan \<Rightarrow> lockid option \<Rightarrow> ('z kst_scheme, unit) kfun" where
  "sleep ch lk =
     bindM myproc (\<lambda>mp. case mp of None \<Rightarrow> panicM ''sleep'' | Some p \<Rightarrow>
       (case lk of None \<Rightarrow> panicM ''sleep without lk'' | Some l \<Rightarrow> seqM (sleep_ops p ch l)))"

definition sleep_resume :: "lockid \<Rightarrow> ('z kst_scheme, unit) kfun" where
  "sleep_resume l =
     bindM curproc (\<lambda>p.
     thenM (upd_proc p (\<lambda>q. q\<lparr>pchan := None\<rparr>))
     (whenM (l \<noteq> L_ptable) (thenM (release L_ptable) (acquire l))))"

section \<open>Waking up and killing\<close>

text \<open>wakeup1(): the turns of its loop; wakeup() as a list of statements, like sleep().\<close>

definition wakeup1_slot :: "chan \<Rightarrow> nat \<Rightarrow> ('z kst_scheme, unit) kfun" where
  "wakeup1_slot ch i =
     bindM (getM (\<lambda>s. procs s ! i)) (\<lambda>p.
     whenM (pstate p = SLEEPING \<and> pchan p = Some ch) (upd_proc i (\<lambda>q. q\<lparr>pstate := RUNNABLE\<rparr>)))"

definition wakeup1_ops :: "chan \<Rightarrow> ('z kst_scheme, unit) kfun list" where
  "wakeup1_ops ch = map (wakeup1_slot ch) [0..<NPROC]"

definition wakeup1 :: "chan \<Rightarrow> ('z kst_scheme, unit) kfun" where
  "wakeup1 ch = seqM (wakeup1_ops ch)"

definition wakeup_ops :: "chan \<Rightarrow> ('z kst_scheme, unit) kfun list" where
  "wakeup_ops ch = [acquire L_ptable] @ wakeup1_ops ch @ [release L_ptable]"

definition wakeup :: "chan \<Rightarrow> ('z kst_scheme, unit) kfun" where
  "wakeup ch = seqM (wakeup_ops ch)"

text \<open>The body of kill()'s loop, and kill() itself.\<close>

definition kill_slot :: "int \<Rightarrow> nat \<Rightarrow> ('z kst_scheme, int option) kfun" where
  "kill_slot n i =
     bindM (getM (\<lambda>s. procs s ! i)) (\<lambda>p.
     if pid p = n then
       thenM (upd_proc i (\<lambda>q. q\<lparr>killed := True\<rparr>))
       (thenM (whenM (pstate p = SLEEPING) (upd_proc i (\<lambda>q. q\<lparr>pstate := RUNNABLE\<rparr>)))
       (thenM (release L_ptable)
       (retM (Some 0))))
     else retM None)"

definition kill :: "int \<Rightarrow> ('z kst_scheme, int) kfun" where
  "kill n =
     thenM (acquire L_ptable)
     (bindM (findM [0..<NPROC] (kill_slot n)) (\<lambda>r.
      case r of Some v \<Rightarrow> retM v | None \<Rightarrow> thenM (release L_ptable) (retM (-1))))"

section \<open>The calls added by this repository\<close>

definition state_name :: "procstate \<Rightarrow> string" where
  "state_name st = (case st of UNUSED \<Rightarrow> ''unused'' | EMBRYO \<Rightarrow> ''embryo'' | SLEEPING \<Rightarrow> ''sleep ''
     | RUNNABLE \<Rightarrow> ''runable'' | RUNNING \<Rightarrow> ''run   '' | ZOMBIE \<Rightarrow> ''zombie'')"

text \<open>
  \<open>p->parent->pid\<close>, undefined in C when \<open>p->parent\<close> is null: \<open>Fault\<close>.  (On the machine the
  address 0 is the first page of the running process, so what is read there is
  some word of its program, and the call goes on with it.)
\<close>

definition parent_pid :: "nat \<Rightarrow> ('z kst_scheme, int) kfun" where
  "parent_pid i = bindM (getM (\<lambda>s. parent (procs s ! i))) (\<lambda>q.
     case q of None \<Rightarrow> faultM ''p->parent is null'' | Some j \<Rightarrow> getM (\<lambda>s. pid (procs s ! j)))"

text \<open>get_siblings_info(): the value is the list of lines it prints.\<close>

primrec siblings_loop :: "int \<Rightarrow> nat list \<Rightarrow> ('z kst_scheme, (int \<times> string) list) kfun" where
  "siblings_loop ppid [] = retM []"
| "siblings_loop ppid (i # is) =
     bindM (parent_pid i) (\<lambda>q.
     bindM (getM (\<lambda>s. procs s ! i)) (\<lambda>p.
     bindM (siblings_loop ppid is) (\<lambda>out.
     retM (if q = ppid then (pid p, state_name (pstate p)) # out else out))))"

definition get_siblings_info :: "('z kst_scheme, (int \<times> string) list) kfun" where
  "get_siblings_info =
     bindM curproc (\<lambda>c.
     bindM (parent_pid c) (\<lambda>cur_par_pid.
     thenM (acquire L_ptable)
     (bindM (siblings_loop cur_par_pid [0..<NPROC]) (\<lambda>out.
     thenM (release L_ptable)
     (retM out)))))"

text \<open>
  get_ancestors(n, array): the value is what it stores in \<open>array\<close>, from index
  0, and its return value.
\<close>

fun ancestors_loop :: "nat \<Rightarrow> nat \<Rightarrow> ('z kst_scheme, int list \<times> nat) kfun" where
  "ancestors_loop 0 c = retM ([], 0)"
| "ancestors_loop (Suc n) c =
     bindM (getM (\<lambda>s. pid (procs s ! c))) (\<lambda>cpid.
     if cpid = 1 then retM ([], Suc n) else
     bindM (parent_pid c) (\<lambda>q.
     bindM (getM (\<lambda>s. parent (procs s ! c))) (\<lambda>par.
     bindM (ancestors_loop n (the par)) (\<lambda>(xs, left).
     retM (q # xs, left)))))"

definition get_ancestors :: "int \<Rightarrow> ('z kst_scheme, int list \<times> bool) kfun" where
  "get_ancestors n =
     bindM curproc (\<lambda>c.
     thenM (acquire L_ptable)
     (bindM (ancestors_loop (nat n) c) (\<lambda>(xs, left).
     thenM (release L_ptable)
     (retM (xs, left = 0 \<and> 0 \<le> n)))))"

definition getppid :: "('z kst_scheme, int) kfun" where
  "getppid = bindM curproc parent_pid"

section \<open>Behaviour\<close>

definition wake :: "chan \<Rightarrow> proc \<Rightarrow> proc" where
  "wake ch p = (if pstate p = SLEEPING \<and> pchan p = Some ch then p\<lparr>pstate := RUNNABLE\<rparr> else p)"

lemma wakeup1_eq [kcode]:
  assumes "length (procs s) = NPROC"
  shows "wakeup1 ch s = Ok () (s\<lparr>procs := map (wake ch) (procs s)\<rparr>)"
  using assms foreachM_all_procs [of s]
  by (simp add: wakeup1_def wakeup1_ops_def seqM_def foreachM_map wakeup1_slot_def [abs_def] wake_def)

lemma wakeup_eq:
  assumes "length (procs s) = NPROC" and "L_ptable \<notin> set (held s)"
  shows "wakeup ch s = Ok () (s\<lparr>procs := map (wake ch) (procs s)\<rparr>)"
proof -
  have "wakeup ch s = thenM (acquire L_ptable) (thenM (wakeup1 ch) (release L_ptable)) s"
    by (simp add: wakeup_def wakeup_ops_def wakeup1_def seqM_def kcode split: outcome.split)
  then show ?thesis using assms by (simp add: kcode)
qed

lemma sleep_eq:
  assumes "cur s = Some p" and "p < length (procs s)" and "held s = [l]"
  shows "sleep ch (Some l) s =
    Swtch (s\<lparr>held := [L_ptable], procs := (procs s)[p := (procs s ! p)\<lparr>pchan := Some ch, pstate := SLEEPING\<rparr>]\<rparr>)"
  using assms by (auto simp: sleep_def sleep_ops_def seqM_def sched_def kcode)


lemma wake_simps [simp]: "pid (wake ch p) = pid p" "killed (wake ch p) = killed p"
  "parent (wake ch p) = parent p" "pchan (wake ch p) = pchan p"
  by (simp_all add: wake_def)

text \<open>What kill() does to the entry it finds.\<close>

definition kill_mark :: "proc \<Rightarrow> proc" where
  "kill_mark p = p\<lparr>killed := True, pstate := (if pstate p = SLEEPING then RUNNABLE else pstate p)\<rparr>"

lemma kill_eq:
  assumes "length (procs s) = NPROC" and "L_ptable \<notin> set (held s)"
  shows "kill n s = (case find (\<lambda>i. pid (procs s ! i) = n) [0..<NPROC] of
      None \<Rightarrow> Ok (-1) s
    | Some i \<Rightarrow> Ok 0 (s\<lparr>procs := (procs s)[i := kill_mark (procs s ! i)]\<rparr>))"
proof -
  let ?P = "\<lambda>i. pid (procs s ! i) = n"
  let ?s = "s\<lparr>held := L_ptable # held s\<rparr>"
  have hit: "kill_slot n i ?s = Ok (Some 0) (s\<lparr>procs := (procs s)[i := kill_mark (procs s ! i)]\<rparr>)"
    if "i < NPROC" "?P i" for i
  proof -
    have "(p\<lparr>killed := True\<rparr>) = kill_mark p" if "pstate p \<noteq> SLEEPING" for p
      using that by (cases p) (simp add: kill_mark_def)
    then show ?thesis
      using that assms by (auto simp: kcode kill_slot_def kill_mark_def)
  qed
  have "findM [0..<NPROC] (kill_slot n) ?s
      = (case find ?P [0..<NPROC] of None \<Rightarrow> Ok None ?s | Some i \<Rightarrow> kill_slot n i ?s)"
    by (rule findM_first) (use hit in \<open>auto simp: kcode kill_slot_def\<close>)
  note loop = this
  show ?thesis
  proof (cases "find ?P [0..<NPROC]")
    case None
    then show ?thesis using assms loop by (simp add: kill_def kcode)
  next
    case (Some i)
    then have "i < NPROC" "?P i" by (auto simp: find_upt_Some)
    then show ?thesis using Some assms loop hit [of i] by (simp add: kill_def kcode)
  qed
qed

lemma siblings_loop_fault:
  "i \<in> set is \<Longrightarrow> parent (procs s ! i) = None \<Longrightarrow> \<exists>m. siblings_loop q is s = Fault m"
proof (induction "is")
  case (Cons j "is")
  show ?case
  proof (cases "parent (procs s ! j)")
    case None
    then show ?thesis by (simp add: parent_pid_def kcode)
  next
    case (Some k)
    then have "i \<in> set is" using Cons.prems by auto
    then obtain m where "siblings_loop q is s = Fault m" using Cons by blast
    then show ?thesis using Some by (simp add: parent_pid_def kcode)
  qed
qed simp

lemma siblings_loop_ok:
  assumes "\<And>i. i \<in> set is \<Longrightarrow> parent (procs s ! i) \<noteq> None"
  shows "siblings_loop q is s =
    Ok [(pid (procs s ! i), state_name (pstate (procs s ! i))).
          i \<leftarrow> is, pid (procs s ! the (parent (procs s ! i))) = q] s"
  using assms
proof (induction "is")
  case (Cons j "is")
  then obtain k where "parent (procs s ! j) = Some k" by fastforce
  then show ?case using Cons by (simp add: parent_pid_def kcode)
qed (simp add: kcode)

text \<open>The k-th ancestor of a process table entry.\<close>

definition up :: "proc list \<Rightarrow> nat \<Rightarrow> nat" where
  "up ps i = the (parent (ps ! i))"

definition lineage :: "proc list \<Rightarrow> nat \<Rightarrow> nat \<Rightarrow> bool" where
  "lineage ps c d \<longleftrightarrow> pid (ps ! ((up ps ^^ d) c)) = 1
     \<and> (\<forall>k<d. pid (ps ! ((up ps ^^ k) c)) \<noteq> 1 \<and> parent (ps ! ((up ps ^^ k) c)) \<noteq> None)"

lemma lineage_Suc:
  "lineage ps c (Suc d) \<longleftrightarrow> pid (ps ! c) \<noteq> 1 \<and> parent (ps ! c) \<noteq> None \<and> lineage ps (up ps c) d"
proof -
  have "(\<forall>k<Suc d. P k) \<longleftrightarrow> P 0 \<and> (\<forall>k<d. P (Suc k))" for P :: "nat \<Rightarrow> bool"
    using less_Suc_eq_0_disj by auto
  then show ?thesis by (simp add: lineage_def funpow_swap1 conj_ac)
qed

lemma ancestors_loop_eq:
  assumes "lineage (procs s) c d"
  shows "ancestors_loop n c s =
    Ok (map (\<lambda>k. pid (procs s ! ((up (procs s) ^^ Suc k) c))) [0..<min n d], n - d) s"
  using assms
proof (induction n arbitrary: c d)
  case (Suc n)
  show ?case
  proof (cases d)
    case 0
    then show ?thesis using Suc.prems by (simp add: lineage_def kcode)
  next
    case (Suc d')
    then have c: "pid (procs s ! c) \<noteq> 1" "lineage (procs s) (up (procs s) c) d'"
      and "parent (procs s ! c) \<noteq> None"
      using Suc.prems by (auto simp: lineage_Suc)
    then obtain j where j: "parent (procs s ! c) = Some j" by auto
    then have up: "up (procs s) c = j" by (simp add: up_def)
    have "[0..<Suc (min n d')] = 0 # map Suc [0..<min n d']"
      by (simp only: map_Suc_upt upt_conv_Cons zero_less_Suc)
    then show ?thesis
      using Suc c j up Suc.IH [of j d'] by (simp add: parent_pid_def kcode funpow_swap1 comp_def)
  qed
qed (simp add: kcode)


section \<open>Properties\<close>

text \<open>The first process, alone, with the lock of the log held.\<close>

definition one_proc :: kst where
  "one_proc = \<lparr>held = [L_log], cur = Some 0,
     procs = zero_proc\<lparr>pstate := RUNNING, pid := 1\<rparr> # replicate 63 zero_proc,
     nextpid = 2, initproc = Some 0, slks = (\<lambda>_. \<lparr>sl_locked = False, sl_pid = 0\<rparr>)\<rparr>"

text \<open>
  Sleeping with a second spin lock held is an error.  A process that
  still holds another spin lock besides the one it passes to sleep() makes the
  kernel panic with "sched locks".
\<close>

lemma sleep_with_two_locks_panics:
  fixes s :: "'z kst_scheme"
  assumes "cur s = Some p" and "p < length (procs s)" and "distinct (held s)"
    and "l \<in> set (held s)" and "l' \<in> set (held s)" and "l \<noteq> l'"
    and "L_ptable \<notin> set (held s)"
  shows "sleep ch (Some l) s = Panic ''sched locks''"
proof -
  have "card {l, l'} \<le> card (set (held s))" using assms(4,5) by (intro card_mono) auto
  then have "2 \<le> length (held s)" using assms(3,6) by (simp add: distinct_card)
  moreover have "l \<noteq> L_ptable" using assms(4,7) by auto
  ultimately show ?thesis using assms by (auto simp: sleep_def sleep_ops_def seqM_def sched_def kcode length_remove1)
qed

text \<open>
  kill(pid) on every branch.  It returns -1 and changes nothing when no
  slot of the table has the pid; otherwise it returns 0, sets \<open>killed\<close> of the
  first such slot, makes that process RUNNABLE if it was SLEEPING, and
  changes no other slot.
\<close>

lemma kill_spec:
  fixes s :: "'z kst_scheme"
  assumes "length (procs s) = NPROC" and "L_ptable \<notin> set (held s)"
  shows "((\<forall>i<NPROC. pid (procs s ! i) \<noteq> n) \<longrightarrow> kill n s = Ok (-1) s)
    \<and> (\<forall>i<NPROC. pid (procs s ! i) = n \<longrightarrow> (\<forall>j<i. pid (procs s ! j) \<noteq> n) \<longrightarrow>
        (\<exists>t. kill n s = Ok 0 t \<and> killed (procs t ! i)
          \<and> pstate (procs t ! i) = (if pstate (procs s ! i) = SLEEPING then RUNNABLE else pstate (procs s ! i))
          \<and> (\<forall>j<NPROC. j \<noteq> i \<longrightarrow> procs t ! j = procs s ! j) \<and> held t = held s))"
proof (intro conjI impI allI)
  assume "\<forall>i<NPROC. pid (procs s ! i) \<noteq> n"
  then have "find (\<lambda>i. pid (procs s ! i) = n) [0..<NPROC] = None" by (simp add: find_upt_None)
  then show "kill n s = Ok (-1) s" by (simp add: kill_eq [OF assms])
next
  fix i assume "i < NPROC" "pid (procs s ! i) = n" "\<forall>j<i. pid (procs s ! j) \<noteq> n"
  then have "find (\<lambda>i. pid (procs s ! i) = n) [0..<NPROC] = Some i" by (simp add: find_upt_Some)
  then show "\<exists>t. kill n s = Ok 0 t \<and> killed (procs t ! i)
          \<and> pstate (procs t ! i) = (if pstate (procs s ! i) = SLEEPING then RUNNABLE else pstate (procs s ! i))
          \<and> (\<forall>j<NPROC. j \<noteq> i \<longrightarrow> procs t ! j = procs s ! j) \<and> held t = held s"
    using \<open>i < NPROC\<close> assms(1) by (simp add: kill_eq [OF assms] kill_mark_def)
qed

lemma kill_spec_witness:
  "kill 7 (one_proc\<lparr>held := []\<rparr>) = Ok (-1) (one_proc\<lparr>held := []\<rparr>)"
proof -
  have "\<forall>i<NPROC. pid (procs (one_proc\<lparr>held := []\<rparr>) ! i) \<noteq> 7"
    by (auto simp: one_proc_def zero_proc_def nth_Cons' nth_replicate)
  then show ?thesis
    using kill_spec [of "one_proc\<lparr>held := []\<rparr>" 7] by (simp add: one_proc_def)
qed

text \<open>
  C4: get_ancestors(n, array) stores the pids of the caller's ancestors,
  nearest first, stopping at the process with pid 1 or after \<open>n\<close> of them, and
  returns 1 exactly when it stored \<open>n\<close>; \<open>d\<close> is the caller's distance from
  the process with pid 1.
\<close>

theorem get_ancestors_spec:
  fixes s :: "'z kst_scheme"
  assumes "cur s = Some c" and "lineage (procs s) c d" and "L_ptable \<notin> set (held s)"
  shows "get_ancestors n s =
    Ok (map (\<lambda>k. pid (procs s ! ((up (procs s) ^^ Suc k) c))) [0..<min (nat n) d],
        0 \<le> n \<and> nat n \<le> d) s"
  using assms ancestors_loop_eq [of "s\<lparr>held := L_ptable # held s\<rparr>" c d "nat n"]
  by (auto simp: get_ancestors_def kcode)

definition family :: kst where
  "family = one_proc\<lparr>held := [], cur := Some 2,
     procs := [zero_proc\<lparr>pstate := SLEEPING, pid := 1\<rparr>,
       zero_proc\<lparr>pstate := SLEEPING, pid := 2, parent := Some 0\<rparr>,
       zero_proc\<lparr>pstate := RUNNING, pid := 5, parent := Some 1\<rparr>] @ replicate 61 zero_proc\<rparr>"

lemma family_lineage: "lineage (procs family) 2 2"
  by (auto simp: lineage_def family_def one_proc_def zero_proc_def up_def less_Suc_eq numeral_2_eq_2)

theorem get_ancestors_spec_witness:
  "get_ancestors 3 family = Ok ([2, 1], False) family \<and> get_ancestors 1 family = Ok ([2], True) family"
  using get_ancestors_spec [of family 2 2 3] get_ancestors_spec [of family 2 2 1] family_lineage
  by (simp add: family_def one_proc_def zero_proc_def up_def numeral_2_eq_2 upt_conv_Cons)

text \<open>
  C5: get_siblings_info() dereferences a null pointer.  The scan looks at
  \<open>p->parent->pid\<close> of every slot, so it is undefined as soon as one slot has no
  parent; the first user process, whose parent userinit() never sets, is such
  a slot in every running system.
\<close>

theorem get_siblings_info_faults:
  fixes s :: "'z kst_scheme"
  assumes "initproc s = Some i" and "i < NPROC" and "parent (procs s ! i) = None"
    and "cur s = Some c" and "L_ptable \<notin> set (held s)"
  shows "\<exists>m. get_siblings_info s = Fault m"
proof (cases "parent (procs s ! c)")
  case None
  then show ?thesis using assms by (simp add: get_siblings_info_def parent_pid_def kcode)
next
  case (Some k)
  let ?s = "s\<lparr>held := L_ptable # held s\<rparr>"
  obtain m where "siblings_loop (pid (procs s ! k)) [0..<NPROC] ?s = Fault m"
    using siblings_loop_fault [of i "[0..<NPROC]" ?s] assms by auto
  then show ?thesis using Some assms by (simp add: get_siblings_info_def parent_pid_def kcode)
qed

theorem get_siblings_info_faults_witness: "\<exists>m. get_siblings_info family = Fault m"
  by (rule get_siblings_info_faults [of family 0 2])
     (simp_all add: family_def one_proc_def zero_proc_def)

end
