(* ===== verification/Sleeplock.thy ===== *)
theory Sleeplock
  imports Proc_Sched
begin

text \<open>
  sleeplock.c: long-term locks.  A sleep lock is a word and a pid, guarded by
  its own spin lock; a process that finds it taken sleeps on it.
\<close>

section \<open>The routines\<close>

definition set_slk :: "slkid \<Rightarrow> sleeplock \<Rightarrow> ('z kst_scheme, unit) kfun" where
  "set_slk k v = modM (\<lambda>s. s\<lparr>slks := (slks s)(k := v)\<rparr>)"

definition initsleeplock :: "slkid \<Rightarrow> ('z kst_scheme, unit) kfun" where
  "initsleeplock k = set_slk k \<lparr>sl_locked = False, sl_pid = 0\<rparr>"

text \<open>
  acquiresleep(): when the lock is taken the loop calls sleep(), which leaves
  the CPU; after a wakeup the loop is entered again at its test
  (\<open>acquiresleep_loop\<close>).
\<close>

definition acquiresleep_loop :: "slkid \<Rightarrow> ('z kst_scheme, unit) kfun" where
  "acquiresleep_loop k =
     bindM (getM (\<lambda>s. sl_locked (slks s k))) (\<lambda>busy.
     if busy then sleep (Ch_slk k) (Some (L_slk k)) else
     thenM (modM (\<lambda>s. s\<lparr>slks := (slks s)(k := (slks s k)\<lparr>sl_locked := True\<rparr>)\<rparr>))
     (bindM curproc (\<lambda>p.
     thenM (modM (\<lambda>s. s\<lparr>slks := (slks s)(k := (slks s k)\<lparr>sl_pid := pid (procs s ! p)\<rparr>)\<rparr>))
     (release (L_slk k)))))"

definition acquiresleep :: "slkid \<Rightarrow> ('z kst_scheme, unit) kfun" where
  "acquiresleep k = thenM (acquire (L_slk k)) (acquiresleep_loop k)"

definition releasesleep :: "slkid \<Rightarrow> ('z kst_scheme, unit) kfun" where
  "releasesleep k =
     thenM (acquire (L_slk k))
     (thenM (set_slk k \<lparr>sl_locked = False, sl_pid = 0\<rparr>)
     (thenM (wakeup (Ch_slk k))
     (release (L_slk k))))"

definition holdingsleep :: "slkid \<Rightarrow> ('z kst_scheme, bool) kfun" where
  "holdingsleep k =
     thenM (acquire (L_slk k))
     (bindM (getM (\<lambda>s. slks s k)) (\<lambda>v.
      bindM (if sl_locked v then bindM curproc (\<lambda>p. getM (\<lambda>s. sl_pid v = pid (procs s ! p)))
             else retM False) (\<lambda>r.
      thenM (release (L_slk k)) (retM r))))"

section \<open>Behaviour in a process that holds no spin lock\<close>

text \<open>
  \<open>kok s\<close>: a process of the table runs, with no spin lock held.  It is the
  situation in which system calls enter the file system.
\<close>

definition kok :: "'z kst_scheme \<Rightarrow> bool" where
  "kok s \<longleftrightarrow> held s = [] \<and> length (procs s) = NPROC \<and> (\<exists>p. cur s = Some p \<and> p < NPROC)"

definition mypid :: "'z kst_scheme \<Rightarrow> int" where
  "mypid s = pid (procs s ! the (cur s))"

text \<open>A sleep lock held by the running process.\<close>

definition mine :: "slkid \<Rightarrow> 'z kst_scheme \<Rightarrow> bool" where
  "mine k s \<longleftrightarrow> slks s k = \<lparr>sl_locked = True, sl_pid = mypid s\<rparr>"

lemma sleeplock_both [simp]: "v\<lparr>sl_locked := a, sl_pid := b\<rparr> = \<lparr>sl_locked = a, sl_pid = b\<rparr>"
  by (cases v) simp

lemma acquiresleep_free:
  assumes "kok s" and "\<not> sl_locked (slks s k)"
  shows "acquiresleep k s = Ok () (s\<lparr>slks := (slks s)(k := \<lparr>sl_locked = True, sl_pid = mypid s\<rparr>)\<rparr>)"
  using assms by (auto simp: kok_def mypid_def acquiresleep_def acquiresleep_loop_def kcode)

lemma acquiresleep_busy:
  assumes "kok s" and "sl_locked (slks s k)"
  shows "acquiresleep k s = Swtch (s\<lparr>held := [L_ptable],
    procs := (procs s)[the (cur s) := (procs s ! the (cur s))\<lparr>pchan := Some (Ch_slk k), pstate := SLEEPING\<rparr>]\<rparr>)"
  using assms
  by (auto simp: kok_def acquiresleep_def acquiresleep_loop_def kcode sleep_eq)

lemma releasesleep_eq:
  assumes "kok s"
  shows "releasesleep k s = Ok () (s\<lparr>slks := (slks s)(k := \<lparr>sl_locked = False, sl_pid = 0\<rparr>),
    procs := map (wake (Ch_slk k)) (procs s)\<rparr>)"
  using assms by (auto simp: kok_def releasesleep_def set_slk_def kcode wakeup_eq)

lemma holdingsleep_eq:
  assumes "kok s"
  shows "holdingsleep k s = Ok (sl_locked (slks s k) \<and> sl_pid (slks s k) = mypid s) s"
  using assms by (auto simp: kok_def mypid_def holdingsleep_def kcode)

lemma holdingsleep_mine [simp]: "kok s \<Longrightarrow> mine k s \<Longrightarrow> holdingsleep k s = Ok True s"
  by (simp add: holdingsleep_eq mine_def)

text \<open>
  When nobody sleeps on the channel (as in every run of a single process),
  waking it changes nothing.
\<close>

definition no_sleeper :: "chan \<Rightarrow> 'z kst_scheme \<Rightarrow> bool" where
  "no_sleeper ch s \<longleftrightarrow> (\<forall>p \<in> set (procs s). \<not> (pstate p = SLEEPING \<and> pchan p = Some ch))"

lemma map_wake_id: "no_sleeper ch s \<Longrightarrow> map (wake ch) (procs s) = procs s"
  by (rule map_idI) (auto simp: no_sleeper_def wake_def)

section \<open>Properties\<close>

text \<open>
  C6: handing a sleep lock over.  A process that finds the lock taken ends up
  SLEEPING on it without having taken it; after the holder's releasesleep()
  (run by any process \<open>q\<close>) it is RUNNABLE and the lock is free, so its next
  test of the loop takes the lock.
\<close>

theorem sleeplock_handover:
  fixes s :: "'z kst_scheme"
  assumes "kok s" and "sl_locked (slks s k)" and "cur s = Some p" and "q < NPROC"
  shows "\<exists>t u v. acquiresleep k s = Swtch t \<and> slks t = slks s
    \<and> pstate (procs t ! p) = SLEEPING
    \<and> releasesleep k (t\<lparr>held := [], cur := Some q\<rparr>) = Ok () u
    \<and> pstate (procs u ! p) = RUNNABLE
    \<and> acquiresleep_loop k (u\<lparr>held := [L_slk k], cur := Some p\<rparr>) = Ok () v
    \<and> mine k v"
proof -
  let ?t = "s\<lparr>held := [L_ptable],
    procs := (procs s)[p := (procs s ! p)\<lparr>pchan := Some (Ch_slk k), pstate := SLEEPING\<rparr>]\<rparr>"
  let ?t' = "?t\<lparr>held := [], cur := Some q\<rparr>"
  have p: "p < NPROC" "length (procs s) = NPROC" using assms(1,3) by (auto simp: kok_def)
  have 1: "acquiresleep k s = Swtch ?t" using acquiresleep_busy [OF assms(1,2)] assms(3) by simp
  have "kok ?t'" using assms p by (auto simp: kok_def)
  note 2 = releasesleep_eq [OF this, of k]
  have 3: "pstate (map (wake (Ch_slk k)) (procs ?t') ! p) = RUNNABLE"
    using p by (simp add: wake_def)
  show ?thesis
    using 1 2 3 p by (simp add: acquiresleep_loop_def kcode mine_def mypid_def)
qed

definition slk_busy :: kst where
  "slk_busy = one_proc\<lparr>held := [], slks := (\<lambda>_. \<lparr>sl_locked = True, sl_pid = 9\<rparr>)\<rparr>"

theorem sleeplock_handover_witness:
  "\<exists>t. acquiresleep (SL_buf 3) slk_busy = Swtch t \<and> pstate (procs t ! 0) = SLEEPING"
  using sleeplock_handover [of slk_busy "SL_buf 3" 0 1]
  by (auto simp: kok_def slk_busy_def one_proc_def)

end
