(* ===== verification/Kalloc.thy ===== *)
theory Kalloc
  imports Sleeplock
begin

text \<open>
  mmu.h's page arithmetic and kalloc.c, the physical page allocator: a free
  list threaded through the first word of each free page.
\<close>

section \<open>Constants and macros (mmu.h, memlayout.h)\<close>

abbreviation (input) PGSIZE :: u32 where "PGSIZE \<equiv> 4096"
abbreviation (input) KERNBASE :: u32 where "KERNBASE \<equiv> 0x80000000"
abbreviation (input) PHYSTOP :: u32 where "PHYSTOP \<equiv> 0xE000000"
abbreviation (input) EXTMEM :: u32 where "EXTMEM \<equiv> 0x100000"
abbreviation (input) KERNLINK :: u32 where "KERNLINK \<equiv> KERNBASE + EXTMEM"
abbreviation (input) DEVSPACE :: u32 where "DEVSPACE \<equiv> 0xFE000000"

definition V2P :: "u32 \<Rightarrow> u32" where "V2P a = a - KERNBASE"
definition P2V :: "u32 \<Rightarrow> u32" where "P2V a = a + KERNBASE"

definition PGROUNDUP :: "u32 \<Rightarrow> u32" where "PGROUNDUP a = (a + PGSIZE - 1) AND NOT (PGSIZE - 1)"
definition PGROUNDDOWN :: "u32 \<Rightarrow> u32" where "PGROUNDDOWN a = a AND NOT (PGSIZE - 1)"

section \<open>State and routines\<close>

text \<open>
  The machine's memory as the kernel addresses it, and struct kmem; \<open>kend\<close> is
  the linker's \<open>end\<close>, the first address after the kernel.
\<close>

record mst = kst +
  mem :: mem
  kend :: u32
  use_lock :: bool
  freelist :: u32

definition kfree :: "u32 \<Rightarrow> ('z mst_scheme, unit) kfun" where
  "kfree v =
     bindM (getM kend) (\<lambda>e.
     thenM (assertM (\<not> (v mod PGSIZE \<noteq> 0 \<or> v < e \<or> V2P v \<ge> PHYSTOP)) ''kfree'')
     (thenM (modM (\<lambda>s. s\<lparr>mem := memset (mem s) v 1 PGSIZE\<rparr>))
     (bindM (getM use_lock) (\<lambda>ul.
     thenM (whenM ul (acquire L_kmem))
     (thenM (modM (\<lambda>s. s\<lparr>mem := store32 (mem s) v (freelist s)\<rparr>))
     (thenM (modM (\<lambda>s. s\<lparr>freelist := v\<rparr>))
     (whenM ul (release L_kmem))))))))"

definition kalloc :: "('z mst_scheme, u32) kfun" where
  "kalloc =
     bindM (getM use_lock) (\<lambda>ul.
     thenM (whenM ul (acquire L_kmem))
     (bindM (getM freelist) (\<lambda>r.
     thenM (whenM (r \<noteq> 0) (modM (\<lambda>s. s\<lparr>freelist := load32 (mem s) r\<rparr>)))
     (thenM (whenM ul (release L_kmem))
     (retM r)))))"

text \<open>
  freerange()'s loop.  The fuel bounds the number of pages below \<open>vend\<close>;
  \<open>freerange_loop_ok\<close> below shows that it is never used up on the ranges the
  kernel frees.
\<close>

fun freerange_loop :: "nat \<Rightarrow> u32 \<Rightarrow> u32 \<Rightarrow> ('z mst_scheme, unit) kfun" where
  "freerange_loop 0 p vend = spinM"
| "freerange_loop (Suc fuel) p vend =
     (if p + PGSIZE \<le> vend then thenM (kfree p) (freerange_loop fuel (p + PGSIZE) vend) else skipM)"

definition freerange :: "u32 \<Rightarrow> u32 \<Rightarrow> ('z mst_scheme, unit) kfun" where
  "freerange vstart vend = freerange_loop (Suc (unat vend div 4096)) (PGROUNDUP vstart) vend"

definition kinit1 :: "u32 \<Rightarrow> u32 \<Rightarrow> ('z mst_scheme, unit) kfun" where
  "kinit1 vstart vend = thenM (modM (\<lambda>s. s\<lparr>use_lock := False\<rparr>)) (freerange vstart vend)"

definition kinit2 :: "u32 \<Rightarrow> u32 \<Rightarrow> ('z mst_scheme, unit) kfun" where
  "kinit2 vstart vend = thenM (freerange vstart vend) (modM (\<lambda>s. s\<lparr>use_lock := True\<rparr>))"

section \<open>Pages\<close>

definition page :: "u32 \<Rightarrow> bool" where
  "page a \<longleftrightarrow> a mod PGSIZE = 0"

lemma page_unat: "page a \<longleftrightarrow> unat a mod 4096 = 0"
proof -
  have "a mod PGSIZE = 0 \<longleftrightarrow> unat (a mod PGSIZE) = 0" by (simp add: unat_eq_zero)
  then show ?thesis by (simp add: page_def unat_mod)
qed

lemma page_mult: "page a \<longleftrightarrow> (\<exists>k. unat a = 4096 * k)"
  by (auto simp: page_unat)

lemma page_bound: "page a \<Longrightarrow> unat a \<le> 2 ^ 32 - 4096"
  using unat_u32 [of a] by (auto simp: page_mult)

lemma div_4096: "(z :: nat) div 4096 = k \<longleftrightarrow> 4096 * k \<le> z \<and> z < 4096 * k + 4096"
  by linarith

lemma PGROUNDDOWN_unat: "unat (PGROUNDDOWN a) = unat a div 4096 * 4096"
proof -
  have "(NOT (PGSIZE - 1) :: u32) = NOT (mask 12)" by (simp add: mask_eq_exp_minus_1)
  moreover have "a AND NOT (mask 12) = push_bit 12 (drop_bit 12 a)"
    by (rule bit_word_eqI) (auto simp: bit_simps)
  moreover have "unat (push_bit 12 (drop_bit 12 a)) = unat a div 4096 * 4096"
  proof -
    have d: "unat (drop_bit 12 a) = unat a div 4096"
      by (simp add: drop_bit_eq_div unat_div)
    have "unat a div 4096 * 4096 \<le> unat a" by simp
    then have "unat a div 4096 * 4096 < 2 ^ 32" using unat_u32 [of a] by (rule le_less_trans)
    then show ?thesis
      using d by (simp add: push_bit_eq_mult unat_word_ariths)
  qed
  ultimately show ?thesis by (simp add: PGROUNDDOWN_def)
qed

lemma round_up_le: "(x + 4095) div 4096 * 4096 \<le> 4096 * k \<longleftrightarrow> x \<le> 4096 * (k :: nat)"
proof -
  have "(x + 4095) div 4096 < Suc k \<longleftrightarrow> x + 4095 < Suc k * 4096"
    by (rule div_less_iff_less_mult) simp
  then show ?thesis by auto
qed

lemma page_PGROUNDDOWN [simp]: "page (PGROUNDDOWN a)"
  by (simp add: page_unat PGROUNDDOWN_unat)

lemma PGROUNDDOWN_page: "page a \<Longrightarrow> PGROUNDDOWN a = a"
proof -
  assume "page a"
  then have "unat (PGROUNDDOWN a) = unat a"
    by (auto simp: PGROUNDDOWN_unat page_mult)
  then show ?thesis by (rule unsigned_word_eqI)
qed

lemma PGROUNDUP_DOWN: "PGROUNDUP a = PGROUNDDOWN (a + 4095)"
  by (simp add: PGROUNDUP_def PGROUNDDOWN_def add.commute)

lemma page_PGROUNDUP [simp]: "page (PGROUNDUP a)"
  by (simp add: PGROUNDUP_DOWN)

lemma PGROUNDUP_page: "page a \<Longrightarrow> PGROUNDUP a = a"
proof -
  assume p: "page a"
  have "unat (a + 4095) = unat a + 4095"
    using page_bound [OF p] by (simp add: unat_word_ariths)
  then have "unat (PGROUNDUP a) = unat a"
    using p by (auto simp: PGROUNDUP_DOWN PGROUNDDOWN_unat page_mult)
  then show ?thesis by (rule unsigned_word_eqI)
qed

text \<open>An address is in the page it rounds down to, and in no other.\<close>

lemma in_page: "page x \<Longrightarrow> in_range x 4096 z \<longleftrightarrow> PGROUNDDOWN z = x"
proof -
  assume p: "page x"
  then obtain k where k: "unat x = 4096 * k" by (auto simp: page_mult)
  have "in_range x 4096 z \<longleftrightarrow> unat z div 4096 * 4096 = unat x"
  proof (cases "x \<le> z")
    case True
    then have "unat (z - x) = unat z - unat x" "unat x \<le> unat z"
      by (simp_all add: unat_sub word_le_nat_alt)
    then show ?thesis using k by (auto simp: in_range_def div_4096)
  next
    case False
    then have "z < x" by simp
    then have "unat (z - x) = 2 ^ 32 - (unat x - unat z)" and "unat z < unat x"
      by (simp_all add: unat_diff_wrap word_less_nat_alt)
    then show ?thesis using page_bound [OF p] k by (auto simp: in_range_def div_4096)
  qed
  also have "\<dots> \<longleftrightarrow> PGROUNDDOWN z = x"
    by (metis PGROUNDDOWN_unat unsigned_word_eqI)
  finally show ?thesis .
qed


text \<open>The word a page starts with, and what writing one page does to others.\<close>

lemma in_range_first: "page x \<Longrightarrow> k < 4096 \<Longrightarrow> in_range x 4096 (x + of_nat k)"
  by (simp add: in_range_def unat_of_nat)

lemma load32_cong:
  assumes "\<And>z. in_range a 4 z \<Longrightarrow> m z = m' z"
  shows "load32 m a = load32 m' a"
proof -
  have "m (a + of_nat i) = m' (a + of_nat i)" if "i < 4" for i
    using that by (intro assms) (simp add: in_range_def unat_of_nat)
  from this [of 0] this [of 1] this [of 2] this [of 3] show ?thesis
    by (simp add: load32_def)
qed

lemma load32_store32_same [simp]: "load32 (store32 m a w) a = w"
proof -
  have "a + 1 \<noteq> a" "a + 2 \<noteq> a" "a + 3 \<noteq> a" "a + 1 \<noteq> a + 2" "a + 1 \<noteq> a + 3" "a + 2 \<noteq> a + 3" by simp_all
  then show ?thesis
    using le32_dec_enc [of w "[]"] by (simp add: load32_def store32_def le32_enc_def)
qed

lemma store32_other: "\<not> in_range a 4 z \<Longrightarrow> store32 m a w z = m z"
proof -
  assume n: "\<not> in_range a 4 z"
  have "z \<noteq> a + of_nat i" if "i < 4" for i
    using n that by (auto simp: in_range_def unat_of_nat)
  from this [of 0] this [of 1] this [of 2] this [of 3] show ?thesis
    by (simp add: store32_def)
qed

lemma in_range_mono: "in_range a n z \<Longrightarrow> n \<le> n' \<Longrightarrow> in_range a n' z"
  by (simp add: in_range_def)

section \<open>The free list\<close>

text \<open>The pages on the list, from its head, through the links in memory.\<close>

fun flist :: "mem \<Rightarrow> u32 \<Rightarrow> u32 list \<Rightarrow> bool" where
  "flist m p [] \<longleftrightarrow> p = 0"
| "flist m p (x # xs) \<longleftrightarrow> p = x \<and> x \<noteq> 0 \<and> page x \<and> flist m (load32 m x) xs"

definition allocatable :: "'z mst_scheme \<Rightarrow> u32 \<Rightarrow> bool" where
  "allocatable s v \<longleftrightarrow> page v \<and> kend s \<le> v \<and> V2P v < PHYSTOP"

text \<open>
  \<open>kmem_ok s xs\<close>: the free list holds exactly the pages \<open>xs\<close>, each once, and
  all of them are pages the allocator may hand out.
\<close>

definition kmem_ok :: "'z mst_scheme \<Rightarrow> u32 list \<Rightarrow> bool" where
  "kmem_ok s xs \<longleftrightarrow> flist (mem s) (freelist s) xs \<and> distinct xs
     \<and> (\<forall>x \<in> set xs. allocatable s x) \<and> 0 < kend s \<and> L_kmem \<notin> set (held s)"

lemma flist_unique: "flist m p xs \<Longrightarrow> flist m p ys \<Longrightarrow> xs = ys"
proof (induction xs arbitrary: p ys)
  case Nil
  then show ?case by (cases ys) auto
next
  case (Cons x xs)
  then show ?case by (cases ys) auto
qed

lemma flist_cong:
  assumes "flist m p xs" and "\<And>x z. x \<in> set xs \<Longrightarrow> in_range x 4 z \<Longrightarrow> m' z = m z"
  shows "flist m' p xs"
  using assms
proof (induction xs arbitrary: p)
  case (Cons x xs)
  have "load32 m' x = load32 m x"
    by (rule load32_cong) (rule Cons.prems(2), simp_all)
  moreover have "flist m' (load32 m x) xs"
    by (rule Cons.IH) (use Cons.prems(1) in simp, rule Cons.prems(2), simp_all)
  ultimately show ?case using Cons.prems(1) by simp
qed simp

lemma allocatable_nz: "allocatable s v \<Longrightarrow> 0 < kend s \<Longrightarrow> v \<noteq> 0"
  by (auto simp: allocatable_def)

text \<open>What kfree leaves in memory: junk, and the link.\<close>

definition freed :: "mem \<Rightarrow> u32 \<Rightarrow> u32 \<Rightarrow> mem" where
  "freed m v nxt = store32 (memset m v 1 PGSIZE) v nxt"

lemma freed_other: "page v \<Longrightarrow> \<not> in_range v 4096 z \<Longrightarrow> freed m v nxt z = m z"
proof -
  assume "page v" "\<not> in_range v 4096 z"
  moreover from this have "\<not> in_range v 4 z" using in_range_mono [of v 4 z 4096] by auto
  ultimately show ?thesis by (simp add: freed_def store32_other memset_eq)
qed

lemma load32_freed [simp]: "load32 (freed m v nxt) v = nxt"
  by (simp add: freed_def)

lemma kfree_eq:
  assumes "allocatable s v" and "L_kmem \<notin> set (held s)"
  shows "kfree v s = Ok () (s\<lparr>mem := freed (mem s) v (freelist s), freelist := v\<rparr>)"
  using assms unfolding kfree_def page_def [symmetric]
  by (auto simp: kcode allocatable_def freed_def)

lemma kfree_panics: "\<not> allocatable s v \<Longrightarrow> kfree v s = Panic ''kfree''"
  unfolding kfree_def page_def [symmetric] by (auto simp: kcode allocatable_def)

lemma kmem_ok_kfree:
  assumes ok: "kmem_ok s xs" and v: "allocatable s v" "v \<notin> set xs"
  shows "kmem_ok (s\<lparr>mem := freed (mem s) v (freelist s), freelist := v\<rparr>) (v # xs)"
proof -
  have "flist (freed (mem s) v (freelist s)) (freelist s) xs"
  proof (rule flist_cong)
    show "flist (mem s) (freelist s) xs" using ok by (simp add: kmem_ok_def)
    fix x z assume x: "x \<in> set xs" and z: "in_range x 4 z"
    have "page x" and "x \<noteq> v" using ok v x by (auto simp: kmem_ok_def allocatable_def)
    moreover have "PGROUNDDOWN z = x" using z \<open>page x\<close> in_range_mono [of x 4 z 4096] by (simp add: in_page)
    ultimately have "\<not> in_range v 4096 z" using v by (auto simp: in_page allocatable_def)
    then show "freed (mem s) v (freelist s) z = mem s z"
      using v by (intro freed_other) (simp_all add: allocatable_def)
  qed
  then show ?thesis
    using ok v allocatable_nz [of s v] by (auto simp: kmem_ok_def allocatable_def)
qed

lemma kalloc_Cons:
  assumes "kmem_ok s (x # xs)"
  shows "kalloc s = Ok x (s\<lparr>freelist := load32 (mem s) x\<rparr>)"
    and "kmem_ok (s\<lparr>freelist := load32 (mem s) x\<rparr>) xs"
  using assms by (auto simp: kalloc_def kcode kmem_ok_def allocatable_def)

lemma kalloc_Nil: "kmem_ok s [] \<Longrightarrow> kalloc s = Ok 0 s"
  by (auto simp: kalloc_def kcode kmem_ok_def)


section \<open>The allocator's interface\<close>

text \<open>
  What the rest of the kernel relies on: an allocator of distinct objects,
  with the pool of free ones as its abstract state.
\<close>

locale page_pool =
  fixes alloc :: "('s, 'a) kfun"
    and free :: "'a \<Rightarrow> ('s, unit) kfun"
    and null :: 'a
    and pool :: "'s \<Rightarrow> 'a list \<Rightarrow> bool"
    and ownable :: "'s \<Rightarrow> 'a \<Rightarrow> bool"
  assumes alloc_empty: "pool s [] \<Longrightarrow> alloc s = Ok null s"
    and alloc_some: "pool s (x # xs) \<Longrightarrow> \<exists>t. alloc s = Ok x t \<and> pool t xs
      \<and> (\<forall>y. ownable t y \<longleftrightarrow> ownable s y)"
    and free_ok: "pool s xs \<Longrightarrow> ownable s x \<Longrightarrow> x \<notin> set xs \<Longrightarrow>
      \<exists>t. free x s = Ok () t \<and> pool t (x # xs) \<and> (\<forall>y. ownable t y \<longleftrightarrow> ownable s y)"
    and pool_distinct: "pool s xs \<Longrightarrow> distinct xs \<and> null \<notin> set xs"
    and pool_ownable: "pool s xs \<Longrightarrow> x \<in> set xs \<Longrightarrow> ownable s x"
begin

lemma alloc_fresh:
  assumes "pool s xs" and "alloc s = Ok r t" and "r \<noteq> null"
  shows "\<exists>ys. xs = r # ys \<and> pool t ys \<and> r \<notin> set ys \<and> ownable s r"
proof (cases xs)
  case Nil
  then show ?thesis using assms alloc_empty by auto
next
  case (Cons x ys)
  then obtain u where "alloc s = Ok x u" "pool u ys" using alloc_some assms(1) by blast
  then show ?thesis
    using Cons assms pool_distinct [OF assms(1)] pool_ownable [OF assms(1), of x] by auto
qed

lemma free_then_alloc:
  assumes "pool s xs" and "ownable s x" and "x \<notin> set xs"
  shows "\<exists>t. thenM (free x) alloc s = Ok x t \<and> pool t xs"
proof -
  obtain u where "free x s = Ok () u" "pool u (x # xs)" using free_ok assms by blast
  moreover from this obtain t where "alloc u = Ok x t" "pool t xs" using alloc_some by blast
  ultimately show ?thesis by (auto simp: kcode)
qed

lemma alloc_then_free:
  assumes "pool s (x # xs)"
  shows "\<exists>t. bindM alloc free s = Ok () t \<and> pool t (x # xs)"
proof -
  obtain u where u: "alloc s = Ok x u" "pool u xs" "ownable u x"
    using alloc_some [OF assms] pool_ownable [OF assms, of x] by auto
  moreover have "x \<notin> set xs" using pool_distinct [OF assms] by simp
  ultimately show ?thesis using free_ok [of u xs x] by (auto simp: kcode)
qed

end

interpretation kpool: page_pool kalloc kfree 0 "kmem_ok :: 'z mst_scheme \<Rightarrow> _" allocatable
proof (unfold_locales, goal_cases)
  case (1 s)
  then show ?case by (rule kalloc_Nil)
next
  case (2 s x xs)
  then show ?case using kalloc_Cons [of s x xs] by (auto simp: allocatable_def)
next
  case (3 s xs x)
  then show ?case
    using kmem_ok_kfree [of s xs x] kfree_eq [of s x] by (auto simp: kmem_ok_def allocatable_def)
next
  case (4 s xs)
  then show ?case using allocatable_nz by (auto simp: kmem_ok_def)
next
  case (5 s xs x)
  then show ?case by (simp add: kmem_ok_def)
qed

section \<open>Initialisation\<close>

lemma next_page_le:
  assumes "page p" and "page v" and "p \<le> v"
  shows "v = p \<or> unat p + 4096 \<le> unat v"
proof -
  obtain j k where jk: "unat p = 4096 * j" "unat v = 4096 * k" using assms(1,2) by (auto simp: page_mult)
  then have "j = k \<or> Suc j \<le> k" using assms(3) by (auto simp: word_le_nat_alt)
  moreover have "j = k \<Longrightarrow> v = p" using jk by (metis unsigned_word_eqI)
  ultimately show ?thesis using jk by auto
qed

lemma freerange_loop_ok:
  assumes "kmem_ok s xs" and "page p" and "unat vend \<le> 0x8E000000" and "unat p \<le> 0x8E000000"
    and "KERNBASE \<le> p" and "kend s \<le> p"
    and "\<forall>x\<in>set xs. \<not> (p \<le> x \<and> unat x + 4096 \<le> unat vend)"
    and "unat vend - unat p < 4096 * fuel"
  shows "\<exists>t ys. freerange_loop fuel p vend s = Ok () t \<and> kmem_ok t (ys @ xs) \<and> kend t = kend s
    \<and> use_lock t = use_lock s \<and> held t = held s
    \<and> set ys = {v. page v \<and> p \<le> v \<and> unat v + 4096 \<le> unat vend}"
  using assms
proof (induction fuel arbitrary: s p xs)
  case (Suc fuel)
  have up: "unat (p + PGSIZE) = unat p + 4096"
    using Suc.prems(4) by (simp add: unat_word_ariths)
  have pp: "page (p + PGSIZE)" using Suc.prems(2) up by (auto simp: page_unat)
  show ?case
  proof (cases "p + PGSIZE \<le> vend")
    case False
    then have "{v. page v \<and> p \<le> v \<and> unat v + 4096 \<le> unat vend} = {}"
      using up by (auto simp: word_le_nat_alt)
    then show ?thesis
      using False Suc.prems by (intro exI [of _ s] exI [of _ "[]"]) (simp add: kcode)
  next
    case True
    then have le: "unat p + 4096 \<le> unat vend" using up by (simp add: word_le_nat_alt)
    have "unat (V2P p) = unat p - 0x80000000"
      using Suc.prems(5) by (simp add: V2P_def unat_sub)
    then have al: "allocatable s p"
      using Suc.prems le by (simp add: allocatable_def word_less_nat_alt)
    have np: "p \<notin> set xs" using Suc.prems(7) le by auto
    let ?s = "s\<lparr>mem := freed (mem s) p (freelist s), freelist := p\<rparr>"
    have kf: "kfree p s = Ok () ?s"
      using kfree_eq [OF al] Suc.prems(1) by (simp add: kmem_ok_def)
    have gt: "p + PGSIZE \<le> x \<Longrightarrow> p \<le> x" for x using up by (simp add: word_le_nat_alt)
    have "\<exists>t ys. freerange_loop fuel (p + PGSIZE) vend ?s = Ok () t \<and> kmem_ok t (ys @ p # xs)
        \<and> kend t = kend ?s \<and> use_lock t = use_lock ?s \<and> held t = held ?s
        \<and> set ys = {v. page v \<and> p + PGSIZE \<le> v \<and> unat v + 4096 \<le> unat vend}"
    proof (rule Suc.IH)
      show "kmem_ok ?s (p # xs)" using kmem_ok_kfree Suc.prems(1) al np by blast
      show "\<forall>x\<in>set (p # xs). \<not> (p + PGSIZE \<le> x \<and> unat x + 4096 \<le> unat vend)"
        using Suc.prems(7) gt up by (auto simp: word_le_nat_alt)
    qed (use Suc.prems pp up le in \<open>auto simp: word_le_nat_alt\<close>)
    then obtain t ys where t: "freerange_loop fuel (p + PGSIZE) vend ?s = Ok () t"
      "kmem_ok t (ys @ p # xs)" "kend t = kend s" "use_lock t = use_lock s" "held t = held s"
      "set ys = {v. page v \<and> p + PGSIZE \<le> v \<and> unat v + 4096 \<le> unat vend}" by auto
    have next_page: "v = p \<or> p + PGSIZE \<le> v" if "page v" "p \<le> v" for v
      using next_page_le [OF Suc.prems(2) that] up by (auto simp: word_le_nat_alt)
    have "set (ys @ [p]) = {v. page v \<and> p \<le> v \<and> unat v + 4096 \<le> unat vend}"
      using t(6) le Suc.prems(2) next_page gt by auto
    then show ?thesis
      using t kf True by (intro exI [of _ t] exI [of _ "ys @ [p]"]) (simp add: kcode)
  qed
qed simp


lemma freerange_ok:
  assumes "kmem_ok s xs" and "unat vend \<le> 0x8E000000" and "unat (PGROUNDUP vstart) \<le> 0x8E000000"
    and "KERNBASE \<le> PGROUNDUP vstart" and "kend s \<le> PGROUNDUP vstart"
    and "\<forall>x\<in>set xs. \<not> (PGROUNDUP vstart \<le> x \<and> unat x + 4096 \<le> unat vend)"
  shows "\<exists>t ys. freerange vstart vend s = Ok () t \<and> kmem_ok t (ys @ xs) \<and> kend t = kend s
    \<and> use_lock t = use_lock s \<and> held t = held s
    \<and> set ys = {v. page v \<and> PGROUNDUP vstart \<le> v \<and> unat v + 4096 \<le> unat vend}"
proof -
  have "unat vend < 4096 * Suc (unat vend div 4096)"
    using dividend_less_times_div [of 4096 "unat vend"] by simp
  then have "unat vend - unat (PGROUNDUP vstart) < 4096 * Suc (unat vend div 4096)" by linarith
  from freerange_loop_ok [OF assms(1) page_PGROUNDUP assms(2-6) this] show ?thesis
    by (simp only: freerange_def)
qed

section \<open>Properties\<close>

text \<open>
  C7: the allocator's contract on every branch.  With the pages \<open>xs\<close> on the
  free list: kalloc() returns 0 and changes nothing when there is none, and
  otherwise returns the first, which is then on the list no more, without
  touching memory; kfree() of an allocatable page not on the list puts it at
  the head, overwriting nothing outside that page; and kfree() of any other
  address panics.
\<close>

theorem kalloc_kfree_spec:
  fixes s :: "'z mst_scheme"
  assumes ok: "kmem_ok s xs"
  shows "(xs = [] \<longrightarrow> kalloc s = Ok 0 s)
    \<and> (\<forall>x ys. xs = x # ys \<longrightarrow> (\<exists>t. kalloc s = Ok x t \<and> kmem_ok t ys \<and> x \<notin> set ys \<and> x \<noteq> 0 \<and> mem t = mem s))
    \<and> (\<forall>v. allocatable s v \<longrightarrow> v \<notin> set xs \<longrightarrow>
        (\<exists>t. kfree v s = Ok () t \<and> kmem_ok t (v # xs) \<and> (\<forall>z. \<not> in_range v 4096 z \<longrightarrow> mem t z = mem s z)))
    \<and> (\<forall>v. \<not> allocatable s v \<longrightarrow> kfree v s = Panic ''kfree'')"
proof (intro conjI allI impI)
  assume "xs = []"
  then show "kalloc s = Ok 0 s" using ok kpool.alloc_empty by simp
next
  fix x ys assume "xs = x # ys"
  then show "\<exists>t. kalloc s = Ok x t \<and> kmem_ok t ys \<and> x \<notin> set ys \<and> x \<noteq> 0 \<and> mem t = mem s"
    using ok kalloc_Cons [of s x ys] kpool.pool_distinct [of s xs] by auto
next
  fix v assume "allocatable s v" "v \<notin> set xs"
  then show "\<exists>t. kfree v s = Ok () t \<and> kmem_ok t (v # xs) \<and> (\<forall>z. \<not> in_range v 4096 z \<longrightarrow> mem t z = mem s z)"
    using ok kmem_ok_kfree [of s xs v] kfree_eq [of s v] freed_other
    by (auto simp: kmem_ok_def allocatable_def)
next
  fix v assume "\<not> allocatable s v"
  then show "kfree v s = Panic ''kfree''" by (rule kfree_panics)
qed

definition boot_mst :: mst where
  "boot_mst = \<lparr>held = [], cur = None, procs = replicate NPROC zero_proc, nextpid = 1, initproc = None,
     slks = (\<lambda>_. \<lparr>sl_locked = False, sl_pid = 0\<rparr>), mem = (\<lambda>_. 0), kend = 0x80110000,
     use_lock = False, freelist = 0\<rparr>"

lemma boot_kmem_ok: "kmem_ok boot_mst []"
  by (simp add: kmem_ok_def boot_mst_def)

theorem kalloc_kfree_spec_witness:
  "kalloc boot_mst = Ok 0 boot_mst
    \<and> (\<exists>t. kfree 0x80200000 boot_mst = Ok () t \<and> kmem_ok t [0x80200000])
    \<and> kfree 0x80200004 boot_mst = Panic ''kfree''"
proof -
  have "allocatable boot_mst 0x80200000" "\<not> allocatable boot_mst 0x80200004"
    by (simp_all add: allocatable_def page_def boot_mst_def V2P_def)
  then show ?thesis using kalloc_kfree_spec [OF boot_kmem_ok] by auto
qed

text \<open>
  Freeing and allocating are inverse.  After kfree(v) the next kalloc()
  returns \<open>v\<close> with the list as before, and after a kalloc() that returned a
  page, kfree() of that page puts the list back.
\<close>

lemma kfree_kalloc_roundtrip:
  fixes s :: "'z mst_scheme"
  assumes "kmem_ok s xs"
  shows "(allocatable s v \<and> v \<notin> set xs \<longrightarrow> (\<exists>t. thenM (kfree v) kalloc s = Ok v t \<and> kmem_ok t xs))
    \<and> (xs = v # ys \<longrightarrow> (\<exists>t. bindM kalloc kfree s = Ok () t \<and> kmem_ok t xs))"
  using kpool.free_then_alloc [OF assms, of v] kpool.alloc_then_free [of s v ys] assms by blast

lemma kfree_kalloc_roundtrip_witness:
  "\<exists>t. thenM (kfree 0x80200000) kalloc boot_mst = Ok 0x80200000 t \<and> kmem_ok t []"
proof -
  have "allocatable boot_mst 0x80200000"
    by (simp add: allocatable_def page_def boot_mst_def V2P_def)
  then show ?thesis using kfree_kalloc_roundtrip [OF boot_kmem_ok] by auto
qed

text \<open>
  Initialisation.  kinit1(end, P2V(4MB)) followed by
  kinit2(P2V(4MB), P2V(PHYSTOP)), as main() calls them, returns with the lock
  in use and a free list that holds every page between the end of the kernel
  and the top of physical memory exactly once.
\<close>

lemma kinit_frees_all_memory:
  fixes s :: "'z mst_scheme"
  assumes "freelist s = 0" and "L_kmem \<notin> set (held s)"
    and "KERNBASE < kend s" and "kend s \<le> P2V 0x400000"
  shows "\<exists>t xs. thenM (kinit1 (kend s) (P2V 0x400000)) (kinit2 (P2V 0x400000) (P2V PHYSTOP)) s = Ok () t
    \<and> kmem_ok t xs \<and> use_lock t \<and> (\<forall>v. v \<in> set xs \<longleftrightarrow> allocatable t v)"
proof -
  let ?e = "kend s"
  have c: "unat (P2V 0x400000) = 0x80400000" "unat (P2V PHYSTOP) = 0x8E000000"
    by (simp_all add: P2V_def)
  have e: "0x80000000 < unat ?e" "unat ?e \<le> 0x80400000"
    using assms(3,4) c by (simp_all add: word_less_nat_alt word_le_nat_alt)
  have ru: "unat (PGROUNDUP ?e) = (unat ?e + 4095) div 4096 * 4096"
    using e by (simp add: PGROUNDUP_DOWN PGROUNDDOWN_unat unat_word_ariths)
  moreover have "(unat ?e + 4095) div 4096 \<le> 0x80400"
    using div_le_mono [of "unat ?e + 4095" "0x80400FFF" 4096] e by simp
  ultimately have r: "unat ?e \<le> unat (PGROUNDUP ?e)" "unat (PGROUNDUP ?e) \<le> 0x80400000"
    by simp_all
  let ?s0 = "s\<lparr>use_lock := False\<rparr>"
  have "kmem_ok ?s0 []" using assms by (auto simp: kmem_ok_def word_less_nat_alt)
  then obtain t ys where t: "freerange ?e (P2V 0x400000) ?s0 = Ok () t" "kmem_ok t ys"
    "kend t = ?e" "set ys = {v. page v \<and> PGROUNDUP ?e \<le> v \<and> unat v + 4096 \<le> 0x80400000}"
    using freerange_ok [of ?s0 "[]" "P2V 0x400000" ?e] c e r by (auto simp: word_le_nat_alt)
  have pg: "page (P2V 0x400000)" by (simp add: page_unat c)
  obtain u zs where u: "freerange (P2V 0x400000) (P2V PHYSTOP) t = Ok () u" "kmem_ok u (zs @ ys)"
    "kend u = ?e" "set zs = {v. page v \<and> P2V 0x400000 \<le> v \<and> unat v + 4096 \<le> 0x8E000000}"
    using freerange_ok [of t ys "P2V PHYSTOP" "P2V 0x400000"]
      t c e PGROUNDUP_page [OF pg] by (auto simp: word_le_nat_alt)
  have "v \<in> set (zs @ ys) \<longleftrightarrow> allocatable u v" for v
  proof -
    have "unat (V2P v) = unat v - 0x80000000" if "?e \<le> v"
      using that e by (simp add: V2P_def unat_sub word_le_nat_alt)
    moreover have "?e \<le> v \<longleftrightarrow> PGROUNDUP ?e \<le> v" if pv: "page v"
    proof -
      obtain k where k: "unat v = 4096 * k" using pv by (auto simp: page_mult)
      show ?thesis unfolding word_le_nat_alt k ru by (simp add: round_up_le)
    qed
    moreover have "unat v + 4096 \<le> 0x8E000000 \<longleftrightarrow> unat v < 0x8E000000"
      "unat v + 4096 \<le> 0x80400000 \<longleftrightarrow> unat v < 0x80400000" if "page v"
      using that by (auto simp: page_mult)
    ultimately show ?thesis
      using t(4) u(3,4) c r by (auto simp: allocatable_def word_le_nat_alt word_less_nat_alt)
  qed
  moreover have "kmem_ok (u\<lparr>use_lock := True\<rparr>) (zs @ ys)"
    using u(2) by (simp add: kmem_ok_def allocatable_def)
  ultimately show ?thesis
    using t(1) u(1) by (intro exI [of _ "u\<lparr>use_lock := True\<rparr>"] exI [of _ "zs @ ys"])
      (simp add: kinit1_def kinit2_def kcode allocatable_def)
qed

lemma kinit_frees_all_memory_witness:
  "\<exists>t xs. thenM (kinit1 0x80110000 (P2V 0x400000)) (kinit2 (P2V 0x400000) (P2V PHYSTOP)) boot_mst = Ok () t
    \<and> kmem_ok t xs \<and> use_lock t \<and> (\<forall>v. v \<in> set xs \<longleftrightarrow> allocatable t v)"
  using kinit_frees_all_memory [of boot_mst] by (simp add: boot_mst_def P2V_def)

end
