(* ===== verification/Apic.thy ===== *)
theory Apic
  imports Kalloc
begin

text \<open>
  The interrupt controllers: lapic.c with the clock that it reads, ioapic.c and
  picirq.c, and startothers() of main.c, which starts the other processors
  through the local APIC.
\<close>

section \<open>State\<close>

text \<open>
  \<open>lapic_p\<close> is the pointer to the local APIC; \<open>lapic_out\<close> records the values
  written to its registers, \<open>lapic_ver\<close> and \<open>lapic_idr\<close> are what its version and
  ID registers hold, and \<open>icr_stat\<close> what the command register will deliver.
  The I/O APIC has one selected register and a file of them.  \<open>ap_out\<close>
  records the writes to ports; \<open>cmos\<close> lists the registers of the clock as they
  are at each of the coming reads.
\<close>

record apst = mst +
  lapic_p :: u32
  lapic_out :: "(nat \<times> u32) list"
  lapic_ver :: u32
  lapic_idr :: u32
  icr_stat :: "u32 list"
  ioapic_sel :: u32
  ioapic_regs :: "u32 \<Rightarrow> u32"
  ap_out :: "(u16 \<times> u8) list"
  cmos :: "(u8 \<Rightarrow> u8) list"

definition ap_outb :: "u16 \<Rightarrow> u8 \<Rightarrow> ('z apst_scheme, unit) kfun" where
  "ap_outb port v = modM (\<lambda>s. s\<lparr>ap_out := ap_out s @ [(port, v)]\<rparr>)"

section \<open>lapic.c\<close>

definition lapicw :: "nat \<Rightarrow> u32 \<Rightarrow> ('z apst_scheme, unit) kfun" where
  "lapicw index v = modM (\<lambda>s. s\<lparr>lapic_out := lapic_out s @ [(index, v)]\<rparr>)"

text \<open>The loop that waits until the command is delivered.\<close>

primrec icr_poll :: "u32 list \<Rightarrow> u32 list option" where
  "icr_poll [] = None"
| "icr_poll (r # rs) = (if r AND 0x1000 \<noteq> 0 then icr_poll rs else Some rs)"

definition icr_wait :: "('z apst_scheme, unit) kfun" where
  "icr_wait = (\<lambda>s. case icr_poll (icr_stat s) of None \<Rightarrow> Spin | Some rs \<Rightarrow> Ok () (s\<lparr>icr_stat := rs\<rparr>))"

definition lapicinit :: "('z apst_scheme, unit) kfun" where
  "lapicinit =
     bindM (getM lapic_p) (\<lambda>l.
     if l = 0 then skipM
     else
       thenM (lapicw (0x00F0 div 4) (0x100 OR (32 + 31)))
       (thenM (lapicw (0x03E0 div 4) 0xB)
       (thenM (lapicw (0x0320 div 4) (0x20000 OR (32 + 0)))
       (thenM (lapicw (0x0380 div 4) 10000000)
       (thenM (lapicw (0x0350 div 4) 0x10000)
       (thenM (lapicw (0x0360 div 4) 0x10000)
       (bindM (getM lapic_ver) (\<lambda>ver.
       thenM (whenM (drop_bit 16 ver AND 0xFF \<ge> 4) (lapicw (0x0340 div 4) 0x10000))
       (thenM (lapicw (0x0370 div 4) (32 + 19))
       (thenM (lapicw (0x0280 div 4) 0)
       (thenM (lapicw (0x0280 div 4) 0)
       (thenM (lapicw (0x00B0 div 4) 0)
       (thenM (lapicw (0x0310 div 4) 0)
       (thenM (lapicw (0x0300 div 4) (0x80000 OR 0x500 OR 0x8000))
       (thenM icr_wait
       (lapicw (0x0080 div 4) 0))))))))))))))))"

definition lapicid :: "('z apst_scheme, u32) kfun" where
  "lapicid = bindM (getM lapic_p) (\<lambda>l. if l = 0 then retM 0 else bindM (getM lapic_idr) (\<lambda>i. retM (drop_bit 24 i)))"

definition lapiceoi :: "('z apst_scheme, unit) kfun" where
  "lapiceoi = bindM (getM lapic_p) (\<lambda>l. whenM (l \<noteq> 0) (lapicw (0x00B0 div 4) 0))"

definition store16 :: "mem \<Rightarrow> u32 \<Rightarrow> u16 \<Rightarrow> mem" where
  "store16 m a w = m(a := ucast w, a + 1 := ucast (drop_bit 8 w))"

definition lapicstartap :: "u8 \<Rightarrow> u32 \<Rightarrow> ('z apst_scheme, unit) kfun" where
  "lapicstartap aid addr =
     thenM (ap_outb 0x70 0xF)
     (thenM (ap_outb 0x71 0x0A)
     (let wrv = P2V (push_bit 4 0x40 OR 0x67) in
      thenM (modM (\<lambda>s. s\<lparr>mem := store16 (mem s) wrv 0\<rparr>))
      (thenM (modM (\<lambda>s. s\<lparr>mem := store16 (mem s) (wrv + 2) (ucast (drop_bit 4 addr))\<rparr>))
      (thenM (lapicw (0x0310 div 4) (push_bit 24 (ucast aid)))
      (thenM (lapicw (0x0300 div 4) (0x500 OR 0x8000 OR 0x4000))
      (thenM (lapicw (0x0300 div 4) (0x500 OR 0x8000))
      (foreachM [0..<2] (\<lambda>i :: nat.
         thenM (lapicw (0x0310 div 4) (push_bit 24 (ucast aid)))
         (lapicw (0x0300 div 4) (0x600 OR drop_bit 12 addr))))))))))"

record rtcdate =
  second :: u32
  minute :: u32
  hour :: u32
  day :: u32
  month :: u32
  year :: u32

definition cmos_read :: "u8 \<Rightarrow> ('z apst_scheme, u32) kfun" where
  "cmos_read reg = thenM (ap_outb 0x70 reg)
     (\<lambda>s. case cmos s of [] \<Rightarrow> Spin | c # cs \<Rightarrow> Ok (ucast (c reg)) (s\<lparr>cmos := cs\<rparr>))"

definition fill_rtcdate :: "('z apst_scheme, rtcdate) kfun" where
  "fill_rtcdate =
     bindM (cmos_read 0x00) (\<lambda>sec. bindM (cmos_read 0x02) (\<lambda>mi. bindM (cmos_read 0x04) (\<lambda>h.
     bindM (cmos_read 0x07) (\<lambda>d. bindM (cmos_read 0x08) (\<lambda>mo. bindM (cmos_read 0x09) (\<lambda>y.
     retM \<lparr>second = sec, minute = mi, hour = h, day = d, month = mo, year = y\<rparr>))))))"

text \<open>Every round of the loop reads the clock at least seven times.\<close>

fun cmos_loop :: "nat \<Rightarrow> ('z apst_scheme, rtcdate) kfun" where
  "cmos_loop 0 = spinM"
| "cmos_loop (Suc fuel) =
     bindM fill_rtcdate (\<lambda>t1.
     bindM (cmos_read 0x0a) (\<lambda>sa.
     if sa AND push_bit 7 1 \<noteq> 0 then cmos_loop fuel
     else bindM fill_rtcdate (\<lambda>t2. if t1 = t2 then retM t1 else cmos_loop fuel)))"

definition CONV :: "u32 \<Rightarrow> u32" where
  "CONV x = drop_bit 4 x * 10 + (x AND 0xf)"

definition cmostime :: "('z apst_scheme, rtcdate) kfun" where
  "cmostime =
     bindM (cmos_read 0x0b) (\<lambda>sb.
     let bcd = (sb AND push_bit 2 1 = 0) in
     bindM (getM (\<lambda>s. length (cmos s))) (\<lambda>n.
     bindM (cmos_loop (Suc n)) (\<lambda>t1.
     let t1 = (if bcd then \<lparr>second = CONV (second t1), minute = CONV (minute t1), hour = CONV (hour t1),
                            day = CONV (day t1), month = CONV (month t1), year = CONV (year t1)\<rparr> else t1) in
     retM (t1\<lparr>year := year t1 + 2000\<rparr>))))"

section \<open>ioapic.c and picirq.c\<close>

definition ioapicread :: "u32 \<Rightarrow> ('z apst_scheme, u32) kfun" where
  "ioapicread reg = thenM (modM (\<lambda>s. s\<lparr>ioapic_sel := reg\<rparr>)) (getM (\<lambda>s. ioapic_regs s (ioapic_sel s)))"

definition ioapicwrite :: "u32 \<Rightarrow> u32 \<Rightarrow> ('z apst_scheme, unit) kfun" where
  "ioapicwrite reg d = thenM (modM (\<lambda>s. s\<lparr>ioapic_sel := reg\<rparr>)) (modM (\<lambda>s. s\<lparr>ioapic_regs := (ioapic_regs s)(ioapic_sel s := d)\<rparr>))"

definition ioapic_off :: "nat \<Rightarrow> ('z apst_scheme, unit) kfun" where
  "ioapic_off i =
     thenM (ioapicwrite (0x10 + 2 * of_nat i) (0x10000 OR (32 + of_nat i)))
     (ioapicwrite (0x10 + 2 * of_nat i + 1) 0)"

text \<open>ioapicinit(): the message about a wrong id is only printed.\<close>

definition ioapicinit :: "('z apst_scheme, unit) kfun" where
  "ioapicinit =
     bindM (ioapicread 0x01) (\<lambda>v.
     let maxintr = drop_bit 16 v AND 0xFF in
     bindM (ioapicread 0x00) (\<lambda>i.
     foreachM [0..<Suc (unat maxintr)] ioapic_off))"

definition ioapicenable :: "nat \<Rightarrow> u32 \<Rightarrow> ('z apst_scheme, unit) kfun" where
  "ioapicenable irq cpunum =
     thenM (ioapicwrite (0x10 + 2 * of_nat irq) (32 + of_nat irq))
     (ioapicwrite (0x10 + 2 * of_nat irq + 1) (push_bit 24 cpunum))"

definition picinit :: "('z apst_scheme, unit) kfun" where
  "picinit = thenM (ap_outb (0x20 + 1) 0xFF) (ap_outb (0xA0 + 1) 0xFF)"

section \<open>startothers()\<close>

text \<open>
  The addresses that the linker gives to the image of entryother.S, to
  mpenter() and to entrypgdir.  \<open>ids\<close> are the APIC ids of the processors and
  \<open>me\<close> the index of the one that runs; \<open>comes\<close> says of which processors the code
  at 0x7000 will come to mpmain() and set \<open>started\<close>.
\<close>

record ap_link =
  eo_start :: u32
  eo_size :: u32
  mpenter :: u32
  entrypgdir_a :: u32

definition start_other :: "ap_link \<Rightarrow> u8 list \<Rightarrow> nat \<Rightarrow> (nat \<Rightarrow> bool) \<Rightarrow> nat \<Rightarrow> ('z apst_scheme, unit) kfun" where
  "start_other lk ids me comes c =
     (let code = P2V 0x7000 in
      if c = me then skipM
      else bindM kalloc (\<lambda>stack.
        thenM (modM (\<lambda>s. s\<lparr>mem := store32 (mem s) (code - 4) (stack + 4096)\<rparr>))
        (thenM (modM (\<lambda>s. s\<lparr>mem := store32 (mem s) (code - 8) (mpenter lk)\<rparr>))
        (thenM (modM (\<lambda>s. s\<lparr>mem := store32 (mem s) (code - 12) (V2P (entrypgdir_a lk))\<rparr>))
        (thenM (lapicstartap (ids ! c) (V2P code))
        (if comes c then skipM else spinM))))))"

definition startothers :: "ap_link \<Rightarrow> u8 list \<Rightarrow> nat \<Rightarrow> (nat \<Rightarrow> bool) \<Rightarrow> ('z apst_scheme, unit) kfun" where
  "startothers lk ids me comes =
     (let code = P2V 0x7000 in
      thenM (modM (\<lambda>s. s\<lparr>mem := memmove (mem s) code (eo_start lk) (eo_size lk)\<rparr>))
      (foreachM [0..<length ids] (start_other lk ids me comes)))"

text \<open>The page directory with which entry.S and entryother.S turn paging on.\<close>

definition entrypgdir :: "u32 list" where
  "entrypgdir = (replicate 1024 0)[0 := 0 OR 1 OR 2 OR 0x80, unat (drop_bit 22 KERNBASE) := 0 OR 1 OR 2 OR 0x80]"

section \<open>Routing of interrupts\<close>

text \<open>The entry of an interrupt in the redirection table: its configuration and the processor it goes to.\<close>

definition io_entry :: "'z apst_scheme \<Rightarrow> nat \<Rightarrow> u32 \<times> u32" where
  "io_entry s i = (ioapic_regs s (0x10 + 2 * of_nat i), ioapic_regs s (0x10 + 2 * of_nat i + 1))"

lemma io_index:
  assumes "i < 256" "j < 256"
  shows "(0x10 + 2 * of_nat i :: u32) = 0x10 + 2 * of_nat j \<longleftrightarrow> i = j" "(0x10 + 2 * of_nat i :: u32) \<noteq> 0x10 + 2 * of_nat j + 1"
proof -
  have u: "unat (0x10 + 2 * of_nat k :: u32) = 16 + 2 * k" "unat (0x10 + 2 * of_nat k + 1 :: u32) = 17 + 2 * k" if "k < 256" for k
    using that by (simp_all add: unat_word_ariths unat_of_nat)
  show "(0x10 + 2 * of_nat i :: u32) = 0x10 + 2 * of_nat j \<longleftrightarrow> i = j" using u(1) [OF assms(1)] u(1) [OF assms(2)] by (metis add_left_cancel mult_left_cancel zero_neq_numeral)
  have "16 + 2 * i \<noteq> 17 + 2 * j" by presburger
  then show "(0x10 + 2 * of_nat i :: u32) \<noteq> 0x10 + 2 * of_nat j + 1" using u(1) [OF assms(1)] u(2) [OF assms(2)] by metis
qed

definition io_set :: "nat \<Rightarrow> u32 \<Rightarrow> u32 \<Rightarrow> 'z apst_scheme \<Rightarrow> 'z apst_scheme" where
  "io_set i lo hi s = s\<lparr>ioapic_sel := 0x10 + 2 * of_nat i + 1,
     ioapic_regs := (ioapic_regs s)(0x10 + 2 * of_nat i := lo, 0x10 + 2 * of_nat i + 1 := hi)\<rparr>"

lemma io_entry_set: "i < 256 \<Longrightarrow> j < 256 \<Longrightarrow> io_entry (io_set i lo hi s) j = (if i = j then (lo, hi) else io_entry s j)"
  using io_index [of i j] io_index [of j i] by (auto simp: io_entry_def io_set_def)

lemma ioapic_off_eq: "ioapic_off i s = Ok () (io_set i (0x10000 OR (32 + of_nat i)) 0 s)"
  by (simp add: ioapic_off_def ioapicwrite_def io_set_def kcode)

lemma ioapicenable_eq: "ioapicenable i c s = Ok () (io_set i (32 + of_nat i) (push_bit 24 c) s)"
  by (simp add: ioapicenable_def ioapicwrite_def io_set_def kcode)

lemma ioapic_off_loop:
  "n \<le> 256 \<Longrightarrow> \<exists>t. foreachM [0..<n] ioapic_off s = Ok () t \<and>
     (\<forall>j < 256. io_entry t j = (if j < n then (0x10000 OR (32 + of_nat j), 0) else io_entry s j))"
proof (induction n)
  case 0
  then show ?case by (simp add: kcode)
next
  case (Suc n)
  then obtain t where t: "foreachM [0..<n] ioapic_off s = Ok () t"
    "\<forall>j < 256. io_entry t j = (if j < n then (0x10000 OR (32 + of_nat j), 0) else io_entry s j)" by auto
  then have "foreachM [0..<Suc n] ioapic_off s = Ok () (io_set n (0x10000 OR (32 + of_nat n)) 0 t)" by (simp add: kcode ioapic_off_eq)
  then show ?case using t(2) Suc.prems by (auto simp: io_entry_set less_Suc_eq)
qed

lemma ioapicenable_list:
  "\<forall>(i, c) \<in> set es. i < 256 \<Longrightarrow> \<exists>t. foreachM es (\<lambda>(i, c). ioapicenable i c) s = Ok () t \<and>
     (\<forall>j < 256. io_entry t j = (case map_of (rev es) j of None \<Rightarrow> io_entry s j | Some c \<Rightarrow> (32 + of_nat j, push_bit 24 c)))"
proof (induction es arbitrary: s)
  case Nil
  then show ?case by (simp add: kcode)
next
  case (Cons e es)
  obtain i c where e: "e = (i, c)" by (cases e)
  obtain t where t: "foreachM es (\<lambda>(i, c). ioapicenable i c) (io_set i (32 + of_nat i) (push_bit 24 c) s) = Ok () t"
    "\<forall>j < 256. io_entry t j = (case map_of (rev es) j of None \<Rightarrow> io_entry (io_set i (32 + of_nat i) (push_bit 24 c) s) j
       | Some c \<Rightarrow> (32 + of_nat j, push_bit 24 c))" using Cons by fastforce
  then show ?case using Cons.prems e
    by (auto simp: kcode ioapicenable_eq [of i c s] io_entry_set map_add_def split: option.split)
qed

text \<open>
  Routing of device interrupts.  After ioapicinit() and any sequence of
  calls of ioapicenable(), exactly the interrupts that were enabled are
  unmasked (bit 16), each with the vector T_IRQ0 + irq and the processor of the last
  call for it; all others up to the controller's last one are masked.
\<close>

lemma ioapic_routing:
  fixes s :: "'z apst_scheme"
  assumes "\<forall>(i, c) \<in> set es. i < 224" "j \<le> unat (drop_bit 16 (ioapic_regs s 1) AND 0xFF)"
  shows "\<exists>t. thenM ioapicinit (foreachM es (\<lambda>(i, c). ioapicenable i c)) s = Ok () t
    \<and> (bit (fst (io_entry t j)) 16 \<longleftrightarrow> j \<notin> fst ` set es)
    \<and> (\<forall>c. map_of (rev es) j = Some c \<longrightarrow> io_entry t j = (32 + of_nat j, push_bit 24 c))"
proof -
  let ?n = "unat (drop_bit 16 (ioapic_regs s 1) AND 0xFF)"
  have "drop_bit 16 (ioapic_regs s 1) AND 0xFF = take_bit 8 (drop_bit 16 (ioapic_regs s 1))"
    by (simp add: take_bit_eq_mask mask_eq_exp_minus_1)
  then have n: "?n < 256" by (simp add: unsigned_take_bit_eq take_bit_nat_less_exp [of 8, simplified])
  have init: "ioapicinit s = foreachM [0..<Suc ?n] ioapic_off (s\<lparr>ioapic_sel := 0\<rparr>)"
    by (simp add: ioapicinit_def ioapicread_def bindM_apply thenM_apply modM_apply getM_apply Let_def del: upt_Suc)
  from ioapic_off_loop [OF Suc_leI [OF n], of "s\<lparr>ioapic_sel := 0\<rparr>"] obtain u where u: "ioapicinit s = Ok () u"
    "\<forall>j < 256. io_entry u j = (if j < Suc ?n then (0x10000 OR (32 + of_nat j), 0) else io_entry (s\<lparr>ioapic_sel := 0\<rparr>) j)"
    unfolding init by blast
  obtain t where t: "foreachM es (\<lambda>(i, c). ioapicenable i c) u = Ok () t"
    "\<forall>j < 256. io_entry t j = (case map_of (rev es) j of None \<Rightarrow> io_entry u j | Some c \<Rightarrow> (32 + of_nat j, push_bit 24 c))"
    using ioapicenable_list [of es u] assms(1) by fastforce
  have j: "j < 256" "j < Suc ?n" using assms(2) n by linarith+
  have off: "bit (0x10000 OR (32 + of_nat j) :: u32) 16" by (simp add: bit_or_iff)
  have on: "\<not> bit (32 + of_nat j :: u32) 16"
  proof -
    have "unat (32 + of_nat j :: u32) = 32 + j" using j(1) by (simp add: unat_word_ariths unat_of_nat)
    then have "\<not> bit (unat (32 + of_nat j :: u32)) 16" using j(1) by (simp add: bit_iff_odd)
    then show ?thesis by (simp add: bit_unsigned_iff)
  qed
  show ?thesis
  proof (cases "map_of (rev es) j")
    case None
    then have "j \<notin> fst ` set es" by (metis map_of_eq_None_iff set_rev)
    then show ?thesis using u t j None off by (simp add: kcode)
  next
    case (Some c)
    then have "j \<in> fst ` set es" by (metis map_of_eq_None_iff option.distinct(1) set_rev)
    then show ?thesis using u t j Some on by (simp add: kcode)
  qed
qed

section \<open>The clock\<close>

text \<open>A register of the clock in binary-coded decimal.\<close>

definition bcd_enc :: "nat \<Rightarrow> u8" where
  "bcd_enc n = of_nat (16 * (n div 10) + n mod 10)"

lemma CONV_bcd: "n < 100 \<Longrightarrow> CONV (ucast (bcd_enc n)) = of_nat n"
proof -
  assume n: "n < 100"
  let ?x = "ucast (bcd_enc n) :: u32"
  have "16 * (n div 10) + n mod 10 < 256" using n by linarith
  then have u: "unat ?x = 16 * (n div 10) + n mod 10"
    by (simp add: bcd_enc_def unsigned_ucast_eq unat_of_nat take_bit_nat_eq_self del: of_nat_add of_nat_mult)
  have du: "unat (drop_bit 4 ?x) = n div 10" using u by (simp add: drop_bit_eq_div unat_div)
  have d: "drop_bit 4 ?x = of_nat (n div 10)" unfolding du [symmetric] by simp
  have "?x AND 0xf = take_bit 4 ?x" by (simp add: take_bit_eq_mask mask_eq_exp_minus_1)
  moreover have "n mod 10 < 16" using mod_less_divisor [of 10 n] by linarith
  ultimately have mu: "unat (?x AND 0xf) = n mod 10" using u by (simp add: unat_mod take_bit_eq_mod)
  have m: "?x AND 0xf = of_nat (n mod 10)" unfolding mu [symmetric] by simp
  have "CONV ?x = of_nat (n div 10 * 10 + n mod 10)" unfolding CONV_def d m by (simp only: of_nat_add of_nat_mult of_nat_numeral)
  then show ?thesis by (simp only: div_mult_mod_eq)
qed

text \<open>The clock shows the date and is not being updated.\<close>

definition shows_date :: "(u8 \<Rightarrow> u8) \<Rightarrow> nat \<Rightarrow> nat \<Rightarrow> nat \<Rightarrow> nat \<Rightarrow> nat \<Rightarrow> nat \<Rightarrow> bool" where
  "shows_date c sec mi h d mo y \<longleftrightarrow> c 0x00 = bcd_enc sec \<and> c 0x02 = bcd_enc mi \<and> c 0x04 = bcd_enc h \<and> c 0x07 = bcd_enc d \<and> c 0x08 = bcd_enc mo
     \<and> c 0x09 = bcd_enc y \<and> c 0x0a AND 0x80 = 0 \<and> sec < 100 \<and> mi < 100 \<and> h < 100 \<and> d < 100 \<and> mo < 100 \<and> y < 100"

lemma cmos_read_Cons: "cmos s = c # cs \<Longrightarrow> cmos_read reg s = Ok (ucast (c reg)) (s\<lparr>ap_out := ap_out s @ [(0x70, reg)], cmos := cs\<rparr>)"
  by (simp add: cmos_read_def ap_outb_def kcode)

lemma fill_ok:
  assumes "cmos s = [c1, c2, c3, c4, c5, c6] @ cs"
  obtains t where "fill_rtcdate s = Ok \<lparr>second = ucast (c1 0), minute = ucast (c2 2), hour = ucast (c3 4), day = ucast (c4 7), month = ucast (c5 8), year = ucast (c6 9)\<rparr> t" "cmos t = cs"
  using assms by (simp add: fill_rtcdate_def kcode cmos_read_Cons)

lemma ucast_uip: "((ucast (b :: u8) :: u32) AND 0x80 = 0) = (b AND 0x80 = 0)"
proof -
  have "(ucast b :: u32) AND 0x80 = ucast (b AND 0x80)" by (simp add: unsigned_and_eq)
  moreover have "unat (ucast w :: u32) = unat w" for w :: u8
    using unsigned_less [of w, where 'a = nat] by (simp add: unsigned_ucast_eq take_bit_nat_eq_self)
  ultimately show ?thesis by (simp only: unat_eq_zero [symmetric])
qed

lemma cmos_loop_busy:
  assumes "cmos s = r @ cs" "length r = 7" "(r ! 6) 0x0a AND 0x80 \<noteq> 0"
  obtains t where "cmos_loop (Suc n) s = cmos_loop n t" "cmos t = cs"
proof -
  obtain c1 c2 c3 c4 c5 c6 c7 where r: "r = [c1, c2, c3, c4, c5, c6, c7]" using assms(2) by (auto simp: numeral_eq_Suc length_Suc_conv)
  have "cmos s = [c1, c2, c3, c4, c5, c6] @ c7 # cs" using assms(1) r by simp
  then obtain u d where "fill_rtcdate s = Ok d u" "cmos u = c7 # cs" by (rule fill_ok) blast
  then show thesis using assms(3) r ucast_uip [of "c7 0x0a"] by (intro that) (simp add: kcode cmos_read_Cons)+
qed

lemma cmos_loop_ready:
  assumes "cmos s = replicate 13 c @ cs" "shows_date c sec mi h d mo y"
  obtains t where "cmos_loop (Suc n) s = Ok \<lparr>second = ucast (bcd_enc sec), minute = ucast (bcd_enc mi), hour = ucast (bcd_enc h),
    day = ucast (bcd_enc d), month = ucast (bcd_enc mo), year = ucast (bcd_enc y)\<rparr> t"
proof -
  have "cmos s = [c, c, c, c, c, c] @ c # [c, c, c, c, c, c] @ cs" using assms(1) by (simp add: numeral_eq_Suc)
  then obtain u where u: "fill_rtcdate s = Ok \<lparr>second = ucast (c 0), minute = ucast (c 2), hour = ucast (c 4), day = ucast (c 7), month = ucast (c 8), year = ucast (c 9)\<rparr> u"
    "cmos u = c # [c, c, c, c, c, c] @ cs" by (rule fill_ok)
  let ?u = "u\<lparr>ap_out := ap_out u @ [(0x70, 0x0a)], cmos := [c, c, c, c, c, c] @ cs\<rparr>"
  have "cmos ?u = [c, c, c, c, c, c] @ cs" by simp
  then obtain v where v: "fill_rtcdate ?u = Ok \<lparr>second = ucast (c 0), minute = ucast (c 2), hour = ucast (c 4), day = ucast (c 7), month = ucast (c 8), year = ucast (c 9)\<rparr> v"
    by (rule fill_ok)
  show thesis using u v assms(2) ucast_uip [of "c 0x0a"] by (intro that [of v]) (simp add: kcode cmos_read_Cons shows_date_def)
qed

text \<open>
  Reading the clock.  When the clock, which counts in binary-coded
  decimal, shows a date from the time on at which it is no longer being updated,
  however many rounds that takes, cmostime() returns that date, with the
  century added.
\<close>

lemma cmostime_spec:
  fixes s :: "'z apst_scheme"
  assumes "cmos s = b # concat rs @ replicate 13 c @ cs" "b 0x0b AND 4 = 0" "\<forall>r \<in> set rs. length r = 7 \<and> (r ! 6) 0x0a AND 0x80 \<noteq> 0"
    and "shows_date c sec mi h d mo y"
  shows "\<exists>t. cmostime s = Ok \<lparr>second = of_nat sec, minute = of_nat mi, hour = of_nat h, day = of_nat d, month = of_nat mo, year = of_nat (2000 + y)\<rparr> t"
proof -
  let ?e = "\<lambda>n. ucast (bcd_enc n) :: u32"
  have loop: "\<exists>t. cmos_loop (Suc n) s = Ok \<lparr>second = ?e sec, minute = ?e mi, hour = ?e h, day = ?e d, month = ?e mo, year = ?e y\<rparr> t"
    if "cmos s = concat rs @ replicate 13 c @ cs" "\<forall>r \<in> set rs. length r = 7 \<and> (r ! 6) 0x0a AND 0x80 \<noteq> 0" "length rs \<le> n" for n and s :: "'z apst_scheme"
    using that
  proof (induction rs arbitrary: s n)
    case Nil
    then have "cmos s = replicate 13 c @ cs" by simp
    then show ?case using assms(4) by (rule cmos_loop_ready) blast
  next
    case (Cons r rs)
    then obtain n' where n: "n = Suc n'" "length rs \<le> n'" by (cases n) auto
    have "cmos s = r @ concat rs @ replicate 13 c @ cs" "length r = 7" "(r ! 6) 0x0a AND 0x80 \<noteq> 0" using Cons.prems by auto
    then obtain t where "cmos_loop (Suc n) s = cmos_loop n t" "cmos t = concat rs @ replicate 13 c @ cs" by (rule cmos_loop_busy)
    then show ?case using Cons.IH [of t n'] Cons.prems(2) n by auto
  qed
  let ?u = "s\<lparr>ap_out := ap_out s @ [(0x70, 0x0b)], cmos := concat rs @ replicate 13 c @ cs\<rparr>"
  have r: "cmos_read 0x0b s = Ok (ucast (b 0x0b)) ?u" using cmos_read_Cons [OF assms(1)] by simp
  have "length rs \<le> length (concat rs)" using assms(3) by (induction rs) auto
  then obtain t where t: "cmos_loop (Suc (length (cmos ?u))) ?u = Ok \<lparr>second = ?e sec, minute = ?e mi, hour = ?e h, day = ?e d, month = ?e mo, year = ?e y\<rparr> t"
    using loop [of ?u "length (cmos ?u)"] assms(3) by auto
  have "(ucast (b 0x0b) :: u32) AND 4 = ucast (b 0x0b AND 4)" by (simp add: unsigned_and_eq)
  then have bcd: "(ucast (b 0x0b) :: u32) AND 4 = 0" using assms(2) by simp
  show ?thesis using r t bcd assms(4)
    by (simp add: cmostime_def Let_def bindM_apply getM_apply retM_apply CONV_bcd shows_date_def add.commute del: cmos_loop.simps)
qed

definition demo_apst :: apst where
  "demo_apst = mst.extend boot_mst \<lparr>lapic_p = 0xFEE00000, lapic_out = [], lapic_ver = 0x50014, lapic_idr = 0, icr_stat = [0x1000, 0], ioapic_sel = 0,
     ioapic_regs = (\<lambda>_. 0x170000), ap_out = [],
     cmos = (\<lambda>_. 0) # replicate 7 (\<lambda>_. 0x80) @ replicate 13 (((\<lambda>_. 0) :: u8 \<Rightarrow> u8)(0 := 0x59, 2 := 0x30, 4 := 0x23, 7 := 0x31, 8 := 0x12, 9 := 0x22))\<rparr>"

lemma ioapic_routing_witness:
  "\<exists>t. thenM ioapicinit (foreachM [(1, 0), (14, 1)] (\<lambda>(i, c). ioapicenable i c)) demo_apst = Ok () t \<and> io_entry t 14 = (46, 0x1000000)
    \<and> \<not> bit (fst (io_entry t 14)) 16"
  using ioapic_routing [of "[(1, 0), (14, 1)]" 14 demo_apst] by (auto simp: demo_apst_def mst.defs)

lemma cmostime_spec_witness:
  "\<exists>t. cmostime demo_apst = Ok \<lparr>second = 59, minute = 30, hour = 23, day = 31, month = 12, year = 2022\<rparr> t"
  using cmostime_spec [of demo_apst "\<lambda>_. 0" "[replicate 7 (\<lambda>_. 0x80)]" "((\<lambda>_. 0) :: u8 \<Rightarrow> u8)(0 := 0x59, 2 := 0x30, 4 := 0x23, 7 := 0x31, 8 := 0x12, 9 := 0x22)" "[]" 59 30 23 31 12 22]
  by (simp add: demo_apst_def mst.defs shows_date_def bcd_enc_def)

section \<open>Starting the other processors\<close>

text \<open>The commands that start one processor at address 0x7000.\<close>

definition start_ipis :: "u8 \<Rightarrow> (nat \<times> u32) list" where
  "start_ipis aid = (let dest = (196, push_bit 24 (ucast aid)) in
     [dest, (192, 0xC500), (192, 0x8500), dest, (192, 0x607), dest, (192, 0x607)])"

lemma lapicstartap_eq:
  "lapicstartap aid 0x7000 s = Ok () (s\<lparr>ap_out := ap_out s @ [(0x70, 0xF), (0x71, 0x0A)],
     mem := store16 (store16 (mem s) 0x80000467 0) 0x80000469 0x700, lapic_out := lapic_out s @ start_ipis aid\<rparr>)"
  by (simp add: lapicstartap_def ap_outb_def lapicw_def kcode Let_def P2V_def start_ipis_def upt_rec [of _ 2])

text \<open>Memory below the end of the kernel image is not on the free list.\<close>

lemma kmem_ok_low:
  assumes "kmem_ok s xs" "\<And>z. kend s \<le> z \<Longrightarrow> m' z = mem s z"
  shows "kmem_ok (s\<lparr>mem := m'\<rparr>) xs"
proof -
  have "flist m' (freelist s) xs"
  proof (rule flist_cong [of "mem s"])
    fix x z assume x: "x \<in> set xs" "in_range x 4 z"
    then have "allocatable s x" using assms(1) by (simp add: kmem_ok_def)
    then have p: "page x" "kend s \<le> x" by (simp_all add: allocatable_def)
    have "PGROUNDDOWN z = x" using in_page [OF p(1), of z] x(2) in_range_mono [of x 4 z 4096] by simp
    then have "unat x \<le> unat z" using PGROUNDDOWN_unat [of z] by (metis div_times_less_eq_dividend)
    then show "m' z = mem s z" using assms(2) p(2) by (simp add: word_le_nat_alt)
  qed (use assms(1) in \<open>simp add: kmem_ok_def\<close>)
  then show ?thesis using assms(1) by (simp add: kmem_ok_def allocatable_def)
qed

lemma store16_other: "z \<noteq> a \<Longrightarrow> z \<noteq> a + 1 \<Longrightarrow> store16 m a w z = m z"
  by (simp add: store16_def)

lemma code_words:
  "load32 (store16 m 0x80000467 v) 0x80006FF4 = load32 m 0x80006FF4" "load32 (store16 m 0x80000469 v) 0x80006FF4 = load32 m 0x80006FF4"
  "load32 (store16 m 0x80000467 v) 0x80006FF8 = load32 m 0x80006FF8" "load32 (store16 m 0x80000469 v) 0x80006FF8 = load32 m 0x80006FF8"
  "load32 (store16 m 0x80000467 v) 0x80006FFC = load32 m 0x80006FFC" "load32 (store16 m 0x80000469 v) 0x80006FFC = load32 m 0x80006FFC"
  "load32 (store32 m 0x80006FF4 w) 0x80006FF8 = load32 m 0x80006FF8" "load32 (store32 m 0x80006FF4 w) 0x80006FFC = load32 m 0x80006FFC"
  "load32 (store32 m 0x80006FF8 w) 0x80006FFC = load32 m 0x80006FFC"
  by (simp_all add: store16_def store32_def load32_def)

text \<open>
  One processor: the page it gets as its stack, and what it finds below
  0x7000 while it starts.
\<close>

lemma start_other_ok:
  assumes "kmem_ok s (x # xs)" "0x80008000 \<le> kend s" "c \<noteq> me" "comes c"
  obtains t where "start_other lk ids me comes c s = Ok () t" "kmem_ok t xs" "lapic_out t = lapic_out s @ start_ipis (ids ! c)" "kend t = kend s"
    "load32 (mem t) 0x80006FFC = x + 4096" "load32 (mem t) 0x80006FF8 = mpenter lk" "load32 (mem t) 0x80006FF4 = V2P (entrypgdir_a lk)"
proof -
  let ?m = "store32 (store32 (store32 (mem s) 0x80006FFC (x + 4096)) 0x80006FF8 (mpenter lk)) 0x80006FF4 (V2P (entrypgdir_a lk))"
  let ?m' = "store16 (store16 ?m 0x80000467 0) 0x80000469 0x700"
  let ?u = "s\<lparr>freelist := load32 (mem s) x\<rparr>"
  let ?t = "?u\<lparr>mem := ?m', ap_out := ap_out s @ [(0x70, 0xF), (0x71, 0x0A)], lapic_out := lapic_out s @ start_ipis (ids ! c)\<rparr>"
  have run: "start_other lk ids me comes c s = Ok () ?t"
    using kalloc_Cons(1) [OF assms(1)] assms(3,4) by (simp add: start_other_def Let_def kcode lapicstartap_eq P2V_def V2P_def)
  have low: "?m' z = mem s z" if "0x80008000 \<le> z" for z
  proof -
    have "\<not> in_range a 4 z" if "a < 0x80007000" for a :: u32
    proof -
      have "unat (z - a) = unat z - unat a" using that \<open>0x80008000 \<le> z\<close> by (intro unat_sub) (simp add: word_le_nat_alt word_less_nat_alt)
      then show ?thesis using that \<open>0x80008000 \<le> z\<close> by (simp add: in_range_def word_le_nat_alt word_less_nat_alt)
    qed
    moreover have "z \<noteq> a" if "a < 0x80008000" for a using that \<open>0x80008000 \<le> z\<close> by auto
    ultimately show ?thesis by (simp add: store32_other store16_other)
  qed
  have "kmem_ok (?u\<lparr>mem := ?m'\<rparr>) xs"
    by (rule kmem_ok_low [OF kalloc_Cons(2) [OF assms(1)]]) (use low assms(2) in simp)
  then have k: "kmem_ok ?t xs" by (simp add: kmem_ok_def allocatable_def)
  have "load32 ?m' 0x80006FFC = x + 4096" "load32 ?m' 0x80006FF8 = mpenter lk" "load32 ?m' 0x80006FF4 = V2P (entrypgdir_a lk)" by (simp_all add: code_words)
  then show thesis by (intro that [OF run k]) simp_all
qed

text \<open>The processors that startothers() starts: all but the one that runs it.\<close>

definition others :: "nat \<Rightarrow> nat \<Rightarrow> nat list" where
  "others n me = filter (\<lambda>c. c \<noteq> me) [0..<n]"

lemma start_others_loop:
  assumes "kmem_ok s xs" "0x80008000 \<le> kend s" "\<forall>c \<in> set cs. c \<noteq> me \<longrightarrow> comes c" "length (filter (\<lambda>c. c \<noteq> me) cs) \<le> length xs"
  shows "\<exists>t. foreachM cs (start_other lk ids me comes) s = Ok () t \<and> kmem_ok t (drop (length (filter (\<lambda>c. c \<noteq> me) cs)) xs)
    \<and> lapic_out t = lapic_out s @ concat (map (\<lambda>c. start_ipis (ids ! c)) (filter (\<lambda>c. c \<noteq> me) cs))"
  using assms
proof (induction cs arbitrary: s xs)
  case Nil
  then show ?case by (simp add: kcode)
next
  case (Cons c cs)
  show ?case
  proof (cases "c = me")
    case True
    then have "start_other lk ids me comes c s = Ok () s" by (simp add: start_other_def kcode)
    then show ?thesis using Cons.IH [OF Cons.prems(1,2)] Cons.prems(3,4) True by (simp add: kcode)
  next
    case False
    then obtain x ys where xs: "xs = x # ys" using Cons.prems(4) by (cases xs) auto
    have "kmem_ok s (x # ys)" "comes c" using Cons.prems(1,3) xs False by simp_all
    then obtain u where u: "start_other lk ids me comes c s = Ok () u" "kmem_ok u ys" "lapic_out u = lapic_out s @ start_ipis (ids ! c)" "kend u = kend s"
      using start_other_ok [OF _ Cons.prems(2) False] by metis
    then show ?thesis using Cons.IH [OF u(2)] Cons.prems(2-4) False xs by (auto simp: kcode)
  qed
qed

text \<open>
  startothers() starts every other processor, in order, on a page of its own
  as stack: it takes as many pages from the free list, and sends each of the
  processors the INIT and STARTUP commands of the universal start-up algorithm.
\<close>

lemma startothers_spec:
  fixes s :: "'z apst_scheme"
  assumes "kmem_ok s xs" "0x80008000 \<le> kend s" "\<forall>c < length ids. c \<noteq> me \<longrightarrow> comes c" "length (others (length ids) me) \<le> length xs"
    and "\<And>z. kend s \<le> z \<Longrightarrow> memmove (mem s) 0x80007000 (eo_start lk) (eo_size lk) z = mem s z"
  shows "\<exists>t. startothers lk ids me comes s = Ok () t \<and> kmem_ok t (drop (length (others (length ids) me)) xs)
    \<and> lapic_out t = lapic_out s @ concat (map (\<lambda>c. start_ipis (ids ! c)) (others (length ids) me))"
proof -
  let ?s = "s\<lparr>mem := memmove (mem s) 0x80007000 (eo_start lk) (eo_size lk)\<rparr>"
  have "kmem_ok ?s xs" by (rule kmem_ok_low [OF assms(1,5)])
  from start_others_loop [OF this, of "[0..<length ids]" me comes lk ids] show ?thesis
    using assms(2-4) by (simp add: startothers_def Let_def P2V_def thenM_apply modM_apply others_def)
qed

section \<open>The first page directory\<close>

text \<open>
  With PTE_PS an entry of the page directory maps 4 megabytes.  entrypgdir maps
  the first 4 megabytes of memory at 0 and at KERNBASE, and nothing else.
\<close>

definition ps_translate :: "u32 list \<Rightarrow> u32 \<Rightarrow> u32 option" where
  "ps_translate pd va = (let e = pd ! unat (drop_bit 22 va) in
     if bit e 0 \<and> bit e 7 then Some ((e AND 0xFFC00000) OR (va AND 0x3FFFFF)) else None)"

lemma entrypgdir_maps:
  "ps_translate entrypgdir va = (if drop_bit 22 va = 0 \<or> drop_bit 22 va = 512 then Some (va AND 0x3FFFFF) else None)"
proof -
  let ?i = "drop_bit 22 va"
  have "unat ?i < 1024" using unat_u32 [of va] by (simp add: drop_bit_eq_div unat_div)
  moreover have "?i = 0 \<longleftrightarrow> unat ?i = 0" "?i = 512 \<longleftrightarrow> unat ?i = 512" by (simp_all add: word_unat_eq_iff)
  ultimately show ?thesis by (simp add: ps_translate_def entrypgdir_def nth_list_update Let_def)
qed

end
