(* ===== verification/Vm.thy ===== *)
theory Vm
  imports Kalloc
begin

text \<open>
  vm.c: two-level page tables built in pages of the allocator, the kernel's
  part of every address space, and growing, shrinking, copying and freeing of
  the user part.  loaduvm(), which reads from an inode, is in the theory of
  exec().
\<close>

section \<open>Constants and macros (mmu.h)\<close>

abbreviation (input) PTE_P :: u32 where "PTE_P \<equiv> 1"
abbreviation (input) PTE_W :: u32 where "PTE_W \<equiv> 2"
abbreviation (input) PTE_U :: u32 where "PTE_U \<equiv> 4"
abbreviation (input) NPDENTRIES :: nat where "NPDENTRIES \<equiv> 1024"

definition PDX :: "u32 \<Rightarrow> u32" where "PDX va = drop_bit 22 va AND 0x3FF"
definition PTX :: "u32 \<Rightarrow> u32" where "PTX va = drop_bit 12 va AND 0x3FF"
definition PGADDR :: "u32 \<Rightarrow> u32 \<Rightarrow> u32 \<Rightarrow> u32" where
  "PGADDR d t off = push_bit 22 d OR push_bit 12 t OR off"
definition PTE_ADDR :: "u32 \<Rightarrow> u32" where "PTE_ADDR w = w AND NOT 0xFFF"
definition PTE_FLAGS :: "u32 \<Rightarrow> u32" where "PTE_FLAGS w = w AND 0xFFF"

section \<open>State and routines\<close>

text \<open>
  \<open>kdata\<close> is the linker's \<open>data\<close>, the start of the kernel's data; \<open>cr3\<close> and
  \<open>esp0\<close> are the page-table register and the task state's kernel stack
  pointer of the processor that runs.
\<close>

record vst = mst +
  kdata :: u32
  kpgdir :: u32
  cr3 :: u32
  esp0 :: u32

definition loadM :: "u32 \<Rightarrow> ('z mst_scheme, u32) kfun" where
  "loadM a = getM (\<lambda>s. load32 (mem s) a)"

definition storeM :: "u32 \<Rightarrow> u32 \<Rightarrow> ('z mst_scheme, unit) kfun" where
  "storeM a w = modM (\<lambda>s. s\<lparr>mem := store32 (mem s) a w\<rparr>)"

definition memsetM :: "u32 \<Rightarrow> u32 \<Rightarrow> u32 \<Rightarrow> ('z mst_scheme, unit) kfun" where
  "memsetM a c n = modM (\<lambda>s. s\<lparr>mem := memset (mem s) a c n\<rparr>)"

definition memmoveM :: "u32 \<Rightarrow> u32 \<Rightarrow> u32 \<Rightarrow> ('z mst_scheme, unit) kfun" where
  "memmoveM dst src n = modM (\<lambda>s. s\<lparr>mem := memmove (mem s) dst src n\<rparr>)"

definition walkpgdir :: "u32 \<Rightarrow> u32 \<Rightarrow> bool \<Rightarrow> ('z mst_scheme, u32) kfun" where
  "walkpgdir pd va alloc =
     (let pde = pd + 4 * PDX va in
      bindM (loadM pde) (\<lambda>e.
      if e AND PTE_P \<noteq> 0 then retM (P2V (PTE_ADDR e) + 4 * PTX va)
      else if \<not> alloc then retM 0
      else bindM kalloc (\<lambda>pgtab.
           if pgtab = 0 then retM 0
           else thenM (memsetM pgtab 0 PGSIZE)
               (thenM (storeM pde (V2P pgtab OR PTE_P OR PTE_W OR PTE_U))
               (retM (pgtab + 4 * PTX va))))))"

text \<open>
  mappages()'s loop runs once per page from \<open>a\<close> up to \<open>last\<close>, wrapping around
  at the end of the address space; there are 2^20 pages.
\<close>

fun mappages_loop :: "nat \<Rightarrow> u32 \<Rightarrow> u32 \<Rightarrow> u32 \<Rightarrow> u32 \<Rightarrow> u32 \<Rightarrow> ('z mst_scheme, int) kfun" where
  "mappages_loop 0 pd a lst pa perm = spinM"
| "mappages_loop (Suc fuel) pd a lst pa perm =
     bindM (walkpgdir pd a True) (\<lambda>pte.
     if pte = 0 then retM (-1)
     else bindM (loadM pte) (\<lambda>e.
          thenM (assertM (e AND PTE_P = 0) ''remap'')
          (thenM (storeM pte (pa OR perm OR PTE_P))
          (if a = lst then retM 0
           else mappages_loop fuel pd (a + PGSIZE) lst (pa + PGSIZE) perm))))"

definition mappages :: "u32 \<Rightarrow> u32 \<Rightarrow> u32 \<Rightarrow> u32 \<Rightarrow> u32 \<Rightarrow> ('z mst_scheme, int) kfun" where
  "mappages pd va sze pa perm =
     mappages_loop (2 ^ 20) pd (PGROUNDDOWN va) (PGROUNDDOWN (va + sze - 1)) pa perm"

text \<open>deallocuvm() skips a whole page table's worth of addresses when there is none.\<close>

fun deallocuvm_loop :: "nat \<Rightarrow> u32 \<Rightarrow> u32 \<Rightarrow> u32 \<Rightarrow> ('z mst_scheme, unit) kfun" where
  "deallocuvm_loop 0 pd a oldsz = spinM"
| "deallocuvm_loop (Suc fuel) pd a oldsz =
     (if a < oldsz then
        bindM (walkpgdir pd a False) (\<lambda>pte.
        if pte = 0 then deallocuvm_loop fuel pd (PGADDR (PDX a + 1) 0 0 - PGSIZE + PGSIZE) oldsz
        else bindM (loadM pte) (\<lambda>e.
             thenM (whenM (e AND PTE_P \<noteq> 0)
                      (thenM (assertM (PTE_ADDR e \<noteq> 0) ''kfree'')
                      (thenM (kfree (P2V (PTE_ADDR e)))
                      (storeM pte 0))))
             (deallocuvm_loop fuel pd (a + PGSIZE) oldsz)))
      else skipM)"

definition deallocuvm :: "u32 \<Rightarrow> u32 \<Rightarrow> u32 \<Rightarrow> ('z mst_scheme, u32) kfun" where
  "deallocuvm pd oldsz newsz =
     (if newsz \<ge> oldsz then retM oldsz
      else thenM (deallocuvm_loop (2 ^ 20) pd (PGROUNDUP newsz) oldsz) (retM newsz))"

definition freevm_slot :: "u32 \<Rightarrow> nat \<Rightarrow> ('z mst_scheme, unit) kfun" where
  "freevm_slot pd i =
     bindM (loadM (pd + 4 * of_nat i)) (\<lambda>e.
     whenM (e AND PTE_P \<noteq> 0) (kfree (P2V (PTE_ADDR e))))"

definition freevm :: "u32 \<Rightarrow> ('z mst_scheme, unit) kfun" where
  "freevm pd =
     thenM (assertM (pd \<noteq> 0) ''freevm: no pgdir'')
     (thenM (deallocuvm pd KERNBASE 0)
     (thenM (foreachM [0..<NPDENTRIES] (freevm_slot pd))
     (kfree pd)))"

text \<open>The table kmap: virtual address, physical start and end, permissions.\<close>

definition kmap :: "u32 \<Rightarrow> (u32 \<times> u32 \<times> u32 \<times> u32) list" where
  "kmap data =
     [(KERNBASE, 0, EXTMEM, PTE_W),
      (KERNLINK, V2P KERNLINK, V2P data, 0),
      (data, V2P data, PHYSTOP, PTE_W),
      (DEVSPACE, DEVSPACE, 0, PTE_W)]"

primrec setupkvm_loop :: "u32 \<Rightarrow> (u32 \<times> u32 \<times> u32 \<times> u32) list \<Rightarrow> ('z mst_scheme, u32) kfun" where
  "setupkvm_loop pd [] = retM pd"
| "setupkvm_loop pd (k # ks) =
     (case k of (virt, phys_start, phys_end, perm) \<Rightarrow>
      bindM (mappages pd virt (phys_end - phys_start) phys_start perm) (\<lambda>r.
      if r < 0 then thenM (freevm pd) (retM 0) else setupkvm_loop pd ks))"

definition setupkvm :: "('z vst_scheme, u32) kfun" where
  "setupkvm =
     bindM kalloc (\<lambda>pd.
     if pd = 0 then retM 0
     else thenM (memsetM pd 0 PGSIZE)
         (thenM (assertM (\<not> P2V PHYSTOP > DEVSPACE) ''PHYSTOP too high'')
         (bindM (getM kdata) (\<lambda>data. setupkvm_loop pd (kmap data)))))"

definition switchkvm :: "('z vst_scheme, unit) kfun" where
  "switchkvm = modM (\<lambda>s. s\<lparr>cr3 := V2P (kpgdir s)\<rparr>)"

definition kvmalloc :: "('z vst_scheme, unit) kfun" where
  "kvmalloc = bindM setupkvm (\<lambda>p. thenM (modM (\<lambda>s. s\<lparr>kpgdir := p\<rparr>)) switchkvm)"

text \<open>
  switchuvm(): of the task state only the kernel stack pointer depends on the
  process; the segment descriptors written here are constants.
\<close>

definition switchuvm :: "nat option \<Rightarrow> ('z vst_scheme, unit) kfun" where
  "switchuvm p =
     (case p of None \<Rightarrow> panicM ''switchuvm: no process''
      | Some i \<Rightarrow>
        bindM (getM (\<lambda>s. procs s ! i)) (\<lambda>q.
        thenM (assertM (kstack q \<noteq> 0) ''switchuvm: no kstack'')
        (thenM (assertM (pgdir q \<noteq> 0) ''switchuvm: no pgdir'')
        (thenM (modM (\<lambda>s. s\<lparr>esp0 := kstack q + 4096\<rparr>))
        (modM (\<lambda>s. s\<lparr>cr3 := V2P (pgdir q)\<rparr>))))))"

definition inituvm :: "u32 \<Rightarrow> u32 \<Rightarrow> u32 \<Rightarrow> ('z mst_scheme, unit) kfun" where
  "inituvm pd init n =
     thenM (assertM (\<not> n \<ge> PGSIZE) ''inituvm: more than a page'')
     (bindM kalloc (\<lambda>pg.
     thenM (requireM (pg \<noteq> 0) ''inituvm: memset of null'')
     (thenM (memsetM pg 0 PGSIZE)
     (thenM (mappages pd 0 PGSIZE (V2P pg) (PTE_W OR PTE_U))
     (memmoveM pg init n)))))"

text \<open>
  The messages that allocuvm() prints when it fails are left out: the console is
  a part of the state that this component does not have, and cprintf() changes
  nothing but the screen and the serial line (Diag.thy).
\<close>

fun allocuvm_loop :: "nat \<Rightarrow> u32 \<Rightarrow> u32 \<Rightarrow> u32 \<Rightarrow> u32 \<Rightarrow> ('z mst_scheme, u32) kfun" where
  "allocuvm_loop 0 pd a oldsz newsz = spinM"
| "allocuvm_loop (Suc fuel) pd a oldsz newsz =
     (if a < newsz then
        bindM kalloc (\<lambda>pg.
        if pg = 0 then thenM (deallocuvm pd newsz oldsz) (retM 0)
        else thenM (memsetM pg 0 PGSIZE)
            (bindM (mappages pd a PGSIZE (V2P pg) (PTE_W OR PTE_U)) (\<lambda>r.
             if r < 0 then thenM (deallocuvm pd newsz oldsz) (thenM (kfree pg) (retM 0))
             else allocuvm_loop fuel pd (a + PGSIZE) oldsz newsz)))
      else retM newsz)"

definition allocuvm :: "u32 \<Rightarrow> u32 \<Rightarrow> u32 \<Rightarrow> ('z mst_scheme, u32) kfun" where
  "allocuvm pd oldsz newsz =
     (if newsz \<ge> KERNBASE then retM 0
      else if newsz < oldsz then retM oldsz
      else allocuvm_loop (2 ^ 20) pd (PGROUNDUP oldsz) oldsz newsz)"

definition clearpteu :: "u32 \<Rightarrow> u32 \<Rightarrow> ('z mst_scheme, unit) kfun" where
  "clearpteu pd uva =
     bindM (walkpgdir pd uva False) (\<lambda>pte.
     thenM (assertM (pte \<noteq> 0) ''clearpteu'')
     (bindM (loadM pte) (\<lambda>e. storeM pte (e AND NOT PTE_U))))"

fun copyuvm_loop :: "nat \<Rightarrow> u32 \<Rightarrow> u32 \<Rightarrow> u32 \<Rightarrow> u32 \<Rightarrow> ('z mst_scheme, u32) kfun" where
  "copyuvm_loop 0 pd d i n = spinM"
| "copyuvm_loop (Suc fuel) pd d i n =
     (if i < n then
        bindM (walkpgdir pd i False) (\<lambda>pte.
        thenM (assertM (pte \<noteq> 0) ''copyuvm: pte should exist'')
        (bindM (loadM pte) (\<lambda>e.
        thenM (assertM (e AND PTE_P \<noteq> 0) ''copyuvm: page not present'')
        (bindM kalloc (\<lambda>pg.
        if pg = 0 then thenM (freevm d) (retM 0)
        else thenM (memmoveM pg (P2V (PTE_ADDR e)) PGSIZE)
            (bindM (mappages d i PGSIZE (V2P pg) (PTE_FLAGS e)) (\<lambda>r.
             if r < 0 then thenM (kfree pg) (thenM (freevm d) (retM 0))
             else copyuvm_loop fuel pd d (i + PGSIZE) n)))))))
      else retM d)"

definition copyuvm :: "u32 \<Rightarrow> u32 \<Rightarrow> ('z vst_scheme, u32) kfun" where
  "copyuvm pd n =
     bindM setupkvm (\<lambda>d. if d = 0 then retM 0 else copyuvm_loop (2 ^ 20 + 1) pd d 0 n)"

text \<open>uva2ka() does not test the entry pointer it gets from walkpgdir().\<close>

definition uva2ka :: "u32 \<Rightarrow> u32 \<Rightarrow> ('z mst_scheme, u32) kfun" where
  "uva2ka pd uva =
     bindM (walkpgdir pd uva False) (\<lambda>pte.
     thenM (requireM (pte \<noteq> 0) ''uva2ka: null pte'')
     (bindM (loadM pte) (\<lambda>e.
      if e AND PTE_P = 0 then retM 0
      else if e AND PTE_U = 0 then retM 0
      else retM (P2V (PTE_ADDR e)))))"

fun copyout_loop :: "nat \<Rightarrow> u32 \<Rightarrow> u32 \<Rightarrow> u32 \<Rightarrow> u32 \<Rightarrow> ('z mst_scheme, int) kfun" where
  "copyout_loop 0 pd va buf len = spinM"
| "copyout_loop (Suc fuel) pd va buf len =
     (if len > 0 then
        (let va0 = PGROUNDDOWN va in
         bindM (uva2ka pd va0) (\<lambda>pa0.
         if pa0 = 0 then retM (-1)
         else (let n = min (PGSIZE - (va - va0)) len in
               thenM (memmoveM (pa0 + (va - va0)) buf n)
               (copyout_loop fuel pd (va0 + PGSIZE) (buf + n) (len - n)))))
      else retM 0)"

definition copyout :: "u32 \<Rightarrow> u32 \<Rightarrow> u32 \<Rightarrow> u32 \<Rightarrow> ('z mst_scheme, int) kfun" where
  "copyout pd va p len = copyout_loop (2 ^ 20 + 2) pd va p len"

section \<open>Words of a page\<close>

lemma loadM_apply [kcode]: "loadM a s = Ok (load32 (mem s) a) s"
  by (simp add: loadM_def kcode)

lemma storeM_apply [kcode]: "storeM a w s = Ok () (s\<lparr>mem := store32 (mem s) a w\<rparr>)"
  by (simp add: storeM_def kcode)

lemma memsetM_apply [kcode]: "memsetM a c n s = Ok () (s\<lparr>mem := memset (mem s) a c n\<rparr>)"
  by (simp add: memsetM_def kcode)

lemma memmoveM_apply [kcode]: "memmoveM d a n s = Ok () (s\<lparr>mem := memmove (mem s) d a n\<rparr>)"
  by (simp add: memmoveM_def kcode)

lemma upd_swap: "s\<lparr>freelist := fl, mem := m\<rparr> = s\<lparr>mem := m, freelist := fl\<rparr>"
  by simp

text \<open>\<open>memonly s t\<close>: the states differ in memory and in the head of the free list at most.\<close>

definition memonly :: "'z mst_scheme \<Rightarrow> 'z mst_scheme \<Rightarrow> bool" where
  "memonly s t \<longleftrightarrow> (\<exists>m fl. t = s\<lparr>mem := m, freelist := fl\<rparr>)"

lemma memonly_upd [simp]:
  "memonly s s" "memonly s (s\<lparr>mem := m\<rparr>)" "memonly s (s\<lparr>freelist := fl\<rparr>)"
  "memonly s (s\<lparr>mem := m, freelist := fl\<rparr>)" "memonly s (s\<lparr>freelist := fl, mem := m\<rparr>)"
proof -
  have u: "memonly s (s\<lparr>mem := m, freelist := fl\<rparr>)" for m fl unfolding memonly_def by blast
  show "memonly s (s\<lparr>mem := m, freelist := fl\<rparr>)" by (rule u)
  show "memonly s (s\<lparr>freelist := fl, mem := m\<rparr>)" using u by (simp add: upd_swap)
  show "memonly s s" "memonly s (s\<lparr>mem := m\<rparr>)" "memonly s (s\<lparr>freelist := fl\<rparr>)"
    using u [where m = "mem s" and fl = "freelist s"] u [where fl = "freelist s"] u [where m = "mem s"] by simp_all
qed

lemma memonly_trans: "memonly s t \<Longrightarrow> memonly t u \<Longrightarrow> memonly s u"
proof -
  assume "memonly s t" "memonly t u"
  then obtain m fl where "u = s\<lparr>mem := m, freelist := fl\<rparr>" by (auto simp: memonly_def)
  then show ?thesis unfolding memonly_def by blast
qed

lemma memonlyD: "memonly s t \<Longrightarrow> kend t = kend s" "memonly s t \<Longrightarrow> allocatable t = allocatable s"
  by (auto simp: memonly_def allocatable_def fun_eq_iff)

text \<open>The entry \<open>k\<close> of the table in page \<open>p\<close>.\<close>

definition ent :: "mem \<Rightarrow> u32 \<Rightarrow> u32 \<Rightarrow> u32" where
  "ent m p k = load32 m (p + 4 * k)"

lemma ent_zero [simp]: "ent (\<lambda>_. 0) p k = 0"
  by (simp add: ent_def load32_def le32_dec_def)

lemma ent_addr_unat: "page p \<Longrightarrow> k < 1024 \<Longrightarrow> unat (p + 4 * k) = unat p + 4 * unat k"
  using page_bound [of p] by (simp add: unat_word_ariths word_less_nat_alt)

lemma in_range_4: "unat a mod 4 = 0 \<Longrightarrow> in_range a 4 z \<longleftrightarrow> unat z div 4 = unat a div 4"
proof -
  assume a: "unat a mod 4 = 0"
  then obtain k where k: "unat a = 4 * k" by auto
  have lt: "4 * k < 2 ^ 32" using unat_u32 [of a] k by simp
  then have "k \<le> 1073741823" by simp
  then have le: "4 * k \<le> 2 ^ 32 - 4" by simp
  show ?thesis
  proof (cases "a \<le> z")
    case True
    then have "unat (z - a) = unat z - unat a" "unat a \<le> unat z"
      by (simp_all add: unat_sub word_le_nat_alt)
    then show ?thesis using k by (auto simp: in_range_def)
  next
    case False
    then have "z < a" by simp
    then have "unat (z - a) = 2 ^ 32 - (unat a - unat z)" and "unat z < unat a"
      by (simp_all add: unat_diff_wrap word_less_nat_alt)
    then show ?thesis using k le by (auto simp: in_range_def)
  qed
qed

lemma in_range_ent:
  assumes "page p" "k < 1024"
  shows "in_range (p + 4 * k) 4 z \<longleftrightarrow> unat z div 4 = unat p div 4 + unat k"
proof -
  obtain q where "unat p = 4096 * q" using assms by (auto simp: page_mult)
  then show ?thesis
    using assms by (simp add: in_range_4 ent_addr_unat)
qed

lemma ent_in_page: "page p \<Longrightarrow> k < 1024 \<Longrightarrow> in_range (p + 4 * k) 4 z \<Longrightarrow> PGROUNDDOWN z = p"
proof -
  assume p: "page p" and k: "k < 1024" and r: "in_range (p + 4 * k) 4 z"
  obtain q where q: "unat p = 4096 * q" using p by (auto simp: page_mult)
  have "unat z div 4 = 1024 * q + unat k" using r q by (simp add: in_range_ent p k)
  moreover have "unat k < 1024" using k by (simp add: word_less_nat_alt)
  ultimately have "unat z div 4096 = q" by linarith
  then have "unat (PGROUNDDOWN z) = unat p" using q by (simp add: PGROUNDDOWN_unat)
  then show ?thesis by (rule unsigned_word_eqI)
qed

lemma store32_page: "page p \<Longrightarrow> k < 1024 \<Longrightarrow> PGROUNDDOWN z \<noteq> p \<Longrightarrow> store32 m (p + 4 * k) w z = m z"
  using ent_in_page [of p k z] by (auto intro: store32_other)

lemma ent_cong:
  "page p \<Longrightarrow> k < 1024 \<Longrightarrow> (\<And>z. PGROUNDDOWN z = p \<Longrightarrow> m z = m' z) \<Longrightarrow> ent m p k = ent m' p k"
  unfolding ent_def by (rule load32_cong) (use ent_in_page in blast)

lemma ent_store:
  assumes "page p" "k < 1024" "page q" "j < 1024"
  shows "ent (store32 m (p + 4 * k) w) q j = (if q = p \<and> j = k then w else ent m q j)"
proof (cases "q = p \<and> j = k")
  case False
  have "ent (store32 m (p + 4 * k) w) q j = ent m q j" unfolding ent_def
  proof (rule load32_cong, rule store32_other)
    fix z assume z: "in_range (q + 4 * j) 4 z"
    show "\<not> in_range (p + 4 * k) 4 z"
    proof (cases "q = p")
      case True
      then have "unat j \<noteq> unat k" using False by (metis unsigned_word_eqI)
      then show ?thesis using z True assms by (simp add: in_range_ent)
    next
      case False
      then show ?thesis using z assms ent_in_page by metis
    qed
  qed
  then show ?thesis using False by auto
qed (simp add: ent_def)

lemma memset_page_other: "page p \<Longrightarrow> PGROUNDDOWN z \<noteq> p \<Longrightarrow> memset m p c PGSIZE z = m z"
  by (simp add: memset_eq in_page)

lemma memset_page_in: "page p \<Longrightarrow> PGROUNDDOWN z = p \<Longrightarrow> memset m p 0 PGSIZE z = 0"
  by (simp add: memset_eq in_page)

lemma ent_memset_other: "page p \<Longrightarrow> page q \<Longrightarrow> j < 1024 \<Longrightarrow> q \<noteq> p \<Longrightarrow> ent (memset m p c PGSIZE) q j = ent m q j"
  by (rule ent_cong) (auto simp: memset_page_other)

lemma ent_memset_zero: "page p \<Longrightarrow> j < 1024 \<Longrightarrow> ent (memset m p 0 PGSIZE) p j = 0"
proof -
  assume p: "page p" "j < 1024"
  have "ent (memset m p 0 PGSIZE) p j = ent (\<lambda>_. 0) p j"
    by (rule ent_cong) (auto simp: memset_page_in p)
  then show ?thesis by simp
qed

section \<open>A page table as a function from addresses to entries\<close>

definition present :: "u32 \<Rightarrow> bool" where
  "present e \<longleftrightarrow> e AND PTE_P \<noteq> 0"

definition pde :: "mem \<Rightarrow> u32 \<Rightarrow> u32 \<Rightarrow> u32" where
  "pde m pd va = ent m pd (PDX va)"

definition ptab :: "mem \<Rightarrow> u32 \<Rightarrow> u32 \<Rightarrow> u32" where
  "ptab m pd va = P2V (PTE_ADDR (pde m pd va))"

definition pte :: "mem \<Rightarrow> u32 \<Rightarrow> u32 \<Rightarrow> u32" where
  "pte m pd va = (if present (pde m pd va) then ent m (ptab m pd va) (PTX va) else 0)"

definition pt_pages :: "mem \<Rightarrow> u32 \<Rightarrow> u32 set" where
  "pt_pages m pd = insert pd {ptab m pd va | va. present (pde m pd va)}"

text \<open>
  \<open>pt_ok s pd xs\<close>: the page directory and the page tables it refers to are
  different pages of the allocator, none of them on the free list \<open>xs\<close>.
\<close>

definition pt_sep :: "mem \<Rightarrow> u32 \<Rightarrow> bool" where
  "pt_sep m pd \<longleftrightarrow> (\<forall>va. present (pde m pd va) \<longrightarrow> ptab m pd va \<noteq> pd)
     \<and> (\<forall>va vb. present (pde m pd va) \<longrightarrow> present (pde m pd vb) \<longrightarrow>
           ptab m pd va = ptab m pd vb \<longrightarrow> PDX va = PDX vb)"

definition pt_ok :: "'z mst_scheme \<Rightarrow> u32 \<Rightarrow> u32 list \<Rightarrow> bool" where
  "pt_ok s pd xs \<longleftrightarrow> kmem_ok s xs \<and> pt_sep (mem s) pd
     \<and> (\<forall>p \<in> pt_pages (mem s) pd. allocatable s p \<and> p \<notin> set xs)"

lemma PDX_less [simp]: "PDX va < 1024"
proof -
  have "PDX va \<le> 0x3FF" unfolding PDX_def by (rule word_and_le1)
  then show ?thesis by (rule le_less_trans) simp
qed

lemma PTX_less [simp]: "PTX va < 1024"
proof -
  have "PTX va \<le> 0x3FF" unfolding PTX_def by (rule word_and_le1)
  then show ?thesis by (rule le_less_trans) simp
qed

lemma mask10: "(0x3FF :: u32) = mask 10" by (simp add: mask_eq_exp_minus_1)
lemma mask12: "(0xFFF :: u32) = mask 12" by (simp add: mask_eq_exp_minus_1)

lemma same_page: "PDX v = PDX a \<and> PTX v = PTX a \<longleftrightarrow> PGROUNDDOWN v = PGROUNDDOWN a"
proof
  assume h: "PDX v = PDX a \<and> PTX v = PTX a"
  show "PGROUNDDOWN v = PGROUNDDOWN a"
  proof (rule bit_word_eqI)
    fix n :: nat assume n: "n < LENGTH(32)"
    have "bit (PDX v) (n - 22) = bit (PDX a) (n - 22)" "bit (PTX v) (n - 12) = bit (PTX a) (n - 12)"
      using h by simp_all
    then show "bit (PGROUNDDOWN v) n = bit (PGROUNDDOWN a) n"
      using n by (cases "n < 12"; cases "n < 22")
        (auto simp: PDX_def PTX_def PGROUNDDOWN_def mask10 mask12 bit_simps)
  qed
next
  assume h: "PGROUNDDOWN v = PGROUNDDOWN a"
  have b: "bit v n = bit a n" if "12 \<le> n" for n
  proof -
    have "bit (PGROUNDDOWN v) n = bit (PGROUNDDOWN a) n" using h by simp
    then show ?thesis
      using that by (cases "n < 32") (auto simp: PGROUNDDOWN_def mask12 bit_simps dest: bit_imp_le_length)
  qed
  show "PDX v = PDX a \<and> PTX v = PTX a"
    by (auto intro!: bit_word_eqI simp: PDX_def PTX_def mask10 bit_simps b)
qed

lemma pte_same_page: "PGROUNDDOWN v = PGROUNDDOWN a \<Longrightarrow> pte m pd v = pte m pd a"
  using same_page [of v a] by (simp add: pte_def pde_def ptab_def)

lemma page_bits: "page p \<longleftrightarrow> p AND 0xFFF = 0"
proof -
  have "p AND mask 12 = p mod 2 ^ 12" by (simp only: take_bit_eq_mask [symmetric] take_bit_eq_mod)
  then show ?thesis by (simp add: page_def mask12)
qed

lemma PTE_ADDR_entry: "page pa \<Longrightarrow> perm < 4096 \<Longrightarrow> PTE_ADDR (pa OR perm OR 1) = pa"
  and PTE_FLAGS_entry: "page pa \<Longrightarrow> perm < 4096 \<Longrightarrow> PTE_FLAGS (pa OR perm OR 1) = perm OR 1"
proof -
  assume p: "page pa" and q: "perm < 4096"
  have lo: "12 \<le> n" if "bit pa n" for n
  proof (rule ccontr)
    assume "\<not> 12 \<le> n"
    moreover have "bit (pa AND mask 12) n = bit (0 :: u32) n" using p by (simp add: page_bits mask12)
    ultimately show False using that by (auto simp: bit_simps)
  qed
  have "unat (take_bit 12 perm) = unat perm"
    using q by (simp add: take_bit_eq_mod unat_mod word_less_nat_alt)
  then have "perm = take_bit 12 perm" by (metis unsigned_word_eqI)
  then have hi: "n < 12" if "bit perm n" for n
    using that by (metis bit_take_bit_iff)
  show "PTE_ADDR (pa OR perm OR 1) = pa"
    by (rule bit_word_eqI) (use lo hi in \<open>auto simp: PTE_ADDR_def mask12 bit_simps dest: lo hi\<close>)
  show "PTE_FLAGS (pa OR perm OR 1) = perm OR 1"
    by (rule bit_word_eqI) (use lo hi in \<open>auto simp: PTE_FLAGS_def mask12 bit_simps dest: lo hi\<close>)
qed

lemma present_entry [simp]: "present (pa OR perm OR 1)"
proof -
  have "bit ((pa OR perm OR 1) AND 1) 0" by (simp add: bit_simps)
  then show ?thesis by (auto simp: present_def)
qed

lemma present_0 [simp]: "\<not> present 0" by (simp add: present_def)

lemma page_V2P: "page v \<Longrightarrow> page (V2P v)"
proof -
  assume "page v"
  then obtain k where k: "unat v = 4096 * k" by (auto simp: page_mult)
  have "V2P v = v + 0x80000000" by (simp add: V2P_def)
  then have "unat (V2P v) = (4096 * k + 0x80000000) mod 2 ^ 32"
    using k by (simp add: unat_word_ariths)
  then have "unat (V2P v) mod 4096 = (4096 * k + 4096 * 0x80000) mod 4096"
    by (simp add: mod_mod_cancel)
  then show ?thesis by (simp add: page_unat)
qed

lemma P2V_V2P [simp]: "P2V (V2P v) = v" by (simp add: P2V_def V2P_def)

text \<open>The page table and the free list depend only on the pages they live in.\<close>

lemma kmem_ok_mem:
  assumes "kmem_ok s xs" and "\<And>z. PGROUNDDOWN z \<in> set xs \<Longrightarrow> m' z = mem s z"
  shows "kmem_ok (s\<lparr>mem := m'\<rparr>) xs"
proof -
  have "flist m' (freelist s) xs"
  proof (rule flist_cong)
    show "flist (mem s) (freelist s) xs" using assms(1) by (simp add: kmem_ok_def)
    fix x z assume x: "x \<in> set xs" and z: "in_range x 4 z"
    have "page x" using assms(1) x by (simp add: kmem_ok_def allocatable_def)
    then have "PGROUNDDOWN z = x" using z in_range_mono [of x 4 z 4096] by (simp add: in_page)
    then show "m' z = mem s z" using x assms(2) by simp
  qed
  then show ?thesis using assms(1) by (simp add: kmem_ok_def allocatable_def)
qed

lemma pt_okD:
  assumes "pt_ok s pd xs"
  shows "page pd" "allocatable s pd" "pd \<notin> set xs" "kmem_ok s xs" "pd \<noteq> 0"
    and "present (pde (mem s) pd va) \<Longrightarrow> page (ptab (mem s) pd va)"
    and "present (pde (mem s) pd va) \<Longrightarrow> allocatable s (ptab (mem s) pd va)"
    and "present (pde (mem s) pd va) \<Longrightarrow> ptab (mem s) pd va \<notin> set xs"
    and "present (pde (mem s) pd va) \<Longrightarrow> ptab (mem s) pd va \<noteq> pd"
    and "\<forall>p \<in> pt_pages (mem s) pd. page p"
proof -
  have all: "allocatable s p \<and> p \<notin> set xs" if "p \<in> pt_pages (mem s) pd" for p
    using assms that by (auto simp: pt_ok_def)
  have tab: "ptab (mem s) pd va \<in> pt_pages (mem s) pd" if "present (pde (mem s) pd va)" for va
    using that by (auto simp: pt_pages_def)
  have pd: "pd \<in> pt_pages (mem s) pd" by (simp add: pt_pages_def)
  show "kmem_ok s xs" using assms by (simp add: pt_ok_def)
  then show "pd \<noteq> 0" using all [OF pd] allocatable_nz [of s pd] by (auto simp: kmem_ok_def)
  show "page pd" "allocatable s pd" "pd \<notin> set xs" using all [OF pd] by (auto simp: allocatable_def)
  show "present (pde (mem s) pd va) \<Longrightarrow> page (ptab (mem s) pd va)"
    "present (pde (mem s) pd va) \<Longrightarrow> allocatable s (ptab (mem s) pd va)"
    "present (pde (mem s) pd va) \<Longrightarrow> ptab (mem s) pd va \<notin> set xs"
    "present (pde (mem s) pd va) \<Longrightarrow> ptab (mem s) pd va \<noteq> pd"
    using all [OF tab, of va] assms by (auto simp: allocatable_def pt_ok_def pt_sep_def)
  show "\<forall>p \<in> pt_pages (mem s) pd. page p" using all by (auto simp: allocatable_def)
qed

lemma pt_frame:
  assumes "\<And>z. PGROUNDDOWN z \<in> pt_pages m pd \<Longrightarrow> m' z = m z" and "\<forall>p \<in> pt_pages m pd. page p"
  shows "pde m' pd = pde m pd" "ptab m' pd = ptab m pd" "pte m' pd = pte m pd" "pt_pages m' pd = pt_pages m pd"
proof -
  have "page pd" using assms(2) by (simp add: pt_pages_def)
  then show pde: "pde m' pd = pde m pd"
    by (auto simp: pde_def fun_eq_iff pt_pages_def intro!: ent_cong assms)
  then show tab: "ptab m' pd = ptab m pd" by (simp add: ptab_def fun_eq_iff)
  show "pte m' pd = pte m pd"
  proof (rule ext)
    fix va
    show "pte m' pd va = pte m pd va"
    proof (cases "present (pde m pd va)")
      case True
      then have t: "ptab m pd va \<in> pt_pages m pd" by (auto simp: pt_pages_def)
      then have "ent m' (ptab m pd va) (PTX va) = ent m (ptab m pd va) (PTX va)"
        using assms by (intro ent_cong) auto
      then show ?thesis by (simp add: pte_def pde tab)
    qed (simp add: pte_def pde)
  qed
  show "pt_pages m' pd = pt_pages m pd" by (simp add: pt_pages_def pde tab)
qed

lemma pt_ok_frame:
  assumes ok: "pt_ok s pd xs"
    and m': "\<And>z. PGROUNDDOWN z \<in> pt_pages (mem s) pd \<union> set xs \<Longrightarrow> m' z = mem s z"
  shows "pt_ok (s\<lparr>mem := m'\<rparr>) pd xs"
proof -
  have "\<And>z. PGROUNDDOWN z \<in> pt_pages (mem s) pd \<Longrightarrow> m' z = mem s z" using m' by simp
  note fr = pt_frame [OF this pt_okD(10) [OF ok]]
  have "kmem_ok (s\<lparr>mem := m'\<rparr>) xs" by (rule kmem_ok_mem) (use pt_okD(4) [OF ok] m' in auto)
  moreover have "pt_sep m' pd = pt_sep (mem s) pd" by (simp add: pt_sep_def fr)
  ultimately show ?thesis using ok by (simp add: pt_ok_def fr allocatable_def)
qed

lemma walkpgdir_present:
  "present (pde (mem s) pd va) \<Longrightarrow> walkpgdir pd va al s = Ok (ptab (mem s) pd va + 4 * PTX va) s"
  by (simp add: walkpgdir_def Let_def kcode present_def pde_def ptab_def ent_def)

lemma walkpgdir_absent: "\<not> present (pde (mem s) pd va) \<Longrightarrow> walkpgdir pd va False s = Ok 0 s"
  by (simp add: walkpgdir_def Let_def kcode present_def pde_def ent_def)

lemma pte_slot_nz:
  assumes "pt_ok s pd xs" and "present (pde (mem s) pd va)"
  shows "ptab (mem s) pd va + 4 * PTX va \<noteq> 0"
proof -
  let ?t = "ptab (mem s) pd va"
  have "?t \<noteq> 0" using assms pt_okD(4,7) [OF assms(1)] allocatable_nz by (auto simp: kmem_ok_def)
  then have "0 < unat ?t" by (simp add: unat_gt_0)
  then have "unat (?t + 4 * PTX va) \<noteq> 0" using pt_okD(6) [OF assms] by (simp add: ent_addr_unat)
  then show ?thesis by auto
qed

text \<open>Writing one entry of an existing page table.\<close>

lemma pt_store:
  fixes s :: "'z mst_scheme" and m :: mem and pd va w :: u32
  defines "m \<equiv> mem s"
  assumes ok: "pt_ok s pd xs" and pr: "present (pde m pd va)"
  defines "m' \<equiv> store32 m (ptab m pd va + 4 * PTX va) w"
  shows "pde m' pd = pde m pd" "ptab m' pd = ptab m pd" "pt_pages m' pd = pt_pages m pd"
    and "pte m' pd = (\<lambda>v. if PGROUNDDOWN v = PGROUNDDOWN va then w else pte m pd v)"
    and "pt_ok (s\<lparr>mem := m'\<rparr>) pd xs"
    and "PGROUNDDOWN z \<notin> pt_pages m pd \<Longrightarrow> m' z = m z"
proof -
  note okD = pt_okD [OF ok, folded m_def]
  have p: "page (ptab m pd va)" "page pd" "ptab m pd va \<noteq> pd" using okD pr by auto
  show pde: "pde m' pd = pde m pd"
    by (rule ext) (use p in \<open>simp add: pde_def m'_def ent_store\<close>)
  then show tab: "ptab m' pd = ptab m pd" by (simp add: ptab_def fun_eq_iff)
  then show pgs: "pt_pages m' pd = pt_pages m pd" by (simp add: pt_pages_def pde)
  show "pte m' pd = (\<lambda>v. if PGROUNDDOWN v = PGROUNDDOWN va then w else pte m pd v)"
  proof (rule ext)
    fix v
    have inj: "ptab m pd v = ptab m pd va \<longleftrightarrow> PDX v = PDX va" if "present (pde m pd v)"
      using ok that pr by (auto simp: pt_ok_def pt_sep_def m_def ptab_def pde_def)
    show "pte m' pd v = (if PGROUNDDOWN v = PGROUNDDOWN va then w else pte m pd v)"
    proof (cases "present (pde m pd v)")
      case True
      then have "ent m' (ptab m pd v) (PTX v)
          = (if ptab m pd v = ptab m pd va \<and> PTX v = PTX va then w else ent m (ptab m pd v) (PTX v))"
        using okD(6) [of v] p by (simp add: m'_def ent_store)
      then have "pte m' pd v = (if ptab m pd v = ptab m pd va \<and> PTX v = PTX va then w else pte m pd v)"
        using True by (simp add: pte_def pde tab)
      then show ?thesis using inj [OF True] same_page [of v va] by simp
    next
      case False
      then have "PGROUNDDOWN v \<noteq> PGROUNDDOWN va" using pr same_page [of v va] by (auto simp: pde_def)
      then show ?thesis using False by (simp add: pte_def pde)
    qed
  qed
  have out: "m' z = m z" if "PGROUNDDOWN z \<notin> pt_pages m pd" for z
    using that p pr by (auto simp: m'_def pt_pages_def intro!: store32_page)
  then show "PGROUNDDOWN z \<notin> pt_pages m pd \<Longrightarrow> m' z = m z" .
  have "kmem_ok (s\<lparr>mem := m'\<rparr>) xs"
    using ok okD(4) out by (intro kmem_ok_mem) (auto simp: pt_ok_def m_def)
  moreover have "pt_sep m' pd = pt_sep m pd" by (simp add: pt_sep_def pde tab)
  ultimately show "pt_ok (s\<lparr>mem := m'\<rparr>) pd xs"
    using ok by (simp add: pt_ok_def pgs m_def allocatable_def)
qed

text \<open>walkpgdir() with a page table to allocate: the entries read the same as before.\<close>

lemma walkpgdir_new:
  fixes s :: "'z mst_scheme" and pd va x :: u32 and ys :: "u32 list"
  defines "m \<equiv> mem s"
  assumes ok: "pt_ok s pd (x # ys)" and ab: "\<not> present (pde m pd va)"
  defines "e \<equiv> V2P x OR PTE_P OR PTE_W OR PTE_U"
  defines "m' \<equiv> store32 (memset m x 0 PGSIZE) (pd + 4 * PDX va) e"
  defines "t \<equiv> s\<lparr>freelist := load32 m x, mem := m'\<rparr>"
  shows "walkpgdir pd va True s = Ok (x + 4 * PTX va) t"
    and "present (pde m' pd va)" and "ptab m' pd va = x"
    and "pte m' pd = pte m pd"
    and "pt_pages m' pd = insert x (pt_pages m pd)"
    and "pt_ok t pd ys"
    and "PGROUNDDOWN z \<noteq> x \<Longrightarrow> PGROUNDDOWN z \<noteq> pd \<Longrightarrow> m' z = m z"
proof -
  let ?m1 = "memset m x 0 PGSIZE"
  note okD = pt_okD [OF ok, folded m_def]
  have km: "kmem_ok s (x # ys)" by (rule okD)
  have x: "page x" "x \<noteq> pd" "x \<notin> pt_pages m pd" "x \<notin> set ys" "allocatable s x" "x \<noteq> 0"
    using ok km okD(3) allocatable_nz [of s x]
    by (auto simp: pt_ok_def m_def kmem_ok_def allocatable_def)
  have pd: "page pd" by (rule okD)
  have fr: "pde ?m1 pd = pde m pd" "ptab ?m1 pd = ptab m pd" "pte ?m1 pd = pte m pd"
    by (rule pt_frame; use x okD(10) in \<open>auto intro: memset_page_other\<close>)+
  have e: "e = V2P x OR 6 OR 1" by (simp add: e_def)
  have ex: "present e" "P2V (PTE_ADDR e) = x"
    unfolding e using present_entry [of "V2P x" 6] PTE_ADDR_entry [of "V2P x" 6] x by (simp_all add: page_V2P)
  have pde: "pde m' pd v = (if PDX v = PDX va then e else pde m pd v)" for v
    using pd fr(1) by (simp add: pde_def m'_def ent_store fun_eq_iff)
  have tab: "ptab m' pd v = (if PDX v = PDX va then x else ptab m pd v)" for v
    using pde [of v] ex by (simp add: ptab_def)
  have ent: "ent m' q j = ent ?m1 q j" if "page q" "q \<noteq> pd" "j < 1024" for q j
    using that pd by (simp add: m'_def ent_store)
  have ptes: "pte m' pd v = pte m pd v" for v
  proof (cases "PDX v = PDX va")
    case True
    then have "pde m pd v = pde m pd va" by (simp add: pde_def)
    then show ?thesis
      using True ab ex x by (simp add: pte_def pde tab ent ent_memset_zero)
  next
    case False
    then have "pte m' pd v = pte ?m1 pd v"
      using okD(6,9) [of v] by (simp add: pte_def pde tab ent fr(1,2))
    then show ?thesis by (simp add: fr)
  qed
  then show "pte m' pd = pte m pd" by (simp add: fun_eq_iff)
  show "present (pde m' pd va)" "ptab m' pd va = x" by (simp_all add: pde tab ex)
  have ab': "PDX v \<noteq> PDX va" if "present (pde m pd v)" for v
    using that ab by (auto simp: pde_def)
  show pgs: "pt_pages m' pd = insert x (pt_pages m pd)"
    using ab' ex by (force simp: pt_pages_def pde tab split: if_splits)
  have out: "m' z = m z" if "PGROUNDDOWN z \<noteq> x" "PGROUNDDOWN z \<noteq> pd" for z
    using that x pd by (simp add: m'_def store32_page memset_page_other)
  then show "PGROUNDDOWN z \<noteq> x \<Longrightarrow> PGROUNDDOWN z \<noteq> pd \<Longrightarrow> m' z = m z" .
  have "pt_sep m' pd" unfolding pt_sep_def
  proof (intro conjI allI impI)
    fix v assume "present (pde m' pd v)"
    then show "ptab m' pd v \<noteq> pd" using okD(9) [of v] x by (auto simp: pde tab split: if_splits)
  next
    fix v w assume h: "present (pde m' pd v)" "present (pde m' pd w)" "ptab m' pd v = ptab m' pd w"
    have ne: "ptab m pd u \<noteq> x" if "PDX u \<noteq> PDX va" "present (pde m' pd u)" for u
      using that x(3) pde [of u] by (auto simp: pt_pages_def)
    show "PDX v = PDX w"
    proof (cases "PDX v = PDX va \<or> PDX w = PDX va")
      case True
      then show ?thesis using h ne [of v] ne [of w] tab [of v] tab [of w] by metis
    next
      case False
      then have "present (pde m pd v)" "present (pde m pd w)" "ptab m pd v = ptab m pd w"
        using h by (simp_all add: pde tab)
      then show ?thesis using ok unfolding pt_ok_def pt_sep_def m_def by blast
    qed
  qed
  moreover have "kmem_ok (s\<lparr>freelist := load32 m x, mem := m'\<rparr>) ys"
    using kalloc_Cons(2) [OF km] okD(3) x(4) by (intro kmem_ok_mem) (auto simp: m_def intro!: out [unfolded m_def])
  ultimately show "pt_ok t pd ys"
    using ok x by (auto simp: pt_ok_def t_def pgs allocatable_def m_def)
  show "walkpgdir pd va True s = Ok (x + 4 * PTX va) t"
    using ab kalloc_Cons(1) [OF km] x(6)
    by (simp add: walkpgdir_def Let_def kcode present_def pde_def ent_def m_def t_def m'_def e_def)
qed

text \<open>
  Adding entries to a page table takes pages off the front of the free list
  for page tables, and changes memory only in the page table's pages.
\<close>

definition pt_grow :: "u32 \<Rightarrow> 'z mst_scheme \<Rightarrow> u32 list \<Rightarrow> 'z mst_scheme \<Rightarrow> u32 list \<Rightarrow> bool" where
  "pt_grow pd s xs t ys \<longleftrightarrow> pt_ok t pd ys \<and> memonly s t
     \<and> (\<exists>zs. xs = zs @ ys \<and> pt_pages (mem t) pd = pt_pages (mem s) pd \<union> set zs)
     \<and> (\<forall>z. PGROUNDDOWN z \<notin> pt_pages (mem t) pd \<longrightarrow> mem t z = mem s z)"

lemma pt_grow_refl: "pt_ok s pd xs \<Longrightarrow> pt_grow pd s xs s xs"
  by (simp add: pt_grow_def)

lemma pt_grow_trans:
  assumes "pt_grow pd s xs t ys" "pt_grow pd t ys u zs"
  shows "pt_grow pd s xs u zs"
proof -
  have u: "memonly s u" using assms memonly_trans by (auto simp: pt_grow_def)
  obtain as bs where ab: "xs = as @ ys" "pt_pages (mem t) pd = pt_pages (mem s) pd \<union> set as"
      "ys = bs @ zs" "pt_pages (mem u) pd = pt_pages (mem t) pd \<union> set bs"
    using assms by (auto simp: pt_grow_def)
  have "xs = (as @ bs) @ zs" "pt_pages (mem u) pd = pt_pages (mem s) pd \<union> set (as @ bs)"
    using ab by auto
  moreover have "mem u z = mem s z" if "PGROUNDDOWN z \<notin> pt_pages (mem u) pd" for z
    using assms ab(4) that by (auto simp: pt_grow_def)
  ultimately show ?thesis using assms(2) u unfolding pt_grow_def by blast
qed

lemma walkpgdir_grow:
  assumes ok: "pt_ok s pd xs"
  obtains (fail) "walkpgdir pd va True s = Ok 0 s" "xs = []" "\<not> present (pde (mem s) pd va)"
  | (grown) t ys where "walkpgdir pd va True s = Ok (ptab (mem t) pd va + 4 * PTX va) t"
      "present (pde (mem t) pd va)" "pt_grow pd s xs t ys" "pte (mem t) pd = pte (mem s) pd"
proof (cases "present (pde (mem s) pd va)")
  case True
  show ?thesis
    by (rule that(2) [of s xs]) (use True ok in \<open>simp_all add: walkpgdir_present pt_grow_refl\<close>)
next
  case False
  show ?thesis
  proof (cases xs)
    case Nil
    then have "kalloc s = Ok 0 s" using pt_okD(4) [OF ok] by (simp add: kalloc_Nil)
    then have "walkpgdir pd va True s = Ok 0 s"
      using False by (simp add: walkpgdir_def Let_def kcode present_def pde_def ent_def)
    then show ?thesis using Nil False that(1) by blast
  next
    case (Cons x ys)
    note new = walkpgdir_new [OF ok [unfolded Cons] False]
    show ?thesis
    proof (rule that(2))
      show "walkpgdir pd va True s = Ok (ptab (mem (s\<lparr>freelist := load32 (mem s) x,
          mem := store32 (memset (mem s) x 0 PGSIZE) (pd + 4 * PDX va)
            (V2P x OR PTE_P OR PTE_W OR PTE_U)\<rparr>)) pd va + 4 * PTX va)
          (s\<lparr>freelist := load32 (mem s) x, mem := store32 (memset (mem s) x 0 PGSIZE) (pd + 4 * PDX va)
            (V2P x OR PTE_P OR PTE_W OR PTE_U)\<rparr>)" (is "_ = Ok _ ?t")
        using new(1,3) by simp
      show "pt_grow pd s xs ?t ys"
      proof -
        have "xs = [x] @ ys \<and> pt_pages (mem ?t) pd = pt_pages (mem s) pd \<union> set [x]"
          using new(5) Cons by auto
        moreover have "mem ?t z = mem s z" if "PGROUNDDOWN z \<notin> pt_pages (mem ?t) pd" for z
          using that new(5) new(7) [of z] by (auto simp: pt_pages_def [of "mem s"])
        moreover have "memonly s ?t" by simp
        ultimately show ?thesis using new(6) unfolding pt_grow_def by blast
      qed
    qed (use new(2,4) in simp_all)
  qed
qed

text \<open>One turn of mappages()'s loop.\<close>

lemma map_one:
  assumes ok: "pt_ok s pd xs" and np: "\<not> present (pte (mem s) pd a)"
  obtains (fail) "mappages_loop (Suc n) pd a lst pa perm s = Ok (-1) s" "xs = []"
  | (grown) t ys where "pt_grow pd s xs t ys"
      "pte (mem t) pd = (\<lambda>v. if PGROUNDDOWN v = PGROUNDDOWN a then pa OR perm OR 1 else pte (mem s) pd v)"
      "mappages_loop (Suc n) pd a lst pa perm s
         = (if a = lst then Ok 0 t else mappages_loop n pd (a + PGSIZE) lst (pa + PGSIZE) perm t)"
  using ok
proof (cases rule: walkpgdir_grow [where va = a, consumes 1, case_names fail grown])
  case fail
  then show ?thesis using that(1) by (simp add: kcode)
next
  case (grown t ys)
  have pok: "pt_ok t pd ys" using grown(3) by (simp add: pt_grow_def)
  define u where "u = t\<lparr>mem := store32 (mem t) (ptab (mem t) pd a + 4 * PTX a) (pa OR perm OR 1)\<rparr>"
  note st = pt_store [OF pok grown(2), where w = "pa OR perm OR 1"]
  have "load32 (mem t) (ptab (mem t) pd a + 4 * PTX a) = pte (mem t) pd a"
    using grown(2) by (simp add: pte_def ent_def)
  then have e: "load32 (mem t) (ptab (mem t) pd a + 4 * PTX a) AND PTE_P = 0"
    using np grown(4) by (simp add: present_def)
  have g: "pt_grow pd t ys u ys"
    unfolding pt_grow_def u_def using st(5,6) by (auto simp: st(3))
  show ?thesis
  proof (rule that(2))
    show "pt_grow pd s xs u ys" using grown(3) g by (rule pt_grow_trans)
    show "pte (mem u) pd = (\<lambda>v. if PGROUNDDOWN v = PGROUNDDOWN a then pa OR perm OR 1 else pte (mem s) pd v)"
      using st(4) unfolding grown(4) by (simp add: u_def)
    show "mappages_loop (Suc n) pd a lst pa perm s
        = (if a = lst then Ok 0 u else mappages_loop n pd (a + PGSIZE) lst (pa + PGSIZE) perm u)"
      using grown(1) e pte_slot_nz [OF pok grown(2)] by (simp add: kcode u_def)
  qed
qed

section \<open>User memory\<close>

text \<open>
  The page user address \<open>a\<close> is mapped to, the pages an address space with the
  user pages \<open>S\<close> is made of, and its invariant: exactly the pages of \<open>S\<close> are
  mapped below KERNBASE, each to a page of its own that is neither free nor
  part of the page table.
\<close>

definition upage :: "mem \<Rightarrow> u32 \<Rightarrow> u32 \<Rightarrow> u32" where
  "upage m pd a = P2V (PTE_ADDR (pte m pd a))"

definition owned :: "mem \<Rightarrow> u32 \<Rightarrow> u32 set \<Rightarrow> u32 set" where
  "owned m pd S = pt_pages m pd \<union> upage m pd ` S"

lemma ownedI: "p \<in> pt_pages m pd \<Longrightarrow> p \<in> owned m pd S" "a \<in> S \<Longrightarrow> upage m pd a \<in> owned m pd S"
  by (simp_all add: owned_def)

definition uvm_ok :: "'z mst_scheme \<Rightarrow> u32 \<Rightarrow> u32 list \<Rightarrow> u32 set \<Rightarrow> bool" where
  "uvm_ok s pd xs S \<longleftrightarrow> pt_ok s pd xs \<and> KERNBASE < kend s
     \<and> (\<forall>a. page a \<longrightarrow> a < KERNBASE \<longrightarrow> (present (pte (mem s) pd a) \<longleftrightarrow> a \<in> S))
     \<and> (\<forall>a \<in> S. page a \<and> a < KERNBASE \<and> allocatable s (upage (mem s) pd a)
            \<and> upage (mem s) pd a \<notin> set xs \<and> upage (mem s) pd a \<notin> pt_pages (mem s) pd)
     \<and> inj_on (upage (mem s) pd) S"

text \<open>\<open>umatch s t pd S\<close>: the pages of \<open>S\<close> are mapped alike in \<open>s\<close> and \<open>t\<close> and hold the same bytes.\<close>

definition umatch :: "'z mst_scheme \<Rightarrow> 'z mst_scheme \<Rightarrow> u32 \<Rightarrow> u32 set \<Rightarrow> bool" where
  "umatch s t pd S \<longleftrightarrow> (\<forall>a \<in> S. pte (mem t) pd a = pte (mem s) pd a
     \<and> (\<forall>z. PGROUNDDOWN z = upage (mem s) pd a \<longrightarrow> mem t z = mem s z))"

lemma umatch_refl [simp]: "umatch s s pd S" by (simp add: umatch_def)

lemma umatch_trans: "umatch s t pd S \<Longrightarrow> umatch t u pd S \<Longrightarrow> umatch s u pd S"
  by (auto simp: umatch_def upage_def)

lemma umatch_mono: "umatch s t pd S \<Longrightarrow> T \<subseteq> S \<Longrightarrow> umatch s t pd T"
  by (auto simp: umatch_def)

text \<open>Writing a page the address space does not own.\<close>

lemma uvm_ok_frame:
  assumes ok: "uvm_ok s pd xs S"
    and m': "\<And>z. PGROUNDDOWN z \<in> owned (mem s) pd S \<union> set xs \<Longrightarrow> m' z = mem s z"
  shows "uvm_ok (s\<lparr>mem := m'\<rparr>) pd xs S" "owned m' pd S = owned (mem s) pd S"
    and "umatch s (s\<lparr>mem := m'\<rparr>) pd S" "pte m' pd = pte (mem s) pd"
proof -
  have pok: "pt_ok s pd xs" using ok by (simp add: uvm_ok_def)
  have "\<And>z. PGROUNDDOWN z \<in> pt_pages (mem s) pd \<Longrightarrow> m' z = mem s z" using m' by (simp add: owned_def)
  note fr = pt_frame [OF this pt_okD(10) [OF pok]]
  then have up: "upage m' pd = upage (mem s) pd" by (simp add: upage_def fun_eq_iff)
  have "pt_ok (s\<lparr>mem := m'\<rparr>) pd xs" by (rule pt_ok_frame [OF pok]) (use m' in \<open>auto simp: owned_def\<close>)
  then show "uvm_ok (s\<lparr>mem := m'\<rparr>) pd xs S"
    using ok by (simp add: uvm_ok_def fr up allocatable_def)
  show "owned m' pd S = owned (mem s) pd S" by (simp add: owned_def fr up)
  show "umatch s (s\<lparr>mem := m'\<rparr>) pd S" using m' by (auto simp: umatch_def fr owned_def)
  show "pte m' pd = pte (mem s) pd" by (rule fr)
qed

text \<open>Taking a page off the free list, and putting one back that nothing uses.\<close>

lemma uvm_ok_kalloc:
  assumes ok: "uvm_ok s pd (x # xs) S"
  defines "t \<equiv> s\<lparr>freelist := load32 (mem s) x\<rparr>"
  shows "kalloc s = Ok x t" "uvm_ok t pd xs S" "allocatable s x" "x \<noteq> 0"
    and "x \<notin> owned (mem s) pd S" "x \<notin> set xs"
proof -
  have pok: "pt_ok s pd (x # xs)" and km: "kmem_ok s (x # xs)"
    using ok by (simp_all add: uvm_ok_def pt_ok_def)
  note k = kalloc_Cons [OF km]
  show "kalloc s = Ok x t" using k by (simp add: t_def)
  show "uvm_ok t pd xs S" using ok k(2) by (auto simp: uvm_ok_def pt_ok_def t_def allocatable_def)
  show "allocatable s x" "x \<notin> set xs" using km by (auto simp: kmem_ok_def)
  then show "x \<noteq> 0" using km allocatable_nz by (auto simp: kmem_ok_def)
  show "x \<notin> owned (mem s) pd S" using ok by (auto simp: uvm_ok_def pt_ok_def owned_def)
qed

lemma uvm_ok_kfree:
  assumes ok: "uvm_ok s pd xs S" and x: "allocatable s x" "x \<notin> set xs" "x \<notin> owned (mem s) pd S"
  defines "t \<equiv> s\<lparr>mem := freed (mem s) x (freelist s), freelist := x\<rparr>"
  shows "kfree x s = Ok () t" "uvm_ok t pd (x # xs) S" "umatch s t pd S"
    and "owned (mem t) pd S = owned (mem s) pd S" "pte (mem t) pd = pte (mem s) pd"
proof -
  let ?m = "freed (mem s) x (freelist s)"
  have km: "kmem_ok s xs" using ok by (simp add: uvm_ok_def pt_ok_def)
  show "kfree x s = Ok () t" using km x by (simp add: kfree_eq kmem_ok_def t_def)
  have px: "page x" using x by (simp add: allocatable_def)
  have out: "?m z = mem s z" if "PGROUNDDOWN z \<noteq> x" for z
    using that px by (intro freed_other) (simp_all add: in_page)
  have "?m z = mem s z" if "PGROUNDDOWN z \<in> owned (mem s) pd S \<union> set xs" for z
    by (rule out) (use that x in auto)
  note u = uvm_ok_frame [OF ok this]
  have "kmem_ok t (x # xs)" unfolding t_def by (rule kmem_ok_kfree) (use km x in simp_all)
  moreover have "x \<notin> owned ?m pd S" using u(2) x by simp
  then have "x \<notin> pt_pages ?m pd" "\<forall>a \<in> S. upage ?m pd a \<noteq> x" by (metis ownedI(1), metis ownedI(2))
  ultimately show "uvm_ok t pd (x # xs) S"
    using u(1) x by (auto simp: uvm_ok_def pt_ok_def t_def allocatable_def)
  show "umatch s t pd S" using u(3) by (simp add: umatch_def t_def)
  show "owned (mem t) pd S = owned (mem s) pd S" "pte (mem t) pd = pte (mem s) pd"
    using u by (simp_all add: t_def)
qed

text \<open>Clearing the entry of a mapped page releases the page from the address space.\<close>

lemma uvm_ok_clear:
  assumes ok: "uvm_ok s pd xs S" and a: "a \<in> S"
  defines "t \<equiv> s\<lparr>mem := store32 (mem s) (ptab (mem s) pd a + 4 * PTX a) 0\<rparr>"
  shows "uvm_ok t pd xs (S - {a})" "umatch s t pd (S - {a})"
    and "owned (mem t) pd (S - {a}) = owned (mem s) pd S - {upage (mem s) pd a}"
    and "pt_pages (mem t) pd = pt_pages (mem s) pd" "upage (mem s) pd a \<notin> owned (mem t) pd (S - {a})"
proof -
  have pok: "pt_ok s pd xs" using ok by (simp add: uvm_ok_def)
  have S: "page b" if "b \<in> S" for b using ok that by (simp add: uvm_ok_def)
  have pr: "present (pde (mem s) pd a)"
  proof -
    have "present (pte (mem s) pd a)" using ok a by (auto simp: uvm_ok_def)
    then show ?thesis by (auto simp: pte_def split: if_splits)
  qed
  note st = pt_store [OF pok pr, where w = 0]
  have pte: "pte (mem t) pd b = (if PGROUNDDOWN b = a then 0 else pte (mem s) pd b)" for b
    using st(4) S [OF a] by (simp add: t_def PGROUNDDOWN_page)
  have pteb: "pte (mem t) pd b = (if b = a then 0 else pte (mem s) pd b)" if "page b" for b
    using pte [of b] that by (simp add: PGROUNDDOWN_page)
  have up: "upage (mem t) pd b = upage (mem s) pd b" if "b \<in> S - {a}" for b
    using that S [of b] by (simp add: upage_def pteb)
  have pok': "pt_ok t pd xs" and pgs: "pt_pages (mem t) pd = pt_pages (mem s) pd"
    using st(3,5) by (simp_all add: t_def)
  show "pt_pages (mem t) pd = pt_pages (mem s) pd" by (rule pgs)
  have kt: "kend t = kend s" "allocatable t = allocatable s" by (simp_all add: t_def allocatable_def fun_eq_iff)
  have inj: "inj_on (upage (mem t) pd) (S - {a})"
    using ok up by (auto simp: uvm_ok_def inj_on_def)
  show "uvm_ok t pd xs (S - {a})"
    using ok pok' inj up kt by (auto simp: uvm_ok_def pteb pgs)
  show "umatch s t pd (S - {a})"
  proof -
    have "mem t z = mem s z" if "b \<in> S" "PGROUNDDOWN z = upage (mem s) pd b" for b z
      using that st(6) [of z] ok by (auto simp: t_def uvm_ok_def)
    then show ?thesis using S by (auto simp: umatch_def pteb)
  qed
  have un: "upage (mem s) pd a \<notin> pt_pages (mem s) pd" using ok a by (simp add: uvm_ok_def)
  have im: "upage (mem t) pd ` (S - {a}) = upage (mem s) pd ` S - {upage (mem s) pd a}"
  proof -
    have "upage (mem t) pd ` (S - {a}) = upage (mem s) pd ` (S - {a})" using up by simp
    also have "\<dots> = upage (mem s) pd ` S - {upage (mem s) pd a}"
      using ok a inj_on_image_set_diff [of "upage (mem s) pd" S S "{a}"] by (simp add: uvm_ok_def)
    finally show ?thesis .
  qed
  show ow: "owned (mem t) pd (S - {a}) = owned (mem s) pd S - {upage (mem s) pd a}"
    using un by (simp add: owned_def pgs im Un_Diff)
  then show "upage (mem s) pd a \<notin> owned (mem t) pd (S - {a})" by simp
qed

text \<open>
  What growing and shrinking an address space keep: from user pages \<open>S\<close> and
  free pages \<open>xs\<close> to user pages \<open>T\<close> and free pages \<open>ys\<close>, no page is lost or
  gained, the pages that stay mapped keep their contents, and memory that was
  neither free nor part of the address space is not written.
\<close>

definition uvm_step :: "u32 \<Rightarrow> 'z mst_scheme \<Rightarrow> u32 list \<Rightarrow> u32 set \<Rightarrow> 'z mst_scheme \<Rightarrow> u32 list \<Rightarrow> u32 set \<Rightarrow> bool" where
  "uvm_step pd s xs S t ys T \<longleftrightarrow> uvm_ok t pd ys T \<and> umatch s t pd (S \<inter> T)
     \<and> owned (mem t) pd T \<union> set ys = owned (mem s) pd S \<union> set xs
     \<and> (\<forall>z. PGROUNDDOWN z \<notin> owned (mem s) pd S \<union> set xs \<longrightarrow> mem t z = mem s z)
     \<and> memonly s t"

lemma uvm_step_refl: "uvm_ok s pd xs S \<Longrightarrow> uvm_step pd s xs S s xs S"
  by (simp add: uvm_step_def)

lemma uvm_step_trans:
  assumes "uvm_step pd s xs S t ys T" "uvm_step pd t ys T u zs U" "S \<inter> U \<subseteq> T"
  shows "uvm_step pd s xs S u zs U"
proof -
  have u: "memonly s u" using assms(1,2) memonly_trans by (auto simp: uvm_step_def)
  have "umatch s t pd (S \<inter> U)" "umatch t u pd (S \<inter> U)"
    using assms by (auto simp: uvm_step_def elim!: umatch_mono)
  then have "umatch s u pd (S \<inter> U)" by (rule umatch_trans)
  then show ?thesis using assms(1,2) u by (auto simp: uvm_step_def)
qed

lemma freed_in: "page v \<Longrightarrow> PGROUNDDOWN z = v \<Longrightarrow> freed m v n z = freed m' v n z"
  by (simp add: freed_def store32_def memset_eq in_page)

lemma store32_at: "m z = m' z \<Longrightarrow> store32 m a w z = store32 m' a w z"
  by (simp add: store32_def)

lemma store32_freed:
  assumes "page v" "page t" "t \<noteq> v" "k < 1024"
  shows "store32 (freed m v n) (t + 4 * k) w = freed (store32 m (t + 4 * k) w) v n"
proof
  fix z
  show "store32 (freed m v n) (t + 4 * k) w z = freed (store32 m (t + 4 * k) w) v n z"
  proof (cases "PGROUNDDOWN z = v")
    case True
    then have "store32 (freed m v n) (t + 4 * k) w z = freed m v n z"
      using assms by (intro store32_page) auto
    also have "\<dots> = freed (store32 m (t + 4 * k) w) v n z" using assms True by (intro freed_in)
    finally show ?thesis .
  next
    case False
    then have "freed m' v n z = m' z" for m' using assms by (intro freed_other) (auto simp: in_page)
    then show ?thesis using store32_at [of "freed m v n" z m] by simp
  qed
qed

lemma dealloc_one:
  assumes ok: "uvm_ok s pd xs S" and a: "a \<in> S" "a < hi"
  obtains t where "deallocuvm_loop (Suc n) pd a hi s = deallocuvm_loop n pd (a + PGSIZE) hi t"
    "uvm_step pd s xs S t (upage (mem s) pd a # xs) (S - {a})"
proof -
  let ?v = "upage (mem s) pd a" and ?t = "ptab (mem s) pd a"
  have pok: "pt_ok s pd xs" using ok by (simp add: uvm_ok_def)
  have e: "present (pte (mem s) pd a)" using ok a by (auto simp: uvm_ok_def)
  then have pr: "present (pde (mem s) pd a)" by (auto simp: pte_def split: if_splits)
  then have ld: "load32 (mem s) (?t + 4 * PTX a) = pte (mem s) pd a" by (simp add: pte_def ent_def)
  have v: "allocatable s ?v" "?v \<notin> set xs" "?v \<notin> pt_pages (mem s) pd" "KERNBASE < kend s"
    using ok a by (auto simp: uvm_ok_def)
  have nz: "PTE_ADDR (pte (mem s) pd a) \<noteq> 0"
    using v by (auto simp: upage_def P2V_def allocatable_def)
  have tv: "?t \<noteq> ?v" using v(3) pr by (auto simp: pt_pages_def)
  define u where "u = s\<lparr>mem := store32 (mem s) (?t + 4 * PTX a) 0\<rparr>"
  define w where "w = u\<lparr>mem := freed (mem u) ?v (freelist u), freelist := ?v\<rparr>"
  note cl = uvm_ok_clear [OF ok a(1), folded u_def]
  have au: "allocatable u ?v" using v by (simp add: u_def allocatable_def)
  note fr = uvm_ok_kfree [OF cl(1) au v(2) cl(5), folded w_def]
  have kf: "kfree ?v s = Ok () (s\<lparr>mem := freed (mem s) ?v (freelist s), freelist := ?v\<rparr>)"
    using v pt_okD(4) [OF pok] by (intro kfree_eq) (simp_all add: kmem_ok_def)
  have w: "w = s\<lparr>mem := store32 (freed (mem s) ?v (freelist s)) (?t + 4 * PTX a) 0, freelist := ?v\<rparr>"
    using store32_freed [of ?v ?t "PTX a"] v(1) pt_okD(6) [OF pok pr] tv
    by (simp add: w_def u_def allocatable_def)
  have "deallocuvm_loop (Suc n) pd a hi s = deallocuvm_loop n pd (a + PGSIZE) hi w"
    using a(2) pte_slot_nz [OF pok pr] e nz kf [unfolded upage_def]
    by (simp add: kcode walkpgdir_present [OF pr] ld w present_def upage_def upd_swap)
  moreover have "uvm_step pd s xs S w (?v # xs) (S - {a})" unfolding uvm_step_def
  proof (intro conjI allI impI)
    show "uvm_ok w pd (?v # xs) (S - {a})" by (rule fr)
    show "umatch s w pd (S \<inter> (S - {a}))" using umatch_trans [OF cl(2) fr(3)] by (rule umatch_mono) auto
    show "owned (mem w) pd (S - {a}) \<union> set (?v # xs) = owned (mem s) pd S \<union> set xs"
      using fr(4) cl(3) ownedI(2) [OF a(1), of "mem s" pd] by auto
    show "memonly s w" by (simp add: w)
    fix z assume z: "PGROUNDDOWN z \<notin> owned (mem s) pd S \<union> set xs"
    then have "PGROUNDDOWN z \<noteq> ?v" "PGROUNDDOWN z \<noteq> ?t"
      using ownedI(2) [OF a(1), of "mem s" pd] pr by (auto simp: owned_def pt_pages_def)
    then show "mem w z = mem s z"
      using pt_okD(6) [OF pok pr] v(1)
      by (simp add: w store32_page freed_other in_page allocatable_def)
  qed
  ultimately show ?thesis by (rule that)
qed

text \<open>Stepping over pages and over the range of a page table.\<close>

lemma page_succ:
  assumes "page a" "a < KERNBASE"
  shows "page (a + PGSIZE)" "unat (a + PGSIZE) = unat a + 4096"
proof -
  have "unat a < 2 ^ 31" using assms by (simp add: word_less_nat_alt)
  then show u: "unat (a + PGSIZE) = unat a + 4096" by (simp add: unat_word_ariths)
  show "page (a + PGSIZE)" using assms by (simp add: page_unat u)
qed

lemma page_less:
  assumes "page a" "page b" "a < b"
  shows "unat a + 4096 \<le> unat b"
proof -
  obtain j k where "unat a = 4096 * j" "unat b = 4096 * k" using assms by (auto simp: page_mult)
  then show ?thesis using assms(3) by (simp add: word_less_nat_alt)
qed

lemma unat_PDX: "unat (PDX a) = unat a div 2 ^ 22"
proof -
  have "unat (drop_bit 22 a) = unat a div 2 ^ 22" by (simp add: drop_bit_eq_div unat_div)
  moreover have "drop_bit 22 a AND 0x3FF = drop_bit 22 a"
    by (rule bit_word_eqI) (auto simp: mask10 bit_simps dest: bit_imp_le_length)
  ultimately show ?thesis by (simp add: PDX_def)
qed

lemma skip_table:
  assumes "page a" "a < KERNBASE"
  defines "b \<equiv> PGADDR (PDX a + 1) 0 0 - PGSIZE + PGSIZE"
  shows "page b" "unat a + 4096 \<le> unat b" "a \<le> c \<Longrightarrow> c < b \<Longrightarrow> PDX c = PDX a"
proof -
  obtain k where k: "unat a = 4096 * k" using assms by (auto simp: page_mult)
  have lt: "unat a < 2 ^ 31" using assms by (simp add: word_less_nat_alt)
  then have d: "unat (PDX a) < 512" by (simp add: unat_PDX)
  have "unat (PDX a + 1) = unat (PDX a) + 1" using d by (simp add: unat_word_ariths)
  moreover have "b = (PDX a + 1) * 2 ^ 22" by (simp add: b_def PGADDR_def push_bit_eq_mult)
  ultimately have b: "unat b = (unat (PDX a) + 1) * 2 ^ 22"
    using d by (simp add: unat_word_ariths)
  show "page b" using b by (simp add: page_unat mod_mult_right_eq [symmetric])
  show "unat a + 4096 \<le> unat b" using b k by (simp add: unat_PDX)
  assume c: "a \<le> c" "c < b"
  have "unat c div 2 ^ 22 = unat a div 2 ^ 22"
  proof (rule antisym)
    show "unat a div 2 ^ 22 \<le> unat c div 2 ^ 22" using c by (simp add: div_le_mono word_le_nat_alt)
    have "unat c < (unat a div 2 ^ 22 + 1) * 2 ^ 22" using c b by (simp add: unat_PDX word_less_nat_alt)
    then have "unat c div 2 ^ 22 < unat a div 2 ^ 22 + 1" by (simp add: div_less_iff_less_mult)
    then show "unat c div 2 ^ 22 \<le> unat a div 2 ^ 22" by simp
  qed
  then have "unat (PDX c) = unat (PDX a)" by (simp add: unat_PDX)
  then show "PDX c = PDX a" by (rule unsigned_word_eqI)
qed

lemma deallocuvm_loop_ok:
  assumes "uvm_ok s pd xs S" "page a" "hi \<le> KERNBASE" "unat hi \<le> unat a + 4096 * n"
  shows "\<exists>t ys. deallocuvm_loop (Suc n) pd a hi s = Ok () t \<and> uvm_step pd s xs S t ys (S - {b. a \<le> b \<and> b < hi})"
  using assms
proof (induction n arbitrary: s a xs S)
  case 0
  then have "\<not> a < hi" by (simp add: word_less_nat_alt)
  moreover from this have "S - {b. a \<le> b \<and> b < hi} = S" by auto
  ultimately show ?case using 0 uvm_step_refl [of s pd xs S] by (auto simp: kcode)
next
  case (Suc n)
  show ?case
  proof (cases "a < hi")
    case False
    then have "S - {b. a \<le> b \<and> b < hi} = S" by auto
    then show ?thesis using False Suc.prems uvm_step_refl [of s pd xs S] by (auto simp: kcode)
  next
    case True
    then have ak: "a < KERNBASE" using Suc.prems(3) by simp
    have S: "page b" if "b \<in> S" for b using Suc.prems(1) that by (simp add: uvm_ok_def)
    note nx = page_succ [OF Suc.prems(2) ak] and sk = skip_table [OF Suc.prems(2) ak]
    have le: "unat hi \<le> unat c + 4096 * n" if "unat a + 4096 \<le> unat c" for c
      using Suc.prems(4) that by simp
    have Sa: "S - {a} - {b. a + PGSIZE \<le> b \<and> b < hi} = S - {b. a \<le> b \<and> b < hi}"
    proof -
      have "a + PGSIZE \<le> b \<longleftrightarrow> a < b" if "b \<in> S" for b
        using page_less [OF Suc.prems(2) S [OF that]] nx(2)
        by (auto simp: word_le_nat_alt word_less_nat_alt)
      then show ?thesis using True by (auto simp: less_le)
    qed
    consider (mapped) "a \<in> S" | (nopte) "a \<notin> S" "present (pde (mem s) pd a)"
      | (notab) "a \<notin> S" "\<not> present (pde (mem s) pd a)" by blast
    then show ?thesis
    proof cases
      case mapped
      obtain t where t: "deallocuvm_loop (Suc (Suc n)) pd a hi s = deallocuvm_loop (Suc n) pd (a + PGSIZE) hi t"
        "uvm_step pd s xs S t (upage (mem s) pd a # xs) (S - {a})"
        using dealloc_one [OF Suc.prems(1) mapped True] by metis
      have "uvm_ok t pd (upage (mem s) pd a # xs) (S - {a})" using t(2) by (simp add: uvm_step_def)
      from Suc.IH [OF this nx(1) Suc.prems(3) le] obtain u ys where u:
        "deallocuvm_loop (Suc n) pd (a + PGSIZE) hi t = Ok () u"
        "uvm_step pd t (upage (mem s) pd a # xs) (S - {a}) u ys (S - {a} - {b. a + PGSIZE \<le> b \<and> b < hi})"
        using nx by auto
      have "S \<inter> (S - {a} - {b. a + PGSIZE \<le> b \<and> b < hi}) \<subseteq> S - {a}" by blast
      from uvm_step_trans [OF t(2) u(2) this] show ?thesis
        unfolding Sa t(1) u(1) by blast
    next
      case nopte
      have pok: "pt_ok s pd xs" using Suc.prems(1) by (simp add: uvm_ok_def)
      have "\<not> present (pte (mem s) pd a)" using Suc.prems(1,2) ak nopte by (auto simp: uvm_ok_def)
      then have "load32 (mem s) (ptab (mem s) pd a + 4 * PTX a) AND PTE_P = 0"
        using nopte(2) by (simp add: pte_def ent_def present_def)
      then have "deallocuvm_loop (Suc (Suc n)) pd a hi s = deallocuvm_loop (Suc n) pd (a + PGSIZE) hi s"
        using True pte_slot_nz [OF pok nopte(2)]
        by (subst deallocuvm_loop.simps(2)) (simp add: kcode walkpgdir_present [OF nopte(2)] del: deallocuvm_loop.simps)
      then show ?thesis
        using Suc.IH [OF Suc.prems(1) nx(1) Suc.prems(3) le] nx(2) Sa nopte(1) by auto
    next
      case notab
      let ?b = "PGADDR (PDX a + 1) 0 0 - PGSIZE + PGSIZE"
      have "deallocuvm_loop (Suc (Suc n)) pd a hi s = deallocuvm_loop (Suc n) pd ?b hi s"
        using True by (subst deallocuvm_loop.simps(2)) (simp add: kcode walkpgdir_absent [OF notab(2)] del: deallocuvm_loop.simps)
      moreover have "S - {b. ?b \<le> b \<and> b < hi} = S - {b. a \<le> b \<and> b < hi}"
      proof -
        have "c \<notin> S" if "a \<le> c" "c < ?b" for c
        proof
          assume "c \<in> S"
          then have "present (pte (mem s) pd c)" using Suc.prems(1) by (auto simp: uvm_ok_def)
          then have "present (pde (mem s) pd c)" by (auto simp: pte_def split: if_splits)
          then show False using notab(2) sk(3) [OF that] by (simp add: pde_def)
        qed
        moreover have "a \<le> ?b" using sk(2) by (simp add: word_le_nat_alt)
        ultimately show ?thesis by (auto simp: not_less [symmetric] dest: less_le_trans)
      qed
      ultimately show ?thesis using Suc.IH [OF Suc.prems(1) sk(1) Suc.prems(3) le [OF sk(2)]] by simp
    qed
  qed
qed

lemma mappages_page:
  "page a \<Longrightarrow> mappages pd a PGSIZE pa perm = mappages_loop (Suc (2 ^ 20 - 1)) pd a a pa perm"
proof -
  assume p: "page a"
  have "in_range a 4096 (a + PGSIZE - 1)" by (simp add: in_range_def)
  then have "PGROUNDDOWN (a + PGSIZE - 1) = a" by (simp add: in_page p)
  then show ?thesis by (simp only: mappages_def PGROUNDDOWN_page [OF p] Suc_diff_1 zero_less_power zero_less_numeral)
qed

text \<open>Mapping a page the address space does not own yet.\<close>

lemma uvm_map_page:
  assumes ok: "uvm_ok s pd xs S" and a: "page a" "a < KERNBASE" "a \<notin> S"
    and x: "allocatable s x" "x \<notin> set xs" "x \<notin> owned (mem s) pd S" and perm: "perm < 4096"
  obtains (fail) "mappages pd a PGSIZE (V2P x) perm s = Ok (-1) s" "xs = []"
  | (mapped) t ys where "mappages pd a PGSIZE (V2P x) perm s = Ok 0 t"
      "uvm_ok t pd ys (insert a S)" "umatch s t pd S"
      "owned (mem t) pd (insert a S) \<union> set ys = insert x (owned (mem s) pd S \<union> set xs)"
      "upage (mem t) pd a = x" "pte (mem t) pd a = V2P x OR perm OR 1"
      "\<And>z. PGROUNDDOWN z \<notin> owned (mem s) pd S \<union> set xs \<Longrightarrow> mem t z = mem s z"
      "memonly s t"
proof -
  have pok: "pt_ok s pd xs" using ok by (simp add: uvm_ok_def)
  have np: "\<not> present (pte (mem s) pd a)" using ok a by (auto simp: uvm_ok_def)
  show ?thesis
    using pok np
  proof (cases rule: map_one [where n = "2 ^ 20 - 1" and lst = a and pa = "V2P x" and perm = perm,
        consumes 2, case_names fail grown])
    case fail
    then show ?thesis using that(1) by (simp add: mappages_page a)
  next
    case (grown t ys)
    obtain zs where zs: "xs = zs @ ys" "pt_pages (mem t) pd = pt_pages (mem s) pd \<union> set zs"
      and pok': "pt_ok t pd ys" and t: "memonly s t"
      and out: "\<And>z. PGROUNDDOWN z \<notin> pt_pages (mem t) pd \<Longrightarrow> mem t z = mem s z"
      using grown(1) by (auto simp: pt_grow_def)
    have px: "page x" using x by (simp add: allocatable_def)
    have pte: "pte (mem t) pd b = (if b = a then V2P x OR perm OR 1 else pte (mem s) pd b)" if "page b" for b
      using that a unfolding grown(2) by (simp add: PGROUNDDOWN_page)
    have S: "page b" if "b \<in> S" for b using ok that by (simp add: uvm_ok_def)
    have up: "upage (mem t) pd b = (if b = a then x else upage (mem s) pd b)" if "b \<in> insert a S" for b
      using that S [of b] a px perm by (auto simp: upage_def pte PTE_ADDR_entry page_V2P)
    have xn: "x \<notin> pt_pages (mem t) pd" "x \<notin> set ys" "x \<notin> upage (mem s) pd ` S"
      using x zs by (auto simp: owned_def)
    have old: "upage (mem s) pd b \<notin> pt_pages (mem t) pd" if "b \<in> S" for b
      using ok that zs by (auto simp: uvm_ok_def)
    note kt = memonlyD [OF t]
    have ow: "owned (mem t) pd (insert a S) \<union> set ys = insert x (owned (mem s) pd S \<union> set xs)"
      using up a(3) zs by (auto simp: owned_def)
    have inj: "inj_on (upage (mem t) pd) (insert a S)"
      using ok xn(3) up a(3) by (auto simp: uvm_ok_def inj_on_def)
    have "uvm_ok t pd ys (insert a S)"
      using ok pok' a x(1) xn(1,2) old zs up inj by (auto simp: uvm_ok_def kt pte)
    moreover have "umatch s t pd S"
      using S a(3) old out by (auto simp: umatch_def pte)
    moreover have "mem t z = mem s z" if "PGROUNDDOWN z \<notin> owned (mem s) pd S \<union> set xs" for z
      using that zs by (intro out) (auto simp: owned_def)
    ultimately show ?thesis
      using grown(3) ow up [of a] pte [of a] a t by (intro that(2) [of t ys]) (auto simp: mappages_page)
  qed
qed

text \<open>The pages of a process of \<open>n\<close> bytes, and pages that hold only zeros.\<close>

definition upages :: "u32 \<Rightarrow> u32 set" where
  "upages n = {a. page a \<and> a < n}"

definition zeroed :: "'z mst_scheme \<Rightarrow> u32 \<Rightarrow> u32 set \<Rightarrow> bool" where
  "zeroed s pd A \<longleftrightarrow> (\<forall>a \<in> A. \<forall>z. PGROUNDDOWN z = upage (mem s) pd a \<longrightarrow> mem s z = 0)"

lemma zeroed_umatch: "zeroed s pd A \<Longrightarrow> umatch s t pd A \<Longrightarrow> zeroed t pd A"
  by (auto simp: zeroed_def umatch_def upage_def)

lemma PGROUNDUP_le_iff:
  assumes "n \<le> KERNBASE" "page b"
  shows "PGROUNDUP n \<le> b \<longleftrightarrow> n \<le> b"
proof -
  obtain k where k: "unat b = 4096 * k" using assms by (auto simp: page_mult)
  have "unat n \<le> 2 ^ 31" using assms by (simp add: word_le_nat_alt)
  then have "unat (n + 4095) = unat n + 4095" by (simp add: unat_word_ariths)
  then have "unat (PGROUNDUP n) = (unat n + 4095) div 4096 * 4096"
    by (simp add: PGROUNDUP_DOWN PGROUNDDOWN_unat)
  then show ?thesis using round_up_le [of "unat n" k] k by (simp add: word_le_nat_alt)
qed

lemma upages_PGROUNDUP: "n \<le> KERNBASE \<Longrightarrow> upages (PGROUNDUP n) = upages n"
  using PGROUNDUP_le_iff [of n] by (auto simp: upages_def not_le [symmetric])

lemma deallocuvm_ok:
  assumes ok: "uvm_ok s pd xs S" and "lo < hi" "hi \<le> KERNBASE" "S \<subseteq> upages hi"
  shows "\<exists>t ys. deallocuvm pd hi lo s = Ok lo t \<and> uvm_step pd s xs S t ys (S \<inter> upages lo)"
proof -
  have lo: "lo \<le> KERNBASE" using assms by simp
  have "unat hi \<le> unat (PGROUNDUP lo) + 4096 * (2 ^ 20 - 1)" using assms(3) by (simp add: word_le_nat_alt)
  from deallocuvm_loop_ok [OF ok page_PGROUNDUP assms(3) this]
  obtain t ys where t: "deallocuvm_loop (2 ^ 20) pd (PGROUNDUP lo) hi s = Ok () t"
    "uvm_step pd s xs S t ys (S - {b. PGROUNDUP lo \<le> b \<and> b < hi})"
    by (auto simp del: deallocuvm_loop.simps)
  have "S - {b. PGROUNDUP lo \<le> b \<and> b < hi} = S \<inter> upages lo"
    using assms(4) PGROUNDUP_le_iff [OF lo] by (auto simp: upages_def not_le)
  then show ?thesis using t assms(2) by (auto simp: deallocuvm_def kcode)
qed

text \<open>
  Too few pages for a process of \<open>n\<close> bytes: no more than its own pages, a page
  directory, 1024 page tables and one page that is not mapped yet.
\<close>

definition scarce :: "u32 set \<Rightarrow> u32 \<Rightarrow> bool" where
  "scarce A n \<longleftrightarrow> card A \<le> 1026 + card (upages n)"

lemma card_pt_pages: "card (pt_pages m pd) \<le> 1025"
proof -
  let ?f = "\<lambda>k. P2V (PTE_ADDR (ent m pd (of_nat k)))"
  have "pt_pages m pd \<subseteq> insert pd (?f ` {..<1024})"
  proof
    fix p assume "p \<in> pt_pages m pd"
    then consider "p = pd" | va where "p = ?f (unat (PDX va))" by (auto simp: pt_pages_def ptab_def pde_def)
    then show "p \<in> insert pd (?f ` {..<1024})"
    proof cases
      case 2
      have "unat (PDX va) < 1024" using PDX_less [of va] by (simp add: word_less_nat_alt)
      then show ?thesis using 2 by blast
    qed simp
  qed
  moreover have "card (insert pd (?f ` {..<1024})) \<le> Suc 1024"
    using card_insert_le_m1 [of "Suc 1024" "?f ` {..<1024}" pd] card_image_le [of "{..<1024 :: nat}" ?f] by simp
  ultimately show ?thesis using card_mono [of "insert pd (?f ` {..<1024})" "pt_pages m pd"] by simp
qed

lemma scarce_owned: "S \<subseteq> upages n \<Longrightarrow> scarce (owned m pd S) n" "S \<subseteq> upages n \<Longrightarrow> scarce (insert x (owned m pd S)) n"
proof -
  assume "S \<subseteq> upages n"
  then have "card (upage m pd ` S) \<le> card (upages n)" by (meson card_image_le card_mono finite le_trans)
  then have c: "card (owned m pd S) \<le> 1025 + card (upages n)"
    using card_Un_le [of "pt_pages m pd" "upage m pd ` S"] card_pt_pages [of m pd] by (simp add: owned_def)
  then show "scarce (owned m pd S) n" by (simp add: scarce_def)
  show "scarce (insert x (owned m pd S)) n"
    using c card_insert_le_m1 [of "Suc (card (owned m pd S))" "owned m pd S" x] by (simp add: scarce_def)
qed

text \<open>kalloc() and memset(): a zeroed page that the address space does not own.\<close>

lemma uvm_zalloc:
  assumes ok: "uvm_ok s pd (x # xs) S"
  defines "t \<equiv> s\<lparr>freelist := load32 (mem s) x, mem := memset (mem s) x 0 PGSIZE\<rparr>"
  shows "thenM (kalloc) (memsetM x 0 PGSIZE) s = Ok () t" "kalloc s = Ok x (s\<lparr>freelist := load32 (mem s) x\<rparr>)"
    and "x \<noteq> 0" "uvm_ok t pd xs S" "umatch s t pd S" "owned (mem t) pd S = owned (mem s) pd S"
    and "allocatable t x" "x \<notin> set xs" "x \<notin> owned (mem t) pd S"
    and "PGROUNDDOWN z = x \<Longrightarrow> mem t z = 0" "PGROUNDDOWN z \<noteq> x \<Longrightarrow> mem t z = mem s z"
    and "memonly s t"
proof -
  note ka = uvm_ok_kalloc [OF ok]
  have px: "page x" using ka(3) by (simp add: allocatable_def)
  have "memset (mem s) x 0 PGSIZE z = mem s z" if "PGROUNDDOWN z \<in> owned (mem s) pd S \<union> set xs" for z
    using that ka(5,6) px by (intro memset_page_other) auto
  then have agree: "memset (mem s) x 0 PGSIZE z = mem (s\<lparr>freelist := load32 (mem s) x\<rparr>) z"
    if "PGROUNDDOWN z \<in> owned (mem (s\<lparr>freelist := load32 (mem s) x\<rparr>)) pd S \<union> set xs" for z
    using that by simp
  note fr = uvm_ok_frame [OF ka(2) agree]
  show "uvm_ok t pd xs S" "umatch s t pd S" and ow: "owned (mem t) pd S = owned (mem s) pd S"
    using fr by (simp_all add: t_def umatch_def)
  show "kalloc s = Ok x (s\<lparr>freelist := load32 (mem s) x\<rparr>)" "x \<noteq> 0" "x \<notin> set xs" using ka by simp_all
  then show "thenM (kalloc) (memsetM x 0 PGSIZE) s = Ok () t" by (simp add: kcode t_def)
  show "allocatable t x" using ka(3) by (simp add: t_def allocatable_def)
  show "x \<notin> owned (mem t) pd S" using ka(5) ow by simp
  show "PGROUNDDOWN z = x \<Longrightarrow> mem t z = 0" "PGROUNDDOWN z \<noteq> x \<Longrightarrow> mem t z = mem s z"
    using px by (simp_all add: t_def memset_page_in memset_page_other)
  show "memonly s t" by (simp add: t_def)
qed

text \<open>Giving the page back after a step that did not use it.\<close>

lemma uvm_step_giveback:
  assumes st: "uvm_step pd s1 xs S t ys T" and sub: "T \<subseteq> S"
    and x: "allocatable s1 x" "x \<notin> set xs" "x \<notin> owned (mem s1) pd S"
    and s: "umatch s s1 pd S" "owned (mem s1) pd S = owned (mem s) pd S" "memonly s s1"
    and out: "\<And>z. PGROUNDDOWN z \<noteq> x \<Longrightarrow> mem s1 z = mem s z"
  shows "\<exists>u. kfree x t = Ok () u \<and> uvm_step pd s (x # xs) S u (x # ys) T"
proof -
  have t: "uvm_ok t pd ys T" "umatch s1 t pd (S \<inter> T)" "memonly s1 t"
    and ow: "owned (mem t) pd T \<union> set ys = owned (mem s1) pd S \<union> set xs"
    and o1: "\<And>z. PGROUNDDOWN z \<notin> owned (mem s1) pd S \<union> set xs \<Longrightarrow> mem t z = mem s1 z"
    using st by (simp_all add: uvm_step_def)
  have xt: "x \<notin> set ys" "x \<notin> owned (mem t) pd T" using ow x by blast+
  have ax: "allocatable t x" using x(1) memonlyD(2) [OF t(3)] by simp
  define u where "u = t\<lparr>mem := freed (mem t) x (freelist t), freelist := x\<rparr>"
  note kf = uvm_ok_kfree [OF t(1) ax xt, folded u_def]
  have "memonly s u" using memonly_trans [OF memonly_trans [OF s(3) t(3)], of u] by (simp add: u_def)
  moreover have "umatch s u pd (S \<inter> T)"
    using umatch_trans [OF umatch_trans [OF umatch_mono [OF s(1)] t(2)] umatch_mono [OF kf(3)]] by simp
  moreover have "mem u z = mem s z" if "PGROUNDDOWN z \<notin> owned (mem s) pd S \<union> set (x # xs)" for z
  proof -
    have "mem u z = mem t z" using that ax by (auto simp: u_def allocatable_def in_page intro!: freed_other)
    then show ?thesis using that o1 [of z] out [of z] s(2) by simp
  qed
  ultimately show ?thesis using kf(1,2,4) ow s(2) by (auto simp: uvm_step_def)
qed

lemma alloc_one:
  assumes ok: "uvm_ok s pd xs (upages a)" and a: "page a" "a < nw" "nw < KERNBASE"
    and lo: "lo \<le> a" "lo < nw"
  obtains (grow) t ys where "allocuvm_loop (Suc n) pd a lo nw s = allocuvm_loop n pd (a + PGSIZE) lo nw t"
      "uvm_step pd s xs (upages a) t ys (insert a (upages a))" "zeroed t pd {a}"
  | (fail) t ys where "allocuvm_loop (Suc n) pd a lo nw s = Ok 0 t"
      "uvm_step pd s xs (upages a) t ys (upages lo)" "scarce (owned (mem s) pd (upages a) \<union> set xs) nw"
proof -
  have ak: "a < KERNBASE" using a by simp
  have hi: "nw \<le> KERNBASE" and up: "upages a \<subseteq> upages nw" and lo': "upages a \<inter> upages lo = upages lo"
    and an: "a \<notin> upages a" using a lo by (auto simp: upages_def)
  show ?thesis
  proof (cases xs)
    case Nil
    then have k: "kalloc s = Ok 0 s" using ok by (simp add: uvm_ok_def pt_ok_def kalloc_Nil)
    obtain t ys where "deallocuvm pd nw lo s = Ok lo t" "uvm_step pd s xs (upages a) t ys (upages lo)"
      using deallocuvm_ok [OF ok lo(2) hi up] lo' by auto
    then show ?thesis using k a(2) Nil scarce_owned(1) [OF up] by (intro that(2) [of t ys]) (simp_all add: kcode)
  next
    case (Cons x xs')
    note za = uvm_zalloc [OF ok [unfolded Cons]]
    let ?s1 = "s\<lparr>freelist := load32 (mem s) x, mem := memset (mem s) x 0 PGSIZE\<rparr>"
    have run: "allocuvm_loop (Suc n) pd a lo nw s
      = bindM (mappages pd a PGSIZE (V2P x) (PTE_W OR PTE_U)) (\<lambda>r.
             if r < 0 then thenM (deallocuvm pd nw lo) (thenM (kfree x) (retM 0))
             else allocuvm_loop n pd (a + PGSIZE) lo nw) ?s1"
      using za(2,3) a(2) by (simp add: kcode)
    show ?thesis
      using za(4) a(1) ak an za(7,8,9)
    proof (cases rule: uvm_map_page [where perm = "PTE_W OR PTE_U", consumes 7, case_names perm fail mapped])
      case perm
      show ?case by simp
    next
      case fail
      obtain t ys where t: "deallocuvm pd nw lo ?s1 = Ok lo t" "uvm_step pd ?s1 xs' (upages a) t ys (upages lo)"
        using deallocuvm_ok [OF za(4) lo(2) hi up] lo' by auto
      have "upages lo \<subseteq> upages a" using lo' by blast
      then obtain u where "kfree x t = Ok () u" "uvm_step pd s xs (upages a) u (x # ys) (upages lo)"
        using uvm_step_giveback [OF t(2) _ za(7,8,9,5,6,12,11)] Cons by auto
      then show ?thesis
        using run fail t(1) Cons za(6) scarce_owned(2) [OF up] by (intro that(2) [of u "x # ys"]) (simp_all add: kcode)
    next
      case (mapped t ys)
      have ow: "owned (mem s) pd (upages a) \<union> set xs = insert x (owned (mem ?s1) pd (upages a) \<union> set xs')"
        using Cons za(6) by auto
      have "umatch s t pd (upages a)" using umatch_trans [OF za(5) mapped(3)] .
      moreover have "mem t z = mem s z" if "PGROUNDDOWN z \<notin> owned (mem s) pd (upages a) \<union> set xs" for z
        using that mapped(7) [of z] za(11) [of z] ow by auto
      ultimately have "uvm_step pd s xs (upages a) t ys (insert a (upages a))"
        using mapped(2,4) ow an memonly_trans [OF za(12) mapped(8)]
        by (auto simp: uvm_step_def Int_insert_right)
      moreover have "zeroed t pd {a}" using mapped(5) za(10) mapped(7) za(8,9) by (auto simp: zeroed_def)
      ultimately show ?thesis using run mapped(1) by (intro that(1) [of t ys]) (simp_all add: kcode)
    qed
  qed
qed

lemma upages_succ: "page a \<Longrightarrow> a < KERNBASE \<Longrightarrow> upages (a + PGSIZE) = insert a (upages a)"
proof -
  assume a: "page a" "a < KERNBASE"
  have "b < a + PGSIZE \<longleftrightarrow> b = a \<or> b < a" if "page b" for b
    using page_less [OF a(1) that] page_succ(2) [OF a]
    by (cases a b rule: linorder_cases) (auto simp: word_less_nat_alt)
  then show ?thesis using a by (auto simp: upages_def)
qed

lemma allocuvm_loop_ok:
  assumes "uvm_ok s pd xs (upages a)" "page a" "nw < KERNBASE" "lo \<le> a" "lo \<le> nw"
    and "upages a \<subseteq> upages nw" "unat nw \<le> unat a + 4096 * n"
  shows "\<exists>r t ys. allocuvm_loop (Suc n) pd a lo nw s = Ok r t \<and>
    (r = nw \<and> uvm_step pd s xs (upages a) t ys (upages nw) \<and> zeroed t pd (upages nw - upages a)
     \<or> r = 0 \<and> uvm_step pd s xs (upages a) t ys (upages lo) \<and> scarce (owned (mem s) pd (upages a) \<union> set xs) nw)"
  using assms
proof (induction n arbitrary: s a xs)
  case 0
  then have "\<not> a < nw" by (simp add: word_less_nat_alt)
  moreover from this have "upages a = upages nw" using 0 by (auto simp: upages_def)
  ultimately show ?case using 0 uvm_step_refl [of s pd xs "upages nw"] by (auto simp: kcode zeroed_def)
next
  case (Suc n)
  show ?case
  proof (cases "a < nw")
    case False
    then have "upages a = upages nw" using Suc.prems by (auto simp: upages_def)
    then show ?thesis
      using False Suc.prems uvm_step_refl [of s pd xs "upages nw"] by (auto simp: kcode zeroed_def)
  next
    case True
    then have ak: "a < KERNBASE" "lo < nw" using Suc.prems(3,4) by simp_all
    note nx = page_succ [OF Suc.prems(2) ak(1)] and us = upages_succ [OF Suc.prems(2) ak(1)]
    show ?thesis
      using Suc.prems(1,2) True Suc.prems(3,4) ak(2)
    proof (cases rule: alloc_one [where n = "Suc n", consumes 6, case_names grow fail])
      case (grow t ys)
      have "lo \<le> a + PGSIZE" using Suc.prems(4) nx(2) by (simp add: word_le_nat_alt)
      moreover have "upages (a + PGSIZE) \<subseteq> upages nw" using us True Suc.prems(2,6) by (auto simp: upages_def)
      moreover have "uvm_ok t pd ys (upages (a + PGSIZE))" using grow(2) us by (simp add: uvm_step_def)
      ultimately obtain r u zs where u: "allocuvm_loop (Suc n) pd (a + PGSIZE) lo nw t = Ok r u"
        "r = nw \<and> uvm_step pd t ys (insert a (upages a)) u zs (upages nw) \<and> zeroed u pd (upages nw - insert a (upages a))
         \<or> r = 0 \<and> uvm_step pd t ys (insert a (upages a)) u zs (upages lo) \<and> scarce (owned (mem t) pd (insert a (upages a)) \<union> set ys) nw"
        using Suc.IH [of t ys "a + PGSIZE"] nx Suc.prems(3,5,7) us by auto
      have sub: "upages a \<inter> X \<subseteq> insert a (upages a)" for X by blast
      show ?thesis
        using u(2)
      proof (elim disjE conjE)
        assume r: "r = nw" "uvm_step pd t ys (insert a (upages a)) u zs (upages nw)"
          "zeroed u pd (upages nw - insert a (upages a))"
        have "a \<in> upages nw" using True Suc.prems(2) by (simp add: upages_def)
        then have "umatch t u pd {a}" using r(2) by (auto simp: uvm_step_def elim: umatch_mono)
        then have "zeroed u pd {a}" using grow(3) zeroed_umatch by blast
        then have "zeroed u pd (upages nw - upages a)" using r(3) by (auto simp: zeroed_def)
        then show ?thesis using grow(1) u(1) r(1) uvm_step_trans [OF grow(2) r(2) sub] by auto
      next
        assume r: "r = 0" "uvm_step pd t ys (insert a (upages a)) u zs (upages lo)" "scarce (owned (mem t) pd (insert a (upages a)) \<union> set ys) nw"
        have "owned (mem t) pd (insert a (upages a)) \<union> set ys = owned (mem s) pd (upages a) \<union> set xs"
          using grow(2) by (simp add: uvm_step_def)
        then show ?thesis using grow(1) u(1) r uvm_step_trans [OF grow(2) r(2) sub] by auto
      qed
    next
      case (fail t ys)
      then show ?thesis by blast
    qed
  qed
qed

section \<open>Properties\<close>

text \<open>
  C8: allocuvm() grows an address space or leaves it as it was.  From a process
  of \<open>oldsz\<close> bytes whose address space satisfies the invariant, the call always
  returns.  It returns \<open>newsz\<close>, with exactly the pages of \<open>newsz\<close> bytes mapped,
  the new ones to zeroed pages of their own; or, when memory runs out
  anywhere on the way, 0, with the mappings undone, and that only if the
  address space and the free list together are no more than the pages a
  process of \<open>newsz\<close> bytes can need.  Either way the old pages
  keep their place and contents, no page leaks and none is used twice (the
  pages of the address space and the free pages are together the same set as
  before), and no memory of anyone else is written.
\<close>

theorem allocuvm_spec:
  assumes "uvm_ok s pd xs (upages oldsz)" "oldsz \<le> newsz" "newsz < KERNBASE"
  shows "\<exists>r t ys. allocuvm pd oldsz newsz s = Ok r t \<and>
    (r = newsz \<and> uvm_step pd s xs (upages oldsz) t ys (upages newsz) \<and> zeroed t pd (upages newsz - upages oldsz)
     \<or> r = 0 \<and> uvm_step pd s xs (upages oldsz) t ys (upages oldsz) \<and> scarce (owned (mem s) pd (upages oldsz) \<union> set xs) newsz)"
proof -
  have le: "oldsz \<le> KERNBASE" using assms by simp
  have ge: "oldsz \<le> PGROUNDUP oldsz" using PGROUNDUP_le_iff [OF le, of "PGROUNDUP oldsz"] by simp
  have "upages oldsz \<subseteq> upages newsz" using assms(2) by (auto simp: upages_def)
  moreover have "unat newsz \<le> unat (PGROUNDUP oldsz) + 4096 * (2 ^ 20 - 1)"
    using assms(3) by (simp add: word_less_nat_alt)
  moreover have "allocuvm pd oldsz newsz s = allocuvm_loop (2 ^ 20) pd (PGROUNDUP oldsz) oldsz newsz s"
    using assms(2,3) by (auto simp: allocuvm_def simp del: allocuvm_loop.simps)
  ultimately show ?thesis
    using allocuvm_loop_ok [of s pd xs "PGROUNDUP oldsz" newsz oldsz "2 ^ 20 - 1"] assms ge
    by (simp add: upages_PGROUNDUP [OF le] del: allocuvm_loop.simps)
qed

text \<open>An empty address space and two free pages.\<close>

definition small_mst :: mst where
  "small_mst = boot_mst\<lparr>mem := store32 (\<lambda>_. 0) 0x80400000 0x80401000, freelist := 0x80400000\<rparr>"

lemma small_uvm: "uvm_ok small_mst 0x80402000 [0x80400000, 0x80401000] (upages 0)"
proof -
  let ?m = "store32 (\<lambda>_. 0) 0x80400000 0x80401000"
  have e: "ent ?m q k = (if q = 0x80400000 \<and> k = 0 then 0x80401000 else 0)" if "page q" "k < 1024" for q k
    using ent_store [of "0x80400000" 0 q k] that by (simp add: page_def)
  have p: "page 0x80400000" "page 0x80401000" "page 0x80402000" by (simp_all add: page_def)
  have d: "pde ?m 0x80402000 va = 0" for va using p by (simp add: pde_def e)
  have l: "load32 ?m 0x80400000 = 0x80401000" "load32 ?m 0x80401000 = 0"
    using e [of "0x80400000" 0] e [of "0x80401000" 0] p by (simp_all add: ent_def)
  have a: "allocatable small_mst v \<longleftrightarrow> page v \<and> kend boot_mst \<le> v \<and> V2P v < PHYSTOP" for v
    by (simp add: allocatable_def small_mst_def)
  have "pt_ok small_mst 0x80402000 [0x80400000, 0x80401000]"
    using p by (simp add: pt_ok_def pt_sep_def pt_pages_def kmem_ok_def a)
      (simp add: small_mst_def boot_mst_def d l V2P_def)
  then show ?thesis
    by (simp add: uvm_ok_def upages_def) (simp add: small_mst_def boot_mst_def pte_def d)
qed

theorem allocuvm_spec_witness:
  "\<exists>r t ys. allocuvm 0x80402000 0 5000 small_mst = Ok r t \<and>
    (r = 5000 \<and> uvm_step 0x80402000 small_mst [0x80400000, 0x80401000] (upages 0) t ys (upages 5000)
       \<and> zeroed t 0x80402000 (upages 5000 - upages 0)
     \<or> r = 0 \<and> uvm_step 0x80402000 small_mst [0x80400000, 0x80401000] (upages 0) t ys (upages 0))"
  using allocuvm_spec [OF small_uvm, of 5000] by auto

text \<open>
  C9: deallocuvm() shrinks an address space to \<open>newsz\<close> bytes: it returns
  \<open>newsz\<close> with exactly the pages of \<open>newsz\<close> bytes still mapped, their
  contents unchanged, and every page it unmapped back on the free list.
\<close>

theorem deallocuvm_spec:
  assumes "uvm_ok s pd xs (upages oldsz)" "newsz < oldsz" "oldsz \<le> KERNBASE"
  shows "\<exists>t ys. deallocuvm pd oldsz newsz s = Ok newsz t \<and> uvm_step pd s xs (upages oldsz) t ys (upages newsz)"
proof -
  have "upages oldsz \<inter> upages newsz = upages newsz" using assms(2) by (auto simp: upages_def)
  then show ?thesis using deallocuvm_ok [OF assms] by simp
qed

text \<open>An address space with one mapped page: entry 0 of the table in the second page maps the first.\<close>

definition one_page :: mst where
  "one_page = boot_mst\<lparr>mem := store32 (store32 (\<lambda>_. 0) 0x80402000 0x00401007) 0x80401000 0x00400007\<rparr>"

lemma one_page_mem:
  "pt_pages (mem one_page) 0x80402000 = {0x80402000, 0x80401000}" "upage (mem one_page) 0x80402000 0 = 0x80400000"
  "pt_sep (mem one_page) 0x80402000" "page a \<Longrightarrow> present (pte (mem one_page) 0x80402000 a) \<longleftrightarrow> a = 0"
proof -
  let ?m = "store32 (store32 (\<lambda>_. 0) 0x80402000 0x00401007) 0x80401000 0x00400007"
  let ?pd = "0x80402000 :: u32"
  have m: "mem one_page = ?m" by (simp add: one_page_def)
  have p: "page 0x80400000" "page 0x80401000" "page 0x80402000" by (simp_all add: page_def)
  have same: "ent (store32 m 0x80402000 w) 0x80402000 0 = w" for m w by (simp add: ent_def)
  have e: "ent ?m q k = (if q = 0x80401000 \<and> k = 0 then 0x00400007
      else if q = 0x80402000 \<and> k = 0 then 0x00401007 else 0)" if "page q" "k < 1024" for q k
    using ent_store [of "0x80401000" 0 q k] ent_store [of "0x80402000" 0 q k] that
    by (simp add: page_def same)
  have d: "pde ?m ?pd va = (if PDX va = 0 then 0x00401007 else 0)" for va using p by (simp add: pde_def e)
  have pr: "present (pde ?m ?pd va) \<longleftrightarrow> PDX va = 0" for va by (simp add: d present_def)
  have t: "ptab ?m ?pd va = 0x80401000" if "PDX va = 0" for va
    using that by (simp add: ptab_def d PTE_ADDR_def P2V_def)
  have z: "PDX 0 = 0" "PTX 0 = 0" by (simp_all add: PDX_def PTX_def)
  have pte: "pte ?m ?pd va = (if PDX va = 0 \<and> PTX va = 0 then 0x00400007 else 0)" for va
    using p by (simp add: pte_def pr t e)
  have pa: "pte ?m ?pd a = (if a = 0 then 0x00400007 else 0)" if "page a" for a
    using same_page [of a 0] that z p by (simp add: pte PGROUNDDOWN_page page_def)
  show "pt_pages (mem one_page) ?pd = {0x80402000, 0x80401000}"
    unfolding pt_pages_def m using z t by (force simp: pr)
  show "upage (mem one_page) ?pd 0 = 0x80400000" unfolding m by (simp add: upage_def pa page_def PTE_ADDR_def P2V_def)
  show "pt_sep (mem one_page) ?pd" unfolding pt_sep_def m using p by (auto simp: pr t)
  show "present (pte (mem one_page) ?pd a) \<longleftrightarrow> a = 0" if "page a" unfolding m using that by (simp add: pa present_def)
qed

lemma one_page_space:
  assumes "mem s = mem one_page" "kend s = kend one_page" "kmem_ok s xs" "set xs \<inter> {0x80400000, 0x80401000, 0x80402000} = {}"
  shows "uvm_ok s 0x80402000 xs (upages 4096)"
proof -
  have up: "upages 4096 = {0}"
    using upages_succ [of 0] by (simp add: upages_def page_def)
  have al: "allocatable s q" if "q \<in> {0x80400000, 0x80401000, 0x80402000}" for q
    using that assms(2) by (auto simp: allocatable_def page_def one_page_def boot_mst_def V2P_def)
  then have "pt_ok s 0x80402000 xs" using assms by (auto simp: pt_ok_def one_page_mem)
  then show ?thesis
    unfolding uvm_ok_def up using al assms by (auto simp: one_page_mem page_def) (simp_all add: one_page_def boot_mst_def)
qed

lemma one_page_uvm: "uvm_ok one_page 0x80402000 [] (upages 4096)"
  by (rule one_page_space) (simp_all add: kmem_ok_def one_page_def boot_mst_def)

theorem deallocuvm_spec_witness:
  "\<exists>t ys. deallocuvm 0x80402000 4096 0 one_page = Ok 0 t
     \<and> uvm_step 0x80402000 one_page [] (upages 4096) t ys (upages 0)"
  using deallocuvm_spec [OF one_page_uvm, of 0] by simp

section \<open>mappages() ends\<close>

definition ends :: "('a, 's) outcome \<Rightarrow> 'a set \<Rightarrow> bool" where
  "ends o1 A \<longleftrightarrow> (case o1 of Ok r t \<Rightarrow> r \<in> A | Panic _ \<Rightarrow> True | _ \<Rightarrow> False)"

lemma ends_simps [simp]:
  "ends (Ok r t) A \<longleftrightarrow> r \<in> A" "ends (Panic msg) A" "\<not> ends (Fault msg) A" "\<not> ends (Swtch t) A" "\<not> ends Spin A"
  by (simp_all add: ends_def)

lemma walkpgdir_ends: "ends (walkpgdir pd va al s) UNIV"
  by (simp add: walkpgdir_def kalloc_def ends_def Let_def kcode split: outcome.split)

lemma page_diff: "page a \<Longrightarrow> page b \<Longrightarrow> unat ((b :: u32) - a) mod 4096 = 0"
proof -
  assume p: "page a" "page b"
  show ?thesis
  proof (cases "a \<le> b")
    case True
    then show ?thesis using p by (auto simp: page_mult unat_sub simp flip: diff_mult_distrib2)
  next
    case False
    then have "unat (b - a) = 2 ^ 32 - (unat a - unat b)" by (intro unat_diff_wrap) simp
    moreover have "(2 :: nat) ^ 32 = 4096 * 2 ^ 20" by simp
    ultimately show ?thesis using p by (auto simp: page_mult simp flip: diff_mult_distrib2 simp del: power_numeral)
  qed
qed

lemma mappages_loop_ends:
  fixes s :: "'z mst_scheme"
  assumes "page a" "page lst" and "unat (lst - a) < 4096 * n"
  shows "ends (mappages_loop n pd a lst pa perm s) {0, -1}"
  using assms
proof (induction n arbitrary: a pa s)
  case (Suc n)
  have rest: "ends (mappages_loop n pd (a + PGSIZE) lst (pa + PGSIZE) perm t) {0, -1}" if "a \<noteq> lst" for t :: "'z mst_scheme"
  proof (rule Suc.IH)
    have "unat (lst - a) \<noteq> 0" using that by (simp add: unat_eq_zero)
    then have ge: "4096 \<le> unat (lst - a)" using page_diff [OF Suc.prems(1,2)] by auto
    have eq: "lst - (a + PGSIZE) = (lst - a) - PGSIZE" by simp
    have "unat (lst - (a + PGSIZE)) = unat (lst - a) - 4096"
      unfolding eq using ge by (subst unat_sub) (simp_all add: word_le_nat_alt)
    then show "unat (lst - (a + PGSIZE)) < 4096 * n" using Suc.prems(3) ge by simp
    show "page (a + PGSIZE)" using Suc.prems(1) by (simp add: page_unat unat_word_ariths mod_mod_cancel)
  qed (rule Suc.prems)
  show ?case
    using rest walkpgdir_ends [of pd a True s] by (cases "walkpgdir pd a True s") (auto simp: kcode)
qed simp

text \<open>
  Mappages() always ends: for every range and every state its loop reaches
  the last page within the 2^20 pages there are, even when the range wraps around
  the end of the address space, and the function returns 0 or -1 or panics; it never spins.
\<close>

lemma mappages_terminates:
  "(\<exists>t. mappages pd va n pa perm s = Ok 0 t) \<or> (\<exists>t. mappages pd va n pa perm s = Ok (-1) t)
   \<or> (\<exists>msg. mappages pd va n pa perm s = Panic msg)"
proof -
  have "unat (PGROUNDDOWN (va + n - 1) - PGROUNDDOWN va) < 4096 * 2 ^ 20" using unat_u32 by simp
  then have "ends (mappages pd va n pa perm s) {0, -1}"
    unfolding mappages_def by (intro mappages_loop_ends) simp_all
  then show ?thesis by (auto simp: ends_def split: outcome.splits)
qed

end
