(* ===== verification/Bio.thy ===== *)
theory Bio
  imports Vm
begin

text \<open>
  bio.c, the buffer cache, over memide.c, the disk held in memory.  Buffers
  are kept in a doubly linked list in order of use; index \<open>NBUF\<close> stands for
  \<open>bcache.head\<close>.  The driver for a real disk, ide.c, is modelled on its own.
\<close>

abbreviation (input) BSIZE :: nat where "BSIZE \<equiv> 512"

section \<open>State\<close>

text \<open>struct buf; the two bits of \<open>flags\<close> are \<open>b_valid\<close> and \<open>b_dirty\<close>.\<close>

record buf =
  b_valid :: bool
  b_dirty :: bool
  b_dev :: u32
  b_blockno :: u32
  b_refcnt :: u32
  b_prev :: nat
  b_next :: nat
  b_data :: bytes

definition zero_buf :: buf where
  "zero_buf = \<lparr>b_valid = False, b_dirty = False, b_dev = 0, b_blockno = 0, b_refcnt = 0,
     b_prev = 0, b_next = 0, b_data = replicate BSIZE 0\<rparr>"

text \<open>
  bcache and the disk: \<open>disk\<close> is memdisk as a list of blocks, its length is
  disksize.  \<open>dwrites\<close> is not part of the program: it records the block writes
  made since it was last emptied, the most recent first, so that a crash
  between two writes can be described.
\<close>

record bst = vst +
  bufs :: "buf list"
  disk :: "bytes list"
  dwrites :: "(nat \<times> bytes) list"

abbreviation (input) HEAD :: nat where "HEAD \<equiv> NBUF"

definition upd_buf :: "nat \<Rightarrow> (buf \<Rightarrow> buf) \<Rightarrow> ('z bst_scheme, unit) kfun" where
  "upd_buf i f = modM (\<lambda>s. s\<lparr>bufs := (bufs s)[i := f (bufs s ! i)]\<rparr>)"

section \<open>memide.c\<close>

definition iderw :: "nat \<Rightarrow> ('z bst_scheme, unit) kfun" where
  "iderw b =
     bindM (holdingsleep (SL_buf b)) (\<lambda>h.
     thenM (assertM h ''iderw: buf not locked'')
     (bindM (getM (\<lambda>s. bufs s ! b)) (\<lambda>v.
     thenM (assertM (\<not> (b_valid v \<and> \<not> b_dirty v)) ''iderw: nothing to do'')
     (thenM (assertM (\<not> b_dev v \<noteq> 1) ''iderw: request not for disk 1'')
     (bindM (getM (\<lambda>s. length (disk s))) (\<lambda>disksize.
     thenM (assertM (\<not> unat (b_blockno v) \<ge> disksize) ''iderw: block out of range'')
     (thenM (if b_dirty v
             then thenM (upd_buf b (\<lambda>v. v\<lparr>b_dirty := False\<rparr>))
                 (modM (\<lambda>s. s\<lparr>disk := (disk s)[unat (b_blockno v) := b_data v],
                              dwrites := (unat (b_blockno v), b_data v) # dwrites s\<rparr>))
             else bindM (getM (\<lambda>s. disk s ! unat (b_blockno v))) (\<lambda>d.
                  upd_buf b (\<lambda>v. v\<lparr>b_data := d\<rparr>)))
     (upd_buf b (\<lambda>v. v\<lparr>b_valid := True\<rparr>)))))))))"

section \<open>bio.c\<close>

text \<open>Insertion at the head of the list, as binit() and brelse() write it.\<close>

definition link_head :: "nat \<Rightarrow> ('z bst_scheme, unit) kfun" where
  "link_head b =
     bindM (getM (\<lambda>s. b_next (bufs s ! HEAD))) (\<lambda>hn.
     thenM (upd_buf b (\<lambda>v. v\<lparr>b_next := hn\<rparr>))
     (thenM (upd_buf b (\<lambda>v. v\<lparr>b_prev := HEAD\<rparr>))
     (bindM (getM (\<lambda>s. b_next (bufs s ! HEAD))) (\<lambda>hn.
     thenM (upd_buf hn (\<lambda>v. v\<lparr>b_prev := b\<rparr>))
     (upd_buf HEAD (\<lambda>v. v\<lparr>b_next := b\<rparr>))))))"

definition binit :: "('z bst_scheme, unit) kfun" where
  "binit =
     thenM (upd_buf HEAD (\<lambda>v. v\<lparr>b_prev := HEAD\<rparr>))
     (thenM (upd_buf HEAD (\<lambda>v. v\<lparr>b_next := HEAD\<rparr>))
     (foreachM [0..<NBUF] (\<lambda>b. thenM (initsleeplock (SL_buf b)) (link_head b))))"

text \<open>
  The two scans of bget(), from the most and from the least recently used
  buffer; the fuel is the length of the list.
\<close>

fun bget_cached :: "nat \<Rightarrow> nat \<Rightarrow> u32 \<Rightarrow> u32 \<Rightarrow> ('z bst_scheme, nat option) kfun" where
  "bget_cached 0 b dev blockno = spinM"
| "bget_cached (Suc fuel) b dev blockno =
     (if b = HEAD then retM None else
      bindM (getM (\<lambda>s. bufs s ! b)) (\<lambda>v.
      if b_dev v = dev \<and> b_blockno v = blockno then retM (Some b)
      else bget_cached fuel (b_next v) dev blockno))"

fun bget_unused :: "nat \<Rightarrow> nat \<Rightarrow> ('z bst_scheme, nat option) kfun" where
  "bget_unused 0 b = spinM"
| "bget_unused (Suc fuel) b =
     (if b = HEAD then retM None else
      bindM (getM (\<lambda>s. bufs s ! b)) (\<lambda>v.
      if b_refcnt v = 0 \<and> \<not> b_dirty v then retM (Some b)
      else bget_unused fuel (b_prev v)))"

definition bget :: "u32 \<Rightarrow> u32 \<Rightarrow> ('z bst_scheme, nat) kfun" where
  "bget dev blockno =
     thenM (acquire L_bcache)
     (bindM (getM (\<lambda>s. b_next (bufs s ! HEAD))) (\<lambda>b.
     bindM (bget_cached (Suc NBUF) b dev blockno) (\<lambda>c.
     case c of
       Some b \<Rightarrow> thenM (upd_buf b (\<lambda>v. v\<lparr>b_refcnt := b_refcnt v + 1\<rparr>))
                (thenM (release L_bcache)
                (thenM (acquiresleep (SL_buf b))
                (retM b)))
     | None \<Rightarrow>
         bindM (getM (\<lambda>s. b_prev (bufs s ! HEAD))) (\<lambda>b.
         bindM (bget_unused (Suc NBUF) b) (\<lambda>u.
         case u of
           Some b \<Rightarrow> thenM (upd_buf b (\<lambda>v. v\<lparr>b_dev := dev, b_blockno := blockno,
                        b_valid := False, b_dirty := False, b_refcnt := 1\<rparr>))
                    (thenM (release L_bcache)
                    (thenM (acquiresleep (SL_buf b))
                    (retM b)))
         | None \<Rightarrow> panicM ''bget: no buffers'')))))"

definition bread :: "u32 \<Rightarrow> u32 \<Rightarrow> ('z bst_scheme, nat) kfun" where
  "bread dev blockno =
     bindM (bget dev blockno) (\<lambda>b.
     bindM (getM (\<lambda>s. b_valid (bufs s ! b))) (\<lambda>v.
     thenM (whenM (\<not> v) (iderw b)) (retM b)))"

definition bwrite :: "nat \<Rightarrow> ('z bst_scheme, unit) kfun" where
  "bwrite b =
     bindM (holdingsleep (SL_buf b)) (\<lambda>h.
     thenM (assertM h ''bwrite'')
     (thenM (upd_buf b (\<lambda>v. v\<lparr>b_dirty := True\<rparr>))
     (iderw b)))"

definition unlink_buf :: "nat \<Rightarrow> ('z bst_scheme, unit) kfun" where
  "unlink_buf b =
     bindM (getM (\<lambda>s. bufs s ! b)) (\<lambda>v.
     thenM (upd_buf (b_next v) (\<lambda>w. w\<lparr>b_prev := b_prev v\<rparr>))
     (bindM (getM (\<lambda>s. bufs s ! b)) (\<lambda>v.
     upd_buf (b_prev v) (\<lambda>w. w\<lparr>b_next := b_next v\<rparr>))))"

definition brelse :: "nat \<Rightarrow> ('z bst_scheme, unit) kfun" where
  "brelse b =
     bindM (holdingsleep (SL_buf b)) (\<lambda>h.
     thenM (assertM h ''brelse'')
     (thenM (releasesleep (SL_buf b))
     (thenM (acquire L_bcache)
     (thenM (upd_buf b (\<lambda>v. v\<lparr>b_refcnt := b_refcnt v - 1\<rparr>))
     (bindM (getM (\<lambda>s. b_refcnt (bufs s ! b))) (\<lambda>r.
     thenM (whenM (r = 0) (thenM (unlink_buf b) (link_head b)))
     (release L_bcache)))))))"

section \<open>The list of buffers\<close>

text \<open>
  \<open>chain nx pv a xs h\<close>: from \<open>a\<close> the links lead through \<open>xs\<close> to \<open>h\<close>, and
  back.  \<open>dll\<close> is a circular list with head \<open>h\<close>.
\<close>

fun chain :: "(nat \<Rightarrow> nat) \<Rightarrow> (nat \<Rightarrow> nat) \<Rightarrow> nat \<Rightarrow> nat list \<Rightarrow> nat \<Rightarrow> bool" where
  "chain nx pv a [] h \<longleftrightarrow> nx a = h \<and> pv h = a"
| "chain nx pv a (x # xs) h \<longleftrightarrow> nx a = x \<and> pv x = a \<and> chain nx pv x xs h"

definition dll :: "(nat \<Rightarrow> nat) \<Rightarrow> (nat \<Rightarrow> nat) \<Rightarrow> nat \<Rightarrow> nat list \<Rightarrow> bool" where
  "dll nx pv h xs \<longleftrightarrow> chain nx pv h xs h \<and> distinct (h # xs)"

lemma chain_append: "chain nx pv a (xs @ y # ys) h \<longleftrightarrow> chain nx pv a xs y \<and> chain nx pv y ys h"
  by (induction xs arbitrary: a) auto

lemma chain_cong:
  "(\<And>b. b \<in> insert a (set xs) \<Longrightarrow> nx' b = nx b) \<Longrightarrow> (\<And>b. b \<in> insert h (set xs) \<Longrightarrow> pv' b = pv b)
    \<Longrightarrow> chain nx' pv' a xs h = chain nx pv a xs h"
proof (induction xs arbitrary: a)
  case (Cons x xs)
  have "chain nx' pv' x xs h = chain nx pv x xs h" by (rule Cons.IH) (use Cons.prems in auto)
  then show ?case using Cons.prems(1) [of a] Cons.prems(2) [of x] by simp
qed simp

lemma chain_ends:
  "chain nx pv a xs h \<Longrightarrow> nx a \<in> insert h (set xs)" "chain nx pv a xs h \<Longrightarrow> pv h \<in> insert a (set xs)"
  by (induction xs arbitrary: a) auto

lemma chain_unlink:
  assumes "chain nx pv a (xs @ i # ys) h" "distinct (a # xs @ i # ys)" "h \<notin> set xs" "h \<notin> set ys" "h \<noteq> i"
  shows "chain (nx(pv i := nx i)) (pv(nx i := pv i)) a (xs @ ys) h"
  using assms
proof (induction xs arbitrary: a)
  case Nil
  show ?case
  proof (cases ys)
    case (Cons y zs)
    have "chain (nx(a := y)) (pv(y := a)) y zs h = chain nx pv y zs h"
      by (rule chain_cong) (use Cons Nil in auto)
    then show ?thesis using Cons Nil by (auto simp: fun_upd_def)
  qed (use Nil in simp)
next
  case (Cons x xs)
  have c: "chain nx pv x xs i" "chain nx pv i ys h" using Cons.prems(1) by (simp_all add: chain_append)
  have "pv i \<noteq> a" using chain_ends(2) [OF c(1)] Cons.prems(2) by auto
  moreover have "nx i \<noteq> x" using chain_ends(1) [OF c(2)] Cons.prems by auto
  ultimately show ?case using Cons by simp
qed

lemma dll_unlink:
  "dll nx pv h (xs @ i # ys) \<Longrightarrow> dll (nx(pv i := nx i)) (pv(nx i := pv i)) h (xs @ ys)"
  using chain_unlink [of nx pv h xs i ys h] by (auto simp: dll_def)

lemma dll_insert:
  assumes "dll nx pv h xs" "i \<noteq> h" "i \<notin> set xs"
  shows "dll (nx(i := nx h, h := i)) (pv(i := h, nx h := i)) h (i # xs)"
proof (cases xs)
  case Nil
  then show ?thesis using assms by (auto simp: dll_def)
next
  case (Cons x ys)
  have "chain (nx(i := x, h := i)) (pv(i := h, x := i)) x ys h = chain nx pv x ys h"
    by (rule chain_cong) (use assms Cons in \<open>auto simp: dll_def\<close>)
  then show ?thesis using assms Cons by (auto simp: dll_def)
qed

lemma chain_rev: "chain nx pv a xs h \<Longrightarrow> chain pv nx h (rev xs) a"
  by (induction xs arbitrary: a) (auto simp: chain_append)

abbreviation (input) bnext :: "'z bst_scheme \<Rightarrow> nat \<Rightarrow> nat" where "bnext s \<equiv> (\<lambda>i. b_next (bufs s ! i))"
abbreviation (input) bprev :: "'z bst_scheme \<Rightarrow> nat \<Rightarrow> nat" where "bprev s \<equiv> (\<lambda>i. b_prev (bufs s ! i))"

lemma upd_buf_apply [kcode]: "upd_buf i f s = Ok () (s\<lparr>bufs := (bufs s)[i := f (bufs s ! i)]\<rparr>)"
  by (simp add: upd_buf_def kcode)

lemma bget_cached_eq:
  assumes "chain (bnext s) pv a xs HEAD" "HEAD \<notin> set xs" "length xs < n"
  shows "bget_cached n (bnext s a) dev bno s
    = Ok (find (\<lambda>i. b_dev (bufs s ! i) = dev \<and> b_blockno (bufs s ! i) = bno) xs) s"
  using assms
proof (induction xs arbitrary: a n)
  case Nil
  then show ?case by (cases n) (simp_all add: kcode)
next
  case (Cons x xs)
  then obtain k where "n = Suc k" by (cases n) simp_all
  then show ?case using Cons by (simp add: kcode)
qed

lemma bget_unused_eq:
  assumes "chain (bprev s) nx a xs HEAD" "HEAD \<notin> set xs" "length xs < n"
  shows "bget_unused n (bprev s a) s
    = Ok (find (\<lambda>i. b_refcnt (bufs s ! i) = 0 \<and> \<not> b_dirty (bufs s ! i)) xs) s"
  using assms
proof (induction xs arbitrary: a n)
  case Nil
  then show ?case by (cases n) (simp_all add: kcode)
next
  case (Cons x xs)
  then obtain k where "n = Suc k" by (cases n) simp_all
  then show ?case using Cons by (simp add: kcode)
qed

section \<open>The cache as a view of the disk\<close>

text \<open>
  \<open>lru s xs\<close>: the buffers are linked in the order \<open>xs\<close>, each once.
\<close>

definition lru :: "'z bst_scheme \<Rightarrow> nat list \<Rightarrow> bool" where
  "lru s xs \<longleftrightarrow> length (bufs s) = Suc NBUF \<and> dll (bnext s) (bprev s) HEAD xs \<and> set xs = {..<NBUF}"

text \<open>The buffer that holds block \<open>b\<close> of the disk, and the block's contents as the kernel sees them.\<close>

definition caches :: "'z bst_scheme \<Rightarrow> nat \<Rightarrow> nat \<Rightarrow> bool" where
  "caches s i b \<longleftrightarrow> i < NBUF \<and> b_dev (bufs s ! i) = 1 \<and> unat (b_blockno (bufs s ! i)) = b"

definition bufof :: "'z bst_scheme \<Rightarrow> nat \<Rightarrow> nat option" where
  "bufof s b = find (\<lambda>i. caches s i b) [0..<NBUF]"

definition blk :: "'z bst_scheme \<Rightarrow> nat \<Rightarrow> bytes" where
  "blk s b = (case bufof s b of None \<Rightarrow> disk s ! b
     | Some i \<Rightarrow> if b_valid (bufs s ! i) then b_data (bufs s ! i) else disk s ! b)"

text \<open>
  \<open>bcache_ok s H\<close>: a process runs with no spin lock held, \<open>H\<close> are the buffers
  it has locked, nobody else uses the cache; a block is cached at most once,
  and a buffer that is neither locked nor dirty agrees with the disk.
\<close>

definition buf_ok :: "'z bst_scheme \<Rightarrow> nat set \<Rightarrow> nat \<Rightarrow> bool" where
  "buf_ok s H i \<longleftrightarrow> (let v = bufs s ! i in
     length (b_data v) = BSIZE
     \<and> (b_valid v \<or> b_dirty v \<or> b_dev v = 1 \<or> i \<in> H \<longrightarrow> b_dev v = 1 \<and> unat (b_blockno v) < length (disk s) \<and> b_valid v)
     \<and> (i \<in> H \<longrightarrow> mine (SL_buf i) s \<and> b_refcnt v = 1)
     \<and> (i \<notin> H \<longrightarrow> \<not> sl_locked (slks s (SL_buf i)) \<and> b_refcnt v = 0
          \<and> (b_valid v \<longrightarrow> \<not> b_dirty v \<longrightarrow> b_data v = disk s ! unat (b_blockno v))))"

definition uniq_bufs :: "'z bst_scheme \<Rightarrow> bool" where
  "uniq_bufs s \<longleftrightarrow> (\<forall>i j b. caches s i b \<longrightarrow> caches s j b \<longrightarrow> i = j)"

definition bcache_ok :: "'z bst_scheme \<Rightarrow> nat set \<Rightarrow> bool" where
  "bcache_ok s H \<longleftrightarrow> kok s \<and> (\<exists>xs. lru s xs) \<and> H \<subseteq> {..<NBUF} \<and> uniq_bufs s
     \<and> (\<forall>i < NBUF. buf_ok s H i \<and> no_sleeper (Ch_slk (SL_buf i)) s)
     \<and> (\<forall>d \<in> set (disk s). length d = BSIZE) \<and> length (disk s) < 2 ^ 32"

lemma bufof_Some: "uniq_bufs s \<Longrightarrow> bufof s b = Some i \<longleftrightarrow> caches s i b"
  unfolding bufof_def find_upt_Some
  by (auto simp: uniq_bufs_def caches_def)

lemma bufof_None: "bufof s b = None \<longleftrightarrow> (\<forall>i. \<not> caches s i b)"
  unfolding bufof_def find_upt_None by (auto simp: caches_def)

lemma blk_cached:
  "uniq_bufs s \<Longrightarrow> caches s i b \<Longrightarrow> blk s b = (if b_valid (bufs s ! i) then b_data (bufs s ! i) else disk s ! b)"
  by (simp add: blk_def bufof_Some [THEN iffD2])

lemma blk_uncached: "(\<And>i. \<not> caches s i b) \<Longrightarrow> blk s b = disk s ! b"
  by (simp add: blk_def bufof_None [THEN iffD2])

text \<open>What the cache's routines leave alone: everything but the cache and the disk.\<close>

definition bframe :: "'z bst_scheme \<Rightarrow> 'z bst_scheme \<Rightarrow> bool" where
  "bframe s t \<longleftrightarrow> (\<exists>sl bf d w. t = s\<lparr>slks := sl, bufs := bf, disk := d, dwrites := w\<rparr>
     \<and> (\<forall>k. (\<forall>i. k \<noteq> SL_buf i) \<longrightarrow> sl k = slks s k))"

lemma bframeI:
  assumes "t = s\<lparr>slks := slks t, bufs := bufs t, disk := disk t, dwrites := dwrites t\<rparr>"
    and "\<And>k. (\<And>i. k \<noteq> SL_buf i) \<Longrightarrow> slks t k = slks s k"
  shows "bframe s t"
  unfolding bframe_def using assms by blast

lemma bframe_refl [simp]: "bframe s s"
  by (rule bframeI) simp_all

lemma bframe_trans:
  assumes "bframe s t" "bframe t u"
  shows "bframe s u"
proof -
  obtain sl bf d w sl' bf' d' w' where t: "t = s\<lparr>slks := sl, bufs := bf, disk := d, dwrites := w\<rparr>"
    "\<forall>k. (\<forall>i. k \<noteq> SL_buf i) \<longrightarrow> sl k = slks s k"
    and u: "u = t\<lparr>slks := sl', bufs := bf', disk := d', dwrites := w'\<rparr>"
    "\<forall>k. (\<forall>i. k \<noteq> SL_buf i) \<longrightarrow> sl' k = slks t k"
    using assms by (auto simp: bframe_def)
  have "u = s\<lparr>slks := sl', bufs := bf', disk := d', dwrites := w'\<rparr>" unfolding u(1) t(1) by simp
  then show ?thesis using t u by (intro bframeI) simp_all
qed

lemma bframeD:
  assumes "bframe s t"
  shows "held t = held s" "cur t = cur s" "procs t = procs s" "mypid t = mypid s" "kok t = kok s"
    "no_sleeper ch t = no_sleeper ch s"
  using assms by (auto simp: bframe_def mypid_def kok_def no_sleeper_def)

lemma lru_cong:
  assumes "lru s xs" "length (bufs t) = length (bufs s)"
    and "\<And>j. j < Suc NBUF \<Longrightarrow> bnext t j = bnext s j \<and> bprev t j = bprev s j"
  shows "lru t xs"
proof -
  have "chain (bnext t) (bprev t) HEAD xs HEAD = chain (bnext s) (bprev s) HEAD xs HEAD"
    by (rule chain_cong) (use assms in \<open>auto simp: lru_def less_Suc_eq\<close>)
  then show ?thesis using assms by (simp add: lru_def dll_def)
qed

text \<open>The buffers' contents: everything but their links.\<close>

definition same_buf :: "buf \<Rightarrow> buf \<Rightarrow> bool" where
  "same_buf v w \<longleftrightarrow> b_valid v = b_valid w \<and> b_dirty v = b_dirty w \<and> b_dev v = b_dev w
     \<and> b_blockno v = b_blockno w \<and> b_refcnt v = b_refcnt w \<and> b_data v = b_data w"

text \<open>
  Every step of the cache in a quiet system changes one buffer \<open>i\<close>: it is
  described by the buffer's new contents, and whether \<open>i\<close> is locked.
\<close>

lemma bcache_ok_step:
  assumes ok: "bcache_ok s H" and fr: "bframe s t" and l: "\<exists>xs. lru t xs" and i: "i < NBUF"
    and others: "\<And>j. j < NBUF \<Longrightarrow> j \<noteq> i \<Longrightarrow> same_buf (bufs t ! j) (bufs s ! j) \<and> slks t (SL_buf j) = slks s (SL_buf j)"
    and H: "H' - {i} = H - {i}" and own: "buf_ok t H' i"
    and u: "\<And>j b. j \<noteq> i \<Longrightarrow> caches t i b \<Longrightarrow> \<not> caches s j b"
    and d: "length (disk t) = length (disk s)" "\<forall>d \<in> set (disk t). length d = BSIZE"
    and dd: "\<And>j. j < NBUF \<Longrightarrow> j \<noteq> i \<Longrightarrow> b_valid (bufs s ! j) \<Longrightarrow>
       disk t ! unat (b_blockno (bufs s ! j)) = disk s ! unat (b_blockno (bufs s ! j))"
  shows "bcache_ok t H'"
proof -
  note frD = bframeD [OF fr]
  have c: "caches t j b = caches s j b" if "j \<noteq> i" for j b
    using others [of j] that by (auto simp: caches_def same_buf_def)
  have "uniq_bufs t" unfolding uniq_bufs_def
  proof (intro allI impI)
    fix j k b assume jk: "caches t j b" "caches t k b"
    show "j = k"
    proof (cases "j = i \<or> k = i")
      case True
      then show ?thesis using jk u [of j b] u [of k b] c by metis
    next
      case False
      then show ?thesis using jk c ok by (auto simp: bcache_ok_def uniq_bufs_def)
    qed
  qed
  moreover have "buf_ok t H' j" if j: "j < NBUF" for j
  proof (cases "j = i")
    case False
    have "j \<in> H' \<longleftrightarrow> j \<in> H" using H False by blast
    moreover have "buf_ok s H j" using ok j by (simp add: bcache_ok_def)
    ultimately show ?thesis
      using others [OF j False] dd [OF j False] d(1) frD(4)
      by (auto simp: buf_ok_def Let_def same_buf_def mine_def)
  qed (use own in simp)
  moreover have "H' \<subseteq> {..<NBUF}"
  proof -
    have "H' \<subseteq> insert i H" using H by blast
    then show ?thesis using ok i by (auto simp: bcache_ok_def)
  qed
  ultimately show ?thesis using ok l d frD by (simp add: bcache_ok_def)
qed

text \<open>How the blocks read when only buffer \<open>i\<close> changed, and it holds block \<open>b\<close> afterwards.\<close>

lemma blk_step:
  assumes u: "uniq_bufs s" "uniq_bufs t" and i: "caches t i b" "b_valid (bufs t ! i)"
    and others: "\<And>j. j < NBUF \<Longrightarrow> j \<noteq> i \<Longrightarrow> same_buf (bufs t ! j) (bufs s ! j)"
    and gone: "\<And>c. c \<noteq> b \<Longrightarrow> caches s i c \<Longrightarrow> b_valid (bufs s ! i) \<Longrightarrow> b_data (bufs s ! i) = disk s ! c"
    and d: "\<And>c. c \<noteq> b \<Longrightarrow> disk t ! c = disk s ! c"
  shows "blk t = (blk s)(b := b_data (bufs t ! i))"
proof
  fix c
  have same: "caches t j c = caches s j c" if "j \<noteq> i" for j
    using others [of j] that by (auto simp: caches_def same_buf_def)
  show "blk t c = ((blk s)(b := b_data (bufs t ! i))) c"
  proof (cases "c = b")
    case True
    then show ?thesis using blk_cached [OF u(2) i(1)] i(2) by simp
  next
    case False
    then have ni: "\<not> caches t i c" using i(1) by (auto simp: caches_def)
    show ?thesis
    proof (cases "\<exists>j. caches t j c")
      case True
      then obtain j where j: "caches t j c" by blast
      then have "j \<noteq> i" "j < NBUF" using ni by (auto simp: caches_def)
      then show ?thesis
        using j same blk_cached [OF u(1), of j c] blk_cached [OF u(2) j] others [of j] d False
        by (auto simp: same_buf_def)
    next
      case none: False
      then have t: "blk t c = disk s ! c" using d False by (simp add: blk_uncached)
      show ?thesis
      proof (cases "caches s i c")
        case True
        then show ?thesis using t False gone [OF False True] blk_cached [OF u(1) True] by simp
      next
        case ns: False
        have "\<not> caches s j c" for j using same [of j] none ns by (cases "j = i") auto
        then show ?thesis using t False by (simp add: blk_uncached)
      qed
    qed
  qed
qed

section \<open>bget(), bread()\<close>

lemma lru_lengths: "lru s xs \<Longrightarrow> length xs = NBUF"
proof -
  assume l: "lru s xs"
  have "distinct xs" using l unfolding lru_def dll_def distinct.simps by blast
  then have "length xs = card (set xs)" by (rule distinct_card [symmetric])
  also have "set xs = {..<NBUF}" using l unfolding lru_def by blast
  finally show "length xs = NBUF" by simp
qed

lemma find_in: "find P xs = Some i \<Longrightarrow> i \<in> set xs \<and> P i"
  by (auto simp: find_Some_iff)

lemma find_unique:
  assumes "i \<in> set xs" "P i" and u: "\<And>j. j \<in> set xs \<Longrightarrow> P j \<Longrightarrow> j = i"
  shows "find P xs = Some i"
proof (cases "find P xs")
  case None
  then show ?thesis using assms(1,2) unfolding find_None_iff by blast
next
  case (Some j)
  then show ?thesis using find_in [OF Some] u by blast
qed

lemma bget_hit:
  assumes ok: "bcache_ok s H" and c: "caches s i (unat b)" and i: "i \<notin> H"
  shows "bget 1 b s = Ok i (s\<lparr>bufs := (bufs s)[i := (bufs s ! i)\<lparr>b_refcnt := 1\<rparr>],
    slks := (slks s)(SL_buf i := \<lparr>sl_locked = True, sl_pid = mypid s\<rparr>)\<rparr>)"
proof -
  obtain xs where xs: "lru s xs" using ok by (auto simp: bcache_ok_def)
  let ?s = "s\<lparr>held := [L_bcache]\<rparr>" and ?P = "\<lambda>i. b_dev (bufs s ! i) = 1 \<and> b_blockno (bufs s ! i) = b"
  have iN: "i < NBUF" and bi: "buf_ok s H i" using ok c by (auto simp: caches_def bcache_ok_def)
  have "find ?P xs = Some i"
  proof (rule find_unique)
    show "i \<in> set xs" "?P i" using xs c by (auto simp: lru_def caches_def intro: unsigned_word_eqI)
    fix j assume "j \<in> set xs" "?P j"
    then have "caches s j (unat b)" using xs by (auto simp: caches_def lru_def)
    then show "j = i" using ok c by (auto simp: bcache_ok_def uniq_bufs_def)
  qed
  then have f: "bget_cached (Suc NBUF) (b_next (bufs s ! HEAD)) 1 b ?s = Ok (Some i) ?s"
    using bget_cached_eq [of ?s "bprev s" HEAD xs "Suc NBUF" 1 b] xs lru_lengths [OF xs]
    by (simp add: lru_def dll_def)
  have h: "held s = []" using ok by (simp add: bcache_ok_def kok_def)
  let ?t = "s\<lparr>bufs := (bufs s)[i := (bufs s ! i)\<lparr>b_refcnt := 1\<rparr>]\<rparr>"
  have "kok ?t" "\<not> sl_locked (slks ?t (SL_buf i))" "mypid ?t = mypid s"
    using ok bi i by (auto simp: bcache_ok_def kok_def buf_ok_def Let_def mypid_def)
  note a = acquiresleep_free [OF this(1,2)] this(3)
  have r: "b_refcnt (bufs s ! i) + 1 = 1" using bi i by (simp add: buf_ok_def Let_def)
  have s0: "s\<lparr>bufs := X, held := []\<rparr> = s\<lparr>bufs := X\<rparr>" for X using h by (cases s) simp
  show ?thesis
    using f h a r by (simp add: bget_def kcode s0 del: bget_cached.simps)
qed

lemma bget_miss:
  assumes ok: "bcache_ok s H" and c: "\<And>i. \<not> caches s i (unat b)" and room: "j < NBUF" "j \<notin> H" "\<not> b_dirty (bufs s ! j)"
  shows "\<exists>i < NBUF. i \<notin> H \<and> \<not> b_dirty (bufs s ! i)
    \<and> bget 1 b s = Ok i (s\<lparr>bufs := (bufs s)[i := (bufs s ! i)\<lparr>b_dev := 1, b_blockno := b,
                        b_valid := False, b_dirty := False, b_refcnt := 1\<rparr>],
      slks := (slks s)(SL_buf i := \<lparr>sl_locked = True, sl_pid = mypid s\<rparr>)\<rparr>)"
proof -
  obtain xs where xs: "lru s xs" using ok by (auto simp: bcache_ok_def)
  let ?s = "s\<lparr>held := [L_bcache]\<rparr>" and ?P = "\<lambda>i. b_dev (bufs s ! i) = 1 \<and> b_blockno (bufs s ! i) = b"
  let ?Q = "\<lambda>i. b_refcnt (bufs s ! i) = 0 \<and> \<not> b_dirty (bufs s ! i)"
  have "find ?P xs = None" using c xs by (auto simp: find_None_iff lru_def caches_def)
  then have f: "bget_cached (Suc NBUF) (b_next (bufs s ! HEAD)) 1 b ?s = Ok None ?s"
    using bget_cached_eq [of ?s "bprev s" HEAD xs "Suc NBUF" 1 b] xs lru_lengths [OF xs]
    by (simp add: lru_def dll_def)
  have bj: "buf_ok s H j" using ok room by (simp add: bcache_ok_def)
  have "find ?Q (rev xs) \<noteq> None"
    using bj room xs by (auto simp: find_None_iff lru_def buf_ok_def Let_def)
  then obtain i where i: "find ?Q (rev xs) = Some i" by blast
  then have "i \<in> set xs" "?Q i" using find_in [of ?Q "rev xs" i] by simp_all
  then have iN: "i < NBUF" using xs by (auto simp: lru_def)
  have bi: "buf_ok s H i" using ok iN by (simp add: bcache_ok_def)
  then have iH: "i \<notin> H" using \<open>?Q i\<close> by (auto simp: buf_ok_def Let_def)
  have g: "bget_unused (Suc NBUF) (b_prev (bufs s ! HEAD)) ?s = Ok (Some i) ?s"
    using bget_unused_eq [of ?s "bnext s" HEAD "rev xs" "Suc NBUF"] xs lru_lengths [OF xs] i chain_rev
    by (simp add: lru_def dll_def)
  have h: "held s = []" using ok by (simp add: bcache_ok_def kok_def)
  let ?v = "(bufs s ! i)\<lparr>b_dev := 1, b_blockno := b, b_valid := False, b_dirty := False, b_refcnt := 1\<rparr>"
  let ?t = "s\<lparr>bufs := (bufs s)[i := ?v]\<rparr>"
  have "kok ?t" "\<not> sl_locked (slks ?t (SL_buf i))" "mypid ?t = mypid s"
    using ok bi iH by (auto simp: bcache_ok_def kok_def buf_ok_def Let_def mypid_def)
  note a = acquiresleep_free [OF this(1,2)] this(3)
  have s0: "s\<lparr>bufs := X, held := []\<rparr> = s\<lparr>bufs := X\<rparr>" for X using h by (cases s) simp
  have "bget 1 b s = Ok i (s\<lparr>bufs := (bufs s)[i := ?v],
      slks := (slks s)(SL_buf i := \<lparr>sl_locked = True, sl_pid = mypid s\<rparr>)\<rparr>)"
    using f g h a by (simp add: bget_def kcode s0 del: bget_cached.simps bget_unused.simps)
  then show ?thesis using iN iH \<open>?Q i\<close> by blast
qed

text \<open>The buffers \<open>D\<close> whose block is changed in the cache only.\<close>

definition dirties :: "'z bst_scheme \<Rightarrow> nat set" where
  "dirties s = {i. i < NBUF \<and> b_dirty (bufs s ! i)}"

lemma lru_upd:
  assumes "lru s xs" "b_next v = b_next (bufs s ! i)" "b_prev v = b_prev (bufs s ! i)"
    and t: "bufs t = (bufs s)[i := v]"
  shows "lru t xs"
proof (rule lru_cong [OF assms(1)])
  show "length (bufs t) = length (bufs s)" by (simp add: t)
  show "bnext t j = bnext s j \<and> bprev t j = bprev s j" for j
    by (cases "i < length (bufs s)"; cases "j = i") (simp_all add: t assms(2,3) list_update_beyond)
qed

text \<open>
  bread(): the buffer it returns is locked, is not one the caller had, and
  holds the block; what the blocks contain and which buffers are dirty stays.
\<close>

lemma bread_ok:
  assumes ok: "bcache_ok s H" and b: "unat b < length (disk s)"
    and nh: "\<And>i. i \<in> H \<Longrightarrow> \<not> caches s i (unat b)"
    and room: "(\<exists>i. caches s i (unat b)) \<or> (\<exists>j < NBUF. j \<notin> H \<and> \<not> b_dirty (bufs s ! j))"
  obtains i t where "bread 1 b s = Ok i t" "i < NBUF" "i \<notin> H" "bcache_ok t (insert i H)"
    "caches t i (unat b)" "b_data (bufs t ! i) = blk s (unat b)" "blk t = blk s"
    "disk t = disk s" "dwrites t = dwrites s" "dirties t = dirties s" "bframe s t"
    "\<And>j. j \<noteq> i \<Longrightarrow> bufs t ! j = bufs s ! j" "i \<in> dirties s \<Longrightarrow> caches s i (unat b)"
proof -
  have len: "length (bufs s) = Suc NBUF" using ok by (auto simp: bcache_ok_def lru_def)
  have uq: "uniq_bufs s" and k: "kok s" using ok by (simp_all add: bcache_ok_def)
  note finish = that
  have core: thesis
    if i: "i < NBUF" "i \<notin> H"
      and v: "b_next v = b_next (bufs s ! i)" "b_prev v = b_prev (bufs s ! i)" "b_dev v = 1" "b_blockno v = b"
        "b_valid v" "b_refcnt v = 1" "b_data v = blk s (unat b)" "b_dirty v = b_dirty (bufs s ! i)"
      and t: "t = s\<lparr>bufs := (bufs s)[i := v], slks := (slks s)(SL_buf i := \<lparr>sl_locked = True, sl_pid = mypid s\<rparr>)\<rparr>"
      and run: "bread 1 b s = Ok i t"
      and c: "\<And>j. j \<noteq> i \<Longrightarrow> \<not> caches s j (unat b)"
      and dc: "b_dirty (bufs s ! i) \<Longrightarrow> caches s i (unat b)" for i v t
  proof -
    have ti: "bufs t ! i = v" "\<And>j. j \<noteq> i \<Longrightarrow> bufs t ! j = bufs s ! j" using i len by (simp_all add: t)
    have ct: "caches t i (unat b)" using i v by (simp add: caches_def ti)
    have fr: "bframe s t" by (rule bframeI) (simp_all add: t)
    have bi: "buf_ok s H i" using ok i by (simp add: bcache_ok_def)
    have bl: "length (blk s (unat b)) = BSIZE"
    proof (cases "\<exists>i. caches s i (unat b)")
      case True
      then obtain j where j: "caches s j (unat b)" by blast
      then have "buf_ok s H j" using ok by (auto simp: bcache_ok_def caches_def)
      then show ?thesis using j blk_cached [OF uq j] by (auto simp: buf_ok_def Let_def caches_def)
    next
      case False
      then show ?thesis using ok b by (simp add: blk_uncached bcache_ok_def)
    qed
    have ok': "bcache_ok t (insert i H)"
    proof (rule bcache_ok_step [OF ok fr _ i(1)])
      show "\<exists>xs. lru t xs" using ok lru_upd [of s _ v i t] v by (auto simp: bcache_ok_def t)
      show "buf_ok t (insert i H) i"
        using i v bl b by (simp add: buf_ok_def Let_def ti mine_def mypid_def) (simp add: t mypid_def)
      show "\<not> caches s j c" if "j \<noteq> i" "caches t i c" for j c
        using that c [of j] ct by (simp add: caches_def [of t])
    qed (use ok t in \<open>auto simp: same_buf_def bcache_ok_def\<close>)
    have "blk t = (blk s)(unat b := b_data (bufs t ! i))"
    proof (rule blk_step [OF uq _ ct])
      show "uniq_bufs t" using ok' by (simp add: bcache_ok_def)
      show "b_data (bufs s ! i) = disk s ! c" if "c \<noteq> unat b" "caches s i c" "b_valid (bufs s ! i)" for c
        using that bi i dc by (auto simp: buf_ok_def Let_def caches_def)
    qed (use v ti t in \<open>auto simp: same_buf_def\<close>)
    then have bt: "blk t = blk s" using v ti by simp
    have "dirties t = dirties s" using v ti by (auto simp: dirties_def) (metis ti)+
    then show thesis
      using finish [OF run i ok' ct _ bt] v ti fr dc by (simp add: t dirties_def)
  qed
  show thesis
  proof (cases "\<exists>i. caches s i (unat b)")
    case True
    then obtain i where c: "caches s i (unat b)" by blast
    then have iN: "i < NBUF" and iH: "i \<notin> H" and bi: "buf_ok s H i"
      using nh ok by (auto simp: caches_def bcache_ok_def)
    have val: "b_valid (bufs s ! i)" using bi c by (auto simp: buf_ok_def Let_def caches_def)
    show thesis
    proof (rule core [OF iN iH, where v = "(bufs s ! i)\<lparr>b_refcnt := 1\<rparr>"])
      show "bread 1 b s = Ok i (s\<lparr>bufs := (bufs s)[i := (bufs s ! i)\<lparr>b_refcnt := 1\<rparr>],
          slks := (slks s)(SL_buf i := \<lparr>sl_locked = True, sl_pid = mypid s\<rparr>)\<rparr>)"
        using bget_hit [OF ok c iH] val len iN by (simp add: bread_def kcode)
      show "\<not> caches s j (unat b)" if "j \<noteq> i" for j using that c uq by (auto simp: uniq_bufs_def)
    qed (use c val blk_cached [OF uq c] in \<open>auto simp: caches_def intro: unsigned_word_eqI\<close>)
  next
    case False
    then have c: "\<And>i. \<not> caches s i (unat b)" by blast
    obtain j where j: "j < NBUF" "j \<notin> H" "\<not> b_dirty (bufs s ! j)" using room c by blast
    obtain i where iN: "i < NBUF" and iH: "i \<notin> H" and nd: "\<not> b_dirty (bufs s ! i)"
      and g: "bget 1 b s = Ok i (s\<lparr>bufs := (bufs s)[i := (bufs s ! i)\<lparr>b_dev := 1, b_blockno := b,
                        b_valid := False, b_dirty := False, b_refcnt := 1\<rparr>],
      slks := (slks s)(SL_buf i := \<lparr>sl_locked = True, sl_pid = mypid s\<rparr>)\<rparr>)" (is "_ = Ok i ?u")
      using bget_miss [OF ok c j] by blast
    have "kok ?u" "mine (SL_buf i) ?u" using k by (simp_all add: kok_def mine_def mypid_def)
    then have run: "bread 1 b s = Ok i (s\<lparr>bufs := (bufs s)[i := (bufs s ! i)\<lparr>b_dev := 1, b_blockno := b,
          b_dirty := False, b_refcnt := 1, b_data := disk s ! unat b, b_valid := True\<rparr>],
          slks := (slks s)(SL_buf i := \<lparr>sl_locked = True, sl_pid = mypid s\<rparr>)\<rparr>)"
      using g len iN b by (simp add: bread_def iderw_def kcode)
    show thesis
      by (rule core [OF iN iH _ _ _ _ _ _ _ _ refl run]) (use c nd blk_uncached [OF c] in simp_all)
  qed
qed

section \<open>Changing, writing and releasing a locked buffer\<close>

text \<open>Effects on the links, as functions.\<close>

definition relinked :: "'z bst_scheme \<Rightarrow> 'z bst_scheme \<Rightarrow> (nat \<Rightarrow> nat) \<Rightarrow> (nat \<Rightarrow> nat) \<Rightarrow> bool" where
  "relinked s t nx pv \<longleftrightarrow> t = s\<lparr>bufs := bufs t\<rparr> \<and> length (bufs t) = length (bufs s)
     \<and> bnext t = nx \<and> bprev t = pv \<and> (\<forall>j. same_buf (bufs t ! j) (bufs s ! j))"

lemma relinked_next:
  "k < length (bufs s) \<Longrightarrow> relinked s (s\<lparr>bufs := (bufs s)[k := (bufs s ! k)\<lparr>b_next := v\<rparr>]\<rparr>) ((bnext s)(k := v)) (bprev s)"
  by (auto simp: relinked_def same_buf_def nth_list_update fun_eq_iff)

lemma relinked_prev:
  "k < length (bufs s) \<Longrightarrow> relinked s (s\<lparr>bufs := (bufs s)[k := (bufs s ! k)\<lparr>b_prev := v\<rparr>]\<rparr>) (bnext s) ((bprev s)(k := v))"
  by (auto simp: relinked_def same_buf_def nth_list_update fun_eq_iff)

lemma relinked_trans:
  assumes "relinked s t nx pv" "relinked t u nx' pv'"
  shows "relinked s u nx' pv'"
proof -
  have "u = s\<lparr>bufs := bufs t\<rparr>\<lparr>bufs := bufs u\<rparr>" using assms unfolding relinked_def by metis
  then have "u = s\<lparr>bufs := bufs u\<rparr>" by simp
  then show ?thesis using assms by (auto simp: relinked_def same_buf_def)
qed

lemma link_head_eff:
  assumes "length (bufs s) = Suc NBUF" "i < NBUF" "bnext s HEAD < Suc NBUF"
  obtains t where "link_head i s = Ok () t"
    "relinked s t ((bnext s)(i := bnext s HEAD, HEAD := i)) ((bprev s)(i := HEAD, bnext s HEAD := i))"
proof -
  let ?h = "bnext s HEAD"
  define a where "a = s\<lparr>bufs := (bufs s)[i := (bufs s ! i)\<lparr>b_next := ?h\<rparr>]\<rparr>"
  define b where "b = a\<lparr>bufs := (bufs a)[i := (bufs a ! i)\<lparr>b_prev := HEAD\<rparr>]\<rparr>"
  define c where "c = b\<lparr>bufs := (bufs b)[?h := (bufs b ! ?h)\<lparr>b_prev := i\<rparr>]\<rparr>"
  define d where "d = c\<lparr>bufs := (bufs c)[HEAD := (bufs c ! HEAD)\<lparr>b_next := i\<rparr>]\<rparr>"
  have len: "length (bufs a) = Suc NBUF" "length (bufs b) = Suc NBUF" "length (bufs c) = Suc NBUF"
    using assms by (simp_all add: a_def b_def c_def)
  have sa: "relinked s a ((bnext s)(i := ?h)) (bprev s)" unfolding a_def by (rule relinked_next) (use assms in simp)
  have ab: "relinked a b (bnext a) ((bprev a)(i := HEAD))" unfolding b_def by (rule relinked_prev) (use assms len in simp)
  have bc: "relinked b c (bnext b) ((bprev b)(?h := i))" unfolding c_def by (rule relinked_prev) (use assms len in simp)
  have cd: "relinked c d ((bnext c)(HEAD := i)) (bprev c)" unfolding d_def by (rule relinked_next) (use assms len in simp)
  have nx: "bnext a = (bnext s)(i := ?h)" "bnext b = bnext a" "bnext c = bnext b"
    and pv: "bprev a = bprev s" "bprev b = (bprev a)(i := HEAD)" "bprev c = (bprev b)(?h := i)"
    using sa ab bc by (simp_all add: relinked_def)
  have hb: "b_next (bufs b ! HEAD) = ?h"
    using fun_cong [OF nx(2), of HEAD] fun_cong [OF nx(1), of HEAD] assms by simp
  have "link_head i s = Ok () d"
    unfolding link_head_def using hb by (simp add: kcode a_def [symmetric] b_def [symmetric] c_def [symmetric] d_def [symmetric])
  moreover have "relinked s d ((bnext c)(HEAD := i)) (bprev c)"
    using relinked_trans [OF relinked_trans [OF relinked_trans [OF sa ab] bc] cd] .
  ultimately show ?thesis using that [of d] unfolding nx pv by blast
qed

lemma unlink_buf_eff:
  assumes "length (bufs s) = Suc NBUF" "i < NBUF" "bnext s i < Suc NBUF" "bprev s i < Suc NBUF" "bnext s i \<noteq> i"
  obtains t where "unlink_buf i s = Ok () t"
    "relinked s t ((bnext s)(bprev s i := bnext s i)) ((bprev s)(bnext s i := bprev s i))"
proof -
  let ?n = "bnext s i" and ?p = "bprev s i"
  define a where "a = s\<lparr>bufs := (bufs s)[?n := (bufs s ! ?n)\<lparr>b_prev := ?p\<rparr>]\<rparr>"
  define b where "b = a\<lparr>bufs := (bufs a)[?p := (bufs a ! ?p)\<lparr>b_next := ?n\<rparr>]\<rparr>"
  have sa: "relinked s a (bnext s) ((bprev s)(?n := ?p))" unfolding a_def by (rule relinked_prev) (use assms in simp)
  have len: "length (bufs a) = Suc NBUF" using assms by (simp add: a_def)
  have ab: "relinked a b ((bnext a)(?p := ?n)) (bprev a)" unfolding b_def by (rule relinked_next) (use assms len in simp)
  have "bufs a ! i = bufs s ! i" using assms by (simp add: a_def)
  then have "unlink_buf i s = Ok () b"
    unfolding unlink_buf_def by (simp add: kcode a_def [symmetric] b_def [symmetric])
  moreover have "bnext a = bnext s" "bprev a = (bprev s)(?n := ?p)" using sa by (simp_all add: relinked_def)
  ultimately show ?thesis using that [of b] relinked_trans [OF sa ab] by simp
qed

text \<open>A change to a locked buffer, to the disk at its block, or both.\<close>

lemma locked_step:
  assumes ok: "bcache_ok s H" and i: "i \<in> H" "caches s i b"
    and v: "b_next v = b_next (bufs s ! i)" "b_prev v = b_prev (bufs s ! i)" "b_dev v = 1"
      "b_blockno v = b_blockno (bufs s ! i)" "b_valid v" "b_refcnt v = 1" "length (b_data v) = BSIZE"
    and t: "t = s\<lparr>bufs := (bufs s)[i := v], disk := (disk s)[b := d], dwrites := w\<rparr>" and d: "length d = BSIZE"
  shows "bcache_ok t H" "blk t = (blk s)(b := b_data v)" "bufs t ! i = v" "caches t i b" "bframe s t"
    "dirties t = (if b_dirty v then insert i (dirties s) else dirties s - {i})"
proof -
  have len: "length (bufs s) = Suc NBUF" and uq: "uniq_bufs s" and iN: "i < NBUF"
    using ok i by (auto simp: bcache_ok_def lru_def)
  have bi: "buf_ok s H i" using ok iN by (simp add: bcache_ok_def)
  then have bl: "b < length (disk s)" using i by (auto simp: buf_ok_def Let_def caches_def)
  show ti: "bufs t ! i = v" using iN len by (simp add: t)
  have tj: "\<And>j. j \<noteq> i \<Longrightarrow> bufs t ! j = bufs s ! j" by (simp add: t)
  show ct: "caches t i b" using i v by (simp add: caches_def ti)
  show fr: "bframe s t" by (rule bframeI) (simp_all add: t)
  have other: "unat (b_blockno (bufs s ! j)) \<noteq> b" if "j < NBUF" "j \<noteq> i" "b_valid (bufs s ! j)" for j
  proof -
    have "buf_ok s H j" using ok that by (simp add: bcache_ok_def)
    then have "b_dev (bufs s ! j) = 1" using that by (simp add: buf_ok_def Let_def)
    then show ?thesis using uq i(2) that by (auto simp: uniq_bufs_def caches_def)
  qed
  show ok': "bcache_ok t H"
  proof (rule bcache_ok_step [OF ok fr _ iN])
    show "\<exists>xs. lru t xs" using ok lru_upd [of s _ v i t] v by (auto simp: bcache_ok_def t)
    show "buf_ok t H i"
      using i v bi bl by (simp add: buf_ok_def Let_def ti mine_def mypid_def caches_def) (simp add: t mypid_def)
    show "\<not> caches s j c" if "j \<noteq> i" "caches t i c" for j c
      using that ct i(2) uq by (auto simp: caches_def [of t] uniq_bufs_def)
    show "\<forall>x \<in> set (disk t). length x = BSIZE"
      using ok d set_update_subset_insert [of "disk s" b d] by (auto simp: t bcache_ok_def)
    show "disk t ! unat (b_blockno (bufs s ! j)) = disk s ! unat (b_blockno (bufs s ! j))"
      if "j < NBUF" "j \<noteq> i" "b_valid (bufs s ! j)" for j using other [OF that] by (simp add: t)
  qed (use t in \<open>auto simp: same_buf_def\<close>)
  have "blk t = (blk s)(b := b_data (bufs t ! i))"
  proof (rule blk_step [OF uq _ ct])
    show "uniq_bufs t" using ok' by (simp add: bcache_ok_def)
    show "b_data (bufs s ! i) = disk s ! c" if "c \<noteq> b" "caches s i c" for c
      using that i(2) by (auto simp: caches_def)
  qed (use v ti t in \<open>auto simp: same_buf_def\<close>)
  then show "blk t = (blk s)(b := b_data v)" using ti by simp
  have "j \<in> dirties t \<longleftrightarrow> (if j = i then b_dirty v else j \<in> dirties s)" for j
    using ti tj [of j] iN by (auto simp: dirties_def)
  then show "dirties t = (if b_dirty v then insert i (dirties s) else dirties s - {i})"
    using iN by (auto simp: dirties_def)
qed

lemma disk_upd_same: "(disk s)[b := disk s ! b] = disk s" by simp

text \<open>Writing into the data of a locked buffer.\<close>

lemma locked_edit:
  assumes "bcache_ok s H" "i \<in> H" "caches s i b" "length d = BSIZE"
  defines "t \<equiv> s\<lparr>bufs := (bufs s)[i := (bufs s ! i)\<lparr>b_data := d\<rparr>]\<rparr>"
  shows "bcache_ok t H" "blk t = (blk s)(b := d)" "caches t i b" "bframe s t" "dirties t = dirties s"
    "b_data (bufs t ! i) = d"
proof -
  have iN: "i < NBUF" using assms(3) by (simp add: caches_def)
  have bi: "buf_ok s H i" using assms(1) iN by (simp add: bcache_ok_def)
  have bl: "b < length (disk s)" using bi assms(2,3) by (auto simp: buf_ok_def Let_def caches_def)
  have "t = s\<lparr>bufs := (bufs s)[i := (bufs s ! i)\<lparr>b_data := d\<rparr>], disk := (disk s)[b := disk s ! b], dwrites := dwrites s\<rparr>"
    by (simp add: t_def)
  note st = locked_step [OF assms(1-3) _ _ _ _ _ _ _ this]
  have dl: "length (disk s ! b) = BSIZE" using assms(1) bl by (simp add: bcache_ok_def)
  have v: "b_dev (bufs s ! i) = 1" "b_valid (bufs s ! i)" "b_refcnt (bufs s ! i) = 1"
    using bi assms(2) by (simp_all add: buf_ok_def Let_def)
  show "bcache_ok t H" "blk t = (blk s)(b := d)" "caches t i b" "bframe s t" "b_data (bufs t ! i) = d"
    using st v dl assms(4) by simp_all
  show "dirties t = dirties s"
    using st(6) v dl assms(4) iN by (auto simp: dirties_def split: if_splits)
qed

text \<open>log_write() marks a locked buffer dirty.\<close>

lemma locked_dirty:
  assumes "bcache_ok s H" "i \<in> H" "caches s i b"
  defines "t \<equiv> s\<lparr>bufs := (bufs s)[i := (bufs s ! i)\<lparr>b_dirty := True\<rparr>]\<rparr>"
  shows "bcache_ok t H" "blk t = blk s" "caches t i b" "bframe s t" "dirties t = insert i (dirties s)"
    "b_data (bufs t ! i) = b_data (bufs s ! i)"
proof -
  have iN: "i < NBUF" using assms(3) by (simp add: caches_def)
  have bi: "buf_ok s H i" and uq: "uniq_bufs s" using assms(1) iN by (simp_all add: bcache_ok_def)
  have bl: "b < length (disk s)" using bi assms(2,3) by (auto simp: buf_ok_def Let_def caches_def)
  have "t = s\<lparr>bufs := (bufs s)[i := (bufs s ! i)\<lparr>b_dirty := True\<rparr>], disk := (disk s)[b := disk s ! b], dwrites := dwrites s\<rparr>"
    by (simp add: t_def)
  note st = locked_step [OF assms(1-3) _ _ _ _ _ _ _ this]
  have dl: "length (disk s ! b) = BSIZE" using assms(1) bl by (simp add: bcache_ok_def)
  have v: "b_dev (bufs s ! i) = 1" "b_valid (bufs s ! i)" "b_refcnt (bufs s ! i) = 1" "length (b_data (bufs s ! i)) = BSIZE"
    using bi assms(2) by (simp_all add: buf_ok_def Let_def)
  have "blk s b = b_data (bufs s ! i)" using blk_cached [OF uq assms(3)] v by simp
  then show "blk t = blk s" using st(2) v dl by auto
  show "bcache_ok t H" "caches t i b" "bframe s t" "dirties t = insert i (dirties s)"
    "b_data (bufs t ! i) = b_data (bufs s ! i)" using st v dl by simp_all
qed

text \<open>bwrite(): the buffer's contents reach the disk.\<close>

lemma bwrite_ok:
  assumes ok: "bcache_ok s H" and i: "i \<in> H" "caches s i b"
  obtains t where "bwrite i s = Ok () t" "bcache_ok t H" "blk t = blk s" "caches t i b" "bframe s t"
    "dirties t = dirties s - {i}" "disk t = (disk s)[b := blk s b]" "dwrites t = (b, blk s b) # dwrites s"
    "\<And>j. j \<noteq> i \<Longrightarrow> bufs t ! j = bufs s ! j" "b_data (bufs t ! i) = b_data (bufs s ! i)"
proof -
  have iN: "i < NBUF" using i by (simp add: caches_def)
  have len: "length (bufs s) = Suc NBUF" and k: "kok s" and bi: "buf_ok s H i" and uq: "uniq_bufs s"
    using ok iN by (auto simp: bcache_ok_def lru_def)
  let ?v = "bufs s ! i"
  have v: "b_dev ?v = 1" "b_valid ?v" "b_refcnt ?v = 1" "length (b_data ?v) = BSIZE" "unat (b_blockno ?v) = b"
    "b < length (disk s)" "mine (SL_buf i) s"
    using bi i by (auto simp: buf_ok_def Let_def caches_def)
  have bd: "blk s b = b_data ?v" using blk_cached [OF uq i(2)] v by simp
  define t where "t = s\<lparr>bufs := (bufs s)[i := ?v\<lparr>b_dirty := False, b_valid := True\<rparr>],
    disk := (disk s)[b := b_data ?v], dwrites := (b, b_data ?v) # dwrites s\<rparr>"
  let ?u = "s\<lparr>bufs := (bufs s)[i := ?v\<lparr>b_dirty := True\<rparr>]\<rparr>"
  have u: "kok ?u" "mine (SL_buf i) ?u" using k v by (simp_all add: kok_def mine_def mypid_def)
  have "bwrite i s = Ok () t"
    using holdingsleep_mine [OF k v(7)] holdingsleep_mine [OF u] v iN len
    by (simp add: bwrite_def iderw_def kcode t_def)
  moreover have st: "bcache_ok t H" "blk t = (blk s)(b := b_data ?v)" "caches t i b" "bframe s t"
    "dirties t = dirties s - {i}" "bufs t ! i = ?v\<lparr>b_dirty := False, b_valid := True\<rparr>"
    using locked_step [OF ok i _ _ _ _ _ _ _ t_def v(4)] v by simp_all
  moreover have "disk t = (disk s)[b := blk s b]" "dwrites t = (b, blk s b) # dwrites s"
    "\<And>j. j \<noteq> i \<Longrightarrow> bufs t ! j = bufs s ! j"
    by (simp_all add: t_def bd)
  moreover have "blk t = blk s" unfolding st(2) bd [symmetric] by simp
  moreover have "b_data (bufs t ! i) = b_data ?v" by (simp add: st(6))
  ultimately show ?thesis by (intro that)
qed

text \<open>brelse(): a buffer that agrees with the disk, or is dirty, can be given up.\<close>

lemma dll_bounds:
  assumes "lru s xs" "i < NBUF"
  obtains ys zs where "xs = ys @ i # zs" "bnext s i < Suc NBUF" "bprev s i < Suc NBUF" "bnext s i \<noteq> i"
proof -
  have d: "chain (bnext s) (bprev s) HEAD xs HEAD" "distinct (HEAD # xs)" and sx: "set xs = {..<NBUF}"
    using assms by (simp_all only: lru_def dll_def)
  have "i \<in> set xs" using sx assms(2) by simp
  then obtain ys zs where xs: "xs = ys @ i # zs" by (meson split_list)
  have c: "chain (bnext s) (bprev s) HEAD ys i" "chain (bnext s) (bprev s) i zs HEAD"
    using d(1) by (simp_all add: xs chain_append)
  have "set ys \<union> set zs \<subseteq> set xs" unfolding xs by auto
  then have sub: "j < Suc NBUF" if "j \<in> insert HEAD (set zs \<union> set ys)" for j using that sx by (auto simp: subset_iff)
  have n: "bnext s i \<in> insert HEAD (set zs)" and p: "bprev s i \<in> insert HEAD (set ys)"
    by (rule chain_ends(1) [OF c(2)], rule chain_ends(2) [OF c(1)])
  have "i \<notin> set zs" "i \<noteq> HEAD" using d(2) unfolding xs by auto
  then have "bnext s i \<noteq> i" using n by auto
  then show ?thesis using that [OF xs] sub n p by blast
qed

lemma move_front:
  assumes l: "lru s xs" and i: "i < NBUF"
  obtains t ys where "thenM (unlink_buf i) (link_head i) s = Ok () t" "lru t ys" "t = s\<lparr>bufs := bufs t\<rparr>"
    "\<And>j. same_buf (bufs t ! j) (bufs s ! j)"
proof -
  obtain ys zs where xs: "xs = ys @ i # zs" and b: "bnext s i < Suc NBUF" "bprev s i < Suc NBUF" "bnext s i \<noteq> i"
    using dll_bounds [OF l i] by metis
  have len: "length (bufs s) = Suc NBUF" and d: "dll (bnext s) (bprev s) HEAD xs" and sx: "set xs = {..<NBUF}"
    using l by (simp_all only: lru_def)
  obtain u where u: "unlink_buf i s = Ok () u"
    "relinked s u ((bnext s)(bprev s i := bnext s i)) ((bprev s)(bnext s i := bprev s i))"
    using unlink_buf_eff [OF len i b] by metis
  have du: "dll (bnext u) (bprev u) HEAD (ys @ zs)"
    using dll_unlink [of "bnext s" "bprev s" HEAD ys i zs] d u(2) by (simp add: relinked_def xs)
  have iu: "i \<notin> set (ys @ zs)" and su: "insert i (set (ys @ zs)) = {..<NBUF}"
    using d sx by (auto simp: dll_def xs)
  have "bnext u HEAD \<in> insert HEAD (set (ys @ zs))" using du chain_ends(1) [of "bnext u" "bprev u" HEAD "ys @ zs" HEAD] unfolding dll_def by blast
  moreover have "set (ys @ zs) \<subseteq> {..<NBUF}" unfolding su [symmetric] by blast
  ultimately have h: "bnext u HEAD < Suc NBUF" by (auto dest!: subsetD)
  have lu: "length (bufs u) = Suc NBUF" using u(2) len by (simp add: relinked_def)
  obtain t where t: "link_head i u = Ok () t"
    "relinked u t ((bnext u)(i := bnext u HEAD, HEAD := i)) ((bprev u)(i := HEAD, bnext u HEAD := i))"
    using link_head_eff [OF lu i h] by metis
  have "dll (bnext t) (bprev t) HEAD (i # ys @ zs)"
    using dll_insert [OF du, of i] t(2) i iu by (simp add: relinked_def)
  then have "lru t (i # ys @ zs)" using su lu t(2) by (simp add: lru_def relinked_def)
  then show ?thesis
    using that [of t "i # ys @ zs"] u(1) t(1) relinked_trans [OF u(2) t(2)] by (simp add: kcode relinked_def)
qed

lemma brelse_ok:
  assumes ok: "bcache_ok s H" and i: "i \<in> H" "caches s i b"
    and clean: "i \<in> dirties s \<or> blk s b = disk s ! b"
  obtains t where "brelse i s = Ok () t" "bcache_ok t (H - {i})" "blk t = blk s" "bframe s t"
    "dirties t = dirties s" "disk t = disk s" "dwrites t = dwrites s"
    "\<And>j c. caches t j c = caches s j c" "\<And>j. j \<noteq> i \<Longrightarrow> same_buf (bufs t ! j) (bufs s ! j)"
proof -
  have iN: "i < NBUF" using i by (simp add: caches_def)
  obtain xs where l: "lru s xs" using ok by (auto simp: bcache_ok_def)
  have len: "length (bufs s) = Suc NBUF" and k: "kok s" and bi: "buf_ok s H i" and uq: "uniq_bufs s"
    and ns: "no_sleeper (Ch_slk (SL_buf i)) s"
    using ok iN l by (auto simp: bcache_ok_def lru_def)
  let ?v = "bufs s ! i"
  have v: "b_dev ?v = 1" "b_valid ?v" "b_refcnt ?v = 1" "mine (SL_buf i) s" using bi i by (auto simp: buf_ok_def Let_def)
  have h: "held s = []" using k by (simp add: kok_def)
  let ?sl = "(slks s)(SL_buf i := \<lparr>sl_locked = False, sl_pid = 0\<rparr>)"
  have p0: "s\<lparr>slks := X, procs := procs s\<rparr> = s\<lparr>slks := X\<rparr>" for X by simp
  have rs: "releasesleep (SL_buf i) s = Ok () (s\<lparr>slks := ?sl\<rparr>)"
    unfolding releasesleep_eq [OF k] map_wake_id [OF ns] p0 ..
  let ?t = "s\<lparr>slks := ?sl, held := [L_bcache], bufs := (bufs s)[i := ?v\<lparr>b_refcnt := 0\<rparr>]\<rparr>"
  have lt: "lru ?t xs" by (rule lru_upd [OF l]) simp_all
  obtain u ys where u: "thenM (unlink_buf i) (link_head i) ?t = Ok () u" "lru u ys" "u = ?t\<lparr>bufs := bufs u\<rparr>"
    and sb: "\<And>j. same_buf (bufs u ! j) (bufs ?t ! j)"
    using move_front [OF lt iN] by metis
  obtain bu where ub: "u = s\<lparr>slks := ?sl, held := [L_bcache], bufs := bu\<rparr>" using u(3) by auto
  define w where "w = u\<lparr>held := []\<rparr>"
  have w: "w = s\<lparr>slks := ?sl, bufs := bufs u\<rparr>" using h unfolding w_def ub by (cases s) simp
  have hu: "held u = [L_bcache]" unfolding ub by simp
  have run: "brelse i s = Ok () w"
    using holdingsleep_mine [OF k v(4)] rs h v(3) iN len u(1) hu
    by (simp add: brelse_def kcode w_def)
  have fr: "bframe s w" by (rule bframeI) (simp_all add: w)
  have bo: "same_buf (bufs w ! j) (bufs s ! j)" if "j \<noteq> i" for j using sb [of j] that by (simp add: w)
  have bw: "same_buf (bufs w ! i) (?v\<lparr>b_refcnt := 0\<rparr>)" using sb [of i] iN len by (simp add: w)
  have c: "caches w j c = caches s j c" for j c
    using bo [of j] bw by (cases "j = i") (auto simp: caches_def same_buf_def)
  have dt: "dirties w = dirties s"
  proof -
    have "b_dirty (bufs w ! j) = b_dirty (bufs s ! j)" for j
      using bo [of j] bw by (cases "j = i") (auto simp: same_buf_def)
    then show ?thesis by (simp add: dirties_def)
  qed
  have bd: "blk s b = b_data ?v" using blk_cached [OF uq i(2)] v by simp
  have ok': "bcache_ok w (H - {i})"
  proof (rule bcache_ok_step [OF ok fr _ iN])
    show "\<exists>xs. lru w xs" using lru_cong [OF u(2), of w] by (auto simp: w)
    show "buf_ok w (H - {i}) i"
      using bw bi v i clean bd by (auto simp: buf_ok_def Let_def same_buf_def caches_def dirties_def w)
    show "\<not> caches s j c" if "j \<noteq> i" "caches w i c" for j c using that uq by (auto simp: c uniq_bufs_def)
  qed (use bo ok in \<open>auto simp: w bcache_ok_def\<close>)
  have "blk w = (blk s)(b := b_data (bufs w ! i))"
  proof (rule blk_step [OF uq])
    show "uniq_bufs w" using ok' by (simp add: bcache_ok_def)
    show "b_data (bufs s ! i) = disk s ! d" if "d \<noteq> b" "caches s i d" for d
      using that i(2) by (auto simp: caches_def)
    show "caches w i b" using i by (simp add: c)
    show "b_valid (bufs w ! i)" using bw v by (simp add: same_buf_def)
    show "disk w ! d = disk s ! d" for d by (simp add: w)
  qed (rule bo)
  then have "blk w = blk s" using bw bd by (simp add: same_buf_def fun_upd_idem)
  moreover have "disk w = disk s" "dwrites w = dwrites s" by (simp_all add: w)
  ultimately show ?thesis using that [OF run ok'] fr dt c bo by blast
qed

section \<open>binit()\<close>

abbreviation (input) binit_one :: "nat \<Rightarrow> ('z bst_scheme, unit) kfun" where
  "binit_one \<equiv> \<lambda>b. thenM (initsleeplock (SL_buf b)) (link_head b)"

definition free_slk :: sleeplock where
  "free_slk = \<lparr>sl_locked = False, sl_pid = 0\<rparr>"

lemma binit_loop:
  assumes "length (bufs s) = Suc NBUF" "bnext s HEAD = HEAD" "bprev s HEAD = HEAD" "n \<le> NBUF"
  shows "\<exists>t. foreachM [0..<n] binit_one s = Ok () t \<and> t = s\<lparr>slks := slks t, bufs := bufs t\<rparr>
    \<and> length (bufs t) = Suc NBUF \<and> dll (bnext t) (bprev t) HEAD (rev [0..<n])
    \<and> (\<forall>j. same_buf (bufs t ! j) (bufs s ! j)) \<and> (\<forall>i < n. slks t (SL_buf i) = free_slk)
    \<and> (\<forall>k. (\<forall>i. k \<noteq> SL_buf i) \<longrightarrow> slks t k = slks s k)"
  using assms(4)
proof (induction n)
  case 0
  then show ?case using assms by (simp add: kcode dll_def same_buf_def)
next
  case (Suc n)
  then obtain t where t: "foreachM [0..<n] binit_one s = Ok () t" "t = s\<lparr>slks := slks t, bufs := bufs t\<rparr>"
    and len: "length (bufs t) = Suc NBUF" and d: "dll (bnext t) (bprev t) HEAD (rev [0..<n])"
    and sb: "\<And>j. same_buf (bufs t ! j) (bufs s ! j)" and sl: "\<And>i. i < n \<Longrightarrow> slks t (SL_buf i) = free_slk"
    and ok: "\<And>k. (\<And>i. k \<noteq> SL_buf i) \<Longrightarrow> slks t k = slks s k"
    by auto
  let ?u = "t\<lparr>slks := (slks t)(SL_buf n := free_slk)\<rparr>"
  have n: "n < NBUF" using Suc.prems by simp
  have "bnext t HEAD \<in> insert HEAD (set (rev [0..<n]))"
    using d chain_ends(1) [of "bnext t" "bprev t" HEAD "rev [0..<n]" HEAD] unfolding dll_def by blast
  then have h: "bnext ?u HEAD < Suc NBUF" using n by auto
  have lu: "length (bufs ?u) = Suc NBUF" using len by simp
  obtain w where w: "link_head n ?u = Ok () w"
    "relinked ?u w ((bnext ?u)(n := bnext ?u HEAD, HEAD := n)) ((bprev ?u)(n := HEAD, bnext ?u HEAD := n))"
    using link_head_eff [OF lu n h] by metis
  have dw: "dll (bnext w) (bprev w) HEAD (n # rev [0..<n])"
    using dll_insert [OF d, of n] w(2) n by (simp add: relinked_def)
  obtain bw where wb: "w = t\<lparr>slks := (slks t)(SL_buf n := free_slk), bufs := bw\<rparr>"
    using w(2) unfolding relinked_def by blast
  obtain bt st where tb: "t = s\<lparr>slks := st, bufs := bt\<rparr>" using t(2) by blast
  have "w = s\<lparr>slks := slks w, bufs := bufs w\<rparr>" unfolding wb tb by simp
  moreover have "foreachM [0..<Suc n] binit_one s = Ok () w"
    using t(1) w(1) by (simp add: kcode initsleeplock_def set_slk_def free_slk_def)
  moreover have "same_buf (bufs w ! j) (bufs s ! j)" for j
    using w(2) sb [of j] by (auto simp: relinked_def same_buf_def)
  moreover have "slks w (SL_buf i) = free_slk" if "i < Suc n" for i using that sl [of i] by (simp add: wb)
  moreover have "slks w k = slks s k" if "\<forall>i. k \<noteq> SL_buf i" for k using that ok [of k] by (simp add: wb)
  moreover have "length (bufs w) = Suc NBUF" using w(2) lu by (simp add: relinked_def)
  ultimately show ?case using dw by auto
qed

text \<open>A kernel that has booted this far: a process runs, the cache is as bss left it.\<close>

definition cold :: "'z bst_scheme \<Rightarrow> bool" where
  "cold s \<longleftrightarrow> kok s \<and> bufs s = replicate (Suc NBUF) zero_buf \<and> (\<forall>i < NBUF. no_sleeper (Ch_slk (SL_buf i)) s)
     \<and> (\<forall>d \<in> set (disk s). length d = BSIZE) \<and> length (disk s) < 2 ^ 32"

lemma binit_ok:
  assumes "cold s"
  obtains t where "binit s = Ok () t" "bcache_ok t {}" "blk t = (!) (disk s)" "disk t = disk s"
    "dwrites t = dwrites s" "dirties t = {}" "bframe s t"
proof -
  let ?z = "zero_buf"
  let ?s = "s\<lparr>bufs := (replicate (Suc NBUF) ?z)[HEAD := ?z\<lparr>b_prev := HEAD, b_next := HEAD\<rparr>]\<rparr>"
  have b: "bufs s = replicate (Suc NBUF) ?z" using assms by (simp add: cold_def)
  have l: "length (bufs ?s) = Suc NBUF" and hd: "bufs ?s ! HEAD = ?z\<lparr>b_prev := HEAD, b_next := HEAD\<rparr>"
    by simp_all
  have z: "same_buf (bufs ?s ! j) ?z" if "j < Suc NBUF" for j
    using that by (cases "j = HEAD") (simp_all add: same_buf_def)
  obtain t where t: "foreachM [0..<NBUF] binit_one ?s = Ok () t" "t = ?s\<lparr>slks := slks t, bufs := bufs t\<rparr>"
    and len: "length (bufs t) = Suc NBUF" and d: "dll (bnext t) (bprev t) HEAD (rev [0..<NBUF])"
    and sb: "\<forall>j. same_buf (bufs t ! j) (bufs ?s ! j)" and sl: "\<forall>i < NBUF. slks t (SL_buf i) = free_slk"
    and ok: "\<forall>k. (\<forall>i. k \<noteq> SL_buf i) \<longrightarrow> slks t k = slks ?s k"
    using binit_loop [OF l _ _ order_refl] hd by auto
  have run: "binit s = Ok () t"
    using t(1) b by (simp add: binit_def kcode upd_buf_def del: foreachM.simps replicate_Suc)
  obtain st bt where ts: "t = s\<lparr>slks := st, bufs := bt\<rparr>" using t(2) by auto
  have fr: "bframe s t" by (rule bframeI) (use ok in \<open>simp_all add: ts\<close>)
  have tz: "same_buf (bufs t ! j) ?z" if "j < NBUF" for j using sb z [of j] that by (auto simp: same_buf_def)
  have nc: "\<not> caches t j c" for j c using tz [of j] by (auto simp: caches_def same_buf_def zero_buf_def)
  have bo: "buf_ok t {} i" if "i < NBUF" for i
    using tz [OF that] sl that by (simp add: buf_ok_def Let_def same_buf_def zero_buf_def free_slk_def)
  have "bcache_ok t {}"
    using assms d len nc bo bframeD [OF fr] unfolding bcache_ok_def cold_def lru_def uniq_bufs_def
    by (auto simp: ts atLeast0LessThan)
  moreover have "blk t = (!) (disk s)" using nc by (simp add: blk_uncached fun_eq_iff ts)
  moreover have "dirties t = {}" using tz by (auto simp: dirties_def same_buf_def zero_buf_def)
  ultimately show ?thesis using that [OF run] fr by (simp add: ts)
qed

section \<open>Properties\<close>

text \<open>
  C11: bread() returns a buffer of its own that holds the block.  In a cache
  that satisfies the invariant, for a block the caller has not locked already
  and that is cached or for which some buffer is neither locked nor dirty, the
  call returns a buffer that was not locked, is locked now and holds the
  block's current contents; the invariant is kept (a block is never cached
  twice), and neither the contents of any block, nor the disk, nor which
  buffers are dirty changes.
\<close>

theorem bread_spec:
  assumes "bcache_ok s H" "unat b < length (disk s)" "\<forall>i \<in> H. \<not> caches s i (unat b)"
    and "(\<exists>i. caches s i (unat b)) \<or> (\<exists>j < NBUF. j \<notin> H \<and> \<not> b_dirty (bufs s ! j))"
  shows "\<exists>i t. bread 1 b s = Ok i t \<and> i \<notin> H \<and> mine (SL_buf i) t \<and> caches t i (unat b)
    \<and> b_data (bufs t ! i) = blk s (unat b) \<and> bcache_ok t (insert i H)
    \<and> blk t = blk s \<and> disk t = disk s \<and> dirties t = dirties s"
proof -
  obtain i t where t: "bread 1 b s = Ok i t" "i < NBUF" "i \<notin> H" "bcache_ok t (insert i H)"
    "caches t i (unat b)" "b_data (bufs t ! i) = blk s (unat b)" "blk t = blk s" "disk t = disk s"
    "dirties t = dirties s"
    using bread_ok [of s H b] assms by (metis (lifting))
  then have "mine (SL_buf i) t" by (auto simp: bcache_ok_def buf_ok_def Let_def)
  then show ?thesis using t by blast
qed

definition boot_bst :: bst where
  "boot_bst = \<lparr>held = [], cur = Some 0, procs = replicate NPROC zero_proc, nextpid = 1, initproc = None,
     slks = (\<lambda>_. \<lparr>sl_locked = False, sl_pid = 0\<rparr>), mem = (\<lambda>_. 0), kend = 0x80110000,
     use_lock = False, freelist = 0, kdata = 0x80108000, kpgdir = 0, cr3 = 0, esp0 = 0,
     bufs = replicate (Suc NBUF) zero_buf, disk = replicate 64 (replicate BSIZE 7), dwrites = []\<rparr>"

lemma boot_cold: "cold boot_bst"
  by (auto simp: cold_def boot_bst_def kok_def no_sleeper_def zero_proc_def)

theorem bread_spec_witness:
  "\<exists>t i u. binit boot_bst = Ok () t \<and> bread 1 5 t = Ok i u \<and> b_data (bufs u ! i) = replicate BSIZE 7"
proof -
  obtain t where t: "binit boot_bst = Ok () t" "bcache_ok t {}" "blk t = (!) (disk boot_bst)"
    "disk t = disk boot_bst" "dirties t = {}"
    using binit_ok [OF boot_cold] by metis
  have "\<exists>j < NBUF. j \<notin> {} \<and> \<not> b_dirty (bufs t ! j)" using t(5) by (intro exI [of _ 0]) (simp add: dirties_def)
  then have "\<exists>i u. bread 1 5 t = Ok i u \<and> b_data (bufs u ! i) = blk t 5"
    using bread_spec [OF t(2), of 5] t(4) by (auto simp: boot_bst_def)
  then show ?thesis using t(1,3) by (auto simp: boot_bst_def)
qed

text \<open>
  What is written is what is read back.  Changing the data of a locked
  buffer, bwrite() and brelse() leave the block with the new data both on the
  disk and for every later bread(), which is given that data; no other block
  changes, and the write reached the disk as one block write.
\<close>

lemma bwrite_bread_roundtrip:
  assumes "bcache_ok s H" "i \<in> H" "caches s i (unat b)" "length d = BSIZE"
  shows "\<exists>t. thenM (upd_buf i (\<lambda>v. v\<lparr>b_data := d\<rparr>)) (thenM (bwrite i) (brelse i)) s = Ok () t
    \<and> bcache_ok t (H - {i}) \<and> blk t = (blk s)(unat b := d)
    \<and> disk t = (disk s)[unat b := d] \<and> dwrites t = (unat b, d) # dwrites s
    \<and> (\<exists>j u. bread 1 b t = Ok j u \<and> b_data (bufs u ! j) = d)"
proof -
  let ?s = "s\<lparr>bufs := (bufs s)[i := (bufs s ! i)\<lparr>b_data := d\<rparr>]\<rparr>"
  note e = locked_edit [OF assms]
  obtain t where t: "bwrite i ?s = Ok () t" "bcache_ok t H" "blk t = blk ?s" "caches t i (unat b)"
    "dirties t = dirties ?s - {i}" "disk t = (disk ?s)[unat b := blk ?s (unat b)]"
    "dwrites t = (unat b, blk ?s (unat b)) # dwrites ?s"
    using bwrite_ok [OF e(1) assms(2) e(3)] by metis
  have bl: "unat b < length (disk s)"
    using assms(1-3) by (auto simp: bcache_ok_def buf_ok_def Let_def caches_def)
  then have "blk t (unat b) = disk t ! unat b" using t(3,6) e(2) by simp
  then obtain u where u: "brelse i t = Ok () u" "bcache_ok u (H - {i})" "blk u = blk t" "disk u = disk t"
    "dwrites u = dwrites t" "\<And>j c. caches u j c = caches t j c"
    using brelse_ok [OF t(2) assms(2) t(4)] by (metis (lifting))
  have cu: "caches u i (unat b)" using u(6) t(4) by simp
  have "j \<noteq> i" "uniq_bufs u" if "j \<in> H - {i}" for j using that u(2) by (auto simp: bcache_ok_def)
  then have nh: "\<not> caches u j (unat b)" if "j \<in> H - {i}" for j
    using that cu by (auto simp: uniq_bufs_def)
  have bu: "unat b < length (disk u)" using bl t(6) u(4) by simp
  have "\<exists>j w. bread 1 b u = Ok j w \<and> b_data (bufs w ! j) = blk u (unat b)"
    by (rule bread_ok [OF u(2) bu nh]) (use cu in blast)+
  then show ?thesis using t(1,3,6,7) u e(2) by (simp add: kcode)
qed

lemma boot_locked:
  "\<exists>t i u. binit boot_bst = Ok () t \<and> bread 1 5 t = Ok i u \<and> bcache_ok u {i} \<and> caches u i 5 \<and> disk u = disk boot_bst"
proof -
  obtain t where t: "binit boot_bst = Ok () t" "bcache_ok t {}" "disk t = disk boot_bst" "dirties t = {}"
    using binit_ok [OF boot_cold] by metis
  have room: "\<exists>j < NBUF. j \<notin> {} \<and> \<not> b_dirty (bufs t ! j)" using t(4) by (intro exI [of _ 0]) (simp add: dirties_def)
  have five: "unat (5 :: u32) < length (disk t)" by (simp add: t(3) boot_bst_def)
  have "\<exists>i u. bread 1 5 t = Ok i u \<and> bcache_ok u {i} \<and> caches u i 5 \<and> disk u = disk t"
    by (rule bread_ok [OF t(2) five]) (use room in auto)
  then show ?thesis using t(1,3) by auto
qed

lemma bwrite_bread_roundtrip_witness:
  "\<exists>t i u v. binit boot_bst = Ok () t \<and> bread 1 5 t = Ok i u
    \<and> thenM (upd_buf i (\<lambda>v. v\<lparr>b_data := replicate BSIZE 9\<rparr>)) (thenM (bwrite i) (brelse i)) u = Ok () v
    \<and> disk v ! 5 = replicate BSIZE 9"
proof -
  obtain t i u where u: "binit boot_bst = Ok () t" "bread 1 5 t = Ok i u" "bcache_ok u {i}" "caches u i 5"
    "disk u = disk boot_bst" using boot_locked by blast
  have "length (disk u) = 64" using u(5) by (simp add: boot_bst_def)
  then show ?thesis
    using bwrite_bread_roundtrip [OF u(3), of i 5 "replicate BSIZE 9"] u(1,2,4) by auto
qed

end
