(* ===== verification/Log.thy ===== *)
theory Log
  imports Bio
begin

text \<open>
  log.c, the write-ahead log, with readsb() of fs.c.  File system calls are
  bracketed by begin_op() and end_op(); the last end_op() of a group commits:
  it copies the changed blocks to the log, writes the header (the commit
  point), copies the blocks home and clears the header.
\<close>

section \<open>State\<close>

record superblock =
  sb_size :: u32
  sb_nblocks :: u32
  sb_ninodes :: u32
  sb_nlog :: u32
  sb_logstart :: u32
  sb_inodestart :: u32
  sb_bmapstart :: u32

text \<open>struct log; \<open>lh_n\<close> and \<open>lh_block\<close> are its header \<open>lh\<close>.\<close>

record lst = bst +
  log_start :: u32
  log_size :: int
  outstanding :: int
  committing :: bool
  log_dev :: u32
  lh_n :: int
  lh_block :: "u32 list"

text \<open>The words of a block, as the casts to \<open>struct logheader\<close> and \<open>uint *\<close> read and write them.\<close>

definition get32 :: "bytes \<Rightarrow> nat \<Rightarrow> u32" where
  "get32 d off = le32_dec (drop off d)"

definition put32 :: "nat \<Rightarrow> u32 \<Rightarrow> bytes \<Rightarrow> bytes" where
  "put32 off w d = patch off (le32_enc w) d"

definition bdata :: "nat \<Rightarrow> ('z bst_scheme, bytes) kfun" where
  "bdata b = getM (\<lambda>s. b_data (bufs s ! b))"

definition set_bdata :: "nat \<Rightarrow> bytes \<Rightarrow> ('z bst_scheme, unit) kfun" where
  "set_bdata b d = upd_buf b (\<lambda>v. v\<lparr>b_data := d\<rparr>)"

section \<open>The routines\<close>

definition readsb :: "u32 \<Rightarrow> ('z bst_scheme, superblock) kfun" where
  "readsb dev =
     bindM (bread dev 1) (\<lambda>bp.
     bindM (bdata bp) (\<lambda>d.
     thenM (brelse bp)
     (retM \<lparr>sb_size = get32 d 0, sb_nblocks = get32 d 4, sb_ninodes = get32 d 8, sb_nlog = get32 d 12,
        sb_logstart = get32 d 16, sb_inodestart = get32 d 20, sb_bmapstart = get32 d 24\<rparr>)))"

definition install_one :: "nat \<Rightarrow> ('z lst_scheme, unit) kfun" where
  "install_one tail =
     bindM (getM log_dev) (\<lambda>dev.
     bindM (getM log_start) (\<lambda>start.
     bindM (bread dev (start + of_nat tail + 1)) (\<lambda>lbuf.
     bindM (getM (\<lambda>s. lh_block s ! tail)) (\<lambda>blockno.
     bindM (bread dev blockno) (\<lambda>dbuf.
     bindM (bdata lbuf) (\<lambda>d.
     thenM (set_bdata dbuf d)
     (thenM (bwrite dbuf)
     (thenM (brelse lbuf)
     (brelse dbuf)))))))))"

definition install_trans :: "('z lst_scheme, unit) kfun" where
  "install_trans = bindM (getM lh_n) (\<lambda>n. foreachM [0..<nat n] install_one)"

text \<open>A header whose count exceeds LOGSIZE would write past \<open>lh.block\<close>.\<close>

definition read_head_word :: "bytes \<Rightarrow> nat \<Rightarrow> ('z lst_scheme, unit) kfun" where
  "read_head_word d i =
     thenM (requireM (i < nat LOGSIZE) ''log header overflow'')
     (modM (\<lambda>s. s\<lparr>lh_block := (lh_block s)[i := get32 d (4 + 4 * i)]\<rparr>))"

definition read_head :: "('z lst_scheme, unit) kfun" where
  "read_head =
     bindM (getM log_dev) (\<lambda>dev.
     bindM (getM log_start) (\<lambda>start.
     bindM (bread dev start) (\<lambda>buf.
     bindM (bdata buf) (\<lambda>d.
     thenM (modM (\<lambda>s. s\<lparr>lh_n := sint (get32 d 0)\<rparr>))
     (thenM (foreachM [0..<nat (sint (get32 d 0))] (read_head_word d))
     (brelse buf))))))"

text \<open>The stores of write_head() are to consecutive words from the start of the block.\<close>

definition write_head :: "('z lst_scheme, unit) kfun" where
  "write_head =
     bindM (getM log_dev) (\<lambda>dev.
     bindM (getM log_start) (\<lambda>start.
     bindM (bread dev start) (\<lambda>buf.
     bindM (getM lh_n) (\<lambda>n.
     bindM (bdata buf) (\<lambda>d.
     thenM (set_bdata buf (put32 0 (word_of_int n) d))
     (thenM (foreachM [0..<nat n] (\<lambda>i.
        bindM (bdata buf) (\<lambda>d.
        bindM (getM (\<lambda>s. lh_block s ! i)) (\<lambda>w.
        set_bdata buf (put32 (4 + 4 * i) w d)))))
     (thenM (bwrite buf)
     (brelse buf))))))))"

definition recover_from_log :: "('z lst_scheme, unit) kfun" where
  "recover_from_log =
     thenM read_head
     (thenM install_trans
     (thenM (modM (\<lambda>s. s\<lparr>lh_n := 0\<rparr>))
     write_head))"

text \<open>\<open>sizeof(struct logheader)\<close> is 124, so initlog()'s first test never fails.\<close>

definition initlog :: "u32 \<Rightarrow> ('z lst_scheme, unit) kfun" where
  "initlog dev =
     thenM (assertM (\<not> (4 + 4 * nat LOGSIZE \<ge> BSIZE)) ''initlog: too big logheader'')
     (bindM (readsb dev) (\<lambda>sb.
     thenM (modM (\<lambda>s. s\<lparr>log_start := sb_logstart sb, log_size := sint (sb_nlog sb), log_dev := dev\<rparr>))
     recover_from_log))"

text \<open>begin_op(): after a sleep the loop is entered again at its tests.\<close>

definition begin_op_loop :: "('z lst_scheme, unit) kfun" where
  "begin_op_loop =
     bindM (getM committing) (\<lambda>c.
     bindM (getM lh_n) (\<lambda>n.
     bindM (getM outstanding) (\<lambda>out.
     if c then sleep Ch_log (Some L_log)
     else if n + (out + 1) * MAXOPBLOCKS > LOGSIZE then sleep Ch_log (Some L_log)
     else thenM (modM (\<lambda>s. s\<lparr>outstanding := outstanding s + 1\<rparr>)) (release L_log))))"

definition begin_op :: "('z lst_scheme, unit) kfun" where
  "begin_op = thenM (acquire L_log) begin_op_loop"

definition write_log_one :: "nat \<Rightarrow> ('z lst_scheme, unit) kfun" where
  "write_log_one tail =
     bindM (getM log_dev) (\<lambda>dev.
     bindM (getM log_start) (\<lambda>start.
     bindM (bread dev (start + of_nat tail + 1)) (\<lambda>to.
     bindM (getM (\<lambda>s. lh_block s ! tail)) (\<lambda>blockno.
     bindM (bread dev blockno) (\<lambda>from.
     bindM (bdata from) (\<lambda>d.
     thenM (set_bdata to d)
     (thenM (bwrite to)
     (thenM (brelse from)
     (brelse to)))))))))"

definition write_log :: "('z lst_scheme, unit) kfun" where
  "write_log = bindM (getM lh_n) (\<lambda>n. foreachM [0..<nat n] write_log_one)"

definition commit :: "('z lst_scheme, unit) kfun" where
  "commit =
     bindM (getM lh_n) (\<lambda>n.
     whenM (n > 0)
       (thenM write_log
       (thenM write_head
       (thenM install_trans
       (thenM (modM (\<lambda>s. s\<lparr>lh_n := 0\<rparr>))
       write_head)))))"

definition end_op :: "('z lst_scheme, unit) kfun" where
  "end_op =
     thenM (acquire L_log)
     (thenM (modM (\<lambda>s. s\<lparr>outstanding := outstanding s - 1\<rparr>))
     (bindM (getM committing) (\<lambda>c.
     thenM (assertM (\<not> c) ''log.committing'')
     (bindM (getM outstanding) (\<lambda>out.
     thenM (if out = 0 then modM (\<lambda>s. s\<lparr>committing := True\<rparr>) else wakeup Ch_log)
     (thenM (release L_log)
     (whenM (out = 0)
        (thenM commit
        (thenM (acquire L_log)
        (thenM (modM (\<lambda>s. s\<lparr>committing := False\<rparr>))
        (thenM (wakeup Ch_log)
        (release L_log))))))))))))"

text \<open>The scan of log_write() for the block: its index, or the count when it is not there.\<close>

definition log_slot :: "u32 list \<Rightarrow> int \<Rightarrow> u32 \<Rightarrow> nat" where
  "log_slot blocks n b = (case find (\<lambda>i. blocks ! i = b) [0..<nat n] of Some i \<Rightarrow> i | None \<Rightarrow> nat n)"

definition log_write :: "nat \<Rightarrow> ('z lst_scheme, unit) kfun" where
  "log_write b =
     bindM (getM lh_n) (\<lambda>n.
     bindM (getM log_size) (\<lambda>sze.
     thenM (assertM (\<not> (n \<ge> LOGSIZE \<or> n \<ge> sze - 1)) ''too big a transaction'')
     (bindM (getM outstanding) (\<lambda>out.
     thenM (assertM (\<not> out < 1) ''log_write outside of trans'')
     (thenM (acquire L_log)
     (bindM (getM (\<lambda>s. b_blockno (bufs s ! b))) (\<lambda>blockno.
     bindM (getM (\<lambda>s. log_slot (lh_block s) n blockno)) (\<lambda>i.
     thenM (modM (\<lambda>s. s\<lparr>lh_block := (lh_block s)[i := blockno]\<rparr>))
     (thenM (whenM (int i = n) (modM (\<lambda>s. s\<lparr>lh_n := n + 1\<rparr>)))
     (thenM (upd_buf b (\<lambda>v. v\<lparr>b_dirty := True\<rparr>))
     (release L_log)))))))))))"

section \<open>Words in a block\<close>

lemma length_put32 [simp]: "off + 4 \<le> length d \<Longrightarrow> length (put32 off w d) = length d"
  unfolding put32_def by simp

lemma get32_put32_same: "off + 4 \<le> length d \<Longrightarrow> get32 (put32 off w d) off = w"
proof -
  assume "off + 4 \<le> length d"
  then have "drop off (put32 off w d) = le32_enc w @ drop (off + 4) d"
    by (simp add: put32_def patch_def)
  then show ?thesis by (simp add: get32_def)
qed

lemma get32_nth: "off + 4 \<le> length d \<Longrightarrow> get32 d off = le32_dec [d ! off, d ! (off + 1), d ! (off + 2), d ! (off + 3)]"
  by (simp add: get32_def le32_dec_def add.commute add.left_commute)

lemma nth_put32_other:
  "off + 4 \<le> length d \<Longrightarrow> k < off \<or> off + 4 \<le> k \<Longrightarrow> k < length d \<Longrightarrow> put32 off w d ! k = d ! k"
  by (auto simp: put32_def nth_patch)

lemma get32_put32_other:
  "off + 4 \<le> length d \<Longrightarrow> k + 4 \<le> length d \<Longrightarrow> k + 4 \<le> off \<or> off + 4 \<le> k
    \<Longrightarrow> get32 (put32 off w d) k = get32 d k"
  by (auto simp: get32_nth nth_put32_other)

section \<open>The cache as the log sees it\<close>

lemma bdata_apply [kcode]: "bdata b s = Ok (b_data (bufs s ! b)) s"
  by (simp add: bdata_def kcode)

lemma set_bdata_apply [kcode]: "set_bdata b d s = Ok () (s\<lparr>bufs := (bufs s)[b := (bufs s ! b)\<lparr>b_data := d\<rparr>]\<rparr>)"
  by (simp add: set_bdata_def kcode)

text \<open>The blocks whose current contents are in the cache only.\<close>

definition pinned :: "'z bst_scheme \<Rightarrow> nat set" where
  "pinned s = {b. \<exists>i. caches s i b \<and> i \<in> dirties s}"

lemma pinned_cong: "dirties t = dirties s \<Longrightarrow> (\<And>i b. i \<in> dirties s \<Longrightarrow> caches t i b = caches s i b) \<Longrightarrow> pinned t = pinned s"
  by (auto simp: pinned_def)

lemma card_pinned:
  assumes "bcache_ok s H"
  shows "card (dirties s) = card (pinned s)" "finite (pinned s)"
proof -
  let ?f = "\<lambda>i. unat (b_blockno (bufs s ! i))"
  have c: "caches s i (?f i)" if "i \<in> dirties s" for i
    using assms that by (auto simp: bcache_ok_def buf_ok_def Let_def dirties_def caches_def)
  have im: "pinned s = ?f ` dirties s" using c by (auto simp: pinned_def caches_def)
  have "inj_on ?f (dirties s)"
  proof (rule inj_onI)
    fix i j assume "i \<in> dirties s" "j \<in> dirties s" "?f i = ?f j"
    then show "i = j" using c [of i] c [of j] assms by (auto simp: bcache_ok_def uniq_bufs_def)
  qed
  then show "card (dirties s) = card (pinned s)" unfolding im by (rule card_image [symmetric])
  show "finite (pinned s)" unfolding im by (simp add: dirties_def)
qed

lemma coherent:
  assumes "bcache_ok s {}" "b \<notin> pinned s"
  shows "blk s b = disk s ! b"
proof (cases "\<exists>i. caches s i b")
  case True
  then obtain i where i: "caches s i b" by blast
  then have "buf_ok s {} i" "uniq_bufs s" "i \<notin> dirties s" "i < NBUF"
    using assms by (auto simp: bcache_ok_def caches_def pinned_def)
  then show ?thesis using i blk_cached [of s i b] by (auto simp: buf_ok_def Let_def dirties_def caches_def)
next
  case False
  then show ?thesis by (simp add: blk_uncached)
qed

lemma room:
  assumes ok: "bcache_ok s H" and c: "card (pinned s) + card H < NBUF"
  shows "\<exists>j < NBUF. j \<notin> H \<and> \<not> b_dirty (bufs s ! j)"
proof (rule ccontr)
  assume "\<not> ?thesis"
  then have sub: "{..<NBUF} \<subseteq> H \<union> dirties s" by (auto simp: dirties_def)
  have "H \<subseteq> {..<NBUF}" "dirties s \<subseteq> {..<NBUF}" using ok by (auto simp: bcache_ok_def dirties_def)
  then have f: "finite H" "finite (dirties s)" using finite_subset by blast+
  have "card {..<NBUF} \<le> card (H \<union> dirties s)" using f sub by (intro card_mono) auto
  also have "\<dots> \<le> card H + card (dirties s)" by (rule card_Un_le)
  finally show False using c card_pinned(1) [OF ok] by simp
qed

text \<open>bread() of a block nobody has locked, in terms of the pinned blocks.\<close>

lemma bread_pin:
  assumes ok: "bcache_ok s H" and b: "unat b < length (disk s)" "\<And>i. i \<in> H \<Longrightarrow> \<not> caches s i (unat b)"
    and r: "unat b \<in> pinned s \<or> card (pinned s) + card H < NBUF"
  obtains i t where "bread 1 b s = Ok i t" "i < NBUF" "i \<notin> H" "bcache_ok t (insert i H)" "caches t i (unat b)"
    "b_data (bufs t ! i) = blk s (unat b)" "blk t = blk s" "disk t = disk s" "dwrites t = dwrites s"
    "bframe s t" "pinned t = pinned s" "\<And>j. j \<noteq> i \<Longrightarrow> bufs t ! j = bufs s ! j"
    "i \<in> dirties t \<longleftrightarrow> unat b \<in> pinned s"
proof -
  have room: "(\<exists>i. caches s i (unat b)) \<or> (\<exists>j < NBUF. j \<notin> H \<and> \<not> b_dirty (bufs s ! j))"
    using r room [OF ok] by (auto simp: pinned_def)
  show ?thesis
  proof (rule bread_ok [OF ok b room])
    fix i t
    assume t: "bread 1 b s = Ok i t" "i < NBUF" "i \<notin> H" "bcache_ok t (insert i H)" "caches t i (unat b)"
      "b_data (bufs t ! i) = blk s (unat b)" "blk t = blk s" "disk t = disk s" "dwrites t = dwrites s"
      "dirties t = dirties s" "bframe s t" "\<And>j. j \<noteq> i \<Longrightarrow> bufs t ! j = bufs s ! j"
      "i \<in> dirties s \<Longrightarrow> caches s i (unat b)"
    have cj: "caches t j c = caches s j c" if "j \<noteq> i" for j c using t(12) [OF that] by (simp add: caches_def)
    have "pinned t = pinned s"
    proof (rule pinned_cong [OF t(10)])
      fix j c assume "j \<in> dirties s"
      then show "caches t j c = caches s j c" using cj [of j c] t(5,13) by (cases "j = i") (auto simp: caches_def)
    qed
    moreover have "i \<in> dirties t \<longleftrightarrow> unat b \<in> pinned s"
    proof -
      have "uniq_bufs t" using t(4) by (simp add: bcache_ok_def)
      then have "unat b \<in> pinned t \<longleftrightarrow> i \<in> dirties t" using t(5) by (auto simp: pinned_def uniq_bufs_def)
      then show ?thesis using \<open>pinned t = pinned s\<close> by simp
    qed
    ultimately show thesis using that t by blast
  qed
qed

text \<open>Changing a locked buffer and writing it to the disk, and giving up another one.\<close>

lemma caches_fun: "caches s i b \<Longrightarrow> caches s i c \<Longrightarrow> b = c"
  by (simp add: caches_def)

lemma edit_write:
  assumes ok: "bcache_ok s H" and i: "i \<in> H" "caches s i b" and d: "length d = BSIZE"
  obtains t where "thenM (set_bdata i d) (bwrite i) s = Ok () t" "bcache_ok t H"
    "blk t = (blk s)(b := d)" "disk t = (disk s)[b := d]" "dwrites t = (b, d) # dwrites s" "bframe s t"
    "pinned t = pinned s - {b}" "\<And>j c. caches t j c = caches s j c" "i \<notin> dirties t"
    "\<And>j. j \<noteq> i \<Longrightarrow> j \<in> dirties t \<longleftrightarrow> j \<in> dirties s"
proof -
  let ?s = "s\<lparr>bufs := (bufs s)[i := (bufs s ! i)\<lparr>b_data := d\<rparr>]\<rparr>"
  note e = locked_edit [OF ok i d]
  have es: "caches ?s j c = caches s j c" for j c
    using e(3) i(2) by (cases "j = i") (auto simp: caches_def)
  obtain t where t: "bwrite i ?s = Ok () t" "bcache_ok t H" "blk t = blk ?s" "caches t i b" "bframe ?s t"
    "dirties t = dirties ?s - {i}" "disk t = (disk ?s)[b := blk ?s b]" "dwrites t = (b, blk ?s b) # dwrites ?s"
    and tj: "\<And>j. j \<noteq> i \<Longrightarrow> bufs t ! j = bufs ?s ! j"
    using bwrite_ok [OF e(1) i(1) e(3)] by (metis (lifting))
  have ct: "caches t j c = caches s j c" for j c
  proof (cases "j = i")
    case True
    then show ?thesis using t(4) i(2) caches_fun by blast
  next
    case False
    then show ?thesis using tj [OF False] es [of j c] by (simp add: caches_def)
  qed
  have uq: "uniq_bufs s" using ok by (simp add: bcache_ok_def)
  have ds: "dirties t = dirties s - {i}" using t(6) e(5) by simp
  have "pinned t = pinned s - {b}"
  proof -
    have "c \<in> pinned t \<longleftrightarrow> c \<in> pinned s \<and> c \<noteq> b" for c
      using ds i(2) uq caches_fun [of s i b c] by (auto simp: pinned_def ct uniq_bufs_def)
    then show ?thesis by auto
  qed
  then show ?thesis
    using that [of t] t(1-3,7,8) e(2) bframe_trans [OF e(4) t(5)] ct ds by (simp add: kcode)
qed

lemma release_pin:
  assumes ok: "bcache_ok s H" and i: "i \<in> H" "caches s i b" and "i \<in> dirties s \<or> blk s b = disk s ! b"
  obtains t where "brelse i s = Ok () t" "bcache_ok t (H - {i})" "blk t = blk s" "disk t = disk s"
    "dwrites t = dwrites s" "bframe s t" "pinned t = pinned s" "\<And>j c. caches t j c = caches s j c"
    "dirties t = dirties s"
proof -
  obtain t where t: "brelse i s = Ok () t" "bcache_ok t (H - {i})" "blk t = blk s" "bframe s t"
    "dirties t = dirties s" "disk t = disk s" "dwrites t = dwrites s" "\<And>j c. caches t j c = caches s j c"
    using brelse_ok [OF assms] by (metis (lifting))
  then show ?thesis using that [of t] pinned_cong [of t s] by blast
qed

text \<open>
  One turn of write_log() or install_trans(): with the buffers \<open>i\<close> of block
  \<open>a\<close> and \<open>j\<close> of block \<open>b\<close> locked, \<open>d\<close> is written to block \<open>a\<close> and both are
  released.
\<close>

lemma copy_turn:
  assumes ok: "bcache_ok s {i, j}" and i: "caches s i a" "caches s j b" "i \<noteq> j" and d: "length d = BSIZE"
    and j: "j \<in> dirties s \<or> blk s b = disk s ! b"
  obtains t where "thenM (set_bdata i d) (thenM (bwrite i) (thenM (brelse j) (brelse i))) s = Ok () t"
    "bcache_ok t {}" "blk t = (blk s)(a := d)" "disk t = (disk s)[a := d]" "dwrites t = (a, d) # dwrites s"
    "bframe s t" "pinned t = pinned s - {a}"
proof -
  have ab: "a \<noteq> b" using ok i by (auto simp: bcache_ok_def uniq_bufs_def)
  have al: "a < length (disk s)"
    using ok i(1) by (auto simp: bcache_ok_def buf_ok_def Let_def caches_def)
  obtain t where t: "thenM (set_bdata i d) (bwrite i) s = Ok () t" "bcache_ok t {i, j}"
    "blk t = (blk s)(a := d)" "disk t = (disk s)[a := d]" "dwrites t = (a, d) # dwrites s" "bframe s t"
    "pinned t = pinned s - {a}" and ct: "\<And>k c. caches t k c = caches s k c" and dt: "j \<in> dirties t \<longleftrightarrow> j \<in> dirties s"
    using edit_write [OF ok _ i(1) d] i(3) by (metis (lifting) insertI1)
  have "j \<in> dirties t \<or> blk t b = disk t ! b" using j dt t(3,4) ab by auto
  then obtain u where u: "brelse j t = Ok () u" "bcache_ok u ({i, j} - {j})" "blk u = blk t" "disk u = disk t"
    "dwrites u = dwrites t" "bframe t u" "pinned u = pinned t" and cu: "\<And>k c. caches u k c = caches t k c"
    using release_pin [OF t(2), of j b] ct i(2) by (metis (lifting) insertCI)
  have h: "{i, j} - {j} = {i}" using i(3) by blast
  have "blk u a = disk u ! a" using u(3,4) t(3,4) al by simp
  then obtain w where w: "brelse i u = Ok () w" "bcache_ok w ({i} - {i})" "blk w = blk u" "disk w = disk u"
    "dwrites w = dwrites u" "bframe u w" "pinned w = pinned u"
    using release_pin [OF u(2) [unfolded h], of i a] ct cu i(1) by (metis (lifting) insertCI)
  have "thenM (set_bdata i d) (thenM (bwrite i) (thenM (brelse j) (brelse i))) s = Ok () w"
    using t(1) u(1) w(1) by (auto simp: kcode split: outcome.splits)
  then show ?thesis
    using that [of w] w u t bframe_trans [OF bframe_trans [OF t(6) u(6)] w(6)] by simp
qed

lemma bframe_log:
  fixes s t :: "'z lst_scheme"
  assumes "bframe s t"
  shows "log_start t = log_start s" "log_size t = log_size s" "outstanding t = outstanding s"
    "committing t = committing s" "log_dev t = log_dev s" "lh_n t = lh_n s" "lh_block t = lh_block s"
  using assms by (auto simp: bframe_def)

lemma bcache_ok_unlocked: "bcache_ok s H \<Longrightarrow> caches s i b \<Longrightarrow> b < length (disk s)"
  by (auto simp: bcache_ok_def buf_ok_def Let_def caches_def)

text \<open>The block of the log that holds entry \<open>k\<close>.\<close>

definition logblk :: "'z lst_scheme \<Rightarrow> nat \<Rightarrow> nat" where
  "logblk s k = unat (log_start s) + 1 + k"

text \<open>
  The log has LOGSIZE blocks, as mkfs lays it out: the header, and room for one
  entry less; log_write() refuses an entry beyond that.
\<close>

definition in_log :: "'z lst_scheme \<Rightarrow> nat \<Rightarrow> bool" where
  "in_log s b \<longleftrightarrow> unat (log_start s) \<le> b \<and> b < unat (log_start s) + nat LOGSIZE"

definition log_fits :: "'z lst_scheme \<Rightarrow> bool" where
  "log_fits s \<longleftrightarrow> log_dev s = 1 \<and> unat (log_start s) + nat LOGSIZE \<le> length (disk s)
     \<and> length (lh_block s) = nat LOGSIZE"

lemma logblk_addr:
  assumes "log_fits s" "bcache_ok s H" "Suc k < nat LOGSIZE"
  shows "unat (log_start s + of_nat k + 1) = logblk s k" "logblk s k < length (disk s)"
proof -
  have "unat (log_start s) + 30 < 2 ^ 32" using assms by (simp add: log_fits_def bcache_ok_def)
  moreover have "unat (of_nat k :: u32) = k" using assms(3) by (simp add: unat_of_nat)
  ultimately show "unat (log_start s + of_nat k + 1) = logblk s k"
    using assms(3) by (simp add: unat_word_ariths logblk_def)
  show "logblk s k < length (disk s)" using assms by (simp add: log_fits_def logblk_def)
qed

lemma bread_two:
  assumes ok: "bcache_ok s {}" and a: "unat a < length (disk s)" and b: "unat b < length (disk s)" and ab: "unat a \<noteq> unat b"
    and r: "card (pinned s) < NBUF" "unat b \<in> pinned s \<or> card (pinned s) + 1 < NBUF"
  obtains i j t u where "bread 1 a s = Ok i t" "bread 1 b t = Ok j u" "i \<noteq> j" "bcache_ok u {i, j}"
    "caches u i (unat a)" "caches u j (unat b)" "b_data (bufs u ! i) = blk s (unat a)"
    "b_data (bufs u ! j) = blk s (unat b)" "blk u = blk s" "disk u = disk s" "dwrites u = dwrites s"
    "pinned u = pinned s" "bframe s t" "bframe s u"
    "i \<in> dirties u \<longleftrightarrow> unat a \<in> pinned s" "j \<in> dirties u \<longleftrightarrow> unat b \<in> pinned s"
proof -
  obtain i t where t: "bread 1 a s = Ok i t" "bcache_ok t {i}" "caches t i (unat a)"
    "b_data (bufs t ! i) = blk s (unat a)" "blk t = blk s" "disk t = disk s" "dwrites t = dwrites s"
    "bframe s t" "pinned t = pinned s" "i \<in> dirties t \<longleftrightarrow> unat a \<in> pinned s"
    by (rule bread_pin [OF ok a]) (use r in auto)
  have nb: "\<And>k. k \<in> {i} \<Longrightarrow> \<not> caches t k (unat b)" using t(3) ab by (auto simp: caches_def)
  have b': "unat b < length (disk t)" using b t(6) by simp
  have r': "unat b \<in> pinned t \<or> card (pinned t) + card {i} < NBUF" using r t(9) by auto
  obtain j u where u: "bread 1 b t = Ok j u" "j \<notin> {i}" "bcache_ok u (insert j {i})" "caches u j (unat b)"
    "b_data (bufs u ! j) = blk t (unat b)" "blk u = blk t" "disk u = disk t" "dwrites u = dwrites t"
    "bframe t u" "pinned u = pinned t" "bufs u ! i = bufs t ! i" "j \<in> dirties u \<longleftrightarrow> unat b \<in> pinned t"
    by (rule bread_pin [OF t(2) b' nb r']) auto
  have ci: "caches u i (unat a)" "i \<in> dirties u \<longleftrightarrow> i \<in> dirties t"
    using t(3) u(11) by (simp_all add: caches_def dirties_def)
  show ?thesis
    using that [OF t(1) u(1)] u t ci bframe_trans [OF t(8) u(9)] by (auto simp: insert_commute)
qed

lemma write_log_one_ok:
  assumes ok: "bcache_ok s {}" and f: "log_fits s" and k: "Suc k < nat LOGSIZE" "card (pinned s) < NBUF"
    and b: "unat (lh_block s ! k) = b" "b \<in> pinned s" "\<not> in_log s b"
  obtains t where "write_log_one k s = Ok () t" "bcache_ok t {}" "bframe s t"
    "blk t = (blk s)(logblk s k := blk s b)" "disk t = (disk s)[logblk s k := blk s b]"
    "dwrites t = (logblk s k, blk s b) # dwrites s" "pinned t = pinned s - {logblk s k}"
proof -
  let ?a = "log_start s + of_nat k + 1" and ?b = "lh_block s ! k"
  note la = logblk_addr [OF f ok k(1)]
  have al: "unat ?a < length (disk s)" using la by simp
  have bl: "unat ?b < length (disk s)" using b bcache_ok_unlocked [OF ok] by (auto simp: pinned_def)
  have ab: "unat ?a \<noteq> unat ?b" using la b k by (auto simp: in_log_def logblk_def)
  have dev: "log_dev s = 1" using f by (simp add: log_fits_def)
  obtain i j t u where u: "bread 1 ?a s = Ok i t" "bread 1 ?b t = Ok j u" "i \<noteq> j" "bcache_ok u {i, j}"
    "caches u i (unat ?a)" "caches u j (unat ?b)" "b_data (bufs u ! j) = blk s (unat ?b)" "blk u = blk s"
    "disk u = disk s" "dwrites u = dwrites s" "pinned u = pinned s" "bframe s t" "bframe s u"
    "j \<in> dirties u \<longleftrightarrow> unat ?b \<in> pinned s"
    by (rule bread_two [OF ok al bl ab k(2)]) (use b in auto)
  have len: "length (blk s (unat ?b)) = BSIZE"
    using u(4,7) by (auto simp: bcache_ok_def buf_ok_def Let_def)
  obtain w where w: "thenM (set_bdata i (blk s (unat ?b))) (thenM (bwrite i) (thenM (brelse j) (brelse i))) u = Ok () w"
    "bcache_ok w {}" "blk w = (blk u)(unat ?a := blk s (unat ?b))" "disk w = (disk u)[unat ?a := blk s (unat ?b)]"
    "dwrites w = (unat ?a, blk s (unat ?b)) # dwrites u" "bframe u w" "pinned w = pinned u - {unat ?a}"
    by (rule copy_turn [OF u(4,5,6,3) len]) (use u(14) b in auto)
  have "write_log_one k s = Ok () w"
    using w(1) u(1,2,7) dev bframe_log [OF u(12)] by (simp add: write_log_one_def kcode)
  then show ?thesis using that [of w] w u(8-11) bframe_trans [OF u(13) w(6)] la b(1) by simp
qed

lemma install_one_ok:
  assumes ok: "bcache_ok s {}" and f: "log_fits s" and k: "Suc k < nat LOGSIZE" "card (pinned s) < NBUF" "logblk s k \<notin> pinned s"
    and b: "unat (lh_block s ! k) = b" "b < length (disk s)" "\<not> in_log s b" "b \<in> pinned s \<or> card (pinned s) + 1 < NBUF"
  obtains t where "install_one k s = Ok () t" "bcache_ok t {}" "bframe s t"
    "blk t = (blk s)(b := blk s (logblk s k))" "disk t = (disk s)[b := blk s (logblk s k)]"
    "dwrites t = (b, blk s (logblk s k)) # dwrites s" "pinned t = pinned s - {b}"
proof -
  let ?a = "log_start s + of_nat k + 1" and ?b = "lh_block s ! k"
  note la = logblk_addr [OF f ok k(1)]
  have al: "unat ?a < length (disk s)" and bl: "unat ?b < length (disk s)" using la b by simp_all
  have ab: "unat ?a \<noteq> unat ?b" using la b k by (auto simp: in_log_def logblk_def)
  have dev: "log_dev s = 1" using f by (simp add: log_fits_def)
  obtain i j t u where u: "bread 1 ?a s = Ok i t" "bread 1 ?b t = Ok j u" "i \<noteq> j" "bcache_ok u {i, j}"
    "caches u i (unat ?a)" "caches u j (unat ?b)" "b_data (bufs u ! i) = blk s (unat ?a)" "blk u = blk s"
    "disk u = disk s" "dwrites u = dwrites s" "pinned u = pinned s" "bframe s t" "bframe s u"
    by (rule bread_two [OF ok al bl ab k(2)]) (use b in auto)
  have len: "length (blk s (unat ?a)) = BSIZE"
    using u(4,7) by (auto simp: bcache_ok_def buf_ok_def Let_def)
  have coh: "blk u (unat ?a) = disk u ! unat ?a" using coherent [OF ok k(3)] u(8,9) la by simp
  have ok': "bcache_ok u {j, i}" using u(4) by (simp add: insert_commute)
  obtain w where w: "thenM (set_bdata j (blk s (unat ?a))) (thenM (bwrite j) (thenM (brelse i) (brelse j))) u = Ok () w"
    "bcache_ok w {}" "blk w = (blk u)(unat ?b := blk s (unat ?a))" "disk w = (disk u)[unat ?b := blk s (unat ?a)]"
    "dwrites w = (unat ?b, blk s (unat ?a)) # dwrites u" "bframe u w" "pinned w = pinned u - {unat ?b}"
    by (rule copy_turn [OF ok' u(6,5) not_sym [OF u(3)] len]) (use coh in auto)
  have "install_one k s = Ok () w"
    using w(1) u(1,2,7) dev bframe_log [OF u(12)] by (simp add: install_one_def kcode)
  then show ?thesis using that [of w] w u(8-11) bframe_trans [OF u(13) w(6)] la b(1) by simp
qed

section \<open>Sequences of block writes\<close>

definition applyw :: "(nat \<times> bytes) list \<Rightarrow> bytes list \<Rightarrow> bytes list" where
  "applyw ws d = foldl (\<lambda>d (b, v). d[b := v]) d ws"

definition applyf :: "(nat \<times> bytes) list \<Rightarrow> (nat \<Rightarrow> bytes) \<Rightarrow> nat \<Rightarrow> bytes" where
  "applyf ws f = foldl (\<lambda>f (b, v). f(b := v)) f ws"

lemma applyw_simps [simp]:
  "applyw [] d = d" "applyw (ws @ ws') d = applyw ws' (applyw ws d)" "applyw ((b, v) # ws) d = applyw ws (d[b := v])"
  by (simp_all add: applyw_def)

lemma applyf_simps [simp]:
  "applyf [] f = f" "applyf (ws @ ws') f = applyf ws' (applyf ws f)" "applyf ((b, v) # ws) f = applyf ws (f(b := v))"
  by (simp_all add: applyf_def)

lemma length_applyw [simp]: "length (applyw ws d) = length d"
  by (induction ws rule: rev_induct) (auto simp: split_paired_all)

lemma applyw_nth: "b < length d \<Longrightarrow> applyw ws d ! b = applyf ws ((!) d) b"
  by (induction ws rule: rev_induct) (auto simp: split_paired_all nth_list_update)

lemma applyf_other: "b \<notin> fst ` set ws \<Longrightarrow> applyf ws f b = f b"
proof (induction ws rule: rev_induct)
  case (snoc w ws)
  then show ?case by (cases w) auto
qed simp

lemma applyf_same:
  "(b, v) \<in> set ws \<Longrightarrow> (\<And>v'. (b, v') \<in> set ws \<Longrightarrow> v' = v) \<Longrightarrow> applyf ws f b = v"
proof (induction ws rule: rev_induct)
  case (snoc w ws)
  obtain c x where w: "w = (c, x)" by fastforce
  show ?case
  proof (cases "c = b")
    case True
    then have "x = v" using snoc.prems(2) [of x] by (simp add: w)
    then show ?thesis using True by (simp add: w)
  next
    case False
    then have "(b, v) \<in> set ws" using snoc.prems(1) by (simp add: w)
    then have "applyf ws f b = v" by (rule snoc.IH) (use snoc.prems(2) in auto)
    then show ?thesis using False by (simp add: w)
  qed
qed simp

section \<open>The loops\<close>

text \<open>The home of log entry \<open>k\<close>.\<close>

definition home :: "'z lst_scheme \<Rightarrow> nat \<Rightarrow> nat" where
  "home s k = unat (lh_block s ! k)"

definition log_writes :: "'z lst_scheme \<Rightarrow> nat \<Rightarrow> (nat \<times> bytes) list" where
  "log_writes s n = map (\<lambda>k. (logblk s k, blk s (home s k))) [0..<n]"

definition home_writes :: "'z lst_scheme \<Rightarrow> nat \<Rightarrow> (nat \<times> bytes) list" where
  "home_writes s n = map (\<lambda>k. (home s k, blk s (logblk s k))) [0..<n]"

lemma in_log_logblk: "Suc k < nat LOGSIZE \<Longrightarrow> in_log s (logblk s k)"
  by (simp add: in_log_def logblk_def)

lemma log_fits_frame: "bframe s t \<Longrightarrow> length (disk t) = length (disk s) \<Longrightarrow> log_fits s \<Longrightarrow> log_fits t"
  by (auto simp: log_fits_def dest: bframe_log)

lemma log_frame:
  "bframe s t \<Longrightarrow> logblk t = logblk s" "bframe s t \<Longrightarrow> in_log t = in_log s" "bframe s t \<Longrightarrow> home t = home s"
  by (auto simp: logblk_def in_log_def home_def fun_eq_iff dest: bframe_log)

lemma write_log_loop:
  assumes ok: "bcache_ok s {}" and f: "log_fits s" and p: "card (pinned s) < NBUF"
    and np: "\<And>b. in_log s b \<Longrightarrow> b \<notin> pinned s"
    and n: "n < nat LOGSIZE" and h: "\<And>k. k < n \<Longrightarrow> home s k \<in> pinned s"
  shows "\<exists>t. foreachM [0..<n] write_log_one s = Ok () t \<and> bcache_ok t {} \<and> bframe s t
    \<and> blk t = applyf (log_writes s n) (blk s) \<and> disk t = applyw (log_writes s n) (disk s)
    \<and> dwrites t = rev (log_writes s n) @ dwrites s \<and> pinned t = pinned s"
  using n h
proof (induction n)
  case 0
  then show ?case using ok by (simp add: kcode log_writes_def)
next
  case (Suc n)
  then obtain t where t: "foreachM [0..<n] write_log_one s = Ok () t" "bcache_ok t {}" "bframe s t"
    "blk t = applyf (log_writes s n) (blk s)" "disk t = applyw (log_writes s n) (disk s)"
    "dwrites t = rev (log_writes s n) @ dwrites s" "pinned t = pinned s"
    by auto
  note fr = log_frame [OF t(3)]
  have ft: "log_fits t" using log_fits_frame [OF t(3) _ f] t(5) by simp
  have k: "Suc n < nat LOGSIZE" using Suc.prems by simp
  have hp: "home s n \<in> pinned s" using Suc.prems by simp
  then have hl: "\<not> in_log s (home s n)" using np by blast
  have bh: "unat (lh_block t ! n) = home s n" using fr(3) by (simp add: home_def fun_eq_iff)
  have "home s n \<notin> fst ` set (log_writes s n)"
    using hl in_log_logblk [of _ s] k by (auto simp: log_writes_def)
  then have v: "blk t (home s n) = blk s (home s n)" by (simp add: t(4) applyf_other)
  obtain u where u: "write_log_one n t = Ok () u" "bcache_ok u {}" "bframe t u"
    "blk u = (blk t)(logblk t n := blk t (home s n))" "disk u = (disk t)[logblk t n := blk t (home s n)]"
    "dwrites u = (logblk t n, blk t (home s n)) # dwrites t" "pinned u = pinned t - {logblk t n}"
    by (rule write_log_one_ok [OF t(2) ft k _ bh]) (use p t(7) hp hl fr in auto)
  have w: "log_writes s (Suc n) = log_writes s n @ [(logblk s n, blk s (home s n))]"
    by (simp add: log_writes_def)
  have "blk u = (blk t)(logblk s n := blk s (home s n))" using u(4) v fr(1) by simp
  then have "blk u = applyf (log_writes s (Suc n)) (blk s)" unfolding t(4) w applyf_simps .
  moreover have "logblk s n \<notin> pinned s" using np in_log_logblk [OF k] by blast
  then have "pinned u = pinned s" using u(7) t(7) fr(1) by simp
  moreover have "disk u = applyw (log_writes s (Suc n)) (disk s)"
    "dwrites u = rev (log_writes s (Suc n)) @ dwrites s"
    using u(5,6) v fr(1) t(5,6) by (simp_all add: w)
  moreover have "foreachM [0..<Suc n] write_log_one s = Ok () u" using t(1) u(1) by (simp add: kcode)
  ultimately show ?case using u(2) bframe_trans [OF t(3) u(3)] by blast
qed

lemma install_loop:
  assumes ok: "bcache_ok s {}" and f: "log_fits s" and p: "card (pinned s) < NBUF"
    and np: "\<And>b. in_log s b \<Longrightarrow> b \<notin> pinned s"
    and n: "n < nat LOGSIZE"
    and h: "\<And>k. k < n \<Longrightarrow> home s k < length (disk s) \<and> \<not> in_log s (home s k)"
    and r: "inj_on (home s) {..<n} \<and> home s ` {..<n} \<subseteq> pinned s \<or> card (pinned s) + 1 < NBUF"
  shows "\<exists>t. foreachM [0..<n] install_one s = Ok () t \<and> bcache_ok t {} \<and> bframe s t
    \<and> blk t = applyf (home_writes s n) (blk s) \<and> disk t = applyw (home_writes s n) (disk s)
    \<and> dwrites t = rev (home_writes s n) @ dwrites s \<and> pinned t = pinned s - home s ` {..<n}"
  using n h r
proof (induction n)
  case 0
  then show ?case using ok by (simp add: kcode home_writes_def)
next
  case (Suc n)
  have r': "inj_on (home s) {..<n} \<and> home s ` {..<n} \<subseteq> pinned s \<or> card (pinned s) + 1 < NBUF"
    using Suc.prems(3) by (auto elim: inj_on_subset)
  obtain t where t: "foreachM [0..<n] install_one s = Ok () t" "bcache_ok t {}" "bframe s t"
    "blk t = applyf (home_writes s n) (blk s)" "disk t = applyw (home_writes s n) (disk s)"
    "dwrites t = rev (home_writes s n) @ dwrites s" "pinned t = pinned s - home s ` {..<n}"
    using Suc.IH Suc.prems(1,2) r' by auto
  note fr = log_frame [OF t(3)]
  have ft: "log_fits t" using log_fits_frame [OF t(3) _ f] t(5) by simp
  have k: "Suc n < nat LOGSIZE" using Suc.prems by simp
  have hl: "\<not> in_log s (home s n)" "home s n < length (disk s)" using Suc.prems(2) [of n] by simp_all
  have bh: "unat (lh_block t ! n) = home s n" using fr(3) by (simp add: home_def fun_eq_iff)
  have "logblk s n \<notin> fst ` set (home_writes s n)"
    using Suc.prems(2) in_log_logblk [OF k, of s] by (auto simp: home_writes_def)
  then have v: "blk t (logblk s n) = blk s (logblk s n)" by (simp add: t(4) applyf_other)
  have fin: "finite (pinned s)" by (rule card_pinned(2) [OF ok])
  have cp: "card (pinned t) \<le> card (pinned s)" unfolding t(7) by (intro card_mono fin) auto
  have rn: "home s n \<in> pinned t \<or> card (pinned t) + 1 < NBUF"
  proof (cases "card (pinned s) + 1 < NBUF")
    case True
    then show ?thesis using cp by simp
  next
    case False
    then have i: "inj_on (home s) {..<Suc n}" and "home s ` {..<Suc n} \<subseteq> pinned s" using Suc.prems(3) by auto
    then have "home s n \<in> pinned s" by auto
    moreover have "home s n \<notin> home s ` {..<n}"
    proof
      assume "home s n \<in> home s ` {..<n}"
      then obtain k where "k < n" "home s n = home s k" by auto
      then show False using inj_onD [OF i, of n k] by simp
    qed
    ultimately show ?thesis unfolding t(7) by blast
  qed
  have lp: "logblk t n \<notin> pinned t" using np in_log_logblk [OF k, of s] fr t(7) by auto
  obtain u where u: "install_one n t = Ok () u" "bcache_ok u {}" "bframe t u"
    "blk u = (blk t)(home s n := blk t (logblk t n))" "disk u = (disk t)[home s n := blk t (logblk t n)]"
    "dwrites u = (home s n, blk t (logblk t n)) # dwrites t" "pinned u = pinned t - {home s n}"
    by (rule install_one_ok [OF t(2) ft k _ lp bh]) (use cp p t(5) hl fr rn in auto)
  have w: "home_writes s (Suc n) = home_writes s n @ [(home s n, blk s (logblk s n))]"
    by (simp add: home_writes_def)
  have "blk u = (blk t)(home s n := blk s (logblk s n))" using u(4) v fr(1) by simp
  then have "blk u = applyf (home_writes s (Suc n)) (blk s)" unfolding t(4) w applyf_simps .
  moreover have "pinned u = pinned s - home s ` {..<Suc n}" unfolding u(7) t(7) lessThan_Suc by blast
  moreover have "disk u = applyw (home_writes s (Suc n)) (disk s)"
    "dwrites u = rev (home_writes s (Suc n)) @ dwrites s"
    using u(5,6) v fr(1) t(5,6) by (simp_all add: w)
  moreover have "foreachM [0..<Suc n] install_one s = Ok () u" using t(1) u(1) by (simp add: kcode)
  ultimately show ?case using u(2) bframe_trans [OF t(3) u(3)] by blast
qed

section \<open>The header\<close>

text \<open>Changes of the log's own fields do not concern the cache.\<close>

lemma lh_frame [simp]:
  "caches (s\<lparr>lh_n := n\<rparr>) = caches s" "caches (s\<lparr>lh_block := bl\<rparr>) = caches s"
  "dirties (s\<lparr>lh_n := n\<rparr>) = dirties s" "dirties (s\<lparr>lh_block := bl\<rparr>) = dirties s"
  "blk (s\<lparr>lh_n := n\<rparr>) = blk s" "blk (s\<lparr>lh_block := bl\<rparr>) = blk s"
  "pinned (s\<lparr>lh_n := n\<rparr>) = pinned s" "pinned (s\<lparr>lh_block := bl\<rparr>) = pinned s"
  "bcache_ok (s\<lparr>lh_n := n\<rparr>) H = bcache_ok s H" "bcache_ok (s\<lparr>lh_block := bl\<rparr>) H = bcache_ok s H"
proof -
  show c: "caches (s\<lparr>lh_n := n\<rparr>) = caches s" "caches (s\<lparr>lh_block := bl\<rparr>) = caches s"
    by (simp_all add: caches_def fun_eq_iff)
  show d: "dirties (s\<lparr>lh_n := n\<rparr>) = dirties s" "dirties (s\<lparr>lh_block := bl\<rparr>) = dirties s"
    by (simp_all add: dirties_def)
  show "blk (s\<lparr>lh_n := n\<rparr>) = blk s" "blk (s\<lparr>lh_block := bl\<rparr>) = blk s"
    by (simp_all add: blk_def bufof_def c fun_eq_iff split: option.split)
  show "pinned (s\<lparr>lh_n := n\<rparr>) = pinned s" "pinned (s\<lparr>lh_block := bl\<rparr>) = pinned s"
    by (simp_all add: pinned_def c d)
  show "bcache_ok (s\<lparr>lh_n := n\<rparr>) H = bcache_ok s H" "bcache_ok (s\<lparr>lh_block := bl\<rparr>) H = bcache_ok s H"
    by (simp_all add: bcache_ok_def kok_def lru_def uniq_bufs_def c buf_ok_def mine_def mypid_def no_sleeper_def)
qed

definition hdr_words :: "u32 list \<Rightarrow> nat \<Rightarrow> bytes \<Rightarrow> bytes" where
  "hdr_words blocks n d = foldl (\<lambda>d i. put32 (4 + 4 * i) (blocks ! i) d) d [0..<n]"

lemma hdr_words_Suc: "hdr_words blocks (Suc n) d = put32 (4 + 4 * n) (blocks ! n) (hdr_words blocks n d)"
  by (simp add: hdr_words_def)

lemma hdr_words:
  assumes "n \<le> nat LOGSIZE" "length d = BSIZE"
  shows "length (hdr_words blocks n d) = BSIZE" "get32 (hdr_words blocks n d) 0 = get32 d 0"
    "k < n \<Longrightarrow> get32 (hdr_words blocks n d) (4 + 4 * k) = blocks ! k"
proof -
  have "length (hdr_words blocks n d) = BSIZE \<and> get32 (hdr_words blocks n d) 0 = get32 d 0
    \<and> (\<forall>k < n. get32 (hdr_words blocks n d) (4 + 4 * k) = blocks ! k)"
    using assms(1)
  proof (induction n)
    case 0
    then show ?case using assms(2) by (simp add: hdr_words_def)
  next
    case (Suc n)
    then have l: "length (hdr_words blocks n d) = BSIZE" and g: "get32 (hdr_words blocks n d) 0 = get32 d 0"
      and w: "\<And>k. k < n \<Longrightarrow> get32 (hdr_words blocks n d) (4 + 4 * k) = blocks ! k" by auto
    have "get32 (hdr_words blocks (Suc n) d) (4 + 4 * k) = blocks ! k" if "k < Suc n" for k
    proof (cases "k = n")
      case True
      then show ?thesis using l Suc.prems by (simp add: hdr_words_Suc get32_put32_same)
    next
      case False
      then show ?thesis using that l w [of k] Suc.prems by (simp add: hdr_words_Suc get32_put32_other)
    qed
    then show ?case using l g Suc.prems by (simp add: hdr_words_Suc get32_put32_other)
  qed
  then show "length (hdr_words blocks n d) = BSIZE" "get32 (hdr_words blocks n d) 0 = get32 d 0"
    "k < n \<Longrightarrow> get32 (hdr_words blocks n d) (4 + 4 * k) = blocks ! k" by auto
qed

lemma set_words:
  assumes "buf < length (bufs s)"
  shows "foreachM [0..<n] (\<lambda>i. bindM (bdata buf) (\<lambda>d. bindM (getM (\<lambda>s. lh_block s ! i)) (\<lambda>w.
        set_bdata buf (put32 (4 + 4 * i) w d)))) s
    = Ok () (s\<lparr>bufs := (bufs s)[buf := (bufs s ! buf)\<lparr>b_data := hdr_words (lh_block s) n (b_data (bufs s ! buf))\<rparr>]\<rparr>)"
proof (induction n)
  case 0
  have "(bufs s)[buf := bufs s ! buf] = bufs s" by simp
  then show ?case by (simp add: kcode hdr_words_def)
next
  case (Suc n)
  then show ?case using assms by (simp add: kcode hdr_words_Suc)
qed

lemma write_head_ok:
  assumes ok: "bcache_ok s {}" and f: "log_fits s" and p: "card (pinned s) < NBUF"
    and np: "unat (log_start s) \<notin> pinned s" and n: "0 \<le> lh_n s" "lh_n s \<le> LOGSIZE"
  obtains t h where "write_head s = Ok () t" "bcache_ok t {}" "bframe s t"
    "blk t = (blk s)(unat (log_start s) := h)" "disk t = (disk s)[unat (log_start s) := h]"
    "dwrites t = (unat (log_start s), h) # dwrites s" "pinned t = pinned s" "length h = BSIZE"
    "get32 h 0 = word_of_int (lh_n s)" "\<And>k. k < nat (lh_n s) \<Longrightarrow> get32 h (4 + 4 * k) = lh_block s ! k"
proof -
  let ?L = "unat (log_start s)" and ?n = "nat (lh_n s)"
  have Ll: "?L < length (disk s)" and dev: "log_dev s = 1" using f by (simp_all add: log_fits_def)
  obtain i t where t: "bread 1 (log_start s) s = Ok i t" "i < NBUF" "bcache_ok t {i}" "caches t i ?L"
    "b_data (bufs t ! i) = blk s ?L" "blk t = blk s" "disk t = disk s" "dwrites t = dwrites s"
    "bframe s t" "pinned t = pinned s"
    by (rule bread_pin [OF ok Ll]) (use p in auto)
  note fr = bframe_log [OF t(9)]
  have lt: "i < length (bufs t)" and dl: "length (b_data (bufs t ! i)) = BSIZE"
    using t(2,3) by (auto simp: bcache_ok_def lru_def buf_ok_def Let_def)
  define d where "d = put32 0 (word_of_int (lh_n s)) (b_data (bufs t ! i))"
  define h where "h = hdr_words (lh_block s) ?n d"
  have ld: "length d = BSIZE" using dl by (simp add: d_def)
  have nn: "?n \<le> nat LOGSIZE" using n by simp
  note hw = hdr_words [OF nn ld, where blocks = "lh_block s", folded h_def]
  have h0: "get32 h 0 = word_of_int (lh_n s)" using hw(2) dl by (simp add: d_def get32_put32_same)
  obtain u where u: "thenM (set_bdata i h) (bwrite i) t = Ok () u" "bcache_ok u {i}"
    "blk u = (blk t)(?L := h)" "disk u = (disk t)[?L := h]" "dwrites u = (?L, h) # dwrites t" "bframe t u"
    "pinned u = pinned t - {?L}" "\<And>j c. caches u j c = caches t j c"
    using edit_write [OF t(3) _ t(4) hw(1)] by (metis (lifting) singletonI)
  have "blk u ?L = disk u ! ?L" using u(3,4) Ll t(7) by simp
  then obtain w where w: "brelse i u = Ok () w" "bcache_ok w ({i} - {i})" "blk w = blk u" "disk w = disk u"
    "dwrites w = dwrites u" "bframe u w" "pinned w = pinned u"
    using release_pin [OF u(2), of i ?L] u(8) t(4) by (metis (lifting) singletonI)
  let ?t1 = "t\<lparr>bufs := (bufs t)[i := (bufs t ! i)\<lparr>b_data := d\<rparr>]\<rparr>"
  have sw: "foreachM [0..<?n] (\<lambda>k. bindM (bdata i) (\<lambda>d. bindM (getM (\<lambda>s. lh_block s ! k)) (\<lambda>w.
        set_bdata i (put32 (4 + 4 * k) w d)))) ?t1
    = Ok () (t\<lparr>bufs := (bufs t)[i := (bufs t ! i)\<lparr>b_data := h\<rparr>]\<rparr>)"
    using set_words [of i ?t1 ?n] lt fr by (simp add: h_def)
  have bw: "bwrite i (t\<lparr>bufs := (bufs t)[i := (bufs t ! i)\<lparr>b_data := h\<rparr>]\<rparr>) = Ok () u"
    using u(1) by (simp add: kcode)
  have "write_head s = Ok () w"
    unfolding write_head_def using t(1) dev fr sw bw w(1) by (simp add: kcode d_def)
  then show ?thesis
    using that [of w h] w u(3-7) t(6-10) hw(1,3) h0 np bframe_trans [OF bframe_trans [OF t(9) u(6)] w(6)] by simp
qed

text \<open>The header in block \<open>L\<close> of a disk: the count and the homes of the entries.\<close>

definition hdr_n :: "nat \<Rightarrow> bytes list \<Rightarrow> nat" where
  "hdr_n L d = nat (sint (get32 (d ! L) 0))"

definition hdr_home :: "nat \<Rightarrow> bytes list \<Rightarrow> nat \<Rightarrow> nat" where
  "hdr_home L d k = unat (get32 (d ! L) (4 + 4 * k))"

lemma read_words:
  assumes "n \<le> nat LOGSIZE" "length (lh_block s) = nat LOGSIZE"
  shows "\<exists>bl. foreachM [0..<n] (read_head_word d) s = Ok () (s\<lparr>lh_block := bl\<rparr>)
    \<and> length bl = nat LOGSIZE \<and> (\<forall>k < n. bl ! k = get32 d (4 + 4 * k))"
  using assms(1)
proof (induction n)
  case 0
  then show ?case using assms(2) by (intro exI [of _ "lh_block s"]) (simp add: kcode)
next
  case (Suc n)
  then obtain bl where bl: "foreachM [0..<n] (read_head_word d) s = Ok () (s\<lparr>lh_block := bl\<rparr>)"
    "length bl = nat LOGSIZE" "\<forall>k < n. bl ! k = get32 d (4 + 4 * k)" by auto
  moreover have "read_head_word d n (s\<lparr>lh_block := bl\<rparr>) = Ok () (s\<lparr>lh_block := bl[n := get32 d (4 + 4 * n)]\<rparr>)"
    using Suc.prems by (simp add: read_head_word_def kcode)
  ultimately show ?case
    using Suc.prems by (intro exI [of _ "bl[n := get32 d (4 + 4 * n)]"]) (auto simp: kcode nth_list_update less_Suc_eq)
qed

lemma read_head_ok:
  assumes ok: "bcache_ok s {}" and f: "log_fits s" and p: "card (pinned s) < NBUF"
    and np: "unat (log_start s) \<notin> pinned s" and n: "hdr_n (unat (log_start s)) (disk s) \<le> nat LOGSIZE"
  obtains t u n bl where "read_head s = Ok () u" "u = t\<lparr>lh_n := n, lh_block := bl\<rparr>" "bframe s t"
    "bcache_ok u {}" "blk u = blk s" "disk u = disk s" "dwrites u = dwrites s" "pinned u = pinned s"
    "nat n = hdr_n (unat (log_start s)) (disk s)" "length bl = nat LOGSIZE" "log_fits u"
    "\<And>k. k < nat n \<Longrightarrow> home u k = hdr_home (unat (log_start s)) (disk s) k"
proof -
  let ?L = "unat (log_start s)"
  have Ll: "?L < length (disk s)" and dev: "log_dev s = 1" and lb: "length (lh_block s) = nat LOGSIZE"
    using f by (simp_all add: log_fits_def)
  obtain i t where t: "bread 1 (log_start s) s = Ok i t" "bcache_ok t {i}" "caches t i ?L"
    "b_data (bufs t ! i) = blk s ?L" "blk t = blk s" "disk t = disk s" "dwrites t = dwrites s"
    "bframe s t" "pinned t = pinned s"
    by (rule bread_pin [OF ok Ll]) (use p in auto)
  note fr = bframe_log [OF t(8)]
  define d where "d = disk s ! ?L"
  have di: "b_data (bufs t ! i) = d" using t(4) coherent [OF ok np] by (simp add: d_def)
  let ?n = "sint (get32 d 0)"
  have nn: "nat ?n \<le> nat LOGSIZE" using n by (simp add: hdr_n_def d_def)
  have lb': "length (lh_block (t\<lparr>lh_n := ?n\<rparr>)) = nat LOGSIZE" using lb fr by simp
  obtain bl where bl: "foreachM [0..<nat ?n] (read_head_word d) (t\<lparr>lh_n := ?n\<rparr>)
      = Ok () (t\<lparr>lh_n := ?n, lh_block := bl\<rparr>)" "length bl = nat LOGSIZE" "\<forall>k < nat ?n. bl ! k = get32 d (4 + 4 * k)"
    using read_words [OF nn lb'] by auto
  let ?u = "t\<lparr>lh_n := ?n, lh_block := bl\<rparr>"
  have coh: "blk ?u ?L = disk ?u ! ?L" using t(5,6) coherent [OF ok np] by simp
  obtain w where w: "brelse i ?u = Ok () w" "bcache_ok w ({i} - {i})" "blk w = blk ?u" "disk w = disk ?u"
    "dwrites w = dwrites ?u" "bframe ?u w" "pinned w = pinned ?u"
    by (rule release_pin [of ?u "{i}" i ?L]) (use t(2,3) coh in auto)
  have run: "read_head s = Ok () w" using t(1) dev di bl(1) w(1) by (simp add: read_head_def kcode)
  note fw = bframe_log [OF w(6)]
  obtain sl bf dd ww where wr: "w = ?u\<lparr>slks := sl, bufs := bf, disk := dd, dwrites := ww\<rparr>"
    "\<forall>k. (\<forall>i. k \<noteq> SL_buf i) \<longrightarrow> sl k = slks ?u k" using w(6) by (auto simp: bframe_def)
  let ?t = "t\<lparr>slks := sl, bufs := bf, disk := dd, dwrites := ww\<rparr>"
  have wt: "w = ?t\<lparr>lh_n := ?n, lh_block := bl\<rparr>" unfolding wr(1) by simp
  have "bframe t ?t" by (rule bframeI) (use wr(2) in simp_all)
  with t(8) have st: "bframe s ?t" by (rule bframe_trans)
  have "log_fits w" using fw fr f w(4) t(6) bl(2) by (simp add: log_fits_def)
  moreover have "home w k = hdr_home ?L (disk s) k" if "k < nat ?n" for k
    using fw bl(3) that by (simp add: home_def hdr_home_def d_def)
  ultimately show ?thesis
    using that [OF run wt st] w t(5-9) bl(2) by (simp add: hdr_n_def d_def)
qed

section \<open>Recovery and commit\<close>

text \<open>
  What recovery makes of a disk whose log starts at block \<open>L\<close>: the entries of
  the header are copied home.
\<close>

definition replay :: "nat \<Rightarrow> bytes list \<Rightarrow> (nat \<times> bytes) list" where
  "replay L d = map (\<lambda>k. (hdr_home L d k, d ! (L + 1 + k))) [0..<hdr_n L d]"

definition hdr_ok :: "nat \<Rightarrow> bytes list \<Rightarrow> bool" where
  "hdr_ok L d \<longleftrightarrow> hdr_n L d < nat LOGSIZE
     \<and> (\<forall>k < hdr_n L d. hdr_home L d k < length d \<and> \<not> (L \<le> hdr_home L d k \<and> hdr_home L d k < L + nat LOGSIZE))"

text \<open>A machine that has just booted from disk \<open>d\<close>: nothing is cached that differs from it.\<close>

definition rebooted :: "u32 \<Rightarrow> bytes list \<Rightarrow> 'z lst_scheme \<Rightarrow> bool" where
  "rebooted start d r \<longleftrightarrow> bcache_ok r {} \<and> pinned r = {} \<and> disk r = d \<and> log_fits r \<and> log_start r = start"

lemma recover_ok:
  assumes r: "rebooted start d r" and h: "hdr_ok (unat start) d"
  shows "\<exists>t. recover_from_log r = Ok () t \<and> bcache_ok t {} \<and> pinned t = {} \<and> lh_n t = 0
    \<and> length (disk t) = length d \<and> hdr_n (unat start) (disk t) = 0
    \<and> (\<forall>b. b \<noteq> unat start \<longrightarrow> b < length d \<longrightarrow> disk t ! b = applyw (replay (unat start) d) d ! b \<and> blk t b = disk t ! b)"
proof -
  let ?L = "unat start"
  have ok: "bcache_ok r {}" and pr: "pinned r = {}" and d: "disk r = d" and f: "log_fits r" and L: "log_start r = start"
    using r by (simp_all add: rebooted_def)
  have br: "blk r b = d ! b" for b using coherent [OF ok, of b] pr d by simp
  obtain t u n bl where u: "read_head r = Ok () u" "u = t\<lparr>lh_n := n, lh_block := bl\<rparr>" "bframe r t"
    "bcache_ok u {}" "blk u = blk r" "disk u = disk r" "pinned u = pinned r" "nat n = hdr_n ?L d" "log_fits u"
    "\<And>k. k < nat n \<Longrightarrow> home u k = hdr_home ?L d k"
    by (rule read_head_ok [OF ok f]) (use pr h L d in \<open>auto simp: hdr_ok_def\<close>)
  have Lu: "log_start u = start" using u(2) bframe_log(1) [OF u(3)] L by simp
  have lu: "lh_n u = n" by (simp add: u(2))
  have pu: "pinned u = {}" using u(7) pr by simp
  have nl: "nat n < nat LOGSIZE" using u(8) h by (simp add: hdr_ok_def)
  have ho: "home u k < length (disk u) \<and> \<not> in_log u (home u k)" if "k < nat n" for k
    using h that u(6,8) u(10) [OF that] d Lu by (auto simp: hdr_ok_def in_log_def)
  obtain v where v: "foreachM [0..<nat n] install_one u = Ok () v" "bcache_ok v {}" "bframe u v"
    "blk v = applyf (home_writes u (nat n)) (blk u)" "disk v = applyw (home_writes u (nat n)) (disk u)"
    "pinned v = pinned u - home u ` {..<nat n}"
    using install_loop [OF u(4,9) _ _ nl ho] pu by auto
  have hw: "home_writes u (nat n) = replay ?L d"
    using u(5,8,10) br by (auto simp: home_writes_def replay_def logblk_def Lu)
  have pv: "pinned v = {}" using v(6) pu by simp
  let ?v = "v\<lparr>lh_n := 0\<rparr>"
  have fv: "log_fits ?v" using log_fits_frame [OF v(3) _ u(9)] v(5) by (simp add: log_fits_def)
  have Lv: "log_start v = start" using bframe_log(1) [OF v(3)] Lu by simp
  obtain w hb where w: "write_head ?v = Ok () w" "bcache_ok w {}" "bframe ?v w"
    "blk w = (blk ?v)(?L := hb)" "disk w = (disk ?v)[?L := hb]" "pinned w = pinned ?v" "get32 hb 0 = word_of_int 0"
    by (rule write_head_ok [of ?v]) (use v(2) fv pv Lv in auto)
  have run: "recover_from_log r = Ok () w"
    using u(1) v(1) w(1) by (simp add: recover_from_log_def install_trans_def kcode lu)
  have Ll: "?L < length d" using f L d by (simp add: log_fits_def)
  have "hdr_n ?L (disk w) = 0" using w(5,7) Ll v(5) u(6) d by (simp add: hdr_n_def)
  moreover have "disk w ! b = applyw (replay ?L d) d ! b \<and> blk w b = disk w ! b" if "b \<noteq> ?L" "b < length d" for b
    using that w(4,5) v(5) u(6) hw d coherent [OF w(2), of b] w(6) pv by simp
  ultimately show ?thesis
    using run w(2,5,6) pv v(5) u(6) d bframe_log(6) [OF w(3)] by auto
qed

text \<open>
  The log while buffers \<open>H\<close> are locked: the blocks to be written are those of
  the header, each once, pinned in the cache and outside the log; the header
  on the disk is empty.
\<close>

definition log_inv :: "'z lst_scheme \<Rightarrow> nat set \<Rightarrow> bool" where
  "log_inv s H \<longleftrightarrow> bcache_ok s H \<and> log_fits s \<and> log_size s \<le> LOGSIZE \<and> 0 \<le> lh_n s \<and> lh_n s < LOGSIZE
     \<and> inj_on (home s) {..<nat (lh_n s)} \<and> pinned s = home s ` {..<nat (lh_n s)}
     \<and> (\<forall>b \<in> pinned s. \<not> in_log s b) \<and> hdr_n (unat (log_start s)) (disk s) = 0"

abbreviation (input) log_ok :: "'z lst_scheme \<Rightarrow> bool" where "log_ok s \<equiv> log_inv s {}"

lemma commit_ok:
  assumes lok: "log_ok s" and pos: "0 < lh_n s"
  obtains t h1 h2 where "commit s = Ok () t" "log_ok t" "lh_n t = 0"
    "dwrites t = rev (log_writes s (nat (lh_n s)) @ [(unat (log_start s), h1)]
        @ map (\<lambda>k. (home s k, blk s (home s k))) [0..<nat (lh_n s)] @ [(unat (log_start s), h2)]) @ dwrites s"
    "disk t = applyw (log_writes s (nat (lh_n s)) @ [(unat (log_start s), h1)]
        @ map (\<lambda>k. (home s k, blk s (home s k))) [0..<nat (lh_n s)] @ [(unat (log_start s), h2)]) (disk s)"
    "\<And>b. \<not> in_log s b \<Longrightarrow> blk t b = blk s b" "\<And>b. \<not> in_log s b \<Longrightarrow> disk t ! b = blk s b"
    "get32 h1 0 = word_of_int (lh_n s)" "\<And>k. k < nat (lh_n s) \<Longrightarrow> get32 h1 (4 + 4 * k) = lh_block s ! k"
    "get32 h2 0 = 0" "held t = held s" "cur t = cur s" "procs t = procs s" "log_start t = log_start s"
    "log_size t = log_size s" "outstanding t = outstanding s" "committing t = committing s" "log_dev t = log_dev s"
proof -
  define n where "n = nat (lh_n s)"
  define L where "L = unat (log_start s)"
  have ok: "bcache_ok s {}" and f: "log_fits s" and n: "n < nat LOGSIZE" "0 \<le> lh_n s" "lh_n s \<le> LOGSIZE"
    and inj: "inj_on (home s) {..<n}" and pin: "pinned s = home s ` {..<n}"
    and np: "\<And>b. in_log s b \<Longrightarrow> b \<notin> pinned s"
    using lok by (auto simp: log_inv_def n_def)
  have cp: "card (pinned s) < NBUF" using lok inj card_image [OF inj] unfolding pin by (auto simp: log_inv_def n_def)
  have hL: "home s k < length (disk s)" "\<not> in_log s (home s k)" if "k < n" for k
  proof -
    have hp: "home s k \<in> pinned s" using that pin by simp
    then show "home s k < length (disk s)" using bcache_ok_unlocked [OF ok] by (auto simp: pinned_def)
    show "\<not> in_log s (home s k)" using hp np by blast
  qed
  have Lin: "in_log s L" by (simp add: in_log_def L_def)
  obtain t where t: "foreachM [0..<n] write_log_one s = Ok () t" "bcache_ok t {}" "bframe s t"
    "blk t = applyf (log_writes s n) (blk s)" "disk t = applyw (log_writes s n) (disk s)"
    "dwrites t = rev (log_writes s n) @ dwrites s" "pinned t = pinned s"
    using write_log_loop [OF ok f cp np n(1)] pin by auto
  note ft = bframe_log [OF t(3)] and lt = log_frame [OF t(3)]
  have fit: "log_fits t" using log_fits_frame [OF t(3) _ f] t(5) by simp
  obtain u h1 where u: "write_head t = Ok () u" "bcache_ok u {}" "bframe t u" "blk u = (blk t)(L := h1)"
    "disk u = (disk t)[L := h1]" "dwrites u = (L, h1) # dwrites t" "pinned u = pinned t"
    "get32 h1 0 = word_of_int (lh_n s)" "\<And>k. k < n \<Longrightarrow> get32 h1 (4 + 4 * k) = lh_block s ! k"
    by (rule write_head_ok [OF t(2) fit]) (use t(7) cp n np Lin ft in \<open>auto simp: n_def L_def\<close>)
  have su: "bframe s u" using bframe_trans [OF t(3) u(3)] .
  note fu = bframe_log [OF su] and lu = log_frame [OF su]
  have fiu: "log_fits u" using log_fits_frame [OF su _ f] u(5) t(5) by simp
  have npu: "\<And>b. in_log u b \<Longrightarrow> b \<notin> pinned u" using np u(7) t(7) lu(2) by simp
  have bu: "blk u (logblk s k) = blk s (home s k)" if "k < n" for k
  proof -
    have "applyf (log_writes s n) (blk s) (logblk s k) = blk s (home s k)"
      by (rule applyf_same) (use that in \<open>auto simp: log_writes_def logblk_def\<close>)
    then show ?thesis using u(4) t(4) by (simp add: logblk_def L_def)
  qed
  have ru: "inj_on (home u) {..<n} \<and> home u ` {..<n} \<subseteq> pinned u \<or> card (pinned u) + 1 < NBUF"
    using inj pin lu(3) u(7) t(7) by simp
  have hu: "\<And>k. k < n \<Longrightarrow> home u k < length (disk u) \<and> \<not> in_log u (home u k)"
    using hL lu u(5) t(5) by simp
  obtain v where v: "foreachM [0..<n] install_one u = Ok () v" "bcache_ok v {}" "bframe u v"
    "blk v = applyf (home_writes u n) (blk u)" "disk v = applyw (home_writes u n) (disk u)"
    "dwrites v = rev (home_writes u n) @ dwrites u" "pinned v = pinned u - home u ` {..<n}"
    using install_loop [OF u(2) fiu _ npu n(1) hu ru] cp u(7) t(7) by auto
  have hw: "home_writes u n = map (\<lambda>k. (home s k, blk s (home s k))) [0..<n]" (is "_ = ?hw")
    using bu lu by (auto simp: home_writes_def)
  have pv: "pinned v = {}" using v(7) u(7) t(7) pin lu(3) by simp
  have sv: "bframe s v" using bframe_trans [OF su v(3)] .
  note fv = bframe_log [OF sv]
  let ?v = "v\<lparr>lh_n := 0\<rparr>"
  have fiv: "log_fits ?v" using log_fits_frame [OF sv _ f] v(5) u(5) t(5) by (simp add: log_fits_def)
  obtain w h2 where w: "write_head ?v = Ok () w" "bcache_ok w {}" "bframe ?v w" "blk w = (blk ?v)(L := h2)"
    "disk w = (disk ?v)[L := h2]" "dwrites w = (L, h2) # dwrites ?v" "pinned w = pinned ?v" "get32 h2 0 = word_of_int 0"
    by (rule write_head_ok [of ?v]) (use v(2) fiv pv fv in \<open>auto simp: L_def\<close>)
  note fw = bframe_log [OF w(3)]
  let ?ws = "log_writes s n @ [(L, h1)] @ ?hw @ [(L, h2)]"
  have run: "commit s = Ok () w"
    using pos t(1) u(1) v(1) w(1) ft(6) fu(6)
    by (simp add: commit_def write_log_def install_trans_def kcode n_def)
  have dw: "disk w = applyw ?ws (disk s)" "dwrites w = rev ?ws @ dwrites s"
    using w(5,6) v(5,6) u(5,6) t(5,6) hw by simp_all
  have bw: "blk w b = blk s b" if "\<not> in_log s b" for b
  proof -
    have "b \<noteq> L" "b \<notin> fst ` set (log_writes s n)"
      using that Lin in_log_logblk [of _ s] n(1) by (auto simp: log_writes_def)
    then have ub: "blk u b = blk s b" using u(4) t(4) by (simp add: applyf_other)
    have "applyf ?hw (blk u) b = blk s b"
    proof (cases "b \<in> fst ` set ?hw")
      case True
      then have "(b, blk s b) \<in> set ?hw" by auto
      then show ?thesis by (rule applyf_same) auto
    qed (simp add: applyf_other ub)
    then show ?thesis using w(4) v(4) hw \<open>b \<noteq> L\<close> by simp
  qed
  have db: "disk w ! b = blk s b" if "\<not> in_log s b" for b
    using bw [OF that] coherent [OF w(2), of b] w(7) pv by simp
  have Ll: "L < length (disk s)" using f by (simp add: log_fits_def L_def)
  have lw: "log_ok w"
    using w(2,5,7,8) pv fw fv fiv Ll v(5) u(5) t(5) log_fits_frame [OF w(3)] lok
    by (simp add: log_inv_def hdr_n_def L_def)
  show ?thesis
    by (rule that [OF run lw _ dw(2,1) [unfolded n_def L_def] bw db u(8)])
      (use fw fv w(8) u(9) bframeD [OF w(3)] bframeD [OF sv] in \<open>auto simp: n_def\<close>)
qed

text \<open>The three kinds of disk a crash during commit() can leave.\<close>

definition recovers_to :: "'z lst_scheme \<Rightarrow> bytes list \<Rightarrow> (nat \<Rightarrow> bytes) \<Rightarrow> bool" where
  "recovers_to s d f \<longleftrightarrow> (let L = unat (log_start s) in hdr_ok L d \<and> length d = length (disk s)
     \<and> (\<forall>b < length d. \<not> in_log s b \<longrightarrow> applyw (replay L d) d ! b = f b))"

lemma empty_header:
  assumes "length d = length (disk s)" "hdr_n (unat (log_start s)) d = 0"
    and "\<And>b. b < length d \<Longrightarrow> \<not> in_log s b \<Longrightarrow> d ! b = f b"
  shows "recovers_to s d f"
  using assms by (simp add: recovers_to_def hdr_ok_def replay_def)

lemma crash_before:
  assumes lok: "log_ok s" and k: "k \<le> nat (lh_n s)"
  shows "recovers_to s (applyw (take k (log_writes s (nat (lh_n s)))) (disk s)) ((!) (disk s))"
proof (rule empty_header)
  let ?L = "unat (log_start s)" and ?ws = "take k (log_writes s (nat (lh_n s)))"
  let ?d = "applyw ?ws (disk s)"
  have Ll: "?L < length (disk s)" using lok by (simp add: log_inv_def log_fits_def)
  have keys: "b \<in> fst ` set ?ws \<Longrightarrow> b \<in> logblk s ` {..<nat LOGSIZE - 1}" for b
    using lok by (auto simp: log_writes_def log_inv_def dest!: in_set_takeD)
  have "?L \<notin> logblk s ` {..<nat LOGSIZE - 1}" by (auto simp: logblk_def)
  then have "?L \<notin> fst ` set ?ws" using keys by blast
  then have "?d ! ?L = disk s ! ?L" using Ll by (simp add: applyw_nth applyf_other)
  then show "hdr_n ?L ?d = 0" using lok by (simp add: log_inv_def hdr_n_def)
  fix b assume b: "b < length ?d" "\<not> in_log s b"
  then have "b \<notin> logblk s ` {..<nat LOGSIZE - 1}" using in_log_logblk [of _ s] by auto
  then have "b \<notin> fst ` set ?ws" using keys by blast
  then show "?d ! b = disk s ! b" using b by (simp add: applyw_nth applyf_other)
qed simp

lemma crash_after:
  assumes lok: "log_ok s" and pos: "0 < lh_n s" and j: "j \<le> nat (lh_n s)"
    and h: "get32 h 0 = word_of_int (lh_n s)" "\<And>k. k < nat (lh_n s) \<Longrightarrow> get32 h (4 + 4 * k) = lh_block s ! k"
  shows "recovers_to s (applyw (log_writes s (nat (lh_n s)) @ [(unat (log_start s), h)]
      @ take j (map (\<lambda>k. (home s k, blk s (home s k))) [0..<nat (lh_n s)])) (disk s)) (blk s)"
proof -
  define n where "n = nat (lh_n s)"
  let ?L = "unat (log_start s)" and ?hw = "map (\<lambda>k. (home s k, blk s (home s k))) [0..<n]"
  let ?ws = "log_writes s n @ [(?L, h)] @ take j ?hw"
  define d where "d = applyw ?ws (disk s)"
  have dl: "length d = length (disk s)" by (simp add: d_def)
  have ok: "bcache_ok s {}" and f: "log_fits s" and n: "n < nat LOGSIZE" "int n = lh_n s"
    and pin: "pinned s = home s ` {..<n}" and np: "\<And>b. b \<in> pinned s \<Longrightarrow> \<not> in_log s b"
    using lok pos by (auto simp: log_inv_def n_def)
  have Ll: "?L + nat LOGSIZE \<le> length (disk s)" using f by (simp add: log_fits_def)
  have hk: "\<not> in_log s (home s k)" "home s k < length (disk s)" if "k < n" for k
  proof -
    have hp: "home s k \<in> pinned s" using pin that by simp
    then show "\<not> in_log s (home s k)" by (rule np)
    show "home s k < length (disk s)" using hp bcache_ok_unlocked [OF ok] by (auto simp: pinned_def)
  qed
  have hs: "fst ` set ?hw = home s ` {..<n}" by (simp add: image_image atLeast0LessThan)
  then have tk: "fst ` set (take j ?hw) \<subseteq> home s ` {..<n}" using set_take_subset [of j ?hw] by blast
  have nl: "b \<notin> home s ` {..<n}" if "in_log s b" for b using hk(1) that by auto
  then have il: "b \<notin> fst ` set (take j ?hw)" if "in_log s b" for b using tk that by blast
  have dnth: "d ! b = applyf (take j ?hw) ((applyf (log_writes s n) ((!) (disk s)))(?L := h)) b" if "b < length (disk s)" for b
    using applyw_nth [of b "disk s" ?ws] that by (simp add: d_def del: applyw_simps)
  have dL: "d ! ?L = h" using dnth [of ?L] Ll il [of ?L] by (simp add: applyf_other in_log_def)
  have dlog: "d ! logblk s k = blk s (home s k)" if "k < n" for k
  proof -
    have "applyf (log_writes s n) ((!) (disk s)) (logblk s k) = blk s (home s k)"
      by (rule applyf_same) (use that in \<open>auto simp: log_writes_def logblk_def\<close>)
    moreover have "logblk s k < length (disk s)" "logblk s k \<noteq> ?L" using that n Ll by (simp_all add: logblk_def)
    moreover have "in_log s (logblk s k)" using that n by (intro in_log_logblk) simp
    ultimately show ?thesis using dnth il by (simp add: applyf_other)
  qed
  have hn: "hdr_n ?L d = n"
    using h(1) n by (simp add: hdr_n_def dL int_word_sint)
  have hh: "hdr_home ?L d k = home s k" if "k < n" for k
    using h(2) [of k] that by (simp add: hdr_home_def dL home_def n_def)
  have rp: "replay ?L d = ?hw"
    using dlog hh by (auto simp: replay_def hn logblk_def)
  have "hdr_ok ?L d" using hn hh hk n by (auto simp: hdr_ok_def in_log_def dl)
  moreover have "applyw ?hw d ! b = blk s b" if b: "b < length (disk s)" "\<not> in_log s b" for b
  proof (cases "b \<in> home s ` {..<n}")
    case True
    then have "(b, blk s b) \<in> set ?hw" by auto
    then have "applyf ?hw ((!) d) b = blk s b" by (rule applyf_same) auto
    then show ?thesis using b by (simp add: applyw_nth dl)
  next
    case False
    have "b \<notin> fst ` set ?hw" "b \<notin> fst ` set (take j ?hw)" using False tk hs by blast+
    moreover have "b \<noteq> ?L" using b(2) by (auto simp: in_log_def)
    moreover have "b \<notin> fst ` set (log_writes s n)"
      using b(2) in_log_logblk [of _ s] n(1) by (auto simp: log_writes_def)
    ultimately have "applyw ?hw d ! b = disk s ! b" using b dnth [of b] by (simp add: applyw_nth [of b d] dl applyf_other)
    then show ?thesis using coherent [OF ok, of b] False pin by simp
  qed
  ultimately have "recovers_to s d (blk s)" using rp dl by (simp add: recovers_to_def Let_def)
  then show ?thesis unfolding d_def n_def .
qed

section \<open>log_write()\<close>

lemma log_slot_cases:
  assumes "0 \<le> n"
  obtains (found) "log_slot bl n b < nat n" "bl ! log_slot bl n b = b"
  | (new) "log_slot bl n b = nat n" "\<And>k. k < nat n \<Longrightarrow> bl ! k \<noteq> b"
proof (cases "find (\<lambda>i. bl ! i = b) [0..<nat n]")
  case None
  then have "log_slot bl n b = nat n" "\<forall>k < nat n. bl ! k \<noteq> b"
    using find_upt_None [of "\<lambda>i. bl ! i = b" 0 "nat n"] by (simp_all add: log_slot_def)
  then show ?thesis using that(2) by blast
next
  case (Some i)
  then have "log_slot bl n b = i" "i < nat n" "bl ! i = b"
    using find_upt_Some [of "\<lambda>i. bl ! i = b" 0 "nat n" i] by (simp_all add: log_slot_def)
  then show ?thesis using that(1) by blast
qed

lemma kok_held: "bcache_ok s H \<Longrightarrow> held s = []"
  by (simp add: bcache_ok_def kok_def)

text \<open>What log_write() does: the buffer is marked dirty and its block is in the header.\<close>

lemma log_write_eq:
  fixes s :: "'z lst_scheme" and i :: nat
  assumes "held s = []" "0 \<le> lh_n s" "lh_n s < LOGSIZE" "lh_n s < log_size s - 1" "1 \<le> outstanding s"
  defines "b \<equiv> b_blockno (bufs s ! i)"
  defines "k \<equiv> log_slot (lh_block s) (lh_n s) b"
  shows "log_write i s = Ok () (s\<lparr>lh_block := (lh_block s)[k := b], lh_n := (if int k = lh_n s then lh_n s + 1 else lh_n s),
    bufs := (bufs s)[i := (bufs s ! i)\<lparr>b_dirty := True\<rparr>]\<rparr>)"
proof -
  have h0: "s\<lparr>held := [], lh_block := x, lh_n := y, bufs := z\<rparr> = s\<lparr>lh_block := x, lh_n := y, bufs := z\<rparr>"
    "s\<lparr>held := [], lh_block := x, bufs := z\<rparr> = s\<lparr>lh_block := x, bufs := z\<rparr>" for x y z
    using assms(1) by (cases s; simp)+
  have l0: "s\<lparr>lh_block := x, lh_n := lh_n s, bufs := z\<rparr> = s\<lparr>lh_block := x, bufs := z\<rparr>" for x z by simp
  show ?thesis
    using assms by (auto simp: log_write_def kcode h0 l0)
qed

lemma log_write_ok:
  assumes inv: "log_inv s H" and i: "i \<in> H" "caches s i b" and out: "\<not> in_log s b"
    and n: "lh_n s < log_size s - 1" "1 \<le> outstanding s"
  obtains t where "log_write i s = Ok () t" "log_inv t H" "blk t = blk s" "disk t = disk s" "dwrites t = dwrites s"
    "pinned t = insert b (pinned s)" "i \<in> dirties t" "\<And>j c. caches t j c = caches s j c"
    "\<And>j. j \<noteq> i \<Longrightarrow> bufs t ! j = bufs s ! j" "\<And>j. j \<in> dirties s \<Longrightarrow> j \<in> dirties t"
    "t = s\<lparr>lh_block := lh_block t, lh_n := lh_n t, bufs := bufs t\<rparr>" "lh_n t \<le> lh_n s + 1"
    "b \<in> pinned s \<Longrightarrow> lh_n t = lh_n s"
proof -
  have ok: "bcache_ok s H" and f: "log_fits s" and ln: "0 \<le> lh_n s" "lh_n s < LOGSIZE - 1" "log_size s \<le> LOGSIZE"
    and inj: "inj_on (home s) {..<nat (lh_n s)}" and pin: "pinned s = home s ` {..<nat (lh_n s)}"
    and np: "\<forall>b \<in> pinned s. \<not> in_log s b" and hz: "hdr_n (unat (log_start s)) (disk s) = 0"
    using inv n by (auto simp: log_inv_def)
  define w where "w = b_blockno (bufs s ! i)"
  define k where "k = log_slot (lh_block s) (lh_n s) w"
  define t where "t = s\<lparr>lh_block := (lh_block s)[k := w], lh_n := (if int k = lh_n s then lh_n s + 1 else lh_n s),
    bufs := (bufs s)[i := (bufs s ! i)\<lparr>b_dirty := True\<rparr>]\<rparr>"
  let ?u = "s\<lparr>bufs := (bufs s)[i := (bufs s ! i)\<lparr>b_dirty := True\<rparr>]\<rparr>"
  have bw: "unat w = b" using i(2) by (simp add: caches_def w_def)
  have run: "log_write i s = Ok () t"
    using log_write_eq [of s i] kok_held [OF ok] ln n by (simp add: t_def k_def w_def)
  note d = locked_dirty [OF ok i]
  have tu: "t = ?u\<lparr>lh_block := (lh_block s)[k := w], lh_n := (if int k = lh_n s then lh_n s + 1 else lh_n s)\<rparr>"
    by (simp add: t_def)
  have c: "caches t j e = caches s j e" for j e
    using d(3) i(2) caches_fun unfolding tu by (cases "j = i") (auto simp: caches_def)
  have tok: "bcache_ok t H" "blk t = blk s" "dirties t = insert i (dirties s)"
    using d(1,2,5) unfolding tu by simp_all
  have uq: "uniq_bufs s" using ok by (simp add: bcache_ok_def)
  have pt: "pinned t = insert b (pinned s)"
    using i(2) by (auto simp: pinned_def c tok(3) dest: caches_fun)
  have ll: "length (lh_block s) = nat LOGSIZE" using f by (simp add: log_fits_def)
  have hdr: "0 \<le> lh_n t \<and> lh_n t < LOGSIZE \<and> inj_on (home t) {..<nat (lh_n t)}
      \<and> pinned t = home t ` {..<nat (lh_n t)} \<and> lh_n t \<le> lh_n s + 1 \<and> (b \<in> pinned s \<longrightarrow> lh_n t = lh_n s)"
    using ln(1)
  proof (cases rule: log_slot_cases [of "lh_n s" "lh_block s" w, consumes 1, case_names found new])
    case found
    have "int k \<noteq> lh_n s" using found(1) by (auto simp: k_def)
    moreover have "(lh_block s)[k := w] = lh_block s" by (metis found(2) k_def list_update_id)
    ultimately have t': "lh_n t = lh_n s" "home t = home s" by (simp_all add: t_def home_def fun_eq_iff)
    have "home s k = b" "k < nat (lh_n s)" using found bw by (simp_all add: home_def k_def)
    then have "b \<in> pinned s" using pin by auto
    then show ?thesis using t' inj pin pt ln by (auto simp: insert_absorb)
  next
    case new
    then have k: "k = nat (lh_n s)" by (simp add: k_def)
    then have ln': "lh_n t = lh_n s + 1" using ln by (simp add: t_def)
    have hj: "home t j = (if j = k then b else home s j)" if "j < Suc k" for j
      using that ll k ln bw by (simp add: t_def home_def nth_list_update)
    have nb: "b \<notin> home s ` {..<k}"
    proof
      assume "b \<in> home s ` {..<k}"
      then obtain j where "j < k" "unat (lh_block s ! j) = unat w" using bw by (auto simp: home_def)
      then show False using new(2) [of j] k by (auto dest: unsigned_word_eqI)
    qed
    have "nat (lh_n t) = Suc k" using ln' k ln by simp
    moreover have "inj_on (home t) {..<Suc k}"
    proof -
      have "inj_on (home t) {..<k}" using inj hj k by (auto simp: inj_on_def)
      then show ?thesis using nb hj by (auto simp: lessThan_Suc)
    qed
    moreover have "home t ` {..<Suc k} = insert b (home s ` {..<k})" using hj by (auto simp: lessThan_Suc)
    moreover have "b \<notin> pinned s" using nb pin k by simp
    ultimately show ?thesis using ln' ln pt pin k by simp
  qed
  have "log_inv t H"
    using hdr tok(1) f ln(3) hz np pt out ll
    by (auto simp: log_inv_def log_fits_def in_log_def t_def)
  then show ?thesis
    using that [OF run _ tok(2) _ _ pt _ c] hdr tok(3) by (auto simp: t_def)
qed

section \<open>Properties\<close>

text \<open>
  C14: commit() is atomic with respect to crashes.  From a log between system
  calls with blocks to write, commit() returns with every block outside the
  log on the disk as the kernel sees it and the log empty.  And if the machine
  stops after any number \<open>k\<close> of the block writes commit() makes, and boots
  again with a fresh cache, then recover_from_log() returns, and afterwards
  either every block outside the log is as it was on the disk before the
  commit, or every one is as the committed transaction left it; never a mixture.
\<close>

theorem commit_crash_safe:
  fixes s :: "'z lst_scheme"
  assumes lok: "log_inv s {}" and pos: "0 < lh_n s"
  shows "\<exists>t ws. commit s = Ok () t \<and> log_inv t {} \<and> lh_n t = 0 \<and> dwrites t = rev ws @ dwrites s
    \<and> (\<forall>b. \<not> in_log s b \<longrightarrow> disk t ! b = blk s b \<and> blk t b = blk s b)
    \<and> (\<forall>k \<le> length ws. \<forall>r :: 'z lst_scheme. rebooted (log_start s) (applyw (take k ws) (disk s)) r \<longrightarrow>
        (\<exists>r'. recover_from_log r = Ok () r' \<and>
          ((\<forall>b < length (disk s). \<not> in_log s b \<longrightarrow> blk r' b = disk s ! b)
           \<or> (\<forall>b < length (disk s). \<not> in_log s b \<longrightarrow> blk r' b = blk s b))))"
proof -
  define n where "n = nat (lh_n s)"
  let ?L = "unat (log_start s)" and ?hw = "map (\<lambda>k. (home s k, blk s (home s k))) [0..<n]"
  obtain t h1 h2 where t: "commit s = Ok () t" "log_inv t {}" "lh_n t = 0"
    "dwrites t = rev (log_writes s n @ [(?L, h1)] @ ?hw @ [(?L, h2)]) @ dwrites s"
    "disk t = applyw (log_writes s n @ [(?L, h1)] @ ?hw @ [(?L, h2)]) (disk s)"
    "\<And>b. \<not> in_log s b \<Longrightarrow> blk t b = blk s b" "\<And>b. \<not> in_log s b \<Longrightarrow> disk t ! b = blk s b"
    and h1: "get32 h1 0 = word_of_int (lh_n s)" "\<And>k. k < nat (lh_n s) \<Longrightarrow> get32 h1 (4 + 4 * k) = lh_block s ! k"
    and Lt: "log_start t = log_start s"
    by (rule commit_ok [OF lok pos]) (auto simp: n_def)
  let ?ws = "log_writes s n @ [(?L, h1)] @ ?hw @ [(?L, h2)]"
  have ln: "length (log_writes s n) = n" by (simp add: log_writes_def)
  have cases: "recovers_to s (applyw (take k ?ws) (disk s)) ((!) (disk s)) \<or> recovers_to s (applyw (take k ?ws) (disk s)) (blk s)"
    if k: "k \<le> length ?ws" for k
  proof -
    consider "k \<le> n" | j where "k = n + 1 + j" "j \<le> n" | "k = length ?ws"
      using k ln by (auto simp: le_Suc_eq) (metis add_Suc le_Suc_ex linorder_not_le nat_add_left_cancel_le not_less_eq_eq)
    then show ?thesis
    proof cases
      case 1
      then have "take k ?ws = take k (log_writes s n)" using ln by simp
      then show ?thesis using crash_before [OF lok, of k] 1 by (simp add: n_def)
    next
      case (2 j)
      then have "take k ?ws = log_writes s n @ [(?L, h1)] @ take j ?hw" using ln by simp
      then show ?thesis using crash_after [OF lok pos, of j h1] 2 h1 by (simp add: n_def)
    next
      case 3
      then have "applyw (take k ?ws) (disk s) = disk t" using t(5) by simp
      moreover have "recovers_to s (disk t) (blk s)"
        using t(2,5,7) Lt by (intro empty_header) (auto simp: log_inv_def)
      ultimately show ?thesis by simp
    qed
  qed
  have rec: "\<exists>r'. recover_from_log r = Ok () r' \<and> (\<forall>b < length (disk s). \<not> in_log s b \<longrightarrow> blk r' b = f b)"
    if "recovers_to s d f" "rebooted (log_start s) d r" for d f and r :: "'z lst_scheme"
  proof -
    have "hdr_ok ?L d" "length d = length (disk s)"
      "\<forall>b < length d. \<not> in_log s b \<longrightarrow> applyw (replay ?L d) d ! b = f b"
      using that(1) by (auto simp: recovers_to_def Let_def)
    moreover have "b \<noteq> ?L" if "\<not> in_log s b" for b using that by (auto simp: in_log_def)
    ultimately show ?thesis using recover_ok [OF that(2)] by metis
  qed
  show ?thesis
  proof (rule exI [of _ t], rule exI [of _ ?ws], intro conjI allI impI)
    fix k r assume "k \<le> length ?ws" and r: "rebooted (log_start s) (applyw (take k ?ws) (disk s)) (r :: 'z lst_scheme)"
    then show "\<exists>r'. recover_from_log r = Ok () r' \<and>
          ((\<forall>b < length (disk s). \<not> in_log s b \<longrightarrow> blk r' b = disk s ! b)
           \<or> (\<forall>b < length (disk s). \<not> in_log s b \<longrightarrow> blk r' b = blk s b))"
      using cases [of k] rec [OF _ r] by blast
  qed (use t in auto)
qed

text \<open>A machine with disk \<open>d\<close> whose log starts at block 2, inside one system call.\<close>

definition boot_lst :: "bytes list \<Rightarrow> lst" where
  "boot_lst d = bst.extend (boot_bst\<lparr>disk := d\<rparr>)
     (lst.fields 2 30 1 False 1 0 (replicate (nat LOGSIZE) 0))"

lemma boot_lst_simps:
  "kok (boot_lst d)" "bufs (boot_lst d) = replicate (Suc NBUF) zero_buf" "disk (boot_lst d) = d"
  "log_start (boot_lst d) = 2" "log_size (boot_lst d) = 30" "outstanding (boot_lst d) = 1" "log_dev (boot_lst d) = 1"
  "lh_n (boot_lst d) = 0" "length (lh_block (boot_lst d)) = nat LOGSIZE" "no_sleeper ch (boot_lst d)"
  by (auto simp: boot_lst_def bst.extend_def lst.fields_def boot_bst_def kok_def no_sleeper_def zero_proc_def)

lemma boot_lst_rebooted:
  assumes "\<forall>b \<in> set d. length b = BSIZE" "length d < 2 ^ 32" "32 \<le> length d"
  obtains t where "binit (boot_lst d) = Ok () t" "rebooted 2 d t" "bframe (boot_lst d) t"
proof -
  have "cold (boot_lst d)" using assms by (simp add: cold_def boot_lst_simps)
  from binit_ok [OF this] obtain t where t: "binit (boot_lst d) = Ok () t" "bcache_ok t {}"
    "disk t = disk (boot_lst d)" "dirties t = {}" "bframe (boot_lst d) t" by metis
  then have "rebooted 2 d t"
    using assms bframe_log [OF t(5)] by (simp add: rebooted_def pinned_def log_fits_def boot_lst_simps)
  then show ?thesis using that t by blast
qed

definition blank_disk :: "bytes list" where
  "blank_disk = replicate 64 (replicate BSIZE 0)"

definition nines :: bytes where
  "nines = replicate BSIZE 9"

lemma blank_disk: "length blank_disk = 64" "\<forall>b \<in> set blank_disk. length b = BSIZE" "hdr_n 2 blank_disk = 0"
proof -
  have "4 \<le> n \<Longrightarrow> get32 (replicate n 0) 0 = 0" for n by (simp add: get32_def le32_dec_def)
  from this [of BSIZE] show "hdr_n 2 blank_disk = 0"
    unfolding hdr_n_def blank_disk_def by simp
qed (simp_all add: blank_disk_def)

lemma length_nines: "length nines = BSIZE" by (simp add: nines_def)

text \<open>The state after one block, block 32, was overwritten in a system call.\<close>

lemma one_logged:
  obtains s i t u v :: "lst" and j where
    "binit (boot_lst blank_disk) = Ok () s" "bread 1 32 s = Ok j t"
    "thenM (set_bdata j nines) (log_write j) t = Ok () u" "brelse j u = Ok () v"
    "log_inv v {}" "lh_n v = 1" "blk v 32 = nines" "log_start v = 2" "length (disk v) = 64"
proof -
  obtain s where s: "binit (boot_lst blank_disk) = Ok () s" "rebooted 2 blank_disk s" "bframe (boot_lst blank_disk) s"
    by (rule boot_lst_rebooted [of blank_disk]) (auto simp: blank_disk)
  have ok: "bcache_ok s {}" and pin: "pinned s = {}" and fit: "log_fits s" and d: "disk s = blank_disk" and st: "log_start s = 2"
    using s(2) by (simp_all add: rebooted_def)
  note fs = bframe_log [OF s(3), unfolded boot_lst_simps]
  have b32: "unat (32 :: u32) < length (disk s)" by (simp add: d blank_disk)
  obtain j t where t: "bread 1 32 s = Ok j t" "bcache_ok t {j}" "caches t j 32" "disk t = disk s" "bframe s t" "pinned t = pinned s"
    by (rule bread_pin [OF ok b32]) (use pin in auto)
  note ft = bframe_log [OF t(5)]
  let ?t = "t\<lparr>bufs := (bufs t)[j := (bufs t ! j)\<lparr>b_data := nines\<rparr>]\<rparr>"
  have e: "bcache_ok ?t {j}" "blk ?t = (blk t)(32 := nines)" "caches ?t j 32" "dirties ?t = dirties t"
    by (rule locked_edit [OF t(2) _ t(3)]; simp add: length_nines)+
  have "dirties t = {}" using card_pinned(1) [OF t(2)] t(6) pin by (simp add: dirties_def)
  then have pe: "pinned ?t = {}" using e(4) by (simp add: pinned_def)
  have le: "log_inv ?t {j}" unfolding log_inv_def
  proof (intro conjI)
    show "log_fits ?t" using fit ft t(4) by (simp add: log_fits_def)
    show "hdr_n (unat (log_start ?t)) (disk ?t) = 0" using ft(1) fs(1) t(4) d blank_disk(3) by simp
    show "inj_on (home ?t) {..<nat (lh_n ?t)}" "pinned ?t = home ?t ` {..<nat (lh_n ?t)}" using ft(6) fs(6) pe by simp_all
  qed (use e(1) pe ft(2,6) fs(2,6) in simp_all)
  have tx: "\<not> in_log ?t 32" "lh_n ?t < log_size ?t - 1" "1 \<le> outstanding ?t"
    using ft fs by (simp_all add: in_log_def)
  obtain u where u: "log_write j ?t = Ok () u" "log_inv u {j}" "blk u = blk ?t" "disk u = disk ?t"
    "pinned u = insert 32 (pinned ?t)" "j \<in> dirties u" "caches u j 32 = caches ?t j 32"
    "u = ?t\<lparr>lh_block := lh_block u, lh_n := lh_n u, bufs := bufs u\<rparr>"
    by (rule log_write_ok [OF le singletonI e(3) tx]) blast
  have ou: "bcache_ok u {j}" using u(2) by (simp add: log_inv_def)
  obtain v where v: "brelse j u = Ok () v" "bcache_ok v ({j} - {j})" "blk v = blk u" "disk v = disk u" "bframe u v" "pinned v = pinned u"
    by (rule release_pin [OF ou]) (use u(6,7) e(3) in auto)
  note fv = bframe_log [OF v(5)] and hv = log_frame [OF v(5)]
  have lv: "log_inv v {}"
    using u(2) v(2,4,6) fv hv log_fits_frame [OF v(5)] by (simp add: log_inv_def)
  have "log_start u = log_start ?t" using arg_cong [OF u(8), of log_start] by simp
  then have st': "log_start v = 2" using fv ft fs by simp
  have "nat (lh_n v) = card (home v ` {..<nat (lh_n v)})" using lv by (simp add: log_inv_def card_image)
  also have "\<dots> = card (pinned v)" using lv by (simp add: log_inv_def)
  also have "pinned v = {32}" using v(6) u(5) pe by simp
  finally have "lh_n v = 1" by simp
  then show ?thesis
    using that [OF s(1) t(1) _ v(1) lv] u(1,3,4) v(3,4) e(2) t(4) d st' by (simp add: kcode blank_disk)
qed

theorem commit_crash_safe_witness:
  "\<exists>s j t u v w ws. binit (boot_lst blank_disk) = Ok () s \<and> bread 1 32 s = Ok j t
    \<and> thenM (set_bdata j nines) (log_write j) t = Ok () u \<and> brelse j u = Ok () v
    \<and> commit v = Ok () w \<and> disk w ! 32 = nines \<and> dwrites w = rev ws @ dwrites v
    \<and> (\<forall>k \<le> length ws. \<forall>r :: lst. rebooted 2 (applyw (take k ws) (disk v)) r \<longrightarrow>
         (\<exists>r'. recover_from_log r = Ok () r' \<and> (blk r' 32 = disk v ! 32 \<or> blk r' 32 = nines)))"
proof -
  obtain s t u v :: lst and j where v: "binit (boot_lst blank_disk) = Ok () s" "bread 1 32 s = Ok j t"
    "thenM (set_bdata j nines) (log_write j) t = Ok () u" "brelse j u = Ok () v"
    "log_inv v {}" "lh_n v = 1" "blk v 32 = nines" "log_start v = 2" "length (disk v) = 64"
    by (rule one_logged)
  have nl: "\<not> in_log v 32" using v(8) by (simp add: in_log_def)
  obtain w ws where w: "commit v = Ok () w" "dwrites w = rev ws @ dwrites v"
    "\<forall>b. \<not> in_log v b \<longrightarrow> disk w ! b = blk v b \<and> blk w b = blk v b"
    "\<forall>k \<le> length ws. \<forall>r :: lst. rebooted (log_start v) (applyw (take k ws) (disk v)) r \<longrightarrow>
        (\<exists>r'. recover_from_log r = Ok () r' \<and>
          ((\<forall>b < length (disk v). \<not> in_log v b \<longrightarrow> blk r' b = disk v ! b)
           \<or> (\<forall>b < length (disk v). \<not> in_log v b \<longrightarrow> blk r' b = blk v b)))"
    using commit_crash_safe [OF v(5)] v(6) by auto
  have "\<forall>k \<le> length ws. \<forall>r :: lst. rebooted 2 (applyw (take k ws) (disk v)) r \<longrightarrow>
         (\<exists>r'. recover_from_log r = Ok () r' \<and> (blk r' 32 = disk v ! 32 \<or> blk r' 32 = nines))"
    using w(4) nl v(7,8,9) by fastforce
  moreover have "disk w ! 32 = nines" using w(3) nl v(7) by simp
  ultimately show ?thesis using v(1-4) w(1,2) by blast
qed

text \<open>States that agree on the cache, the disk and the log's header.\<close>

lemma blk_cong:
  assumes "bufs t = bufs s" "disk t = disk s"
  shows "caches t = caches s" "dirties t = dirties s" "blk t = blk s" "pinned t = pinned s"
proof -
  show c: "caches t = caches s" using assms by (simp add: caches_def fun_eq_iff)
  show d: "dirties t = dirties s" using assms by (simp add: dirties_def)
  show "blk t = blk s" using assms by (simp add: blk_def bufof_def c fun_eq_iff split: option.split)
  show "pinned t = pinned s" by (simp add: pinned_def c d)
qed

lemma bcache_ok_cong:
  assumes "bufs t = bufs s" "disk t = disk s" "slks t = slks s" "held t = held s" "cur t = cur s"
    and p: "procs t = procs s \<or> procs t = map (wake ch) (procs s)"
  shows "bcache_ok s H \<Longrightarrow> bcache_ok t H"
proof -
  assume ok: "bcache_ok s H"
  note c = blk_cong [OF assms(1,2)]
  have k: "kok t" "mypid t = mypid s"
    using ok assms(4-6) by (auto simp: bcache_ok_def kok_def mypid_def wake_def)
  have ns: "no_sleeper x t" if "no_sleeper x s" for x
    using that p by (auto simp: no_sleeper_def wake_def)
  show ?thesis
    using ok k ns assms(1-3) by (auto simp: bcache_ok_def lru_def uniq_bufs_def c buf_ok_def Let_def mine_def)
qed

lemma log_inv_cong:
  assumes "bufs t = bufs s" "disk t = disk s" "slks t = slks s" "held t = held s" "cur t = cur s"
    and "procs t = procs s \<or> procs t = map (wake ch) (procs s)"
    and "log_start t = log_start s" "log_size t = log_size s" "log_dev t = log_dev s" "lh_n t = lh_n s" "lh_block t = lh_block s"
  shows "log_inv s H \<Longrightarrow> log_inv t H"
  using bcache_ok_cong [OF assms(1-6), of H] assms(7-11) blk_cong(4) [OF assms(1,2)] assms(2)
  by (auto simp: log_inv_def log_fits_def home_def in_log_def inj_on_def)

lemma commit_empty: "lh_n s = 0 \<Longrightarrow> commit s = Ok () s"
  by (simp add: commit_def kcode)

text \<open>
  Group commit.  end_op() of a system call that is not the last one
  outstanding only counts it out and wakes the waiters of begin_op(), without
  writing a block; the last one commits: afterwards every block outside the
  log is on the disk as the kernel sees it, the log is empty, no call is
  outstanding and no commit is in progress.
\<close>

lemma end_op_spec:
  assumes inv: "log_inv s {}" and out: "1 \<le> outstanding s" and nc: "\<not> committing s"
  shows "(outstanding s > 1 \<longrightarrow> end_op s
      = Ok () (s\<lparr>outstanding := outstanding s - 1, procs := map (wake Ch_log) (procs s)\<rparr>))
    \<and> (outstanding s = 1 \<longrightarrow> (\<exists>t. end_op s = Ok () t \<and> log_inv t {} \<and> lh_n t = 0 \<and> outstanding t = 0
        \<and> \<not> committing t \<and> procs t = map (wake Ch_log) (procs s)
        \<and> (\<forall>b. \<not> in_log s b \<longrightarrow> disk t ! b = blk s b \<and> blk t b = blk s b)))"
proof (intro conjI impI)
  have ok: "bcache_ok s {}" using inv by (simp add: log_inv_def)
  have h: "held s = []" and lp: "length (procs s) = NPROC" using ok by (simp_all add: bcache_ok_def kok_def)
  assume o: "outstanding s > 1"
  have "s\<lparr>outstanding := x, procs := y, held := []\<rparr> = s\<lparr>outstanding := x, procs := y\<rparr>" for x y
    using h by (cases s) simp
  then show "end_op s = Ok () (s\<lparr>outstanding := outstanding s - 1, procs := map (wake Ch_log) (procs s)\<rparr>)"
    using h lp nc o by (simp add: end_op_def kcode wakeup_eq)
next
  have ok: "bcache_ok s {}" using inv by (simp add: log_inv_def)
  have h: "held s = []" and lp: "length (procs s) = NPROC" using ok by (simp_all add: bcache_ok_def kok_def)
  assume o: "outstanding s = 1"
  let ?s = "s\<lparr>outstanding := 0, committing := True\<rparr>"
  have inv': "log_inv ?s {}" by (rule log_inv_cong [OF _ _ _ _ _ _ _ _ _ _ _ inv]) simp_all
  have bs: "blk ?s = blk s" by (rule blk_cong) simp_all
  have il: "in_log ?s = in_log s" by (simp add: in_log_def fun_eq_iff)
  have "\<exists>t. commit ?s = Ok () t \<and> log_inv t {} \<and> lh_n t = 0 \<and> procs t = procs s \<and> held t = [] \<and> outstanding t = 0
    \<and> (\<forall>b. \<not> in_log s b \<longrightarrow> disk t ! b = blk s b \<and> blk t b = blk s b)"
  proof (cases "lh_n s = 0")
    case True
    then have "pinned ?s = {}" using inv' by (simp add: log_inv_def)
    then show ?thesis using commit_empty [of ?s] inv' True h bs coherent [of ?s] by (auto simp: log_inv_def)
  next
    case False
    then have pos: "0 < lh_n ?s" using inv by (simp add: log_inv_def)
    obtain t where "commit ?s = Ok () t" "log_inv t {}" "lh_n t = 0"
      "\<And>b. \<not> in_log ?s b \<Longrightarrow> blk t b = blk ?s b" "\<And>b. \<not> in_log ?s b \<Longrightarrow> disk t ! b = blk ?s b"
      "held t = held ?s" "procs t = procs ?s" "outstanding t = outstanding ?s"
      by (rule commit_ok [OF inv' pos]) blast
    then show ?thesis using bs il h by (intro exI [of _ t]) simp
  qed
  then obtain t where t: "commit ?s = Ok () t" "log_inv t {}" "lh_n t = 0" "procs t = procs s" "held t = []" "outstanding t = 0"
    "\<forall>b. \<not> in_log s b \<longrightarrow> disk t ! b = blk s b \<and> blk t b = blk s b" by blast
  let ?u = "t\<lparr>committing := False, procs := map (wake Ch_log) (procs t)\<rparr>"
  have s0: "s\<lparr>outstanding := x, committing := c, held := []\<rparr> = s\<lparr>outstanding := x, committing := c\<rparr>" for x c
    using h by (cases s) simp
  have t0: "t\<lparr>committing := c, procs := y, held := []\<rparr> = t\<lparr>committing := c, procs := y\<rparr>" for c y
    using t(5) by (cases t) simp
  have "end_op s = Ok () ?u"
    using h lp nc o t(1,4,5) by (simp add: end_op_def kcode wakeup_eq s0 t0)
  moreover have "log_inv ?u {}" by (rule log_inv_cong [where ch = Ch_log, OF _ _ _ _ _ _ _ _ _ _ _ t(2)]) simp_all
  moreover have "blk ?u = blk t" by (rule blk_cong) simp_all
  ultimately show "\<exists>t. end_op s = Ok () t \<and> log_inv t {} \<and> lh_n t = 0 \<and> outstanding t = 0
        \<and> \<not> committing t \<and> procs t = map (wake Ch_log) (procs s)
        \<and> (\<forall>b. \<not> in_log s b \<longrightarrow> disk t ! b = blk s b \<and> blk t b = blk s b)"
    using t by (intro exI [of _ ?u]) simp
qed

text \<open>end_op() commits the block that a call logged on a freshly booted system.\<close>

lemma end_op_spec_witness:
  "\<exists>v w :: lst. outstanding v = 1 \<and> lh_n v = 1 \<and> blk v 32 = nines \<and> end_op v = Ok () w
     \<and> disk w ! 32 = nines \<and> lh_n w = 0 \<and> outstanding w = 0"
proof -
  obtain s t u v :: lst and j where v: "log_inv v {}" "lh_n v = 1" "blk v 32 = nines" "log_start v = 2"
    by (rule one_logged)
  let ?v = "v\<lparr>outstanding := 1, committing := False\<rparr>"
  have inv: "log_inv ?v {}" by (rule log_inv_cong [OF _ _ _ _ _ _ _ _ _ _ _ v(1)]) simp_all
  have "blk ?v = blk v" by (rule blk_cong) simp_all
  moreover have "\<not> in_log ?v 32" using v(4) by (simp add: in_log_def)
  moreover obtain w where "end_op ?v = Ok () w" "lh_n w = 0" "outstanding w = 0"
    "\<forall>b. \<not> in_log ?v b \<longrightarrow> disk w ! b = blk ?v b \<and> blk w b = blk ?v b"
    using end_op_spec [OF inv] by auto
  ultimately show ?thesis using v(2,3) by (intro exI [of _ ?v] exI [of _ w]) simp
qed

text \<open>
  C15: begin_op() admits a third system call when two are outstanding and the
  log is empty (three times MAXOPBLOCKS is LOGSIZE), but log_write() refuses
  the last of the LOGSIZE blocks those three calls may write when the log has
  LOGSIZE blocks on the disk, as mkfs makes it: with 29 blocks
  logged it panics.  The reservation is one block larger than the log.
\<close>

theorem begin_op_overcommits:
  assumes h: "held s = []" and nc: "\<not> committing s" and n: "lh_n s = 0" and out: "outstanding s = 2"
    and size: "log_size s = LOGSIZE"
  shows "begin_op s = Ok () (s\<lparr>outstanding := 3\<rparr>)
    \<and> log_write b (s\<lparr>outstanding := 3, lh_n := LOGSIZE - 1\<rparr>) = Panic ''too big a transaction''"
proof -
  have "s\<lparr>outstanding := x, held := []\<rparr> = s\<lparr>outstanding := x\<rparr>" for x
    using h by (cases s) simp
  then show ?thesis using assms by (simp add: begin_op_def begin_op_loop_def log_write_def kcode)
qed

theorem begin_op_overcommits_witness:
  "\<exists>s t :: lst. begin_op s = Ok () t \<and> outstanding t = 3 \<and> lh_n t = 0 \<and> log_size t = LOGSIZE
    \<and> log_write 0 (t\<lparr>lh_n := LOGSIZE - 1\<rparr>) = Panic ''too big a transaction''"
proof -
  let ?s = "boot_lst []\<lparr>outstanding := 2, log_size := LOGSIZE\<rparr>"
  have "held ?s = []" "\<not> committing ?s" "lh_n ?s = 0"
    by (simp_all add: boot_lst_def bst.extend_def lst.fields_def boot_bst_def)
  then show ?thesis using begin_op_overcommits [of ?s 0]
    by (intro exI [of _ ?s] exI [of _ "?s\<lparr>outstanding := 3\<rparr>"]) simp
qed

end
