(* ===== verification/Fs_Block.thy ===== *)
theory Fs_Block
  imports Log
begin

text \<open>
  fs.c, the block layer: the in-memory super block, bzero(), balloc() and
  bfree() on the free bitmap, inside a transaction of the log.  The first
  section gives the rules for the three steps of every update in fs.c
  (bread, change and log_write, brelse) in terms of the contents of blocks
  as the kernel sees them; the later file system theories use only these.
\<close>

section \<open>State\<close>

abbreviation (input) NDIRECT :: nat where "NDIRECT \<equiv> 12"
abbreviation (input) NINDIRECT :: nat where "NINDIRECT \<equiv> 128"
abbreviation (input) BPB :: nat where "BPB \<equiv> 4096"
abbreviation (input) IPB :: nat where "IPB \<equiv> 8"

text \<open>file.h, struct inode.  Its sleep lock is \<open>SL_inode i\<close> for the inode in slot \<open>i\<close> of the cache.\<close>

record inode =
  i_dev :: u32
  i_inum :: u32
  i_ref :: int
  i_valid :: bool
  i_type :: u16
  i_major :: u16
  i_minor :: u16
  i_nlink :: u16
  i_size :: u32
  i_addrs :: "u32 list"

definition zero_inode :: inode where
  "zero_inode = \<lparr>i_dev = 0, i_inum = 0, i_ref = 0, i_valid = False, i_type = 0, i_major = 0,
     i_minor = 0, i_nlink = 0, i_size = 0, i_addrs = replicate (Suc NDIRECT) 0\<rparr>"

text \<open>The globals of fs.c: the super block and the inode cache.\<close>

record ist = lst +
  sb :: superblock
  inodes :: "inode list"

section \<open>The routines\<close>

text \<open>fs.h: the bitmap block that holds the bit of block \<open>b\<close>.\<close>

definition BBLOCK :: "nat \<Rightarrow> superblock \<Rightarrow> u32" where
  "BBLOCK b sp = of_nat (b div BPB) + sb_bmapstart sp"

text \<open>
  The idiom \<open>bp = bread(dev, b); change bp->data by g; log_write(bp); brelse(bp)\<close>.
\<close>

definition log_update :: "u32 \<Rightarrow> u32 \<Rightarrow> (bytes \<Rightarrow> bytes) \<Rightarrow> ('z lst_scheme, unit) kfun" where
  "log_update dev b g =
     bindM (bread dev b) (\<lambda>bp.
     bindM (bdata bp) (\<lambda>d.
     thenM (set_bdata bp (g d))
     (thenM (log_write bp)
     (brelse bp))))"

text \<open>The idiom \<open>bp = bread(dev, b); read bp->data; brelse(bp)\<close>.\<close>

definition block_read :: "u32 \<Rightarrow> u32 \<Rightarrow> ('z lst_scheme, bytes) kfun" where
  "block_read dev b =
     bindM (bread dev b) (\<lambda>bp.
     bindM (bdata bp) (\<lambda>d.
     thenM (brelse bp)
     (retM d)))"

definition bzero :: "u32 \<Rightarrow> u32 \<Rightarrow> ('z lst_scheme, unit) kfun" where
  "bzero dev bno = log_update dev bno (\<lambda>d. replicate BSIZE 0)"

definition set_bit_at :: "nat \<Rightarrow> bytes \<Rightarrow> bytes" where
  "set_bit_at bi d = d[bi div 8 := d ! (bi div 8) OR push_bit (bi mod 8) 1]"

definition clear_bit_at :: "nat \<Rightarrow> bytes \<Rightarrow> bytes" where
  "clear_bit_at bi d = d[bi div 8 := d ! (bi div 8) AND NOT (push_bit (bi mod 8) 1)]"

definition bit_clear :: "bytes \<Rightarrow> nat \<Rightarrow> bool" where
  "bit_clear d bi \<longleftrightarrow> d ! (bi div 8) AND push_bit (bi mod 8) 1 = 0"

text \<open>balloc(): one turn of the loop over the bitmap blocks, and the loop.\<close>

definition balloc_turn :: "u32 \<Rightarrow> nat \<Rightarrow> ('z ist_scheme, u32 option) kfun" where
  "balloc_turn dev b =
     bindM (getM sb) (\<lambda>sp.
     bindM (bread dev (BBLOCK b sp)) (\<lambda>bp.
     bindM (bdata bp) (\<lambda>d.
     case find (bit_clear d) [0..<min BPB (unat (sb_size sp) - b)] of
       Some bi \<Rightarrow>
         thenM (set_bdata bp (set_bit_at bi d))
         (thenM (log_write bp)
         (thenM (brelse bp)
         (thenM (bzero dev (of_nat (b + bi)))
         (retM (Some (of_nat (b + bi)))))))
     | None \<Rightarrow> thenM (brelse bp) (retM None))))"

definition balloc :: "u32 \<Rightarrow> ('z ist_scheme, u32) kfun" where
  "balloc dev =
     bindM (getM (\<lambda>s. unat (sb_size (sb s)))) (\<lambda>size.
     bindM (findM (map (\<lambda>k. k * BPB) [0..<(size + BPB - 1) div BPB]) (balloc_turn dev)) (\<lambda>r.
     case r of Some b \<Rightarrow> retM b | None \<Rightarrow> panicM ''balloc: out of blocks''))"

definition bfree :: "u32 \<Rightarrow> u32 \<Rightarrow> ('z ist_scheme, unit) kfun" where
  "bfree dev b =
     bindM (getM sb) (\<lambda>sp.
     bindM (bread dev (BBLOCK (unat b) sp)) (\<lambda>bp.
     bindM (bdata bp) (\<lambda>d.
     let bi = unat b mod BPB in
     thenM (assertM (\<not> bit_clear d bi) ''freeing free block'')
     (thenM (set_bdata bp (clear_bit_at bi d))
     (thenM (log_write bp)
     (brelse bp))))))"

section \<open>Transactions\<close>

text \<open>
  \<open>calm s H k\<close>: a system call runs with the buffers \<open>H\<close> locked, and the log
  has room for \<open>k\<close> more blocks; \<open>txn s H k\<close>: it runs inside a transaction.
\<close>

definition calm :: "'z lst_scheme \<Rightarrow> nat set \<Rightarrow> nat \<Rightarrow> bool" where
  "calm s H k \<longleftrightarrow> log_inv s H \<and> log_size s = LOGSIZE \<and> lh_n s + int k < LOGSIZE"

definition txn :: "'z lst_scheme \<Rightarrow> nat set \<Rightarrow> nat \<Rightarrow> bool" where
  "txn s H k \<longleftrightarrow> calm s H k \<and> 1 \<le> outstanding s"

lemma txn_calm: "txn s H k \<Longrightarrow> calm s H k"
  by (simp add: txn_def)

text \<open>What the block layer changes inside a transaction: the cache and the in-memory log header.\<close>

definition lframe :: "'z lst_scheme \<Rightarrow> 'z lst_scheme \<Rightarrow> bool" where
  "lframe s t \<longleftrightarrow> (\<exists>sl bf n hb. t = s\<lparr>slks := sl, bufs := bf, lh_n := n, lh_block := hb\<rparr>
     \<and> (\<forall>k. (\<forall>i. k \<noteq> SL_buf i) \<longrightarrow> sl k = slks s k))"

lemma lframeI:
  assumes "t = s\<lparr>slks := slks t, bufs := bufs t, lh_n := lh_n t, lh_block := lh_block t\<rparr>"
    and "\<And>k. (\<And>i. k \<noteq> SL_buf i) \<Longrightarrow> slks t k = slks s k"
  shows "lframe s t"
  unfolding lframe_def using assms by blast

lemma lframe_refl [simp]: "lframe s s"
  by (rule lframeI) simp_all

lemma lframe_trans:
  assumes "lframe s t" "lframe t u"
  shows "lframe s u"
proof -
  obtain sl bf d w sl' bf' d' w' where t: "t = s\<lparr>slks := sl, bufs := bf, lh_n := d, lh_block := w\<rparr>"
    "\<forall>k. (\<forall>i. k \<noteq> SL_buf i) \<longrightarrow> sl k = slks s k"
    and u: "u = t\<lparr>slks := sl', bufs := bf', lh_n := d', lh_block := w'\<rparr>"
    "\<forall>k. (\<forall>i. k \<noteq> SL_buf i) \<longrightarrow> sl' k = slks t k"
    using assms by (auto simp: lframe_def)
  have "u = s\<lparr>slks := sl', bufs := bf', lh_n := d', lh_block := w'\<rparr>" unfolding u(1) t(1) by simp
  then show ?thesis using t u by (intro lframeI) simp_all
qed

lemma bframe_lframe: "bframe s t \<Longrightarrow> disk t = disk s \<Longrightarrow> dwrites t = dwrites s \<Longrightarrow> lframe s t"
  by (auto simp: bframe_def intro!: lframeI)

lemma lframeD:
  fixes s t :: "'z ist_scheme"
  assumes "lframe s t"
  shows "disk t = disk s" "dwrites t = dwrites s" "log_start t = log_start s" "log_size t = log_size s"
    "outstanding t = outstanding s" "committing t = committing s" "log_dev t = log_dev s"
    "sb t = sb s" "inodes t = inodes s" "procs t = procs s" "cur t = cur s" "held t = held s" "mem t = mem s"
    "slks t (SL_inode j) = slks s (SL_inode j)"
  using assms by (auto simp: lframe_def)

lemma lframe_in_log: "lframe s t \<Longrightarrow> in_log t = in_log s"
  by (auto simp: lframe_def in_log_def fun_eq_iff)

lemma lframe_disk: "lframe s t \<Longrightarrow> disk t = disk s"
  by (auto simp: lframe_def)

text \<open>The buffer \<open>i\<close> of block \<open>b\<close> may be released: it is logged, or unchanged.\<close>

definition settled :: "'z bst_scheme \<Rightarrow> nat \<Rightarrow> nat \<Rightarrow> bool" where
  "settled s i b \<longleftrightarrow> i \<in> dirties s \<or> blk s b = disk s ! b"

lemma card_pinned_log: "log_inv s H \<Longrightarrow> card (pinned s) = nat (lh_n s)"
  using card_image [of "home s" "{..<nat (lh_n s)}"] by (simp add: log_inv_def)

lemma coherent_free:
  assumes ok: "bcache_ok s H" and b: "b \<notin> pinned s" "\<And>i. i \<in> H \<Longrightarrow> \<not> caches s i b"
  shows "blk s b = disk s ! b"
proof (cases "\<exists>i. caches s i b")
  case True
  then obtain i where i: "caches s i b" by blast
  then have "buf_ok s H i" "uniq_bufs s" "i \<notin> dirties s" "i < NBUF" "i \<notin> H"
    using ok b by (auto simp: bcache_ok_def caches_def pinned_def)
  then show ?thesis using i blk_cached [of s i b] by (auto simp: buf_ok_def Let_def dirties_def caches_def)
next
  case False
  then show ?thesis by (simp add: blk_uncached)
qed

lemma calm_bread:
  assumes tx: "calm s H k" and b: "unat w = b" "b < length (disk s)" "\<forall>i \<in> H. \<not> caches s i b" and k: "card H \<le> k"
  obtains i t where "bread 1 w s = Ok i t" "i \<notin> H" "calm t (insert i H) k" "caches t i b"
    "b_data (bufs t ! i) = blk s b" "blk t = blk s" "lframe s t" "settled t i b" "lh_n t = lh_n s"
    "pinned t = pinned s" "\<And>j. j \<in> H \<Longrightarrow> bufs t ! j = bufs s ! j"
proof -
  have ok: "bcache_ok s H" and li: "log_inv s H" using tx by (simp_all add: calm_def log_inv_def)
  have r: "b \<in> pinned s \<or> card (pinned s) + card H < NBUF"
    using card_pinned_log [OF li] tx k by (auto simp: calm_def log_inv_def)
  obtain i t where t: "bread 1 w s = Ok i t" "i < NBUF" "i \<notin> H" "bcache_ok t (insert i H)" "caches t i b"
    "b_data (bufs t ! i) = blk s b" "blk t = blk s" "disk t = disk s" "dwrites t = dwrites s"
    "bframe s t" "pinned t = pinned s" "\<And>j. j \<noteq> i \<Longrightarrow> bufs t ! j = bufs s ! j"
    "i \<in> dirties t \<longleftrightarrow> b \<in> pinned s"
    by (rule bread_pin [OF ok, of w]) (use b r in auto)
  note f = bframe_log [OF t(10)]
  have "log_inv t (insert i H)"
    using li t(4,8,11) f log_frame [OF t(10)] by (simp add: log_inv_def log_fits_def)
  then have "calm t (insert i H) k" using tx f by (simp add: calm_def)
  moreover have "settled t i b"
    using coherent_free [OF ok _ b(3) [rule_format]] t(7,8,13) by (auto simp: settled_def)
  ultimately show ?thesis
    using that t f bframe_lframe by (metis (no_types, lifting))
qed

lemma txn_bread:
  assumes tx: "txn s H k" and b: "unat w = b" "b < length (disk s)" "\<forall>i \<in> H. \<not> caches s i b" and k: "card H \<le> k"
  obtains i t where "bread 1 w s = Ok i t" "i \<notin> H" "txn t (insert i H) k" "caches t i b"
    "b_data (bufs t ! i) = blk s b" "blk t = blk s" "lframe s t" "settled t i b" "lh_n t = lh_n s"
    "pinned t = pinned s" "\<And>j. j \<in> H \<Longrightarrow> bufs t ! j = bufs s ! j"
proof (rule calm_bread [OF txn_calm [OF tx] b k])
  fix i t assume t: "bread 1 w s = Ok i t" "i \<notin> H" "calm t (insert i H) k" "caches t i b"
    "b_data (bufs t ! i) = blk s b" "blk t = blk s" "lframe s t" "settled t i b" "lh_n t = lh_n s"
    "pinned t = pinned s" "\<And>j. j \<in> H \<Longrightarrow> bufs t ! j = bufs s ! j"
  have "outstanding t = outstanding s" using t(7) by (auto simp: lframe_def)
  then have "txn t (insert i H) k" using t(3) tx by (simp add: txn_def)
  then show thesis using that t by blast
qed

lemma txn_write:
  assumes tx: "txn s H (Suc k)" and i: "i \<in> H" "caches s i b" and out: "\<not> in_log s b" and d: "length d = BSIZE"
  obtains t where "thenM (set_bdata i d) (log_write i) s = Ok () t" "txn t H k" "blk t = (blk s)(b := d)"
    "lframe s t" "settled t i b" "\<And>j c. caches t j c = caches s j c" "pinned t = insert b (pinned s)"
    "b \<in> pinned s \<Longrightarrow> lh_n t = lh_n s" "\<And>j. j \<noteq> i \<Longrightarrow> bufs t ! j = bufs s ! j" "b_data (bufs t ! i) = d"
proof -
  let ?s = "s\<lparr>bufs := (bufs s)[i := (bufs s ! i)\<lparr>b_data := d\<rparr>]\<rparr>"
  have li: "log_inv s H" and ok: "bcache_ok s H" using tx by (simp_all add: txn_def calm_def log_inv_def)
  note e = locked_edit [OF ok i d]
  have es: "caches ?s j c = caches s j c" for j c
    using e(3) i(2) by (cases "j = i") (auto simp: caches_def)
  have pe: "pinned ?s = pinned s" using e(5) es by (simp add: pinned_def)
  have le: "log_inv ?s H"
    using li e(1) pe by (simp add: log_inv_def log_fits_def home_def in_log_def inj_on_def)
  have n: "lh_n ?s < log_size ?s - 1" "1 \<le> outstanding ?s" "\<not> in_log ?s b"
    using tx out by (simp_all add: txn_def calm_def in_log_def)
  obtain t where t: "log_write i ?s = Ok () t" "log_inv t H" "blk t = blk ?s" "disk t = disk ?s" "dwrites t = dwrites ?s"
    "pinned t = insert b (pinned ?s)" "i \<in> dirties t" "\<And>j c. caches t j c = caches ?s j c"
    "\<And>j. j \<noteq> i \<Longrightarrow> bufs t ! j = bufs ?s ! j"
    "t = ?s\<lparr>lh_block := lh_block t, lh_n := lh_n t, bufs := bufs t\<rparr>" "lh_n t \<le> lh_n ?s + 1"
    "b \<in> pinned ?s \<Longrightarrow> lh_n t = lh_n ?s"
    by (rule log_write_ok [OF le i(1) e(3) n(3,1,2)]) (rule that; assumption)
  have u: "slks t = slks s" "outstanding t = outstanding s" "log_size t = log_size s"
    by (subst t(10), simp)+
  have "t = s\<lparr>slks := slks t, bufs := bufs t, lh_n := lh_n t, lh_block := lh_block t\<rparr>"
    by (subst t(10)) (simp add: u(1))
  then have fr: "lframe s t" by (rule lframeI) (simp add: u(1))
  have tb: "txn t H k" using t(2,11) u(2,3) tx by (simp add: txn_def calm_def)
  have tc: "\<And>j c. caches t j c = caches s j c" using t(8) es by simp
  have bi: "b_data (bufs t ! i) = d"
  proof -
    have "blk t b = d" using t(3) e(2) by simp
    moreover have "uniq_bufs t" "b_valid (bufs t ! i)"
      using t(2) i unfolding log_inv_def bcache_ok_def by (auto simp: buf_ok_def Let_def caches_def)
    ultimately show ?thesis using blk_cached [of t i b] tc i(2) by simp
  qed
  show ?thesis
    by (rule that [OF _ tb _ fr _ tc])
       (use t(1,3,6,7,9,12) e(2) pe bi in \<open>auto simp: kcode settled_def\<close>)
qed

lemma calm_brelse:
  assumes tx: "calm s H k" and i: "i \<in> H" "caches s i b" "settled s i b"
  obtains t where "brelse i s = Ok () t" "calm t (H - {i}) k" "blk t = blk s" "lframe s t" "lh_n t = lh_n s"
    "pinned t = pinned s" "\<And>j c. caches t j c = caches s j c" "dirties t = dirties s"
proof -
  have li: "log_inv s H" and ok: "bcache_ok s H" using tx by (simp_all add: calm_def log_inv_def)
  obtain t where t: "brelse i s = Ok () t" "bcache_ok t (H - {i})" "blk t = blk s" "disk t = disk s"
    "dwrites t = dwrites s" "bframe s t" "pinned t = pinned s" "\<And>j c. caches t j c = caches s j c"
    "dirties t = dirties s"
    by (rule release_pin [OF ok i(1,2) i(3) [unfolded settled_def]]) blast
  note f = bframe_log [OF t(6)]
  have "log_inv t (H - {i})"
    using li t(2,4,7) f log_frame [OF t(6)] by (simp add: log_inv_def log_fits_def)
  then have "calm t (H - {i}) k" using tx f by (simp add: calm_def)
  then show ?thesis using that t f bframe_lframe by (metis (no_types, lifting))
qed

lemma txn_brelse:
  assumes tx: "txn s H k" and i: "i \<in> H" "caches s i b" "settled s i b"
  obtains t where "brelse i s = Ok () t" "txn t (H - {i}) k" "blk t = blk s" "lframe s t" "lh_n t = lh_n s"
    "pinned t = pinned s" "\<And>j c. caches t j c = caches s j c" "dirties t = dirties s"
proof (rule calm_brelse [OF txn_calm [OF tx] i])
  fix t assume t: "brelse i s = Ok () t" "calm t (H - {i}) k" "blk t = blk s" "lframe s t" "lh_n t = lh_n s"
    "pinned t = pinned s" "\<And>j c. caches t j c = caches s j c" "dirties t = dirties s"
  have "outstanding t = outstanding s" using t(4) by (auto simp: lframe_def)
  then have "txn t (H - {i}) k" using t(2) tx by (simp add: txn_def)
  then show thesis using that t by blast
qed

text \<open>The whole idioms.\<close>

lemma block_read_ok:
  assumes tx: "calm s H k" and b: "unat w = b" "b < length (disk s)" "\<forall>i \<in> H. \<not> caches s i b" and k: "card H \<le> k"
  obtains t where "block_read 1 w s = Ok (blk s b) t" "calm t H k" "blk t = blk s" "lframe s t"
    "lh_n t = lh_n s" "pinned t = pinned s" "\<And>i c. i \<in> H \<Longrightarrow> caches t i c = caches s i c"
proof -
  obtain i t where t: "bread 1 w s = Ok i t" "i \<notin> H" "calm t (insert i H) k" "caches t i b" "b_data (bufs t ! i) = blk s b"
    "blk t = blk s" "lframe s t" "settled t i b" "lh_n t = lh_n s" "pinned t = pinned s"
    and th: "\<And>j. j \<in> H \<Longrightarrow> bufs t ! j = bufs s ! j"
    by (rule calm_bread [OF tx b k]) (rule that; assumption)
  obtain u where u: "brelse i t = Ok () u" "calm u (insert i H - {i}) k" "blk u = blk t" "lframe t u" "lh_n u = lh_n t" "pinned u = pinned t"
    and uc: "\<And>j c. caches u j c = caches t j c"
    by (rule calm_brelse [OF t(3) _ t(4,8)]) auto
  have "caches u i c = caches s i c" if "i \<in> H" for i c using uc th [OF that] by (simp add: caches_def)
  then show ?thesis
    by (intro that [of u]) (use t u lframe_trans in \<open>auto simp: block_read_def kcode\<close>)
qed

lemma log_update_ok:
  assumes tx: "txn s H (Suc k)" and b: "unat w = b" "b < length (disk s)" "\<forall>i \<in> H. \<not> caches s i b" "\<not> in_log s b"
    and g: "length (g (blk s b)) = BSIZE" and k: "card H \<le> k"
  obtains t where "log_update 1 w g s = Ok () t" "txn t H k" "blk t = (blk s)(b := g (blk s b))" "lframe s t"
    "pinned t = insert b (pinned s)" "b \<in> pinned s \<Longrightarrow> lh_n t = lh_n s"
    "\<And>i c. i \<in> H \<Longrightarrow> caches t i c = caches s i c"
proof -
  obtain i t where t: "bread 1 w s = Ok i t" "i \<notin> H" "txn t (insert i H) (Suc k)" "caches t i b" "b_data (bufs t ! i) = blk s b"
    "blk t = blk s" "lframe s t" "lh_n t = lh_n s" "pinned t = pinned s"
    and th: "\<And>j. j \<in> H \<Longrightarrow> bufs t ! j = bufs s ! j"
    by (rule txn_bread [OF tx b(1-3) le_SucI [OF k]]) (rule that; assumption)
  have o: "\<not> in_log t b" using b(4) lframe_in_log [OF t(7)] by simp
  obtain u where u: "thenM (set_bdata i (g (blk s b))) (log_write i) t = Ok () u" "txn u (insert i H) k"
    "blk u = (blk t)(b := g (blk s b))" "lframe t u" "settled u i b"
    "pinned u = insert b (pinned t)" "b \<in> pinned t \<Longrightarrow> lh_n u = lh_n t"
    and uc: "\<And>j c. caches u j c = caches t j c"
    by (rule txn_write [OF t(3) _ t(4) o g]) auto
  obtain v where v: "brelse i u = Ok () v" "txn v (insert i H - {i}) k" "blk v = blk u" "lframe u v" "lh_n v = lh_n u" "pinned v = pinned u"
    and vc: "\<And>j c. caches v j c = caches u j c"
    by (rule txn_brelse [OF u(2) _ _ u(5)]) (use uc t(4) in auto)
  have fr: "lframe s v" using lframe_trans [OF lframe_trans [OF t(7) u(4)] v(4)] .
  have run: "log_update 1 w g s = Ok () v"
    using t(1,5) u(1) v(1) by (auto simp: log_update_def kcode split: outcome.splits)
  have "caches v i c = caches s i c" if "i \<in> H" for i c using uc vc th [OF that] by (simp add: caches_def)
  then show ?thesis
    using that [OF run] t(2,6,8,9) u(3,6,7) v(2,3,5,6) fr by auto
qed

section \<open>The free bitmap\<close>

lemma bit_clear_iff: "bit_clear d bi \<longleftrightarrow> \<not> bit (d ! (bi div 8)) (bi mod 8)"
  by (simp add: bit_clear_def push_bit_of_1 and_exp_eq_0_iff_not_bit)

lemma length_set_bit_at [simp]: "length (set_bit_at bi d) = length d" "length (clear_bit_at bi d) = length d"
  by (simp_all add: set_bit_at_def clear_bit_at_def)

lemma bit_clear_set:
  assumes "bi < 8 * length d"
  shows "bit_clear (set_bit_at bi d) bj \<longleftrightarrow> bj \<noteq> bi \<and> bit_clear d bj"
proof (cases "bj div 8 = bi div 8")
  case True
  then have "bj mod 8 = bi mod 8 \<longleftrightarrow> bj = bi" by (metis mod_mult_div_eq)
  moreover have "bi div 8 < length d" using assms by simp
  ultimately show ?thesis using True
    by (auto simp: bit_clear_iff set_bit_at_def bit_or_iff push_bit_of_1 bit_exp_iff)
next
  case False
  then show ?thesis by (auto simp: bit_clear_iff set_bit_at_def)
qed

lemma bit_clear_clear:
  assumes "bi < 8 * length d"
  shows "bit_clear (clear_bit_at bi d) bj \<longleftrightarrow> bj = bi \<or> bit_clear d bj"
proof (cases "bj div 8 = bi div 8")
  case True
  then have "bj mod 8 = bi mod 8 \<longleftrightarrow> bj = bi" by (metis mod_mult_div_eq)
  moreover have "bi div 8 < length d" "bj mod 8 < 8" using assms by simp_all
  ultimately show ?thesis using True
    by (auto simp: bit_clear_iff clear_bit_at_def bit_and_iff bit_not_iff push_bit_of_1 bit_exp_iff)
next
  case False
  then show ?thesis by (auto simp: bit_clear_iff clear_bit_at_def)
qed

text \<open>
  \<open>used v sp b\<close>: the bitmap of the file system \<open>sp\<close> in the block contents \<open>v\<close>
  has the bit of block \<open>b\<close> set.
\<close>

definition bmblk :: "superblock \<Rightarrow> nat \<Rightarrow> nat" where
  "bmblk sp b = unat (sb_bmapstart sp) + b div BPB"

definition used :: "(nat \<Rightarrow> bytes) \<Rightarrow> superblock \<Rightarrow> nat \<Rightarrow> bool" where
  "used v sp b \<longleftrightarrow> \<not> bit_clear (v (bmblk sp b)) (b mod BPB)"

text \<open>
  The file system fits on the disk; the bitmap is outside the log; and the
  bitmap's own blocks and the log's are marked in use.
\<close>

definition fs_ok :: "'z ist_scheme \<Rightarrow> bool" where
  "fs_ok s \<longleftrightarrow> (let sp = sb s; size = unat (sb_size sp) in
     size \<le> length (disk s) \<and> 0 < size
     \<and> (\<forall>b < size. bmblk sp b < size \<and> \<not> in_log s (bmblk sp b) \<and> used (blk s) sp (bmblk sp b)
          \<and> (in_log s b \<longrightarrow> used (blk s) sp b)))"

text \<open>The buffers held are of blocks in use outside the bitmap.\<close>

definition held_ok :: "'z ist_scheme \<Rightarrow> nat set \<Rightarrow> bool" where
  "held_ok s H \<longleftrightarrow> (\<forall>i \<in> H. \<forall>c. caches s i c \<longrightarrow> used (blk s) (sb s) c \<and> (\<forall>b < unat (sb_size (sb s)). c \<noteq> bmblk (sb s) b))"

lemma fs_okD:
  assumes "fs_ok s" "b < unat (sb_size (sb s))"
  shows "bmblk (sb s) b < length (disk s)" "\<not> in_log s (bmblk (sb s) b)" "used (blk s) (sb s) (bmblk (sb s) b)"
    "in_log s b \<Longrightarrow> used (blk s) (sb s) b" "b < length (disk s)" "bmblk (sb s) b < unat (sb_size (sb s))"
  using assms unfolding fs_ok_def Let_def by (auto intro: order_less_le_trans)

lemma length_blk: "bcache_ok s H \<Longrightarrow> b < length (disk s) \<Longrightarrow> length (blk s b) = BSIZE"
  unfolding blk_def bufof_def bcache_ok_def buf_ok_def Let_def
  by (auto split: option.split simp: find_upt_Some [unfolded, of _ 0])

lemma unat_BBLOCK:
  assumes "bcache_ok s H" "fs_ok s" "b < unat (sb_size (sb s))"
  shows "unat (BBLOCK b (sb s)) = bmblk (sb s) b"
proof -
  have "bmblk (sb s) b < 2 ^ 32" using fs_okD(1) [OF assms(2,3)] assms(1) by (auto simp: bcache_ok_def)
  then have "unat (of_nat (b div BPB) :: u32) = b div BPB" "unat (of_nat (b div BPB) :: u32) + unat (sb_bmapstart (sb s)) < 2 ^ 32"
    by (simp_all add: bmblk_def unat_of_nat)
  then show ?thesis by (simp add: BBLOCK_def bmblk_def unat_word_ariths)
qed

text \<open>The contents of the disk after block \<open>b\<close> was allocated and cleared.\<close>

definition after_balloc :: "superblock \<Rightarrow> nat \<Rightarrow> (nat \<Rightarrow> bytes) \<Rightarrow> nat \<Rightarrow> bytes" where
  "after_balloc sp b v = (v(bmblk sp b := set_bit_at (b mod BPB) (v (bmblk sp b))))(b := replicate BSIZE 0)"

lemma bmblk_inj:
  assumes "bmblk sp b = bmblk sp c"
  shows "b mod BPB = c mod BPB \<longleftrightarrow> b = c"
  using assms by (metis (no_types, lifting) add_left_cancel bmblk_def mult_div_mod_eq)

lemma used_upd_bit:
  assumes "length (v (bmblk sp b)) = BSIZE"
  shows "used (v(bmblk sp b := set_bit_at (b mod BPB) (v (bmblk sp b)))) sp c \<longleftrightarrow> c = b \<or> used v sp c"
    and "used (v(bmblk sp b := clear_bit_at (b mod BPB) (v (bmblk sp b)))) sp c \<longleftrightarrow> c \<noteq> b \<and> used v sp c"
proof -
  have "b mod BPB < 8 * length (v (bmblk sp b))" using assms by simp
  note bits = bit_clear_set [OF this] bit_clear_clear [OF this]
  show "used (v(bmblk sp b := set_bit_at (b mod BPB) (v (bmblk sp b)))) sp c \<longleftrightarrow> c = b \<or> used v sp c"
    using bits(1) [of "c mod BPB"] bmblk_inj [of sp b c] by (cases "bmblk sp c = bmblk sp b") (auto simp: used_def)
  show "used (v(bmblk sp b := clear_bit_at (b mod BPB) (v (bmblk sp b)))) sp c \<longleftrightarrow> c \<noteq> b \<and> used v sp c"
    using bits(2) [of "c mod BPB"] bmblk_inj [of sp b c] by (cases "bmblk sp c = bmblk sp b") (auto simp: used_def)
qed

lemma used_after_balloc:
  assumes "length (v (bmblk sp b)) = BSIZE" "bmblk sp c \<noteq> b"
  shows "used (after_balloc sp b v) sp c \<longleftrightarrow> c = b \<or> used v sp c"
proof -
  have "used (after_balloc sp b v) sp c = used (v(bmblk sp b := set_bit_at (b mod BPB) (v (bmblk sp b)))) sp c"
    using assms(2) by (simp add: used_def after_balloc_def)
  then show ?thesis using used_upd_bit(1) [of v, OF assms(1)] by simp
qed

lemma balloc_turn_ok:
  fixes s :: "'z ist_scheme"
  assumes tx: "txn s H (Suc (Suc k))" and fs: "fs_ok s" and h: "held_ok s H" and k: "card H \<le> k"
    and b: "b < unat (sb_size (sb s))" "b mod BPB = 0"
  defines "m \<equiv> min (b + BPB) (unat (sb_size (sb s)))"
  shows "\<exists>t. lframe s t \<and> (\<forall>i \<in> H. \<forall>c. caches t i c = caches s i c) \<and>
    (if \<forall>c. b \<le> c \<and> c < m \<longrightarrow> used (blk s) (sb s) c
     then balloc_turn 1 b s = Ok None t \<and> txn t H (Suc (Suc k)) \<and> blk t = blk s
     else \<exists>c. b \<le> c \<and> c < m \<and> \<not> used (blk s) (sb s) c \<and> (\<forall>e. b \<le> e \<and> e < c \<longrightarrow> used (blk s) (sb s) e)
       \<and> balloc_turn 1 b s = Ok (Some (of_nat c)) t \<and> txn t H k \<and> blk t = after_balloc (sb s) c (blk s))"
proof -
  define B where "B = bmblk (sb s) b"
  define d where "d = blk s B"
  have ok: "bcache_ok s H" using tx by (simp add: txn_def calm_def log_inv_def)
  have uB: "unat (BBLOCK b (sb s)) = B" unfolding B_def by (rule unat_BBLOCK [OF ok fs b(1)])
  note fb = fs_okD [OF fs b(1), folded B_def]
  have nH: "\<forall>i \<in> H. \<not> caches s i B" using h b(1) unfolding held_ok_def B_def by blast
  obtain i t where t: "bread 1 (BBLOCK b (sb s)) s = Ok i t" "i \<notin> H" "txn t (insert i H) (Suc (Suc k))" "caches t i B"
    "b_data (bufs t ! i) = d" "blk t = blk s" "lframe s t" "settled t i B" "lh_n t = lh_n s" "pinned t = pinned s"
    and th: "\<And>j. j \<in> H \<Longrightarrow> bufs t ! j = bufs s ! j"
    by (rule txn_bread [OF tx uB fb(1) nH le_SucI [OF le_SucI [OF k]], folded d_def]) (rule that; assumption)
  have ubit: "used (blk s) (sb s) (b + j) \<longleftrightarrow> \<not> bit_clear d j" if "j < BPB" for j
  proof -
    have "(b + j) div BPB = b div BPB" "(b + j) mod BPB = j" using b(2) that by auto
    then show ?thesis by (simp add: used_def d_def B_def bmblk_def)
  qed
  have tc: "caches t j c = caches s j c" if "j \<in> H" for j c using th [OF that] by (simp add: caches_def)
  let ?r = "min BPB (unat (sb_size (sb s)) - b)"
  show ?thesis
  proof (cases "find (bit_clear d) [0..<?r]")
    case None
    have all: "\<forall>c. b \<le> c \<and> c < m \<longrightarrow> used (blk s) (sb s) c"
    proof (intro allI impI)
      fix c assume "b \<le> c \<and> c < m"
      then have "c - b < ?r" "c - b < BPB" "c = b + (c - b)" unfolding m_def by auto
      then show "used (blk s) (sb s) c" using ubit [of "c - b"] None by (simp add: find_upt_None)
    qed
    obtain u where u: "brelse i t = Ok () u" "txn u (insert i H - {i}) (Suc (Suc k))" "blk u = blk t" "lframe t u"
      and uc: "\<And>j c. caches u j c = caches t j c"
      by (rule txn_brelse [OF t(3) _ t(4,8)]) auto
    have run: "balloc_turn 1 b s = Ok None u"
      using t(1,5) u(1) None by (simp add: balloc_turn_def kcode)
    show ?thesis
      using all run u(2,3) t(2,6) lframe_trans [OF t(7) u(4)] uc tc by (intro exI [of _ u]) simp
  next
    case (Some bi)
    have bi: "bi < ?r" "bi < BPB" "bit_clear d bi" "\<And>j. j < bi \<Longrightarrow> \<not> bit_clear d j"
      using Some by (auto simp: find_upt_Some)
    define c where "c = b + bi"
    have c: "b \<le> c" "c < m" "\<not> used (blk s) (sb s) c" "c < unat (sb_size (sb s))"
      using bi ubit [of bi] unfolding c_def m_def by auto
    have first: "\<forall>e. b \<le> e \<and> e < c \<longrightarrow> used (blk s) (sb s) e"
    proof (intro allI impI)
      fix e assume e: "b \<le> e \<and> e < c"
      then have "e = b + (e - b)" "e - b < bi" "e - b < BPB" unfolding c_def using bi(2) by auto
      then show "used (blk s) (sb s) e" using ubit [of "e - b"] bi(4) [of "e - b"] by simp
    qed
    have cB: "bmblk (sb s) c = B" "c mod BPB = bi" using b(2) bi(2) by (auto simp: c_def B_def bmblk_def)
    have cm: "c \<noteq> B" using fb(3) c(3) by auto
    have o: "\<not> in_log t B" using fb(2) lframe_in_log [OF t(7)] by simp
    have ld: "length (set_bit_at bi d) = BSIZE" using length_blk [OF ok fb(1)] by (simp add: d_def)
    obtain u where u: "thenM (set_bdata i (set_bit_at bi d)) (log_write i) t = Ok () u" "txn u (insert i H) (Suc k)"
      "blk u = (blk t)(B := set_bit_at bi d)" "lframe t u" "settled u i B"
      and uc: "\<And>j c. caches u j c = caches t j c"
      by (rule txn_write [OF t(3) _ t(4) o ld]) auto
    obtain v where v: "brelse i u = Ok () v" "txn v (insert i H - {i}) (Suc k)" "blk v = blk u" "lframe u v"
      and vc: "\<And>j c. caches v j c = caches u j c"
      by (rule txn_brelse [OF u(2) _ _ u(5)]) (use uc t(4) in auto)
    have fsv: "lframe s v" using lframe_trans [OF lframe_trans [OF t(7) u(4)] v(4)] .
    have vH: "txn v H (Suc k)" using v(2) t(2) by simp
    have vcs: "caches v j e = caches s j e" if "j \<in> H" for j e using vc uc tc [OF that] by simp
    note cd = fs_okD [OF fs c(4)]
    have c32: "unat (of_nat c :: u32) = c" using cd(5) ok by (simp add: bcache_ok_def unat_of_nat)
    have vl: "c < length (disk v)" "\<not> in_log v c"
      using cd(4,5) c(3) lframe_disk [OF fsv] lframe_in_log [OF fsv] by auto
    have vn: "\<forall>j \<in> H. \<not> caches v j c" using h c(3) vcs unfolding held_ok_def by blast
    obtain w where w: "log_update 1 (of_nat c) (\<lambda>d. replicate BSIZE 0) v = Ok () w" "txn w H k"
      "blk w = (blk v)(c := replicate BSIZE 0)" "lframe v w" and wc: "\<And>i c. i \<in> H \<Longrightarrow> caches w i c = caches v i c"
      by (rule log_update_ok [OF vH c32 vl(1) vn vl(2), of "\<lambda>d. replicate BSIZE 0"]) (use k in auto)
    have run: "balloc_turn 1 b s = Ok (Some (of_nat c)) w"
      using t(1,5) u(1) v(1) w(1) Some
      by (auto simp: balloc_turn_def kcode bzero_def c_def split: outcome.splits)
    have bw: "blk w = after_balloc (sb s) c (blk s)"
      using w(3) v(3) u(3) t(6) cB by (simp add: after_balloc_def d_def)
    show ?thesis
      using c first run w(2) bw lframe_trans [OF fsv w(4)] wc vcs
      by (intro exI [of _ w] conjI) (auto intro!: exI [of _ c])
  qed
qed

lemma lframe_fs:
  fixes s t :: "'z ist_scheme"
  assumes "lframe s t" "blk t = blk s"
  shows "fs_ok t = fs_ok s" "(\<forall>i \<in> H. \<forall>c. caches t i c = caches s i c) \<Longrightarrow> held_ok t H = held_ok s H"
  using assms lframe_in_log [OF assms(1)] by (auto simp: fs_ok_def held_ok_def lframeD [OF assms(1)])

lemma balloc_loop:
  fixes s :: "'z ist_scheme"
  assumes "txn s H (Suc (Suc k))" "fs_ok s" "held_ok s H" "card H \<le> k"
    and "c < unat (sb_size (sb s))" "\<not> used (blk s) (sb s) c" "\<forall>e < c. used (blk s) (sb s) e" "q * BPB \<le> c"
  shows "\<exists>t. findM (map (\<lambda>k. k * BPB) [q..<(unat (sb_size (sb s)) + BPB - 1) div BPB]) (balloc_turn 1) s = Ok (Some (of_nat c)) t
    \<and> lframe s t \<and> txn t H k \<and> blk t = after_balloc (sb s) c (blk s) \<and> (\<forall>i \<in> H. \<forall>e. caches t i e = caches s i e)"
  using assms
proof (induction "c div BPB - q" arbitrary: q s)
  case (0 q s)
  let ?n = "unat (sb_size (sb s))"
  have q: "q < (?n + BPB - 1) div BPB" "q * BPB < ?n" "c < min (q * BPB + BPB) ?n" "q * BPB mod BPB = 0"
    using 0 by auto
  from balloc_turn_ok [OF 0(2-5) q(2,4)] obtain t where t: "lframe s t" "\<forall>i \<in> H. \<forall>e. caches t i e = caches s i e"
    and r: "if \<forall>e. q * BPB \<le> e \<and> e < min (q * BPB + BPB) ?n \<longrightarrow> used (blk s) (sb s) e
     then balloc_turn 1 (q * BPB) s = Ok None t \<and> txn t H (Suc (Suc k)) \<and> blk t = blk s
     else \<exists>e. q * BPB \<le> e \<and> e < min (q * BPB + BPB) ?n \<and> \<not> used (blk s) (sb s) e \<and> (\<forall>f. q * BPB \<le> f \<and> f < e \<longrightarrow> used (blk s) (sb s) f)
       \<and> balloc_turn 1 (q * BPB) s = Ok (Some (of_nat e)) t \<and> txn t H k \<and> blk t = after_balloc (sb s) e (blk s)" by blast
  have "\<not> (\<forall>e. q * BPB \<le> e \<and> e < min (q * BPB + BPB) ?n \<longrightarrow> used (blk s) (sb s) e)" using 0 q by blast
  note r' = r [unfolded if_not_P [OF this]]
  obtain e where e: "q * BPB \<le> e" "\<not> used (blk s) (sb s) e" "\<forall>f. q * BPB \<le> f \<and> f < e \<longrightarrow> used (blk s) (sb s) f"
    "balloc_turn 1 (q * BPB) s = Ok (Some (of_nat e)) t" "txn t H k" "blk t = after_balloc (sb s) e (blk s)" using r' by blast
  have "e = c" using e(1-3) 0(7-9) by (meson linorder_neqE_nat)
  then show ?case using q(1) e t by (intro exI [of _ t]) (simp add: upt_conv_Cons kcode)
next
  case (Suc x q s)
  let ?n = "unat (sb_size (sb s))"
  have cq: "(q + 1) * BPB \<le> c" "x = c div BPB - (q + 1)" using Suc(2) by auto
  have q: "q < (?n + BPB - 1) div BPB" "q * BPB < ?n" "q * BPB mod BPB = 0"
    using cq Suc(7) by auto
  have all: "\<forall>e. q * BPB \<le> e \<and> e < min (q * BPB + BPB) ?n \<longrightarrow> used (blk s) (sb s) e" using Suc(9) cq by auto
  from balloc_turn_ok [OF Suc(3-6) q(2,3)] all obtain t where t: "lframe s t" "\<forall>i \<in> H. \<forall>e. caches t i e = caches s i e"
    "balloc_turn 1 (q * BPB) s = Ok None t" "txn t H (Suc (Suc k))" "blk t = blk s" by auto
  have st: "sb t = sb s" by (rule lframeD [OF t(1)])
  have "\<exists>u. findM (map (\<lambda>k. k * BPB) [q + 1..<(?n + BPB - 1) div BPB]) (balloc_turn 1) t = Ok (Some (of_nat c)) u
    \<and> lframe t u \<and> txn u H k \<and> blk u = after_balloc (sb t) c (blk t) \<and> (\<forall>i \<in> H. \<forall>e. caches u i e = caches t i e)"
    using Suc.hyps(1) [OF cq(2) t(4)] lframe_fs(1) [OF t(1,5)] lframe_fs(2) [OF t(1,5), of H] t(2,5) Suc(4-9) cq(1) st by simp
  then obtain u where u: "findM (map (\<lambda>k. k * BPB) [q + 1..<(?n + BPB - 1) div BPB]) (balloc_turn 1) t = Ok (Some (of_nat c)) u"
    "lframe t u" "txn u H k" "blk u = after_balloc (sb t) c (blk t)" "\<forall>i \<in> H. \<forall>e. caches u i e = caches t i e" by blast
  show ?case using q(1) u t st lframe_trans [OF t(1) u(2)]
    by (intro exI [of _ u]) (simp add: upt_conv_Cons kcode)
qed

text \<open>balloc() hands out the first free block.\<close>

lemma balloc_ok:
  fixes s :: "'z ist_scheme"
  assumes tx: "txn s H (Suc (Suc k))" and fs: "fs_ok s" and h: "held_ok s H" "card H \<le> k"
    and free: "\<exists>c < unat (sb_size (sb s)). \<not> used (blk s) (sb s) c"
  obtains c t where "balloc 1 s = Ok (of_nat c) t" "c < unat (sb_size (sb s))" "\<not> used (blk s) (sb s) c" "\<forall>e < c. used (blk s) (sb s) e"
    "unat (of_nat c :: u32) = c" "txn t H k" "lframe s t" "blk t = after_balloc (sb s) c (blk s)"
    "\<forall>e < unat (sb_size (sb s)). used (blk t) (sb s) e \<longleftrightarrow> e = c \<or> used (blk s) (sb s) e" "\<forall>i \<in> H. \<forall>e. caches t i e = caches s i e" "fs_ok t"
proof -
  let ?P = "\<lambda>c. c < unat (sb_size (sb s)) \<and> \<not> used (blk s) (sb s) c"
  define c where "c = (LEAST c. ?P c)"
  have c: "c < unat (sb_size (sb s))" "\<not> used (blk s) (sb s) c" using LeastI_ex [of ?P] free by (auto simp: c_def)
  have first: "\<forall>e < c. used (blk s) (sb s) e" 
  proof (intro allI impI)
    fix e assume "e < c"
    then have "\<not> ?P e" unfolding c_def by (rule not_less_Least)
    then show "used (blk s) (sb s) e" using \<open>e < c\<close> c(1) by simp
  qed
  obtain t where t: "findM (map (\<lambda>k. k * BPB) [0..<(unat (sb_size (sb s)) + BPB - 1) div BPB]) (balloc_turn 1) s = Ok (Some (of_nat c)) t"
    "lframe s t" "txn t H k" "blk t = after_balloc (sb s) c (blk s)" "\<forall>i \<in> H. \<forall>e. caches t i e = caches s i e"
    using balloc_loop [OF tx fs h c first, of 0] by auto
  have ok: "bcache_ok s H" using tx by (simp add: txn_def calm_def log_inv_def)
  note cd = fs_okD [OF fs c(1)]
  have c32: "unat (of_nat c :: u32) = c" using cd(5) ok by (simp add: bcache_ok_def unat_of_nat)
  have run: "balloc 1 s = Ok (of_nat c) t" using t(1) by (simp add: balloc_def kcode)
  have ne: "bmblk (sb s) e \<noteq> c" if "e < unat (sb_size (sb s))" for e using fs_okD(3) [OF fs that] c(2) by auto
  have u: "used (blk t) (sb s) e \<longleftrightarrow> e = c \<or> used (blk s) (sb s) e" if "e < unat (sb_size (sb s))" for e
    unfolding t(4) using ne [OF that] by (intro used_after_balloc length_blk [OF ok cd(1)])
  have fst: "fs_ok t"
    unfolding fs_ok_def Let_def lframeD [OF t(2)] lframe_in_log [OF t(2)]
  proof (intro conjI allI impI)
    fix e assume e: "e < unat (sb_size (sb s))"
    note ed = fs_okD [OF fs e]
    show "bmblk (sb s) e < unat (sb_size (sb s))" "\<not> in_log s (bmblk (sb s) e)" by (rule ed)+
    show "used (blk t) (sb s) (bmblk (sb s) e)" using u [OF ed(6)] ed(3) by blast
    show "used (blk t) (sb s) e" if "in_log s e" using u [OF e] ed(4) [OF that] by blast
  qed (use fs in \<open>auto simp: fs_ok_def Let_def\<close>)
  show ?thesis using that [OF run c first c32 t(3,2,4) _ t(5) fst] u by blast
qed

text \<open>bfree() gives back a block in use.\<close>

lemma bfree_ok:
  fixes s :: "'z ist_scheme"
  assumes tx: "txn s H (Suc k)" and fs: "fs_ok s" and h: "held_ok s H" "card H \<le> k"
    and b: "unat w = b" "b < unat (sb_size (sb s))" "used (blk s) (sb s) b"
  obtains t where "bfree 1 w s = Ok () t" "txn t H k" "lframe s t"
    "blk t = (blk s)(bmblk (sb s) b := clear_bit_at (b mod BPB) (blk s (bmblk (sb s) b)))"
    "\<And>e. used (blk t) (sb s) e \<longleftrightarrow> e \<noteq> b \<and> used (blk s) (sb s) e" "\<forall>i \<in> H. \<forall>e. caches t i e = caches s i e"
    "bmblk (sb s) b \<in> pinned t" "bmblk (sb s) b \<in> pinned s \<Longrightarrow> lh_n t = lh_n s" "pinned s \<subseteq> pinned t"
proof -
  define B where "B = bmblk (sb s) b"
  define d where "d = blk s B"
  have ok: "bcache_ok s H" using tx by (simp add: txn_def calm_def log_inv_def)
  have uB: "unat (BBLOCK b (sb s)) = B" unfolding B_def by (rule unat_BBLOCK [OF ok fs b(2)])
  note fb = fs_okD [OF fs b(2), folded B_def]
  have nH: "\<forall>i \<in> H. \<not> caches s i B" using h b(2) unfolding held_ok_def B_def by blast
  have ld: "length d = BSIZE" using length_blk [OF ok fb(1)] by (simp add: d_def)
  obtain i t where t: "bread 1 (BBLOCK b (sb s)) s = Ok i t" "i \<notin> H" "txn t (insert i H) (Suc k)" "caches t i B"
    "b_data (bufs t ! i) = d" "blk t = blk s" "lframe s t" "lh_n t = lh_n s" "pinned t = pinned s"
    and th: "\<And>j. j \<in> H \<Longrightarrow> bufs t ! j = bufs s ! j"
    by (rule txn_bread [OF tx uB fb(1) nH le_SucI [OF h(2)], folded d_def]) (rule that; assumption)
  have o: "\<not> in_log t B" using fb(2) lframe_in_log [OF t(7)] by simp
  have ld': "length (clear_bit_at (b mod BPB) d) = BSIZE" using ld by simp
  obtain u where u: "thenM (set_bdata i (clear_bit_at (b mod BPB) d)) (log_write i) t = Ok () u" "txn u (insert i H) k"
    "blk u = (blk t)(B := clear_bit_at (b mod BPB) d)" "lframe t u" "settled u i B"
    "pinned u = insert B (pinned t)" "B \<in> pinned t \<Longrightarrow> lh_n u = lh_n t"
    and uc: "\<And>j c. caches u j c = caches t j c"
    by (rule txn_write [OF t(3) _ t(4) o ld']) auto
  obtain v where v: "brelse i u = Ok () v" "txn v (insert i H - {i}) k" "blk v = blk u" "lframe u v" "lh_n v = lh_n u" "pinned v = pinned u"
    and vc: "\<And>j c. caches v j c = caches u j c"
    by (rule txn_brelse [OF u(2) _ _ u(5)]) (use uc t(4) in auto)
  have fr: "lframe s v" using lframe_trans [OF lframe_trans [OF t(7) u(4)] v(4)] .
  have nc: "\<not> bit_clear d (b mod BPB)" using b(3) by (simp add: used_def d_def B_def)
  have run: "bfree 1 w s = Ok () v"
    using t(1,5) u(1) v(1) nc b(1) by (auto simp: bfree_def Let_def kcode split: outcome.splits)
  have bv: "blk v = (blk s)(B := clear_bit_at (b mod BPB) (blk s B))" using t(6) u(3) v(3) by (simp add: d_def)
  have us: "used (blk v) (sb s) e \<longleftrightarrow> e \<noteq> b \<and> used (blk s) (sb s) e" for e
    unfolding bv B_def by (rule used_upd_bit(2)) (use ld in \<open>simp add: d_def B_def\<close>)
  have cv: "\<forall>i \<in> H. \<forall>e. caches v i e = caches s i e" using uc vc th by (simp add: caches_def)
  show ?thesis
    by (rule that [OF run _ fr _ us cv])
       (use v t(2,8,9) u(6,7) bv in \<open>auto simp: B_def\<close>)
qed

lemma bfree_free:
  fixes s :: "'z ist_scheme"
  assumes tx: "txn s {} k" and fs: "fs_ok s" and b: "unat w = b" "b < unat (sb_size (sb s))" "\<not> used (blk s) (sb s) b"
  shows "bfree 1 w s = Panic ''freeing free block''"
proof -
  have ok: "bcache_ok s {}" using tx by (simp add: txn_def calm_def log_inv_def)
  obtain i t where "bread 1 (BBLOCK b (sb s)) s = Ok i t" "b_data (bufs t ! i) = blk s (bmblk (sb s) b)"
    by (rule txn_bread [OF tx unat_BBLOCK [OF ok fs b(2)] fs_okD(1) [OF fs b(2)]]) auto
  then show ?thesis using b by (simp add: bfree_def Let_def kcode used_def)
qed

section \<open>A small disk\<close>

text \<open>
  A disk of 64 blocks as mkfs lays one out, with the log in blocks 2 to 32,
  the inodes in block 33, the bitmap in block 34 and blocks 40 to 63 free; the
  contents \<open>ib\<close> of the inode block and those of the data blocks are given.
\<close>

definition small_sb :: superblock where
  "small_sb = \<lparr>sb_size = 64, sb_nblocks = 24, sb_ninodes = 8, sb_nlog = 30, sb_logstart = 2,
     sb_inodestart = 32, sb_bmapstart = 33\<rparr>"

definition zero_block :: bytes where
  "zero_block = replicate BSIZE 0"

definition small_bitmap :: bytes where
  "small_bitmap = replicate 5 255 @ replicate 507 0"

definition small_disk :: "bytes \<Rightarrow> bytes list \<Rightarrow> bytes list" where
  "small_disk ib ds = replicate 32 zero_block @ [ib, small_bitmap] @ ds @ replicate (30 - length ds) zero_block"

definition boot_ist :: "bytes list \<Rightarrow> ist" where
  "boot_ist d = lst.extend (boot_lst d) (ist.fields small_sb (replicate NINODE zero_inode))"

lemma small_disk:
  assumes "length ib = BSIZE" "\<forall>b \<in> set ds. length b = BSIZE" "length ds \<le> 30"
  shows "length (small_disk ib ds) = 64" "\<forall>b \<in> set (small_disk ib ds). length b = BSIZE"
    "small_disk ib ds ! 32 = ib" "small_disk ib ds ! 33 = small_bitmap" "hdr_n 2 (small_disk ib ds) = 0"
    "\<And>k. k < length ds \<Longrightarrow> small_disk ib ds ! (34 + k) = ds ! k"
    "\<And>k. 34 + length ds \<le> k \<Longrightarrow> k < 64 \<Longrightarrow> small_disk ib ds ! k = zero_block"
proof -
  show "length (small_disk ib ds) = 64" using assms by (simp add: small_disk_def)
  show "\<forall>b \<in> set (small_disk ib ds). length b = BSIZE"
    using assms by (auto simp: small_disk_def zero_block_def small_bitmap_def)
  show "small_disk ib ds ! 32 = ib" "small_disk ib ds ! 33 = small_bitmap"
    by (simp_all add: small_disk_def nth_append)
  have "small_disk ib ds ! 2 = zero_block" by (simp add: small_disk_def nth_append)
  moreover have "4 \<le> n \<Longrightarrow> get32 (replicate n 0) 0 = 0" for n by (simp add: get32_def le32_dec_def)
  ultimately show "hdr_n 2 (small_disk ib ds) = 0" by (simp add: hdr_n_def zero_block_def)
  show "small_disk ib ds ! (34 + k) = ds ! k" if "k < length ds" for k
    using that by (simp add: small_disk_def nth_append)
  show "small_disk ib ds ! k = zero_block" if "34 + length ds \<le> k" "k < 64" for k
  proof -
    let ?xs = "replicate 32 zero_block @ [ib, small_bitmap] @ ds"
    have d: "small_disk ib ds = ?xs @ replicate (30 - length ds) zero_block" by (simp add: small_disk_def)
    have l: "length ?xs = 34 + length ds" by simp
    then have "length ?xs \<le> k" "k - length ?xs < 30 - length ds" using that by auto
    then show ?thesis unfolding d by (simp only: nth_append_right nth_replicate)
  qed
qed

lemma small_used: "v 33 = small_bitmap \<Longrightarrow> b < 64 \<Longrightarrow> used v small_sb b \<longleftrightarrow> b < 40"
proof -
  assume v: "v 33 = small_bitmap" and b: "b < 64"
  have m: "(255 :: u8) = mask 8" by (simp add: mask_eq_exp_minus_1)
  have "small_bitmap ! (b div 8) = (if b < 40 then 255 else 0)" using b by (auto simp: small_bitmap_def nth_append)
  then have "bit (small_bitmap ! (b div 8)) (b mod 8) \<longleftrightarrow> b < 40" unfolding m by (simp add: bit_mask_iff)
  then show ?thesis using v b by (simp add: used_def bmblk_def small_sb_def bit_clear_iff)
qed

lemma boot_ist_simps:
  "lst.truncate (boot_ist d) = boot_lst d" "sb (boot_ist d) = small_sb" "inodes (boot_ist d) = replicate NINODE zero_inode"
  "kok (boot_ist d)" "bufs (boot_ist d) = replicate (Suc NBUF) zero_buf" "disk (boot_ist d) = d"
  "log_start (boot_ist d) = 2" "log_size (boot_ist d) = 30" "outstanding (boot_ist d) = 1" "log_dev (boot_ist d) = 1"
  "lh_n (boot_ist d) = 0" "length (lh_block (boot_ist d)) = nat LOGSIZE" "no_sleeper ch (boot_ist d)"
  "slks (boot_ist d) k = \<lparr>sl_locked = False, sl_pid = 0\<rparr>"
  by (auto simp: boot_ist_def lst.extend_def ist.fields_def boot_lst_def bst.extend_def lst.fields_def lst.truncate_def
      boot_bst_def kok_def no_sleeper_def zero_proc_def)

text \<open>A machine with the small disk before binit(), inside a system call.\<close>

definition small_machine :: "bytes list \<Rightarrow> 'z ist_scheme \<Rightarrow> bool" where
  "small_machine d s \<longleftrightarrow> kok s \<and> bufs s = replicate (Suc NBUF) zero_buf \<and> disk s = d \<and> sb s = small_sb
     \<and> log_start s = 2 \<and> log_size s = 30 \<and> outstanding s = 1 \<and> log_dev s = 1 \<and> lh_n s = 0 \<and> length (lh_block s) = nat LOGSIZE
     \<and> (\<forall>ch. no_sleeper ch s) \<and> (\<forall>k. \<not> sl_locked (slks s k))"

lemma boot_ist_small: "small_machine d (boot_ist d)"
  by (simp add: small_machine_def boot_ist_simps)

text \<open>After binit() the small disk is a file system inside a transaction.\<close>

lemma small_booted:
  fixes s0 :: "'z ist_scheme"
  assumes s0: "small_machine (small_disk ib ds) s0"
    and d: "length ib = BSIZE" "\<forall>b \<in> set ds. length b = BSIZE" "length ds \<le> 30"
  obtains s where "binit s0 = Ok () s" "txn s {} 29" "fs_ok s" "sb s = small_sb"
    "bframe s0 s" "\<And>b. blk s b = small_disk ib ds ! b" "\<And>k. \<not> sl_locked (slks s (SL_inode k))"
    "\<And>b. in_log s b \<longleftrightarrow> 2 \<le> b \<and> b < 32" "disk s = small_disk ib ds" "lh_n s = 0" "\<And>ch. no_sleeper ch s"
    "\<And>c. c < 64 \<Longrightarrow> used (blk s) small_sb c \<longleftrightarrow> c < 40"
proof -
  let ?d = "small_disk ib ds"
  note sd = small_disk [OF d]
  have "cold s0" using sd s0 by (simp add: cold_def small_machine_def)
  from binit_ok [OF this] obtain t where t: "binit s0 = Ok () t" "bcache_ok t {}"
    "disk t = disk s0" "dirties t = {}" "bframe s0 t" by metis
  note f = bframe_log [OF t(5)]
  have f0: "log_start s0 = 2" "log_size s0 = 30" "outstanding s0 = 1" "log_dev s0 = 1" "lh_n s0 = 0" "length (lh_block s0) = nat LOGSIZE"
    using s0 by (simp_all add: small_machine_def)
  have f': "sb t = small_sb" "disk t = ?d" "\<And>ch. no_sleeper ch t"
    using t(3,5) bframeD(6) [OF t(5)] s0 by (auto simp: bframe_def small_machine_def)
  have sl: "\<not> sl_locked (slks t (SL_inode k))" for k
    using t(5) s0 by (auto simp: bframe_def small_machine_def)
  have pin: "pinned t = {}" using t(4) by (simp add: pinned_def)
  have b: "blk t b = ?d ! b" for b using coherent [OF t(2)] pin f' by simp
  have il: "in_log t b \<longleftrightarrow> 2 \<le> b \<and> b < 32" for b using f f0 by (simp add: in_log_def)
  have "log_inv t {}"
    using t(2) pin f f0 f' sd(1,5) by (simp add: log_inv_def log_fits_def)
  then have tx: "txn t {} 29" using f f0 by (simp add: txn_def calm_def)
  have u: "used (blk t) small_sb c \<longleftrightarrow> c < 40" if "c < 64" for c
    using small_used [of "blk t" c] b sd(4) that by simp
  have fs: "fs_ok t"
    unfolding fs_ok_def Let_def f' using u il sd(1) by (simp add: small_sb_def bmblk_def)
  have n0: "lh_n t = 0" using f f0 by simp
  show ?thesis by (rule that [OF t(1) tx fs f'(1) t(5) b sl il f'(2) n0 f'(3) u])
qed

section \<open>Properties\<close>

text \<open>
  C16: balloc() inside a transaction with room for two more blocks returns the
  first block whose bit is clear in the bitmap, sets exactly that bit, fills
  the block with zeros and changes no other block.
\<close>

theorem balloc_spec:
  fixes s :: "'z ist_scheme"
  assumes "txn s {} (Suc (Suc k))" "fs_ok s" "c < unat (sb_size (sb s))" "\<not> used (blk s) (sb s) c"
    "\<forall>e < c. used (blk s) (sb s) e"
  shows "\<exists>t. balloc 1 s = Ok (of_nat c) t \<and> txn t {} k \<and> fs_ok t \<and> blk t c = replicate BSIZE 0
    \<and> (\<forall>e < unat (sb_size (sb s)). used (blk t) (sb s) e \<longleftrightarrow> e = c \<or> used (blk s) (sb s) e)
    \<and> (\<forall>e. e \<noteq> c \<longrightarrow> e \<noteq> bmblk (sb s) c \<longrightarrow> blk t e = blk s e)"
proof -
  have free: "\<exists>c < unat (sb_size (sb s)). \<not> used (blk s) (sb s) c" using assms(3,4) by blast
  have hk: "held_ok s {}" "card ({} :: nat set) \<le> k" by (simp_all add: held_ok_def)
  obtain e t where t: "balloc 1 s = Ok (of_nat e) t" "\<not> used (blk s) (sb s) e" "\<forall>f < e. used (blk s) (sb s) f"
    "txn t {} k" "blk t = after_balloc (sb s) e (blk s)"
    "\<forall>f < unat (sb_size (sb s)). used (blk t) (sb s) f \<longleftrightarrow> f = e \<or> used (blk s) (sb s) f" "fs_ok t"
    by (rule balloc_ok [OF assms(1,2) hk free])
  have "e = c" using t(2,3) assms(4,5) by (meson linorder_neqE_nat)
  then show ?thesis using t by (intro exI [of _ t]) (simp add: after_balloc_def)
qed

theorem balloc_spec_witness:
  "\<exists>s t :: ist. binit (boot_ist (small_disk zero_block [])) = Ok () s \<and> balloc 1 s = Ok 40 t
     \<and> blk t 40 = replicate BSIZE 0 \<and> used (blk t) small_sb 40 \<and> \<not> used (blk t) small_sb 41"
proof -
  obtain s :: ist where s: "binit (boot_ist (small_disk zero_block [])) = Ok () s" "txn s {} 29" "fs_ok s" "sb s = small_sb"
    and u: "\<And>c. c < 64 \<Longrightarrow> used (blk s) small_sb c \<longleftrightarrow> c < 40"
    by (rule small_booted [OF boot_ist_small, of zero_block "[]"]) (auto simp: zero_block_def)
  have "txn s {} (Suc (Suc 27))" using s(2) by simp
  from balloc_spec [OF this s(3), of 40] obtain t where "balloc 1 s = Ok (of_nat 40) t" "blk t 40 = replicate BSIZE 0"
    "\<forall>e < unat (sb_size (sb s)). used (blk t) (sb s) e \<longleftrightarrow> e = 40 \<or> used (blk s) (sb s) e"
    using u s(4) by (auto simp: small_sb_def)
  then show ?thesis using s(1,4) u [of 41] by (intro exI [of _ s] exI [of _ t]) (simp add: small_sb_def)
qed

text \<open>
  A block that balloc() handed out and bfree() took back is free again and
  no other bit of the bitmap has changed; freeing it a second time panics.
\<close>

lemma bfree_balloc_roundtrip:
  fixes s :: "'z ist_scheme"
  assumes tx: "txn s {} (Suc (Suc (Suc k)))" and fs: "fs_ok s" and free: "\<exists>c < unat (sb_size (sb s)). \<not> used (blk s) (sb s) c"
  shows "\<exists>w t u. balloc 1 s = Ok w t \<and> bfree 1 w t = Ok () u
    \<and> (\<forall>e < unat (sb_size (sb s)). used (blk u) (sb s) e = used (blk s) (sb s) e)
    \<and> bfree 1 w u = Panic ''freeing free block''"
proof -
  have hk: "held_ok s' {}" "card ({} :: nat set) \<le> n" for s' :: "'z ist_scheme" and n by (simp_all add: held_ok_def)
  obtain c t where t: "balloc 1 s = Ok (of_nat c) t" "c < unat (sb_size (sb s))" "\<not> used (blk s) (sb s) c"
    "unat (of_nat c :: u32) = c" "txn t {} (Suc k)" "lframe s t"
    "\<forall>e < unat (sb_size (sb s)). used (blk t) (sb s) e \<longleftrightarrow> e = c \<or> used (blk s) (sb s) e" "fs_ok t"
    by (rule balloc_ok [OF tx fs hk free])
  have st: "sb t = sb s" by (rule lframeD [OF t(6)])
  have ct: "c < unat (sb_size (sb t))" "used (blk t) (sb t) c" using t(2,7) st by auto
  obtain u where u: "bfree 1 (of_nat c) t = Ok () u" "txn u {} k" "lframe t u"
    "\<And>e. used (blk u) (sb t) e \<longleftrightarrow> e \<noteq> c \<and> used (blk t) (sb t) e"
    by (rule bfree_ok [OF t(5,8) hk t(4) ct]) blast
  have su: "sb u = sb s" using lframeD(8) [OF u(3)] st by simp
  have us: "\<forall>e < unat (sb_size (sb s)). used (blk u) (sb s) e = used (blk s) (sb s) e"
    using u(4) t(3,7) st by auto
  have fsu: "fs_ok u"
    using us fs lframe_in_log [OF lframe_trans [OF t(6) u(3)]]
    unfolding fs_ok_def Let_def lframeD [OF u(3)] lframeD [OF t(6)] by (simp add: st)
  have "bfree 1 (of_nat c) u = Panic ''freeing free block''"
    by (rule bfree_free [OF u(2) fsu t(4)]) (use t(2,3) us su in auto)
  then show ?thesis using t(1) u(1) us by blast
qed

lemma bfree_balloc_roundtrip_witness:
  "\<exists>(s :: ist) w t u. binit (boot_ist (small_disk zero_block [])) = Ok () s \<and> balloc 1 s = Ok w t
     \<and> bfree 1 w t = Ok () u \<and> \<not> used (blk u) small_sb 40 \<and> bfree 1 w u = Panic ''freeing free block''"
proof -
  obtain s :: ist where s: "binit (boot_ist (small_disk zero_block [])) = Ok () s" "txn s {} 29" "fs_ok s" "sb s = small_sb"
    and u: "\<And>c. c < 64 \<Longrightarrow> used (blk s) small_sb c \<longleftrightarrow> c < 40"
    by (rule small_booted [OF boot_ist_small, of zero_block "[]"]) (auto simp: zero_block_def)
  have tx: "txn s {} (Suc (Suc (Suc 26)))" using s(2) by simp
  have "\<exists>c < unat (sb_size (sb s)). \<not> used (blk s) (sb s) c"
    using u [of 40] s(4) by (intro exI [of _ 40]) (simp add: small_sb_def)
  from bfree_balloc_roundtrip [OF tx s(3) this] show ?thesis
    using s(1,4) u [of 40] by (auto simp: small_sb_def)
qed

end
