(* ===== verification/Inode.thy ===== *)
theory Inode
  imports Fs_Block
begin

text \<open>
  fs.c, the inode layer: the on-disk inodes, the cache of in-memory inodes
  with its reference counts (iget, idup, ilock, iunlock, iput), and the map
  from a file's block numbers to disk blocks (bmap, itrunc).
\<close>

section \<open>On-disk inodes\<close>

record dinode =
  d_type :: u16
  d_major :: u16
  d_minor :: u16
  d_nlink :: u16
  d_size :: u32
  d_addrs :: "u32 list"

abbreviation (input) T_DIR :: u16 where "T_DIR \<equiv> 1"
abbreviation (input) T_FILE :: u16 where "T_FILE \<equiv> 2"
abbreviation (input) T_DEV :: u16 where "T_DEV \<equiv> 3"

definition get16 :: "bytes \<Rightarrow> nat \<Rightarrow> u16" where
  "get16 d off = le16_dec (drop off d)"

text \<open>The \<open>struct dinode\<close> at byte \<open>off\<close> of a block, and its bytes.\<close>

definition get_dinode :: "bytes \<Rightarrow> nat \<Rightarrow> dinode" where
  "get_dinode d off = \<lparr>d_type = get16 d off, d_major = get16 d (off + 2), d_minor = get16 d (off + 4),
     d_nlink = get16 d (off + 6), d_size = get32 d (off + 8),
     d_addrs = map (\<lambda>k. get32 d (off + 12 + 4 * k)) [0..<Suc NDIRECT]\<rparr>"

definition dinode_bytes :: "dinode \<Rightarrow> bytes" where
  "dinode_bytes v = le16_enc (d_type v) @ le16_enc (d_major v) @ le16_enc (d_minor v) @ le16_enc (d_nlink v)
     @ le32_enc (d_size v) @ concat (map le32_enc (d_addrs v))"

definition zero_dinode :: dinode where
  "zero_dinode = \<lparr>d_type = 0, d_major = 0, d_minor = 0, d_nlink = 0, d_size = 0, d_addrs = replicate (Suc NDIRECT) 0\<rparr>"

text \<open>fs.h: the block that holds inode \<open>i\<close>, and the inode's offset in it.\<close>

definition IBLOCK :: "u32 \<Rightarrow> superblock \<Rightarrow> u32" where
  "IBLOCK i sp = i div 8 + sb_inodestart sp"

definition dioff :: "u32 \<Rightarrow> nat" where
  "dioff inum = unat inum mod IPB * 64"

definition upd_inode :: "nat \<Rightarrow> (inode \<Rightarrow> inode) \<Rightarrow> ('z ist_scheme, unit) kfun" where
  "upd_inode ip f = modM (\<lambda>s. s\<lparr>inodes := (inodes s)[ip := f (inodes s ! ip)]\<rparr>)"

definition get_inode :: "nat \<Rightarrow> ('z ist_scheme, inode) kfun" where
  "get_inode ip = getM (\<lambda>s. inodes s ! ip)"

section \<open>The routines\<close>

definition iinit :: "u32 \<Rightarrow> ('z ist_scheme, unit) kfun" where
  "iinit dev =
     thenM (foreachM [0..<NINODE] (\<lambda>i. initsleeplock (SL_inode i)))
     (bindM (readsb dev) (\<lambda>sp.
      modM (\<lambda>s. s\<lparr>sb := sp\<rparr>)))"

text \<open>iget(): the scan returns the slot of a cached inode, or the first slot slot if there is one.\<close>

fun iget_scan :: "inode list \<Rightarrow> u32 \<Rightarrow> u32 \<Rightarrow> nat list \<Rightarrow> nat option \<Rightarrow> nat + nat option" where
  "iget_scan ips dev inum [] slot = Inr slot"
| "iget_scan ips dev inum (i # is) slot = (let ip = ips ! i in
     if i_ref ip > 0 \<and> i_dev ip = dev \<and> i_inum ip = inum then Inl i
     else iget_scan ips dev inum is (if slot = None \<and> i_ref ip = 0 then Some i else slot))"

definition iget :: "u32 \<Rightarrow> u32 \<Rightarrow> ('z ist_scheme, nat) kfun" where
  "iget dev inum =
     thenM (acquire L_icache)
     (bindM (getM (\<lambda>s. iget_scan (inodes s) dev inum [0..<NINODE] None)) (\<lambda>r.
      case r of
        Inl ip \<Rightarrow>
          thenM (upd_inode ip (\<lambda>v. v\<lparr>i_ref := i_ref v + 1\<rparr>))
          (thenM (release L_icache)
          (retM ip))
      | Inr None \<Rightarrow> panicM ''iget: no inodes''
      | Inr (Some ip) \<Rightarrow>
          thenM (upd_inode ip (\<lambda>v. v\<lparr>i_dev := dev, i_inum := inum, i_ref := 1, i_valid := False\<rparr>))
          (thenM (release L_icache)
          (retM ip))))"

definition idup :: "nat \<Rightarrow> ('z ist_scheme, nat) kfun" where
  "idup ip =
     thenM (acquire L_icache)
     (thenM (upd_inode ip (\<lambda>v. v\<lparr>i_ref := i_ref v + 1\<rparr>))
     (thenM (release L_icache)
     (retM ip)))"

text \<open>ialloc(): one turn of the loop over inode numbers, and the loop.\<close>

definition ialloc_turn :: "u32 \<Rightarrow> u16 \<Rightarrow> nat \<Rightarrow> ('z ist_scheme, nat option) kfun" where
  "ialloc_turn dev ty n =
     bindM (getM sb) (\<lambda>sp.
     let inum = of_nat n in
     bindM (bread dev (IBLOCK inum sp)) (\<lambda>bp.
     bindM (bdata bp) (\<lambda>d.
     if d_type (get_dinode d (dioff inum)) = 0 then
       thenM (set_bdata bp (patch (dioff inum) (dinode_bytes (zero_dinode\<lparr>d_type := ty\<rparr>)) d))
       (thenM (log_write bp)
       (thenM (brelse bp)
       (bindM (iget dev inum) (\<lambda>ip. retM (Some ip)))))
     else thenM (brelse bp) (retM None))))"

definition ialloc :: "u32 \<Rightarrow> u16 \<Rightarrow> ('z ist_scheme, nat) kfun" where
  "ialloc dev ty =
     bindM (getM (\<lambda>s. unat (sb_ninodes (sb s)))) (\<lambda>n.
     bindM (findM [1..<n] (ialloc_turn dev ty)) (\<lambda>r.
     case r of Some ip \<Rightarrow> retM ip | None \<Rightarrow> panicM ''ialloc: no inodes''))"

definition dinode_of :: "inode \<Rightarrow> dinode" where
  "dinode_of v = \<lparr>d_type = i_type v, d_major = i_major v, d_minor = i_minor v, d_nlink = i_nlink v,
     d_size = i_size v, d_addrs = i_addrs v\<rparr>"

definition iupdate :: "nat \<Rightarrow> ('z ist_scheme, unit) kfun" where
  "iupdate ip =
     bindM (getM sb) (\<lambda>sp.
     bindM (get_inode ip) (\<lambda>v.
     log_update (i_dev v) (IBLOCK (i_inum v) sp) (patch (dioff (i_inum v)) (dinode_bytes (dinode_of v)))))"

definition load_inode :: "dinode \<Rightarrow> inode \<Rightarrow> inode" where
  "load_inode d v = v\<lparr>i_type := d_type d, i_major := d_major d, i_minor := d_minor d, i_nlink := d_nlink d,
     i_size := d_size d, i_addrs := d_addrs d\<rparr>"

definition ilock :: "nat \<Rightarrow> ('z ist_scheme, unit) kfun" where
  "ilock ip =
     bindM (get_inode ip) (\<lambda>v.
     thenM (assertM (\<not> i_ref v < 1) ''ilock'')
     (thenM (acquiresleep (SL_inode ip))
     (bindM (get_inode ip) (\<lambda>v.
      whenM (\<not> i_valid v)
        (bindM (getM sb) (\<lambda>sp.
         bindM (bread (i_dev v) (IBLOCK (i_inum v) sp)) (\<lambda>bp.
         bindM (bdata bp) (\<lambda>d.
         thenM (upd_inode ip (load_inode (get_dinode d (dioff (i_inum v)))))
         (thenM (brelse bp)
         (thenM (upd_inode ip (\<lambda>v. v\<lparr>i_valid := True\<rparr>))
         (bindM (get_inode ip) (\<lambda>v.
          assertM (i_type v \<noteq> 0) ''ilock: no type''))))))))))))"

definition iunlock :: "nat \<Rightarrow> ('z ist_scheme, unit) kfun" where
  "iunlock ip =
     bindM (holdingsleep (SL_inode ip)) (\<lambda>h.
     bindM (get_inode ip) (\<lambda>v.
     thenM (assertM (h \<and> \<not> i_ref v < 1) ''iunlock'')
     (releasesleep (SL_inode ip))))"

text \<open>bmap(): \<open>if((addr = ip->addrs[k]) == 0) ip->addrs[k] = addr = balloc(ip->dev);\<close>\<close>

definition bmap_addr :: "nat \<Rightarrow> nat \<Rightarrow> ('z ist_scheme, u32) kfun" where
  "bmap_addr ip k =
     bindM (get_inode ip) (\<lambda>v.
     if i_addrs v ! k = 0 then
       bindM (balloc (i_dev v)) (\<lambda>addr.
       thenM (upd_inode ip (\<lambda>v. v\<lparr>i_addrs := (i_addrs v)[k := addr]\<rparr>))
       (retM addr))
     else retM (i_addrs v ! k))"

text \<open>bmap(): the entry \<open>a[bn]\<close> of the indirect block in the locked buffer \<open>bp\<close>.\<close>

definition bmap_entry :: "u32 \<Rightarrow> nat \<Rightarrow> nat \<Rightarrow> ('z ist_scheme, u32) kfun" where
  "bmap_entry dev bp bn =
     bindM (bdata bp) (\<lambda>a.
     if get32 a (4 * bn) = 0 then
       bindM (balloc dev) (\<lambda>addr.
       bindM (bdata bp) (\<lambda>a.
       thenM (set_bdata bp (put32 (4 * bn) addr a))
       (thenM (log_write bp)
       (retM addr))))
     else retM (get32 a (4 * bn)))"

definition bmap :: "nat \<Rightarrow> u32 \<Rightarrow> ('z ist_scheme, u32) kfun" where
  "bmap ip bn =
     (if bn < of_nat NDIRECT then bmap_addr ip (unat bn)
      else if bn - of_nat NDIRECT < of_nat NINDIRECT then
        bindM (get_inode ip) (\<lambda>v.
        bindM (bmap_addr ip NDIRECT) (\<lambda>addr.
        bindM (bread (i_dev v) addr) (\<lambda>bp.
        bindM (bmap_entry (i_dev v) bp (unat (bn - of_nat NDIRECT))) (\<lambda>addr.
        thenM (brelse bp)
        (retM addr)))))
      else panicM ''bmap: out of range'')"

text \<open>itrunc(): one turn of each of its loops, and the routine.\<close>

definition itrunc_direct :: "nat \<Rightarrow> nat \<Rightarrow> ('z ist_scheme, unit) kfun" where
  "itrunc_direct ip i =
     bindM (get_inode ip) (\<lambda>v.
     whenM (i_addrs v ! i \<noteq> 0)
       (thenM (bfree (i_dev v) (i_addrs v ! i))
       (upd_inode ip (\<lambda>v. v\<lparr>i_addrs := (i_addrs v)[i := 0]\<rparr>))))"

definition itrunc_entry :: "u32 \<Rightarrow> nat \<Rightarrow> nat \<Rightarrow> ('z ist_scheme, unit) kfun" where
  "itrunc_entry dev bp j =
     bindM (bdata bp) (\<lambda>a.
     whenM (get32 a (4 * j) \<noteq> 0) (bfree dev (get32 a (4 * j))))"

definition itrunc :: "nat \<Rightarrow> ('z ist_scheme, unit) kfun" where
  "itrunc ip =
     thenM (foreachM [0..<NDIRECT] (itrunc_direct ip))
     (thenM (bindM (get_inode ip) (\<lambda>v.
        whenM (i_addrs v ! NDIRECT \<noteq> 0)
          (bindM (bread (i_dev v) (i_addrs v ! NDIRECT)) (\<lambda>bp.
           thenM (foreachM [0..<NINDIRECT] (itrunc_entry (i_dev v) bp))
           (thenM (brelse bp)
           (thenM (bfree (i_dev v) (i_addrs v ! NDIRECT))
           (upd_inode ip (\<lambda>v. v\<lparr>i_addrs := (i_addrs v)[NDIRECT := 0]\<rparr>))))))))
     (thenM (upd_inode ip (\<lambda>v. v\<lparr>i_size := 0\<rparr>))
     (iupdate ip)))"

definition iput :: "nat \<Rightarrow> ('z ist_scheme, unit) kfun" where
  "iput ip =
     thenM (acquiresleep (SL_inode ip))
     (thenM (bindM (get_inode ip) (\<lambda>v.
        whenM (i_valid v \<and> i_nlink v = 0)
          (thenM (acquire L_icache)
          (bindM (get_inode ip) (\<lambda>v.
           let r = i_ref v in
           thenM (release L_icache)
           (whenM (r = 1)
             (thenM (itrunc ip)
             (thenM (upd_inode ip (\<lambda>v. v\<lparr>i_type := 0\<rparr>))
             (thenM (iupdate ip)
             (upd_inode ip (\<lambda>v. v\<lparr>i_valid := False\<rparr>)))))))))))
     (thenM (releasesleep (SL_inode ip))
     (thenM (acquire L_icache)
     (thenM (upd_inode ip (\<lambda>v. v\<lparr>i_ref := i_ref v - 1\<rparr>))
     (release L_icache)))))"

definition iunlockput :: "nat \<Rightarrow> ('z ist_scheme, unit) kfun" where
  "iunlockput ip = thenM (iunlock ip) (iput ip)"

record stat =
  st_type :: u16
  st_dev :: u32
  st_ino :: u32
  st_nlink :: u16
  st_size :: u32

definition stati :: "nat \<Rightarrow> ('z ist_scheme, stat) kfun" where
  "stati ip =
     bindM (get_inode ip) (\<lambda>v.
     retM \<lparr>st_type = i_type v, st_dev = i_dev v, st_ino = i_inum v, st_nlink = i_nlink v, st_size = i_size v\<rparr>)"

lemma upd_inode_apply [kcode]: "upd_inode ip f s = Ok () (s\<lparr>inodes := (inodes s)[ip := f (inodes s ! ip)]\<rparr>)"
  by (simp add: upd_inode_def kcode)

lemma get_inode_apply [kcode]: "get_inode ip s = Ok (inodes s ! ip) s"
  by (simp add: get_inode_def kcode)

section \<open>On-disk inodes: encoding\<close>

lemma length_concat_le32 [simp]: "length (concat (map le32_enc xs)) = 4 * length xs"
  by (induction xs) simp_all

lemma length_dinode_bytes: "length (d_addrs v) = Suc NDIRECT \<Longrightarrow> length (dinode_bytes v) = 64"
  by (simp add: dinode_bytes_def)

lemma drop_concat_le32: "k < length xs \<Longrightarrow> drop (4 * k) (concat (map le32_enc xs) @ r) = le32_enc (xs ! k) @ concat (map le32_enc (drop (Suc k) xs)) @ r"
proof (induction xs arbitrary: k)
  case (Cons x xs)
  then show ?case by (cases k) simp_all
qed simp

lemma get32_concat: "k < length xs \<Longrightarrow> get32 (concat (map le32_enc xs) @ r) (4 * k) = xs ! k"
  unfolding get32_def by (subst drop_concat_le32) simp_all

lemma get_dinode_bytes:
  assumes "length (d_addrs v) = Suc NDIRECT"
  shows "get_dinode (p @ dinode_bytes v @ r) (length p) = v"
proof -
  define X where "X = dinode_bytes v @ r"
  have g: "get16 (p @ X) (length p + k) = le16_dec (drop k X)" "get32 (p @ X) (length p + k) = le32_dec (drop k X)" for k
    by (simp_all add: get16_def get32_def)
  have "drop 12 X = concat (map le32_enc (d_addrs v)) @ r" by (simp add: X_def dinode_bytes_def)
  then have "le32_dec (drop (12 + 4 * k) X) = d_addrs v ! k" if "k < Suc NDIRECT" for k
    using get32_concat [of k "d_addrs v" r] assms that unfolding get32_def by (metis add.commute drop_drop)
  then have a: "map (\<lambda>k. get32 (p @ X) (length p + 12 + 4 * k)) [0..<Suc NDIRECT] = d_addrs v"
    using assms by (intro nth_equalityI) (simp_all add: add.assoc g(2) del: upt_Suc)
  have h: "le16_dec X = d_type v" "le16_dec (drop 2 X) = d_major v" "le16_dec (drop 4 X) = d_minor v"
    "le16_dec (drop 6 X) = d_nlink v" "le32_dec (drop 8 X) = d_size v"
    by (simp_all add: X_def dinode_bytes_def)
  have "get_dinode (p @ X) (length p) = v"
    unfolding get_dinode_def a using g(1) [of 0] by (simp add: g h del: add_2_eq_Suc')
  then show ?thesis by (simp add: X_def)
qed

lemma get_dinode_patch:
  assumes "length (d_addrs v) = Suc NDIRECT" "off + 64 \<le> length d"
  shows "get_dinode (patch off (dinode_bytes v) d) off = v"
  using get_dinode_bytes [OF assms(1), of "take off d"] assms(2) by (simp add: patch_def min_def)

lemma get_dinode_local:
  assumes "take 64 (drop off d) = take 64 (drop off e)" "off + 64 \<le> length d" "off + 64 \<le> length e"
  shows "get_dinode d off = get_dinode e off"
proof -
  have n: "d ! (off + j) = e ! (off + j)" if "j < 64" for j
    using arg_cong [OF assms(1), of "\<lambda>x. x ! j"] assms(2,3) that by simp
  have "get16 d (off + j) = get16 e (off + j)" if "j + 2 \<le> 64" for j
    using n [of j] n [of "j + 1"] that assms by (simp add: get16_def le16_dec_def add.assoc)
  moreover have "get32 d (off + j) = get32 e (off + j)" if "j + 4 \<le> 64" for j
    using n [of j] n [of "j + 1"] n [of "j + 2"] n [of "j + 3"] that assms
    by (simp add: get32_def le32_dec_def add.assoc)
  moreover have "get16 d off = get16 e off" using calculation(1) [of 0] by simp
  ultimately show ?thesis by (simp add: get_dinode_def add.assoc del: add_2_eq_Suc')
qed

text \<open>Writing one inode of a block leaves the other seven alone.\<close>

lemma get_dinode_patch_other:
  assumes "length (d_addrs v) = Suc NDIRECT" "length d = BSIZE" "m < IPB" "k < IPB" "m \<noteq> k"
  shows "get_dinode (patch (m * 64) (dinode_bytes v) d) (k * 64) = get_dinode d (k * 64)"
proof (rule get_dinode_local)
  have "k * 64 + 64 \<le> m * 64 \<or> m * 64 + 64 \<le> k * 64" using assms(5) by (cases "k < m") auto
  then show "take 64 (drop (k * 64) (patch (m * 64) (dinode_bytes v) d)) = take 64 (drop (k * 64) d)"
    using assms(2-4) length_dinode_bytes [OF assms(1)] by (intro patch_other) auto
qed (use assms length_dinode_bytes [OF assms(1)] in auto)

section \<open>States that differ in the inode cache only\<close>

lemma inodes_update_simps [simp]:
  "caches (inodes_update f s) = caches s" "dirties (inodes_update f s) = dirties s" "blk (inodes_update f s) = blk s"
  "pinned (inodes_update f s) = pinned s" "in_log (inodes_update f s) = in_log s"
  "settled (inodes_update f s) i b = settled s i b"
proof -
  show c: "caches (inodes_update f s) = caches s" by (rule blk_cong) simp_all
  show d: "dirties (inodes_update f s) = dirties s" by (rule blk_cong) simp_all
  show b: "blk (inodes_update f s) = blk s" by (rule blk_cong) simp_all
  show "pinned (inodes_update f s) = pinned s" by (rule blk_cong) simp_all
  show "in_log (inodes_update f s) = in_log s" by (simp add: in_log_def fun_eq_iff)
  show "settled (inodes_update f s) i b = settled s i b" by (simp add: settled_def b d)
qed

lemma inodes_update_inv [simp]:
  "calm (inodes_update f s) H k = calm s H k" "txn (inodes_update f s) H k = txn s H k" "fs_ok (inodes_update f s) = fs_ok s" "held_ok (inodes_update f s) H = held_ok s H"
proof -
  have "log_inv (inodes_update f s) H = log_inv s H"
    by (rule iffI; rule log_inv_cong [rotated -1], assumption) simp_all
  then show "calm (inodes_update f s) H k = calm s H k" "txn (inodes_update f s) H k = txn s H k" by (simp_all add: txn_def calm_def)
  show "fs_ok (inodes_update f s) = fs_ok s" by (simp add: fs_ok_def)
  show "held_ok (inodes_update f s) H = held_ok s H" by (simp add: held_ok_def)
qed

lemma txn_mono: "txn s H k \<Longrightarrow> j \<le> k \<Longrightarrow> txn s H j"
  by (auto simp: txn_def calm_def)

text \<open>The block layer's frame when the inode cache changes too.\<close>

definition iframe :: "'z ist_scheme \<Rightarrow> 'z ist_scheme \<Rightarrow> bool" where
  "iframe s t \<longleftrightarrow> lframe (s\<lparr>inodes := inodes t\<rparr>) t"

lemma lframe_iframe: "lframe s t \<Longrightarrow> iframe s t"
  using lframeD(9) [of s t] by (simp add: iframe_def)

lemma iframe_refl [simp]: "iframe s s"
  by (simp add: iframe_def)

lemma iframe_upd [simp]: "iframe s (s\<lparr>inodes := x\<rparr>)"
  by (simp add: iframe_def)

lemma iframe_trans:
  assumes "iframe s t" "iframe t u"
  shows "iframe s u"
proof -
  obtain sl bf n hb where t: "t = s\<lparr>inodes := inodes t, slks := sl, bufs := bf, lh_n := n, lh_block := hb\<rparr>"
    "\<forall>k. (\<forall>i. k \<noteq> SL_buf i) \<longrightarrow> sl k = slks s k"
    using assms(1) by (auto simp: iframe_def lframe_def)
  obtain sl' bf' n' hb' where u: "u = t\<lparr>inodes := inodes u, slks := sl', bufs := bf', lh_n := n', lh_block := hb'\<rparr>"
    "\<forall>k. (\<forall>i. k \<noteq> SL_buf i) \<longrightarrow> sl' k = slks t k"
    using assms(2) by (auto simp: iframe_def lframe_def)
  have st: "slks t = sl" by (subst t(1)) simp
  have "u = s\<lparr>inodes := inodes u, slks := sl', bufs := bf', lh_n := n', lh_block := hb'\<rparr>"
    by (subst u(1), subst t(1)) simp
  then show ?thesis
    unfolding iframe_def lframe_def using u(2) t(2) st by (intro exI [of _ sl'] exI [of _ bf'] exI [of _ n'] exI [of _ hb']) simp
qed

lemma iframeD:
  fixes s t :: "'z ist_scheme"
  assumes "iframe s t"
  shows "disk t = disk s" "sb t = sb s" "in_log t = in_log s" "procs t = procs s" "cur t = cur s" "held t = held s"
    "slks t (SL_inode j) = slks s (SL_inode j)" "mem t = mem s" "outstanding t = outstanding s"
  using lframeD [OF assms [unfolded iframe_def]] lframe_in_log [OF assms [unfolded iframe_def]] by simp_all

section \<open>The layout of the file system\<close>

definition iblk :: "superblock \<Rightarrow> nat \<Rightarrow> nat" where
  "iblk sp i = unat (sb_inodestart sp) + i div IPB"

text \<open>Block 0 and the inode blocks are in use too, and the inode blocks are not the bitmap's.\<close>

definition meta_ok :: "'z ist_scheme \<Rightarrow> bool" where
  "meta_ok s \<longleftrightarrow> (let sp = sb s; size = unat (sb_size sp) in
     fs_ok s \<and> used (blk s) sp 0
     \<and> (\<forall>i < unat (sb_ninodes sp). iblk sp i < size \<and> \<not> in_log s (iblk sp i) \<and> used (blk s) sp (iblk sp i)
          \<and> (\<forall>b < size. iblk sp i \<noteq> bmblk sp b)))"

lemma meta_okD:
  assumes "meta_ok s"
  shows "fs_ok s" "used (blk s) (sb s) 0"
    "i < unat (sb_ninodes (sb s)) \<Longrightarrow> iblk (sb s) i < length (disk s)"
    "i < unat (sb_ninodes (sb s)) \<Longrightarrow> iblk (sb s) i < unat (sb_size (sb s))"
    "i < unat (sb_ninodes (sb s)) \<Longrightarrow> \<not> in_log s (iblk (sb s) i)"
    "i < unat (sb_ninodes (sb s)) \<Longrightarrow> used (blk s) (sb s) (iblk (sb s) i)"
    "i < unat (sb_ninodes (sb s)) \<Longrightarrow> b < unat (sb_size (sb s)) \<Longrightarrow> iblk (sb s) i \<noteq> bmblk (sb s) b"
  using assms fs_okD(5) [of s "iblk (sb s) i"] unfolding meta_ok_def Let_def by blast+

lemma inodes_update_meta [simp]: "meta_ok (inodes_update f s) = meta_ok s"
  by (simp add: meta_ok_def)

lemma unat_IBLOCK:
  assumes "bcache_ok s H" "meta_ok s" "unat w < unat (sb_ninodes (sb s))"
  shows "unat (IBLOCK w (sb s)) = iblk (sb s) (unat w)"
proof -
  have "iblk (sb s) (unat w) < 2 ^ 32" using meta_okD(3) [OF assms(2,3)] assms(1) by (auto simp: bcache_ok_def)
  moreover have "unat (w div 8) = unat w div 8" by (simp add: unat_div)
  ultimately have "unat (w div 8) + unat (sb_inodestart (sb s)) < 2 ^ 32" by (simp add: iblk_def)
  then have "unat (w div 8 + sb_inodestart (sb s)) = unat (w div 8) + unat (sb_inodestart (sb s))"
    by (simp add: unat_word_ariths(1))
  then show ?thesis using \<open>unat (w div 8) = _\<close> by (simp add: IBLOCK_def iblk_def)
qed

text \<open>The inode \<open>i\<close> on the disk.\<close>

definition dino :: "'z ist_scheme \<Rightarrow> nat \<Rightarrow> dinode" where
  "dino s i = get_dinode (blk s (iblk (sb s) i)) (i mod IPB * 64)"

text \<open>iupdate() stores the inode, and no other.\<close>

lemma iupdate_ok:
  fixes s :: "'z ist_scheme"
  assumes tx: "txn s {} (Suc k)" and m: "meta_ok s"
    and v: "v = inodes s ! ip" "i_dev v = 1" "unat (i_inum v) < unat (sb_ninodes (sb s))" "length (i_addrs v) = Suc NDIRECT"
  obtains t where "iupdate ip s = Ok () t" "txn t {} k" "lframe s t" "dino t (unat (i_inum v)) = dinode_of v"
    "\<And>j. j \<noteq> unat (i_inum v) \<Longrightarrow> dino t j = dino s j"
    "\<And>b. b \<noteq> iblk (sb s) (unat (i_inum v)) \<Longrightarrow> blk t b = blk s b" "meta_ok t"
    "iblk (sb s) (unat (i_inum v)) \<in> pinned s \<Longrightarrow> lh_n t = lh_n s"
proof -
  define n where "n = unat (i_inum v)"
  define B where "B = iblk (sb s) n"
  have ok: "bcache_ok s {}" using tx by (simp add: txn_def calm_def log_inv_def)
  note md = meta_okD(3-7) [OF m v(3), folded n_def, folded B_def]
  have uB: "unat (IBLOCK (i_inum v) (sb s)) = B" unfolding B_def n_def by (rule unat_IBLOCK [OF ok m v(3)])
  let ?g = "patch (dioff (i_inum v)) (dinode_bytes (dinode_of v))"
  have la: "length (d_addrs (dinode_of v)) = Suc NDIRECT" using v(4) by (simp add: dinode_of_def)
  have lB: "length (blk s B) = BSIZE" by (rule length_blk [OF ok md(1)])
  have off: "dioff (i_inum v) = n mod IPB * 64" "n mod IPB < IPB" by (simp_all add: dioff_def n_def)
  have lg: "length (?g (blk s B)) = BSIZE"
    using length_dinode_bytes [OF la] off lB by (subst length_patch) auto
  obtain t where t: "log_update 1 (IBLOCK (i_inum v) (sb s)) ?g s = Ok () t" "txn t {} k" "blk t = (blk s)(B := ?g (blk s B))" "lframe s t"
    "B \<in> pinned s \<Longrightarrow> lh_n t = lh_n s"
    by (rule log_update_ok [where g = ?g, OF tx uB md(1) _ md(3) lg]) auto
  have run: "iupdate ip s = Ok () t" using t(1) v by (simp add: iupdate_def kcode)
  have st: "sb t = sb s" by (rule lframeD [OF t(4)])
  have dn: "dino t n = dinode_of v"
    using get_dinode_patch [OF la, of "n mod IPB * 64" "blk s B"] lB off t(3) by (auto simp: dino_def st B_def)
  have dj: "dino t j = dino s j" if "j \<noteq> n" for j
  proof (cases "iblk (sb s) j = B")
    case True
    then have "j div IPB = n div IPB" by (simp add: iblk_def B_def)
    then have "j mod IPB \<noteq> n mod IPB" using that by (metis div_mult_mod_eq)
    then show ?thesis
      using get_dinode_patch_other [OF la lB off(2), of "j mod IPB"] True t(3) off(1) by (simp add: dino_def st)
  qed (simp add: dino_def st t(3))
  have bb: "blk t b = blk s b" if "b \<noteq> B" for b using t(3) that by simp
  have us: "used (blk t) (sb s) b = used (blk s) (sb s) b" if "b < unat (sb_size (sb s))" for b
    using bb [of "bmblk (sb s) b"] md(5) [OF that] by (simp add: used_def)
  have mt: "meta_ok t"
    using m us unfolding meta_ok_def fs_ok_def Let_def st lframeD(1) [OF t(4)] lframe_in_log [OF t(4)] by auto
  show ?thesis
    by (rule that [OF run t(2,4)]) (use dn dj bb mt t(5) in \<open>auto simp: n_def B_def\<close>)
qed

end
