(* ===== verification/Bmap.thy ===== *)
theory Bmap
  imports Inode
begin

text \<open>
  What bmap() does for a file: the sequence of a file's blocks, read through
  its inode and its indirect block, as an abstraction of the inode's address
  table.  bmap() gives every block of the sequence a disk block of its own and
  leaves the contents of this and every other file as they were.
\<close>

section \<open>The blocks of a file\<close>

abbreviation (input) MAXFILE :: nat where "MAXFILE \<equiv> 140"

text \<open>The disk block of block \<open>n\<close> of the file, or 0; and the contents of block \<open>n\<close>.\<close>

definition fblk :: "(nat \<Rightarrow> bytes) \<Rightarrow> inode \<Rightarrow> nat \<Rightarrow> u32" where
  "fblk v ip n = (if n < NDIRECT then i_addrs ip ! n
     else if i_addrs ip ! NDIRECT = 0 then 0
     else get32 (v (unat (i_addrs ip ! NDIRECT))) (4 * (n - NDIRECT)))"

definition fcont :: "(nat \<Rightarrow> bytes) \<Rightarrow> inode \<Rightarrow> nat \<Rightarrow> bytes" where
  "fcont v ip n = (if fblk v ip n = 0 then replicate BSIZE 0 else v (unat (fblk v ip n)))"

text \<open>A block that may belong to a file.\<close>

definition data_blk :: "'z ist_scheme \<Rightarrow> nat \<Rightarrow> bool" where
  "data_blk s b \<longleftrightarrow> b < unat (sb_size (sb s)) \<and> used (blk s) (sb s) b \<and> \<not> in_log s b \<and> b \<noteq> 0
     \<and> (\<forall>c < unat (sb_size (sb s)). b \<noteq> bmblk (sb s) c) \<and> (\<forall>i < unat (sb_ninodes (sb s)). b \<noteq> iblk (sb s) i)"

text \<open>The blocks of a file are blocks for files, and no block occurs twice.\<close>

definition file_ok :: "'z ist_scheme \<Rightarrow> inode \<Rightarrow> bool" where
  "file_ok s ip \<longleftrightarrow> length (i_addrs ip) = Suc NDIRECT \<and> i_dev ip = 1
     \<and> (\<forall>n < MAXFILE. fblk (blk s) ip n \<noteq> 0 \<longrightarrow> data_blk s (unat (fblk (blk s) ip n)) \<and> fblk (blk s) ip n \<noteq> i_addrs ip ! NDIRECT)
     \<and> (i_addrs ip ! NDIRECT \<noteq> 0 \<longrightarrow> data_blk s (unat (i_addrs ip ! NDIRECT)))
     \<and> (\<forall>n < MAXFILE. \<forall>m < MAXFILE. fblk (blk s) ip n = fblk (blk s) ip m \<longrightarrow> fblk (blk s) ip n \<noteq> 0 \<longrightarrow> n = m)"

text \<open>
  \<open>extends W s t\<close>: \<open>t\<close> has all file blocks of \<open>s\<close>, those outside \<open>W\<close> with the
  contents they had, and the same inodes on the disk.
\<close>

definition extends :: "nat set \<Rightarrow> 'z ist_scheme \<Rightarrow> 'z ist_scheme \<Rightarrow> bool" where
  "extends W s t \<longleftrightarrow> meta_ok t \<and> iframe s t
     \<and> (\<forall>b. data_blk s b \<longrightarrow> data_blk t b \<and> (b \<notin> W \<longrightarrow> blk t b = blk s b))
     \<and> (\<forall>i < unat (sb_ninodes (sb s)). blk t (iblk (sb s) i) = blk s (iblk (sb s) i))"

definition frees :: "'z ist_scheme \<Rightarrow> nat set" where
  "frees s = {c. c < unat (sb_size (sb s)) \<and> \<not> used (blk s) (sb s) c}"

lemma extends_refl: "meta_ok s \<Longrightarrow> extends W s s"
  by (simp add: extends_def)

lemma extends_trans:
  assumes "extends W s t" "extends V t u"
  shows "extends (W \<union> V) s u"
  using assms iframe_trans [of s t u] iframeD(2) [of s t] unfolding extends_def by auto

lemma extends_mono: "extends W s t \<Longrightarrow> W \<subseteq> V \<Longrightarrow> extends V s t"
  by (auto simp: extends_def)

lemma extendsD:
  assumes "extends W s t"
  shows "meta_ok t" "iframe s t" "data_blk s b \<Longrightarrow> data_blk t b" "data_blk s b \<Longrightarrow> b \<notin> W \<Longrightarrow> blk t b = blk s b"
  using assms by (auto simp: extends_def)

lemma inodes_update_files [simp]:
  "data_blk (inodes_update f s) = data_blk s" "file_ok (inodes_update f s) = file_ok s" "frees (inodes_update f s) = frees s"
proof -
  show d: "data_blk (inodes_update f s) = data_blk s" by (simp add: data_blk_def fun_eq_iff)
  show "file_ok (inodes_update f s) = file_ok s" by (simp add: file_ok_def d fun_eq_iff)
  show "frees (inodes_update f s) = frees s" by (simp add: frees_def)
qed

lemma extends_inodes: "extends W s t \<Longrightarrow> extends W s (t\<lparr>inodes := x\<rparr>)"
  using iframe_trans [OF _ iframe_upd, of s t x] by (simp add: extends_def)

lemma finite_frees [simp]: "finite (frees s)"
  by (simp add: frees_def)

section \<open>Allocating a block\<close>

lemma balloc_extends:
  fixes s :: "'z ist_scheme"
  assumes tx: "txn s H (Suc (Suc k))" and m: "meta_ok s" and h: "held_ok s H" "card H \<le> k" and f: "0 < card (frees s)"
  obtains c t where "balloc 1 s = Ok c t" "c \<noteq> 0" "unat c \<in> frees s" "txn t H k" "lframe s t" "extends {} s t" "data_blk t (unat c)"
    "blk t (unat c) = replicate BSIZE 0" "\<forall>i \<in> H. \<forall>e. caches t i e = caches s i e" "card (frees t) = card (frees s) - 1"
proof -
  note md = meta_okD [OF m]
  have free: "\<exists>c < unat (sb_size (sb s)). \<not> used (blk s) (sb s) c" using f by (auto simp: frees_def card_gt_0_iff)
  obtain c t where t: "balloc 1 s = Ok (of_nat c) t" "c < unat (sb_size (sb s))" "\<not> used (blk s) (sb s) c" 
    "unat (of_nat c :: u32) = c" "txn t H k" "lframe s t" "blk t = after_balloc (sb s) c (blk s)"
    "\<forall>e < unat (sb_size (sb s)). used (blk t) (sb s) e \<longleftrightarrow> e = c \<or> used (blk s) (sb s) e" "\<forall>i \<in> H. \<forall>e. caches t i e = caches s i e" "fs_ok t"
    by (rule balloc_ok [OF tx md(1) h free])
  have st: "sb t = sb s" "in_log t = in_log s" using lframeD(8) [OF t(6)] lframe_in_log [OF t(6)] by auto
  have c0: "c \<noteq> 0" using t(3) md(2) by metis
  then have c0': "(of_nat c :: u32) \<noteq> 0" using t(4) by (metis unat_0)
  have same: "blk t b = blk s b" if "b \<noteq> c" "b \<noteq> bmblk (sb s) c" for b using that t(7) by (simp add: after_balloc_def)
  have ib: "blk t (iblk (sb s) i) = blk s (iblk (sb s) i)" if "i < unat (sb_ninodes (sb s))" for i
    using same [of "iblk (sb s) i"] md(6,7) [OF that] t(2,3) by metis
  have mt: "meta_ok t"
    using m t(8,10) unfolding meta_ok_def Let_def st by (auto simp: fs_ok_def Let_def)
  have dat: "data_blk t b \<and> blk t b = blk s b" if "data_blk s b" for b
    using that t(2,3,8) same [of b] unfolding data_blk_def st by metis
  have dc: "data_blk t c"
    unfolding data_blk_def st using t(2,3,8) c0 fs_okD(3,4) [OF md(1)] md(6) by blast
  have "frees t = frees s - {c}" using t(8) unfolding frees_def st by auto
  then have cf: "card (frees t) = card (frees s) - 1" "c \<in> frees s" using t(2,3) by (simp_all add: frees_def)
  have ex: "extends {} s t" using mt lframe_iframe [OF t(6)] dat ib by (simp add: extends_def)
  have z: "blk t c = replicate BSIZE 0" by (simp add: t(7) after_balloc_def)
  show ?thesis
    by (rule that [OF t(1) c0' _ t(5,6) ex _ _ t(9) cf(1)]) (use t(4) dc z cf(2) in simp_all)
qed

lemma get32_zeros: "off + 4 \<le> n \<Longrightarrow> get32 (replicate n 0) off = 0"
  by (simp add: get32_def le32_dec_def)

text \<open>A fresh block is none of the blocks in use.\<close>

lemma fresh_blk: "unat c \<in> frees s \<Longrightarrow> data_blk s (unat b) \<Longrightarrow> b \<noteq> c"
  by (auto simp: frees_def data_blk_def)

lemma file_ok_len: "file_ok s ip \<Longrightarrow> length (i_addrs ip) = Suc NDIRECT" "file_ok s ip \<Longrightarrow> i_dev ip = 1"
  by (simp_all add: file_ok_def)

lemma file_okD:
  assumes "file_ok s ip"
  shows "n < MAXFILE \<Longrightarrow> fblk (blk s) ip n \<noteq> 0 \<Longrightarrow> data_blk s (unat (fblk (blk s) ip n))"
    "n < MAXFILE \<Longrightarrow> fblk (blk s) ip n \<noteq> 0 \<Longrightarrow> fblk (blk s) ip n \<noteq> i_addrs ip ! NDIRECT"
    "i_addrs ip ! NDIRECT \<noteq> 0 \<Longrightarrow> data_blk s (unat (i_addrs ip ! NDIRECT))"
    "n < MAXFILE \<Longrightarrow> m < MAXFILE \<Longrightarrow> fblk (blk s) ip n = fblk (blk s) ip m \<Longrightarrow> fblk (blk s) ip n \<noteq> 0 \<Longrightarrow> n = m"
  using assms by (auto simp: file_ok_def)

text \<open>A file keeps its blocks and contents when none of them is written.\<close>

lemma file_extends:
  assumes f: "file_ok s ip" and e: "extends W s t"
    and w: "i_addrs ip ! NDIRECT \<noteq> 0 \<Longrightarrow> unat (i_addrs ip ! NDIRECT) \<notin> W"
  shows "n < MAXFILE \<Longrightarrow> fblk (blk t) ip n = fblk (blk s) ip n" "file_ok t ip"
    "n < MAXFILE \<Longrightarrow> unat (fblk (blk s) ip n) \<notin> W \<Longrightarrow> fcont (blk t) ip n = fcont (blk s) ip n"
proof -
  have i: "blk t (unat (i_addrs ip ! NDIRECT)) = blk s (unat (i_addrs ip ! NDIRECT))" if "i_addrs ip ! NDIRECT \<noteq> 0"
    using extendsD(4) [OF e file_okD(3) [OF f that] w [OF that]] .
  show b: "fblk (blk t) ip n = fblk (blk s) ip n" for n using i by (simp add: fblk_def)
  show "file_ok t ip" using f extendsD(3) [OF e] unfolding file_ok_def b by blast
  show "fcont (blk t) ip n = fcont (blk s) ip n" if "n < MAXFILE" "unat (fblk (blk s) ip n) \<notin> W"
    using extendsD(4) [OF e file_okD(1) [OF f that(1)] that(2)] by (simp add: fcont_def b)
qed

section \<open>bmap()\<close>

text \<open>
  \<open>remapped s ip t\<close>: of the in-memory inodes only the address table of \<open>ip\<close>
  has changed, and only by new blocks: the file's contents are the same.
\<close>

definition remapped :: "'z ist_scheme \<Rightarrow> nat \<Rightarrow> 'z ist_scheme \<Rightarrow> bool" where
  "remapped s ip t \<longleftrightarrow> (\<exists>as. inodes t = (inodes s)[ip := (inodes s ! ip)\<lparr>i_addrs := as\<rparr>])
     \<and> file_ok t (inodes t ! ip)
     \<and> (\<forall>m < MAXFILE. fcont (blk t) (inodes t ! ip) m = fcont (blk s) (inodes s ! ip) m
          \<and> (fblk (blk s) (inodes s ! ip) m \<noteq> 0 \<longrightarrow> fblk (blk t) (inodes t ! ip) m = fblk (blk s) (inodes s ! ip) m))
     \<and> (i_addrs (inodes s ! ip) ! NDIRECT \<noteq> 0 \<longrightarrow> i_addrs (inodes t ! ip) ! NDIRECT = i_addrs (inodes s ! ip) ! NDIRECT)
     \<and> (\<forall>m < MAXFILE. fblk (blk s) (inodes s ! ip) m = 0 \<longrightarrow> \<not> data_blk s (unat (fblk (blk t) (inodes t ! ip) m)))
     \<and> (i_addrs (inodes s ! ip) ! NDIRECT = 0 \<longrightarrow> \<not> data_blk s (unat (i_addrs (inodes t ! ip) ! NDIRECT)))"

lemma not_data_0 [simp]: "\<not> data_blk s 0"
  by (simp add: data_blk_def)

lemma not_data_free: "b \<in> frees s \<Longrightarrow> \<not> data_blk s b"
  by (simp add: data_blk_def frees_def)

lemma remapped_refl: "file_ok s (inodes s ! ip) \<Longrightarrow> remapped s ip s"
  unfolding remapped_def by (auto intro!: exI [of _ "i_addrs (inodes s ! ip)"])

lemma remapped_trans:
  assumes "remapped s ip t" "remapped t ip u" "ip < length (inodes s)" "extends W s t"
  shows "remapped s ip u"
proof -
  obtain as bs where "inodes t = (inodes s)[ip := (inodes s ! ip)\<lparr>i_addrs := as\<rparr>]"
    "inodes u = (inodes t)[ip := (inodes t ! ip)\<lparr>i_addrs := bs\<rparr>]"
    using assms(1,2) unfolding remapped_def by blast
  then have "inodes u = (inodes s)[ip := (inodes s ! ip)\<lparr>i_addrs := bs\<rparr>]" using assms(3) by simp
  moreover have "\<not> data_blk s b" if "\<not> data_blk t b" for b using that extendsD(3) [OF assms(4)] by blast
  ultimately show ?thesis using assms(1,2) unfolding remapped_def by (metis (no_types, lifting))
qed

lemma remappedD:
  assumes "remapped s ip t" "ip < length (inodes s)"
  shows "length (inodes t) = length (inodes s)" "i_size (inodes t ! ip) = i_size (inodes s ! ip)"
    "i_dev (inodes t ! ip) = i_dev (inodes s ! ip)" "i_inum (inodes t ! ip) = i_inum (inodes s ! ip)"
    "i_type (inodes t ! ip) = i_type (inodes s ! ip)" "file_ok t (inodes t ! ip)" "j \<noteq> ip \<Longrightarrow> inodes t ! j = inodes s ! j"
    "m < MAXFILE \<Longrightarrow> fcont (blk t) (inodes t ! ip) m = fcont (blk s) (inodes s ! ip) m"
    "(inodes t ! ip)\<lparr>i_addrs := x\<rparr> = (inodes s ! ip)\<lparr>i_addrs := x\<rparr>"
  using assms by (auto simp: remapped_def)

lemma bmap_addr_ok:
  fixes s :: "'z ist_scheme"
  assumes tx: "txn s {} (Suc (Suc j))" and m: "meta_ok s" and ip: "ip < length (inodes s)" and f: "file_ok s (inodes s ! ip)"
    and k: "k \<le> NDIRECT" and fr: "0 < card (frees s)"
  obtains a t where "bmap_addr ip k s = Ok a t" "a \<noteq> 0" "txn t {} j" "extends {} s t" "remapped s ip t"
    "i_addrs (inodes t ! ip) ! k = a" "card (frees s) - 1 \<le> card (frees t)"
proof (cases "i_addrs (inodes s ! ip) ! k = 0")
  case False
  show ?thesis
    by (rule that [of "i_addrs (inodes s ! ip) ! k" s])
       (use False tx m f remapped_refl [OF f] in \<open>auto simp: bmap_addr_def kcode extends_refl intro: txn_mono\<close>)
next
  case True
  define v where "v = inodes s ! ip"
  note la = file_ok_len [OF f, folded v_def]
  have h: "held_ok s {}" "card ({} :: nat set) \<le> j" by (simp_all add: held_ok_def)
  obtain c t where t: "balloc 1 s = Ok c t" "c \<noteq> 0" "unat c \<in> frees s" "txn t {} j" "lframe s t" "extends {} s t" "data_blk t (unat c)"
    "blk t (unat c) = replicate BSIZE 0" "card (frees t) = card (frees s) - 1"
    by (rule balloc_extends [OF tx m h fr])
  define v' where "v' = v\<lparr>i_addrs := (i_addrs v)[k := c]\<rparr>"
  define u where "u = t\<lparr>inodes := (inodes s)[ip := v']\<rparr>"
  have run: "bmap_addr ip k s = Ok c u"
    using True t(1) la lframeD(9) [OF t(5)] by (simp add: bmap_addr_def kcode u_def v'_def v_def)
  have uv: "inodes u ! ip = v'" using ip by (simp add: u_def)
  have z: "i_addrs v ! k = 0" using True by (simp add: v_def)
  note fe = file_extends [OF f t(6), folded v_def]
  have fb: "fblk (blk t) v' n = (if n = k \<and> k < NDIRECT then c else fblk (blk s) v n)" if "n < MAXFILE" for n
  proof (cases "k = NDIRECT")
    case True
    then show ?thesis using z la t(8) that get32_zeros [of "4 * (n - NDIRECT)" BSIZE]
      by (auto simp: fblk_def v'_def)
  next
    case False
    then show ?thesis using fe(1) [of n] that la k by (auto simp: fblk_def v'_def)
  qed
  have fc: "fcont (blk t) v' n = fcont (blk s) v n" if "n < MAXFILE" for n
    using fb [OF that] fe(3) [of n] fe(1) [of n] that z t(8) by (auto simp: fcont_def fblk_def)
  note fd = file_okD [OF f, folded v_def]
  have ex: "data_blk t b" if "data_blk s b" for b using extendsD(3) [OF t(6) that] .
  have new: "b \<noteq> c" if "data_blk s (unat b)" for b :: u32 using fresh_blk [OF t(3) that] .
  have ind: "i_addrs v' ! NDIRECT = (if k = NDIRECT then c else i_addrs v ! NDIRECT)" using la by (simp add: v'_def)
  have "file_ok t v'" unfolding file_ok_def
  proof (intro conjI allI impI)
    fix n assume n: "n < MAXFILE" "fblk (blk t) v' n \<noteq> 0"
    show "data_blk t (unat (fblk (blk t) v' n))" using n fb [of n] fd(1) [of n] ex t(7) by (auto split: if_splits)
    show "fblk (blk t) v' n \<noteq> i_addrs v' ! NDIRECT"
      using n fb [of n] fd(1,2) [of n] fd(3) new [of "fblk (blk s) v n"] new [of "i_addrs v ! NDIRECT"] ind t(2) by (auto split: if_splits)
  next
    fix n m assume n: "n < MAXFILE" "m < MAXFILE" "fblk (blk t) v' n = fblk (blk t) v' m" "fblk (blk t) v' n \<noteq> 0"
    then show "n = m"
      using fb [of n] fb [of m] fd(4) [of n m] fd(1) [of n] fd(1) [of m] new [of "fblk (blk s) v n"] new [of "fblk (blk s) v m"]
      by (auto split: if_splits)
  qed (use la ex fd(3) t(7) ind in \<open>auto simp: v'_def\<close>)
  then have re: "remapped s ip u"
    unfolding remapped_def uv using fc fb fd(1) z ind not_data_free [OF t(3)]
    by (auto simp: u_def v_def [symmetric] v'_def intro!: exI [of _ "(i_addrs v)[k := c]"]) (auto simp: fblk_def v'_def)
  show ?thesis
    by (rule that [OF run t(2) _ _ re]) (use t(4,9) la k extends_inodes [OF t(6)] uv in \<open>auto simp: u_def v'_def\<close>)
qed

lemma held_data:
  assumes "txn s H k" "i \<in> H" "caches s i b"
  shows "b_data (bufs s ! i) = blk s b"
proof -
  have "bcache_ok s H" using assms(1) by (simp add: txn_def calm_def log_inv_def)
  then have "uniq_bufs s" "b_valid (bufs s ! i)" using assms(2,3) by (auto simp: bcache_ok_def buf_ok_def Let_def caches_def)
  then show ?thesis using blk_cached [OF _ assms(3)] by simp
qed

lemma lframe_extends:
  fixes s t :: "'z ist_scheme"
  assumes "meta_ok s" "lframe s t" "\<And>b. b \<notin> W \<Longrightarrow> blk t b = blk s b" "\<forall>b \<in> W. data_blk s b"
  shows "extends W s t" "data_blk t = data_blk s" "frees t = frees s"
proof -
  note f = lframeD(1,8) [OF assms(2)] lframe_in_log [OF assms(2)]
  have bm: "blk t (bmblk (sb s) b) = blk s (bmblk (sb s) b)" if "b < unat (sb_size (sb s))" for b
    using assms(3,4) that by (auto simp: data_blk_def)
  then have u: "used (blk t) (sb s) b = used (blk s) (sb s) b" if "b < unat (sb_size (sb s))" for b
    using that by (simp add: used_def)
  have ib: "blk t (iblk (sb s) i) = blk s (iblk (sb s) i)" if "i < unat (sb_ninodes (sb s))" for i
    using assms(3,4) that by (auto simp: data_blk_def)
  show d: "data_blk t = data_blk s" using u unfolding data_blk_def f by (auto simp: fun_eq_iff)
  show "frees t = frees s" using u unfolding frees_def f by auto
  have "meta_ok t" using assms(1) u unfolding meta_ok_def fs_ok_def Let_def f by auto
  then show "extends W s t" using d ib assms(3) lframe_iframe [OF assms(2)] by (simp add: extends_def)
qed

lemma held_ok_data:
  assumes "data_blk s A" "\<And>c. caches s bp c \<Longrightarrow> c = A"
  shows "held_ok s {bp}"
  using assms by (auto simp: held_ok_def data_blk_def)

text \<open>The entry of an indirect block, with that block's buffer locked.\<close>

lemma bmap_entry_ok:
  fixes s :: "'z ist_scheme"
  assumes tx: "txn s {bp} (Suc (Suc (Suc j)))" and m: "meta_ok s" and c: "caches s bp A" and A: "data_blk s A" "settled s bp A"
    and fr: "0 < card (frees s)" and n: "n < NINDIRECT"
  obtains a t where "bmap_entry 1 bp n s = Ok a t" "a \<noteq> 0" "txn t {bp} j" "caches t bp A" "settled t bp A" "extends {A} s t"
    "inodes t = inodes s" "card (frees s) - 1 \<le> card (frees t)"
    "get32 (blk s A) (4 * n) \<noteq> 0 \<and> a = get32 (blk s A) (4 * n) \<and> t = s
     \<or> get32 (blk s A) (4 * n) = 0 \<and> blk t A = put32 (4 * n) a (blk s A) \<and> unat a \<in> frees s \<and> data_blk t (unat a)
       \<and> blk t (unat a) = replicate BSIZE 0"
proof (cases "get32 (blk s A) (4 * n) = 0")
  case False
  have "bmap_entry 1 bp n s = Ok (get32 (blk s A) (4 * n)) s"
    using held_data [OF tx _ c] False by (simp add: bmap_entry_def kcode)
  then show ?thesis
    by (rule that) (use False tx c A(2) extends_refl [OF m] in \<open>auto intro: txn_mono\<close>)
next
  case True
  have h: "held_ok s {bp}" by (rule held_ok_data [OF A(1)]) (use c in \<open>auto simp: caches_def\<close>)
  have h1: "card {bp} \<le> Suc j" by simp
  obtain a t where t: "balloc 1 s = Ok a t" "a \<noteq> 0" "unat a \<in> frees s" "txn t {bp} (Suc j)" "lframe s t" "extends {} s t" "data_blk t (unat a)"
    "blk t (unat a) = replicate BSIZE 0" "\<forall>i \<in> {bp}. \<forall>e. caches t i e = caches s i e" "card (frees t) = card (frees s) - 1"
    by (rule balloc_extends [OF tx m h h1 fr])
  have ct: "caches t bp A" using t(9) c by simp
  have At: "data_blk t A" "blk t A = blk s A" using extendsD(3,4) [OF t(6) A(1)] by simp_all
  have okt: "bcache_ok t {bp}" using t(4) by (simp add: txn_def calm_def log_inv_def)
  have lA: "length (blk t A) = BSIZE" by (rule length_blk [OF okt bcache_ok_unlocked [OF okt ct]])
  let ?d = "put32 (4 * n) a (blk t A)"
  have ld: "length ?d = BSIZE" using n lA by simp
  have nl: "\<not> in_log t A" using At(1) by (simp add: data_blk_def)
  obtain u where u: "thenM (set_bdata bp ?d) (log_write bp) t = Ok () u" "txn u {bp} j" "blk u = (blk t)(A := ?d)"
    "lframe t u" "settled u bp A" "\<And>j c. caches u j c = caches t j c"
    by (rule txn_write [OF t(4) _ ct nl ld]) auto
  have run: "bmap_entry 1 bp n s = Ok a u"
    using held_data [OF tx _ c] held_data [OF t(4) _ ct] True t(1) u(1)
    by (auto simp: bmap_entry_def kcode split: outcome.splits)
  have eu: "extends {A} t u" "data_blk u = data_blk t" "frees u = frees t"
    by (rule lframe_extends [where W = "{A}", OF extendsD(1) [OF t(6)] u(4)]; use u(3) At(1) in auto)+
  have "unat a \<noteq> A" using t(3) A(1) by (auto simp: frees_def data_blk_def)
  then have last: "get32 (blk s A) (4 * n) = 0 \<and> blk u A = put32 (4 * n) a (blk s A) \<and> unat a \<in> frees s \<and> data_blk u (unat a)
       \<and> blk u (unat a) = replicate BSIZE 0"
    using True u(3) At(2) t(3,7,8) eu(2) by simp
  have "extends {A} s u" using extends_trans [OF t(6) eu(1)] by simp
  then show ?thesis
    using that [OF run t(2) u(2) _ u(5)] u(6) ct eu(3) t(10) last lframeD(9) [OF u(4)] lframeD(9) [OF t(5)] by simp
qed

text \<open>Filling an empty entry of the indirect block with a fresh block.\<close>

lemma fill_entry:
  assumes f: "file_ok s v" and A: "i_addrs v ! NDIRECT = A" "A \<noteq> 0" and l: "length (blk s (unat A)) = BSIZE" and n: "n < NINDIRECT"
    and e: "extends {unat A} s t" and z: "get32 (blk s (unat A)) (4 * n) = 0" and p: "blk t (unat A) = put32 (4 * n) a (blk s (unat A))"
    and a: "a \<noteq> 0" "unat a \<in> frees s" "data_blk t (unat a)" "blk t (unat a) = replicate BSIZE 0"
  shows "file_ok t v" "fblk (blk t) v (NDIRECT + n) = a"
    "\<And>m. m < MAXFILE \<Longrightarrow> fcont (blk t) v m = fcont (blk s) v m"
    "\<And>m. m < MAXFILE \<Longrightarrow> fblk (blk s) v m \<noteq> 0 \<Longrightarrow> fblk (blk t) v m = fblk (blk s) v m"
    "\<And>m. m < MAXFILE \<Longrightarrow> fblk (blk s) v m = 0 \<Longrightarrow> \<not> data_blk s (unat (fblk (blk t) v m))"
proof -
  note la = file_ok_len [OF f]
  note fd = file_okD [OF f]
  have fb: "fblk (blk t) v m = (if m = NDIRECT + n then a else fblk (blk s) v m)" if m: "m < MAXFILE" for m
  proof -
    have "get32 (put32 (4 * n) a (blk s (unat A))) (4 * k) = (if k = n then a else get32 (blk s (unat A)) (4 * k))" if "k < NINDIRECT" for k
      using l n that by (auto simp: get32_put32_same intro!: get32_put32_other)
    from this [of "m - NDIRECT"] show ?thesis using A p n m by (auto simp: fblk_def)
  qed
  have fz: "fblk (blk s) v (NDIRECT + n) = 0" using z A by (simp add: fblk_def)
  have new: "b \<noteq> a" if "data_blk s (unat b)" for b :: u32 using fresh_blk [OF a(2) that] .
  show "fblk (blk t) v (NDIRECT + n) = a" using fb n by simp
  show "fblk (blk t) v m = fblk (blk s) v m" if "m < MAXFILE" "fblk (blk s) v m \<noteq> 0" for m
    using fb [OF that(1)] fz that(2) by auto
  show "\<not> data_blk s (unat (fblk (blk t) v m))" if "m < MAXFILE" "fblk (blk s) v m = 0" for m
    using fb [OF that(1)] that(2) not_data_free [OF a(2)] by simp
  show "fcont (blk t) v m = fcont (blk s) v m" if m: "m < MAXFILE" for m
  proof (cases "fblk (blk s) v m = 0")
    case True
    then show ?thesis using fb [OF m] a(1,4) by (auto simp: fcont_def)
  next
    case False
    then have "blk t (unat (fblk (blk s) v m)) = blk s (unat (fblk (blk s) v m))"
      using extendsD(4) [OF e fd(1) [OF m False]] fd(2) [OF m False] A by (auto dest: unsigned_word_eqI)
    then show ?thesis using False fb [OF m] fz by (auto simp: fcont_def)
  qed
  show "file_ok t v" unfolding file_ok_def
  proof (intro conjI allI impI)
    fix m assume m: "m < MAXFILE" "fblk (blk t) v m \<noteq> 0"
    show "data_blk t (unat (fblk (blk t) v m))" using m fb [of m] fd(1) [of m] extendsD(3) [OF e] a(3) by (auto split: if_splits)
    show "fblk (blk t) v m \<noteq> i_addrs v ! NDIRECT"
      using m fb [of m] fd(2) [of m] fd(3) new [of "i_addrs v ! NDIRECT"] A by (auto split: if_splits)
  next
    fix k m assume k: "k < MAXFILE" "m < MAXFILE" "fblk (blk t) v k = fblk (blk t) v m" "fblk (blk t) v k \<noteq> 0"
    then show "k = m"
      using fb [of k] fb [of m] fd(4) [of k m] fd(1) [of k] fd(1) [of m] new [of "fblk (blk s) v k"] new [of "fblk (blk s) v m"]
      by (auto split: if_splits)
  qed (use la fd(3) extendsD(3) [OF e] in auto)
qed

lemma bmap_indirect_ok:
  fixes s :: "'z ist_scheme"
  assumes tx: "txn s {} (Suc (Suc (Suc j)))" and m: "meta_ok s" and ip: "ip < length (inodes s)" and f: "file_ok s (inodes s ! ip)"
    and A: "i_addrs (inodes s ! ip) ! NDIRECT = A" "A \<noteq> 0" and n: "n < NINDIRECT" and fr: "0 < card (frees s)"
  obtains a t where "bindM (bread 1 A) (\<lambda>bp. bindM (bmap_entry 1 bp n) (\<lambda>addr. thenM (brelse bp) (retM addr))) s = Ok a t"
    "a \<noteq> 0" "txn t {} j" "extends {unat A} s t" "remapped s ip t" "fblk (blk t) (inodes t ! ip) (NDIRECT + n) = a"
    "card (frees s) - 1 \<le> card (frees t)"
proof -
  let ?v = "inodes s ! ip"
  have dA: "data_blk s (unat A)" using file_okD(3) [OF f] A by simp
  have lA: "unat A < length (disk s)" using dA fs_okD(5) [OF meta_okD(1) [OF m]] by (simp add: data_blk_def)
  obtain bp t where t: "bread 1 A s = Ok bp t" "txn t {bp} (Suc (Suc (Suc j)))" "caches t bp (unat A)" "blk t = blk s" "lframe s t"
    "settled t bp (unat A)"
    by (rule txn_bread [OF tx refl lA]) auto
  have te: "extends {} s t" "data_blk t = data_blk s" "frees t = frees s"
    by (rule lframe_extends [where W = "{}", OF m t(5)]; simp add: t(4))+
  have it: "inodes t = inodes s" by (rule lframeD [OF t(5)])
  have dAt: "data_blk t (unat A)" and frt: "0 < card (frees t)" using dA te fr by simp_all
  obtain a u where u: "bmap_entry 1 bp n t = Ok a u" "a \<noteq> 0" "txn u {bp} j" "caches u bp (unat A)" "settled u bp (unat A)" "extends {unat A} t u"
    "inodes u = inodes t" "card (frees t) - 1 \<le> card (frees u)"
    and alt: "get32 (blk t (unat A)) (4 * n) \<noteq> 0 \<and> a = get32 (blk t (unat A)) (4 * n) \<and> u = t
     \<or> get32 (blk t (unat A)) (4 * n) = 0 \<and> blk u (unat A) = put32 (4 * n) a (blk t (unat A)) \<and> unat a \<in> frees t \<and> data_blk u (unat a)
       \<and> blk u (unat a) = replicate BSIZE 0"
    by (rule bmap_entry_ok [OF t(2) extendsD(1) [OF te(1)] t(3) dAt t(6) frt n])
  obtain w where w: "brelse bp u = Ok () w" "txn w ({bp} - {bp}) j" "blk w = blk u" "lframe u w"
    by (rule txn_brelse [OF u(3) _ u(4,5)]) auto
  have we: "extends {} u w" "data_blk w = data_blk u" "frees w = frees u"
    by (rule lframe_extends [where W = "{}", OF extendsD(1) [OF u(6)] w(4)]; simp add: w(3))+
  have iw: "inodes w = inodes s" using lframeD(9) [OF w(4)] u(7) it by simp
  have ew: "extends {unat A} s w" using extends_trans [OF extends_trans [OF te(1) u(6)] we(1)] by simp
  have run: "bindM (bread 1 A) (\<lambda>bp. bindM (bmap_entry 1 bp n) (\<lambda>addr. thenM (brelse bp) (retM addr))) s = Ok a w"
    using t(1) u(1) w(1) by (simp add: kcode)
  have ok: "bcache_ok s {}" using tx by (simp add: txn_def calm_def log_inv_def)
  have "file_ok w ?v \<and> fblk (blk w) ?v (NDIRECT + n) = a \<and> (\<forall>m < MAXFILE. fcont (blk w) ?v m = fcont (blk s) ?v m
      \<and> (fblk (blk s) ?v m \<noteq> 0 \<longrightarrow> fblk (blk w) ?v m = fblk (blk s) ?v m)
      \<and> (fblk (blk s) ?v m = 0 \<longrightarrow> \<not> data_blk s (unat (fblk (blk w) ?v m))))"
  proof (cases "get32 (blk s (unat A)) (4 * n) = 0")
    case True
    then show ?thesis using alt t(4) w(3) te(3) we(2) fill_entry [OF f A length_blk [OF ok lA] n ew True _ u(2)] by simp
  next
    case False
    then have "u = t" "a = get32 (blk s (unat A)) (4 * n)" using alt t(4) by auto
    then have bw: "blk w = blk s" using w(3) t(4) by simp
    have "extends {} s w" using extends_trans [OF te(1)] we(1) \<open>u = t\<close> by fastforce
    then have "file_ok w ?v" using file_extends(2) [OF f] by blast
    then show ?thesis using bw False A \<open>a = _\<close> by (simp add: fblk_def)
  qed
  then have "remapped s ip w \<and> fblk (blk w) (inodes w ! ip) (NDIRECT + n) = a"
    unfolding remapped_def iw using A by (auto intro!: exI [of _ "i_addrs ?v"])
  then show ?thesis using that [OF run u(2) _ ew] w(2) u(8) te(3) we(3) by simp
qed

text \<open>bmap() of any block of a file.\<close>

lemma bmap_ok:
  fixes s :: "'z ist_scheme"
  assumes tx: "txn s {} (j + 5)" and m: "meta_ok s" and ip: "ip < length (inodes s)" and f: "file_ok s (inodes s ! ip)"
    and n: "unat w = n" "n < MAXFILE" and fr: "2 \<le> card (frees s)"
  obtains a t where "bmap ip w s = Ok a t" "a \<noteq> 0" "txn t {} j" "extends (unat ` (set (drop NDIRECT (i_addrs (inodes t ! ip))))) s t" "remapped s ip t"
    "fblk (blk t) (inodes t ! ip) n = a" "card (frees s) - 2 \<le> card (frees t)"
proof (cases "n < NDIRECT")
  case True
  have tx2: "txn s {} (Suc (Suc (j + 3)))" using tx by (simp add: numeral_eq_Suc)
  obtain a t where t: "bmap_addr ip n s = Ok a t" "a \<noteq> 0" "txn t {} (j + 3)" "extends {} s t" "remapped s ip t"
    "i_addrs (inodes t ! ip) ! n = a" "card (frees s) - 1 \<le> card (frees t)"
    by (rule bmap_addr_ok [OF tx2 m ip f, of n]) (use True fr in auto)
  have "bmap ip w s = Ok a t" using t(1) n(1) True by (simp add: bmap_def word_less_nat_alt)
  then show ?thesis
    by (rule that [OF _ t(2) _ _ t(5)]) (use t(3,4,6,7) True in \<open>auto simp: fblk_def intro: txn_mono extends_mono\<close>)
next
  case False
  have tx2: "txn s {} (Suc (Suc (j + 3)))" using tx by (simp add: numeral_eq_Suc)
  obtain A t where t: "bmap_addr ip NDIRECT s = Ok A t" "A \<noteq> 0" "txn t {} (j + 3)" "extends {} s t" "remapped s ip t"
    "i_addrs (inodes t ! ip) ! NDIRECT = A" "card (frees s) - 1 \<le> card (frees t)"
    by (rule bmap_addr_ok [OF tx2 m ip f, of NDIRECT]) (use fr in auto)
  note rt = remappedD [OF t(5) ip]
  have ipt: "ip < length (inodes t)" using rt(1) ip by simp
  have tx3: "txn t {} (Suc (Suc (Suc j)))" using t(3) by (simp add: numeral_eq_Suc)
  have nn: "unat (w - of_nat NDIRECT) = n - NDIRECT" using n False by (subst unat_sub) (auto simp: word_le_nat_alt)
  obtain a u where u: "bindM (bread 1 A) (\<lambda>bp. bindM (bmap_entry 1 bp (n - NDIRECT)) (\<lambda>addr. thenM (brelse bp) (retM addr))) t = Ok a u"
    "a \<noteq> 0" "txn u {} j" "extends {unat A} t u" "remapped t ip u" "fblk (blk u) (inodes u ! ip) (NDIRECT + (n - NDIRECT)) = a"
    "card (frees t) - 1 \<le> card (frees u)"
    by (rule bmap_indirect_ok [OF tx3 extendsD(1) [OF t(4)] ipt rt(6) t(6,2), of "n - NDIRECT"]) (use n(2) False t(7) fr in auto)
  have dv: "i_dev (inodes s ! ip) = 1" using file_ok_len [OF f] by simp
  have "bmap ip w s = Ok a u"
    using t(1) u(1) n False dv nn by (simp add: bmap_def kcode word_less_nat_alt)
  moreover have "extends (unat ` set (drop NDIRECT (i_addrs (inodes u ! ip)))) s u"
  proof -
    have "i_addrs (inodes u ! ip) ! NDIRECT = A" using u(5) t(2,6) by (simp add: remapped_def)
    moreover have "length (i_addrs (inodes u ! ip)) = Suc NDIRECT" using remappedD(6) [OF u(5) ipt] by (simp add: file_ok_def)
    ultimately have "drop NDIRECT (i_addrs (inodes u ! ip)) = [A]" by (simp add: Cons_nth_drop_Suc [symmetric])
    then show ?thesis using extends_trans [OF t(4) u(4)] by simp
  qed
  ultimately show ?thesis
    using that [OF _ u(2,3) _ remapped_trans [OF t(5) u(5) ip t(4)]] u(6,7) t(7) False by simp
qed

end
