(* ===== verification/Ring.thy ===== *)
theory Ring
  imports Xv6_Prelude
begin

text \<open>
  Ring buffers as the console (INPUT_BUF) and pipes (PIPESIZE) use them: an
  array indexed by free-running 32-bit counters modulo its size, so that the
  counters may wrap around.  The interface of a byte queue is a locale; the
  console and the pipe interpret it on their own operations.
\<close>

section \<open>Windows of a ring buffer\<close>

text \<open>The \<open>n\<close> bytes from counter \<open>r\<close> on.\<close>

definition window :: "bytes \<Rightarrow> u32 \<Rightarrow> nat \<Rightarrow> bytes" where
  "window buf r n = map (\<lambda>k. buf ! (unat (r + of_nat k) mod length buf)) [0..<n]"

text \<open>Sizes for which the counters' wrap-around is harmless.\<close>

definition ring_size :: "nat \<Rightarrow> bool" where
  "ring_size N \<longleftrightarrow> 0 < N \<and> N dvd 2 ^ 32"

lemma length_window [simp]: "length (window buf r n) = n"
  by (simp add: window_def)

lemma nth_window: "k < n \<Longrightarrow> window buf r n ! k = buf ! (unat (r + of_nat k) mod length buf)"
  by (simp add: window_def)

lemma window_0 [simp]: "window buf r 0 = []"
  by (simp add: window_def)

lemma ring_size_less: "ring_size N \<Longrightarrow> N \<le> 2 ^ 32"
  by (auto simp: ring_size_def dvd_imp_le)

lemma unat_add_mod:
  assumes "ring_size N"
  shows "unat (r + of_nat k :: u32) mod N = (unat r + k) mod N"
proof -
  have "unat (r + of_nat k :: u32) = (unat r + k) mod 2 ^ 32"
    by (simp add: unat_word_ariths unat_of_nat mod_add_right_eq take_bit_eq_mod)
  then show ?thesis using assms by (simp add: ring_size_def mod_mod_cancel)
qed

lemma window_Suc: "window buf r (Suc n) = window buf r n @ [buf ! (unat (r + of_nat n) mod length buf)]"
  by (simp add: window_def)

lemma window_get: "window buf r (Suc n) = buf ! (unat r mod length buf) # window buf (r + 1) n"
proof (rule nth_equalityI)
  fix k assume "k < length (window buf r (Suc n))"
  then show "window buf r (Suc n) ! k = (buf ! (unat r mod length buf) # window buf (r + 1) n) ! k"
    by (cases k) (simp_all add: nth_window add.assoc)
qed simp

lemma window_append: "window buf r (m + n) = window buf r m @ window buf (r + of_nat m) n"
proof (rule nth_equalityI)
  fix k assume k: "k < length (window buf r (m + n))"
  show "window buf r (m + n) ! k = (window buf r m @ window buf (r + of_nat m) n) ! k"
  proof (cases "k < m")
    case True
    then show ?thesis using k by (simp add: nth_append nth_window)
  next
    case False
    then have "r + of_nat m + of_nat (k - m) = r + of_nat k" by (simp add: of_nat_diff)
    then show ?thesis using False k by (simp add: nth_append nth_window)
  qed
qed simp

text \<open>A slot that the window does not reach can be written.\<close>

lemma window_put_other:
  assumes rs: "ring_size (length buf)" and n: "n \<le> m" "m < length buf"
  shows "window (buf[unat (r + of_nat m) mod length buf := c]) r n = window buf r n"
proof (rule nth_equalityI)
  fix k assume "k < length (window (buf[unat (r + of_nat m) mod length buf := c]) r n)"
  then have k: "k < n" by simp
  have "(unat r + m) mod length buf \<noteq> (unat r + k) mod length buf"
  proof
    assume "(unat r + m) mod length buf = (unat r + k) mod length buf"
    then have "length buf dvd (unat r + m) - (unat r + k)" using k n by (intro mod_eq_dvd_iff_nat [THEN iffD1]) auto
    then have "length buf dvd m - k" by simp
    then show False using k n by (auto dest: dvd_imp_le)
  qed
  then show "window (buf[unat (r + of_nat m) mod length buf := c]) r n ! k = window buf r n ! k"
    using k by (simp add: nth_window unat_add_mod [OF rs])
qed simp

lemma window_put:
  assumes rs: "ring_size (length buf)" and n: "n < length buf"
  shows "window (buf[unat (r + of_nat n) mod length buf := c]) r (Suc n) = window buf r n @ [c]"
  using window_put_other [OF rs order_refl n] n rs by (simp add: window_Suc ring_size_def)

text \<open>Advancing the write and the read counter.\<close>

lemma unat_Suc: "unat (x :: u32) < n \<Longrightarrow> n < 2 ^ 32 \<Longrightarrow> unat (x + 1) = Suc (unat x)"
  by (simp add: unat_word_ariths)

lemma ring_put:
  assumes "ring_size (length buf)" "unat (w - r) < length buf" "length buf < 2 ^ 32"
  shows "unat (w + 1 - r) = Suc (unat (w - r))"
    "window (buf[unat w mod length buf := c]) r (Suc (unat (w - r))) = window buf r (unat (w - r)) @ [c]"
proof -
  have eq: "w + 1 - r = (w - r) + 1" by simp
  show "unat (w + 1 - r) = Suc (unat (w - r))" unfolding eq by (rule unat_Suc [OF assms(2,3)])
  have "r + of_nat (unat (w - r)) = w" by simp
  then show "window (buf[unat w mod length buf := c]) r (Suc (unat (w - r))) = window buf r (unat (w - r)) @ [c]"
    using window_put [OF assms(1,2), of r c] by (simp only:)
qed

lemma ring_get:
  assumes "w \<noteq> r"
  shows "unat (w - r) = Suc (unat (w - (r + 1)))"
    "window buf r (unat (w - r)) = buf ! (unat r mod length buf) # window buf (r + 1) (unat (w - (r + 1)))"
proof -
  obtain m where m: "unat (w - r) = Suc m" using assms by (cases "unat (w - r)") (auto simp: unat_eq_zero)
  have "w - r = of_nat (unat (w - r))" by simp
  then have "w - r = of_nat (Suc m)" unfolding m .
  then have "w - (r + 1) = of_nat m" by (simp add: algebra_simps)
  moreover have "Suc m < 2 ^ 32" unfolding m [symmetric] using unsigned_less [of "w - r", where ?'a = nat] by simp
  ultimately have u: "unat (w - (r + 1)) = m" by (simp add: unat_of_nat)
  then show "unat (w - r) = Suc (unat (w - (r + 1)))" using m by simp
  show "window buf r (unat (w - r)) = buf ! (unat r mod length buf) # window buf (r + 1) (unat (w - (r + 1)))"
    unfolding m u by (rule window_get)
qed

section \<open>Byte queues\<close>

text \<open>
  What a user of a bounded byte queue may rely on.  \<open>contents\<close> abstracts the
  implementation's state to the bytes queued, first in first; \<open>put\<close> is only
  used below the capacity, \<open>get\<close> only on a queue that is not empty.
\<close>

locale byte_queue =
  fixes invar :: "'q \<Rightarrow> bool"
    and contents :: "'q \<Rightarrow> bytes"
    and cap :: nat
    and put :: "u8 \<Rightarrow> 'q \<Rightarrow> 'q"
    and get :: "'q \<Rightarrow> u8 \<times> 'q"
  assumes invar_put: "invar q \<Longrightarrow> length (contents q) < cap \<Longrightarrow> invar (put c q)"
    and contents_put: "invar q \<Longrightarrow> length (contents q) < cap \<Longrightarrow> contents (put c q) = contents q @ [c]"
    and invar_get: "invar q \<Longrightarrow> contents q \<noteq> [] \<Longrightarrow> invar (snd (get q))"
    and contents_get: "invar q \<Longrightarrow> contents q \<noteq> [] \<Longrightarrow> contents q = fst (get q) # contents (snd (get q))"
    and bounded: "invar q \<Longrightarrow> length (contents q) \<le> cap"
begin

text \<open>Queueing a string, and taking \<open>n\<close> bytes.\<close>

fun put_all :: "bytes \<Rightarrow> 'q \<Rightarrow> 'q" where
  "put_all [] q = q"
| "put_all (c # cs) q = put_all cs (put c q)"

fun get_n :: "nat \<Rightarrow> 'q \<Rightarrow> bytes \<times> 'q" where
  "get_n 0 q = ([], q)"
| "get_n (Suc n) q = (case get q of (c, q') \<Rightarrow> case get_n n q' of (cs, q'') \<Rightarrow> (c # cs, q''))"

lemma put_all_ok:
  "invar q \<Longrightarrow> length (contents q) + length cs \<le> cap \<Longrightarrow> invar (put_all cs q) \<and> contents (put_all cs q) = contents q @ cs"
proof (induction cs arbitrary: q)
  case (Cons c cs)
  then have "length (contents q) < cap" by simp
  then show ?case using Cons.IH [of "put c q"] Cons.prems invar_put [of q c] contents_put [of q c] by simp
qed simp

lemma get_n_ok:
  "invar q \<Longrightarrow> n \<le> length (contents q) \<Longrightarrow>
    fst (get_n n q) = take n (contents q) \<and> invar (snd (get_n n q)) \<and> contents (snd (get_n n q)) = drop n (contents q)"
proof (induction n arbitrary: q)
  case (Suc n)
  then have ne: "contents q \<noteq> []" by auto
  obtain c q' where g: "get q = (c, q')" by (cases "get q")
  then have "contents q = c # contents q'" "invar q'" using contents_get [OF Suc.prems(1) ne] invar_get [OF Suc.prems(1) ne] by auto
  then show ?case using Suc.IH [of q'] Suc.prems(2) g by (cases "get_n n q'") simp
qed simp

text \<open>First in, first out.\<close>

lemma fifo:
  assumes "invar q" "contents q = []" "length cs \<le> cap"
  shows "fst (get_n (length cs) (put_all cs q)) = cs"
  using put_all_ok [OF assms(1), of cs] get_n_ok [of "put_all cs q" "length cs"] assms by simp

end

end
