(* ===== verification/Console.thy ===== *)
theory Console
  imports Bmap Ring
begin

text \<open>
  console.c with uartputc() of uart.c and kbdgetc() of kbd.c: formatted kernel output,
  the CGA text screen and the serial port, the keyboard decoder, and the line
  discipline between the keyboard interrupt (consoleintr) and a reading
  process (consoleread).
\<close>

section \<open>State\<close>

text \<open>
  The CGA memory is \<open>crt\<close>, the cursor registers of the CRT controller are
  \<open>crtpos\<close>; \<open>uart_out\<close> lists the bytes sent to the serial port, the latest
  first; \<open>in_buf\<close>, \<open>in_r\<close>, \<open>in_w\<close> and \<open>in_e\<close> are \<open>struct input\<close>.  The device
  table holds the functions consoleinit() stores, named by their constructors.
\<close>

datatype devfn = Consoleread | Consolewrite

abbreviation (input) INPUT_BUF :: nat where "INPUT_BUF \<equiv> 128"
abbreviation (input) CONSOLE :: nat where "CONSOLE \<equiv> 1"
abbreviation (input) BACKSPACE :: int where "BACKSPACE \<equiv> 0x100"
abbreviation (input) CRTCELLS :: nat where "CRTCELLS \<equiv> 16384"

record cst = ist +
  cons_locking :: bool
  panicked :: bool
  crt :: "u16 list"
  crtpos :: u16
  uart :: bool
  uart_out :: bytes
  in_buf :: bytes
  in_r :: u32
  in_w :: u32
  in_e :: u32
  devsw :: "(devfn option \<times> devfn option) list"

section \<open>Output\<close>

definition uartputc :: "int \<Rightarrow> ('z cst_scheme, unit) kfun" where
  "uartputc c = bindM (getM uart) (\<lambda>u. whenM u (modM (\<lambda>s. s\<lparr>uart_out := of_int c # uart_out s\<rparr>)))"

text \<open>cgaputc(): the new cursor position and screen, before and after scrolling.\<close>

definition cga_advance :: "int \<Rightarrow> nat \<Rightarrow> u16 list \<Rightarrow> nat \<times> u16 list" where
  "cga_advance c pos scr =
     (if c = 10 then (pos + (80 - pos mod 80), scr)
      else if c = BACKSPACE then (if pos > 0 then pos - 1 else pos, scr)
      else (pos + 1, scr[pos := (of_int (c mod 256) OR 0x0700)]))"

definition cga_scroll :: "nat \<Rightarrow> u16 list \<Rightarrow> nat \<times> u16 list" where
  "cga_scroll pos scr =
     (if pos div 80 \<ge> 24
      then (pos - 80, patch (pos - 80) (replicate (24 * 80 - (pos - 80)) 0) (patch 0 (take (23 * 80) (drop 80 scr)) scr))
      else (pos, scr))"

definition cgaputc :: "int \<Rightarrow> ('z cst_scheme, unit) kfun" where
  "cgaputc c =
     bindM (getM (\<lambda>s. unat (crtpos s))) (\<lambda>pos0.
     bindM (getM crt) (\<lambda>scr0.
     thenM (requireM (c = 10 \<or> c = BACKSPACE \<or> pos0 < CRTCELLS) ''write beyond the CGA memory'')
     (case cga_advance c pos0 scr0 of (pos1, scr1) \<Rightarrow>
       thenM (assertM (\<not> pos1 > 25 * 80) ''pos under/overflow'')
       (case cga_scroll pos1 scr1 of (pos, scr) \<Rightarrow>
         modM (\<lambda>s. s\<lparr>crtpos := of_nat pos, crt := scr[pos := 0x20 OR 0x0700]\<rparr>)))))"

definition consputc :: "int \<Rightarrow> ('z cst_scheme, unit) kfun" where
  "consputc c =
     bindM (getM panicked) (\<lambda>p.
     if p then spinM
     else thenM (if c = BACKSPACE then thenM (uartputc 8) (thenM (uartputc 0x20) (uartputc 8)) else uartputc c)
       (cgaputc c))"

text \<open>
  printint(): the digits of \<open>x\<close>, least significant first, as the do-while loop
  stores them in \<open>buf\<close>.  The kernel calls it with bases 10 and 16.
\<close>

definition digits :: "nat \<Rightarrow> u8" where
  "digits d = cbytes ''0123456789abcdef'' ! d"

function printint_digits :: "nat \<Rightarrow> nat \<Rightarrow> bytes" where
  "printint_digits base x =
     (if base < 2 then []
      else digits (x mod base) # (if x div base = 0 then [] else printint_digits base (x div base)))"
  by pat_completeness auto
termination
proof (relation "measure snd")
  fix base x :: nat
  assume "\<not> base < 2" "x div base \<noteq> 0"
  then have "1 < base" "0 < x" by (auto intro: gr0I)
  then show "((base, x div base), base, x) \<in> measure snd" by (simp add: div_less_dividend)
qed simp

declare printint_digits.simps [simp del]

definition printint_buf :: "u32 \<Rightarrow> nat \<Rightarrow> bool \<Rightarrow> bytes" where
  "printint_buf xx base sign =
     (if sign \<and> sint xx < 0 then printint_digits base (unat (- xx)) @ [0x2D]
      else printint_digits base (unat xx))"

definition printint :: "u32 \<Rightarrow> nat \<Rightarrow> bool \<Rightarrow> ('z cst_scheme, unit) kfun" where
  "printint xx base sign = foreachM (rev (printint_buf xx base sign)) (\<lambda>b. consputc (sint b))"

text \<open>
  cprintf(): the arguments are words; for \<open>%s\<close> a word is the address of a string,
  here the string itself (\<open>None\<close> for a null pointer).  Reading more
  arguments than were passed is undefined.
\<close>

datatype carg = Cint u32 | Cstr "bytes option"

definition next_int :: "carg list \<Rightarrow> ('s, u32 \<times> carg list) kfun" where
  "next_int as = (case as of Cint x # r \<Rightarrow> retM (x, r) | _ \<Rightarrow> faultM ''cprintf argument'')"

definition next_str :: "carg list \<Rightarrow> ('s, bytes \<times> carg list) kfun" where
  "next_str as = (case as of Cstr (Some x) # r \<Rightarrow> retM (x, r) | Cstr None # r \<Rightarrow> retM (cbytes ''(null)'', r)
     | _ \<Rightarrow> faultM ''cprintf argument'')"

fun cprintf_loop :: "bytes \<Rightarrow> carg list \<Rightarrow> ('z cst_scheme, unit) kfun" where
  "cprintf_loop [] as = skipM"
| "cprintf_loop [c] as = (if c = 0x25 then skipM else consputc (uint c))"
| "cprintf_loop (c # d # fmt) as =
     (if c \<noteq> 0x25 then thenM (consputc (uint c)) (cprintf_loop (d # fmt) as)
      else if d = 0x64 then
        bindM (next_int as) (\<lambda>(x, as'). thenM (printint x 10 True) (cprintf_loop fmt as'))
      else if d = 0x78 \<or> d = 0x70 then
        bindM (next_int as) (\<lambda>(x, as'). thenM (printint x 16 False) (cprintf_loop fmt as'))
      else if d = 0x73 then
        bindM (next_str as) (\<lambda>(x, as'). thenM (foreachM x (\<lambda>b. consputc (sint b))) (cprintf_loop fmt as'))
      else if d = 0x25 then thenM (consputc 0x25) (cprintf_loop fmt as)
      else thenM (consputc 0x25) (thenM (consputc (uint d)) (cprintf_loop fmt as)))"

definition cprintf :: "bytes option \<Rightarrow> carg list \<Rightarrow> ('z cst_scheme, unit) kfun" where
  "cprintf fmt as =
     bindM (getM cons_locking) (\<lambda>locking.
     thenM (whenM locking (acquire L_cons))
     (case fmt of None \<Rightarrow> panicM ''null fmt''
      | Some f \<Rightarrow> thenM (cprintf_loop f as) (whenM locking (release L_cons))))"

section \<open>Input\<close>

text \<open>\<open>input.buf[input.e++ % INPUT_BUF] = c\<close> and \<open>c = input.buf[input.r++ % INPUT_BUF]\<close>.\<close>

definition cons_put :: "u8 \<Rightarrow> 'z cst_scheme \<Rightarrow> 'z cst_scheme" where
  "cons_put c s = s\<lparr>in_buf := (in_buf s)[unat (in_e s) mod INPUT_BUF := c], in_e := in_e s + 1\<rparr>"

definition cons_get :: "'z cst_scheme \<Rightarrow> u8 \<times> 'z cst_scheme" where
  "cons_get s = (in_buf s ! (unat (in_r s) mod INPUT_BUF), s\<lparr>in_r := in_r s + 1\<rparr>)"

text \<open>The kill-line loop of consoleintr().\<close>

fun kill_line :: "nat \<Rightarrow> ('z cst_scheme, unit) kfun" where
  "kill_line 0 = spinM"
| "kill_line (Suc n) =
     bindM (getM (\<lambda>s. in_e s \<noteq> in_w s \<and> in_buf s ! (unat (in_e s - 1) mod INPUT_BUF) \<noteq> 10)) (\<lambda>more.
     if more then
       thenM (modM (\<lambda>s. s\<lparr>in_e := in_e s - 1\<rparr>))
       (thenM (consputc BACKSPACE)
       (kill_line n))
     else skipM)"

text \<open>One turn of the loop of consoleintr(), for a key \<open>c\<close>.\<close>

definition consoleintr_key :: "int \<Rightarrow> ('z cst_scheme, unit) kfun" where
  "consoleintr_key c =
     (if c = 0x10 then skipM
      else if c = 0x15 then kill_line (Suc INPUT_BUF)
      else if c = 0x08 \<or> c = 0x7f then
        bindM (getM (\<lambda>s. in_e s \<noteq> in_w s)) (\<lambda>ne.
        whenM ne (thenM (modM (\<lambda>s. s\<lparr>in_e := in_e s - 1\<rparr>)) (consputc BACKSPACE)))
      else bindM (getM (\<lambda>s. in_e s - in_r s < of_nat INPUT_BUF)) (\<lambda>room.
        whenM (c \<noteq> 0 \<and> room)
          (let c = (if c = 13 then 10 else c) in
           thenM (modM (cons_put (of_int c)))
           (thenM (consputc c)
           (bindM (getM (\<lambda>s. in_e s = in_r s + of_nat INPUT_BUF)) (\<lambda>full.
            whenM (c = 10 \<or> c = 4 \<or> full)
              (thenM (modM (\<lambda>s. s\<lparr>in_w := in_e s\<rparr>))
              (wakeup Ch_input))))))))"

text \<open>
  consoleintr(): \<open>keys\<close> are the values its \<open>getc\<close> returns until the negative
  one.  The result says whether procdump() is called afterwards (it prints the process table).
\<close>

definition consoleintr :: "int list \<Rightarrow> ('z cst_scheme, bool) kfun" where
  "consoleintr keys =
     thenM (acquire L_cons)
     (thenM (foreachM (takeWhile (\<lambda>c. 0 \<le> c) keys) consoleintr_key)
     (thenM (release L_cons)
     (retM (0x10 \<in> set (takeWhile (\<lambda>c. 0 \<le> c) keys)))))"

text \<open>
  consoleread(): \<open>acc\<close> are the bytes stored at \<open>dst\<close> so far and \<open>n\<close> what is left
  of \<open>target\<close>.  When the input is empty the process sleeps, and on waking
  continues with consoleread_loop at the same arguments.
\<close>

function consoleread_loop :: "nat \<Rightarrow> bytes \<Rightarrow> int \<Rightarrow> int \<Rightarrow> ('z cst_scheme, int \<times> bytes) kfun" where
  "consoleread_loop ip acc n target =
     (if n > 0 then
        bindM (getM (\<lambda>s. in_r s = in_w s)) (\<lambda>none.
        if none then
          bindM curproc (\<lambda>p.
          bindM (getM (\<lambda>s. killed (procs s ! p))) (\<lambda>k.
          if k then thenM (release L_cons) (thenM (ilock ip) (retM (-1, acc)))
          else thenM (sleep Ch_input (Some L_cons)) (retM (0, acc))))
        else
          bindM (getM (\<lambda>s. fst (cons_get s))) (\<lambda>c.
          thenM (modM (\<lambda>s. snd (cons_get s)))
          (if c = 4 then
             thenM (whenM (n < target) (modM (\<lambda>s. s\<lparr>in_r := in_r s - 1\<rparr>)))
             (thenM (release L_cons) (thenM (ilock ip) (retM (target - n, acc))))
           else if c = 10 then
             thenM (release L_cons) (thenM (ilock ip) (retM (target - (n - 1), acc @ [c])))
           else consoleread_loop ip (acc @ [c]) (n - 1) target)))
      else thenM (release L_cons) (thenM (ilock ip) (retM (target - n, acc))))"
  by pat_completeness auto
termination by (relation "measure (\<lambda>(ip, acc, n, target). nat n)") auto

declare consoleread_loop.simps [simp del]

definition consoleread :: "nat \<Rightarrow> int \<Rightarrow> ('z cst_scheme, int \<times> bytes) kfun" where
  "consoleread ip n =
     thenM (iunlock ip)
     (thenM (acquire L_cons)
     (consoleread_loop ip [] n n))"

definition consolewrite :: "nat \<Rightarrow> bytes \<Rightarrow> int \<Rightarrow> ('z cst_scheme, int) kfun" where
  "consolewrite ip buf n =
     thenM (iunlock ip)
     (thenM (acquire L_cons)
     (thenM (foreachM [0..<nat n] (\<lambda>i. consputc (uint (buf ! i))))
     (thenM (release L_cons)
     (thenM (ilock ip)
     (retM n)))))"

definition consoleinit :: "('z cst_scheme, unit) kfun" where
  "consoleinit = modM (\<lambda>s. s\<lparr>devsw := (devsw s)[CONSOLE := (Some Consoleread, Some Consolewrite)], cons_locking := True\<rparr>)"

section \<open>The screen\<close>

text \<open>The cursor is in the first 24 rows, and no CPU has panicked.\<close>

definition crt_ok :: "'z cst_scheme \<Rightarrow> bool" where
  "crt_ok s \<longleftrightarrow> length (crt s) = CRTCELLS \<and> unat (crtpos s) < 24 * 80 \<and> \<not> panicked s"

text \<open>What output changes.\<close>

definition out_only :: "'z cst_scheme \<Rightarrow> 'z cst_scheme \<Rightarrow> bool" where
  "out_only s t \<longleftrightarrow> (\<exists>a b c. t = s\<lparr>crt := a, crtpos := b, uart_out := c\<rparr>)"

lemma out_onlyI:
  "out_only s (s\<lparr>crt := a, crtpos := b, uart_out := c\<rparr>)" "out_only s (s\<lparr>crtpos := b, crt := a\<rparr>)"
  "out_only s (s\<lparr>uart_out := c\<rparr>)"
proof -
  show "out_only s (s\<lparr>crt := a, crtpos := b, uart_out := c\<rparr>)" unfolding out_only_def by blast
  show "out_only s (s\<lparr>crtpos := b, crt := a\<rparr>)" unfolding out_only_def
    by (rule exI [of _ a], rule exI [of _ b], rule exI [of _ "uart_out s"]) simp
  show "out_only s (s\<lparr>uart_out := c\<rparr>)" unfolding out_only_def
    by (rule exI [of _ "crt s"], rule exI [of _ "crtpos s"], rule exI [of _ c]) simp
qed

lemma out_only_refl [simp]: "out_only s s"
  using out_onlyI(3) [where s = s and c = "uart_out s"] by simp

lemma out_only_trans:
  assumes "out_only s t" "out_only t u"
  shows "out_only s u"
proof -
  obtain a b c a' b' c' where "t = s\<lparr>crt := a, crtpos := b, uart_out := c\<rparr>" "u = t\<lparr>crt := a', crtpos := b', uart_out := c'\<rparr>"
    using assms unfolding out_only_def by blast
  then have "u = s\<lparr>crt := a', crtpos := b', uart_out := c'\<rparr>" by simp
  then show ?thesis by (simp only: out_onlyI)
qed

lemma out_onlyD:
  assumes "out_only s t"
  shows "in_buf t = in_buf s" "in_r t = in_r s" "in_w t = in_w s" "in_e t = in_e s" "held t = held s" "procs t = procs s"
    "cur t = cur s" "slks t = slks s" "inodes t = inodes s" "panicked t = panicked s"
  using assms by (auto simp: out_only_def)

definition screen_row :: "u16 list \<Rightarrow> nat \<Rightarrow> u16 list" where
  "screen_row scr r = take 80 (drop (80 * r) scr)"

lemma cga_advance_pos:
  assumes "pos < 24 * 80"
  shows "fst (cga_advance c pos scr) \<le> 24 * 80"
proof -
  have "pos mod 80 < 80" by simp
  then have "pos + (80 - pos mod 80) = 80 * (pos div 80) + 80" using mult_div_mod_eq [of 80 pos] by linarith
  then show ?thesis using assms by (auto simp: cga_advance_def)
qed

lemma length_cga: "length (snd (cga_advance c pos scr)) = length scr"
  by (simp add: cga_advance_def)

lemma cga_scroll_ok:
  assumes "pos \<le> 24 * 80" "length scr = CRTCELLS"
  shows "fst (cga_scroll pos scr) < 24 * 80" "length (snd (cga_scroll pos scr)) = CRTCELLS"
    "pos = 24 * 80 \<Longrightarrow> fst (cga_scroll pos scr) = 23 * 80 \<and>
       (\<forall>r < 23. screen_row (snd (cga_scroll pos scr)) r = screen_row scr (Suc r))"
    "pos < 24 * 80 \<Longrightarrow> cga_scroll pos scr = (pos, scr)"
proof -
  let ?up = "patch 0 (take (23 * 80) (drop 80 scr)) scr"
  have lu: "length ?up = CRTCELLS" using assms(2) by simp
  have "pos < 24 * 80 \<Longrightarrow> pos div 80 < 24" by (simp add: div_less_iff_less_mult)
  then show "pos < 24 * 80 \<Longrightarrow> cga_scroll pos scr = (pos, scr)" by (auto simp: cga_scroll_def)
  show "fst (cga_scroll pos scr) < 24 * 80" using assms(1) by (auto simp: cga_scroll_def)
  show "length (snd (cga_scroll pos scr)) = CRTCELLS" using assms by (auto simp: cga_scroll_def)
  assume pos: "pos = 24 * 80"
  let ?new = "patch (23 * 80) (replicate 80 0) ?up"
  have "screen_row ?new r = screen_row scr (Suc r)" if "r < 23" for r
  proof (rule nth_equalityI)
    show l: "length (screen_row ?new r) = length (screen_row scr (Suc r))" using assms(2) that by (simp add: screen_row_def)
    fix i assume "i < length (screen_row ?new r)"
    then have i: "i < 80" by (simp add: screen_row_def)
    then show "screen_row ?new r ! i = screen_row scr (Suc r) ! i"
      using that assms(2) lu by (simp add: screen_row_def nth_patch add.assoc)
  qed
  then show "fst (cga_scroll pos scr) = 23 * 80 \<and>
       (\<forall>r < 23. screen_row (snd (cga_scroll pos scr)) r = screen_row scr (Suc r))"
    by (simp add: cga_scroll_def pos)
qed

lemma cgaputc_ok:
  assumes "crt_ok s"
  obtains t where "cgaputc c s = Ok () t" "crt_ok t" "out_only s t"
proof -
  define a where "a = cga_advance c (unat (crtpos s)) (crt s)"
  define b where "b = cga_scroll (fst a) (snd a)"
  have p: "unat (crtpos s) < 24 * 80" "length (crt s) = CRTCELLS" using assms by (simp_all add: crt_ok_def)
  have fa: "fst a \<le> 24 * 80" "length (snd a) = CRTCELLS"
    unfolding a_def using cga_advance_pos [OF p(1)] length_cga [of c] p(2) by auto
  note fb = cga_scroll_ok(1,2) [OF fa, folded b_def]
  let ?t = "s\<lparr>crtpos := of_nat (fst b), crt := (snd b)[fst b := 0x20 OR 0x0700]\<rparr>"
  have "cgaputc c s = Ok () ?t"
    using p(1) fa(1) unfolding cgaputc_def
    by (simp add: kcode a_def [symmetric] b_def case_prod_beta)
  moreover have "crt_ok ?t" using assms fb by (simp add: crt_ok_def unat_of_nat)
  ultimately show ?thesis using that out_onlyI(2) by blast
qed

lemma uartputc_ok:
  assumes "crt_ok s"
  obtains t where "uartputc c s = Ok () t" "crt_ok t" "out_only s t"
proof (cases "uart s")
  case True
  then show ?thesis
    by (intro that [of "s\<lparr>uart_out := of_int c # uart_out s\<rparr>"] out_onlyI) (use assms in \<open>auto simp: uartputc_def kcode crt_ok_def\<close>)
next
  case False
  then show ?thesis by (intro that [of s]) (use assms in \<open>auto simp: uartputc_def kcode\<close>)
qed

lemma consputc_ok:
  assumes ok: "crt_ok s"
  obtains t where "consputc c s = Ok () t" "crt_ok t" "out_only s t"
proof -
  obtain a where a: "uartputc 8 s = Ok () a" "crt_ok a" "out_only s a" using uartputc_ok [OF ok] by blast
  obtain b where b: "uartputc 0x20 a = Ok () b" "crt_ok b" "out_only a b" using uartputc_ok [OF a(2)] by blast
  obtain d where d: "uartputc 8 b = Ok () d" "crt_ok d" "out_only b d" using uartputc_ok [OF b(2)] by blast
  obtain e where e: "uartputc c s = Ok () e" "crt_ok e" "out_only s e" using uartputc_ok [OF ok] by blast
  define u where "u = (if c = BACKSPACE then d else e)"
  have u: "crt_ok u" "out_only s u" using d e out_only_trans [OF out_only_trans [OF a(3) b(3)] d(3)] by (simp_all add: u_def)
  obtain t where t: "cgaputc c u = Ok () t" "crt_ok t" "out_only u t" using cgaputc_ok [OF u(1)] by blast
  have np: "\<not> panicked s" using ok by (simp add: crt_ok_def)
  have "consputc c s = Ok () t"
    using t(1) a(1) b(1) d(1) e(1) np by (auto simp: consputc_def kcode u_def)
  then show ?thesis using that t(2) out_only_trans [OF u(2) t(3)] by blast
qed

section \<open>The line discipline\<close>

text \<open>
  The input buffer as a byte queue: all bytes between the read and the edit
  index.  Storing at the edit index and taking at the read index are the
  queue's operations.
\<close>

definition cons_queue_ok :: "'z cst_scheme \<Rightarrow> bool" where
  "cons_queue_ok s \<longleftrightarrow> length (in_buf s) = INPUT_BUF \<and> unat (in_e s - in_r s) \<le> INPUT_BUF"

definition cons_queue :: "'z cst_scheme \<Rightarrow> bytes" where
  "cons_queue s = window (in_buf s) (in_r s) (unat (in_e s - in_r s))"

lemma ring_128: "ring_size 128"
  by (simp add: ring_size_def)

interpretation cq: byte_queue cons_queue_ok cons_queue INPUT_BUF cons_put cons_get
proof
  fix s :: "'a cst_scheme" and c :: u8
  assume ok: "cons_queue_ok s"
  have l: "length (in_buf s) = INPUT_BUF" "ring_size (length (in_buf s))" using ok ring_128 by (simp_all add: cons_queue_ok_def)
  show "length (cons_queue s) \<le> INPUT_BUF" using ok by (simp add: cons_queue_ok_def cons_queue_def)
  {
    assume "length (cons_queue s) < INPUT_BUF"
    then have n: "unat (in_e s - in_r s) < length (in_buf s)" by (simp add: cons_queue_def l(1))
    note p = ring_put [OF l(2) n]
    show "cons_queue_ok (cons_put c s)" using p(1) n by (simp add: cons_queue_ok_def cons_put_def l(1))
    show "cons_queue (cons_put c s) = cons_queue s @ [c]" using p by (simp add: cons_queue_def cons_put_def l(1))
  }
  assume "cons_queue s \<noteq> []"
  then have "in_e s \<noteq> in_r s" by (auto simp: cons_queue_def)
  note g = ring_get [OF this]
  show "cons_queue_ok (snd (cons_get s))" using l(1) g(1) ok by (simp add: cons_queue_ok_def cons_get_def)
  show "cons_queue s = fst (cons_get s) # cons_queue (snd (cons_get s))" using g(2) l(1) by (simp add: cons_queue_def cons_get_def)
qed

text \<open>
  The abstract line editor: \<open>(q, l)\<close> are the bytes a reader may take and the
  line being typed.
\<close>

definition edit_key :: "int \<Rightarrow> bytes \<times> bytes \<Rightarrow> bytes \<times> bytes" where
  "edit_key c = (\<lambda>(q, l).
     if c = 0x10 then (q, l)
     else if c = 0x15 then (q, [])
     else if c = 0x08 \<or> c = 0x7f then (q, butlast l)
     else if c \<noteq> 0 \<and> length q + length l < INPUT_BUF then
       (let c = (if c = 13 then 10 else c); l' = l @ [of_int c] in
        if c = 10 \<or> c = 4 \<or> length q + length l' = INPUT_BUF then (q @ l', []) else (q, l'))
     else (q, l))"

text \<open>The state of the input buffer that is such a pair.\<close>

definition input_ok :: "'z cst_scheme \<Rightarrow> bool" where
  "input_ok s \<longleftrightarrow> length (in_buf s) = INPUT_BUF \<and> unat (in_w s - in_r s) + unat (in_e s - in_w s) \<le> INPUT_BUF
     \<and> 10 \<notin> set (window (in_buf s) (in_w s) (unat (in_e s - in_w s)))"

definition ready :: "'z cst_scheme \<Rightarrow> bytes" where
  "ready s = window (in_buf s) (in_r s) (unat (in_w s - in_r s))"

definition typing :: "'z cst_scheme \<Rightarrow> bytes" where
  "typing s = window (in_buf s) (in_w s) (unat (in_e s - in_w s))"

text \<open>Interrupt handlers may take the console and the process table locks.\<close>

definition cons_ok :: "'z cst_scheme \<Rightarrow> bool" where
  "cons_ok s \<longleftrightarrow> crt_ok s \<and> input_ok s \<and> length (procs s) = NPROC \<and> L_ptable \<notin> set (held s)"

lemma input_span:
  assumes "input_ok s"
  shows "unat (in_e s - in_r s) = unat (in_w s - in_r s) + unat (in_e s - in_w s)" "cons_queue_ok s"
    "cons_queue s = ready s @ typing s"
proof -
  have eq: "in_e s - in_r s = (in_w s - in_r s) + (in_e s - in_w s)" by simp
  have "unat (in_w s - in_r s) + unat (in_e s - in_w s) < 2 ^ 32" using assms by (simp add: input_ok_def)
  then show u: "unat (in_e s - in_r s) = unat (in_w s - in_r s) + unat (in_e s - in_w s)"
    unfolding eq by (subst unat_word_ariths) simp
  then show "cons_queue_ok s" using assms by (simp add: cons_queue_ok_def input_ok_def)
  show "cons_queue s = ready s @ typing s"
    using window_append [of "in_buf s" "in_r s" "unat (in_w s - in_r s)" "unat (in_e s - in_w s)"]
    by (simp add: cons_queue_def ready_def typing_def u)
qed

lemma input_len: "length (ready s) = unat (in_w s - in_r s)" "length (typing s) = unat (in_e s - in_w s)"
  by (simp_all add: ready_def typing_def)

text \<open>Rubbing out the last byte typed.\<close>

lemma rubout:
  assumes ok: "input_ok s" and ne: "in_e s \<noteq> in_w s"
  defines "t \<equiv> s\<lparr>in_e := in_e s - 1\<rparr>"
  shows "input_ok t" "ready t = ready s" "typing t = butlast (typing s)" "length (typing s) = Suc (length (typing t))"
    "in_buf s ! (unat (in_e s - 1) mod INPUT_BUF) \<noteq> 10"
proof -
  define n where "n = unat (in_e s - in_w s)"
  have "n \<noteq> 0" using ne by (simp add: n_def unat_eq_zero)
  then obtain m where m: "n = Suc m" by (cases n) auto
  have e: "in_e s = in_w s + of_nat n" by (simp add: n_def)
  have "in_e s - 1 - in_w s = of_nat m" using e m by simp
  moreover have "m < 2 ^ 32" using ok m by (simp add: input_ok_def n_def)
  ultimately have u: "unat (in_e s - 1 - in_w s) = m" by (simp add: unat_of_nat)
  have l: "length (in_buf s) = INPUT_BUF" using ok by (simp add: input_ok_def)
  have w: "typing s = window (in_buf s) (in_w s) m @ [in_buf s ! (unat (in_e s - 1) mod INPUT_BUF)]"
  proof -
    have "in_w s + of_nat m = in_e s - 1" using e m by simp
    then show ?thesis using window_Suc [of "in_buf s" "in_w s" m] m l by (simp add: typing_def n_def)
  qed
  then show "typing t = butlast (typing s)" "length (typing s) = Suc (length (typing t))"
    using u by (simp_all add: t_def typing_def)
  show "in_buf s ! (unat (in_e s - 1) mod INPUT_BUF) \<noteq> 10" using ok w by (auto simp: input_ok_def typing_def [symmetric])
  show "ready t = ready s" by (simp add: ready_def t_def)
  show "input_ok t" using ok w u m by (auto simp: input_ok_def t_def n_def [symmetric] window_Suc)
qed

lemma input_out_only:
  assumes "out_only s t"
  shows "input_ok t = input_ok s" "ready t = ready s" "typing t = typing s" "crt_ok t \<Longrightarrow> cons_ok s \<Longrightarrow> cons_ok t"
  using out_onlyD [OF assms] by (simp_all add: input_ok_def ready_def typing_def cons_ok_def)

text \<open>What the keyboard handler changes besides the input buffer: the screen, and it may wake readers.\<close>

definition key_frame :: "'z cst_scheme \<Rightarrow> 'z cst_scheme \<Rightarrow> bool" where
  "key_frame s t \<longleftrightarrow> held t = held s \<and> cur t = cur s \<and> slks t = slks s \<and> inodes t = inodes s
     \<and> (procs t = procs s \<or> procs t = map (wake Ch_input) (procs s)) \<and> in_r t = in_r s"

lemma key_frame_refl [simp]: "key_frame s s"
  by (simp add: key_frame_def)

lemma wake_wake [simp]: "map (wake ch) (map (wake ch) ps) = map (wake ch) ps"
  by (simp add: wake_def)

lemma key_frame_trans: "key_frame s t \<Longrightarrow> key_frame t u \<Longrightarrow> key_frame s u"
  by (auto simp: key_frame_def simp del: map_map)

lemma out_only_key: "out_only s t \<Longrightarrow> key_frame s t"
  using out_onlyD [of s t] by (simp add: key_frame_def)

text \<open>The kill-line loop empties the line.\<close>

lemma kill_line_ok:
  assumes "cons_ok s" "length (typing s) < n"
  shows "\<exists>t. kill_line n s = Ok () t \<and> cons_ok t \<and> ready t = ready s \<and> typing t = [] \<and> key_frame s t"
  using assms
proof (induction n arbitrary: s)
  case (Suc n)
  have io: "input_ok s" using Suc.prems by (simp add: cons_ok_def)
  show ?case
  proof (cases "in_e s = in_w s")
    case True
    then show ?thesis using Suc.prems by (intro exI [of _ s]) (simp add: kcode typing_def)
  next
    case False
    let ?s = "s\<lparr>in_e := in_e s - 1\<rparr>"
    note r = rubout [OF io False]
    have "crt_ok ?s" using Suc.prems by (simp add: cons_ok_def crt_ok_def)
    then obtain u where u: "consputc BACKSPACE ?s = Ok () u" "crt_ok u" "out_only ?s u" by (rule consputc_ok)
    note iu = input_out_only [OF u(3)]
    have "cons_ok u" using iu(1) r(1) u(2) out_onlyD [OF u(3)] Suc.prems by (simp add: cons_ok_def)
    moreover have "length (typing u) < n" using iu(3) r(4) Suc.prems(2) by simp
    ultimately obtain t where t: "kill_line n u = Ok () t" "cons_ok t" "ready t = ready u" "typing t = []" "key_frame u t"
      using Suc.IH by blast
    have "key_frame s u" using out_onlyD [OF u(3)] by (simp add: key_frame_def)
    then show ?thesis
      using t u(1) False r(2,5) iu(2) key_frame_trans by (intro exI [of _ t]) (simp add: kcode)
  qed
qed simp

text \<open>Storing a key.\<close>

lemma put_key:
  fixes s :: "'z cst_scheme" and c :: u8
  assumes ok: "input_ok s" and room: "length (ready s) + length (typing s) < INPUT_BUF"
  defines "t \<equiv> cons_put c s"
  shows "ready t = ready s" "typing t = typing s @ [c]" "length (in_buf t) = INPUT_BUF" "in_w t = in_w s" "in_r t = in_r s"
    "unat (in_e t - in_w t) = Suc (unat (in_e s - in_w s))" "in_e t = in_r t + of_nat (Suc (length (ready s) + length (typing s)))"
proof -
  note sp = input_span [OF ok] and il = input_len [of s]
  have l: "length (in_buf s) = INPUT_BUF" "ring_size (length (in_buf s))" using ok ring_128 by (simp_all add: input_ok_def)
  have e: "in_e s = in_r s + of_nat (unat (in_w s - in_r s) + unat (in_e s - in_w s))" by simp
  have e2: "in_e s = in_w s + of_nat (unat (in_e s - in_w s))" by simp
  have eq: "in_e s + 1 - in_w s = (in_e s - in_w s) + 1" by simp
  show u: "unat (in_e t - in_w t) = Suc (unat (in_e s - in_w s))"
    using unat_Suc [of "in_e s - in_w s" INPUT_BUF] room il by (simp add: t_def cons_put_def eq)
  show "ready t = ready s"
    using window_put_other [OF l(2), of "unat (in_w s - in_r s)" "unat (in_w s - in_r s) + unat (in_e s - in_w s)" "in_r s" c, folded e]
      room il l(1) by (simp add: ready_def t_def cons_put_def)
  show "typing t = typing s @ [c]"
    using window_put [OF l(2), of "unat (in_e s - in_w s)" "in_w s" c, folded e2] room il l(1) u
    by (simp add: typing_def t_def cons_put_def)
  show "in_e t = in_r t + of_nat (Suc (length (ready s) + length (typing s)))"
    using e il by (simp add: t_def cons_put_def)
qed (use ok in \<open>auto simp: t_def cons_put_def input_ok_def\<close>)

lemma of_int_u8: "0 \<le> c \<Longrightarrow> c < 256 \<Longrightarrow> 0 \<le> d \<Longrightarrow> d < 256 \<Longrightarrow> (of_int c :: u8) = of_int d \<longleftrightarrow> c = d"
  by (auto simp: word_of_int_eq_iff take_bit_eq_mod)

text \<open>After a key was stored and shown: commit the line or go on typing.\<close>

lemma commit_key:
  assumes c: "0 \<le> c" "c < 256" and sn: "n = length (ready s) + length (typing s)" "n < INPUT_BUF" and ok: "cons_ok s"
    and u: "out_only (cons_put (of_int c) s) u" "crt_ok u"
  defines "full \<equiv> in_e u = in_r u + of_nat INPUT_BUF"
  shows "\<exists>t. whenM (c = 10 \<or> c = 4 \<or> full) (thenM (modM (\<lambda>s. s\<lparr>in_w := in_e s\<rparr>)) (wakeup Ch_input)) u = Ok () t
    \<and> cons_ok t \<and> key_frame s t
    \<and> (ready t, typing t) = (if c = 10 \<or> c = 4 \<or> Suc n = INPUT_BUF then (ready s @ typing s @ [of_int c], []) else (ready s, typing s @ [of_int c]))"
proof -
  have io: "input_ok s" using ok by (simp add: cons_ok_def)
  note p = put_key [OF io, of "of_int c"] and ou = out_onlyD [OF u(1)] and iu = input_out_only(2,3) [OF u(1)]
  have room: "length (ready s) + length (typing s) < INPUT_BUF" using sn by simp
  note p = p [OF room]
  have hp: "procs u = procs s" "held u = held s" "cur u = cur s" "slks u = slks s" "inodes u = inodes s"
    using ou by (simp_all add: cons_put_def)
  have "(of_nat (Suc n) :: u32) = of_nat INPUT_BUF \<longleftrightarrow> Suc n = INPUT_BUF"
  proof
    assume "(of_nat (Suc n) :: u32) = of_nat INPUT_BUF"
    then have "unat (of_nat (Suc n) :: u32) = unat (of_nat INPUT_BUF :: u32)" by (rule arg_cong)
    then show "Suc n = INPUT_BUF" using sn(2) by (simp add: unat_of_nat del: of_nat_Suc)
  qed simp
  then have full: "full \<longleftrightarrow> Suc n = INPUT_BUF"
    using p(7) ou(2,4) sn(1) by (simp add: full_def del: of_nat_Suc of_nat_add)
  show ?thesis
  proof (cases "c = 10 \<or> c = 4 \<or> Suc n = INPUT_BUF")
    case True
    let ?t = "u\<lparr>in_w := in_e u, procs := map (wake Ch_input) (procs u)\<rparr>"
    have run: "whenM (c = 10 \<or> c = 4 \<or> full) (thenM (modM (\<lambda>s. s\<lparr>in_w := in_e s\<rparr>)) (wakeup Ch_input)) u = Ok () ?t"
      using True full ok hp by (simp add: kcode cons_ok_def wakeup_eq)
    have q: "unat (in_e u - in_r u) = Suc n"
      using p(7) ou(2,4) sn by (simp add: unat_of_nat del: of_nat_Suc of_nat_add)
    have bw: "ready ?t = window (in_buf u) (in_r u) (Suc n)" using q by (simp add: ready_def)
    also have "\<dots> = ready s @ typing s @ [of_int c]"
    proof -
      have a: "in_r u = in_r s" "in_w u = in_w s" "in_buf u = in_buf (cons_put (of_int c) s)" using ou p by simp_all
      have "Suc n = unat (in_w s - in_r s) + unat (in_e u - in_w u)" using p(6) sn input_len [of s] ou(3,4) by simp
      then have "window (in_buf u) (in_r u) (Suc n) = ready u @ typing u"
        using window_append [of "in_buf u" "in_r u" "unat (in_w s - in_r s)" "unat (in_e u - in_w u)"] a by (simp add: ready_def typing_def)
      then show ?thesis using iu p(1,2) by simp
    qed
    finally have "ready ?t = ready s @ typing s @ [of_int c]" .
    moreover have "typing ?t = []" by (simp add: typing_def)
    moreover have "cons_ok ?t" using ok u(2) hp q sn ou p(3) by (simp add: cons_ok_def crt_ok_def input_ok_def)
    moreover have "key_frame s ?t" using hp ou p(5) by (simp add: key_frame_def)
    ultimately show ?thesis using run True by (intro exI [of _ ?t]) simp
  next
    case False
    then have run: "whenM (c = 10 \<or> c = 4 \<or> full) (thenM (modM (\<lambda>s. s\<lparr>in_w := in_e s\<rparr>)) (wakeup Ch_input)) u = Ok () u"
      using full by (simp add: kcode)
    have tu: "ready u = ready s" "typing u = typing s @ [of_int c]" using iu p(1,2) by simp_all
    have "(of_int c :: u8) \<noteq> 10" using of_int_u8 [OF c, of 10] False by simp
    then have "10 \<notin> set (typing u)" using tu(2) io by (simp add: input_ok_def typing_def)
    moreover have "unat (in_w u - in_r u) + unat (in_e u - in_w u) \<le> INPUT_BUF"
      using p(4,5,6) ou sn input_len [of s] by simp
    ultimately have "input_ok u" using ou p(3) by (simp add: input_ok_def typing_def)
    then have "cons_ok u" using ok u(2) hp by (simp add: cons_ok_def)
    moreover have "key_frame s u" using hp ou p(5) by (simp add: key_frame_def)
    ultimately show ?thesis using run tu False by (intro exI [of _ u]) auto
  qed
qed

lemma consoleintr_key_ok:
  assumes ok: "cons_ok s" and c: "0 \<le> c" "c < 256"
  shows "\<exists>t. consoleintr_key c s = Ok () t \<and> cons_ok t \<and> key_frame s t \<and> (ready t, typing t) = edit_key c (ready s, typing s)"
proof -
  have io: "input_ok s" and co: "crt_ok s" using ok by (simp_all add: cons_ok_def)
  have lt: "length (ready s) + length (typing s) \<le> INPUT_BUF" using io by (simp add: input_ok_def input_len)
  consider "c = 0x10" | "c = 0x15" | "c = 0x08 \<or> c = 0x7f" | "c \<noteq> 0x10" "c \<noteq> 0x15" "c \<noteq> 0x08" "c \<noteq> 0x7f" by blast
  then show ?thesis
  proof cases
    case 1
    then show ?thesis using ok by (simp add: consoleintr_key_def kcode edit_key_def)
  next
    case 2
    have "length (typing s) < Suc INPUT_BUF" using lt by simp
    from kill_line_ok [OF ok this] 2 show ?thesis by (auto simp: consoleintr_key_def edit_key_def)
  next
    case 3
    show ?thesis
    proof (cases "in_e s = in_w s")
      case True
      then have "typing s = []" by (simp add: typing_def)
      then show ?thesis using 3 True ok by (auto simp: consoleintr_key_def kcode edit_key_def)
    next
      case False
      let ?s = "s\<lparr>in_e := in_e s - 1\<rparr>"
      note r = rubout [OF io False]
      have "crt_ok ?s" using co by (simp add: crt_ok_def)
      then obtain u where u: "consputc BACKSPACE ?s = Ok () u" "crt_ok u" "out_only ?s u" by (rule consputc_ok)
      note iu = input_out_only [OF u(3)]
      have "cons_ok u" using iu(1) r(1) u(2) out_onlyD [OF u(3)] ok by (simp add: cons_ok_def)
      moreover have "key_frame s u" using out_onlyD [OF u(3)] by (simp add: key_frame_def)
      ultimately show ?thesis using 3 u(1) iu(2,3) r(2,3) False
        by (intro exI [of _ u]) (auto simp: consoleintr_key_def kcode edit_key_def)
    qed
  next
    case 4
    define n where "n = length (ready s) + length (typing s)"
    have room: "in_e s - in_r s < of_nat INPUT_BUF \<longleftrightarrow> n < INPUT_BUF"
      using input_span(1) [OF io] by (simp add: word_less_nat_alt n_def input_len)
    show ?thesis
    proof (cases "c \<noteq> 0 \<and> n < INPUT_BUF")
      case False
      then show ?thesis using 4 ok room by (intro exI [of _ s]) (auto simp: consoleintr_key_def kcode edit_key_def n_def)
    next
      case True
      define c' where "c' = (if c = 13 then 10 else c)"
      have c': "0 \<le> c'" "c' < 256" using c by (auto simp: c'_def)
      have "crt_ok (cons_put (of_int c') s)" using co by (simp add: crt_ok_def cons_put_def)
      then obtain u where u: "consputc c' (cons_put (of_int c') s) = Ok () u" "crt_ok u" "out_only (cons_put (of_int c') s) u"
        by (rule consputc_ok)
      from commit_key [OF c' n_def _ ok u(3,2)] True obtain t where
        t: "whenM (c' = 10 \<or> c' = 4 \<or> in_e u = in_r u + of_nat INPUT_BUF) (thenM (modM (\<lambda>s. s\<lparr>in_w := in_e s\<rparr>)) (wakeup Ch_input)) u = Ok () t"
        "cons_ok t" "key_frame s t"
        "(ready t, typing t) = (if c' = 10 \<or> c' = 4 \<or> Suc n = INPUT_BUF then (ready s @ typing s @ [of_int c'], []) else (ready s, typing s @ [of_int c']))"
        by blast
      have run: "consoleintr_key c s = Ok () t"
        using 4 True room u(1) t(1) by (simp add: consoleintr_key_def kcode Let_def c'_def [symmetric])
      have "edit_key c (ready s, typing s)
          = (if c' = 10 \<or> c' = 4 \<or> Suc n = INPUT_BUF then (ready s @ typing s @ [of_int c'], []) else (ready s, typing s @ [of_int c']))"
        unfolding edit_key_def c'_def [symmetric] Let_def using 4 True n_def by simp
      then show ?thesis using run t by (intro exI [of _ t]) simp
    qed
  qed
qed

section \<open>Reading a line\<close>

text \<open>
  What a reader that wants \<open>n\<close> more bytes takes from the bytes ready: up to and
  including a newline, or up to a control-D, which is eaten only when it is
  the first byte; \<open>None\<close> when it has to wait.
\<close>

fun take_input :: "bytes \<Rightarrow> nat \<Rightarrow> bytes \<Rightarrow> (bytes \<times> bytes) option" where
  "take_input acc 0 q = Some (acc, q)"
| "take_input acc (Suc n) [] = None"
| "take_input acc (Suc n) (c # q) =
     (if c = 4 then Some (acc, if acc = [] then q else c # q)
      else if c = 10 then Some (acc @ [c], q)
      else take_input (acc @ [c]) n q)"

lemma take_one:
  assumes ok: "input_ok s" and ne: "in_r s \<noteq> in_w s"
  shows "ready s = fst (cons_get s) # ready (snd (cons_get s))" "input_ok (snd (cons_get s))"
    "typing (snd (cons_get s)) = typing s"
proof -
  define n where "n = unat (in_w s - in_r s)"
  have "n \<noteq> 0" using ne by (simp add: n_def unat_eq_zero)
  then obtain m where m: "n = Suc m" by (cases n) auto
  have w: "in_w s = in_r s + of_nat n" by (simp add: n_def)
  have "in_w s - (in_r s + 1) = of_nat m" using w m by simp
  then have u: "unat (in_w s - (in_r s + 1)) = m" using ok m by (simp add: unat_of_nat input_ok_def n_def)
  have l: "length (in_buf s) = INPUT_BUF" using ok by (simp add: input_ok_def)
  show "ready s = fst (cons_get s) # ready (snd (cons_get s))"
    using window_get [of "in_buf s" "in_r s" m] u m l by (simp add: ready_def cons_get_def n_def)
  show "input_ok (snd (cons_get s))" using ok u m by (simp add: input_ok_def cons_get_def n_def)
  show "typing (snd (cons_get s)) = typing s" by (simp add: typing_def cons_get_def)
qed

lemma ready_empty: "input_ok s \<Longrightarrow> ready s = [] \<longleftrightarrow> in_r s = in_w s"
  by (auto simp: ready_def unat_eq_zero simp flip: length_0_conv)

lemma consoleread_loop_ok:
  assumes "input_ok s" "0 \<le> n" "target = n + int (length acc)" "take_input acc (nat n) (ready s) = Some (line, rest)"
  shows "\<exists>r. consoleread_loop ip acc n target s
      = thenM (release L_cons) (thenM (ilock ip) (retM (int (length line), line))) (s\<lparr>in_r := r\<rparr>)
    \<and> input_ok (s\<lparr>in_r := r\<rparr>) \<and> ready (s\<lparr>in_r := r\<rparr>) = rest \<and> typing (s\<lparr>in_r := r\<rparr>) = typing s"
  using assms
proof (induction "nat n" arbitrary: n acc s)
  case 0
  then show ?case by (intro exI [of _ "in_r s"]) (simp add: consoleread_loop.simps [of ip _ 0])
next
  case (Suc m)
  have n: "n > 0" "nat n = Suc m" "m = nat (n - 1)" using Suc(2) by auto
  have ne: "in_r s \<noteq> in_w s"
  proof
    assume "in_r s = in_w s"
    then have "ready s = []" by (simp add: ready_def)
    then show False using Suc(6) n by simp
  qed
  define c where "c = fst (cons_get s)"
  let ?s = "s\<lparr>in_r := in_r s + 1\<rparr>"
  have sc: "snd (cons_get s) = ?s" by (simp add: cons_get_def)
  note t1 = take_one [OF Suc(3) ne, unfolded sc, folded c_def]
  have step: "consoleread_loop ip acc n target s =
      (if c = 4 then thenM (release L_cons) (thenM (ilock ip) (retM (target - n, acc)))
             (if n < target then s else ?s)
       else if c = 10 then thenM (release L_cons) (thenM (ilock ip) (retM (target - (n - 1), acc @ [c]))) ?s
       else consoleread_loop ip (acc @ [c]) (n - 1) target ?s)"
    using n(1) ne by (simp add: consoleread_loop.simps [of ip acc n target] bindM_apply thenM_apply getM_apply modM_apply whenM_apply
      sc c_def [symmetric])
  have nt: "n < target \<longleftrightarrow> acc \<noteq> []" using Suc(5) by auto
  consider "c = 4" | "c = 10" | "c \<noteq> 4" "c \<noteq> 10" by blast
  then show ?case
  proof cases
    case 1
    then have "line = acc" "rest = (if acc = [] then ready ?s else ready s)" using Suc(6) n(2) t1(1) by (auto split: if_splits)
    then show ?thesis using step 1 nt t1 Suc(3,5)
      by (intro exI [of _ "if acc = [] then in_r s + 1 else in_r s"]) simp
  next
    case 2
    then have "line = acc @ [c]" "rest = ready ?s" using Suc(6) n(2) t1(1) by auto
    moreover have e: "target - (n - 1) = int (length (acc @ [c]))" using Suc(5) by simp
    ultimately show ?thesis using step [unfolded e] 2 t1 by (intro exI [of _ "in_r s + 1"]) simp
  next
    case 3
    have "take_input (acc @ [c]) (nat (n - 1)) (ready ?s) = Some (line, rest)" using Suc(6) n(2,3) t1(1) 3 by simp
    from Suc(1) [OF n(3) t1(2) _ _ this] n(1) Suc(5) obtain r where
      "consoleread_loop ip (acc @ [c]) (n - 1) target ?s
        = thenM (release L_cons) (thenM (ilock ip) (retM (int (length line), line))) (?s\<lparr>in_r := r\<rparr>)"
      "input_ok (?s\<lparr>in_r := r\<rparr>)" "ready (?s\<lparr>in_r := r\<rparr>) = rest" "typing (?s\<lparr>in_r := r\<rparr>) = typing ?s" by auto
    then show ?thesis using step 3 t1(3) by (intro exI [of _ r]) simp
  qed
qed

text \<open>Giving up the lock of a valid inode and taking it again.\<close>

lemma iunlock_ok:
  assumes "kok s" "mine (SL_inode ip) s" "1 \<le> i_ref (inodes s ! ip)" "no_sleeper (Ch_slk (SL_inode ip)) s"
  shows "iunlock ip s = Ok () (s\<lparr>slks := (slks s)(SL_inode ip := \<lparr>sl_locked = False, sl_pid = 0\<rparr>)\<rparr>)"
  using assms holdingsleep_eq [of s "SL_inode ip"] releasesleep_eq [of s "SL_inode ip"] map_wake_id [OF assms(4)]
  by (simp add: iunlock_def kcode mine_def)

lemma ilock_valid:
  assumes "kok s" "\<not> sl_locked (slks s (SL_inode ip))" "1 \<le> i_ref (inodes s ! ip)" "i_valid (inodes s ! ip)"
  shows "ilock ip s = Ok () (s\<lparr>slks := (slks s)(SL_inode ip := \<lparr>sl_locked = True, sl_pid = mypid s\<rparr>)\<rparr>)"
  using assms acquiresleep_free [OF assms(1,2)] by (simp add: ilock_def kcode)

section \<open>Printed numbers\<close>








section \<open>Properties\<close>

text \<open>
  C17: the keyboard handler is a line editor.  For every sequence of keys,
  consoleintr() returns, and the bytes ready for readers together with the line
  being typed are those the abstract editor gives for the keys up to the first
  negative value: printable keys append while the buffer has room, backspace and
  control-H delete the last byte, control-U the line, and newline, control-D
  or a full buffer make the line ready.  The ring buffer's indices may wrap around.
\<close>

theorem consoleintr_refines:
  fixes s :: "'z cst_scheme"
  assumes ok: "cons_ok s" and l: "L_cons \<notin> set (held s)" and k: "\<forall>c \<in> set keys. c < 256"
  shows "\<exists>t. consoleintr keys s = Ok (0x10 \<in> set (takeWhile (\<lambda>c. 0 \<le> c) keys)) t \<and> cons_ok t \<and> held t = held s
    \<and> (ready t, typing t) = fold edit_key (takeWhile (\<lambda>c. 0 \<le> c) keys) (ready s, typing s)"
proof -
  have loop: "\<exists>t. foreachM ks consoleintr_key s = Ok () t \<and> cons_ok t \<and> key_frame s t
      \<and> (ready t, typing t) = fold edit_key ks (ready s, typing s)"
    if "cons_ok s" "\<forall>c \<in> set ks. 0 \<le> c \<and> c < 256" for ks and s :: "'z cst_scheme"
    using that
  proof (induction ks arbitrary: s)
    case (Cons c ks)
    obtain t where t: "consoleintr_key c s = Ok () t" "cons_ok t" "key_frame s t" "(ready t, typing t) = edit_key c (ready s, typing s)"
      using consoleintr_key_ok [OF Cons.prems(1), of c] Cons.prems(2) by auto
    obtain u where "foreachM ks consoleintr_key t = Ok () u" "cons_ok u" "key_frame t u"
      "(ready u, typing u) = fold edit_key ks (ready t, typing t)"
      using Cons.IH [OF t(2)] Cons.prems(2) by auto
    then show ?case using t key_frame_trans [OF t(3)] by (intro exI [of _ u]) (simp add: kcode)
  qed (simp add: kcode)
  let ?s = "s\<lparr>held := L_cons # held s\<rparr>"
  have ok': "cons_ok ?s" using ok by (simp add: cons_ok_def crt_ok_def input_ok_def)
  obtain t where t: "foreachM (takeWhile (\<lambda>c. 0 \<le> c) keys) consoleintr_key ?s = Ok () t" "cons_ok t" "key_frame ?s t"
    "(ready t, typing t) = fold edit_key (takeWhile (\<lambda>c. 0 \<le> c) keys) (ready ?s, typing ?s)"
    using loop [OF ok', of "takeWhile (\<lambda>c. 0 \<le> c) keys"] k by (auto dest: set_takeWhileD)
  have h: "held t = L_cons # held s" using t(3) by (simp add: key_frame_def)
  let ?t = "t\<lparr>held := held s\<rparr>"
  have "consoleintr keys s = Ok (0x10 \<in> set (takeWhile (\<lambda>c. 0 \<le> c) keys)) ?t"
    using t(1) h l by (simp add: consoleintr_def kcode)
  moreover have "cons_ok ?t" using t(2) ok by (simp add: cons_ok_def crt_ok_def input_ok_def)
  moreover have "ready ?t = ready t" "typing ?t = typing t" "ready ?s = ready s" "typing ?s = typing s"
    by (simp_all add: ready_def typing_def)
  ultimately show ?thesis using t(4) by (intro exI [of _ ?t]) simp
qed

text \<open>A machine whose console is idle.\<close>

definition boot_cst :: "bytes list \<Rightarrow> cst" where
  "boot_cst d = ist.extend (boot_ist d) (cst.fields True False (replicate CRTCELLS 0) 0 True []
     (replicate INPUT_BUF 0) 0 0 0 (replicate 10 (None, None)))"

lemma boot_cst_simps:
  "crt (boot_cst d) = replicate CRTCELLS 0" "crtpos (boot_cst d) = 0" "\<not> panicked (boot_cst d)" "in_r (boot_cst d) = 0"
  "in_w (boot_cst d) = 0" "in_e (boot_cst d) = 0" "in_buf (boot_cst d) = replicate INPUT_BUF 0" "held (boot_cst d) = []"
  "procs (boot_cst d) = replicate NPROC zero_proc" "cur (boot_cst d) = Some 0"
  "inodes (boot_cst d) = replicate NINODE zero_inode" "slks (boot_cst d) k = \<lparr>sl_locked = False, sl_pid = 0\<rparr>"
  by (simp_all add: boot_cst_def ist.extend_def cst.fields_def boot_ist_def lst.extend_def ist.fields_def boot_lst_def
      bst.extend_def lst.fields_def boot_bst_def)

lemma boot_cst_ok: "cons_ok (boot_cst d)" "ready (boot_cst d) = []" "typing (boot_cst d) = []"
  by (simp_all add: cons_ok_def crt_ok_def input_ok_def boot_cst_simps ready_def typing_def)

text \<open>Typing \<open>a\<close>, \<open>b\<close>, backspace, \<open>c\<close> and return makes the line \<open>ac\<close> ready.\<close>

theorem consoleintr_refines_witness:
  "\<exists>t. consoleintr [97, 98, 8, 99, 13, -1] (boot_cst []) = Ok False t \<and> ready t = [97, 99, 10] \<and> typing t = []"
proof -
  have h: "L_cons \<notin> set (held (boot_cst []))" by (simp add: boot_cst_simps)
  have "fold edit_key (takeWhile (\<lambda>c. 0 \<le> c) [97, 98, 8, 99, 13, -1]) ([], []) = ([97, 99, 10], [])"
    by (simp add: edit_key_def)
  then show ?thesis
    using consoleintr_refines [OF boot_cst_ok(1) h, of "[97, 98, 8, 99, 13, -1]"] boot_cst_ok(2,3) by auto
qed

text \<open>
  consoleread() of \<open>n\<close> bytes by the holder of the inode's lock takes from
  the bytes ready what the line-oriented specification says (a whole line, or
  \<open>n\<close> bytes, or up to a control-D that is left for the next read unless it
  comes first) and leaves the rest and the line being typed.
\<close>

lemma consoleread_spec:
  fixes s :: "'z cst_scheme"
  assumes k: "kok s" and ip: "mine (SL_inode ip) s" "1 \<le> i_ref (inodes s ! ip)" "i_valid (inodes s ! ip)"
    "no_sleeper (Ch_slk (SL_inode ip)) s"
    and io: "input_ok s" and n: "0 \<le> n" and q: "take_input [] (nat n) (ready s) = Some (line, rest)"
  shows "\<exists>r. consoleread ip n s = Ok (int (length line), line) (s\<lparr>in_r := r\<rparr>)
    \<and> input_ok (s\<lparr>in_r := r\<rparr>) \<and> ready (s\<lparr>in_r := r\<rparr>) = rest \<and> typing (s\<lparr>in_r := r\<rparr>) = typing s"
proof -
  have h: "held s = []" using k by (simp add: kok_def)
  let ?u = "s\<lparr>slks := (slks s)(SL_inode ip := \<lparr>sl_locked = False, sl_pid = 0\<rparr>)\<rparr>"
  let ?s = "?u\<lparr>held := [L_cons]\<rparr>"
  have cong: "input_ok (x\<lparr>in_r := r\<rparr>) = input_ok (s\<lparr>in_r := r\<rparr>)" "ready (x\<lparr>in_r := r\<rparr>) = ready (s\<lparr>in_r := r\<rparr>)"
    "typing (x\<lparr>in_r := r\<rparr>) = typing (s\<lparr>in_r := r\<rparr>)"
    if "in_buf x = in_buf s" "in_w x = in_w s" "in_e x = in_e s" for x :: "'z cst_scheme" and r
    using that by (simp_all add: input_ok_def ready_def typing_def)
  have io': "input_ok ?s" "ready ?s = ready s" "typing ?s = typing s" using io by (simp_all add: input_ok_def ready_def typing_def)
  obtain r where r: "consoleread_loop ip [] n n ?s
      = thenM (release L_cons) (thenM (ilock ip) (retM (int (length line), line))) (?s\<lparr>in_r := r\<rparr>)"
    "input_ok (?s\<lparr>in_r := r\<rparr>)" "ready (?s\<lparr>in_r := r\<rparr>) = rest" "typing (?s\<lparr>in_r := r\<rparr>) = typing ?s"
    using consoleread_loop_ok [OF io'(1) n, of n "[]"] q io'(2) by auto
  let ?v = "s\<lparr>in_r := r, slks := (slks s)(SL_inode ip := \<lparr>sl_locked = False, sl_pid = 0\<rparr>)\<rparr>"
  have "release L_cons (?s\<lparr>in_r := r\<rparr>) = Ok () ?v" using h by (cases s) (simp add: release_apply)
  moreover have "ilock ip ?v = Ok () (s\<lparr>in_r := r\<rparr>)"
    using ilock_valid [of ?v ip] k ip by (simp add: kok_def mypid_def mine_def fun_upd_idem)
  ultimately have "consoleread_loop ip [] n n ?s = Ok (int (length line), line) (s\<lparr>in_r := r\<rparr>)"
    unfolding r(1) by (simp only: thenM_apply retM_apply outcome.case)
  then have "consoleread ip n s = Ok (int (length line), line) (s\<lparr>in_r := r\<rparr>)"
    using iunlock_ok [OF k ip(1,2,4)] h by (simp add: consoleread_def kcode)
  then show ?thesis using r(2-4) io'(3) cong [of ?s r] by (intro exI [of _ r]) simp
qed

text \<open>The line \<open>a\<close> newline, then \<open>b\<close>, ready across the wrap-around of the indices; a read of ten bytes takes the first line.\<close>

lemma consoleread_spec_witness:
  "\<exists>s t :: cst. in_r s = -1 \<and> ready s = [97, 10, 98] \<and> consoleread 0 10 s = Ok (2, [97, 10]) t \<and> ready t = [98]"
proof -
  let ?b = "((replicate INPUT_BUF 0)[127 := 97, 0 := 10, 1 := 98]) :: bytes"
  let ?s = "(boot_cst [])\<lparr>in_buf := ?b, in_r := -1, in_w := 2, in_e := 2,
     slks := (\<lambda>_. \<lparr>sl_locked = True, sl_pid = 0\<rparr>), inodes := [zero_inode\<lparr>i_ref := 1, i_valid := True\<rparr>]\<rparr>"
  have s: "kok ?s" "mine (SL_inode 0) ?s" "1 \<le> i_ref (inodes ?s ! 0)" "i_valid (inodes ?s ! 0)" "no_sleeper (Ch_slk (SL_inode 0)) ?s"
    by (simp_all add: kok_def mine_def mypid_def no_sleeper_def boot_cst_simps zero_proc_def)
  have m: "(2 - - 1 :: u32) = 3" "(- 1 :: u32) = 4294967295" by simp_all
  have io: "input_ok ?s" by (simp add: input_ok_def m)
  have w3: "window b r 3 = [b ! (unat r mod length b), b ! (unat (r + 1) mod length b), b ! (unat (r + 2) mod length b)]" for b r
    by (simp add: window_def upt_rec)
  have q: "ready ?s = [97, 10, 98]" by (simp add: ready_def m w3)
  have "take_input [] (nat 10) (ready ?s) = Some ([97, 10], [98])"
  proof -
    have n: "nat 10 = Suc (Suc 8)" by simp
    show ?thesis unfolding q n take_input.simps by simp
  qed
  from consoleread_spec [OF s io _ this] obtain r where "consoleread 0 10 ?s = Ok (int (length [97 :: u8, 10]), [97, 10]) (?s\<lparr>in_r := r\<rparr>)"
    "ready (?s\<lparr>in_r := r\<rparr>) = [98]" by auto
  then show ?thesis using q by (intro exI [of _ ?s] exI [of _ "?s\<lparr>in_r := r\<rparr>"]) simp
qed

text \<open>
  The cursor never leaves the first 24 rows of the screen: from such a
  state cgaputc() of any character returns without a panic and leaves such a
  state.  A character other than newline and backspace is stored at the
  cursor; when the cursor would reach row 24 every row moves up by one.
\<close>

lemma cgaputc_on_screen:
  fixes s :: "'z cst_scheme"
  assumes ok: "crt_ok s"
  defines "p \<equiv> unat (crtpos s)"
  shows "\<exists>t. cgaputc c s = Ok () t \<and> crt_ok t
    \<and> (c \<noteq> 10 \<and> c \<noteq> BACKSPACE \<and> p + 1 < 24 * 80 \<longrightarrow> unat (crtpos t) = p + 1
         \<and> crt t = (crt s)[p := of_int (c mod 256) OR 0x0700, p + 1 := 0x20 OR 0x0700])
    \<and> (c = 10 \<and> p div 80 = 23 \<longrightarrow> unat (crtpos t) = 23 * 80
         \<and> (\<forall>r < 23. screen_row (crt t) r = screen_row (crt s) (Suc r)))"
proof -
  define a where "a = cga_advance c p (crt s)"
  define b where "b = cga_scroll (fst a) (snd a)"
  have p: "p < 24 * 80" "length (crt s) = CRTCELLS" using ok by (simp_all add: crt_ok_def p_def)
  have fa: "fst a \<le> 24 * 80" "length (snd a) = CRTCELLS"
    unfolding a_def using cga_advance_pos [OF p(1)] length_cga [of c] p(2) by auto
  note fb = cga_scroll_ok [OF fa, folded b_def]
  let ?t = "s\<lparr>crtpos := of_nat (fst b), crt := (snd b)[fst b := 0x20 OR 0x0700]\<rparr>"
  have run: "cgaputc c s = Ok () ?t"
    using p(1) fa(1) unfolding cgaputc_def
    by (simp add: kcode p_def [symmetric] a_def [symmetric] b_def case_prod_beta)
  have okt: "crt_ok ?t" using ok fb(1,2) by (simp add: crt_ok_def unat_of_nat)
  have put: "unat (crtpos ?t) = p + 1 \<and> crt ?t = (crt s)[p := of_int (c mod 256) OR 0x0700, p + 1 := 0x20 OR 0x0700]"
    if "c \<noteq> 10 \<and> c \<noteq> BACKSPACE \<and> p + 1 < 24 * 80"
  proof -
    have "a = (p + 1, (crt s)[p := of_int (c mod 256) OR 0x0700])" using that by (simp add: a_def cga_advance_def)
    moreover have "unat (of_nat n :: u16) = n" if "n < 1920" for n using that by (simp add: unat_of_nat)
    from this [of "p + 1"] have "unat (of_nat (p + 1) :: u16) = p + 1" using that by simp
    ultimately show ?thesis using fb(4) that by (simp del: of_nat_add of_nat_Suc)
  qed
  have nl: "unat (crtpos ?t) = 23 * 80 \<and> (\<forall>r < 23. screen_row (crt ?t) r = screen_row (crt s) (Suc r))"
    if "c = 10 \<and> p div 80 = 23"
  proof -
    have "p mod 80 < 80" "p = 80 * 23 + p mod 80" using that mult_div_mod_eq [of 80 p] by simp_all
    then have a: "a = (24 * 80, crt s)" using that by (auto simp: a_def cga_advance_def)
    then have f: "fst b = 23 * 80" "\<forall>r < 23. screen_row (snd b) r = screen_row (crt s) (Suc r)" using fb(3) by simp_all
    have "screen_row ((snd b)[fst b := v]) r = screen_row (snd b) r" if "r < 23" for r v
      unfolding f(1) screen_row_def using that by (intro nth_equalityI) (auto simp: nth_list_update)
    then show ?thesis using f by (simp add: unat_of_nat)
  qed
  show ?thesis using run okt put nl by blast
qed

lemma cgaputc_on_screen_witness:
  "\<exists>t. cgaputc 65 (boot_cst []) = Ok () t \<and> unat (crtpos t) = 1 \<and> crt t ! 0 = 0x0741"
proof -
  have ok: "crt_ok (boot_cst [])" using boot_cst_ok(1) by (simp add: cons_ok_def)
  obtain t where "cgaputc 65 (boot_cst []) = Ok () t" "unat (crtpos t) = 1"
    "crt t = (crt (boot_cst []))[0 := of_int (65 mod 256) OR 0x0700, 1 := 0x20 OR 0x0700]"
    using cgaputc_on_screen [OF ok, of 65] by (auto simp: boot_cst_simps)
  then show ?thesis by (intro exI [of _ t]) (simp add: boot_cst_simps)
qed














end
