(* ===== verification/Fs_File.thy ===== *)
theory Fs_File
  imports Console
begin

text \<open>
  fs.c, reading and writing the contents of inodes: readi() and writei(), with
  the dispatch to the device table for device inodes.
\<close>

section \<open>The routines\<close>

text \<open>
  A destination or source buffer is the list of bytes copied.  The loops run
  after the tests that rule out a wrap-around of \<open>off + n\<close>, so their counters
  are natural numbers.
\<close>

function readi_loop :: "nat \<Rightarrow> nat \<Rightarrow> nat \<Rightarrow> ('z ist_scheme, bytes) kfun" where
  "readi_loop ip off left =
     (if left = 0 then retM []
      else let m = min left (BSIZE - off mod BSIZE) in
        bindM (get_inode ip) (\<lambda>v.
        bindM (bmap ip (of_nat (off div BSIZE))) (\<lambda>a.
        bindM (bread (i_dev v) a) (\<lambda>bp.
        bindM (bdata bp) (\<lambda>d.
        thenM (brelse bp)
        (bindM (readi_loop ip (off + m) (left - m)) (\<lambda>r.
         retM (take m (drop (off mod BSIZE) d) @ r))))))))"
  by pat_completeness auto
termination by (relation "measure (\<lambda>(ip, off, left). left)") (auto simp: min_def)

declare readi_loop.simps [simp del]

text \<open>The functions of the device table.\<close>

definition call_devread :: "devfn \<Rightarrow> nat \<Rightarrow> int \<Rightarrow> ('z cst_scheme, int \<times> bytes) kfun" where
  "call_devread f ip n = (case f of Consoleread \<Rightarrow> consoleread ip n | Consolewrite \<Rightarrow> faultM ''not a read function'')"

definition call_devwrite :: "devfn \<Rightarrow> nat \<Rightarrow> bytes \<Rightarrow> int \<Rightarrow> ('z cst_scheme, int) kfun" where
  "call_devwrite f ip src n = (case f of Consolewrite \<Rightarrow> consolewrite ip src n | Consoleread \<Rightarrow> faultM ''not a write function'')"

definition readi :: "nat \<Rightarrow> u32 \<Rightarrow> u32 \<Rightarrow> ('z cst_scheme, int \<times> bytes) kfun" where
  "readi ip off n =
     bindM (get_inode ip) (\<lambda>v.
     if i_type v = T_DEV then
       bindM (getM devsw) (\<lambda>dt.
       if sint (i_major v) < 0 \<or> sint (i_major v) \<ge> NDEV then retM (-1, [])
       else case fst (dt ! nat (sint (i_major v))) of
           None \<Rightarrow> retM (-1, [])
         | Some f \<Rightarrow> call_devread f ip (sint n))
     else if off > i_size v \<or> off + n < off then retM (-1, [])
     else let n = (if off + n > i_size v then i_size v - off else n) in
       bindM (readi_loop ip (unat off) (unat n)) (\<lambda>r. retM (sint n, r)))"

function writei_loop :: "nat \<Rightarrow> nat \<Rightarrow> bytes \<Rightarrow> ('z ist_scheme, nat) kfun" where
  "writei_loop ip off src =
     (if src = [] then retM off
      else let m = min (length src) (BSIZE - off mod BSIZE) in
        bindM (get_inode ip) (\<lambda>v.
        bindM (bmap ip (of_nat (off div BSIZE))) (\<lambda>a.
        bindM (bread (i_dev v) a) (\<lambda>bp.
        bindM (bdata bp) (\<lambda>d.
        thenM (set_bdata bp (patch (off mod BSIZE) (take m src) d))
        (thenM (log_write bp)
        (thenM (brelse bp)
        (writei_loop ip (off + m) (drop m src)))))))))"
  by pat_completeness auto
termination by (relation "measure (\<lambda>(ip, off, src). length src)") (auto simp: min_def)

declare writei_loop.simps [simp del]

definition writei :: "nat \<Rightarrow> bytes \<Rightarrow> u32 \<Rightarrow> u32 \<Rightarrow> ('z cst_scheme, int) kfun" where
  "writei ip src off n =
     bindM (get_inode ip) (\<lambda>v.
     if i_type v = T_DEV then
       bindM (getM devsw) (\<lambda>dt.
       if sint (i_major v) < 0 \<or> sint (i_major v) \<ge> NDEV then retM (-1)
       else case snd (dt ! nat (sint (i_major v))) of
           None \<Rightarrow> retM (-1)
         | Some f \<Rightarrow> call_devwrite f ip src (sint n))
     else if off > i_size v \<or> off + n < off then retM (-1)
     else if off + n > of_nat (MAXFILE * BSIZE) then retM (-1)
     else
       bindM (writei_loop ip (unat off) (take (unat n) src)) (\<lambda>off'.
       bindM (get_inode ip) (\<lambda>v.
       thenM (whenM (n > 0 \<and> of_nat off' > i_size v)
         (thenM (upd_inode ip (\<lambda>v. v\<lparr>i_size := of_nat off'\<rparr>))
         (iupdate ip)))
       (retM (sint n)))))"

section \<open>The contents of a file\<close>

text \<open>The byte at offset \<open>i\<close> of a file, and the file's contents up to its size.\<close>

definition fbyte :: "(nat \<Rightarrow> bytes) \<Rightarrow> inode \<Rightarrow> nat \<Rightarrow> u8" where
  "fbyte v ip i = fcont v ip (i div BSIZE) ! (i mod BSIZE)"

definition fdata :: "(nat \<Rightarrow> bytes) \<Rightarrow> inode \<Rightarrow> bytes" where
  "fdata v ip = map (fbyte v ip) [0..<unat (i_size ip)]"

text \<open>The blocks a file occupies, the indirect block included.\<close>

definition fblocks :: "(nat \<Rightarrow> bytes) \<Rightarrow> inode \<Rightarrow> nat set" where
  "fblocks v ip = insert (unat (i_addrs ip ! NDIRECT)) {unat (fblk v ip n) | n. n < MAXFILE}"

text \<open>A file without holes, as all files are: writei() refuses to start beyond the end.\<close>

definition dense :: "(nat \<Rightarrow> bytes) \<Rightarrow> inode \<Rightarrow> bool" where
  "dense v ip \<longleftrightarrow> unat (i_size ip) \<le> MAXFILE * BSIZE \<and> (\<forall>n. n * BSIZE < unat (i_size ip) \<longrightarrow> fblk v ip n \<noteq> 0)"

lemma fcont_chunk:
  assumes "length (fcont v ip (off div BSIZE)) = BSIZE" "m \<le> BSIZE - off mod BSIZE"
  shows "take m (drop (off mod BSIZE) (fcont v ip (off div BSIZE))) = map (fbyte v ip) [off..<off + m]"
proof (rule nth_equalityI)
  have o: "off mod BSIZE < BSIZE" by simp
  then show "length (take m (drop (off mod BSIZE) (fcont v ip (off div BSIZE)))) = length (map (fbyte v ip) [off..<off + m])"
    using assms by simp
  fix i assume "i < length (take m (drop (off mod BSIZE) (fcont v ip (off div BSIZE))))"
  then have i: "i < m" "i < BSIZE - off mod BSIZE" using assms by auto
  have "(off + i) div BSIZE = off div BSIZE" "(off + i) mod BSIZE = off mod BSIZE + i"
  proof -
    have "off + i = BSIZE * (off div BSIZE) + (off mod BSIZE + i)" by simp
    moreover have "off mod BSIZE + i < BSIZE" using i(2) o by linarith
    ultimately show "(off + i) div BSIZE = off div BSIZE" "(off + i) mod BSIZE = off mod BSIZE + i"
      by (metis div_mult_self4 div_less add_0_right zero_neq_numeral, metis mod_mult_self4 mod_less)
  qed
  then show "take m (drop (off mod BSIZE) (fcont v ip (off div BSIZE))) ! i = map (fbyte v ip) [off..<off + m] ! i"
    using i assms(1) by (simp add: fbyte_def)
qed

lemma length_fcont:
  fixes s :: "'z ist_scheme"
  assumes "bcache_ok s H" "meta_ok s" "file_ok s ip" "n < MAXFILE"
  shows "length (fcont (blk s) ip n) = BSIZE"
proof (cases "fblk (blk s) ip n = 0")
  case False
  then have "unat (fblk (blk s) ip n) < unat (sb_size (sb s))" using file_okD(1) [OF assms(3,4)] by (simp add: data_blk_def)
  then show ?thesis
    using length_blk [OF assms(1) fs_okD(5) [OF meta_okD(1) [OF assms(2)]]] False by (simp add: fcont_def)
qed (simp add: fcont_def)

section \<open>Reading\<close>

text \<open>bmap() of a block the file has only reads.\<close>

lemma bmap_mapped:
  fixes s :: "'z ist_scheme"
  assumes c: "calm s {} k" and m: "meta_ok s" and f: "file_ok s (inodes s ! ip)"
    and n: "unat w = n" "n < MAXFILE" "fblk (blk s) (inodes s ! ip) n \<noteq> 0"
  obtains t where "bmap ip w s = Ok (fblk (blk s) (inodes s ! ip) n) t" "calm t {} k" "blk t = blk s" "lframe s t"
proof (cases "n < NDIRECT")
  case True
  then have "bmap ip w s = Ok (fblk (blk s) (inodes s ! ip) n) s"
    using n by (simp add: bmap_def bmap_addr_def kcode word_less_nat_alt fblk_def)
  then show ?thesis using that c by simp
next
  case False
  define A where "A = i_addrs (inodes s ! ip) ! NDIRECT"
  have A: "A \<noteq> 0" "fblk (blk s) (inodes s ! ip) n = get32 (blk s (unat A)) (4 * (n - NDIRECT))"
    using n(3) False by (auto simp: fblk_def A_def split: if_splits)
  have dA: "data_blk s (unat A)" using file_okD(3) [OF f] A(1) by (simp add: A_def)
  have lA: "unat A < length (disk s)" using dA fs_okD(5) [OF meta_okD(1) [OF m]] by (simp add: data_blk_def)
  obtain bp t where t: "bread 1 A s = Ok bp t" "calm t {bp} k" "caches t bp (unat A)" "b_data (bufs t ! bp) = blk s (unat A)"
    "blk t = blk s" "lframe s t" "settled t bp (unat A)"
    by (rule calm_bread [OF c refl lA]) auto
  obtain u where u: "brelse bp t = Ok () u" "calm u ({bp} - {bp}) k" "blk u = blk t" "lframe t u"
    by (rule calm_brelse [OF t(2) _ t(3,7)]) auto
  have nn: "unat (w - of_nat NDIRECT) = n - NDIRECT" using n False by (subst unat_sub) (auto simp: word_le_nat_alt)
  have dv: "i_dev (inodes s ! ip) = 1" using file_ok_len [OF f] by simp
  have "bmap ip w s = Ok (fblk (blk s) (inodes s ! ip) n) u"
    using t(1,4) u(1) n(1,2) False dv nn A n(3)
    by (simp add: bmap_def bmap_addr_def bmap_entry_def kcode word_less_nat_alt A_def [symmetric])
  then show ?thesis using that u t lframe_trans [OF t(6) u(4)] by simp
qed

lemma readi_loop_ok:
  fixes s :: "'z ist_scheme"
  assumes "calm s {} k" "meta_ok s" "file_ok s (inodes s ! ip)" "dense (blk s) (inodes s ! ip)"
    "off + left \<le> unat (i_size (inodes s ! ip))"
  shows "\<exists>t. readi_loop ip off left s = Ok (map (fbyte (blk s) (inodes s ! ip)) [off..<off + left]) t
    \<and> calm t {} k \<and> blk t = blk s \<and> lframe s t"
  using assms
proof (induction left arbitrary: off s rule: less_induct)
  case (less left)
  let ?v = "inodes s ! ip"
  show ?case
  proof (cases "left = 0")
    case True
    then show ?thesis using less.prems by (intro exI [of _ s]) (simp add: readi_loop.simps [of ip off 0] kcode)
  next
    case False
    define n where "n = off div BSIZE"
    define m where "m = min left (BSIZE - off mod BSIZE)"
    have sz: "unat (i_size ?v) \<le> MAXFILE * BSIZE" using less.prems(4) by (simp add: dense_def)
    have no: "n * BSIZE \<le> off" by (simp add: n_def)
    have nl: "n < MAXFILE" using less.prems(5) sz False by (simp add: n_def div_less_iff_less_mult)
    have nz: "fblk (blk s) ?v n \<noteq> 0" using less.prems(4,5) no False by (auto simp: dense_def)
    have wn: "unat (of_nat n :: u32) = n" using nl by (simp add: unat_of_nat)
    have m: "0 < m" "m \<le> left" "m \<le> BSIZE - off mod BSIZE" using False by (auto simp: m_def)
    obtain t where t: "bmap ip (of_nat n) s = Ok (fblk (blk s) ?v n) t" "calm t {} k" "blk t = blk s" "lframe s t"
      by (rule bmap_mapped [OF less.prems(1-3) wn nl nz])
    note ft = lframeD [OF t(4)]
    have lb: "unat (fblk (blk s) ?v n) < length (disk t)"
      using file_okD(1) [OF less.prems(3) nl nz] fs_okD(5) [OF meta_okD(1) [OF less.prems(2)]] ft(1) by (simp add: data_blk_def)
    obtain bp u where u: "bread 1 (fblk (blk s) ?v n) t = Ok bp u" "calm u {bp} k" "caches u bp (unat (fblk (blk s) ?v n))"
      "b_data (bufs u ! bp) = blk t (unat (fblk (blk s) ?v n))" "blk u = blk t" "lframe t u" "settled u bp (unat (fblk (blk s) ?v n))"
      by (rule calm_bread [OF t(2) refl lb]) auto
    obtain w where w: "brelse bp u = Ok () w" "calm w ({bp} - {bp}) k" "blk w = blk u" "lframe u w"
      by (rule calm_brelse [OF u(2) _ u(3,7)]) auto
    have fw: "lframe s w" using lframe_trans [OF lframe_trans [OF t(4) u(6)] w(4)] .
    have bw: "blk w = blk s" using w(3) u(5) t(3) by simp
    have iw: "inodes w = inodes s" by (rule lframeD [OF fw])
    have e: "extends {} s w" by (rule lframe_extends(1) [OF less.prems(2) fw]) (simp_all add: bw)
    have fw2: "file_ok w ?v" by (rule file_extends(2) [OF less.prems(3) e]) simp
    have "\<exists>x. readi_loop ip (off + m) (left - m) w = Ok (map (fbyte (blk w) (inodes w ! ip)) [off + m..<off + m + (left - m)]) x
      \<and> calm x {} k \<and> blk x = blk w \<and> lframe w x"
      by (rule less.IH) (use m False w(2) extendsD(1) [OF e] fw2 less.prems(4,5) bw iw in auto)
    then obtain x where x: "readi_loop ip (off + m) (left - m) w = Ok (map (fbyte (blk s) ?v) [off + m..<off + left]) x"
      "calm x {} k" "blk x = blk w" "lframe w x" using m(2) bw iw by auto
    have ok: "bcache_ok s {}" using less.prems(1) by (simp add: calm_def log_inv_def)
    have chunk: "take m (drop (off mod BSIZE) (blk s (unat (fblk (blk s) ?v n)))) = map (fbyte (blk s) ?v) [off..<off + m]"
      using fcont_chunk [of "blk s" ?v off m] length_fcont [OF ok less.prems(2,3) nl] m(3) nz by (simp add: fcont_def n_def)
    have dv: "i_dev ?v = 1" using file_ok_len [OF less.prems(3)] by simp
    have "[off..<off + left] = [off..<off + m] @ [off + m..<off + left]" 
      using upt_add_eq_append [of off "off + m" "left - m"] m(2) by simp
    then have "readi_loop ip off left s = Ok (map (fbyte (blk s) ?v) [off..<off + left]) x"
      using False t(1,3) u(1,4) w(1) x(1) dv chunk
      by (simp add: readi_loop.simps [of ip off left] kcode Let_def n_def [symmetric] m_def [symmetric])
    then show ?thesis using x bw lframe_trans [OF fw x(4)] by (intro exI [of _ x]) simp
  qed
qed

section \<open>Writing\<close>

text \<open>
  \<open>wrote s ip off src t\<close>: \<open>t\<close> differs from \<open>s\<close> in that the bytes \<open>src\<close> are in the
  file \<open>ip\<close> at offset \<open>off\<close>, in blocks that were its own or no file's.
\<close>

definition wrote :: "'z ist_scheme \<Rightarrow> nat \<Rightarrow> nat \<Rightarrow> bytes \<Rightarrow> 'z ist_scheme \<Rightarrow> bool" where
  "wrote s ip off src t \<longleftrightarrow> (let v = inodes s ! ip; w = inodes t ! ip in
     (\<exists>as. inodes t = (inodes s)[ip := v\<lparr>i_addrs := as\<rparr>]) \<and> file_ok t w
     \<and> extends (fblocks (blk s) v) s t
     \<and> (\<forall>b \<in> fblocks (blk t) w. b \<in> fblocks (blk s) v \<or> \<not> data_blk s b)
     \<and> (\<forall>i < MAXFILE * BSIZE. fbyte (blk t) w i = (if off \<le> i \<and> i < off + length src then src ! (i - off) else fbyte (blk s) v i))
     \<and> (\<forall>n < MAXFILE. fblk (blk s) v n \<noteq> 0 \<longrightarrow> fblk (blk t) w n \<noteq> 0)
     \<and> (\<forall>i. off \<le> i \<and> i < off + length src \<longrightarrow> fblk (blk t) w (i div BSIZE) \<noteq> 0))"

lemma wrote_trans:
  fixes s t u :: "'z ist_scheme"
  assumes a: "wrote s ip off c t" and b: "wrote t ip (off + length c) d u" and ip: "ip < length (inodes s)"
    and top: "off + length c \<le> MAXFILE * BSIZE"
  shows "wrote s ip off (c @ d) u"
proof -
  let ?v = "inodes s ! ip" and ?w = "inodes t ! ip" and ?x = "inodes u ! ip"
  have st: "file_ok t ?w" "extends (fblocks (blk s) ?v) s t" "\<forall>b \<in> fblocks (blk t) ?w. b \<in> fblocks (blk s) ?v \<or> \<not> data_blk s b"
    "\<forall>i < MAXFILE * BSIZE. fbyte (blk t) ?w i = (if off \<le> i \<and> i < off + length c then c ! (i - off) else fbyte (blk s) ?v i)"
    "\<forall>n < MAXFILE. fblk (blk s) ?v n \<noteq> 0 \<longrightarrow> fblk (blk t) ?w n \<noteq> 0" "\<forall>i. off \<le> i \<and> i < off + length c \<longrightarrow> fblk (blk t) ?w (i div BSIZE) \<noteq> 0"
    using a by (auto simp: wrote_def Let_def)
  have tu: "file_ok u ?x" "extends (fblocks (blk t) ?w) t u" "\<forall>b \<in> fblocks (blk u) ?x. b \<in> fblocks (blk t) ?w \<or> \<not> data_blk t b"
    "\<forall>i < MAXFILE * BSIZE. fbyte (blk u) ?x i = (if off + length c \<le> i \<and> i < off + length c + length d then d ! (i - (off + length c)) else fbyte (blk t) ?w i)"
    "\<forall>n < MAXFILE. fblk (blk t) ?w n \<noteq> 0 \<longrightarrow> fblk (blk u) ?x n \<noteq> 0"
    "\<forall>i. off + length c \<le> i \<and> i < off + length c + length d \<longrightarrow> fblk (blk u) ?x (i div BSIZE) \<noteq> 0"
    using b by (auto simp: wrote_def Let_def)
  obtain as bs where "inodes t = (inodes s)[ip := ?v\<lparr>i_addrs := as\<rparr>]" "inodes u = (inodes t)[ip := ?w\<lparr>i_addrs := bs\<rparr>]"
    using a b unfolding wrote_def Let_def by blast
  then have "inodes u = (inodes s)[ip := ?v\<lparr>i_addrs := bs\<rparr>]" using ip by simp
  moreover have "extends (fblocks (blk s) ?v) s u"
  proof -
    have "extends (fblocks (blk s) ?v \<union> fblocks (blk t) ?w) s u" by (rule extends_trans [OF st(2) tu(2)])
    then show ?thesis using st(3) unfolding extends_def by blast
  qed
  moreover have "\<forall>b \<in> fblocks (blk u) ?x. b \<in> fblocks (blk s) ?v \<or> \<not> data_blk s b"
    using tu(3) st(3) extendsD(3) [OF st(2)] by blast
  moreover have "\<forall>i < MAXFILE * BSIZE. fbyte (blk u) ?x i = (if off \<le> i \<and> i < off + length (c @ d) then (c @ d) ! (i - off) else fbyte (blk s) ?v i)"
    using st(4) tu(4) by (auto simp: nth_append)
  moreover have "\<forall>n < MAXFILE. fblk (blk s) ?v n \<noteq> 0 \<longrightarrow> fblk (blk u) ?x n \<noteq> 0" using st(5) tu(5) by blast
  moreover have "fblk (blk u) ?x (i div BSIZE) \<noteq> 0" if "off \<le> i" "i < off + length (c @ d)" for i
  proof (cases "i < off + length c")
    case True
    then have "i div BSIZE < MAXFILE" using top by (simp add: div_less_iff_less_mult)
    then show ?thesis using True that st(6) tu(5) by blast
  qed (use that tu(6) in auto)
  ultimately show ?thesis using tu(1) unfolding wrote_def Let_def by blast
qed

lemma div_mod_range:
  assumes "i < off mod BSIZE + m" "off mod BSIZE \<le> i" "m \<le> BSIZE - off mod BSIZE"
  shows "i < BSIZE"
  using assms mod_less_divisor [of BSIZE off] by linarith

text \<open>The bytes of a block after a part of it was overwritten.\<close>

lemma fbyte_patch:
  assumes l: "length d = BSIZE" and m: "length c \<le> BSIZE - off mod BSIZE" and n: "n = off div BSIZE"
    and fc: "\<And>k. k < MAXFILE \<Longrightarrow> fcont v' w k = (if k = n then patch (off mod BSIZE) c d else fcont v ip k)" and d: "fcont v ip n = d"
    and i: "i < MAXFILE * BSIZE"
  shows "fbyte v' w i = (if off \<le> i \<and> i < off + length c then c ! (i - off) else fbyte v ip i)"
proof (cases "i div BSIZE = n")
  case True
  have k: "i div BSIZE < MAXFILE" using i by (simp add: div_less_iff_less_mult)
  have im: "i mod BSIZE < BSIZE" "off mod BSIZE < BSIZE" by simp_all
  have io: "i = n * BSIZE + i mod BSIZE" "off = n * BSIZE + off mod BSIZE" using True n by (metis div_mult_mod_eq)+
  define a b where "a = i mod BSIZE" and "b = off mod BSIZE"
  have "off \<le> i \<longleftrightarrow> b \<le> a" "i < off + length c \<longleftrightarrow> a < b + length c" "i - off = a - b"
    using io unfolding a_def [symmetric] b_def [symmetric] by linarith+
  then have "off \<le> i \<longleftrightarrow> off mod BSIZE \<le> i mod BSIZE" "i < off + length c \<longleftrightarrow> i mod BSIZE < off mod BSIZE + length c"
    "i - off = i mod BSIZE - off mod BSIZE" by (simp_all only: a_def b_def)
  then show ?thesis using True fc [OF k] m l d im by (simp add: fbyte_def nth_patch)
next
  case False
  have k: "i div BSIZE < MAXFILE" using i by (simp add: div_less_iff_less_mult)
  have "\<not> (off \<le> i \<and> i < off + length c)"
  proof
    assume a: "off \<le> i \<and> i < off + length c"
    have "off div BSIZE \<le> i div BSIZE" using a by (simp add: div_le_mono)
    moreover have "i < off - off mod BSIZE + BSIZE" using a m mod_less_divisor [of BSIZE off] by linarith
    then have "i < (off div BSIZE + 1) * BSIZE" by (simp add: minus_mod_eq_div_mult algebra_simps)
    then have "i div BSIZE < off div BSIZE + 1" by (simp only: div_less_iff_less_mult)
    ultimately show False using False n by simp
  qed
  note no = this
  show ?thesis unfolding if_not_P [OF no] using fc [OF k] False by (simp add: fbyte_def)
qed

text \<open>One turn of the loop: the bytes \<open>c\<close> of one block.\<close>

lemma writei_turn:
  fixes s :: "'z ist_scheme"
  assumes tx: "txn s {} (j + 6)" and m: "meta_ok s" and ip: "ip < length (inodes s)" and f: "file_ok s (inodes s ! ip)"
    and fr: "2 \<le> card (frees s)" and n: "n = off div BSIZE" "n < MAXFILE" and c: "length c \<le> BSIZE - off mod BSIZE" "c \<noteq> []"
  obtains a t u where "bmap ip (of_nat n) s = Ok a t" "log_update 1 a (patch (off mod BSIZE) c) t = Ok () u"
    "txn u {} j" "wrote s ip off c u" "card (frees s) - 2 \<le> card (frees u)"
proof -
  let ?v = "inodes s ! ip"
  have wn: "unat (of_nat n :: u32) = n" using n(2) by (simp add: unat_of_nat)
  have tx5: "txn s {} (Suc j + 5)" using tx by (simp add: numeral_eq_Suc)
  obtain a t where t: "bmap ip (of_nat n) s = Ok a t" "a \<noteq> 0" "txn t {} (Suc j)"
    "extends (unat ` set (drop NDIRECT (i_addrs (inodes t ! ip)))) s t" "remapped s ip t"
    "fblk (blk t) (inodes t ! ip) n = a" "card (frees s) - 2 \<le> card (frees t)"
    by (rule bmap_ok [OF tx5 m ip f wn n(2) fr])
  let ?w = "inodes t ! ip"
  note rt = remappedD [OF t(5) ip]
  have mt: "meta_ok t" by (rule extendsD [OF t(4)])
  have da: "data_blk t (unat a)" "a \<noteq> i_addrs ?w ! NDIRECT" using file_okD(1,2) [OF rt(6) n(2)] t(2,6) by simp_all
  have okt: "bcache_ok t {}" using t(3) by (simp add: txn_def calm_def log_inv_def)
  have la: "unat a < length (disk t)" using da(1) fs_okD(5) [OF meta_okD(1) [OF mt]] by (simp add: data_blk_def)
  have lb: "length (blk t (unat a)) = BSIZE" by (rule length_blk [OF okt la])
  have om: "off mod BSIZE < BSIZE" by simp
  have lc: "off mod BSIZE + length c \<le> BSIZE" using c(1) om by linarith
  have lg: "length (patch (off mod BSIZE) c (blk t (unat a))) = BSIZE" using lb lc by simp
  have nl: "\<not> in_log t (unat a)" using da(1) by (simp add: data_blk_def)
  obtain u where u: "log_update 1 a (patch (off mod BSIZE) c) t = Ok () u" "txn u {} j"
    "blk u = (blk t)(unat a := patch (off mod BSIZE) c (blk t (unat a)))" "lframe t u"
    by (rule log_update_ok [where g = "patch (off mod BSIZE) c", OF t(3) refl la _ nl lg]) auto
  have eu: "extends {unat a} t u" "frees u = frees t"
    by (rule lframe_extends [where W = "{unat a}", OF mt u(4)]; use u(3) da(1) in auto)+
  have iu: "inodes u = inodes t" by (rule lframeD [OF u(4)])
  have na: "unat (i_addrs ?w ! NDIRECT) \<noteq> unat a" using da(2) by (metis unsigned_word_eqI)
  have fb: "fblk (blk u) ?w k = fblk (blk t) ?w k" for k using u(3) na by (simp add: fblk_def)
  have fu: "file_ok u ?w" by (rule file_extends(2) [OF rt(6) eu(1)]) (use na in simp)
  have fc: "fcont (blk u) ?w k = (if k = n then patch (off mod BSIZE) c (blk t (unat a)) else fcont (blk s) ?v k)" if k: "k < MAXFILE" for k
  proof (cases "k = n")
    case True
    then show ?thesis using fb [of n] t(2,6) u(3) by (simp add: fcont_def)
  next
    case False
    then have "fblk (blk t) ?w k \<noteq> a" using file_okD(4) [OF rt(6) k n(2)] t(2,6) by auto
    then have "unat (fblk (blk t) ?w k) \<noteq> unat a" by (metis unsigned_word_eqI)
    then have "fcont (blk u) ?w k = fcont (blk t) ?w k" unfolding fcont_def fb using u(3) by simp
    then show ?thesis using False rt(8) [OF k] by simp
  qed
  have d: "fcont (blk s) ?v n = blk t (unat a)" using rt(8) [OF n(2)] t(2,6) by (simp add: fcont_def)
  have newb: "b \<in> fblocks (blk s) ?v \<or> \<not> data_blk s b" if "b \<in> fblocks (blk t) ?w" for b
    using that t(5) unfolding fblocks_def remapped_def by auto
  have ex: "extends (fblocks (blk s) ?v) s u"
  proof -
    have "drop NDIRECT (i_addrs ?w) = [i_addrs ?w ! NDIRECT]"
      using file_ok_len(1) [OF rt(6)] by (simp add: Cons_nth_drop_Suc [symmetric])
    then have "extends (insert (unat (i_addrs ?w ! NDIRECT)) {unat a}) s u" using extends_trans [OF t(4) eu(1)] by (simp add: insert_commute)
    moreover have "unat a \<in> fblocks (blk t) ?w" "unat (i_addrs ?w ! NDIRECT) \<in> fblocks (blk t) ?w"
      using n(2) t(6) by (auto simp: fblocks_def)
    ultimately show ?thesis using newb unfolding extends_def by blast
  qed
  have "wrote s ip off c u"
    unfolding wrote_def Let_def iu
  proof (intro conjI)
    show "\<exists>as. inodes t = (inodes s)[ip := ?v\<lparr>i_addrs := as\<rparr>]" using t(5) by (simp add: remapped_def)
    show "\<forall>b \<in> fblocks (blk u) ?w. b \<in> fblocks (blk s) ?v \<or> \<not> data_blk s b" using newb by (simp add: fblocks_def fb)
    show "\<forall>i < MAXFILE * BSIZE. fbyte (blk u) ?w i = (if off \<le> i \<and> i < off + length c then c ! (i - off) else fbyte (blk s) ?v i)"
      using fbyte_patch [OF lb c(1) n(1) fc d] by blast
    show "\<forall>k < MAXFILE. fblk (blk s) ?v k \<noteq> 0 \<longrightarrow> fblk (blk u) ?w k \<noteq> 0" using t(5) by (simp add: remapped_def fb)
    show "\<forall>i. off \<le> i \<and> i < off + length c \<longrightarrow> fblk (blk u) ?w (i div BSIZE) \<noteq> 0"
    proof (intro allI impI)
      fix i assume i: "off \<le> i \<and> i < off + length c"
      have "off div BSIZE \<le> i div BSIZE" using i by (simp add: div_le_mono)
      moreover have "i < off - off mod BSIZE + BSIZE" using i lc mod_less_eq_dividend [of off BSIZE] by linarith
      then have "i < (off div BSIZE + 1) * BSIZE" by (simp add: minus_mod_eq_div_mult algebra_simps)
      then have "i div BSIZE < off div BSIZE + 1" by (simp only: div_less_iff_less_mult)
      ultimately have "i div BSIZE = n" using n(1) by simp
      then show "fblk (blk u) ?w (i div BSIZE) \<noteq> 0" using fb t(2,6) by simp
    qed
  qed (use fu ex in auto)
  then show ?thesis using that [OF t(1) u(1,2)] eu(2) t(7) by simp
qed

text \<open>The number of blocks that a write touches.\<close>

definition nblks :: "nat \<Rightarrow> nat \<Rightarrow> nat" where
  "nblks off n = (off mod BSIZE + n + (BSIZE - 1)) div BSIZE"

lemma nblks_step:
  assumes "m = min n (BSIZE - off mod BSIZE)" "0 < n"
  shows "nblks off n = Suc (nblks (off + m) (n - m)) \<or> n = m \<and> nblks off n \<ge> 1"
proof (cases "n \<le> BSIZE - off mod BSIZE")
  case True
  then show ?thesis using assms by (auto simp: nblks_def Suc_le_eq div_greater_zero_iff)
next
  case False
  have o: "off mod BSIZE < BSIZE" by simp
  have m: "m = BSIZE - off mod BSIZE" using False assms(1) by simp
  have "off + (BSIZE - r) = (q + 1) * BSIZE" if "off = q * BSIZE + r" "r < BSIZE" for q r using that by (simp add: algebra_simps)
  from this [of "off div BSIZE" "off mod BSIZE"] have "off + m = (off div BSIZE + 1) * BSIZE" using m o by simp
  then have "(off + m) mod BSIZE = 0" by simp
  then have a: "nblks (off + m) (n - m) = (n - m + (BSIZE - 1)) div BSIZE" by (simp add: nblks_def)
  have "off mod BSIZE + n + (BSIZE - 1) = (n - m + (BSIZE - 1)) + BSIZE" using m False o by linarith
  then have "nblks off n = ((n - m + (BSIZE - 1)) + BSIZE) div BSIZE" unfolding nblks_def by (rule arg_cong)
  then have "nblks off n = Suc (nblks (off + m) (n - m))" unfolding a by (subst (asm) div_add_self2) simp_all
  then show ?thesis ..
qed

lemma writei_loop_ok:
  fixes s :: "'z ist_scheme"
  assumes "txn s {} (6 * nblks off (length src) + j)" "meta_ok s" "ip < length (inodes s)" "file_ok s (inodes s ! ip)"
    "2 * nblks off (length src) \<le> card (frees s)" "off + length src \<le> MAXFILE * BSIZE" "src \<noteq> []"
  shows "\<exists>t. writei_loop ip off src s = Ok (off + length src) t \<and> txn t {} j \<and> wrote s ip off src t"
  using assms
proof (induction "length src" arbitrary: src off s rule: less_induct)
  case less
  let ?v = "inodes s ! ip"
  define n where "n = off div BSIZE"
  define m where "m = min (length src) (BSIZE - off mod BSIZE)"
  define c where "c = take m src"
  define d where "d = drop m src"
  have o: "off mod BSIZE < BSIZE" by simp
  have l0: "0 < length src" using less.prems(7) by simp
  have m: "0 < m" "m \<le> length src" "m \<le> BSIZE - off mod BSIZE" using l0 o by (simp_all add: m_def)
  have cl: "length c = m" "c \<noteq> []" "length c \<le> BSIZE - off mod BSIZE" "src = c @ d" "length d = length src - m"
    using m less.prems(7) by (auto simp: c_def d_def)
  have "off < MAXFILE * BSIZE" using less.prems(6) l0 by linarith
  then have nl: "n < MAXFILE" by (simp add: n_def div_less_iff_less_mult)
  note st = nblks_step [OF m_def l0]
  define k where "k = (if d = [] then 0 else nblks (off + m) (length d))"
  have nk: "Suc k \<le> nblks off (length src)" using st cl(5) by (auto simp: k_def)
  have "6 * Suc k + j \<le> 6 * nblks off (length src) + j" using nk by simp
  then have "txn s {} (6 * Suc k + j)" using txn_mono [OF less.prems(1)] by blast
  then have tx: "txn s {} (6 * k + j + 6)" by (simp add: algebra_simps)
  have fr: "2 \<le> card (frees s)" "2 * k + 2 \<le> card (frees s)" using nk less.prems(5) by simp_all
  obtain a t u where u: "bmap ip (of_nat n) s = Ok a t" "log_update 1 a (patch (off mod BSIZE) c) t = Ok () u"
    "txn u {} (6 * k + j)" "wrote s ip off c u" "card (frees s) - 2 \<le> card (frees u)"
    by (rule writei_turn [OF tx less.prems(2-4) fr(1) n_def nl cl(3,2)])
  have dv: "i_dev ?v = 1" using file_ok_len [OF less.prems(4)] by simp
  have step: "writei_loop ip off src s = writei_loop ip (off + m) d u"
    using less.prems(7) u(1,2) dv
    by (auto simp: writei_loop.simps [of ip off src] kcode Let_def n_def [symmetric] m_def [symmetric] c_def [symmetric]
        d_def [symmetric] log_update_def split: outcome.splits)
  show ?case
  proof (cases "d = []")
    case True
    then have "writei_loop ip off src s = Ok (off + length src) u"
      using step cl by (simp add: writei_loop.simps [of ip _ "[]"] kcode)
    then show ?thesis using u(3,4) True cl(4) by (intro exI [of _ u]) (simp add: k_def)
  next
    case False
    have w: "extends (fblocks (blk s) ?v) s u" "file_ok u (inodes u ! ip)" "length (inodes u) = length (inodes s)"
      using u(4) by (auto simp: wrote_def Let_def)
    have "\<exists>t. writei_loop ip (off + m) d u = Ok (off + m + length d) t \<and> txn t {} j \<and> wrote u ip (off + m) d t"
    proof (rule less.hyps)
      show "length d < length src" using cl(5) m by simp
      show "txn u {} (6 * nblks (off + m) (length d) + j)" "2 * nblks (off + m) (length d) \<le> card (frees u)"
        using u(3,5) fr(2) False by (simp_all add: k_def)
      show "off + m + length d \<le> MAXFILE * BSIZE" using less.prems(6) cl(5) m(2) by linarith
    qed (use extendsD(1) [OF w(1)] w(2,3) less.prems(3) False in simp_all)
    then obtain t where t: "writei_loop ip (off + m) d u = Ok (off + m + length d) t" "txn t {} j" "wrote u ip (off + m) d t" by blast
    have "wrote s ip off (c @ d) t"
      by (rule wrote_trans [OF u(4) _ less.prems(3)]) (use t(3) cl(1) less.prems(6) m in auto)
    then have "wrote s ip off src t" using cl(4) by simp
    moreover have "off + m + length d = off + length src" using cl(5) m(2) by simp
    ultimately show ?thesis using step t(1,2) by (intro exI [of _ t]) simp
  qed
qed

text \<open>Writing an inode back changes no block of a file.\<close>

lemma inode_block_data:
  fixes s t :: "'z ist_scheme"
  assumes m: "meta_ok s" and f: "lframe s t" and i: "i < unat (sb_ninodes (sb s))" and b: "\<And>b. b \<noteq> iblk (sb s) i \<Longrightarrow> blk t b = blk s b"
  shows "data_blk t = data_blk s" "\<And>c. data_blk s c \<Longrightarrow> blk t c = blk s c"
proof -
  note fr = lframeD(8) [OF f] lframe_in_log [OF f]
  have "used (blk t) (sb s) c = used (blk s) (sb s) c" if "c < unat (sb_size (sb s))" for c
    using b [of "bmblk (sb s) c"] meta_okD(7) [OF m i that] by (auto simp: used_def)
  then show "data_blk t = data_blk s" unfolding data_blk_def fr by (auto simp: fun_eq_iff)
  show "blk t c = blk s c" if "data_blk s c" for c using that b i by (auto simp: data_blk_def)
qed

lemma file_same:
  assumes "\<And>c. data_blk s c \<Longrightarrow> blk t c = blk s c" "data_blk t = data_blk s" "file_ok s ip"
  shows "\<And>n. n < MAXFILE \<Longrightarrow> fblk (blk t) ip n = fblk (blk s) ip n" "file_ok t ip"
    "\<And>n. n < MAXFILE \<Longrightarrow> fcont (blk t) ip n = fcont (blk s) ip n"
proof -
  note fd = file_okD [OF assms(3)]
  have fb: "fblk (blk t) ip n = fblk (blk s) ip n" for n using assms(1) fd(3) by (simp add: fblk_def)
  then show "fblk (blk t) ip n = fblk (blk s) ip n" if "n < MAXFILE" for n by simp
  show "file_ok t ip" using assms(2,3) unfolding file_ok_def fb by simp
  show "fcont (blk t) ip n = fcont (blk s) ip n" if "n < MAXFILE" for n
    using assms(1) fd(1) [OF that] by (simp add: fcont_def fb)
qed

lemma fields_irrelevant:
  "fblk v (ip\<lparr>i_size := x\<rparr>) = fblk v ip" "fcont v (ip\<lparr>i_size := x\<rparr>) = fcont v ip" "file_ok s (ip\<lparr>i_size := x\<rparr>) = file_ok s ip"
  "fbyte v (ip\<lparr>i_size := x\<rparr>) = fbyte v ip"
proof -
  show f: "fblk v (ip\<lparr>i_size := x\<rparr>) = fblk v ip" for v by (simp add: fblk_def fun_eq_iff)
  show c: "fcont v (ip\<lparr>i_size := x\<rparr>) = fcont v ip" by (simp add: fcont_def f fun_eq_iff)
  show "file_ok s (ip\<lparr>i_size := x\<rparr>) = file_ok s ip" by (simp add: file_ok_def f)
  show "fbyte v (ip\<lparr>i_size := x\<rparr>) = fbyte v ip" by (simp add: fbyte_def c fun_eq_iff)
qed

text \<open>The bytes of a file after a write, up to its new size.\<close>

lemma fdata_patch:
  assumes b: "\<And>i. i < MAXFILE * BSIZE \<Longrightarrow> fbyte v' w i = (if off \<le> i \<and> i < off + length src then src ! (i - off) else fbyte v ip i)"
    and s: "unat (i_size w) = max (unat (i_size ip)) (off + length src)" "off \<le> unat (i_size ip)" "unat (i_size w) \<le> MAXFILE * BSIZE"
  shows "fdata v' w = patch off src (fdata v ip)"
proof (rule nth_equalityI)
  show l: "length (fdata v' w) = length (patch off src (fdata v ip))"
    using s by (simp add: fdata_def patch_def min_def max_def)
  fix i assume "i < length (fdata v' w)"
  then have i: "i < unat (i_size w)" by (simp add: fdata_def)
  have "fdata v' w ! i = fbyte v' w i" using i by (simp add: fdata_def)
  also have "\<dots> = (if off \<le> i \<and> i < off + length src then src ! (i - off) else fbyte v ip i)" using b i s(3) by simp
  also have "\<dots> = patch off src (fdata v ip) ! i"
    using i s(1,2) by (auto simp: patch_def fdata_def nth_append min_def max_def split: if_splits)
  finally show "fdata v' w ! i = patch off src (fdata v ip) ! i" .
qed

text \<open>writei() of at least one byte, starting inside the file or at its end.\<close>

lemma writei_ok:
  fixes s :: "'z cst_scheme"
  assumes tx: "txn s {} (6 * nblks (unat off) (length src) + Suc j)" and m: "meta_ok s" and ip: "ip < length (inodes s)"
    and v: "v = inodes s ! ip" "file_ok s v" "dense (blk s) v" "i_type v \<noteq> T_DEV" "unat (i_inum v) < unat (sb_ninodes (sb s))"
    and off: "off \<le> i_size v" "unat off + length src \<le> MAXFILE * BSIZE" "src \<noteq> []"
    and fr: "2 * nblks (unat off) (length src) \<le> card (frees s)"
  obtains t w where "writei ip src off (of_nat (length src)) s = Ok (int (length src)) t" "txn t {} j" "meta_ok t"
    "inodes t = (inodes s)[ip := w]" "w = v\<lparr>i_size := i_size w, i_addrs := i_addrs w\<rparr>" "file_ok t w" "dense (blk t) w"
    "unat (i_size w) = max (unat (i_size v)) (unat off + length src)" "fdata (blk t) w = patch (unat off) src (fdata (blk s) v)"
    "unat (i_size v) < unat off + length src \<Longrightarrow> dino t (unat (i_inum v)) = dinode_of w"
    "\<And>b. data_blk s b \<Longrightarrow> data_blk t b \<and> (b \<notin> fblocks (blk s) v \<longrightarrow> blk t b = blk s b)" "iframe s t"
proof -
  let ?n = "of_nat (length src) :: u32" and ?e = "unat off + length src"
  have small: "unat ?n = length src" "unat (off + ?n) = ?e" using off(2) by (simp_all add: unat_of_nat unat_word_ariths)
  have sn: "sint ?n = int (length src)" using sint_small [of ?n] small(1) off(2) by simp
  have tx': "txn s {} (6 * nblks (unat off) (length src) + Suc j)" "file_ok s (inodes s ! ip)" using tx v(1,2) by simp_all
  obtain t where t: "writei_loop ip (unat off) src s = Ok ?e t" "txn t {} (Suc j)" "wrote s ip (unat off) src t"
    using writei_loop_ok [OF tx'(1) m ip tx'(2) fr off(2,3)] by blast
  define x where "x = inodes t ! ip"
  obtain as where as: "inodes t = (inodes s)[ip := v\<lparr>i_addrs := as\<rparr>]" using t(3) v(1) unfolding wrote_def Let_def by blast
  then have x: "x = v\<lparr>i_addrs := as\<rparr>" using ip by (simp add: x_def)
  have w: "file_ok t x" "extends (fblocks (blk s) v) s t"
    "\<And>i. i < MAXFILE * BSIZE \<Longrightarrow> fbyte (blk t) x i = (if unat off \<le> i \<and> i < ?e then src ! (i - unat off) else fbyte (blk s) v i)"
    "\<And>n. n < MAXFILE \<Longrightarrow> fblk (blk s) v n \<noteq> 0 \<Longrightarrow> fblk (blk t) x n \<noteq> 0"
    "\<And>i. unat off \<le> i \<Longrightarrow> i < ?e \<Longrightarrow> fblk (blk t) x (i div BSIZE) \<noteq> 0"
    using t(3) unfolding wrote_def Let_def v(1) [symmetric] x_def [symmetric] by auto
  have sz: "unat (i_size v) \<le> MAXFILE * BSIZE" using v(3) by (simp add: dense_def)
  have fill: "fblk (blk t) x n \<noteq> 0" if "n * BSIZE < max (unat (i_size v)) ?e" for n
  proof (cases "n * BSIZE < unat (i_size v)")
    case True
    then have "n < MAXFILE" using sz by simp
    then show ?thesis using w(4) v(3) True by (simp add: dense_def)
  next
    case False
    then have "unat off \<le> n * BSIZE" "n * BSIZE < ?e" using that off(1) by (auto simp: word_le_nat_alt)
    then show ?thesis using w(5) [of "n * BSIZE"] by simp
  qed
  note et = extendsD [OF w(2)]
  have nz: "0 < ?n" using small(1) off(3) by (simp add: word_less_nat_alt)
  have over: "off + ?n < off \<longleftrightarrow> False" "off + ?n > of_nat (MAXFILE * BSIZE) \<longleftrightarrow> False" "off > i_size v \<longleftrightarrow> False"
    using small(2) off by (auto simp: word_less_nat_alt word_le_nat_alt)
  have un: "unat (of_nat ?e :: u32) = ?e" using off(2) by (simp add: unat_of_nat del: of_nat_add)
  define grow where "grow \<longleftrightarrow> i_size v < of_nat ?e"
  have grow: "grow \<longleftrightarrow> unat (i_size v) < ?e" by (simp only: grow_def word_less_nat_alt un)
  have run: "writei ip src off ?n s = thenM (whenM grow (thenM (upd_inode ip (\<lambda>v. v\<lparr>i_size := of_nat ?e\<rparr>)) (iupdate ip))) (retM (sint ?n)) t"
    using t(1) nz over v(1,4) small(1) x as ip
    by (simp add: writei_def kcode grow_def del: of_nat_add)
  show ?thesis
  proof (cases grow)
    case False
    have "writei ip src off ?n s = Ok (int (length src)) t" using run False sn by (simp add: kcode)
    moreover have ms: "unat (i_size x) = max (unat (i_size v)) ?e" using False grow x by simp
    moreover have "fdata (blk t) x = patch (unat off) src (fdata (blk s) v)"
      by (rule fdata_patch [OF w(3) ms]) (use off(1) sz x in \<open>auto simp: word_le_nat_alt\<close>)
    moreover have "dense (blk t) x" using fill sz off(2) ms by (simp add: dense_def)
    ultimately show ?thesis
      using that [of t x] txn_mono [OF t(2)] et as x w(1) False grow by auto
  next
    case True
    define y where "y = x\<lparr>i_size := of_nat ?e\<rparr>"
    let ?t = "t\<lparr>inodes := (inodes s)[ip := y]\<rparr>"
    have it: "(inodes t)[ip := (inodes t ! ip)\<lparr>i_size := of_nat ?e\<rparr>] = (inodes s)[ip := y]" using as x y_def ip by simp
    have sb: "sb t = sb s" by (rule iframeD [OF et(2)])
    have y: "y = inodes ?t ! ip" "i_dev y = 1" "unat (i_inum y) < unat (sb_ninodes (sb ?t))" "length (i_addrs y) = Suc NDIRECT" "i_inum y = i_inum v"
      using ip v(5) sb file_ok_len [OF w(1)] x by (simp_all add: y_def)
    have tt: "txn ?t {} (Suc j)" "meta_ok ?t" using t(2) et(1) by simp_all
    obtain u where u: "iupdate ip ?t = Ok () u" "txn u {} j" "lframe ?t u" "dino u (unat (i_inum y)) = dinode_of y"
      "\<And>b. b \<noteq> iblk (sb ?t) (unat (i_inum y)) \<Longrightarrow> blk u b = blk ?t b" "meta_ok u"
      by (rule iupdate_ok [OF tt y(1-4)]) blast
    have iu: "inodes u = (inodes s)[ip := y]" using lframeD(9) [OF u(3)] by simp
    note d0 = inode_block_data [OF tt(2) u(3) y(3) u(5)]
    have d: "data_blk u = data_blk t" "\<And>c. data_blk t c \<Longrightarrow> blk u c = blk t c" using d0 by simp_all
    note fs = file_same [OF d(2,1) w(1)]
    have ys: "unat (i_size y) = max (unat (i_size v)) ?e" using True grow un by (simp add: y_def del: of_nat_add)
    have "fbyte (blk u) y i = (if unat off \<le> i \<and> i < ?e then src ! (i - unat off) else fbyte (blk s) v i)" if "i < MAXFILE * BSIZE" for i
    proof -
      have "i div BSIZE < MAXFILE" using that by (simp add: div_less_iff_less_mult)
      then show ?thesis using w(3) [OF that] fs(3) [of "i div BSIZE"] by (simp add: y_def fields_irrelevant fbyte_def)
    qed
    then have fd: "fdata (blk u) y = patch (unat off) src (fdata (blk s) v)"
      by (rule fdata_patch [OF _ ys]) (use off sz ys in \<open>auto simp: word_le_nat_alt\<close>)
    have dn: "dense (blk u) y" unfolding dense_def ys
    proof (intro conjI allI impI)
      fix n assume n: "n * BSIZE < max (unat (i_size v)) ?e"
      then have "n < MAXFILE" using sz off(2) by simp
      then show "fblk (blk u) y n \<noteq> 0" using fill [OF n] fs(1) [of n] by (simp add: y_def fields_irrelevant)
    qed (use sz off(2) in simp)
    have w1: "writei ip src off ?n s = Ok (int (length src)) u"
      using run True sn u(1) it by (simp add: kcode del: of_nat_add)
    have w2: "y = v\<lparr>i_size := i_size y, i_addrs := i_addrs y\<rparr>" using x by (simp add: y_def)
    have w3: "file_ok u y" using fs(2) by (simp add: y_def fields_irrelevant)
    have w4: "iframe s u" using iframe_trans [OF iframe_trans [OF et(2) iframe_upd] lframe_iframe [OF u(3)]] .
    have w5: "data_blk u b \<and> (b \<notin> fblocks (blk s) v \<longrightarrow> blk u b = blk s b)" if "data_blk s b" for b
      using et(3,4) [OF that] d by auto
    show ?thesis using that [OF w1 u(2,6) iu w2 w3 dn ys fd _ w5 w4] u(4) y(5) by simp
  qed
qed

section \<open>readi()\<close>

lemma readi_ok:
  fixes s :: "'z cst_scheme"
  assumes c: "calm s {} k" and m: "meta_ok s" and v: "v = inodes s ! ip" "file_ok s v" "dense (blk s) v" "i_type v \<noteq> T_DEV"
  shows "if off > i_size v \<or> off + n < off then readi ip off n s = Ok (-1, []) s
    else let d = take (unat n) (drop (unat off) (fdata (blk s) v)) in
      \<exists>t. readi ip off n s = Ok (int (length d), d) t \<and> blk t = blk s \<and> inodes t = inodes s \<and> calm t {} k \<and> lframe s t"
proof (cases "off > i_size v \<or> off + n < off")
  case True
  then show ?thesis using v by (auto simp: readi_def kcode)
next
  case False
  define l where "l = (if off + n > i_size v then i_size v - off else n)"
  have ov: "unat (off + n) = unat off + unat n"
  proof (rule ccontr)
    assume ne: "unat (off + n) \<noteq> unat off + unat n"
    have "unat off + unat n < 2 ^ 32 \<Longrightarrow> unat (off + n) = unat off + unat n" by (simp add: unat_word_ariths)
    then have "\<not> unat off + unat n < 2 ^ 32" using ne by blast
    then have ge: "4294967296 \<le> unat off + unat n" by simp
    have lt: "unat off < 4294967296" "unat n < 4294967296" using unsigned_less [of off] unsigned_less [of n] by simp_all
    have "unat (off + n) = (unat off + unat n) mod 4294967296" by (simp add: unat_word_ariths)
    also have "\<dots> = (unat off + unat n - 4294967296) mod 4294967296" by (rule le_mod_geq [OF ge])
    also have "\<dots> = unat off + unat n - 4294967296" by (rule mod_less) (use lt in linarith)
    finally have "unat (off + n) < unat off" using lt ge by linarith
    then show False using False by (simp add: word_less_nat_alt)
  qed
  have ol: "unat off \<le> unat (i_size v)" using False by (simp add: word_less_nat_alt)
  have ul: "unat l = min (unat n) (unat (i_size v) - unat off)"
    using ov ol by (auto simp: l_def word_less_nat_alt unat_sub word_le_nat_alt)
  have sz: "unat (i_size v) \<le> MAXFILE * BSIZE" using v(3) by (simp add: dense_def)
  have "unat l \<le> 71680" using ul sz by linarith
  then have "unat l < 2 ^ 31" by simp
  then have sl: "sint l = int (unat l)" by (rule sint_small)
  have "unat off + unat l \<le> unat (i_size (inodes s ! ip))" using ul ol v(1) by simp
  from readi_loop_ok [OF c m v(2) [unfolded v(1)] v(3) [unfolded v(1)] this]
  obtain t where t: "readi_loop ip (unat off) (unat l) s = Ok (map (fbyte (blk s) v) [unat off..<unat off + unat l]) t"
    "calm t {} k" "blk t = blk s" "lframe s t" unfolding v(1) [symmetric] by blast
  let ?d = "take (unat n) (drop (unat off) (fdata (blk s) v))"
  have d: "?d = map (fbyte (blk s) v) [unat off..<unat off + unat l]"
    by (rule nth_equalityI) (use ul in \<open>auto simp: fdata_def min_def split: if_splits\<close>)
  have "readi ip off n s = Ok (sint l, ?d) t"
    using False v(1,4) t(1) d by (auto simp: readi_def kcode Let_def l_def)
  moreover have "sint l = int (length ?d)" unfolding d sl by simp
  ultimately show ?thesis unfolding if_not_P [OF False] Let_def using t lframeD(9) [OF t(4)] by auto
qed

section \<open>Properties\<close>

text \<open>
  C20: readi() on a file without holes, with or without a transaction, returns
  the bytes of the file from \<open>off\<close> on, at most \<open>n\<close> and no further than the end
  of the file, and changes no block and no inode; an offset beyond the end, or
  one with \<open>off + n\<close> wrapping around, gives -1.
\<close>

theorem readi_spec:
  fixes s :: "'z cst_scheme"
  assumes "calm s {} k" "meta_ok s" "v = inodes s ! ip" "file_ok s v" "dense (blk s) v" "i_type v \<noteq> T_DEV"
  shows "if off > i_size v \<or> off + n < off then readi ip off n s = Ok (-1, []) s
    else let d = take (unat n) (drop (unat off) (fdata (blk s) v)) in
      \<exists>t. readi ip off n s = Ok (int (length d), d) t \<and> blk t = blk s \<and> inodes t = inodes s \<and> calm t {} k"
  using readi_ok [OF assms, of off n] unfolding Let_def by (auto split: if_splits)

text \<open>The small machine with an empty file, inode 1, open in slot 0 of the inode cache.\<close>

definition empty_file :: inode where
  "empty_file = zero_inode\<lparr>i_dev := 1, i_inum := 1, i_ref := 1, i_valid := True, i_type := T_FILE, i_nlink := 1\<rparr>"

lemma small_inodes:
  obtains s :: cst where "binit ((boot_cst (small_disk zero_block []))\<lparr>inodes := ips\<rparr>) = Ok () s" "txn s {} 29" "meta_ok s"
    "inodes s = ips" "sb s = small_sb" "24 \<le> card (frees s)"
    "kok s" "\<And>ch. no_sleeper ch s" "\<And>k. \<not> sl_locked (slks s (SL_inode k))"
proof -
  let ?s0 = "(boot_cst (small_disk zero_block []))\<lparr>inodes := ips\<rparr>"
  have s0: "small_machine (small_disk zero_block []) ?s0"
    by (auto simp: small_machine_def boot_cst_def ist.extend_def cst.fields_def boot_ist_def lst.extend_def ist.fields_def boot_lst_def
      bst.extend_def lst.fields_def boot_bst_def kok_def no_sleeper_def zero_proc_def)
  obtain s where s: "binit ?s0 = Ok () s" "txn s {} 29" "fs_ok s" "sb s = small_sb" "bframe ?s0 s"
    "\<And>k. \<not> sl_locked (slks s (SL_inode k))"
    and il: "\<And>b. in_log s b \<longleftrightarrow> 2 \<le> b \<and> b < 32" and ns: "\<And>ch. no_sleeper ch s"
    and u: "\<And>c. c < 64 \<Longrightarrow> used (blk s) small_sb c \<longleftrightarrow> c < 40"
    by (rule small_booted [OF s0]) (auto simp: zero_block_def)
  have m: "meta_ok s" unfolding meta_ok_def Let_def s(4)
    using s(3) u il by (auto simp: small_sb_def iblk_def bmblk_def)
  have "{40..<64} \<subseteq> frees s" using u by (auto simp: frees_def s(4)) (simp add: small_sb_def)
  then have fr: "24 \<le> card (frees s)" using card_mono [of "frees s" "{40..<64}"] by simp
  have i: "inodes s = ips" using s(5) by (auto simp: bframe_def)
  have "kok s" using s(2) by (simp add: txn_def calm_def log_inv_def bcache_ok_def)
  then show ?thesis using that [OF s(1,2) m i s(4) fr _ ns s(6)] by blast
qed

text \<open>A file without blocks.\<close>

lemma empty_file_ok:
  assumes "i_addrs v = replicate (Suc NDIRECT) 0" "i_dev v = 1" "i_size v = 0"
  shows "file_ok s v" "dense w v"
proof -
  have fb: "fblk x v n = 0" for x n using assms(1) by (auto simp: fblk_def)
  show "file_ok s v" "dense w v" using assms by (simp_all add: file_ok_def dense_def fb)
qed

lemma small_file:
  obtains s :: cst where "binit ((boot_cst (small_disk zero_block []))\<lparr>inodes := [empty_file]\<rparr>) = Ok () s" "txn s {} 29" "meta_ok s"
    "inodes s = [empty_file]" "file_ok s empty_file" "dense (blk s) empty_file" "sb s = small_sb" "24 \<le> card (frees s)"
    "kok s" "\<And>ch. no_sleeper ch s" "\<And>k. \<not> sl_locked (slks s (SL_inode k))"
proof -
  obtain s :: cst where s: "binit ((boot_cst (small_disk zero_block []))\<lparr>inodes := [empty_file]\<rparr>) = Ok () s" "txn s {} 29" "meta_ok s"
    "inodes s = [empty_file]" "sb s = small_sb" "24 \<le> card (frees s)"
    "kok s" "\<And>ch. no_sleeper ch s" "\<And>k. \<not> sl_locked (slks s (SL_inode k))"
    by (rule small_inodes [where ips = "[empty_file]"]) blast
  have "file_ok s empty_file" "dense (blk s) empty_file"
    by (rule empty_file_ok; simp add: empty_file_def zero_inode_def)+
  then show ?thesis using that [OF s(1-4) _ _ s(5-9)] by blast
qed

theorem readi_spec_witness:
  "\<exists>s t :: cst. inodes s = [empty_file] \<and> readi 0 0 10 s = Ok (0, []) t \<and> readi 0 5 10 s = Ok (-1, []) s"
proof -
  obtain s :: cst where s: "txn s {} 29" "meta_ok s" "inodes s = [empty_file]" "file_ok s empty_file" "dense (blk s) empty_file"
    by (rule small_file)
  have v: "empty_file = inodes s ! 0" "i_type empty_file \<noteq> T_DEV" "i_size empty_file = 0"
    using s(3) by (simp_all add: empty_file_def zero_inode_def)
  note r = readi_spec [OF txn_calm [OF s(1)] s(2) v(1) s(4,5) v(2)]
  have "fdata (blk s) empty_file = []" using v(3) by (simp add: fdata_def)
  then obtain t where "readi 0 0 10 s = Ok (0, []) t" using r [of 0 10] v(3) by (auto simp: Let_def)
  moreover have "readi 0 5 10 s = Ok (-1, []) s" using r [of 5 10] v(3) by simp
  ultimately show ?thesis using s(3) by blast
qed


text \<open>
  What writei() wrote is what readi() reads back at the same offset.
\<close>

lemma writei_readi_roundtrip:
  fixes s :: "'z cst_scheme"
  assumes a: "txn s {} (6 * nblks (unat off) (length src) + Suc j)" "meta_ok s" "ip < length (inodes s)"
    and v: "v = inodes s ! ip" "file_ok s v" "dense (blk s) v" "i_type v \<noteq> T_DEV" "unat (i_inum v) < unat (sb_ninodes (sb s))"
    and o: "off \<le> i_size v" "unat off + length src \<le> MAXFILE * BSIZE" "src \<noteq> []"
    and f: "2 * nblks (unat off) (length src) \<le> card (frees s)"
  shows "\<exists>t u. writei ip src off (of_nat (length src)) s = Ok (int (length src)) t
    \<and> readi ip off (of_nat (length src)) t = Ok (int (length src), src) u"
proof -
  let ?n = "of_nat (length src) :: u32"
  obtain t w where t: "writei ip src off ?n s = Ok (int (length src)) t" "txn t {} j" "meta_ok t"
    "inodes t = (inodes s)[ip := w]" "w = v\<lparr>i_size := i_size w, i_addrs := i_addrs w\<rparr>" "file_ok t w" "dense (blk t) w"
    "unat (i_size w) = max (unat (i_size v)) (unat off + length src)" "fdata (blk t) w = patch (unat off) src (fdata (blk s) v)"
    by (rule writei_ok [OF a v o f]) blast
  have w: "w = inodes t ! ip" using t(4) a(3) by simp
  have ty: "i_type w \<noteq> T_DEV" by (subst t(5)) (simp add: v(4))
  obtain c' where c: "calm t {} c'" using txn_calm [OF t(2)] by blast
  have small: "unat ?n = length src" "unat (off + ?n) = unat off + length src" using o(2) by (simp_all add: unat_of_nat unat_word_ariths)
  have no: "\<not> (off > i_size w \<or> off + ?n < off)" using t(8) small(2) by (auto simp: word_less_nat_alt)
  have lv: "unat off \<le> length (fdata (blk s) v)" using o(1) by (simp add: fdata_def word_le_nat_alt)
  have "take (unat ?n) (drop (unat off) (fdata (blk t) w)) = src"
    unfolding t(9) small(1) using lv by (simp add: patch_def)
  then obtain u where "readi ip off ?n t = Ok (int (length src), src) u"
    using readi_ok [OF c t(3) w t(6,7) ty, of off ?n] unfolding if_not_P [OF no] Let_def by auto
  then show ?thesis using t(1) by blast
qed

lemma hello_blocks: "nblks (unat (0 :: u32)) (length (cbytes ''hello'')) = 1"
  by (simp add: nblks_def)


lemma writei_readi_roundtrip_witness:
  "\<exists>s t u :: cst. writei 0 (cbytes ''hello'') 0 5 s = Ok 5 t \<and> readi 0 0 5 t = Ok (5, cbytes ''hello'') u"
proof -
  obtain s :: cst where s: "txn s {} 29" "meta_ok s" "inodes s = [empty_file]" "file_ok s empty_file" "dense (blk s) empty_file"
    "sb s = small_sb" "24 \<le> card (frees s)"
    by (rule small_file)
  have v: "empty_file = inodes s ! 0" "i_type empty_file \<noteq> T_DEV" "unat (i_inum empty_file) < unat (sb_ninodes (sb s))"
    using s(3,6) by (simp_all add: empty_file_def zero_inode_def small_sb_def)
  have tx: "txn s {} (6 * nblks (unat (0 :: u32)) (length (cbytes ''hello'')) + Suc 0)" unfolding hello_blocks by (rule txn_mono [OF s(1)]) simp
  have h: "0 < length (inodes s)" "(0 :: u32) \<le> i_size empty_file" "unat (0 :: u32) + length (cbytes ''hello'') \<le> MAXFILE * BSIZE"
    "cbytes ''hello'' \<noteq> []" "2 * nblks (unat (0 :: u32)) (length (cbytes ''hello'')) \<le> card (frees s)"
    using s(3,7) unfolding hello_blocks by (simp_all add: cbytes_def)
  show ?thesis using writei_readi_roundtrip [OF tx s(2) h(1) v(1) s(4,5) v(2,3) h(2-5)] by auto
qed

end
