(* ===== verification/Dir.thy ===== *)
theory Dir
  imports Fs_File
begin

text \<open>
  fs.c, directories and path names: dirlookup() and dirlink() on the entries
  of a directory file, skipelem() that takes a path apart, and namex() that
  follows it.
\<close>

abbreviation (input) DIRSIZ :: nat where "DIRSIZ \<equiv> 14"
abbreviation (input) DIRENT :: nat where "DIRENT \<equiv> 16"
abbreviation (input) ROOTINO :: u32 where "ROOTINO \<equiv> 1"

section \<open>Names\<close>

text \<open>
  A name is a character array of DIRSIZ bytes, or a string; reading behind the
  end of the list is reading its terminating NUL.  An entry holds the name as
  \<open>strncpy(de.name, name, DIRSIZ)\<close> leaves it.
\<close>

definition namecmp :: "bytes \<Rightarrow> bytes \<Rightarrow> int" where
  "namecmp s t = strncmp_l s t DIRSIZ"

definition dirent_bytes :: "u32 \<Rightarrow> bytes \<Rightarrow> bytes" where
  "dirent_bytes inum name = le16_enc (ucast inum) @ strncpy_l name DIRSIZ"

section \<open>Directories\<close>

text \<open>The offsets \<open>for(off = 0; off < dp->size; off += sizeof(de))\<close> visits.\<close>

definition dir_offs :: "u32 \<Rightarrow> nat list" where
  "dir_offs n = map (\<lambda>k. DIRENT * k) [0..<(unat n + (DIRENT - 1)) div DIRENT]"

definition dirlookup_turn :: "nat \<Rightarrow> bytes \<Rightarrow> nat \<Rightarrow> ('z cst_scheme, (nat \<times> nat) option) kfun" where
  "dirlookup_turn dp name off =
     bindM (readi dp (of_nat off) (of_nat DIRENT)) (\<lambda>(r, de).
     thenM (assertM (r = int DIRENT) ''dirlookup read'')
     (if get16 de 0 = 0 then retM None
      else if namecmp name (drop 2 de) = 0 then
        bindM (get_inode dp) (\<lambda>v.
        bindM (iget (i_dev v) (ucast (get16 de 0))) (\<lambda>ip.
        retM (Some (ip, off))))
      else retM None))"

text \<open>The result is the inode and, for \<open>*poff\<close>, the entry's offset.\<close>

definition dirlookup :: "nat \<Rightarrow> bytes \<Rightarrow> ('z cst_scheme, (nat \<times> nat) option) kfun" where
  "dirlookup dp name =
     bindM (get_inode dp) (\<lambda>v.
     thenM (assertM (i_type v = T_DIR) ''dirlookup not DIR'')
     (findM (dir_offs (i_size v)) (dirlookup_turn dp name)))"

definition dirlink_turn :: "nat \<Rightarrow> nat \<Rightarrow> ('z cst_scheme, nat option) kfun" where
  "dirlink_turn dp off =
     bindM (readi dp (of_nat off) (of_nat DIRENT)) (\<lambda>(r, de).
     thenM (assertM (r = int DIRENT) ''dirlink read'')
     (retM (if get16 de 0 = 0 then Some off else None)))"

definition dirlink :: "nat \<Rightarrow> bytes \<Rightarrow> u32 \<Rightarrow> ('z cst_scheme, int) kfun" where
  "dirlink dp name inum =
     bindM (dirlookup dp name) (\<lambda>r.
     case r of
       Some (ip, _) \<Rightarrow> thenM (iput ip) (retM (-1))
     | None \<Rightarrow>
         bindM (get_inode dp) (\<lambda>v.
         bindM (findM (dir_offs (i_size v)) (dirlink_turn dp)) (\<lambda>e.
         let off = (case e of Some off \<Rightarrow> off | None \<Rightarrow> DIRENT * length (dir_offs (i_size v))) in
         bindM (writei dp (dirent_bytes inum name) (of_nat off) (of_nat DIRENT)) (\<lambda>r.
         thenM (assertM (r = int DIRENT) ''dirlink'')
         (retM 0)))))"

section \<open>Paths\<close>

definition slash :: u8 where "slash = 0x2F"

text \<open>The result is the rest of the path and the name: the element, or its first DIRSIZ bytes.\<close>

definition skipelem :: "bytes \<Rightarrow> (bytes \<times> bytes) option" where
  "skipelem path =
     (let path = dropWhile (\<lambda>c. c = slash) path in
      if path = [] then None
      else let s = takeWhile (\<lambda>c. c \<noteq> slash) path;
               path = dropWhile (\<lambda>c. c \<noteq> slash) path;
               name = (if length s \<ge> DIRSIZ then take DIRSIZ s else s)
        in Some (dropWhile (\<lambda>c. c = slash) path, name))"

lemma skipelem_shorter: "skipelem path = Some (rest, name) \<Longrightarrow> length rest < length path"
proof -
  assume a: "skipelem path = Some (rest, name)"
  define p where "p = dropWhile (\<lambda>c. c = slash) path"
  have p: "p \<noteq> []" "rest = dropWhile (\<lambda>c. c = slash) (dropWhile (\<lambda>c. c \<noteq> slash) p)"
    using a by (auto simp: skipelem_def Let_def p_def split: if_splits)
  have "hd p \<noteq> slash" using p(1) hd_dropWhile [of "\<lambda>c. c = slash" path] by (simp add: p_def)
  then obtain c r where "p = c # r" "c \<noteq> slash" using p(1) by (cases p) auto
  then have "length rest \<le> length r" using p(2) by (simp add: le_trans [OF length_dropWhile_le length_dropWhile_le])
  moreover have "length p \<le> length path" by (simp add: p_def length_dropWhile_le)
  ultimately show ?thesis using \<open>p = c # r\<close> by simp
qed

text \<open>The loop of namex(); the result is the inode, if any, and the last name copied.\<close>

function namex_loop :: "nat \<Rightarrow> bool \<Rightarrow> bytes \<Rightarrow> bytes \<Rightarrow> ('z cst_scheme, nat option \<times> bytes) kfun" where
  "namex_loop ip nameiparent path name =
     (case skipelem path of
        None \<Rightarrow>
          if nameiparent then thenM (iput ip) (retM (None, name)) else retM (Some ip, name)
      | Some (path', name') \<Rightarrow>
          thenM (ilock ip)
          (bindM (get_inode ip) (\<lambda>v.
           if i_type v \<noteq> T_DIR then thenM (iunlockput ip) (retM (None, name'))
           else if nameiparent \<and> path' = [] then thenM (iunlock ip) (retM (Some ip, name'))
           else bindM (dirlookup ip name') (\<lambda>r.
             case r of
               None \<Rightarrow> thenM (iunlockput ip) (retM (None, name'))
             | Some (nxt, _) \<Rightarrow> thenM (iunlockput ip) (namex_loop nxt nameiparent path' name')))))"
  by pat_completeness auto
termination by (relation "measure (\<lambda>(ip, np, path, name). length path)") (auto dest: skipelem_shorter)

declare namex_loop.simps [simp del]

definition namex :: "bytes \<Rightarrow> bool \<Rightarrow> ('z cst_scheme, nat option \<times> bytes) kfun" where
  "namex path nameiparent =
     bindM (if headz path = slash then iget ROOTDEV ROOTINO
            else bindM curproc (\<lambda>p.
              bindM (getM (\<lambda>s. cwd (procs s ! p))) (\<lambda>c.
              case c of None \<Rightarrow> faultM ''cwd is null'' | Some ip \<Rightarrow> idup ip))) (\<lambda>ip.
     namex_loop ip nameiparent path [])"

definition namei :: "bytes \<Rightarrow> ('z cst_scheme, nat option) kfun" where
  "namei path = bindM (namex path False) (\<lambda>(ip, _). retM ip)"

definition nameiparent :: "bytes \<Rightarrow> ('z cst_scheme, nat option \<times> bytes) kfun" where
  "nameiparent path = namex path True"


section \<open>The elements of a path\<close>

text \<open>The names successive calls of skipelem() copy out of a path.\<close>

function path_names :: "bytes \<Rightarrow> bytes list" where
  "path_names path = (case skipelem path of None \<Rightarrow> [] | Some (rest, name) \<Rightarrow> name # path_names rest)"
  by pat_completeness auto
termination by (relation "measure length") (auto dest: skipelem_shorter)

declare path_names.simps [simp del]

text \<open>The parts of a path between slashes, the empty ones included.\<close>

fun split_path :: "bytes \<Rightarrow> bytes list" where
  "split_path [] = [[]]"
| "split_path (c # cs) = (if c = slash then [] # split_path cs
     else case split_path cs of [] \<Rightarrow> [[c]] | e # es \<Rightarrow> (c # e) # es)"

lemma split_path_neq [simp]: "split_path cs \<noteq> []"
  by (induction cs) (auto split: list.splits)

lemma split_path_elem:
  "split_path cs = takeWhile (\<lambda>c. c \<noteq> slash) cs #
     (case dropWhile (\<lambda>c. c \<noteq> slash) cs of [] \<Rightarrow> [] | _ # r \<Rightarrow> split_path r)"
  by (induction cs) (auto split: list.splits)

lemma split_path_slashes:
  "filter (\<lambda>e. e \<noteq> []) (split_path (dropWhile (\<lambda>c. c = slash) cs)) = filter (\<lambda>e. e \<noteq> []) (split_path cs)"
  by (induction cs) auto

lemma split_path_rest:
  "filter (\<lambda>e. e \<noteq> []) (case dropWhile (\<lambda>c. c \<noteq> slash) cs of [] \<Rightarrow> [] | _ # r \<Rightarrow> split_path r)
   = filter (\<lambda>e. e \<noteq> []) (split_path (dropWhile (\<lambda>c. c \<noteq> slash) cs))"
proof (cases "dropWhile (\<lambda>c. c \<noteq> slash) cs")
  case (Cons c r)
  then have "c = slash" using hd_dropWhile [of "\<lambda>c. c \<noteq> slash" cs] by simp
  then show ?thesis using Cons by simp
next
  case Nil
  then show ?thesis unfolding Nil by simp
qed

lemma skipelem_step:
  "case skipelem path of None \<Rightarrow> filter (\<lambda>e. e \<noteq> []) (split_path path) = []
   | Some (rest, name) \<Rightarrow> \<exists>e. name = take DIRSIZ e \<and> (rest = [] \<or> hd rest \<noteq> slash)
       \<and> filter (\<lambda>e. e \<noteq> []) (split_path path) = e # filter (\<lambda>e. e \<noteq> []) (split_path rest)"
proof (cases "dropWhile (\<lambda>c. c = slash) path")
  case Nil
  then show ?thesis using split_path_slashes [of path] unfolding Nil skipelem_def by simp
next
  case (Cons c r)
  let ?p = "dropWhile (\<lambda>c. c = slash) path"
  let ?r = "dropWhile (\<lambda>c. c = slash) (dropWhile (\<lambda>c. c \<noteq> slash) ?p)"
  let ?e = "takeWhile (\<lambda>c. c \<noteq> slash) ?p"
  have c: "c \<noteq> slash" using Cons hd_dropWhile [of "\<lambda>c. c = slash" path] by simp
  have "filter (\<lambda>e. e \<noteq> []) (split_path path) = filter (\<lambda>e. e \<noteq> []) (split_path ?p)"
    by (rule split_path_slashes [symmetric])
  also have "\<dots> = ?e # filter (\<lambda>e. e \<noteq> []) (split_path (dropWhile (\<lambda>c. c \<noteq> slash) ?p))"
    using split_path_rest [of ?p] c Cons by (subst split_path_elem) simp
  also have "\<dots> = ?e # filter (\<lambda>e. e \<noteq> []) (split_path ?r)" by (simp only: split_path_slashes)
  finally have "filter (\<lambda>e. e \<noteq> []) (split_path path) = ?e # filter (\<lambda>e. e \<noteq> []) (split_path ?r)" .
  moreover have "skipelem path = Some (?r, take DIRSIZ ?e)" using Cons by (simp add: skipelem_def Let_def)
  moreover have "?r = [] \<or> hd ?r \<noteq> slash"
    using hd_dropWhile [of "\<lambda>c. c = slash" "dropWhile (\<lambda>c. c \<noteq> slash) ?p"] by blast
  ultimately show ?thesis by auto
qed

text \<open>
  C23: the names that repeated calls of skipelem() take from a path are its
  parts between slashes in order, empty parts left out (so leading, repeated
  and trailing slashes do not matter) and each cut to DIRSIZ bytes.
\<close>

theorem skipelem_equiv: "path_names path = map (take DIRSIZ) (filter (\<lambda>e. e \<noteq> []) (split_path path))"
proof (induction path rule: path_names.induct)
  case (1 path)
  show ?case
  proof (cases "skipelem path")
    case None
    then show ?thesis using skipelem_step [of path] by (simp add: path_names.simps [of path])
  next
    case (Some x)
    obtain rest name where x: "x = (rest, name)" by (cases x)
    obtain e where "name = take DIRSIZ e" "filter (\<lambda>e. e \<noteq> []) (split_path path) = e # filter (\<lambda>e. e \<noteq> []) (split_path rest)"
      using skipelem_step [of path] Some x by auto
    then show ?thesis using 1 [OF Some, of rest name] Some x by (simp add: path_names.simps [of path])
  qed
qed

section \<open>dirlookup()\<close>

text \<open>
  The entry at byte \<open>off\<close> of a directory's contents: its inode number and
  its name.  \<open>dir_hit\<close> is the test of dirlookup().
\<close>

definition de_inum :: "bytes \<Rightarrow> nat \<Rightarrow> u16" where
  "de_inum d off = get16 (take DIRENT (drop off d)) 0"

definition de_name :: "bytes \<Rightarrow> nat \<Rightarrow> bytes" where
  "de_name d off = cname DIRSIZ (drop 2 (take DIRENT (drop off d)))"

definition dir_hit :: "bytes \<Rightarrow> bytes \<Rightarrow> nat \<Rightarrow> bool" where
  "dir_hit d name off \<longleftrightarrow> de_inum d off \<noteq> 0 \<and> de_name d off = cname DIRSIZ name"

text \<open>A directory in memory: a file of whole entries, without holes.\<close>

definition dir_ok :: "'z cst_scheme \<Rightarrow> inode \<Rightarrow> bool" where
  "dir_ok s v \<longleftrightarrow> file_ok s v \<and> dense (blk s) v \<and> i_type v = T_DIR \<and> DIRENT dvd unat (i_size v)"

lemma dir_offs_in:
  assumes "DIRENT dvd unat n" "off \<in> set (dir_offs n)"
  shows "off + DIRENT \<le> unat n"
  using assms by (auto simp: dir_offs_def dvd_def)

lemma namecmp_hit: "namecmp name (drop 2 (take DIRENT (drop off d))) = 0 \<longleftrightarrow> de_name d off = cname DIRSIZ name"
  by (auto simp: namecmp_def strncmp_l_eq de_name_def)

lemma dir_readi:
  fixes s :: "'z cst_scheme"
  assumes c: "calm s {} k" and m: "meta_ok s" and v: "v = inodes s ! dp" "dir_ok s v" and o: "off \<in> set (dir_offs (i_size v))"
  obtains t where "readi dp (of_nat off) (of_nat DIRENT) s = Ok (int DIRENT, take DIRENT (drop off (fdata (blk s) v))) t"
    "calm t {} k" "blk t = blk s" "lframe s t"
proof -
  have d: "file_ok s v" "dense (blk s) v" "i_type v \<noteq> T_DEV" "DIRENT dvd unat (i_size v)" using v(2) by (auto simp: dir_ok_def)
  have le: "off + DIRENT \<le> unat (i_size v)" by (rule dir_offs_in [OF d(4) o])
  then have lt: "off + DIRENT < 2 ^ 32" using unsigned_less [of "i_size v"] d(2) by (simp add: dense_def)
  then have u: "unat (of_nat off :: u32) = off" "unat (of_nat off + of_nat DIRENT :: u32) = off + DIRENT"
    by (simp_all add: unat_of_nat unat_word_ariths)
  have no: "\<not> (of_nat off > i_size v \<or> of_nat off + of_nat DIRENT < (of_nat off :: u32))"
    using le u by (simp add: word_less_nat_alt)
  have "length (take DIRENT (drop off (fdata (blk s) v))) = DIRENT" using le by (simp add: fdata_def)
  then show ?thesis using that readi_ok [OF c m v(1) d(1-3), of "of_nat off" "of_nat DIRENT"] u(1) unfolding if_not_P [OF no] Let_def
    by auto
qed

section \<open>A directory as a map from names to inode numbers\<close>

definition dir_slots :: "bytes \<Rightarrow> nat list" where
  "dir_slots d = map (\<lambda>k. DIRENT * k) [0..<length d div DIRENT]"

definition dir_map :: "bytes \<Rightarrow> bytes \<rightharpoonup> u16" where
  "dir_map d nm = map_option (de_inum d) (find (\<lambda>off. de_inum d off \<noteq> 0 \<and> de_name d off = nm) (dir_slots d))"

lemma dir_offs_slots:
  assumes "DIRENT dvd unat (i_size v)"
  shows "dir_offs (i_size v) = dir_slots (fdata w v)"
proof -
  obtain n where "unat (i_size v) = DIRENT * n" using assms by (auto simp: dvd_def)
  then show ?thesis by (simp add: dir_offs_def dir_slots_def fdata_def)
qed

lemma find_only:
  assumes "x \<in> set xs" "P x" and u: "\<And>y. y \<in> set xs \<Longrightarrow> P y \<Longrightarrow> y = x"
  shows "find P xs = Some x"
proof (cases "find P xs")
  case None
  then show ?thesis using assms(1,2) by (simp add: find_None_iff)
next
  case (Some y)
  then have "y \<in> set xs" "P y" by (auto simp: find_Some_iff)
  then show ?thesis using u [of y] Some by simp
qed

lemma length_dirent_bytes [simp]: "length (dirent_bytes inum name) = DIRENT"
  by (simp add: dirent_bytes_def)

lemma dirent_patch:
  assumes "off \<le> length d"
  shows "de_inum (patch off (dirent_bytes inum name) d) off = ucast inum"
    "de_name (patch off (dirent_bytes inum name) d) off = cname DIRSIZ name"
  using assms by (simp_all add: de_inum_def de_name_def patch_def get16_def dirent_bytes_def cname_strncpy_l)

lemma dirent_patch_other:
  assumes "off = DIRENT * k" "a = DIRENT * j" "j \<noteq> k" "off \<le> length d" "a + DIRENT \<le> length d"
  shows "de_inum (patch off (dirent_bytes inum name) d) a = de_inum d a"
    "de_name (patch off (dirent_bytes inum name) d) a = de_name d a"
proof -
  have "a + DIRENT \<le> off \<or> off + DIRENT \<le> a" using assms(1-3) by (cases "j < k") auto
  then have "take DIRENT (drop a (patch off (dirent_bytes inum name) d)) = take DIRENT (drop a d)"
  proof
    assume "a + DIRENT \<le> off"
    then show ?thesis using assms(4) by (auto simp: patch_def min_def drop_take)
  next
    assume "off + DIRENT \<le> a"
    then show ?thesis using assms(4,5) by (simp add: patch_def min_def)
  qed
  then show "de_inum (patch off (dirent_bytes inum name) d) a = de_inum d a"
    "de_name (patch off (dirent_bytes inum name) d) a = de_name d a"
    by (simp_all add: de_inum_def de_name_def)
qed

text \<open>Writing an entry into a free slot, or behind the last one, adds a name to the map.\<close>

lemma dir_map_patch:
  assumes d: "DIRENT dvd length d" and off: "off = DIRENT * k" "off \<le> length d" and free: "off < length d \<Longrightarrow> de_inum d off = 0"
    and none: "dir_map d (cname DIRSIZ name) = None" and i: "(ucast inum :: u16) \<noteq> 0"
  defines "e \<equiv> patch off (dirent_bytes inum name) d"
  shows "dir_map e = (dir_map d)(cname DIRSIZ name \<mapsto> ucast inum)" "DIRENT dvd length e"
proof
  obtain n where n: "length d = DIRENT * n" using d by (auto simp: dvd_def)
  then have k: "k \<le> n" using off by simp
  have le: "length e = DIRENT * max n (Suc k)" using n off k by (auto simp: e_def patch_def max_def)
  then show "DIRENT dvd length e" by simp
  have sl: "dir_slots e = (if k = n then dir_slots d @ [off] else dir_slots d)"
    using le n k off(1) by (cases "k = n") (simp_all add: dir_slots_def max_absorb1 max_absorb2)
  have at: "de_inum e off = ucast inum" "de_name e off = cname DIRSIZ name"
    using dirent_patch [OF off(2)] by (simp_all add: e_def)
  have oth: "de_inum e a = de_inum d a \<and> de_name e a = de_name d a" if h: "a \<in> set (dir_slots d)" "a \<noteq> off" for a
  proof -
    obtain j where j: "a = DIRENT * j" "j < n" using h n by (auto simp: dir_slots_def)
    then show ?thesis using dirent_patch_other [OF off(1) j(1) _ off(2)] h(2) off(1) n by (auto simp: e_def)
  qed
  have fr: "de_inum d off = 0" if "off \<in> set (dir_slots d)" using free that n by (auto simp: dir_slots_def)
  fix nm
  let ?P = "\<lambda>a. de_inum d a \<noteq> 0 \<and> de_name d a = nm" and ?Q = "\<lambda>a. de_inum e a \<noteq> 0 \<and> de_name e a = nm"
  show "dir_map e nm = ((dir_map d)(cname DIRSIZ name \<mapsto> ucast inum)) nm"
  proof (cases "nm = cname DIRSIZ name")
    case True
    have mem: "off \<in> set (dir_slots e)" using sl off k n by (auto simp: dir_slots_def)
    have u: "a = off" if "a \<in> set (dir_slots e)" "?Q a" for a
    proof (rule ccontr)
      assume ne: "a \<noteq> off"
      then have "a \<in> set (dir_slots d)" using that(1) sl by (auto split: if_splits)
      moreover then have "?P a" using that(2) oth ne by auto
      ultimately show False using none True by (auto simp: dir_map_def find_None_iff)
    qed
    have "find ?Q (dir_slots e) = Some off" by (rule find_only [OF mem _ u]) (use at i True in simp_all)
    then show ?thesis using True at by (simp add: dir_map_def)
  next
    case False
    have "find ?Q (dir_slots d) = find ?P (dir_slots d)"
    proof (rule find_cong [OF refl])
      fix a assume a: "a \<in> set (dir_slots d)"
      then show "?Q a \<longleftrightarrow> ?P a" using oth [OF a] fr at False by (cases "a = off") auto
    qed
    then have f: "find ?Q (dir_slots e) = find ?P (dir_slots d)" using at False by (auto simp: sl find_append split: option.splits)
    moreover have "de_inum e a = de_inum d a" if "find ?P (dir_slots d) = Some a" for a
      using that oth fr by (auto simp: find_Some_iff) (metis nth_mem)
    ultimately show ?thesis using False by (cases "find ?P (dir_slots d)") (simp_all add: dir_map_def)
  qed
qed

section \<open>dirlookup() and dirlink() on the map\<close>

lemma dir_same:
  fixes s t :: "'z cst_scheme"
  assumes "lframe s t" "blk t = blk s"
  shows "meta_ok t = meta_ok s" "file_ok t v = file_ok s v" "dir_ok t v = dir_ok s v" "frees t = frees s"
proof -
  note f = lframeD(1,8) [OF assms(1)] lframe_in_log [OF assms(1)] lframe_fs(1) [OF assms]
  show "meta_ok t = meta_ok s" by (simp add: meta_ok_def f assms(2))
  show fo: "file_ok t v = file_ok s v" by (simp add: file_ok_def data_blk_def f assms(2))
  show "dir_ok t v = dir_ok s v" by (simp add: dir_ok_def fo assms(2))
  show "frees t = frees s" by (simp add: frees_def f assms(2))
qed

lemma dirlookup_scan:
  fixes s :: "'z cst_scheme"
  assumes "calm s {} k" "meta_ok s" "v = inodes s ! dp" "dir_ok s v" "set offs \<subseteq> set (dir_offs (i_size v))"
  shows "\<exists>t. calm t {} k \<and> blk t = blk s \<and> lframe s t \<and>
    findM offs (dirlookup_turn dp name) s = (case find (dir_hit (fdata (blk s) v) name) offs of
        None \<Rightarrow> Ok None t
      | Some off \<Rightarrow> bindM (iget (i_dev v) (ucast (de_inum (fdata (blk s) v) off))) (\<lambda>ip. retM (Some (ip, off))) t)"
  using assms
proof (induction offs arbitrary: s)
  case Nil
  then show ?case by (auto simp: kcode)
next
  case (Cons off offs)
  let ?d = "fdata (blk s) v"
  obtain t where t: "readi dp (of_nat off) (of_nat DIRENT) s = Ok (int DIRENT, take DIRENT (drop off ?d)) t"
    "calm t {} k" "blk t = blk s" "lframe s t"
    by (rule dir_readi [OF Cons.prems(1-4)]) (use Cons.prems(5) in auto)
  have i: "inodes t = inodes s" by (rule lframeD(9) [OF t(4)])
  have turn: "dirlookup_turn dp name off s = (if dir_hit ?d name off
      then bindM (iget (i_dev v) (ucast (de_inum ?d off))) (\<lambda>ip. retM (Some (ip, off))) t else Ok None t)"
    using t(1) i Cons.prems(3) namecmp_hit [of name off ?d]
    by (auto simp: dirlookup_turn_def kcode dir_hit_def de_inum_def)
  show ?case
  proof (cases "dir_hit ?d name off")
    case True
    then have "findM (off # offs) (dirlookup_turn dp name) s
        = bindM (iget (i_dev v) (ucast (de_inum ?d off))) (\<lambda>ip. retM (Some (ip, off))) t"
      using turn by (simp add: kcode split: outcome.split)
    then show ?thesis using True t(2-4) by (intro exI [of _ t]) simp
  next
    case False
    have p: "meta_ok t" "v = inodes t ! dp" "dir_ok t v" "set offs \<subseteq> set (dir_offs (i_size v))"
      using Cons.prems i dir_same [OF t(4,3)] by simp_all
    obtain u where u: "calm u {} k" "blk u = blk t" "lframe t u"
      "findM offs (dirlookup_turn dp name) t = (case find (dir_hit (fdata (blk t) v) name) offs of
        None \<Rightarrow> Ok None u
      | Some off \<Rightarrow> bindM (iget (i_dev v) (ucast (de_inum (fdata (blk t) v) off))) (\<lambda>ip. retM (Some (ip, off))) u)"
      using Cons.IH [OF t(2) p] by blast
    have "findM (off # offs) (dirlookup_turn dp name) s = findM offs (dirlookup_turn dp name) t"
      using turn False by (simp add: kcode)
    then show ?thesis using u(1-3) u(4) [unfolded t(3)] lframe_trans [OF t(4) u(3)] t(3) False by (intro exI [of _ u]) simp
  qed
qed

text \<open>The scan for a free entry in dirlink().\<close>

lemma dirlink_scan:
  fixes s :: "'z cst_scheme"
  assumes "calm s {} k" "meta_ok s" "v = inodes s ! dp" "dir_ok s v" "set offs \<subseteq> set (dir_offs (i_size v))"
  shows "\<exists>t. calm t {} k \<and> blk t = blk s \<and> lframe s t \<and>
    findM offs (dirlink_turn dp) s = Ok (find (\<lambda>off. de_inum (fdata (blk s) v) off = 0) offs) t"
  using assms
proof (induction offs arbitrary: s)
  case Nil
  then show ?case by (auto simp: kcode)
next
  case (Cons off offs)
  let ?d = "fdata (blk s) v"
  obtain t where t: "readi dp (of_nat off) (of_nat DIRENT) s = Ok (int DIRENT, take DIRENT (drop off ?d)) t"
    "calm t {} k" "blk t = blk s" "lframe s t"
    by (rule dir_readi [OF Cons.prems(1-4)]) (use Cons.prems(5) in auto)
  have i: "inodes t = inodes s" by (rule lframeD(9) [OF t(4)])
  have turn: "dirlink_turn dp off s = Ok (if de_inum ?d off = 0 then Some off else None) t"
    using t(1) by (auto simp: dirlink_turn_def kcode de_inum_def)
  have p: "meta_ok t" "v = inodes t ! dp" "dir_ok t v" "set offs \<subseteq> set (dir_offs (i_size v))"
    using Cons.prems i dir_same [OF t(4,3)] by simp_all
  obtain u where u: "calm u {} k" "blk u = blk t" "lframe t u"
    "findM offs (dirlink_turn dp) t = Ok (find (\<lambda>off. de_inum (fdata (blk t) v) off = 0) offs) u"
    using Cons.IH [OF t(2) p] by blast
  show ?case
  proof (cases "de_inum ?d off = 0")
    case True
    then show ?thesis using turn t(2-4) by (intro exI [of _ t]) (simp add: kcode)
  next
    case False
    then show ?thesis using turn u lframe_trans [OF t(4) u(3)] t(3) by (intro exI [of _ u]) (simp add: kcode)
  qed
qed

section \<open>iget()\<close>

text \<open>
  The inode cache: every inode in use has one slot.
\<close>

definition icache_inv :: "inode list \<Rightarrow> bool" where
  "icache_inv ips \<longleftrightarrow> length ips = NINODE \<and> (\<forall>i < NINODE. 0 \<le> i_ref (ips ! i)) \<and>
     (\<forall>i < NINODE. \<forall>j < NINODE. 0 < i_ref (ips ! i) \<and> 0 < i_ref (ips ! j) \<and> i_dev (ips ! i) = i_dev (ips ! j)
        \<and> i_inum (ips ! i) = i_inum (ips ! j) \<longrightarrow> i = j)"

definition cached :: "inode list \<Rightarrow> u32 \<Rightarrow> u32 \<Rightarrow> nat \<Rightarrow> bool" where
  "cached ips dev inum i \<longleftrightarrow> 0 < i_ref (ips ! i) \<and> i_dev (ips ! i) = dev \<and> i_inum (ips ! i) = inum"

lemma icache_invD:
  assumes "icache_inv ips"
  shows "length ips = NINODE" "i < NINODE \<Longrightarrow> 0 \<le> i_ref (ips ! i)"
    "i < NINODE \<Longrightarrow> j < NINODE \<Longrightarrow> cached ips dev inum i \<Longrightarrow> cached ips dev inum j \<Longrightarrow> i = j"
proof -
  show "length ips = NINODE" "i < NINODE \<Longrightarrow> 0 \<le> i_ref (ips ! i)" using assms by (simp_all add: icache_inv_def)
  show "i = j" if "i < NINODE" "j < NINODE" "cached ips dev inum i" "cached ips dev inum j"
  proof -
    have "0 < i_ref (ips ! i) \<and> 0 < i_ref (ips ! j) \<and> i_dev (ips ! i) = i_dev (ips ! j) \<and> i_inum (ips ! i) = i_inum (ips ! j)"
      using that(3,4) by (simp add: cached_def)
    then show ?thesis using assms that(1,2) unfolding icache_inv_def by blast
  qed
qed

lemma icache_inv_upd:
  assumes "icache_inv ips" "ip < NINODE" "0 \<le> i_ref w" "\<And>j. j < NINODE \<Longrightarrow> j \<noteq> ip \<Longrightarrow> \<not> cached ips (i_dev w) (i_inum w) j"
  shows "icache_inv (ips[ip := w])"
proof -
  note d = icache_invD [OF assms(1)]
  have eq: "i = j" if h: "i < NINODE" "j < NINODE" "0 < i_ref (ips[ip := w] ! i)" "0 < i_ref (ips[ip := w] ! j)"
     "i_dev (ips[ip := w] ! i) = i_dev (ips[ip := w] ! j)" "i_inum (ips[ip := w] ! i) = i_inum (ips[ip := w] ! j)" for i j
  proof (rule ccontr)
    assume ne: "i \<noteq> j"
    consider "i = ip" | "j = ip" | "i \<noteq> ip" "j \<noteq> ip" by blast
    then show False
    proof cases
      case 1
      then show ?thesis using assms(4) [OF h(2)] h ne d(1) by (simp add: cached_def)
    next
      case 2
      then show ?thesis using assms(4) [OF h(1)] h ne d(1) by (simp add: cached_def)
    next
      case 3
      then show ?thesis using d(3) [OF h(1,2), of "i_dev (ips ! j)" "i_inum (ips ! j)"] h ne by (simp add: cached_def)
    qed
  qed
  moreover have "0 \<le> i_ref (ips[ip := w] ! i)" if "i < NINODE" for i
    using that d(1) d(2) [OF that] assms(2,3) by (cases "i = ip") simp_all
  ultimately show ?thesis using d(1) unfolding icache_inv_def by (simp only: length_list_update) blast
qed

lemma iget_scan_eq:
  "iget_scan ips dev inum is slot = (case find (cached ips dev inum) is of Some i \<Rightarrow> Inl i
     | None \<Rightarrow> Inr (case slot of None \<Rightarrow> find (\<lambda>i. i_ref (ips ! i) = 0) is | Some i \<Rightarrow> Some i))"
  by (induction "is" arbitrary: slot) (auto simp: Let_def cached_def split: option.splits)

lemma iget_ok:
  fixes s :: "'z ist_scheme"
  assumes inv: "icache_inv (inodes s)" and h: "L_icache \<notin> set (held s)"
  obtains ip where "ip < NINODE" "cached (inodes s) dev inum ip"
      "iget dev inum s = Ok ip (s\<lparr>inodes := (inodes s)[ip := (inodes s ! ip)\<lparr>i_ref := i_ref (inodes s ! ip) + 1\<rparr>]\<rparr>)"
  | ip where "ip < NINODE" "i_ref (inodes s ! ip) = 0" "\<And>i. i < NINODE \<Longrightarrow> \<not> cached (inodes s) dev inum i"
      "iget dev inum s = Ok ip (s\<lparr>inodes := (inodes s)[ip := (inodes s ! ip)\<lparr>i_dev := dev, i_inum := inum, i_ref := 1, i_valid := False\<rparr>]\<rparr>)"
  | "\<And>i. i < NINODE \<Longrightarrow> \<not> cached (inodes s) dev inum i" "\<And>i. i < NINODE \<Longrightarrow> 0 < i_ref (inodes s ! i)" "iget dev inum s = Panic ''iget: no inodes''"
proof (cases "find (cached (inodes s) dev inum) [0..<NINODE]")
  case (Some ip)
  then have "ip < NINODE" "cached (inodes s) dev inum ip" by (auto simp: find_Some_iff)
  moreover have "iget dev inum s = Ok ip (s\<lparr>inodes := (inodes s)[ip := (inodes s ! ip)\<lparr>i_ref := i_ref (inodes s ! ip) + 1\<rparr>]\<rparr>)"
    using Some h by (simp add: iget_def kcode iget_scan_eq del: upt_Suc)
  ultimately show ?thesis by (rule that(1))
next
  case None
  then have nc: "\<not> cached (inodes s) dev inum i" if "i < NINODE" for i using that by (simp add: find_None_iff)
  show ?thesis
  proof (cases "find (\<lambda>i. i_ref (inodes s ! i) = 0) [0..<NINODE]")
    case (Some ip)
    then have "ip < NINODE" "i_ref (inodes s ! ip) = 0" by (auto simp: find_Some_iff)
    moreover have "iget dev inum s = Ok ip (s\<lparr>inodes := (inodes s)[ip := (inodes s ! ip)\<lparr>i_dev := dev, i_inum := inum, i_ref := 1, i_valid := False\<rparr>]\<rparr>)"
      using None Some h by (simp add: iget_def kcode iget_scan_eq del: upt_Suc)
    ultimately show ?thesis using nc by (intro that(2))
  next
    case n2: None
    then have "i_ref (inodes s ! i) \<noteq> 0" if "i < NINODE" for i using that by (simp add: find_None_iff)
    moreover have "0 \<le> i_ref (inodes s ! i)" if "i < NINODE" for i using that inv by (simp add: icache_inv_def)
    ultimately have "0 < i_ref (inodes s ! i)" if "i < NINODE" for i using that by (metis order_le_less)
    moreover have "iget dev inum s = Panic ''iget: no inodes''"
      using None n2 h by (simp add: iget_def kcode iget_scan_eq del: upt_Suc)
    ultimately show ?thesis using nc by (intro that(3))
  qed
qed

lemma iget_step:
  fixes s :: "'z ist_scheme"
  assumes inv: "icache_inv (inodes s)" and h: "L_icache \<notin> set (held s)"
  shows "(\<exists>ip t. iget dev inum s = Ok ip t \<and> ip < NINODE \<and> icache_inv (inodes t) \<and> cached (inodes t) dev inum ip
      \<and> (\<forall>j < NINODE. j \<noteq> ip \<longrightarrow> inodes t ! j = inodes s ! j \<and> \<not> cached (inodes s) dev inum j)
      \<and> i_ref (inodes t ! ip) = i_ref (inodes s ! ip) + 1 \<and> t = s\<lparr>inodes := inodes t\<rparr>)
    \<or> iget dev inum s = Panic ''iget: no inodes'' \<and> (\<forall>i < NINODE. 0 < i_ref (inodes s ! i) \<and> \<not> cached (inodes s) dev inum i)"
proof (rule iget_ok [OF assms, of dev inum])
  note l = icache_invD(1) [OF inv]
  have one: "(\<exists>ip t. iget dev inum s = Ok ip t \<and> ip < NINODE \<and> icache_inv (inodes t) \<and> cached (inodes t) dev inum ip
      \<and> (\<forall>j < NINODE. j \<noteq> ip \<longrightarrow> inodes t ! j = inodes s ! j \<and> \<not> cached (inodes s) dev inum j)
      \<and> i_ref (inodes t ! ip) = i_ref (inodes s ! ip) + 1 \<and> t = s\<lparr>inodes := inodes t\<rparr>)"
    if h: "iget dev inum s = Ok ip (s\<lparr>inodes := (inodes s)[ip := w]\<rparr>)" "ip < NINODE" "i_dev w = dev" "i_inum w = inum"
      "i_ref w = i_ref (inodes s ! ip) + 1" "\<And>j. j < NINODE \<Longrightarrow> j \<noteq> ip \<Longrightarrow> \<not> cached (inodes s) dev inum j" for ip w
    by (rule exI [of _ ip], rule exI [of _ "s\<lparr>inodes := (inodes s)[ip := w]\<rparr>"])
      (use h l icache_inv_upd [OF inv, of ip w] icache_invD(2) [OF inv h(2)] in \<open>simp add: cached_def\<close>)
  {
    fix ip assume ip: "ip < NINODE" "cached (inodes s) dev inum ip"
      "iget dev inum s = Ok ip (s\<lparr>inodes := (inodes s)[ip := (inodes s ! ip)\<lparr>i_ref := i_ref (inodes s ! ip) + 1\<rparr>]\<rparr>)"
    have "\<not> cached (inodes s) dev inum j" if "j < NINODE" "j \<noteq> ip" for j using icache_invD(3) [OF inv that(1) ip(1) _ ip(2)] that(2) by blast
    then show ?thesis using one [OF ip(3,1)] ip(2) by (simp add: cached_def)
  next
    fix ip assume ip: "ip < NINODE" "i_ref (inodes s ! ip) = 0" "\<And>i. i < NINODE \<Longrightarrow> \<not> cached (inodes s) dev inum i"
      "iget dev inum s = Ok ip (s\<lparr>inodes := (inodes s)[ip := (inodes s ! ip)\<lparr>i_dev := dev, i_inum := inum, i_ref := 1, i_valid := False\<rparr>]\<rparr>)"
    show ?thesis using one [OF ip(4,1)] ip(2,3) by simp
  next
    assume "\<And>i. i < NINODE \<Longrightarrow> \<not> cached (inodes s) dev inum i" "\<And>i. i < NINODE \<Longrightarrow> 0 < i_ref (inodes s ! i)" "iget dev inum s = Panic ''iget: no inodes''"
    then show ?thesis by blast
  }
qed

lemma iget_slot:
  fixes s :: "'z ist_scheme"
  assumes "icache_inv (inodes s)" "L_icache \<notin> set (held s)" "n < NINODE" "i_ref (inodes s ! n) = 0"
  obtains ip u where "iget dev inum s = Ok ip (s\<lparr>inodes := u\<rparr>)" "icache_inv u" "ip < NINODE" "cached u dev inum ip"
    "i_ref (u ! ip) = i_ref (inodes s ! ip) + 1" "\<And>j. j < NINODE \<Longrightarrow> j \<noteq> ip \<Longrightarrow> u ! j = inodes s ! j"
proof -
  have "\<not> (\<forall>i < NINODE. 0 < i_ref (inodes s ! i) \<and> \<not> cached (inodes s) dev inum i)" using assms(3,4) by (metis less_irrefl)
  then obtain ip t where t: "iget dev inum s = Ok ip t" "ip < NINODE" "icache_inv (inodes t)" "cached (inodes t) dev inum ip"
    "\<forall>j < NINODE. j \<noteq> ip \<longrightarrow> inodes t ! j = inodes s ! j \<and> \<not> cached (inodes s) dev inum j"
    "i_ref (inodes t ! ip) = i_ref (inodes s ! ip) + 1" "t = s\<lparr>inodes := inodes t\<rparr>"
    using iget_step [OF assms(1,2), of dev inum] by blast
  have "iget dev inum s = Ok ip (s\<lparr>inodes := inodes t\<rparr>)" using t(1) t(7) [symmetric] by simp
  then show ?thesis by (rule that) (use t(2-6) in auto)
qed

text \<open>
  Every inode in use has one slot of the inode cache, and iget() keeps
  it so: it returns the slot that holds the inode with one reference more, or
  takes a free slot for it, changing no other slot; with no slot left it panics.
\<close>

lemma iget_keeps_icache:
  fixes s :: "'z ist_scheme"
  assumes inv: "icache_inv (inodes s)" and h: "L_icache \<notin> set (held s)"
  shows "(\<exists>ip t. iget dev inum s = Ok ip t \<and> ip < NINODE \<and> icache_inv (inodes t) \<and> cached (inodes t) dev inum ip
      \<and> (\<forall>j < NINODE. j \<noteq> ip \<longrightarrow> inodes t ! j = inodes s ! j \<and> \<not> cached (inodes s) dev inum j)
      \<and> i_ref (inodes t ! ip) = i_ref (inodes s ! ip) + 1 \<and> t = s\<lparr>inodes := inodes t\<rparr>)
    \<or> iget dev inum s = Panic ''iget: no inodes'' \<and> (\<forall>i < NINODE. 0 < i_ref (inodes s ! i) \<and> \<not> cached (inodes s) dev inum i)"
  using assms by (rule iget_step)

text \<open>A directory, inode 1, in slot 0 of the inode cache, all other slots free.\<close>

definition empty_dir :: inode where
  "empty_dir = zero_inode\<lparr>i_dev := 1, i_inum := 1, i_ref := 1, i_valid := True, i_type := T_DIR, i_nlink := 1\<rparr>"

definition dir_cache :: "inode list" where
  "dir_cache = empty_dir # replicate 49 zero_inode"

lemma dir_cache_inv: "icache_inv dir_cache" "length dir_cache = NINODE" "dir_cache ! 0 = empty_dir" "i_ref (dir_cache ! 1) = 0"
  by (auto simp: icache_inv_def dir_cache_def nth_Cons zero_inode_def empty_dir_def split: nat.splits)

lemma iget_keeps_icache_witness:
  "\<exists>t :: cst. iget 1 1 (boot_cst []\<lparr>inodes := dir_cache\<rparr>) = Ok 0 t \<and> i_ref (inodes t ! 0) = 2 \<and> icache_inv (inodes t)"
proof -
  let ?s = "boot_cst []\<lparr>inodes := dir_cache\<rparr> :: cst"
  have h: "L_icache \<notin> set (held ?s)" "inodes ?s = dir_cache"
    by (simp_all add: boot_cst_simps)
  have c: "cached dir_cache 1 1 0" by (simp add: cached_def dir_cache_inv(3) empty_dir_def)
  have r0: "i_ref (dir_cache ! 0) = 1" unfolding dir_cache_inv(3) by (simp add: empty_dir_def)
  note k = iget_keeps_icache [of ?s 1 1, unfolded h(2), OF dir_cache_inv(1) h(1)]
  have "\<not> (\<forall>i < NINODE. 0 < i_ref (dir_cache ! i) \<and> \<not> cached dir_cache 1 1 i)" using c by (metis zero_less_numeral)
  then obtain ip t where t: "iget 1 1 ?s = Ok ip t" "icache_inv (inodes t)" "i_ref (inodes t ! ip) = i_ref (dir_cache ! ip) + 1"
    and other: "\<forall>j < NINODE. j \<noteq> ip \<longrightarrow> \<not> cached dir_cache 1 1 j" using k by blast
  have "ip = 0" using other c by (metis zero_less_numeral)
  then show ?thesis using t r0 by auto
qed

section \<open>Directory operations refine the map\<close>

lemma calm_held: "calm s {} k \<Longrightarrow> held s = []"
  by (simp add: calm_def log_inv_def bcache_ok_def kok_def)

text \<open>dirlookup() up to its call of iget().\<close>

lemma dirlookup_ok:
  fixes s :: "'z cst_scheme"
  assumes "calm s {} k" "meta_ok s" "v = inodes s ! dp" "dir_ok s v"
  defines "d \<equiv> fdata (blk s) v"
  obtains t where "calm t {} k" "blk t = blk s" "lframe s t" "dir_map d (cname DIRSIZ name) = None" "dirlookup dp name s = Ok None t"
  | t off where "calm t {} k" "blk t = blk s" "lframe s t" "off \<in> set (dir_slots d)" "de_inum d off \<noteq> 0" "de_name d off = cname DIRSIZ name"
      "dir_map d (cname DIRSIZ name) = Some (de_inum d off)"
      "dirlookup dp name s = bindM (iget (i_dev v) (ucast (de_inum d off))) (\<lambda>ip. retM (Some (ip, off))) t"
proof -
  have dv: "i_type v = T_DIR" "DIRENT dvd unat (i_size v)" using assms(4) by (simp_all add: dir_ok_def)
  have sl: "dir_offs (i_size v) = dir_slots d" unfolding d_def by (rule dir_offs_slots [OF dv(2)])
  have hit: "dir_map d (cname DIRSIZ name) = map_option (de_inum d) (find (dir_hit d name) (dir_slots d))"
    by (simp add: dir_map_def dir_hit_def [abs_def])
  have run: "dirlookup dp name s = findM (dir_slots d) (dirlookup_turn dp name) s"
    using dv(1) assms(3) sl by (simp add: dirlookup_def kcode)
  obtain t where t: "calm t {} k" "blk t = blk s" "lframe s t"
    "findM (dir_slots d) (dirlookup_turn dp name) s = (case find (dir_hit d name) (dir_slots d) of
        None \<Rightarrow> Ok None t
      | Some off \<Rightarrow> bindM (iget (i_dev v) (ucast (de_inum d off))) (\<lambda>ip. retM (Some (ip, off))) t)"
    using dirlookup_scan [OF assms(1-4), of "dir_slots d" name] equalityD2 [OF arg_cong [OF sl, of set]] unfolding d_def [symmetric] by blast
  show ?thesis
  proof (cases "find (dir_hit d name) (dir_slots d)")
    case None
    then show ?thesis using that(1) [OF t(1-3)] t(4) run hit by simp
  next
    case (Some off)
    then have "off \<in> set (dir_slots d)" "dir_hit d name off" by (auto simp: find_Some_iff)
    then show ?thesis using that(2) [OF t(1-3), of off] t(4) run hit Some by (simp add: dir_hit_def)
  qed
qed

text \<open>
  C21: dirlookup() on a directory is lookup in the map from names to inode
  numbers that its contents encode: a name without an entry gives null, and a
  name with one gives an inode of the cache with that number on the
  directory's device, and the offset of the entry; no block changes.
\<close>

theorem dirlookup_refines:
  fixes s :: "'z cst_scheme"
  assumes c: "calm s {} k" "meta_ok s" "v = inodes s ! dp" "dir_ok s v"
    and i: "icache_inv (inodes s)" "n < NINODE" "i_ref (inodes s ! n) = 0"
  shows "case dir_map (fdata (blk s) v) (cname DIRSIZ name) of
      None \<Rightarrow> \<exists>t. dirlookup dp name s = Ok None t \<and> blk t = blk s \<and> inodes t = inodes s \<and> calm t {} k
    | Some inum \<Rightarrow> \<exists>t ip off. dirlookup dp name s = Ok (Some (ip, off)) t \<and> blk t = blk s \<and> icache_inv (inodes t)
        \<and> ip < NINODE \<and> cached (inodes t) (i_dev v) (ucast inum) ip
        \<and> de_inum (fdata (blk s) v) off = inum \<and> de_name (fdata (blk s) v) off = cname DIRSIZ name"
proof (rule dirlookup_ok [OF c, of name])
  fix t assume "calm t {} k" "blk t = blk s" "lframe s t" "dir_map (fdata (blk s) v) (cname DIRSIZ name) = None" "dirlookup dp name s = Ok None t"
  then show ?thesis using lframeD(9) [of s t] by auto
next
  fix t off
  let ?d = "fdata (blk s) v"
  assume t: "calm t {} k" "blk t = blk s" "lframe s t" "off \<in> set (dir_slots ?d)" "de_inum ?d off \<noteq> 0" "de_name ?d off = cname DIRSIZ name"
      "dir_map ?d (cname DIRSIZ name) = Some (de_inum ?d off)"
      "dirlookup dp name s = bindM (iget (i_dev v) (ucast (de_inum ?d off))) (\<lambda>ip. retM (Some (ip, off))) t"
  have ti: "inodes t = inodes s" by (rule lframeD(9) [OF t(3)])
  have h: "icache_inv (inodes t)" "L_icache \<notin> set (held t)" "i_ref (inodes t ! n) = 0" using i ti calm_held [OF t(1)] by simp_all
  obtain ip u where u: "iget (i_dev v) (ucast (de_inum ?d off)) t = Ok ip (t\<lparr>inodes := u\<rparr>)" "icache_inv u" "ip < NINODE"
      "cached u (i_dev v) (ucast (de_inum ?d off)) ip"
    by (rule iget_slot [OF h(1,2) i(2) h(3)])
  have "dirlookup dp name s = Ok (Some (ip, off)) (t\<lparr>inodes := u\<rparr>)" using t(8) u(1) by (simp add: kcode)
  then show ?thesis unfolding t(7) using u(2-4) t(2,6)
    by (auto intro!: exI [of _ "t\<lparr>inodes := u\<rparr>"] exI [of _ ip] exI [of _ off])
qed

text \<open>An entry lies inside one block.\<close>

lemma nblks_dirent: "nblks (DIRENT * k) DIRENT = 1"
proof -
  have "DIRENT * k mod BSIZE = DIRENT * (k mod 32)" by (simp add: mult_mod_right)
  moreover have "k mod 32 < 32" by simp
  ultimately show ?thesis unfolding nblks_def by (auto simp: div_nat_eqI)
qed

lemma dirlink_ok:
  fixes s :: "'z cst_scheme"
  assumes tx: "txn s {} (Suc (6 + j))" and m: "meta_ok s" and v: "v = inodes s ! dp" "dp < length (inodes s)" "dir_ok s v"
    and i: "unat (i_inum v) < unat (sb_ninodes (sb s))" "(ucast inum :: u16) \<noteq> 0"
    and room: "unat (i_size v) + DIRENT \<le> MAXFILE * BSIZE" "2 \<le> card (frees s)"
    and none: "dir_map (fdata (blk s) v) (cname DIRSIZ name) = None"
  obtains t w where "dirlink dp name inum s = Ok 0 t" "txn t {} j" "meta_ok t" "inodes t = (inodes s)[dp := w]" "dir_ok t w"
    "dir_map (fdata (blk t) w) = (dir_map (fdata (blk s) v))(cname DIRSIZ name \<mapsto> ucast inum)"
    "w = v\<lparr>i_size := i_size w, i_addrs := i_addrs w\<rparr>"
    "\<And>b. data_blk s b \<Longrightarrow> data_blk t b \<and> (b \<notin> fblocks (blk s) v \<longrightarrow> blk t b = blk s b)" "iframe s t"
proof -
  define d where "d = fdata (blk s) v"
  have dv: "file_ok s v" "dense (blk s) v" "i_type v = T_DIR" "DIRENT dvd unat (i_size v)" using v(3) by (simp_all add: dir_ok_def)
  have ld: "length d = unat (i_size v)" by (simp add: d_def fdata_def)
  have sl: "dir_offs (i_size v) = dir_slots d" unfolding d_def by (rule dir_offs_slots [OF dv(4)])
  obtain t where t: "dirlookup dp name s = Ok None t" "calm t {} (Suc (6 + j))" "blk t = blk s" "lframe s t"
    by (rule dirlookup_ok [OF txn_calm [OF tx] m v(1,3), of name]) (use none in auto)
  note st = dir_same [OF t(4,3)] and it = lframeD(5,9) [OF t(4)]
  have vt: "v = inodes t ! dp" "meta_ok t" "dir_ok t v" using v m st it by simp_all
  define e where "e = find (\<lambda>off. de_inum d off = 0) (dir_slots d)"
  obtain u where u: "findM (dir_slots d) (dirlink_turn dp) t = Ok e u" "calm u {} (Suc (6 + j))" "blk u = blk s" "lframe t u"
    using dirlink_scan [OF t(2) vt(2,1,3), of "dir_slots d"] sl t(3) unfolding e_def d_def by auto
  have su: "lframe s u" by (rule lframe_trans [OF t(4) u(4)])
  note sm = dir_same [OF su u(3)] and iu = lframeD(5,8,9) [OF su]
  define off where "off = (case e of Some off \<Rightarrow> off | None \<Rightarrow> DIRENT * length (dir_slots d))"
  obtain n where n: "length d = DIRENT * n" using dv(4) ld by (auto simp: dvd_def)
  obtain k where k: "off = DIRENT * k" "off \<le> length d" "off < length d \<Longrightarrow> de_inum d off = 0"
  proof (cases e)
    case None
    then show ?thesis using that [of "length (dir_slots d)"] n by (simp add: off_def dir_slots_def)
  next
    case (Some a)
    then have "a \<in> set (dir_slots d)" "de_inum d a = 0" by (auto simp: e_def find_Some_iff)
    moreover then obtain k where "a = DIRENT * k" "k < n" using n by (auto simp: dir_slots_def)
    ultimately show ?thesis using that [of k] Some n by (simp add: off_def)
  qed
  let ?src = "dirent_bytes inum name" and ?off = "of_nat off :: u32"
  have uo: "unat ?off = off" using k(2) ld room(1) by (simp add: unat_of_nat)
  have nb: "nblks (unat ?off) (length ?src) = 1" unfolding uo length_dirent_bytes unfolding k(1) by (rule nblks_dirent)
  have w0: "txn u {} (6 * nblks (unat ?off) (length ?src) + Suc j)" using u(2) iu(1) tx unfolding nb by (simp add: txn_def)
  have w1: "?off \<le> i_size v" "unat ?off + length ?src \<le> MAXFILE * BSIZE" "?src \<noteq> []"
    using k(2) ld room by (auto simp: word_le_nat_alt uo dirent_bytes_def le16_enc_def)
  have w3: "2 * nblks (unat ?off) (length ?src) \<le> card (frees u)" unfolding nb sm(4) using room(2) by simp
  have w2: "meta_ok u" "dp < length (inodes u)" "v = inodes u ! dp" "file_ok u v" "dense (blk u) v" "i_type v \<noteq> T_DEV"
    "unat (i_inum v) < unat (sb_ninodes (sb u))" using m v dv i(1) sm iu u(3) by simp_all
  obtain x w where x: "writei dp ?src ?off (of_nat (length ?src)) u = Ok (int (length ?src)) x" "txn x {} j" "meta_ok x"
    "inodes x = (inodes u)[dp := w]" "w = v\<lparr>i_size := i_size w, i_addrs := i_addrs w\<rparr>" "file_ok x w" "dense (blk x) w"
    "unat (i_size w) = max (unat (i_size v)) (unat ?off + length ?src)" "fdata (blk x) w = patch (unat ?off) ?src (fdata (blk u) v)"
    "\<And>b. data_blk u b \<Longrightarrow> data_blk x b \<and> (b \<notin> fblocks (blk u) v \<longrightarrow> blk x b = blk u b)" "iframe u x"
    by (rule writei_ok [OF w0 w2 w1 w3]) blast
  have dx: "fdata (blk x) w = patch off ?src d" using x(9) unfolding uo u(3) d_def .
  note dm = dir_map_patch [OF _ k none [folded d_def] i(2)]
  have dd: "DIRENT dvd length d" using dv(4) ld by simp
  have "length (fdata (blk x) w) = unat (i_size w)" by (simp add: fdata_def)
  then have "DIRENT dvd unat (i_size w)" using dm(2) [OF dd] dx by simp
  moreover have "i_type w = T_DIR" using dv(3) by (subst x(5)) simp
  ultimately have dw: "dir_ok x w" using x(6,7) by (simp add: dir_ok_def)
  have sl': "dir_offs (i_size (inodes t ! dp)) = dir_slots d" using sl vt(1) by simp
  have run: "dirlink dp name inum s = Ok 0 x"
    using t(1) u(1) x(1) by (cases e) (simp_all add: dirlink_def kcode sl' off_def)
  have db: "data_blk u = data_blk s" by (rule ext) (simp add: data_blk_def lframeD(8) [OF su] lframe_in_log [OF su] u(3))
  show ?thesis
  proof (rule that [OF run x(2,3) _ dw _ x(5)])
    show "inodes x = (inodes s)[dp := w]" using x(4) iu(3) by simp
    show "dir_map (fdata (blk x) w) = (dir_map (fdata (blk s) v))(cname DIRSIZ name \<mapsto> ucast inum)"
      unfolding dx using dm(1) [OF dd] by (simp add: d_def)
    show "data_blk x b \<and> (b \<notin> fblocks (blk s) v \<longrightarrow> blk x b = blk s b)" if "data_blk s b" for b
      using x(10) [of b] that unfolding db u(3) .
    show "iframe s x" by (rule iframe_trans [OF lframe_iframe [OF su] x(11)])
  qed
qed

text \<open>
  C22: dirlink() of a name that the directory does not have, inside a
  transaction, returns 0 and adds the name to the map from names to inode
  numbers that the directory's contents encode; every other name keeps its
  entry, and every file that shares no block with the directory its contents.
\<close>

theorem dirlink_refines:
  fixes s :: "'z cst_scheme"
  assumes "txn s {} (Suc (6 + j))" "meta_ok s" "v = inodes s ! dp" "dp < length (inodes s)" "dir_ok s v"
    and "unat (i_inum v) < unat (sb_ninodes (sb s))" "(ucast inum :: u16) \<noteq> 0"
    and "unat (i_size v) + DIRENT \<le> MAXFILE * BSIZE" "2 \<le> card (frees s)"
    and "dir_map (fdata (blk s) v) (cname DIRSIZ name) = None"
  shows "\<exists>t w. dirlink dp name inum s = Ok 0 t \<and> txn t {} j \<and> meta_ok t \<and> inodes t = (inodes s)[dp := w] \<and> dir_ok t w
    \<and> dir_map (fdata (blk t) w) = (dir_map (fdata (blk s) v))(cname DIRSIZ name \<mapsto> ucast inum)
    \<and> (\<forall>b. data_blk s b \<longrightarrow> data_blk t b \<and> (b \<notin> fblocks (blk s) v \<longrightarrow> blk t b = blk s b))"
  by (rule dirlink_ok [OF assms]) blast

lemma small_dir:
  obtains s :: cst where "txn s {} 29" "meta_ok s" "inodes s = dir_cache" "dir_ok s empty_dir" "sb s = small_sb" "24 \<le> card (frees s)"
    "fdata (blk s) empty_dir = []"
proof -
  obtain s :: cst where s: "txn s {} 29" "meta_ok s" "inodes s = dir_cache" "sb s = small_sb" "24 \<le> card (frees s)"
    by (rule small_inodes [where ips = dir_cache]) blast
  have "dir_ok s empty_dir" unfolding dir_ok_def using empty_file_ok [of empty_dir]
    by (simp add: empty_dir_def zero_inode_def)
  moreover have "fdata (blk s) empty_dir = []" by (simp add: fdata_def empty_dir_def zero_inode_def)
  ultimately show ?thesis using that s by blast
qed

lemma dir_map_empty: "dir_map [] = Map.empty"
  by (simp add: dir_map_def dir_slots_def fun_eq_iff)

lemma small_dir_linkable:
  fixes s :: cst
  assumes "txn s {} 29" "inodes s = dir_cache" "sb s = small_sb" "24 \<le> card (frees s)" "fdata (blk s) empty_dir = []"
  shows "txn s {} (Suc (6 + 0))" "empty_dir = inodes s ! 0" "0 < length (inodes s)" "unat (i_inum empty_dir) < unat (sb_ninodes (sb s))"
    "(ucast (2 :: u32) :: u16) \<noteq> 0" "unat (i_size empty_dir) + DIRENT \<le> MAXFILE * BSIZE" "2 \<le> card (frees s)"
    "dir_map (fdata (blk s) empty_dir) (cname DIRSIZ (cbytes ''a'')) = None"
  using assms txn_mono [OF assms(1), of 7]
  by (simp_all add: dir_map_empty dir_cache_inv small_sb_def) (simp_all add: empty_dir_def zero_inode_def)

theorem dirlink_refines_witness:
  "\<exists>(s :: cst) t w. inodes s = dir_cache \<and> dirlink 0 (cbytes ''a'') 2 s = Ok 0 t \<and> inodes t = dir_cache[0 := w]
     \<and> dir_map (fdata (blk t) w) = [cbytes ''a'' \<mapsto> 2]"
proof -
  obtain s :: cst where s: "txn s {} 29" "meta_ok s" "inodes s = dir_cache" "dir_ok s empty_dir" "sb s = small_sb" "24 \<le> card (frees s)"
    "fdata (blk s) empty_dir = []" by (rule small_dir)
  note h = small_dir_linkable [OF s(1,3,5-7)]
  have n: "cname DIRSIZ (cbytes ''a'') = cbytes ''a''" by (simp add: cname_def cbytes_def)
  obtain t w where "dirlink 0 (cbytes ''a'') 2 s = Ok 0 t" "inodes t = (inodes s)[0 := w]"
    "dir_map (fdata (blk t) w) = (dir_map (fdata (blk s) empty_dir))(cname DIRSIZ (cbytes ''a'') \<mapsto> ucast (2 :: u32))"
    using dirlink_refines [OF h(1) s(2) h(2,3) s(4) h(4-8)] by blast
  then show ?thesis using s(3,7) n by (auto simp: dir_map_empty)
qed

theorem dirlookup_refines_witness:
  "\<exists>(s :: cst) t u ip off. dirlink 0 (cbytes ''a'') 2 s = Ok 0 t \<and> dirlookup 0 (cbytes ''a'') t = Ok (Some (ip, off)) u
     \<and> i_inum (inodes u ! ip) = 2"
proof -
  obtain s :: cst where s: "txn s {} 29" "meta_ok s" "inodes s = dir_cache" "dir_ok s empty_dir" "sb s = small_sb" "24 \<le> card (frees s)"
    "fdata (blk s) empty_dir = []" by (rule small_dir)
  note h = small_dir_linkable [OF s(1,3,5-7)]
  obtain t w where t: "dirlink 0 (cbytes ''a'') 2 s = Ok 0 t" "txn t {} 0" "meta_ok t" "inodes t = (inodes s)[0 := w]" "dir_ok t w"
    "dir_map (fdata (blk t) w) = (dir_map (fdata (blk s) empty_dir))(cname DIRSIZ (cbytes ''a'') \<mapsto> ucast (2 :: u32))"
    "w = empty_dir\<lparr>i_size := i_size w, i_addrs := i_addrs w\<rparr>"
    by (rule dirlink_ok [OF h(1) s(2) h(2,3) s(4) h(4-8)])
  have w: "w = inodes t ! 0" using t(4) h(3) by simp
  have dev: "i_dev w = i_dev empty_dir" "i_inum w = i_inum empty_dir" "0 \<le> i_ref w"
    by (subst t(7), simp add: empty_dir_def)+
  have "icache_inv (inodes t)" unfolding t(4) s(3)
  proof (rule icache_inv_upd [OF dir_cache_inv(1)])
    show "\<not> cached dir_cache (i_dev w) (i_inum w) j" if "j < NINODE" "j \<noteq> 0" for j
      using that by (auto simp: cached_def dir_cache_def nth_Cons zero_inode_def split: nat.splits)
  qed (use dev in simp_all)
  moreover have "i_ref (inodes t ! 1) = 0" using t(4) s(3) dir_cache_inv(4) by simp
  ultimately obtain u ip off where "dirlookup 0 (cbytes ''a'') t = Ok (Some (ip, off)) u" "cached (inodes u) (i_dev w) (ucast (ucast (2 :: u32) :: u16)) ip"
    using dirlookup_refines [OF txn_calm [OF t(2)] t(3) w t(5), of 1 "cbytes ''a''"] t(6) by auto
  moreover then have "i_inum (inodes u ! ip) = 2" by (simp add: cached_def)
  ultimately show ?thesis using t(1) by blast
qed

end
