(* ===== verification/Pipe.thy ===== *)
theory Pipe
  imports Dir
begin

text \<open>
  pipe.c: pipes as byte queues between processes.  A pipe is identified by
  the page it lives in; its fields are kept in a table by that address, and
  the page itself comes from kalloc() and goes back to kfree().  The open files
  of file.h, in which pipes are wrapped, are declared here too.
\<close>

abbreviation (input) PIPESIZE :: nat where "PIPESIZE \<equiv> 512"

record pipe =
  p_data :: bytes
  nread :: u32
  nwrite :: u32
  readopen :: bool
  writeopen :: bool

datatype fdtype = FD_NONE | FD_PIPE | FD_INODE

record file_t =
  f_type :: fdtype
  f_ref :: int
  f_readable :: bool
  f_writable :: bool
  f_pipe :: u32
  f_ip :: nat
  f_off :: u32

record ost = cst +
  ftable :: "file_t list"
  pipes :: "u32 \<Rightarrow> pipe"

definition zero_file :: file_t where
  "zero_file = \<lparr>f_type = FD_NONE, f_ref = 0, f_readable = False, f_writable = False, f_pipe = 0, f_ip = 0, f_off = 0\<rparr>"

definition upd_pipe :: "u32 \<Rightarrow> (pipe \<Rightarrow> pipe) \<Rightarrow> ('z ost_scheme, unit) kfun" where
  "upd_pipe p f = modM (\<lambda>s. s\<lparr>pipes := (pipes s)(p := f (pipes s p))\<rparr>)"

lemma upd_pipe_apply [kcode]: "upd_pipe p f s = Ok () (s\<lparr>pipes := (pipes s)(p := f (pipes s p))\<rparr>)"
  by (simp add: upd_pipe_def kcode)

section \<open>The routines\<close>

definition pipeclose :: "u32 \<Rightarrow> bool \<Rightarrow> ('z ost_scheme, unit) kfun" where
  "pipeclose p writable =
     thenM (acquire (L_pipe p))
     (thenM (if writable then
         thenM (upd_pipe p (\<lambda>q. q\<lparr>writeopen := False\<rparr>)) (wakeup (Ch_nread p))
       else
         thenM (upd_pipe p (\<lambda>q. q\<lparr>readopen := False\<rparr>)) (wakeup (Ch_nwrite p)))
     (bindM (getM (\<lambda>s. pipes s p)) (\<lambda>q.
      if \<not> readopen q \<and> \<not> writeopen q then thenM (release (L_pipe p)) (kfree p)
      else release (L_pipe p))))"

text \<open>\<open>p->data[p->nwrite++ % PIPESIZE] = c\<close>, and \<open>p->data[p->nread++ % PIPESIZE]\<close>.\<close>

definition pipe_put :: "u8 \<Rightarrow> pipe \<Rightarrow> pipe" where
  "pipe_put c q = q\<lparr>p_data := (p_data q)[unat (nwrite q) mod PIPESIZE := c], nwrite := nwrite q + 1\<rparr>"

definition pipe_get :: "pipe \<Rightarrow> u8 \<times> pipe" where
  "pipe_get q = (p_data q ! (unat (nread q) mod PIPESIZE), q\<lparr>nread := nread q + 1\<rparr>)"

text \<open>
  pipewrite() with the bytes from \<open>addr[i]\<close> on left to write.  On a full pipe
  the process sleeps; when it is scheduled again, sleep() returns with the
  lock held and the loop goes on at the same arguments.
\<close>

fun pipewrite_loop :: "u32 \<Rightarrow> bytes \<Rightarrow> int \<Rightarrow> ('z ost_scheme, int) kfun" where
  "pipewrite_loop p [] n =
     thenM (wakeup (Ch_nread p))
     (thenM (release (L_pipe p))
     (retM n))"
| "pipewrite_loop p (c # cs) n =
     bindM (getM (\<lambda>s. pipes s p)) (\<lambda>q.
     if nwrite q = nread q + of_nat PIPESIZE then
       bindM (if \<not> readopen q then retM True
              else bindM curproc (\<lambda>i. getM (\<lambda>s. killed (procs s ! i)))) (\<lambda>stop.
       if stop then thenM (release (L_pipe p)) (retM (-1))
       else
         thenM (wakeup (Ch_nread p))
         (thenM (sleep (Ch_nwrite p) (Some (L_pipe p)))
         (retM 0)))
     else
       thenM (upd_pipe p (pipe_put c))
       (pipewrite_loop p cs n))"

definition pipewrite :: "u32 \<Rightarrow> bytes \<Rightarrow> int \<Rightarrow> ('z ost_scheme, int) kfun" where
  "pipewrite p addr n =
     thenM (acquire (L_pipe p))
     (pipewrite_loop p (take (nat n) addr) n)"

text \<open>piperead(): the copying loop, and the routine from its test for an empty pipe on.\<close>

fun piperead_copy :: "u32 \<Rightarrow> nat \<Rightarrow> ('z ost_scheme, bytes) kfun" where
  "piperead_copy p 0 = retM []"
| "piperead_copy p (Suc n) =
     bindM (getM (\<lambda>s. pipes s p)) (\<lambda>q.
     if nread q = nwrite q then retM []
     else
       thenM (upd_pipe p (\<lambda>q. snd (pipe_get q)))
       (bindM (piperead_copy p n) (\<lambda>cs.
       retM (fst (pipe_get q) # cs))))"

definition piperead_wait :: "u32 \<Rightarrow> int \<Rightarrow> ('z ost_scheme, int \<times> bytes) kfun" where
  "piperead_wait p n =
     bindM (getM (\<lambda>s. pipes s p)) (\<lambda>q.
     if nread q = nwrite q \<and> writeopen q then
       bindM curproc (\<lambda>i.
       bindM (getM (\<lambda>s. killed (procs s ! i))) (\<lambda>k.
       if k then thenM (release (L_pipe p)) (retM (-1, []))
       else thenM (sleep (Ch_nread p) (Some (L_pipe p))) (retM (0, []))))
     else
       bindM (piperead_copy p (nat n)) (\<lambda>cs.
       thenM (wakeup (Ch_nwrite p))
       (thenM (release (L_pipe p))
       (retM (int (length cs), cs)))))"

definition piperead :: "u32 \<Rightarrow> int \<Rightarrow> ('z ost_scheme, int \<times> bytes) kfun" where
  "piperead p n = thenM (acquire (L_pipe p)) (piperead_wait p n)"

section \<open>The pipe as a byte queue\<close>

definition pipe_ok :: "pipe \<Rightarrow> bool" where
  "pipe_ok q \<longleftrightarrow> length (p_data q) = PIPESIZE \<and> unat (nwrite q - nread q) \<le> PIPESIZE"

definition pipe_bytes :: "pipe \<Rightarrow> bytes" where
  "pipe_bytes q = window (p_data q) (nread q) (unat (nwrite q - nread q))"

lemma ring_512: "ring_size 512"
  by (simp add: ring_size_def)

interpretation pq: byte_queue pipe_ok pipe_bytes PIPESIZE pipe_put pipe_get
proof
  fix q :: pipe and c :: u8
  assume ok: "pipe_ok q"
  have l: "length (p_data q) = PIPESIZE" "ring_size (length (p_data q))" using ok ring_512 by (simp_all add: pipe_ok_def)
  show "length (pipe_bytes q) \<le> PIPESIZE" using ok by (simp add: pipe_ok_def pipe_bytes_def)
  {
    assume "length (pipe_bytes q) < PIPESIZE"
    then have n: "unat (nwrite q - nread q) < length (p_data q)" by (simp add: pipe_bytes_def l(1))
    note p = ring_put [OF l(2) n]
    show "pipe_ok (pipe_put c q)" using p(1) n by (simp add: pipe_ok_def pipe_put_def l(1))
    show "pipe_bytes (pipe_put c q) = pipe_bytes q @ [c]" using p by (simp add: pipe_bytes_def pipe_put_def l(1))
  }
  assume "pipe_bytes q \<noteq> []"
  then have "nwrite q \<noteq> nread q" by (auto simp: pipe_bytes_def)
  note g = ring_get [OF this]
  show "pipe_ok (snd (pipe_get q))" using l(1) g(1) ok by (simp add: pipe_ok_def pipe_get_def)
  show "pipe_bytes q = fst (pipe_get q) # pipe_bytes (snd (pipe_get q))" using g(2) l(1) by (simp add: pipe_bytes_def pipe_get_def)
qed

lemma pipe_full: "nwrite q = nread q + of_nat PIPESIZE \<longleftrightarrow> length (pipe_bytes q) = PIPESIZE"
proof -
  have "nwrite q - nread q = of_nat (unat (nwrite q - nread q))" by simp
  then have "unat (nwrite q - nread q) = PIPESIZE \<Longrightarrow> nwrite q - nread q = of_nat PIPESIZE" by simp
  then have "nwrite q - nread q = of_nat PIPESIZE \<longleftrightarrow> unat (nwrite q - nread q) = PIPESIZE" by auto
  moreover have "nwrite q = nread q + of_nat PIPESIZE \<longleftrightarrow> nwrite q - nread q = of_nat PIPESIZE" by (auto simp: algebra_simps)
  ultimately show ?thesis by (simp only: pipe_bytes_def length_window)
qed

lemma pipe_empty: "nread q = nwrite q \<longleftrightarrow> pipe_bytes q = []"
  by (auto simp: pipe_bytes_def unat_eq_zero simp flip: length_0_conv)

lemma pipe_keeps:
  "readopen (pq.put_all cs q) = readopen q" "writeopen (pq.put_all cs q) = writeopen q"
proof -
  have "readopen (pq.put_all cs q) = readopen q \<and> writeopen (pq.put_all cs q) = writeopen q"
    by (induction cs arbitrary: q) (auto simp: pipe_put_def)
  then show "readopen (pq.put_all cs q) = readopen q" "writeopen (pq.put_all cs q) = writeopen q" by blast+
qed

lemma get_n_Suc: "pq.get_n (Suc n) q = (fst (pipe_get q) # fst (pq.get_n n (snd (pipe_get q))), snd (pq.get_n n (snd (pipe_get q))))"
  by (simp split: prod.split)

lemma pipe_keeps_get: "readopen (snd (pq.get_n n q)) = readopen q \<and> writeopen (snd (pq.get_n n q)) = writeopen q"
proof (induction n arbitrary: q)
  case (Suc n)
  then show ?case by (simp only: get_n_Suc snd_conv) (simp add: pipe_get_def)
qed simp

lemma set_pipe_simps:
  "s\<lparr>pipes := (pipes s)(p := pipes s p)\<rparr> = s"
  "pipes (s\<lparr>pipes := (pipes s)(p := a)\<rparr>) p = a"
  "(s\<lparr>pipes := (pipes s)(p := a)\<rparr>)\<lparr>pipes := (pipes (s\<lparr>pipes := (pipes s)(p := a)\<rparr>))(p := b)\<rparr> = s\<lparr>pipes := (pipes s)(p := b)\<rparr>"
  by simp_all

text \<open>The loops while they need not wait.\<close>

lemma pipewrite_loop_fits:
  assumes "pipe_ok (pipes s p)" "length (pipe_bytes (pipes s p)) + length cs \<le> PIPESIZE"
  shows "pipewrite_loop p (cs @ ds) n s = pipewrite_loop p ds n (s\<lparr>pipes := (pipes s)(p := pq.put_all cs (pipes s p))\<rparr>)"
  using assms
proof (induction cs arbitrary: s)
  case (Cons c cs)
  let ?q = "pipes s p" and ?t = "s\<lparr>pipes := (pipes s)(p := pipe_put c (pipes s p))\<rparr>"
  have lt: "length (pipe_bytes ?q) < PIPESIZE" using Cons.prems(2) by simp
  then have nf: "nwrite ?q \<noteq> nread ?q + of_nat PIPESIZE" using pipe_full [of ?q] by simp
  have "pipewrite_loop p ((c # cs) @ ds) n s = pipewrite_loop p (cs @ ds) n ?t"
    using nf by (simp add: kcode)
  also have "\<dots> = pipewrite_loop p ds n (?t\<lparr>pipes := (pipes ?t)(p := pq.put_all cs (pipes ?t p))\<rparr>)"
    by (rule Cons.IH) (use pq.invar_put [OF Cons.prems(1) lt] pq.contents_put [OF Cons.prems(1) lt] Cons.prems(2) in simp_all)
  finally show ?case by (simp only: pq.put_all.simps set_pipe_simps)
qed simp

lemma piperead_copy_eq:
  assumes "pipe_ok (pipes s p)"
  shows "piperead_copy p n s = Ok (fst (pq.get_n (min n (length (pipe_bytes (pipes s p)))) (pipes s p)))
    (s\<lparr>pipes := (pipes s)(p := snd (pq.get_n (min n (length (pipe_bytes (pipes s p)))) (pipes s p)))\<rparr>)"
  using assms
proof (induction n arbitrary: s)
  case (Suc n)
  let ?q = "pipes s p"
  show ?case
  proof (cases "pipe_bytes ?q = []")
    case True
    then have "piperead_copy p (Suc n) s = Ok [] s" using pipe_empty [of ?q] by (simp add: kcode)
    then show ?thesis using True by (simp only: list.size min_0R pq.get_n.simps fst_conv snd_conv set_pipe_simps)
  next
    case False
    obtain c q' where g: "pipe_get ?q = (c, q')" by (cases "pipe_get ?q")
    let ?t = "s\<lparr>pipes := (pipes s)(p := q')\<rparr>"
    have q: "pipe_ok q'" "pipe_bytes ?q = c # pipe_bytes q'"
      using pq.invar_get [OF Suc.prems False] pq.contents_get [OF Suc.prems False] g by simp_all
    have "piperead_copy p (Suc n) s = (case piperead_copy p n ?t of Ok cs t \<Rightarrow> Ok (c # cs) t
       | Panic msg \<Rightarrow> Panic msg | Fault msg \<Rightarrow> Fault msg | Swtch t \<Rightarrow> Swtch t | Spin \<Rightarrow> Spin)"
      using False pipe_empty [of ?q] g by (simp add: kcode retM_def)
    also have "piperead_copy p n ?t = Ok (fst (pq.get_n (min n (length (pipe_bytes q'))) q'))
      (s\<lparr>pipes := (pipes s)(p := snd (pq.get_n (min n (length (pipe_bytes q'))) q'))\<rparr>)"
      using Suc.IH [of ?t] q(1) unfolding set_pipe_simps by simp
    finally show ?thesis by (simp only: q(2) length_Cons min_Suc_Suc get_n_Suc g fst_conv snd_conv outcome.case)
  qed
qed (simp add: kcode)

section \<open>Properties\<close>

text \<open>A process runs and holds no spin lock.\<close>

lemma kok_wake: "kok s \<Longrightarrow> kok (s\<lparr>procs := map (wake ch) (procs s)\<rparr>)"
  by (simp add: kok_def)

text \<open>
  C24: pipewrite() queues the bytes behind those in the pipe.  When they fit
  it returns their number and wakes the readers.  Otherwise the pipe is filled
  up with the first of them; then a writer that was killed, or has no reader
  left, gets -1, and any other wakes the readers and sleeps until a reader has
  made room, with the bytes left to write still to come.
\<close>

theorem pipewrite_spec:
  fixes s :: "'z ost_scheme"
  assumes k: "kok s" and c: "cur s = Some i" and q: "pipe_ok (pipes s p)"
  defines "q \<equiv> pipes s p" and "r \<equiv> PIPESIZE - length (pipe_bytes (pipes s p))"
  shows "\<exists>q'. pipe_ok q' \<and> pipe_bytes q' = pipe_bytes q @ take r src \<and> readopen q' = readopen q \<and> writeopen q' = writeopen q \<and>
    pipewrite p src (int (length src)) s =
      (if length src \<le> r then Ok (int (length src)) (s\<lparr>procs := map (wake (Ch_nread p)) (procs s), pipes := (pipes s)(p := q')\<rparr>)
       else if \<not> readopen q \<or> killed (procs s ! i) then Ok (-1) (s\<lparr>pipes := (pipes s)(p := q')\<rparr>)
       else Swtch (s\<lparr>held := [L_ptable], pipes := (pipes s)(p := q'),
         procs := (map (wake (Ch_nread p)) (procs s))[i := (wake (Ch_nread p) (procs s ! i))\<lparr>pchan := Some (Ch_nwrite p), pstate := SLEEPING\<rparr>]\<rparr>))"
proof (intro exI conjI)
  let ?q = "pq.put_all (take r src) q" and ?t = "s\<lparr>held := [L_pipe p], pipes := (pipes s)(p := pq.put_all (take r src) q)\<rparr>"
  have k': "held s = []" "length (procs s) = NPROC" "i < NPROC" using k c by (auto simp: kok_def)
  have fit: "length (pipe_bytes q) + length (take r src) \<le> PIPESIZE" using pq.bounded [OF q] by (simp add: r_def q_def)
  note pa = pq.put_all_ok [OF q [folded q_def] fit]
  show "pipe_ok ?q" "pipe_bytes ?q = pipe_bytes q @ take r src" "readopen ?q = readopen q" "writeopen ?q = writeopen q"
    using pa by (simp_all add: pipe_keeps)
  have "pipewrite p src (int (length src)) s = pipewrite_loop p (take r src @ drop r src) (int (length src)) (s\<lparr>held := [L_pipe p]\<rparr>)"
    using k'(1) by (simp add: pipewrite_def kcode)
  also have "\<dots> = pipewrite_loop p (drop r src) (int (length src)) ?t"
    using pipewrite_loop_fits [of "s\<lparr>held := [L_pipe p]\<rparr>" p "take r src" "drop r src" "int (length src)"] q fit
    by (simp add: q_def del: append_take_drop_id)
  finally have run: "pipewrite p src (int (length src)) s = pipewrite_loop p (drop r src) (int (length src)) ?t" .
  show "pipewrite p src (int (length src)) s =
      (if length src \<le> r then Ok (int (length src)) (s\<lparr>procs := map (wake (Ch_nread p)) (procs s), pipes := (pipes s)(p := ?q)\<rparr>)
       else if \<not> readopen q \<or> killed (procs s ! i) then Ok (-1) (s\<lparr>pipes := (pipes s)(p := ?q)\<rparr>)
       else Swtch (s\<lparr>held := [L_ptable], pipes := (pipes s)(p := ?q),
         procs := (map (wake (Ch_nread p)) (procs s))[i := (wake (Ch_nread p) (procs s ! i))\<lparr>pchan := Some (Ch_nwrite p), pstate := SLEEPING\<rparr>]\<rparr>))"
  proof (cases "length src \<le> r")
    case True
    then have "drop r src = []" by simp
    then show ?thesis unfolding run using True k' by (simp add: kcode wakeup_eq)
  next
    case False
    then obtain c' cs where d: "drop r src = c' # cs" by (cases "drop r src") auto
    have "length (pipe_bytes ?q) = PIPESIZE" using pa False pq.bounded [OF q] by (simp add: r_def q_def)
    then have full: "nwrite ?q = nread ?q + of_nat PIPESIZE" by (simp only: pipe_full)
    show ?thesis unfolding run d using False full k' c
      by (simp add: kcode pipe_keeps wakeup_eq sleep_eq)
  qed
qed

text \<open>
  C25: piperead() returns the oldest bytes of the pipe, at most \<open>n\<close>, takes
  them out and wakes the writers; on an empty pipe whose write end is closed
  that is the end of file, 0 bytes.  On an empty pipe with a writer it gives -1
  to a killed process and puts any other to sleep.
\<close>

theorem piperead_spec:
  fixes s :: "'z ost_scheme"
  assumes k: "kok s" and c: "cur s = Some i" and q: "pipe_ok (pipes s p)"
  defines "q \<equiv> pipes s p"
  shows "\<exists>q'. pipe_ok q' \<and> pipe_bytes q' = drop (nat n) (pipe_bytes q) \<and> readopen q' = readopen q \<and> writeopen q' = writeopen q \<and>
    piperead p n s =
      (if pipe_bytes q = [] \<and> writeopen q then
         (if killed (procs s ! i) then Ok (-1, []) s
          else Swtch (s\<lparr>held := [L_ptable], procs := (procs s)[i := (procs s ! i)\<lparr>pchan := Some (Ch_nread p), pstate := SLEEPING\<rparr>]\<rparr>))
       else let cs = take (nat n) (pipe_bytes q) in
         Ok (int (length cs), cs) (s\<lparr>procs := map (wake (Ch_nwrite p)) (procs s), pipes := (pipes s)(p := q')\<rparr>))"
proof (intro exI conjI)
  let ?m = "min (nat n) (length (pipe_bytes q))"
  let ?q = "snd (pq.get_n ?m q)"
  have k': "held s = []" "length (procs s) = NPROC" "i < NPROC" using k c by (auto simp: kok_def)
  note g = pq.get_n_ok [OF q [folded q_def] min.cobounded2, of "nat n"]
  show "pipe_ok ?q" "pipe_bytes ?q = drop (nat n) (pipe_bytes q)" using g by (auto simp: min_def)
  show "readopen ?q = readopen q" "writeopen ?q = writeopen q" by (simp_all only: pipe_keeps_get)
  have tk: "fst (pq.get_n ?m q) = take (nat n) (pipe_bytes q)" using g by (simp add: min_def)
  have em: "nread (pipes s p) = nwrite (pipes s p) \<longleftrightarrow> pipe_bytes q = []" unfolding q_def by (rule pipe_empty)
  have cp: "piperead_copy p (nat n) (s\<lparr>held := [L_pipe p]\<rparr>) = Ok (take (nat n) (pipe_bytes q)) (s\<lparr>held := [L_pipe p], pipes := (pipes s)(p := ?q)\<rparr>)"
    using piperead_copy_eq [of "s\<lparr>held := [L_pipe p]\<rparr>" p "nat n"] q tk by (simp add: q_def [symmetric])
  show "piperead p n s =
      (if pipe_bytes q = [] \<and> writeopen q then
         (if killed (procs s ! i) then Ok (-1, []) s
          else Swtch (s\<lparr>held := [L_ptable], procs := (procs s)[i := (procs s ! i)\<lparr>pchan := Some (Ch_nread p), pstate := SLEEPING\<rparr>]\<rparr>))
       else let cs = take (nat n) (pipe_bytes q) in
         Ok (int (length cs), cs) (s\<lparr>procs := map (wake (Ch_nwrite p)) (procs s), pipes := (pipes s)(p := ?q)\<rparr>))"
  proof (cases "pipe_bytes q = [] \<and> writeopen q")
    case True
    then show ?thesis using em k' c
      by (simp add: piperead_def piperead_wait_def kcode sleep_eq q_def [symmetric])
  next
    case False
    then have nw: "(nread q = nwrite q \<and> writeopen q) = False" using em by (simp add: q_def)
    show ?thesis using cp k' nw unfolding if_not_P [OF False]
      by (simp add: piperead_def piperead_wait_def kcode wakeup_eq q_def [symmetric] Let_def del: de_Morgan_conj)
  qed
qed

text \<open>A machine with an empty pipe in the page at \<open>0x80400000\<close>.\<close>

definition boot_ost :: ost where
  "boot_ost = cst.extend (boot_cst []) (ost.fields (replicate NFILE zero_file)
     (\<lambda>_. \<lparr>p_data = replicate PIPESIZE 0, nread = 0, nwrite = 0, readopen = True, writeopen = True\<rparr>))"

lemma boot_ost_simps:
  "held boot_ost = []" "procs boot_ost = replicate NPROC zero_proc" "cur boot_ost = Some 0" "ftable boot_ost = replicate NFILE zero_file"
  "pipes boot_ost p = \<lparr>p_data = replicate PIPESIZE 0, nread = 0, nwrite = 0, readopen = True, writeopen = True\<rparr>"
  by (simp_all add: boot_ost_def cst.extend_def ost.fields_def boot_cst_simps)

lemma boot_ost_ok: "kok boot_ost" "pipe_ok (pipes boot_ost p)" "pipe_bytes (pipes boot_ost p) = []"
  by (simp_all add: kok_def boot_ost_simps pipe_ok_def pipe_bytes_def)

theorem pipewrite_spec_witness:
  "\<exists>t. pipewrite 0x80400000 (cbytes ''hi'') 2 boot_ost = Ok 2 t \<and> pipe_bytes (pipes t 0x80400000) = cbytes ''hi''"
  using pipewrite_spec [OF boot_ost_ok(1) boot_ost_simps(3) boot_ost_ok(2) [of "0x80400000"], where src = "cbytes ''hi''"]
  by (auto simp: boot_ost_ok(3))

theorem piperead_spec_witness:
  "\<exists>t. piperead 0x80400000 5 boot_ost = Swtch t \<and> pstate (procs t ! 0) = SLEEPING \<and> pchan (procs t ! 0) = Some (Ch_nread 0x80400000)"
  using piperead_spec [OF boot_ost_ok(1) boot_ost_simps(3) boot_ost_ok(2) [of "0x80400000"], where n = 5]
  by (auto simp: boot_ost_simps pipe_bytes_def zero_proc_def)

end
