(* ===== verification/File.thy ===== *)
theory File
  imports Pipe
begin

text \<open>
  file.c: the table of open files with its reference counts, and the dispatch
  of read, write, stat and close to pipes and inodes; pipealloc() of pipe.c,
  which makes two open files.  A file pointer is an index into the table, and
  null is \<open>None\<close>.
\<close>

definition upd_file :: "nat \<Rightarrow> (file_t \<Rightarrow> file_t) \<Rightarrow> ('z ost_scheme, unit) kfun" where
  "upd_file f g = modM (\<lambda>s. s\<lparr>ftable := (ftable s)[f := g (ftable s ! f)]\<rparr>)"

definition get_file :: "nat \<Rightarrow> ('z ost_scheme, file_t) kfun" where
  "get_file f = getM (\<lambda>s. ftable s ! f)"

lemma file_apply [kcode]:
  "upd_file f g s = Ok () (s\<lparr>ftable := (ftable s)[f := g (ftable s ! f)]\<rparr>)" "get_file f s = Ok (ftable s ! f) s"
  by (simp_all add: upd_file_def get_file_def kcode)

section \<open>The routines\<close>

definition filealloc_slot :: "nat \<Rightarrow> ('z ost_scheme, nat option) kfun" where
  "filealloc_slot f =
     bindM (get_file f) (\<lambda>v.
     if f_ref v = 0 then
       thenM (upd_file f (\<lambda>v. v\<lparr>f_ref := 1\<rparr>))
       (thenM (release L_ftable)
       (retM (Some f)))
     else retM None)"

definition filealloc :: "('z ost_scheme, nat option) kfun" where
  "filealloc =
     thenM (acquire L_ftable)
     (bindM (findM [0..<NFILE] filealloc_slot) (\<lambda>r.
      case r of
        Some f \<Rightarrow> retM (Some f)
      | None \<Rightarrow> thenM (release L_ftable) (retM None)))"

definition filedup :: "nat \<Rightarrow> ('z ost_scheme, nat) kfun" where
  "filedup f =
     thenM (acquire L_ftable)
     (bindM (get_file f) (\<lambda>v.
      thenM (assertM (\<not> f_ref v < 1) ''filedup'')
      (thenM (upd_file f (\<lambda>v. v\<lparr>f_ref := f_ref v + 1\<rparr>))
      (thenM (release L_ftable)
      (retM f)))))"

definition fileclose :: "nat \<Rightarrow> ('z ost_scheme, unit) kfun" where
  "fileclose f =
     thenM (acquire L_ftable)
     (bindM (get_file f) (\<lambda>v.
      thenM (assertM (\<not> f_ref v < 1) ''fileclose'')
      (thenM (upd_file f (\<lambda>v. v\<lparr>f_ref := f_ref v - 1\<rparr>))
      (bindM (get_file f) (\<lambda>ff.
       if f_ref ff > 0 then release L_ftable
       else
         thenM (upd_file f (\<lambda>v. v\<lparr>f_ref := 0, f_type := FD_NONE\<rparr>))
         (thenM (release L_ftable)
         (if f_type ff = FD_PIPE then pipeclose (f_pipe ff) (f_writable ff)
          else if f_type ff = FD_INODE then
            thenM begin_op
            (thenM (iput (f_ip ff))
            end_op)
          else skipM)))))))"

text \<open>The value is the result and, when it is 0, what was stored at \<open>st\<close>.\<close>

definition filestat :: "nat \<Rightarrow> ('z ost_scheme, int \<times> stat option) kfun" where
  "filestat f =
     bindM (get_file f) (\<lambda>v.
     if f_type v = FD_INODE then
       thenM (ilock (f_ip v))
       (bindM (stati (f_ip v)) (\<lambda>st.
       thenM (iunlock (f_ip v))
       (retM (0, Some st))))
     else retM (-1, None))"

definition fileread :: "nat \<Rightarrow> int \<Rightarrow> ('z ost_scheme, int \<times> bytes) kfun" where
  "fileread f n =
     bindM (get_file f) (\<lambda>v.
     if \<not> f_readable v then retM (-1, [])
     else if f_type v = FD_PIPE then piperead (f_pipe v) n
     else if f_type v = FD_INODE then
       thenM (ilock (f_ip v))
       (bindM (readi (f_ip v) (f_off v) (of_int n)) (\<lambda>(r, d).
       thenM (whenM (r > 0) (upd_file f (\<lambda>v. v\<lparr>f_off := f_off v + of_int r\<rparr>)))
       (thenM (iunlock (f_ip v))
       (retM (r, d)))))
     else panicM ''fileread'')"

text \<open>One transaction of filewrite(), and its loop over the bytes \<open>addr + i\<close> on.\<close>

definition WRITEMAX :: int where "WRITEMAX = ((MAXOPBLOCKS - 1 - 1 - 2) div 2) * 512"

definition filewrite_op :: "nat \<Rightarrow> bytes \<Rightarrow> int \<Rightarrow> ('z ost_scheme, int) kfun" where
  "filewrite_op f src n1 =
     thenM begin_op
     (bindM (get_file f) (\<lambda>v.
      thenM (ilock (f_ip v))
      (bindM (writei (f_ip v) src (f_off v) (of_int n1)) (\<lambda>r.
      thenM (whenM (r > 0) (upd_file f (\<lambda>v. v\<lparr>f_off := f_off v + of_int r\<rparr>)))
      (thenM (iunlock (f_ip v))
      (thenM end_op
      (retM r)))))))"

function filewrite_loop :: "nat \<Rightarrow> bytes \<Rightarrow> int \<Rightarrow> int \<Rightarrow> ('z ost_scheme, int) kfun" where
  "filewrite_loop f addr n i =
     (if i < n then
        let n1 = min (n - i) WRITEMAX in
        bindM (filewrite_op f (drop (nat i) addr) n1) (\<lambda>r.
        if r < 0 then retM (if i = n then n else -1)
        else
          thenM (assertM (r = n1) ''short filewrite'')
          (filewrite_loop f addr n (i + n1)))
      else retM (if i = n then n else -1))"
  by pat_completeness auto
termination by (relation "measure (\<lambda>(f, addr, n, i). nat (n - i))") (auto simp: WRITEMAX_def)

declare filewrite_loop.simps [simp del]

definition filewrite :: "nat \<Rightarrow> bytes \<Rightarrow> int \<Rightarrow> ('z ost_scheme, int) kfun" where
  "filewrite f addr n =
     bindM (get_file f) (\<lambda>v.
     if \<not> f_writable v then retM (-1)
     else if f_type v = FD_PIPE then pipewrite (f_pipe v) addr n
     else if f_type v = FD_INODE then filewrite_loop f addr n 0
     else panicM ''filewrite'')"

text \<open>
  pipealloc(): the path to \<open>bad:\<close>, and the routine; its value is the result and
  \<open>*f0\<close> and \<open>*f1\<close>.  The fields of the new pipe go into the table of pipes (see Pipe),
  so the bytes of its page stay as kalloc() gave them.
\<close>

definition pipealloc_bad :: "u32 \<Rightarrow> nat option \<Rightarrow> nat option \<Rightarrow> ('z ost_scheme, int \<times> nat option \<times> nat option) kfun" where
  "pipealloc_bad p f0 f1 =
     thenM (whenM (p \<noteq> 0) (kfree p))
     (thenM (case f0 of Some f \<Rightarrow> fileclose f | None \<Rightarrow> skipM)
     (thenM (case f1 of Some f \<Rightarrow> fileclose f | None \<Rightarrow> skipM)
     (retM (-1, f0, f1))))"

definition pipealloc :: "('z ost_scheme, int \<times> nat option \<times> nat option) kfun" where
  "pipealloc =
     bindM filealloc (\<lambda>f0. case f0 of None \<Rightarrow> pipealloc_bad 0 None None | Some a \<Rightarrow>
     bindM filealloc (\<lambda>f1. case f1 of None \<Rightarrow> pipealloc_bad 0 f0 None | Some b \<Rightarrow>
     bindM kalloc (\<lambda>p.
     if p = 0 then pipealloc_bad p f0 f1
     else
       thenM (upd_pipe p (\<lambda>q. q\<lparr>readopen := True, writeopen := True, nwrite := 0, nread := 0\<rparr>))
       (thenM (upd_file a (\<lambda>v. v\<lparr>f_type := FD_PIPE, f_readable := True, f_writable := False, f_pipe := p\<rparr>))
       (thenM (upd_file b (\<lambda>v. v\<lparr>f_type := FD_PIPE, f_readable := False, f_writable := True, f_pipe := p\<rparr>))
       (retM (0, f0, f1)))))))"

section \<open>The file table\<close>

text \<open>A free entry has type FD_NONE: fileclose() leaves it so, and filealloc() relies on it.\<close>

definition ftable_ok :: "file_t list \<Rightarrow> bool" where
  "ftable_ok fs \<longleftrightarrow> length fs = NFILE \<and> (\<forall>f < NFILE. 0 \<le> f_ref (fs ! f) \<and> (f_ref (fs ! f) = 0 \<longrightarrow> f_type (fs ! f) = FD_NONE))"

lemma findM_filealloc:
  assumes "held s = L_ftable # ls"
  shows "findM fs filealloc_slot s = (case find (\<lambda>f. f_ref (ftable s ! f) = 0) fs of
      None \<Rightarrow> Ok None s
    | Some f \<Rightarrow> Ok (Some f) (s\<lparr>held := ls, ftable := (ftable s)[f := (ftable s ! f)\<lparr>f_ref := 1\<rparr>]\<rparr>))"
  using assms by (induction fs) (simp_all add: filealloc_slot_def kcode)

lemma filealloc_eq:
  assumes "L_ftable \<notin> set (held s)"
  shows "filealloc s = (case find (\<lambda>f. f_ref (ftable s ! f) = 0) [0..<NFILE] of
      None \<Rightarrow> Ok None s
    | Some f \<Rightarrow> Ok (Some f) (s\<lparr>ftable := (ftable s)[f := (ftable s ! f)\<lparr>f_ref := 1\<rparr>]\<rparr>))"
  using assms findM_filealloc [of "s\<lparr>held := L_ftable # held s\<rparr>" "held s" "[0..<NFILE]"]
  by (simp add: filealloc_def kcode del: upt_Suc split: option.split)

lemma fileclose_eq:
  assumes "L_ftable \<notin> set (held s)" "f < length (ftable s)" "f_type v = FD_NONE" "f_ref v = 0" "ftable s ! f = v\<lparr>f_ref := 1\<rparr>"
  shows "fileclose f s = Ok () (s\<lparr>ftable := (ftable s)[f := v]\<rparr>)"
proof -
  have e: "v\<lparr>f_ref := 0, f_type := FD_NONE\<rparr> = v" using assms(3,4) by (cases v) simp
  have "fileclose f s = Ok () (s\<lparr>ftable := (ftable s)[f := v\<lparr>f_ref := 0, f_type := FD_NONE\<rparr>]\<rparr>)"
    using assms(1-3) by (simp add: fileclose_def kcode assms(5))
  then show ?thesis unfolding e .
qed

text \<open>The free entries of the table.\<close>

definition free_files :: "file_t list \<Rightarrow> nat list" where
  "free_files fs = filter (\<lambda>f. f_ref (fs ! f) = 0) [0..<NFILE]"

lemma find_filter: "find P xs = (case filter P xs of [] \<Rightarrow> None | x # _ \<Rightarrow> Some x)"
  by (induction xs) auto

lemma filealloc_free:
  assumes "L_ftable \<notin> set (held s)"
  shows "filealloc s = (case free_files (ftable s) of
      [] \<Rightarrow> Ok None s
    | f # _ \<Rightarrow> Ok (Some f) (s\<lparr>ftable := (ftable s)[f := (ftable s ! f)\<lparr>f_ref := 1\<rparr>]\<rparr>))"
  using filealloc_eq [OF assms] by (simp add: find_filter free_files_def split: list.split)

lemma free_files_alloc:
  assumes "ftable_ok fs" "free_files fs = f # rest"
  shows "free_files (fs[f := (fs ! f)\<lparr>f_ref := 1\<rparr>]) = rest" "f \<notin> set rest" "f < NFILE" "f_ref (fs ! f) = 0" "f_type (fs ! f) = FD_NONE"
proof -
  have f: "f \<in> set (free_files fs)" "distinct (free_files fs)" by (simp_all add: assms(2), metis assms(2) distinct_filter distinct_upt free_files_def distinct.simps(2))
  then show "f < NFILE" and r: "f_ref (fs ! f) = 0" by (auto simp: free_files_def)
  then show "f_type (fs ! f) = FD_NONE" using assms(1) by (simp add: ftable_ok_def)
  show "f \<notin> set rest" using f(2) assms(2) by simp
  have "free_files (fs[f := (fs ! f)\<lparr>f_ref := 1\<rparr>]) = filter (\<lambda>g. g \<noteq> f) (free_files fs)"
    unfolding free_files_def filter_filter
  proof (rule filter_cong [OF refl])
    fix x assume "x \<in> set [0..<NFILE]"
    then show "f_ref (fs[f := (fs ! f)\<lparr>f_ref := 1\<rparr>] ! x) = 0 \<longleftrightarrow> f_ref (fs ! x) = 0 \<and> x \<noteq> f"
      using assms(1) by (cases "x = f") (simp_all add: ftable_ok_def)
  qed
  also have "\<dots> = rest" using \<open>f \<notin> set rest\<close> assms(2) by (auto simp: filter_id_conv)
  finally show "free_files (fs[f := (fs ! f)\<lparr>f_ref := 1\<rparr>]) = rest" .
qed

section \<open>Properties\<close>

text \<open>
  C26: pipealloc() is all or nothing.  With two free entries in the file table
  and a free page it returns 0 and two files, the read and the write end of a
  new, empty pipe in that page, and changes no other file; when an entry or the page is missing it
  returns -1 and leaves the whole state as it was.
\<close>

theorem pipealloc_spec:
  fixes s :: "'z ost_scheme"
  assumes ok: "ftable_ok (ftable s)" and h: "held s = []"
  shows "case free_files (ftable s) of
      a # b # _ \<Rightarrow>
        if freelist s = 0 then \<exists>f0 f1. pipealloc s = Ok (-1, f0, f1) s
        else \<exists>t. pipealloc s = Ok (0, Some a, Some b) t \<and> a \<noteq> b
          \<and> ftable t ! a = (ftable s ! a)\<lparr>f_ref := 1, f_type := FD_PIPE, f_readable := True, f_writable := False, f_pipe := freelist s\<rparr>
          \<and> ftable t ! b = (ftable s ! b)\<lparr>f_ref := 1, f_type := FD_PIPE, f_readable := False, f_writable := True, f_pipe := freelist s\<rparr>
          \<and> (\<forall>f. f \<noteq> a \<longrightarrow> f \<noteq> b \<longrightarrow> ftable t ! f = ftable s ! f)
          \<and> pipe_bytes (pipes t (freelist s)) = [] \<and> readopen (pipes t (freelist s)) \<and> writeopen (pipes t (freelist s))
          \<and> freelist t = load32 (mem s) (freelist s) \<and> mem t = mem s
    | _ \<Rightarrow> \<exists>f0 f1. pipealloc s = Ok (-1, f0, f1) s"
proof (cases "free_files (ftable s)")
  case Nil
  then show ?thesis using h by (simp add: pipealloc_def pipealloc_bad_def kcode filealloc_free)
next
  case (Cons a as)
  note A = free_files_alloc [OF ok Cons]
  let ?fa = "(ftable s)[a := (ftable s ! a)\<lparr>f_ref := 1\<rparr>]"
  have l: "length (ftable s) = NFILE" using ok by (simp add: ftable_ok_def)
  have f1: "filealloc s = Ok (Some a) (s\<lparr>ftable := ?fa\<rparr>)" using filealloc_free [of s] h Cons by simp
  show ?thesis
  proof (cases as)
    case Nil
    have f2: "filealloc (s\<lparr>ftable := ?fa\<rparr>) = Ok None (s\<lparr>ftable := ?fa\<rparr>)" using filealloc_free [of "s\<lparr>ftable := ?fa\<rparr>"] h A(1) Nil by simp
    have "fileclose a (s\<lparr>ftable := ?fa\<rparr>) = Ok () s" using fileclose_eq [of "s\<lparr>ftable := ?fa\<rparr>" a "ftable s ! a"] h l A by simp
    then show ?thesis using f1 f2 Cons Nil by (simp add: pipealloc_def pipealloc_bad_def kcode)
  next
    case as: (Cons b bs)
    have okA: "ftable_ok ?fa" using ok A(3) by (auto simp: ftable_ok_def nth_list_update)
    have fb: "free_files ?fa = b # bs" using A(1) as by simp
    note B = free_files_alloc [OF okA fb]
    have ab: "a \<noteq> b" using A(2) as by simp
    have fab: "?fa ! b = ftable s ! b" using ab by simp
    let ?fb = "?fa[b := (ftable s ! b)\<lparr>f_ref := 1\<rparr>]"
    have f2: "filealloc (s\<lparr>ftable := ?fa\<rparr>) = Ok (Some b) (s\<lparr>ftable := ?fb\<rparr>)"
      using filealloc_free [of "s\<lparr>ftable := ?fa\<rparr>"] h fb ab by simp
    show ?thesis
    proof (cases "freelist s = 0")
      case True
      have k: "kalloc (s\<lparr>ftable := ?fb\<rparr>) = Ok 0 (s\<lparr>ftable := ?fb\<rparr>)" using True h by (simp add: kalloc_def kcode)
      have "fileclose a (s\<lparr>ftable := ?fb\<rparr>) = Ok () (s\<lparr>ftable := (ftable s)[b := (ftable s ! b)\<lparr>f_ref := 1\<rparr>]\<rparr>)"
        using fileclose_eq [of "s\<lparr>ftable := ?fb\<rparr>" a "ftable s ! a"] h l A ab by (simp add: list_update_swap)
      moreover have "fileclose b (s\<lparr>ftable := (ftable s)[b := (ftable s ! b)\<lparr>f_ref := 1\<rparr>]\<rparr>) = Ok () s"
        using fileclose_eq [of "s\<lparr>ftable := (ftable s)[b := (ftable s ! b)\<lparr>f_ref := 1\<rparr>]\<rparr>" b "ftable s ! b"] h l B(3-5) ab by simp
      ultimately show ?thesis using f1 f2 k Cons as True by (simp add: pipealloc_def pipealloc_bad_def kcode)
    next
      case False
      let ?u = "s\<lparr>ftable := ?fb, freelist := load32 (mem s) (freelist s)\<rparr>"
      have k: "kalloc (s\<lparr>ftable := ?fb\<rparr>) = Ok (freelist s) ?u" using False h by (simp add: kalloc_def kcode)
      show ?thesis using f1 f2 k Cons as False ab A(3) B(3) l by (simp add: pipealloc_def kcode pipe_bytes_def)
    qed
  qed
qed

theorem pipealloc_spec_witness:
  "\<exists>t. pipealloc (boot_ost\<lparr>freelist := 0x80400000\<rparr>) = Ok (0, Some 0, Some 1) t \<and> f_pipe (ftable t ! 0) = 0x80400000"
proof -
  let ?s = "boot_ost\<lparr>freelist := 0x80400000\<rparr>"
  have z: "replicate NFILE zero_file ! f = zero_file" if "f < NFILE" for f using that by (rule nth_replicate)
  have ok: "ftable_ok (ftable ?s)" by (simp add: boot_ost_simps ftable_ok_def z zero_file_def)
  have h: "held ?s = []" by (simp add: boot_ost_simps)
  have "free_files (ftable ?s) = [0..<NFILE]"
    unfolding free_files_def by (rule filter_True) (simp add: boot_ost_simps z zero_file_def)
  moreover have "[0..<NFILE] = 0 # 1 # [2..<NFILE]" by (simp add: upt_rec)
  ultimately show ?thesis using pipealloc_spec [OF ok h] by auto
qed

end
