(* ===== verification/Vm_Copy.thy ===== *)
theory Vm_Copy
  imports Vm
begin

text \<open>
  vm.c, whole address spaces: freevm() gives back every page of one, setupkvm()
  makes an empty one and copyuvm() a copy for fork(), each without losing a
  page also when memory runs out.
\<close>

section \<open>Frames\<close>

text \<open>Only memory in the pages \<open>A\<close> and the head of the free list change.\<close>

definition mframe :: "u32 set \<Rightarrow> 'z mst_scheme \<Rightarrow> 'z mst_scheme \<Rightarrow> bool" where
  "mframe A s t \<longleftrightarrow> memonly s t \<and> (\<forall>z. PGROUNDDOWN z \<notin> A \<longrightarrow> mem t z = mem s z)"

lemma mframe_refl [simp]: "mframe A s s" by (simp add: mframe_def)

lemma mframe_trans: "mframe A s t \<Longrightarrow> mframe B t u \<Longrightarrow> A \<subseteq> C \<Longrightarrow> B \<subseteq> C \<Longrightarrow> mframe C s u"
  unfolding mframe_def using memonly_trans by (metis subsetD)

lemma mframe_mono: "mframe A s t \<Longrightarrow> A \<subseteq> B \<Longrightarrow> mframe B s t"
  by (auto simp: mframe_def)

lemma mframeD: "mframe A s t \<Longrightarrow> memonly s t" "mframe A s t \<Longrightarrow> PGROUNDDOWN z \<notin> A \<Longrightarrow> mem t z = mem s z"
  by (simp_all add: mframe_def)

lemma kfree_frame:
  assumes "kmem_ok s xs" "allocatable s x" "x \<notin> set xs"
  obtains t where "kfree x s = Ok () t" "kmem_ok t (x # xs)" "mframe {x} s t"
proof (rule that)
  let ?t = "s\<lparr>mem := freed (mem s) x (freelist s), freelist := x\<rparr>"
  show "kfree x s = Ok () ?t" using assms by (intro kfree_eq) (simp_all add: kmem_ok_def)
  show "kmem_ok ?t (x # xs)" by (rule kmem_ok_kfree [OF assms])
  show "mframe {x} s ?t" using assms(2) by (auto simp: mframe_def in_page allocatable_def intro!: freed_other)
qed

section \<open>freevm()\<close>

text \<open>The loop over the page directory frees the page tables in it.\<close>

definition slot_tab :: "mem \<Rightarrow> u32 \<Rightarrow> nat \<Rightarrow> u32" where
  "slot_tab m pd i = P2V (PTE_ADDR (ent m pd (of_nat i)))"

definition tabs_of :: "mem \<Rightarrow> u32 \<Rightarrow> nat set \<Rightarrow> u32 set" where
  "tabs_of m pd I = slot_tab m pd ` {i \<in> I. present (ent m pd (of_nat i))}"

lemma of_nat_less_1024: "i < 1024 \<Longrightarrow> (of_nat i :: u32) < 1024"
  by (simp add: word_less_nat_alt unat_of_nat)

lemma free_slots:
  assumes "kmem_ok s xs" "page pd" "distinct js" "\<forall>i \<in> set js. i < 1024"
    "\<forall>x \<in> tabs_of (mem s) pd (set js). allocatable s x \<and> x \<notin> set xs \<and> x \<noteq> pd"
    "inj_on (slot_tab (mem s) pd) {i \<in> set js. present (ent (mem s) pd (of_nat i))}"
  shows "\<exists>t ys. foreachM js (freevm_slot pd) s = Ok () t \<and> kmem_ok t ys
    \<and> set ys = set xs \<union> tabs_of (mem s) pd (set js) \<and> mframe (tabs_of (mem s) pd (set js)) s t"
  using assms
proof (induction js arbitrary: s xs)
  case Nil
  then show ?case by (auto simp: kcode tabs_of_def)
next
  case (Cons i js)
  let ?e = "ent (mem s) pd (of_nat i)" and ?x = "slot_tab (mem s) pd i"
  have slot: "freevm_slot pd i s = (if present ?e then kfree ?x s else Ok () s)"
    by (simp add: freevm_slot_def kcode present_def ent_def slot_tab_def)
  show ?case
  proof (cases "present ?e")
    case True
    then have x: "?x \<in> tabs_of (mem s) pd (set (i # js))" by (auto simp: tabs_of_def)
    then have X: "allocatable s ?x" "?x \<notin> set xs" "?x \<noteq> pd" using Cons.prems(5) by auto
    obtain u where u: "kfree ?x s = Ok () u" "kmem_ok u (?x # xs)" "mframe {?x} s u"
      by (rule kfree_frame [OF Cons.prems(1) X(1,2)])
    have same: "ent (mem u) pd (of_nat j) = ent (mem s) pd (of_nat j)" if "j < 1024" for j
      using Cons.prems(2) that X(3) mframeD(2) [OF u(3)] by (intro ent_cong) (auto simp: of_nat_less_1024)
    have tab: "slot_tab (mem u) pd j = slot_tab (mem s) pd j" if "j < 1024" for j using same [OF that] by (simp add: slot_tab_def)
    have lt: "\<forall>j \<in> set js. j < 1024" using Cons.prems(4) by simp
    have tabs: "tabs_of (mem u) pd (set js) = tabs_of (mem s) pd (set js)"
      unfolding tabs_of_def using lt same tab by (intro image_cong) auto
    have sub: "tabs_of (mem s) pd (set js) \<subseteq> tabs_of (mem s) pd (set (i # js))" by (auto simp: tabs_of_def)
    have new: "?x \<notin> tabs_of (mem s) pd (set js)"
      using Cons.prems(3,6) True by (auto simp: tabs_of_def inj_on_def)
    have "\<exists>t ys. foreachM js (freevm_slot pd) u = Ok () t \<and> kmem_ok t ys
      \<and> set ys = set (?x # xs) \<union> tabs_of (mem u) pd (set js) \<and> mframe (tabs_of (mem u) pd (set js)) u t"
    proof (rule Cons.IH [OF u(2) Cons.prems(2) _ lt])
      show "distinct js" using Cons.prems(3) by simp
      show "\<forall>x \<in> tabs_of (mem u) pd (set js). allocatable u x \<and> x \<notin> set (?x # xs) \<and> x \<noteq> pd"
        unfolding tabs using Cons.prems(5) sub memonlyD(2) [OF mframeD(1) [OF u(3)]] new by auto
      show "inj_on (slot_tab (mem u) pd) {j \<in> set js. present (ent (mem u) pd (of_nat j))}"
        using Cons.prems(6) lt same tab by (auto simp: inj_on_def)
    qed
    then obtain t ys where t: "foreachM js (freevm_slot pd) u = Ok () t" "kmem_ok t ys"
      "set ys = set (?x # xs) \<union> tabs_of (mem s) pd (set js)" "mframe (tabs_of (mem s) pd (set js)) u t"
      unfolding tabs by blast
    have all: "tabs_of (mem s) pd (insert i (set js)) = insert ?x (tabs_of (mem s) pd (set js))"
      using True by (auto simp: tabs_of_def)
    have "mframe (tabs_of (mem s) pd (set (i # js))) s t" by (rule mframe_trans [OF u(3) t(4)]) (auto simp: all)
    then show ?thesis using slot True u(1) t by (auto simp: kcode all)
  next
    case False
    then have all: "tabs_of (mem s) pd (insert i (set js)) = tabs_of (mem s) pd (set js)" by (auto simp: tabs_of_def)
    have "\<exists>t ys. foreachM js (freevm_slot pd) s = Ok () t \<and> kmem_ok t ys
      \<and> set ys = set xs \<union> tabs_of (mem s) pd (set js) \<and> mframe (tabs_of (mem s) pd (set js)) s t"
      by (rule Cons.IH) (use Cons.prems all in \<open>auto simp: inj_on_def\<close>)
    then show ?thesis using slot False by (auto simp: kcode all)
  qed
qed

lemma of_nat_PDX: "of_nat (unat (PDX va)) = PDX va" by simp

lemma PDX_slot: "i < 1024 \<Longrightarrow> PDX (of_nat (i * 2 ^ 22)) = of_nat i"
proof -
  assume i: "i < 1024"
  then have "unat (of_nat (i * 2 ^ 22) :: u32) = i * 2 ^ 22" by (simp add: unat_of_nat del: of_nat_mult)
  then have "unat (PDX (of_nat (i * 2 ^ 22))) = i" by (simp add: unat_PDX)
  then have "(of_nat (unat (PDX (of_nat (i * 2 ^ 22)))) :: u32) = of_nat i" by (rule arg_cong)
  then show ?thesis unfolding of_nat_PDX .
qed

lemma PDX_nat_less: "unat (PDX va) < 1024"
  using PDX_less [of va] by (simp add: word_less_nat_alt)

lemma pt_pages_tabs: "pt_pages m pd = insert pd (tabs_of m pd {0..<1024})"
proof -
  have "{ptab m pd va | va. present (pde m pd va)} = tabs_of m pd {0..<1024}"
  proof (intro equalityI subsetI)
    fix x assume "x \<in> {ptab m pd va | va. present (pde m pd va)}"
    then obtain va where "x = ptab m pd va" "present (pde m pd va)" by auto
    then show "x \<in> tabs_of m pd {0..<1024}"
      using PDX_nat_less [of va] by (auto simp: tabs_of_def slot_tab_def ptab_def pde_def intro!: image_eqI [where x = "unat (PDX va)"])
  next
    fix x assume "x \<in> tabs_of m pd {0..<1024}"
    then obtain i where i: "i < 1024" "x = slot_tab m pd i" "present (ent m pd (of_nat i))" by (auto simp: tabs_of_def)
    then show "x \<in> {ptab m pd va | va. present (pde m pd va)}"
      using PDX_slot [OF i(1)] by (auto simp: ptab_def pde_def slot_tab_def intro!: exI [of _ "of_nat (i * 2 ^ 22)"])
  qed
  then show ?thesis by (simp add: pt_pages_def)
qed

lemma slot_tab_inj:
  assumes "pt_sep m pd"
  shows "inj_on (slot_tab m pd) {i \<in> {0..<1024}. present (ent m pd (of_nat i))}"
proof (rule inj_onI; clarify)
  fix i j assume h: "i \<in> {0..<1024}" "present (ent m pd (of_nat i))" "j \<in> {0..<1024}" "present (ent m pd (of_nat j))"
    "slot_tab m pd i = slot_tab m pd j"
  let ?a = "of_nat (i * 2 ^ 22) :: u32" and ?b = "of_nat (j * 2 ^ 22) :: u32"
  have d: "PDX ?a = of_nat i" "PDX ?b = of_nat j" using h(1,3) PDX_slot by auto
  have "ptab m pd ?a = ptab m pd ?b" using h(5) by (simp only: ptab_def pde_def slot_tab_def d)
  then have "PDX ?a = PDX ?b" using assms h(2,4) unfolding pt_sep_def pde_def d by (metis d)
  then have "unat (of_nat i :: u32) = unat (of_nat j :: u32)" unfolding d by simp
  then show "i = j" using h(1,3) by (simp add: unat_of_nat)
qed

lemma freevm_ok:
  assumes ok: "uvm_ok s pd xs S"
  shows "\<exists>t ys. freevm pd s = Ok () t \<and> kmem_ok t ys \<and> set ys = set xs \<union> owned (mem s) pd S
    \<and> mframe (owned (mem s) pd S \<union> set xs) s t"
proof -
  have S: "S \<subseteq> upages KERNBASE" using ok by (auto simp: uvm_ok_def upages_def)
  have e: "S \<inter> upages 0 = {}" by (simp add: upages_def)
  obtain t ys where t: "deallocuvm pd KERNBASE 0 s = Ok 0 t" "uvm_step pd s xs S t ys {}"
    using deallocuvm_ok [OF ok, of 0 KERNBASE] S by (auto simp: e)
  have okt: "uvm_ok t pd ys {}" and own: "owned (mem t) pd {} \<union> set ys = owned (mem s) pd S \<union> set xs"
    and fr: "mframe (owned (mem s) pd S \<union> set xs) s t"
    using t(2) by (auto simp: uvm_step_def mframe_def)
  have pok: "pt_ok t pd ys" using okt by (simp add: uvm_ok_def)
  note okD = pt_okD [OF pok]
  let ?T = "tabs_of (mem t) pd {0..<1024}"
  have pg: "pt_pages (mem t) pd = insert pd ?T" by (rule pt_pages_tabs)
  have ownt: "owned (mem t) pd {} = insert pd ?T" by (simp add: owned_def pg)
  have T: "allocatable t x \<and> x \<notin> set ys \<and> x \<noteq> pd" if x: "x \<in> ?T" for x
  proof -
    have "x \<in> pt_pages (mem t) pd" using x pg by simp
    moreover have "x \<noteq> pd"
    proof -
      obtain i where i: "i < 1024" "x = slot_tab (mem t) pd i" "present (ent (mem t) pd (of_nat i))" using x by (auto simp: tabs_of_def)
      then show ?thesis using okD(9) [of "of_nat (i * 2 ^ 22)"] PDX_slot [OF i(1)] by (simp add: ptab_def pde_def slot_tab_def)
    qed
    ultimately show ?thesis using pok by (auto simp: pt_ok_def)
  qed
  have "\<exists>u zs. foreachM [0..<1024] (freevm_slot pd) t = Ok () u \<and> kmem_ok u zs
    \<and> set zs = set ys \<union> tabs_of (mem t) pd (set [0..<1024]) \<and> mframe (tabs_of (mem t) pd (set [0..<1024])) t u"
    by (rule free_slots) (use T okD pok slot_tab_inj [of "mem t" pd] in \<open>auto simp: pt_ok_def simp del: upt_Suc\<close>)
  then obtain u zs where u: "foreachM [0..<1024] (freevm_slot pd) t = Ok () u" "kmem_ok u zs" "set zs = set ys \<union> ?T" "mframe ?T t u"
    by (auto simp del: upt_Suc)
  have "allocatable u pd" "pd \<notin> set zs" using okD(2,3) T u(3) memonlyD(2) [OF mframeD(1) [OF u(4)]] by auto
  then obtain v where v: "kfree pd u = Ok () v" "kmem_ok v (pd # zs)" "mframe {pd} u v" by (rule kfree_frame [OF u(2)])
  have "freevm pd s = Ok () v" using okD(5) t(1) u(1) v(1) by (simp add: freevm_def kcode del: upt_Suc)
  moreover have "mframe (owned (mem s) pd S \<union> set xs) s v"
    by (rule mframe_trans [OF fr mframe_trans [OF u(4) v(3), of "insert pd ?T"]]) (use own ownt in auto)
  moreover have "set (pd # zs) = set xs \<union> owned (mem s) pd S" using u(3) own ownt by auto
  ultimately show ?thesis using v(2) by blast
qed

section \<open>setupkvm()\<close>

lemma mappages_range:
  assumes "pt_ok s pd xs" "page a" "page lst" "a \<le> lst" "unat lst - unat a < 4096 * n"
    "\<And>v. page v \<Longrightarrow> a \<le> v \<Longrightarrow> v \<le> lst \<Longrightarrow> \<not> present (pte (mem s) pd v)"
  shows "\<exists>r t ys. mappages_loop n pd a lst pa perm s = Ok r t \<and> (r = 0 \<or> r = -1 \<and> ys = []) \<and> pt_grow pd s xs t ys
    \<and> (\<forall>v. page v \<longrightarrow> v < a \<or> lst < v \<longrightarrow> pte (mem t) pd v = pte (mem s) pd v)"
  using assms
proof (induction n arbitrary: s xs a pa)
  case (Suc n)
  have np: "\<not> present (pte (mem s) pd a)" using Suc.prems by simp
  show ?case
    using Suc.prems(1) np
  proof (cases rule: map_one [where n = n and lst = lst and pa = pa and perm = perm, consumes 2, case_names fail grown])
    case fail
    then show ?thesis using pt_grow_refl [OF Suc.prems(1)] by blast
  next
    case (grown t ys)
    have pte: "pte (mem t) pd v = (if v = a then pa OR perm OR 1 else pte (mem s) pd v)" if "page v" for v
      using that Suc.prems(2) unfolding grown(2) by (simp add: PGROUNDDOWN_page)
    show ?thesis
    proof (cases "a = lst")
      case True
      then show ?thesis using grown pte by (intro exI [of _ 0] exI [of _ t] exI [of _ ys]) auto
    next
      case False
      have gap: "unat a + 4096 \<le> unat lst" using next_page_le [OF Suc.prems(2,3,4)] False by auto
      then have un: "unat (a + PGSIZE) = unat a + 4096" using unat_u32 [of lst] by (simp add: unat_word_ariths)
      have lt: "a < v" if "a + PGSIZE \<le> v" for v using that un by (simp add: word_le_nat_alt word_less_nat_alt)
      have "\<exists>r u zs. mappages_loop n pd (a + PGSIZE) lst (pa + PGSIZE) perm t = Ok r u \<and> (r = 0 \<or> r = -1 \<and> zs = []) \<and> pt_grow pd t ys u zs
        \<and> (\<forall>v. page v \<longrightarrow> v < a + PGSIZE \<or> lst < v \<longrightarrow> pte (mem u) pd v = pte (mem t) pd v)"
      proof (rule Suc.IH)
        show "pt_ok t pd ys" using grown(1) by (simp add: pt_grow_def)
        show "page (a + PGSIZE)" using Suc.prems(2) un by (auto simp: page_unat)
        show "a + PGSIZE \<le> lst" using un gap by (simp add: word_le_nat_alt)
        show "unat lst - unat (a + PGSIZE) < 4096 * n" using un gap Suc.prems(5) by simp
        show "\<not> present (pte (mem t) pd v)" if "page v" "a + PGSIZE \<le> v" "v \<le> lst" for v
          using that lt [OF that(2)] pte [OF that(1)] Suc.prems(6) by auto
      qed (rule Suc.prems)
      then obtain r u zs where u: "mappages_loop n pd (a + PGSIZE) lst (pa + PGSIZE) perm t = Ok r u" "r = 0 \<or> r = -1 \<and> zs = []"
        "pt_grow pd t ys u zs" "\<And>v. page v \<Longrightarrow> v < a + PGSIZE \<or> lst < v \<Longrightarrow> pte (mem u) pd v = pte (mem t) pd v"
        by blast
      have "pte (mem u) pd v = pte (mem s) pd v" if "page v" "v < a \<or> lst < v" for v
      proof -
        have "v < a + PGSIZE \<or> lst < v" "v \<noteq> a" using that un Suc.prems(4) by (auto simp: word_less_nat_alt word_le_nat_alt)
        then show ?thesis using u(4) [OF that(1)] pte [OF that(1)] by simp
      qed
      then show ?thesis using grown(3) False u(1,2) pt_grow_trans [OF grown(1) u(3)] by auto
    qed
  qed
qed simp

lemma empty_pgdir:
  assumes km: "kmem_ok s (x # xs)" and ke: "KERNBASE < kend s"
  defines "t \<equiv> s\<lparr>freelist := load32 (mem s) x, mem := memset (mem s) x 0 PGSIZE\<rparr>"
  shows "uvm_ok t x xs {}" "owned (mem t) x {} = {x}" "mframe {x} s t" "pte (mem t) x v = 0" "x \<noteq> 0"
proof -
  have x: "page x" "allocatable s x" "x \<notin> set xs" "x \<noteq> 0"
    using km allocatable_nz [of s x] by (auto simp: kmem_ok_def allocatable_def)
  then show "x \<noteq> 0" by simp
  have d: "\<not> present (pde (mem t) x va)" for va using x(1) by (simp add: t_def pde_def ent_memset_zero)
  then show pte: "pte (mem t) x v = 0" for v by (simp add: pte_def)
  have pgs: "pt_pages (mem t) x = {x}" using d by (simp add: pt_pages_def)
  then show "owned (mem t) x {} = {x}" by (simp add: owned_def)
  have out: "memset (mem s) x 0 PGSIZE z = mem s z" if "PGROUNDDOWN z \<noteq> x" for z using that x(1) by (intro memset_page_other)
  have "kmem_ok ((s\<lparr>freelist := load32 (mem s) x\<rparr>)\<lparr>mem := memset (mem s) x 0 PGSIZE\<rparr>) xs"
    by (rule kmem_ok_mem [OF kalloc_Cons(2) [OF km]]) (use x(3) in \<open>auto intro!: out\<close>)
  then have "kmem_ok t xs" by (simp add: t_def)
  then have "pt_ok t x xs" using x d pgs by (auto simp: pt_ok_def pt_sep_def t_def allocatable_def)
  moreover have "kend t = kend s" by (simp add: t_def)
  ultimately show "uvm_ok t x xs {}" using ke by (simp add: uvm_ok_def pte)
  show "mframe {x} s t" using out by (simp add: mframe_def t_def)
qed

text \<open>One entry of the table kmap, in a range of kernel addresses that is not mapped yet.\<close>

lemma kmap_entry:
  assumes ok: "uvm_ok s pd xs {}" and v: "page v" "KERNBASE \<le> v" and l: "l = PGROUNDDOWN (v + n - 1)" "v \<le> l"
    and np: "\<And>w. page w \<Longrightarrow> v \<le> w \<Longrightarrow> \<not> present (pte (mem s) pd w)"
  shows "\<exists>r t ys. mappages pd v n pa perm s = Ok r t \<and> (r = 0 \<or> r = -1 \<and> ys = []) \<and> uvm_ok t pd ys {}
    \<and> owned (mem t) pd {} \<union> set ys = owned (mem s) pd {} \<union> set xs \<and> mframe (owned (mem s) pd {} \<union> set xs) s t
    \<and> (\<forall>w. page w \<longrightarrow> l < w \<longrightarrow> pte (mem t) pd w = pte (mem s) pd w)"
proof -
  have pok: "pt_ok s pd xs" using ok by (simp add: uvm_ok_def)
  have "unat l - unat v < 4096 * 2 ^ 20" using unat_u32 [of l] by simp
  moreover have "page l" by (simp add: l(1))
  ultimately obtain r t ys where t: "mappages_loop (2 ^ 20) pd v l pa perm s = Ok r t" "r = 0 \<or> r = -1 \<and> ys = []" "pt_grow pd s xs t ys"
    "\<And>w. page w \<Longrightarrow> w < v \<or> l < w \<Longrightarrow> pte (mem t) pd w = pte (mem s) pd w"
    using mappages_range [OF pok v(1) _ l(2), of "2 ^ 20" pa perm] np by blast
  obtain zs where zs: "xs = zs @ ys" "pt_pages (mem t) pd = pt_pages (mem s) pd \<union> set zs" and pt: "pt_ok t pd ys" "memonly s t"
    and out: "\<And>z. PGROUNDDOWN z \<notin> pt_pages (mem t) pd \<Longrightarrow> mem t z = mem s z"
    using t(3) by (auto simp: pt_grow_def)
  have "mappages pd v n pa perm s = Ok r t" using t(1) v(1) by (simp add: mappages_def l(1) PGROUNDDOWN_page del: mappages_loop.simps)
  moreover have "pte (mem t) pd a = pte (mem s) pd a" if "page a" "a < KERNBASE" for a
    using t(4) [OF that(1)] that(2) v(2) by (auto intro: less_le_trans)
  then have "uvm_ok t pd ys {}"
    using ok pt(1) memonlyD(1) [OF pt(2)] by (auto simp: uvm_ok_def)
  moreover have "owned (mem t) pd {} \<union> set ys = owned (mem s) pd {} \<union> set xs" using zs by (auto simp: owned_def)
  moreover have "mframe (owned (mem s) pd {} \<union> set xs) s t" using zs pt(2) out by (auto simp: mframe_def owned_def)
  ultimately show ?thesis using t(2,4) by blast
qed

text \<open>The entries of the table in order, each range above the ranges before it.\<close>

definition kmap_last :: "u32 \<times> u32 \<times> u32 \<times> u32 \<Rightarrow> u32" where
  "kmap_last k = (case k of (v, ps, pe, perm) \<Rightarrow> PGROUNDDOWN (v + (pe - ps) - 1))"

fun kmap_sorted :: "(u32 \<times> u32 \<times> u32 \<times> u32) list \<Rightarrow> bool" where
  "kmap_sorted [] \<longleftrightarrow> True"
| "kmap_sorted (k # ks) \<longleftrightarrow> page (fst k) \<and> KERNBASE \<le> fst k \<and> fst k \<le> kmap_last k
     \<and> (\<forall>k' \<in> set ks. kmap_last k < fst k') \<and> kmap_sorted ks"

lemma setupkvm_loop_ok:
  assumes "uvm_ok s pd xs {}" "kmap_sorted ks"
    "\<And>k w. k \<in> set ks \<Longrightarrow> page w \<Longrightarrow> fst k \<le> w \<Longrightarrow> \<not> present (pte (mem s) pd w)"
  shows "\<exists>r t ys. setupkvm_loop pd ks s = Ok r t \<and> mframe (owned (mem s) pd {} \<union> set xs) s t
    \<and> (r = 0 \<and> kmem_ok t ys \<and> set ys = owned (mem s) pd {} \<union> set xs \<and> scarce (set ys) 0
       \<or> r = pd \<and> uvm_ok t pd ys {} \<and> owned (mem t) pd {} \<union> set ys = owned (mem s) pd {} \<union> set xs)"
  using assms
proof (induction ks arbitrary: s xs)
  case Nil
  then show ?case by (auto simp: kcode)
next
  case (Cons k ks)
  obtain v ps pe perm where k: "k = (v, ps, pe, perm)" by (cases k)
  let ?A = "owned (mem s) pd {} \<union> set xs"
  obtain r t ys where t: "mappages pd v (pe - ps) ps perm s = Ok r t" "r = 0 \<or> r = -1 \<and> ys = []" "uvm_ok t pd ys {}"
    "owned (mem t) pd {} \<union> set ys = ?A" "mframe ?A s t" "\<And>w. page w \<Longrightarrow> kmap_last k < w \<Longrightarrow> pte (mem t) pd w = pte (mem s) pd w"
    using kmap_entry [OF Cons.prems(1), of v "kmap_last k" "pe - ps" ps perm] Cons.prems(2,3) by (force simp: k kmap_last_def)
  show ?case
  proof (cases "r = 0")
    case True
    have "\<exists>r u zs. setupkvm_loop pd ks t = Ok r u \<and> mframe (owned (mem t) pd {} \<union> set ys) t u
      \<and> (r = 0 \<and> kmem_ok u zs \<and> set zs = owned (mem t) pd {} \<union> set ys \<and> scarce (set zs) 0
         \<or> r = pd \<and> uvm_ok u pd zs {} \<and> owned (mem u) pd {} \<union> set zs = owned (mem t) pd {} \<union> set ys)"
    proof (rule Cons.IH [OF t(3)])
      show "kmap_sorted ks" using Cons.prems(2) by simp
      fix k' w assume k': "k' \<in> set ks" "page w" "fst k' \<le> w"
      then have "kmap_last k < w" using Cons.prems(2) by (auto intro: less_le_trans)
      then show "\<not> present (pte (mem t) pd w)" using t(6) k' Cons.prems(3) [of k' w] by simp
    qed
    then obtain q u zs where u: "setupkvm_loop pd ks t = Ok q u" "mframe ?A t u"
      "q = 0 \<and> kmem_ok u zs \<and> set zs = ?A \<and> scarce (set zs) 0 \<or> q = pd \<and> uvm_ok u pd zs {} \<and> owned (mem u) pd {} \<union> set zs = ?A"
      unfolding t(4) by blast
    have "mframe ?A s u" by (rule mframe_trans [OF t(5) u(2)]) auto
    then show ?thesis using t(1) True u(1,3) by (auto simp: kcode k)
  next
    case False
    obtain u zs where u: "freevm pd t = Ok () u" "kmem_ok u zs" "set zs = ?A" "mframe ?A t u"
      using freevm_ok [OF t(3)] t(4) by (auto simp: Un_commute)
    have "mframe ?A s u" by (rule mframe_trans [OF t(5) u(4)]) auto
    moreover have "scarce (set zs) 0" using t(2,4) False u(3) scarce_owned(1) [of "{}" 0 "mem t" pd] by simp
    ultimately show ?thesis using t(1,2) False u(1-3) by (auto simp: kcode k)
  qed
qed

text \<open>The linker script starts the kernel's data at a page between its text and the end of memory.\<close>

definition kdata_ok :: "u32 \<Rightarrow> bool" where
  "kdata_ok d \<longleftrightarrow> page d \<and> KERNLINK < d \<and> d < P2V PHYSTOP"

lemma kmap_sorted_kmap:
  assumes "kdata_ok d"
  shows "kmap_sorted (kmap d)"
proof -
  have d: "page d" "0x80100000 < d" "d < 0x8E000000" using assms by (simp_all add: kdata_ok_def P2V_def)
  have pk: "page 0x80100000" "page 0x80000000" "page 0xFE000000" "page 0x8DFFF000" by (simp_all add: page_def)
  have l1: "kmap_last (KERNBASE, 0, EXTMEM, PTE_W) = 0x800FF000" by (simp add: kmap_last_def PGROUNDDOWN_def)
  have l4: "kmap_last (DEVSPACE, DEVSPACE, 0, PTE_W) = 0xFFFFF000" by (simp add: kmap_last_def PGROUNDDOWN_def)
  have l3: "kmap_last (d, V2P d, PHYSTOP, PTE_W) = 0x8DFFF000" by (simp add: kmap_last_def V2P_def PGROUNDDOWN_def)
  have d3: "d \<le> 0x8DFFF000"
  proof (rule ccontr)
    assume "\<not> d \<le> 0x8DFFF000"
    then show False using next_page_le [OF pk(4) d(1)] d(3) by (auto simp: word_less_nat_alt word_le_nat_alt)
  qed
  have ge: "unat d \<ge> 0x80101000" using next_page_le [OF pk(1) d(1)] d(2) by (auto simp: word_less_nat_alt word_le_nat_alt)
  have "kmap_last (KERNLINK, V2P KERNLINK, V2P d, 0) = PGROUNDDOWN (d - 1)" by (simp add: kmap_last_def V2P_def)
  moreover have "unat (d - 1) = unat d - 1" using ge by (subst unat_sub) (simp_all add: word_le_nat_alt)
  ultimately have l2: "unat (kmap_last (KERNLINK, V2P KERNLINK, V2P d, 0)) = (unat d - 1) div 4096 * 4096"
    by (simp add: PGROUNDDOWN_unat)
  have "0x80100000 \<le> (unat d - 1) div 4096 * 4096" "(unat d - 1) div 4096 * 4096 < unat d" using ge by (auto simp: div_le_mono less_eq_div_iff_mult_less_eq)
  then have "0x80100000 \<le> kmap_last (KERNLINK, V2P KERNLINK, V2P d, 0)" "kmap_last (KERNLINK, V2P KERNLINK, V2P d, 0) < d"
    "kmap_last (KERNLINK, V2P KERNLINK, V2P d, 0) < 0xFE000000"
    using l2 d(3) by (auto simp: word_le_nat_alt word_less_nat_alt)
  moreover have "0x800FF000 < d" "KERNBASE \<le> d" using d(2) by (auto simp: word_less_nat_alt word_le_nat_alt)
  ultimately show ?thesis using l1 l3 l4 d d3 pk by (simp add: kmap_def)
qed

lemma setupkvm_ok:
  fixes s :: "'z vst_scheme"
  assumes km: "kmem_ok s xs" and ke: "KERNBASE < kend s" and kd: "kdata_ok (kdata s)"
  shows "\<exists>r t ys. setupkvm s = Ok r t \<and> mframe (set xs) s t
    \<and> (r = 0 \<and> kmem_ok t ys \<and> set ys = set xs \<and> scarce (set xs) 0
       \<or> r \<noteq> 0 \<and> uvm_ok t r ys {} \<and> owned (mem t) r {} \<union> set ys = set xs)"
proof (cases xs)
  case Nil
  then show ?thesis using km kalloc_Nil [of s] by (auto simp: setupkvm_def kcode scarce_def)
next
  case (Cons x ys)
  let ?t = "s\<lparr>freelist := load32 (mem s) x, mem := memset (mem s) x 0 PGSIZE\<rparr>"
  note e = empty_pgdir [OF km [unfolded Cons] ke]
  have "\<exists>r u zs. setupkvm_loop x (kmap (kdata s)) ?t = Ok r u \<and> mframe (owned (mem ?t) x {} \<union> set ys) ?t u
    \<and> (r = 0 \<and> kmem_ok u zs \<and> set zs = owned (mem ?t) x {} \<union> set ys \<and> scarce (set zs) 0
       \<or> r = x \<and> uvm_ok u x zs {} \<and> owned (mem u) x {} \<union> set zs = owned (mem ?t) x {} \<union> set ys)"
    by (rule setupkvm_loop_ok [OF e(1) kmap_sorted_kmap [OF kd]]) (use e(4) in simp)
  moreover have "owned (mem ?t) x {} \<union> set ys = set xs" using e(2) Cons by simp
  ultimately obtain r u zs where u: "setupkvm_loop x (kmap (kdata s)) ?t = Ok r u" "mframe (set xs) ?t u"
    "r = 0 \<and> kmem_ok u zs \<and> set zs = set xs \<and> scarce (set zs) 0 \<or> r = x \<and> uvm_ok u x zs {} \<and> owned (mem u) x {} \<union> set zs = set xs"
    by metis
  have "mframe (set xs) s u" by (rule mframe_trans [OF e(3) u(2)]) (auto simp: Cons)
  moreover have "setupkvm s = Ok r u"
    using kalloc_Cons(1) [OF km [unfolded Cons]] e(5) u(1) by (simp add: setupkvm_def kcode P2V_def)
  ultimately show ?thesis using u(3) e(5) by auto
qed

section \<open>copyuvm()\<close>

text \<open>An address space whose pages nobody writes, while the free list changes.\<close>

lemma uvm_ok_keep:
  assumes ok: "uvm_ok s pd xs S" and fr: "mframe A s t" and ys: "kmem_ok t ys"
    and dis: "A \<inter> owned (mem s) pd S = {}" "set ys \<inter> owned (mem s) pd S = {}"
  shows "uvm_ok t pd ys S" "umatch s t pd S" "owned (mem t) pd S = owned (mem s) pd S" "pte (mem t) pd = pte (mem s) pd"
proof -
  have same: "mem t z = mem s z" if "PGROUNDDOWN z \<in> owned (mem s) pd S" for z
    using mframeD(2) [OF fr] dis(1) that by blast
  have pok: "pt_ok s pd xs" using ok by (simp add: uvm_ok_def)
  have "\<And>z. PGROUNDDOWN z \<in> pt_pages (mem s) pd \<Longrightarrow> mem t z = mem s z" using same by (simp add: owned_def)
  note pf = pt_frame [OF this pt_okD(10) [OF pok]]
  show "pte (mem t) pd = pte (mem s) pd" by (rule pf)
  have up: "upage (mem t) pd = upage (mem s) pd" by (simp add: upage_def pf fun_eq_iff)
  show "owned (mem t) pd S = owned (mem s) pd S" by (simp add: owned_def pf up)
  show "umatch s t pd S" using same by (auto simp: umatch_def pf owned_def)
  note k = memonlyD [OF mframeD(1) [OF fr]]
  have "pt_sep (mem t) pd = pt_sep (mem s) pd" by (simp add: pt_sep_def pf)
  then have "pt_ok t pd ys" using pok ys dis(2) by (auto simp: pt_ok_def pf k owned_def)
  then show "uvm_ok t pd ys S" using ok dis(2) by (auto simp: uvm_ok_def pf up k owned_def)
qed

text \<open>
  The pages of \<open>A\<close> hold the same bytes in the two address spaces, and may be used
  in the same way: their entries have the same flags, PTE_W and PTE_U among them.
\<close>

definition copied :: "mem \<Rightarrow> u32 \<Rightarrow> mem \<Rightarrow> u32 \<Rightarrow> u32 set \<Rightarrow> bool" where
  "copied m pd m' d A \<longleftrightarrow> (\<forall>a \<in> A. PTE_FLAGS (pte m' d a) = PTE_FLAGS (pte m pd a)
     \<and> (\<forall>k < PGSIZE. m' (upage m' d a + k) = m (upage m pd a + k)))"

lemma page_offset: "page p \<Longrightarrow> k < PGSIZE \<Longrightarrow> PGROUNDDOWN (p + k) = p"
proof -
  assume p: "page p" and k: "k < PGSIZE"
  have "in_range p 4096 (p + k)" using k by (simp add: in_range_def word_less_nat_alt)
  then show ?thesis by (simp add: in_page p)
qed

lemma upage_page: "uvm_ok s pd xs S \<Longrightarrow> a \<in> S \<Longrightarrow> page (upage (mem s) pd a)"
  by (auto simp: uvm_ok_def allocatable_def)

lemma umatch_copied:
  assumes "umatch s t pd S" "uvm_ok s pd xs S" "A \<subseteq> S"
  shows "copied (mem s) pd (mem t) pd A"
  using assms upage_page [OF assms(2)] by (auto simp: copied_def umatch_def upage_def page_offset subset_iff)

lemma copied_trans: "copied m p m' q A \<Longrightarrow> copied m' q m'' r A \<Longrightarrow> copied m p m'' r A"
  by (simp add: copied_def)

lemma copied_sym: "copied m p m' q A \<Longrightarrow> copied m' q m p A"
  by (simp add: copied_def)

lemma memmove_page:
  assumes "page x" "page y" "x \<noteq> y"
  shows "k < PGSIZE \<Longrightarrow> memmove m x y PGSIZE (x + k) = m (y + k)"
    and "PGROUNDDOWN z \<noteq> x \<Longrightarrow> memmove m x y PGSIZE z = m z"
proof -
  have b: "unat x + 4096 \<le> 2 ^ 32" "unat y + 4096 \<le> 2 ^ 32" using page_bound assms by auto
  note eq = memmove_eq [of y PGSIZE x m]
  show "memmove m x y PGSIZE (x + k) = m (y + k)" if "k < PGSIZE"
    using eq b that by (simp add: in_range_def word_less_nat_alt)
  show "memmove m x y PGSIZE z = m z" if "PGROUNDDOWN z \<noteq> x"
    using eq b that assms(1) by (simp add: in_page)
qed

text \<open>kalloc() and the copy of a page of the parent into the new page.\<close>

lemma copy_page:
  assumes P: "uvm_ok s pd (x # xs) S" and C: "uvm_ok s d (x # xs) T" and a: "a \<in> S"
  defines "u \<equiv> s\<lparr>freelist := load32 (mem s) x, mem := memmove (mem s) x (upage (mem s) pd a) PGSIZE\<rparr>"
  shows "kalloc s = Ok x (s\<lparr>freelist := load32 (mem s) x\<rparr>)" "x \<noteq> 0" "mframe {x} s u" "kmem_ok u xs"
    and "uvm_ok u d xs T" "owned (mem u) d T = owned (mem s) d T" "umatch s u d T"
    and "allocatable u x" "x \<notin> set xs" "x \<notin> owned (mem s) d T" "x \<notin> owned (mem s) pd S"
    and "k < PGSIZE \<Longrightarrow> mem u (x + k) = mem s (upage (mem s) pd a + k)"
proof -
  note kp = uvm_ok_kalloc [OF P] and kc = uvm_ok_kalloc [OF C]
  show "kalloc s = Ok x (s\<lparr>freelist := load32 (mem s) x\<rparr>)" "x \<noteq> 0" "x \<notin> set xs" "x \<notin> owned (mem s) d T" "x \<notin> owned (mem s) pd S"
    using kp kc by simp_all
  have ax: "page x" "allocatable s x" using kp(3) by (auto simp: allocatable_def)
  have up: "page (upage (mem s) pd a)" "upage (mem s) pd a \<noteq> x"
    using upage_page [OF P a] kp(5) ownedI(2) [OF a] by auto
  note mv = memmove_page [OF ax(1) up(1) up(2) [symmetric], of _ "mem s"]
  show fr: "mframe {x} s u" using mv(2) by (auto simp: mframe_def u_def)
  have "kmem_ok s (x # xs)" using P by (simp add: uvm_ok_def pt_ok_def)
  note k2 = kalloc_Cons(2) [OF this]
  have "kmem_ok ((s\<lparr>freelist := load32 (mem s) x\<rparr>)\<lparr>mem := memmove (mem s) x (upage (mem s) pd a) PGSIZE\<rparr>) xs"
    by (rule kmem_ok_mem [OF k2]) (use kp(6) in \<open>auto intro!: mv(2)\<close>)
  then show ku: "kmem_ok u xs" by (simp add: u_def)
  have "{x} \<inter> owned (mem s) d T = {}" "set xs \<inter> owned (mem s) d T = {}"
    using kc(5) C by (auto simp: uvm_ok_def pt_ok_def owned_def)
  note keep = uvm_ok_keep [OF C fr ku this]
  show "uvm_ok u d xs T" "owned (mem u) d T = owned (mem s) d T" "umatch s u d T" using keep by simp_all
  show "allocatable u x" using ax(2) by (simp add: u_def allocatable_def)
  show "k < PGSIZE \<Longrightarrow> mem u (x + k) = mem s (upage (mem s) pd a + k)" using mv(1) by (simp add: u_def)
qed

lemma walk_mapped:
  assumes ok: "uvm_ok s pd xs S" and a: "a \<in> S"
  shows "\<exists>q. walkpgdir pd a False s = Ok q s \<and> q \<noteq> 0 \<and> load32 (mem s) q = pte (mem s) pd a" "present (pte (mem s) pd a)"
proof -
  have pok: "pt_ok s pd xs" using ok by (simp add: uvm_ok_def)
  show e: "present (pte (mem s) pd a)" using ok a by (auto simp: uvm_ok_def)
  then have d: "present (pde (mem s) pd a)" by (auto simp: pte_def split: if_splits)
  show "\<exists>q. walkpgdir pd a False s = Ok q s \<and> q \<noteq> 0 \<and> load32 (mem s) q = pte (mem s) pd a"
    using walkpgdir_present [OF d] pte_slot_nz [OF pok d] d by (auto simp: pte_def ent_def)
qed

lemma PTE_FLAGS_less: "PTE_FLAGS e < 4096"
  using word_and_le1 [of e "0xFFF"] by (auto simp: PTE_FLAGS_def intro: le_less_trans)

lemma PTE_FLAGS_present: "present e \<Longrightarrow> PTE_FLAGS e OR 1 = PTE_FLAGS e"
proof -
  assume "present e"
  have "bit e 0"
  proof (rule ccontr)
    assume "\<not> bit e 0"
    then have "e AND 1 = 0" by (intro bit_word_eqI) (auto simp: bit_simps intro: gr0I)
    then show False using \<open>present e\<close> by (simp add: present_def)
  qed
  then show ?thesis by (intro bit_word_eqI) (auto simp: PTE_FLAGS_def bit_simps)
qed

lemma freevm_after:
  assumes C: "uvm_ok s d xs T" and fr: "mframe B r s" "B \<subseteq> A" and A: "A = owned (mem s) d T \<union> set xs"
  obtains t ys where "freevm d s = Ok () t" "kmem_ok t ys" "set ys = A" "mframe A r t"
proof -
  obtain t ys where t: "freevm d s = Ok () t" "kmem_ok t ys" "set ys = A" "mframe A s t"
    using freevm_ok [OF C] A by (auto simp: Un_commute)
  have "mframe A r t" by (rule mframe_trans [OF fr(1) t(4) fr(2)]) simp
  then show ?thesis using that t by blast
qed

lemma copy_one:
  assumes P: "uvm_ok s pd xs S" and C: "uvm_ok s d xs (upages i)"
    and D: "owned (mem s) pd S \<inter> owned (mem s) d (upages i) = {}"
    and i: "i \<in> S" "i < n" "upages i \<subseteq> S" "S \<subseteq> upages n" and cp: "copied (mem s) pd (mem s) d (upages i)"
  defines "A \<equiv> owned (mem s) d (upages i) \<union> set xs"
  obtains (full) t ys where "copyuvm_loop (Suc f) pd d i n s = Ok 0 t" "kmem_ok t ys" "set ys = A" "mframe A s t" "scarce A n"
  | (step) t ys where "copyuvm_loop (Suc f) pd d i n s = copyuvm_loop f pd d (i + PGSIZE) n t"
      "uvm_ok t pd ys S" "umatch s t pd S" "owned (mem t) pd S = owned (mem s) pd S"
      "uvm_ok t d ys (upages (i + PGSIZE))" "owned (mem t) d (upages (i + PGSIZE)) \<union> set ys = A"
      "mframe A s t" "copied (mem t) pd (mem t) d (upages (i + PGSIZE))"
proof -
  let ?e = "pte (mem s) pd i" and ?p = "upage (mem s) pd i"
  have ip: "page i" "i < KERNBASE" "i \<notin> upages i" using P i by (auto simp: uvm_ok_def upages_def)
  obtain q where q: "walkpgdir pd i False s = Ok q s" "q \<noteq> 0" "load32 (mem s) q = ?e" using walk_mapped(1) [OF P i(1)] by blast
  have pr: "?e AND 1 \<noteq> 0" using walk_mapped(2) [OF P i(1)] by (simp add: present_def)
  have km: "kmem_ok s xs" using P by (simp add: uvm_ok_def pt_ok_def)
  have pa: "P2V (PTE_ADDR ?e) = ?p" by (simp add: upage_def)
  have loop: "copyuvm_loop (Suc f) pd d i n s = bindM kalloc (\<lambda>pg.
        if pg = 0 then thenM (freevm d) (retM 0)
        else thenM (memmoveM pg (P2V (PTE_ADDR ?e)) PGSIZE)
            (bindM (mappages d i PGSIZE (V2P pg) (PTE_FLAGS ?e)) (\<lambda>r.
             if r < 0 then thenM (kfree pg) (thenM (freevm d) (retM 0))
             else copyuvm_loop f pd d (i + PGSIZE) n))) s"
    using q pr i(2) by (simp add: kcode)
  have un: "upages i \<subseteq> upages n" using i by blast
  show ?thesis
  proof (cases xs)
    case Nil
    obtain t ys where t: "freevm d s = Ok () t" "kmem_ok t ys" "set ys = A" "mframe A s t"
      by (rule freevm_after [OF C mframe_refl [of "{}"], of A]) (simp_all add: A_def)
    show ?thesis
      by (rule full [OF _ t(2-4)])
        (use Nil km kalloc_Nil [of s] t(1) scarce_owned(1) [OF un] in \<open>simp_all add: A_def loop kcode del: copyuvm_loop.simps\<close>)
  next
    case (Cons x zs)
    define u where "u = s\<lparr>freelist := load32 (mem s) x, mem := memmove (mem s) x ?p PGSIZE\<rparr>"
    note cpg = copy_page [OF P [unfolded Cons] C [unfolded Cons] i(1), folded u_def]
    have xA: "x \<in> A" "set zs \<subseteq> A" using Cons by (auto simp: A_def)
    have xu: "x \<notin> owned (mem u) d (upages i)" using cpg(6,10) by simp
    have run: "copyuvm_loop (Suc f) pd d i n s = bindM (mappages d i PGSIZE (V2P x) (PTE_FLAGS ?e)) (\<lambda>r.
             if r < 0 then thenM (kfree x) (thenM (freevm d) (retM 0))
             else copyuvm_loop f pd d (i + PGSIZE) n) u"
      using cpg(1,2) by (simp add: loop kcode u_def pa del: copyuvm_loop.simps)
    show ?thesis
    proof (rule uvm_map_page [OF cpg(5) ip cpg(8,9) xu PTE_FLAGS_less [of ?e]])
      assume fail: "mappages d i PGSIZE (V2P x) (PTE_FLAGS ?e) u = Ok (-1) u" "zs = []"
      obtain v where v: "kfree x u = Ok () v" "kmem_ok v (x # zs)" "mframe {x} u v"
        by (rule kfree_frame [OF cpg(4,8,9)])
      have "{x} \<inter> owned (mem u) d (upages i) = {}" "set (x # zs) \<inter> owned (mem u) d (upages i) = {}"
        using xu C Cons cpg(6) by (auto simp: uvm_ok_def pt_ok_def owned_def)
      note kv = uvm_ok_keep [OF cpg(5) v(3,2) this]
      have "mframe {x} s v" by (rule mframe_trans [OF cpg(3) v(3)]) auto
      then obtain t ys where t: "freevm d v = Ok () t" "kmem_ok t ys" "set ys = A" "mframe A s t"
        by (rule freevm_after [OF kv(1)]) (use xA kv(3) cpg(6) Cons in \<open>auto simp: A_def\<close>)
      have sc: "scarce A n" using scarce_owned(2) [OF un, of x "mem s" d] Cons fail(2) by (simp add: A_def)
      show ?thesis by (rule full [OF _ t(2-4) sc]) (use fail v(1) t(1) in \<open>simp add: run kcode del: copyuvm_loop.simps\<close>)
    next
      fix t ys assume m: "mappages d i PGSIZE (V2P x) (PTE_FLAGS ?e) u = Ok 0 t" "uvm_ok t d ys (insert i (upages i))" "umatch u t d (upages i)"
        and own: "owned (mem t) d (insert i (upages i)) \<union> set ys = insert x (owned (mem u) d (upages i) \<union> set zs)"
        and up: "upage (mem t) d i = x" and pt: "pte (mem t) d i = V2P x OR PTE_FLAGS ?e OR 1" and out: "\<And>z. PGROUNDDOWN z \<notin> owned (mem u) d (upages i) \<union> set zs \<Longrightarrow> mem t z = mem u z"
        and mo: "memonly u t"
      have su: "upages (i + PGSIZE) = insert i (upages i)" by (rule upages_succ [OF ip(1,2)])
      have A: "insert x (owned (mem u) d (upages i) \<union> set zs) = A" using cpg(6) Cons by (auto simp: A_def)
      have "mframe (owned (mem u) d (upages i) \<union> set zs) u t" using out mo by (simp add: mframe_def)
      then have fr: "mframe A s t" by (rule mframe_trans [OF cpg(3)]) (use A xA in auto)
      have dis: "A \<inter> owned (mem s) pd S = {}" using D P by (auto simp: A_def uvm_ok_def pt_ok_def owned_def)
      have "kmem_ok t ys" "set ys \<inter> owned (mem s) pd S = {}" using m(2) own A dis by (auto simp: uvm_ok_def pt_ok_def)
      note keep = uvm_ok_keep [OF P fr this(1) dis this(2)]
      have old: "copied (mem s) pd (mem t) pd S" by (rule umatch_copied [OF keep(2) P]) simp
      have px: "page x" using cpg(8) by (simp add: allocatable_def)
      have "copied (mem t) pd (mem t) d (upages i)"
        using copied_trans [OF copied_trans [OF copied_sym [OF umatch_copied [OF keep(2) P]] cp]
            copied_trans [OF umatch_copied [OF cpg(7) C] umatch_copied [OF m(3) cpg(5)]]] i(3) by simp
      moreover have "mem t (x + k) = mem t (upage (mem t) pd i + k)" if k: "k < PGSIZE" for k
      proof -
        have "PGROUNDDOWN (x + k) = x" using px k by (rule page_offset)
        then have "mem t (x + k) = mem u (x + k)" using cpg(9) xu by (intro out) simp
        also have "\<dots> = mem s (?p + k)" by (rule cpg(12) [OF k])
        also have "\<dots> = mem t (upage (mem t) pd i + k)" using old i(1) k by (simp add: copied_def)
        finally show ?thesis .
      qed
      moreover have "PTE_FLAGS (pte (mem t) d i) = PTE_FLAGS (pte (mem t) pd i)"
      proof -
        have "PTE_FLAGS (pte (mem t) d i) = PTE_FLAGS ?e OR 1" unfolding pt by (rule PTE_FLAGS_entry [OF page_V2P [OF px] PTE_FLAGS_less])
        also have "\<dots> = PTE_FLAGS ?e" by (rule PTE_FLAGS_present [OF walk_mapped(2) [OF P i(1)]])
        finally show ?thesis using old i(1) by (simp add: copied_def)
      qed
      ultimately have "copied (mem t) pd (mem t) d (upages (i + PGSIZE))" by (auto simp: su copied_def up)
      then show ?thesis
        using keep m(1,2) own A fr by (intro step [of t ys]) (simp_all add: su run kcode del: copyuvm_loop.simps)
    qed
  qed
qed

lemma copyuvm_loop_ok:
  assumes "uvm_ok s pd xs (upages n)" "uvm_ok s d xs (upages i)"
    "owned (mem s) pd (upages n) \<inter> owned (mem s) d (upages i) = {}" "copied (mem s) pd (mem s) d (upages i)"
    "page i" "upages i \<subseteq> upages n" "n \<le> KERNBASE" "unat n \<le> unat i + 4096 * f"
  shows "\<exists>r t ys. copyuvm_loop (Suc f) pd d i n s = Ok r t \<and> mframe (owned (mem s) d (upages i) \<union> set xs) s t
    \<and> (r = 0 \<and> kmem_ok t ys \<and> set ys = owned (mem s) d (upages i) \<union> set xs \<and> scarce (set ys) n
       \<or> r = d \<and> uvm_ok t d ys (upages n) \<and> owned (mem t) d (upages n) \<union> set ys = owned (mem s) d (upages i) \<union> set xs
         \<and> copied (mem s) pd (mem t) d (upages n))"
  using assms
proof (induction f arbitrary: s xs i)
  case 0
  then have "\<not> i < n" "upages i = upages n" by (auto simp: upages_def word_less_nat_alt)
  then show ?case using 0 by (auto simp: kcode)
next
  case (Suc f)
  let ?A = "owned (mem s) d (upages i) \<union> set xs"
  show ?case
  proof (cases "i < n")
    case False
    then have "upages i = upages n" using Suc.prems by (auto simp: upages_def)
    then show ?thesis using False Suc.prems by (auto simp: kcode)
  next
    case True
    then have iS: "i \<in> upages n" using Suc.prems(5) by (simp add: upages_def)
    have ik: "i < KERNBASE" using True Suc.prems(7) by simp
    show ?thesis
    proof (rule copy_one [OF Suc.prems(1-3) iS True Suc.prems(6) subset_refl Suc.prems(4), of "Suc f"])
      fix t ys assume "copyuvm_loop (Suc (Suc f)) pd d i n s = Ok 0 t" "kmem_ok t ys" "set ys = ?A" "mframe ?A s t" "scarce ?A n"
      then show ?thesis by (intro exI [of _ 0] exI [of _ t] exI [of _ ys]) simp
    next
      fix t ys assume t: "copyuvm_loop (Suc (Suc f)) pd d i n s = copyuvm_loop (Suc f) pd d (i + PGSIZE) n t"
        "uvm_ok t pd ys (upages n)" "umatch s t pd (upages n)" "owned (mem t) pd (upages n) = owned (mem s) pd (upages n)"
        "uvm_ok t d ys (upages (i + PGSIZE))" "owned (mem t) d (upages (i + PGSIZE)) \<union> set ys = ?A"
        "mframe ?A s t" "copied (mem t) pd (mem t) d (upages (i + PGSIZE))"
      have dis: "?A \<inter> owned (mem s) pd (upages n) = {}"
        using Suc.prems(1,3) by (auto simp: uvm_ok_def pt_ok_def owned_def)
      have "\<exists>r u zs. copyuvm_loop (Suc f) pd d (i + PGSIZE) n t = Ok r u \<and> mframe ?A t u
        \<and> (r = 0 \<and> kmem_ok u zs \<and> set zs = ?A \<and> scarce (set zs) n \<or> r = d \<and> uvm_ok u d zs (upages n) \<and> owned (mem u) d (upages n) \<union> set zs = ?A
           \<and> copied (mem t) pd (mem u) d (upages n))"
        unfolding t(6) [symmetric]
      proof (rule Suc.IH [OF t(2,5) _ t(8)])
        show "owned (mem t) pd (upages n) \<inter> owned (mem t) d (upages (i + PGSIZE)) = {}" using t(4,6) dis by blast
        show "page (i + PGSIZE)" using page_succ [OF Suc.prems(5) ik] by simp
        show "upages (i + PGSIZE) \<subseteq> upages n" using upages_succ [OF Suc.prems(5) ik] iS Suc.prems(6) by simp
        show "unat n \<le> unat (i + PGSIZE) + 4096 * f" using Suc.prems(8) page_succ [OF Suc.prems(5) ik] by simp
      qed (rule Suc.prems(7))
      then obtain r u zs where u: "copyuvm_loop (Suc f) pd d (i + PGSIZE) n t = Ok r u" "mframe ?A t u"
        "r = 0 \<and> kmem_ok u zs \<and> set zs = ?A \<and> scarce (set zs) n \<or> r = d \<and> uvm_ok u d zs (upages n) \<and> owned (mem u) d (upages n) \<union> set zs = ?A
           \<and> copied (mem t) pd (mem u) d (upages n)" by blast
      have "copied (mem s) pd (mem t) pd (upages n)" by (rule umatch_copied [OF t(3) Suc.prems(1)]) simp
      then have "copied (mem s) pd (mem u) d (upages n)" if "copied (mem t) pd (mem u) d (upages n)" using that by (rule copied_trans)
      moreover have "mframe ?A s u" by (rule mframe_trans [OF t(7) u(2)]) auto
      ultimately show ?thesis using t(1) u(1,3) by metis
    qed
  qed
qed

lemma copyuvm_ok:
  fixes s :: "'z vst_scheme"
  assumes ok: "uvm_ok s pd xs (upages n)" and n: "n \<le> KERNBASE" and kd: "kdata_ok (kdata s)"
  shows "\<exists>r t ys. copyuvm pd n s = Ok r t \<and> uvm_ok t pd ys (upages n) \<and> umatch s t pd (upages n) \<and> mframe (set xs) s t
    \<and> (r = 0 \<and> set ys = set xs \<and> scarce (set xs) n
       \<or> r \<noteq> 0 \<and> uvm_ok t r ys (upages n) \<and> copied (mem s) pd (mem t) r (upages n)
         \<and> owned (mem t) r (upages n) \<union> set ys = set xs)"
proof -
  have km: "kmem_ok s xs" and ke: "KERNBASE < kend s" using ok by (simp_all add: uvm_ok_def pt_ok_def)
  have dis: "set xs \<inter> owned (mem s) pd (upages n) = {}" using ok by (auto simp: uvm_ok_def pt_ok_def owned_def)
  have up0: "upages 0 = {}" by (simp add: upages_def)
  obtain r t ys where t: "setupkvm s = Ok r t" "mframe (set xs) s t"
    and c: "r = 0 \<and> kmem_ok t ys \<and> set ys = set xs \<and> scarce (set xs) 0 \<or> r \<noteq> 0 \<and> uvm_ok t r ys {} \<and> owned (mem t) r {} \<union> set ys = set xs"
    using setupkvm_ok [OF km ke kd] by blast
  have kt: "kmem_ok t ys" "set ys \<inter> owned (mem s) pd (upages n) = {}" using c dis by (auto simp: uvm_ok_def pt_ok_def)
  note keep = uvm_ok_keep [OF ok t(2) kt(1) dis kt(2)]
  show ?thesis
  proof (cases "r = 0")
    case True
    then have "scarce (set xs) n" using c by (simp add: scarce_def up0)
    then show ?thesis using True t c keep by (auto simp: copyuvm_def kcode)
  next
    case False
    then have cr: "uvm_ok t r ys (upages 0)" "owned (mem t) r (upages 0) \<union> set ys = set xs" using c by (simp_all add: up0)
    have f: "unat n \<le> unat (0 :: u32) + 4096 * 2 ^ 20" using unat_u32 [of n] by simp
    have "\<exists>q u zs. copyuvm_loop (Suc (2 ^ 20)) pd r 0 n t = Ok q u \<and> mframe (set xs) t u
      \<and> (q = 0 \<and> kmem_ok u zs \<and> set zs = set xs \<and> scarce (set zs) n
         \<or> q = r \<and> uvm_ok u r zs (upages n) \<and> owned (mem u) r (upages n) \<union> set zs = set xs
           \<and> copied (mem t) pd (mem u) r (upages n))"
      unfolding cr(2) [symmetric]
      by (rule copyuvm_loop_ok [OF keep(1) cr(1) _ _ _ _ n f]) (use keep(3) cr(2) dis in \<open>auto simp: up0 copied_def page_def\<close>)
    then obtain q u zs where u: "copyuvm_loop (Suc (2 ^ 20)) pd r 0 n t = Ok q u" "mframe (set xs) t u"
      "q = 0 \<and> kmem_ok u zs \<and> set zs = set xs \<and> scarce (set zs) n \<or> q = r \<and> uvm_ok u r zs (upages n) \<and> owned (mem u) r (upages n) \<union> set zs = set xs
           \<and> copied (mem t) pd (mem u) r (upages n)" by blast
    have fr: "mframe (set xs) s u" by (rule mframe_trans [OF t(2) u(2)]) auto
    have ku: "kmem_ok u zs" "set zs \<inter> owned (mem s) pd (upages n) = {}" using u(3) dis by (auto simp: uvm_ok_def pt_ok_def)
    note keep2 = uvm_ok_keep [OF ok fr ku(1) dis ku(2)]
    have "copied (mem s) pd (mem t) pd (upages n)" by (rule umatch_copied [OF keep(2) ok]) simp
    then have "copied (mem s) pd (mem u) r (upages n)" if "copied (mem t) pd (mem u) r (upages n)" using that by (rule copied_trans)
    moreover have "copyuvm pd n s = Ok q u" using t(1) False u(1) by (simp add: copyuvm_def kcode del: copyuvm_loop.simps)
    ultimately show ?thesis using keep2 fr u(3) False by (intro exI [of _ q] exI [of _ u] exI [of _ zs]) auto
  qed
qed

text \<open>
  C10: copyuvm() makes an exact copy of an address space, as fork() needs it.
  It returns a new page directory that maps the same user pages, each to a
  page of its own with the same bytes and the same flags, or 0 when memory runs out, which it
  does only if the free list is no longer than what an address space of that
  size can need.  Either way
  the parent's address space is as before, and no page is lost: the pages of
  the copy came off the free list, and all of them are back on it when the
  copy fails at any point.
\<close>

theorem copyuvm_spec:
  fixes s :: "'z vst_scheme"
  assumes ok: "uvm_ok s pd xs (upages n)" and n: "n \<le> KERNBASE" and kd: "kdata_ok (kdata s)"
  shows "\<exists>r t ys. copyuvm pd n s = Ok r t \<and> uvm_ok t pd ys (upages n) \<and> umatch s t pd (upages n) \<and> mframe (set xs) s t
    \<and> (r = 0 \<and> set ys = set xs \<and> scarce (set xs) n
       \<or> r \<noteq> 0 \<and> uvm_ok t r ys (upages n) \<and> copied (mem s) pd (mem t) r (upages n)
         \<and> owned (mem t) r (upages n) \<union> set ys = set xs)"
  by (rule copyuvm_ok [OF assms])

text \<open>The address space with one page, with the kernel's data at 0x80108000.\<close>

definition one_page_vst :: vst where
  "one_page_vst = mst.extend one_page (vst.fields 0x80108000 0 0 0)"

lemma one_page_vst_uvm: "uvm_ok one_page_vst 0x80402000 [] (upages 4096)"
  by (rule one_page_space) (simp_all add: kmem_ok_def one_page_vst_def mst.extend_def vst.fields_def one_page_def boot_mst_def)

text \<open>Giving pages to the allocator while there is an address space.\<close>

lemma free_pages:
  assumes "uvm_ok s pd xs S" "distinct ps" "\<forall>x \<in> set ps. allocatable s x \<and> x \<notin> set xs \<and> x \<notin> owned (mem s) pd S"
  shows "\<exists>t. foreachM ps kfree s = Ok () t \<and> uvm_ok t pd (rev ps @ xs) S \<and> memonly s t \<and> owned (mem t) pd S = owned (mem s) pd S"
  using assms
proof (induction ps arbitrary: s xs)
  case (Cons x ps)
  define t where "t = s\<lparr>mem := freed (mem s) x (freelist s), freelist := x\<rparr>"
  have "allocatable s x" "x \<notin> set xs" "x \<notin> owned (mem s) pd S" using Cons.prems(3) by auto
  note k = uvm_ok_kfree [OF Cons.prems(1) this, folded t_def]
  have m: "memonly s t" by (simp add: t_def)
  have "\<exists>u. foreachM ps kfree t = Ok () u \<and> uvm_ok u pd (rev ps @ x # xs) S \<and> memonly t u \<and> owned (mem u) pd S = owned (mem t) pd S"
    by (rule Cons.IH [OF k(2)]) (use Cons.prems(2,3) k(4) memonlyD(2) [OF m] in auto)
  then show ?case using k(1,4) memonly_trans [OF m] by (auto simp: kcode)
qed (auto simp: kcode)

text \<open>Two thousand free pages from 5 MB on.\<close>

definition spare_page :: "nat \<Rightarrow> u32" where
  "spare_page k = 0x80500000 + of_nat (4096 * k)"

definition spares :: "u32 list" where
  "spares = map spare_page [0..<2000]"

lemma set_spares: "set spares = spare_page ` {0..<2000}" by (simp only: spares_def set_map set_upt)

lemma spare_page: "k < 2000 \<Longrightarrow> unat (spare_page k) = 0x80500000 + 4096 * k"
  by (simp add: spare_page_def unat_word_ariths unat_of_nat del: of_nat_mult)

lemma spare_pages:
  assumes "kend s \<le> 0x80500000" "owned (mem s) pd S \<subseteq> {0x80400000, 0x80401000, 0x80402000}" "uvm_ok s pd [] S"
  obtains t where "foreachM spares kfree s = Ok () t"
    "uvm_ok t pd (rev spares) S" "memonly s t" "card (set spares) = 2000"
proof -
  have inj: "inj_on spare_page {0..<2000}"
  proof (rule inj_onI)
    fix i j :: nat assume ij: "i \<in> {0..<2000}" "j \<in> {0..<2000}" and e: "spare_page i = spare_page j"
    have "0x80500000 + 4096 * i = unat (spare_page i)" by (rule spare_page [symmetric]) (use ij in simp)
    also have "\<dots> = 0x80500000 + 4096 * j" unfolding e by (rule spare_page) (use ij in simp)
    finally show "i = j" by simp
  qed
  have al: "allocatable s (spare_page k) \<and> spare_page k \<notin> owned (mem s) pd S" if "k < 2000" for k
  proof -
    note u = spare_page [OF that]
    have "0x80500000 + 4096 * k = 4096 * (0x80500 + k)" by simp
    then have "page (spare_page k)" unfolding page_unat u by (simp only: mod_mult_self1_is_0)
    moreover have "kend s \<le> spare_page k" using assms(1) u by (auto simp: word_le_nat_alt)
    moreover have "unat (V2P (spare_page k)) = 0x500000 + 4096 * k"
      using u that by (simp add: V2P_def) (subst unat_sub; simp add: word_le_nat_alt)
    then have "V2P (spare_page k) < PHYSTOP" using that by (simp add: word_less_nat_alt)
    moreover have "spare_page k \<notin> {0x80400000, 0x80401000, 0x80402000}" using u by auto
    ultimately show ?thesis using assms(2) by (auto simp: allocatable_def)
  qed
  have d: "distinct spares" unfolding spares_def distinct_map set_upt using inj distinct_upt by blast
  obtain t where t: "foreachM spares kfree s = Ok () t" "uvm_ok t pd (rev spares @ []) S" "memonly s t"
    using free_pages [OF assms(3) d] al by (auto simp: set_spares)
  have "card (set spares) = 2000" using card_image [OF inj] by (simp add: set_spares)
  then show ?thesis using that t by simp
qed

lemma plenty: "1999 \<le> card A \<Longrightarrow> \<not> scarce A 4096"
proof -
  have "upages 4096 = {0}" using upages_succ [of 0] by (simp add: upages_def page_def)
  then show "1999 \<le> card A \<Longrightarrow> \<not> scarce A 4096" by (simp add: scarce_def)
qed

lemma one_page_vst_owned: "owned (mem one_page_vst) 0x80402000 (upages 4096) \<subseteq> {0x80400000, 0x80401000, 0x80402000}"
proof -
  have "upages 4096 = {0}" using upages_succ [of 0] by (simp add: upages_def page_def)
  moreover have "mem one_page_vst = mem one_page" by (simp add: one_page_vst_def mst.extend_def vst.fields_def)
  ultimately show ?thesis by (simp add: owned_def one_page_mem)
qed

theorem copyuvm_spec_witness:
  "\<exists>s r t. foreachM spares kfree one_page_vst = Ok () s \<and> copyuvm 0x80402000 4096 s = Ok r t
     \<and> r \<noteq> 0 \<and> copied (mem s) 0x80402000 (mem t) r (upages 4096)"
proof -
  have "kend one_page_vst \<le> 0x80500000" by (simp add: one_page_vst_def mst.extend_def vst.fields_def one_page_def boot_mst_def)
  then obtain s where s: "foreachM spares kfree one_page_vst = Ok () s"
    "uvm_ok s 0x80402000 (rev spares) (upages 4096)" "memonly one_page_vst s" "card (set spares) = 2000"
    by (rule spare_pages [OF _ one_page_vst_owned one_page_vst_uvm])
  have "kdata s = kdata one_page_vst" using s(3) by (auto simp: memonly_def)
  then have "kdata_ok (kdata s)" by (simp add: kdata_ok_def one_page_vst_def mst.extend_def vst.fields_def P2V_def page_def)
  moreover have "(4096 :: u32) \<le> KERNBASE" by simp
  moreover have "\<not> scarce (set (rev spares)) 4096" using s(4) by (intro plenty) simp
  ultimately show ?thesis using copyuvm_spec [OF s(2)] s(1) by blast
qed

end
