(* ===== verification/Proc.thy ===== *)
theory Proc
  imports File Vm_Copy
begin

text \<open>
  proc.c, the life of a process: allocproc, userinit, growproc, fork, exit,
  wait, the scheduler and forkret.  (Sleeping, waking, killing and the calls
  added by this repository are in Proc_Sched.)
\<close>

text \<open>
  \<open>first\<close> is the static variable of forkret(), \<open>ticks\<close> the counter of trap.c,
  and the last two fields are the addresses the linker gave the labels
  forkret and trapret.
\<close>

record pst = ost +
  first :: bool
  ticks :: u32
  forkret_addr :: u32
  trapret_addr :: u32

definition get_proc :: "nat \<Rightarrow> ('z kst_scheme, proc) kfun" where
  "get_proc i = getM (\<lambda>s. procs s ! i)"

lemma get_proc_apply [kcode]: "get_proc i s = Ok (procs s ! i) s"
  by (simp add: get_proc_def kcode)

text \<open>States that differ outside memory only.\<close>

lemma vm_other_fields [simp]:
  fixes s :: "'z mst_scheme"
  shows "uvm_ok (s\<lparr>procs := P\<rparr>) pd xs S = uvm_ok s pd xs S" "kmem_ok (s\<lparr>procs := P\<rparr>) xs = kmem_ok s xs"
    "uvm_ok (s\<lparr>nextpid := n\<rparr>) pd xs S = uvm_ok s pd xs S" "allocatable (s\<lparr>procs := P\<rparr>) = allocatable s"
  by (simp_all add: uvm_ok_def pt_ok_def kmem_ok_def allocatable_def fun_eq_iff)

lemma vm_locked:
  fixes s :: "'z mst_scheme"
  shows "uvm_ok s pd xs S \<Longrightarrow> L_kmem \<notin> set h \<Longrightarrow> uvm_ok (s\<lparr>held := h\<rparr>) pd xs S"
    "kmem_ok s xs \<Longrightarrow> L_kmem \<notin> set h \<Longrightarrow> kmem_ok (s\<lparr>held := h\<rparr>) xs" "allocatable (s\<lparr>held := h\<rparr>) = allocatable s"
  by (simp_all add: uvm_ok_def pt_ok_def kmem_ok_def allocatable_def fun_eq_iff)

section \<open>Creating processes\<close>

text \<open>
  allocproc().  The kernel stack is a page; the trap frame of 76 bytes at its
  top is held by value in the process, below it goes the address of trapret,
  and below that the context of 20 bytes (edi, esi, ebx, ebp and eip), whose
  \<open>eip\<close> the process record holds too.  Pids are integers without a bound: the
  counter of the source is an int, which no run of the kernel exhausts.
\<close>

definition allocproc :: "('z pst_scheme, nat option) kfun" where
  "allocproc =
     thenM (acquire L_ptable)
     (bindM (findM [0..<NPROC] (\<lambda>i. bindM (get_proc i) (\<lambda>p. retM (if pstate p = UNUSED then Some i else None)))) (\<lambda>r.
      case r of
        None \<Rightarrow> thenM (release L_ptable) (retM None)
      | Some i \<Rightarrow>
          thenM (upd_proc i (\<lambda>p. p\<lparr>pstate := EMBRYO\<rparr>))
          (bindM (getM nextpid) (\<lambda>n.
          thenM (upd_proc i (\<lambda>p. p\<lparr>pid := n\<rparr>))
          (thenM (modM (\<lambda>s. s\<lparr>nextpid := n + 1\<rparr>))
          (thenM (release L_ptable)
          (bindM kalloc (\<lambda>k.
          thenM (upd_proc i (\<lambda>p. p\<lparr>kstack := k\<rparr>))
          (if k = 0 then thenM (upd_proc i (\<lambda>p. p\<lparr>pstate := UNUSED\<rparr>)) (retM None)
           else
             bindM (getM trapret_addr) (\<lambda>trapret.
             thenM (storeM (k + 4096 - 76 - 4) trapret)
             (thenM (memsetM (k + 4096 - 76 - 4 - 20) 0 20)
             (bindM (getM forkret_addr) (\<lambda>forkret.
             thenM (storeM (k + 4096 - 76 - 4 - 20 + 16) forkret)
             (thenM (upd_proc i (\<lambda>p. p\<lparr>ctx_eip := forkret\<rparr>))
             (retM (Some i))))))))))))))))"

text \<open>\<open>safestrcpy(p->name, cs, sizeof(p->name))\<close>.\<close>

definition set_name :: "bytes \<Rightarrow> proc \<Rightarrow> proc" where
  "set_name cs p = p\<lparr>pname := patch 0 (safestrcpy_l cs 15) (pname p)\<rparr>"

definition user_tf :: trapframe where
  "user_tf = zero_tf\<lparr>tf_cs := push_bit 3 3 OR 3, tf_ds := push_bit 3 4 OR 3, tf_es := push_bit 3 4 OR 3, tf_ss := push_bit 3 4 OR 3,
     tf_eflags := 0x200, tf_esp := 4096, tf_eip := 0\<rparr>"

text \<open>The parameters are the linker's symbols for the initcode binary.\<close>

definition userinit :: "u32 \<Rightarrow> u32 \<Rightarrow> ('z pst_scheme, unit) kfun" where
  "userinit initcode_start initcode_size =
     bindM allocproc (\<lambda>r.
     thenM (modM (\<lambda>s. s\<lparr>initproc := r\<rparr>))
     (case r of None \<Rightarrow> faultM ''userinit: p is null'' | Some p \<Rightarrow>
        bindM setupkvm (\<lambda>pd.
        thenM (upd_proc p (\<lambda>q. q\<lparr>pgdir := pd\<rparr>))
        (thenM (assertM (pd \<noteq> 0) ''userinit: out of memory?'')
        (thenM (inituvm pd initcode_start initcode_size)
        (thenM (upd_proc p (\<lambda>q. q\<lparr>sz := PGSIZE\<rparr>))
        (thenM (upd_proc p (\<lambda>q. q\<lparr>tf := user_tf\<rparr>))
        (thenM (upd_proc p (set_name (cbytes ''initcode'')))
        (bindM (namei (cbytes ''/'')) (\<lambda>ip.
        thenM (upd_proc p (\<lambda>q. q\<lparr>cwd := ip\<rparr>))
        (thenM (acquire L_ptable)
        (thenM (upd_proc p (\<lambda>q. q\<lparr>pstate := RUNNABLE\<rparr>))
        (release L_ptable)))))))))))))"

definition growproc :: "int \<Rightarrow> ('z vst_scheme, int) kfun" where
  "growproc n =
     bindM curproc (\<lambda>c.
     bindM (get_proc c) (\<lambda>p.
     bindM (if n > 0 then allocuvm (pgdir p) (sz p) (sz p + of_int n)
            else if n < 0 then deallocuvm (pgdir p) (sz p) (sz p + of_int n)
            else retM (sz p)) (\<lambda>z.
     if n \<noteq> 0 \<and> z = 0 then retM (-1)
     else
       thenM (upd_proc c (\<lambda>p. p\<lparr>sz := z\<rparr>))
       (thenM (switchuvm (Some c))
       (retM 0)))))"

text \<open>fork(): one turn of the loop that duplicates the open files, and the routine.\<close>

definition fork_file :: "nat \<Rightarrow> nat \<Rightarrow> nat \<Rightarrow> ('z ost_scheme, unit) kfun" where
  "fork_file c np i =
     bindM (get_proc c) (\<lambda>p.
     case ofile p ! i of
       None \<Rightarrow> skipM
     | Some f \<Rightarrow>
         bindM (filedup f) (\<lambda>g.
         upd_proc np (\<lambda>q. q\<lparr>ofile := (ofile q)[i := Some g]\<rparr>)))"

definition fork :: "('z pst_scheme, int) kfun" where
  "fork =
     bindM curproc (\<lambda>c.
     bindM allocproc (\<lambda>r.
     case r of None \<Rightarrow> retM (-1) | Some np \<Rightarrow>
       bindM (get_proc c) (\<lambda>p.
       bindM (copyuvm (pgdir p) (sz p)) (\<lambda>pd.
       thenM (upd_proc np (\<lambda>q. q\<lparr>pgdir := pd\<rparr>))
       (if pd = 0 then
          bindM (get_proc np) (\<lambda>q.
          thenM (kfree (kstack q))
          (thenM (upd_proc np (\<lambda>q. q\<lparr>kstack := 0, pstate := UNUSED\<rparr>))
          (retM (-1))))
        else
          thenM (upd_proc np (\<lambda>q. q\<lparr>sz := sz p, parent := Some c, tf := (tf p)\<lparr>tf_eax := 0\<rparr>\<rparr>))
          (thenM (foreachM [0..<NOFILE] (fork_file c np))
          (bindM (case cwd p of None \<Rightarrow> faultM ''idup: null inode'' | Some ip \<Rightarrow> idup ip) (\<lambda>ip.
          thenM (upd_proc np (\<lambda>q. q\<lparr>cwd := Some ip\<rparr>))
          (thenM (upd_proc np (set_name (pname p)))
          (bindM (get_proc np) (\<lambda>q.
          thenM (acquire L_ptable)
          (thenM (upd_proc np (\<lambda>q. q\<lparr>pstate := RUNNABLE\<rparr>))
          (thenM (release L_ptable)
          (retM (pid q)))))))))))))))"

section \<open>Exit and wait\<close>

definition exit_file :: "nat \<Rightarrow> nat \<Rightarrow> ('z ost_scheme, unit) kfun" where
  "exit_file c fd =
     bindM (get_proc c) (\<lambda>p.
     case ofile p ! fd of
       None \<Rightarrow> skipM
     | Some f \<Rightarrow>
         thenM (fileclose f)
         (upd_proc c (\<lambda>q. q\<lparr>ofile := (ofile q)[fd := None]\<rparr>)))"

text \<open>wakeup1() of a process pointer; no process sleeps on the channel 0.\<close>

definition wakeup1_proc :: "nat option \<Rightarrow> ('z kst_scheme, unit) kfun" where
  "wakeup1_proc p = (case p of None \<Rightarrow> skipM | Some i \<Rightarrow> wakeup1 (Ch_proc i))"

definition exit_child :: "nat \<Rightarrow> nat \<Rightarrow> ('z kst_scheme, unit) kfun" where
  "exit_child c i =
     bindM (get_proc i) (\<lambda>p.
     whenM (parent p = Some c)
       (bindM (getM initproc) (\<lambda>ini.
       thenM (upd_proc i (\<lambda>p. p\<lparr>parent := ini\<rparr>))
       (whenM (pstate p = ZOMBIE) (wakeup1_proc ini)))))"

text \<open>The part of exit() from \<open>acquire(&ptable.lock)\<close> on, and exit().\<close>

definition exit_zombie :: "nat \<Rightarrow> ('z kst_scheme, unit) kfun" where
  "exit_zombie c =
     thenM (acquire L_ptable)
     (bindM (get_proc c) (\<lambda>p.
     thenM (wakeup1_proc (parent p))
     (thenM (foreachM [0..<NPROC] (exit_child c))
     (thenM (upd_proc c (\<lambda>p. p\<lparr>pstate := ZOMBIE\<rparr>))
     (thenM sched
     (panicM ''zombie exit''))))))"

definition exit :: "('z ost_scheme, unit) kfun" where
  "exit =
     bindM curproc (\<lambda>c.
     bindM (getM initproc) (\<lambda>ini.
     thenM (assertM (Some c \<noteq> ini) ''init exiting'')
     (thenM (foreachM [0..<NOFILE] (exit_file c))
     (thenM begin_op
     (bindM (get_proc c) (\<lambda>p.
     thenM (case cwd p of None \<Rightarrow> faultM ''iput: null inode'' | Some ip \<Rightarrow> iput ip)
     (thenM end_op
     (thenM (upd_proc c (\<lambda>p. p\<lparr>cwd := None\<rparr>))
     (exit_zombie c)))))))))"

text \<open>
  wait(): freeing a zombie, the scan of the table (the value is the pid of a
  zombie child freed, if any, and \<open>havekids\<close>), and the body of the endless
  loop.  A process that slept continues with wait_loop, the lock held.
\<close>

definition reap :: "nat \<Rightarrow> ('z mst_scheme, int) kfun" where
  "reap i =
     bindM (get_proc i) (\<lambda>p.
     thenM (kfree (kstack p))
     (thenM (upd_proc i (\<lambda>p. p\<lparr>kstack := 0\<rparr>))
     (thenM (freevm (pgdir p))
     (thenM (upd_proc i (\<lambda>p. p\<lparr>pid := 0, parent := None, pname := (pname p)[0 := 0], killed := False, pstate := UNUSED\<rparr>))
     (thenM (release L_ptable)
     (retM (pid p)))))))"

primrec wait_scan :: "nat \<Rightarrow> nat list \<Rightarrow> bool \<Rightarrow> ('z mst_scheme, int option \<times> bool) kfun" where
  "wait_scan c [] havekids = retM (None, havekids)"
| "wait_scan c (i # is) havekids =
     bindM (get_proc i) (\<lambda>p.
     if parent p \<noteq> Some c then wait_scan c is havekids
     else if pstate p = ZOMBIE then bindM (reap i) (\<lambda>n. retM (Some n, True))
     else wait_scan c is True)"

definition wait_loop :: "nat \<Rightarrow> ('z mst_scheme, int) kfun" where
  "wait_loop c =
     bindM (wait_scan c [0..<NPROC] False) (\<lambda>(r, havekids).
     case r of
       Some n \<Rightarrow> retM n
     | None \<Rightarrow>
         bindM (get_proc c) (\<lambda>p.
         if \<not> havekids \<or> killed p then thenM (release L_ptable) (retM (-1))
         else thenM (sleep (Ch_proc c) (Some L_ptable)) (retM 0)))"

definition wait :: "('z mst_scheme, int) kfun" where
  "wait = bindM curproc (\<lambda>c. thenM (acquire L_ptable) (wait_loop c))"

section \<open>The scheduler\<close>

text \<open>
  One turn of the scheduler's inner loop.  \<open>swtch_to i\<close> stands for swtch() into
  process \<open>i\<close> and everything that runs until a process switches back to this
  CPU's scheduler.  One pass of the outer loop visits the whole table.
\<close>

definition scheduler_turn :: "(nat \<Rightarrow> ('z vst_scheme, unit) kfun) \<Rightarrow> nat \<Rightarrow> ('z vst_scheme, unit) kfun" where
  "scheduler_turn swtch_to i =
     bindM (get_proc i) (\<lambda>p.
     whenM (pstate p = RUNNABLE)
       (thenM (modM (\<lambda>s. s\<lparr>cur := Some i\<rparr>))
       (thenM (switchuvm (Some i))
       (thenM (upd_proc i (\<lambda>p. p\<lparr>pstate := RUNNING\<rparr>))
       (thenM (swtch_to i)
       (thenM switchkvm
       (modM (\<lambda>s. s\<lparr>cur := None\<rparr>))))))))"

definition scheduler_pass :: "(nat \<Rightarrow> ('z vst_scheme, unit) kfun) \<Rightarrow> ('z vst_scheme, unit) kfun" where
  "scheduler_pass swtch_to =
     thenM (acquire L_ptable)
     (thenM (foreachM [0..<NPROC] (scheduler_turn swtch_to))
     (release L_ptable))"

definition forkret :: "('z pst_scheme, unit) kfun" where
  "forkret =
     thenM (release L_ptable)
     (bindM (getM first) (\<lambda>f.
     whenM f
       (thenM (modM (\<lambda>s. s\<lparr>first := False\<rparr>))
       (thenM (iinit ROOTDEV)
       (initlog ROOTDEV)))))"

section \<open>Process identifiers\<close>

text \<open>The processes in use have different pids, all below the next one to be given.\<close>

definition pids_ok :: "proc list \<Rightarrow> int \<Rightarrow> bool" where
  "pids_ok ps n \<longleftrightarrow> length ps = NPROC \<and> (\<forall>i < NPROC. pstate (ps ! i) \<noteq> UNUSED \<longrightarrow> pid (ps ! i) < n)
     \<and> (\<forall>i < NPROC. \<forall>j < NPROC. pstate (ps ! i) \<noteq> UNUSED \<and> pstate (ps ! j) \<noteq> UNUSED \<and> pid (ps ! i) = pid (ps ! j) \<longrightarrow> i = j)"

lemma pids_okD:
  assumes "pids_ok ps n"
  shows "length ps = NPROC" "i < NPROC \<Longrightarrow> pstate (ps ! i) \<noteq> UNUSED \<Longrightarrow> pid (ps ! i) < n"
    "i < NPROC \<Longrightarrow> j < NPROC \<Longrightarrow> pstate (ps ! i) \<noteq> UNUSED \<Longrightarrow> pstate (ps ! j) \<noteq> UNUSED \<Longrightarrow> pid (ps ! i) = pid (ps ! j) \<Longrightarrow> i = j"
  using assms unfolding pids_ok_def by blast+

lemma pids_ok_new:
  assumes ok: "pids_ok ps n" and i: "i < NPROC" and p: "pid p = n"
  shows "pids_ok (ps[i := p]) (n + 1)"
proof -
  note d = pids_okD [OF ok]
  have lt: "pid (ps[i := p] ! k) < n + 1" if "k < NPROC" "pstate (ps[i := p] ! k) \<noteq> UNUSED" for k
    using that d(1) d(2) [of k] p by (cases "k = i") auto
  have eq: "k = l" if h: "k < NPROC" "l < NPROC" "pstate (ps[i := p] ! k) \<noteq> UNUSED" "pstate (ps[i := p] ! l) \<noteq> UNUSED"
      "pid (ps[i := p] ! k) = pid (ps[i := p] ! l)" for k l
  proof (rule ccontr)
    assume ne: "k \<noteq> l"
    show False
      using h ne d(1) d(2) [of k] d(2) [of l] d(3) [of k l] p by (cases "k = i"; cases "l = i") auto
  qed
  show ?thesis unfolding pids_ok_def using d(1) lt eq by (simp only: length_list_update) blast
qed

lemma pids_ok_unused:
  assumes ok: "pids_ok ps n" and i: "i < NPROC" and p: "pstate p = UNUSED"
  shows "pids_ok (ps[i := p]) n"
proof -
  note d = pids_okD [OF ok]
  have k: "k \<noteq> i" if "k < NPROC" "pstate (ps[i := p] ! k) \<noteq> UNUSED" for k using that p d(1) by auto
  show ?thesis unfolding pids_ok_def
  proof (intro conjI allI impI)
    show "length (ps[i := p]) = NPROC" using d(1) by simp
    show "pid (ps[i := p] ! a) < n" if "a < NPROC" "pstate (ps[i := p] ! a) \<noteq> UNUSED" for a
      using k [OF that] that d(2) [of a] by simp
    show "a = b" if "a < NPROC" "b < NPROC" "pstate (ps[i := p] ! a) \<noteq> UNUSED \<and> pstate (ps[i := p] ! b) \<noteq> UNUSED \<and> pid (ps[i := p] ! a) = pid (ps[i := p] ! b)" for a b
      using k [of a] k [of b] that d(3) [of a b] by simp
  qed
qed

lemma findM_pure: "findM xs (\<lambda>i. bindM (get_proc i) (\<lambda>p. retM (if P p then Some i else None))) s = Ok (find (\<lambda>i. P (procs s ! i)) xs) s"
  by (induction xs) (simp_all add: kcode)

lemma kalloc_eq:
  assumes "L_kmem \<notin> set (held s)"
  shows "kalloc s = (if freelist s = 0 then Ok 0 s else Ok (freelist s) (s\<lparr>freelist := load32 (mem s) (freelist s)\<rparr>))"
  using assms by (simp add: kalloc_def kcode)

text \<open>The bottom of a new kernel stack: the return address behind the context, and the context.\<close>

definition kstack_init :: "mem \<Rightarrow> u32 \<Rightarrow> u32 \<Rightarrow> u32 \<Rightarrow> mem" where
  "kstack_init m k tr fr =
     store32 (memset (store32 m (k + 4096 - 76 - 4) tr) (k + 4096 - 76 - 4 - 20) 0 20) (k + 4096 - 76 - 4 - 20 + 16) fr"

lemma pids_ok_mono: "pids_ok ps n \<Longrightarrow> n \<le> m \<Longrightarrow> pids_ok ps m"
  unfolding pids_ok_def by (meson order_less_le_trans)

text \<open>
  Processes keep different pids.  allocproc() takes the first unused slot
  and gives it the next pid, a kernel stack and a context that starts in
  forkret(), changing no other process; without a free slot it returns null
  and changes nothing, and without a free page it returns null with every slot
  in the state it was in.
\<close>

lemma allocproc_fresh_pid:
  fixes s :: "'z pst_scheme"
  assumes ok: "pids_ok (procs s) (nextpid s)" and h: "held s = []"
  shows "case find (\<lambda>i. pstate (procs s ! i) = UNUSED) [0..<NPROC] of
      None \<Rightarrow> allocproc s = Ok None s
    | Some i \<Rightarrow> \<exists>t p. procs t = (procs s)[i := p] \<and> nextpid t = nextpid s + 1 \<and> pids_ok (procs t) (nextpid t) \<and>
        (if freelist s = 0 then allocproc s = Ok None t \<and> pstate p = UNUSED
         else allocproc s = Ok (Some i) t \<and> pstate p = EMBRYO \<and> pid p = nextpid s \<and> kstack p = freelist s \<and> ctx_eip p = forkret_addr s)"
proof (cases "find (\<lambda>i. pstate (procs s ! i) = UNUSED) [0..<NPROC]")
  case None
  then show ?thesis using h by (simp add: allocproc_def kcode findM_pure del: upt_Suc)
next
  case (Some i)
  then have i: "i < NPROC" "pstate (procs s ! i) = UNUSED" by (auto simp: find_Some_iff)
  have l: "length (procs s) = NPROC" by (rule pids_okD [OF ok])
  let ?p = "(procs s ! i)\<lparr>pstate := EMBRYO, pid := nextpid s, kstack := freelist s\<rparr>"
  show ?thesis
  proof (cases "freelist s = 0")
    case True
    let ?q = "?p\<lparr>pstate := UNUSED\<rparr>"
    have "allocproc s = Ok None (s\<lparr>procs := (procs s)[i := ?q], nextpid := nextpid s + 1\<rparr>)"
      using Some h i l True by (simp add: allocproc_def kcode findM_pure kalloc_eq del: upt_Suc)
    moreover have "pids_ok ((procs s)[i := ?q]) (nextpid s + 1)"
      by (rule pids_ok_mono [OF pids_ok_unused [OF ok i(1)]]) simp_all
    ultimately show ?thesis using Some True by (auto intro!: exI [of _ "s\<lparr>procs := (procs s)[i := ?q], nextpid := nextpid s + 1\<rparr>"] exI [of _ ?q])
  next
    case False
    let ?q = "?p\<lparr>ctx_eip := forkret_addr s\<rparr>"
    let ?t = "s\<lparr>procs := (procs s)[i := ?q], nextpid := nextpid s + 1, freelist := load32 (mem s) (freelist s),
      mem := kstack_init (mem s) (freelist s) (trapret_addr s) (forkret_addr s)\<rparr>"
    have "allocproc s = Ok (Some i) ?t"
      using Some h i l False by (simp add: allocproc_def kcode findM_pure kalloc_eq storeM_def kstack_init_def del: upt_Suc)
    moreover have "pids_ok ((procs s)[i := ?q]) (nextpid s + 1)" by (rule pids_ok_new [OF ok i(1)]) simp
    ultimately show ?thesis using Some False by (auto intro!: exI [of _ ?t] exI [of _ ?q])
  qed
qed

section \<open>exit()\<close>

text \<open>The table after the first \<open>n\<close> turns of the loop that passes the children of \<open>c\<close> to \<open>ini\<close>.\<close>

definition zombie_kid :: "proc list \<Rightarrow> nat \<Rightarrow> nat \<Rightarrow> bool" where
  "zombie_kid ps c n \<longleftrightarrow> (\<exists>k < n. parent (ps ! k) = Some c \<and> pstate (ps ! k) = ZOMBIE)"

definition adopt :: "proc list \<Rightarrow> nat \<Rightarrow> nat \<Rightarrow> nat \<Rightarrow> nat \<Rightarrow> proc" where
  "adopt ps c ini n i =
     (let p = (if zombie_kid ps c n then wake (Ch_proc ini) (ps ! i) else ps ! i) in
      if i < n \<and> parent (ps ! i) = Some c then p\<lparr>parent := Some ini\<rparr> else p)"

lemma wake_twice [simp]: "wake ch (wake ch p) = wake ch p"
  by (simp add: wake_def)

lemma wake_parent: "wake ch (p\<lparr>parent := x\<rparr>) = (wake ch p)\<lparr>parent := x\<rparr>"
  by (simp add: wake_def)

lemma wake_zombie [simp]: "pstate (wake ch p) = ZOMBIE \<longleftrightarrow> pstate p = ZOMBIE"
  by (simp add: wake_def)

lemma adopt_simps:
  "parent (adopt ps c ini n i) = (if i < n \<and> parent (ps ! i) = Some c then Some ini else parent (ps ! i))"
  "pstate (adopt ps c ini n i) = (if zombie_kid ps c n then pstate (wake (Ch_proc ini) (ps ! i)) else pstate (ps ! i))"
  by (simp_all add: adopt_def Let_def)

lemma zombie_kid_Suc: "zombie_kid ps c (Suc n) \<longleftrightarrow> zombie_kid ps c n \<or> parent (ps ! n) = Some c \<and> pstate (ps ! n) = ZOMBIE"
  by (auto simp: zombie_kid_def less_Suc_eq)

lemma adopt_Suc:
  assumes "n < NPROC"
  shows "map (adopt ps c ini (Suc n)) [0..<NPROC] =
    (let qs = map (adopt ps c ini n) [0..<NPROC] in
     if parent (ps ! n) = Some c then
       (let rs = qs[n := (qs ! n)\<lparr>parent := Some ini\<rparr>] in if pstate (ps ! n) = ZOMBIE then map (wake (Ch_proc ini)) rs else rs)
     else qs)"
proof (rule nth_equalityI)
  fix i assume "i < length (map (adopt ps c ini (Suc n)) [0..<NPROC])"
  then have "i < NPROC" by simp
  then show "map (adopt ps c ini (Suc n)) [0..<NPROC] ! i = (let qs = map (adopt ps c ini n) [0..<NPROC] in
     if parent (ps ! n) = Some c then
       (let rs = qs[n := (qs ! n)\<lparr>parent := Some ini\<rparr>] in if pstate (ps ! n) = ZOMBIE then map (wake (Ch_proc ini)) rs else rs)
     else qs) ! i"
    using assms by (cases "i = n") (auto simp: adopt_def Let_def zombie_kid_Suc wake_parent less_Suc_eq simp del: upt_Suc)
qed (simp add: Let_def)

lemma exit_children:
  fixes s :: "'z kst_scheme"
  assumes "length (procs s) = NPROC" "initproc s = Some ini" "n \<le> NPROC"
  shows "foreachM [0..<n] (exit_child c) s = Ok () (s\<lparr>procs := map (adopt (procs s) c ini n) [0..<NPROC]\<rparr>)"
  using assms(3)
proof (induction n)
  case 0
  have "map (adopt (procs s) c ini 0) [0..<NPROC] = procs s"
    using assms(1) by (intro nth_equalityI) (simp_all add: adopt_def zombie_kid_def)
  then show ?case by (simp add: kcode)
next
  case (Suc n)
  let ?qs = "map (adopt (procs s) c ini n) [0..<NPROC]"
  have n: "n < NPROC" using Suc.prems by simp
  have q: "parent (?qs ! n) = parent (procs s ! n)" "pstate (?qs ! n) = ZOMBIE \<longleftrightarrow> pstate (procs s ! n) = ZOMBIE"
    using n by (simp_all add: adopt_simps del: upt_Suc)
  have "exit_child c n (s\<lparr>procs := ?qs\<rparr>) = Ok () (s\<lparr>procs := map (adopt (procs s) c ini (Suc n)) [0..<NPROC]\<rparr>)"
    unfolding adopt_Suc [OF n] using q assms(2)
    by (simp add: exit_child_def kcode wakeup1_proc_def Let_def del: upt_Suc nth_map_upt)
  then show ?case using Suc by (simp add: kcode)
qed

text \<open>
  C29: the end of exit() under ptable.lock.  The process becomes a zombie and
  gives up the CPU for good; its children are passed to init, and no other
  process changes its parent; a parent that sleeps in wait() is made
  runnable, and so is init when it inherits a zombie and sleeps in wait().
\<close>

theorem exit_zombie_spec:
  fixes s :: "'z kst_scheme"
  assumes l: "length (procs s) = NPROC" and h: "held s = []" and c: "cur s = Some c" "c < NPROC" "pstate (procs s ! c) = RUNNING"
    and ini: "initproc s = Some ini" "ini < NPROC"
  shows "\<exists>t. exit_zombie c s = Swtch t \<and> held t = [L_ptable] \<and> length (procs t) = NPROC \<and> pstate (procs t ! c) = ZOMBIE
    \<and> (\<forall>i < NPROC. parent (procs t ! i) = (if parent (procs s ! i) = Some c then Some ini else parent (procs s ! i)))
    \<and> (\<forall>q < NPROC. parent (procs s ! c) = Some q \<longrightarrow> pstate (procs s ! q) = SLEEPING \<longrightarrow> pchan (procs s ! q) = Some (Ch_proc q) \<longrightarrow>
         pstate (procs t ! q) = RUNNABLE)
    \<and> (zombie_kid (procs s) c NPROC \<longrightarrow> pstate (procs s ! ini) = SLEEPING \<longrightarrow> pchan (procs s ! ini) = Some (Ch_proc ini) \<longrightarrow>
         pstate (procs t ! ini) = RUNNABLE)"
proof -
  define ps where "ps = (case parent (procs s ! c) of None \<Rightarrow> procs s | Some q \<Rightarrow> map (wake (Ch_proc q)) (procs s))"
  define qs where "qs = map (adopt ps c ini NPROC) [0..<NPROC]"
  let ?u = "s\<lparr>held := [L_ptable], procs := ps\<rparr>"
  let ?t = "s\<lparr>held := [L_ptable], procs := qs[c := (qs ! c)\<lparr>pstate := ZOMBIE\<rparr>]\<rparr>"
  have lp: "length ps = NPROC" using l by (simp add: ps_def split: option.split)
  have p: "parent (ps ! i) = parent (procs s ! i)" "pchan (ps ! i) = pchan (procs s ! i)" "pstate (ps ! i) = ZOMBIE \<longleftrightarrow> pstate (procs s ! i) = ZOMBIE"
    if "i < NPROC" for i using that l by (simp_all add: ps_def split: option.split)
  have wk: "pstate (ps ! i) = pstate (procs s ! i) \<or> pstate (ps ! i) = RUNNABLE" if "i < NPROC" for i
    using that l by (simp add: ps_def wake_def split: option.split)
  have w: "wakeup1_proc (parent (procs s ! c)) (s\<lparr>held := [L_ptable]\<rparr>) = Ok () ?u"
    using l by (simp add: wakeup1_proc_def ps_def kcode split: option.split)
  have ch: "foreachM [0..<NPROC] (exit_child c) ?u = Ok () (s\<lparr>held := [L_ptable], procs := qs\<rparr>)"
    using exit_children [of ?u ini NPROC c] lp ini(1) by (simp add: qs_def)
  have run: "exit_zombie c s = Swtch ?t"
    using h w ch c by (simp add: exit_zombie_def kcode sched_def qs_def del: upt_Suc)
  have q: "qs ! i = adopt ps c ini NPROC i" if "i < NPROC" for i using that by (simp add: qs_def)
  have zk: "zombie_kid ps c NPROC \<longleftrightarrow> zombie_kid (procs s) c NPROC" using p by (auto simp: zombie_kid_def)
  have par: "parent (procs ?t ! i) = (if parent (procs s ! i) = Some c then Some ini else parent (procs s ! i))" if "i < NPROC" for i
    using that c(2) p [OF that] q [OF that] by (cases "i = c") (simp_all add: adopt_simps qs_def)
  have woken: "pstate (procs ?t ! i) = RUNNABLE" if i: "i < NPROC" "i \<noteq> c"
    "pstate (ps ! i) = RUNNABLE \<or> zombie_kid ps c NPROC \<and> i = ini \<and> pstate (ps ! i) = SLEEPING \<and> pchan (ps ! i) = Some (Ch_proc ini)" for i
    using i q [OF i(1)] by (auto simp: adopt_simps wake_def)
  have pw: "pstate (procs ?t ! q) = RUNNABLE"
    if "q < NPROC" "parent (procs s ! c) = Some q" "pstate (procs s ! q) = SLEEPING" "pchan (procs s ! q) = Some (Ch_proc q)" for q
    by (rule woken) (use that c(3) l in \<open>auto simp: ps_def wake_def\<close>)
  have iw: "pstate (procs ?t ! ini) = RUNNABLE"
    if "zombie_kid (procs s) c NPROC" "pstate (procs s ! ini) = SLEEPING" "pchan (procs s ! ini) = Some (Ch_proc ini)"
    by (rule woken) (use that c(3) ini(2) p [OF ini(2)] wk [OF ini(2)] zk in auto)
  have z: "pstate (procs ?t ! c) = ZOMBIE" using c(2) by (simp add: qs_def)
  show ?thesis using run par pw iw z by (intro exI [of _ ?t]) (simp add: qs_def)
qed

text \<open>Process 1 sleeps in wait() for its running child 2; process 0 is init.\<close>

definition family :: kst where
  "family = \<lparr>held = [], cur = Some 2,
     procs = [zero_proc\<lparr>pstate := SLEEPING, pid := 1\<rparr>,
       zero_proc\<lparr>pstate := SLEEPING, pid := 2, parent := Some 0, pchan := Some (Ch_proc 1)\<rparr>,
       zero_proc\<lparr>pstate := RUNNING, pid := 3, parent := Some 1\<rparr>] @ replicate 61 zero_proc,
     nextpid = 4, initproc = Some 0, slks = (\<lambda>_. \<lparr>sl_locked = False, sl_pid = 0\<rparr>)\<rparr>"

theorem exit_zombie_spec_witness:
  "\<exists>t. exit_zombie 2 family = Swtch t \<and> pstate (procs t ! 2) = ZOMBIE \<and> pstate (procs t ! 1) = RUNNABLE"
proof -
  have f: "length (procs family) = NPROC" "held family = []" "cur family = Some 2" "pstate (procs family ! 2) = RUNNING" "initproc family = Some 0"
    "parent (procs family ! 2) = Some 1" "pstate (procs family ! 1) = SLEEPING" "pchan (procs family ! 1) = Some (Ch_proc 1)"
    by (simp_all add: family_def)
  have n: "(2 :: nat) < NPROC" "(0 :: nat) < NPROC" "(1 :: nat) < NPROC" by simp_all
  show ?thesis using exit_zombie_spec [OF f(1-3) n(1) f(4,5) n(2)] f(6-8) n(3) by blast
qed

section \<open>wait()\<close>

text \<open>The slot of a zombie that has been waited for.\<close>

definition reaped :: "proc \<Rightarrow> proc" where
  "reaped p = p\<lparr>kstack := 0, pid := 0, parent := None, pname := (pname p)[0 := 0], killed := False, pstate := UNUSED\<rparr>"

text \<open>What a zombie still owns: an address space with the user pages \<open>S\<close>, and a kernel stack that is neither free nor part of it.\<close>

definition reapable :: "'z mst_scheme \<Rightarrow> proc \<Rightarrow> u32 list \<Rightarrow> u32 set \<Rightarrow> bool" where
  "reapable s p xs S \<longleftrightarrow> uvm_ok s (pgdir p) xs S \<and> allocatable s (kstack p)
     \<and> kstack p \<notin> set xs \<and> kstack p \<notin> owned (mem s) (pgdir p) S"

lemma reap_ok:
  fixes s :: "'z mst_scheme"
  assumes h: "held s = [L_ptable]" and p: "p = procs s ! i" "i < length (procs s)" and ok: "reapable s p xs S"
  shows "\<exists>m fr ys. let t = s\<lparr>held := [], procs := (procs s)[i := reaped p], mem := m, freelist := fr\<rparr> in
      reap i s = Ok (pid p) t \<and> kmem_ok t ys \<and> set ys = set xs \<union> {kstack p} \<union> owned (mem s) (pgdir p) S
      \<and> (\<forall>z. PGROUNDDOWN z \<notin> set ys \<longrightarrow> m z = mem s z)"
proof -
  let ?x = "kstack p" and ?A = "owned (mem s) (pgdir p) S"
  have x: "uvm_ok s (pgdir p) xs S" "allocatable s ?x" "?x \<notin> set xs" "?x \<notin> ?A" using ok by (simp_all add: reapable_def)
  define u where "u = s\<lparr>mem := freed (mem s) ?x (freelist s), freelist := ?x\<rparr>"
  note k = uvm_ok_kfree [OF x, folded u_def]
  define v where "v = u\<lparr>procs := (procs s)[i := p\<lparr>kstack := 0\<rparr>]\<rparr>"
  have "uvm_ok v (pgdir p) (?x # xs) S" "mem v = mem u" using k(2) by (simp_all add: v_def)
  then obtain w ys where w: "freevm (pgdir p) v = Ok () w" "kmem_ok w ys" "set ys = set (?x # xs) \<union> ?A" "mframe (?A \<union> set (?x # xs)) v w"
    using freevm_ok [of v "pgdir p" "?x # xs" S] k(4) by auto
  obtain m fr where we: "w = v\<lparr>mem := m, freelist := fr\<rparr>" using mframeD(1) [OF w(4)] by (auto simp: memonly_def)
  let ?t = "s\<lparr>held := [], procs := (procs s)[i := reaped p], mem := m, freelist := fr\<rparr>"
  have run: "reap i s = Ok (pid p) ?t"
  proof -
    have "procs u = procs s" "held w = [L_ptable]" "procs w = (procs s)[i := p\<lparr>kstack := 0\<rparr>]" by (simp_all add: u_def v_def we h)
    then have "reap i s = Ok (pid p) (w\<lparr>procs := (procs s)[i := reaped p], held := []\<rparr>)"
      using k(1) w(1) p by (simp add: reap_def kcode v_def reaped_def)
    then show ?thesis by (simp add: we v_def u_def)
  qed
  have km: "kmem_ok ?t ys" using w(2) by (simp add: we v_def u_def kmem_ok_def allocatable_def)
  have "m z = mem s z" if z: "PGROUNDDOWN z \<notin> set ys" for z
  proof -
    have "m z = mem v z" using mframeD(2) [OF w(4), of z] z w(3) by (auto simp: we)
    also have "\<dots> = freed (mem s) ?x (freelist s) z" by (simp add: v_def u_def)
    also have "\<dots> = mem s z" by (rule freed_other) (use x(2) z w(3) in \<open>simp_all add: allocatable_def in_page\<close>)
    finally show ?thesis .
  qed
  then show ?thesis using run km w(3) by (intro exI [of _ m] exI [of _ fr] exI [of _ ys]) (auto simp: Let_def)
qed

text \<open>The scan of the table finds the first zombie child.\<close>

lemma wait_scan_eq:
  "wait_scan c is hk s = (case find (\<lambda>i. parent (procs s ! i) = Some c \<and> pstate (procs s ! i) = ZOMBIE) is of
      Some i \<Rightarrow> bindM (reap i) (\<lambda>n. retM (Some n, True)) s
    | None \<Rightarrow> Ok (None, hk \<or> (\<exists>i \<in> set is. parent (procs s ! i) = Some c)) s)"
  by (induction "is" arbitrary: hk) (auto simp: kcode split: option.split)

text \<open>
  C28: wait() on every branch.  With a zombie child it returns the pid of the
  first one of the table, empties its slot, and puts its kernel stack and every
  page of its address space, page tables included, on the free list; no other
  memory, no other process and no other part of the state changes.  A caller
  without children, or one that was killed, gets -1 and changes nothing; any
  other goes to sleep until a child exits.
\<close>

theorem wait_spec:
  fixes s :: "'z mst_scheme"
  assumes l: "length (procs s) = NPROC" and h: "held s = []" and c: "cur s = Some c" "c < NPROC"
  shows "case find (\<lambda>i. parent (procs s ! i) = Some c \<and> pstate (procs s ! i) = ZOMBIE) [0..<NPROC] of
      Some i \<Rightarrow> (\<forall>p xs S. p = procs s ! i \<longrightarrow> reapable s p xs S \<longrightarrow>
        (\<exists>m fr ys. let t = s\<lparr>held := [], procs := (procs s)[i := reaped p], mem := m, freelist := fr\<rparr> in
          wait s = Ok (pid p) t \<and> kmem_ok t ys \<and> set ys = set xs \<union> {kstack p} \<union> owned (mem s) (pgdir p) S
          \<and> (\<forall>z. PGROUNDDOWN z \<notin> set ys \<longrightarrow> m z = mem s z)))
    | None \<Rightarrow>
        wait s = (if (\<forall>i < NPROC. parent (procs s ! i) \<noteq> Some c) \<or> killed (procs s ! c) then Ok (-1) s
          else Swtch (s\<lparr>held := [L_ptable], procs := (procs s)[c := (procs s ! c)\<lparr>pchan := Some (Ch_proc c), pstate := SLEEPING\<rparr>]\<rparr>))"
proof (cases "find (\<lambda>i. parent (procs s ! i) = Some c \<and> pstate (procs s ! i) = ZOMBIE) [0..<NPROC]")
  case None
  have sl: "sleep (Ch_proc c) (Some L_ptable) (s\<lparr>held := [L_ptable]\<rparr>)
    = Swtch (s\<lparr>held := [L_ptable], procs := (procs s)[c := (procs s ! c)\<lparr>pchan := Some (Ch_proc c), pstate := SLEEPING\<rparr>]\<rparr>)"
    using c l by (simp add: sleep_def sleep_ops_def seqM_def sched_def kcode)
  show ?thesis using None h c sl by (auto simp: wait_def wait_loop_def kcode wait_scan_eq simp del: upt_Suc)
next
  case (Some i)
  let ?p = "procs s ! i" and ?s = "s\<lparr>held := [L_ptable]\<rparr>"
  have i: "i < NPROC" using Some by (auto simp: find_Some_iff)
  have w: "wait s = reap i ?s"
    using Some h c by (simp add: wait_def wait_loop_def kcode wait_scan_eq del: upt_Suc split: outcome.split)
  have "\<exists>m fr ys. let t = s\<lparr>held := [], procs := (procs s)[i := reaped ?p], mem := m, freelist := fr\<rparr> in
      wait s = Ok (pid ?p) t \<and> kmem_ok t ys \<and> set ys = set xs \<union> {kstack ?p} \<union> owned (mem s) (pgdir ?p) S
      \<and> (\<forall>z. PGROUNDDOWN z \<notin> set ys \<longrightarrow> m z = mem s z)" if ok: "reapable s ?p xs S" for xs S
  proof -
    have "reapable ?s ?p xs S" using ok by (simp add: reapable_def vm_locked)
    then show ?thesis using reap_ok [of ?s ?p i xs S] i l h w by (simp add: Let_def)
  qed
  then show ?thesis using Some by simp
qed

text \<open>Process 0 with a dead child in slot 1 that has one page of memory, and a kernel stack at 0x80403000.\<close>

definition orphanage :: mst where
  "orphanage = one_page\<lparr>procs := (replicate NPROC zero_proc)[0 := zero_proc\<lparr>pstate := RUNNING, pid := 1\<rparr>,
     1 := zero_proc\<lparr>pstate := ZOMBIE, pid := 7, parent := Some 0, pgdir := 0x80402000, sz := 4096, kstack := 0x80403000\<rparr>],
     cur := Some 0\<rparr>"

theorem wait_spec_witness:
  "\<exists>t ys. wait orphanage = Ok 7 t \<and> kmem_ok t ys \<and> set ys = {0x80400000, 0x80401000, 0x80402000, 0x80403000}
     \<and> pstate (procs t ! 1) = UNUSED"
proof -
  have f: "length (procs orphanage) = NPROC" "held orphanage = []" "cur orphanage = Some 0" "(0 :: nat) < NPROC"
    by (simp_all add: orphanage_def one_page_def boot_mst_def)
  let ?p = "procs orphanage ! 1"
  have p: "pstate ?p = ZOMBIE" "pid ?p = 7" "parent ?p = Some 0" "pgdir ?p = 0x80402000" "kstack ?p = 0x80403000"
    "parent (procs orphanage ! 0) = None" by (simp_all add: orphanage_def zero_proc_def)
  have u: "uvm_ok orphanage 0x80402000 [] (upages 4096)"
    by (rule one_page_space) (simp_all add: kmem_ok_def orphanage_def one_page_def boot_mst_def)
  have up: "upages 4096 = {0}" using upages_succ [of 0] by (simp add: upages_def page_def)
  have own: "owned (mem orphanage) 0x80402000 (upages 4096) = {0x80400000, 0x80401000, 0x80402000}"
    by (auto simp: owned_def up orphanage_def one_page_mem)
  have r: "reapable orphanage ?p [] (upages 4096)"
    using u p own by (simp add: reapable_def) (simp add: orphanage_def allocatable_def page_def one_page_def boot_mst_def V2P_def)
  have z: "find (\<lambda>i. parent (procs orphanage ! i) = Some 0 \<and> pstate (procs orphanage ! i) = ZOMBIE) [0..<NPROC] = Some 1"
    using p by (simp add: upt_rec [of 0] upt_rec [of "Suc 0"])
  from wait_spec [OF f(1-4)] obtain m fr ys where
    "let t = orphanage\<lparr>held := [], procs := (procs orphanage)[1 := reaped ?p], mem := m, freelist := fr\<rparr> in
       wait orphanage = Ok (pid ?p) t \<and> kmem_ok t ys \<and> set ys = set [] \<union> {kstack ?p} \<union> owned (mem orphanage) (pgdir ?p) (upages 4096)"
    unfolding z using r by (fastforce simp: Let_def)
  then show ?thesis
    using p own f(1) by (intro exI [of _ "orphanage\<lparr>held := [], procs := (procs orphanage)[1 := reaped ?p], mem := m, freelist := fr\<rparr>"] exI [of _ ys]) (auto simp: Let_def reaped_def)
qed

definition boot_pst :: pst where
  "boot_pst = ost.extend (boot_ost\<lparr>freelist := 0x80400000\<rparr>) (pst.fields True 0 0x80103000 0x80105000)"

lemma boot_pst_simps:
  "held boot_pst = []" "procs boot_pst = replicate NPROC zero_proc" "freelist boot_pst = 0x80400000" "forkret_addr boot_pst = 0x80103000"
  by (simp_all add: boot_pst_def ost.extend_def pst.fields_def boot_ost_simps)

lemma allocproc_fresh_pid_witness:
  "\<exists>t. allocproc boot_pst = Ok (Some 0) t \<and> kstack (procs t ! 0) = 0x80400000 \<and> pstate (procs t ! 0) = EMBRYO"
proof -
  have z: "replicate NPROC zero_proc ! i = zero_proc" if "i < NPROC" for i using that by (rule nth_replicate)
  have ok: "pids_ok (procs boot_pst) (nextpid boot_pst)" by (simp add: pids_ok_def boot_pst_simps z) (simp add: zero_proc_def)
  have h: "held boot_pst = []" by (simp add: boot_pst_simps)
  have "find (\<lambda>i. pstate (procs boot_pst ! i) = UNUSED) [0..<NPROC] = Some 0"
    unfolding boot_pst_simps by (simp add: upt_rec [of 0] zero_proc_def)
  then obtain t p where "procs t = (procs boot_pst)[0 := p]" "allocproc boot_pst = Ok (Some 0) t" "pstate p = EMBRYO" "kstack p = 0x80400000"
    using allocproc_fresh_pid [OF ok h] by (auto simp: boot_pst_simps(3))
  then show ?thesis by (auto simp: boot_pst_simps)
qed

section \<open>growproc()\<close>

text \<open>
  Shrinking a process by more than its size: the new size wraps around to one
  above the old, deallocuvm() takes that for a request to grow and returns the
  old size, and growproc() reports success with the size unchanged.
\<close>

lemma growproc_below_zero:
  fixes s :: "'z vst_scheme"
  assumes c: "cur s = Some c" "c < length (procs s)" and p: "p = procs s ! c" "kstack p \<noteq> 0" "pgdir p \<noteq> 0" "sz p \<noteq> 0"
    and n: "uint (sz p) < - n" "- n \<le> 2 ^ 31"
  shows "\<exists>t. growproc n s = Ok 0 t \<and> procs t = procs s"
proof -
  have pos: "0 \<le> uint (sz p)" by simp
  have big: "(2::int) ^ 31 \<le> 2 ^ 32" by simp
  have lt: "uint (sz p) + n + 2 ^ 32 < 2 ^ 32" "0 \<le> uint (sz p) + n + 2 ^ 32"
    using n pos big by linarith+
  have "uint (sz p + of_int n) = (uint (sz p) + n) mod 2 ^ 32"
    by (simp add: uint_word_ariths unsigned_of_int take_bit_eq_mod mod_add_right_eq)
  also have "\<dots> = (uint (sz p) + n + 2 ^ 32) mod 2 ^ 32" by simp
  also have "\<dots> = uint (sz p) + n + 2 ^ 32" using lt by (intro mod_pos_pos_trivial)
  finally have "uint (sz p) \<le> uint (sz p + of_int n)" using n pos by simp
  then have le: "sz p \<le> sz p + of_int n" by (simp add: word_le_def)
  have neg: "n < 0" using n(1) pos by (meson le_less_trans neg_0_less_iff_less)
  have same: "(procs s)[c := (procs s ! c)\<lparr>sz := sz p\<rparr>] = procs s" using p(1) by simp
  show ?thesis using c neg le p same by (simp add: growproc_def kcode deallocuvm_def switchuvm_def)
qed

section \<open>kill() and unused slots\<close>

text \<open>
  kill() compares pids without looking at the state of the slot, and an unused
  slot has pid 0.  As allocproc() does not reset the killed flag, kill(0) reports
  success and the next process that gets the slot is killed from the start.
\<close>

lemma kill_zero_hits_unused_slot:
  fixes s :: "'z pst_scheme"
  assumes l: "length (procs s) = NPROC" and h: "held s = []" and k: "freelist s \<noteq> 0"
    and first: "find (\<lambda>i. pid (procs s ! i) = 0) [0..<NPROC] = Some i"
      "find (\<lambda>i. pstate (procs s ! i) = UNUSED) [0..<NPROC] = Some i"
  shows "\<exists>t u. kill 0 s = Ok 0 t \<and> allocproc t = Ok (Some i) u \<and> killed (procs u ! i) \<and> pstate (procs u ! i) = EMBRYO"
proof -
  have i: "i < NPROC" "pstate (procs s ! i) = UNUSED" using first(2) by (auto simp: find_Some_iff)
  define t where "t = s\<lparr>procs := (procs s)[i := kill_mark (procs s ! i)]\<rparr>"
  have "kill 0 s = Ok 0 t" using kill_eq [of s 0] first(1) i l h by (simp add: t_def)
  moreover have "find (\<lambda>j. pstate (procs t ! j) = UNUSED) [0..<NPROC] = Some i"
    using first(2) l i by (simp add: t_def kill_mark_def find_upt_Some nth_list_update)
  then have "\<exists>u. allocproc t = Ok (Some i) u \<and> killed (procs u ! i) \<and> pstate (procs u ! i) = EMBRYO"
    using i l h k by (simp add: allocproc_def kcode findM_pure kalloc_eq t_def kill_mark_def del: upt_Suc)
  ultimately show ?thesis by blast
qed

end
