(* ===== verification/Kbd.thy ===== *)
theory Kbd
  imports Proc
begin

text \<open>
  kbd.c and kbd.h: the keyboard driver, which turns scan codes into characters
  and keeps the state of the modifier keys; uartgetc() and the interrupt
  handlers of the keyboard and the serial port, which feed the console.
\<close>

text \<open>
  The driver's static variable \<open>shift\<close>, and the bytes waiting in the
  controllers of the keyboard and the serial port: reading a status register
  tells whether there is one, reading the data register takes the first.
\<close>

record tst = pst +
  kbd_shift :: u32
  kbd_in :: bytes
  uart_in :: bytes

section \<open>kbd.h\<close>

abbreviation (input) SHIFT :: u32 where "SHIFT \<equiv> 1"
abbreviation (input) CTL :: u32 where "CTL \<equiv> 2"
abbreviation (input) CAPSLOCK :: u32 where "CAPSLOCK \<equiv> 8"
abbreviation (input) E0ESC :: u32 where "E0ESC \<equiv> 64"

text \<open>An array with an initialiser list: leading elements, then designated ones; the rest is 0.\<close>

definition keymap :: "u8 list \<Rightarrow> (nat \<times> u8) list \<Rightarrow> nat \<Rightarrow> u8" where
  "keymap xs ds i = (case map_of ds i of Some v \<Rightarrow> v | None \<Rightarrow> if i < length xs then xs ! i else 0)"

definition shiftcode :: "nat \<Rightarrow> u8" where
  "shiftcode = keymap
    []
    [(0x1D, 2), (0x2A, 1), (0x36, 1), (0x38, 4), (0x9D, 2), (0xB8, 4)]"

definition togglecode :: "nat \<Rightarrow> u8" where
  "togglecode = keymap
    []
    [(0x3A, 8), (0x45, 16), (0x46, 32)]"

definition normalmap :: "nat \<Rightarrow> u8" where
  "normalmap = keymap
    [0, 27, 49, 50, 51, 52, 53, 54, 55, 56, 57, 48, 45, 61, 8, 9,
     113, 119, 101, 114, 116, 121, 117, 105, 111, 112, 91, 93, 10, 0, 97, 115,
     100, 102, 103, 104, 106, 107, 108, 59, 39, 96, 0, 92, 122, 120, 99, 118,
     98, 110, 109, 44, 46, 47, 0, 42, 0, 32, 0, 0, 0, 0, 0, 0,
     0, 0, 0, 0, 0, 0, 0, 55, 56, 57, 45, 52, 53, 54, 43, 49,
     50, 51, 48, 46, 0, 0, 0, 0]
    [(0x9C, 10), (0xB5, 47), (0xC8, 226), (0xD0, 227), (0xC9, 230), (0xD1, 231), (0xCB, 228), (0xCD, 229), (0x97, 224), (0xCF, 225), (0xD2, 232), (0xD3, 233)]"

definition shiftmap :: "nat \<Rightarrow> u8" where
  "shiftmap = keymap
    [0, 27, 33, 64, 35, 36, 37, 94, 38, 42, 40, 41, 95, 43, 8, 9,
     81, 87, 69, 82, 84, 89, 85, 73, 79, 80, 123, 125, 10, 0, 65, 83,
     68, 70, 71, 72, 74, 75, 76, 58, 34, 126, 0, 124, 90, 88, 67, 86,
     66, 78, 77, 60, 62, 63, 0, 42, 0, 32, 0, 0, 0, 0, 0, 0,
     0, 0, 0, 0, 0, 0, 0, 55, 56, 57, 45, 52, 53, 54, 43, 49,
     50, 51, 48, 46, 0, 0, 0, 0]
    [(0x9C, 10), (0xB5, 47), (0xC8, 226), (0xD0, 227), (0xC9, 230), (0xD1, 231), (0xCB, 228), (0xCD, 229), (0x97, 224), (0xCF, 225), (0xD2, 232), (0xD3, 233)]"

definition ctlmap :: "nat \<Rightarrow> u8" where
  "ctlmap = keymap
    [0, 0, 0, 0, 0, 0, 0, 0, 0, 0, 0, 0, 0, 0, 0, 0,
     17, 23, 5, 18, 20, 25, 21, 9, 15, 16, 0, 0, 13, 0, 1, 19,
     4, 6, 7, 8, 10, 11, 12, 0, 0, 0, 0, 28, 26, 24, 3, 22,
     2, 14, 13, 0, 0, 239, 0, 0]
    [(0x9C, 13), (0xB5, 239), (0xC8, 226), (0xD0, 227), (0xC9, 230), (0xD1, 231), (0xCB, 228), (0xCD, 229), (0x97, 224), (0xCF, 225), (0xD2, 232), (0xD3, 233)]"

definition charcode :: "u32 \<Rightarrow> nat \<Rightarrow> u8" where
  "charcode k = (if k = 0 then normalmap else if k = 1 then shiftmap else ctlmap)"

section \<open>The driver\<close>

definition swapcase :: "u8 \<Rightarrow> u8" where
  "swapcase c = (if 0x61 \<le> c \<and> c \<le> 0x7A then c + 0x41 - 0x61 else if 0x41 \<le> c \<and> c \<le> 0x5A then c + 0x61 - 0x41 else c)"

text \<open>kbdgetc() on the scan code \<open>data\<close>: the result and the new \<open>shift\<close>.\<close>

definition kbd_code :: "u32 \<Rightarrow> u8 \<Rightarrow> int \<times> u32" where
  "kbd_code sh data =
     (if data = 0xE0 then (0, sh OR E0ESC)
      else if data AND 0x80 \<noteq> 0 then
        let data = (if sh AND E0ESC \<noteq> 0 then data else data AND 0x7F) in
        (0, sh AND NOT (ucast (shiftcode (unat data)) OR E0ESC))
      else
        let (data, sh) = (if sh AND E0ESC \<noteq> 0 then (data OR 0x80, sh AND NOT E0ESC) else (data, sh));
            sh = sh OR ucast (shiftcode (unat data));
            sh = sh XOR ucast (togglecode (unat data));
            c = charcode (sh AND (CTL OR SHIFT)) (unat data)
        in (uint (if sh AND CAPSLOCK \<noteq> 0 then swapcase c else c), sh))"

definition kbdgetc :: "('z tst_scheme, int) kfun" where
  "kbdgetc =
     bindM (getM kbd_in) (\<lambda>q. case q of
       [] \<Rightarrow> retM (-1)
     | data # rest \<Rightarrow>
         bindM (getM kbd_shift) (\<lambda>sh.
         thenM (modM (\<lambda>s. s\<lparr>kbd_in := rest, kbd_shift := snd (kbd_code sh data)\<rparr>))
         (retM (fst (kbd_code sh data)))))"

definition uartgetc :: "('z tst_scheme, int) kfun" where
  "uartgetc =
     bindM (getM uart) (\<lambda>u.
     if \<not> u then retM (-1)
     else bindM (getM uart_in) (\<lambda>q. case q of
       [] \<Rightarrow> retM (-1)
     | c # rest \<Rightarrow> thenM (modM (\<lambda>s. s\<lparr>uart_in := rest\<rparr>)) (retM (uint c))))"

text \<open>
  The results of the calls \<open>getc()\<close> that consoleintr() makes, the last one
  negative.  As every call takes a byte, \<open>n\<close> calls are enough for \<open>n\<close> bytes
  waiting, and one more finds none.
\<close>

fun getc_all :: "('s, int) kfun \<Rightarrow> nat \<Rightarrow> ('s, int list) kfun" where
  "getc_all getc 0 = spinM"
| "getc_all getc (Suc n) =
     bindM getc (\<lambda>c. if c < 0 then retM [c] else bindM (getc_all getc n) (\<lambda>cs. retM (c # cs)))"

definition kbdintr :: "('z tst_scheme, unit) kfun" where
  "kbdintr =
     bindM (getM (\<lambda>s. length (kbd_in s))) (\<lambda>n.
     bindM (getc_all kbdgetc (Suc n)) (\<lambda>keys.
     thenM (consoleintr keys) skipM))"

definition uartintr :: "('z tst_scheme, unit) kfun" where
  "uartintr =
     bindM (getM (\<lambda>s. length (uart_in s))) (\<lambda>n.
     bindM (getc_all uartgetc (Suc n)) (\<lambda>keys.
     thenM (consoleintr keys) skipM))"

end
