(* ===== verification/Diag.thy ===== *)
theory Diag
  imports Kbd Segment
begin

text \<open>
  What the kernel prints about itself: panic() of console.c, procdump() of
  proc.c, and uartinit() of uart.c, which announces the kernel.
\<close>

section \<open>panic() and procdump()\<close>

text \<open>
  What panic() does before it loops forever; \<open>v\<close> is the address of its
  argument on the stack and \<open>cpu\<close> the id of the local APIC.
\<close>

definition panic_print :: "u32 \<Rightarrow> u32 \<Rightarrow> bytes \<Rightarrow> ('z cst_scheme, unit) kfun" where
  "panic_print cpu v msg =
     thenM (modM (\<lambda>s. s\<lparr>cons_locking := False\<rparr>))
     (thenM (cprintf (Some (cbytes ''lapicid %d: panic: '')) [Cint cpu])
     (thenM (cprintf (Some msg) [])
     (thenM (cprintf (Some [0x0A]) [])
     (bindM (getM (\<lambda>s. getcallerpcs (mem s) v)) (\<lambda>pcs.
     thenM (foreachM pcs (\<lambda>pc. cprintf (Some (cbytes '' %p'')) [Cint pc]))
     (modM (\<lambda>s. s\<lparr>panicked := True\<rparr>)))))))"

definition dump_state :: "procstate \<Rightarrow> bytes" where
  "dump_state st = cbytes (case st of UNUSED \<Rightarrow> ''unused'' | EMBRYO \<Rightarrow> ''embryo'' | SLEEPING \<Rightarrow> ''sleep '' | RUNNABLE \<Rightarrow> ''runble''
     | RUNNING \<Rightarrow> ''run   '' | ZOMBIE \<Rightarrow> ''zombie'')"

text \<open>\<open>ebp i\<close> is the saved frame pointer in the context of process \<open>i\<close>.\<close>

definition procdump_turn :: "(nat \<Rightarrow> u32) \<Rightarrow> nat \<Rightarrow> ('z cst_scheme, unit) kfun" where
  "procdump_turn ebp i =
     bindM (getM (\<lambda>s. procs s ! i)) (\<lambda>p.
     if pstate p = UNUSED then skipM
     else thenM (cprintf (Some (cbytes ''%d %s %s'')) [Cint (of_int (pid p)), Cstr (Some (dump_state (pstate p))), Cstr (Some (cname 16 (pname p)))])
       (thenM (whenM (pstate p = SLEEPING)
                (bindM (getM (\<lambda>s. getcallerpcs (mem s) (ebp i + 8))) (\<lambda>pc.
                 foreachM (takeWhile (\<lambda>x. x \<noteq> 0) pc) (\<lambda>x. cprintf (Some (cbytes '' %p'')) [Cint x]))))
       (cprintf (Some [0x0A]) [])))"

definition procdump :: "(nat \<Rightarrow> u32) \<Rightarrow> ('z cst_scheme, unit) kfun" where
  "procdump ebp = foreachM [0..<NPROC] (procdump_turn ebp)"

section \<open>uartinit()\<close>

text \<open>
  \<open>com_out\<close> records the writes to the ports of the serial line, \<open>com_lsr\<close> is
  what its status port delivers, \<open>irq_on\<close> the calls of ioapicenable().
\<close>

record comst = tst +
  com_out :: "(u16 \<times> u8) list"
  com_lsr :: u8
  irq_on :: "(nat \<times> u32) list"

definition com_outb :: "u16 \<Rightarrow> u8 \<Rightarrow> ('z comst_scheme, unit) kfun" where
  "com_outb port v = modM (\<lambda>s. s\<lparr>com_out := com_out s @ [(port, v)]\<rparr>)"

definition uartinit :: "('z comst_scheme, unit) kfun" where
  "uartinit =
     thenM (com_outb (0x3f8 + 2) 0)
     (thenM (com_outb (0x3f8 + 3) 0x80)
     (thenM (com_outb (0x3f8 + 0) (115200 div 9600))
     (thenM (com_outb (0x3f8 + 1) 0)
     (thenM (com_outb (0x3f8 + 3) 0x03)
     (thenM (com_outb (0x3f8 + 4) 0)
     (thenM (com_outb (0x3f8 + 1) 0x01)
     (bindM (getM com_lsr) (\<lambda>st.
     if st = 0xFF then skipM
     else thenM (modM (\<lambda>s. s\<lparr>uart := True\<rparr>))
       (thenM (modM (\<lambda>s. s\<lparr>uart_in := tl (uart_in s)\<rparr>))
       (thenM (modM (\<lambda>s. s\<lparr>irq_on := irq_on s @ [(4, 0)]\<rparr>))
       (foreachM (cbytes ''xv6...'' @ [0x0A]) (\<lambda>c. uartputc (uint c)))))))))))))"

section \<open>Printing changes nothing else\<close>

text \<open>The arguments fit the format.\<close>

fun fmt_ok :: "bytes \<Rightarrow> carg list \<Rightarrow> bool" where
  "fmt_ok [] as \<longleftrightarrow> True"
| "fmt_ok [c] as \<longleftrightarrow> True"
| "fmt_ok (c # d # fmt) as \<longleftrightarrow>
     (if c \<noteq> 0x25 then fmt_ok (d # fmt) as
      else if d = 0x64 \<or> d = 0x78 \<or> d = 0x70 then (case as of Cint x # r \<Rightarrow> fmt_ok fmt r | _ \<Rightarrow> False)
      else if d = 0x73 then (case as of Cstr x # r \<Rightarrow> fmt_ok fmt r | _ \<Rightarrow> False)
      else fmt_ok fmt as)"

text \<open>
  \<open>prints lk m\<close>: on a working console \<open>m\<close> returns, having changed the screen and
  the serial line only; with \<open>lk\<close> it may take the console's lock for that.
\<close>

definition prints :: "bool \<Rightarrow> ('z cst_scheme, unit) kfun \<Rightarrow> bool" where
  "prints lk m \<longleftrightarrow> (\<forall>s. crt_ok s \<and> (lk \<longrightarrow> L_cons \<notin> set (held s)) \<longrightarrow> (\<exists>t. m s = Ok () t \<and> crt_ok t \<and> out_only s t))"

lemma prints_skip: "prints lk skipM"
  by (auto simp: prints_def kcode out_only_refl)

lemma prints_consputc: "prints False (consputc c)"
  unfolding prints_def using consputc_ok by blast

lemma prints_then:
  assumes "prints lk a" "prints lk b"
  shows "prints lk (thenM a b)"
  unfolding prints_def
proof (intro allI impI)
  fix s :: "'a cst_scheme" assume s: "crt_ok s \<and> (lk \<longrightarrow> L_cons \<notin> set (held s))"
  then obtain t where t: "a s = Ok () t" "crt_ok t" "out_only s t" using assms(1) by (auto simp: prints_def)
  then obtain u where "b t = Ok () u" "crt_ok u" "out_only t u" using assms(2) s out_onlyD(5) [OF t(3)] by (auto simp: prints_def)
  then show "\<exists>u. thenM a b s = Ok () u \<and> crt_ok u \<and> out_only s u" using t out_only_trans by (auto simp: kcode)
qed

lemma prints_foreach: "(\<And>x. prints lk (f x)) \<Longrightarrow> prints lk (foreachM xs f)"
  by (induction xs) (simp_all add: prints_skip prints_then)

lemma prints_bind_get: "(\<And>x. prints lk (f x)) \<Longrightarrow> prints lk (bindM (getM g) f)"
  by (auto simp: prints_def kcode)

lemma prints_printint: "prints False (printint x b sg)"
  unfolding printint_def by (rule prints_foreach) (rule prints_consputc)

lemma prints_cprintf_loop: "fmt_ok f as \<Longrightarrow> prints False (cprintf_loop f as)"
  by (induction f as rule: fmt_ok.induct)
     (auto simp: prints_skip next_int_def next_str_def split: list.splits carg.splits option.splits if_splits
        intro!: prints_then prints_consputc prints_printint prints_foreach)

lemma prints_cprintf:
  assumes "fmt_ok f as"
  shows "prints True (cprintf (Some f) as)"
  unfolding prints_def
proof (intro allI impI)
  fix s :: "'a cst_scheme" assume s: "crt_ok s \<and> (True \<longrightarrow> L_cons \<notin> set (held s))"
  let ?s = "if cons_locking s then s\<lparr>held := L_cons # held s\<rparr> else s"
  have "crt_ok ?s" using s by (simp add: crt_ok_def)
  then obtain t where t: "cprintf_loop f as ?s = Ok () t" "crt_ok t" "out_only ?s t" using prints_cprintf_loop [OF assms] by (auto simp: prints_def)
  let ?t = "if cons_locking s then t\<lparr>held := held s\<rparr> else t"
  have "held t = held ?s" by (rule out_onlyD(5) [OF t(3)])
  then have "cprintf (Some f) as s = Ok () ?t" using s t(1) by (auto simp: cprintf_def kcode)
  moreover have "crt_ok ?t" using t(2) by (simp add: crt_ok_def)
  moreover obtain a b c where "t = ?s\<lparr>crt := a, crtpos := b, uart_out := c\<rparr>" using t(3) by (auto simp: out_only_def)
  then have "?t = s\<lparr>crt := a, crtpos := b, uart_out := c\<rparr>" by auto
  then have "out_only s ?t" by (simp only: out_onlyI(1))
  ultimately show "\<exists>t. cprintf (Some f) as s = Ok () t \<and> crt_ok t \<and> out_only s t" by blast
qed

section \<open>Properties\<close>

text \<open>procdump() only prints, whatever state the process table is in.\<close>

lemma prints_procdump: "prints True (procdump ebp)"
  unfolding procdump_def
proof (rule prints_foreach)
  fix i
  have a: "prints True (cprintf (Some (cbytes '' %p'')) [Cint x])" for x by (rule prints_cprintf) (simp add: cbytes_def)
  have b: "prints True (cprintf (Some [0x0A]) [])" by (rule prints_cprintf) simp
  have c: "prints True (cprintf (Some (cbytes ''%d %s %s'')) [Cint x, Cstr y, Cstr z])" for x y z by (rule prints_cprintf) (simp add: cbytes_def)
  have d: "prints True (whenM q m)" if "prints True m" for q m using that by (simp add: whenM_def prints_skip)
  show "prints True (procdump_turn ebp i)" unfolding procdump_turn_def
    by (rule prints_bind_get) (simp add: prints_skip prints_then prints_foreach prints_bind_get a b c d)
qed

text \<open>
  After panic() has printed, every further output of any processor waits
  forever.
\<close>

lemma panic_freezes:
  fixes s :: "'z cst_scheme"
  assumes "crt_ok s" "fmt_ok msg []" "L_cons \<notin> set (held s)"
  shows "\<exists>t. panic_print cpu v msg s = Ok () t \<and> panicked t \<and> procs t = procs s \<and> (\<forall>c. consputc c t = Spin)"
proof -
  have a: "prints True (cprintf (Some (cbytes '' %p'')) [Cint x])" "prints True (cprintf (Some (cbytes ''lapicid %d: panic: '')) [Cint cpu])" for x
    by (rule prints_cprintf; simp add: cbytes_def)+
  have b: "prints True (cprintf (Some [0x0A]) [])" "prints True (cprintf (Some msg) [])" by (rule prints_cprintf; simp add: assms(2))+
  let ?m = "thenM (cprintf (Some (cbytes ''lapicid %d: panic: '')) [Cint cpu]) (thenM (cprintf (Some msg) []) (thenM (cprintf (Some [0x0A]) [])
     (bindM (getM (\<lambda>s. getcallerpcs (mem s) v)) (\<lambda>pcs. foreachM pcs (\<lambda>pc. cprintf (Some (cbytes '' %p'')) [Cint pc])))))"
  have "prints True ?m" by (intro prints_then prints_bind_get prints_foreach a b)
  moreover have "crt_ok (s\<lparr>cons_locking := False\<rparr>)" using assms(1) by (simp add: crt_ok_def)
  ultimately obtain t where t: "?m (s\<lparr>cons_locking := False\<rparr>) = Ok () t" "out_only (s\<lparr>cons_locking := False\<rparr>) t"
    using assms(3) unfolding prints_def by force
  have "panic_print cpu v msg s = Ok () (t\<lparr>panicked := True\<rparr>)"
    using t(1) by (auto simp: panic_print_def kcode split: outcome.splits)
  moreover have "procs t = procs s" using t(2) by (auto simp: out_only_def)
  ultimately show ?thesis by (auto simp: consputc_def kcode)
qed

text \<open>uartinit() turns the serial line on, and announces the kernel on it, exactly if there is one.\<close>

lemma uartinit_spec:
  fixes s :: "'z comst_scheme"
  shows "\<exists>t. uartinit s = Ok () t \<and> (if com_lsr s = 0xFF then uart t = uart s \<and> uart_out t = uart_out s
    else uart t \<and> uart_out t = rev (cbytes ''xv6...'' @ [0x0A]) @ uart_out s \<and> irq_on t = irq_on s @ [(4, 0)])"
proof -
  have out: "foreachM cs (\<lambda>c. uartputc (uint c)) u = Ok () (u\<lparr>uart_out := rev cs @ uart_out u\<rparr>)" if "uart u" for cs and u :: "'z comst_scheme"
    using that by (induction cs arbitrary: u) (simp_all add: uartputc_def kcode)
  show ?thesis by (simp add: uartinit_def com_outb_def thenM_apply bindM_apply modM_apply getM_apply skipM_apply out)
qed

end
