(* ===== verification/Sh.thy ===== *)
theory Sh
  imports Xv6_Prelude
begin

text \<open>
  sh.c, the shell's parser: the tokeniser, the recursive descent parser for
  command lines and the NUL-termination of the words it found.

  The line is the list of its bytes before the terminating NUL, and the state
  of the parser is the position \<open>*ps\<close> in it; \<open>es\<close> is the line's length.  A
  panic() of the shell prints its message and exits: the \<open>Panic\<close> outcome.
\<close>

section \<open>Commands\<close>

text \<open>
  struct cmd and its variants.  The words of a command are pairs of pointers
  into the line, \<open>argv[i]\<close> and \<open>eargv[i]\<close> or \<open>file\<close> and \<open>efile\<close>; the type is
  generic in them so that the same tree can also hold the words themselves.
  The argument array of EXEC is the list of its entries before the null entry.
\<close>

datatype 'a cmd =
    EXEC "'a list"
  | REDIR "'a cmd" 'a int int
  | PIPE "'a cmd" "'a cmd"
  | LIST "'a cmd" "'a cmd"
  | BACK "'a cmd"

type_synonym span = "nat \<times> nat"

abbreviation (input) MAXARGS :: nat where "MAXARGS \<equiv> 10"
abbreviation (input) O_RDONLY :: int where "O_RDONLY \<equiv> 0"
abbreviation (input) O_WRONLY_CREATE :: int where "O_WRONLY_CREATE \<equiv> 0x201"

section \<open>The tokeniser\<close>

text \<open>ulib.c, strchr(): the index of the first occurrence.\<close>

fun strchr :: "bytes \<Rightarrow> u8 \<Rightarrow> nat option" where
  "strchr [] c = None"
| "strchr (x # s) c = (if x = c then Some 0 else map_option Suc (strchr s c))"

definition whitespace :: bytes where "whitespace = [32, 9, 13, 10, 11]"
definition symbols :: bytes where "symbols = cbytes ''<|>&;()''"

text \<open>The byte at a position of the line, which ends with a NUL.\<close>

definition byte_at :: "bytes \<Rightarrow> nat \<Rightarrow> u8" where
  "byte_at b s = (if s < length b then b ! s else 0)"

text \<open>\<open>while(s < es && P(*s)) s++;\<close>\<close>

function skip_while :: "(u8 \<Rightarrow> bool) \<Rightarrow> bytes \<Rightarrow> nat \<Rightarrow> nat" where
  "skip_while P b s = (if s < length b \<and> P (b ! s) then skip_while P b (s + 1) else s)"
  by auto
termination by (relation "measure (\<lambda>(P, b, s). length b - s)") auto

declare skip_while.simps [simp del]

definition is_ws :: "u8 \<Rightarrow> bool" where "is_ws c \<longleftrightarrow> strchr whitespace c \<noteq> None"
definition is_word :: "u8 \<Rightarrow> bool" where "is_word c \<longleftrightarrow> strchr whitespace c = None \<and> strchr symbols c = None"

text \<open>gettoken(): the token, and the start and the end of its text.\<close>

definition gettoken :: "bytes \<Rightarrow> (nat, u8 \<times> nat \<times> nat) kfun" where
  "gettoken b = (\<lambda>ps.
     let s = skip_while is_ws b ps;
         q = s;
         c = byte_at b s;
         (ret, s) =
           (if c = 0 then (c, s)
            else if c \<in> set (cbytes ''|();&<'') then (c, s + 1)
            else if c = of_char CHR ''>'' then
              (if byte_at b (s + 1) = of_char CHR ''>'' then (of_char CHR ''+'', s + 2) else (c, s + 1))
            else (of_char CHR ''a'', skip_while is_word b s))
     in Ok (ret, q, s) (skip_while is_ws b s))"

definition peek :: "bytes \<Rightarrow> bytes \<Rightarrow> (nat, bool) kfun" where
  "peek b toks = (\<lambda>ps.
     let s = skip_while is_ws b ps
     in Ok (byte_at b s \<noteq> 0 \<and> strchr toks (byte_at b s) \<noteq> None) s)"

section \<open>The parser\<close>

text \<open>
  parseredirs().  Every round of a loop consumes a token, so that one more
  round than there are bytes in the line is enough; \<open>parseline_ends\<close> below
  proves it.
\<close>

definition redir_tok :: "u8 \<Rightarrow> 'a cmd \<Rightarrow> 'a \<Rightarrow> 'a cmd" where
  "redir_tok tok cmd w =
     (if tok = of_char CHR ''<'' then REDIR cmd w O_RDONLY 0
      else if tok = of_char CHR ''>'' then REDIR cmd w O_WRONLY_CREATE 1
      else if tok = of_char CHR ''+'' then REDIR cmd w O_WRONLY_CREATE 1
      else cmd)"

fun parseredirs :: "nat \<Rightarrow> bytes \<Rightarrow> span cmd \<Rightarrow> (nat, span cmd) kfun" where
  "parseredirs 0 b cmd = spinM"
| "parseredirs (Suc n) b cmd =
     bindM (peek b (cbytes ''<>'')) (\<lambda>more.
     if more then
       bindM (gettoken b) (\<lambda>(tok, _).
       bindM (gettoken b) (\<lambda>(t, w).
       if t \<noteq> of_char CHR ''a'' then panicM ''missing file for redirection''
       else parseredirs n b (redir_tok tok cmd w)))
     else retM cmd)"

text \<open>
  parseexec() keeps a pointer to the EXEC node at the bottom of the
  redirections it has put around it, and adds the arguments there.
\<close>

fun add_arg :: "'a \<Rightarrow> 'a cmd \<Rightarrow> 'a cmd" where
  "add_arg w (EXEC ws) = EXEC (ws @ [w])"
| "add_arg w (REDIR c f m fd) = REDIR (add_arg w c) f m fd"
| "add_arg w c = c"

function parse_args :: "nat \<Rightarrow> bytes \<Rightarrow> span cmd \<Rightarrow> (nat, span cmd) kfun" where
  "parse_args argc b ret =
     bindM (peek b (cbytes ''|)&;'')) (\<lambda>stop.
     if stop then retM ret
     else
       bindM (gettoken b) (\<lambda>(tok, w).
       if tok = 0 then retM ret
       else if tok \<noteq> of_char CHR ''a'' then panicM ''syntax''
       else if argc + 1 \<ge> MAXARGS then panicM ''too many args''
       else bindM (parseredirs (Suc (length b)) b (add_arg w ret)) (parse_args (argc + 1) b)))"
  by auto
termination by (relation "measure (\<lambda>(argc, b, ret). MAXARGS - argc)") auto

declare parse_args.simps [simp del]

fun parse_backs :: "nat \<Rightarrow> bytes \<Rightarrow> span cmd \<Rightarrow> (nat, span cmd) kfun" where
  "parse_backs 0 b cmd = spinM"
| "parse_backs (Suc n) b cmd =
     bindM (peek b (cbytes ''&'')) (\<lambda>more.
     if more then bindM (gettoken b) (\<lambda>_. parse_backs n b (BACK cmd)) else retM cmd)"

text \<open>The four parsers call each other; the fuel bounds the depth of the calls.\<close>

fun parseline :: "nat \<Rightarrow> bytes \<Rightarrow> (nat, span cmd) kfun"
and parsepipe :: "nat \<Rightarrow> bytes \<Rightarrow> (nat, span cmd) kfun"
and parseexec :: "nat \<Rightarrow> bytes \<Rightarrow> (nat, span cmd) kfun"
and parseblock :: "nat \<Rightarrow> bytes \<Rightarrow> (nat, span cmd) kfun" where
  "parseline 0 b = spinM"
| "parseline (Suc f) b =
     bindM (parsepipe f b) (\<lambda>cmd.
     bindM (parse_backs (Suc (length b)) b cmd) (\<lambda>cmd.
     bindM (peek b (cbytes '';'')) (\<lambda>more.
     if more then
       bindM (gettoken b) (\<lambda>_.
       bindM (parseline f b) (\<lambda>r.
       retM (LIST cmd r)))
     else retM cmd)))"
| "parsepipe 0 b = spinM"
| "parsepipe (Suc f) b =
     bindM (parseexec f b) (\<lambda>cmd.
     bindM (peek b (cbytes ''|'')) (\<lambda>more.
     if more then
       bindM (gettoken b) (\<lambda>_.
       bindM (parsepipe f b) (\<lambda>r.
       retM (PIPE cmd r)))
     else retM cmd))"
| "parseexec 0 b = spinM"
| "parseexec (Suc f) b =
     bindM (peek b (cbytes ''('')) (\<lambda>block.
     if block then parseblock f b
     else
       bindM (parseredirs (Suc (length b)) b (EXEC [])) (parse_args 0 b))"
| "parseblock 0 b = spinM"
| "parseblock (Suc f) b =
     bindM (peek b (cbytes ''('')) (\<lambda>opn.
     if \<not> opn then panicM ''parseblock''
     else
       bindM (gettoken b) (\<lambda>_.
       bindM (parseline f b) (\<lambda>cmd.
       bindM (peek b (cbytes '')'')) (\<lambda>cls.
       if \<not> cls then panicM ''syntax - missing )''
       else
         bindM (gettoken b) (\<lambda>_.
         parseredirs (Suc (length b)) b cmd)))))"

text \<open>nulterminate() writes a NUL behind every word, into the line with its own NUL.\<close>

fun nulterminate :: "span cmd \<Rightarrow> bytes \<Rightarrow> bytes" where
  "nulterminate (EXEC ws) m = foldl (\<lambda>m w. m[snd w := 0]) m ws"
| "nulterminate (REDIR c w md fd) m = (nulterminate c m)[snd w := 0]"
| "nulterminate (PIPE l r) m = nulterminate r (nulterminate l m)"
| "nulterminate (LIST l r) m = nulterminate r (nulterminate l m)"
| "nulterminate (BACK c) m = nulterminate c m"

definition parsecmd :: "bytes \<Rightarrow> (nat, span cmd \<times> bytes) kfun" where
  "parsecmd b =
     bindM (parseline (4 * length b + 4) b) (\<lambda>cmd.
     bindM (peek b []) (\<lambda>_.
     bindM (getM (\<lambda>s. s)) (\<lambda>s.
     if s \<noteq> length b then panicM ''syntax''
     else retM (cmd, nulterminate cmd (b @ [0])))))"

section \<open>Every line is parsed in finite time, into words of the line\<close>

lemma strchr_None [simp]: "strchr s c = None \<longleftrightarrow> c \<notin> set s"
  by (induction s) auto

lemma is_word_iff: "is_word c \<longleftrightarrow> \<not> is_ws c \<and> c \<notin> set (cbytes ''|();&<'') \<and> c \<noteq> of_char CHR ''>''"
  by (auto simp: is_word_def is_ws_def symbols_def cbytes_def)

lemma skip_while_bounds: "s \<le> length b \<Longrightarrow> s \<le> skip_while P b s \<and> skip_while P b s \<le> length b"
proof (induction P b s rule: skip_while.induct)
  case (1 P b s)
  then show ?case by (subst (1 2) skip_while.simps) auto
qed

lemma skip_while_stop: "skip_while P b s < length b \<Longrightarrow> \<not> P (b ! skip_while P b s)"
proof (induction P b s rule: skip_while.induct)
  case (1 P b s)
  then show ?case by (cases "s < length b \<and> P (b ! s)") (simp_all add: skip_while.simps [of P b s] split: if_splits)
qed

lemma skip_while_all: "s \<le> i \<Longrightarrow> i < skip_while P b s \<Longrightarrow> P (b ! i)"
proof (induction P b s rule: skip_while.induct)
  case (1 P b s)
  have "P (b ! s) \<and> s < length b" by (rule ccontr) (use 1(2,3) in \<open>auto simp: skip_while.simps [of P b s]\<close>)
  then show ?case using 1 by (cases "s = i") (auto simp: skip_while.simps [of P b s])
qed

lemma skip_while_first: "s < length b \<Longrightarrow> P (b ! s) \<Longrightarrow> s < skip_while P b s"
  using skip_while_bounds [of "s + 1" b P] by (simp add: skip_while.simps [of P b s])

lemma skip_while_idem [simp]: "skip_while P b (skip_while P b s) = skip_while P b s"
  using skip_while_stop [of P b s] by (subst skip_while.simps) auto

text \<open>A span is a word of the line: non-empty, of word characters, and as long as possible.\<close>

definition word_at :: "bytes \<Rightarrow> span \<Rightarrow> bool" where
  "word_at b w \<longleftrightarrow> fst w < snd w \<and> snd w \<le> length b \<and> (\<forall>i. fst w \<le> i \<longrightarrow> i < snd w \<longrightarrow> is_word (b ! i))
     \<and> (snd w < length b \<longrightarrow> \<not> is_word (b ! snd w))"

definition advances :: "bytes \<Rightarrow> ('a \<Rightarrow> bool) \<Rightarrow> nat \<Rightarrow> ('a, nat) outcome \<Rightarrow> bool" where
  "advances b Q s r \<longleftrightarrow> (case r of Ok c t \<Rightarrow> s \<le> t \<and> t \<le> length b \<and> Q c | Panic _ \<Rightarrow> True | _ \<Rightarrow> False)"

lemma advances_simps [simp]:
  "advances b Q s (Ok c t) \<longleftrightarrow> s \<le> t \<and> t \<le> length b \<and> Q c" "advances b Q s (Panic msg)"
  "\<not> advances b Q s (Fault msg)" "\<not> advances b Q s (Swtch t)" "\<not> advances b Q s Spin"
  by (simp_all add: advances_def)

lemma advances_mono: "advances b Q t r \<Longrightarrow> s \<le> t \<Longrightarrow> advances b Q s r"
  by (cases r) auto

lemma advances_bind:
  assumes "advances b R s (m s)"
    and "\<And>c t. m s = Ok c t \<Longrightarrow> s \<le> t \<Longrightarrow> t \<le> length b \<Longrightarrow> R c \<Longrightarrow> advances b Q t (f c t)"
  shows "advances b Q s (bindM m f s)"
  using assms by (cases "m s") (auto simp: kcode intro: advances_mono)

text \<open>peek() stops at the next byte that is not white space; a token that was peeked at moves the position.\<close>

lemma peek_eq:
  "peek b toks s = Ok (byte_at b (skip_while is_ws b s) \<noteq> 0 \<and> byte_at b (skip_while is_ws b s) \<in> set toks) (skip_while is_ws b s)"
  by (auto simp: peek_def Let_def)

lemma gettoken_ok:
  assumes s: "s \<le> length b"
  obtains tok w t where "gettoken b s = Ok (tok, w) t" "s \<le> t" "t \<le> length b"
    "byte_at b (skip_while is_ws b s) \<noteq> 0 \<longrightarrow> s < t" "tok = of_char CHR ''a'' \<longrightarrow> word_at b w"
    "tok = 0 \<longleftrightarrow> byte_at b (skip_while is_ws b s) = 0"
proof -
  let ?s = "skip_while is_ws b s"
  let ?c = "byte_at b ?s"
  have b1: "s \<le> ?s" "?s \<le> length b" using skip_while_bounds [OF s, of is_ws] by auto
  have lt: "?s < length b" if "?c \<noteq> 0" using that by (auto simp: byte_at_def split: if_splits)
  consider (nul) "?c = 0" | (sym) "?c \<noteq> 0" "?c \<in> set (cbytes ''|();&<'')"
    | (gt) "?c \<noteq> 0" "?c \<notin> set (cbytes ''|();&<'')" "?c = of_char CHR ''>''"
    | (word) "?c \<noteq> 0" "?c \<notin> set (cbytes ''|();&<'')" "?c \<noteq> of_char CHR ''>''" by blast
  then show ?thesis
  proof cases
    case nul
    then show ?thesis using b1 by (intro that [of 0 "(?s, ?s)" ?s]) (auto simp: gettoken_def Let_def)
  next
    case sym
    let ?t = "skip_while is_ws b (?s + 1)"
    have "?s + 1 \<le> ?t" "?t \<le> length b" using skip_while_bounds [of "?s + 1" b is_ws] lt [OF sym(1)] by auto
    moreover have "?c \<noteq> of_char CHR ''a''" using sym(2) by (auto simp: cbytes_def)
    ultimately show ?thesis
      using b1 sym by (intro that [of ?c "(?s, ?s + 1)" ?t]) (auto simp: gettoken_def Let_def)
  next
    case gt
    let ?e = "if byte_at b (?s + 1) = of_char CHR ''>'' then ?s + 2 else ?s + 1"
    let ?r = "if byte_at b (?s + 1) = of_char CHR ''>'' then of_char CHR ''+'' else ?c"
    let ?t = "skip_while is_ws b ?e"
    have "?e \<le> length b" using lt [OF gt(1)] by (auto simp: byte_at_def split: if_splits)
    then have "?e \<le> ?t" "?t \<le> length b" "?s < ?e" using skip_while_bounds [of ?e b is_ws] by auto
    moreover have "gettoken b s = Ok (?r, ?s, ?e) ?t" using gt by (simp add: gettoken_def Let_def)
    ultimately show ?thesis using b1 gt by (intro that [of ?r "(?s, ?e)" ?t]) auto
  next
    case word
    let ?e = "skip_while is_word b ?s"
    let ?t = "skip_while is_ws b ?e"
    have ws: "\<not> is_ws (b ! ?s)" using skip_while_stop lt [OF word(1)] by blast
    have c: "?c = b ! ?s" using lt [OF word(1)] by (simp add: byte_at_def)
    then have "is_word (b ! ?s)" using ws word by (simp add: is_word_iff)
    then have e: "?s < ?e" "?e \<le> length b"
      using skip_while_first lt [OF word(1)] skip_while_bounds [OF b1(2)] by auto
    then have "?e \<le> ?t" "?t \<le> length b" using skip_while_bounds [of ?e b is_ws] by auto
    moreover have "word_at b (?s, ?e)" using e skip_while_all [of ?s _ is_word b] skip_while_stop [of is_word b ?s] by (auto simp: word_at_def)
    moreover have "gettoken b s = Ok (of_char CHR ''a'', ?s, ?e) ?t" using word by (simp add: gettoken_def Let_def)
    ultimately show ?thesis using b1 e word(1) by (intro that [of "of_char CHR ''a''" "(?s, ?e)" ?t]) auto
  qed
qed

abbreviation (input) words_ok :: "bytes \<Rightarrow> span cmd \<Rightarrow> bool" where
  "words_ok b c \<equiv> \<forall>w \<in> set_cmd c. word_at b w"

lemma set_redir_tok: "set_cmd (redir_tok tok c w) \<subseteq> insert w (set_cmd c)"
  by (auto simp: redir_tok_def)

lemma set_add_arg: "set_cmd (add_arg w c) \<subseteq> insert w (set_cmd c)"
  by (induction w c rule: add_arg.induct) auto

text \<open>A test for a token, followed by the token when it is there, or by something else.\<close>

lemma advances_peek:
  assumes s: "s \<le> length b"
    and yes: "\<And>t tok w u. s \<le> t \<Longrightarrow> t < u \<Longrightarrow> u \<le> length b \<Longrightarrow> gettoken b t = Ok (tok, w) u \<Longrightarrow> advances b Q t (f True t)"
    and no: "\<And>t. s \<le> t \<Longrightarrow> t \<le> length b \<Longrightarrow> advances b Q t (f False t)"
  shows "advances b Q s (bindM (peek b toks) f s)"
proof -
  let ?t = "skip_while is_ws b s"
  have t: "s \<le> ?t" "?t \<le> length b" using skip_while_bounds [OF s] by auto
  show ?thesis
  proof (cases "byte_at b ?t \<noteq> 0 \<and> byte_at b ?t \<in> set toks")
    case True
    obtain tok w u where "gettoken b ?t = Ok (tok, w) u" "?t < u" "u \<le> length b"
      by (rule gettoken_ok [OF t(2)]) (use True in auto)
    then have "advances b Q ?t (f True ?t)" using yes [OF t(1)] by blast
    moreover have "peek b toks s = Ok True ?t" unfolding peek_eq using True by simp
    ultimately show ?thesis using t(1) by (simp add: kcode advances_mono)
  next
    case False
    then have "peek b toks s = Ok False ?t" unfolding peek_eq by simp
    then show ?thesis using no [OF t] t(1) by (simp add: kcode advances_mono)
  qed
qed

lemma parseredirs_ends:
  "s \<le> length b \<Longrightarrow> length b - s < n \<Longrightarrow> words_ok b c \<Longrightarrow> advances b (words_ok b) s (parseredirs n b c s)"
proof (induction n arbitrary: c s)
  case (Suc n)
  show ?case unfolding parseredirs.simps
  proof (rule advances_peek [OF Suc.prems(1)])
    fix t tok w u assume t: "s \<le> t" "t < u" "u \<le> length b" "gettoken b t = Ok (tok, w) u"
    obtain tok' w' v where v: "gettoken b u = Ok (tok', w') v" "u \<le> v" "v \<le> length b" "tok' = of_char CHR ''a'' \<longrightarrow> word_at b w'"
      by (rule gettoken_ok [OF t(3)]) blast
    have "advances b (words_ok b) v (parseredirs n b (redir_tok tok c w') v)" if "tok' = of_char CHR ''a''"
      using Suc.prems t v that set_redir_tok [of tok c w'] by (intro Suc.IH) auto
    then show "advances b (words_ok b) t ((if True then bindM (gettoken b) (\<lambda>(tok, _). bindM (gettoken b) (\<lambda>(t, w).
       if t \<noteq> of_char CHR ''a'' then panicM ''missing file for redirection''
       else parseredirs n b (redir_tok tok c w))) else retM c) t)"
      using t v by (auto simp: kcode intro: advances_mono)
  qed (use Suc.prems in \<open>simp add: kcode\<close>)
qed simp

lemma parse_args_ends:
  "s \<le> length b \<Longrightarrow> words_ok b c \<Longrightarrow> advances b (words_ok b) s (parse_args argc b c s)"
proof (induction "MAXARGS - argc" arbitrary: argc c s rule: less_induct)
  case less
  show ?case unfolding parse_args.simps [of argc b c]
  proof (rule advances_peek [OF less.prems(1)])
    fix t assume t: "s \<le> t" "t \<le> length b"
    obtain tok w u where u: "gettoken b t = Ok (tok, w) u" "t \<le> u" "u \<le> length b" "tok = of_char CHR ''a'' \<longrightarrow> word_at b w"
      by (rule gettoken_ok [OF t(2)]) blast
    have "advances b (words_ok b) u (bindM (parseredirs (Suc (length b)) b (add_arg w c)) (parse_args (argc + 1) b) u)"
      if "tok = of_char CHR ''a''" "\<not> argc + 1 \<ge> MAXARGS" "tok \<noteq> 0"
    proof (rule advances_bind)
      show "advances b (words_ok b) u (parseredirs (Suc (length b)) b (add_arg w c) u)"
        using less.prems(2) u that(1) set_add_arg [of w c] by (intro parseredirs_ends) auto
    qed (use that in \<open>auto intro!: less.hyps\<close>)
    then show "advances b (words_ok b) t ((if False then retM c else bindM (gettoken b) (\<lambda>(tok, w).
       if tok = 0 then retM c else if tok \<noteq> of_char CHR ''a'' then panicM ''syntax''
       else if argc + 1 \<ge> MAXARGS then panicM ''too many args''
       else bindM (parseredirs (Suc (length b)) b (add_arg w c)) (parse_args (argc + 1) b))) t)"
      using u less.prems(2) by (auto simp: kcode intro: advances_mono)
  qed (use less.prems(2) in \<open>simp add: kcode\<close>)
qed

lemma parse_backs_ends:
  "s \<le> length b \<Longrightarrow> length b - s < n \<Longrightarrow> words_ok b c \<Longrightarrow> advances b (words_ok b) s (parse_backs n b c s)"
proof (induction n arbitrary: c s)
  case (Suc n)
  show ?case unfolding parse_backs.simps
  proof (rule advances_peek [OF Suc.prems(1)])
    fix t tok w u assume t: "s \<le> t" "t < u" "u \<le> length b" "gettoken b t = Ok (tok, w) u"
    have "advances b (words_ok b) u (parse_backs n b (BACK c) u)" using Suc.prems t by (intro Suc.IH) auto
    then show "advances b (words_ok b) t ((if True then bindM (gettoken b) (\<lambda>_. parse_backs n b (BACK c)) else retM c) t)"
      using t by (auto simp: kcode intro: advances_mono)
  qed (use Suc.prems in \<open>simp add: kcode\<close>)
qed simp

text \<open>A token that was peeked at is consumed, then the rest of the command is parsed.\<close>

lemma advances_token:
  assumes "gettoken b t = Ok (tok, w) u" "t \<le> u" and "advances b Q u (f u)"
  shows "advances b Q t (bindM (gettoken b) (\<lambda>_. f) t)"
  using assms by (simp add: kcode advances_mono)

lemma advances_ret: "advances b Q s (m s) \<Longrightarrow> (\<And>c. Q c \<Longrightarrow> R (g c)) \<Longrightarrow> advances b R s (bindM m (\<lambda>c. retM (g c)) s)"
  by (cases "m s") (auto simp: kcode)

lemma parseline_step:
  assumes pipe: "\<And>s. s \<le> length b \<Longrightarrow> 4 * (length b - s) + 3 \<le> f \<Longrightarrow> advances b (words_ok b) s (parsepipe f b s)"
    and line: "\<And>s. s \<le> length b \<Longrightarrow> 4 * (length b - s) + 4 \<le> f \<Longrightarrow> advances b (words_ok b) s (parseline f b s)"
    and fuel: "s \<le> length b" "4 * (length b - s) + 4 \<le> Suc f"
  shows "advances b (words_ok b) s (parseline (Suc f) b s)"
proof -
  have rest: "advances b (words_ok b) t (bindM (gettoken b) (\<lambda>_. bindM (parseline f b) (\<lambda>r. retM (LIST c r))) t)"
    if "s \<le> t" "t < u" "u \<le> length b" "gettoken b t = Ok (tok, w) u" "words_ok b c" for t tok w u c
    using fuel that by (intro advances_token [OF that(4)] advances_ret [where m = "parseline f b", OF line]) auto
  show ?thesis unfolding parseline.simps(2)
  proof (rule advances_bind)
    show "advances b (words_ok b) s (parsepipe f b s)" using fuel by (intro pipe) auto
    fix c t assume c: "s \<le> t" "t \<le> length b" "words_ok b c"
    show "advances b (words_ok b) t (bindM (parse_backs (Suc (length b)) b c) (\<lambda>cmd. bindM (peek b (cbytes '';'')) (\<lambda>more.
       if more then bindM (gettoken b) (\<lambda>_. bindM (parseline f b) (\<lambda>r. retM (LIST cmd r))) else retM cmd)) t)"
    proof (rule advances_bind [where m = "parse_backs (Suc (length b)) b c", OF parse_backs_ends])
      fix c' t' assume c': "t \<le> t'" "t' \<le> length b" "words_ok b c'"
      show "advances b (words_ok b) t' (bindM (peek b (cbytes '';'')) (\<lambda>more.
       if more then bindM (gettoken b) (\<lambda>_. bindM (parseline f b) (\<lambda>r. retM (LIST c' r))) else retM c') t')"
        by (rule advances_peek [OF c'(2)]) (use c c' rest in \<open>auto simp: kcode\<close>)
    qed (use c in auto)
  qed
qed

lemma parsepipe_step:
  assumes exec: "\<And>s. s \<le> length b \<Longrightarrow> 4 * (length b - s) + 2 \<le> f \<Longrightarrow> advances b (words_ok b) s (parseexec f b s)"
    and pipe: "\<And>s. s \<le> length b \<Longrightarrow> 4 * (length b - s) + 3 \<le> f \<Longrightarrow> advances b (words_ok b) s (parsepipe f b s)"
    and fuel: "s \<le> length b" "4 * (length b - s) + 3 \<le> Suc f"
  shows "advances b (words_ok b) s (parsepipe (Suc f) b s)"
proof -
  have rest: "advances b (words_ok b) t (bindM (gettoken b) (\<lambda>_. bindM (parsepipe f b) (\<lambda>r. retM (PIPE c r))) t)"
    if "s \<le> t" "t < u" "u \<le> length b" "gettoken b t = Ok (tok, w) u" "words_ok b c" for t tok w u c
    using fuel that by (intro advances_token [OF that(4)] advances_ret [where m = "parsepipe f b", OF pipe]) auto
  show ?thesis unfolding parsepipe.simps(2)
  proof (rule advances_bind)
    show "advances b (words_ok b) s (parseexec f b s)" using fuel by (intro exec) auto
    fix c t assume c: "s \<le> t" "t \<le> length b" "words_ok b c"
    show "advances b (words_ok b) t (bindM (peek b (cbytes ''|'')) (\<lambda>more.
       if more then bindM (gettoken b) (\<lambda>_. bindM (parsepipe f b) (\<lambda>r. retM (PIPE c r))) else retM c) t)"
      by (rule advances_peek [OF c(2)]) (use c rest in \<open>auto simp: kcode\<close>)
  qed
qed

lemma parseexec_step:
  assumes block: "\<And>s. s \<le> length b \<Longrightarrow> 4 * (length b - s) + 1 \<le> f \<Longrightarrow> advances b (words_ok b) s (parseblock f b s)"
    and fuel: "s \<le> length b" "4 * (length b - s) + 2 \<le> Suc f"
  shows "advances b (words_ok b) s (parseexec (Suc f) b s)"
proof -
  show ?thesis unfolding parseexec.simps(2)
  proof (rule advances_peek [OF fuel(1)])
    fix t tok w u assume "s \<le> t" "t < u" "u \<le> length b"
    then show "advances b (words_ok b) t ((if True then parseblock f b else
        bindM (parseredirs (Suc (length b)) b (EXEC [])) (parse_args 0 b)) t)"
      using fuel block [of t] by simp
  next
    fix t assume "s \<le> t" "t \<le> length b"
    then have "advances b (words_ok b) t (bindM (parseredirs (Suc (length b)) b (EXEC [])) (parse_args 0 b) t)"
      by (intro advances_bind [where m = "parseredirs (Suc (length b)) b (EXEC [])", OF parseredirs_ends] parse_args_ends) auto
    then show "advances b (words_ok b) t ((if False then parseblock f b else
        bindM (parseredirs (Suc (length b)) b (EXEC [])) (parse_args 0 b)) t)" by simp
  qed
qed

lemma parseblock_step:
  assumes line: "\<And>s. s \<le> length b \<Longrightarrow> 4 * (length b - s) + 4 \<le> f \<Longrightarrow> advances b (words_ok b) s (parseline f b s)"
    and fuel: "s \<le> length b" "4 * (length b - s) + 1 \<le> Suc f"
  shows "advances b (words_ok b) s (parseblock (Suc f) b s)"
proof -
  have close: "advances b (words_ok b) v (bindM (peek b (cbytes '')'')) (\<lambda>cls.
      if \<not> cls then panicM ''syntax - missing )''
      else bindM (gettoken b) (\<lambda>_. parseredirs (Suc (length b)) b c)) v)" if "v \<le> length b" "words_ok b c" for v c
  proof (rule advances_peek [OF that(1)])
    fix t tok w u assume t: "t < u" "u \<le> length b" "gettoken b t = Ok (tok, w) u"
    then have "advances b (words_ok b) t (bindM (gettoken b) (\<lambda>_. parseredirs (Suc (length b)) b c) t)"
      using that by (intro advances_token [OF t(3)] parseredirs_ends) auto
    then show "advances b (words_ok b) t ((if \<not> True then panicM ''syntax - missing )''
      else bindM (gettoken b) (\<lambda>_. parseredirs (Suc (length b)) b c)) t)" by simp
  qed (simp add: kcode)
  show ?thesis unfolding parseblock.simps(2)
  proof (rule advances_peek [OF fuel(1)])
    fix t tok w u assume t: "s \<le> t" "t < u" "u \<le> length b" "gettoken b t = Ok (tok, w) u"
    have "advances b (words_ok b) t (bindM (gettoken b) (\<lambda>_. bindM (parseline f b) (\<lambda>c. bindM (peek b (cbytes '')'')) (\<lambda>cls.
      if \<not> cls then panicM ''syntax - missing )''
      else bindM (gettoken b) (\<lambda>_. parseredirs (Suc (length b)) b c)))) t)"
      using fuel t close by (intro advances_token [OF t(4)] advances_bind [where m = "parseline f b", OF line]) auto
    then show "advances b (words_ok b) t ((if \<not> True then panicM ''parseblock'' else
      bindM (gettoken b) (\<lambda>_. bindM (parseline f b) (\<lambda>c. bindM (peek b (cbytes '')'')) (\<lambda>cls.
      if \<not> cls then panicM ''syntax - missing )''
      else bindM (gettoken b) (\<lambda>_. parseredirs (Suc (length b)) b c))))) t)" by simp
  qed (simp add: kcode)
qed

lemma parser_ends:
  assumes "s \<le> length b"
  shows "4 * (length b - s) + 4 \<le> f \<Longrightarrow> advances b (words_ok b) s (parseline f b s)"
    and "4 * (length b - s) + 3 \<le> f \<Longrightarrow> advances b (words_ok b) s (parsepipe f b s)"
    and "4 * (length b - s) + 2 \<le> f \<Longrightarrow> advances b (words_ok b) s (parseexec f b s)"
    and "4 * (length b - s) + 1 \<le> f \<Longrightarrow> advances b (words_ok b) s (parseblock f b s)"
  using assms
proof (induction f arbitrary: s)
  case (Suc f)
  {
    case 1
    then show ?case by (intro parseline_step Suc.IH)
  next
    case 2
    then show ?case by (intro parsepipe_step Suc.IH)
  next
    case 3
    then show ?case by (intro parseexec_step Suc.IH)
  next
    case 4
    then show ?case by (intro parseblock_step Suc.IH)
  }
qed auto

section \<open>NUL-termination\<close>

text \<open>The text of a word of the line, and the C string at a position of the line in memory.\<close>

definition span_text :: "bytes \<Rightarrow> span \<Rightarrow> bytes" where
  "span_text b w = drop (fst w) (take (snd w) b)"

definition cstr_at :: "bytes \<Rightarrow> nat \<Rightarrow> bytes" where
  "cstr_at m q = takeWhile (\<lambda>c. c \<noteq> 0) (drop q m)"

lemma foldl_nul:
  "length (foldl (\<lambda>m w. m[snd w := 0]) m ws) = length m
   \<and> (\<forall>i < length m. foldl (\<lambda>m w. m[snd w := 0]) m ws ! i = (if i \<in> snd ` set ws then 0 else m ! i))"
  by (induction ws arbitrary: m) (auto simp: nth_list_update)

lemma nulterminate_nth:
  "length (nulterminate c m) = length m
   \<and> (\<forall>i < length m. nulterminate c m ! i = (if i \<in> snd ` set_cmd c then 0 else m ! i))"
proof (induction c arbitrary: m)
  case (EXEC ws)
  then show ?case using foldl_nul [of m ws] by simp
next
  case (REDIR c w md fd)
  have "(nulterminate c m)[snd w := 0] ! i = (if i = snd w then 0 else nulterminate c m ! i)" if "i < length m" for i
    using that REDIR [of m] by (simp add: nth_list_update)
  then show ?case using REDIR [of m] by auto
qed auto

text \<open>
  The end of a word is never inside a word, so that the NULs cut the line into
  exactly the words.
\<close>

lemma cstr_nulterminate:
  assumes nul: "0 \<notin> set b" and ok: "words_ok b c" and w: "w \<in> set_cmd c"
  shows "cstr_at (nulterminate c (b @ [0])) (fst w) = span_text b w"
proof -
  let ?m = "nulterminate c (b @ [0])"
  have W: "fst w < snd w" "snd w \<le> length b" using ok w by (auto simp: word_at_def)
  have len: "length ?m = length b + 1" using nulterminate_nth [of c "b @ [0]"] by simp
  have nth: "?m ! i = (if i \<in> snd ` set_cmd c then 0 else (b @ [0]) ! i)" if "i \<le> length b" for i
    using nulterminate_nth [of c "b @ [0]"] that by simp
  have inside: "?m ! i = b ! i" if i: "fst w \<le> i" "i < snd w" for i
  proof -
    have "is_word (b ! i)" using ok w i by (auto simp: word_at_def)
    moreover have "\<not> is_word (b ! i)" if "i \<in> snd ` set_cmd c"
      using ok that i W by (auto simp: word_at_def)
    ultimately show ?thesis using i W nth [of i] by (auto simp: nth_append)
  qed
  have "take (snd w - fst w) (drop (fst w) ?m) = span_text b w"
    by (rule nth_equalityI) (use W len inside in \<open>auto simp: span_text_def\<close>)
  moreover have "drop (snd w - fst w) (drop (fst w) ?m) = 0 # drop (Suc (snd w)) ?m"
    using W len nth [of "snd w"] w Cons_nth_drop_Suc [of "snd w" ?m] by simp
  ultimately have "drop (fst w) ?m = span_text b w @ 0 # drop (Suc (snd w)) ?m"
    using append_take_drop_id [of "snd w - fst w" "drop (fst w) ?m"] by simp
  moreover have "0 \<notin> set (span_text b w)" using nul by (auto simp: span_text_def dest: in_set_dropD in_set_takeD)
  then have "takeWhile (\<lambda>c. c \<noteq> 0) (span_text b w @ 0 # r) = span_text b w" for r
    by (subst takeWhile_append2) auto
  ultimately show ?thesis by (simp only: cstr_at_def)
qed

text \<open>
  C36: the shell parses every line.  For any line of bytes without a NUL,
  parsecmd() comes to an end: it reports a syntax error, or it returns a
  command.  Each word of the command is a non-empty, maximal run of word
  characters of the line, and nulterminate() turns exactly these runs into C
  strings: what exec and open will read at each word's pointer is that run.
\<close>

theorem parsecmd_total:
  assumes "0 \<notin> set b"
  shows "(\<exists>msg. parsecmd b 0 = Panic msg)
    \<or> (\<exists>c m. parsecmd b 0 = Ok (c, m) (length b)
        \<and> (\<forall>w \<in> set_cmd c. word_at b w \<and> cstr_at m (fst w) = span_text b w))"
proof -
  have "advances b (words_ok b) 0 (parseline (4 * length b + 4) b 0)" by (rule parser_ends) auto
  then consider msg where "parseline (4 * length b + 4) b 0 = Panic msg"
    | c t where "parseline (4 * length b + 4) b 0 = Ok c t" "words_ok b c"
    by (cases "parseline (4 * length b + 4) b 0") auto
  then show ?thesis
  proof cases
    case 2
    then show ?thesis
      using cstr_nulterminate [OF assms 2(2)]
      by (cases "skip_while is_ws b t = length b") (auto simp: parsecmd_def peek_eq kcode)
  qed (simp add: parsecmd_def kcode)
qed

text \<open>The line \<open>a <f |b \<close>.\<close>

theorem parsecmd_total_witness:
  "(\<exists>msg. parsecmd (cbytes ''a <f |b '') 0 = Panic msg)
    \<or> (\<exists>c m. parsecmd (cbytes ''a <f |b '') 0 = Ok (c, m) 8
        \<and> (\<forall>w \<in> set_cmd c. word_at (cbytes ''a <f |b '') w \<and> cstr_at m (fst w) = span_text (cbytes ''a <f |b '') w))"
proof -
  have n: "length (cbytes ''a <f |b '') = 8" by simp
  have "0 \<notin> set (cbytes ''a <f |b '')" by (simp add: cbytes_def)
  from parsecmd_total [OF this] show ?thesis unfolding n .
qed

end
