(* ===== verification/Ulib.thy ===== *)
theory Ulib
  imports Console Sh
begin

text \<open>
  The user library: the string routines of ulib.c (strchr is in Sh, gets in
  Sh_Run) and printf.c; and the programs wc.c, cat.c, echo.c and the formatting of
  ls.c on top of it.
\<close>

section \<open>ulib.c\<close>

text \<open>
  The loops that look for a NUL are partial functions: their value is
  \<open>None\<close> when they never end.
\<close>

partial_function (option) strcpy_loop :: "mem \<Rightarrow> u32 \<Rightarrow> u32 \<Rightarrow> mem option" where
  "strcpy_loop m s t = (let c = m t; m' = m(s := c) in if c \<noteq> 0 then strcpy_loop m' (s + 1) (t + 1) else Some m')"

definition strcpy :: "mem \<Rightarrow> u32 \<Rightarrow> u32 \<Rightarrow> mem option" where
  "strcpy m s t = strcpy_loop m s t"

partial_function (option) strcmp :: "mem \<Rightarrow> u32 \<Rightarrow> u32 \<Rightarrow> int option" where
  "strcmp m p q = (if m p \<noteq> 0 \<and> m p = m q then strcmp m (p + 1) (q + 1) else Some (uint (m p) - uint (m q)))"

partial_function (option) u_strlen_loop :: "mem \<Rightarrow> u32 \<Rightarrow> nat \<Rightarrow> nat option" where
  "u_strlen_loop m s n = (if m (s + of_nat n) \<noteq> 0 then u_strlen_loop m s (Suc n) else Some n)"

definition u_strlen :: "mem \<Rightarrow> u32 \<Rightarrow> nat option" where
  "u_strlen m s = u_strlen_loop m s 0"

definition u_memset :: "mem \<Rightarrow> u32 \<Rightarrow> u8 \<Rightarrow> u32 \<Rightarrow> mem" where
  "u_memset m dst c n = stosb m dst c (unat n)"

text \<open>
  atoi() on the bytes before the NUL.  \<open>None\<close> is the overflow of a signed
  integer, which C leaves undefined.
\<close>

fun atoi_loop :: "bytes \<Rightarrow> int \<Rightarrow> int option" where
  "atoi_loop [] n = Some n"
| "atoi_loop (c # s) n =
     (if 0x30 \<le> c \<and> c \<le> 0x39 then
        if n * 10 + uint c \<ge> 2 ^ 31 then None else atoi_loop s (n * 10 + uint c - 0x30)
      else Some n)"

definition atoi :: "bytes \<Rightarrow> int option" where
  "atoi s = atoi_loop s 0"

text \<open>memmove(): always upwards.\<close>

fun u_memmove_loop :: "mem \<Rightarrow> u32 \<Rightarrow> u32 \<Rightarrow> nat \<Rightarrow> mem" where
  "u_memmove_loop m dst src 0 = m"
| "u_memmove_loop m dst src (Suc n) = u_memmove_loop (m(dst := m src)) (dst + 1) (src + 1) n"

definition u_memmove :: "mem \<Rightarrow> u32 \<Rightarrow> u32 \<Rightarrow> int \<Rightarrow> mem" where
  "u_memmove m dst src n = u_memmove_loop m dst src (nat n)"

section \<open>printf.c\<close>

text \<open>What is written to the descriptor, as a list of bytes.\<close>

definition u_digits :: "nat \<Rightarrow> u8" where
  "u_digits d = cbytes ''0123456789ABCDEF'' ! d"

function u_printint_buf :: "nat \<Rightarrow> nat \<Rightarrow> bytes" where
  "u_printint_buf base x =
     (if base < 2 then []
      else u_digits (x mod base) # (if x div base = 0 then [] else u_printint_buf base (x div base)))"
  by pat_completeness auto
termination
proof (relation "measure snd")
  fix base x :: nat
  assume "\<not> base < 2" "x div base \<noteq> 0"
  then have "1 < base" "0 < x" by (auto intro: gr0I)
  then show "((base, x div base), base, x) \<in> measure snd" by (simp add: div_less_dividend)
qed simp

declare u_printint_buf.simps [simp del]

definition u_printint :: "u32 \<Rightarrow> nat \<Rightarrow> bool \<Rightarrow> bytes" where
  "u_printint xx base sgnd =
     (if sgnd \<and> sint xx < 0 then rev (u_printint_buf base (unat (- xx)) @ [0x2D]) else rev (u_printint_buf base (unat xx)))"

text \<open>
  printf() on the bytes of the format; the flag is \<open>state == '%'\<close>.  \<open>None\<close>: an
  argument is missing or not of the kind the format says.
\<close>

definition out_then :: "bytes \<Rightarrow> bytes option \<Rightarrow> bytes option" where
  "out_then bs r = map_option (\<lambda>o'. bs @ o') r"

fun printf_loop :: "bool \<Rightarrow> bytes \<Rightarrow> carg list \<Rightarrow> bytes option" where
  "printf_loop pct [] ap = Some []"
| "printf_loop False (c # fmt) ap =
     (if c = 0x25 then printf_loop True fmt ap else out_then [c] (printf_loop False fmt ap))"
| "printf_loop True (c # fmt) ap =
     (if c = 0x64 then (case ap of Cint x # r \<Rightarrow> out_then (u_printint x 10 True) (printf_loop False fmt r) | _ \<Rightarrow> None)
      else if c = 0x78 \<or> c = 0x70 then (case ap of Cint x # r \<Rightarrow> out_then (u_printint x 16 False) (printf_loop False fmt r) | _ \<Rightarrow> None)
      else if c = 0x73 then
        (case ap of Cstr (Some s) # r \<Rightarrow> out_then s (printf_loop False fmt r)
         | Cstr None # r \<Rightarrow> out_then (cbytes ''(null)'') (printf_loop False fmt r) | _ \<Rightarrow> None)
      else if c = 0x63 then (case ap of Cint x # r \<Rightarrow> out_then [ucast x] (printf_loop False fmt r) | _ \<Rightarrow> None)
      else if c = 0x25 then out_then [c] (printf_loop False fmt ap)
      else out_then [0x25, c] (printf_loop False fmt ap))"

definition printf :: "bytes \<Rightarrow> carg list \<Rightarrow> bytes option" where
  "printf fmt ap = printf_loop False fmt ap"

section \<open>wc.c, cat.c, echo.c, ls.c\<close>

text \<open>
  A file is read in pieces: the list of what the calls of read() deliver, of
  which the last one (0 or -1) ends the loop.
\<close>

record wcst =
  wc_l :: nat
  wc_w :: nat
  wc_c :: nat
  inword :: bool

definition wc_byte :: "wcst \<Rightarrow> u8 \<Rightarrow> wcst" where
  "wc_byte s b =
     (let s = s\<lparr>wc_c := wc_c s + 1\<rparr>;
          s = (if b = 0x0A then s\<lparr>wc_l := wc_l s + 1\<rparr> else s) in
      if strchr [0x20, 0x0D, 0x09, 0x0A, 0x0B] b \<noteq> None then s\<lparr>inword := False\<rparr>
      else if \<not> inword s then s\<lparr>wc_w := wc_w s + 1, inword := True\<rparr>
      else s)"

definition wc_loop :: "bytes list \<Rightarrow> wcst" where
  "wc_loop reads = foldl (foldl wc_byte) \<lparr>wc_l = 0, wc_w = 0, wc_c = 0, inword = False\<rparr> reads"

definition wc :: "bytes list \<Rightarrow> int \<Rightarrow> bytes \<Rightarrow> bytes option" where
  "wc reads n name =
     (let s = wc_loop reads in
      if n < 0 then printf (cbytes ''wc: read error'' @ [0x0A]) []
      else printf (cbytes ''%d %d %d %s'' @ [0x0A]) [Cint (of_nat (wc_l s)), Cint (of_nat (wc_w s)), Cint (of_nat (wc_c s)), Cstr (Some name)])"

text \<open>cat(): \<open>ws\<close> are the results of write(); the value is the output and whether cat() returns.\<close>

fun cat_loop :: "bytes list \<Rightarrow> int list \<Rightarrow> int \<Rightarrow> bytes \<times> bool" where
  "cat_loop [] ws n = (if n < 0 then (cbytes ''cat: read error'' @ [0x0A], False) else ([], True))"
| "cat_loop (r # rs) [] n = ([], False)"
| "cat_loop (r # rs) (w # ws) n =
     (if w \<noteq> int (length r) then (take (nat w) r @ cbytes ''cat: write error'' @ [0x0A], False)
      else let (o', ok) = cat_loop rs ws n in (r @ o', ok))"

text \<open>echo: the arguments after argv[0].\<close>

fun echo_main :: "bytes list \<Rightarrow> bytes option" where
  "echo_main [] = Some []"
| "echo_main (a # as) =
     (case printf (cbytes ''%s%s'') [Cstr (Some a), Cstr (Some (if as \<noteq> [] then [0x20] else [0x0A]))] of
        None \<Rightarrow> None | Some o' \<Rightarrow> out_then o' (echo_main as))"

text \<open>fmtname() of ls.c on the bytes of the path; \<open>p\<close> counts down from its length.\<close>

fun fmt_back :: "bytes \<Rightarrow> nat \<Rightarrow> nat" where
  "fmt_back path 0 = 0"
| "fmt_back path (Suc p) = (if path ! p = 0x2F then Suc p else fmt_back path p)"

definition fmtname :: "bytes \<Rightarrow> bytes" where
  "fmtname path =
     (let p = drop (fmt_back path (length path)) path in
      if length p \<ge> 14 then p else p @ replicate (14 - length p) 0x20)"

section \<open>Strings\<close>

text \<open>A C string in memory: the bytes before its NUL.\<close>

definition cstr_at :: "mem \<Rightarrow> u32 \<Rightarrow> bytes \<Rightarrow> bool" where
  "cstr_at m a bs \<longleftrightarrow> 0 \<notin> set bs \<and> mem_bytes m a (Suc (length bs)) = bs @ [0]"

lemma cstr_at_Nil: "cstr_at m a [] \<longleftrightarrow> m a = 0"
  by (simp add: cstr_at_def mem_bytes_Suc)

lemma cstr_at_Cons: "cstr_at m a (b # bs) \<longleftrightarrow> b \<noteq> 0 \<and> m a = b \<and> cstr_at m (a + 1) bs"
  by (auto simp: cstr_at_def mem_bytes_Suc [of m a])

lemma strcpy_loop_ok:
  assumes "cstr_at m t bs" "Suc (length bs) < 2 ^ 32" "unat (s - t) = 0 \<or> Suc (length bs) \<le> unat (s - t)"
  shows "strcpy_loop m s t = Some (write_bytes m s (bs @ [0]))"
  using assms
proof (induction bs arbitrary: m s t)
  case Nil
  then show ?case by (subst strcpy_loop.simps) (simp add: cstr_at_Nil)
next
  case (Cons b bs)
  have "mem_bytes (m(s := m t)) (t + 1) (Suc (length bs)) = mem_bytes m (t + 1) (Suc (length bs))"
    by (rule mem_bytes_after_copy) (use Cons.prems(2,3) in simp_all)
  moreover have "cstr_at m (t + 1) bs" using Cons.prems(1) by (simp add: cstr_at_Cons)
  ultimately have c: "cstr_at (m(s := m t)) (t + 1) bs" by (simp add: cstr_at_def)
  have "strcpy_loop (m(s := m t)) (s + 1) (t + 1) = Some (write_bytes (m(s := m t)) (s + 1) (bs @ [0]))"
    by (rule Cons.IH [OF c]) (use Cons.prems(2,3) in auto)
  then show ?case using Cons.prems(1) by (subst strcpy_loop.simps) (simp add: cstr_at_Cons)
qed

lemma u_strlen_loop_ok: "cstr_at m (a + of_nat n) bs \<Longrightarrow> u_strlen_loop m a n = Some (n + length bs)"
proof (induction bs arbitrary: n)
  case Nil
  then show ?case by (subst u_strlen_loop.simps) (simp add: cstr_at_Nil)
next
  case (Cons b bs)
  have "cstr_at m (a + of_nat (Suc n)) bs" using Cons.prems by (simp add: cstr_at_Cons algebra_simps)
  then show ?case using Cons.IH [of "Suc n"] Cons.prems by (subst u_strlen_loop.simps) (simp add: cstr_at_Cons)
qed

text \<open>strcpy() copies a string that it does not overwrite while reading, and strlen() of the copy is the string's length.\<close>

lemma strcpy_strlen:
  assumes "cstr_at m t bs" "Suc (length bs) < 2 ^ 32" "unat (s - t) = 0 \<or> Suc (length bs) \<le> unat (s - t)"
  shows "\<exists>m'. strcpy m s t = Some m' \<and> cstr_at m' s bs \<and> u_strlen m' s = Some (length bs) \<and> (\<forall>x. \<not> in_range s (Suc (length bs)) x \<longrightarrow> m' x = m x)"
proof -
  let ?m = "write_bytes m s (bs @ [0])"
  have "cstr_at ?m s bs" using assms(1,2) mem_bytes_write_bytes [of "bs @ [0]" m s] by (simp add: cstr_at_def)
  then show ?thesis
    using strcpy_loop_ok [OF assms] u_strlen_loop_ok [of ?m s 0 bs] write_bytes_other [of "bs @ [0]" s _ m] assms(2)
    by (auto simp: strcpy_def u_strlen_def)
qed

text \<open>strcmp() is the lexicographic order of unsigned bytes.\<close>

lemma strcmp_ok:
  assumes "cstr_at m p xs" "cstr_at m q ys"
  shows "\<exists>r. strcmp m p q = Some r \<and> (r = 0 \<longleftrightarrow> xs = ys) \<and> (r < 0 \<longleftrightarrow> ord_class.lexordp xs ys)"
  using assms
proof (induction xs arbitrary: ys p q)
  case Nil
  then show ?case by (cases ys) (auto simp: strcmp.simps [of m p q] cstr_at_Nil cstr_at_Cons uint_0_iff word_neq_0_conv word_less_def)
next
  case (Cons x xs)
  show ?case
  proof (cases ys)
    case Nil
    then show ?thesis using Cons.prems by (auto simp: strcmp.simps [of m p q] cstr_at_Nil cstr_at_Cons uint_0_iff)
  next
    case Cons': (Cons y zs)
    show ?thesis
    proof (cases "x = y")
      case True
      then show ?thesis using Cons.IH [of "p + 1" "q + 1" zs] Cons.prems Cons' by (simp add: strcmp.simps [of m p q] cstr_at_Cons)
    next
      case False
      then have "uint x \<noteq> uint y" by (simp add: word_uint_eq_iff)
      then show ?thesis using Cons.prems Cons' False by (auto simp: strcmp.simps [of m p q] cstr_at_Cons word_less_def)
    qed
  qed
qed

text \<open>
  memmove() of the user library is the kernel's when the ranges do not overlap or
  the destination is below the source; otherwise it reads bytes it has
  already overwritten.
\<close>

lemma u_memmove_up: "u_memmove_loop m d s n = copy_up m d s n"
  by (induction n arbitrary: m d s) simp_all

lemma u_memmove_ok:
  assumes "0 \<le> n" "n < 2 ^ 31" "unat src + nat n \<le> 2 ^ 32" "unat dst + nat n \<le> 2 ^ 32" "dst \<le> src \<or> src + of_int n \<le> dst"
  shows "u_memmove m dst src n = memmove m dst src (of_int n)"
proof -
  have "unat (of_int n :: u32) = nat n" using assms(1,2) by (simp add: unat_eq_nat_uint uint_word_of_int_eq take_bit_int_eq_self)
  then show ?thesis using assms(5) by (auto simp: u_memmove_def u_memmove_up memmove_def)
qed

lemma u_memmove_overlap: "mem_bytes (u_memmove m 0x1001 0x1000 2) 0x1001 2 = [m 0x1000, m 0x1000]"
  by (simp add: u_memmove_def numeral_2_eq_2 mem_bytes_Suc)

section \<open>Numbers\<close>

lemma u_digits_10: "d < 10 \<Longrightarrow> uint (u_digits d) = 48 + int d \<and> 0x30 \<le> u_digits d \<and> u_digits d \<le> 0x39"
  by (simp add: numeral_eq_Suc less_Suc_eq) (elim disjE; simp add: u_digits_def cbytes_def)

lemma atoi_loop_printed:
  "int x + 48 < 2 ^ 31 \<Longrightarrow> atoi_loop (rev (u_printint_buf 10 x) @ rest) 0 = atoi_loop rest (int x)"
proof (induction x arbitrary: rest rule: less_induct)
  case (less x)
  note d = u_digits_10 [of "x mod 10", simplified]
  have step: "atoi_loop (u_digits (x mod 10) # rest) (int (x div 10)) = atoi_loop rest (int x)"
  proof -
    have "int (x div 10) * 10 + int (x mod 10) = int x" by presburger
    then have e: "int (x div 10) * 10 + uint (u_digits (x mod 10)) = int x + 48" using d by linarith
    then show ?thesis using d less.prems by (simp add: e)
  qed
  show ?case
  proof (cases "x div 10 = 0")
    case True
    then show ?thesis using step by (simp add: u_printint_buf.simps [of 10 x])
  next
    case False
    then have "x div 10 < x" "int (x div 10) + 48 < 2 ^ 31" using less.prems by linarith+
    from less.IH [OF this, of "u_digits (x mod 10) # rest"] show ?thesis using step False by (simp add: u_printint_buf.simps [of 10 x])
  qed
qed

text \<open>
  Numbers survive printing and reading: atoi() of what printf() prints for %d
  is the number, for every non-negative number below 2^31 - 48; for the last 48
  the sum before the subtraction of the character '0' overflows.
\<close>

lemma atoi_printf:
  assumes "0 \<le> sint x" "sint x + 48 < 2 ^ 31"
  shows "\<exists>s. printf (cbytes ''%d'') [Cint x] = Some s \<and> atoi s = Some (sint x)"
proof -
  have "int (unat x) = sint x" using assms(1) by (intro sint_nonneg) simp
  then have "atoi (u_printint x 10 True) = Some (sint x)" using assms atoi_loop_printed [of "unat x" "[]"] by (simp add: atoi_def u_printint_def)
  then show ?thesis by (simp add: printf_def cbytes_def out_then_def)
qed

lemma atoi_overflows: "atoi (cbytes ''2147483600'') = None" "atoi (cbytes ''2147483599'') = Some 2147483599"
  by (simp_all add: atoi_def cbytes_def)

section \<open>Programs\<close>

definition wc_ws :: "u8 \<Rightarrow> bool" where
  "wc_ws b \<longleftrightarrow> b \<in> {0x20, 0x0D, 0x09, 0x0A, 0x0B}"

lemma wc_byte_eq:
  "wc_byte \<lparr>wc_l = l, wc_w = w, wc_c = c, inword = i\<rparr> b
     = \<lparr>wc_l = (if b = 0x0A then l + 1 else l), wc_w = (if \<not> wc_ws b \<and> \<not> i then w + 1 else w), wc_c = c + 1, inword = (\<not> wc_ws b)\<rparr>"
  by (auto simp: wc_byte_def wc_ws_def Let_def)

text \<open>The positions at which a word starts.\<close>

definition word_starts :: "bytes \<Rightarrow> nat set" where
  "word_starts bs = {i. i < length bs \<and> \<not> wc_ws (bs ! i) \<and> (i = 0 \<or> wc_ws (bs ! (i - 1)))}"

lemma foldl_concat: "foldl (foldl f) s xss = foldl f s (concat xss)"
  by (induction xss arbitrary: s) simp_all

lemma word_starts_snoc:
  "word_starts (bs @ [b]) = (if \<not> wc_ws b \<and> (bs = [] \<or> wc_ws (last bs)) then insert (length bs) (word_starts bs) else word_starts bs)"
  by (cases "bs = []") (auto simp: word_starts_def nth_append last_conv_nth less_Suc_eq)

lemma finite_word_starts: "finite (word_starts bs)" "length bs \<notin> word_starts bs"
  by (auto simp: word_starts_def)

text \<open>
  wc counts the newlines, the words and the bytes of the whole file, however
  read() cuts it into pieces.
\<close>

lemma wc_spec:
  "wc_loop reads = (let bs = concat reads in \<lparr>wc_l = count_list bs 0x0A, wc_w = card (word_starts bs), wc_c = length bs,
     inword = (bs \<noteq> [] \<and> \<not> wc_ws (last bs))\<rparr>)"
proof -
  have "foldl wc_byte \<lparr>wc_l = 0, wc_w = 0, wc_c = 0, inword = False\<rparr> bs = \<lparr>wc_l = count_list bs 0x0A, wc_w = card (word_starts bs), wc_c = length bs,
     inword = (bs \<noteq> [] \<and> \<not> wc_ws (last bs))\<rparr>" for bs
  proof (induction bs rule: rev_induct)
    case Nil
    then show ?case by (simp add: word_starts_def)
  next
    case (snoc b bs)
    note f = finite_word_starts [of bs]
    have "card (word_starts (bs @ [b])) = (if \<not> wc_ws b \<and> (bs = [] \<or> wc_ws (last bs)) then card (word_starts bs) + 1 else card (word_starts bs))"
      unfolding word_starts_snoc using f by simp
    then show ?case using snoc
by (auto simp: wc_byte_eq)
  qed
  then show ?thesis by (simp add: wc_loop_def foldl_concat Let_def)
qed

text \<open>cat writes all bytes of the file when every write succeeds.\<close>

lemma cat_copies: "cat_loop rs (map (\<lambda>r. int (length r)) rs) 0 = (concat rs, True)"
  by (induction rs) simp_all

text \<open>echo prints its arguments with spaces between them and a newline.\<close>

fun join :: "bytes list \<Rightarrow> bytes" where
  "join [] = []"
| "join [a] = a @ [0x0A]"
| "join (a # b # as) = a @ 0x20 # join (b # as)"

lemma echo_prints: "echo_main as = Some (join as)"
  by (induction as rule: join.induct) (simp_all add: printf_def cbytes_def out_then_def)

text \<open>fmtname() gives the part of the path behind the last slash, padded to at least DIRSIZ bytes.\<close>

lemma fmt_back_ok: "p \<le> length path \<Longrightarrow> fmt_back path p \<le> p \<and> 0x2F \<notin> set (drop (fmt_back path p) (take p path)) \<and> (fmt_back path p = 0 \<or> path ! (fmt_back path p - 1) = 0x2F)"
proof (induction p)
  case (Suc p)
  then have "take (Suc p) path = take p path @ [path ! p]" by (simp add: take_Suc_conv_app_nth)
  then show ?case using Suc by auto
qed simp

lemma fmtname_spec:
  "\<exists>pre nm. path = pre @ nm \<and> 0x2F \<notin> set nm \<and> (pre = [] \<or> last pre = 0x2F) \<and> fmtname path = nm @ replicate (14 - length nm) 0x20"
proof (intro exI conjI)
  let ?k = "fmt_back path (length path)"
  have k: "?k \<le> length path" "0x2F \<notin> set (drop ?k path)" "?k = 0 \<or> path ! (?k - 1) = 0x2F" using fmt_back_ok [of "length path" path] by simp_all
  show "path = take ?k path @ drop ?k path" by simp
  show "0x2F \<notin> set (drop ?k path)" by (rule k(2))
  show "take ?k path = [] \<or> last (take ?k path) = 0x2F"
  proof (cases ?k)
    case (Suc j)
    then have "take ?k path = take j path @ [path ! j]" using k(1) by (simp add: take_Suc_conv_app_nth)
    then show ?thesis using k(3) Suc by simp
  qed simp
  show "fmtname path = drop ?k path @ replicate (14 - length (drop ?k path)) 0x20" by (simp add: fmtname_def Let_def)
qed

end
