(* ===== verification/Interleave.thy ===== *)
theory Interleave
  imports Proc_Sched
begin

text \<open>
  sleep() and wakeup() on several CPUs at once: the statements of the routines,
  as the lists of Proc_Sched.thy give them, interleaved in every order that the
  spin locks allow.  The theorem is that no wakeup is lost.
\<close>

section \<open>CPUs\<close>

text \<open>
  What a CPU is doing: the spin locks it holds, its \<open>cpu->proc\<close> and the
  statements it still has to execute.  The rest of the state is shared.
\<close>

type_synonym 'z runner = "lockid list \<times> nat option \<times> ('z kst_scheme, unit) kfun list"

text \<open>
  proc.c, scheduler(), when a process has switched to it: \<open>c->proc = 0\<close>, and it gives
  the lock of the process table up, at the end of the pass, if not the next process
  that it switches to does so.
\<close>

definition sched_tail :: "('z kst_scheme, unit) kfun list" where
  "sched_tail = [modM (\<lambda>s. s\<lparr>cur := None\<rparr>), release L_ptable]"

text \<open>
  One CPU executes its next statement.  A lock that another CPU holds is not
  taken: acquire() spins until it is free (spinlock_mutual_exclusion), which here
  is a step that is not possible.
\<close>

definition excl :: "nat \<Rightarrow> 'z runner list \<Rightarrow> lockid list \<Rightarrow> bool" where
  "excl i T h \<longleftrightarrow> (\<forall>j < length T. j \<noteq> i \<longrightarrow> set h \<inter> set (fst (T ! j)) = {})"

inductive cpu_step :: "'z kst_scheme \<times> 'z runner list \<Rightarrow> 'z kst_scheme \<times> 'z runner list \<Rightarrow> bool" where
  run: "i < length T \<Longrightarrow> T ! i = (h, c, m # ops) \<Longrightarrow> m (s\<lparr>held := h, cur := c\<rparr>) = Ok () t \<Longrightarrow> excl i T (held t) \<Longrightarrow>
    cpu_step (s, T) (t, T[i := (held t, cur t, ops)])"
| switch: "i < length T \<Longrightarrow> T ! i = (h, c, m # ops) \<Longrightarrow> m (s\<lparr>held := h, cur := c\<rparr>) = Swtch t \<Longrightarrow> excl i T (held t) \<Longrightarrow>
    cpu_step (s, T) (t, T[i := (held t, cur t, sched_tail)])"

text \<open>Runs of \<open>n\<close> steps.\<close>

inductive cpu_runs :: "nat \<Rightarrow> 'z kst_scheme \<times> 'z runner list \<Rightarrow> 'z kst_scheme \<times> 'z runner list \<Rightarrow> bool" where
  init: "cpu_runs 0 C C"
| more: "cpu_runs n C D \<Longrightarrow> cpu_step D E \<Longrightarrow> cpu_runs (Suc n) C E"

text \<open>
  How the kernel wakes: \<open>acquire(lk)\<close>, a change of what \<open>lk\<close> guards, \<open>wakeup(chan)\<close>,
  \<open>release(lk)\<close>, as in releasesleep(), pipewrite() or the clock interrupt of trap().
  The change does not concern the process table.
\<close>

definition waker :: "chan \<Rightarrow> lockid \<Rightarrow> ('z kst_scheme, unit) kfun \<Rightarrow> ('z kst_scheme, unit) kfun list" where
  "waker ch l change = acquire l # change # wakeup_ops ch @ [release l]"

definition plain :: "('z kst_scheme, unit) kfun \<Rightarrow> bool" where
  "plain change \<longleftrightarrow> (\<forall>s. \<exists>t. change s = Ok () t \<and> procs t = procs s \<and> held t = held s \<and> cur t = cur s)"

text \<open>
  The process \<open>p\<close> has the lock \<open>l\<close> and calls sleep(ch, l), while each of the CPUs in
  \<open>cs\<close> is about to wake the channel.
\<close>

definition sleep_vs_wakers :: "nat \<Rightarrow> chan \<Rightarrow> lockid \<Rightarrow> (nat option \<times> ('z kst_scheme, unit) kfun) list \<Rightarrow> 'z runner list" where
  "sleep_vs_wakers p ch l cs = ([l], Some p, sleep_ops p ch l) # map (\<lambda>(c, change). ([], c, waker ch l change)) cs"

section \<open>The program counters\<close>

text \<open>The sleeper after \<open>k\<close> steps, and a waker after \<open>m\<close>.\<close>

definition sl_held :: "lockid \<Rightarrow> nat \<Rightarrow> lockid list" where
  "sl_held l k = (if k = 0 then [l] else if k = 1 then [L_ptable, l] else if k < 7 then [L_ptable] else [])"

definition sl_at :: "nat \<Rightarrow> chan \<Rightarrow> lockid \<Rightarrow> nat \<Rightarrow> 'z runner" where
  "sl_at p ch l k = (sl_held l k, if k < 6 then Some p else None,
     if k < 5 then drop k (sleep_ops p ch l) else drop (k - 5) sched_tail)"

definition wk_held :: "lockid \<Rightarrow> nat \<Rightarrow> lockid list" where
  "wk_held l m = (if m = 0 \<or> 69 \<le> m then [] else if m < 3 \<or> m = 68 then [l] else [L_ptable, l])"

definition wk_at :: "chan \<Rightarrow> lockid \<Rightarrow> nat option \<times> ('z kst_scheme, unit) kfun \<Rightarrow> nat \<Rightarrow> 'z runner" where
  "wk_at ch l w m = (wk_held l m, fst w, drop m (waker ch l (snd w)))"

lemma length_waker [simp]: "length (waker ch l change) = 69"
  by (simp add: waker_def wakeup_ops_def wakeup1_ops_def)

lemma waker_nth:
  "waker ch l change ! 0 = acquire l" "waker ch l change ! 1 = change" "waker ch l change ! 2 = acquire L_ptable"
  "i < NPROC \<Longrightarrow> waker ch l change ! (3 + i) = wakeup1_slot ch i"
  "waker ch l change ! 67 = release L_ptable" "waker ch l change ! 68 = release l"
  by (simp_all add: waker_def wakeup_ops_def wakeup1_ops_def nth_append nth_Cons' del: upt_Suc)

lemma wakeup1_slot_apply: "i < length (procs s) \<Longrightarrow> wakeup1_slot ch i s = Ok () (s\<lparr>procs := (procs s)[i := wake ch (procs s ! i)]\<rparr>)"
  by (simp add: wakeup1_slot_def wake_def kcode)

definition wk_procs :: "chan \<Rightarrow> nat \<Rightarrow> proc list \<Rightarrow> proc list" where
  "wk_procs ch m ps = (if 3 \<le> m \<and> m < 67 then ps[m - 3 := wake ch (ps ! (m - 3))] else ps)"

lemma waker_step:
  assumes m: "m < 69" and l: "l \<noteq> L_ptable" and p: "plain change" and s: "held s = wk_held l m" "length (procs s) = NPROC"
  shows "\<exists>t. (waker ch l change ! m) s = Ok () t \<and> held t = wk_held l (Suc m) \<and> cur t = cur s \<and> procs t = wk_procs ch m (procs s)"
proof -
  have "m = 0 \<or> m = 1 \<or> m = 2 \<or> (\<exists>i < NPROC. m = 3 + i) \<or> m = 67 \<or> m = 68" using m by presburger
  then consider "m = 0" | "m = 1" | "m = 2" | i where "m = 3 + i" "i < NPROC" | "m = 67" | "m = 68" by blast
  then show ?thesis
  proof cases
    case 2
    obtain t where "change s = Ok () t" "procs t = procs s" "held t = held s" "cur t = cur s" using p unfolding plain_def by blast
    then show ?thesis using 2 s by (simp add: waker_nth(2) [unfolded One_nat_def] wk_held_def wk_procs_def)
  next
    case (4 i)
    then show ?thesis using s waker_nth(4) [of i ch l change] by (simp add: wakeup1_slot_apply wk_held_def wk_procs_def)
  qed (use s l in \<open>simp_all add: waker_nth wk_held_def wk_procs_def kcode\<close>)
qed

definition sl_procs :: "nat \<Rightarrow> chan \<Rightarrow> nat \<Rightarrow> proc list \<Rightarrow> proc list" where
  "sl_procs p ch k ps = (if k = 2 then ps[p := (ps ! p)\<lparr>pchan := Some ch\<rparr>]
     else if k = 3 then ps[p := (ps ! p)\<lparr>pstate := SLEEPING\<rparr>] else ps)"

lemma sleeper_step:
  assumes k: "k < 7" and l: "l \<noteq> L_ptable" and sl: "sl_at p ch l k = (h, c, m # ops)"
    and s: "p < length (procs s)" "k = 4 \<Longrightarrow> pstate (procs s ! p) \<noteq> RUNNING"
  shows "\<exists>t. m (s\<lparr>held := h, cur := c\<rparr>) = (if k = 4 then Swtch t else Ok () t)
    \<and> sl_at p ch l (Suc k) = (held t, cur t, if k = 4 then sched_tail else ops) \<and> procs t = sl_procs p ch k (procs s)"
proof -
  have "k = 0 \<or> k = 1 \<or> k = 2 \<or> k = 3 \<or> k = 4 \<or> k = 5 \<or> k = 6" using k by linarith
  then show ?thesis using l sl s
    by (elim disjE) (auto simp: sl_at_def sl_held_def sleep_ops_def sched_tail_def sl_procs_def sched_def kcode)
qed

section \<open>The invariant\<close>

text \<open>
  After \<open>n\<close> steps, \<open>k\<close> of the sleeper and \<open>f j\<close> of waker \<open>j\<close>: a waker has the lock \<open>l\<close>
  only when the sleeper has given it up, which then has the process table until it
  is asleep; so a waker that scans the table finds the sleeper there.
\<close>

definition sw_inv :: "nat \<Rightarrow> chan \<Rightarrow> lockid \<Rightarrow> (nat option \<times> ('z kst_scheme, unit) kfun) list
    \<Rightarrow> nat \<Rightarrow> (nat \<Rightarrow> nat) \<Rightarrow> nat \<Rightarrow> 'z kst_scheme \<times> 'z runner list \<Rightarrow> bool" where
  "sw_inv p ch l cs k f n C \<longleftrightarrow> (let q = procs (fst C) ! p in
     length (procs (fst C)) = NPROC \<and> snd C = sl_at p ch l k # map (\<lambda>j. wk_at ch l (cs ! j) (f j)) [0..<length cs]
   \<and> k \<le> 7 \<and> n = k + (\<Sum>j<length cs. f j)
   \<and> (2 < k \<longrightarrow> pchan q = Some ch) \<and> (3 < k \<longrightarrow> pstate q = SLEEPING \<or> pstate q = RUNNABLE)
   \<and> (\<forall>j < length cs. f j \<le> 69 \<and> (0 < f j \<longrightarrow> 2 \<le> k) \<and> (2 < f j \<longrightarrow> k = 7) \<and> (p + 3 < f j \<longrightarrow> pstate q = RUNNABLE))
   \<and> (\<forall>i < length cs. \<forall>j < length cs. 0 < f i \<and> f i < 69 \<and> 0 < f j \<and> f j < 69 \<longrightarrow> i = j))"

lemma sw_invD:
  assumes "sw_inv p ch l cs k f n (s, T)"
  shows "length (procs s) = NPROC" "length T = Suc (length cs)" "T ! 0 = sl_at p ch l k" "k \<le> 7" "n = k + (\<Sum>j<length cs. f j)"
    "j < length cs \<Longrightarrow> T ! Suc j = wk_at ch l (cs ! j) (f j)" "j < length cs \<Longrightarrow> f j \<le> 69" "j < length cs \<Longrightarrow> 0 < f j \<Longrightarrow> 2 \<le> k"
    "j < length cs \<Longrightarrow> 2 < f j \<Longrightarrow> k = 7" "j < length cs \<Longrightarrow> p + 3 < f j \<Longrightarrow> pstate (procs s ! p) = RUNNABLE"
    "2 < k \<Longrightarrow> pchan (procs s ! p) = Some ch" "3 < k \<Longrightarrow> pstate (procs s ! p) = SLEEPING \<or> pstate (procs s ! p) = RUNNABLE"
    "i < length cs \<Longrightarrow> j < length cs \<Longrightarrow> 0 < f i \<Longrightarrow> f i < 69 \<Longrightarrow> 0 < f j \<Longrightarrow> f j < 69 \<Longrightarrow> i = j"
  using assms unfolding sw_inv_def Let_def by auto

lemma sw_inv_start:
  assumes "length (procs s) = NPROC"
  shows "sw_inv p ch l cs 0 (\<lambda>_. 0) 0 (s, sleep_vs_wakers p ch l cs)"
proof -
  have "map (\<lambda>(c, change). ([], c, waker ch l change)) cs = map (\<lambda>j. wk_at ch l (cs ! j) 0) [0..<length cs]"
    by (rule nth_equalityI) (simp_all add: wk_at_def wk_held_def case_prod_unfold)
  then show ?thesis using assms by (simp add: sw_inv_def sleep_vs_wakers_def sl_at_def sl_held_def)
qed

lemma sl_at_empty: "l \<noteq> L_ptable \<Longrightarrow> k \<le> 7 \<Longrightarrow> snd (snd (sl_at p ch l k)) = [] \<longleftrightarrow> k = 7"
  by (auto simp: sl_at_def sleep_ops_def sched_tail_def)

lemma map_upd: "map (\<lambda>i. g i (if i = j then a else f i)) [0..<n] = (map (\<lambda>i. g i (f i)) [0..<n])[j := g j a]"
  by (rule nth_equalityI) (auto simp: nth_list_update)

lemma sum_upd: "j < n \<Longrightarrow> (\<Sum>i<n. if i = j then Suc (f j) else f i) = Suc (\<Sum>i<n. f i)" for f :: "nat \<Rightarrow> nat"
  by (simp add: sum.remove [of "{..<n}" j])

text \<open>A step of the sleeper.\<close>

lemma sw_inv_sleeper:
  assumes inv: "sw_inv p ch l cs k f n (s, T)" and l: "l \<noteq> L_ptable" and p: "p < NPROC"
    and T: "T ! 0 = (h, c, m # ops)"
  obtains t where "m (s\<lparr>held := h, cur := c\<rparr>) = (if k = 4 then Swtch t else Ok () t)"
    "sw_inv p ch l cs (Suc k) f (Suc n) (t, T[0 := (held t, cur t, if k = 4 then sched_tail else ops)])" "excl 0 T (held t)"
proof -
  note I = sw_invD [OF inv]
  have "snd (snd (sl_at p ch l k)) = m # ops" using T I(3) by simp
  then have k: "k < 7" using I(4) by (cases "k = 7") (simp_all add: sl_at_def sched_tail_def)
  have "k = 4 \<Longrightarrow> pstate (procs s ! p) \<noteq> RUNNING" using I(12) by auto
  then obtain t where t: "m (s\<lparr>held := h, cur := c\<rparr>) = (if k = 4 then Swtch t else Ok () t)"
    "sl_at p ch l (Suc k) = (held t, cur t, if k = 4 then sched_tail else ops)" "procs t = sl_procs p ch k (procs s)"
    using sleeper_step [OF k l, of p ch h c m ops s] T I(1,3) p by auto
  have f: "f j \<le> 2" "k < 2 \<Longrightarrow> f j = 0" if "j < length cs" for j using I(8,9) [OF that] k by force+
  have q: "procs t ! p = (if k = 2 then (procs s ! p)\<lparr>pchan := Some ch\<rparr> else if k = 3 then (procs s ! p)\<lparr>pstate := SLEEPING\<rparr> else procs s ! p)"
    "length (procs t) = NPROC" using t(3) p I(1) by (simp_all add: sl_procs_def)
  have T': "T[0 := sl_at p ch l (Suc k)] = sl_at p ch l (Suc k) # map (\<lambda>j. wk_at ch l (cs ! j) (f j)) [0..<length cs]"
    using inv by (simp add: sw_inv_def Let_def)
  have "sw_inv p ch l cs (Suc k) f (Suc n) (t, T[0 := sl_at p ch l (Suc k)])"
    unfolding sw_inv_def Let_def fst_conv snd_conv T'
  proof (intro conjI allI impI)
    fix j assume j: "j < length cs"
    show "2 \<le> Suc k" if "0 < f j" using I(8) [OF j that] by simp
    show "Suc k = 7" if "2 < f j" using f(1) [OF j] that by simp
    show "pstate (procs t ! p) = RUNNABLE" if "p + 3 < f j" using f(1) [OF j] that by simp
    show "f j \<le> 69" by (rule I(7) [OF j])
    fix i assume "i < length cs" "0 < f j \<and> f j < 69 \<and> 0 < f i \<and> f i < 69"
    then show "j = i" using I(13) [OF j] by blast
  qed (use I(5,11,12) q k in auto)
  moreover have "excl 0 T (held t)"
    unfolding excl_def
  proof (intro allI impI)
    fix j assume "j < length T" "j \<noteq> 0"
    then obtain i where i: "j = Suc i" "i < length cs" using I(2) by (cases j) auto
    have "held t = sl_held l (Suc k)" using t(2) by (simp add: sl_at_def)
    then show "set (held t) \<inter> set (fst (T ! j)) = {}"
      using I(6) [OF i(2)] f [OF i(2)] i(1) l k by (auto simp: wk_at_def wk_held_def sl_held_def)
  qed
  ultimately show ?thesis using that t(1,2) by simp
qed

text \<open>A step of a waker, if the locks allow it.\<close>

lemma sw_inv_waker:
  assumes inv: "sw_inv p ch l cs k f n (s, T)" and l: "l \<noteq> L_ptable" and p: "p < NPROC"
    and j: "j < length cs" "plain (snd (cs ! j))" and T: "T ! Suc j = (h, c, m # ops)"
  obtains t where "m (s\<lparr>held := h, cur := c\<rparr>) = Ok () t" "held t = wk_held l (Suc (f j))" "f j < 69"
    "excl (Suc j) T (held t) \<Longrightarrow> sw_inv p ch l cs k (f(j := Suc (f j))) (Suc n) (t, T[Suc j := (held t, cur t, ops)])"
proof -
  note I = sw_invD [OF inv]
  have w: "h = wk_held l (f j)" "c = fst (cs ! j)" "m # ops = drop (f j) (waker ch l (snd (cs ! j)))"
    using I(6) [OF j(1)] T by (simp_all add: wk_at_def)
  have fj: "f j < 69"
  proof (rule ccontr)
    assume "\<not> f j < 69"
    then show False using w(3) by simp
  qed
  then have mo: "m = waker ch l (snd (cs ! j)) ! f j" "ops = drop (Suc (f j)) (waker ch l (snd (cs ! j)))"
    using trans [OF w(3) Cons_nth_drop_Suc [of "f j", symmetric]] by simp_all
  obtain t where t: "m (s\<lparr>held := h, cur := c\<rparr>) = Ok () t" "held t = wk_held l (Suc (f j))" "cur t = c" "procs t = wk_procs ch (f j) (procs s)"
    using waker_step [OF fj l j(2), of "s\<lparr>held := h, cur := c\<rparr>" ch] w(1) I(1) mo(1) by auto
  have wk: "(held t, cur t, ops) = wk_at ch l (cs ! j) (Suc (f j))" using t(2,3) w(2) mo(2) by (simp add: wk_at_def)
  have q: "pchan (procs t ! p) = pchan (procs s ! p)" "length (procs t) = NPROC"
    "procs t ! p = (if f j = p + 3 then wake ch (procs s ! p) else procs s ! p)"
    using t(4) p I(1) by (auto simp: wk_procs_def nth_list_update)
  have st: "pstate (procs s ! p) = RUNNABLE \<Longrightarrow> pstate (procs t ! p) = RUNNABLE"
    "3 < k \<Longrightarrow> pstate (procs t ! p) = SLEEPING \<or> pstate (procs t ! p) = RUNNABLE"
    "f j = p + 3 \<Longrightarrow> pstate (procs t ! p) = RUNNABLE"
    using q(3) I(9) [OF j(1)] I(11,12) by (auto simp: wake_def)
  show ?thesis
  proof (rule that [OF t(1,2) fj])
    assume ex: "excl (Suc j) T (held t)"
    have e0: "set (held t) \<inter> set (sl_held l k) = {}"
      using ex I(2,3) unfolding excl_def by (force simp: sl_at_def)
    have ei: "set (held t) \<inter> set (wk_held l (f i)) = {}" if "i < length cs" "i \<noteq> j" for i
      using ex I(2) I(6) [OF that(1)] that unfolding excl_def by (force simp: wk_at_def)
    have k2: "2 \<le> k" using e0 I(8) [OF j(1)] t(2) by (cases "f j") (auto simp: wk_held_def sl_held_def split: if_splits)
    have k7: "k = 7" if "2 \<le> f j"
    proof (cases "f j = 2")
      case True
      then show ?thesis using e0 t(2) I(4) by (auto simp: wk_held_def sl_held_def split: if_splits)
    qed (use I(9) [OF j(1)] that in simp)
    have only: "i = j" if "i < length cs" "0 < f i" "f i < 69" for i
    proof (cases "f j = 0")
      case True
      have "l \<in> set (wk_held l (f i))" "l \<in> set (held t)" using that(2,3) True t(2) by (auto simp: wk_held_def)
      then show ?thesis using ei [OF that(1)] by blast
    qed (use I(13) [OF that(1) j(1)] that fj in simp)
    have T': "T[Suc j := (held t, cur t, ops)] = sl_at p ch l k # map (\<lambda>i. wk_at ch l (cs ! i) ((f(j := Suc (f j))) i)) [0..<length cs]"
      using inv map_upd [of "\<lambda>i. wk_at ch l (cs ! i)" j "Suc (f j)" f] unfolding wk by (simp add: sw_inv_def Let_def fun_upd_def)
    show "sw_inv p ch l cs k (f(j := Suc (f j))) (Suc n) (t, T[Suc j := (held t, cur t, ops)])"
      unfolding sw_inv_def Let_def fst_conv snd_conv T'
    proof (intro conjI allI impI)
      show "Suc n = k + (\<Sum>i<length cs. (f(j := Suc (f j))) i)" using I(5) sum_upd [OF j(1), of f] by (simp add: fun_upd_def)
      fix i assume i: "i < length cs"
      show "(f(j := Suc (f j))) i \<le> 69" using I(7) [OF i] fj by simp
      show "2 \<le> k" by (rule k2)
      show "k = 7" if "2 < (f(j := Suc (f j))) i" using that k7 I(9) [OF i] by (cases "i = j") simp_all
      show "pstate (procs t ! p) = RUNNABLE" if "p + 3 < (f(j := Suc (f j))) i"
      proof (cases "i = j")
        case True
        then consider "f j = p + 3" | "p + 3 < f j" using \<open>p + 3 < (f(j := Suc (f j))) i\<close> by fastforce
        then show ?thesis using st(1,3) I(10) [OF j(1)] by cases auto
      qed (use that I(10) [OF i] st(1) in simp)
      fix i' assume i': "i' < length cs"
        and h: "0 < (f(j := Suc (f j))) i \<and> (f(j := Suc (f j))) i < 69 \<and> 0 < (f(j := Suc (f j))) i' \<and> (f(j := Suc (f j))) i' < 69"
      show "i = i'" using only [OF i] only [OF i'] h by (auto split: if_splits)
    qed (use I(4,11) q st in auto)
  qed
qed

lemma sw_inv_step:
  assumes inv: "sw_inv p ch l cs k f n C" and step: "cpu_step C D"
    and l: "l \<noteq> L_ptable" and p: "p < NPROC" and cs: "\<forall>w \<in> set cs. plain (snd w)"
  obtains k' f' where "sw_inv p ch l cs k' f' (Suc n) D"
proof -
  have one: "\<exists>k' f'. sw_inv p ch l cs k' f' (Suc n) (t, T[i := (held t, cur t, if sw then sched_tail else ops)])"
    if C: "C = (s, T)" and i: "i < length T" "T ! i = (h, c, m # ops)" and ex: "excl i T (held t)"
      and m: "m (s\<lparr>held := h, cur := c\<rparr>) = (if sw then Swtch t else Ok () t)" for i s T h c m ops t sw
  proof (cases i)
    case 0
    obtain t' where t': "m (s\<lparr>held := h, cur := c\<rparr>) = (if k = 4 then Swtch t' else Ok () t')"
      "sw_inv p ch l cs (Suc k) f (Suc n) (t', T[0 := (held t', cur t', if k = 4 then sched_tail else ops)])"
      by (rule sw_inv_sleeper [OF inv [unfolded C] l p]) (use i 0 in auto)
    then have "t' = t" "sw \<longleftrightarrow> k = 4" using m by (auto split: if_splits)
    then show ?thesis using t'(2) 0 by (intro exI [of _ "Suc k"] exI [of _ f]) simp
  next
    case (Suc j)
    then have j: "j < length cs" using i(1) sw_invD(2) [OF inv [unfolded C]] by simp
    obtain t' where t': "m (s\<lparr>held := h, cur := c\<rparr>) = Ok () t'"
      "excl (Suc j) T (held t') \<Longrightarrow> sw_inv p ch l cs k (f(j := Suc (f j))) (Suc n) (t', T[Suc j := (held t', cur t', ops)])"
      by (rule sw_inv_waker [OF inv [unfolded C] l p j _ i(2) [unfolded Suc]]) (use cs j in auto)
    then have "t' = t" "\<not> sw" using m by (auto split: if_splits)
    then show ?thesis using t'(2) ex Suc by auto
  qed
  from step have "\<exists>k' f'. sw_inv p ch l cs k' f' (Suc n) D"
  proof cases
    case (run i T h c m ops s t)
    then show ?thesis using one [of s T i h c m ops t False] by simp
  next
    case (switch i T h c m ops s t)
    then show ?thesis using one [of s T i h c m ops t True] by simp
  qed
  then show ?thesis using that by blast
qed

text \<open>Somebody can go on until all are done.\<close>

lemma sw_inv_progress:
  assumes inv: "sw_inv p ch l cs k f n (s, T)" and l: "l \<noteq> L_ptable" and p: "p < NPROC" and cs: "\<forall>w \<in> set cs. plain (snd w)"
    and r: "r \<in> set T" "snd (snd r) \<noteq> []"
  shows "\<exists>D. cpu_step (s, T) D"
proof (cases "k = 7")
  case False
  note I = sw_invD [OF inv]
  have "snd (snd (T ! 0)) \<noteq> []" unfolding I(3) using sl_at_empty [OF l I(4)] False by simp
  then obtain h c m ops where T: "T ! 0 = (h, c, m # ops)" by (metis neq_Nil_conv prod.collapse)
  obtain t where t: "m (s\<lparr>held := h, cur := c\<rparr>) = (if k = 4 then Swtch t else Ok () t)" "excl 0 T (held t)"
    by (rule sw_inv_sleeper [OF inv l p T])
  have "0 < length T" using I(2) by simp
  then show ?thesis using cpu_step.run [OF _ T _ t(2)] cpu_step.switch [OF _ T _ t(2)] t(1) by (cases "k = 4") auto
next
  case True
  note I = sw_invD [OF inv]
  have fin: "snd (snd (T ! Suc i)) = [] \<longleftrightarrow> f i = 69" if "i < length cs" for i
    using I(6,7) [OF that] by (auto simp: wk_at_def)
  obtain i where i: "i < length T" "r = T ! i" using r(1) by (auto simp: in_set_conv_nth)
  have "snd (snd (T ! 0)) = []" unfolding I(3) using sl_at_empty [OF l I(4)] True by simp
  then obtain i' where i': "i = Suc i'" "i' < length cs" using i r(2) I(2) by (cases i) auto
  have "\<exists>j < length cs. f j < 69 \<and> (\<forall>i < length cs. i \<noteq> j \<longrightarrow> f i = 0 \<or> f i = 69)"
  proof (cases "\<exists>j < length cs. 0 < f j \<and> f j < 69")
    case True
    then obtain j where j: "j < length cs" "0 < f j" "f j < 69" by blast
    then have "f i = 0 \<or> f i = 69" if "i < length cs" "i \<noteq> j" for i using I(13) [OF that(1) j(1)] I(7) [OF that(1)] j that(2) by fastforce
    then show ?thesis using j by blast
  next
    case False
    have "f i' < 69" using fin [OF i'(2)] r(2) i(2) i' I(7) [OF i'(2)] by fastforce
    moreover have "f i = 0 \<or> f i = 69" if "i < length cs" for i using False that I(7) [OF that] by fastforce
    ultimately show ?thesis using i'(2) by blast
  qed
  then obtain j where j: "j < length cs" "f j < 69" and o: "\<forall>i < length cs. i \<noteq> j \<longrightarrow> f i = 0 \<or> f i = 69" by blast
  then have "snd (snd (T ! Suc j)) \<noteq> []" using fin [OF j(1)] by simp
  then obtain h c m ops where T: "T ! Suc j = (h, c, m # ops)" by (metis neq_Nil_conv prod.collapse)
  obtain t where t: "m (s\<lparr>held := h, cur := c\<rparr>) = Ok () t"
    by (rule sw_inv_waker [OF inv l p j(1) _ T]) (use cs j(1) in auto)
  have "fst (T ! i) = []" if "i < length T" "i \<noteq> Suc j" for i
  proof (cases i)
    case 0
    then show ?thesis using I(3) True by (simp add: sl_at_def sl_held_def)
  next
    case (Suc a)
    then have "a < length cs" "f a = 0 \<or> f a = 69" using that o I(2) by auto
    then show ?thesis using Suc I(6) [of a] by (auto simp: wk_at_def wk_held_def)
  qed
  then have "excl (Suc j) T (held t)" by (simp add: excl_def)
  then show ?thesis using cpu_step.run [OF _ T t] j(1) I(2) by auto
qed

lemma sw_inv_runs:
  assumes "cpu_runs n (s, sleep_vs_wakers p ch l cs) D" "length (procs s) = NPROC"
    and "l \<noteq> L_ptable" "p < NPROC" "\<forall>w \<in> set cs. plain (snd w)"
  shows "\<exists>k f. sw_inv p ch l cs k f n D"
  using assms
proof (induction n "(s, sleep_vs_wakers p ch l cs)" D rule: cpu_runs.induct)
  case init
  then show ?case using sw_inv_start by blast
next
  case (more n D E)
  then show ?case using sw_inv_step [of p ch l cs _ _ n D E] by metis
qed

lemma sw_inv_bound:
  assumes "sw_inv p ch l cs k f n (s, T)"
  shows "n \<le> 7 + 69 * length cs"
proof -
  note I = sw_invD [OF assms]
  have "(\<Sum>j<length cs. f j) \<le> 69 * length cs" using sum_bounded_above [of "{..<length cs}" f 69] I(7) by (simp add: mult.commute)
  then show ?thesis using I(4,5) by simp
qed

text \<open>So there is a run to the end.\<close>

lemma sleep_vs_wakers_completes:
  fixes s :: "'z kst_scheme"
  assumes h: "length (procs s) = NPROC" "l \<noteq> L_ptable" "p < NPROC" "\<forall>w \<in> set cs. plain (snd w)"
  shows "\<exists>n t T. cpu_runs n (s, sleep_vs_wakers p ch l cs) (t, T) \<and> (\<forall>r \<in> set T. snd (snd r) = [])"
proof (rule ccontr)
  assume none: "\<not> ?thesis"
  have "\<exists>D. cpu_runs n (s, sleep_vs_wakers p ch l cs) D" for n
  proof (induction n)
    case (Suc n)
    then obtain t T where r: "cpu_runs n (s, sleep_vs_wakers p ch l cs) (t, T)" by auto
    then obtain k f where inv: "sw_inv p ch l cs k f n (t, T)" using sw_inv_runs [OF _ h] by blast
    obtain r' where "r' \<in> set T" "snd (snd r') \<noteq> []" using none r by blast
    then obtain D where "cpu_step (t, T) D" using sw_inv_progress [OF inv h(2-4)] by blast
    then show ?case using cpu_runs.more [OF r] by blast
  qed (blast intro: cpu_runs.init)
  then obtain t T where "cpu_runs (8 + 69 * length cs) (s, sleep_vs_wakers p ch l cs) (t, T)" by (metis surj_pair)
  then obtain k f where "sw_inv p ch l cs k f (8 + 69 * length cs) (t, T)" using sw_inv_runs [OF _ h] by blast
  then show False using sw_inv_bound by fastforce
qed

section \<open>Properties\<close>

text \<open>
  C3: no wakeup is lost.  A process that holds the lock \<open>l\<close> calls sleep(ch, l) while
  any number of other CPUs are about to take \<open>l\<close>, change what it guards and call
  wakeup(ch).  In whatever order the statements of all of them are executed, as
  soon as one of the wakers is done the sleeping process is RUNNABLE; there is no
  deadlock, and all of them are done after at most seven steps and 69 for each waker.
\<close>

theorem no_lost_wakeup:
  fixes s t :: "'z kst_scheme"
  assumes "cpu_runs n (s, sleep_vs_wakers p ch l cs) (t, T)"
    and "length (procs s) = NPROC" "p < NPROC" "l \<noteq> L_ptable" "\<forall>w \<in> set cs. plain (snd w)"
  shows "(\<forall>j < length cs. snd (snd (T ! Suc j)) = [] \<longrightarrow> pstate (procs t ! p) = RUNNABLE)
    \<and> ((\<exists>r \<in> set T. snd (snd r) \<noteq> []) \<longrightarrow> (\<exists>D. cpu_step (t, T) D)) \<and> n \<le> 7 + 69 * length cs"
proof -
  obtain k f where inv: "sw_inv p ch l cs k f n (t, T)" using sw_inv_runs [OF assms(1,2,4,3,5)] by blast
  note I = sw_invD [OF inv]
  have "pstate (procs t ! p) = RUNNABLE" if "j < length cs" "snd (snd (T ! Suc j)) = []" for j
    using I(6,7,10) [OF that(1)] that(2) assms(3) by (simp add: wk_at_def)
  then show ?thesis using sw_inv_progress [OF inv assms(4,3,5)] sw_inv_bound [OF inv] by auto
qed

theorem no_lost_wakeup_witness:
  "\<exists>n t T. cpu_runs n (one_proc, sleep_vs_wakers 0 Ch_log L_log [(None, skipM), (Some 5, skipM)]) (t, T)
    \<and> (\<forall>r \<in> set T. snd (snd r) = []) \<and> pstate (procs t ! 0) = RUNNABLE"
proof -
  let ?cs = "[(None, skipM), (Some 5, skipM)]"
  have h: "length (procs one_proc) = NPROC" "(0::nat) < NPROC" "L_log \<noteq> L_ptable" "\<forall>w \<in> set ?cs. plain (snd w)"
    by (simp_all add: one_proc_def plain_def skipM_apply)
  obtain n t T where r: "cpu_runs n (one_proc, sleep_vs_wakers 0 Ch_log L_log ?cs) (t, T)" "\<forall>r \<in> set T. snd (snd r) = []"
    using sleep_vs_wakers_completes [OF h(1,3,2,4)] by blast
  obtain k f where "sw_inv 0 Ch_log L_log ?cs k f n (t, T)" using sw_inv_runs [OF r(1) h(1,3,2,4)] by blast
  then have "length T = 3" using sw_invD(2) by fastforce
  then have "snd (snd (T ! Suc 0)) = []" using r(2) by simp
  then have "pstate (procs t ! 0) = RUNNABLE" using no_lost_wakeup [OF r(1) h] by auto
  then show ?thesis using r by blast
qed

end
