(* ===== verification/Ide.thy ===== *)
theory Ide
  imports Bio
begin

text \<open>
  ide.c, the driver of the IDE disk: a queue of buffers linked through their
  \<open>qnext\<close> fields, of which the first is the active request, the commands that
  the driver gives to the controller, and the interrupt that ends a request.
\<close>

section \<open>State\<close>

text \<open>
  The ports of the controller.  \<open>ide_out\<close> records what was written to them;
  \<open>ide_stat\<close> are the bytes that the status port 0x1f7 will deliver and \<open>ide_data\<close>
  the words that the data port 0x1f0 will.
\<close>

datatype ide_ev = Outb u16 u8 | Outsl u16 bytes

record dst = bst +
  idequeue :: "nat option"
  qnext :: "nat \<Rightarrow> nat option"
  havedisk1 :: bool
  ide_out :: "ide_ev list"
  ide_stat :: "u8 list"
  ide_data :: "nat \<Rightarrow> u32"

definition ide_outb :: "u16 \<Rightarrow> u8 \<Rightarrow> ('z dst_scheme, unit) kfun" where
  "ide_outb port v = modM (\<lambda>s. s\<lparr>ide_out := ide_out s @ [Outb port v]\<rparr>)"

definition ide_outsl :: "u16 \<Rightarrow> bytes \<Rightarrow> ('z dst_scheme, unit) kfun" where
  "ide_outsl port d = modM (\<lambda>s. s\<lparr>ide_out := ide_out s @ [Outsl port d]\<rparr>)"

text \<open>\<open>inb(0x1f7)\<close>, and \<open>insl(0x1f0, ..., n)\<close>, which gives 4 n bytes.\<close>

definition ide_inb :: "('z dst_scheme, u8) kfun" where
  "ide_inb = (\<lambda>s. case ide_stat s of [] \<Rightarrow> Spin | r # rs \<Rightarrow> Ok r (s\<lparr>ide_stat := rs\<rparr>))"

definition ide_insl :: "nat \<Rightarrow> ('z dst_scheme, bytes) kfun" where
  "ide_insl n =
     bindM (getM (\<lambda>s. concat (map (\<lambda>k. le32_enc (ide_data s k)) [0..<n]))) (\<lambda>d.
     thenM (modM (\<lambda>s. s\<lparr>ide_data := (\<lambda>k. ide_data s (k + n))\<rparr>))
     (retM d))"

section \<open>The driver\<close>

text \<open>The polling loop of idewait(); when the controller never gets ready it does not end.\<close>

primrec ide_poll :: "u8 list \<Rightarrow> (u8 \<times> u8 list) option" where
  "ide_poll [] = None"
| "ide_poll (r # rs) = (if r AND 0xC0 = 0x40 then Some (r, rs) else ide_poll rs)"

definition idewait :: "bool \<Rightarrow> ('z dst_scheme, int) kfun" where
  "idewait checkerr = (\<lambda>s. case ide_poll (ide_stat s) of
       None \<Rightarrow> Spin
     | Some (r, rs) \<Rightarrow> Ok (if checkerr \<and> r AND 0x21 \<noteq> 0 then -1 else 0) (s\<lparr>ide_stat := rs\<rparr>))"

text \<open>ideinit(): the loop that looks for disk 1.\<close>

primrec ide_probe :: "nat \<Rightarrow> ('z dst_scheme, unit) kfun" where
  "ide_probe 0 = skipM"
| "ide_probe (Suc n) =
     bindM ide_inb (\<lambda>r.
     if r \<noteq> 0 then modM (\<lambda>s. s\<lparr>havedisk1 := True\<rparr>) else ide_probe n)"

definition ideinit :: "('z dst_scheme, unit) kfun" where
  "ideinit =
     thenM (idewait False)
     (thenM (ide_outb 0x1f6 (0xe0 OR push_bit 4 1))
     (thenM (ide_probe 1000)
     (ide_outb 0x1f6 (0xe0 OR push_bit 4 0))))"

definition idestart :: "nat option \<Rightarrow> ('z dst_scheme, unit) kfun" where
  "idestart bp =
     (case bp of None \<Rightarrow> panicM ''idestart'' | Some b \<Rightarrow>
     bindM (getM (\<lambda>s. bufs s ! b)) (\<lambda>v.
     thenM (assertM (\<not> unat (b_blockno v) \<ge> FSSIZE) ''incorrect blockno'')
     (let sector_per_block = BSIZE div 512; sector = b_blockno v * of_nat sector_per_block;
          read_cmd = (if sector_per_block = 1 then 0x20 else 0xc4); write_cmd = (if sector_per_block = 1 then 0x30 else 0xc5) in
      thenM (assertM (\<not> sector_per_block > 7) ''idestart'')
      (thenM (idewait False)
      (thenM (ide_outb 0x3f6 0)
      (thenM (ide_outb 0x1f2 (of_nat sector_per_block))
      (thenM (ide_outb 0x1f3 (ucast (sector AND 0xff)))
      (thenM (ide_outb 0x1f4 (ucast (drop_bit 8 sector AND 0xff)))
      (thenM (ide_outb 0x1f5 (ucast (drop_bit 16 sector AND 0xff)))
      (thenM (ide_outb 0x1f6 (ucast (0xe0 OR push_bit 4 (b_dev v AND 1) OR (drop_bit 24 sector AND 0x0f))))
      (if b_dirty v then
         thenM (ide_outb 0x1f7 write_cmd)
         (ide_outsl 0x1f0 (b_data v))
       else ide_outb 0x1f7 read_cmd)))))))))))"

definition ideintr :: "('z dst_scheme, unit) kfun" where
  "ideintr =
     thenM (acquire L_ide)
     (bindM (getM idequeue) (\<lambda>q.
      case q of
        None \<Rightarrow> release L_ide
      | Some b \<Rightarrow>
          thenM (modM (\<lambda>s. s\<lparr>idequeue := qnext s b\<rparr>))
          (bindM (getM (\<lambda>s. b_dirty (bufs s ! b))) (\<lambda>dirty.
          thenM (whenM (\<not> dirty)
                  (bindM (idewait True) (\<lambda>r.
                   whenM (r \<ge> 0) (bindM (ide_insl (BSIZE div 4)) (\<lambda>d. upd_buf b (\<lambda>v. v\<lparr>b_data := d\<rparr>))))))
          (thenM (upd_buf b (\<lambda>v. v\<lparr>b_valid := True\<rparr>))
          (thenM (upd_buf b (\<lambda>v. v\<lparr>b_dirty := False\<rparr>))
          (thenM (wakeup (Ch_buf b))
          (bindM (getM idequeue) (\<lambda>q.
           thenM (whenM (q \<noteq> None) (idestart q))
           (release L_ide))))))))))"

text \<open>iderw(): the search for the end of the queue; \<open>None\<close> is the address of \<open>idequeue\<close>, \<open>Some p\<close> that of \<open>p->qnext\<close>.\<close>

definition ide_deref :: "nat option \<Rightarrow> 'z dst_scheme \<Rightarrow> nat option" where
  "ide_deref pp s = (case pp of None \<Rightarrow> idequeue s | Some p \<Rightarrow> qnext s p)"

fun ide_tail :: "nat \<Rightarrow> nat option \<Rightarrow> ('z dst_scheme, nat option) kfun" where
  "ide_tail 0 pp = spinM"
| "ide_tail (Suc fuel) pp =
     bindM (getM (ide_deref pp)) (\<lambda>q.
     if q = None then retM pp else ide_tail fuel q)"

definition ide_store :: "nat option \<Rightarrow> nat \<Rightarrow> ('z dst_scheme, unit) kfun" where
  "ide_store pp b = modM (\<lambda>s. case pp of None \<Rightarrow> s\<lparr>idequeue := Some b\<rparr> | Some p \<Rightarrow> s\<lparr>qnext := (qnext s)(p := Some b)\<rparr>)"

text \<open>The loop that waits; after a wakeup it is entered again at its test.\<close>

definition ide_wait :: "nat \<Rightarrow> ('z dst_scheme, unit) kfun" where
  "ide_wait b =
     bindM (getM (\<lambda>s. bufs s ! b)) (\<lambda>v.
     if \<not> (b_valid v \<and> \<not> b_dirty v) then sleep (Ch_buf b) (Some L_ide)
     else release L_ide)"

definition ide_rw :: "nat \<Rightarrow> ('z dst_scheme, unit) kfun" where
  "ide_rw b =
     bindM (holdingsleep (SL_buf b)) (\<lambda>h.
     thenM (assertM h ''iderw: buf not locked'')
     (bindM (getM (\<lambda>s. bufs s ! b)) (\<lambda>v.
     thenM (assertM (\<not> (b_valid v \<and> \<not> b_dirty v)) ''iderw: nothing to do'')
     (bindM (getM havedisk1) (\<lambda>hd1.
     thenM (assertM (\<not> (b_dev v \<noteq> 0 \<and> \<not> hd1)) ''iderw: ide disk 1 not present'')
     (thenM (acquire L_ide)
     (thenM (modM (\<lambda>s. s\<lparr>qnext := (qnext s)(b := None)\<rparr>))
     (bindM (ide_tail (NBUF + 1) None) (\<lambda>pp.
     thenM (ide_store pp b)
     (bindM (getM idequeue) (\<lambda>q.
     thenM (whenM (q = Some b) (idestart (Some b)))
     (ide_wait b))))))))))))"

section \<open>The queue\<close>

text \<open>The buffers of the list that starts at \<open>x\<close>, in order.\<close>

primrec qlist :: "(nat \<Rightarrow> nat option) \<Rightarrow> nat option \<Rightarrow> nat list \<Rightarrow> bool" where
  "qlist h x [] \<longleftrightarrow> x = None"
| "qlist h x (a # as) \<longleftrightarrow> x = Some a \<and> qlist h (h a) as"

lemma qlist_None [simp]: "qlist h None as \<longleftrightarrow> as = []"
  by (cases as) simp_all

lemma qlist_frame: "a \<notin> set as \<Longrightarrow> qlist (h(a := y)) x as \<longleftrightarrow> qlist h x as"
  by (induction as arbitrary: x) auto

text \<open>The walk ends at the last field of the list, and a store there appends.\<close>

lemma ide_tail_ok:
  fixes s :: "'z dst_scheme"
  assumes "qlist (qnext s) (ide_deref pp s) as" "length as < n"
  shows "ide_tail n pp s = Ok (if as = [] then pp else Some (last as)) s"
  using assms
proof (induction as arbitrary: n pp)
  case Nil
  then show ?case by (cases n) (simp_all add: kcode)
next
  case (Cons a as)
  then obtain m where n: "n = Suc m" by (cases n) auto
  have "qlist (qnext s) (ide_deref (Some a) s) as" using Cons.prems(1) by (simp add: ide_deref_def)
  then show ?case using Cons.IH [of "Some a" m] Cons.prems n by (simp add: kcode)
qed

lemma qlist_append:
  assumes "qlist h x as" "as \<noteq> []" "distinct as" "b \<notin> set as" "h b = None"
  shows "qlist (h(last as := Some b)) x (as @ [b])"
  using assms
proof (induction as arbitrary: x)
  case (Cons a as)
  show ?case
  proof (cases "as = []")
    case True
    then show ?thesis using Cons.prems by auto
  next
    case False
    have "qlist (h(last as := Some b)) (h a) (as @ [b])" by (rule Cons.IH) (use Cons.prems False in auto)
    moreover have "last as \<noteq> a" using Cons.prems(3) False by (metis distinct.simps(2) last_in_set)
    then have "(h(last as := Some b)) a = h a" by simp
    ultimately show ?thesis using Cons.prems(1) False by (simp del: fun_upd_apply)
  qed
qed simp

text \<open>The queue of a state.\<close>

definition ide_q :: "'z dst_scheme \<Rightarrow> nat list \<Rightarrow> bool" where
  "ide_q s q \<longleftrightarrow> qlist (qnext s) (idequeue s) q \<and> distinct q \<and> set q \<subseteq> {..<NBUF}"

lemma ide_q_length: "ide_q s q \<Longrightarrow> length q \<le> NBUF"
  using card_mono [of "{..<NBUF}" "set q"] by (simp add: ide_q_def distinct_card)

text \<open>Appending a buffer that is not in the queue.\<close>

lemma ide_append_ok:
  fixes s :: "'z dst_scheme"
  assumes q: "ide_q s q" and b: "b \<notin> set q" "b < NBUF"
  defines "s1 \<equiv> s\<lparr>qnext := (qnext s)(b := None)\<rparr>"
  obtains pp h x where "ide_tail (NBUF + 1) None s1 = Ok pp s1" "ide_store pp b s1 = Ok () (s\<lparr>qnext := h, idequeue := x\<rparr>)"
    "ide_q (s\<lparr>qnext := h, idequeue := x\<rparr>) (q @ [b])"
proof -
  have ql: "qlist (qnext s1) (idequeue s) q" using q b(1) by (simp add: s1_def ide_q_def qlist_frame)
  have "ide_tail (NBUF + 1) None s1 = Ok (if q = [] then None else Some (last q)) s1"
    by (rule ide_tail_ok) (use ql ide_q_length [OF q] in \<open>simp_all add: ide_deref_def s1_def\<close>)
  moreover have "qlist ((qnext s1)(last q := Some b)) (idequeue s) (q @ [b])" if "q \<noteq> []"
    using qlist_append [OF ql that _ b(1)] q by (simp add: ide_q_def s1_def)
  ultimately show ?thesis
    using that [where pp = "if q = [] then None else Some (last q)" and h = "if q = [] then qnext s1 else (qnext s1)(last q := Some b)"
      and x = "if q = [] then Some b else idequeue s"] q b
    by (cases "q = []") (auto simp: ide_q_def ide_store_def s1_def kcode)
qed

section \<open>Commands\<close>

text \<open>
  What the controller makes of the writes to its ports: the sector and the
  drive are in the registers 0x1f3 to 0x1f6 when a command is written to 0x1f7;
  the data of a write command follow on 0x1f0.
\<close>

datatype ide_cmd = Rd u32 u32 | Wr u32 u32 bytes

definition ide_sector :: "(u16 \<Rightarrow> u8) \<Rightarrow> u32" where
  "ide_sector r = ucast (r 0x1f3) OR push_bit 8 (ucast (r 0x1f4)) OR push_bit 16 (ucast (r 0x1f5)) OR push_bit 24 (ucast (r 0x1f6) AND 0x0f)"

definition ide_drive :: "(u16 \<Rightarrow> u8) \<Rightarrow> u32" where
  "ide_drive r = drop_bit 4 (ucast (r 0x1f6)) AND 1"

fun ide_port :: "(u16 \<Rightarrow> u8) \<times> ide_cmd list \<Rightarrow> ide_ev \<Rightarrow> (u16 \<Rightarrow> u8) \<times> ide_cmd list" where
  "ide_port (r, cs) (Outb p v) =
     (if p = 0x1f7 then (r, cs @ [if v = 0x30 then Wr (ide_drive r) (ide_sector r) [] else Rd (ide_drive r) (ide_sector r)])
      else (r(p := v), cs))"
| "ide_port (r, cs) (Outsl p d) =
     (r, case (p = 0x1f0, rev cs) of (True, Wr dr n _ # cs) \<Rightarrow> rev (Wr dr n d # cs) | _ \<Rightarrow> cs)"

definition ide_cmds :: "ide_ev list \<Rightarrow> ide_cmd list" where
  "ide_cmds es = snd (foldl ide_port (\<lambda>_. 0, []) es)"

text \<open>The command for a buffer.\<close>

definition cmd_of :: "buf \<Rightarrow> ide_cmd" where
  "cmd_of v = (if b_dirty v then Wr (b_dev v AND 1) (b_blockno v) (b_data v) else Rd (b_dev v AND 1) (b_blockno v))"

lemma word_small_bit:
  fixes x :: u32
  assumes "unat x < 2 ^ k" "bit x n" shows "n < k"
proof -
  have "take_bit k (unat x) = unat x" using assms(1) by (simp add: take_bit_nat_eq_self)
  moreover have "bit (unat x) n" using assms(2) by (simp add: bit_unsigned_iff)
  ultimately have "bit (take_bit k (unat x)) n" by simp
  then show ?thesis by (simp add: bit_take_bit_iff)
qed

lemma and_1_cases: "(d :: u32) AND 1 = 0 \<or> d AND 1 = 1"
  by (cases "even d") (simp_all add: and_one_eq even_iff_mod_2_eq_zero odd_iff_mod_2_eq_one)

lemma sector_bytes:
  fixes x :: u32
  assumes "unat x < FSSIZE"
  shows "ucast (ucast (x AND 0xff) :: u8) OR push_bit 8 (ucast (ucast (drop_bit 8 x AND 0xff) :: u8))
    OR push_bit 16 (ucast (ucast (drop_bit 16 x AND 0xff) :: u8)) OR push_bit 24 (ucast (ucast (0xe0 OR push_bit 4 (d AND 1) OR (drop_bit 24 x AND 0x0f)) :: u8) AND 0x0f) = x"
proof -
  have u: "unat x < 2 ^ 10" using assms by simp
  have z: "drop_bit 16 x = 0" "drop_bit 24 x = 0"
    using word_small_bit [OF u] by (force intro!: bit_word_eqI simp: bit_drop_bit_eq)+
  have m8: "(0xff :: u32) = mask 8" by (simp add: mask_eq_exp_minus_1)
  have b: "(ucast (ucast (x AND 0xff) :: u8) :: u32) OR push_bit 8 (ucast (ucast (drop_bit 8 x AND 0xff) :: u8)) = x"
    unfolding m8
  proof (rule bit_word_eqI)
    fix n assume "n < LENGTH(32)"
    have "bit x n \<longrightarrow> n < 10" using word_small_bit [OF u] by blast
    then show "bit ((ucast (ucast (x AND mask 8) :: u8) :: u32) OR push_bit 8 (ucast (ucast (drop_bit 8 x AND mask 8) :: u8))) n = bit x n"
      using \<open>n < LENGTH(32)\<close> by (cases "n < 8") (auto simp: bit_or_iff bit_and_iff bit_push_bit_iff bit_unsigned_iff bit_drop_bit_eq bit_mask_iff)
  qed
  define e where "e = d AND 1"
  have "e = 0 \<or> e = 1" using and_1_cases [of d] by (simp only: e_def)
  then show ?thesis unfolding z e_def [symmetric] using b by auto
qed

lemma drive_bit:
  fixes x d :: u32
  assumes "unat x < FSSIZE"
  shows "drop_bit 4 (ucast (ucast (0xe0 OR push_bit 4 (d AND 1) OR (drop_bit 24 x AND 0x0f)) :: u8)) AND 1 = d AND 1"
proof -
  have u: "unat x < 2 ^ 10" using assms by simp
  have z: "drop_bit 24 x = 0" using word_small_bit [OF u] by (force intro!: bit_word_eqI simp: bit_drop_bit_eq)
  define e where "e = d AND 1"
  have "e = 0 \<or> e = 1" using and_1_cases [of d] by (simp only: e_def)
  then show ?thesis unfolding z e_def [symmetric] by auto
qed

lemma idestart_ok:
  fixes s :: "'z dst_scheme"
  assumes b: "unat (b_blockno (bufs s ! b)) < FSSIZE" and st: "ide_poll (ide_stat s) = Some (r, rs)"
  obtains es where "idestart (Some b) s = Ok () (s\<lparr>ide_out := ide_out s @ es, ide_stat := rs\<rparr>)"
    "ide_cmds (ide_out s @ es) = ide_cmds (ide_out s) @ [cmd_of (bufs s ! b)]"
proof -
  let ?v = "bufs s ! b" let ?x = "b_blockno (bufs s ! b)"
  let ?es = "[Outb 0x3f6 0, Outb 0x1f2 1, Outb 0x1f3 (ucast (?x AND 0xff)), Outb 0x1f4 (ucast (drop_bit 8 ?x AND 0xff)),
     Outb 0x1f5 (ucast (drop_bit 16 ?x AND 0xff)), Outb 0x1f6 (ucast (0xe0 OR push_bit 4 (b_dev ?v AND 1) OR (drop_bit 24 ?x AND 0x0f)))]
     @ (if b_dirty ?v then [Outb 0x1f7 0x30, Outsl 0x1f0 (b_data ?v)] else [Outb 0x1f7 0x20])"
  have "idestart (Some b) s = Ok () (s\<lparr>ide_out := ide_out s @ ?es, ide_stat := rs\<rparr>)"
    using b st by (simp add: idestart_def idewait_def ide_outb_def ide_outsl_def Let_def kcode)
  moreover obtain r cs where r: "foldl ide_port (\<lambda>_. 0, []) (ide_out s) = (r, cs)" by fastforce
  have "snd (foldl ide_port (r, cs) ?es) = cs @ [cmd_of ?v]"
    using sector_bytes [OF b] drive_bit [OF b] by (simp add: cmd_of_def ide_drive_def ide_sector_def)
  then have "ide_cmds (ide_out s @ ?es) = ide_cmds (ide_out s) @ [cmd_of ?v]" using r by (simp only: ide_cmds_def foldl_append snd_conv)
  ultimately show ?thesis using that by blast
qed

lemma idestart_OkD: "idestart (Some b) s = Ok () t \<Longrightarrow> unat (b_blockno (bufs s ! b)) < FSSIZE \<and> ide_poll (ide_stat s) \<noteq> None"
  by (auto simp: idestart_def kcode idewait_def Let_def split: if_splits option.splits)

lemma idestart_cases: "(\<exists>t. idestart (Some b) s = Ok () t) \<or> (\<exists>m. idestart (Some b) s = Panic m) \<or> idestart (Some b) s = Spin"
proof (cases "unat (b_blockno (bufs s ! b)) < FSSIZE \<and> ide_poll (ide_stat s) \<noteq> None")
  case True
  then obtain r rs where "ide_poll (ide_stat s) = Some (r, rs)" by auto
  then show ?thesis using idestart_ok [of s b r rs] True by blast
next
  case False
  then consider "FSSIZE \<le> unat (b_blockno (bufs s ! b))" | "\<not> FSSIZE \<le> unat (b_blockno (bufs s ! b))" "ide_poll (ide_stat s) = None" by fastforce
  then show ?thesis by cases (simp_all add: idestart_def kcode idewait_def Let_def)
qed

section \<open>The operations\<close>

lemma ide_q_head: "ide_q s q \<Longrightarrow> idequeue s = (case q of [] \<Rightarrow> None | b # _ \<Rightarrow> Some b)"
  by (cases q) (simp_all add: ide_q_def)

lemma ide_q_fields [simp]: "ide_q (s\<lparr>ide_out := o'\<rparr>) q \<longleftrightarrow> ide_q s q" "ide_q (s\<lparr>ide_stat := st\<rparr>) q \<longleftrightarrow> ide_q s q"
  "ide_q (s\<lparr>held := h\<rparr>) q \<longleftrightarrow> ide_q s q" "ide_q (s\<lparr>procs := ps\<rparr>) q \<longleftrightarrow> ide_q s q" "ide_q (s\<lparr>cur := c\<rparr>) q \<longleftrightarrow> ide_q s q"
  "ide_q (s\<lparr>bufs := bs\<rparr>) q \<longleftrightarrow> ide_q s q" "ide_q (s\<lparr>slks := sl\<rparr>) q \<longleftrightarrow> ide_q s q" "ide_q (s\<lparr>ide_data := d\<rparr>) q \<longleftrightarrow> ide_q s q"
  by (simp_all add: ide_q_def)

definition fall_asleep :: "nat \<Rightarrow> nat \<Rightarrow> proc list \<Rightarrow> proc list" where
  "fall_asleep p b ps = ps[p := (ps ! p)\<lparr>pchan := Some (Ch_buf b), pstate := SLEEPING\<rparr>]"

definition settled_buf :: "buf \<Rightarrow> bool" where
  "settled_buf v \<longleftrightarrow> b_valid v \<and> \<not> b_dirty v"

text \<open>A call of iderw(): the request is queued, and given to the controller if it is the first; the caller sleeps.\<close>

lemma ide_rw_ok:
  fixes s :: "'z dst_scheme"
  assumes k: "kok s" "cur s = Some p" and m: "mine (SL_buf b) s" and v: "\<not> settled_buf (bufs s ! b)" "b_dev (bufs s ! b) = 0 \<or> havedisk1 s"
    "q = [] \<Longrightarrow> unat (b_blockno (bufs s ! b)) < FSSIZE" and q: "ide_q s q" "b \<notin> set q" "b < NBUF"
    and st: "q = [] \<Longrightarrow> ide_poll (ide_stat s) \<noteq> None"
  obtains t where "ide_rw b s = Swtch t" "ide_q t (q @ [b])" "held t = [L_ptable]" "procs t = fall_asleep p b (procs s)" "cur t = cur s"
    "bufs t = bufs s" "slks t = slks s" "disk t = disk s"
    "ide_cmds (ide_out t) = ide_cmds (ide_out s) @ (if q = [] then [cmd_of (bufs s ! b)] else [])"
proof -
  have kD: "held s = []" "p < NPROC" "length (procs s) = NPROC" using k by (auto simp: kok_def)
  let ?s = "s\<lparr>held := [L_ide]\<rparr>"
  have q': "ide_q ?s q" using q(1) by simp
  obtain pp h x where a: "ide_tail (NBUF + 1) None (?s\<lparr>qnext := (qnext ?s)(b := None)\<rparr>) = Ok pp (?s\<lparr>qnext := (qnext ?s)(b := None)\<rparr>)"
    "ide_store pp b (?s\<lparr>qnext := (qnext ?s)(b := None)\<rparr>) = Ok () (?s\<lparr>qnext := h, idequeue := x\<rparr>)"
    "ide_q (?s\<lparr>qnext := h, idequeue := x\<rparr>) (q @ [b])"
    by (rule ide_append_ok [OF q' q(2,3)])
  let ?t = "?s\<lparr>qnext := h, idequeue := x\<rparr>"
  have hd: "x = Some b \<longleftrightarrow> q = []" using ide_q_head [OF a(3)] q(2) by (cases q) auto
  have "\<exists>u. (whenM (x = Some b) (idestart (Some b))) ?t = Ok () u \<and> (\<exists>es rs. u = ?t\<lparr>ide_out := ide_out s @ es, ide_stat := rs\<rparr>)
      \<and> ide_cmds (ide_out u) = ide_cmds (ide_out s) @ (if q = [] then [cmd_of (bufs s ! b)] else [])"
  proof (cases "q = []")
    case True
    then obtain r rs where "ide_poll (ide_stat ?t) = Some (r, rs)" using st by fastforce
    then obtain es where "idestart (Some b) ?t = Ok () (?t\<lparr>ide_out := ide_out s @ es, ide_stat := rs\<rparr>)"
      "ide_cmds (ide_out s @ es) = ide_cmds (ide_out s) @ [cmd_of (bufs s ! b)]"
      using idestart_ok [of ?t b r rs] v(3) [OF True] by auto
    then show ?thesis using True hd by (auto simp: kcode)
  next
    case False
    then show ?thesis using hd by (auto simp: kcode intro!: exI [of _ "[]"] exI [of _ "ide_stat s"])
  qed
  then obtain u es rs where u: "(whenM (x = Some b) (idestart (Some b))) ?t = Ok () u" "u = ?t\<lparr>ide_out := ide_out s @ es, ide_stat := rs\<rparr>"
    "ide_cmds (ide_out u) = ide_cmds (ide_out s) @ (if q = [] then [cmd_of (bufs s ! b)] else [])" by blast
  have uf: "cur u = Some p" "held u = [L_ide]" "procs u = procs s" "bufs u = bufs s" "slks u = slks s" "disk u = disk s" "ide_q u (q @ [b])"
    using u(2) k(2) a(3) by simp_all
  let ?w = "u\<lparr>held := [L_ptable], procs := fall_asleep p b (procs s)\<rparr>"
  have w: "ide_wait b u = Swtch ?w"
    using v(1) sleep_eq [OF uf(1) _ uf(2)] kD uf by (simp add: ide_wait_def kcode settled_buf_def fall_asleep_def)
  have "ide_rw b s = Swtch ?w"
    using holdingsleep_mine [OF k(1) m] v(1,2) kD(1) a(1,2) u(1) w by (simp add: ide_rw_def kcode settled_buf_def)
  then show ?thesis using that uf u(3) k(2) by (auto intro!: that [of ?w])
qed

text \<open>Conversely, a call that ends up asleep had all it needs.\<close>

lemma ide_rw_asleepD:
  fixes s :: "'z dst_scheme"
  assumes k: "kok s" and w: "ide_rw b s = Swtch t"
  shows "mine (SL_buf b) s" "\<not> settled_buf (bufs s ! b)" "b_dev (bufs s ! b) = 0 \<or> havedisk1 s"
    "ide_q s [] \<Longrightarrow> b < NBUF \<Longrightarrow> unat (b_blockno (bufs s ! b)) < FSSIZE \<and> ide_poll (ide_stat s) \<noteq> None"
proof -
  have h: "sl_locked (slks s (SL_buf b)) \<and> sl_pid (slks s (SL_buf b)) = mypid s"
    using w holdingsleep_eq [OF k, of "SL_buf b"] by (auto simp: ide_rw_def kcode split: if_splits)
  then show m: "mine (SL_buf b) s" by (cases "slks s (SL_buf b)") (simp add: mine_def)
  show d: "\<not> settled_buf (bufs s ! b)" "b_dev (bufs s ! b) = 0 \<or> havedisk1 s"
    using w holdingsleep_mine [OF k m] by (auto simp: ide_rw_def kcode settled_buf_def split: if_splits)
  assume q: "ide_q s []" "b < NBUF"
  have "held s = []" using k by (simp add: kok_def)
  moreover have "idequeue s = None" using q(1) by (simp add: ide_q_def)
  moreover have "ide_tail (NBUF + 1) None (s\<lparr>held := [L_ide], qnext := (qnext s)(b := None)\<rparr>) = Ok None (s\<lparr>held := [L_ide], qnext := (qnext s)(b := None)\<rparr>)"
    using ide_tail_ok [of "s\<lparr>held := [L_ide], qnext := (qnext s)(b := None)\<rparr>" None "[]" "NBUF + 1"] calculation by (simp add: ide_deref_def)
  ultimately have "\<exists>u. idestart (Some b) (s\<lparr>held := [L_ide], qnext := (qnext s)(b := None), idequeue := Some b\<rparr>) = Ok () u"
    using w holdingsleep_mine [OF k m] d idestart_cases [of b "s\<lparr>held := [L_ide], qnext := (qnext s)(b := None), idequeue := Some b\<rparr>"]
    by (auto simp: ide_rw_def kcode settled_buf_def ide_store_def split: outcome.splits)
  then show "unat (b_blockno (bufs s ! b)) < FSSIZE \<and> ide_poll (ide_stat s) \<noteq> None" by (auto dest!: idestart_OkD)
qed

text \<open>What the interrupt reads for the active request: the status bytes left, the data of the buffer and the words left.\<close>

definition intr_read :: "'z dst_scheme \<Rightarrow> nat \<Rightarrow> (u8 list \<times> bytes \<times> (nat \<Rightarrow> u32)) option" where
  "intr_read s b =
     (if b_dirty (bufs s ! b) then Some (ide_stat s, b_data (bufs s ! b), ide_data s)
      else case ide_poll (ide_stat s) of
          None \<Rightarrow> None
        | Some (r, rs) \<Rightarrow> Some (rs, if r AND 0x21 = 0
            then (concat (map (\<lambda>k. le32_enc (ide_data s k)) [0..<BSIZE div 4]), \<lambda>k. ide_data s (k + BSIZE div 4))
            else (b_data (bufs s ! b), ide_data s)))"

definition finished :: "bytes \<Rightarrow> buf \<Rightarrow> buf" where
  "finished d v = v\<lparr>b_data := d, b_valid := True, b_dirty := False\<rparr>"

lemma finished_write: "finished (b_data v) v = v\<lparr>b_dirty := False, b_valid := True\<rparr>"
  by (cases v) (simp add: finished_def)

lemma finished_read: "\<not> b_dirty v \<Longrightarrow> finished d v = v\<lparr>b_data := d, b_valid := True\<rparr>"
  by (cases v) (simp add: finished_def)

definition intr_bufs :: "nat \<Rightarrow> bytes \<Rightarrow> buf list \<Rightarrow> buf list" where
  "intr_bufs b d bs = bs[b := finished d (bs ! b)]"

text \<open>ideintr() up to the start of the next request.\<close>

lemma ideintr_head:
  fixes s :: "'z dst_scheme"
  assumes s: "held s = []" "length (procs s) = NPROC" "b < length (bufs s)" and q: "ide_q s (b # q)"
  shows "ideintr s = (case intr_read s b of None \<Rightarrow> Spin | Some (rs, d, w) \<Rightarrow>
    thenM (whenM (qnext s b \<noteq> None) (idestart (qnext s b))) (release L_ide)
      (s\<lparr>held := [L_ide], idequeue := qnext s b, ide_stat := rs, ide_data := w, bufs := intr_bufs b d (bufs s), procs := map (wake (Ch_buf b)) (procs s)\<rparr>))"
proof -
  have i: "idequeue s = Some b" using ide_q_head [OF q] by simp
  show ?thesis
  proof (cases "intr_read s b")
    case None
    then show ?thesis
      using i s by (auto simp: ideintr_def kcode intr_read_def idewait_def split: if_splits option.splits)
  next
    case (Some x)
    obtain rs d w where x: "x = (rs, d, w)" by (cases x)
    show ?thesis
    proof (cases "b_dirty (bufs s ! b)")
      case True
      then have e: "rs = ide_stat s" "d = b_data (bufs s ! b)" "w = ide_data s" using Some x by (simp_all add: intr_read_def)
      show ?thesis using True i s unfolding Some x e
        by (simp add: ideintr_def kcode wakeup_eq upd_buf_def intr_bufs_def finished_def)
    next
      case False
      then obtain r where r: "ide_poll (ide_stat s) = Some (r, rs)" using Some x by (auto simp: intr_read_def split: option.splits)
      show ?thesis
      proof (cases "r AND 0x21 = 0")
        case True
        then have e: "d = concat (map (\<lambda>k. le32_enc (ide_data s k)) [0..<BSIZE div 4])" "w = (\<lambda>k. ide_data s (k + BSIZE div 4))"
          using Some x False r by (simp_all add: intr_read_def)
        show ?thesis using i s False r True unfolding Some x e
          by (simp add: ideintr_def kcode wakeup_eq upd_buf_def intr_bufs_def finished_def idewait_def ide_insl_def)
      next
        case err: False
        then have e: "d = b_data (bufs s ! b)" "w = ide_data s" using Some x False r by (simp_all add: intr_read_def)
        show ?thesis using i s False r err unfolding Some x e
          by (simp add: ideintr_def kcode wakeup_eq upd_buf_def intr_bufs_def finished_def idewait_def)
      qed
    qed
  qed
qed

lemma ide_q_tl:
  assumes "ide_q s (b # q)"
  shows "qnext s b = (case q of [] \<Rightarrow> None | c # _ \<Rightarrow> Some c)" "b \<notin> set q" "qlist (qnext s) (qnext s b) q" "distinct q" "set q \<subseteq> {..<NBUF}" "b < NBUF"
  using assms by (cases q; simp add: ide_q_def)+

text \<open>The interrupt that ends the active request \<open>b\<close>.\<close>

lemma ideintr_ok:
  fixes s :: "'z dst_scheme"
  assumes s: "held s = []" "length (procs s) = NPROC" "NBUF \<le> length (bufs s)" and q: "ide_q s (b # q)"
    and r: "intr_read s b = Some (rs, d, w)" and n: "q \<noteq> [] \<Longrightarrow> unat (b_blockno (bufs s ! hd q)) < FSSIZE \<and> ide_poll rs \<noteq> None"
  obtains t where "ideintr s = Ok () t" "ide_q t q" "held t = []" "procs t = map (wake (Ch_buf b)) (procs s)" "bufs t = intr_bufs b d (bufs s)"
    "slks t = slks s" "cur t = cur s" "disk t = disk s"
    "ide_cmds (ide_out t) = ide_cmds (ide_out s) @ (if q = [] then [] else [cmd_of (bufs s ! hd q)])"
proof -
  note tl = ide_q_tl [OF q]
  have b: "b < length (bufs s)" using tl(6) s(3) by simp
  let ?t = "s\<lparr>held := [L_ide], idequeue := qnext s b, ide_stat := rs, ide_data := w, bufs := intr_bufs b d (bufs s), procs := map (wake (Ch_buf b)) (procs s)\<rparr>"
  have run: "ideintr s = thenM (whenM (qnext s b \<noteq> None) (idestart (qnext s b))) (release L_ide) ?t"
    using ideintr_head [OF s(1,2) b q] r by simp
  have qt: "ide_q ?t q" using tl(3-5) by (simp add: ide_q_def)
  show ?thesis
  proof (cases q)
    case Nil
    then show ?thesis using run tl(1) qt by (intro that [of "?t\<lparr>held := []\<rparr>"]) (simp_all add: kcode ide_q_def)
  next
    case (Cons c cs)
    have c: "bufs ?t ! c = bufs s ! c" using tl(2) Cons by (auto simp: intr_bufs_def)
    obtain r' rs' where "ide_poll (ide_stat ?t) = Some (r', rs')" using n Cons by auto
    then obtain es where e: "idestart (Some c) ?t = Ok () (?t\<lparr>ide_out := ide_out s @ es, ide_stat := rs'\<rparr>)"
      "ide_cmds (ide_out s @ es) = ide_cmds (ide_out s) @ [cmd_of (bufs s ! c)]"
      using idestart_ok [of ?t c r' rs'] n Cons c by auto
    then show ?thesis
      using run tl(1) qt Cons by (intro that [of "?t\<lparr>ide_out := ide_out s @ es, ide_stat := rs', held := []\<rparr>"]) (simp_all add: kcode ide_q_def)
  qed
qed

lemma ideintr_OkD:
  fixes s :: "'z dst_scheme"
  assumes s: "held s = []" "length (procs s) = NPROC" "NBUF \<le> length (bufs s)" and q: "ide_q s (b # q)" and t: "ideintr s = Ok () t"
  obtains rs d w where "intr_read s b = Some (rs, d, w)" "q \<noteq> [] \<Longrightarrow> unat (b_blockno (bufs s ! hd q)) < FSSIZE \<and> ide_poll rs \<noteq> None"
proof -
  note tl = ide_q_tl [OF q]
  have b: "b < length (bufs s)" using tl(6) s(3) by simp
  note run = ideintr_head [OF s(1,2) b q]
  obtain rs d w where r: "intr_read s b = Some (rs, d, w)" using run t by (auto split: option.splits)
  have "unat (b_blockno (bufs s ! c)) < FSSIZE \<and> ide_poll rs \<noteq> None" if "q = c # cs" for c cs
  proof -
    have c: "intr_bufs b d (bufs s) ! c = bufs s ! c" using tl(2) that by (auto simp: intr_bufs_def)
    show ?thesis using run t r that tl(1) c by (auto simp: kcode split: outcome.splits dest!: idestart_OkD)
  qed
  then show ?thesis using that [OF r] by (cases q) auto
qed

section \<open>Runs of the driver\<close>

text \<open>
  The steps of a system that uses the driver: a process calls iderw() and
  goes to sleep (\<open>Some c\<close> is its request), an interrupt arrives, a process
  that was woken, or killed, in iderw() continues at the test of its loop and
  returns or sleeps again, kill() wakes a process, and everything else: buffers
  that no process has in iderw() change, and processes outside of iderw().
\<close>

definition in_iderw :: "proc \<Rightarrow> nat \<Rightarrow> bool" where
  "in_iderw p b \<longleftrightarrow> pchan p = Some (Ch_buf b)"

definition pids_differ :: "proc list \<Rightarrow> bool" where
  "pids_differ ps \<longleftrightarrow> inj_on (\<lambda>p. pid (ps ! p)) {p. p < NPROC \<and> pstate (ps ! p) \<noteq> UNUSED}"

definition runs :: "nat \<Rightarrow> 'z dst_scheme \<Rightarrow> 'z dst_scheme" where
  "runs p s = s\<lparr>held := [L_ptable], cur := Some p, procs := (procs s)[p := (procs s ! p)\<lparr>pstate := RUNNING\<rparr>]\<rparr>"

inductive idestep :: "'z dst_scheme \<Rightarrow> ide_cmd option \<Rightarrow> 'z dst_scheme \<Rightarrow> bool" where
  call: "cur s = Some p \<Longrightarrow> p < NPROC \<Longrightarrow> pstate (procs s ! p) = RUNNING \<Longrightarrow> (\<forall>b. \<not> in_iderw (procs s ! p) b) \<Longrightarrow> b < NBUF
    \<Longrightarrow> ide_rw b (s\<lparr>ide_stat := st\<rparr>) = Swtch t \<Longrightarrow> idestep s (Some (cmd_of (bufs s ! b))) (t\<lparr>held := [], cur := None\<rparr>)"
| intr: "ideintr (s\<lparr>ide_stat := st, ide_data := d\<rparr>) = Ok () t \<Longrightarrow> idestep s None t"
| returns: "p < NPROC \<Longrightarrow> pstate (procs s ! p) = RUNNABLE \<Longrightarrow> in_iderw (procs s ! p) b
    \<Longrightarrow> thenM (sleep_resume L_ide) (ide_wait b) (runs p s) = Ok () t \<Longrightarrow> idestep s None t"
| sleeps: "p < NPROC \<Longrightarrow> pstate (procs s ! p) = RUNNABLE \<Longrightarrow> in_iderw (procs s ! p) b
    \<Longrightarrow> thenM (sleep_resume L_ide) (ide_wait b) (runs p s) = Swtch t \<Longrightarrow> idestep s None (t\<lparr>held := [], cur := None\<rparr>)"
| killed: "p < NPROC \<Longrightarrow> idestep s None (s\<lparr>procs := (procs s)[p := kill_mark (procs s ! p)]\<rparr>)"
| buffers: "(\<forall>p < NPROC. \<not> in_iderw (procs s ! p) b)
    \<Longrightarrow> idestep s None (s\<lparr>bufs := (bufs s)[b := v], slks := (slks s)(SL_buf b := l)\<rparr>)"
| processes: "length ps = NPROC \<Longrightarrow> pids_differ ps
    \<Longrightarrow> (\<forall>p < NPROC. \<forall>b. in_iderw (procs s ! p) b \<or> in_iderw (ps ! p) b \<longrightarrow> ps ! p = procs s ! p)
    \<Longrightarrow> idestep s None (s\<lparr>procs := ps, cur := c\<rparr>)"

inductive ide_run :: "'z dst_scheme \<Rightarrow> ide_cmd list \<Rightarrow> 'z dst_scheme \<Rightarrow> bool" where
  start: "ide_run s [] s"
| step: "ide_run s cs t \<Longrightarrow> idestep t c u \<Longrightarrow> ide_run s (cs @ (case c of None \<Rightarrow> [] | Some x \<Rightarrow> [x])) u"

text \<open>
  The invariant: who is in iderw() holds the lock of the buffer and waits for
  it in the queue, or is runnable and its buffer is done; and every queued
  buffer has such a process.
\<close>

definition waits :: "'z dst_scheme \<Rightarrow> nat list \<Rightarrow> nat \<Rightarrow> nat \<Rightarrow> bool" where
  "waits s q p b \<longleftrightarrow> b < NBUF \<and> slks s (SL_buf b) = \<lparr>sl_locked = True, sl_pid = pid (procs s ! p)\<rparr>
     \<and> (b \<in> set q \<longrightarrow> (pstate (procs s ! p) = SLEEPING \<or> pstate (procs s ! p) = RUNNABLE) \<and> \<not> settled_buf (bufs s ! b))
     \<and> (b \<notin> set q \<longrightarrow> pstate (procs s ! p) = RUNNABLE \<and> settled_buf (bufs s ! b))"

lemma waits_cong:
  assumes "slks t (SL_buf b) = slks s (SL_buf b)" "procs t ! p = procs s ! p" "bufs t ! b = bufs s ! b" "b \<in> set q' \<longleftrightarrow> b \<in> set q"
  shows "waits t q' p b = waits s q p b"
  by (simp add: waits_def assms)

text \<open>The last command given to the controller is that of the first buffer of the queue.\<close>

definition active :: "'z dst_scheme \<Rightarrow> nat list \<Rightarrow> bool" where
  "active s q \<longleftrightarrow> (q \<noteq> [] \<longrightarrow> (\<exists>cs. ide_cmds (ide_out s) = cs @ [cmd_of (bufs s ! hd q)]))"

lemma active_cong: "ide_out t = ide_out s \<Longrightarrow> (q \<noteq> [] \<Longrightarrow> bufs t ! hd q = bufs s ! hd q) \<Longrightarrow> active t q = active s q"
  by (simp add: active_def)

definition ide_inv :: "'z dst_scheme \<Rightarrow> nat list \<Rightarrow> bool" where
  "ide_inv s q \<longleftrightarrow> held s = [] \<and> length (procs s) = NPROC \<and> pids_differ (procs s) \<and> NBUF \<le> length (bufs s) \<and> ide_q s q
     \<and> (\<forall>p < NPROC. \<forall>b. in_iderw (procs s ! p) b \<longrightarrow> waits s q p b)
     \<and> (\<forall>b \<in> set q. \<exists>p < NPROC. in_iderw (procs s ! p) b) \<and> active s q"

lemma ide_invD:
  assumes "ide_inv s q"
  shows "held s = []" "length (procs s) = NPROC" "pids_differ (procs s)" "NBUF \<le> length (bufs s)" "ide_q s q"
    "p < NPROC \<Longrightarrow> in_iderw (procs s ! p) b \<Longrightarrow> waits s q p b" "b \<in> set q \<Longrightarrow> \<exists>p < NPROC. in_iderw (procs s ! p) b" "active s q"
  using assms by (auto simp: ide_inv_def)

definition queued :: "'z dst_scheme \<Rightarrow> nat list \<Rightarrow> ide_cmd list" where
  "queued s q = map (\<lambda>b. cmd_of (bufs s ! b)) (tl q)"

text \<open>A process in iderw() is alive, and no other has the same buffer there.\<close>

lemma in_iderw_unique:
  assumes i: "ide_inv s q" and p: "p < NPROC" "in_iderw (procs s ! p) b" and p': "p' < NPROC" "in_iderw (procs s ! p') b"
  shows "p = p'"
proof -
  have w: "waits s q p b" "waits s q p' b" using ide_invD(6) [OF i] p p' by auto
  then have "pid (procs s ! p) = pid (procs s ! p')" by (simp add: waits_def)
  moreover have "pstate (procs s ! p) \<noteq> UNUSED" "pstate (procs s ! p') \<noteq> UNUSED" using w by (auto simp: waits_def)
  ultimately show ?thesis using ide_invD(3) [OF i] p(1) p'(1) by (auto simp: pids_differ_def inj_on_def)
qed

text \<open>Changes of the process table that keep the pids and who is alive.\<close>

lemma pids_differ_cong:
  assumes "pids_differ ps" "\<And>p. p < NPROC \<Longrightarrow> pid (ps' ! p) = pid (ps ! p) \<and> (pstate (ps' ! p) = UNUSED \<longleftrightarrow> pstate (ps ! p) = UNUSED)"
  shows "pids_differ ps'"
  using assms unfolding pids_differ_def by (auto simp: inj_on_def)

text \<open>Each step keeps the invariant, and hands on the requests in order.\<close>

definition ide_keeps :: "'z dst_scheme \<Rightarrow> nat list \<Rightarrow> ide_cmd list \<Rightarrow> 'z dst_scheme \<Rightarrow> bool" where
  "ide_keeps s q cs t \<longleftrightarrow> (\<exists>q'. ide_inv t q' \<and> ide_cmds (ide_out t) @ queued t q' = ide_cmds (ide_out s) @ queued s q @ cs)"

lemma call_keeps:
  fixes s :: "'z dst_scheme"
  assumes i: "ide_inv s q" and p: "cur s = Some p" "p < NPROC" "pstate (procs s ! p) = RUNNING" "\<forall>b. \<not> in_iderw (procs s ! p) b"
    and b: "b < NBUF" and w: "ide_rw b (s\<lparr>ide_stat := st\<rparr>) = Swtch t"
  shows "ide_keeps s q [cmd_of (bufs s ! b)] (t\<lparr>held := [], cur := None\<rparr>)"
proof -
  let ?s = "s\<lparr>ide_stat := st\<rparr>" let ?t = "t\<lparr>held := [], cur := None\<rparr>"
  note I = ide_invD [OF i]
  have k: "kok ?s" "cur ?s = Some p" "ide_q ?s q" using I(1,2,5) p(1,2) by (auto simp: kok_def)
  note D = ide_rw_asleepD [OF k(1) w]
  have sl: "slks s (SL_buf b) = \<lparr>sl_locked = True, sl_pid = pid (procs s ! p)\<rparr>" using D(1) p(1) by (simp add: mine_def mypid_def)
  have nb: "\<not> in_iderw (procs s ! p') b" if p': "p' < NPROC" for p'
  proof
    assume a: "in_iderw (procs s ! p') b"
    have x: "waits s q p' b" by (rule I(6) [OF p' a])
    then have "pid (procs s ! p') = pid (procs s ! p)" using sl by (simp add: waits_def)
    moreover have "pstate (procs s ! p') \<noteq> UNUSED" using x by (auto simp: waits_def)
    ultimately have "p' = p" using I(3) p(2,3) p' by (auto simp: pids_differ_def inj_on_def)
    then show False using a p(4) by simp
  qed
  then have bq: "b \<notin> set q" using I(7) by blast
  have d: "\<not> settled_buf (bufs ?s ! b)" "b_dev (bufs ?s ! b) = 0 \<or> havedisk1 ?s" "q = [] \<Longrightarrow> unat (b_blockno (bufs ?s ! b)) < FSSIZE"
    "q = [] \<Longrightarrow> ide_poll (ide_stat ?s) \<noteq> None" using D(2,3) D(4) k(3) b by auto
  obtain t' where t': "ide_rw b ?s = Swtch t'" "ide_q t' (q @ [b])" "held t' = [L_ptable]" "procs t' = fall_asleep p b (procs ?s)" "cur t' = cur ?s"
    "bufs t' = bufs ?s" "slks t' = slks ?s" "disk t' = disk ?s" "ide_cmds (ide_out t') = ide_cmds (ide_out ?s) @ (if q = [] then [cmd_of (bufs ?s ! b)] else [])"
    by (rule ide_rw_ok [OF k(1,2) D(1) d(1-3) k(3) bq b d(4)])
  have tt: "t' = t" using t'(1) w by simp
  have pr: "procs ?t ! p' = (if p' = p then (procs s ! p)\<lparr>pchan := Some (Ch_buf b), pstate := SLEEPING\<rparr> else procs s ! p')" if "p' < NPROC" for p'
    using t'(4) that I(2) by (simp add: tt fall_asleep_def nth_list_update)
  have inr: "in_iderw (procs ?t ! p') b' \<longleftrightarrow> (if p' = p then b' = b else in_iderw (procs s ! p') b')" if "p' < NPROC" for p' b'
    using pr [OF that] by (auto simp: in_iderw_def)
  have "waits ?t (q @ [b]) p' b'" if p': "p' < NPROC" "in_iderw (procs ?t ! p') b'" for p' b'
  proof (cases "p' = p")
    case True
    then show ?thesis using pr [OF p'(1)] inr [OF p'(1)] p'(2) b sl d(1) t' tt by (simp add: waits_def)
  next
    case False
    then have "waits s q p' b'" "b' \<noteq> b" using inr [OF p'(1)] p' I(6) nb by auto
    moreover have "waits ?t (q @ [b]) p' b' = waits s q p' b'"
      using \<open>b' \<noteq> b\<close> pr [OF p'(1)] False t' tt by (intro waits_cong) simp_all
    ultimately show ?thesis by simp
  qed
  moreover have "\<exists>p' < NPROC. in_iderw (procs ?t ! p') b'" if b': "b' \<in> set (q @ [b])" for b'
  proof (cases "b' = b")
    case True
    then show ?thesis using inr [OF p(2)] p(2) by auto
  next
    case False
    then obtain p' where "p' < NPROC" "in_iderw (procs s ! p') b'" using b' I(7) [of b'] by auto
    moreover have "p' \<noteq> p" using calculation p(4) by auto
    ultimately show ?thesis using inr [of p' b'] by auto
  qed
  moreover have "pids_differ (procs ?t)" by (rule pids_differ_cong [OF I(3)]) (use pr p(3) in auto)
  moreover have "length (procs ?t) = NPROC" "NBUF \<le> length (bufs ?t)" "ide_q ?t (q @ [b])" using t' tt I(2,4) by (simp_all add: fall_asleep_def)
  moreover have "active ?t (q @ [b])" using I(8) t'(6,9) tt by (cases q) (simp_all add: active_def)
  ultimately have "ide_inv ?t (q @ [b])" by (simp add: ide_inv_def)
  moreover have "ide_cmds (ide_out ?t) @ queued ?t (q @ [b]) = ide_cmds (ide_out s) @ queued s q @ [cmd_of (bufs s ! b)]"
    using t'(6,9) tt by (cases q) (simp_all add: queued_def)
  ultimately show ?thesis unfolding ide_keeps_def by blast
qed

lemma ideintr_idle:
  assumes "held s = []" "ide_q s []"
  shows "ideintr s = Ok () s"
  using assms by (simp add: ideintr_def kcode ide_q_def)

lemma in_iderw_wake [simp]: "in_iderw (wake ch p) b = in_iderw p b"
  by (simp add: in_iderw_def)

lemma intr_keeps:
  fixes s :: "'z dst_scheme"
  assumes i: "ide_inv s q" and t: "ideintr (s\<lparr>ide_stat := st, ide_data := dt\<rparr>) = Ok () t"
  shows "ide_keeps s q [] t"
proof (cases q)
  let ?s = "s\<lparr>ide_stat := st, ide_data := dt\<rparr>"
  note I = ide_invD [OF i]
  have S: "held ?s = []" "length (procs ?s) = NPROC" "NBUF \<le> length (bufs ?s)" "ide_q ?s q" using I by simp_all
  {
    case Nil
    then have "t = ?s" using ideintr_idle [OF S(1)] S(4) t by simp
    then have "ide_inv t q" using i by (simp add: ide_inv_def waits_def active_def)
    then show ?thesis using \<open>t = ?s\<close> unfolding ide_keeps_def by (intro exI [of _ q]) (simp add: queued_def)
  next
    case (Cons b q')
    have Q: "ide_q ?s (b # q')" using S(4) Cons by simp
    note tl = ide_q_tl [OF Q]
    obtain rs d w where r: "intr_read ?s b = Some (rs, d, w)" "q' \<noteq> [] \<Longrightarrow> unat (b_blockno (bufs ?s ! hd q')) < FSSIZE \<and> ide_poll rs \<noteq> None"
      by (rule ideintr_OkD [OF S(1-3) Q t]) blast
    obtain t' where t': "ideintr ?s = Ok () t'" "ide_q t' q'" "held t' = []" "procs t' = map (wake (Ch_buf b)) (procs ?s)" "bufs t' = intr_bufs b d (bufs ?s)"
      "slks t' = slks ?s" "cur t' = cur ?s" "disk t' = disk ?s"
      "ide_cmds (ide_out t') = ide_cmds (ide_out ?s) @ (if q' = [] then [] else [cmd_of (bufs ?s ! hd q')])"
      by (rule ideintr_ok [OF S(1-3) Q r])
    have tt: "t' = t" using t'(1) t by simp
    have pr: "procs t ! p = wake (Ch_buf b) (procs s ! p)" if "p < NPROC" for p using t'(4) that I(2) by (simp add: tt [symmetric])
    have bf: "bufs t ! c = bufs s ! c" if "c \<noteq> b" for c using t'(5) that by (simp add: tt [symmetric] intr_bufs_def)
    have fin: "settled_buf (bufs t ! b)" using t'(5) tl(6) I(4) by (simp add: tt [symmetric] intr_bufs_def finished_def settled_buf_def)
    have "waits t q' p c" if p: "p < NPROC" "in_iderw (procs t ! p) c" for p c
    proof -
      have pc: "in_iderw (procs s ! p) c" using p pr [OF p(1)] by simp
      have W: "waits s q p c" by (rule I(6) [OF p(1) pc])
      show ?thesis
      proof (cases "c = b")
        case True
        have "pstate (wake (Ch_buf b) (procs s ! p)) = RUNNABLE"
          using W pc True Cons by (auto simp: waits_def wake_def in_iderw_def)
        then show ?thesis using W True pr [OF p(1)] fin tl(2) t'(6) by (simp add: waits_def tt [symmetric])
      next
        case False
        then have "wake (Ch_buf b) (procs s ! p) = procs s ! p" using pc by (simp add: wake_def in_iderw_def)
        then have "waits t q' p c = waits s q p c" using pr [OF p(1)] bf [OF False] t'(6) False Cons by (intro waits_cong) (simp_all add: tt [symmetric])
        then show ?thesis using W by simp
      qed
    qed
    moreover have "\<exists>p < NPROC. in_iderw (procs t ! p) c" if "c \<in> set q'" for c
      using I(7) [of c] that Cons pr by auto
    moreover have "pids_differ (procs t)" by (rule pids_differ_cong [OF I(3)]) (use pr in \<open>auto simp: wake_def\<close>)
    moreover have "length (procs t) = NPROC" "NBUF \<le> length (bufs t)" "ide_q t q'" "held t = []" using t' I(2,4) by (simp_all add: tt [symmetric] intr_bufs_def)
    moreover have "active t q'"
    proof (cases q')
      case (Cons c cs)
      then have "c \<noteq> b" using tl(2) by auto
      then show ?thesis using t'(9) bf [of c] Cons by (simp add: active_def tt)
    qed (simp add: active_def)
    ultimately have "ide_inv t q'" by (simp add: ide_inv_def)
    moreover have "map (\<lambda>c. cmd_of (bufs t ! c)) q' = map (\<lambda>c. cmd_of (bufs s ! c)) q'"
    proof (rule map_cong [OF refl])
      fix c assume "c \<in> set q'"
      then have "c \<noteq> b" using tl(2) by auto
      then show "cmd_of (bufs t ! c) = cmd_of (bufs s ! c)" by (simp add: bf)
    qed
    then have "ide_cmds (ide_out t) @ queued t q' = ide_cmds (ide_out s) @ queued s q"
      using t'(9) Cons by (cases q') (simp_all add: queued_def tt)
    ultimately show ?thesis unfolding ide_keeps_def by auto
  }
qed

text \<open>A process that continues in iderw(): it returns when its buffer is done, and sleeps otherwise.\<close>

lemma resume_eq:
  fixes s :: "'z dst_scheme"
  assumes i: "ide_inv s q" and p: "p < NPROC"
  shows "thenM (sleep_resume L_ide) (ide_wait b) (runs p s) =
    (if settled_buf (bufs s ! b) then Ok () (s\<lparr>cur := Some p, procs := (procs s)[p := (procs s ! p)\<lparr>pstate := RUNNING, pchan := None\<rparr>], held := []\<rparr>)
     else Swtch (s\<lparr>cur := Some p, procs := (procs s)[p := (procs s ! p)\<lparr>pchan := Some (Ch_buf b), pstate := SLEEPING\<rparr>], held := [L_ptable]\<rparr>))"
proof -
  note I = ide_invD [OF i]
  let ?u = "s\<lparr>cur := Some p, procs := (procs s)[p := (procs s ! p)\<lparr>pstate := RUNNING, pchan := None\<rparr>], held := [L_ide]\<rparr>"
  have r: "sleep_resume L_ide (runs p s) = Ok () ?u" using I(2) p by (simp add: sleep_resume_def runs_def kcode)
  show ?thesis
    using r I(2) p sleep_eq [of ?u p L_ide "Ch_buf b"] by (simp add: kcode ide_wait_def settled_buf_def)
qed

text \<open>A change of one process that is in iderw().\<close>

lemma proc_keeps:
  fixes s :: "'z dst_scheme"
  assumes i: "ide_inv s q" and p: "p < NPROC" and x: "pid x = pid (procs s ! p)" "pstate x = UNUSED \<longleftrightarrow> pstate (procs s ! p) = UNUSED"
    and w: "\<And>b. in_iderw x b \<Longrightarrow> waits (s\<lparr>procs := (procs s)[p := x]\<rparr>) q p b" "\<And>b. b \<in> set q \<Longrightarrow> in_iderw (procs s ! p) b \<Longrightarrow> in_iderw x b"
  shows "ide_keeps s q [] (s\<lparr>procs := (procs s)[p := x], cur := c\<rparr>)"
proof -
  note I = ide_invD [OF i]
  let ?t = "s\<lparr>procs := (procs s)[p := x], cur := c\<rparr>"
  have pr: "procs ?t ! p' = (if p' = p then x else procs s ! p')" if "p' < NPROC" for p' using I(2) that by simp
  have "waits ?t q p' b" if p': "p' < NPROC" "in_iderw (procs ?t ! p') b" for p' b
  proof (cases "p' = p")
    case True
    then show ?thesis using w(1) [of b] p' pr [OF p'(1)] by (simp add: waits_def)
  next
    case False
    then have "waits ?t q p' b = waits s q p' b" using pr [OF p'(1)] by (intro waits_cong) simp_all
    then show ?thesis using I(6) [OF p'(1)] p' False pr [OF p'(1)] by simp
  qed
  moreover have "\<exists>p' < NPROC. in_iderw (procs ?t ! p') b" if "b \<in> set q" for b
  proof -
    obtain p' where "p' < NPROC" "in_iderw (procs s ! p') b" using I(7) [OF \<open>b \<in> set q\<close>] by auto
    then show ?thesis using pr w(2) [OF that] by (intro exI [of _ p']) auto
  qed
  moreover have "pids_differ (procs ?t)" by (rule pids_differ_cong [OF I(3)]) (use pr x in auto)
  moreover have "active ?t q" using I(8) by (simp add: active_def)
  ultimately have "ide_inv ?t q" using I(1,2,4,5) by (simp add: ide_inv_def)
  then show ?thesis unfolding ide_keeps_def by (intro exI [of _ q]) (simp add: queued_def)
qed

lemma ide_step_keeps:
  fixes s :: "'z dst_scheme"
  assumes "idestep s c t" "ide_inv s q"
  shows "ide_keeps s q (case c of None \<Rightarrow> [] | Some x \<Rightarrow> [x]) t"
  using assms
proof (cases rule: idestep.cases)
  case (call p b st t')
  then show ?thesis using call_keeps [OF assms(2)] by simp
next
  case (intr st d)
  then show ?thesis using intr_keeps [OF assms(2)] by simp
next
  case (returns p b)
  have d: "settled_buf (bufs s ! b)" and t: "t = s\<lparr>cur := Some p, procs := (procs s)[p := (procs s ! p)\<lparr>pstate := RUNNING, pchan := None\<rparr>], held := []\<rparr>"
    using returns(5) resume_eq [OF assms(2) returns(2)] by (auto split: if_splits)
  have "waits s q p b" by (rule ide_invD(6) [OF assms(2) returns(2,4)])
  then have "b \<notin> set q" using d by (auto simp: waits_def)
  then have "ide_keeps s q [] (s\<lparr>procs := (procs s)[p := (procs s ! p)\<lparr>pstate := RUNNING, pchan := None\<rparr>], cur := Some p\<rparr>)"
    using returns(3,4) by (intro proc_keeps [OF assms(2) returns(2)]) (auto simp: in_iderw_def)
  moreover have "t = s\<lparr>procs := (procs s)[p := (procs s ! p)\<lparr>pstate := RUNNING, pchan := None\<rparr>], cur := Some p\<rparr>"
    using t ide_invD(1) [OF assms(2)] by simp
  ultimately show ?thesis using returns(1) by simp
next
  case (sleeps p b t')
  let ?x = "(procs s ! p)\<lparr>pchan := Some (Ch_buf b), pstate := SLEEPING\<rparr>"
  have d: "\<not> settled_buf (bufs s ! b)" and t: "t' = s\<lparr>cur := Some p, procs := (procs s)[p := ?x], held := [L_ptable]\<rparr>"
    using sleeps(6) resume_eq [OF assms(2) sleeps(3)] by (auto split: if_splits)
  have w: "waits s q p b" by (rule ide_invD(6) [OF assms(2) sleeps(3,5)])
  then have "ide_keeps s q [] (s\<lparr>procs := (procs s)[p := ?x], cur := None\<rparr>)"
    using sleeps(4,5) d ide_invD(2) [OF assms(2)] sleeps(3)
    by (intro proc_keeps [OF assms(2) sleeps(3)]) (auto simp: in_iderw_def waits_def)
  moreover have "t = s\<lparr>procs := (procs s)[p := ?x], cur := None\<rparr>" using sleeps(2) t ide_invD(1) [OF assms(2)] by simp
  ultimately show ?thesis using sleeps(1) by simp
next
  case (killed p)
  have "kill_mark (procs s ! p) = (procs s ! p)\<lparr>killed := True, pstate := (if pstate (procs s ! p) = SLEEPING then RUNNABLE else pstate (procs s ! p))\<rparr>"
    by (simp add: kill_mark_def)
  then have "ide_keeps s q [] (s\<lparr>procs := (procs s)[p := kill_mark (procs s ! p)], cur := cur s\<rparr>)"
    using ide_invD(2,6) [OF assms(2)] killed(3)
    by (intro proc_keeps [OF assms(2) killed(3)]) (auto simp: in_iderw_def waits_def)
  then show ?thesis using killed(1,2) by simp
next
  case (buffers b v l)
  note I = ide_invD [OF assms(2)]
  have bq: "b \<notin> set q" using I(7) buffers(3) by blast
  have "waits t q p c" if p: "p < NPROC" "in_iderw (procs t ! p) c" for p c
  proof -
    have c: "c \<noteq> b" using p buffers(2,3) by auto
    then have "waits t q p c = waits s q p c" by (intro waits_cong) (simp_all add: buffers(2))
    then show ?thesis using I(6) [OF p(1)] p(2) buffers(2) by simp
  qed
  moreover have "active t q = active s q" using bq buffers(2) by (intro active_cong) (auto simp: neq_Nil_conv)
  ultimately have "ide_inv t q" using I buffers(2) by (simp add: ide_inv_def)
  moreover have "queued t q = queued s q"
    unfolding queued_def
  proof (rule map_cong [OF refl])
    fix c assume "c \<in> set (tl q)"
    then have "c \<noteq> b" using bq by (cases q) auto
    then show "cmd_of (bufs t ! c) = cmd_of (bufs s ! c)" using buffers(2) by simp
  qed
  ultimately show ?thesis using buffers(1,2) unfolding ide_keeps_def by (intro exI [of _ q]) simp
next
  case (processes ps cc)
  note I = ide_invD [OF assms(2)]
  have same: "ps ! p = procs s ! p" if "p < NPROC" "in_iderw (procs s ! p) c \<or> in_iderw (ps ! p) c" for p c using processes(5) that by blast
  have "waits t q p c" if p: "p < NPROC" "in_iderw (procs t ! p) c" for p c
  proof -
    have e: "ps ! p = procs s ! p" using same [OF p(1), of c] p(2) processes(2) by simp
    then have "waits t q p c = waits s q p c" by (intro waits_cong) (simp_all add: processes(2))
    then show ?thesis using I(6) [OF p(1)] p(2) processes(2) e by simp
  qed
  moreover have "\<exists>p < NPROC. in_iderw (procs t ! p) c" if "c \<in> set q" for c
  proof -
    obtain p where p: "p < NPROC" "in_iderw (procs s ! p) c" using I(7) [OF \<open>c \<in> set q\<close>] by blast
    then have "ps ! p = procs s ! p" using same [of p c] by blast
    then show ?thesis using p processes(2) by auto
  qed
  moreover have "active t q = active s q" by (intro active_cong) (simp_all add: processes(2))
  ultimately have "ide_inv t q" using I processes(2-4) by (simp add: ide_inv_def)
  then show ?thesis using processes(1,2) unfolding ide_keeps_def by (intro exI [of _ q]) (simp add: queued_def)
qed

section \<open>Properties\<close>

text \<open>The driver at rest: no request, and no process in iderw().\<close>

definition ide_idle :: "'z dst_scheme \<Rightarrow> bool" where
  "ide_idle s \<longleftrightarrow> held s = [] \<and> length (procs s) = NPROC \<and> pids_differ (procs s) \<and> NBUF \<le> length (bufs s) \<and> idequeue s = None
     \<and> (\<forall>p < NPROC. \<forall>b. \<not> in_iderw (procs s ! p) b) \<and> ide_out s = []"

lemma ide_run_inv:
  assumes "ide_run s0 cs s" "ide_idle s0"
  shows "\<exists>q. ide_inv s q \<and> ide_cmds (ide_out s) @ queued s q = cs"
  using assms
proof (induction rule: ide_run.induct)
  case (start s)
  then show ?case by (intro exI [of _ "[]"]) (simp add: ide_inv_def ide_idle_def ide_q_def queued_def ide_cmds_def active_def)
next
  case (step s cs t c u)
  then obtain q where "ide_inv t q" "ide_cmds (ide_out t) @ queued t q = cs" by blast
  then show ?case using ide_step_keeps [OF step.hyps(2)] unfolding ide_keeps_def by fastforce
qed

text \<open>
  C12: the queue of the IDE driver, over all interleavings of calls of iderw(),
  interrupts, wakeups and kills.  The queue is a well-formed list of different
  buffers; the controller is given the requests of the calls \<open>cs\<close> in their
  order, each just once, the first of the queue being the last one given; a
  process that sleeps in iderw() waits for a buffer of the queue, so that the
  interrupt for it will wake it, and for a buffer that has left the queue its
  process is runnable and will find it valid.
\<close>

theorem ide_requests_in_order:
  fixes s :: "'z dst_scheme"
  assumes "ide_run s0 cs s" and "ide_idle s0"
  shows "\<exists>q. ide_q s q \<and> ide_cmds (ide_out s) @ map (\<lambda>b. cmd_of (bufs s ! b)) (tl q) = cs
    \<and> (\<forall>b \<in> set q. \<exists>!p. p < NPROC \<and> in_iderw (procs s ! p) b)
    \<and> (\<forall>p < NPROC. \<forall>b. in_iderw (procs s ! p) b \<longrightarrow>
         (if b \<in> set q then \<not> settled_buf (bufs s ! b) else pstate (procs s ! p) = RUNNABLE \<and> settled_buf (bufs s ! b)))"
proof -
  obtain q where q: "ide_inv s q" "ide_cmds (ide_out s) @ queued s q = cs" using ide_run_inv [OF assms] by blast
  note I = ide_invD [OF q(1)]
  have "\<exists>!p. p < NPROC \<and> in_iderw (procs s ! p) b" if "b \<in> set q" for b
    using I(7) [OF that] in_iderw_unique [OF q(1)] by blast
  moreover have "if b \<in> set q then \<not> settled_buf (bufs s ! b) else pstate (procs s ! p) = RUNNABLE \<and> settled_buf (bufs s ! b)"
    if "p < NPROC" "in_iderw (procs s ! p) b" for p b using I(6) [OF that] by (simp add: waits_def)
  ultimately show ?thesis using I(5) q(2) unfolding queued_def by blast
qed

text \<open>A process that holds the lock of buffer 3 and reads block 5 of disk 1.\<close>

definition ide_boot :: dst where
  "ide_boot = \<lparr>held = [], cur = Some 0, procs = zero_proc\<lparr>pstate := RUNNING, pid := 1\<rparr> # replicate 63 zero_proc, nextpid = 2, initproc = Some 0,
     slks = (\<lambda>_. \<lparr>sl_locked = False, sl_pid = 0\<rparr>)(SL_buf 3 := \<lparr>sl_locked = True, sl_pid = 1\<rparr>), mem = (\<lambda>_. 0), kend = 0x80110000,
     use_lock = False, freelist = 0, kdata = 0x80108000, kpgdir = 0, cr3 = 0, esp0 = 0,
     bufs = (replicate (Suc NBUF) zero_buf)[3 := zero_buf\<lparr>b_dev := 1, b_blockno := 5\<rparr>], disk = replicate 64 (replicate BSIZE 0), dwrites = [],
     idequeue = None, qnext = (\<lambda>_. None), havedisk1 = True, ide_out = [], ide_stat = [], ide_data = (\<lambda>_. 0)\<rparr>"

lemma ide_boot_fields:
  "held ide_boot = []" "cur ide_boot = Some 0" "length (procs ide_boot) = NPROC" "procs ide_boot ! 0 = zero_proc\<lparr>pstate := RUNNING, pid := 1\<rparr>"
  "slks ide_boot (SL_buf 3) = \<lparr>sl_locked = True, sl_pid = 1\<rparr>" "bufs ide_boot ! 3 = zero_buf\<lparr>b_dev := 1, b_blockno := 5\<rparr>" "length (bufs ide_boot) = Suc NBUF"
  "disk ide_boot = replicate 64 (replicate BSIZE 0)" "idequeue ide_boot = None" "havedisk1 ide_boot" "ide_out ide_boot = []"
  by (simp_all add: ide_boot_def)

lemma ide_boot_proc: "p < NPROC \<Longrightarrow> p \<noteq> 0 \<Longrightarrow> procs ide_boot ! p = zero_proc"
  by (simp add: ide_boot_def nth_Cons')

lemma ide_boot_idle: "ide_idle ide_boot"
proof -
  have u: "pstate (procs ide_boot ! p) \<noteq> UNUSED \<longleftrightarrow> p = 0" if "p < NPROC" for p
    using ide_boot_proc [OF that] ide_boot_fields(4) by (cases "p = 0") (simp_all add: zero_proc_def)
  have c: "\<not> in_iderw (procs ide_boot ! p) b" if "p < NPROC" for p b
    using ide_boot_proc [OF that] ide_boot_fields(4) by (cases "p = 0") (simp_all add: zero_proc_def in_iderw_def)
  have "pids_differ (procs ide_boot)" unfolding pids_differ_def using u by (auto simp: inj_on_def)
  then show ?thesis using c by (simp add: ide_idle_def ide_boot_fields)
qed

lemma ide_boot_call:
  obtains s where "ide_run ide_boot [Rd 1 5] s" "idequeue s = Some 3" "in_iderw (procs s ! 0) 3" "bufs s = bufs ide_boot" "disk s = disk ide_boot"
    "held s = []" "length (procs s) = NPROC" "ide_q s [3]"
proof -
  let ?s = "ide_boot\<lparr>ide_stat := [0x40]\<rparr>"
  have k: "kok ?s" "cur ?s = Some 0" "mine (SL_buf 3) ?s" by (simp_all add: kok_def mine_def mypid_def ide_boot_fields)
  have v: "\<not> settled_buf (bufs ?s ! 3)" "b_dev (bufs ?s ! 3) = 0 \<or> havedisk1 ?s" "unat (b_blockno (bufs ?s ! 3)) < FSSIZE" "ide_poll (ide_stat ?s) \<noteq> None"
    by (simp_all add: ide_boot_fields settled_buf_def zero_buf_def)
  have q: "ide_q ?s []" by (simp add: ide_q_def ide_boot_fields)
  obtain t where t: "ide_rw 3 ?s = Swtch t" "ide_q t ([] @ [3])" "held t = [L_ptable]" "procs t = fall_asleep 0 3 (procs ?s)" "bufs t = bufs ?s" "disk t = disk ?s"
    by (rule ide_rw_ok [OF k v(1-3) q _ _ v(4)]) auto
  have "idestep ide_boot (Some (cmd_of (bufs ide_boot ! 3))) (t\<lparr>held := [], cur := None\<rparr>)"
    by (rule idestep.call [where p = 0, OF _ _ _ _ _ t(1)]) (simp_all add: ide_boot_fields in_iderw_def zero_proc_def)
  moreover have "cmd_of (bufs ide_boot ! 3) = Rd 1 5" by (simp add: ide_boot_fields cmd_of_def zero_buf_def)
  ultimately have "ide_run ide_boot [Rd 1 5] (t\<lparr>held := [], cur := None\<rparr>)" using ide_run.step [OF ide_run.start] by fastforce
  then show ?thesis
    using t(2-6) ide_q_head [OF t(2)] by (intro that [of "t\<lparr>held := [], cur := None\<rparr>"]) (simp_all add: fall_asleep_def in_iderw_def ide_boot_fields)
qed

theorem ide_requests_in_order_witness:
  "\<exists>s q. ide_run ide_boot [Rd 1 5] s \<and> ide_q s q \<and> ide_cmds (ide_out s) @ map (\<lambda>b. cmd_of (bufs s ! b)) (tl q) = [Rd 1 5]"
proof -
  obtain s where "ide_run ide_boot [Rd 1 5] s" by (rule ide_boot_call)
  then show ?thesis using ide_requests_in_order [OF _ ide_boot_idle] by blast
qed

text \<open>What a command does to the disk.\<close>

fun run_cmd :: "ide_cmd \<Rightarrow> bytes list \<Rightarrow> bytes list" where
  "run_cmd (Rd dr n) D = D"
| "run_cmd (Wr dr n d) D = D[unat n := d]"

text \<open>
  C13: the driver does what memide.c does.  When the interrupt for the first
  buffer \<open>b\<close> of the queue has run, and the controller had no error and gave the
  contents of the sector to a read command, the buffers are those after a call
  of memide.c's iderw() by the process that waits for \<open>b\<close>, the command that the
  controller had been given has the effect of that call on the disk, and the
  process is runnable.
\<close>

theorem ide_refines_memide:
  fixes s :: "'z dst_scheme"
  assumes "ide_run s0 cs s" and "ide_idle s0" and "idequeue s = Some b" and "p < NPROC" and "in_iderw (procs s ! p) b"
    and "\<not> b_dirty (bufs s ! b) \<Longrightarrow> (\<exists>r rs. ide_poll st = Some (r, rs) \<and> r AND 0x21 = 0)
      \<and> concat (map (\<lambda>k. le32_enc (d k)) [0..<BSIZE div 4]) = disk s ! unat (b_blockno (bufs s ! b))"
    and "ideintr (s\<lparr>ide_stat := st, ide_data := d\<rparr>) = Ok () t" and "Bio.iderw b (s\<lparr>cur := Some p\<rparr>) = Ok () u"
  shows "bufs t = bufs u \<and> run_cmd (last (ide_cmds (ide_out s))) (disk s) = disk u \<and> pstate (procs t ! p) = RUNNABLE"
proof -
  obtain q where q: "ide_inv s q" using ide_run_inv [OF assms(1,2)] by blast
  note I = ide_invD [OF q]
  obtain q' where Q: "q = b # q'" using ide_q_head [OF I(5)] assms(3) by (cases q) auto
  let ?s = "s\<lparr>ide_stat := st, ide_data := d\<rparr>" let ?v = "bufs s ! b"
  have S: "held ?s = []" "length (procs ?s) = NPROC" "NBUF \<le> length (bufs ?s)" "ide_q ?s (b # q')" using I Q by simp_all
  obtain rs x w where r: "intr_read ?s b = Some (rs, x, w)" "q' \<noteq> [] \<Longrightarrow> unat (b_blockno (bufs ?s ! hd q')) < FSSIZE \<and> ide_poll rs \<noteq> None"
    by (rule ideintr_OkD [OF S assms(7)]) blast
  obtain t' where "ideintr ?s = Ok () t'" "ide_q t' q'" "held t' = []" "procs t' = map (wake (Ch_buf b)) (procs ?s)" "bufs t' = intr_bufs b x (bufs ?s)"
    by (rule ideintr_ok [OF S r])
  then have t: "bufs t = intr_bufs b x (bufs s)" "procs t = map (wake (Ch_buf b)) (procs s)" using assms(7) by simp_all
  have w: "waits s q p b" by (rule I(6) [OF assms(4,5)])
  then have "pstate (procs t ! p) = RUNNABLE" using t(2) assms(4,5) I(2) Q by (auto simp: waits_def wake_def in_iderw_def)
  moreover have cmd: "last (ide_cmds (ide_out s)) = cmd_of ?v" using I(8) Q by (auto simp: active_def)
  have k: "kok (s\<lparr>cur := Some p\<rparr>)" "mine (SL_buf b) (s\<lparr>cur := Some p\<rparr>)" using w I(1,2) assms(4) by (auto simp: kok_def mine_def mypid_def waits_def)
  have b: "b < length (bufs s)" using ide_q_tl(6) [OF S(4)] I(4) by simp
  have "bufs t = bufs u \<and> run_cmd (cmd_of ?v) (disk s) = disk u"
  proof (cases "b_dirty ?v")
    case True
    then have "x = b_data ?v" using r(1) by (simp add: intr_read_def)
    then show ?thesis using assms(8) t(1) True b holdingsleep_mine [OF k]
      by (auto simp: iderw_def kcode upd_buf_def intr_bufs_def finished_write finished_read cmd_of_def split: if_splits)
  next
    case False
    then have "x = disk s ! unat (b_blockno ?v)" using r(1) assms(6) by (auto simp: intr_read_def)
    then show ?thesis using assms(8) t(1) False b holdingsleep_mine [OF k]
      by (auto simp: iderw_def kcode upd_buf_def intr_bufs_def finished_write finished_read cmd_of_def split: if_splits)
  qed
  ultimately show ?thesis using cmd by simp
qed

theorem ide_refines_memide_witness:
  "\<exists>s t u :: dst. ide_run ide_boot [Rd 1 5] s \<and> ideintr (s\<lparr>ide_stat := [0x40], ide_data := (\<lambda>_. 0)\<rparr>) = Ok () t
    \<and> Bio.iderw 3 (s\<lparr>cur := Some 0\<rparr>) = Ok () u \<and> bufs t = bufs u"
proof -
  obtain s where s: "ide_run ide_boot [Rd 1 5] s" "idequeue s = Some 3" "in_iderw (procs s ! 0) 3" "bufs s = bufs ide_boot" "disk s = disk ide_boot"
    "held s = []" "length (procs s) = NPROC" "ide_q s [3]" by (rule ide_boot_call)
  let ?s = "s\<lparr>ide_stat := [0x40], ide_data := (\<lambda>_. 0)\<rparr>"
  have v: "bufs s ! 3 = zero_buf\<lparr>b_dev := 1, b_blockno := 5\<rparr>" "length (bufs s) = Suc NBUF" "length (disk s) = 64" "disk s ! 5 = replicate BSIZE 0"
    using s(4,5) by (simp_all add: ide_boot_fields)
  have z: "concat (map (\<lambda>k. le32_enc 0) [0..<BSIZE div 4]) = replicate BSIZE 0" by code_simp
  have r: "intr_read ?s 3 = Some ([], concat (map (\<lambda>k. le32_enc 0) [0..<BSIZE div 4]), \<lambda>_. 0)" using v(1) by (simp add: intr_read_def zero_buf_def)
  obtain t where t: "ideintr ?s = Ok () t" by (rule ideintr_ok [OF _ _ _ _ r]) (use s(6-8) v(2) in auto)
  obtain q where q: "ide_inv s q" using ide_run_inv [OF s(1) ide_boot_idle] by blast
  have "waits s q 0 3" by (rule ide_invD(6) [OF q _ s(3)]) simp
  then have k: "kok (s\<lparr>cur := Some 0\<rparr>)" "mine (SL_buf 3) (s\<lparr>cur := Some 0\<rparr>)" using s(6,7) by (auto simp: kok_def mine_def mypid_def waits_def)
  obtain u where u: "Bio.iderw 3 (s\<lparr>cur := Some 0\<rparr>) = Ok () u"
    using holdingsleep_mine [OF k] v by (simp add: iderw_def kcode upd_buf_def zero_buf_def)
  have "bufs t = bufs u" using ide_refines_memide [OF s(1) ide_boot_idle s(2) _ s(3) _ t u] v z by (simp add: zero_buf_def)
  then show ?thesis using s(1) t u by blast
qed

text \<open>
  A read that fails is not noticed: ideintr() then leaves the data of the
  buffer as they were, marks the buffer valid and wakes the process, which
  takes them for the contents of the block.
\<close>

lemma ideintr_ignores_error:
  fixes s :: "'z dst_scheme"
  assumes "held s = []" "length (procs s) = NPROC" "NBUF \<le> length (bufs s)" "ide_q s [b]" "\<not> b_dirty (bufs s ! b)"
    and "ide_poll (ide_stat s) = Some (r, rs)" "r AND 0x21 \<noteq> 0"
  shows "\<exists>t. ideintr s = Ok () t \<and> b_data (bufs t ! b) = b_data (bufs s ! b) \<and> settled_buf (bufs t ! b)"
proof -
  have r: "intr_read s b = Some (rs, b_data (bufs s ! b), ide_data s)" using assms(5-7) by (simp add: intr_read_def)
  obtain t where "ideintr s = Ok () t" "bufs t = intr_bufs b (b_data (bufs s ! b)) (bufs s)" by (rule ideintr_ok [OF assms(1-4) r]) auto
  moreover have "b < length (bufs s)" using ide_q_tl(6) [OF assms(4)] assms(3) by simp
  ultimately show ?thesis by (intro exI [of _ t]) (simp add: intr_bufs_def finished_def settled_buf_def)
qed

end
