(* ===== verification/Proc_Fork.thy ===== *)
theory Proc_Fork
  imports Proc Vm_Copy
begin

text \<open>
  proc.c, fork() as a whole: what the child shares with the parent and what it
  gets a copy of, and what is given back when memory runs out.
\<close>

section \<open>States that differ outside memory\<close>

lemma vm_file_fields [simp]:
  fixes s :: "'z ost_scheme"
  shows "uvm_ok (s\<lparr>ftable := F\<rparr>) pd xs S = uvm_ok s pd xs S" "uvm_ok (s\<lparr>inodes := I\<rparr>) pd xs S = uvm_ok s pd xs S"
  by (simp_all add: uvm_ok_def pt_ok_def kmem_ok_def allocatable_def fun_eq_iff)

section \<open>Sharing the open files\<close>

text \<open>The child's descriptors and the file table after the loop over the descriptors \<open>js\<close> of a process with the table \<open>fs\<close>.\<close>

definition share_fds :: "nat option list \<Rightarrow> nat list \<Rightarrow> nat option list \<Rightarrow> nat option list" where
  "share_fds fs js gs = foldl (\<lambda>gs i. case fs ! i of None \<Rightarrow> gs | Some f \<Rightarrow> gs[i := Some f]) gs js"

definition bump_refs :: "nat option list \<Rightarrow> nat list \<Rightarrow> file_t list \<Rightarrow> file_t list" where
  "bump_refs fs js ft = foldl (\<lambda>ft i. case fs ! i of None \<Rightarrow> ft | Some f \<Rightarrow> ft[f := (ft ! f)\<lparr>f_ref := f_ref (ft ! f) + 1\<rparr>]) ft js"

lemma share_fds_all: "length gs = length fs \<Longrightarrow> \<forall>i < length fs. fs ! i = None \<longrightarrow> gs ! i = None \<Longrightarrow> share_fds fs [0..<length fs] gs = fs"
proof -
  assume l: "length gs = length fs" and n: "\<forall>i < length fs. fs ! i = None \<longrightarrow> gs ! i = None"
  have "share_fds fs [0..<k] gs = take k fs @ drop k gs" if "k \<le> length fs" for k
    using that
  proof (induction k)
    case (Suc k)
    have k: "k < length fs" using Suc.prems by simp
    have "share_fds fs [0..<Suc k] gs = (case fs ! k of None \<Rightarrow> take k fs @ drop k gs | Some f \<Rightarrow> (take k fs @ drop k gs)[k := Some f])"
      using Suc by (simp add: share_fds_def)
    also have "\<dots> = take (Suc k) fs @ drop (Suc k) gs"
      using k l n by (cases "fs ! k") (auto simp: take_Suc_conv_app_nth list_update_append Cons_nth_drop_Suc [symmetric])
    finally show ?case .
  qed (simp add: share_fds_def)
  from this [of "length fs"] show ?thesis using l by simp
qed

lemma bump_refs_count:
  assumes "\<forall>i \<in> set js. \<forall>f. fs ! i = Some f \<longrightarrow> f < length ft"
  shows "length (bump_refs fs js ft) = length ft
    \<and> (\<forall>f < length ft. f_ref (bump_refs fs js ft ! f) = f_ref (ft ! f) + int (length (filter (\<lambda>i. fs ! i = Some f) js)))"
  using assms
proof (induction js arbitrary: ft)
  case (Cons i js)
  show ?case
  proof (cases "fs ! i")
    case None
    then show ?thesis using Cons by (simp add: bump_refs_def)
  next
    case (Some g)
    let ?ft = "ft[g := (ft ! g)\<lparr>f_ref := f_ref (ft ! g) + 1\<rparr>]"
    have "length (bump_refs fs js ?ft) = length ?ft
      \<and> (\<forall>f < length ?ft. f_ref (bump_refs fs js ?ft ! f) = f_ref (?ft ! f) + int (length (filter (\<lambda>i. fs ! i = Some f) js)))"
      by (rule Cons.IH) (use Cons.prems in simp)
    moreover have "bump_refs fs (i # js) ft = bump_refs fs js ?ft" using Some by (simp add: bump_refs_def)
    moreover have "g < length ft" using Some Cons.prems by simp
    ultimately show ?thesis using Some by (auto simp: nth_list_update)
  qed
qed (simp add: bump_refs_def)

lemma bump_refs_pos:
  assumes "\<forall>i \<in> set js. \<forall>f. fs ! i = Some f \<longrightarrow> f < length ft" "f < length ft" "1 \<le> f_ref (ft ! f)"
  shows "1 \<le> f_ref (bump_refs fs js ft ! f)"
  using bump_refs_count [OF assms(1)] assms(2,3) by auto

lemma fork_files:
  fixes s :: "'z ost_scheme"
  assumes "held s = []" "c \<noteq> np" "np < length (procs s)"
    "\<forall>i \<in> set js. \<forall>f. ofile (procs s ! c) ! i = Some f \<longrightarrow> f < length (ftable s) \<and> 1 \<le> f_ref (ftable s ! f)"
  shows "foreachM js (fork_file c np) s = Ok () (s\<lparr>
      procs := (procs s)[np := (procs s ! np)\<lparr>ofile := share_fds (ofile (procs s ! c)) js (ofile (procs s ! np))\<rparr>],
      ftable := bump_refs (ofile (procs s ! c)) js (ftable s)\<rparr>)"
  using assms
proof (induction js arbitrary: s)
  case Nil
  then show ?case by (simp add: kcode share_fds_def bump_refs_def)
next
  case (Cons i js)
  let ?p = "procs s ! c" and ?q = "procs s ! np"
  show ?case
  proof (cases "ofile ?p ! i")
    case None
    then have "fork_file c np i s = Ok () s" by (simp add: fork_file_def kcode)
    moreover have "foreachM js (fork_file c np) s = Ok () (s\<lparr>procs := (procs s)[np := ?q\<lparr>ofile := share_fds (ofile ?p) js (ofile ?q)\<rparr>],
      ftable := bump_refs (ofile ?p) js (ftable s)\<rparr>)"
      by (rule Cons.IH) (use Cons.prems in auto)
    ultimately show ?thesis using None by (simp add: kcode share_fds_def bump_refs_def)
  next
    case (Some f)
    have f: "f < length (ftable s)" "1 \<le> f_ref (ftable s ! f)" using Cons.prems(4) Some by auto
    let ?ft = "(ftable s)[f := (ftable s ! f)\<lparr>f_ref := f_ref (ftable s ! f) + 1\<rparr>]"
    let ?q1 = "?q\<lparr>ofile := (ofile ?q)[i := Some f]\<rparr>"
    let ?s = "s\<lparr>procs := (procs s)[np := ?q1], ftable := ?ft\<rparr>"
    have one: "fork_file c np i s = Ok () ?s"
      using Some f Cons.prems(1) by (simp add: fork_file_def filedup_def kcode)
    have c: "procs ?s ! c = ?p" "procs ?s ! np = ?q1" using Cons.prems(2,3) by simp_all
    have "foreachM js (fork_file c np) ?s = Ok () (?s\<lparr>procs := (procs ?s)[np := (procs ?s ! np)\<lparr>ofile := share_fds (ofile (procs ?s ! c)) js (ofile (procs ?s ! np))\<rparr>],
      ftable := bump_refs (ofile (procs ?s ! c)) js (ftable ?s)\<rparr>)"
      by (rule Cons.IH) (use Cons.prems f in \<open>auto simp: nth_list_update\<close>)
    then show ?thesis using one Some unfolding c by (simp add: kcode share_fds_def bump_refs_def)
  qed
qed

section \<open>The new process\<close>

definition embryo :: "'z pst_scheme \<Rightarrow> nat \<Rightarrow> u32 \<Rightarrow> 'z pst_scheme" where
  "embryo s np x = s\<lparr>procs := (procs s)[np := (procs s ! np)\<lparr>pstate := EMBRYO, pid := nextpid s, kstack := x, ctx_eip := forkret_addr s\<rparr>],
     nextpid := nextpid s + 1, freelist := load32 (mem s) x, mem := kstack_init (mem s) x (trapret_addr s) (forkret_addr s)\<rparr>"

lemma allocproc_embryo:
  assumes h: "held s = []" and l: "length (procs s) = NPROC" and km: "kmem_ok s (x # xs)"
    and slot: "find (\<lambda>i. pstate (procs s ! i) = UNUSED) [0..<NPROC] = Some np"
  shows "allocproc s = Ok (Some np) (embryo s np x)"
proof -
  have np: "np < NPROC" using slot by (auto simp: find_Some_iff)
  have "freelist s = x" "x \<noteq> 0" using km allocatable_nz [of s x] by (auto simp: kmem_ok_def)
  then show ?thesis
    using slot h np l by (simp add: allocproc_def kcode findM_pure kalloc_eq storeM_def embryo_def kstack_init_def del: upt_Suc)
qed

lemma kstack_init_other: "page x \<Longrightarrow> PGROUNDDOWN z \<noteq> x \<Longrightarrow> kstack_init m x tr fr z = m z"
proof -
  assume px: "page x" and z: "PGROUNDDOWN z \<noteq> x"
  have off: "kstack_init m x tr fr = store32 (memset (store32 m (x + 4 * 1004) tr) (x + 3996) 0 20) (x + 4 * 1003) fr"
    by (simp add: kstack_init_def add.commute)
  have "\<not> in_range (x + 3996) 20 z"
  proof
    assume r: "in_range (x + 3996) 20 z"
    define d where "d = z - (x + 3996)"
    have "unat d < 20" using r by (simp add: in_range_def d_def)
    then have "unat (d + 3996) < 4096" by (simp add: unat_word_ariths)
    then have "in_range x 4096 z" by (simp add: in_range_def d_def)
    then show False using z in_page [OF px] by simp
  qed
  then have mid: "memset m' (x + 3996) 0 20 z = m' z" for m' by (simp add: memset_eq)
  have st: "store32 m' (x + 4 * k) w z = m' z" if "k < 1024" for m' w k by (rule store32_page [OF px that z])
  have lt: "(1003 :: u32) < 1024" "(1004 :: u32) < 1024" by (simp_all add: word_less_nat_alt)
  show ?thesis unfolding off by (simp only: st [OF lt(1)] st [OF lt(2)] mid)
qed

lemma embryo_uvm:
  assumes ok: "uvm_ok s pd (x # xs) S"
  shows "uvm_ok (embryo s np x) pd xs S" "copied (mem s) pd (mem (embryo s np x)) pd S"
    and "owned (mem (embryo s np x)) pd S = owned (mem s) pd S" "allocatable s x" "x \<notin> set xs" "x \<notin> owned (mem s) pd S"
    and "PGROUNDDOWN z \<noteq> x \<Longrightarrow> mem (embryo s np x) z = mem s z"
proof -
  define m where "m = kstack_init (mem s) x (trapret_addr s) (forkret_addr s)"
  let ?t = "s\<lparr>freelist := load32 (mem s) x, mem := m\<rparr>"
  note ka = uvm_ok_kalloc [OF ok]
  have px: "page x" using ka(3) by (simp add: allocatable_def)
  have out: "m z = mem s z" if "PGROUNDDOWN z \<noteq> x" for z
    unfolding m_def by (rule kstack_init_other [OF px that])
  have fr: "mframe {x} s ?t" using out by (auto simp: mframe_def)
  have "kmem_ok s (x # xs)" using ok by (simp add: uvm_ok_def pt_ok_def)
  then have "kmem_ok ((s\<lparr>freelist := load32 (mem s) x\<rparr>)\<lparr>mem := m\<rparr>) xs"
    using ka(6) by (intro kmem_ok_mem [OF kalloc_Cons(2)]) (auto intro!: out)
  then have kt: "kmem_ok ?t xs" by simp
  have "{x} \<inter> owned (mem s) pd S = {}" "set xs \<inter> owned (mem s) pd S = {}"
    using ka(5) ok by (auto simp: uvm_ok_def pt_ok_def owned_def)
  note k = uvm_ok_keep [OF ok fr kt this]
  show "allocatable s x" "x \<notin> set xs" "x \<notin> owned (mem s) pd S" using ka by simp_all
  have e: "embryo s np x = ?t\<lparr>procs := procs (embryo s np x), nextpid := nextpid (embryo s np x)\<rparr>"
    by (simp add: embryo_def m_def)
  show "uvm_ok (embryo s np x) pd xs S" by (subst e) (simp only: vm_other_fields k(1))
  show "copied (mem s) pd (mem (embryo s np x)) pd S"
    using umatch_copied [OF k(2) ok, of S] by (simp add: embryo_def m_def)
  show "owned (mem (embryo s np x)) pd S = owned (mem s) pd S" using k(3) by (simp add: embryo_def m_def)
  show "mem (embryo s np x) z = mem s z" if "PGROUNDDOWN z \<noteq> x" using out [OF that] by (simp add: embryo_def m_def)
qed

text \<open>fork() behind its allocation of the process: when the copy of the memory failed, and when it did not.\<close>

definition fork_fails :: "nat \<Rightarrow> ('z pst_scheme, int) kfun" where
  "fork_fails np =
     bindM (get_proc np) (\<lambda>q.
     thenM (kfree (kstack q))
     (thenM (upd_proc np (\<lambda>q. q\<lparr>kstack := 0, pstate := UNUSED\<rparr>))
     (retM (-1))))"

definition fork_child :: "nat \<Rightarrow> proc \<Rightarrow> nat \<Rightarrow> ('z pst_scheme, int) kfun" where
  "fork_child c p np =
     thenM (upd_proc np (\<lambda>q. q\<lparr>sz := sz p, parent := Some c, tf := (tf p)\<lparr>tf_eax := 0\<rparr>\<rparr>))
     (thenM (foreachM [0..<NOFILE] (fork_file c np))
     (bindM (case cwd p of None \<Rightarrow> faultM ''idup: null inode'' | Some ip \<Rightarrow> idup ip) (\<lambda>ip.
     thenM (upd_proc np (\<lambda>q. q\<lparr>cwd := Some ip\<rparr>))
     (thenM (upd_proc np (set_name (pname p)))
     (bindM (get_proc np) (\<lambda>q.
     thenM (acquire L_ptable)
     (thenM (upd_proc np (\<lambda>q. q\<lparr>pstate := RUNNABLE\<rparr>))
     (thenM (release L_ptable)
     (retM (pid q))))))))))"

lemma fork_split:
  assumes "cur s = Some c" "allocproc s = Ok (Some np) u" "copyuvm (pgdir (procs u ! c)) (sz (procs u ! c)) u = Ok pd t"
  shows "fork s = (if pd = 0 then fork_fails np else fork_child c (procs u ! c) np) (t\<lparr>procs := (procs t)[np := (procs t ! np)\<lparr>pgdir := pd\<rparr>]\<rparr>)"
  using assms by (simp add: fork_def kcode fork_fails_def fork_child_def del: upt_Suc)

lemma fork_fails_ok:
  fixes t :: "'z pst_scheme"
  assumes np: "np < length (procs t)" and ok: "uvm_ok t pd ys S" and k: "k = kstack (procs t ! np)"
    "allocatable t k" "k \<notin> set ys" "k \<notin> owned (mem t) pd S"
  shows "\<exists>u. fork_fails np t = Ok (-1) u \<and> procs u = (procs t)[np := (procs t ! np)\<lparr>kstack := 0, pstate := UNUSED\<rparr>]
    \<and> held u = held t \<and> ftable u = ftable t \<and> inodes u = inodes t \<and> uvm_ok u pd (k # ys) S \<and> copied (mem t) pd (mem u) pd S
    \<and> (\<forall>z. PGROUNDDOWN z \<noteq> k \<longrightarrow> mem u z = mem t z)"
proof -
  let ?u = "t\<lparr>mem := freed (mem t) k (freelist t), freelist := k\<rparr>"
  note kf = uvm_ok_kfree [OF ok k(2-4)]
  have "copied (mem t) pd (mem ?u) pd S" by (rule umatch_copied [OF kf(3) ok]) simp
  moreover have "mem ?u z = mem t z" if "PGROUNDDOWN z \<noteq> k" for z
    using k(2) that by (simp add: allocatable_def in_page freed_other)
  ultimately show ?thesis using kf(1,2) k(1) np by (auto simp: fork_fails_def kcode)
qed

lemma fork_child_ok:
  fixes t :: "'z pst_scheme"
  assumes h: "held t = []" and np: "np < length (procs t)" "c \<noteq> np" and p: "procs t ! c = p" "length (ofile p) = NOFILE" "cwd p = Some ip"
    and refs: "\<forall>f. Some f \<in> set (ofile p) \<longrightarrow> f < length (ftable t) \<and> 1 \<le> f_ref (ftable t ! f)"
    and new: "ofile (procs t ! np) = replicate NOFILE None"
  defines "q \<equiv> (set_name (pname p) ((procs t ! np)\<lparr>sz := sz p, parent := Some c, tf := (tf p)\<lparr>tf_eax := 0\<rparr>, ofile := ofile p, cwd := Some ip\<rparr>))\<lparr>pstate := RUNNABLE\<rparr>"
  shows "fork_child c p np t = Ok (pid (procs t ! np)) (t\<lparr>procs := (procs t)[np := q],
      ftable := bump_refs (ofile p) [0..<NOFILE] (ftable t), inodes := (inodes t)[ip := (inodes t ! ip)\<lparr>i_ref := i_ref (inodes t ! ip) + 1\<rparr>]\<rparr>)"
proof -
  let ?q1 = "(procs t ! np)\<lparr>sz := sz p, parent := Some c, tf := (tf p)\<lparr>tf_eax := 0\<rparr>\<rparr>"
  let ?t1 = "t\<lparr>procs := (procs t)[np := ?q1]\<rparr>"
  have fs: "\<forall>i \<in> set [0..<NOFILE]. \<forall>f. ofile (procs ?t1 ! c) ! i = Some f \<longrightarrow> f < length (ftable ?t1) \<and> 1 \<le> f_ref (ftable ?t1 ! f)"
    using refs p np(2) nth_mem [of _ "ofile p"] by (auto simp del: upt_Suc) (metis nth_mem)+
  have "foreachM [0..<NOFILE] (fork_file c np) ?t1 = Ok () (?t1\<lparr>
      procs := (procs ?t1)[np := (procs ?t1 ! np)\<lparr>ofile := share_fds (ofile (procs ?t1 ! c)) [0..<NOFILE] (ofile (procs ?t1 ! np))\<rparr>],
      ftable := bump_refs (ofile (procs ?t1 ! c)) [0..<NOFILE] (ftable ?t1)\<rparr>)"
    by (rule fork_files [OF _ np(2) _ fs]) (use h np in simp_all)
  moreover have "share_fds (ofile p) [0..<NOFILE] (replicate NOFILE None) = ofile p"
    using share_fds_all [of "replicate NOFILE None" "ofile p"] p(2) by (simp del: upt_Suc)
  ultimately have "foreachM [0..<NOFILE] (fork_file c np) ?t1 = Ok () (t\<lparr>procs := (procs t)[np := ?q1\<lparr>ofile := ofile p\<rparr>],
      ftable := bump_refs (ofile p) [0..<NOFILE] (ftable t)\<rparr>)"
    using np p new by (simp del: upt_Suc)
  then show ?thesis
    using h np p(3) by (simp add: fork_child_def kcode idup_def upd_inode_def q_def set_name_def del: upt_Suc)
qed

text \<open>What fork() relies on: a running process with a well-formed address space, open files that are counted, and a free slot.\<close>

definition forkable :: "'z pst_scheme \<Rightarrow> nat \<Rightarrow> nat \<Rightarrow> nat \<Rightarrow> u32 list \<Rightarrow> bool" where
  "forkable s c np ip xs \<longleftrightarrow> (let p = procs s ! c in
     held s = [] \<and> length (procs s) = NPROC \<and> cur s = Some c \<and> c < NPROC \<and> pstate p \<noteq> UNUSED
     \<and> find (\<lambda>i. pstate (procs s ! i) = UNUSED) [0..<NPROC] = Some np \<and> ofile (procs s ! np) = replicate NOFILE None
     \<and> uvm_ok s (pgdir p) xs (upages (sz p)) \<and> sz p \<le> KERNBASE \<and> kdata_ok (kdata s)
     \<and> length (ofile p) = NOFILE \<and> (\<forall>f. Some f \<in> set (ofile p) \<longrightarrow> f < length (ftable s) \<and> 1 \<le> f_ref (ftable s ! f))
     \<and> cwd p = Some ip)"

text \<open>The states in which fork() finds itself once it has a slot, a kernel stack and the outcome of copyuvm().\<close>

lemma fork_copies:
  fixes s :: "'z pst_scheme"
  assumes ok: "forkable s c np ip (x # xs)"
  defines "p \<equiv> procs s ! c" and "S \<equiv> upages (sz (procs s ! c))"
  obtains pd t ys where "fork s = (if pd = 0 then fork_fails np else fork_child c p np) t" "held t = []" "ftable t = ftable s" "inodes t = inodes s"
    "\<forall>z. PGROUNDDOWN z \<notin> set (x # xs) \<longrightarrow> mem t z = mem s z" "procs t ! np = (procs s ! np)\<lparr>pstate := EMBRYO, pid := nextpid s, kstack := x, ctx_eip := forkret_addr s, pgdir := pd\<rparr>"
    "\<forall>j. j \<noteq> np \<longrightarrow> procs t ! j = procs s ! j" "np < length (procs t)"
    "uvm_ok t (pgdir p) ys S" "copied (mem s) (pgdir p) (mem t) (pgdir p) S" "allocatable t x" "x \<notin> set xs"
    "pd = 0 \<and> set ys = set xs \<and> x \<notin> owned (mem t) (pgdir p) S \<and> scarce (set xs) (sz p)
     \<or> pd \<noteq> 0 \<and> uvm_ok t pd ys S \<and> copied (mem s) (pgdir p) (mem t) pd S \<and> owned (mem t) pd S \<union> set ys = set xs"
proof -
  have h: "held s = []" "length (procs s) = NPROC" "cur s = Some c" "c < NPROC" "pstate p \<noteq> UNUSED"
    and slot: "find (\<lambda>i. pstate (procs s ! i) = UNUSED) [0..<NPROC] = Some np"
    and vm: "uvm_ok s (pgdir p) (x # xs) S" "sz p \<le> KERNBASE" "kdata_ok (kdata s)"
    using ok by (simp_all add: forkable_def Let_def p_def S_def del: upt_Suc)
  have np: "np < NPROC" "c \<noteq> np" using slot h(5) by (auto simp: find_Some_iff p_def)
  let ?u = "embryo s np x"
  have km: "kmem_ok s (x # xs)" using vm(1) by (simp add: uvm_ok_def pt_ok_def)
  have ap: "allocproc s = Ok (Some np) ?u" by (rule allocproc_embryo [OF h(1,2) km slot])
  note eu = embryo_uvm(1-3) [OF vm(1), where np = np] embryo_uvm(4-6) [OF vm(1)] embryo_uvm(7) [OF vm(1), where np = np]
  have pu: "procs ?u ! c = p" "kdata ?u = kdata s" using np(2) by (simp_all add: embryo_def p_def)
  obtain pd t ys where t: "copyuvm (pgdir p) (sz p) ?u = Ok pd t" "uvm_ok t (pgdir p) ys S" "umatch ?u t (pgdir p) S" "mframe (set xs) ?u t"
    and c: "pd = 0 \<and> set ys = set xs \<and> scarce (set xs) (sz p) \<or> pd \<noteq> 0 \<and> uvm_ok t pd ys S \<and> copied (mem ?u) (pgdir p) (mem t) pd S \<and> owned (mem t) pd S \<union> set ys = set xs"
    using copyuvm_ok [OF eu(1) [unfolded S_def, folded p_def] vm(2), unfolded pu(2), OF vm(3)] by (auto simp: S_def p_def)
  obtain m fr where te: "t = ?u\<lparr>mem := m, freelist := fr\<rparr>" using mframeD(1) [OF t(4)] by (auto simp: memonly_def)
  have nx: "x \<notin> owned (mem t) (pgdir p) S" if "set ys = set xs"
  proof -
    have "set xs \<inter> owned (mem ?u) (pgdir p) S = {}" using eu(1) by (auto simp: uvm_ok_def pt_ok_def owned_def)
    moreover have "kmem_ok t ys" "set ys \<inter> owned (mem ?u) (pgdir p) S = {}" using t(2) that calculation by (auto simp: uvm_ok_def pt_ok_def)
    ultimately have "owned (mem t) (pgdir p) S = owned (mem ?u) (pgdir p) S" using uvm_ok_keep(3) [OF eu(1) t(4)] by blast
    then show ?thesis using eu(3,6) by simp
  qed
  have cp: "copied (mem s) (pgdir p) (mem t) (pgdir p) S"
    by (rule copied_trans [OF eu(2) umatch_copied [OF t(3) eu(1)]]) simp
  let ?t = "t\<lparr>procs := (procs t)[np := (procs t ! np)\<lparr>pgdir := pd\<rparr>]\<rparr>"
  have run: "fork s = (if pd = 0 then fork_fails np else fork_child c p np) ?t"
    using fork_split [OF h(3) ap] t(1) pu(1) by simp
  have fr: "\<forall>z. PGROUNDDOWN z \<notin> set (x # xs) \<longrightarrow> mem t z = mem s z" using mframeD(2) [OF t(4)] eu(7) by auto
  have pt: "procs t = procs ?u" "held t = []" "ftable t = ftable s" "inodes t = inodes s" "allocatable t x"
    using h(1) eu(4) by (simp_all add: te embryo_def allocatable_def)
  have "copied (mem s) (pgdir p) (mem t) pd S" if "copied (mem ?u) (pgdir p) (mem t) pd S" by (rule copied_trans [OF eu(2) that])
  then show ?thesis
    using pt fr np(1) h(2) t(2) eu(5) c nx cp by (intro that [OF run, of ys]) (auto simp: embryo_def)
qed

text \<open>
  C27: fork().  No memory changes outside the pages that were on the free list,
  so every process keeps its memory, and no slot of the table but the child's
  changes.  Either the call returns -1, the slot is free again, the files and
  inodes are as before and every page it took is back on the free list, which
  happens only if the pages left after the kernel stack are no more than an
  address space of that size can need; or it returns the new process's pid, and
  the child is runnable, has the caller as parent, the caller's registers with
  0 in eax, a kernel stack of its own, a context that starts in forkret(), the
  same open files, each counted once more for every descriptor of the child,
  the same directory, whose inode has one more reference and is the only inode
  to change, and a copy of the caller's memory, permissions included, in pages
  that came off the free list.
\<close>

theorem fork_spec:
  fixes s :: "'z pst_scheme"
  assumes ok: "forkable s c np ip (x # xs)"
  defines "p \<equiv> procs s ! c" and "S \<equiv> upages (sz (procs s ! c))"
  shows "\<exists>r t ys. fork s = Ok r t \<and> held t = [] \<and> (\<forall>j. j \<noteq> np \<longrightarrow> procs t ! j = procs s ! j)
    \<and> uvm_ok t (pgdir p) ys S \<and> copied (mem s) (pgdir p) (mem t) (pgdir p) S
    \<and> (\<forall>z. PGROUNDDOWN z \<notin> set (x # xs) \<longrightarrow> mem t z = mem s z)
    \<and> (r = -1 \<and> pstate (procs t ! np) = UNUSED \<and> ftable t = ftable s \<and> inodes t = inodes s \<and> set ys = set (x # xs) \<and> scarce (set xs) (sz p)
       \<or> r = nextpid s \<and> (\<exists>q. procs t ! np = q \<and> pid q = nextpid s \<and> pstate q = RUNNABLE \<and> parent q = Some c \<and> sz q = sz p
           \<and> tf q = (tf p)\<lparr>tf_eax := 0\<rparr> \<and> ctx_eip q = forkret_addr s \<and> ofile q = ofile p \<and> cwd q = cwd p
           \<and> inodes t = (inodes s)[ip := (inodes s ! ip)\<lparr>i_ref := i_ref (inodes s ! ip) + 1\<rparr>]
           \<and> (\<forall>f < length (ftable s). f_ref (ftable t ! f) = f_ref (ftable s ! f) + int (length (filter (\<lambda>i. ofile p ! i = Some f) [0..<NOFILE])))
           \<and> uvm_ok t (pgdir q) ys S \<and> copied (mem s) (pgdir p) (mem t) (pgdir q) S
           \<and> kstack q \<notin> owned (mem t) (pgdir q) S \<union> set ys
           \<and> insert (kstack q) (owned (mem t) (pgdir q) S \<union> set ys) = set (x # xs)))"
proof -
  have slot: "find (\<lambda>i. pstate (procs s ! i) = UNUSED) [0..<NPROC] = Some np" "ofile (procs s ! np) = replicate NOFILE None" "pstate p \<noteq> UNUSED"
    and fl: "length (ofile p) = NOFILE" "\<forall>f. Some f \<in> set (ofile p) \<longrightarrow> f < length (ftable s) \<and> 1 \<le> f_ref (ftable s ! f)" "cwd p = Some ip"
    using ok by (simp_all add: forkable_def Let_def p_def S_def del: upt_Suc)
  have np: "c \<noteq> np" using slot(1,3) by (auto simp: find_Some_iff p_def)
  obtain pd t ys where run: "fork s = (if pd = 0 then fork_fails np else fork_child c p np) t" and t: "held t = []" "ftable t = ftable s" "inodes t = inodes s"
    and fr: "\<forall>z. PGROUNDDOWN z \<notin> set (x # xs) \<longrightarrow> mem t z = mem s z"
    and q: "procs t ! np = (procs s ! np)\<lparr>pstate := EMBRYO, pid := nextpid s, kstack := x, ctx_eip := forkret_addr s, pgdir := pd\<rparr>"
    and other: "\<forall>j. j \<noteq> np \<longrightarrow> procs t ! j = procs s ! j" and lt: "np < length (procs t)"
    and vm: "uvm_ok t (pgdir p) ys S" "copied (mem s) (pgdir p) (mem t) (pgdir p) S" and x: "allocatable t x" "x \<notin> set xs"
    and c: "pd = 0 \<and> set ys = set xs \<and> x \<notin> owned (mem t) (pgdir p) S \<and> scarce (set xs) (sz p)
     \<or> pd \<noteq> 0 \<and> uvm_ok t pd ys S \<and> copied (mem s) (pgdir p) (mem t) pd S \<and> owned (mem t) pd S \<union> set ys = set xs"
    unfolding p_def S_def by (rule fork_copies [OF ok])
  show ?thesis
  proof (cases "pd = 0")
    case True
    then have ys: "set ys = set xs" "x \<notin> owned (mem t) (pgdir p) S" "scarce (set xs) (sz p)" using c by simp_all
    obtain u where u: "fork_fails np t = Ok (-1) u" "procs u = (procs t)[np := (procs t ! np)\<lparr>kstack := 0, pstate := UNUSED\<rparr>]"
      "held u = held t" "ftable u = ftable t" "uvm_ok u (pgdir p) (x # ys) S" "copied (mem t) (pgdir p) (mem u) (pgdir p) S"
      "inodes u = inodes t" "\<forall>z. PGROUNDDOWN z \<noteq> x \<longrightarrow> mem u z = mem t z"
      using fork_fails_ok [OF lt vm(1) _ x(1)] x(2) ys q by auto
    have "copied (mem s) (pgdir p) (mem u) (pgdir p) S" by (rule copied_trans [OF vm(2) u(6)])
    then show ?thesis
      using run True u(1-5,7,8) t ys fr other lt by (intro exI [of _ "-1"] exI [of _ u] exI [of _ "x # ys"]) auto
  next
    case False
    let ?q = "(set_name (pname p) ((procs t ! np)\<lparr>sz := sz p, parent := Some c, tf := (tf p)\<lparr>tf_eax := 0\<rparr>, ofile := ofile p, cwd := Some ip\<rparr>))\<lparr>pstate := RUNNABLE\<rparr>"
    let ?v = "t\<lparr>procs := (procs t)[np := ?q], ftable := bump_refs (ofile p) [0..<NOFILE] (ftable t),
      inodes := (inodes t)[ip := (inodes t ! ip)\<lparr>i_ref := i_ref (inodes t ! ip) + 1\<rparr>]\<rparr>"
    have "fork_child c p np t = Ok (pid (procs t ! np)) ?v"
      by (rule fork_child_ok [OF t(1) lt np]) (use t(2) fl slot(2) q other np in \<open>simp_all add: p_def\<close>)
    then have "fork s = Ok (nextpid s) ?v" using run False q by simp
    moreover have "procs ?v ! np = ?q" using lt by simp
    moreover have refs: "\<forall>i \<in> set [0..<NOFILE]. \<forall>f. ofile p ! i = Some f \<longrightarrow> f < length (ftable s)"
      using fl(1,2) nth_mem [of _ "ofile p"] by (auto simp del: upt_Suc) (metis nth_mem)
    ultimately show ?thesis
      using bump_refs_count [OF refs] c False t fr other vm q fl(3) x(2)
      by (intro exI [of _ "nextpid s"] exI [of _ ?v] exI [of _ ys]) (auto simp: set_name_def simp del: upt_Suc)
  qed
qed

text \<open>A process with one page of memory and standard input open, once two thousand pages have been freed.\<close>

definition one_page_pst :: pst where
  "one_page_pst = boot_pst\<lparr>mem := mem one_page, kdata := 0x80108000, kend := kend one_page, freelist := 0,
     procs := (replicate NPROC zero_proc)[0 := zero_proc\<lparr>pstate := RUNNING, pgdir := 0x80402000, sz := 4096,
       ofile := (replicate NOFILE None)[0 := Some 0], cwd := Some 0\<rparr>],
     ftable := (replicate NFILE zero_file)[0 := zero_file\<lparr>f_ref := 1\<rparr>]\<rparr>"

lemma one_page_pst_uvm: "uvm_ok one_page_pst 0x80402000 [] (upages 4096)"
  by (rule one_page_space) (simp_all add: kmem_ok_def one_page_pst_def boot_pst_simps one_page_def boot_mst_def)

lemma one_page_pst_fields:
  "held one_page_pst = []" "cur one_page_pst = Some 0" "kdata one_page_pst = 0x80108000" "kend one_page_pst \<le> 0x80500000"
  "ftable one_page_pst = (replicate NFILE zero_file)[0 := zero_file\<lparr>f_ref := 1\<rparr>]" "length (procs one_page_pst) = NPROC"
  "mem one_page_pst = mem one_page_vst"
  by (simp_all add: one_page_pst_def boot_pst_def ost.extend_def pst.fields_def boot_ost_simps one_page_def boot_mst_def
      one_page_vst_def mst.extend_def vst.fields_def)

lemma one_page_pst_procs:
  "i < NPROC \<Longrightarrow> procs one_page_pst ! i = (if i = 0 then zero_proc\<lparr>pstate := RUNNING, pgdir := 0x80402000, sz := 4096,
       ofile := (replicate NOFILE None)[0 := Some 0], cwd := Some 0\<rparr> else zero_proc)"
  by (simp add: one_page_pst_def)

lemma one_page_forkable:
  assumes m: "memonly one_page_pst s" and ok: "uvm_ok s 0x80402000 xs (upages 4096)"
  shows "forkable s 0 1 0 xs"
proof -
  have f: "held s = []" "cur s = Some 0" "kdata s = 0x80108000" "length (procs s) = NPROC"
      "ftable s = (replicate NFILE zero_file)[0 := zero_file\<lparr>f_ref := 1\<rparr>]" "procs s = procs one_page_pst"
    using m one_page_pst_fields by (auto simp: memonly_def)
  have p: "procs s ! i = (if i = 0 then zero_proc\<lparr>pstate := RUNNING, pgdir := 0x80402000, sz := 4096,
       ofile := (replicate NOFILE None)[0 := Some 0], cwd := Some 0\<rparr> else zero_proc)" if "i < NPROC" for i
    unfolding f(6) by (rule one_page_pst_procs [OF that])
  have "find (\<lambda>i. pstate (procs s ! i) = UNUSED) [0..<NPROC] = Some 1"
    by (simp add: upt_rec [of 0] upt_rec [of "Suc 0"] p zero_proc_def)
  moreover have "kdata_ok 0x80108000" by (simp add: kdata_ok_def P2V_def page_def)
  moreover have "f < NFILE \<and> 1 \<le> f_ref ((replicate NFILE zero_file)[0 := zero_file\<lparr>f_ref := 1\<rparr>] ! f)"
    if "Some f \<in> set ((replicate NOFILE None)[0 := Some 0])" for f
  proof -
    have "f = 0" using set_update_subset_insert [of "replicate NOFILE None" 0 "Some 0"] that by auto
    then show ?thesis by simp
  qed
  ultimately show ?thesis
    using ok f(1-5) by (simp add: forkable_def p del: upt_Suc) (auto simp: zero_proc_def)
qed

theorem fork_spec_witness:
  "\<exists>s t pd. foreachM spares kfree one_page_pst = Ok () s \<and> fork s = Ok (nextpid s) t \<and> pgdir (procs t ! 1) = pd
     \<and> pstate (procs t ! 1) = RUNNABLE \<and> copied (mem s) 0x80402000 (mem t) pd (upages 4096) \<and> f_ref (ftable t ! 0) = 2"
proof -
  obtain s where s: "foreachM spares kfree one_page_pst = Ok () s" "uvm_ok s 0x80402000 (rev spares) (upages 4096)"
    "memonly one_page_pst s" "card (set spares) = 2000"
    by (rule spare_pages [OF one_page_pst_fields(4) _ one_page_pst_uvm])
      (use one_page_vst_owned in \<open>simp add: one_page_pst_fields(7)\<close>)
  have "rev spares \<noteq> []" using s(4) by auto
  then obtain x xs where e: "rev spares = x # xs" by (cases "rev spares") auto
  have "card (set (x # xs)) = 2000" unfolding e [symmetric] using s(4) by simp
  then have ns: "\<not> scarce (set xs) 4096" by (intro plenty) (simp add: card_insert_if split: if_splits)
  have f: "forkable s 0 1 0 (x # xs)" by (rule one_page_forkable [OF s(3)]) (use s(2) e in simp)
  have p: "procs s ! 0 = zero_proc\<lparr>pstate := RUNNING, pgdir := 0x80402000, sz := 4096,
       ofile := (replicate NOFILE None)[0 := Some 0], cwd := Some 0\<rparr>" "ftable s = ftable one_page_pst"
    using s(3) one_page_pst_procs [of 0] by (auto simp: memonly_def)
  have n: "length (filter (\<lambda>i. ofile (procs s ! 0) ! i = Some 0) [0..<NOFILE]) = 1"
    by (simp add: p upt_rec [of 0] nth_list_update)
  from fork_spec [OF f] show ?thesis
    using ns s(1) n by (auto simp: p one_page_pst_fields simp del: upt_Suc)
qed

end
