(* ===== verification/Sysarg.thy ===== *)
theory Sysarg
  imports Proc
begin

text \<open>
  syscall.c, the arguments of system calls: how the kernel reads and writes
  the memory of the calling process, and the checks that keep it inside.
\<close>

section \<open>User memory\<close>

text \<open>
  The kernel dereferences user addresses through the page table of the running
  process.  An address without a present mapping is a page fault in the
  kernel, which trap() turns into a panic.
\<close>

definition uaddr :: "u32 \<Rightarrow> ('z mst_scheme, u32) kfun" where
  "uaddr va =
     bindM curproc (\<lambda>c.
     bindM (get_proc c) (\<lambda>p.
     bindM (walkpgdir (pgdir p) va False) (\<lambda>a.
     if a = 0 then faultM ''page fault''
     else bindM (loadM a) (\<lambda>e.
       if e AND PTE_P = 0 then faultM ''page fault''
       else retM (P2V (PTE_ADDR e) + (va AND 0xFFF))))))"

definition uload :: "u32 \<Rightarrow> ('z mst_scheme, u8) kfun" where
  "uload va = bindM (uaddr va) (\<lambda>a. getM (\<lambda>s. mem s a))"

definition ustore :: "u32 \<Rightarrow> u8 \<Rightarrow> ('z mst_scheme, unit) kfun" where
  "ustore va b = bindM (uaddr va) (\<lambda>a. modM (\<lambda>s. s\<lparr>mem := (mem s)(a := b)\<rparr>))"

fun uload_n :: "u32 \<Rightarrow> nat \<Rightarrow> ('z mst_scheme, bytes) kfun" where
  "uload_n va 0 = retM []"
| "uload_n va (Suc n) = bindM (uload va) (\<lambda>b. bindM (uload_n (va + 1) n) (\<lambda>bs. retM (b # bs)))"

fun ustore_n :: "u32 \<Rightarrow> bytes \<Rightarrow> ('z mst_scheme, unit) kfun" where
  "ustore_n va [] = skipM"
| "ustore_n va (b # bs) = thenM (ustore va b) (ustore_n (va + 1) bs)"

definition uload32 :: "u32 \<Rightarrow> ('z mst_scheme, u32) kfun" where
  "uload32 va = bindM (uload_n va 4) (\<lambda>bs. retM (le32_dec bs))"

section \<open>Fetching arguments\<close>

text \<open>The value is \<open>None\<close> for the result -1, and otherwise what the pointer argument receives.\<close>

definition fetchint :: "u32 \<Rightarrow> ('z mst_scheme, u32 option) kfun" where
  "fetchint addr =
     bindM curproc (\<lambda>c.
     bindM (get_proc c) (\<lambda>p.
     if addr \<ge> sz p \<or> addr + 4 > sz p then retM None
     else bindM (uload32 addr) (\<lambda>v. retM (Some v))))"

text \<open>
  fetchstr(): the loop runs over the addresses from \<open>addr\<close> to the end of the
  process's memory, \<open>n\<close> of them left.  As nothing else writes the process's
  memory during the call, the string is fetched here.
\<close>

fun fetchstr_loop :: "u32 \<Rightarrow> nat \<Rightarrow> ('z mst_scheme, bytes option) kfun" where
  "fetchstr_loop a 0 = retM None"
| "fetchstr_loop a (Suc n) =
     bindM (uload a) (\<lambda>b.
     if b = 0 then retM (Some [])
     else bindM (fetchstr_loop (a + 1) n) (\<lambda>r. retM (map_option ((#) b) r)))"

definition fetchstr :: "u32 \<Rightarrow> ('z mst_scheme, bytes option) kfun" where
  "fetchstr addr =
     bindM curproc (\<lambda>c.
     bindM (get_proc c) (\<lambda>p.
     if addr \<ge> sz p then retM None
     else fetchstr_loop addr (unat (sz p - addr))))"

definition argint :: "u32 \<Rightarrow> ('z mst_scheme, u32 option) kfun" where
  "argint n =
     bindM curproc (\<lambda>c.
     bindM (get_proc c) (\<lambda>p.
     fetchint (tf_esp (tf p) + 4 + 4 * n)))"

definition argptr :: "u32 \<Rightarrow> int \<Rightarrow> ('z mst_scheme, u32 option) kfun" where
  "argptr n len =
     bindM curproc (\<lambda>c.
     bindM (argint n) (\<lambda>r. case r of None \<Rightarrow> retM None | Some i \<Rightarrow>
     bindM (get_proc c) (\<lambda>p.
     if len < 0 \<or> i \<ge> sz p \<or> i + of_int len > sz p then retM None
     else retM (Some i))))"

definition argstr :: "u32 \<Rightarrow> ('z mst_scheme, bytes option) kfun" where
  "argstr n = bindM (argint n) (\<lambda>r. case r of None \<Rightarrow> retM None | Some a \<Rightarrow> fetchstr a)"

text \<open>\<open>if(arg...(...) < 0) return -1;\<close>\<close>

definition orfail :: "('s, 'a option) kfun \<Rightarrow> ('a \<Rightarrow> ('s, int) kfun) \<Rightarrow> ('s, int) kfun" where
  "orfail m f = bindM m (\<lambda>r. case r of None \<Rightarrow> retM (-1) | Some x \<Rightarrow> f x)"

section \<open>The arguments of a process stay inside its memory\<close>

text \<open>
  \<open>uproc s c\<close>: slot \<open>c\<close> runs, and its page table maps exactly the pages below
  its size, which is what userinit(), fork(), growproc() and exec() establish
  through allocuvm() and copyuvm().  \<open>umem s c a\<close> is the byte the process has at
  its address \<open>a\<close>.
\<close>

definition uproc :: "'z mst_scheme \<Rightarrow> nat \<Rightarrow> bool" where
  "uproc s c \<longleftrightarrow> cur s = Some c \<and> c < length (procs s) \<and> sz (procs s ! c) \<le> KERNBASE
     \<and> (\<exists>xs. uvm_ok s (pgdir (procs s ! c)) xs (upages (sz (procs s ! c))))"

definition umem :: "'z mst_scheme \<Rightarrow> nat \<Rightarrow> u32 \<Rightarrow> u8" where
  "umem s c a = mem s (upage (mem s) (pgdir (procs s ! c)) a + (a AND 0xFFF))"

lemma uload_ok:
  assumes u: "uproc s c" and a: "a < sz (procs s ! c)"
  shows "uload a s = Ok (umem s c a) s"
proof -
  let ?p = "procs s ! c"
  let ?d = "PGROUNDDOWN a"
  obtain xs where c: "cur s = Some c" "c < length (procs s)" "sz ?p \<le> KERNBASE"
    and ok: "uvm_ok s (pgdir ?p) xs (upages (sz ?p))"
    using u by (auto simp: uproc_def)
  have "unat ?d \<le> unat a" by (simp add: PGROUNDDOWN_unat)
  then have "?d \<le> a" by (simp add: word_le_nat_alt)
  then have "?d < sz ?p" "?d < KERNBASE" using a c(3) by auto
  then have "present (pte (mem s) (pgdir ?p) ?d)" using ok by (auto simp: uvm_ok_def upages_def)
  moreover have "pte (mem s) (pgdir ?p) ?d = pte (mem s) (pgdir ?p) a"
    by (rule pte_same_page) (simp add: PGROUNDDOWN_page)
  ultimately have e: "present (pte (mem s) (pgdir ?p) a)" by simp
  then have d: "present (pde (mem s) (pgdir ?p) a)" by (auto simp: pte_def split: if_splits)
  have "pt_ok s (pgdir ?p) xs" using ok by (simp add: uvm_ok_def)
  note nz = pte_slot_nz [OF this d]
  show ?thesis
    using c nz e d walkpgdir_present [OF d, of False]
    by (simp add: uload_def uaddr_def get_proc_def kcode pte_def ent_def present_def umem_def upage_def)
qed

text \<open>The \<open>n\<close> bytes from address \<open>a\<close> on.\<close>

definition umem_n :: "'z mst_scheme \<Rightarrow> nat \<Rightarrow> u32 \<Rightarrow> nat \<Rightarrow> bytes" where
  "umem_n s c a n = map (\<lambda>i. umem s c (a + of_nat i)) [0..<n]"

lemma umem_n_simps [simp]:
  "umem_n s c a 0 = []" "umem_n s c a (Suc n) = umem s c a # umem_n s c (a + 1) n" "length (umem_n s c a n) = n"
  by (simp_all add: umem_n_def map_upt_Suc add.assoc del: upt_Suc)

lemma take_umem_n [simp]: "m \<le> n \<Longrightarrow> take m (umem_n s c a n) = umem_n s c a m"
  by (simp add: umem_n_def take_map)

lemma unat_below: "a < (b :: u32) \<Longrightarrow> unat (a + 1) = Suc (unat a)"
  using unat_u32 [of b] by (auto simp: word_less_nat_alt intro: unat_Suc)

lemma unat_gap: "a < (b :: u32) \<Longrightarrow> unat a + unat (b - a) = unat b"
  using unat_sub [of a b] by (simp add: word_less_nat_alt word_le_nat_alt)

lemma uload_n_ok:
  assumes "uproc s c" and "unat a + n \<le> unat (sz (procs s ! c))"
  shows "uload_n a n s = Ok (umem_n s c a n) s"
  using assms(2)
proof (induction n arbitrary: a)
  case (Suc n)
  then have a: "a < sz (procs s ! c)" by (simp add: word_less_nat_alt)
  then show ?case using Suc uload_ok [OF assms(1) a] by (simp add: kcode unat_below)
qed (simp add: kcode)

lemma fetchstr_loop_ok:
  assumes "uproc s c" and "unat a + n \<le> unat (sz (procs s ! c))"
  shows "fetchstr_loop a n s
    = Ok (if 0 \<in> set (umem_n s c a n) then Some (takeWhile (\<lambda>b. b \<noteq> 0) (umem_n s c a n)) else None) s"
  using assms(2)
proof (induction n arbitrary: a)
  case (Suc n)
  then have a: "a < sz (procs s ! c)" by (simp add: word_less_nat_alt)
  then show ?case using Suc uload_ok [OF assms(1) a] by (simp add: kcode unat_below)
qed (simp add: kcode)

lemma fetchint_ok:
  assumes u: "uproc s c"
  shows "fetchint a s = Ok (if unat a + 4 \<le> unat (sz (procs s ! c)) then Some (le32_dec (umem_n s c a 4)) else None) s"
proof -
  let ?z = "sz (procs s ! c)"
  have c: "cur s = Some c" and z: "?z \<le> KERNBASE" using u by (auto simp: uproc_def)
  have "\<not> (a \<ge> ?z \<or> a + 4 > ?z) \<longleftrightarrow> unat a + 4 \<le> unat ?z"
  proof (cases "a < ?z")
    case True
    then have "unat a < 2 ^ 31" using z by (auto simp: word_less_nat_alt word_le_nat_alt)
    then have "unat (a + 4) = unat a + 4" by (simp add: unat_word_ariths)
    then show ?thesis using True by (auto simp: word_less_nat_alt word_le_nat_alt)
  qed (auto simp: word_less_nat_alt word_le_nat_alt)
  then show ?thesis
    using c uload_n_ok [OF u, of a 4] by (auto simp: fetchint_def uload32_def kcode)
qed

lemma fetchstr_ok:
  assumes u: "uproc s c"
  obtains "fetchstr a s = Ok None s"
  | str where "fetchstr a s = Ok (Some str) s" "0 \<notin> set str"
      "unat a + length str < unat (sz (procs s ! c))" "umem_n s c a (Suc (length str)) = str @ [0]"
proof -
  let ?z = "sz (procs s ! c)"
  let ?n = "unat (?z - a)"
  let ?bs = "umem_n s c a ?n"
  have c: "cur s = Some c" using u by (simp add: uproc_def)
  show ?thesis
  proof (cases "a < ?z \<and> 0 \<in> set ?bs")
    case True
    then have n: "unat a + ?n = unat ?z" by (simp add: unat_gap)
    let ?w = "takeWhile (\<lambda>b. b \<noteq> 0) ?bs"
    let ?d = "dropWhile (\<lambda>b. b \<noteq> 0) ?bs"
    have d: "?d \<noteq> []" "hd ?d = 0" using True hd_dropWhile [of "\<lambda>b. b \<noteq> 0" ?bs] by auto
    have split: "?bs = ?w @ 0 # tl ?d" using d by (metis list.collapse takeWhile_dropWhile_id)
    have len: "Suc (length ?w) \<le> ?n"
    proof -
      have "length ?bs = length ?w + Suc (length (tl ?d))" by (subst split) simp
      then show ?thesis by simp
    qed
    have "take (Suc (length ?w)) (?w @ 0 # tl ?d) = ?w @ [0]" by simp
    then have "umem_n s c a (Suc (length ?w)) = ?w @ [0]" unfolding split [symmetric] take_umem_n [OF len] .
    moreover have "fetchstr a s = Ok (Some ?w) s"
      using True c n fetchstr_loop_ok [OF u, of a ?n] by (simp add: fetchstr_def kcode not_le)
    moreover have "unat a + length ?w < unat ?z" using len n by linarith
    moreover have "0 \<notin> set ?w" by (auto dest: set_takeWhileD)
    ultimately show ?thesis by (intro that(2))
  next
    case False
    have "fetchstr a s = Ok None s"
    proof (cases "a < ?z")
      case True
      then have n: "unat a + ?n = unat ?z" by (simp add: unat_gap)
      then show ?thesis
        using True False c fetchstr_loop_ok [OF u, of a ?n] by (simp add: fetchstr_def kcode not_le)
    qed (use c in \<open>simp add: fetchstr_def kcode not_less\<close>)
    then show ?thesis by (rule that(1))
  qed
qed

text \<open>
  C33: the checks on system call arguments keep the kernel inside the memory of
  the calling process.  Whatever stack pointer and argument values the process
  chose, argint, argptr and argstr return without a page fault and change
  nothing.  argint returns the word on the user stack, or -1 when the word is
  not wholly inside the process.  A block argptr lets through lies inside the
  process, its end included, without wrap-around, and its bytes can be read.  A
  string argstr lets through ends at a NUL inside the process.
\<close>

theorem syscall_args_safe:
  fixes s :: "'z mst_scheme" and n :: u32
  assumes u: "uproc s c" and len: "len < 2 ^ 31"
  defines "a \<equiv> tf_esp (tf (procs s ! c)) + 4 + 4 * n"
  shows "argint n s = Ok (if unat a + 4 \<le> unat (sz (procs s ! c)) then Some (le32_dec (umem_n s c a 4)) else None) s
    \<and> (\<exists>r. argptr n len s = Ok r s \<and> (\<forall>v. r = Some v \<longrightarrow> 0 \<le> len
          \<and> unat v + nat len \<le> unat (sz (procs s ! c)) \<and> uload_n v (nat len) s = Ok (umem_n s c v (nat len)) s))
    \<and> (\<exists>r. argstr n s = Ok r s \<and> (\<forall>str. r = Some str \<longrightarrow> 0 \<notin> set str
          \<and> (\<exists>v. unat v + length str < unat (sz (procs s ! c)) \<and> umem_n s c v (Suc (length str)) = str @ [0])))"
    (is "?i \<and> ?p \<and> ?s")
proof -
  let ?z = "sz (procs s ! c)"
  have c: "cur s = Some c" and z: "?z \<le> KERNBASE" using u by (auto simp: uproc_def)
  have i: ?i using c fetchint_ok [OF u, of a] by (simp add: argint_def a_def kcode)
  have inside: "unat v + nat len \<le> unat ?z" if "v < ?z" "0 \<le> len" "v + of_int len \<le> ?z" for v
  proof -
    have "unat v < 2 ^ 31" using that(1) z by (auto simp: word_less_nat_alt word_le_nat_alt)
    moreover have "unat (of_int len :: u32) = nat len" using that(2) len
      by (simp add: unat_eq_nat_uint unsigned_of_int take_bit_eq_mod)
    ultimately have "unat (v + of_int len) = unat v + nat len" using len that(2) by (simp add: unat_word_ariths)
    then show ?thesis using that(3) by (simp add: word_le_nat_alt)
  qed
  have ?p
  proof (cases "unat a + 4 \<le> unat ?z")
    case True
    then show ?thesis
      using i c inside uload_n_ok [OF u, of _ "nat len"] by (auto simp: argptr_def kcode not_le not_less)
  qed (use i c in \<open>auto simp: argptr_def kcode\<close>)
  moreover have ?s
  proof (cases "unat a + 4 \<le> unat ?z")
    case True
    then show ?thesis
      using i by (cases rule: fetchstr_ok [OF u, of "le32_dec (umem_n s c a 4)"]) (auto simp: argstr_def kcode)
  qed (use i in \<open>auto simp: argstr_def kcode\<close>)
  ultimately show ?thesis using i by blast
qed

text \<open>A process of one page of zeros whose stack pointer is 16.\<close>

definition one_page_proc :: mst where
  "one_page_proc = one_page\<lparr>procs := [zero_proc\<lparr>pgdir := 0x80402000, sz := 4096, tf := zero_tf\<lparr>tf_esp := 16\<rparr>\<rparr>], cur := Some 0\<rparr>"

lemma one_page_uproc: "uproc one_page_proc 0"
proof -
  have "uvm_ok one_page_proc 0x80402000 [] (upages 4096)"
    by (rule one_page_space) (simp_all add: kmem_ok_def one_page_proc_def one_page_def boot_mst_def)
  then show ?thesis by (auto simp: uproc_def one_page_proc_def)
qed

theorem syscall_args_safe_witness:
  "\<exists>v. argint 0 one_page_proc = Ok (Some v) one_page_proc"
  using syscall_args_safe [OF one_page_uproc, of 0 0] by (simp add: one_page_proc_def)

end
