(* ===== verification/Exec.thy ===== *)
theory Exec
  imports Sysarg
begin

text \<open>
  exec.c, and loaduvm() of vm.c: replacing the image of the running process
  by a program from an ELF file.
\<close>

section \<open>ELF headers (elf.h)\<close>

text \<open>The fields that exec() uses; a file header has 52 bytes, a program header 32.\<close>

record elfhdr =
  e_magic :: u32
  e_entry :: u32
  e_phoff :: u32
  e_phnum :: u16

record proghdr =
  ph_type :: u32
  ph_off :: u32
  ph_vaddr :: u32
  ph_filesz :: u32
  ph_memsz :: u32

definition get_elfhdr :: "bytes \<Rightarrow> elfhdr" where
  "get_elfhdr d = \<lparr>e_magic = get32 d 0, e_entry = get32 d 24, e_phoff = get32 d 28, e_phnum = get16 d 44\<rparr>"

definition get_proghdr :: "bytes \<Rightarrow> proghdr" where
  "get_proghdr d = \<lparr>ph_type = get32 d 0, ph_off = get32 d 4, ph_vaddr = get32 d 8, ph_filesz = get32 d 16, ph_memsz = get32 d 20\<rparr>"

abbreviation (input) ELF_MAGIC :: u32 where "ELF_MAGIC \<equiv> 0x464C457F"
abbreviation (input) ELF_PROG_LOAD :: u32 where "ELF_PROG_LOAD \<equiv> 1"

section \<open>The routines\<close>

text \<open>loaduvm(): there are at most 2^20 pages below a 32-bit size, and one more turn ends the loop.\<close>

fun loaduvm_loop :: "nat \<Rightarrow> u32 \<Rightarrow> u32 \<Rightarrow> nat \<Rightarrow> u32 \<Rightarrow> u32 \<Rightarrow> u32 \<Rightarrow> ('z cst_scheme, int) kfun" where
  "loaduvm_loop 0 pd addr ip offset n i = spinM"
| "loaduvm_loop (Suc fuel) pd addr ip offset n i =
     (if i < n then
        bindM (walkpgdir pd (addr + i) False) (\<lambda>a.
        thenM (assertM (a \<noteq> 0) ''loaduvm: address should exist'')
        (bindM (loadM a) (\<lambda>e.
        let m = (if n - i < PGSIZE then n - i else PGSIZE) in
        bindM (readi ip (offset + i) m) (\<lambda>(r, d).
        thenM (modM (\<lambda>s. s\<lparr>mem := write_bytes (mem s) (P2V (PTE_ADDR e)) d\<rparr>))
        (if of_int r \<noteq> m then retM (-1)
         else loaduvm_loop fuel pd addr ip offset n (i + PGSIZE))))))
      else retM 0)"

definition loaduvm :: "u32 \<Rightarrow> u32 \<Rightarrow> nat \<Rightarrow> u32 \<Rightarrow> u32 \<Rightarrow> ('z cst_scheme, int) kfun" where
  "loaduvm pd addr ip offset n =
     thenM (assertM (addr mod PGSIZE = 0) ''loaduvm: addr must be page aligned'')
     (loaduvm_loop (2 ^ 20 + 1) pd addr ip offset n 0)"

text \<open>copyout() of vm.c with the bytes to copy at hand.\<close>

fun copyout_bytes :: "nat \<Rightarrow> u32 \<Rightarrow> u32 \<Rightarrow> bytes \<Rightarrow> ('z mst_scheme, int) kfun" where
  "copyout_bytes 0 pd va bs = spinM"
| "copyout_bytes (Suc fuel) pd va bs =
     (if bs \<noteq> [] then
        let va0 = PGROUNDDOWN va in
        bindM (uva2ka pd va0) (\<lambda>pa0.
        if pa0 = 0 then retM (-1)
        else
          let n = min (unat (PGSIZE - (va - va0))) (length bs) in
          thenM (modM (\<lambda>s. s\<lparr>mem := write_bytes (mem s) (pa0 + (va - va0)) (take n bs)\<rparr>))
          (copyout_bytes fuel pd (va0 + PGSIZE) (drop n bs)))
      else retM 0)"

text \<open>The loop over the program headers, \<open>n\<close> of them left; \<open>None\<close> is \<open>goto bad\<close>.\<close>

fun exec_load :: "nat \<Rightarrow> u32 \<Rightarrow> nat \<Rightarrow> u32 \<Rightarrow> u32 \<Rightarrow> ('z cst_scheme, u32 option) kfun" where
  "exec_load ip pd 0 off z = retM (Some z)"
| "exec_load ip pd (Suc n) off z =
     bindM (readi ip off 32) (\<lambda>(r, d).
     if r \<noteq> 32 then retM None
     else let ph = get_proghdr d in
       if ph_type ph \<noteq> ELF_PROG_LOAD then exec_load ip pd n (off + 32) z
       else if ph_memsz ph < ph_filesz ph then retM None
       else if ph_vaddr ph + ph_memsz ph < ph_vaddr ph then retM None
       else bindM (allocuvm pd z (ph_vaddr ph + ph_memsz ph)) (\<lambda>z.
         if z = 0 then retM None
         else if ph_vaddr ph mod PGSIZE \<noteq> 0 then retM None
         else bindM (loaduvm pd (ph_vaddr ph) ip (ph_off ph) (ph_filesz ph)) (\<lambda>r.
           if r < 0 then retM None
           else exec_load ip pd n (off + 32) z)))"

text \<open>Pushing the argument strings: the stack pointer and the addresses of the strings.\<close>

fun exec_args :: "u32 \<Rightarrow> u32 \<Rightarrow> nat \<Rightarrow> bytes list \<Rightarrow> ('z mst_scheme, (u32 \<times> u32 list) option) kfun" where
  "exec_args pd sp argc [] = retM (Some (sp, []))"
| "exec_args pd sp argc (a # as) =
     (if argc \<ge> MAXARG then retM None
      else let sp = (sp - (of_nat (length a) + 1)) AND NOT 3 in
        bindM (copyout_bytes (2 ^ 20 + 2) pd sp (a @ [0])) (\<lambda>r.
        if r < 0 then retM None
        else bindM (exec_args pd sp (Suc argc) as) (\<lambda>x.
          retM (case x of None \<Rightarrow> None | Some (sp', us) \<Rightarrow> Some (sp', sp # us)))))"

definition exec_bad :: "u32 \<Rightarrow> nat option \<Rightarrow> ('z cst_scheme, int) kfun" where
  "exec_bad pd ip =
     thenM (whenM (pd \<noteq> 0) (freevm pd))
     (thenM (case ip of None \<Rightarrow> skipM | Some i \<Rightarrow> thenM (iunlockput i) end_op)
     (retM (-1)))"

definition last_elem :: "bytes \<Rightarrow> bytes" where
  "last_elem path = rev (takeWhile (\<lambda>c. c \<noteq> slash) (rev path))"

text \<open>exec() from \<open>Commit to the user image\<close> on, from the new stack on, and as a whole.\<close>

definition exec_commit :: "nat \<Rightarrow> bytes \<Rightarrow> u32 \<Rightarrow> u32 \<Rightarrow> u32 \<Rightarrow> u32 \<Rightarrow> ('z cst_scheme, int) kfun" where
  "exec_commit c path pd z entry sp =
     thenM (upd_proc c (set_name (last_elem path)))
     (bindM (get_proc c) (\<lambda>p.
     thenM (upd_proc c (\<lambda>q. q\<lparr>pgdir := pd, sz := z, tf := (tf q)\<lparr>tf_eip := entry, tf_esp := sp\<rparr>\<rparr>))
     (thenM (switchuvm (Some c))
     (thenM (freevm (pgdir p))
     (retM 0)))))"

definition exec_stack :: "nat \<Rightarrow> bytes \<Rightarrow> bytes list \<Rightarrow> u32 \<Rightarrow> u32 \<Rightarrow> u32 \<Rightarrow> ('z cst_scheme, int) kfun" where
  "exec_stack c path argv pd z entry =
     bindM (allocuvm pd (PGROUNDUP z) (PGROUNDUP z + 2 * PGSIZE)) (\<lambda>z.
     if z = 0 then exec_bad pd None
     else
       thenM (clearpteu pd (z - 2 * PGSIZE))
       (bindM (exec_args pd z 0 argv) (\<lambda>x.
       case x of None \<Rightarrow> exec_bad pd None
       | Some (sp, us) \<Rightarrow>
           let argc = of_nat (length argv);
               ustack = [0xFFFFFFFF, argc, sp - (argc + 1) * 4] @ us @ [0];
               sp = sp - (3 + argc + 1) * 4 in
           bindM (copyout_bytes (2 ^ 20 + 2) pd sp (concat (map le32_enc ustack))) (\<lambda>r.
           if r < 0 then exec_bad pd None
           else exec_commit c path pd z entry sp))))"

definition exec :: "bytes \<Rightarrow> bytes list \<Rightarrow> ('z cst_scheme, int) kfun" where
  "exec path argv =
     bindM curproc (\<lambda>c.
     thenM begin_op
     (bindM (namei path) (\<lambda>x.
      case x of
        None \<Rightarrow> thenM end_op (thenM (cprintf (Some (cbytes ''exec: fail'' @ [10])) []) (retM (-1)))
      | Some ip \<Rightarrow>
          thenM (ilock ip)
          (bindM (readi ip 0 52) (\<lambda>(r, d).
          let elf = get_elfhdr d in
          if r \<noteq> 52 then exec_bad 0 (Some ip)
          else if e_magic elf \<noteq> ELF_MAGIC then exec_bad 0 (Some ip)
          else bindM setupkvm (\<lambda>pd.
            if pd = 0 then exec_bad 0 (Some ip)
            else bindM (exec_load ip pd (unat (e_phnum elf)) (e_phoff elf) 0) (\<lambda>x.
              case x of
                None \<Rightarrow> exec_bad pd (Some ip)
              | Some z \<Rightarrow>
                  thenM (iunlockput ip)
                  (thenM end_op
                  (exec_stack c path argv pd z (e_entry elf))))))))))"

end
