(* ===== verification/Sysfile.thy ===== *)
theory Sysfile
  imports Exec
begin

text \<open>
  sysfile.c: the file-system calls.  They check their arguments and call
  file.c, fs.c and pipe.c; data that the C code copies straight to or from the
  caller's buffer is fetched before, or stored after, the call that moves it.
\<close>

section \<open>Descriptors\<close>

definition argfd :: "u32 \<Rightarrow> ('z mst_scheme, (nat \<times> nat) option) kfun" where
  "argfd n =
     bindM (argint n) (\<lambda>r. case r of None \<Rightarrow> retM None | Some v \<Rightarrow>
     if sint v < 0 \<or> sint v \<ge> int NOFILE then retM None
     else bindM curproc (\<lambda>c.
       bindM (get_proc c) (\<lambda>p.
       case ofile p ! unat v of
         None \<Rightarrow> retM None
       | Some f \<Rightarrow> retM (Some (unat v, f)))))"

definition set_ofile :: "nat \<Rightarrow> nat option \<Rightarrow> ('z kst_scheme, unit) kfun" where
  "set_ofile fd f = bindM curproc (\<lambda>c. upd_proc c (\<lambda>q. q\<lparr>ofile := (ofile q)[fd := f]\<rparr>))"

definition fdalloc :: "nat \<Rightarrow> ('z kst_scheme, nat option) kfun" where
  "fdalloc f =
     bindM curproc (\<lambda>c.
     bindM (get_proc c) (\<lambda>p.
     case find (\<lambda>fd. ofile p ! fd = None) [0..<NOFILE] of
       None \<Rightarrow> retM None
     | Some fd \<Rightarrow> thenM (set_ofile fd (Some f)) (retM (Some fd))))"

definition sys_dup :: "('z ost_scheme, int) kfun" where
  "sys_dup =
     orfail (argfd 0) (\<lambda>(_, f).
     orfail (fdalloc f) (\<lambda>fd.
     thenM (filedup f)
     (retM (int fd))))"

definition sys_read :: "('z ost_scheme, int) kfun" where
  "sys_read =
     orfail (argfd 0) (\<lambda>(_, f).
     orfail (argint 2) (\<lambda>n.
     orfail (argptr 1 (sint n)) (\<lambda>p.
     bindM (fileread f (sint n)) (\<lambda>(r, d).
     thenM (ustore_n p d)
     (retM r)))))"

definition sys_write :: "('z ost_scheme, int) kfun" where
  "sys_write =
     orfail (argfd 0) (\<lambda>(_, f).
     orfail (argint 2) (\<lambda>n.
     orfail (argptr 1 (sint n)) (\<lambda>p.
     bindM (uload_n p (nat (sint n))) (\<lambda>d.
     filewrite f d (sint n)))))"

definition sys_close :: "('z ost_scheme, int) kfun" where
  "sys_close =
     orfail (argfd 0) (\<lambda>(fd, f).
     thenM (set_ofile fd None)
     (thenM (fileclose f)
     (retM 0)))"

text \<open>struct stat has 20 bytes; its two paddings are not written.\<close>

definition store_stat :: "u32 \<Rightarrow> stat \<Rightarrow> ('z mst_scheme, unit) kfun" where
  "store_stat a st =
     thenM (ustore_n a (le16_enc (st_type st)))
     (thenM (ustore_n (a + 4) (le32_enc (st_dev st) @ le32_enc (st_ino st) @ le16_enc (st_nlink st)))
     (ustore_n (a + 16) (le32_enc (st_size st))))"

definition sys_fstat :: "('z ost_scheme, int) kfun" where
  "sys_fstat =
     orfail (argfd 0) (\<lambda>(_, f).
     orfail (argptr 1 20) (\<lambda>a.
     bindM (filestat f) (\<lambda>(r, st).
     thenM (case st of None \<Rightarrow> skipM | Some st \<Rightarrow> store_stat a st)
     (retM r))))"

section \<open>Links\<close>

definition fail_op :: "('z lst_scheme, int) kfun" where
  "fail_op = thenM end_op (retM (-1))"

definition sys_link_bad :: "nat \<Rightarrow> ('z cst_scheme, int) kfun" where
  "sys_link_bad ip =
     thenM (ilock ip)
     (thenM (upd_inode ip (\<lambda>v. v\<lparr>i_nlink := i_nlink v - 1\<rparr>))
     (thenM (iupdate ip)
     (thenM (iunlockput ip)
     fail_op)))"

definition sys_link :: "('z cst_scheme, int) kfun" where
  "sys_link =
     orfail (argstr 0) (\<lambda>old.
     orfail (argstr 1) (\<lambda>new.
     thenM begin_op
     (bindM (namei old) (\<lambda>x. case x of None \<Rightarrow> fail_op | Some ip \<Rightarrow>
      thenM (ilock ip)
      (bindM (get_inode ip) (\<lambda>v.
      if i_type v = T_DIR then thenM (iunlockput ip) fail_op
      else
        thenM (upd_inode ip (\<lambda>v. v\<lparr>i_nlink := i_nlink v + 1\<rparr>))
        (thenM (iupdate ip)
        (thenM (iunlock ip)
        (bindM (nameiparent new) (\<lambda>(x, name). case x of None \<Rightarrow> sys_link_bad ip | Some dp \<Rightarrow>
         thenM (ilock dp)
         (bindM (get_inode dp) (\<lambda>d.
         bindM (get_inode ip) (\<lambda>v.
         bindM (if i_dev d \<noteq> i_dev v then retM (-1) else dirlink dp name (i_inum v)) (\<lambda>r.
         if r < 0 then thenM (iunlockput dp) (sys_link_bad ip)
         else
           thenM (iunlockput dp)
           (thenM (iput ip)
           (thenM end_op
           (retM 0)))))))))))))))))"

definition isdirempty :: "nat \<Rightarrow> ('z cst_scheme, bool) kfun" where
  "isdirempty dp =
     bindM (get_inode dp) (\<lambda>v.
     bindM (findM (drop 2 (dir_offs (i_size v))) (\<lambda>off.
       bindM (readi dp (of_nat off) (of_nat DIRENT)) (\<lambda>(r, de).
       thenM (assertM (r = int DIRENT) ''isdirempty: readi'')
       (retM (if get16 de 0 \<noteq> 0 then Some () else None))))) (\<lambda>x.
     retM (x = None)))"

definition sys_unlink_bad :: "nat \<Rightarrow> ('z cst_scheme, int) kfun" where
  "sys_unlink_bad dp = thenM (iunlockput dp) fail_op"

text \<open>The part of sys_unlink() after all tests: the entry at \<open>off\<close> of \<open>dp\<close> names \<open>ip\<close>, both locked.\<close>

definition sys_unlink_do :: "nat \<Rightarrow> nat \<Rightarrow> nat \<Rightarrow> ('z cst_scheme, int) kfun" where
  "sys_unlink_do dp off ip =
     bindM (writei dp (replicate DIRENT 0) (of_nat off) (of_nat DIRENT)) (\<lambda>r.
     thenM (assertM (r = int DIRENT) ''unlink: writei'')
     (bindM (get_inode ip) (\<lambda>v.
     thenM (whenM (i_type v = T_DIR)
       (thenM (upd_inode dp (\<lambda>v. v\<lparr>i_nlink := i_nlink v - 1\<rparr>))
       (iupdate dp)))
     (thenM (iunlockput dp)
     (thenM (upd_inode ip (\<lambda>v. v\<lparr>i_nlink := i_nlink v - 1\<rparr>))
     (thenM (iupdate ip)
     (thenM (iunlockput ip)
     (thenM end_op
     (retM 0)))))))))"

definition sys_unlink :: "('z cst_scheme, int) kfun" where
  "sys_unlink =
     orfail (argstr 0) (\<lambda>path.
     thenM begin_op
     (bindM (nameiparent path) (\<lambda>(x, name). case x of None \<Rightarrow> fail_op | Some dp \<Rightarrow>
      thenM (ilock dp)
      (if namecmp name (cbytes ''.'') = 0 \<or> namecmp name (cbytes ''..'') = 0 then sys_unlink_bad dp
       else bindM (dirlookup dp name) (\<lambda>x. case x of None \<Rightarrow> sys_unlink_bad dp | Some (ip, off) \<Rightarrow>
         thenM (ilock ip)
         (bindM (get_inode ip) (\<lambda>v.
         thenM (assertM (\<not> sint (i_nlink v) < 1) ''unlink: nlink < 1'')
         (bindM (if i_type v = T_DIR then isdirempty ip else retM True) (\<lambda>e.
         if \<not> e then thenM (iunlockput ip) (sys_unlink_bad dp)
         else sys_unlink_do dp off ip)))))))))"

section \<open>Creating and opening\<close>

text \<open>create(): when there is no such name yet, and as a whole.  The result is locked.\<close>

definition create_new :: "nat \<Rightarrow> bytes \<Rightarrow> u16 \<Rightarrow> u16 \<Rightarrow> u16 \<Rightarrow> ('z cst_scheme, nat option) kfun" where
  "create_new dp name ty major minor =
     bindM (get_inode dp) (\<lambda>d.
     bindM (ialloc (i_dev d) ty) (\<lambda>ip.
     thenM (ilock ip)
     (thenM (upd_inode ip (\<lambda>v. v\<lparr>i_major := major, i_minor := minor, i_nlink := 1\<rparr>))
     (thenM (iupdate ip)
     (bindM (get_inode ip) (\<lambda>v.
     thenM (whenM (ty = T_DIR)
       (thenM (upd_inode dp (\<lambda>v. v\<lparr>i_nlink := i_nlink v + 1\<rparr>))
       (thenM (iupdate dp)
       (bindM (dirlink ip (cbytes ''.'') (i_inum v)) (\<lambda>r.
       thenM (assertM (\<not> r < 0) ''create dots'')
       (bindM (dirlink ip (cbytes ''..'') (i_inum d)) (\<lambda>r.
       assertM (\<not> r < 0) ''create dots'')))))))
     (bindM (dirlink dp name (i_inum v)) (\<lambda>r.
     thenM (assertM (\<not> r < 0) ''create: dirlink'')
     (thenM (iunlockput dp)
     (retM (Some ip)))))))))))"

definition create :: "bytes \<Rightarrow> u16 \<Rightarrow> u16 \<Rightarrow> u16 \<Rightarrow> ('z cst_scheme, nat option) kfun" where
  "create path ty major minor =
     bindM (nameiparent path) (\<lambda>(x, name). case x of None \<Rightarrow> retM None | Some dp \<Rightarrow>
     thenM (ilock dp)
     (bindM (dirlookup dp name) (\<lambda>x. case x of
        Some (ip, _) \<Rightarrow>
          thenM (iunlockput dp)
          (thenM (ilock ip)
          (bindM (get_inode ip) (\<lambda>v.
          if ty = T_FILE \<and> i_type v = T_FILE then retM (Some ip)
          else thenM (iunlockput ip) (retM None))))
      | None \<Rightarrow> create_new dp name ty major minor)))"

abbreviation (input) O_RDONLY :: u32 where "O_RDONLY \<equiv> 0x000"
abbreviation (input) O_WRONLY :: u32 where "O_WRONLY \<equiv> 0x001"
abbreviation (input) O_RDWR :: u32 where "O_RDWR \<equiv> 0x002"
abbreviation (input) O_CREATE :: u32 where "O_CREATE \<equiv> 0x200"

text \<open>The inode to open, locked; \<open>None\<close> when there is none.\<close>

definition open_inode :: "bytes \<Rightarrow> u32 \<Rightarrow> ('z cst_scheme, nat option) kfun" where
  "open_inode path omode =
     (if omode AND O_CREATE \<noteq> 0 then create path T_FILE 0 0
      else bindM (namei path) (\<lambda>x. case x of None \<Rightarrow> retM None | Some ip \<Rightarrow>
        thenM (ilock ip)
        (bindM (get_inode ip) (\<lambda>v.
        if i_type v = T_DIR \<and> omode \<noteq> O_RDONLY then thenM (iunlockput ip) (retM None)
        else retM (Some ip)))))"

definition sys_open :: "('z ost_scheme, int) kfun" where
  "sys_open =
     orfail (argstr 0) (\<lambda>path.
     orfail (argint 1) (\<lambda>omode.
     thenM begin_op
     (bindM (open_inode path omode) (\<lambda>x. case x of None \<Rightarrow> fail_op | Some ip \<Rightarrow>
      bindM filealloc (\<lambda>x. case x of
        None \<Rightarrow> thenM (iunlockput ip) fail_op
      | Some f \<Rightarrow>
          bindM (fdalloc f) (\<lambda>x. case x of
            None \<Rightarrow> thenM (fileclose f) (thenM (iunlockput ip) fail_op)
          | Some fd \<Rightarrow>
              thenM (iunlock ip)
              (thenM end_op
              (thenM (upd_file f (\<lambda>v. v\<lparr>f_type := FD_INODE, f_ip := ip, f_off := 0,
                 f_readable := (omode AND O_WRONLY = 0), f_writable := (omode AND O_WRONLY \<noteq> 0 \<or> omode AND O_RDWR \<noteq> 0)\<rparr>))
              (retM (int fd))))))))))"

definition sys_mkdir :: "('z ost_scheme, int) kfun" where
  "sys_mkdir =
     thenM begin_op
     (bindM (argstr 0) (\<lambda>x. case x of None \<Rightarrow> fail_op | Some path \<Rightarrow>
      bindM (create path T_DIR 0 0) (\<lambda>x. case x of None \<Rightarrow> fail_op | Some ip \<Rightarrow>
      thenM (iunlockput ip)
      (thenM end_op
      (retM 0)))))"

definition sys_mknod :: "('z ost_scheme, int) kfun" where
  "sys_mknod =
     thenM begin_op
     (bindM (argstr 0) (\<lambda>x. case x of None \<Rightarrow> fail_op | Some path \<Rightarrow>
      bindM (argint 1) (\<lambda>x. case x of None \<Rightarrow> fail_op | Some major \<Rightarrow>
      bindM (argint 2) (\<lambda>x. case x of None \<Rightarrow> fail_op | Some minor \<Rightarrow>
      bindM (create path T_DEV (ucast major) (ucast minor)) (\<lambda>x. case x of None \<Rightarrow> fail_op | Some ip \<Rightarrow>
      thenM (iunlockput ip)
      (thenM end_op
      (retM 0)))))))"

definition sys_chdir :: "('z ost_scheme, int) kfun" where
  "sys_chdir =
     bindM curproc (\<lambda>c.
     thenM begin_op
     (bindM (argstr 0) (\<lambda>x. case x of None \<Rightarrow> fail_op | Some path \<Rightarrow>
      bindM (namei path) (\<lambda>x. case x of None \<Rightarrow> fail_op | Some ip \<Rightarrow>
      thenM (ilock ip)
      (bindM (get_inode ip) (\<lambda>v.
      if i_type v \<noteq> T_DIR then thenM (iunlockput ip) fail_op
      else
        thenM (iunlock ip)
        (bindM (get_proc c) (\<lambda>p.
        thenM (case cwd p of None \<Rightarrow> faultM ''iput: null inode'' | Some old \<Rightarrow> iput old)
        (thenM end_op
        (thenM (upd_proc c (\<lambda>q. q\<lparr>cwd := Some ip\<rparr>))
        (retM 0)))))))))))"

text \<open>sys_exec(): the strings of the argument vector at \<open>uargv\<close>, from index \<open>i\<close> on, \<open>n\<close> entries of \<open>argv\<close> left.\<close>

fun sys_exec_args :: "nat \<Rightarrow> u32 \<Rightarrow> ('z mst_scheme, bytes list option) kfun" where
  "sys_exec_args 0 a = retM None"
| "sys_exec_args (Suc n) a =
     bindM (fetchint a) (\<lambda>x. case x of None \<Rightarrow> retM None | Some uarg \<Rightarrow>
     if uarg = 0 then retM (Some [])
     else bindM (fetchstr uarg) (\<lambda>x. case x of None \<Rightarrow> retM None | Some cs \<Rightarrow>
       bindM (sys_exec_args n (a + 4)) (\<lambda>r. retM (map_option ((#) cs) r))))"

definition sys_exec :: "('z cst_scheme, int) kfun" where
  "sys_exec =
     orfail (argstr 0) (\<lambda>path.
     orfail (argint 1) (\<lambda>uargv.
     orfail (sys_exec_args MAXARG uargv) (\<lambda>argv.
     exec path argv)))"

definition sys_pipe :: "('z ost_scheme, int) kfun" where
  "sys_pipe =
     orfail (argptr 0 8) (\<lambda>a.
     bindM pipealloc (\<lambda>(r, f0, f1). case (f0, f1) of
       (Some rfile, Some wfile) \<Rightarrow>
         if r < 0 then retM (-1)
         else bindM (fdalloc rfile) (\<lambda>x. case x of
           None \<Rightarrow> thenM (fileclose rfile) (thenM (fileclose wfile) (retM (-1)))
         | Some fd0 \<Rightarrow>
             bindM (fdalloc wfile) (\<lambda>x. case x of
               None \<Rightarrow> thenM (set_ofile fd0 None) (thenM (fileclose rfile) (thenM (fileclose wfile) (retM (-1))))
             | Some fd1 \<Rightarrow>
                 thenM (ustore_n a (le32_enc (of_nat fd0)))
                 (thenM (ustore_n (a + 4) (le32_enc (of_nat fd1)))
                 (retM 0))))
     | _ \<Rightarrow> retM (-1)))"

end
