(* ===== verification/Syscall.thy ===== *)
theory Syscall
  imports Sysfile Kbd
begin

text \<open>
  sysproc.c, the dispatch of system calls in syscall.c, and trap() of trap.c.
\<close>

section \<open>Process system calls\<close>

definition sys_fork :: "('z pst_scheme, int) kfun" where
  "sys_fork = fork"

definition sys_exit :: "('z ost_scheme, int) kfun" where
  "sys_exit = thenM exit (retM 0)"

definition sys_wait :: "('z mst_scheme, int) kfun" where
  "sys_wait = wait"

definition sys_kill :: "('z mst_scheme, int) kfun" where
  "sys_kill = orfail (argint 0) (\<lambda>n. kill (sint n))"

definition sys_getpid :: "('z kst_scheme, int) kfun" where
  "sys_getpid = bindM curproc (\<lambda>c. getM (\<lambda>s. pid (procs s ! c)))"

definition sys_sbrk :: "('z vst_scheme, int) kfun" where
  "sys_sbrk =
     orfail (argint 0) (\<lambda>n.
     bindM curproc (\<lambda>c.
     bindM (getM (\<lambda>s. sz (procs s ! c))) (\<lambda>addr.
     bindM (growproc (sint n)) (\<lambda>r.
     if r < 0 then retM (-1)
     else retM (sint addr)))))"

text \<open>
  sys_sleep() from the test of its loop on.  \<open>n\<close> is compared as an unsigned
  number.  A process that slept continues here, the lock held.
\<close>

definition sys_sleep_loop :: "u32 \<Rightarrow> u32 \<Rightarrow> ('z pst_scheme, int) kfun" where
  "sys_sleep_loop ticks0 n =
     bindM (getM ticks) (\<lambda>t.
     if t - ticks0 < n then
       bindM curproc (\<lambda>c.
       bindM (get_proc c) (\<lambda>p.
       if killed p then thenM (release L_ticks) (retM (-1))
       else thenM (sleep Ch_ticks (Some L_ticks)) (retM 0)))
     else thenM (release L_ticks) (retM 0))"

definition sys_sleep :: "('z pst_scheme, int) kfun" where
  "sys_sleep =
     orfail (argint 0) (\<lambda>n.
     thenM (acquire L_ticks)
     (bindM (getM ticks) (\<lambda>ticks0.
     sys_sleep_loop ticks0 n)))"

definition sys_uptime :: "('z pst_scheme, int) kfun" where
  "sys_uptime =
     thenM (acquire L_ticks)
     (bindM (getM ticks) (\<lambda>xticks.
     thenM (release L_ticks)
     (retM (sint xticks))))"

text \<open>The lines that get_siblings_info() prints.\<close>

definition sys_get_siblings_info :: "('z cst_scheme, unit) kfun" where
  "sys_get_siblings_info =
     bindM get_siblings_info (\<lambda>out.
     foreachM out (\<lambda>(n, st). cprintf (Some (cbytes ''%d %s'' @ [10])) [Cint (of_int n), Cstr (Some (cbytes st))]))"

text \<open>The test of the pointer covers two elements; \<open>n\<close> of them may be stored.\<close>

definition sys_get_ancestors :: "('z mst_scheme, int) kfun" where
  "sys_get_ancestors =
     orfail (argint 0) (\<lambda>n.
     orfail (argptr 1 8) (\<lambda>arr.
     bindM (get_ancestors (sint n)) (\<lambda>(xs, r).
     thenM (ustore_n arr (concat (map (\<lambda>x. le32_enc (of_int x)) xs)))
     (retM (if r then 1 else 0)))))"

definition sys_getppid :: "('z kst_scheme, int) kfun" where
  "sys_getppid = getppid"

section \<open>Dispatch\<close>

text \<open>
  The table \<open>syscalls\<close>.  sys_get_siblings_info() returns nothing, so the value the
  dispatcher takes from \<open>eax\<close> after it is whatever was left there: \<open>junk\<close>.
\<close>

definition syscalls :: "int \<Rightarrow> int \<Rightarrow> ('z pst_scheme, int) kfun option" where
  "syscalls junk num =
     (if num = 1 then Some sys_fork
      else if num = 2 then Some sys_exit
      else if num = 3 then Some sys_wait
      else if num = 4 then Some sys_pipe
      else if num = 5 then Some sys_read
      else if num = 6 then Some sys_kill
      else if num = 7 then Some sys_exec
      else if num = 8 then Some sys_fstat
      else if num = 9 then Some sys_chdir
      else if num = 10 then Some sys_dup
      else if num = 11 then Some sys_getpid
      else if num = 12 then Some sys_sbrk
      else if num = 13 then Some sys_sleep
      else if num = 14 then Some sys_uptime
      else if num = 15 then Some sys_open
      else if num = 16 then Some sys_write
      else if num = 17 then Some sys_mknod
      else if num = 18 then Some sys_unlink
      else if num = 19 then Some sys_link
      else if num = 20 then Some sys_mkdir
      else if num = 21 then Some sys_close
      else if num = 22 then Some (thenM sys_get_siblings_info (retM junk))
      else if num = 23 then Some sys_get_ancestors
      else if num = 24 then Some sys_getppid
      else None)"

definition set_eax :: "nat \<Rightarrow> int \<Rightarrow> ('z kst_scheme, unit) kfun" where
  "set_eax c r = upd_proc c (\<lambda>p. p\<lparr>tf := (tf p)\<lparr>tf_eax := of_int r\<rparr>\<rparr>)"

definition syscall :: "int \<Rightarrow> ('z pst_scheme, unit) kfun" where
  "syscall junk =
     bindM curproc (\<lambda>c.
     bindM (get_proc c) (\<lambda>p.
     let num = sint (tf_eax (tf p)) in
     case (if num > 0 \<and> num < 25 then syscalls junk num else None) of
       Some f \<Rightarrow> bindM f (set_eax c)
     | None \<Rightarrow>
         thenM (cprintf (Some (cbytes ''%d %s: unknown sys call %d'' @ [10]))
           [Cint (of_int (pid p)), Cstr (Some (cname 16 (pname p))), Cint (of_int num)])
         (set_eax c (-1))))"

section \<open>Traps\<close>

text \<open>\<open>if(myproc() && myproc()->killed && (tf->cs&3) == DPL_USER) exit();\<close>\<close>

definition trap_killed :: "trapframe \<Rightarrow> ('z ost_scheme, unit) kfun" where
  "trap_killed t =
     bindM myproc (\<lambda>c. case c of None \<Rightarrow> skipM | Some c \<Rightarrow>
     bindM (get_proc c) (\<lambda>p.
     whenM (killed p \<and> tf_cs t AND 3 = 3) exit))"

definition exit_if_killed :: "('z ost_scheme, unit) kfun" where
  "exit_if_killed = bindM curproc (\<lambda>c. bindM (get_proc c) (\<lambda>p. whenM (killed p) exit))"

definition timer_tick :: "('z pst_scheme, unit) kfun" where
  "timer_tick =
     thenM (acquire L_ticks)
     (thenM (modM (\<lambda>s. s\<lparr>ticks := ticks s + 1\<rparr>))
     (thenM (wakeup Ch_ticks)
     (release L_ticks)))"

text \<open>The default case of the switch: \<open>cpu\<close> and \<open>cr2\<close> only go into the message.\<close>

definition trap_fault :: "int \<Rightarrow> u32 \<Rightarrow> trapframe \<Rightarrow> ('z cst_scheme, unit) kfun" where
  "trap_fault cpu cr2 t =
     bindM myproc (\<lambda>c. case (if tf_cs t AND 3 = 0 then None else c) of
       None \<Rightarrow>
         thenM (cprintf (Some (cbytes ''unexpected trap %d from cpu %d eip %x (cr2=0x%x)'' @ [10]))
           [Cint (tf_trapno t), Cint (of_int cpu), Cint (tf_eip t), Cint cr2])
         (panicM ''trap'')
     | Some c \<Rightarrow>
         bindM (get_proc c) (\<lambda>p.
         thenM (cprintf (Some (cbytes ''pid %d %s: trap %d err %d on cpu %d eip 0x%x addr 0x%x--kill proc'' @ [10]))
           [Cint (of_int (pid p)), Cstr (Some (cname 16 (pname p))), Cint (tf_trapno t), Cint (tf_err t),
            Cint (of_int cpu), Cint (tf_eip t), Cint cr2])
         (upd_proc c (\<lambda>p. p\<lparr>killed := True\<rparr>))))"

text \<open>
  The device interrupts; the memory disk's ideintr() does nothing, and the
  acknowledgement to the interrupt controller changes no state of the model.
\<close>

definition trap_device :: "int \<Rightarrow> u32 \<Rightarrow> trapframe \<Rightarrow> ('z tst_scheme, unit) kfun" where
  "trap_device cpu cr2 t =
     (if tf_trapno t = 32 then whenM (cpu = 0) timer_tick
      else if tf_trapno t = 32 + 14 \<or> tf_trapno t = 32 + 15 then skipM
      else if tf_trapno t = 32 + 1 then kbdintr
      else if tf_trapno t = 32 + 4 then uartintr
      else if tf_trapno t = 32 + 7 \<or> tf_trapno t = 32 + 31 then
        cprintf (Some (cbytes ''cpu%d: spurious interrupt at %x:%x'' @ [10]))
          [Cint (of_int cpu), Cint (ucast (tf_cs t)), Cint (tf_eip t)]
      else trap_fault cpu cr2 t)"

definition trap_yield :: "trapframe \<Rightarrow> ('z ost_scheme, unit) kfun" where
  "trap_yield t =
     bindM myproc (\<lambda>c. case c of None \<Rightarrow> skipM | Some c \<Rightarrow>
     bindM (get_proc c) (\<lambda>p.
     whenM (pstate p = RUNNING \<and> tf_trapno t = 32) yield))"

text \<open>
  trap().  When the process gives up the CPU in yield(), it continues with
  \<open>yield_resume\<close> and the second \<open>trap_killed\<close>.
\<close>

definition trap :: "int \<Rightarrow> int \<Rightarrow> u32 \<Rightarrow> trapframe \<Rightarrow> ('z tst_scheme, unit) kfun" where
  "trap junk cpu cr2 t =
     (if tf_trapno t = 64 then
        thenM exit_if_killed
        (bindM curproc (\<lambda>c.
        thenM (upd_proc c (\<lambda>p. p\<lparr>tf := t\<rparr>))
        (thenM (syscall junk)
        exit_if_killed)))
      else
        thenM (trap_device cpu cr2 t)
        (thenM (trap_killed t)
        (thenM (trap_yield t)
        (trap_killed t))))"

end
