(* ===== verification/Grep.thy ===== *)
theory Grep
  imports Xv6_Prelude
begin

text \<open>
  grep.c: the matcher for the operators \<open>^ . * $\<close>, and the loop that cuts the
  input into lines.  Strings are byte lists without their NUL.
\<close>

abbreviation (input) STAR :: u8 where "STAR \<equiv> 0x2A"
abbreviation (input) DOLLAR :: u8 where "DOLLAR \<equiv> 0x24"
abbreviation (input) DOT :: u8 where "DOT \<equiv> 0x2E"
abbreviation (input) CARET :: u8 where "CARET \<equiv> 0x5E"
abbreviation (input) NEWLINE :: u8 where "NEWLINE \<equiv> 0x0A"

section \<open>The matcher\<close>

function matchhere :: "bytes \<Rightarrow> bytes \<Rightarrow> bool" and matchstar :: "u8 \<Rightarrow> bytes \<Rightarrow> bytes \<Rightarrow> bool" where
  "matchhere re text =
     (if re = [] then True
      else if tl re \<noteq> [] \<and> hd (tl re) = STAR then matchstar (hd re) (tl (tl re)) text
      else if hd re = DOLLAR \<and> tl re = [] then text = []
      else if text \<noteq> [] \<and> (hd re = DOT \<or> hd re = hd text) then matchhere (tl re) (tl text)
      else False)"
| "matchstar c re text =
     (if matchhere re text then True
      else if text \<noteq> [] \<and> (hd text = c \<or> c = DOT) then matchstar c re (tl text)
      else False)"
  by pat_completeness auto
termination
  by (relation "measures [\<lambda>x. case x of Inl (re, text) \<Rightarrow> length re | Inr (c, re, text) \<Rightarrow> Suc (length re),
       \<lambda>x. case x of Inl (re, text) \<Rightarrow> length text | Inr (c, re, text) \<Rightarrow> length text]")
    (auto simp: neq_Nil_conv)

declare matchhere.simps [simp del] matchstar.simps [simp del]

fun match_loop :: "bytes \<Rightarrow> bytes \<Rightarrow> bool" where
  "match_loop re [] = matchhere re []"
| "match_loop re (t # text) = (if matchhere re (t # text) then True else match_loop re text)"

definition match :: "bytes \<Rightarrow> bytes \<Rightarrow> bool" where
  "match re text = (if re \<noteq> [] \<and> hd re = CARET then matchhere (tl re) text else match_loop re text)"

section \<open>The input loop\<close>

text \<open>
  The inner loop, from \<open>p\<close> to the end of the data in \<open>buf\<close>: the lines written,
  and the rest without a newline.  strchr() does not look behind a NUL.
\<close>

function grep_lines :: "bytes \<Rightarrow> bytes \<Rightarrow> bytes list \<times> bytes" where
  "grep_lines pattern p =
     (let str = takeWhile (\<lambda>c. c \<noteq> 0) p;
          line = takeWhile (\<lambda>c. c \<noteq> NEWLINE) str in
      if length line = length str then ([], p)
      else case grep_lines pattern (drop (Suc (length line)) p) of (out, rest) \<Rightarrow>
        ((if match pattern line then [line @ [NEWLINE]] else []) @ out, rest))"
  by pat_completeness auto
termination
proof (relation "measure (\<lambda>(pattern, p). length p)")
  fix pattern p str line
  assume "str = takeWhile (\<lambda>c. c \<noteq> 0) (p :: bytes)" "line = takeWhile (\<lambda>c. c \<noteq> NEWLINE) str" "length line \<noteq> length str"
  then have "p \<noteq> []" by auto
  then show "((pattern, drop (Suc (length line)) p), pattern, p) \<in> measure (\<lambda>(pattern, p). length p)"
    by (simp add: length_greater_0_conv [THEN iffD2])
qed simp

declare grep_lines.simps [simp del]

text \<open>One turn of the outer loop: \<open>buf\<close> holds \<open>m\<close> bytes, and read() returned \<open>chunk\<close>.\<close>

definition grep_turn :: "bytes \<Rightarrow> bytes \<Rightarrow> bytes \<Rightarrow> bytes list \<times> bytes" where
  "grep_turn pattern buf chunk =
     (case grep_lines pattern (buf @ chunk) of (out, p) \<Rightarrow>
      (out, if length p = length (buf @ chunk) then [] else p))"

text \<open>grep() on the results of the successive calls of read() up to the first that is not positive.\<close>

fun grep_loop :: "bytes \<Rightarrow> bytes \<Rightarrow> bytes list \<Rightarrow> bytes list" where
  "grep_loop pattern buf [] = []"
| "grep_loop pattern buf (chunk # chunks) =
     (case grep_turn pattern buf chunk of (out, buf') \<Rightarrow> out @ grep_loop pattern buf' chunks)"

definition grep :: "bytes \<Rightarrow> bytes list \<Rightarrow> bytes list" where
  "grep pattern chunks = grep_loop pattern [] (takeWhile (\<lambda>c. c \<noteq> []) chunks)"

section \<open>Regular expressions\<close>

text \<open>
  The expression a pattern denotes: a sequence of characters (or dots), each
  once or starred, and whether it is anchored at the start and at the end.
\<close>

datatype item = One u8 | Star u8

fun parse :: "bytes \<Rightarrow> item list \<times> bool" where
  "parse [] = ([], False)"
| "parse [c] = (if c = DOLLAR then ([], True) else ([One c], False))"
| "parse (c # d # re) = (if d = STAR then (case parse re of (its, e) \<Rightarrow> (Star c # its, e))
     else case parse (d # re) of (its, e) \<Rightarrow> (One c # its, e))"

definition fits :: "u8 \<Rightarrow> u8 \<Rightarrow> bool" where
  "fits c t \<longleftrightarrow> c = DOT \<or> c = t"

text \<open>The set of strings a sequence of items matches.\<close>

fun lang :: "item list \<Rightarrow> bytes set" where
  "lang [] = {[]}"
| "lang (One c # its) = {t # v | t v. fits c t \<and> v \<in> lang its}"
| "lang (Star c # its) = {u @ v | u v. (\<forall>t \<in> set u. fits c t) \<and> v \<in> lang its}"

text \<open>A prefix of the text is in the language, and the rest is empty if the expression is anchored at the end.\<close>

definition prefix_in :: "bytes set \<Rightarrow> bool \<Rightarrow> bytes \<Rightarrow> bool" where
  "prefix_in L e text \<longleftrightarrow> (\<exists>v w. text = v @ w \<and> v \<in> L \<and> (e \<longrightarrow> w = []))"

lemma prefix_in_One:
  "prefix_in (lang (One c # its)) e text \<longleftrightarrow> text \<noteq> [] \<and> fits c (hd text) \<and> prefix_in (lang its) e (tl text)"
  unfolding prefix_in_def by (cases "text") (auto simp: Cons_eq_append_conv)

lemma prefix_in_Star:
  "prefix_in (lang (Star c # its)) e text \<longleftrightarrow> prefix_in (lang its) e text
     \<or> text \<noteq> [] \<and> fits c (hd text) \<and> prefix_in (lang (Star c # its)) e (tl text)"
proof
  assume "prefix_in (lang (Star c # its)) e text"
  then obtain x w where x: "text = x @ w" "x \<in> lang (Star c # its)" "e \<longrightarrow> w = []" unfolding prefix_in_def by blast
  then obtain u v where "x = u @ v" and t2: "\<forall>t \<in> set u. fits c t" "v \<in> lang its" by auto
  then have t: "text = (u @ v) @ w" "\<forall>t \<in> set u. fits c t" "v \<in> lang its" "e \<longrightarrow> w = []" using x by auto
  show "prefix_in (lang its) e text \<or> text \<noteq> [] \<and> fits c (hd text) \<and> prefix_in (lang (Star c # its)) e (tl text)"
  proof (cases u)
    case Nil
    then show ?thesis using t by (auto simp: prefix_in_def)
  next
    case (Cons x xs)
    then have "tl text = (xs @ v) @ w" "\<forall>t \<in> set xs. fits c t" using t by auto
    moreover then have "xs @ v \<in> lang (Star c # its)" using t(3) by auto
    ultimately have "prefix_in (lang (Star c # its)) e (tl text)" unfolding prefix_in_def using t(4) by blast
    then show ?thesis using Cons t(1,2) by simp
  qed
next
  assume "prefix_in (lang its) e text \<or> text \<noteq> [] \<and> fits c (hd text) \<and> prefix_in (lang (Star c # its)) e (tl text)"
  then show "prefix_in (lang (Star c # its)) e text"
  proof
    assume "prefix_in (lang its) e text"
    moreover have "lang its \<subseteq> lang (Star c # its)" by (auto intro: exI [of _ "[]"])
    ultimately show ?thesis unfolding prefix_in_def by blast
  next
    assume a: "text \<noteq> [] \<and> fits c (hd text) \<and> prefix_in (lang (Star c # its)) e (tl text)"
    then obtain x xs where x: "text = x # xs" "fits c x" "prefix_in (lang (Star c # its)) e xs" by (cases "text") auto
    from x(3) obtain y w where y: "xs = y @ w" "y \<in> lang (Star c # its)" "e \<longrightarrow> w = []" unfolding prefix_in_def by blast
    then obtain u v where "y = u @ v" and t2: "\<forall>t \<in> set u. fits c t" "v \<in> lang its" by auto
    then have t: "text = x # xs" "fits c x" "xs = (u @ v) @ w" "\<forall>t \<in> set u. fits c t" "v \<in> lang its" "e \<longrightarrow> w = []" using x y by auto
    have "(x # u) @ v \<in> lang (Star c # its)"
      unfolding lang.simps by (intro CollectI exI [of _ "x # u"] exI [of _ v]) (use t(2,4,5) in simp)
    moreover have "text = ((x # u) @ v) @ w" using t(1,3) by simp
    ultimately show ?thesis unfolding prefix_in_def using t(6) by blast
  qed
qed

lemma match_parse:
  "matchhere re text \<longleftrightarrow> (case parse re of (its, e) \<Rightarrow> prefix_in (lang its) e text)"
  "matchstar c re text \<longleftrightarrow> (case parse re of (its, e) \<Rightarrow> prefix_in (lang (Star c # its)) e text)"
proof (induction re "text" and c re "text" rule: matchhere_matchstar.induct)
  case (1 re ts)
  show ?case
  proof (cases re rule: parse.cases)
    case 1
    then show ?thesis by (simp add: matchhere.simps prefix_in_def)
  next
    case (2 c)
    have "prefix_in (lang []) False u" for u by (simp add: prefix_in_def)
    moreover have "prefix_in (lang []) True u \<longleftrightarrow> u = []" for u by (auto simp: prefix_in_def)
    ultimately show ?thesis using 2 by (subst matchhere.simps) (auto simp: prefix_in_One fits_def matchhere.simps simp del: lang.simps)
  next
    case (3 c d r)
    show ?thesis
    proof (cases "d = STAR")
      case True
      then show ?thesis using 1(1) 3 by (subst matchhere.simps) (simp split: prod.split)
    next
      case False
      then have "matchhere re ts \<longleftrightarrow> ts \<noteq> [] \<and> fits c (hd ts) \<and> matchhere (d # r) (tl ts)"
        using 3 by (subst matchhere.simps) (auto simp: fits_def)
      also have "\<dots> \<longleftrightarrow> ts \<noteq> [] \<and> fits c (hd ts) \<and> (case parse (d # r) of (its, e) \<Rightarrow> prefix_in (lang its) e (tl ts))"
        using 1(2) 3 False by (auto simp: fits_def)
      also have "\<dots> \<longleftrightarrow> (case parse re of (its, e) \<Rightarrow> prefix_in (lang its) e ts)"
        using 3 False by (simp add: prefix_in_One del: lang.simps split: prod.split)
      finally show ?thesis .
    qed
  qed
next
  case (2 c re ts)
  obtain its e where p: "parse re = (its, e)" by (cases "parse re")
  have "matchstar c re ts \<longleftrightarrow> matchhere re ts \<or> ts \<noteq> [] \<and> fits c (hd ts) \<and> matchstar c re (tl ts)"
    by (subst matchstar.simps) (auto simp: fits_def)
  also have "\<dots> \<longleftrightarrow> prefix_in (lang its) e ts \<or> ts \<noteq> [] \<and> fits c (hd ts) \<and> prefix_in (lang (Star c # its)) e (tl ts)"
    using 2 p by (auto simp: fits_def simp del: lang.simps)
  also have "\<dots> \<longleftrightarrow> prefix_in (lang (Star c # its)) e ts" by (rule prefix_in_Star [symmetric])
  finally show ?case using p by simp
qed

lemma match_loop_suffix: "match_loop re text \<longleftrightarrow> (\<exists>u v. text = u @ v \<and> matchhere re v)"
proof (induction "text")
  case (Cons t ts)
  have "(\<exists>u v. t # ts = u @ v \<and> matchhere re v) \<longleftrightarrow> matchhere re (t # ts) \<or> (\<exists>u v. ts = u @ v \<and> matchhere re v)"
    by (auto simp: Cons_eq_append_conv)
  then show ?case using Cons by auto
qed simp

text \<open>
  C37: the matcher is right: a line matches a pattern when some part of it is in
  the language of the regular expression that the pattern denotes, the part
  starting at the start of the line after \<open>^\<close> and ending at its end before \<open>$\<close>.
\<close>

theorem match_equiv:
  "match pattern text \<longleftrightarrow>
     (let start = (pattern \<noteq> [] \<and> hd pattern = CARET);
          (its, fin) = parse (if start then tl pattern else pattern)
      in \<exists>u v w. text = u @ v @ w \<and> v \<in> lang its \<and> (u = [] \<or> \<not> start) \<and> (w = [] \<or> \<not> fin))"
proof (cases "pattern \<noteq> [] \<and> hd pattern = CARET")
  case True
  then show ?thesis by (auto simp: match_def match_parse prefix_in_def Let_def split: prod.split)
next
  case False
  then show ?thesis
    unfolding match_def if_not_P [OF False] match_loop_suffix match_parse prefix_in_def Let_def
    by (auto split: prod.split)
qed

text \<open>The pattern \<open>ab*c$\<close> on the line \<open>xabbc\<close>.\<close>

theorem match_equiv_witness: "match [97, 98, 42, 99, 36] [120, 97, 98, 98, 99]"
proof -
  have p: "parse [97, 98, 42, 99, 36] = ([One 97, Star 98, One 99], True)" by simp
  have c: "[99] \<in> lang [One 99]" by (simp add: fits_def)
  have "[98, 98] @ [99] \<in> lang [Star 98, One 99]"
    unfolding lang.simps(3) using c by (intro CollectI exI conjI) (auto simp: fits_def)
  then have "[97, 98, 98, 99] \<in> lang [One 97, Star 98, One 99]" by (simp add: fits_def)
  moreover have "[120, 97, 98, 98, 99] = [120] @ [97, 98, 98, 99] @ ([] :: bytes)" by simp
  ultimately have "\<exists>u v w. [120, 97, 98, 98, 99] = u @ v @ w \<and> v \<in> lang [One 97, Star 98, One 99] \<and> w = ([] :: bytes)"
    by blast
  then show ?thesis by (subst match_equiv) (simp add: Let_def p del: lang.simps)
qed

section \<open>Short reads\<close>

text \<open>
  The outer loop drops what it has read when there is no newline in the
  buffer yet, although the rest of the line may still come: a line that a pipe
  or the console delivers in two pieces is not found.
\<close>

lemma grep_loses_split_line:
  "grep (cbytes ''hello'') [cbytes ''hel'', cbytes ''lo'' @ [NEWLINE]] = []"
  "grep (cbytes ''hello'') [cbytes ''hello'' @ [NEWLINE]] = [cbytes ''hello'' @ [NEWLINE]]"
  by (simp_all add: grep_def grep_turn_def grep_lines.simps Let_def cbytes_def match_def matchhere.simps)

end
