(* ===== verification/Sh_Unparse.thy ===== *)
theory Sh_Unparse
  imports Sh
begin

text \<open>
  A printer for shell commands, and the proof that the parser of sh.c reads
  every printed command back.
\<close>

section \<open>Printing and parsing\<close>

text \<open>
  A printer for commands.  The levels are those of the grammar: a simple
  command with its redirections, a pipeline, a command in the background, a
  list; a command of a higher level is put into parentheses.
\<close>

fun level :: "'a cmd \<Rightarrow> nat" where
  "level (EXEC _) = 0"
| "level (REDIR _ _ _ _) = 0"
| "level (PIPE _ _) = 1"
| "level (BACK _) = 2"
| "level (LIST _ _) = 3"

definition paren :: "nat \<Rightarrow> 'a cmd \<Rightarrow> bytes \<Rightarrow> bytes" where
  "paren k c t = (if level c \<le> k then t else cbytes ''('' @ t @ cbytes '')'')"

definition redir_text :: "u8 \<times> bytes \<Rightarrow> bytes" where
  "redir_text x = fst x # snd x @ cbytes '' ''"

primrec unparse :: "bytes cmd \<Rightarrow> bytes" where
  "unparse (EXEC ws) = concat (map (\<lambda>w. w @ cbytes '' '') ws)"
| "unparse (REDIR c w md fd) = paren 0 c (unparse c) @ redir_text (if fd = 0 then of_char CHR ''<'' else of_char CHR ''>'', w)"
| "unparse (PIPE l r) = paren 0 l (unparse l) @ cbytes ''|'' @ paren 1 r (unparse r)"
| "unparse (LIST l r) = paren 2 l (unparse l) @ cbytes '';'' @ unparse r"
| "unparse (BACK c) = paren 2 c (unparse c) @ cbytes ''&''"

definition plain_word :: "bytes \<Rightarrow> bool" where
  "plain_word w \<longleftrightarrow> w \<noteq> [] \<and> (\<forall>c \<in> set w. is_word c \<and> c \<noteq> 0)"

text \<open>Commands the syntax can express: at most nine arguments, and redirections as \<open><\<close> and \<open>>\<close> make them.\<close>

primrec printable :: "bytes cmd \<Rightarrow> bool" where
  "printable (EXEC ws) \<longleftrightarrow> length ws < MAXARGS \<and> (\<forall>w \<in> set ws. plain_word w)"
| "printable (REDIR c w md fd) \<longleftrightarrow> printable c \<and> plain_word w \<and> (md = O_RDONLY \<and> fd = 0 \<or> md = O_WRONLY_CREATE \<and> fd = 1)"
| "printable (PIPE l r) \<longleftrightarrow> printable l \<and> printable r"
| "printable (LIST l r) \<longleftrightarrow> printable l \<and> printable r"
| "printable (BACK c) \<longleftrightarrow> printable c"

text \<open>The tokeniser on a text in the middle of a line.\<close>

definition clean :: "bytes \<Rightarrow> bool" where
  "clean t \<longleftrightarrow> t = [] \<or> \<not> is_ws (hd t) \<and> hd t \<noteq> 0"

lemma skip_while_text:
  "b = pre @ t @ r \<Longrightarrow> \<forall>c \<in> set t. P c \<Longrightarrow> r = [] \<or> \<not> P (hd r) \<Longrightarrow> skip_while P b (length pre) = length pre + length t"
proof (induction t arbitrary: pre)
  case Nil
  then show ?case by (subst skip_while.simps) (auto simp: nth_append hd_conv_nth)
next
  case (Cons c t)
  have "skip_while P b (length (pre @ [c])) = length (pre @ [c]) + length t" by (rule Cons.IH) (use Cons.prems in auto)
  moreover have "length pre < length b \<and> P (b ! length pre)" using Cons.prems by (simp add: nth_append)
  ultimately show ?case by (subst skip_while.simps) simp
qed

lemma skip_clean: "b = pre @ r \<Longrightarrow> clean r \<Longrightarrow> skip_while is_ws b (length pre) = length pre"
  using skip_while_text [of b pre "[]" r is_ws] by (auto simp: clean_def)

lemma byte_at_text: "b = pre @ r \<Longrightarrow> byte_at b (length pre) = (if r = [] then 0 else hd r)"
  by (auto simp: byte_at_def hd_conv_nth nth_append)

lemma peek_text:
  "b = pre @ r \<Longrightarrow> clean r \<Longrightarrow> peek b toks (length pre) = Ok (r \<noteq> [] \<and> hd r \<in> set toks) (length pre)"
  using skip_clean [of b pre r] byte_at_text [of b pre r] by (auto simp: peek_eq clean_def)

lemma gettoken_symbol:
  assumes b: "b = pre @ c # r" and r: "clean r"
    and c: "c \<in> set (cbytes ''|();&<'') \<or> c = of_char CHR ''>'' \<and> (r = [] \<or> hd r \<noteq> of_char CHR ''>'')"
  shows "gettoken b (length pre) = Ok (c, length pre, length pre + 1) (length pre + 1)"
proof -
  have cl: "clean (c # r)" "c \<noteq> 0" using c by (auto simp: clean_def is_ws_def whitespace_def cbytes_def)
  have "skip_while is_ws b (length pre) = length pre" using b cl(1) by (rule skip_clean)
  moreover have "byte_at b (length pre) = c" using byte_at_text [OF b] by simp
  moreover have b1: "b = (pre @ [c]) @ r" using b by simp
  have "skip_while is_ws b (length pre + 1) = length pre + 1" using skip_clean [OF b1 r] by simp
  moreover have "byte_at b (length pre + 1) = (if r = [] then 0 else hd r)" using byte_at_text [OF b1] by simp
  ultimately show ?thesis using c cl(2) by (auto simp: gettoken_def Let_def cbytes_def)
qed

lemma gettoken_word:
  assumes b: "b = pre @ w @ cbytes '' '' @ r" and w: "plain_word w" and r: "clean r"
  shows "gettoken b (length pre) = Ok (of_char CHR ''a'', length pre, length pre + length w) (length pre + length w + 1)"
    and "span_text b (length pre, length pre + length w) = w"
proof -
  have hd: "is_word (hd w)" "hd w \<noteq> 0" "w \<noteq> []" using w by (auto simp: plain_word_def)
  have c: "clean (w @ cbytes '' '' @ r)" using hd by (auto simp: clean_def is_word_iff)
  have "skip_while is_ws b (length pre) = length pre" using b c by (rule skip_clean)
  moreover have "byte_at b (length pre) = hd w" using byte_at_text [OF b] hd by simp
  moreover have "skip_while is_word b (length pre) = length pre + length w"
    by (rule skip_while_text [OF b]) (use w in \<open>auto simp: plain_word_def is_word_def cbytes_def whitespace_def\<close>)
  moreover have "skip_while is_ws b (length (pre @ w)) = length (pre @ w) + length (cbytes '' '')"
    by (rule skip_while_text [where r = r]) (use b r in \<open>auto simp: clean_def cbytes_def is_ws_def whitespace_def\<close>)
  ultimately show "gettoken b (length pre) = Ok (of_char CHR ''a'', length pre, length pre + length w) (length pre + length w + 1)"
    using hd by (simp add: gettoken_def Let_def is_word_iff)
  show "span_text b (length pre, length pre + length w) = w" using b by (simp add: span_text_def)
qed

text \<open>
  \<open>parses b m pre t a\<close>: started behind \<open>pre\<close>, the parser \<open>m\<close> reads exactly the
  text \<open>t\<close> and returns the command whose words are those of \<open>a\<close>.
\<close>

definition parses :: "bytes \<Rightarrow> (nat, span cmd) kfun \<Rightarrow> bytes \<Rightarrow> bytes \<Rightarrow> bytes cmd \<Rightarrow> bool" where
  "parses b m pre t a \<longleftrightarrow> (\<exists>c. m (length pre) = Ok c (length pre + length t) \<and> map_cmd (span_text b) c = a)"

definition redirs_text :: "(u8 \<times> bytes) list \<Rightarrow> bytes" where
  "redirs_text rs = concat (map redir_text rs)"

definition redirs_ok :: "(u8 \<times> bytes) list \<Rightarrow> bool" where
  "redirs_ok rs \<longleftrightarrow> (\<forall>(c, w) \<in> set rs. (c = of_char CHR ''<'' \<or> c = of_char CHR ''>'') \<and> plain_word w)"

abbreviation (input) wraps :: "'a cmd \<Rightarrow> (u8 \<times> 'a) list \<Rightarrow> 'a cmd" where
  "wraps a rs \<equiv> foldl (\<lambda>a (c, w). redir_tok c a w) a rs"

definition follow :: "string \<Rightarrow> bytes \<Rightarrow> bool" where
  "follow cs r \<longleftrightarrow> r = [] \<or> hd r \<in> set (cbytes cs)"

lemma clean_Nil [simp]: "clean []" by (simp add: clean_def)

lemma clean_symbol: "c \<in> set symbols \<Longrightarrow> clean (c # r)"
  by (auto simp: clean_def symbols_def cbytes_def is_ws_def whitespace_def)

lemma follow_clean: "follow cs r \<Longrightarrow> set cs \<subseteq> set ''<|>&;()'' \<Longrightarrow> clean r"
  by (cases r) (auto simp: follow_def symbols_def cbytes_def intro!: clean_symbol)

lemma clean_word: "plain_word w \<Longrightarrow> clean (w @ r)"
  by (cases w) (auto simp: clean_def plain_word_def is_word_iff)

lemma clean_append: "clean t \<Longrightarrow> clean r \<Longrightarrow> clean (t @ r)"
  by (cases t) (auto simp: clean_def)

lemma redirs_clean: "redirs_ok rs \<Longrightarrow> clean r \<Longrightarrow> clean (redirs_text rs @ r)"
  by (cases rs) (auto simp: redirs_text_def redir_text_def redirs_ok_def symbols_def cbytes_def intro!: clean_symbol)

lemma map_redir_tok: "map_cmd g (redir_tok c a w) = redir_tok c (map_cmd g a) (g w)"
  by (simp add: redir_tok_def)

lemma map_add_arg: "map_cmd g (add_arg w a) = add_arg (g w) (map_cmd g a)"
  by (induction w a rule: add_arg.induct) auto

lemma parseredirs_text:
  assumes "b = pre @ redirs_text rs @ r" "redirs_ok rs" "clean r" "r = [] \<or> hd r \<notin> set (cbytes ''<>'')" "length rs < n"
  shows "\<exists>c'. parseredirs n b c (length pre) = Ok c' (length pre + length (redirs_text rs))
    \<and> map_cmd (span_text b) c' = wraps (map_cmd (span_text b) c) rs"
  using assms
proof (induction rs arbitrary: pre c n)
  case Nil
  then obtain n' where n: "n = Suc n'" by (cases n) auto
  have "peek b (cbytes ''<>'') (length pre) = Ok False (length pre)"
    using peek_text [of b pre r] Nil by (auto simp: redirs_text_def)
  then show ?case by (simp add: n kcode redirs_text_def)
next
  case (Cons x rs)
  obtain d w where x: "x = (d, w)" by (cases x)
  then have d: "d = of_char CHR ''<'' \<or> d = of_char CHR ''>''" and w: "plain_word w" and rs: "redirs_ok rs"
    using Cons.prems(2) by (auto simp: redirs_ok_def)
  obtain n' where n: "n = Suc n'" "length rs < n'" using Cons.prems(5) by (cases n) auto
  let ?r = "redirs_text rs @ r"
  have b: "b = pre @ d # w @ cbytes '' '' @ ?r" using Cons.prems(1) by (simp add: x redirs_text_def redir_text_def)
  have cr: "clean ?r" using rs Cons.prems(3) by (rule redirs_clean)
  have wd: "w \<noteq> []" "hd w \<noteq> of_char CHR ''>''" using w by (cases w; auto simp: plain_word_def is_word_iff)+
  have pk: "peek b (cbytes ''<>'') (length pre) = Ok True (length pre)"
    using peek_text [OF b clean_symbol] d by (auto simp: symbols_def cbytes_def)
  have t1: "gettoken b (length pre) = Ok (d, length pre, length pre + 1) (length pre + 1)"
    by (rule gettoken_symbol [OF b clean_word [OF w]]) (use d wd in \<open>auto simp: cbytes_def\<close>)
  have b2: "b = (pre @ [d]) @ w @ cbytes '' '' @ ?r" using b by simp
  note t2 = gettoken_word [OF b2 w cr]
  have b3: "b = (pre @ [d] @ w @ cbytes '' '') @ ?r" using b by simp
  let ?c = "redir_tok d c (length pre + 1, length pre + 1 + length w)"
  obtain c' where c': "parseredirs n' b ?c (length (pre @ [d] @ w @ cbytes '' '')) = Ok c' (length (pre @ [d] @ w @ cbytes '' '') + length (redirs_text rs))"
    "map_cmd (span_text b) c' = wraps (map_cmd (span_text b) ?c) rs"
    using Cons.IH [OF b3 rs Cons.prems(3,4) n(2), of ?c] by blast
  show ?case
    using pk t1 t2 c' by (simp add: n kcode x map_redir_tok redirs_text_def redir_text_def cbytes_def add.assoc)
qed

definition words_text :: "bytes list \<Rightarrow> bytes" where
  "words_text ws = concat (map (\<lambda>w. w @ cbytes '' '') ws)"

lemma words_clean: "\<forall>w \<in> set ws. plain_word w \<Longrightarrow> clean r \<Longrightarrow> clean (words_text ws @ r)"
  by (cases ws) (auto simp: words_text_def clean_word)

lemma words_no_redir:
  "\<forall>w \<in> set ws. plain_word w \<Longrightarrow> ws \<noteq> [] \<Longrightarrow> is_word (hd (words_text ws @ r)) \<and> words_text ws @ r \<noteq> []"
  by (cases ws; cases "hd ws") (auto simp: words_text_def plain_word_def)

lemma redirs_length: "length rs \<le> length (redirs_text rs)"
  by (induction rs) (auto simp: redirs_text_def redir_text_def)

lemma not_redir: "follow ''|)&;'' r \<Longrightarrow> r = [] \<or> hd r \<notin> set (cbytes ''<>'')"
  by (auto simp: follow_def cbytes_def)

lemma parse_args_end:
  assumes "b = pre @ r" "follow ''|)&;'' r"
  shows "parse_args argc b c (length pre) = Ok c (length pre)"
proof -
  have cl: "clean r" by (rule follow_clean [OF assms(2)]) simp
  show ?thesis
  proof (cases "r = []")
    case True
    then have "gettoken b (length pre) = Ok (0, length pre, length pre) (length pre)"
      using skip_clean [OF assms(1) cl] byte_at_text [OF assms(1)] by (simp add: gettoken_def Let_def)
    then show ?thesis
      unfolding parse_args.simps [of argc b c] using peek_text [OF assms(1) cl] True by (simp add: kcode)
  next
    case False
    then show ?thesis
      unfolding parse_args.simps [of argc b c] using peek_text [OF assms(1) cl] assms(2) by (simp add: kcode follow_def)
  qed
qed

lemma parse_args_text:
  assumes "b = pre @ words_text ws @ redirs_text rs @ r" "\<forall>w \<in> set ws. plain_word w" "redirs_ok rs"
    "follow ''|)&;'' r" "argc + length ws < MAXARGS" "ws = [] \<longrightarrow> rs = []"
  shows "\<exists>c'. parse_args argc b c (length pre) = Ok c' (length pre + length (words_text ws) + length (redirs_text rs))
    \<and> map_cmd (span_text b) c' = wraps (foldl (\<lambda>a w. add_arg w a) (map_cmd (span_text b) c) ws) rs"
  using assms
proof (induction ws arbitrary: pre c argc)
  case Nil
  then show ?case using parse_args_end [of b pre r] by (simp add: words_text_def redirs_text_def)
next
  case (Cons w ws)
  have w: "plain_word w" "\<forall>w \<in> set ws. plain_word w" using Cons.prems(2) by auto
  have cl: "clean r" by (rule follow_clean [OF Cons.prems(4)]) simp
  let ?t = "words_text ws @ redirs_text rs @ r"
  have b: "b = pre @ w @ cbytes '' '' @ ?t" using Cons.prems(1) by (simp add: words_text_def)
  have b2: "b = (pre @ w @ cbytes '' '') @ ?t" using b by simp
  have clt: "clean ?t" by (intro words_clean w redirs_clean Cons.prems cl)
  have hdw: "w \<noteq> []" "is_word (hd w)" using w(1) by (auto simp: plain_word_def)
  have "hd w \<notin> set (cbytes ''|)&;'')" using hdw(2) by (auto simp: is_word_def symbols_def cbytes_def)
  then have pk: "peek b (cbytes ''|)&;'') (length pre) = Ok False (length pre)"
    using peek_text [OF b clean_word [OF w(1)]] hdw by simp
  note tk = gettoken_word [OF b w(1) clt]
  let ?c = "add_arg (length pre, length pre + length w) c"
  let ?p = "pre @ w @ cbytes '' ''"
  have n: "length rs < Suc (length b)" using redirs_length [of rs] Cons.prems(1) by simp
  show ?case
  proof (cases "ws = []")
    case True
    have b3: "b = ?p @ redirs_text rs @ r" using b True by (simp add: words_text_def)
    obtain c' where c': "parseredirs (Suc (length b)) b ?c (length ?p) = Ok c' (length ?p + length (redirs_text rs))"
      "map_cmd (span_text b) c' = wraps (map_cmd (span_text b) ?c) rs"
      using parseredirs_text [OF b3 Cons.prems(3) cl not_redir [OF Cons.prems(4)] n, of ?c] by blast
    have b4: "b = (?p @ redirs_text rs) @ r" using b3 by simp
    show ?thesis
      unfolding parse_args.simps [of argc b c]
      using pk tk c' parse_args_end [OF b4 Cons.prems(4), of "argc + 1" c'] Cons.prems(5) True
      by (simp add: kcode map_add_arg words_text_def cbytes_def add.assoc del: parseredirs.simps)
  next
    case False
    have b3: "b = ?p @ redirs_text [] @ ?t" using b by (simp add: redirs_text_def)
    have nr: "?t = [] \<or> hd ?t \<notin> set (cbytes ''<>'')"
      using words_no_redir [OF w(2) False, of "redirs_text rs @ r"] by (auto simp: is_word_def symbols_def cbytes_def)
    obtain c' where c': "parseredirs (Suc (length b)) b ?c (length ?p) = Ok c' (length ?p)"
      "map_cmd (span_text b) c' = map_cmd (span_text b) ?c"
      using parseredirs_text [OF b3 _ clt nr, of "Suc (length b)" ?c] by (auto simp: redirs_ok_def redirs_text_def)
    obtain c2 where c2: "parse_args (argc + 1) b c' (length ?p) = Ok c2 (length ?p + length (words_text ws) + length (redirs_text rs))"
      "map_cmd (span_text b) c2 = wraps (foldl (\<lambda>a w. add_arg w a) (map_cmd (span_text b) c') ws) rs"
      using Cons.IH [OF b2 w(2) Cons.prems(3,4), of "argc + 1" c'] Cons.prems(5) False by auto
    show ?thesis
      unfolding parse_args.simps [of argc b c]
      using pk tk c' c2 Cons.prems(5) False
      by (simp add: kcode map_add_arg words_text_def cbytes_def add.assoc del: parseredirs.simps)
  qed
qed

text \<open>
  The text \<open>t\<close> is read as the command \<open>a\<close> by the parser of each level, in front of
  everything that may follow there: redirections after a simple command, more
  \<open>&\<close>s after a pipeline.
\<close>

definition execs :: "bytes \<Rightarrow> bytes cmd \<Rightarrow> bool" where
  "execs t a \<longleftrightarrow> clean t \<and> (\<forall>b pre rs r f. b = pre @ t @ redirs_text rs @ r \<longrightarrow> redirs_ok rs \<longrightarrow> follow ''|)&;'' r \<longrightarrow>
     4 * (length b - length pre) + 2 \<le> f \<longrightarrow> parses b (parseexec f b) pre (t @ redirs_text rs) (wraps a rs))"

definition pipes :: "bytes \<Rightarrow> bytes cmd \<Rightarrow> bool" where
  "pipes t a \<longleftrightarrow> clean t \<and> (\<forall>b pre r f. b = pre @ t @ r \<longrightarrow> follow '')&;'' r \<longrightarrow>
     4 * (length b - length pre) + 3 \<le> f \<longrightarrow> parses b (parsepipe f b) pre t a)"

definition amps :: "nat \<Rightarrow> bytes" where "amps j = concat (replicate j (cbytes ''&''))"

definition backs :: "bytes \<Rightarrow> bytes cmd \<Rightarrow> bool" where
  "backs t a \<longleftrightarrow> clean t \<and> (\<forall>b pre j r f. b = pre @ t @ amps j @ r \<longrightarrow> follow '');'' r \<longrightarrow>
     4 * (length b - length pre) + 3 \<le> f \<longrightarrow>
     parses b (bindM (parsepipe f b) (parse_backs (Suc (length b)) b)) pre (t @ amps j) ((BACK ^^ j) a))"

definition lines_as :: "bytes \<Rightarrow> bytes cmd \<Rightarrow> bool" where
  "lines_as t a \<longleftrightarrow> clean t \<and> (\<forall>b pre r f. b = pre @ t @ r \<longrightarrow> follow '')'' r \<longrightarrow>
     4 * (length b - length pre) + 4 \<le> f \<longrightarrow> parses b (parseline f b) pre t a)"

lemma parsesE:
  assumes "parses b m pre t a"
  obtains c where "m (length pre) = Ok c (length pre + length t)" "map_cmd (span_text b) c = a"
  using assms by (auto simp: parses_def)

lemma execsD:
  assumes "execs t a" and "b = pre @ t @ redirs_text rs @ r" "redirs_ok rs" "follow ''|)&;'' r" "4 * (length b - length pre) + 2 \<le> f"
  shows "parses b (parseexec f b) pre (t @ redirs_text rs) (wraps a rs)"
  using assms unfolding execs_def by blast

lemma execsD0:
  assumes "execs t a" and "b = pre @ t @ r" "follow ''|)&;'' r" "4 * (length b - length pre) + 2 \<le> f"
  shows "parses b (parseexec f b) pre t a"
  using execsD [of t a b pre "[]" r f] assms by (simp add: redirs_text_def redirs_ok_def)

lemma pipesD:
  assumes "pipes t a" and "b = pre @ t @ r" "follow '')&;'' r" "4 * (length b - length pre) + 3 \<le> f"
  shows "parses b (parsepipe f b) pre t a"
  using assms unfolding pipes_def by blast

lemma backsD:
  assumes "backs t a" and "b = pre @ t @ amps j @ r" "follow '');'' r" "4 * (length b - length pre) + 3 \<le> f"
  shows "parses b (bindM (parsepipe f b) (parse_backs (Suc (length b)) b)) pre (t @ amps j) ((BACK ^^ j) a)"
  using assms unfolding backs_def by blast

lemma linesD:
  assumes "lines_as t a" and "b = pre @ t @ r" "follow '')'' r" "4 * (length b - length pre) + 4 \<le> f"
  shows "parses b (parseline f b) pre t a"
  using assms unfolding lines_as_def by blast

lemma text_clean:
  "execs t a \<Longrightarrow> clean t" "pipes t a \<Longrightarrow> clean t" "backs t a \<Longrightarrow> clean t" "lines_as t a \<Longrightarrow> clean t"
  by (simp_all add: execs_def pipes_def backs_def lines_as_def)

lemma clean_syms: "s \<noteq> [] \<Longrightarrow> set s \<subseteq> set ''<|>&;()'' \<Longrightarrow> clean (cbytes s @ r)"
  by (cases s) (auto simp: cbytes_def symbols_def intro!: clean_symbol)

lemma execs_pipes: "execs t a \<Longrightarrow> pipes t a"
  unfolding pipes_def
proof (intro conjI allI impI)
  assume e: "execs t a"
  then show "clean t" by (rule text_clean)
  fix b pre r f assume b: "b = pre @ t @ r" and r: "follow '')&;'' r" and f: "4 * (length b - length pre) + 3 \<le> f"
  obtain f' where f': "f = Suc f'" "4 * (length b - length pre) + 2 \<le> f'" using f by (cases f) auto
  have r': "follow ''|)&;'' r" "r = [] \<or> hd r \<notin> set (cbytes ''|'')" "clean r"
    using r follow_clean [OF r] by (auto simp: follow_def cbytes_def)
  have "parses b (parseexec f' b) pre t a" by (rule execsD0 [OF e b r'(1) f'(2)])
  then obtain c where c: "parseexec f' b (length pre) = Ok c (length pre + length t)" "map_cmd (span_text b) c = a"
    by (rule parsesE)
  have b2: "b = (pre @ t) @ r" using b by simp
  show "parses b (parsepipe f b) pre t a"
    using c peek_text [OF b2 r'(3), of "cbytes ''|''"] r'(2) by (auto simp: parses_def f'(1) kcode)
qed

lemma symbol_step:
  assumes "b = p @ cbytes [ch] @ r" "clean r" "ch \<in> set ''|();&''"
  shows "peek b (cbytes [ch]) (length p) = Ok True (length p)"
    and "gettoken b (length p) = Ok (of_char ch, length p, length p + 1) (length p + 1)"
proof -
  have b: "b = p @ of_char ch # r" using assms(1) by (simp add: cbytes_def)
  have "clean (of_char ch # r)" using assms(3) by (intro clean_symbol) (auto simp: symbols_def cbytes_def)
  then show "peek b (cbytes [ch]) (length p) = Ok True (length p)" using peek_text [OF b] by (simp add: cbytes_def)
  show "gettoken b (length p) = Ok (of_char ch, length p, length p + 1) (length p + 1)"
    by (rule gettoken_symbol [OF b assms(2)]) (use assms(3) in \<open>auto simp: cbytes_def\<close>)
qed

lemma pipes_Cons:
  assumes l: "execs t l" and r: "pipes u a"
  shows "pipes (t @ cbytes ''|'' @ u) (PIPE l a)"
  unfolding pipes_def
proof (intro conjI allI impI)
  show "clean (t @ cbytes ''|'' @ u)" by (intro clean_append [OF text_clean(1) [OF l]] clean_syms) auto
  fix b pre r f assume b: "b = pre @ (t @ cbytes ''|'' @ u) @ r" and fr: "follow '')&;'' r"
    and f: "4 * (length b - length pre) + 3 \<le> f"
  obtain f' where f': "f = Suc f'" "4 * (length b - length pre) + 2 \<le> f'" using f by (cases f) auto
  have cr: "clean (u @ r)" by (intro clean_append [OF text_clean(2) [OF r]] follow_clean [OF fr]) simp
  have b1: "b = pre @ t @ cbytes ''|'' @ u @ r" and b2: "b = (pre @ t) @ cbytes ''|'' @ u @ r"
    and b3: "b = (pre @ t @ cbytes ''|'') @ u @ r" using b by simp_all
  obtain c where c: "parseexec f' b (length pre) = Ok c (length pre + length t)" "map_cmd (span_text b) c = l"
    by (rule parsesE [OF execsD0 [OF l b1 _ f'(2)]]) (auto simp: follow_def cbytes_def)
  have fu: "4 * (length b - length (pre @ t @ cbytes ''|'')) + 3 \<le> f'" using f'(2) b by simp
  obtain d where d: "parsepipe f' b (length (pre @ t @ cbytes ''|'')) = Ok d (length (pre @ t @ cbytes ''|'') + length u)"
    "map_cmd (span_text b) d = a"
    by (rule parsesE [OF pipesD [OF r b3 fr fu]])
  show "parses b (parsepipe f b) pre (t @ cbytes ''|'' @ u) (PIPE l a)"
    using c symbol_step [OF b2 cr] d by (simp add: parses_def f'(1) kcode)
qed

lemma amps_simps: "amps 0 = []" "amps (Suc j) = cbytes ''&'' @ amps j" "length (amps j) = j" "amps j @ cbytes ''&'' = cbytes ''&'' @ amps j"
proof -
  show "amps 0 = []" "amps (Suc j) = cbytes ''&'' @ amps j" by (simp_all add: amps_def)
  show "length (amps j) = j" "amps j @ cbytes ''&'' = cbytes ''&'' @ amps j" by (induction j) (simp_all add: amps_def)
qed

lemma parse_backs_text:
  assumes "b = pre @ amps j @ r" "follow '');'' r" "j < n"
  shows "\<exists>c'. parse_backs n b c (length pre) = Ok c' (length pre + j)
    \<and> map_cmd (span_text b) c' = (BACK ^^ j) (map_cmd (span_text b) c)"
  using assms
proof (induction j arbitrary: pre c n)
  case 0
  have b: "b = pre @ r" using 0(1) by (simp add: amps_simps)
  have "clean r" by (rule follow_clean [OF 0(2)]) simp
  from peek_text [OF b this, of "cbytes ''&''"] have "peek b (cbytes ''&'') (length pre) = Ok False (length pre)"
    using 0(2) by (auto simp: follow_def cbytes_def)
  then show ?case using 0(3) by (cases n) (auto simp: kcode)
next
  case (Suc j)
  obtain n' where n: "n = Suc n'" "j < n'" using Suc.prems(3) by (cases n) auto
  have b: "b = pre @ cbytes ''&'' @ amps j @ r" and b2: "b = (pre @ cbytes ''&'') @ amps j @ r"
    using Suc.prems(1) by (simp_all add: amps_simps)
  have cl: "clean (amps j @ r)"
    by (cases j) (auto simp: amps_simps intro!: clean_syms follow_clean [OF Suc.prems(2)])
  obtain c' where "parse_backs n' b (BACK c) (length (pre @ cbytes ''&'')) = Ok c' (length (pre @ cbytes ''&'') + j)"
    "map_cmd (span_text b) c' = (BACK ^^ j) (map_cmd (span_text b) (BACK c))"
    using Suc.IH [OF b2 Suc.prems(2) n(2), of "BACK c"] by blast
  then show ?case using symbol_step [OF b cl] by (simp add: n kcode funpow_swap1)
qed

lemma pipes_backs: "pipes t a \<Longrightarrow> backs t a"
  unfolding backs_def
proof (intro conjI allI impI)
  assume p: "pipes t a"
  then show "clean t" by (rule text_clean)
  fix b pre j r f assume b: "b = pre @ t @ amps j @ r" and r: "follow '');'' r" and f: "4 * (length b - length pre) + 3 \<le> f"
  have "follow '')&;'' (amps j @ r)" using r by (cases j) (auto simp: amps_simps follow_def cbytes_def)
  then obtain c where c: "parsepipe f b (length pre) = Ok c (length pre + length t)" "map_cmd (span_text b) c = a"
    by (rule parsesE [OF pipesD [OF p b _ f]])
  have b2: "b = (pre @ t) @ amps j @ r" using b by simp
  have n: "j < Suc (length b)" using b by (simp add: amps_simps)
  obtain c' where "parse_backs (Suc (length b)) b c (length (pre @ t)) = Ok c' (length (pre @ t) + j)"
    "map_cmd (span_text b) c' = (BACK ^^ j) (map_cmd (span_text b) c)"
    using parse_backs_text [OF b2 r n] by blast
  then show "parses b (bindM (parsepipe f b) (parse_backs (Suc (length b)) b)) pre (t @ amps j) ((BACK ^^ j) a)"
    using c by (simp add: parses_def kcode amps_simps add.assoc del: parse_backs.simps)
qed

lemma backs_BACK: "backs t a \<Longrightarrow> backs (t @ cbytes ''&'') (BACK a)"
  unfolding backs_def
proof (intro conjI allI impI)
  assume k: "clean t \<and> (\<forall>b pre j r f. b = pre @ t @ amps j @ r \<longrightarrow> follow '');'' r \<longrightarrow> 4 * (length b - length pre) + 3 \<le> f \<longrightarrow>
     parses b (bindM (parsepipe f b) (parse_backs (Suc (length b)) b)) pre (t @ amps j) ((BACK ^^ j) a))"
  then have k: "backs t a" by (simp add: backs_def)
  show "clean (t @ cbytes ''&'')" using clean_append [OF text_clean(3) [OF k], of "cbytes ''&''"] clean_syms [of "''&''" "[]"] by simp
  fix b pre j r f assume b: "b = pre @ (t @ cbytes ''&'') @ amps j @ r" and r: "follow '');'' r" and f: "4 * (length b - length pre) + 3 \<le> f"
  have "b = pre @ t @ amps (Suc j) @ r" using b by (simp add: amps_simps)
  from backsD [OF k this r f]
  show "parses b (bindM (parsepipe f b) (parse_backs (Suc (length b)) b)) pre ((t @ cbytes ''&'') @ amps j) ((BACK ^^ j) (BACK a))"
    by (simp add: amps_simps funpow_swap1)
qed

lemma parseline_split:
  "parseline (Suc f) b = bindM (bindM (parsepipe f b) (parse_backs (Suc (length b)) b)) (\<lambda>cmd.
     bindM (peek b (cbytes '';'')) (\<lambda>more.
     if more then bindM (gettoken b) (\<lambda>_. bindM (parseline f b) (\<lambda>r. retM (LIST cmd r))) else retM cmd))"
  by (simp add: bindM_assoc del: parse_backs.simps)

lemma backs_run:
  assumes "backs t a" and "b = pre @ t @ r" and "follow '');'' r" and "4 * (length b - length pre) + 3 \<le> f"
  obtains c where "bindM (parsepipe f b) (parse_backs (Suc (length b)) b) (length pre) = Ok c (length pre + length t)"
    "map_cmd (span_text b) c = a"
proof -
  have "b = pre @ t @ amps 0 @ r" using assms(2) by (simp add: amps_simps)
  from backsD [OF assms(1) this assms(3,4)] show ?thesis by (auto simp: amps_simps intro: that elim!: parsesE)
qed

lemma backs_lines: "backs t a \<Longrightarrow> lines_as t a"
  unfolding lines_as_def
proof (intro conjI allI impI)
  assume k: "backs t a"
  then show "clean t" by (rule text_clean)
  fix b pre r f assume b: "b = pre @ t @ r" and r: "follow '')'' r" and f: "4 * (length b - length pre) + 4 \<le> f"
  obtain f' where f': "f = Suc f'" "4 * (length b - length pre) + 3 \<le> f'" using f by (cases f) auto
  have r': "follow '');'' r" "clean r" "r = [] \<or> hd r \<notin> set (cbytes '';'')"
    using r follow_clean [OF r] by (auto simp: follow_def cbytes_def)
  obtain c where c: "bindM (parsepipe f' b) (parse_backs (Suc (length b)) b) (length pre) = Ok c (length pre + length t)"
    "map_cmd (span_text b) c = a"
    by (rule backs_run [OF k b r'(1) f'(2)])
  have b2: "b = (pre @ t) @ r" using b by simp
  have "peek b (cbytes '';'') (length (pre @ t)) = Ok False (length (pre @ t))" using peek_text [OF b2 r'(2)] r'(3) by auto
  then show "parses b (parseline f b) pre t a"
    unfolding f'(1) parseline_split parses_def using c by (simp add: bindM_apply [of _ _ "length pre"] kcode)
qed

lemma lines_LIST:
  assumes k: "backs t a" and l: "lines_as u d"
  shows "lines_as (t @ cbytes '';'' @ u) (LIST a d)"
  unfolding lines_as_def
proof (intro conjI allI impI)
  show "clean (t @ cbytes '';'' @ u)" by (intro clean_append [OF text_clean(3) [OF k]] clean_syms) auto
  fix b pre r f assume b: "b = pre @ (t @ cbytes '';'' @ u) @ r" and r: "follow '')'' r" and f: "4 * (length b - length pre) + 4 \<le> f"
  obtain f' where f': "f = Suc f'" "4 * (length b - length pre) + 3 \<le> f'" using f by (cases f) auto
  have b1: "b = pre @ t @ cbytes '';'' @ u @ r" and b2: "b = (pre @ t) @ cbytes '';'' @ u @ r"
    and b3: "b = (pre @ t @ cbytes '';'') @ u @ r" using b by simp_all
  have cl: "clean (u @ r)" by (intro clean_append [OF text_clean(4) [OF l]] follow_clean [OF r]) simp
  obtain c where c: "bindM (parsepipe f' b) (parse_backs (Suc (length b)) b) (length pre) = Ok c (length pre + length t)"
    "map_cmd (span_text b) c = a"
    by (rule backs_run [OF k b1 _ f'(2)]) (auto simp: follow_def cbytes_def)
  have fu: "4 * (length b - length (pre @ t @ cbytes '';'')) + 4 \<le> f'" using f'(2) b by simp
  obtain e where e: "parseline f' b (length (pre @ t @ cbytes '';'')) = Ok e (length (pre @ t @ cbytes '';'') + length u)"
    "map_cmd (span_text b) e = d"
    by (rule parsesE [OF linesD [OF l b3 r fu]])
  show "parses b (parseline f b) pre (t @ cbytes '';'' @ u) (LIST a d)"
    unfolding f'(1) parseline_split parses_def
    using c e symbol_step [OF b2 cl] by (simp add: bindM_apply [of _ _ "length pre"] kcode)
qed

lemma lines_block: "lines_as t a \<Longrightarrow> execs (cbytes ''('' @ t @ cbytes '')'') a"
  unfolding execs_def
proof (intro conjI allI impI)
  assume l: "lines_as t a"
  show "clean (cbytes ''('' @ t @ cbytes '')'')" by (rule clean_syms) auto
  fix b pre rs r f assume b: "b = pre @ (cbytes ''('' @ t @ cbytes '')'') @ redirs_text rs @ r" and rs: "redirs_ok rs"
    and r: "follow ''|)&;'' r" and f: "4 * (length b - length pre) + 2 \<le> f"
  obtain f' where f': "f = Suc (Suc f')" "4 * (length b - length pre) \<le> f'" using f by (cases f; cases "f - 1") auto
  have cr: "clean r" by (rule follow_clean [OF r]) simp
  let ?p = "pre @ cbytes ''(''"
  have b1: "b = pre @ cbytes ''('' @ t @ cbytes '')'' @ redirs_text rs @ r"
    and b2: "b = ?p @ t @ cbytes '')'' @ redirs_text rs @ r"
    and b3: "b = (?p @ t) @ cbytes '')'' @ redirs_text rs @ r"
    and b4: "b = (?p @ t @ cbytes '')'') @ redirs_text rs @ r" using b by simp_all
  have cl: "clean (t @ cbytes '')'' @ redirs_text rs @ r)" "clean (redirs_text rs @ r)"
    by (intro clean_append [OF text_clean(4) [OF l]] clean_syms redirs_clean [OF rs cr]; simp)+
  have fu: "4 * (length b - length ?p) + 4 \<le> f'" using f'(2) b by simp
  have "follow '')'' (cbytes '')'' @ redirs_text rs @ r)" by (auto simp: follow_def cbytes_def)
  then obtain c where c: "parseline f' b (length ?p) = Ok c (length ?p + length t)" "map_cmd (span_text b) c = a"
    by (rule parsesE [OF linesD [OF l b2 _ fu]])
  have n: "length rs < Suc (length b)" using redirs_length [of rs] b by simp
  obtain c' where "parseredirs (Suc (length b)) b c (length (?p @ t @ cbytes '')'')) = Ok c' (length (?p @ t @ cbytes '')'') + length (redirs_text rs))"
    "map_cmd (span_text b) c' = wraps (map_cmd (span_text b) c) rs"
    using parseredirs_text [OF b4 rs cr not_redir [OF r] n, of c] by blast
  then show "parses b (parseexec f b) pre ((cbytes ''('' @ t @ cbytes '')'') @ redirs_text rs) (wraps a rs)"
    using c symbol_step [OF b1 cl(1)] symbol_step [OF b3 cl(2)]
    by (simp add: parses_def f'(1) kcode add.assoc del: parseredirs.simps)
qed

lemma fold_add_arg: "foldl (\<lambda>a w. add_arg w a) (EXEC us) ws = EXEC (us @ ws)"
  by (induction ws arbitrary: us) auto

lemma execs_EXEC:
  assumes w: "\<forall>w \<in> set ws. plain_word w" and n: "length ws < MAXARGS"
  shows "execs (words_text ws) (EXEC ws)"
  unfolding execs_def
proof (intro conjI allI impI)
  show "clean (words_text ws)" using words_clean [OF w, of "[]"] by simp
  fix b pre rs r f assume b: "b = pre @ words_text ws @ redirs_text rs @ r" and rs: "redirs_ok rs"
    and r: "follow ''|)&;'' r" and f: "4 * (length b - length pre) + 2 \<le> f"
  obtain f' where f': "f = Suc f'" using f by (cases f) auto
  have cr: "clean r" by (rule follow_clean [OF r]) simp
  let ?t = "words_text ws @ redirs_text rs @ r"
  have cl: "clean ?t" by (intro words_clean [OF w] redirs_clean [OF rs cr])
  have wd: "is_word (hd ?t) \<and> ?t \<noteq> []" if "ws \<noteq> []" using words_no_redir [OF w that] .
  have rd: "?t = [] \<or> hd ?t \<in> set (cbytes ''<>|)&;'')" if "ws = []"
    using that rs r by (cases rs) (auto simp: words_text_def redirs_text_def redir_text_def redirs_ok_def follow_def cbytes_def)
  have "?t = [] \<or> hd ?t \<notin> set (cbytes ''('')"
    using wd rd by (cases "ws = []") (auto simp: is_word_def symbols_def cbytes_def)
  then have pk: "peek b (cbytes ''('') (length pre) = Ok False (length pre)" using peek_text [OF b cl] by auto
  show "parses b (parseexec f b) pre (words_text ws @ redirs_text rs) (wraps (EXEC ws) rs)"
  proof (cases "ws = []")
    case True
    have b1: "b = pre @ redirs_text rs @ r" and b2: "b = (pre @ redirs_text rs) @ r" using b True by (simp_all add: words_text_def)
    have "length rs < Suc (length b)" using redirs_length [of rs] b by simp
    then obtain c where "parseredirs (Suc (length b)) b (EXEC []) (length pre) = Ok c (length pre + length (redirs_text rs))"
      "map_cmd (span_text b) c = wraps (map_cmd (span_text b) (EXEC [])) rs"
      using parseredirs_text [OF b1 rs cr not_redir [OF r]] by blast
    then show ?thesis
      using pk parse_args_end [OF b2 r] True by (simp add: parses_def f' kcode words_text_def del: parseredirs.simps)
  next
    case False
    have nr: "?t = [] \<or> hd ?t \<notin> set (cbytes ''<>'')" using wd [OF False] by (auto simp: is_word_def symbols_def cbytes_def)
    have b1: "b = pre @ redirs_text [] @ ?t" using b by (simp add: redirs_text_def)
    obtain c where c: "parseredirs (Suc (length b)) b (EXEC []) (length pre) = Ok c (length pre)" "map_cmd (span_text b) c = EXEC []"
      using parseredirs_text [OF b1 _ cl nr, of "Suc (length b)" "EXEC []"] by (auto simp: redirs_ok_def redirs_text_def)
    obtain c' where "parse_args 0 b c (length pre) = Ok c' (length pre + length (words_text ws) + length (redirs_text rs))"
      "map_cmd (span_text b) c' = wraps (foldl (\<lambda>a w. add_arg w a) (map_cmd (span_text b) c) ws) rs"
      using parse_args_text [OF b w rs r, of 0 c] n False by auto
    then show ?thesis using pk c by (simp add: parses_def f' kcode fold_add_arg add.assoc del: parseredirs.simps)
  qed
qed

lemma execs_REDIR:
  assumes e: "execs t a" and w: "plain_word w" and d: "d = of_char CHR ''<'' \<or> d = of_char CHR ''>''"
  shows "execs (t @ redir_text (d, w)) (redir_tok d a w)"
  unfolding execs_def
proof (intro conjI allI impI)
  have ok: "redirs_ok ((d, w) # rs)" if "redirs_ok rs" for rs using that w d by (auto simp: redirs_ok_def)
  show "clean (t @ redir_text (d, w))"
    using clean_append [OF text_clean(1) [OF e] redirs_clean [OF ok, of "[]" "[]"]] by (simp add: redirs_text_def redirs_ok_def)
  fix b pre rs r f assume b: "b = pre @ (t @ redir_text (d, w)) @ redirs_text rs @ r" and rs: "redirs_ok rs"
    and r: "follow ''|)&;'' r" and f: "4 * (length b - length pre) + 2 \<le> f"
  have "b = pre @ t @ redirs_text ((d, w) # rs) @ r" using b by (simp add: redirs_text_def)
  from execsD [OF e this ok [OF rs] r f]
  show "parses b (parseexec f b) pre ((t @ redir_text (d, w)) @ redirs_text rs) (wraps (redir_tok d a w) rs)"
    by (simp add: redirs_text_def)
qed

text \<open>The printed text of a command is read back at its level, and in parentheses at every level.\<close>

definition read_back :: "bytes cmd \<Rightarrow> bool" where
  "read_back c \<longleftrightarrow> lines_as (unparse c) c \<and> (level c \<le> 2 \<longrightarrow> backs (unparse c) c)
     \<and> (level c \<le> 1 \<longrightarrow> pipes (unparse c) c) \<and> (level c = 0 \<longrightarrow> execs (unparse c) c)"

lemma read_backI:
  "execs (unparse c) c \<Longrightarrow> read_back c" "pipes (unparse c) c \<Longrightarrow> level c \<noteq> 0 \<Longrightarrow> read_back c"
  "backs (unparse c) c \<Longrightarrow> level c = 2 \<Longrightarrow> read_back c" "lines_as (unparse c) c \<Longrightarrow> level c = 3 \<Longrightarrow> read_back c"
  by (simp_all add: read_back_def execs_pipes pipes_backs backs_lines)

lemma read_back_paren:
  assumes "read_back c"
  shows "execs (paren 0 c (unparse c)) c" "pipes (paren 1 c (unparse c)) c" "backs (paren 2 c (unparse c)) c" "lines_as (unparse c) c"
proof -
  show l: "lines_as (unparse c) c" using assms by (simp add: read_back_def)
  note block = lines_block [OF l] execs_pipes [OF lines_block [OF l]] pipes_backs [OF execs_pipes [OF lines_block [OF l]]]
  show "execs (paren 0 c (unparse c)) c" "pipes (paren 1 c (unparse c)) c" "backs (paren 2 c (unparse c)) c"
    using assms block by (auto simp: read_back_def paren_def)
qed

lemma unparse_read: "printable c \<Longrightarrow> read_back c"
proof (induction c)
  case (EXEC ws)
  then show ?case using execs_EXEC [of ws] by (intro read_backI(1)) (simp add: words_text_def)
next
  case (REDIR c w md fd)
  let ?d = "if fd = 0 then of_char CHR ''<'' else of_char CHR ''>'' :: u8"
  have "read_back c" using REDIR by simp
  then have "execs (paren 0 c (unparse c) @ redir_text (?d, w)) (redir_tok ?d c w)"
    using REDIR.prems by (intro execs_REDIR read_back_paren) auto
  moreover have "redir_tok ?d c w = REDIR c w md fd" using REDIR.prems by (auto simp: redir_tok_def)
  ultimately show ?case by (intro read_backI(1)) simp
next
  case (PIPE l r)
  have "read_back l" "read_back r" using PIPE by simp_all
  then show ?case using pipes_Cons [OF read_back_paren(1) read_back_paren(2), of l r] by (intro read_backI(2)) simp_all
next
  case (LIST l r)
  have "read_back l" "read_back r" using LIST by simp_all
  then show ?case using lines_LIST [OF read_back_paren(3) read_back_paren(4), of l r] by (intro read_backI(4)) simp_all
next
  case (BACK c)
  have "read_back c" using BACK by simp
  then show ?case using backs_BACK [OF read_back_paren(3), of c] by (intro read_backI(3)) simp_all
qed

lemma unparse_no_nul: "printable c \<Longrightarrow> 0 \<notin> set (unparse c)"
  by (induction c) (auto simp: paren_def redir_text_def cbytes_def plain_word_def)

text \<open>
  C34: printing and parsing.  Every command that the syntax can express, nested
  in any way, is printed to a line that parsecmd() reads back as that
  command, with the words as the C strings that nulterminate() leaves in
  memory: the parser's precedences and associativity are those of the levels,
  and redirections and arguments keep their order.
\<close>

theorem parsecmd_unparse:
  assumes "printable a"
  shows "\<exists>c m. parsecmd (unparse a) 0 = Ok (c, m) (length (unparse a)) \<and> map_cmd (\<lambda>w. cstr_at m (fst w)) c = a"
proof -
  let ?b = "unparse a"
  have "lines_as ?b a" using unparse_read [OF assms] by (rule read_back_paren)
  then have "parses ?b (parseline (4 * length ?b + 4) ?b) [] ?b a" by (rule linesD [where r = "[]"]) (simp_all add: follow_def)
  then obtain c where c: "parseline (4 * length ?b + 4) ?b 0 = Ok c (length ?b)" "map_cmd (span_text ?b) c = a"
    by (auto simp: parses_def)
  have "advances ?b (words_ok ?b) 0 (parseline (4 * length ?b + 4) ?b 0)" by (rule parser_ends) auto
  then have "words_ok ?b c" using c(1) by simp
  then have "map_cmd (\<lambda>w. cstr_at (nulterminate c (?b @ [0])) (fst w)) c = map_cmd (span_text ?b) c"
    using cstr_nulterminate [OF unparse_no_nul [OF assms]] by (intro cmd.map_cong) auto
  moreover have "peek ?b [] (length ?b) = Ok False (length ?b)" using peek_text [of ?b ?b "[]"] by simp
  ultimately show ?thesis using c by (simp add: parsecmd_def kcode)
qed

text \<open>A list of a block in the background and a command with a redirection.\<close>

theorem parsecmd_unparse_witness:
  "\<exists>c m. parsecmd (cbytes ''(a ;b |c )&;d >f '') 0 = Ok (c, m) 17 \<and> map_cmd (\<lambda>w. cstr_at m (fst w)) c
     = LIST (BACK (LIST (EXEC [cbytes ''a'']) (PIPE (EXEC [cbytes ''b'']) (EXEC [cbytes ''c'']))))
         (REDIR (EXEC [cbytes ''d'']) (cbytes ''f'') 0x201 1)"
  (is "\<exists>c m. _ \<and> _ = ?a")
proof -
  have u: "unparse ?a = cbytes ''(a ;b |c )&;d >f ''" by (simp add: paren_def redir_text_def cbytes_def)
  have p: "printable ?a" by (simp add: plain_word_def is_word_def whitespace_def symbols_def cbytes_def)
  have n: "length (cbytes ''(a ;b |c )&;d >f '') = 17" by simp
  show ?thesis using parsecmd_unparse [OF p] unfolding u n .
qed

end
