(* ===== verification/Sh_Run.thy ===== *)
theory Sh_Run
  imports Sh
begin

text \<open>
  sh.c, running a command: the system calls that runcmd() makes to connect
  the programs of a command line, and the shell's main loop.
\<close>

section \<open>Descriptors\<close>

text \<open>
  What a descriptor can refer to: a file the shell was started with, a file
  opened by name and mode, or an end of the shell's \<open>n\<close>-th pipe.  The
  descriptor table of a process is a list of NOFILE = 16 entries, and the kernel
  hands out the lowest free one (sysfile.c, fdalloc()).
\<close>

datatype fobj = Inherited nat | Opened bytes int | PipeR nat | PipeW nat

type_synonym fds = "fobj option list"

definition lowest :: "fds \<Rightarrow> nat option" where
  "lowest fds = find (\<lambda>i. fds ! i = None) [0..<length fds]"

text \<open>The calls; the value is \<open>None\<close> for the result -1.\<close>

definition u_close :: "nat \<Rightarrow> fds \<Rightarrow> fds" where
  "u_close fd fds = fds[fd := None]"

definition u_put :: "fobj \<Rightarrow> fds \<Rightarrow> (nat \<times> fds) option" where
  "u_put x fds = (case lowest fds of None \<Rightarrow> None | Some i \<Rightarrow> Some (i, fds[i := Some x]))"

definition u_dup :: "nat \<Rightarrow> fds \<Rightarrow> fds" where
  "u_dup fd fds = (case fds ! fd of None \<Rightarrow> fds | Some x \<Rightarrow>
     (case u_put x fds of None \<Rightarrow> fds | Some (_, fds') \<Rightarrow> fds'))"

definition u_pipe :: "nat \<Rightarrow> fds \<Rightarrow> (nat \<times> nat \<times> fds) option" where
  "u_pipe n fds =
     (case u_put (PipeR n) fds of None \<Rightarrow> None | Some (p0, fds1) \<Rightarrow>
      (case u_put (PipeW n) fds1 of None \<Rightarrow> None | Some (p1, fds2) \<Rightarrow> Some (p0, p1, fds2)))"

section \<open>Running a command\<close>

text \<open>
  What a process of the shell does, in order: it forks a process that does the
  list of things given; it waits for a child with the descriptors it then has;
  it becomes a program with arguments and descriptors; it prints that exec or open
  failed, or a panic; it exits.  The descriptors have a type \<open>'d\<close>.  The
  environment says which files can be opened, which programs exec() can load, and
  whether the \<open>n\<close>-th fork succeeds; pipes and forks are numbered over the whole
  command.  (\<open>cmd == 0\<close> and an unknown type, for which the source has branches, are
  no values of the datatype.)
\<close>

datatype 'd act = Fork "'d act list" | Wait 'd | Exec "bytes list" 'd
  | Exec_failed bytes | Open_failed bytes | Sh_panic string | Exit

record env =
  open_ok :: "bytes \<Rightarrow> int \<Rightarrow> bool"
  exec_ok :: "bytes list \<Rightarrow> bool"
  fork_ok :: "nat \<Rightarrow> bool"

record counts =
  npipes :: nat
  nforks :: nat

type_synonym 'd run = "counts \<Rightarrow> 'd act list \<times> counts"

text \<open>One thing a process does, followed by the rest of its code.\<close>

definition act_then :: "'d act \<Rightarrow> 'd run \<Rightarrow> 'd run" where
  "act_then a rest g = (let (as, g') = rest g in (a # as, g'))"

text \<open>exit() at the end of runcmd(), and panic(), which prints and exits.\<close>

definition exits :: "'d run" where
  "exits g = ([Exit], g)"

definition sh_panic :: "string \<Rightarrow> 'd run" where
  "sh_panic msg = act_then (Sh_panic msg) exits"

text \<open>\<open>if(fork1() == 0) child;\<close> followed by the parent's code.\<close>

definition fork1_then :: "env \<Rightarrow> 'd run \<Rightarrow> 'd run \<Rightarrow> 'd run" where
  "fork1_then e child parent g =
     (let g1 = g\<lparr>nforks := nforks g + 1\<rparr> in
      if \<not> fork_ok e (nforks g) then sh_panic ''fork'' g1
      else let (as, g2) = child g1 in act_then (Fork as) parent g2)"

fun runcmd :: "env \<Rightarrow> bytes cmd \<Rightarrow> fds \<Rightarrow> fds run" where
  "runcmd e (EXEC argv) fds g =
     (if argv = [] then exits g
      else if exec_ok e argv then ([Exec argv fds], g)
      else act_then (Exec_failed (hd argv)) exits g)"
| "runcmd e (REDIR c file md fd) fds g =
     (let fds = u_close (nat fd) fds in
      if \<not> open_ok e file md then act_then (Open_failed file) exits g
      else case u_put (Opened file md) fds of
          None \<Rightarrow> act_then (Open_failed file) exits g
        | Some (_, fds) \<Rightarrow> runcmd e c fds g)"
| "runcmd e (LIST l r) fds g =
     fork1_then e (runcmd e l fds) (act_then (Wait fds) (runcmd e r fds)) g"
| "runcmd e (PIPE l r) fds g =
     (case u_pipe (npipes g) fds of
        None \<Rightarrow> sh_panic ''pipe'' g
      | Some (p0, p1, fds) \<Rightarrow>
          fork1_then e
            (runcmd e l (u_close p1 (u_close p0 (u_dup p1 (u_close 1 fds)))))
            (fork1_then e
               (runcmd e r (u_close p1 (u_close p0 (u_dup p0 (u_close 0 fds)))))
               (let fds = u_close p1 (u_close p0 fds) in
                act_then (Wait fds) (act_then (Wait fds) exits)))
            (g\<lparr>npipes := npipes g + 1\<rparr>))"
| "runcmd e (BACK c) fds g = fork1_then e (runcmd e c fds) exits g"

section \<open>The main loop\<close>

text \<open>
  ulib.c, gets(): bytes up to the end of the line or the buffer, and what is
  left of the input; \<open>n\<close> is the room that is left besides the NUL.
\<close>

fun gets :: "nat \<Rightarrow> bytes \<Rightarrow> bytes \<times> bytes" where
  "gets 0 inp = ([], inp)"
| "gets (Suc n) [] = ([], [])"
| "gets (Suc n) (c # inp) =
     (if c = 10 \<or> c = 13 then ([c], inp)
      else let (l, rest) = gets n inp in (c # l, rest))"

lemma gets_length: "length (snd (gets n inp)) \<le> length inp"
  by (induction n inp rule: gets.induct) (auto split: prod.split)

lemma gets_shorter: "gets (Suc n) (c # inp) = (l, rest) \<Longrightarrow> length rest \<le> length inp"
  using gets_length [of n inp] by (auto split: if_splits prod.splits)

lemma gets_line: "gets 99 (c # cs) = (l, rest) \<Longrightarrow> length rest < Suc (length cs)"
  using gets_shorter [of 98 c cs l rest] by simp

text \<open>
  main(): the lines are read into a buffer of 100 bytes until getcmd() sees
  the end of the input (or a NUL at the start of a line).  A line that
  begins with \<open>cd\<close> is done by the shell itself, without its last byte.
\<close>

datatype shact = Chdir bytes | Run bytes

definition line_action :: "bytes \<Rightarrow> shact" where
  "line_action l =
     (let s = takeWhile (\<lambda>c. c \<noteq> 0) l in
      if take 3 s = cbytes ''cd '' then Chdir (drop 3 (butlast s)) else Run s)"

function main_loop :: "bytes \<Rightarrow> shact list" where
  "main_loop inp =
     (case inp of [] \<Rightarrow> []
      | c # cs \<Rightarrow>
          (case gets 99 (c # cs) of (l, rest) \<Rightarrow>
           if c = 0 then [] else line_action l # main_loop rest))"
  by auto
termination by (relation "measure length") (auto dest: gets_line [OF sym])

declare main_loop.simps [simp del]

section \<open>Three streams\<close>

text \<open>
  What running a command means for the programs in it: each has a standard
  input, output and error stream.  A redirection replaces the input or the
  output, a pipe the output of its left and the input of its right side.
\<close>

type_synonym streams = "fobj \<times> fobj \<times> fobj"

fun stream_run :: "env \<Rightarrow> bytes cmd \<Rightarrow> streams \<Rightarrow> streams run" where
  "stream_run e (EXEC argv) io g =
     (if argv = [] then exits g
      else if exec_ok e argv then ([Exec argv io], g)
      else act_then (Exec_failed (hd argv)) exits g)"
| "stream_run e (REDIR c file md fd) (i, out, err) g =
     (if \<not> open_ok e file md then act_then (Open_failed file) exits g
      else stream_run e c (if fd = 0 then (Opened file md, out, err) else (i, Opened file md, err)) g)"
| "stream_run e (LIST l r) io g = fork1_then e (stream_run e l io) (act_then (Wait io) (stream_run e r io)) g"
| "stream_run e (PIPE l r) (i, out, err) g =
     fork1_then e (stream_run e l (i, PipeW (npipes g), err))
       (fork1_then e (stream_run e r (PipeR (npipes g), out, err))
          (act_then (Wait (i, out, err)) (act_then (Wait (i, out, err)) exits))) (g\<lparr>npipes := npipes g + 1\<rparr>)"
| "stream_run e (BACK c) io g = fork1_then e (stream_run e c io) exits g"

text \<open>The descriptor table that holds three streams and nothing else.\<close>

definition std_fds :: "streams \<Rightarrow> fds" where
  "std_fds io = [Some (fst io), Some (fst (snd io)), Some (snd (snd io))] @ replicate 13 None"

lemma std_fds_list: "std_fds (i, out, err) = [Some i, Some out, Some err, None, None, None, None, None, None, None, None, None, None, None, None, None]"
  by (simp add: std_fds_def numeral_eq_Suc)

lemma upt_16: "[0..<16] = [0, 1, 2, 3, 4, 5, 6, 7, 8, 9, 10, 11, 12, 13, 14, 15 :: nat]"
  by (simp add: upt_rec)

lemmas fd_calls = u_close_def u_put_def u_dup_def u_pipe_def lowest_def std_fds_list upt_16

text \<open>The calls on a table with three streams.\<close>

lemma redirect_in: "u_put x (u_close 0 (std_fds (i, out, err))) = Some (0, std_fds (x, out, err))"
  by (simp add: fd_calls)

lemma redirect_out: "u_put x (u_close 1 (std_fds (i, out, err))) = Some (1, std_fds (i, x, err))"
  by (simp add: fd_calls)

lemma make_pipe:
  obtains fds where "u_pipe n (std_fds (i, out, err)) = Some (3, 4, fds)"
    "u_close 4 (u_close 3 (u_dup 4 (u_close 1 fds))) = std_fds (i, PipeW n, err)"
    "u_close 4 (u_close 3 (u_dup 3 (u_close 0 fds))) = std_fds (PipeR n, out, err)"
    "u_close 4 (u_close 3 fds) = std_fds (i, out, err)"
  by (rule that [of "(std_fds (i, out, err))[3 := Some (PipeR n), 4 := Some (PipeW n)]"]) (simp_all add: fd_calls)

definition on_std :: "streams act list \<times> counts \<Rightarrow> fds act list \<times> counts" where
  "on_std r = (map (map_act std_fds) (fst r), snd r)"

lemma on_std_simps [simp]: "on_std (exits g) = exits g" "on_std (sh_panic msg g) = sh_panic msg g"
  "on_std ([Exec argv io], g) = ([Exec argv (std_fds io)], g)"
  "on_std (act_then (Exec_failed w) exits g) = act_then (Exec_failed w) exits g"
  "on_std (act_then (Open_failed w) exits g) = act_then (Open_failed w) exits g"
  by (simp_all add: on_std_def exits_def sh_panic_def act_then_def)

lemma on_std_wait:
  assumes "\<And>g. p' g = on_std (p g)"
  shows "act_then (Wait (std_fds io)) p' g = on_std (act_then (Wait io) p g)"
  using assms by (simp add: act_then_def on_std_def split: prod.split)

lemma on_std_fork:
  assumes "\<And>g. c' g = on_std (c g)" "\<And>g. p' g = on_std (p g)"
  shows "fork1_then e c' p' g = on_std (fork1_then e c p g)"
proof (cases "fork_ok e (nforks g)")
  case True
  then show ?thesis using assms by (simp add: fork1_then_def act_then_def on_std_def Let_def split: prod.split)
qed (simp add: fork1_then_def Let_def)

text \<open>Redirections of standard input and output, as the parser makes them.\<close>

primrec std_redirs :: "'a cmd \<Rightarrow> bool" where
  "std_redirs (EXEC ws) \<longleftrightarrow> True"
| "std_redirs (REDIR c w md fd) \<longleftrightarrow> std_redirs c \<and> (fd = 0 \<or> fd = 1)"
| "std_redirs (PIPE l r) \<longleftrightarrow> std_redirs l \<and> std_redirs r"
| "std_redirs (LIST l r) \<longleftrightarrow> std_redirs l \<and> std_redirs r"
| "std_redirs (BACK c) \<longleftrightarrow> std_redirs c"

lemma runcmd_streams:
  "std_redirs c \<Longrightarrow> runcmd e c (std_fds io) g = on_std (stream_run e c io g)"
proof (induction c arbitrary: io g)
  case (EXEC argv)
  then show ?case by simp
next
  case (REDIR c name md fd)
  obtain i out err where io: "io = (i, out, err)" by (cases io)
  show ?case
    using REDIR by (auto simp: io Let_def redirect_in redirect_out [unfolded One_nat_def])
next
  case (LIST l r)
  then show ?case unfolding runcmd.simps stream_run.simps by (intro on_std_fork on_std_wait) simp_all
next
  case (PIPE l r)
  obtain i out err where io: "io = (i, out, err)" by (cases io)
  obtain fds where p: "u_pipe (npipes g) (std_fds io) = Some (3, 4, fds)"
    "u_close 4 (u_close 3 (u_dup 4 (u_close 1 fds))) = std_fds (i, PipeW (npipes g), err)"
    "u_close 4 (u_close 3 (u_dup 3 (u_close 0 fds))) = std_fds (PipeR (npipes g), out, err)"
    "u_close 4 (u_close 3 fds) = std_fds io"
    unfolding io by (rule make_pipe)
  show ?case using PIPE p by (auto simp: io Let_def intro!: on_std_fork on_std_wait)
next
  case (BACK c)
  then show ?case unfolding runcmd.simps stream_run.simps by (intro on_std_fork) simp_all
qed

section \<open>Who holds the ends of a pipe\<close>

text \<open>The descriptors of the processes of a tree while they run a program or wait.\<close>

fun tables :: "'d act list \<Rightarrow> 'd list" where
  "tables [] = []"
| "tables (Fork as # bs) = tables as @ tables bs"
| "tables (Wait d # bs) = d # tables bs"
| "tables (Exec argv d # bs) = d # tables bs"
| "tables (_ # bs) = tables bs"

lemma tables_map: "tables (map (map_act f) as) = map f (tables as)"
  by (induction as rule: tables.induct) simp_all

definition in_streams :: "fobj \<Rightarrow> streams \<Rightarrow> bool" where
  "in_streams x io \<longleftrightarrow> x = fst io \<or> x = fst (snd io) \<or> x = snd (snd io)"

lemma set_std_fds: "Some x \<in> set (std_fds io) \<longleftrightarrow> in_streams x io"
  by (auto simp: std_fds_def in_streams_def)

text \<open>The ends of the pipe number \<open>n\<close>.\<close>

definition pipe_end :: "nat \<Rightarrow> fobj \<Rightarrow> bool" where
  "pipe_end n x \<longleftrightarrow> x = PipeR n \<or> x = PipeW n"

text \<open>A process holds an end of a pipe made before the command ran only as one of the streams it was given.\<close>

definition keeps_out :: "nat \<Rightarrow> fobj \<Rightarrow> streams run \<Rightarrow> bool" where
  "keeps_out n x r \<longleftrightarrow> (\<forall>g. n < npipes g \<longrightarrow> n < npipes (snd (r g)) \<and> (\<forall>d \<in> set (tables (fst (r g))). \<not> in_streams x d))"

lemma keeps_out_basic: "keeps_out n x exits" "keeps_out n x (sh_panic msg)" "keeps_out n x (act_then (Exec_failed w) exits)"
  "keeps_out n x (act_then (Open_failed w) exits)"
  by (simp_all add: keeps_out_def exits_def sh_panic_def act_then_def)

lemma keeps_out_wait: "keeps_out n x r \<Longrightarrow> \<not> in_streams x io \<Longrightarrow> keeps_out n x (act_then (Wait io) r)"
  by (auto simp: keeps_out_def act_then_def split: prod.splits)

lemma keeps_out_fork: "keeps_out n x c \<Longrightarrow> keeps_out n x p \<Longrightarrow> keeps_out n x (fork1_then e c p)"
proof -
  assume c: "keeps_out n x c" and p: "keeps_out n x p"
  show ?thesis unfolding keeps_out_def
  proof (intro allI impI)
    fix g :: counts assume g: "n < npipes g"
    let ?g = "g\<lparr>nforks := nforks g + 1\<rparr>"
    obtain as g1 where cg: "c ?g = (as, g1)" by (cases "c ?g")
    obtain bs g2 where pg: "p g1 = (bs, g2)" by (cases "p g1")
    have "n < npipes g1 \<and> (\<forall>d \<in> set (tables as). \<not> in_streams x d)" using c g cg unfolding keeps_out_def by (metis counts.select_convs(1) counts.surjective counts.update_convs(2) fst_conv snd_conv)
    moreover from this have "n < npipes g2 \<and> (\<forall>d \<in> set (tables bs). \<not> in_streams x d)" using p pg unfolding keeps_out_def by (metis fst_conv snd_conv)
    moreover have "n < npipes (snd (sh_panic ''fork'' ?g)) \<and> (\<forall>d \<in> set (tables (fst (sh_panic ''fork'' ?g))). \<not> in_streams x d)"
      using g by (simp add: sh_panic_def act_then_def exits_def)
    ultimately show "n < npipes (snd (fork1_then e c p g)) \<and> (\<forall>d \<in> set (tables (fst (fork1_then e c p g))). \<not> in_streams x d)"
      using cg pg by (auto simp: fork1_then_def act_then_def Let_def)
  qed
qed

lemma stream_run_keeps_out: "pipe_end n x \<Longrightarrow> \<not> in_streams x io \<Longrightarrow> keeps_out n x (stream_run e c io)"
proof (induction c arbitrary: io)
  case (EXEC argv)
  then show ?case by (simp add: keeps_out_def exits_def act_then_def)
next
  case (REDIR c name md fd)
  obtain i out err where io: "io = (i, out, err)" by (cases io)
  have "keeps_out n x (stream_run e c (if fd = 0 then (Opened name md, out, err) else (i, Opened name md, err)))"
    by (rule REDIR.IH) (use REDIR.prems in \<open>auto simp: io in_streams_def pipe_end_def\<close>)
  then show ?case using keeps_out_basic(4) [of n x name] by (cases "open_ok e name md"; cases "fd = 0") (simp_all add: keeps_out_def io)
next
  case (LIST l r)
  have "keeps_out n x (fork1_then e (stream_run e l io) (act_then (Wait io) (stream_run e r io)))"
    using LIST by (intro keeps_out_fork keeps_out_wait) auto
  then show ?case by (simp add: keeps_out_def)
next
  case (PIPE l r)
  obtain i out err where io: "io = (i, out, err)" by (cases io)
  have k: "keeps_out n x (fork1_then e (stream_run e l (i, PipeW k, err)) (fork1_then e (stream_run e r (PipeR k, out, err))
     (act_then (Wait io) (act_then (Wait io) exits))))" if "n < k" for k
    by (intro keeps_out_fork keeps_out_wait keeps_out_basic PIPE.IH) (use PIPE.prems that in \<open>auto simp: io in_streams_def pipe_end_def\<close>)
  show ?case unfolding keeps_out_def
  proof (intro allI impI)
    fix g :: counts assume "n < npipes g"
    then show "n < npipes (snd (stream_run e (PIPE l r) io g)) \<and> (\<forall>d \<in> set (tables (fst (stream_run e (PIPE l r) io g))). \<not> in_streams x d)"
      using k [of "npipes g", unfolded keeps_out_def, rule_format, of "g\<lparr>npipes := npipes g + 1\<rparr>"] by (simp add: io)
  qed
next
  case (BACK c)
  have "keeps_out n x (fork1_then e (stream_run e c io) exits)" using BACK by (intro keeps_out_fork keeps_out_basic) auto
  then show ?case by (simp add: keeps_out_def)
qed

text \<open>\<open>sides\<close>: in a pipeline that got both its processes, only the left one and those it forks hold the write end, only the right ones the read end.\<close>

definition sides :: "nat \<Rightarrow> fds act list \<Rightarrow> bool" where
  "sides n as \<longleftrightarrow> (\<forall>L R rest. as = Fork L # Fork R # rest \<longrightarrow>
     (\<forall>d \<in> set (tables R @ tables rest). Some (PipeW n) \<notin> set d) \<and> (\<forall>d \<in> set (tables L @ tables rest). Some (PipeR n) \<notin> set d))"

lemma pipe_sides:
  assumes c: "std_redirs (PIPE l r)" and new: "\<And>x. pipe_end (npipes g) x \<Longrightarrow> \<not> in_streams x io"
  shows "sides (npipes g) (fst (runcmd e (PIPE l r) (std_fds io) g))"
proof -
  obtain i out err where io: "io = (i, out, err)" by (cases io)
  let ?n = "npipes g"
  let ?L = "stream_run e l (i, PipeW ?n, err)" and ?R = "stream_run e r (PipeR ?n, out, err)"
  let ?W = "act_then (Wait io) (act_then (Wait io) exits) :: streams run"
  have nio: "\<not> in_streams (PipeW ?n) io" "\<not> in_streams (PipeR ?n) io" using new by (simp_all add: pipe_end_def)
  have kR: "keeps_out ?n (PipeW ?n) ?R" "keeps_out ?n (PipeW ?n) ?W" "keeps_out ?n (PipeR ?n) ?L" "keeps_out ?n (PipeR ?n) ?W"
    using nio by (intro stream_run_keeps_out keeps_out_wait keeps_out_basic; auto simp: pipe_end_def io in_streams_def)+
  define g1 where "g1 = g\<lparr>npipes := ?n + 1, nforks := nforks g + 1\<rparr>"
  obtain ls g2 where ls: "?L g1 = (ls, g2)" by (cases "?L g1")
  define g3 where "g3 = g2\<lparr>nforks := nforks g2 + 1\<rparr>"
  obtain rs g4 where rs: "?R g3 = (rs, g4)" by (cases "?R g3")
  have L: "?n < npipes g2" "\<forall>d \<in> set (tables ls). \<not> in_streams (PipeR ?n) d"
    using kR(3) [unfolded keeps_out_def, rule_format, of g1] by (simp_all add: ls) (simp_all add: g1_def)
  have R: "\<forall>d \<in> set (tables rs). \<not> in_streams (PipeW ?n) d"
    using kR(1) [unfolded keeps_out_def, rule_format, of g3] L(1) by (simp add: rs) (simp add: g3_def)
  have run: "runcmd e (PIPE l r) (std_fds io) g = on_std (fork1_then e ?L (fork1_then e ?R ?W) (g\<lparr>npipes := ?n + 1\<rparr>))"
    using runcmd_streams [OF c] by (simp add: io)
  show ?thesis unfolding sides_def run
  proof (intro allI impI)
    fix L R rest assume f: "fst (on_std (fork1_then e ?L (fork1_then e ?R ?W) (g\<lparr>npipes := ?n + 1\<rparr>))) = Fork L # Fork R # rest"
    then have "L = map (map_act std_fds) ls" "R = map (map_act std_fds) rs" "rest = map (map_act std_fds) [Wait io, Wait io, Exit]"
      using ls rs by (auto simp: fork1_then_def act_then_def exits_def sh_panic_def on_std_def Let_def g1_def g3_def split: if_splits)
    then show "(\<forall>d \<in> set (tables R @ tables rest). Some (PipeW ?n) \<notin> set d) \<and> (\<forall>d \<in> set (tables L @ tables rest). Some (PipeR ?n) \<notin> set d)"
      using L(2) R nio by (auto simp: tables_map set_std_fds)
  qed
qed

text \<open>
  C35: runcmd() connects the programs of a command as the three streams of
  each program say, and waits for them.  Started with the descriptors 0, 1 and 2
  open, whatever files can be opened and programs loaded and whichever fork
  fails, its tree of processes is that of the stream semantics: the same
  programs, messages, waits and exits in the same order, and each process that
  runs a program or waits for a child has exactly its three streams open, as
  descriptors 0, 1 and 2.  In particular no end of a pipe is left open
  anywhere: besides the processes of its left side nobody holds the write end
  of a pipe, neither the right side nor the shell that waits for both, so that
  the readers see the end of the file when the writers are done; and nobody but
  the right side holds the read end.
\<close>

theorem runcmd_refines:
  assumes "std_redirs c"
  shows "runcmd e c (std_fds io) g = on_std (stream_run e c io g)
    \<and> (\<forall>l r. c = PIPE l r \<and> \<not> in_streams (PipeR (npipes g)) io \<and> \<not> in_streams (PipeW (npipes g)) io
         \<longrightarrow> sides (npipes g) (fst (runcmd e c (std_fds io) g)))"
  using runcmd_streams [OF assms] pipe_sides [of _ _ g io e] assms unfolding pipe_end_def by blast

theorem runcmd_refines_witness:
  "runcmd \<lparr>open_ok = (\<lambda>_ _. True), exec_ok = (\<lambda>argv. argv \<noteq> [[99]]), fork_ok = (\<lambda>_. True)\<rparr>
     (PIPE (LIST (EXEC [[97]]) (EXEC [[99]])) (REDIR (EXEC [[98]]) [100] 0x201 1))
     (std_fds (Inherited 0, Inherited 1, Inherited 2)) \<lparr>npipes = 0, nforks = 0\<rparr>
   = ([Fork [Fork [Exec [[97]] (std_fds (Inherited 0, PipeW 0, Inherited 2))], Wait (std_fds (Inherited 0, PipeW 0, Inherited 2)),
         Exec_failed [99], Exit],
       Fork [Exec [[98]] (std_fds (PipeR 0, Opened [100] 0x201, Inherited 2))],
       Wait (std_fds (Inherited 0, Inherited 1, Inherited 2)), Wait (std_fds (Inherited 0, Inherited 1, Inherited 2)), Exit],
      \<lparr>npipes = 1, nforks = 3\<rparr>)"
  by (subst runcmd_refines [THEN conjunct1])
    (auto simp: on_std_def fork1_then_def act_then_def exits_def pipe_end_def in_streams_def)

end
