(* ===== verification/Umalloc.thy ===== *)
theory Umalloc
  imports Kalloc
begin

text \<open>
  umalloc.c, the allocator of user programs: a circular list of free blocks,
  sorted by address, threaded through the blocks themselves.  Memory, the
  static variables and the size of the process are the state; sbrk() is the
  system call as the program sees it (sysproc.c, proc.c and allocuvm()).
\<close>

section \<open>The model\<close>

text \<open>
  \<open>base_addr\<close> is the address of the static variable base, \<open>brk\<close> the size of the
  process, and \<open>grants z\<close> says whether the kernel finds the pages to grow it to \<open>z\<close>.
\<close>

record ust =
  umem :: mem
  freep :: u32
  base_addr :: u32
  brk :: u32
  grants :: "u32 \<Rightarrow> bool"

text \<open>A Header: the pointer at its address, the size (in Headers of 8 bytes) behind it.\<close>

definition h_ptr :: "u32 \<Rightarrow> ('z ust_scheme, u32) kfun" where
  "h_ptr p = getM (\<lambda>s. load32 (umem s) p)"

definition h_size :: "u32 \<Rightarrow> ('z ust_scheme, u32) kfun" where
  "h_size p = getM (\<lambda>s. load32 (umem s) (p + 4))"

definition set_ptr :: "u32 \<Rightarrow> u32 \<Rightarrow> ('z ust_scheme, unit) kfun" where
  "set_ptr p v = modM (\<lambda>s. s\<lparr>umem := store32 (umem s) p v\<rparr>)"

definition set_size :: "u32 \<Rightarrow> u32 \<Rightarrow> ('z ust_scheme, unit) kfun" where
  "set_size p v = modM (\<lambda>s. s\<lparr>umem := store32 (umem s) (p + 4) v\<rparr>)"

text \<open>sbrk(): allocuvm() refuses sizes from KERNBASE on and does nothing for one that wrapped around.\<close>

definition sbrk :: "int \<Rightarrow> ('z ust_scheme, u32) kfun" where
  "sbrk n =
     bindM (getM brk) (\<lambda>addr.
     bindM (getM grants) (\<lambda>g.
     let newsz = addr + of_int n in
     if n > 0 then
       if newsz \<ge> KERNBASE then retM (-1)
       else if newsz < addr then retM addr
       else if g newsz then thenM (modM (\<lambda>s. s\<lparr>brk := newsz\<rparr>)) (retM addr)
       else retM (-1)
     else if n < 0 then
       if newsz \<ge> addr then retM addr
       else if newsz = 0 then retM (-1)
       else thenM (modM (\<lambda>s. s\<lparr>brk := newsz\<rparr>)) (retM addr)
     else retM addr))"

text \<open>free(): the search for the place of the block, and the joining of a block \<open>p\<close> with the block \<open>q\<close> that follows it.\<close>

fun free_find :: "nat \<Rightarrow> u32 \<Rightarrow> u32 \<Rightarrow> ('z ust_scheme, u32) kfun" where
  "free_find 0 bp p = spinM"
| "free_find (Suc fuel) bp p =
     bindM (h_ptr p) (\<lambda>q.
     if bp > p \<and> bp < q then retM p
     else if p \<ge> q \<and> (bp > p \<or> bp < q) then retM p
     else free_find fuel bp q)"

definition free_join :: "u32 \<Rightarrow> u32 \<Rightarrow> ('z ust_scheme, unit) kfun" where
  "free_join p q =
     bindM (h_size p) (\<lambda>n.
     if p + 8 * n = q then
       bindM (h_size q) (\<lambda>k.
       thenM (set_size p (n + k))
       (bindM (h_ptr q) (set_ptr p)))
     else set_ptr p q)"

definition free :: "u32 \<Rightarrow> ('z ust_scheme, unit) kfun" where
  "free ap =
     (let bp = ap - 8 in
     bindM (getM freep) (\<lambda>p0.
     bindM (free_find (2 ^ 32 + 1) bp p0) (\<lambda>p.
     bindM (h_ptr p) (\<lambda>q.
     thenM (free_join bp q)
     (thenM (free_join p bp)
     (modM (\<lambda>s. s\<lparr>freep := p\<rparr>)))))))"

definition morecore :: "u32 \<Rightarrow> ('z ust_scheme, u32) kfun" where
  "morecore nu0 =
     (let nu = (if nu0 < 4096 then 4096 else nu0) in
     bindM (sbrk (sint (nu * 8))) (\<lambda>p.
     if p = -1 then retM 0
     else
       thenM (set_size p nu)
       (thenM (free (p + 8))
       (getM freep))))"

fun malloc_loop :: "nat \<Rightarrow> u32 \<Rightarrow> u32 \<Rightarrow> u32 \<Rightarrow> ('z ust_scheme, u32) kfun" where
  "malloc_loop 0 nunits prevp p = spinM"
| "malloc_loop (Suc fuel) nunits prevp p =
     bindM (h_size p) (\<lambda>n.
     if n \<ge> nunits then
       bindM (if n = nunits then
                bindM (h_ptr p) (\<lambda>q. thenM (set_ptr prevp q) (retM p))
              else
                thenM (set_size p (n - nunits))
                (let p' = p + 8 * (n - nunits) in
                 thenM (set_size p' nunits) (retM p'))) (\<lambda>p.
       thenM (modM (\<lambda>s. s\<lparr>freep := prevp\<rparr>))
       (retM (p + 8)))
     else
       bindM (getM freep) (\<lambda>fp.
       if p = fp then
         bindM (morecore nunits) (\<lambda>p.
         if p = 0 then retM 0
         else bindM (h_ptr p) (malloc_loop fuel nunits p))
       else bindM (h_ptr p) (malloc_loop fuel nunits p)))"

definition malloc :: "u32 \<Rightarrow> ('z ust_scheme, u32) kfun" where
  "malloc nbytes =
     (let nunits = (nbytes + 8 - 1) div 8 + 1 in
     bindM (getM freep) (\<lambda>fp.
     bindM (if fp = 0 then
              bindM (getM base_addr) (\<lambda>b.
              thenM (set_ptr b b)
              (thenM (modM (\<lambda>s. s\<lparr>freep := b\<rparr>))
              (thenM (set_size b 0)
              (retM b))))
            else retM fp) (\<lambda>prevp.
     bindM (h_ptr prevp) (malloc_loop (2 ^ 33 + 4) nunits prevp))))"

section \<open>Headers in memory\<close>

lemmas ucode = kcode h_ptr_def h_size_def set_ptr_def set_size_def

lemma unat_diff_ge: "unat (z - a) < n \<Longrightarrow> unat a + n \<le> 2 ^ 32 \<Longrightarrow> unat a \<le> unat z \<and> unat z < unat a + n" for z a :: u32
  using unat_sub_if' [of z a] unsigned_less [of z] by (auto split: if_splits)

lemma in_range_nat: "unat a + n \<le> 2 ^ 32 \<Longrightarrow> in_range a n z \<longleftrightarrow> unat a \<le> unat z \<and> unat z < unat a + n"
  using unat_diff_ge [of z a n] by (auto simp: in_range_def unat_sub_if')

lemma in_range_size: "in_range (a + 4) 4 z \<Longrightarrow> in_range a 8 z"
proof -
  assume "in_range (a + 4) 4 z"
  then have "unat (z - a - 4) < 4" by (simp add: in_range_def diff_diff_eq)
  moreover have "unat (w + 4) < 8" if "unat w < 4" for w :: u32 using that by (simp add: unat_word_ariths)
  ultimately have "unat ((z - a - 4) + 4) < 8" by blast
  then show ?thesis by (simp add: in_range_def)
qed

lemma in_range_ptr: "in_range a 4 z \<Longrightarrow> in_range a 8 z" by (simp add: in_range_def)

lemma header_words: "in_range a 4 z \<Longrightarrow> \<not> in_range (a + 4) 4 z"
proof
  assume "in_range a 4 z" "in_range (a + 4) 4 z"
  then have "unat (z - a) < 4" "unat (z - a - 4) < 4" by (simp_all add: in_range_def diff_diff_eq)
  then show False by (simp add: unat_sub_if')
qed

lemma header_simps [simp]:
  "load32 (store32 m p v) (p + 4) = load32 m (p + 4)" "load32 (store32 m (p + 4) v) p = load32 m p"
  by (auto intro!: load32_cong store32_other dest: header_words)

text \<open>The two words of the header at \<open>p\<close> are all that changes.\<close>

definition hframe :: "u32 \<Rightarrow> mem \<Rightarrow> mem \<Rightarrow> bool" where
  "hframe p m m' \<longleftrightarrow> (\<forall>z. \<not> in_range p 8 z \<longrightarrow> m' z = m z)"

lemma hframe_store [simp]: "hframe p m (store32 m p v)" "hframe p m (store32 m (p + 4) v)"
  using in_range_size in_range_ptr by (auto simp: hframe_def intro!: store32_other)

lemma hframe_trans: "hframe p m m' \<Longrightarrow> hframe p m' m'' \<Longrightarrow> hframe p m m''"
  by (simp add: hframe_def)

lemma hframe_refl [simp]: "hframe p m m" by (simp add: hframe_def)

definition apart :: "u32 \<Rightarrow> u32 \<Rightarrow> bool" where
  "apart p q \<longleftrightarrow> (\<forall>z. in_range q 8 z \<longrightarrow> \<not> in_range p 8 z)"

lemma hframe_load:
  assumes "hframe p m m'" "apart p q"
  shows "load32 m' q = load32 m q" "load32 m' (q + 4) = load32 m (q + 4)"
  using assms in_range_size in_range_ptr by (auto simp: hframe_def apart_def intro!: load32_cong)

section \<open>Blocks\<close>

text \<open>A block is its address and its size in headers; \<open>span\<close> are the bytes of a block, of base only its header.\<close>

type_synonym block = "u32 \<times> u32"

definition span :: "block \<Rightarrow> nat set" where
  "span b = {unat (fst b)..<unat (fst b) + 8 * max 1 (unat (snd b))}"

definition fits :: "nat \<Rightarrow> block \<Rightarrow> bool" where
  "fits hi b \<longleftrightarrow> unat (fst b) + 8 * max 1 (unat (snd b)) \<le> hi"

lemma span_apart: "span b \<inter> span c = {} \<Longrightarrow> fits (2 ^ 32) b \<Longrightarrow> fits (2 ^ 32) c \<Longrightarrow> apart (fst b) (fst c)"
  unfolding apart_def
proof (intro allI impI notI)
  fix z assume d: "span b \<inter> span c = {}" and f: "fits (2 ^ 32) b" "fits (2 ^ 32) c" and r: "in_range (fst c) 8 z" "in_range (fst b) 8 z"
  have "unat z \<in> span d" if "fits (2 ^ 32) d" "in_range (fst d) 8 z" for d
  proof -
    have "8 \<le> 8 * max 1 (unat (snd d))" by simp
    then have h: "unat (fst d) + 8 \<le> 2 ^ 32" using that(1) unfolding fits_def by linarith
    show ?thesis using that(2) \<open>8 \<le> _\<close> unfolding in_range_nat [OF h] span_def by auto
  qed
  then have "unat z \<in> span b" "unat z \<in> span c" using r f by simp_all
  then show False using d by blast
qed

text \<open>Free block \<open>b\<close> lies before \<open>c\<close>, and not right before it: adjacent free blocks are joined.\<close>

definition before :: "block \<Rightarrow> block \<Rightarrow> bool" where
  "before b c \<longleftrightarrow> unat (fst b) + 8 * max 1 (unat (snd b)) \<le> unat (fst c) \<and> unat (fst b) + 8 * unat (snd b) \<noteq> unat (fst c)"

lemma before_span: "before b c \<Longrightarrow> span b \<inter> span c = {}" "before b c \<Longrightarrow> fst b < fst c"
  by (auto simp: before_def span_def word_less_nat_alt)

text \<open>The blocks \<open>bs\<close> are linked in memory in this order, the last one to \<open>q\<close>.\<close>

fun rep :: "mem \<Rightarrow> block list \<Rightarrow> u32 \<Rightarrow> bool" where
  "rep m [] q \<longleftrightarrow> True"
| "rep m (b # bs) q \<longleftrightarrow> load32 m (fst b) = hd (map fst bs @ [q]) \<and> load32 m (fst b + 4) = snd b \<and> rep m bs q"

lemma rep_append: "rep m (as @ bs) q \<longleftrightarrow> rep m as (hd (map fst bs @ [q])) \<and> rep m bs q"
  by (induction as) (auto simp: hd_append)

lemma rep_frame: "rep m bs q \<Longrightarrow> hframe p m m' \<Longrightarrow> \<forall>b \<in> set bs. apart p (fst b) \<Longrightarrow> rep m' bs q"
  by (induction bs) (auto simp: hframe_load)

text \<open>Putting a block in front of a list, joined with the first of the list if it touches it.\<close>

fun join :: "block \<Rightarrow> block list \<Rightarrow> block list" where
  "join b [] = [b]"
| "join b (c # cs) = (if fst b + 8 * snd b = fst c then (fst b, snd b + snd c) # cs else b # c # cs)"

lemma free_join_ok:
  assumes r: "rep (umem s) bs q" and n: "load32 (umem s) (x + 4) = n" and y: "y = hd (map fst bs @ [q])"
    and sep: "\<forall>b \<in> set bs. apart x (fst b)" and e: "bs = [] \<Longrightarrow> x + 8 * n \<noteq> q"
  shows "\<exists>m. free_join x y s = Ok () (s\<lparr>umem := m\<rparr>) \<and> rep m (join (x, n) bs) q \<and> hframe x (umem s) m"
proof (cases "bs \<noteq> [] \<and> x + 8 * n = y")
  case False
  let ?m = "store32 (umem s) x y"
  have "join (x, n) bs = (x, n) # bs" using False y by (cases bs) auto
  moreover have "rep ?m bs q" by (rule rep_frame [OF r hframe_store(1) sep])
  moreover have "free_join x y s = Ok () (s\<lparr>umem := ?m\<rparr>)" using False e y n by (auto simp: free_join_def ucode)
  ultimately show ?thesis using n y by (intro exI [of _ ?m]) simp
next
  case True
  then obtain c cs where bs: "bs = c # cs" by (cases bs) auto
  have c: "fst c = y" "load32 (umem s) y = hd (map fst cs @ [q])" "load32 (umem s) (y + 4) = snd c" "rep (umem s) cs q"
    using r bs y by auto
  let ?m1 = "store32 (umem s) (x + 4) (n + snd c)"
  let ?m = "store32 ?m1 x (hd (map fst cs @ [q]))"
  have sy: "apart x y" using sep bs c(1) by simp
  have hf: "hframe x (umem s) ?m" by (rule hframe_trans [of _ _ ?m1]) simp_all
  have "rep ?m cs q" by (rule rep_frame [OF c(4) hf]) (use sep bs in auto)
  moreover have "load32 ?m1 y = hd (map fst cs @ [q])" using hframe_load(1) [OF hframe_store(2) sy] c(2) by simp
  ultimately show ?thesis using True n c(3) hf bs c(1) by (intro exI [of _ ?m]) (auto simp: free_join_def ucode)
qed

section \<open>The invariant\<close>

text \<open>
  \<open>fs\<close> are the free blocks in the order of their addresses, \<open>L\<close> the blocks the
  program holds.  The ring in memory is base followed by \<open>fs\<close>.
\<close>

definition heap_ok :: "'z ust_scheme \<Rightarrow> block list \<Rightarrow> block set \<Rightarrow> bool" where
  "heap_ok s fs L \<longleftrightarrow> (let g = (base_addr s, 0) # fs in
     rep (umem s) g (base_addr s) \<and> freep s \<in> fst ` set g \<and> sorted_wrt before g
     \<and> (\<forall>b \<in> set fs \<union> L. 0 < snd b) \<and> (\<forall>b \<in> set g \<union> L. fits (unat (brk s)) b)
     \<and> brk s \<le> KERNBASE \<and> base_addr s \<noteq> 0
     \<and> (\<forall>b \<in> L. load32 (umem s) (fst b + 4) = snd b \<and> base_addr s < fst b \<and> (\<forall>c \<in> set g. span b \<inter> span c = {}))
     \<and> (\<forall>b \<in> L. \<forall>c \<in> L. b \<noteq> c \<longrightarrow> span b \<inter> span c = {}))"

lemma heap_okD:
  assumes "heap_ok s fs L"
  shows "rep (umem s) ((base_addr s, 0) # fs) (base_addr s)" "freep s \<in> fst ` set ((base_addr s, 0) # fs)"
    "sorted_wrt before ((base_addr s, 0) # fs)" "\<forall>b \<in> set fs \<union> L. 0 < snd b"
    "\<forall>b \<in> set ((base_addr s, 0) # fs) \<union> L. fits (unat (brk s)) b" "brk s \<le> KERNBASE" "base_addr s \<noteq> 0"
    "b \<in> L \<Longrightarrow> load32 (umem s) (fst b + 4) = snd b" "b \<in> L \<Longrightarrow> base_addr s < fst b"
    "b \<in> L \<Longrightarrow> c \<in> set ((base_addr s, 0) # fs) \<Longrightarrow> span b \<inter> span c = {}"
    "b \<in> L \<Longrightarrow> c \<in> L \<Longrightarrow> b \<noteq> c \<Longrightarrow> span b \<inter> span c = {}"
  using assms unfolding heap_ok_def Let_def by blast+

lemma fits_mono: "fits lo b \<Longrightarrow> lo \<le> hi \<Longrightarrow> fits hi b" by (simp add: fits_def)

lemma span_ne: "fst b = fst c \<Longrightarrow> span b \<inter> span c \<noteq> {}"
  by (auto simp: span_def disjoint_iff)

section \<open>free()\<close>

text \<open>The test of the loop in free().\<close>

definition stops :: "mem \<Rightarrow> u32 \<Rightarrow> u32 \<Rightarrow> bool" where
  "stops m bp p \<longleftrightarrow> bp > p \<and> bp < load32 m p \<or> p \<ge> load32 m p \<and> (bp > p \<or> bp < load32 m p)"

lemma free_find_walk:
  "rep (umem s) bs t \<Longrightarrow> \<forall>b \<in> set bs. \<not> stops (umem s) bp (fst b) \<Longrightarrow> stops (umem s) bp t \<Longrightarrow> length bs < f
   \<Longrightarrow> free_find f bp (hd (map fst bs @ [t])) s = Ok t s"
proof (induction bs arbitrary: f)
  case Nil
  then show ?case by (cases f) (auto simp: ucode stops_def)
next
  case (Cons b bs)
  obtain k where k: "f = Suc k" "length bs < k" using Cons.prems(4) by (cases f) auto
  have "\<not> stops (umem s) bp (fst b)" "load32 (umem s) (fst b) = hd (map fst bs @ [t])" using Cons.prems by auto
  then have "free_find f bp (fst b) s = free_find k bp (hd (map fst bs @ [t])) s"
    by (auto simp: k ucode stops_def)
  then show ?case using Cons.IH [of k] Cons.prems k by simp
qed

lemma place_of:
  assumes "sorted_wrt before g" "g \<noteq> []" "fst (hd g) < bp" "\<forall>b \<in> set g. fst b \<noteq> bp"
  obtains as c zs where "g = as @ c # zs" "\<forall>b \<in> set (as @ [c]). fst b < bp" "\<forall>b \<in> set zs. bp < fst b"
proof -
  let ?P = "\<lambda>b. fst b < bp"
  have ne: "takeWhile ?P g \<noteq> []" using assms(2,3) by (cases g) auto
  have "g = butlast (takeWhile ?P g) @ last (takeWhile ?P g) # dropWhile ?P g"
    using append_butlast_last_id [OF ne] takeWhile_dropWhile_id [of ?P g] by (metis append.assoc append_Cons append_Nil)
  moreover have "\<forall>b \<in> set (butlast (takeWhile ?P g) @ [last (takeWhile ?P g)]). fst b < bp"
    using append_butlast_last_id [OF ne] by (metis set_takeWhileD)
  moreover have "bp < fst b" if "b \<in> set (dropWhile ?P g)" for b
  proof (cases "dropWhile ?P g")
    case (Cons c zs)
    have h: "\<not> fst c < bp" using hd_dropWhile [of ?P g] Cons by simp
    have "sorted_wrt before (dropWhile ?P g)" using assms(1) by (metis sorted_wrt_append takeWhile_dropWhile_id)
    then have "fst c \<le> fst b" using that Cons by (auto intro: less_imp_le dest: before_span(2))
    moreover have "fst b \<noteq> bp" using that assms(4) by (metis UnCI set_append takeWhile_dropWhile_id)
    ultimately show ?thesis using h by simp
  next
    case Nil
    then show ?thesis using that by (metis empty_iff empty_set)
  qed
  ultimately show ?thesis using that by blast
qed

lemma free_find_ok:
  assumes r: "rep (umem s) g q" and g: "g = as @ c # zs" "fst (hd g) = q" "sorted_wrt before g" "q < bp"
    and lo: "\<forall>b \<in> set (as @ [c]). fst b < bp" and hi: "\<forall>b \<in> set zs. bp < fst b" and p: "p \<in> fst ` set g" and f: "length g \<le> f"
  shows "free_find f bp p s = Ok (fst c) s"
proof -
  have rs: "rep (umem s) as (fst c)" "load32 (umem s) (fst c) = hd (map fst zs @ [q])" "rep (umem s) zs q"
    using r by (simp_all add: g(1) rep_append)
  have "q \<le> fst c" using g(1-3) by (cases as) (auto intro: less_imp_le dest: before_span(2))
  then have st: "stops (umem s) bp (fst c)"
    using lo hi g(4) rs(2) by (cases zs) (auto simp: stops_def)
  have as: "\<not> stops (umem s) bp (fst b)" if b: "b \<in> set as" for b
  proof -
    obtain us vs where s: "as = us @ b # vs" using split_list [OF b] by blast
    then have n: "load32 (umem s) (fst b) = fst (hd (vs @ [c]))" using rs(1) by (cases vs) (simp_all add: rep_append)
    moreover have "hd (vs @ [c]) \<in> set (as @ [c])" "before b (hd (vs @ [c]))" using g(1,3) s by (cases vs; simp add: sorted_wrt_append)+
    ultimately show ?thesis using lo before_span(2) [of b "hd (vs @ [c])"] by (auto simp: stops_def dest: leD)
  qed
  have zs: "\<not> stops (umem s) bp (fst b)" if b: "b \<in> set zs" for b
  proof -
    obtain us vs where s: "zs = us @ b # vs" using split_list [OF b] by blast
    then have n: "load32 (umem s) (fst b) = hd (map fst vs @ [q])" using rs(3) by (simp add: rep_append)
    have "fst b < fst (hd vs)" if "vs \<noteq> []" using g(1,3) s that by (cases vs) (auto simp: sorted_wrt_append dest: before_span(2))
    then show ?thesis using hi b n g(4) by (cases vs) (auto simp: stops_def dest: leD)
  qed
  obtain d where d: "d \<in> set g" "p = fst d" using p by blast
  consider "d = c" | "d \<in> set as" | "d \<in> set zs" using d(1) g(1) by auto
  then show ?thesis
  proof cases
    case 1
    then show ?thesis using free_find_walk [of s "[]" "fst c" bp f] st d(2) f g(1) by simp
  next
    case 2
    then obtain us vs where s: "as = us @ d # vs" using split_list by metis
    then show ?thesis using free_find_walk [of s "d # vs" "fst c" bp f] st as rs(1) d(2) f g(1) by (simp add: rep_append)
  next
    case 3
    then obtain us vs where s: "zs = us @ d # vs" using split_list by metis
    have "q = hd (map fst as @ [fst c])" using g(1,2) by (cases as) auto
    then have "rep (umem s) (d # vs @ as) (fst c)" using rs s by (simp add: rep_append hd_append)
    moreover have "\<forall>b \<in> set (d # vs @ as). \<not> stops (umem s) bp (fst b)" using as zs s by auto
    ultimately show ?thesis using free_find_walk [of s "d # vs @ as" "fst c" bp f] st s d(2) f g(1) by simp
  qed
qed

text \<open>Joining as an operation on blocks.\<close>

lemma unat_end: "fits hi b \<Longrightarrow> hi \<le> 2 ^ 31 \<Longrightarrow> unat (fst b + 8 * snd b) = unat (fst b) + 8 * unat (snd b)"
  by (simp add: fits_def unat_word_ariths)

lemma join_props:
  assumes lo: "\<forall>c \<in> set cs. unat (fst b) + 8 * max 1 (unat (snd b)) \<le> unat (fst c)" and st: "sorted_wrt before cs"
    and fb: "fits hi b" and fc: "\<forall>c \<in> set cs. fits hi c" and hi: "hi \<le> 2 ^ 31" and pos: "\<forall>c \<in> set cs. 0 < snd c"
  shows "sorted_wrt before (join b cs)" "\<forall>d \<in> set (join b cs). fits hi d"
    "\<Union> (span ` set (join b cs)) = span b \<union> \<Union> (span ` set cs)" "fst ` set (join b cs) \<subseteq> insert (fst b) (fst ` set cs)"
    "fst (hd (join b cs)) = fst b" "snd b \<le> snd (hd (join b cs))" "0 < snd b \<Longrightarrow> \<forall>d \<in> set (join b cs). 0 < snd d"
    "snd b = 0 \<Longrightarrow> join b cs = b # cs"
proof -
  have e: "unat (fst b + 8 * snd b) = unat (fst b) + 8 * unat (snd b)" by (rule unat_end [OF fb hi])
  show z: "snd b = 0 \<Longrightarrow> join b cs = b # cs" using lo by (cases cs) auto
  have "sorted_wrt before (join b cs) \<and> (\<forall>d \<in> set (join b cs). fits hi d) \<and> \<Union> (span ` set (join b cs)) = span b \<union> \<Union> (span ` set cs)
    \<and> snd b \<le> snd (hd (join b cs)) \<and> (0 < snd b \<longrightarrow> (\<forall>d \<in> set (join b cs). 0 < snd d))"
  proof (cases "cs \<noteq> [] \<and> fst b + 8 * snd b = fst (hd cs)")
    case False
    then have j: "join b cs = b # cs" by (cases cs) auto
    have "before b c" if "c \<in> set cs" for c
    proof -
      have "unat (fst b) + 8 * unat (snd b) < unat (fst (hd cs))"
        using False lo e that by (cases cs) (auto simp: max_def word_unat_eq_iff split: if_splits)
      moreover have "unat (fst (hd cs)) \<le> unat (fst c)"
        using st that by (cases cs) (auto dest!: before_span(2) simp: word_less_nat_alt)
      ultimately show ?thesis using lo that by (auto simp: before_def)
    qed
    then show ?thesis using j st fb fc pos by auto
  next
    case True
    then obtain c ds where cs: "cs = c # ds" by (cases cs) auto
    have t: "unat (fst b) + 8 * unat (snd b) = unat (fst c)" using True e cs by simp
    then have nb: "snd b \<noteq> 0" using lo cs by (auto simp: max_def)
    have nb': "0 < unat (snd b)" "0 < unat (snd c)" using nb pos cs by (auto simp: unat_gt_0)
    have "unat (snd b) + unat (snd c) < 2 ^ 32" using t fc hi cs nb' by (auto simp: fits_def max_def split: if_splits)
    then have u: "unat (snd b + snd c) = unat (snd b) + unat (snd c)" by (simp add: unat_word_ariths)
    have j: "join b cs = (fst b, snd b + snd c) # ds" using True cs by simp
    have sp: "span (fst b, snd b + snd c) = span b \<union> span c" using t u nb' by (auto simp: span_def max_def)
    have "\<forall>d \<in> set ds. before c d" using st cs by simp
    then have "\<forall>d \<in> set ds. before (fst b, snd b + snd c) d" using t u nb' by (auto simp: before_def max_def split: if_splits)
    moreover have "fits hi (fst b, snd b + snd c)" using fc cs t u nb' by (auto simp: fits_def max_def split: if_splits)
    moreover have "snd b \<le> snd b + snd c" "0 < snd b + snd c" using u nb' by (simp_all add: word_le_nat_alt word_less_nat_alt)
    ultimately show ?thesis using j st fc pos cs sp by auto
  qed
  then show "sorted_wrt before (join b cs)" "\<forall>d \<in> set (join b cs). fits hi d" "\<Union> (span ` set (join b cs)) = span b \<union> \<Union> (span ` set cs)"
    "snd b \<le> snd (hd (join b cs))" "0 < snd b \<Longrightarrow> \<forall>d \<in> set (join b cs). 0 < snd d" by simp_all
  show "fst ` set (join b cs) \<subseteq> insert (fst b) (fst ` set cs)" "fst (hd (join b cs)) = fst b" by (cases cs; auto)+
qed

text \<open>free() inserts the block between its neighbours and joins it with the ones it touches.\<close>

lemma free_links:
  fixes s :: "'z ust_scheme"
  assumes r: "rep (umem s) g q" and g: "g = as @ c # zs" "fst (hd g) = q" "sorted_wrt before g" "q < a"
    and lo: "\<forall>b \<in> set (as @ [c]). fst b < a" and hi: "\<forall>b \<in> set zs. a < fst b" and p: "freep s \<in> fst ` set g" and l: "length g \<le> 2 ^ 32 + 1"
    and sep: "\<forall>b \<in> set g. apart a (fst b) \<and> apart (fst b) a" "\<forall>b \<in> set as \<union> set zs. apart (fst c) (fst b)"
    and n: "load32 (umem s) (a + 4) = n" "a + 8 * n \<noteq> q"
  shows "\<exists>m1 m. free (a + 8) s = Ok () (s\<lparr>umem := m, freep := fst c\<rparr>) \<and> rep m (as @ join c (join (a, n) zs)) q
    \<and> hframe a (umem s) m1 \<and> hframe (fst c) m1 m"
proof -
  have ff: "free_find (2 ^ 32 + 1) a (freep s) s = Ok (fst c) s"
    using r g lo hi p l by (rule free_find_ok)
  have rs: "rep (umem s) as (fst c)" "load32 (umem s) (fst c) = hd (map fst zs @ [q])" "load32 (umem s) (fst c + 4) = snd c" "rep (umem s) zs q"
    using r by (simp_all add: g(1) rep_append)
  obtain m1 where m1: "free_join a (hd (map fst zs @ [q])) s = Ok () (s\<lparr>umem := m1\<rparr>)" "rep m1 (join (a, n) zs) q" "hframe a (umem s) m1"
    using free_join_ok [OF rs(4) n(1) refl] n(2) sep(1) g(1) by auto
  let ?s1 = "s\<lparr>umem := m1\<rparr>"
  have c1: "load32 m1 (fst c + 4) = snd c" using hframe_load(2) [OF m1(3)] sep(1) g(1) rs(3) by simp
  have jn: "join (a, n) zs \<noteq> []" and h: "hd (map fst (join (a, n) zs) @ [q]) = a" by (cases zs; simp)+
  have "\<forall>b \<in> set (join (a, n) zs). apart (fst c) (fst b)" using sep g(1) by (cases zs) auto
  then obtain m where m: "free_join (fst c) a ?s1 = Ok () (?s1\<lparr>umem := m\<rparr>)" "rep m (join c (join (a, n) zs)) q" "hframe (fst c) m1 m"
    using free_join_ok [of ?s1 "join (a, n) zs" q "fst c" "snd c" a] m1(2) c1 h jn by auto
  have "rep m as (fst c)"
    by (rule rep_frame [OF rep_frame [OF rs(1) m1(3)] m(3)]) (use sep g(1) in auto)
  moreover have "hd (map fst (join c (join (a, n) zs)) @ [q]) = fst c" by (cases "join (a, n) zs") auto
  ultimately have "rep m (as @ join c (join (a, n) zs)) q" using m(2) by (simp add: rep_append)
  moreover have "free (a + 8) s = Ok () (s\<lparr>umem := m, freep := fst c\<rparr>)"
    using ff m1(1) m(1) rs(2) by (simp add: free_def ucode del: free_find.simps)
  ultimately show ?thesis using m1(3) m(3) by blast
qed

lemma sorted_blocks:
  assumes "sorted_wrt before g"
  shows "distinct (map fst g)" "length g \<le> 2 ^ 32" "b \<in> set g \<Longrightarrow> c \<in> set g \<Longrightarrow> b \<noteq> c \<Longrightarrow> span b \<inter> span c = {}"
proof -
  show d: "distinct (map fst g)" using assms by (induction g) (auto dest!: before_span(2))
  have "length g = card (fst ` set g)" using distinct_card [OF d] by simp
  also have "\<dots> \<le> card (UNIV :: u32 set)" by (rule card_mono) simp_all
  finally show "length g \<le> 2 ^ 32" by (simp add: card_word)
  show "b \<in> set g \<Longrightarrow> c \<in> set g \<Longrightarrow> b \<noteq> c \<Longrightarrow> span b \<inter> span c = {}"
    using assms
  proof (induction g)
    case (Cons x g)
    then show ?case using before_span(1) [of x b] before_span(1) [of x c] by auto
  qed simp
qed

lemma disjoint_cancel: "A \<union> B = C \<union> (A \<union> D) \<Longrightarrow> A \<inter> B = {} \<Longrightarrow> A \<inter> D = {} \<Longrightarrow> A \<inter> C = {} \<Longrightarrow> B = C \<union> D"
  by blast

lemma sorted_hd_span: "sorted_wrt before (b # bs) \<Longrightarrow> span b \<inter> \<Union> (span ` set bs) = {}"
  using before_span(1) by (simp add: Int_UN_distrib)

text \<open>The insertion on the level of blocks.\<close>

lemma insert_props:
  assumes g: "sorted_wrt before (as @ c # zs)" and lo: "\<forall>b \<in> set (as @ [c]). fst b < fst x" and hi: "\<forall>b \<in> set zs. fst x < fst b"
    and dis: "\<forall>b \<in> set (as @ c # zs). span x \<inter> span b = {}" and ft: "\<forall>b \<in> insert x (set (as @ c # zs)). fits h b" "h \<le> 2 ^ 31"
    and pos: "0 < snd x" "\<forall>b \<in> set zs. 0 < snd b"
  defines "g' \<equiv> as @ join c (join x zs)"
  shows "sorted_wrt before g'" "\<forall>b \<in> set g'. fits h b" "\<Union> (span ` set g') = span x \<union> \<Union> (span ` set (as @ c # zs))"
    and "snd c = 0 \<Longrightarrow> g' = as @ c # join x zs" "\<exists>b \<in> set g'. snd x \<le> snd b" "\<forall>b \<in> set (join c (join x zs)). b = c \<or> 0 < snd b"
proof -
  have ord: "unat (fst b) + 8 * max 1 (unat (snd b)) \<le> unat (fst d)" if "fst b < fst d" "span b \<inter> span d = {}" for b d
    using that by (auto simp: span_def word_less_nat_alt disjoint_iff not_less)
  let ?j = "join x zs"
  have sz: "sorted_wrt before zs" using g by (simp add: sorted_wrt_append)
  have lx: "\<forall>d \<in> set zs. unat (fst x) + 8 * max 1 (unat (snd x)) \<le> unat (fst d)"
  proof
    fix d assume "d \<in> set zs"
    then show "unat (fst x) + 8 * max 1 (unat (snd x)) \<le> unat (fst d)" using hi dis by (intro ord) simp_all
  qed
  have fx: "fits h x" "\<forall>b \<in> set zs. fits h b" using ft(1) by simp_all
  note J = join_props(1-4) [OF lx sz fx ft(2) pos(2)] join_props(5,6) [OF lx sz fx ft(2) pos(2)] join_props(7) [OF lx sz fx ft(2) pos(2,1)]
  have jn: "?j \<noteq> []" by (cases zs) auto
  have "\<forall>d \<in> set ?j. fst d = fst x \<or> fst d \<in> fst ` set zs" using J(4) by blast
  moreover have "unat (fst c) + 8 * max 1 (unat (snd c)) \<le> unat (fst x)" using ord [of c x] lo dis by (simp add: Int_commute)
  moreover have "unat (fst c) + 8 * max 1 (unat (snd c)) \<le> unat (fst d)" if "d \<in> set zs" for d
    using g that by (auto simp: sorted_wrt_append before_def)
  ultimately have lc: "\<forall>d \<in> set ?j. unat (fst c) + 8 * max 1 (unat (snd c)) \<le> unat (fst d)" by auto
  have fc: "fits h c" using ft(1) by simp
  note C = join_props(1-4,8) [OF lc J(1) fc J(2) ft(2) J(7)]
  have "before b d" if "b \<in> set as" "d \<in> set (join c ?j)" for b d
  proof -
    have "before b c" using g that(1) by (simp add: sorted_wrt_append)
    moreover have "fst d = fst c \<or> unat (fst c) < unat (fst d)"
      using C(4) that(2) lc by fastforce
    ultimately show ?thesis by (auto simp: before_def)
  qed
  then show "sorted_wrt before g'" using g C(1) by (simp add: g'_def sorted_wrt_append)
  show "\<forall>b \<in> set g'. fits h b" using ft(1) C(2) by (auto simp: g'_def)
  show "\<Union> (span ` set g') = span x \<union> \<Union> (span ` set (as @ c # zs))" using C(3) J(3) by (auto simp: g'_def)
  show "snd c = 0 \<Longrightarrow> g' = as @ c # join x zs" using C(5) by (simp add: g'_def)
  obtain y ys where y: "?j = y # ys" using jn by (cases ?j) auto
  have big: "snd y \<le> snd c + snd y" if "fst c + 8 * snd c = fst y"
  proof -
    have e: "unat (fst c) + 8 * unat (snd c) = unat (fst y)" using that unat_end [of h c] ft by auto
    have "fits h y" using J(2) y by simp
    then have "unat (snd c) + unat (snd y) < 2 ^ 32" using e ft(2) by (auto simp: fits_def max_def split: if_splits)
    then show ?thesis by (simp add: word_le_nat_alt unat_word_ariths)
  qed
  have "snd x \<le> snd (hd ?j)" by (rule J(6))
  then have xy: "snd x \<le> snd y" by (simp add: y)
  show "\<exists>b \<in> set g'. snd x \<le> snd b" using xy big by (auto simp: g'_def y intro: order_trans)
  show "\<forall>b \<in> set (join c ?j). b = c \<or> 0 < snd b" using J(7) y big by (auto simp: word_less_nat_alt word_le_nat_alt)
qed

text \<open>\<open>same_ust s t\<close>: only memory and freep differ, and no byte outside the blocks of \<open>A\<close> does.\<close>

definition same_ust :: "block set \<Rightarrow> 'z ust_scheme \<Rightarrow> 'z ust_scheme \<Rightarrow> bool" where
  "same_ust A s t \<longleftrightarrow> t = s\<lparr>umem := umem t, freep := freep t\<rparr> \<and> (\<forall>z. unat z \<notin> \<Union> (span ` A) \<longrightarrow> umem t z = umem s z)"

lemma header_in_span: "fits (2 ^ 32) b \<Longrightarrow> in_range (fst b) 8 z \<Longrightarrow> unat z \<in> span b"
proof -
  assume f: "fits (2 ^ 32) b" and r: "in_range (fst b) 8 z"
  have "8 \<le> 8 * max 1 (unat (snd b))" by simp
  moreover from this have "unat (fst b) + 8 \<le> 2 ^ 32" using f unfolding fits_def by linarith
  ultimately show ?thesis using r by (auto simp: in_range_nat span_def)
qed

lemma free_ok:
  fixes s :: "'z ust_scheme"
  assumes ok: "heap_ok s fs L" and x: "x \<in> L"
  shows "\<exists>t fs'. free (fst x + 8) s = Ok () t \<and> heap_ok t fs' (L - {x}) \<and> same_ust (insert x (set ((base_addr s, 0) # fs))) s t
    \<and> \<Union> (span ` set fs') = span x \<union> \<Union> (span ` set fs) \<and> (\<exists>b \<in> set fs'. snd x \<le> snd b)"
proof -
  let ?q = "base_addr s" and ?g = "(base_addr s, 0) # fs"
  note D = heap_okD [OF ok]
  have h31: "unat (brk s) \<le> 2 ^ 31" using D(6) by (simp add: word_le_nat_alt)
  have ft: "\<forall>b \<in> insert x (set ?g). fits (unat (brk s)) b" using D(5) x by auto
  have h32: "unat (brk s) \<le> 2 ^ 32" using h31 by simp
  then have f32: "\<forall>b \<in> set ?g \<union> L. fits (2 ^ 32) b" using D(5) fits_mono by blast
  have dis: "\<forall>b \<in> set ?g. span x \<inter> span b = {}" using D(10) [OF x] by blast
  have ne: "\<forall>b \<in> set ?g. fst b \<noteq> fst x" using dis span_ne [of x] by metis
  obtain as c zs where g: "?g = as @ c # zs" and lo: "\<forall>b \<in> set (as @ [c]). fst b < fst x" and hi: "\<forall>b \<in> set zs. fst x < fst b"
    by (rule place_of [OF D(3) _ _ ne]) (use D(9) [OF x] in auto)
  have sub: "set zs \<subseteq> set fs" using g by (cases as) auto
  have pos: "0 < snd x" "\<forall>b \<in> set zs. 0 < snd b" using D(4) x sub by auto
  note P = insert_props [OF D(3) [unfolded g] lo hi dis [unfolded g] ft [unfolded g] h31 pos]
  let ?g' = "as @ join c (join x zs)"
  have cg: "c \<in> set ?g" "\<forall>b \<in> set as \<union> set zs. b \<in> set ?g \<and> b \<noteq> c"
    unfolding g using sorted_blocks(1) [OF D(3) [unfolded g]] by auto
  have ap: "apart (fst b) (fst d)" if "b \<in> set ?g \<union> L" "d \<in> set ?g \<union> L" "b \<noteq> d" for b d
  proof (rule span_apart)
    show "span b \<inter> span d = {}" using that sorted_blocks(3) [OF D(3), of b d] D(10) [of b d] D(10) [of d b] D(11) [of b d] by (auto simp del: list.set)
  qed (use that f32 in blast)+
  have n: "load32 (umem s) (fst x + 4) = snd x" by (rule D(8) [OF x])
  have xg: "x \<notin> set ?g" using ne by blast
  have "unat (fst x + 8 * snd x) = unat (fst x) + 8 * unat (snd x)" using unat_end [OF _ h31] ft by blast
  then have nq: "fst x + 8 * snd x \<noteq> ?q" using D(9) [OF x] by (auto simp: word_less_nat_alt)
  have sep: "\<forall>b \<in> set ?g. apart (fst x) (fst b) \<and> apart (fst b) (fst x)" using ap x xg by blast
  have sepc: "\<forall>b \<in> set as \<union> set zs. apart (fst c) (fst b)" using ap cg by blast
  have l: "length ?g \<le> 2 ^ 32 + 1" using sorted_blocks(2) [OF D(3)] by linarith
  have hq: "fst (hd ?g) = ?q" by simp
  obtain m1 m where m: "free (fst x + 8) s = Ok () (s\<lparr>umem := m, freep := fst c\<rparr>)" "rep m ?g' ?q" "hframe (fst x) (umem s) m1" "hframe (fst c) m1 m"
    using free_links [OF D(1) g hq D(3) D(9) [OF x] lo hi D(2) l sep sepc n nq] by auto
  let ?t = "s\<lparr>umem := m, freep := fst c\<rparr>"
  obtain fs' where h: "?g' = (?q, 0) # fs'"
  proof (cases as)
    case Nil
    then have "c = (?q, 0)" using g by simp
    then show ?thesis using P(4) Nil that by simp
  next
    case (Cons b bs)
    then show ?thesis using g that by simp
  qed
  have "distinct ?g'" using sorted_blocks(1) [OF P(1)] unfolding distinct_map by blast
  then have dg: "(?q, 0) \<notin> set fs'" by (simp add: h)
  have pos': "0 < snd b" if "b \<in> set fs'" for b
  proof -
    have "b \<in> set ?g'" "b \<noteq> (?q, 0)" using that dg unfolding h by auto
    moreover from this(1) have "b \<in> set ?g \<or> 0 < snd b" using P(6) cg by auto
    ultimately show ?thesis using D(4) by auto
  qed
  have un: "\<Union> (span ` set ((?q, 0) # fs')) = span x \<union> \<Union> (span ` set ?g)" using P(3) unfolding h g by simp
  have live: "load32 m (fst b + 4) = snd b" "\<forall>d \<in> set ((?q, 0) # fs'). span b \<inter> span d = {}" if "b \<in> L - {x}" for b
  proof -
    have "apart (fst x) (fst b)" "apart (fst c) (fst b)" using that ap [of x b] ap [of c b] cg x D(10) [of b c] span_ne [of b c] by auto
    then show "load32 m (fst b + 4) = snd b" using hframe_load(2) [OF m(3)] hframe_load(2) [OF m(4)] D(8) [of b] that by auto
    have "span b \<inter> span x = {}" "span b \<inter> \<Union> (span ` set ?g) = {}" using that D(11) [of b x] D(10) [of b] x by auto
    then have "span b \<inter> \<Union> (span ` set ((?q, 0) # fs')) = {}" unfolding un by blast
    then show "\<forall>d \<in> set ((?q, 0) # fs'). span b \<inter> span d = {}" by blast
  qed
  have "fst c \<in> fst ` set ?g'" by (cases "join x zs") auto
  then have "heap_ok ?t fs' (L - {x})"
    unfolding heap_ok_def Let_def using m(2) P(1,2) pos' D(4-7) D(9) D(11) live unfolding h by (auto simp del: list.set)
  moreover have "same_ust (insert x (set ?g)) s ?t"
  proof -
    have "m z = umem s z" if z: "unat z \<notin> \<Union> (span ` insert x (set ?g))" for z
    proof -
      have "\<not> in_range (fst x) 8 z" "\<not> in_range (fst c) 8 z" using z header_in_span f32 x cg(1) by blast+
      then show ?thesis using m(3,4) by (simp add: hframe_def)
    qed
    then show ?thesis by (simp add: same_ust_def)
  qed
  moreover have "\<Union> (span ` set fs') = span x \<union> \<Union> (span ` set fs)"
  proof -
    have z: "span (?q, 0) \<inter> \<Union> (span ` set fs') = {}" "span (?q, 0) \<inter> \<Union> (span ` set fs) = {}" "span (?q, 0) \<inter> span x = {}"
      using sorted_hd_span [OF P(1) [unfolded h]] sorted_hd_span [OF D(3)] dis by auto
    show ?thesis by (rule disjoint_cancel [OF _ z]) (use un in simp)
  qed
  moreover have "\<exists>b \<in> set fs'. snd x \<le> snd b" using P(5) pos(1) unfolding h by (auto simp: not_le [symmetric])
  ultimately show ?thesis using m(1) by blast
qed

section \<open>malloc()\<close>

text \<open>The search passes the blocks that are too small.\<close>

lemma malloc_walk:
  "rep (umem s) (b # bs) t \<Longrightarrow> \<forall>x \<in> set bs. snd x < nu \<and> fst x \<noteq> freep s
   \<Longrightarrow> malloc_loop (length bs + f) nu (fst b) (hd (map fst bs @ [t])) s = malloc_loop f nu (fst (last (b # bs))) t s"
proof (induction bs arbitrary: b)
  case (Cons x bs)
  have "\<not> nu \<le> snd x" "snd x \<noteq> nu" "fst x \<noteq> freep s" "load32 (umem s) (fst x + 4) = snd x" "load32 (umem s) (fst x) = hd (map fst bs @ [t])"
    using Cons.prems by auto
  then have "malloc_loop (length (x # bs) + f) nu (fst b) (fst x) s = malloc_loop (length bs + f) nu (fst x) (hd (map fst bs @ [t])) s"
    by (simp add: ucode)
  then show ?case using Cons.IH [of x] Cons.prems by simp
qed simp

text \<open>One turn around the ring, from the block \<open>d\<close> that freep points to back to it.\<close>

lemma ring_turn:
  assumes "rep m g q" "fst (hd g) = q" "d \<in> set g" "distinct (map fst g)"
  obtains ks where "rep m (d # ks) (fst d)" "set (d # ks) = set g" "length g = Suc (length ks)" "fst d \<notin> fst ` set ks"
proof -
  obtain as zs where g: "g = as @ d # zs" using split_list [OF assms(3)] by blast
  have "q = hd (map fst as @ [fst d])" using assms(2) g by (cases as) auto
  then have "rep m (d # zs @ as) (fst d)" using assms(1) by (simp add: g rep_append hd_append)
  then show ?thesis using that [of "zs @ as"] assms(4) g by auto
qed

lemma last_link: "rep m (b # bs) t \<Longrightarrow> load32 m (fst (last (b # bs))) = t"
  by (induction bs arbitrary: b) (auto split: if_splits)

text \<open>The first block in that order that is large enough.\<close>

lemma first_fit:
  assumes r: "rep (umem s) (d # ks) (fst d)" and d: "freep s = fst d" "fst d \<notin> fst ` set ks" and e: "\<exists>b \<in> set (d # ks). nu \<le> snd b"
    and f: "Suc (length ks) \<le> f"
  obtains p b k where "malloc_loop f nu (fst d) (load32 (umem s) (fst d)) s = malloc_loop (Suc k) nu (fst p) (fst b) s"
    "p \<in> set (d # ks)" "b \<in> set (d # ks)" "load32 (umem s) (fst p) = fst b" "nu \<le> snd b"
proof -
  obtain xs b where x: "rep (umem s) (d # xs) (fst b)" "\<forall>x \<in> set xs. snd x < nu" "nu \<le> snd b" "set xs \<subseteq> set ks" "length xs \<le> length ks" "b \<in> set (d # ks)"
  proof (cases "\<exists>b \<in> set ks. nu \<le> snd b")
    case True
    then obtain xs b ys where k: "ks = xs @ b # ys" "nu \<le> snd b" "\<forall>x \<in> set xs. \<not> nu \<le> snd x" using split_list_first_prop [of ks "\<lambda>b. nu \<le> snd b"] by blast
    have "rep (umem s) ((d # xs) @ b # ys) (fst d)" using r k(1) by simp
    then have "rep (umem s) (d # xs) (fst b)" unfolding rep_append by simp
    then show ?thesis using that [of xs b] k by (auto simp: not_le)
  next
    case False
    then show ?thesis using that [of ks d] r e by (auto simp: not_le)
  qed
  obtain k where k: "f = length xs + Suc k" using f x(5) less_iff_Suc_add [of "length xs" f] by auto
  have "\<forall>y \<in> set xs. snd y < nu \<and> fst y \<noteq> freep s" using x(2,4) d by (metis image_eqI subsetD)
  from malloc_walk [OF x(1) this, of "Suc k"]
  have w: "malloc_loop f nu (fst d) (load32 (umem s) (fst d)) s = malloc_loop (Suc k) nu (fst (last (d # xs))) (fst b) s" using x(1) k by simp
  have "last (d # xs) \<in> set (d # ks)" using x(4) by (cases xs rule: rev_cases) auto
  then show ?thesis using that [OF w _ x(6) last_link [OF x(1)] x(3)] by blast
qed

text \<open>The block before \<open>b\<close> in the ring.\<close>

lemma ring_pred:
  assumes "rep m (as @ b # zs) q" "distinct (map fst (as @ b # zs))" "p \<in> set (as @ b # zs)" "load32 m (fst p) = fst b" "fst b \<noteq> q"
  obtains bs where "as = bs @ [p]"
proof -
  obtain us vs where s: "as @ b # zs = us @ p # vs" using split_list [OF assms(3)] by blast
  have "load32 m (fst p) = hd (map fst vs @ [q])" using assms(1) unfolding s by (simp add: rep_append)
  then obtain c ws where v: "vs = c # ws" "fst c = fst b" using assms(4,5) by (cases vs) auto
  have "c \<in> set (as @ b # zs)" using s v(1) by simp
  then have "c = b" using v(2) assms(2) by (auto dest: distinct_map [THEN iffD1] simp: inj_on_def image_iff)
  then have "as @ b # zs = (us @ [p]) @ b # ws" using s v(1) by simp
  moreover have "b \<notin> set as" "b \<notin> set zs" using assms(2) by (auto simp: image_iff)
  ultimately have "as = us @ [p]" using append_Cons_eq_iff [of b as zs "us @ [p]" ws] by blast
  then show ?thesis using that by blast
qed

text \<open>
  The invariant after a step that leaves the ring of \<open>fs'\<close> and the held blocks
  \<open>L'\<close>, when these are together the blocks there were.
\<close>

lemma heap_ok_apart:
  assumes ok: "heap_ok s fs L" and "b \<in> insert (base_addr s, 0) (set fs \<union> L)" "c \<in> insert (base_addr s, 0) (set fs \<union> L)" "b \<noteq> c"
  shows "span b \<inter> span c = {}" "apart (fst b) (fst c)" "fst b \<noteq> fst c"
proof -
  note D = heap_okD [OF ok]
  have h32: "unat (brk s) \<le> 2 ^ 32" using D(6) by (simp add: word_le_nat_alt)
  show s: "span b \<inter> span c = {}"
    using assms(2-4) sorted_blocks(3) [OF D(3), of b c] D(10) [of b c] D(10) [of c b] D(11) [of b c] by auto
  have "fits (unat (brk s)) b" "fits (unat (brk s)) c" using assms(2,3) D(5) by auto
  then show "apart (fst b) (fst c)" using s span_apart fits_mono [OF _ h32] by blast
  show "fst b \<noteq> fst c" using s span_ne by blast
qed

lemma heap_ok_fits: "heap_ok s fs L \<Longrightarrow> b \<in> insert (base_addr s, 0) (set fs \<union> L) \<Longrightarrow> fits (2 ^ 32) b"
  using heap_okD(5,6) [of s fs L] fits_mono [of "unat (brk s)" b "2 ^ 32"] by (auto simp: word_le_nat_alt)

lemma heap_ok_free:
  assumes "heap_ok s fs L" "b \<in> set fs"
  shows "0 < snd b \<and> fits (unat (brk s)) b \<and> base_addr s < fst b"
  using heap_okD(3-5) [OF assms(1)] assms(2) before_span(2) [of "(base_addr s, 0)" b] by simp

lemma heap_okI:
  assumes ok: "heap_ok s fs L" and t: "t = s\<lparr>umem := m, freep := p\<rparr>"
    and r: "rep m ((base_addr s, 0) # fs') (base_addr s)" "p \<in> fst ` set ((base_addr s, 0) # fs')" "sorted_wrt before ((base_addr s, 0) # fs')"
    and pos: "\<forall>b \<in> insert x (set fs'). 0 < snd b \<and> fits (unat (brk s)) b \<and> base_addr s < fst b" and n: "load32 m (fst x + 4) = snd x"
    and un: "span x \<union> \<Union> (span ` set fs') = \<Union> (span ` set fs)" "span x \<inter> \<Union> (span ` set fs') = {}"
    and keep: "\<And>b. b \<in> L \<Longrightarrow> load32 m (fst b + 4) = load32 (umem s) (fst b + 4)"
  shows "heap_ok t fs' (insert x L)" "x \<notin> L"
proof -
  note D = heap_okD [OF ok]
  have b0: "span (base_addr s, 0) \<inter> \<Union> (span ` set fs) = {}" by (rule sorted_hd_span [OF D(3)])
  have l: "span b \<inter> \<Union> (span ` set fs) = {}" "span b \<inter> span (base_addr s, 0) = {}" if "b \<in> L" for b using D(10) [OF that] by auto
  have lx: "span b \<inter> span x = {}" "\<forall>c \<in> set ((base_addr s, 0) # fs'). span b \<inter> span c = {}" if "b \<in> L" for b
    using l [OF that] unfolding un(1) [symmetric] by auto
  have "span x \<noteq> {}" by (auto simp: span_def)
  then show "x \<notin> L" using lx(1) [of x] by blast
  have xs: "\<forall>c \<in> set ((base_addr s, 0) # fs'). span x \<inter> span c = {}" using b0 un(2) unfolding un(1) [symmetric] by auto
  have f: "\<forall>b \<in> set ((base_addr s, 0) # fs') \<union> insert x L. fits (unat (brk s)) b" "\<forall>b \<in> set fs' \<union> insert x L. 0 < snd b"
    using pos D(4,5) by auto
  have lv: "load32 m (fst b + 4) = snd b \<and> base_addr s < fst b \<and> (\<forall>c \<in> set ((base_addr s, 0) # fs'). span b \<inter> span c = {})"
    if "b \<in> insert x L" for b
    using that keep [of b] D(8,9) [of b] lx(2) [of b] xs n pos by (cases "b = x") simp_all
  have dj: "span b \<inter> span c = {}" if "b \<in> insert x L" "c \<in> insert x L" "b \<noteq> c" for b c
    using that lx(1) [of b] lx(1) [of c] D(11) [of b c] by (auto simp: Int_commute)
  show "heap_ok t fs' (insert x L)"
    unfolding heap_ok_def Let_def t using r f lv dj D(6,7) by simp
qed

lemma same_ustI:
  assumes "t = s\<lparr>umem := m, freep := p\<rparr>" "hframe a (umem s) m1" "hframe b m1 m"
    "\<And>z. in_range a 8 z \<or> in_range b 8 z \<Longrightarrow> unat z \<in> \<Union> (span ` A)"
  shows "same_ust A s t"
  using assms(2-4) unfolding same_ust_def assms(1) hframe_def by fastforce

text \<open>A block of exactly the size is taken out of the ring.\<close>

lemma take_whole:
  fixes s :: "'z ust_scheme"
  assumes ok: "heap_ok s fs L" and b: "fs = as @ b # zs" and p: "p \<in> set ((base_addr s, 0) # fs)" "load32 (umem s) (fst p) = fst b"
  defines "m \<equiv> store32 (umem s) (fst p) (load32 (umem s) (fst b))"
  shows "heap_ok (s\<lparr>umem := m, freep := fst p\<rparr>) (as @ zs) (insert b L)" "b \<notin> L"
    "same_ust (set ((base_addr s, 0) # fs)) s (s\<lparr>umem := m, freep := fst p\<rparr>)"
proof -
  let ?q = "base_addr s"
  note D = heap_okD [OF ok] and ap = heap_ok_apart [OF ok]
  have dg: "distinct (map fst (((?q, 0) # as) @ b # zs))" using sorted_blocks(1) [OF D(3)] b by simp
  have rg: "rep (umem s) (((?q, 0) # as) @ b # zs) ?q" using D(1) b by simp
  have nb: "fst b \<noteq> ?q" "b \<in> set fs" using dg b by (auto simp: image_iff)
  obtain bs where bs: "(?q, 0) # as = bs @ [p]"
    by (rule ring_pred [OF rg dg _ p(2) nb(1)]) (use p(1) b in auto)
  have R: "rep (umem s) bs (fst p)" "load32 (umem s) (fst p + 4) = snd p" "rep (umem s) zs ?q" "load32 (umem s) (fst b) = hd (map fst zs @ [?q])"
    using rg unfolding bs by (simp_all add: rep_append)
  have dg': "distinct (map fst ((bs @ [p]) @ b # zs))" using dg unfolding bs .
  have sb: "insert (?q, 0) (set as) = insert p (set bs)" using arg_cong [OF bs, of set] by simp
  have "p \<notin> set bs \<union> set zs \<union> {b}" using dg' by (auto simp: image_iff)
  moreover have "set bs \<union> set zs \<union> {b} \<subseteq> insert (?q, 0) (set fs)" using sb b by auto
  ultimately have inn: "\<forall>c \<in> set bs \<union> set zs \<union> {b}. c \<in> insert (?q, 0) (set fs \<union> L) \<and> p \<noteq> c" by blast
  have pin: "p \<in> insert (?q, 0) (set fs \<union> L)" using p(1) by auto
  have app: "apart (fst p) (fst c)" if "c \<in> set bs \<union> set zs \<union> {b} \<union> L" for c
  proof (cases "c \<in> L")
    case True
    then have "p \<noteq> c" using D(10) [OF True p(1)] span_ne [of c c] by auto
    then show ?thesis using ap(2) [OF pin, of c] True by auto
  qed (use that inn ap(2) [OF pin] in blast)
  have fr: "hframe (fst p) (umem s) m" by (simp add: m_def)
  have "rep m bs (fst p)" "rep m zs ?q" using rep_frame [OF R(1) fr] rep_frame [OF R(3) fr] app by auto
  then have r: "rep m ((?q, 0) # as @ zs) ?q"
    using R(2,4) by (simp only: append_Cons [symmetric] bs) (simp add: rep_append m_def)
  have "p \<in> insert (?q, 0) (set as)" by (simp add: sb)
  then have pf: "fst p \<in> fst ` set ((?q, 0) # as @ zs)" by auto
  have so: "sorted_wrt before ((?q, 0) # as @ zs)" using D(3) b by (auto simp: sorted_wrt_append)
  have po: "\<forall>c \<in> insert b (set (as @ zs)). 0 < snd c \<and> fits (unat (brk s)) c \<and> ?q < fst c"
    using heap_ok_free [OF ok] b by auto
  have sz: "load32 m (fst b + 4) = snd b" using hframe_load(2) [OF fr app [of b]] rg by (simp add: rep_append)
  have un: "span b \<union> \<Union> (span ` set (as @ zs)) = \<Union> (span ` set fs)" using b by auto
  have "span b \<inter> span c = {}" if "c \<in> set (as @ zs)" for c using that dg b nb(2) by (intro ap(1)) (auto simp: image_iff)
  then have dj: "span b \<inter> \<Union> (span ` set (as @ zs)) = {}" by blast
  have ke: "load32 m (fst c + 4) = load32 (umem s) (fst c + 4)" if "c \<in> L" for c using hframe_load(2) [OF fr app] that by blast
  show "heap_ok (s\<lparr>umem := m, freep := fst p\<rparr>) (as @ zs) (insert b L)" "b \<notin> L"
    using heap_okI [OF ok refl r pf so po sz un dj ke] by simp_all
  have "fits (2 ^ 32) p" using heap_ok_fits [OF ok, of p] p(1) by (simp only: list.set Un_insert_left insert_iff Un_iff) blast
  then show "same_ust (set ((?q, 0) # fs)) s (s\<lparr>umem := m, freep := fst p\<rparr>)"
    using header_in_span [of p] p(1) by (intro same_ustI [OF refl fr hframe_refl]) blast
qed

text \<open>The tail of a larger block is cut off.\<close>

lemma take_part:
  fixes s :: "'z ust_scheme"
  assumes ok: "heap_ok s fs L" and b: "fs = as @ b # zs" and p: "p \<in> set ((base_addr s, 0) # fs)" and nu: "0 < nu" "nu < snd b"
  defines "c \<equiv> (fst b, snd b - nu)" and "x \<equiv> (fst b + 8 * (snd b - nu), nu)"
  defines "m \<equiv> store32 (store32 (umem s) (fst b + 4) (snd c)) (fst x + 4) nu"
  shows "heap_ok (s\<lparr>umem := m, freep := fst p\<rparr>) (as @ c # zs) (insert x L)" "x \<notin> L"
    "same_ust (set ((base_addr s, 0) # fs)) s (s\<lparr>umem := m, freep := fst p\<rparr>)"
    "span x \<union> \<Union> (span ` set (as @ c # zs)) = \<Union> (span ` set fs)"
proof -
  let ?q = "base_addr s"
  note D = heap_okD [OF ok] and ap = heap_ok_apart [OF ok]
  have bf: "b \<in> set fs" "0 < snd b" "fits (unat (brk s)) b" "?q < fst b" using heap_ok_free [OF ok, of b] b by auto
  have h31: "unat (brk s) \<le> 2 ^ 31" using D(6) by (simp add: word_le_nat_alt)
  have k: "unat (snd b - nu) = unat (snd b) - unat nu" "unat nu < unat (snd b)" "0 < unat nu" using nu by (simp_all add: unat_sub_if' word_less_nat_alt)
  have be: "unat (fst b) + 8 * unat (snd b) \<le> unat (brk s)" using bf(3) k by (simp add: fits_def max_def split: if_splits)
  have fc: "fits (unat (brk s)) c" using be k by (auto simp: fits_def c_def max_def)
  have ux: "unat (fst x) = unat (fst b) + 8 * (unat (snd b) - unat nu)" using unat_end [OF fc h31] k by (simp add: x_def c_def)
  have sp: "span b = span c \<union> span x" "span c \<inter> span x = {}" using ux k by (auto simp: span_def x_def c_def max_def)
  have fx: "fits (unat (brk s)) x" "fits (unat (brk s)) c" "?q < fst x" "0 < snd c"
    using ux k be bf(4) by (auto simp: fits_def x_def c_def max_def word_less_nat_alt split: if_splits)
  have h32: "unat (brk s) \<le> 2 ^ 32" using h31 by simp
  have ax: "apart (fst x) (fst d) \<and> apart (fst b) (fst d)" if "d \<in> insert (?q, 0) (set fs \<union> L)" "d \<noteq> b" for d
  proof -
    have "span b \<inter> span d = {}" "apart (fst b) (fst d)" using ap(1,2) [of b d] bf(1) that by auto
    then show ?thesis using sp(1) span_apart [of x d] fits_mono [OF fx(1) h32] heap_ok_fits [OF ok that(1)] by auto
  qed
  have axb: "apart (fst x) (fst b)" using span_apart [of x c] sp(2) fits_mono [OF fx(1) h32] fits_mono [OF fx(2) h32] by (auto simp: c_def)
  let ?m1 = "store32 (umem s) (fst b + 4) (snd c)"
  have f1: "hframe (fst b) (umem s) ?m1" and f2: "hframe (fst x) ?m1 m" by (simp_all add: m_def)
  have dg: "distinct (map fst (((?q, 0) # as) @ b # zs))" using sorted_blocks(1) [OF D(3)] b by simp
  have inn: "\<forall>d \<in> set (((?q, 0) # as)) \<union> set zs. d \<in> insert (?q, 0) (set fs \<union> L) \<and> d \<noteq> b" using dg b by (auto simp: image_iff)
  have R: "rep (umem s) ((?q, 0) # as) (fst b)" "load32 (umem s) (fst b) = hd (map fst zs @ [?q])" "rep (umem s) zs ?q"
    using D(1) unfolding b by (simp_all add: rep_append flip: append_Cons del: append_Cons)
  have "\<forall>d \<in> set ((?q, 0) # as) \<union> set zs. apart (fst x) (fst d) \<and> apart (fst b) (fst d)" using inn ax by blast
  then have "rep m ((?q, 0) # as) (fst b)" "rep m zs ?q"
    using rep_frame [OF rep_frame [OF R(1) f1] f2] rep_frame [OF rep_frame [OF R(3) f1] f2] by blast+
  moreover have "load32 m (fst b) = hd (map fst zs @ [?q])" "load32 m (fst b + 4) = snd c"
    using hframe_load [OF f2 axb] R(2) by simp_all
  ultimately have r: "rep m ((?q, 0) # as @ c # zs) ?q" by (simp add: rep_append c_def flip: append_Cons del: append_Cons)
  have "p \<in> set ((?q, 0) # as) \<union> set zs \<or> p = b" using p b by auto
  then have pf: "fst p \<in> fst ` set ((?q, 0) # as @ c # zs)" by (auto simp: c_def)
  have "before d c" if "before d b" for d using that by (simp add: before_def c_def)
  moreover have "before c d" if "before b d" for d using that k by (auto simp: before_def c_def max_def split: if_splits)
  ultimately have so: "sorted_wrt before ((?q, 0) # as @ c # zs)" using D(3) b by (auto simp: sorted_wrt_append)
  have po: "\<forall>d \<in> insert x (set (as @ c # zs)). 0 < snd d \<and> fits (unat (brk s)) d \<and> ?q < fst d"
    using heap_ok_free [OF ok] b fx nu(1) bf(4) by (auto simp: x_def c_def)
  have sz: "load32 m (fst x + 4) = snd x" by (simp add: m_def x_def)
  show un: "span x \<union> \<Union> (span ` set (as @ c # zs)) = \<Union> (span ` set fs)" using sp(1) b by auto
  have "span b \<inter> span d = {}" if "d \<in> set as \<union> set zs" for d using that inn bf(1) ap(1) [of b d] by auto
  then have dj: "span x \<inter> \<Union> (span ` set (as @ c # zs)) = {}" using sp by auto
  have ke: "load32 m (fst d + 4) = load32 (umem s) (fst d + 4)" if "d \<in> L" for d
  proof -
    have "d \<noteq> b" using D(10) [OF that, of b] bf(1) span_ne [of b b] by auto
    then have "apart (fst x) (fst d)" "apart (fst b) (fst d)" using ax that by blast+
    then show ?thesis using hframe_load(2) [OF f1] hframe_load(2) [OF f2] by simp
  qed
  show "heap_ok (s\<lparr>umem := m, freep := fst p\<rparr>) (as @ c # zs) (insert x L)" "x \<notin> L"
    using heap_okI [OF ok refl r pf so po sz un dj ke] by simp_all
  show "same_ust (set ((?q, 0) # fs)) s (s\<lparr>umem := m, freep := fst p\<rparr>)"
  proof (rule same_ustI [OF refl f1 f2])
    fix z assume "in_range (fst b) 8 z \<or> in_range (fst x) 8 z"
    then have "unat z \<in> span b" using header_in_span [of b z] header_in_span [of x z] sp(1) fits_mono [OF fx(1) h32] fits_mono [OF bf(3) h32] by auto
    then show "unat z \<in> \<Union> (span ` set ((?q, 0) # fs))" using bf(1) by auto
  qed
qed

text \<open>What malloc() has done when it returns the block \<open>x\<close>.\<close>

definition taken :: "'z ust_scheme \<Rightarrow> block list \<Rightarrow> block set \<Rightarrow> 'z ust_scheme \<Rightarrow> block list \<Rightarrow> block \<Rightarrow> bool" where
  "taken s fs L t fs' x \<longleftrightarrow> heap_ok t fs' (insert x L) \<and> x \<notin> L \<and> same_ust (set ((base_addr s, 0) # fs)) s t
     \<and> span x \<union> \<Union> (span ` set fs') = \<Union> (span ` set fs)"

lemma take_block:
  assumes ok: "heap_ok s fs L" and nu: "0 < nu" "nu \<le> snd b" and b: "b \<in> set ((base_addr s, 0) # fs)"
    and p: "p \<in> set ((base_addr s, 0) # fs)" "load32 (umem s) (fst p) = fst b"
  shows "\<exists>t fs' x. malloc_loop (Suc k) nu (fst p) (fst b) s = Ok (fst x + 8) t \<and> snd x = nu \<and> taken s fs L t fs' x"
proof -
  have "b \<in> set fs" using b nu by (auto simp: word_less_nat_alt word_le_nat_alt)
  then obtain as zs where fs: "fs = as @ b # zs" using split_list by fastforce
  have sz: "load32 (umem s) (fst b + 4) = snd b" using heap_okD(1) [OF ok] fs by (simp add: rep_append)
  show ?thesis
  proof (cases "snd b = nu")
    case True
    note w = take_whole [OF ok fs p]
    let ?t = "s\<lparr>umem := store32 (umem s) (fst p) (load32 (umem s) (fst b)), freep := fst p\<rparr>"
    have "malloc_loop (Suc k) nu (fst p) (fst b) s = Ok (fst b + 8) ?t" using True sz by (simp add: ucode)
    moreover have "span b \<union> \<Union> (span ` set (as @ zs)) = \<Union> (span ` set fs)" using fs by auto
    ultimately show ?thesis using w True unfolding taken_def by blast
  next
    case False
    then have lt: "nu < snd b" using nu(2) by simp
    note w = take_part [OF ok fs p(1) nu(1) lt]
    let ?x = "(fst b + 8 * (snd b - nu), nu)"
    let ?t = "s\<lparr>umem := store32 (store32 (umem s) (fst b + 4) (snd b - nu)) (fst ?x + 4) nu, freep := fst p\<rparr>"
    have "malloc_loop (Suc k) nu (fst p) (fst b) s = Ok (fst ?x + 8) ?t" using False nu(2) sz by (simp add: ucode Let_def)
    then show ?thesis using w unfolding taken_def by fastforce
  qed
qed

text \<open>From a heap with a block that is large enough, one turn of the loop finds it.\<close>

lemma malloc_fits:
  assumes ok: "heap_ok s fs L" and nu: "0 < nu" and e: "\<exists>b \<in> set fs. nu \<le> snd b" and f: "2 ^ 32 < f"
  shows "\<exists>t fs' x. malloc_loop f nu (freep s) (load32 (umem s) (freep s)) s = Ok (fst x + 8) t \<and> snd x = nu \<and> taken s fs L t fs' x"
proof -
  let ?g = "(base_addr s, 0) # fs"
  note D = heap_okD [OF ok]
  obtain d where d: "d \<in> set ?g" "freep s = fst d" using D(2) by blast
  obtain ks where ks: "rep (umem s) (d # ks) (fst d)" "set (d # ks) = set ?g" "length ?g = Suc (length ks)" "fst d \<notin> fst ` set ks"
    by (rule ring_turn [OF D(1) _ d(1) sorted_blocks(1) [OF D(3)]]) auto
  have l: "Suc (length ks) \<le> f" using sorted_blocks(2) [OF D(3)] ks(3) f by linarith
  have "\<exists>b \<in> set (d # ks). nu \<le> snd b" using e unfolding ks(2) by auto
  then obtain p b k where w: "malloc_loop f nu (fst d) (load32 (umem s) (fst d)) s = malloc_loop (Suc k) nu (fst p) (fst b) s"
    "p \<in> set (d # ks)" "b \<in> set (d # ks)" "load32 (umem s) (fst p) = fst b" "nu \<le> snd b"
    using first_fit [OF ks(1) d(2) ks(4) _ l] by blast
  show ?thesis
    using take_block [OF ok nu w(5) w(3) [unfolded ks(2)] w(2) [unfolded ks(2)] w(4), of k] w(1) d(2) by simp
qed

text \<open>Otherwise the turn ends at freep, and morecore() is called.\<close>

lemma malloc_none:
  assumes ok: "heap_ok s fs L" and nu: "0 < nu" and e: "\<forall>b \<in> set fs. snd b < nu" and f: "2 ^ 32 + k < f"
  shows "\<exists>f' > k. malloc_loop f nu (freep s) (load32 (umem s) (freep s)) s
    = bindM (morecore nu) (\<lambda>p. if p = 0 then retM 0 else bindM (h_ptr p) (malloc_loop f' nu p)) s"
proof -
  let ?g = "(base_addr s, 0) # fs"
  note D = heap_okD [OF ok]
  obtain d where d: "d \<in> set ?g" "freep s = fst d" using D(2) by blast
  obtain ks where ks: "rep (umem s) (d # ks) (fst d)" "set (d # ks) = set ?g" "length ?g = Suc (length ks)" "fst d \<notin> fst ` set ks"
    by (rule ring_turn [OF D(1) _ d(1) sorted_blocks(1) [OF D(3)]]) auto
  have sm: "snd x < nu" if "x \<in> set (d # ks)" for x using that e nu unfolding ks(2) by auto
  have "length ks + Suc k < f" using sorted_blocks(2) [OF D(3)] ks(3) f by linarith
  then obtain f' where f': "f = length ks + Suc f'" "k < f'" by (intro that [of "f - Suc (length ks)"]) simp_all
  have "\<forall>x \<in> set ks. snd x < nu \<and> fst x \<noteq> freep s" using sm ks(4) d(2) by (metis image_eqI list.set_intros(2))
  from malloc_walk [OF ks(1) this, of "Suc f'"]
  have "malloc_loop f nu (freep s) (load32 (umem s) (freep s)) s = malloc_loop (Suc f') nu (fst (last (d # ks))) (fst d) s"
    using ks(1) f'(1) d(2) by simp
  moreover have "\<not> nu \<le> snd d" "snd d \<noteq> nu" "load32 (umem s) (fst d + 4) = snd d" using sm [of d] ks(1) by auto
  ultimately show ?thesis using f'(2) d(2) by (intro exI [of _ f']) (simp add: ucode)
qed

text \<open>What morecore() asks for, and whether the kernel refuses it.\<close>

definition core_units :: "u32 \<Rightarrow> u32" where
  "core_units nu = (if nu < 4096 then 4096 else nu)"

definition refused :: "'z ust_scheme \<Rightarrow> u32 \<Rightarrow> bool" where
  "refused s nu \<longleftrightarrow> unat (brk s) + 8 * unat (core_units nu) \<ge> unat KERNBASE \<or> \<not> grants s (brk s + 8 * core_units nu)"

text \<open>The memory from the kernel is a block the program holds until it frees it.\<close>

lemma core_block:
  fixes s :: "'z ust_scheme"
  assumes ok: "heap_ok s fs L" and n: "0 < n" "unat (brk s) + 8 * unat n < 2 ^ 31"
  defines "x \<equiv> (brk s, n)" and "s' \<equiv> s\<lparr>brk := brk s + 8 * n, umem := store32 (umem s) (brk s + 4) n\<rparr>"
  shows "heap_ok s' fs (insert x L)" "x \<notin> L"
proof -
  note D = heap_okD [OF ok]
  have un: "unat (brk s + 8 * n) = unat (brk s) + 8 * unat n" using n(2) by (simp add: unat_word_ariths)
  have n0: "0 < unat n" using n(1) by (simp add: word_less_nat_alt)
  have below: "span b \<inter> span x = {}" "fits (unat (brk s + 8 * n)) b" if "fits (unat (brk s)) b" for b
    using that un n0 by (auto simp: span_def fits_def x_def)
  have fx: "fits (unat (brk s + 8 * n)) x" using un n0 by (auto simp: fits_def x_def max_def)
  have fx32: "fits (2 ^ 32) x" using fits_mono [OF fx, of "2 ^ 32"] un n(2) by simp
  have fr: "hframe (fst x) (umem s) (umem s')" by (simp add: s'_def x_def)
  have bl: "span b \<inter> span x = {}" "apart (fst x) (fst b)" "fits (unat (brk s + 8 * n)) b" if "b \<in> insert (base_addr s, 0) (set fs \<union> L)" for b
  proof -
    have "fits (unat (brk s)) b" using that D(5) by auto
    then show "span b \<inter> span x = {}" "fits (unat (brk s + 8 * n)) b" by (rule below)+
    then show "apart (fst x) (fst b)" using span_apart [OF _ fx32 heap_ok_fits [OF ok that]] by (simp add: Int_commute)
  qed
  have "\<forall>b \<in> set ((base_addr s, 0) # fs). apart (fst x) (fst b)"
  proof
    fix b assume "b \<in> set ((base_addr s, 0) # fs)"
    then show "apart (fst x) (fst b)" by (intro bl(2)) auto
  qed
  then have r: "rep (umem s') ((base_addr s, 0) # fs) (base_addr s)" by (rule rep_frame [OF D(1) fr])
  have b0: "base_addr s < brk s" using D(5) by (auto simp: fits_def word_less_nat_alt)
  have sx: "load32 (umem s') (fst x + 4) = snd x" by (simp add: s'_def x_def)
  have "span x \<noteq> {}" using n0 by (auto simp: span_def)
  then show xl: "x \<notin> L" using bl(1) [of x] by auto
  have ft: "\<forall>b \<in> set ((base_addr s, 0) # fs) \<union> insert x L. fits (unat (brk s + 8 * n)) b" "\<forall>b \<in> set fs \<union> insert x L. 0 < snd b"
    using bl(3) fx D(4) n(1) by (auto simp: x_def)
  have lv: "load32 (umem s') (fst b + 4) = snd b \<and> base_addr s < fst b \<and> (\<forall>c \<in> set ((base_addr s, 0) # fs). span b \<inter> span c = {})"
    if "b \<in> insert x L" for b
  proof (cases "b = x")
    case True
    have "span x \<inter> span c = {}" if "c \<in> set ((base_addr s, 0) # fs)" for c using that bl(1) [of c] by auto
    then show ?thesis using True sx b0 by (simp add: x_def)
  next
    case False
    then show ?thesis using that hframe_load(2) [OF fr bl(2), of b] D(8-10) [of b] by auto
  qed
  have dj: "span b \<inter> span c = {}" if "b \<in> insert x L" "c \<in> insert x L" "b \<noteq> c" for b c
    using that bl(1) [of b] bl(1) [of c] D(11) [of b c] by auto
  have le: "brk s + 8 * n \<le> KERNBASE" using un n(2) by (simp add: word_le_nat_alt)
  show "heap_ok s' fs (insert x L)"
    unfolding heap_ok_def Let_def using r ft lv dj le D(2,3,7) by (simp add: s'_def)
qed

text \<open>The bytes of the blocks the program holds do not change.\<close>

definition kept :: "block set \<Rightarrow> 'z ust_scheme \<Rightarrow> 'z ust_scheme \<Rightarrow> bool" where
  "kept L s t \<longleftrightarrow> (\<forall>b \<in> L. \<forall>z. unat z \<in> span b \<longrightarrow> umem t z = umem s z)"

lemma kept_trans: "kept L s t \<Longrightarrow> kept L t u \<Longrightarrow> kept L s u" by (simp add: kept_def)

lemma same_ust_kept: "same_ust A s t \<Longrightarrow> \<forall>b \<in> L. \<forall>c \<in> A. span b \<inter> span c = {} \<Longrightarrow> kept L s t"
  unfolding same_ust_def kept_def by blast

lemma same_ustD: "same_ust A s t \<Longrightarrow> base_addr t = base_addr s \<and> brk t = brk s \<and> grants t = grants s"
  unfolding same_ust_def by (metis ust.select_convs(3-5) ust.surjective ust.update_convs(1,2))

lemma morecore_ok:
  fixes s :: "'z ust_scheme"
  assumes ok: "heap_ok s fs L" and nu: "unat nu < 2 ^ 28"
  shows "refused s nu \<Longrightarrow> morecore nu s = Ok 0 s"
    and "\<not> refused s nu \<Longrightarrow> \<exists>t fs'. morecore nu s = Ok (freep t) t \<and> heap_ok t fs' L \<and> (\<exists>b \<in> set fs'. nu \<le> snd b) \<and> kept L s t
      \<and> base_addr t = base_addr s \<and> \<Union> (span ` set fs') = \<Union> (span ` set fs) \<union> {unat (brk s)..<unat (brk t)}"
proof -
  note D = heap_okD [OF ok]
  let ?n = "core_units nu"
  have n: "unat ?n < 2 ^ 28" "0 < ?n" "nu \<le> ?n" using nu by (auto simp: core_units_def word_less_nat_alt word_le_nat_alt)
  have b31: "unat (brk s) \<le> 2 ^ 31" using D(6) by (simp add: word_le_nat_alt)
  have un: "unat (?n * 8) = 8 * unat ?n" "unat (brk s + 8 * ?n) = unat (brk s) + 8 * unat ?n" using n(1) b31 by (simp_all add: unat_word_ariths)
  have si: "sint (?n * 8) = 8 * int (unat ?n)" using sint_small [of "?n * 8"] un(1) n(1) by simp
  have nz: "0 < 8 * int (unat ?n)" using n(2) by (simp add: unat_gt_0 [symmetric] word_neq_0_conv [symmetric] del: of_nat_unat int_nat_eq)
  have ofi: "brk s + of_int (8 * int (unat ?n)) = brk s + 8 * ?n" by simp
  have neq: "brk s \<noteq> -1" by (rule notI) (use b31 in \<open>simp add: unsigned_minus_1_eq_mask mask_eq_exp_minus_1\<close>)
  have gr: "\<not> brk s + 8 * ?n < brk s" using un(2) by (simp add: word_less_nat_alt)
  have kb: "KERNBASE \<le> brk s + 8 * ?n \<longleftrightarrow> unat KERNBASE \<le> unat (brk s) + 8 * unat ?n" using un(2) by (simp add: word_le_nat_alt)
  have sb: "sbrk (sint (?n * 8)) s = (if refused s nu then Ok (-1) s else Ok (brk s) (s\<lparr>brk := brk s + 8 * ?n\<rparr>))"
    unfolding si sbrk_def refused_def using nz gr kb ofi by (simp add: ucode Let_def)
  show "refused s nu \<Longrightarrow> morecore nu s = Ok 0 s" using sb unfolding morecore_def core_units_def [symmetric] by (simp add: ucode Let_def)
  assume nr: "\<not> refused s nu"
  show "\<exists>t fs'. morecore nu s = Ok (freep t) t \<and> heap_ok t fs' L \<and> (\<exists>b \<in> set fs'. nu \<le> snd b) \<and> kept L s t
      \<and> base_addr t = base_addr s \<and> \<Union> (span ` set fs') = \<Union> (span ` set fs) \<union> {unat (brk s)..<unat (brk t)}"
  proof -
    let ?x = "(brk s, ?n)" and ?s = "s\<lparr>brk := brk s + 8 * ?n, umem := store32 (umem s) (brk s + 4) ?n\<rparr>"
    have lim: "unat (brk s) + 8 * unat ?n < 2 ^ 31" using nr by (auto simp: refused_def)
    note cb = core_block [OF ok n(2) lim]
    obtain t fs' where t: "free (brk s + 8) ?s = Ok () t" "heap_ok t fs' (insert ?x L - {?x})"
      "same_ust (insert ?x (set ((base_addr s, 0) # fs))) ?s t" "\<Union> (span ` set fs') = span ?x \<union> \<Union> (span ` set fs)"
      "\<exists>b \<in> set fs'. ?n \<le> snd b"
      using free_ok [OF cb(1), of ?x] by auto
    have f: "base_addr t = base_addr s" "brk t = brk s + 8 * ?n" using same_ustD [OF t(3)] by simp_all
    have "morecore nu s = Ok (freep t) t"
      using sb nr neq t(1) unfolding morecore_def core_units_def [symmetric] by (simp add: ucode Let_def)
    moreover have "heap_ok t fs' L" using t(2) cb(2) by simp
    moreover have "\<exists>b \<in> set fs'. nu \<le> snd b" using t(5) n(3) by (meson order_trans)
    moreover have "kept L s t"
    proof (rule kept_trans)
      have lx: "span b \<inter> span ?x = {}" if "b \<in> L" for b using heap_okD(11) [OF cb(1), of b ?x] that cb(2) by auto
      moreover have "span b \<inter> span c = {}" if "b \<in> L" "c \<in> set ((base_addr s, 0) # fs)" for b c
        using heap_okD(10) [OF ok] that by blast
      ultimately have "\<forall>b \<in> L. \<forall>c \<in> insert ?x (set ((base_addr s, 0) # fs)). span b \<inter> span c = {}" by blast
      then show "kept L ?s t" by (rule same_ust_kept [OF t(3)])
      have "store32 (umem s) (brk s + 4) ?n z = umem s z" if "b \<in> L" "unat z \<in> span b" for b z
      proof (rule store32_other)
        show "\<not> in_range (brk s + 4) 4 z"
          using header_in_span [of ?x z] in_range_size [of "brk s" z] heap_ok_fits [OF cb(1), of ?x] lx [OF that(1)] that(2) by auto
      qed
      then show "kept L s ?s" by (auto simp: kept_def)
    qed
    moreover have "span ?x = {unat (brk s)..<unat (brk t)}" using f(2) un(2) n(2) by (auto simp: span_def max_def word_less_nat_alt)
    ultimately show ?thesis using f(1) t(4) by (intro exI [of _ t] exI [of _ fs']) (simp add: Un_commute)
  qed
qed

text \<open>The static variables before the first call: freep is null.\<close>

definition heap_fresh :: "'z ust_scheme \<Rightarrow> bool" where
  "heap_fresh s \<longleftrightarrow> freep s = 0 \<and> base_addr s \<noteq> 0 \<and> fits (unat (brk s)) (base_addr s, 0) \<and> brk s \<le> KERNBASE"

lemma heap_init:
  assumes "heap_fresh s"
  shows "heap_ok (s\<lparr>freep := base_addr s, umem := store32 (store32 (umem s) (base_addr s) (base_addr s)) (base_addr s + 4) 0\<rparr>) [] {}"
  using assms by (simp add: heap_ok_def heap_fresh_def)

lemma heap_freep: "heap_ok s fs L \<Longrightarrow> freep s \<noteq> 0"
  using heap_okD(2,7) [of s fs L] by (auto dest: heap_ok_free)

lemma malloc_ok:
  fixes s :: "'z ust_scheme"
  assumes ok: "heap_ok s fs L" and nu: "0 < nu" "unat nu < 2 ^ 28" and f: "2 ^ 33 < f"
  shows "\<exists>r t fs'. malloc_loop f nu (freep s) (load32 (umem s) (freep s)) s = Ok r t \<and> kept L s t
    \<and> (r = 0 \<and> t = s \<and> (\<forall>b \<in> set fs. snd b < nu) \<and> refused s nu
       \<or> (\<exists>x. r = fst x + 8 \<and> snd x = nu \<and> x \<notin> L \<and> heap_ok t fs' (insert x L)
            \<and> span x \<union> \<Union> (span ` set fs') = \<Union> (span ` set fs) \<union> {unat (brk s)..<unat (brk t)}))"
proof -
  have tk: "kept M u t \<and> brk t = brk u \<and> x \<notin> M \<and> heap_ok t hs (insert x M) \<and> span x \<union> \<Union> (span ` set hs) = \<Union> (span ` set gs)"
    if "heap_ok u gs M" "taken u gs M t hs x" for u t :: "'z ust_scheme" and gs hs M x
    using that same_ustD [of "set ((base_addr u, 0) # gs)" u t] same_ust_kept [of "set ((base_addr u, 0) # gs)" u t M] heap_okD(10) [OF that(1)]
    by (auto simp: taken_def simp del: list.set)
  show ?thesis
  proof (cases "\<exists>b \<in> set fs. nu \<le> snd b")
    case True
    have "2 ^ 32 < f" using f by simp
    then obtain t fs' x where t: "malloc_loop f nu (freep s) (load32 (umem s) (freep s)) s = Ok (fst x + 8) t" "snd x = nu" "taken s fs L t fs' x"
      using malloc_fits [OF ok nu(1) True] by blast
    then show ?thesis using tk [OF ok t(3)] by (intro exI [of _ "fst x + 8"] exI [of _ t] exI [of _ fs']) auto
  next
    case False
    then have sm: "\<forall>b \<in> set fs. snd b < nu" by (auto simp: not_le)
    have "(2 :: nat) ^ 32 + 2 ^ 32 < f" using f by simp
    then obtain f' where f': "2 ^ 32 < f'" "malloc_loop f nu (freep s) (load32 (umem s) (freep s)) s
      = bindM (morecore nu) (\<lambda>p. if p = 0 then retM 0 else bindM (h_ptr p) (malloc_loop f' nu p)) s"
      using malloc_none [OF ok nu(1) sm] by blast
    show ?thesis
    proof (cases "refused s nu")
      case True
      then show ?thesis using f'(2) morecore_ok(1) [OF ok nu(2)] sm by (auto simp: ucode kept_def)
    next
      case False
      obtain t fs' where t: "morecore nu s = Ok (freep t) t" "heap_ok t fs' L" "\<exists>b \<in> set fs'. nu \<le> snd b" "kept L s t"
        "base_addr t = base_addr s" "\<Union> (span ` set fs') = \<Union> (span ` set fs) \<union> {unat (brk s)..<unat (brk t)}"
        using morecore_ok(2) [OF ok nu(2) False] by blast
      obtain u gs x where u: "malloc_loop f' nu (freep t) (load32 (umem t) (freep t)) t = Ok (fst x + 8) u" "snd x = nu" "taken t fs' L u gs x"
        using malloc_fits [OF t(2) nu(1) t(3) f'(1)] by blast
      have "malloc_loop f nu (freep s) (load32 (umem s) (freep s)) s = Ok (fst x + 8) u"
        using f'(2) t(1) u(1) heap_freep [OF t(2)] by (simp add: ucode)
      then show ?thesis
        using tk [OF t(2) u(3)] u(2) t(6) kept_trans [OF t(4)] by (intro exI [of _ "fst x + 8"] exI [of _ u] exI [of _ gs]) auto
    qed
  qed
qed

section \<open>Properties\<close>

definition umalloc_ok :: "'z ust_scheme \<Rightarrow> block list \<Rightarrow> block set \<Rightarrow> bool" where
  "umalloc_ok s fs L \<longleftrightarrow> heap_ok s fs L \<or> heap_fresh s \<and> fs = [] \<and> L = {}"

definition units :: "u32 \<Rightarrow> u32" where
  "units n = (n + 8 - 1) div 8 + 1"

lemma unat_units: "n < 0x7FFFFFF0 \<Longrightarrow> unat (units n) = (unat n + 7) div 8 + 1"
proof -
  assume "n < 0x7FFFFFF0"
  then have "unat n < 0x7FFFFFF0" by (simp add: word_less_nat_alt)
  then have "unat (n + 7) = unat n + 7" "(unat n + 7) div 8 < 2 ^ 28" by (simp_all add: unat_word_ariths)
  then show ?thesis by (simp add: units_def unat_word_ariths unat_div)
qed

lemma malloc_start:
  fixes s :: "'z ust_scheme"
  assumes "umalloc_ok s fs L"
  obtains t where "heap_ok t fs L" "malloc n s = malloc_loop (2 ^ 33 + 4) (units n) (freep t) (load32 (umem t) (freep t)) t"
    "brk t = brk s" "grants t = grants s" "kept L s t"
proof (cases "heap_ok s fs L")
  case True
  show ?thesis
    by (rule that [OF True]) (use heap_freep [OF True] in \<open>simp_all add: malloc_def ucode units_def kept_def Let_def del: malloc_loop.simps\<close>)
next
  case False
  then have f: "heap_fresh s" "fs = []" "L = {}" using assms by (auto simp: umalloc_ok_def)
  let ?t = "s\<lparr>freep := base_addr s, umem := store32 (store32 (umem s) (base_addr s) (base_addr s)) (base_addr s + 4) 0\<rparr>"
  have "freep s = 0" using f(1) by (simp add: heap_fresh_def)
  then show ?thesis
    using heap_init [OF f(1)] f(2,3) by (intro that [of ?t]) (simp_all add: malloc_def ucode units_def kept_def Let_def del: malloc_loop.simps)
qed

text \<open>
  C39: malloc() of less than 0x7FFFFFF0 bytes (sbrk() would take the units of a
  larger request for a negative number).  From a heap whose free blocks are \<open>fs\<close> and whose held blocks are
  \<open>L\<close> (or one that was never used) the call always returns.  It returns
  null only if no free block is large enough and the kernel refuses to grow
  the process, and then nothing is lost; otherwise it returns a block of at
  least \<open>n\<close> bytes behind its header that is disjoint from every held and
  every free block and from base, cut out of the free blocks and the memory
  added to the process.  The heap keeps its invariant (a sorted ring of
  blocks that never touch), and no byte of a held block changes.
\<close>

theorem malloc_spec:
  fixes s :: "'z ust_scheme"
  assumes "umalloc_ok s fs L" "n < 0x7FFFFFF0"
  shows "\<exists>r t fs'. malloc n s = Ok r t \<and> kept L s t
    \<and> (r = 0 \<and> heap_ok t fs L \<and> (\<forall>b \<in> set fs. snd b < units n) \<and> refused s (units n)
       \<or> (\<exists>x. r = fst x + 8 \<and> unat n \<le> 8 * (unat (snd x) - 1) \<and> x \<notin> L \<and> heap_ok t fs' (insert x L)
            \<and> span x \<union> \<Union> (span ` set fs') = \<Union> (span ` set fs) \<union> {unat (brk s)..<unat (brk t)}))"
proof -
  have u: "unat (units n) = (unat n + 7) div 8 + 1" by (rule unat_units [OF assms(2)])
  have n: "0 < units n" "unat (units n) < 2 ^ 28" "unat n \<le> 8 * (unat (units n) - 1)"
    using u assms(2) by (auto simp: word_less_nat_alt)
  obtain s' where s': "heap_ok s' fs L" "malloc n s = malloc_loop (2 ^ 33 + 4) (units n) (freep s') (load32 (umem s') (freep s')) s'"
    "brk s' = brk s" "grants s' = grants s" "kept L s s'"
    by (rule malloc_start [OF assms(1)])
  have f: "(2 :: nat) ^ 33 < 2 ^ 33 + 4" by simp
  obtain r t fs' where t: "malloc n s = Ok r t" "kept L s' t"
    "r = 0 \<and> t = s' \<and> (\<forall>b \<in> set fs. snd b < units n) \<and> refused s' (units n)
       \<or> (\<exists>x. r = fst x + 8 \<and> snd x = units n \<and> x \<notin> L \<and> heap_ok t fs' (insert x L)
            \<and> span x \<union> \<Union> (span ` set fs') = \<Union> (span ` set fs) \<union> {unat (brk s')..<unat (brk t)})"
    using malloc_ok [OF s'(1) n(1,2) f] s'(2) by auto
  have "kept L s t" using kept_trans [OF s'(5) t(2)] .
  moreover have "refused s' (units n) = refused s (units n)" by (simp add: refused_def s'(3,4))
  ultimately show ?thesis using t(1,3) n(3) s'(1,3) by (intro exI [of _ r] exI [of _ t] exI [of _ fs']) auto
qed

text \<open>A program whose static variables end at 0x1008 and whose memory ends at 0x4000, on a kernel with memory to spare.\<close>

definition small_ust :: ust where
  "small_ust = \<lparr>umem = (\<lambda>_. 0), freep = 0, base_addr = 0x1000, brk = 0x4000, grants = (\<lambda>_. True)\<rparr>"

lemma small_ust_ok: "umalloc_ok small_ust [] {}"
  by (simp add: umalloc_ok_def heap_fresh_def small_ust_def fits_def)

theorem malloc_spec_witness:
  "\<exists>t fs x. malloc 10 small_ust = Ok (fst x + 8) t \<and> heap_ok t fs {x} \<and> 10 \<le> 8 * (unat (snd x) - 1)"
proof -
  have "\<not> refused small_ust (units 10)" by (simp add: refused_def core_units_def units_def small_ust_def)
  then show ?thesis using malloc_spec [OF small_ust_ok, of 10] by auto
qed

text \<open>
  C40: free().  Giving back a held block always returns.  The block is joined
  with the free blocks it touches (the invariant forbids touching neighbours
  in the ring), exactly its bytes are added to the free ones, it is no longer
  held, and no byte of another held block changes.
\<close>

theorem free_spec:
  fixes s :: "'z ust_scheme"
  assumes ok: "heap_ok s fs L" and x: "x \<in> L"
  shows "\<exists>t fs'. free (fst x + 8) s = Ok () t \<and> heap_ok t fs' (L - {x}) \<and> kept (L - {x}) s t
    \<and> \<Union> (span ` set fs') = \<Union> (span ` set fs) \<union> span x \<and> brk t = brk s"
proof -
  obtain t fs' where t: "free (fst x + 8) s = Ok () t" "heap_ok t fs' (L - {x})" "same_ust (insert x (set ((base_addr s, 0) # fs))) s t"
    "\<Union> (span ` set fs') = span x \<union> \<Union> (span ` set fs)"
    using free_ok [OF assms] by blast
  have "\<forall>b \<in> L - {x}. \<forall>c \<in> insert x (set ((base_addr s, 0) # fs)). span b \<inter> span c = {}"
    using heap_okD(10,11) [OF ok] x by blast
  from same_ust_kept [OF t(3) this] show ?thesis
    using t same_ustD [OF t(3)] by (intro exI [of _ t] exI [of _ fs']) (simp add: Un_commute)
qed

text \<open>The block morecore() makes of the first memory it gets, before it frees it.\<close>

theorem free_spec_witness:
  "\<exists>s t fs. heap_ok s [] {(0x4000, 4096)} \<and> free (0x4000 + 8) (s :: ust) = Ok () t \<and> heap_ok t fs {}
     \<and> \<Union> (span ` set fs) = {0x4000..<0xC000}"
proof -
  have "heap_fresh small_ust" by (simp add: heap_fresh_def small_ust_def fits_def)
  then obtain s :: ust where s: "heap_ok s [] {(0x4000, 4096)}"
    using core_block(1) [OF heap_init, of small_ust 4096] by (auto simp: small_ust_def)
  from free_spec [OF this, of "(0x4000, 4096)"] show ?thesis
    using s by (auto simp: span_def)
qed

text \<open>
  The rounding in malloc() wraps around for the seven largest requests: they
  get a block with room for no byte at all.
\<close>

lemma malloc_wraps:
  fixes s :: "'z ust_scheme"
  assumes "umalloc_ok s fs L" "0xFFFFFFF9 \<le> n" "\<not> refused s 1"
  shows "\<exists>t fs' x. malloc n s = Ok (fst x + 8) t \<and> heap_ok t fs' (insert x L) \<and> snd x = 1"
proof -
  have "unat n \<ge> 0xFFFFFFF9" using assms(2) by (simp add: word_le_nat_alt)
  then have "unat (n + 7) < 8" using unat_u32 [of n] le_mod_geq [of "2 ^ 32" "unat n + 7"] by (simp add: unat_word_ariths)
  then have "(n + 7) div 8 = 0" by (simp add: word_unat_eq_iff unat_div)
  then have u: "units n = 1" by (simp add: units_def add.commute)
  obtain s' where s': "heap_ok s' fs L" "malloc n s = malloc_loop (2 ^ 33 + 4) (units n) (freep s') (load32 (umem s') (freep s')) s'"
    "brk s' = brk s" "grants s' = grants s" "kept L s s'"
    by (rule malloc_start [OF assms(1)])
  have f: "(2 :: nat) ^ 33 < 2 ^ 33 + 4" by simp
  have "\<not> refused s' 1" using assms(3) by (simp add: refused_def s'(3,4))
  then show ?thesis using malloc_ok [OF s'(1) _ _ f, of 1] s'(2) unfolding u by auto
qed

end
