(* ===== verification/Mkfs.thy ===== *)
theory Mkfs
  imports Dir
begin

text \<open>
  mkfs.c, the program that builds the first file system image on the build
  host: an allocator that only counts up, and iappend(), which extends a file.
  The image is read with the definitions of the kernel's file system (fdata,
  dir_map, used): the theorems say that the kernel finds in it what mkfs was
  given.
\<close>

section \<open>The model\<close>

abbreviation (input) NINODES :: nat where "NINODES \<equiv> 200"
abbreviation (input) NMETA :: nat where "NMETA \<equiv> 59"

text \<open>
  The image file as a list of sectors, and the static variables.  perror()
  followed by exit(1) and a failed assert are the outcome \<open>Panic\<close>.
\<close>

record mkst =
  img :: "bytes list"
  mk_sb :: superblock
  freeinode :: u32
  freeblock :: u32

text \<open>The conversions to Intel byte order, on a little-endian host.\<close>

definition xshort :: "u16 \<Rightarrow> u16" where
  "xshort x = le16_dec [ucast x, ucast (drop_bit 8 x)]"

definition xint :: "u32 \<Rightarrow> u32" where
  "xint x = le32_dec [ucast x, ucast (drop_bit 8 x), ucast (drop_bit 16 x), ucast (drop_bit 24 x)]"

text \<open>Writing behind the end of the image extends it; reading there fails.\<close>

definition wsect :: "u32 \<Rightarrow> bytes \<Rightarrow> (mkst, unit) kfun" where
  "wsect sec buf =
     (let k = unat (sec * 512) div BSIZE in
     modM (\<lambda>s. s\<lparr>img := (if k < length (img s) then (img s)[k := buf]
       else img s @ replicate (k - length (img s)) (replicate BSIZE 0) @ [buf])\<rparr>))"

definition rsect :: "u32 \<Rightarrow> (mkst, bytes) kfun" where
  "rsect sec =
     (let k = unat (sec * 512) div BSIZE in
     bindM (getM img) (\<lambda>m.
     if k < length m then retM (m ! k) else panicM ''read''))"

definition winode :: "u32 \<Rightarrow> dinode \<Rightarrow> (mkst, unit) kfun" where
  "winode inum ip =
     bindM (getM (\<lambda>s. IBLOCK inum (mk_sb s))) (\<lambda>bn.
     bindM (rsect bn) (\<lambda>buf.
     wsect bn (patch (dioff inum) (dinode_bytes ip) buf)))"

definition rinode :: "u32 \<Rightarrow> (mkst, dinode) kfun" where
  "rinode inum =
     bindM (getM (\<lambda>s. IBLOCK inum (mk_sb s))) (\<lambda>bn.
     bindM (rsect bn) (\<lambda>buf.
     retM (get_dinode buf (dioff inum))))"

definition mk_ialloc :: "u16 \<Rightarrow> (mkst, u32) kfun" where
  "mk_ialloc ty =
     bindM (getM freeinode) (\<lambda>inum.
     thenM (modM (\<lambda>s. s\<lparr>freeinode := inum + 1\<rparr>))
     (thenM (winode inum (zero_dinode\<lparr>d_type := xshort ty, d_nlink := xshort 1, d_size := xint 0\<rparr>))
     (retM inum)))"

definition mk_balloc :: "u32 \<Rightarrow> (mkst, unit) kfun" where
  "mk_balloc n =
     thenM (assertM (sint n < int (BSIZE * 8)) ''used < BSIZE*8'')
     (bindM (getM (\<lambda>s. sb_bmapstart (mk_sb s))) (\<lambda>b.
      wsect b (fold set_bit_at [0..<unat n] (replicate BSIZE 0))))"

text \<open>\<open>freeblock++\<close>\<close>

definition next_block :: "(mkst, u32) kfun" where
  "next_block = bindM (getM freeblock) (\<lambda>b. thenM (modM (\<lambda>s. s\<lparr>freeblock := b + 1\<rparr>)) (retM b))"

text \<open>iappend(): \<open>if(xint(din.addrs[k]) == 0) din.addrs[k] = xint(freeblock++);\<close>\<close>

definition iappend_addr :: "nat \<Rightarrow> dinode \<Rightarrow> (mkst, dinode) kfun" where
  "iappend_addr k din =
     (if xint (d_addrs din ! k) = 0 then
        bindM next_block (\<lambda>b. retM (din\<lparr>d_addrs := (d_addrs din)[k := xint b]\<rparr>))
      else retM din)"

text \<open>iappend(): the sector of block \<open>fbn\<close> of the file, and the inode with it.\<close>

definition iappend_block :: "nat \<Rightarrow> dinode \<Rightarrow> (mkst, u32 \<times> dinode) kfun" where
  "iappend_block fbn din =
     (if fbn < NDIRECT then
        bindM (iappend_addr fbn din) (\<lambda>din.
        retM (xint (d_addrs din ! fbn), din))
      else
        bindM (iappend_addr NDIRECT din) (\<lambda>din.
        let ib = xint (d_addrs din ! NDIRECT); e = 4 * (fbn - NDIRECT) in
        bindM (rsect ib) (\<lambda>indirect.
        bindM (if get32 indirect e = 0 then
                 bindM next_block (\<lambda>b.
                 thenM (wsect ib (put32 e (xint b) indirect))
                 (retM (put32 e (xint b) indirect)))
               else retM indirect) (\<lambda>indirect.
        retM (xint (get32 indirect e), din)))))"

text \<open>iappend(): the loop, from offset \<open>off\<close> of the file with the bytes \<open>p\<close> left.\<close>

function iappend_loop :: "dinode \<Rightarrow> nat \<Rightarrow> bytes \<Rightarrow> (mkst, dinode \<times> nat) kfun" where
  "iappend_loop din off p =
     (if p = [] then retM (din, off)
      else
        let fbn = off div BSIZE; n1 = min (length p) ((fbn + 1) * BSIZE - off) in
        thenM (assertM (fbn < MAXFILE) ''fbn < MAXFILE'')
        (bindM (iappend_block fbn din) (\<lambda>(x, din).
         bindM (rsect x) (\<lambda>buf.
         thenM (wsect x (patch (off - fbn * BSIZE) (take n1 p) buf))
         (iappend_loop din (off + n1) (drop n1 p))))))"
  by pat_completeness auto
termination
proof (relation "measure (\<lambda>(din, off, p). length p)", goal_cases)
  case (2 din off p)
  have "off < (off div BSIZE + 1) * BSIZE" by (simp add: dividend_less_div_times)
  then show ?case using 2 by (cases p) auto
qed simp

declare iappend_loop.simps [simp del]

definition iappend :: "u32 \<Rightarrow> bytes \<Rightarrow> (mkst, unit) kfun" where
  "iappend inum p =
     bindM (rinode inum) (\<lambda>din.
     bindM (iappend_loop din (unat (xint (d_size din))) p) (\<lambda>(din, off).
     winode inum (din\<lparr>d_size := xint (of_nat off)\<rparr>)))"

text \<open>
  main(): one file of the command line.  A file is its name and, if open()
  succeeds, the pieces in which read() returns its contents.
\<close>

definition mkfs_file :: "u32 \<Rightarrow> bytes \<times> bytes list option \<Rightarrow> (mkst, unit) kfun" where
  "mkfs_file rootino f =
     (let name = fst f in
      thenM (assertM (0x2F \<notin> set name) ''no slash in the name'')
      (case snd f of
         None \<Rightarrow> panicM ''open''
       | Some pieces \<Rightarrow>
           let name = (if name \<noteq> [] \<and> hd name = 0x5F then tl name else name) in
           bindM (mk_ialloc T_FILE) (\<lambda>inum.
           thenM (iappend rootino (dirent_bytes inum name))
           (foreachM pieces (iappend inum)))))"

definition mkfs_super :: superblock where
  "mkfs_super = (let nbitmap = FSSIZE div (BSIZE * 8) + 1; ninodeblocks = NINODES div IPB + 1; nlog = 30; nmeta = 2 + nlog + ninodeblocks + nbitmap in
     \<lparr>sb_size = xint (of_nat FSSIZE), sb_nblocks = xint (of_nat (FSSIZE - nmeta)), sb_ninodes = xint (of_nat NINODES), sb_nlog = xint (of_nat nlog),
      sb_logstart = xint 2, sb_inodestart = xint (of_nat (2 + nlog)), sb_bmapstart = xint (of_nat (2 + nlog + ninodeblocks))\<rparr>)"

definition super_bytes :: "superblock \<Rightarrow> bytes" where
  "super_bytes p = le32_enc (sb_size p) @ le32_enc (sb_nblocks p) @ le32_enc (sb_ninodes p) @ le32_enc (sb_nlog p)
     @ le32_enc (sb_logstart p) @ le32_enc (sb_inodestart p) @ le32_enc (sb_bmapstart p)"

definition mkfs_root :: "u32 \<Rightarrow> (mkst, unit) kfun" where
  "mkfs_root rootino =
     thenM (iappend rootino (dirent_bytes rootino (cbytes ''.'')))
     (iappend rootino (dirent_bytes rootino (cbytes ''..'')))"

text \<open>main(): the end, which rounds the size of the root directory up and writes the bitmap.\<close>

definition mkfs_finish :: "u32 \<Rightarrow> (mkst, unit) kfun" where
  "mkfs_finish rootino =
     bindM (rinode rootino) (\<lambda>din.
     let off = (xint (d_size din) div 512 + 1) * 512 in
     thenM (winode rootino (din\<lparr>d_size := xint off\<rparr>))
     (bindM (getM freeblock) mk_balloc))"

text \<open>main(): \<open>im\<close> is \<open>None\<close> without arguments, else whether the image can be opened.\<close>

definition mkfs_main :: "bool option \<Rightarrow> (bytes \<times> bytes list option) list \<Rightarrow> (mkst, unit) kfun" where
  "mkfs_main im files =
     (case im of
        None \<Rightarrow> panicM ''usage''
      | Some False \<Rightarrow> panicM ''open''
      | Some True \<Rightarrow>
          thenM (modM (\<lambda>s. s\<lparr>img := [], mk_sb := mkfs_super, freeblock := of_nat NMETA\<rparr>))
          (thenM (foreachM [0..<FSSIZE] (\<lambda>i. wsect (of_nat i) (replicate BSIZE 0)))
          (thenM (wsect 1 (patch 0 (super_bytes mkfs_super) (replicate BSIZE 0)))
          (bindM (mk_ialloc T_DIR) (\<lambda>rootino.
           thenM (assertM (rootino = ROOTINO) ''rootino == ROOTINO'')
           (thenM (mkfs_root rootino)
           (thenM (foreachM files (mkfs_file rootino))
           (mkfs_finish rootino))))))))"

section \<open>Sectors\<close>

lemma xint_id [simp]: "xint x = x"
  using le32_dec_enc [of x "[]"] by (simp add: xint_def le32_enc_def)

lemma xshort_id [simp]: "xshort x = x"
  using le16_dec_enc [of x "[]"] by (simp add: xshort_def le16_enc_def)

lemma mkfs_super_fields [simp]: "sb_size mkfs_super = 1000" "sb_ninodes mkfs_super = 200" "sb_nlog mkfs_super = 30"
  "sb_logstart mkfs_super = 2" "sb_inodestart mkfs_super = 32" "sb_bmapstart mkfs_super = 58"
  by (simp_all add: mkfs_super_def Let_def)

lemma sector: "unat (sec :: u32) < FSSIZE \<Longrightarrow> unat (sec * 512) div BSIZE = unat sec"
  by (simp add: unat_word_ariths)

lemma rsect_ok: "unat sec < FSSIZE \<Longrightarrow> length (img s) = FSSIZE \<Longrightarrow> rsect sec s = Ok (img s ! unat sec) s"
  by (simp add: rsect_def sector kcode Let_def)

lemma wsect_ok: "unat sec < FSSIZE \<Longrightarrow> length (img s) = FSSIZE \<Longrightarrow> wsect sec d s = Ok () (s\<lparr>img := (img s)[unat sec := d]\<rparr>)"
  by (simp add: wsect_def sector kcode Let_def)

section \<open>References to blocks\<close>

text \<open>
  The reference number \<open>n\<close> of a file: to its data block \<open>n\<close>, and for \<open>n = MAXFILE\<close>
  to its indirect block; the number of references in a file of \<open>c\<close> data blocks.
\<close>

definition fref :: "(nat \<Rightarrow> bytes) \<Rightarrow> inode \<Rightarrow> nat \<Rightarrow> u32" where
  "fref v ip n = (if n = MAXFILE then i_addrs ip ! NDIRECT else fblk v ip n)"

definition nrefs :: "nat \<Rightarrow> nat" where
  "nrefs c = (if NDIRECT < c then Suc c else c)"

text \<open>A file of exactly \<open>c\<close> data blocks, from the first on.\<close>

definition exact :: "(nat \<Rightarrow> bytes) \<Rightarrow> inode \<Rightarrow> nat \<Rightarrow> bool" where
  "exact v ip c \<longleftrightarrow> length (i_addrs ip) = Suc NDIRECT \<and> c \<le> MAXFILE
     \<and> (\<forall>n < MAXFILE. fref v ip n \<noteq> 0 \<longleftrightarrow> n < c) \<and> (fref v ip MAXFILE \<noteq> 0 \<longleftrightarrow> NDIRECT < c)"

text \<open>The references are to the blocks behind the meta data and below \<open>fb\<close>, to each of them exactly one.\<close>

definition refs_ok :: "(nat \<Rightarrow> bytes) \<Rightarrow> nat \<Rightarrow> (nat \<Rightarrow> inode) \<Rightarrow> bool" where
  "refs_ok v fb f \<longleftrightarrow>
     (\<forall>i < NINODES. \<forall>n \<le> MAXFILE. fref v (f i) n \<noteq> 0 \<longrightarrow> NMETA \<le> unat (fref v (f i) n) \<and> unat (fref v (f i) n) < fb)
   \<and> (\<forall>i < NINODES. \<forall>j < NINODES. \<forall>n \<le> MAXFILE. \<forall>m \<le> MAXFILE.
        fref v (f i) n \<noteq> 0 \<longrightarrow> fref v (f i) n = fref v (f j) m \<longrightarrow> i = j \<and> n = m)
   \<and> (\<forall>b. NMETA \<le> b \<longrightarrow> b < fb \<longrightarrow> (\<exists>i < NINODES. \<exists>n \<le> MAXFILE. unat (fref v (f i) n) = b))"

lemma refs_okD:
  assumes "refs_ok v fb f" "i < NINODES" "n \<le> MAXFILE" "fref v (f i) n \<noteq> 0"
  shows "NMETA \<le> unat (fref v (f i) n)" "unat (fref v (f i) n) < fb"
    "j < NINODES \<Longrightarrow> m \<le> MAXFILE \<Longrightarrow> fref v (f i) n = fref v (f j) m \<Longrightarrow> i = j \<and> n = m"
  using assms unfolding refs_ok_def by blast+

lemma refs_ok_cong:
  assumes "\<And>j n. j < NINODES \<Longrightarrow> fref v' (f' j) n = fref v (f j) n"
  shows "refs_ok v' fb f' = refs_ok v fb f"
  by (simp add: refs_ok_def assms cong: conj_cong)

lemma fref_cong: "(i_addrs ip ! NDIRECT \<noteq> 0 \<Longrightarrow> v' (unat (i_addrs ip ! NDIRECT)) = v (unat (i_addrs ip ! NDIRECT))) \<Longrightarrow> fref v' ip n = fref v ip n"
  by (auto simp: fref_def fblk_def)

lemma u32_eqI: "unat a = unat b \<Longrightarrow> a = b" for a b :: u32
  by (simp add: word_unat_eq_iff)

text \<open>Writing a data block changes that block of that file and nothing else.\<close>

lemma refs_write:
  fixes d :: bytes
  assumes ok: "refs_ok v fb f" and i: "i < NINODES" "n < MAXFILE" "fref v (f i) n \<noteq> 0"
  defines "v' \<equiv> v(unat (fref v (f i) n) := d)"
  shows "j < NINODES \<Longrightarrow> fref v' (f j) m = fref v (f j) m" "refs_ok v' fb f"
    "j < NINODES \<Longrightarrow> m < MAXFILE \<Longrightarrow> fcont v' (f j) m = (if j = i \<and> m = n then d else fcont v (f j) m)"
proof -
  show r: "fref v' (f j) m = fref v (f j) m" if "j < NINODES" for j m
  proof (rule fref_cong)
    have "fref v (f i) n \<noteq> fref v (f j) MAXFILE" using refs_okD(3) [OF ok i(1) _ i(3) that, of MAXFILE] i(2) by auto
    then show "v' (unat (i_addrs (f j) ! NDIRECT)) = v (unat (i_addrs (f j) ! NDIRECT))"
      by (simp add: v'_def fref_def [of v "f j"] word_unat_eq_iff)
  qed
  then show "refs_ok v' fb f" using ok refs_ok_cong [of v' f v f] by blast
  assume j: "j < NINODES" "m < MAXFILE"
  then have b: "fblk v' (f j) m = fref v (f j) m" "fblk v (f j) m = fref v (f j) m" using r [OF j(1), of m] by (simp_all add: fref_def)
  show "fcont v' (f j) m = (if j = i \<and> m = n then d else fcont v (f j) m)"
    using refs_okD(3) [OF ok i(1) _ i(3) j(1), of m] i(2,3) j(2) unfolding fcont_def b by (auto simp: v'_def dest!: u32_eqI)
qed

text \<open>A new reference, to the block \<open>fb\<close>.\<close>

lemma refs_new:
  assumes ok: "refs_ok v fb f" and i: "i < NINODES" "k \<le> MAXFILE" "fref v (f i) k = 0" and c: "unat c = fb" "NMETA \<le> fb"
    and new: "\<And>n. n \<le> MAXFILE \<Longrightarrow> fref v' w n = (if n = k then c else fref v (f i) n)"
    and old: "\<And>j n. j < NINODES \<Longrightarrow> j \<noteq> i \<Longrightarrow> fref v' (f j) n = fref v (f j) n"
  shows "refs_ok v' (Suc fb) (f(i := w))"
proof -
  have fr: "fref v' ((f(i := w)) j) n = (if j = i \<and> n = k then c else fref v (f j) n)" if "j < NINODES" "n \<le> MAXFILE" for j n
    using new [OF that(2)] old [OF that(1), of n] by (cases "j = i") simp_all
  have fresh: "fref v (f j) n \<noteq> c" if "j < NINODES" "n \<le> MAXFILE" "fref v (f j) n \<noteq> 0" for j n
    using refs_okD(2) [OF ok that] c(1) by auto
  have c0: "c \<noteq> 0" using c by auto
  show ?thesis
    unfolding refs_ok_def
  proof (intro conjI allI impI)
    fix j n assume j: "j < NINODES" "n \<le> MAXFILE" "fref v' ((f(i := w)) j) n \<noteq> 0"
    show "NMETA \<le> unat (fref v' ((f(i := w)) j) n)" "unat (fref v' ((f(i := w)) j) n) < Suc fb"
      using fr [OF j(1,2)] refs_okD(1,2) [OF ok j(1,2)] j(3) c by (auto split: if_splits)
  next
    fix j l n m assume j: "j < NINODES" "l < NINODES" "n \<le> MAXFILE" "m \<le> MAXFILE" "fref v' ((f(i := w)) j) n \<noteq> 0"
      "fref v' ((f(i := w)) j) n = fref v' ((f(i := w)) l) m"
    show "j = l" "n = m"
      using fr [OF j(1,3)] fr [OF j(2,4)] j refs_okD(3) [OF ok j(1,3) _ j(2,4)] fresh [OF j(1,3)] fresh [OF j(2,4)] i(3) c0
      by (auto split: if_splits)
  next
    fix b assume b: "NMETA \<le> b" "b < Suc fb"
    show "\<exists>j < NINODES. \<exists>n \<le> MAXFILE. unat (fref v' ((f(i := w)) j) n) = b"
    proof (cases "b = fb")
      case True
      then show ?thesis using fr [OF i(1,2)] c(1) i(1,2) by auto
    next
      case False
      then obtain j n where j: "j < NINODES" "n \<le> MAXFILE" "unat (fref v (f j) n) = b" using ok b unfolding refs_ok_def by auto
      then have "\<not> (j = i \<and> n = k)" using i(3) b(1) by auto
      then have "unat (fref v' ((f(i := w)) j) n) = b" using fr [OF j(1,2)] j(3) by auto
      then show ?thesis using j(1,2) by blast
    qed
  qed
qed

text \<open>
  The three places of a new reference.  The block is all zero, so no contents
  change: a hole of a file reads as zeros too.
\<close>

definition same_conts :: "(nat \<Rightarrow> bytes) \<Rightarrow> (nat \<Rightarrow> inode) \<Rightarrow> (nat \<Rightarrow> bytes) \<Rightarrow> (nat \<Rightarrow> inode) \<Rightarrow> bool" where
  "same_conts v f v' f' \<longleftrightarrow> (\<forall>j < NINODES. \<forall>m < MAXFILE. fcont v' (f' j) m = fcont v (f j) m)"

lemma same_conts_trans: "same_conts v f v' f' \<Longrightarrow> same_conts v' f' v'' f'' \<Longrightarrow> same_conts v f v'' f''"
  by (simp add: same_conts_def)

lemma fcont_fref: "m < MAXFILE \<Longrightarrow> fcont v ip m = (if fref v ip m = 0 then replicate BSIZE 0 else v (unat (fref v ip m)))"
  by (simp add: fcont_def fref_def)

lemma refs_addr:
  assumes ok: "refs_ok v fb f" and i: "i < NINODES" "k \<le> NDIRECT" "i_addrs (f i) ! k = 0" "length (i_addrs (f i)) = Suc NDIRECT"
    and c: "unat c = fb" "NMETA \<le> fb" "v fb = replicate BSIZE 0"
  defines "w \<equiv> (f i)\<lparr>i_addrs := (i_addrs (f i))[k := c]\<rparr>" and "k' \<equiv> (if k = NDIRECT then MAXFILE else k)"
  shows "\<And>n. n \<le> MAXFILE \<Longrightarrow> fref v w n = (if n = k' then c else fref v (f i) n)" "refs_ok v (Suc fb) (f(i := w))" "same_conts v f v (f(i := w))"
proof -
  have z: "n < MAXFILE \<Longrightarrow> get32 (v (unat c)) (4 * (n - NDIRECT)) = 0" for n
    using c get32_zeros [of "4 * (n - NDIRECT)" BSIZE] by auto
  show fr: "fref v w n = (if n = k' then c else fref v (f i) n)" if "n \<le> MAXFILE" for n
    using that i z [of n] by (auto simp: fref_def fblk_def w_def k'_def)
  have k0: "fref v (f i) k' = 0" "k' \<le> MAXFILE" using i by (auto simp: fref_def fblk_def k'_def)
  show "refs_ok v (Suc fb) (f(i := w))" by (rule refs_new [OF ok i(1) k0(2,1) c(1,2) fr]) simp_all
  show "same_conts v f v (f(i := w))" using fr k0 c by (auto simp: same_conts_def fcont_fref)
qed

lemma refs_entry:
  assumes ok: "refs_ok v fb f" and i: "i < NINODES" "NDIRECT \<le> k" "k < MAXFILE" "fref v (f i) MAXFILE = ib" "ib \<noteq> 0" "fref v (f i) k = 0"
    and l: "length (v (unat ib)) = BSIZE" and c: "unat c = fb" "NMETA \<le> fb" "v fb = replicate BSIZE 0"
  defines "v' \<equiv> v(unat ib := put32 (4 * (k - NDIRECT)) c (v (unat ib)))"
  shows "\<And>n. n \<le> MAXFILE \<Longrightarrow> fref v' (f i) n = (if n = k then c else fref v (f i) n)" "refs_ok v' (Suc fb) f" "same_conts v f v' f"
    "\<And>j n. j < NINODES \<Longrightarrow> j \<noteq> i \<Longrightarrow> fref v' (f j) n = fref v (f j) n"
proof -
  let ?o = "4 * (k - NDIRECT)"
  have ad: "i_addrs (f i) ! NDIRECT = ib" using i(4) by (simp add: fref_def)
  have ins: "get32 (put32 ?o c (v (unat ib))) (4 * (n - NDIRECT)) = (if n = k then c else get32 (v (unat ib)) (4 * (n - NDIRECT)))"
    if "NDIRECT \<le> n" "n < MAXFILE" for n
  proof (cases "n = k")
    case True
    then show ?thesis using get32_put32_same [of ?o "v (unat ib)" c] l i(3) by simp
  next
    case False
    have "?o + 4 \<le> 4 * (n - NDIRECT) \<or> 4 * (n - NDIRECT) + 4 \<le> ?o" using False that i(2) by linarith
    then show ?thesis using False get32_put32_other [of ?o "v (unat ib)" "4 * (n - NDIRECT)" c] l that i(3) by auto
  qed
  show fr: "fref v' (f i) n = (if n = k then c else fref v (f i) n)" if "n \<le> MAXFILE" for n
    using ins [of n] that i(2,3,5) ad by (auto simp: fref_def fblk_def v'_def)
  show oth: "fref v' (f j) n = fref v (f j) n" if "j < NINODES" "j \<noteq> i" for j n
  proof (rule fref_cong)
    assume "i_addrs (f j) ! NDIRECT \<noteq> 0"
    then have "i_addrs (f j) ! NDIRECT \<noteq> ib"
      using refs_okD(3) [OF ok i(1), of MAXFILE j MAXFILE] that i(4,5) by (auto simp: fref_def)
    then show "v' (unat (i_addrs (f j) ! NDIRECT)) = v (unat (i_addrs (f j) ! NDIRECT))" by (simp add: v'_def word_unat_eq_iff)
  qed
  have "refs_ok v' (Suc fb) (f(i := f i))" by (rule refs_new [OF ok i(1) _ i(6) c(1,2) fr oth]) (use i(3) in simp_all)
  then show "refs_ok v' (Suc fb) f" by simp
  have nib: "fref v (f j) m \<noteq> ib" if "j < NINODES" "m < MAXFILE" for j m
    using refs_okD(3) [OF ok i(1), of MAXFILE j m] that i(4,5) by auto
  have "unat ib < fb" using refs_okD(2) [OF ok i(1), of MAXFILE] i(4,5) by simp
  then have z: "v' (unat c) = replicate BSIZE 0" using c by (simp add: v'_def)
  have "fcont v' (f j) m = fcont v (f j) m" if "j < NINODES" "m < MAXFILE" for j m
    using nib [OF that] that fr [of m] oth [of j m] z i(6) by (cases "j = i") (auto simp: fcont_fref v'_def dest!: u32_eqI)
  then show "same_conts v f v' f" by (simp add: same_conts_def)
qed

section \<open>The image\<close>

definition view :: "mkst \<Rightarrow> nat \<Rightarrow> bytes" where
  "view s = (!) (img s)"

text \<open>Sectors of BSIZE bytes; behind the last one allocated all are zero.\<close>

definition img_ok :: "mkst \<Rightarrow> bool" where
  "img_ok s \<longleftrightarrow> length (img s) = FSSIZE \<and> (\<forall>b < FSSIZE. length (view s b) = BSIZE) \<and> mk_sb s = mkfs_super
     \<and> NMETA \<le> unat (freeblock s) \<and> unat (freeblock s) \<le> FSSIZE
     \<and> (\<forall>b < FSSIZE. unat (freeblock s) \<le> b \<longrightarrow> view s b = replicate BSIZE 0)"

text \<open>The files \<open>f\<close>, by inode number, with \<open>c i\<close> data blocks each.\<close>

definition mk_inv :: "mkst \<Rightarrow> (nat \<Rightarrow> inode) \<Rightarrow> (nat \<Rightarrow> nat) \<Rightarrow> bool" where
  "mk_inv s f c \<longleftrightarrow> img_ok s \<and> refs_ok (view s) (unat (freeblock s)) f \<and> (\<forall>i < NINODES. exact (view s) (f i) (c i))"

lemma img_okD:
  assumes "img_ok s"
  shows "length (img s) = FSSIZE" "b < FSSIZE \<Longrightarrow> length (view s b) = BSIZE" "mk_sb s = mkfs_super" "NMETA \<le> unat (freeblock s)"
    "unat (freeblock s) \<le> FSSIZE" "b < FSSIZE \<Longrightarrow> unat (freeblock s) \<le> b \<Longrightarrow> view s b = replicate BSIZE 0"
  using assms by (auto simp: img_ok_def)

lemma view_upd: "k < length (img s) \<Longrightarrow> view (s\<lparr>img := (img s)[k := d]\<rparr>) = (view s)(k := d)"
  by (auto simp: view_def fun_eq_iff nth_list_update)

lemma view_fields [simp]: "view (s\<lparr>freeblock := b\<rparr>) = view s" "view (s\<lparr>freeinode := i\<rparr>) = view s"
  by (simp_all add: view_def)

lemma next_block_ok:
  assumes "img_ok s" "unat (freeblock s) < FSSIZE"
  shows "next_block s = Ok (freeblock s) (s\<lparr>freeblock := freeblock s + 1\<rparr>)" "img_ok (s\<lparr>freeblock := freeblock s + 1\<rparr>)"
    "unat (freeblock s + 1) = Suc (unat (freeblock s))" "view s (unat (freeblock s)) = replicate BSIZE 0"
proof -
  show u: "unat (freeblock s + 1) = Suc (unat (freeblock s))" using assms(2) by (simp add: unat_word_ariths)
  show "next_block s = Ok (freeblock s) (s\<lparr>freeblock := freeblock s + 1\<rparr>)" by (simp add: next_block_def kcode)
  show "img_ok (s\<lparr>freeblock := freeblock s + 1\<rparr>)" using assms u by (simp add: img_ok_def)
  show "view s (unat (freeblock s)) = replicate BSIZE 0" using img_okD(6) [OF assms(1,2)] by simp
qed

lemma img_ok_write:
  assumes "img_ok s" "NMETA \<le> k" "k < unat (freeblock s)" "length d = BSIZE"
  shows "img_ok (s\<lparr>img := (img s)[k := d]\<rparr>)" "view (s\<lparr>img := (img s)[k := d]\<rparr>) = (view s)(k := d)"
proof -
  have k: "k < length (img s)" using img_okD(1,5) [OF assms(1)] assms(3) by simp
  show v: "view (s\<lparr>img := (img s)[k := d]\<rparr>) = (view s)(k := d)" by (rule view_upd [OF k])
  show "img_ok (s\<lparr>img := (img s)[k := d]\<rparr>)" using assms(1,3,4) unfolding img_ok_def v by auto
qed

text \<open>The in-memory inode that ilock() loads from an on-disk inode.\<close>

abbreviation (input) of_din :: "dinode \<Rightarrow> inode" where "of_din d \<equiv> load_inode d zero_inode"

lemma of_din_simps [simp]: "i_addrs (of_din d) = d_addrs d" "i_size (of_din d) = d_size d"
  "(of_din d)\<lparr>i_addrs := a\<rparr> = of_din (d\<lparr>d_addrs := a\<rparr>)" "(of_din d)\<lparr>i_size := z\<rparr> = of_din (d\<lparr>d_size := z\<rparr>)"
  by (simp_all add: load_inode_def)

text \<open>
  \<open>grew i s f t f'\<close>: file \<open>i\<close> has more references than in \<open>s\<close>; all contents
  and the meta data are the same.
\<close>

definition grew :: "nat \<Rightarrow> mkst \<Rightarrow> (nat \<Rightarrow> inode) \<Rightarrow> mkst \<Rightarrow> (nat \<Rightarrow> inode) \<Rightarrow> bool" where
  "grew i s f t f' \<longleftrightarrow> img_ok t \<and> refs_ok (view t) (unat (freeblock t)) f' \<and> same_conts (view s) f (view t) f'
     \<and> (\<forall>b < NMETA. view t b = view s b) \<and> freeinode t = freeinode s
     \<and> (\<forall>j < NINODES. j \<noteq> i \<longrightarrow> f' j = f j \<and> (\<forall>n. fref (view t) (f j) n = fref (view s) (f j) n))"

lemma grew_trans: "grew i s f t f' \<Longrightarrow> grew i t f' u f'' \<Longrightarrow> grew i s f u f''"
  by (auto simp: grew_def intro: same_conts_trans)

lemma addr_ok:
  assumes ok: "img_ok s" "refs_ok (view s) (unat (freeblock s)) f" and i: "i < NINODES" "k \<le> NDIRECT" "f i = of_din din"
    "d_addrs din ! k = 0" "length (d_addrs din) = Suc NDIRECT" and fr: "unat (freeblock s) < FSSIZE"
  defines "din' \<equiv> din\<lparr>d_addrs := (d_addrs din)[k := freeblock s]\<rparr>" and "t \<equiv> s\<lparr>freeblock := freeblock s + 1\<rparr>"
  shows "iappend_addr k din s = Ok din' t" "grew i s f t (f(i := of_din din'))"
    "\<And>n. n \<le> MAXFILE \<Longrightarrow> fref (view t) (of_din din') n = (if n = (if k = NDIRECT then MAXFILE else k) then freeblock s else fref (view s) (f i) n)"
proof -
  note nb = next_block_ok [OF ok(1) fr]
  show "iappend_addr k din s = Ok din' t" using i(4) nb(1) by (simp add: iappend_addr_def kcode din'_def t_def)
  have a: "i_addrs (f i) ! k = 0" "length (i_addrs (f i)) = Suc NDIRECT" using i(3-5) by simp_all
  have w: "(f i)\<lparr>i_addrs := (i_addrs (f i))[k := freeblock s]\<rparr> = of_din din'" using i(3) by (simp add: din'_def)
  note ra = refs_addr [OF ok(2) i(1,2) a refl img_okD(4) [OF ok(1)] nb(4), unfolded w]
  show "grew i s f t (f(i := of_din din'))" unfolding grew_def t_def using ra(2,3) nb(2,3) by simp
  show "\<And>n. n \<le> MAXFILE \<Longrightarrow> fref (view t) (of_din din') n = (if n = (if k = NDIRECT then MAXFILE else k) then freeblock s else fref (view s) (f i) n)"
    using ra(1) by (simp add: t_def)
qed

lemma entry_ok:
  assumes ok: "img_ok s" "refs_ok (view s) (unat (freeblock s)) f" and i: "i < NINODES" "NDIRECT \<le> k" "k < MAXFILE"
    "fref (view s) (f i) MAXFILE = ib" "ib \<noteq> 0" "fref (view s) (f i) k = 0" and fr: "unat (freeblock s) < FSSIZE"
  defines "e \<equiv> 4 * (k - NDIRECT)"
  defines "d \<equiv> put32 e (freeblock s) (view s (unat ib))"
  defines "t \<equiv> s\<lparr>freeblock := freeblock s + 1, img := (img s)[unat ib := d]\<rparr>"
  shows "rsect ib s = Ok (view s (unat ib)) s" "wsect ib d (s\<lparr>freeblock := freeblock s + 1\<rparr>) = Ok () t" "grew i s f t f"
    "\<And>n. n \<le> MAXFILE \<Longrightarrow> fref (view t) (f i) n = (if n = k then freeblock s else fref (view s) (f i) n)"
    "get32 (view s (unat ib)) e = 0" "get32 d e = freeblock s"
proof -
  note nb = next_block_ok [OF ok(1) fr]
  have b: "NMETA \<le> unat ib" "unat ib < unat (freeblock s)" using refs_okD(1,2) [OF ok(2) i(1), of MAXFILE] i(4,5) by simp_all
  have b2: "unat ib < FSSIZE" using b(2) fr by simp
  have l: "length (view s (unat ib)) = BSIZE" using img_okD(2) [OF ok(1) b2] .
  have le: "e + 4 \<le> BSIZE" using i(2,3) by (simp add: e_def)
  show "rsect ib s = Ok (view s (unat ib)) s" using rsect_ok [OF b2] img_okD(1) [OF ok(1)] by (simp add: view_def)
  show "wsect ib d (s\<lparr>freeblock := freeblock s + 1\<rparr>) = Ok () t" using wsect_ok [OF b2] img_okD(1) [OF ok(1)] by (simp add: t_def)
  have ad: "i_addrs (f i) ! NDIRECT = ib" using i(4) by (simp add: fref_def)
  then show "get32 (view s (unat ib)) e = 0" using i(2,3,5,6) by (auto simp: fref_def fblk_def e_def)
  show "get32 d e = freeblock s" using get32_put32_same [of e "view s (unat ib)"] le l by (simp add: d_def)
  note re = refs_entry [OF ok(2) i l refl img_okD(4) [OF ok(1)] nb(4), folded e_def, folded d_def]
  have ld: "length d = BSIZE" using le l by (simp add: d_def)
  have w: "img_ok t" "view t = (view s)(unat ib := d)"
    using img_ok_write [OF nb(2) b(1) _ ld] b(2) nb(3) by (simp_all add: t_def)
  then show "grew i s f t f" unfolding grew_def using re(2-4) nb(3) b(1) by (simp add: t_def)
  show "\<And>n. n \<le> MAXFILE \<Longrightarrow> fref (view t) (f i) n = (if n = k then freeblock s else fref (view s) (f i) n)" unfolding w(2) by (rule re(1))
qed

lemma exact_others:
  assumes "grew i s f t f'" "\<forall>j < NINODES. exact (view s) (f j) (c j)" "exact (view t) (f' i) n"
  shows "\<forall>j < NINODES. exact (view t) (f' j) ((c(i := n)) j)"
  using assms by (auto simp: grew_def exact_def)

lemma exact_din:
  assumes "exact v (of_din din) c"
  shows "length (d_addrs din) = Suc NDIRECT" "m < MAXFILE \<Longrightarrow> fref v (of_din din) m \<noteq> 0 \<longleftrightarrow> m < c" "d_addrs din ! NDIRECT \<noteq> 0 \<longleftrightarrow> NDIRECT < c"
  using assms by (auto simp: exact_def fref_def)

text \<open>A block that the file has already.\<close>

lemma block_old:
  assumes ok: "img_ok s" "refs_ok (view s) (unat (freeblock s)) f" and i: "i < NINODES" "f i = of_din din"
    and ex: "exact (view s) (of_din din) c" and n: "n < c" "n < MAXFILE"
  shows "iappend_block n din s = Ok (fref (view s) (of_din din) n, din) s"
proof (cases "n < NDIRECT")
  case True
  then show ?thesis using exact_din(2) [OF ex n(2)] n(1) by (auto simp: iappend_block_def iappend_addr_def kcode fref_def fblk_def)
next
  case False
  have ib: "d_addrs din ! NDIRECT \<noteq> 0" using exact_din(3) [OF ex] False n(1) by simp
  have "unat (d_addrs din ! NDIRECT) < unat (freeblock s)" using refs_okD(2) [OF ok(2) i(1), of MAXFILE] ib i(2) by (simp add: fref_def)
  then have "rsect (d_addrs din ! NDIRECT) s = Ok (view s (unat (d_addrs din ! NDIRECT))) s"
    using rsect_ok [of "d_addrs din ! NDIRECT" s] img_okD(1,5) [OF ok(1)] by (simp add: view_def)
  then show ?thesis using exact_din(2) [OF ex n(2)] False ib n by (auto simp: iappend_block_def iappend_addr_def kcode fref_def fblk_def Let_def)
qed

text \<open>The indirect block, allocated with the first block that needs it.\<close>

lemma indirect_ok:
  assumes ok: "img_ok s" "refs_ok (view s) (unat (freeblock s)) f" and i: "i < NINODES" "f i = of_din din"
    and ex: "exact (view s) (of_din din) n" and n: "NDIRECT \<le> n" and fr: "n = NDIRECT \<Longrightarrow> unat (freeblock s) < FSSIZE"
  obtains d1 s1 where "iappend_addr NDIRECT din s = Ok d1 s1" "grew i s f s1 (f(i := of_din d1))" "d_addrs d1 ! NDIRECT \<noteq> 0"
    "\<And>m. m < MAXFILE \<Longrightarrow> fref (view s1) (of_din d1) m = fref (view s) (of_din din) m" "length (d_addrs d1) = Suc NDIRECT"
    "unat (freeblock s1) = unat (freeblock s) + (if n = NDIRECT then 1 else 0)" "d1 = din\<lparr>d_addrs := d_addrs d1\<rparr>"
proof (cases "n = NDIRECT")
  case True
  have la: "length (d_addrs din) = Suc NDIRECT" using exact_din(1) [OF ex] .
  have d: "d_addrs din ! NDIRECT = 0" using exact_din(3) [OF ex] True by simp
  have "freeblock s \<noteq> 0" using img_okD(4) [OF ok(1)] by auto
  note a = addr_ok [OF ok i(1) order_refl i(2) d la fr [OF True]] this
  show ?thesis
    by (rule that [OF a(1,2)]) (use a(3,4) la True i(2) next_block_ok(3) [OF ok(1) fr [OF True]] in simp_all)
next
  case False
  have "f(i := of_din din) = f" using i(2) by auto
  then have "grew i s f s (f(i := of_din din))" using ok by (auto simp: grew_def same_conts_def)
  moreover have "d_addrs din ! NDIRECT \<noteq> 0" using exact_din(3) [OF ex] False n by simp
  ultimately show ?thesis using that [of din s] exact_din(1) [OF ex] False by (simp add: iappend_addr_def kcode)
qed

text \<open>The block behind the last one.\<close>

lemma block_new:
  assumes ok: "img_ok s" "refs_ok (view s) (unat (freeblock s)) f" and i: "i < NINODES" "f i = of_din din"
    and ex: "exact (view s) (of_din din) n" and n: "n < MAXFILE" and fr: "unat (freeblock s) + (nrefs (Suc n) - nrefs n) \<le> FSSIZE"
  shows "\<exists>x din' t. iappend_block n din s = Ok (x, din') t \<and> x \<noteq> 0 \<and> fref (view t) (of_din din') n = x
    \<and> grew i s f t (f(i := of_din din')) \<and> exact (view t) (of_din din') (Suc n)
    \<and> unat (freeblock t) = unat (freeblock s) + (nrefs (Suc n) - nrefs n) \<and> din' = din\<lparr>d_addrs := d_addrs din'\<rparr>"
proof (cases "n < NDIRECT")
  case True
  note e = exact_din [OF ex]
  have fz: "freeblock s \<noteq> 0" using img_okD(4) [OF ok(1)] by auto
  have d: "d_addrs din ! n = 0" using e(2) [OF n] True by (simp add: fref_def fblk_def)
  have nr: "nrefs (Suc n) - nrefs n = 1" using True by (simp add: nrefs_def)
  then have f1: "unat (freeblock s) < FSSIZE" using fr by simp
  note a = addr_ok [OF ok i(1) _ i(2) d e(1) f1]
  let ?d = "din\<lparr>d_addrs := (d_addrs din)[n := freeblock s]\<rparr>" and ?t = "s\<lparr>freeblock := freeblock s + 1\<rparr>"
  have "exact (view ?t) (of_din ?d) (Suc n)"
    using a(3) True e i(2) fz unfolding exact_def by (auto simp: fref_def [of _ _ MAXFILE])
  moreover have "iappend_block n din s = Ok (freeblock s, ?d) ?t" using a(1) True e(1) by (simp add: iappend_block_def kcode)
  ultimately show ?thesis
    using a(2,3) True fz nr next_block_ok(3) [OF ok(1) f1] n
    by (intro exI [of _ "freeblock s"] exI [of _ ?d] exI [of _ ?t]) simp
next
  case False
  then have k: "NDIRECT \<le> n" by simp
  have nr: "nrefs (Suc n) - nrefs n = (if n = NDIRECT then 2 else 1)" using k by (simp add: nrefs_def)
  obtain d1 s1 where 1: "iappend_addr NDIRECT din s = Ok d1 s1" "grew i s f s1 (f(i := of_din d1))" "d_addrs d1 ! NDIRECT \<noteq> 0"
    "\<And>m. m < MAXFILE \<Longrightarrow> fref (view s1) (of_din d1) m = fref (view s) (of_din din) m" "length (d_addrs d1) = Suc NDIRECT"
    "unat (freeblock s1) = unat (freeblock s) + (if n = NDIRECT then 1 else 0)" "d1 = din\<lparr>d_addrs := d_addrs d1\<rparr>"
    by (rule indirect_ok [OF ok i ex k]) (use fr nr in auto)
  let ?f = "f(i := of_din d1)" and ?ib = "d_addrs d1 ! NDIRECT" and ?e = "4 * (n - NDIRECT)"
  have ok1: "img_ok s1" "refs_ok (view s1) (unat (freeblock s1)) ?f" using 1(2) by (simp_all add: grew_def)
  have f1: "unat (freeblock s1) < FSSIZE" using fr nr 1(6) by (auto split: if_splits)
  have z: "fref (view s1) (?f i) n = 0" using 1(4) [OF n] exact_din(2) [OF ex n] by simp
  have M: "fref (view s1) (?f i) MAXFILE = ?ib" by (simp add: fref_def)
  note b = entry_ok [OF ok1 i(1) k n M 1(3) z f1]
  let ?d = "put32 ?e (freeblock s1) (view s1 (unat ?ib))"
  let ?t = "s1\<lparr>freeblock := freeblock s1 + 1, img := (img s1)[unat ?ib := ?d]\<rparr>"
  have f0: "freeblock s1 \<noteq> 0" using img_okD(4) [OF ok1(1)] by auto
  have "iappend_block n din s = Ok (freeblock s1, d1) ?t"
    using False 1(1) b(1,2,5,6) next_block_ok(1) [OF ok1(1) f1] by (simp add: iappend_block_def kcode Let_def)
  moreover have "exact (view ?t) (of_din d1) (Suc n)"
    using b(4) 1(3-5) exact_din(2) [OF ex] f0 k n unfolding exact_def by (auto simp: fref_def [of _ _ MAXFILE])
  moreover have "grew i s f ?t ?f" by (rule grew_trans [OF 1(2) b(3)])
  ultimately show ?thesis
    using b(4) [of n] n f0 nr 1(6,7) next_block_ok(3) [OF ok1(1) f1]
    by (intro exI [of _ "freeblock s1"] exI [of _ d1] exI [of _ ?t]) simp
qed

text \<open>The block of a file that iappend() writes next: its last one, or a new one.\<close>

lemma block_ok:
  assumes inv: "mk_inv s f c" and i: "i < NINODES" "f i = of_din din" and n: "n \<le> c i" "n < MAXFILE"
    and fr: "unat (freeblock s) + (nrefs (max (c i) (Suc n)) - nrefs (c i)) \<le> FSSIZE"
  shows "\<exists>x din' t. iappend_block n din s = Ok (x, din') t \<and> x \<noteq> 0 \<and> fref (view t) (of_din din') n = x
    \<and> grew i s f t (f(i := of_din din')) \<and> exact (view t) (of_din din') (max (c i) (Suc n))
    \<and> unat (freeblock t) = unat (freeblock s) + (nrefs (max (c i) (Suc n)) - nrefs (c i)) \<and> din' = din\<lparr>d_addrs := d_addrs din'\<rparr>"
proof -
  have ok: "img_ok s" "refs_ok (view s) (unat (freeblock s)) f" and ex: "exact (view s) (of_din din) (c i)" using inv i by (auto simp: mk_inv_def)
  show ?thesis
  proof (cases "n < c i")
    case True
    have "f(i := of_din din) = f" using i(2) by auto
    then have "grew i s f s (f(i := of_din din))" using ok by (auto simp: grew_def same_conts_def)
    moreover have "max (c i) (Suc n) = c i" using True by simp
    ultimately show ?thesis using block_old [OF ok i ex True n(2)] exact_din(2) [OF ex n(2)] True ex by auto
  next
    case False
    then have "c i = n" "max (c i) (Suc n) = Suc n" using n by simp_all
    then show ?thesis using block_new [OF ok i _ n(2)] ex fr by simp
  qed
qed

section \<open>iappend()\<close>

text \<open>The number of blocks of a file of \<open>n\<close> bytes.\<close>

definition nblk :: "nat \<Rightarrow> nat" where
  "nblk n = (n + 511) div BSIZE"

lemma nblk_mono: "m \<le> n \<Longrightarrow> nblk m \<le> nblk n" by (simp add: nblk_def div_le_mono)

lemma nrefs_mono: "m \<le> n \<Longrightarrow> nrefs m \<le> nrefs n" by (simp add: nrefs_def)

lemma nblk_le: "nblk n \<le> k \<longleftrightarrow> n \<le> k * BSIZE"
proof -
  have "nblk n < Suc k \<longleftrightarrow> n + 511 < Suc k * 512" unfolding nblk_def by (rule div_less_iff_less_mult) simp
  then show ?thesis by auto
qed

text \<open>
  \<open>wrote_at i off p s f t f'\<close>: the bytes \<open>p\<close> are in file \<open>i\<close> at offset \<open>off\<close>; all
  other bytes of all files are the same.
\<close>

definition wrote_at :: "nat \<Rightarrow> nat \<Rightarrow> bytes \<Rightarrow> mkst \<Rightarrow> (nat \<Rightarrow> inode) \<Rightarrow> mkst \<Rightarrow> (nat \<Rightarrow> inode) \<Rightarrow> bool" where
  "wrote_at i off p s f t f' \<longleftrightarrow> (\<forall>j < NINODES. \<forall>k < MAXFILE * BSIZE. fbyte (view t) (f' j) k
       = (if j = i \<and> off \<le> k \<and> k < off + length p then p ! (k - off) else fbyte (view s) (f j) k))
     \<and> (\<forall>b < NMETA. view t b = view s b) \<and> freeinode t = freeinode s"

lemma wrote_at_trans:
  assumes "wrote_at i off (take n p) s f t f'" "wrote_at i (off + n) (drop n p) t f' u f''" "n \<le> length p"
  shows "wrote_at i off p s f u f''"
  using assms unfolding wrote_at_def by (auto simp: nth_append min_def)

text \<open>One turn of the loop: the block, and the bytes that fit into it.\<close>

lemma append_turn:
  assumes inv: "mk_inv s f c" and i: "i < NINODES" "f i = of_din din" "c i = nblk off" and p: "p \<noteq> []" "off + length p \<le> MAXFILE * BSIZE"
  defines "fbn \<equiv> off div BSIZE" 
  defines "n1 \<equiv> min (length p) ((fbn + 1) * BSIZE - off)"
  assumes fr: "unat (freeblock s) + (nrefs (nblk (off + n1)) - nrefs (nblk off)) \<le> FSSIZE"
  shows "\<exists>din' t. iappend_loop din off p s = iappend_loop din' (off + n1) (drop n1 p) t \<and> din' = din\<lparr>d_addrs := d_addrs din'\<rparr>
    \<and> mk_inv t (f(i := of_din din')) (c(i := nblk (off + n1))) \<and> wrote_at i off (take n1 p) s f t (f(i := of_din din'))
    \<and> unat (freeblock t) = unat (freeblock s) + (nrefs (nblk (off + n1)) - nrefs (nblk off))"
proof -
  have o: "fbn * BSIZE \<le> off" "off < (fbn + 1) * BSIZE" by (simp_all add: fbn_def dividend_less_div_times)
  have n1: "0 < n1" "n1 \<le> length p" "off + n1 \<le> (fbn + 1) * BSIZE" using p(1) o by (auto simp: n1_def)
  have "fbn * BSIZE < MAXFILE * BSIZE" using o(1) p by (cases p) auto
  then have bl: "fbn < MAXFILE" by simp
  have nb: "fbn \<le> nblk off" "nblk off \<le> Suc fbn" "nblk (off + n1) = Suc fbn"
  proof -
    show "fbn \<le> nblk off" unfolding fbn_def nblk_def by (rule div_le_mono) simp
    show "nblk off \<le> Suc fbn" using o(2) by (simp add: nblk_le)
    have "\<not> nblk (off + n1) \<le> fbn" using o(1) n1(1) by (simp add: nblk_le)
    moreover have "nblk (off + n1) \<le> Suc fbn" using n1(3) by (simp add: nblk_le)
    ultimately show "nblk (off + n1) = Suc fbn" by simp
  qed
  then have mx: "max (c i) (Suc fbn) = nblk (off + n1)" using i(3) by simp
  obtain x din' t where b: "iappend_block fbn din s = Ok (x, din') t" "x \<noteq> 0" "fref (view t) (of_din din') fbn = x"
    "grew i s f t (f(i := of_din din'))" "exact (view t) (of_din din') (nblk (off + n1))"
    "unat (freeblock t) = unat (freeblock s) + (nrefs (nblk (off + n1)) - nrefs (nblk off))" "din' = din\<lparr>d_addrs := d_addrs din'\<rparr>"
    using block_ok [OF inv i(1,2) _ bl] nb(1) i(3) fr unfolding mx by auto
  let ?f = "f(i := of_din din')"
  have ok: "img_ok t" "refs_ok (view t) (unat (freeblock t)) ?f" using b(4) by (simp_all add: grew_def)
  have xr: "fref (view t) (?f i) fbn = x" using b(3) by simp
  have xb: "NMETA \<le> unat x" "unat x < unat (freeblock t)" using refs_okD(1,2) [OF ok(2) i(1), of fbn] xr b(2) bl by simp_all
  have xf: "unat x < FSSIZE" using xb(2) img_okD(5) [OF ok(1)] by simp
  let ?d = "patch (off - fbn * BSIZE) (take n1 p) (view t (unat x))"
  have ld: "length (view t (unat x)) = BSIZE" using img_okD(2) [OF ok(1) xf] .
  have off: "off - fbn * BSIZE + n1 \<le> BSIZE" using n1(3) o(1) by simp
  have l: "length ?d = BSIZE" using ld off n1(2) by (simp add: min_def)
  let ?u = "t\<lparr>img := (img t)[unat x := ?d]\<rparr>"
  have run: "iappend_loop din off p s = iappend_loop din' (off + n1) (drop n1 p) ?u"
    using p(1) bl b(1) rsect_ok [OF xf img_okD(1) [OF ok(1)]] wsect_ok [OF xf img_okD(1) [OF ok(1)]]
    unfolding n1_def by (subst iappend_loop.simps) (simp add: kcode Let_def fbn_def view_def)
  note w = img_ok_write [OF ok(1) xb l]
  note rw = refs_write [OF ok(2) i(1) bl, where d = ?d, unfolded xr, OF b(2), folded w(2)]
  have ex: "\<forall>j < NINODES. exact (view t) (?f j) ((c(i := nblk (off + n1))) j)"
    using exact_others [OF b(4)] b(5) inv by (simp add: mk_inv_def)
  then have "\<forall>j < NINODES. exact (view ?u) (?f j) ((c(i := nblk (off + n1))) j)" using rw(1) unfolding exact_def by simp
  then have inv': "mk_inv ?u ?f (c(i := nblk (off + n1)))" using w(1) rw(2) by (simp add: mk_inv_def)
  have om: "off - fbn * BSIZE = off mod BSIZE" by (simp add: fbn_def minus_div_mult_eq_mod)
  have sc: "fcont (view t) (?f j) m = fcont (view s) (f j) m" if "j < NINODES" "m < MAXFILE" for j m
    using b(4) that by (simp add: grew_def same_conts_def)
  have fc: "fcont (view ?u) (?f i) m = (if m = fbn then patch (off mod BSIZE) (take n1 p) (view t (unat x)) else fcont (view s) (f i) m)"
    if "m < MAXFILE" for m using rw(3) [OF i(1) that] sc [OF i(1) that] om by simp
  have dv: "fcont (view s) (f i) fbn = view t (unat x)" using sc [OF i(1) bl] fcont_fref [OF bl] xr b(2) by simp
  have lt: "length (take n1 p) \<le> BSIZE - off mod BSIZE" using off om n1(2) by simp
  have "fbyte (view ?u) (?f j) k = (if j = i \<and> off \<le> k \<and> k < off + length (take n1 p) then take n1 p ! (k - off) else fbyte (view s) (f j) k)"
    if j: "j < NINODES" "k < MAXFILE * BSIZE" for j k
  proof (cases "j = i")
    case True
    then show ?thesis using fbyte_patch [OF ld lt fbn_def [THEN meta_eq_to_obj_eq] fc dv j(2)] by simp
  next
    case False
    have "k div BSIZE < MAXFILE" using j(2) by (simp add: div_less_iff_less_mult)
    then show ?thesis using False rw(3) [OF j(1)] sc [OF j(1)] by (simp add: fbyte_def)
  qed
  then have "wrote_at i off (take n1 p) s f ?u ?f" using b(4) xb(1) w(2) by (auto simp: wrote_at_def grew_def)
  then show ?thesis using run inv' b(6,7) by (intro exI [of _ din'] exI [of _ ?u]) simp
qed

text \<open>The loop puts all bytes behind the end of the file.\<close>

lemma append_loop:
  assumes "mk_inv s f c" "i < NINODES" "f i = of_din din" "c i = nblk off" "off + length p \<le> MAXFILE * BSIZE"
    "unat (freeblock s) + (nrefs (nblk (off + length p)) - nrefs (nblk off)) \<le> FSSIZE"
  shows "\<exists>din' t. iappend_loop din off p s = Ok (din', off + length p) t \<and> din' = din\<lparr>d_addrs := d_addrs din'\<rparr>
    \<and> mk_inv t (f(i := of_din din')) (c(i := nblk (off + length p))) \<and> wrote_at i off p s f t (f(i := of_din din'))
    \<and> unat (freeblock t) = unat (freeblock s) + (nrefs (nblk (off + length p)) - nrefs (nblk off))"
  using assms
proof (induction p arbitrary: s f c din off rule: length_induct)
  case (1 p)
  note inv = "1.prems"(1) and i = "1.prems"(2,3,4) and le = "1.prems"(5) and fr = "1.prems"(6)
  show ?case
  proof (cases "p = []")
    case True
    have "f(i := of_din din) = f" "c(i := nblk off) = c" using i by auto
    then show ?thesis using True inv i(2) by (subst iappend_loop.simps) (auto simp: kcode wrote_at_def)
  next
    case False
    define n where "n = min (length p) ((off div BSIZE + 1) * BSIZE - off)"
    have "off < (off div BSIZE + 1) * BSIZE" by (simp add: dividend_less_div_times)
    then have n: "0 < n" "n \<le> length p" using False by (simp_all add: n_def)
    have m1: "nrefs (nblk off) \<le> nrefs (nblk (off + n))" by (intro nrefs_mono nblk_mono) simp
    have m2: "nrefs (nblk (off + n)) \<le> nrefs (nblk (off + length p))" using n(2) by (intro nrefs_mono nblk_mono) simp
    have fr1: "unat (freeblock s) + (nrefs (nblk (off + n)) - nrefs (nblk off)) \<le> FSSIZE" using fr m1 m2 by simp
    obtain d1 t where t: "iappend_loop din off p s = iappend_loop d1 (off + n) (drop n p) t" "d1 = din\<lparr>d_addrs := d_addrs d1\<rparr>"
      "mk_inv t (f(i := of_din d1)) (c(i := nblk (off + n)))" "wrote_at i off (take n p) s f t (f(i := of_din d1))"
      "unat (freeblock t) = unat (freeblock s) + (nrefs (nblk (off + n)) - nrefs (nblk off))"
      using append_turn [OF inv i False le, folded n_def, OF fr1] by blast
    have l: "length (drop n p) < length p" using n by simp
    have e: "off + n + length (drop n p) = off + length p" using n(2) by simp
    have fr2: "unat (freeblock t) + (nrefs (nblk (off + length p)) - nrefs (nblk (off + n))) \<le> FSSIZE" using fr t(5) m1 m2 by simp
    obtain d2 u where u: "iappend_loop d1 (off + n) (drop n p) t = Ok (d2, off + length p) u" "d2 = d1\<lparr>d_addrs := d_addrs d2\<rparr>"
      "mk_inv u (f(i := of_din d2)) (c(i := nblk (off + length p)))" "wrote_at i (off + n) (drop n p) t (f(i := of_din d1)) u (f(i := of_din d2))"
      "unat (freeblock u) = unat (freeblock t) + (nrefs (nblk (off + length p)) - nrefs (nblk (off + n)))"
      using "1.IH" [rule_format, OF l t(3) i(1), of d1 "off + n"] e le fr2 by auto
    have "d2 = din\<lparr>d_addrs := d_addrs d2\<rparr>" by (subst u(2), subst t(2)) simp
    moreover have "unat (freeblock u) = unat (freeblock s) + (nrefs (nblk (off + length p)) - nrefs (nblk off))"
      using t(5) u(5) m1 m2 by simp
    moreover have "iappend_loop din off p s = Ok (d2, off + length p) u" using t(1) u(1) by simp
    ultimately show ?thesis using u(3) wrote_at_trans [OF t(4) u(4) n(2)] by blast
  qed
qed

section \<open>The inodes on the image\<close>

text \<open>The inode \<open>i\<close> on the image, as rinode() reads it, and the file it describes.\<close>

definition mk_dinode :: "mkst \<Rightarrow> nat \<Rightarrow> dinode" where
  "mk_dinode s i = get_dinode (view s (32 + i div IPB)) (i mod IPB * 64)"

abbreviation (input) mk_inode :: "mkst \<Rightarrow> nat \<Rightarrow> inode" where
  "mk_inode s i \<equiv> of_din (mk_dinode s i)"

definition mk_fdata :: "mkst \<Rightarrow> nat \<Rightarrow> bytes" where
  "mk_fdata s i = fdata (view s) (mk_inode s i)"

abbreviation (input) mk_size :: "mkst \<Rightarrow> nat \<Rightarrow> nat" where
  "mk_size s i \<equiv> unat (d_size (mk_dinode s i))"

text \<open>
  The invariant of mkfs: every inode describes a file with just the blocks
  that its size needs and zeros behind its end, the blocks from \<open>NMETA\<close> up to
  \<open>freeblock\<close> belong to one file each, and the inodes from \<open>freeinode\<close> on are zero.
\<close>

definition mkfs_ok :: "mkst \<Rightarrow> bool" where
  "mkfs_ok s \<longleftrightarrow> mk_inv s (mk_inode s) (\<lambda>i. nblk (mk_size s i))
     \<and> (\<forall>i < NINODES. mk_size s i \<le> MAXFILE * BSIZE \<and> (\<forall>k < MAXFILE * BSIZE. mk_size s i \<le> k \<longrightarrow> fbyte (view s) (mk_inode s i) k = 0))
     \<and> (\<forall>i < NINODES. unat (freeinode s) \<le> i \<longrightarrow> mk_dinode s i = zero_dinode)"

lemma inode_sector:
  assumes "unat inum < NINODES" "mk_sb s = mkfs_super"
  shows "unat (IBLOCK inum (mk_sb s)) = 32 + unat inum div IPB" "unat (IBLOCK inum (mk_sb s)) < NMETA - 1"
proof -
  have "unat inum div 8 < 25" using assms(1) by (simp add: div_less_iff_less_mult)
  then show "unat (IBLOCK inum (mk_sb s)) = 32 + unat inum div IPB" "unat (IBLOCK inum (mk_sb s)) < NMETA - 1"
    using assms(2) by (simp_all add: IBLOCK_def unat_word_ariths unat_div)
qed

lemma rinode_ok:
  assumes "img_ok s" "unat inum < NINODES"
  shows "rinode inum s = Ok (mk_dinode s (unat inum)) s"
proof -
  note b = inode_sector [OF assms(2) img_okD(3) [OF assms(1)]]
  have "rsect (IBLOCK inum (mk_sb s)) s = Ok (view s (32 + unat inum div IPB)) s"
    using rsect_ok [of "IBLOCK inum (mk_sb s)" s] b img_okD(1) [OF assms(1)] by (simp add: view_def)
  then show ?thesis by (simp add: rinode_def kcode mk_dinode_def dioff_def)
qed

text \<open>winode() writes one inode and changes no file contents.\<close>

lemma winode_ok:
  assumes ok: "img_ok s" and i: "unat inum < NINODES" and la: "length (d_addrs d) = Suc NDIRECT"
  shows "\<exists>t. winode inum d s = Ok () t \<and> img_ok t \<and> freeblock t = freeblock s \<and> freeinode t = freeinode s
    \<and> (\<forall>j < NINODES. mk_dinode t j = (if j = unat inum then d else mk_dinode s j))
    \<and> (\<forall>b. b < 32 \<or> NMETA - 1 \<le> b \<longrightarrow> view t b = view s b)"
proof -
  let ?i = "unat inum"
  let ?b = "32 + ?i div IPB"
  let ?d = "patch (?i mod IPB * 64) (dinode_bytes d) (view s ?b)" and ?s = "IBLOCK inum (mk_sb s)"
  let ?t = "s\<lparr>img := (img s)[?b := ?d]\<rparr>"
  note b = inode_sector [OF i img_okD(3) [OF ok]]
  have l: "length (img s) = FSSIZE" "length (view s ?b) = BSIZE" using img_okD(1,2) [OF ok] b by simp_all
  have m: "?i mod IPB < IPB" by simp
  have ld: "length ?d = BSIZE" using l(2) m length_dinode_bytes [OF la] by simp
  have "rsect ?s s = Ok (view s ?b) s" "wsect ?s ?d s = Ok () ?t"
    using rsect_ok [of ?s s] wsect_ok [of ?s s ?d] b l by (simp_all add: view_def)
  then have run: "winode inum d s = Ok () ?t" by (simp add: winode_def kcode dioff_def)
  have v: "view ?t = (view s)(?b := ?d)" using view_upd [of ?b s ?d] b l(1) by simp
  have ok': "img_ok ?t" using ok b ld l(1) unfolding img_ok_def v by auto
  have "mk_dinode ?t j = (if j = ?i then d else mk_dinode s j)" if j: "j < NINODES" for j
  proof (cases "j div IPB = ?i div IPB")
    case True
    have "j = ?i \<longleftrightarrow> j mod IPB = ?i mod IPB" using True by (metis div_mult_mod_eq)
    then show ?thesis
      using True get_dinode_patch [OF la, of "?i mod IPB * 64" "view s ?b"] get_dinode_patch_other [OF la l(2) m, of "j mod IPB"] m l(2)
      by (auto simp: mk_dinode_def v)
  next
    case False
    then show ?thesis by (auto simp: mk_dinode_def v)
  qed
  then show ?thesis using run ok' b v by (intro exI [of _ ?t]) auto
qed

text \<open>A change of the meta data only, and of inodes only outside of their addresses.\<close>

lemma fref_same:
  assumes ok: "refs_ok v fb f" and j: "j < NINODES" and a: "i_addrs w = i_addrs (f j)" and v: "\<And>b. NMETA \<le> b \<Longrightarrow> v' b = v b"
  shows "fref v' w n = fref v (f j) n" "k < MAXFILE * BSIZE \<Longrightarrow> fbyte v' w k = fbyte v (f j) k"
proof -
  have ib: "v' (unat (i_addrs (f j) ! NDIRECT)) = v (unat (i_addrs (f j) ! NDIRECT))" if "i_addrs (f j) ! NDIRECT \<noteq> 0"
    using refs_okD(1) [OF ok j, of MAXFILE] that by (simp add: fref_def v)
  have b: "fblk v' w n = fblk v (f j) n" for n using ib a by (auto simp: fblk_def)
  then show fr: "fref v' w n = fref v (f j) n" for n using a by (simp add: fref_def)
  assume "k < MAXFILE * BSIZE"
  then have m: "k div BSIZE < MAXFILE" by (simp add: div_less_iff_less_mult)
  have "fcont v' w (k div BSIZE) = fcont v (f j) (k div BSIZE)"
    using refs_okD(1) [OF ok j, of "k div BSIZE"] m fr v by (simp add: fcont_fref)
  then show "fbyte v' w k = fbyte v (f j) k" by (simp add: fbyte_def)
qed

lemma mk_inv_meta:
  assumes inv: "mk_inv s f c" and t: "img_ok t" "freeblock t = freeblock s" "\<forall>b \<ge> NMETA. view t b = view s b"
    and a: "\<forall>j < NINODES. i_addrs (f' j) = i_addrs (f j) \<and> c' j = c j"
  shows "mk_inv t f' c'" "j < NINODES \<Longrightarrow> k < MAXFILE * BSIZE \<Longrightarrow> fbyte (view t) (f' j) k = fbyte (view s) (f j) k"
proof -
  have ok: "refs_ok (view s) (unat (freeblock s)) f" using inv by (simp add: mk_inv_def)
  have ad: "i_addrs (f' j) = i_addrs (f j)" "c' j = c j" if "j < NINODES" for j using a that by simp_all
  note fs = fref_same [OF ok _ ad(1) t(3) [rule_format]]
  have "exact (view t) (f' j) (c' j)" if "j < NINODES" for j
    using inv that ad [OF that] fs(1) [OF that that] unfolding mk_inv_def exact_def by simp
  moreover have "refs_ok (view t) (unat (freeblock t)) f'" using ok fs(1) refs_ok_cong [of "view t" f' "view s" f] t(2) by simp
  ultimately show "mk_inv t f' c'" using t(1) by (simp add: mk_inv_def)
  show "j < NINODES \<Longrightarrow> k < MAXFILE * BSIZE \<Longrightarrow> fbyte (view t) (f' j) k = fbyte (view s) (f j) k" using fs(2) by blast
qed

text \<open>The effect of iappend(): the file has more bytes at its end, and nothing else changes.\<close>

definition appended :: "nat \<Rightarrow> bytes \<Rightarrow> mkst \<Rightarrow> mkst \<Rightarrow> bool" where
  "appended i p s t \<longleftrightarrow> mkfs_ok t \<and> freeinode t = freeinode s \<and> (\<forall>b < 32. view t b = view s b)
     \<and> (\<forall>j < NINODES. mk_fdata t j = (if j = i then mk_fdata s j @ p else mk_fdata s j)
          \<and> d_type (mk_dinode t j) = d_type (mk_dinode s j) \<and> d_nlink (mk_dinode t j) = d_nlink (mk_dinode s j))"

lemma length_mk_fdata [simp]: "length (mk_fdata s i) = mk_size s i"
  by (simp add: mk_fdata_def fdata_def)

lemma mk_fdata_nth: "k < mk_size s i \<Longrightarrow> mk_fdata s i ! k = fbyte (view s) (mk_inode s i) k"
  by (simp add: mk_fdata_def fdata_def)

lemma mkfs_okD:
  assumes "mkfs_ok s"
  shows "mk_inv s (mk_inode s) (\<lambda>i. nblk (mk_size s i))" "img_ok s" "i < NINODES \<Longrightarrow> mk_size s i \<le> MAXFILE * BSIZE"
    "i < NINODES \<Longrightarrow> k < MAXFILE * BSIZE \<Longrightarrow> mk_size s i \<le> k \<Longrightarrow> fbyte (view s) (mk_inode s i) k = 0"
    "i < NINODES \<Longrightarrow> unat (freeinode s) \<le> i \<Longrightarrow> mk_dinode s i = zero_dinode"
  using assms by (simp_all add: mkfs_ok_def mk_inv_def)

lemma appended_intro:
  assumes ok: "mkfs_ok s" and i: "i < unat (freeinode s)" "i < NINODES" and le: "mk_size s i + length p \<le> MAXFILE * BSIZE"
    and t: "mk_inv t (mk_inode t) (\<lambda>j. nblk (mk_size t j))" "freeinode t = freeinode s" "\<And>b. b < 32 \<Longrightarrow> view t b = view s b"
    and d: "\<And>j. j < NINODES \<Longrightarrow> j \<noteq> i \<Longrightarrow> mk_dinode t j = mk_dinode s j"
      "d_type (mk_dinode t i) = d_type (mk_dinode s i)" "d_nlink (mk_dinode t i) = d_nlink (mk_dinode s i)" "mk_size t i = mk_size s i + length p"
    and w: "\<And>j k. j < NINODES \<Longrightarrow> k < MAXFILE * BSIZE \<Longrightarrow> fbyte (view t) (mk_inode t j) k
      = (if j = i \<and> mk_size s i \<le> k \<and> k < mk_size s i + length p then p ! (k - mk_size s i) else fbyte (view s) (mk_inode s j) k)"
  shows "appended i p s t"
proof -
  note okD = mkfs_okD [OF ok]
  have sz: "mk_size t j = (if j = i then mk_size s i + length p else mk_size s j)" if "j < NINODES" for j using d(1) [OF that] d(4) by simp
  have "mkfs_ok t"
    unfolding mkfs_ok_def
  proof (intro conjI allI impI)
    fix j assume j: "j < NINODES"
    show "mk_size t j \<le> MAXFILE * BSIZE" using sz [OF j] le okD(3) [OF j] by simp
    show "fbyte (view t) (mk_inode t j) k = 0" if "k < MAXFILE * BSIZE" "mk_size t j \<le> k" for k
      using w [OF j that(1)] okD(4) [OF j that(1)] that(2) sz [OF j] by (auto split: if_splits)
    show "mk_dinode t j = zero_dinode" if "unat (freeinode t) \<le> j" using okD(5) [OF j] that t(2) d(1) [OF j] i(1) by simp
  qed (rule t(1))
  moreover have "mk_fdata t j = (if j = i then mk_fdata s j @ p else mk_fdata s j)" if j: "j < NINODES" for j
  proof (rule nth_equalityI)
    show "length (mk_fdata t j) = length (if j = i then mk_fdata s j @ p else mk_fdata s j)" using sz [OF j] by simp
    fix k assume "k < length (mk_fdata t j)"
    then have k: "k < mk_size t j" "k < MAXFILE * BSIZE" using sz [OF j] le okD(3) [OF j] by (auto split: if_splits)
    show "mk_fdata t j ! k = (if j = i then mk_fdata s j @ p else mk_fdata s j) ! k"
      using w [OF j k(2)] sz [OF j] k(1) by (auto simp: mk_fdata_nth nth_append)
  qed
  moreover have "d_type (mk_dinode t j) = d_type (mk_dinode s j) \<and> d_nlink (mk_dinode t j) = d_nlink (mk_dinode s j)" if "j < NINODES" for j
    using d(1) [OF that] d(2,3) by (cases "j = i") simp_all
  ultimately show ?thesis using t(2,3) unfolding appended_def by blast
qed

text \<open>The blocks that a file of \<open>n\<close> bytes takes, with its indirect block.\<close>

definition blocks_for :: "nat \<Rightarrow> nat" where
  "blocks_for n = nrefs (nblk n)"

lemma blocks_for_mono: "m \<le> n \<Longrightarrow> blocks_for m \<le> blocks_for n"
  by (simp add: blocks_for_def nrefs_mono nblk_mono)

lemma iappend_ok:
  assumes ok: "mkfs_ok s" and i: "unat inum < unat (freeinode s)" "unat inum < NINODES"
    and le: "mk_size s (unat inum) + length p \<le> MAXFILE * BSIZE"
    and fr: "unat (freeblock s) + (blocks_for (mk_size s (unat inum) + length p) - blocks_for (mk_size s (unat inum))) \<le> FSSIZE"
  obtains t where "iappend inum p s = Ok () t" "appended (unat inum) p s t"
    "unat (freeblock t) = unat (freeblock s) + (blocks_for (mk_size s (unat inum) + length p) - blocks_for (mk_size s (unat inum)))"
proof -
  let ?i = "unat inum" let ?n = "mk_size s ?i" let ?din = "mk_dinode s ?i"
  note okD = mkfs_okD [OF ok]
  obtain d t where t: "iappend_loop ?din ?n p s = Ok (d, ?n + length p) t" "d = ?din\<lparr>d_addrs := d_addrs d\<rparr>"
    "mk_inv t ((mk_inode s)(?i := of_din d)) ((\<lambda>i. nblk (mk_size s i))(?i := nblk (?n + length p)))"
    "wrote_at ?i ?n p s (mk_inode s) t ((mk_inode s)(?i := of_din d))"
    "unat (freeblock t) = unat (freeblock s) + (nrefs (nblk (?n + length p)) - nrefs (nblk ?n))"
    using append_loop [OF okD(1) i(2) refl refl le] fr unfolding blocks_for_def by blast
  have okt: "img_ok t" and ext: "exact (view t) (of_din d) (nblk (?n + length p))" using t(3) i(2) by (auto simp: mk_inv_def)
  let ?d = "d\<lparr>d_size := of_nat (?n + length p)\<rparr>"
  have la: "length (d_addrs ?d) = Suc NDIRECT" using exact_din(1) [OF ext] by simp
  obtain u where u: "winode inum ?d t = Ok () u" "img_ok u" "freeblock u = freeblock t" "freeinode u = freeinode t"
    "\<forall>j < NINODES. mk_dinode u j = (if j = ?i then ?d else mk_dinode t j)" "\<forall>b. b < 32 \<or> NMETA - 1 \<le> b \<longrightarrow> view u b = view t b"
    using winode_ok [OF okt i(2) la] by blast
  have tv: "\<And>b. b < NMETA \<Longrightarrow> view t b = view s b" "freeinode t = freeinode s" using t(4) by (auto simp: wrote_at_def)
  have "j div 8 < 25" if "j < NINODES" for j using that by (simp add: div_less_iff_less_mult)
  then have td: "mk_dinode t j = mk_dinode s j" if "j < NINODES" for j using that tv(1) by (simp add: mk_dinode_def)
  have ud: "mk_dinode u j = (if j = ?i then ?d else mk_dinode s j)" if "j < NINODES" for j using u(5) td that by simp
  have su: "mk_size u ?i = ?n + length p" using ud [OF i(2)] le by (simp add: unat_of_nat del: of_nat_add)
  have a: "\<forall>j < NINODES. i_addrs (mk_inode u j) = i_addrs (((mk_inode s)(?i := of_din d)) j)
      \<and> nblk (mk_size u j) = ((\<lambda>i. nblk (mk_size s i))(?i := nblk (?n + length p))) j" using ud su by auto
  have uv: "\<forall>b \<ge> NMETA. view u b = view t b" using u(6) by simp
  note mi = mk_inv_meta [OF t(3) u(2,3) uv a]
  have "d_type d = d_type ?din" "d_nlink d = d_nlink ?din" by (subst t(2), simp)+
  then have "appended ?i p s u"
    using ud i tv u(4,6) su mi(2) t(4) by (intro appended_intro [OF ok i le mi(1)]) (simp_all add: wrote_at_def)
  moreover have "iappend inum p s = Ok () u" using rinode_ok [OF okD(2) i(2)] t(1) u(1) by (simp add: iappend_def kcode)
  ultimately show ?thesis using that t(5) u(3) by (simp add: blocks_for_def)
qed

text \<open>ialloc(): a new empty file.\<close>

lemma mk_ialloc_ok:
  assumes ok: "mkfs_ok s" and fi: "unat (freeinode s) < NINODES"
  obtains t where "mk_ialloc ty s = Ok (freeinode s) t" "mkfs_ok t" "freeinode t = freeinode s + 1" "freeblock t = freeblock s"
    "\<And>j. j < NINODES \<Longrightarrow> mk_dinode t j = (if j = unat (freeinode s) then zero_dinode\<lparr>d_type := ty, d_nlink := 1\<rparr> else mk_dinode s j)"
    "\<And>j. j < NINODES \<Longrightarrow> mk_fdata t j = mk_fdata s j" "\<And>b. b < 32 \<Longrightarrow> view t b = view s b"
proof -
  let ?i = "unat (freeinode s)" let ?d = "zero_dinode\<lparr>d_type := ty, d_nlink := 1\<rparr>" let ?s = "s\<lparr>freeinode := freeinode s + 1\<rparr>"
  note okD = mkfs_okD [OF ok]
  have z: "mk_dinode s ?i = zero_dinode" using okD(5) [OF fi] by simp
  have oks: "img_ok ?s" using okD(2) by (simp add: img_ok_def)
  have la: "length (d_addrs ?d) = Suc NDIRECT" by (simp add: zero_dinode_def)
  obtain u where u: "winode (freeinode s) ?d ?s = Ok () u" "img_ok u" "freeblock u = freeblock s" "freeinode u = freeinode s + 1"
    "\<forall>j < NINODES. mk_dinode u j = (if j = ?i then ?d else mk_dinode ?s j)" "\<forall>b. b < 32 \<or> NMETA - 1 \<le> b \<longrightarrow> view u b = view s b"
    using winode_ok [OF oks fi la] by auto
  have ud: "mk_dinode u j = (if j = ?i then ?d else mk_dinode s j)" if "j < NINODES" for j using u(5) that by (simp add: mk_dinode_def)
  have dz: "?d\<lparr>d_size := 0\<rparr> = ?d" by (simp add: zero_dinode_def)
  have sz: "mk_size u j = mk_size s j" if "j < NINODES" for j using ud [OF that] z by simp
  have a: "\<forall>j < NINODES. i_addrs (mk_inode u j) = i_addrs (mk_inode s j) \<and> nblk (mk_size u j) = nblk (mk_size s j)" using sz ud z by auto
  have uv: "\<forall>b \<ge> NMETA. view u b = view s b" using u(6) by simp
  note mi = mk_inv_meta [OF okD(1) u(2,3) uv a]
  have f1: "unat (freeinode u) = Suc ?i" using u(4) fi by (simp add: unat_word_ariths)
  have "mkfs_ok u" unfolding mkfs_ok_def using mi okD(3,4,5) sz f1 ud by auto
  moreover have "mk_fdata u j = mk_fdata s j" if "j < NINODES" for j
    unfolding mk_fdata_def fdata_def using sz [OF that] mi(2) [OF that] okD(3) [OF that] by (auto intro!: map_cong)
  moreover have "mk_ialloc ty s = Ok (freeinode s) u" using u(1) by (simp add: mk_ialloc_def kcode dz)
  ultimately show ?thesis using that u(3,4,6) ud by simp
qed

lemma appended_trans: "appended i p s t \<Longrightarrow> appended i q t u \<Longrightarrow> appended i (p @ q) s u"
  by (simp add: appended_def)

lemma appended_size:
  assumes "appended i p s t" "j < NINODES"
  shows "mk_size t j = (if j = i then mk_size s j + length p else mk_size s j)"
proof -
  have "length (mk_fdata t j) = length (if j = i then mk_fdata s j @ p else mk_fdata s j)" using assms by (simp add: appended_def)
  then show ?thesis by (simp split: if_splits)
qed

text \<open>The loop over the pieces that read() returns.\<close>

lemma pieces_ok:
  assumes "mkfs_ok s" "unat inum < unat (freeinode s)" "unat inum < NINODES" "mk_size s (unat inum) + length (concat ps) \<le> MAXFILE * BSIZE"
    "unat (freeblock s) + (blocks_for (mk_size s (unat inum) + length (concat ps)) - blocks_for (mk_size s (unat inum))) \<le> FSSIZE"
  shows "\<exists>t. foreachM ps (iappend inum) s = Ok () t \<and> appended (unat inum) (concat ps) s t
    \<and> unat (freeblock t) = unat (freeblock s) + (blocks_for (mk_size s (unat inum) + length (concat ps)) - blocks_for (mk_size s (unat inum)))"
  using assms
proof (induction ps arbitrary: s)
  case Nil
  then show ?case by (simp add: appended_def kcode)
next
  case (Cons p ps)
  let ?n = "mk_size s (unat inum)" let ?m = "?n + length p" let ?l = "?n + length (concat (p # ps))"
  have m: "blocks_for ?n \<le> blocks_for ?m" "blocks_for ?m \<le> blocks_for ?l" by (simp_all add: blocks_for_mono)
  have le: "?m \<le> MAXFILE * BSIZE" "unat (freeblock s) + (blocks_for ?m - blocks_for ?n) \<le> FSSIZE" using Cons.prems(4,5) m by simp_all
  obtain t where t: "iappend inum p s = Ok () t" "appended (unat inum) p s t" "unat (freeblock t) = unat (freeblock s) + (blocks_for ?m - blocks_for ?n)"
    by (rule iappend_ok [OF Cons.prems(1-3) le])
  have sz: "mk_size t (unat inum) = ?m" using appended_size [OF t(2) Cons.prems(3)] by simp
  have l: "?m + length (concat ps) = ?l" by simp
  have tt: "mkfs_ok t" "unat inum < unat (freeinode t)" using t(2) Cons.prems(2) by (simp_all add: appended_def)
  have fr: "unat (freeblock t) + (blocks_for ?l - blocks_for ?m) \<le> FSSIZE" using t(3) Cons.prems(5) m by simp
  obtain u where u: "foreachM ps (iappend inum) t = Ok () u" "appended (unat inum) (concat ps) t u"
    "unat (freeblock u) = unat (freeblock t) + (blocks_for ?l - blocks_for ?m)"
    using Cons.IH [OF tt Cons.prems(3), unfolded sz l, OF Cons.prems(4) fr] by blast
  have "unat (freeblock u) = unat (freeblock s) + (blocks_for ?l - blocks_for ?n)" using t(3) u(3) m by simp
  then show ?case using t(1) u(1) appended_trans [OF t(2) u(2)] by (auto simp: kcode)
qed

section \<open>main()\<close>

text \<open>The first sectors after the zeroing loop and the super block.\<close>

definition super_sector :: bytes where
  "super_sector = patch 0 (super_bytes mkfs_super) (replicate BSIZE 0)"

text \<open>
  The image after some files: the root directory has the bytes \<open>r\<close>, inode
  \<open>k + 2\<close> is file number \<open>k\<close>, and no blocks are lost.
\<close>

definition holds :: "mkst \<Rightarrow> bytes \<Rightarrow> bytes list \<Rightarrow> bool" where
  "holds s r fs \<longleftrightarrow> mkfs_ok s \<and> view s 1 = super_sector \<and> unat (freeinode s) = length fs + 2
     \<and> mk_fdata s 1 = r \<and> d_type (mk_dinode s 1) = T_DIR \<and> d_nlink (mk_dinode s 1) = 1
     \<and> (\<forall>k < length fs. mk_fdata s (k + 2) = fs ! k \<and> d_type (mk_dinode s (k + 2)) = T_FILE \<and> d_nlink (mk_dinode s (k + 2)) = 1)
     \<and> unat (freeblock s) = NMETA + blocks_for (length r) + sum_list (map (\<lambda>d. blocks_for (length d)) fs)"

definition file_name :: "bytes \<times> bytes list option \<Rightarrow> bytes" where
  "file_name f = (if fst f \<noteq> [] \<and> hd (fst f) = 0x5F then tl (fst f) else fst f)"

definition file_data :: "bytes \<times> bytes list option \<Rightarrow> bytes" where
  "file_data f = concat (the (snd f))"

lemma blocks_for_0 [simp]: "blocks_for 0 = 0"
  by (simp add: blocks_for_def nrefs_def nblk_def)

lemma mkfs_file_ok:
  assumes h: "holds s r fs" and n: "length fs + 2 < NINODES" and f: "0x2F \<notin> set (fst f)" "snd f \<noteq> None" "length (file_data f) \<le> MAXFILE * BSIZE"
    and r: "length r + DIRENT \<le> MAXFILE * BSIZE"
    and fr: "NMETA + blocks_for (length r + DIRENT) + sum_list (map (\<lambda>d. blocks_for (length d)) fs) + blocks_for (length (file_data f)) \<le> FSSIZE"
  shows "\<exists>t. mkfs_file 1 f s = Ok () t \<and> holds t (r @ dirent_bytes (of_nat (length fs + 2)) (file_name f)) (fs @ [file_data f])"
proof -
  let ?n = "length fs + 2" let ?e = "dirent_bytes (of_nat ?n) (file_name f)"
  have hD: "mkfs_ok s" "view s 1 = super_sector" "unat (freeinode s) = ?n" "mk_fdata s 1 = r" "d_type (mk_dinode s 1) = T_DIR" "d_nlink (mk_dinode s 1) = 1"
    "unat (freeblock s) = NMETA + blocks_for (length r) + sum_list (map (\<lambda>d. blocks_for (length d)) fs)" using h by (simp_all add: holds_def)
  have fs: "mk_fdata s (k + 2) = fs ! k" "d_type (mk_dinode s (k + 2)) = T_FILE" "d_nlink (mk_dinode s (k + 2)) = 1" if "k < length fs" for k
    using h that by (simp_all add: holds_def)
  have "of_nat (unat (freeinode s)) = freeinode s" by simp
  then have fi: "freeinode s = of_nat ?n" "unat (freeinode s) < NINODES" using hD(3) n by simp_all
  obtain t where t: "mk_ialloc T_FILE s = Ok (freeinode s) t" "mkfs_ok t" "freeinode t = freeinode s + 1" "freeblock t = freeblock s"
    "\<And>j. j < NINODES \<Longrightarrow> mk_dinode t j = (if j = unat (freeinode s) then zero_dinode\<lparr>d_type := T_FILE, d_nlink := 1\<rparr> else mk_dinode s j)"
    "\<And>j. j < NINODES \<Longrightarrow> mk_fdata t j = mk_fdata s j" "\<And>b. b < 32 \<Longrightarrow> view t b = view s b"
    by (rule mk_ialloc_ok [OF hD(1) fi(2), where ty = T_FILE]) (use that in blast)
  have t1: "unat (freeinode t) = Suc ?n" using t(3) hD(3) n by (simp add: unat_word_ariths)
  have s1: "mk_size t 1 = length r" using t(5) [of 1] hD(4) by (simp add: hD(3) flip: length_mk_fdata)
  have m: "blocks_for (length r) \<le> blocks_for (length r + DIRENT)" by (simp add: blocks_for_mono)
  have r1: "mk_size t (unat (1::u32)) + length ?e \<le> MAXFILE * BSIZE"
    "unat (freeblock t) + (blocks_for (mk_size t (unat (1::u32)) + length ?e) - blocks_for (mk_size t (unat (1::u32)))) \<le> FSSIZE"
    using r fr s1 t(4) hD(7) m by simp_all
  obtain u where u: "iappend 1 ?e t = Ok () u" "appended 1 ?e t u" "unat (freeblock u) = unat (freeblock s) + (blocks_for (length r + DIRENT) - blocks_for (length r))"
    by (rule iappend_ok [OF t(2) _ _ r1]) (use s1 t(4) t1 in simp_all)
  have u1: "mkfs_ok u" "unat (freeinode u) = Suc ?n" using u(2) t1 by (simp_all add: appended_def)
  have su: "mk_size u ?n = 0"
    using appended_size [OF u(2) n] t(5) [OF n] hD(3) by (simp add: zero_dinode_def)
  let ?i = "freeinode s"
  have pr: "unat ?i < unat (freeinode u)" "mk_size u (unat ?i) + length (concat (the (snd f))) \<le> MAXFILE * BSIZE"
    "unat (freeblock u) + (blocks_for (mk_size u (unat ?i) + length (concat (the (snd f)))) - blocks_for (mk_size u (unat ?i))) \<le> FSSIZE"
    using u1(2) hD(3) su f(3) fr u(3) hD(7) m by (simp_all add: file_data_def)
  obtain v where v: "foreachM (the (snd f)) (iappend ?i) u = Ok () v" "appended ?n (file_data f) u v"
    "unat (freeblock v) = unat (freeblock u) + blocks_for (length (file_data f))"
    using pieces_ok [OF u1(1) pr(1) fi(2) pr(2,3)] hD(3) su by (auto simp: file_data_def)
  have run: "mkfs_file 1 f s = Ok () v"
    using f(1,2) t(1) u(1) v(1) fi(1) by (auto simp: mkfs_file_def Let_def kcode file_name_def split: option.splits)
  have "length (mk_fdata s ?n) = 0" using mkfs_okD(5) [OF hD(1) n] hD(3) unfolding length_mk_fdata by (simp add: zero_dinode_def)
  then have e: "mk_fdata s ?n = []" by (simp only: length_0_conv)
  have vd: "mk_fdata v j = (if j = 1 then r @ ?e else if j = ?n then file_data f else mk_fdata s j)" if "j < NINODES" for j
    using v(2) u(2) t(6) [OF that] that hD(4) e by (auto simp: appended_def)
  have ty: "d_type (mk_dinode v j) = d_type (mk_dinode t j)" "d_nlink (mk_dinode v j) = d_nlink (mk_dinode t j)" if "j < NINODES" for j
    using v(2) u(2) that by (simp_all add: appended_def)
  have "mk_fdata v (k + 2) = (fs @ [file_data f]) ! k \<and> d_type (mk_dinode v (k + 2)) = T_FILE \<and> d_nlink (mk_dinode v (k + 2)) = 1"
    if k: "k < length (fs @ [file_data f])" for k
    using vd [of "k + 2"] ty [of "k + 2"] t(5) [of "k + 2"] k n fs [of k] hD(3) by (auto simp: nth_append less_Suc_eq)
  moreover have "d_type (mk_dinode v 1) = T_DIR" "d_nlink (mk_dinode v 1) = 1" using ty [of 1] t(5) [of 1] hD by auto
  moreover have "view v 1 = super_sector" "mkfs_ok v" "unat (freeinode v) = Suc ?n"
    using v(2) u(2) t(7) [of 1] hD(2) u1(2) by (simp_all add: appended_def)
  ultimately show ?thesis using run vd [of 1] v(3) u(3) hD(7) m unfolding holds_def by (intro exI [of _ v]) simp
qed

text \<open>The entries that the files get in the root directory.\<close>

primrec entries :: "nat \<Rightarrow> bytes list \<Rightarrow> bytes" where
  "entries k [] = []"
| "entries k (nm # nms) = dirent_bytes (of_nat (k + 2)) nm @ entries (Suc k) nms"

lemma length_entries [simp]: "length (entries k nms) = DIRENT * length nms"
  by (induction nms arbitrary: k) simp_all

definition file_ok_arg :: "bytes \<times> bytes list option \<Rightarrow> bool" where
  "file_ok_arg f \<longleftrightarrow> 0x2F \<notin> set (fst f) \<and> snd f \<noteq> None \<and> length (file_data f) \<le> MAXFILE * BSIZE"

definition data_blocks :: "bytes list \<Rightarrow> nat" where
  "data_blocks fs = sum_list (map (\<lambda>d. blocks_for (length d)) fs)"

lemma mkfs_files_ok:
  assumes "holds s r fs" "length fs + length files + 2 \<le> NINODES" "\<forall>f \<in> set files. file_ok_arg f"
    "length r + DIRENT * length files \<le> MAXFILE * BSIZE"
    "NMETA + blocks_for (length r + DIRENT * length files) + data_blocks fs + data_blocks (map file_data files) \<le> FSSIZE"
  shows "\<exists>t. foreachM files (mkfs_file 1) s = Ok () t \<and> holds t (r @ entries (length fs) (map file_name files)) (fs @ map file_data files)"
  using assms
proof (induction files arbitrary: s r fs)
  case Nil
  then show ?case by (simp add: kcode)
next
  case (Cons f files)
  let ?r = "r @ dirent_bytes (of_nat (length fs + 2)) (file_name f)"
  have f: "0x2F \<notin> set (fst f)" "snd f \<noteq> None" "length (file_data f) \<le> MAXFILE * BSIZE" using Cons.prems(3) by (simp_all add: file_ok_arg_def)
  have m: "blocks_for (length r + DIRENT) \<le> blocks_for (length r + DIRENT * length (f # files))" by (simp add: blocks_for_mono)
  have "length fs + 2 < NINODES" "length r + DIRENT \<le> MAXFILE * BSIZE" using Cons.prems(2,4) by simp_all
  moreover have "NMETA + blocks_for (length r + DIRENT) + sum_list (map (\<lambda>d. blocks_for (length d)) fs) + blocks_for (length (file_data f)) \<le> FSSIZE"
    using Cons.prems(5) m by (simp add: data_blocks_def)
  ultimately obtain t where t: "mkfs_file 1 f s = Ok () t" "holds t ?r (fs @ [file_data f])"
    using mkfs_file_ok [OF Cons.prems(1) _ f] by blast
  have "length ?r + DIRENT * length files = length r + DIRENT * length (f # files)" by simp
  then have "\<exists>u. foreachM files (mkfs_file 1) t = Ok () u
      \<and> holds u (?r @ entries (length (fs @ [file_data f])) (map file_name files)) ((fs @ [file_data f]) @ map file_data files)"
    using Cons.prems(2-5) by (intro Cons.IH [OF t(2)]) (simp_all add: data_blocks_def add.assoc)
  then show ?case using t(1) by (auto simp: kcode)
qed

lemma zero_loop:
  "n \<le> FSSIZE \<Longrightarrow> img s = [] \<Longrightarrow> foreachM [0..<n] (\<lambda>i. wsect (of_nat i) (replicate BSIZE 0)) s = Ok () (s\<lparr>img := replicate n (replicate BSIZE 0)\<rparr>)"
proof (induction n)
  case 0
  then show ?case by (simp add: kcode)
next
  case (Suc n)
  have "unat (of_nat n :: u32) = n" using Suc.prems(1) by (simp add: unat_of_nat)
  then have "unat (of_nat n * 512 :: u32) div BSIZE = n" using sector [of "of_nat n"] Suc.prems(1) by simp
  then show ?case using Suc by (simp add: kcode wsect_def Let_def replicate_append_same)
qed

lemma zero_get_dinode: "off + 64 \<le> BSIZE \<Longrightarrow> get_dinode (replicate BSIZE 0) off = zero_dinode"
proof -
  assume l: "off + 64 \<le> BSIZE"
  have g: "get16 (replicate BSIZE 0) (off + k) = 0" if "k + 2 \<le> 64" for k using l that by (simp add: get16_def le16_dec_def)
  have "get32 (replicate BSIZE 0) (off + 12 + 4 * k) = 0" if "k < Suc NDIRECT" for k using l that by (intro get32_zeros) simp
  then have "map (\<lambda>k. get32 (replicate BSIZE 0) (off + 12 + 4 * k)) [0..<Suc NDIRECT] = map (\<lambda>k. 0) [0..<Suc NDIRECT]" by (intro map_cong) simp_all
  moreover have "get32 (replicate BSIZE 0) (off + 8) = 0" using l by (intro get32_zeros) simp
  ultimately show ?thesis using g [of 0] g [of 2] g [of 4] g [of 6] unfolding get_dinode_def zero_dinode_def by (simp add: map_replicate_const)
qed

text \<open>The image before the first inode is allocated.\<close>

definition mkfs_start :: "mkst \<Rightarrow> mkst" where
  "mkfs_start s = s\<lparr>img := (replicate FSSIZE (replicate BSIZE 0))[1 := super_sector], mk_sb := mkfs_super, freeblock := 59\<rparr>"

lemma mkfs_start_fields: "mk_sb (mkfs_start s) = mkfs_super" "freeblock (mkfs_start s) = 59" "freeinode (mkfs_start s) = freeinode s"
  "img (mkfs_start s) = (replicate FSSIZE (replicate BSIZE 0))[1 := super_sector]"
  unfolding mkfs_start_def by simp_all

lemma mkfs_start_run:
  "mkfs_main (Some True) files s =
     bindM (mk_ialloc T_DIR) (\<lambda>rootino.
     thenM (assertM (rootino = ROOTINO) ''rootino == ROOTINO'')
     (thenM (mkfs_root rootino)
     (thenM (foreachM files (mkfs_file rootino))
     (mkfs_finish rootino)))) (mkfs_start s)"
proof -
  let ?s = "s\<lparr>img := [], mk_sb := mkfs_super, freeblock := 59\<rparr>"
  let ?t = "?s\<lparr>img := replicate FSSIZE (replicate BSIZE 0)\<rparr>"
  have z: "foreachM [0..<FSSIZE] (\<lambda>i. wsect (of_nat i) (replicate BSIZE 0)) ?s = Ok () ?t" by (rule zero_loop) simp_all
  have w: "wsect 1 super_sector ?t = Ok () (mkfs_start s)" by (subst wsect_ok) (simp_all add: mkfs_start_def)
  show ?thesis
    unfolding mkfs_main_def option.case bool.case thenM_def bindM_def modM_def using z w
    by (simp only: outcome.case super_sector_def of_nat_numeral)
qed

lemma start_ok:
  fixes s0 :: mkst
  assumes fi: "freeinode s0 = 1"
  defines "s \<equiv> mkfs_start s0"
  shows "mkfs_ok s" "view s 1 = super_sector"
proof -
  have assms: "mk_sb s = mkfs_super" "freeblock s = 59" "freeinode s = 1" "img s = (replicate FSSIZE (replicate BSIZE 0))[1 := super_sector]"
    by (simp_all only: s_def mkfs_start_fields fi)
  have v: "view s b = (if b = 1 then super_sector else replicate BSIZE 0)" if "b < FSSIZE" for b
    using assms(4) that by (simp add: view_def nth_list_update)
  then show "view s 1 = super_sector" by simp
  have ok: "img_ok s" unfolding img_ok_def using assms v by (simp add: super_sector_def super_bytes_def)
  have d: "mk_dinode s i = zero_dinode" if "i < NINODES" for i
  proof -
    have "i div 8 < 25" "i mod 8 < 8" using that by (simp_all add: div_less_iff_less_mult)
    then show ?thesis using v [of "32 + i div 8"] zero_get_dinode [of "i mod IPB * 64"] by (simp add: mk_dinode_def)
  qed
  have z: "fref (view s) (of_din zero_dinode) n = 0" if "n \<le> MAXFILE" for n using that by (auto simp: fref_def fblk_def zero_dinode_def)
  have "refs_ok (view s) 59 (mk_inode s)" using z d by (simp add: refs_ok_def)
  moreover have "exact (view s) (mk_inode s i) (nblk (mk_size s i))" if "i < NINODES" for i
    using z d [OF that] by (simp add: exact_def nblk_def zero_dinode_def)
  ultimately have "mk_inv s (mk_inode s) (\<lambda>i. nblk (mk_size s i))" using ok assms(2) by (simp add: mk_inv_def)
  moreover have "fbyte (view s) (of_din zero_dinode) k = 0" if "k < MAXFILE * BSIZE" for k
  proof -
    have "k div BSIZE < MAXFILE" using that by (simp add: div_less_iff_less_mult)
    then show ?thesis using z [of "k div BSIZE"] by (simp add: fbyte_def fcont_fref)
  qed
  ultimately show "mkfs_ok s" using d by (simp add: mkfs_ok_def zero_dinode_def)
qed

lemma root_ok:
  assumes ok: "mkfs_ok s" "view s 1 = super_sector" and s: "freeinode s = 1" "freeblock s = 59"
  defines "r \<equiv> dirent_bytes 1 (cbytes ''.'') @ dirent_bytes 1 (cbytes ''..'')"
  obtains t u where "mk_ialloc T_DIR s = Ok 1 t" "mkfs_root 1 t = Ok () u" "holds u r []"
proof -
  have z: "mk_dinode s 1 = zero_dinode" using mkfs_okD(5) [OF ok(1), of 1] s(1) by simp
  obtain t where t: "mk_ialloc T_DIR s = Ok 1 t" "mkfs_ok t" "freeinode t = 2" "freeblock t = 59"
    "mk_dinode t 1 = zero_dinode\<lparr>d_type := T_DIR, d_nlink := 1\<rparr>" "mk_fdata t 1 = mk_fdata s 1" "view t 1 = super_sector"
    by (rule mk_ialloc_ok [OF ok(1), where ty = T_DIR]) (use s ok(2) that in auto)
  let ?a = "dirent_bytes 1 (cbytes ''.'')" and ?b = "dirent_bytes 1 (cbytes ''..'')"
  have z1: "mk_size t (unat (1::u32)) = 0" using t(5) by (simp add: zero_dinode_def)
  have b: "blocks_for 16 = 1" "blocks_for 32 = 1" by (simp_all add: blocks_for_def nblk_def nrefs_def)
  obtain u where u: "iappend 1 ?a t = Ok () u" "appended 1 ?a t u" "unat (freeblock u) = 60"
    by (rule iappend_ok [OF t(2), where inum = 1 and p = ?a]) (use that t(3,4) z1 b in simp_all)
  have u1: "mkfs_ok u" "freeinode u = 2" "mk_size u (unat (1::u32)) = 16" using u(2) t(3) appended_size [OF u(2), of 1] z1 by (simp_all add: appended_def)
  obtain v where v: "iappend 1 ?b u = Ok () v" "appended 1 ?b u v" "unat (freeblock v) = 60"
    by (rule iappend_ok [OF u1(1), where inum = 1 and p = ?b]) (use that u1 u(3) b in simp_all)
  have "appended 1 r t v" unfolding r_def by (rule appended_trans [OF u(2) v(2)])
  moreover have "length (mk_fdata t 1) = 0" using z1 by simp
  then have "mk_fdata t 1 = []" by (simp only: length_0_conv)
  ultimately have "holds v r []" using t v(3) b unfolding holds_def by (simp add: appended_def r_def)
  moreover have "mkfs_root 1 t = Ok () v" using u(1) v(1) by (simp add: mkfs_root_def kcode)
  ultimately show ?thesis using that t(1) by blast
qed

text \<open>The bitmap that balloc() writes.\<close>

lemma bitmap_bits:
  assumes "n \<le> BPB"
  shows "length (fold set_bit_at [0..<n] (replicate BSIZE 0)) = BSIZE"
    "b < BPB \<Longrightarrow> bit_clear (fold set_bit_at [0..<n] (replicate BSIZE 0)) b \<longleftrightarrow> n \<le> b"
  using assms
proof (induction n)
  case 0
  { case 1 show ?case by simp }
  { case 2 then show ?case by (simp add: bit_clear_def div_less_iff_less_mult) }
next
  case (Suc n)
  { case 1 then show ?case using Suc.IH(1) by simp }
  { case 2 then show ?case using Suc.IH bit_clear_set [of n "fold set_bit_at [0..<n] (replicate BSIZE 0)" b] by auto }
qed

definition super_of :: "bytes \<Rightarrow> superblock" where
  "super_of d = \<lparr>sb_size = get32 d 0, sb_nblocks = get32 d 4, sb_ninodes = get32 d 8, sb_nlog = get32 d 12,
     sb_logstart = get32 d 16, sb_inodestart = get32 d 20, sb_bmapstart = get32 d 24\<rparr>"

lemma super_of_sector: "super_of super_sector = mkfs_super"
  by (simp add: super_of_def super_sector_def patch_def super_bytes_def get32_def drop_Cons' le32_dec_enc)

section \<open>The root directory\<close>

lemma dir_map_append:
  assumes "DIRENT dvd length d" "dir_map d (cname DIRSIZ name) = None" "(ucast inum :: u16) \<noteq> 0"
  shows "dir_map (d @ dirent_bytes inum name) = (dir_map d)(cname DIRSIZ name \<mapsto> ucast inum)"
proof -
  obtain k where "length d = DIRENT * k" using assms(1) by (auto simp: dvd_def)
  then show ?thesis using dir_map_patch(1) [OF assms(1), of "length d" k] assms(2,3) by (simp add: patch_def)
qed

text \<open>The names of the files and their inode numbers.\<close>

primrec name_map :: "nat \<Rightarrow> bytes list \<Rightarrow> bytes \<rightharpoonup> u16" where
  "name_map k [] = Map.empty"
| "name_map k (nm # nms) = (name_map (Suc k) nms)(cname DIRSIZ nm \<mapsto> of_nat (k + 2))"

lemma ucast_of_nat: "n < 2 ^ 16 \<Longrightarrow> ucast (of_nat n :: u32) = (of_nat n :: u16)"
  by (simp add: unsigned_of_nat take_bit_nat_eq_self)

lemma dom_name_map: "dom (name_map k nms) = cname DIRSIZ ` set nms"
  by (induction nms arbitrary: k) auto

lemma dir_map_entries:
  assumes "DIRENT dvd length d" "distinct (map (cname DIRSIZ) nms)" "\<forall>nm \<in> set nms. dir_map d (cname DIRSIZ nm) = None" "k + length nms \<le> NINODES"
  shows "dir_map (d @ entries k nms) = dir_map d ++ name_map k nms"
  using assms
proof (induction nms arbitrary: d k)
  case Nil
  then show ?case by simp
next
  case (Cons nm nms)
  let ?d = "d @ dirent_bytes (of_nat (k + 2)) nm"
  have "cname DIRSIZ nm \<notin> cname DIRSIZ ` set nms" using Cons.prems(2) by simp
  then have new: "\<forall>n \<in> set nms. cname DIRSIZ n \<noteq> cname DIRSIZ nm" by (metis imageI)
  have c: "ucast (of_nat (k + 2) :: u32) = (of_nat (k + 2) :: u16)" by (rule ucast_of_nat) (use Cons.prems(4) in simp)
  have "unat (of_nat (k + 2) :: u16) \<noteq> 0" using Cons.prems(4) unfolding unat_of_nat by simp
  then have "(of_nat (k + 2) :: u16) \<noteq> 0" by (metis unat_0)
  then have m: "dir_map ?d = (dir_map d)(cname DIRSIZ nm \<mapsto> of_nat (k + 2))"
    using dir_map_append [OF Cons.prems(1), of nm "of_nat (k + 2)"] Cons.prems(3) c by simp
  have "dir_map (?d @ entries (Suc k) nms) = dir_map ?d ++ name_map (Suc k) nms"
    using Cons.prems m new by (intro Cons.IH) auto
  moreover have "cname DIRSIZ nm \<notin> dom (name_map (Suc k) nms)" using Cons.prems(2) by (simp add: dom_name_map)
  ultimately show ?case using m by (auto simp: fun_eq_iff map_add_def split: option.splits)
qed

lemma dir_map_zeros:
  assumes "DIRENT dvd length d"
  shows "dir_map (d @ replicate (DIRENT * m) 0) = dir_map d"
proof
  fix nm
  let ?e = "d @ replicate (DIRENT * m) 0"
  let ?P = "\<lambda>x off. de_inum x off \<noteq> 0 \<and> de_name x off = nm"
  obtain k where k: "length d = DIRENT * k" using assms by (auto simp: dvd_def)
  have "length ?e div DIRENT = k + m" using k by simp
  then have sl: "dir_slots ?e = dir_slots d @ map (\<lambda>j. DIRENT * j) [k..<k + m]" using k upt_add_eq_append [of 0 k m] by (simp add: dir_slots_def)
  have old: "de_inum ?e off = de_inum d off" "de_name ?e off = de_name d off" if "off \<in> set (dir_slots d)" for off
  proof -
    have "off + DIRENT \<le> length d" using that k by (auto simp: dir_slots_def)
    then have "take DIRENT (drop off ?e) = take DIRENT (drop off d)" by simp
    then show "de_inum ?e off = de_inum d off" "de_name ?e off = de_name d off" by (simp_all add: de_inum_def de_name_def)
  qed
  have "de_inum ?e (DIRENT * j) = 0" if "k \<le> j" "j < k + m" for j
  proof -
    have "drop (DIRENT * j) ?e = replicate (DIRENT * (k + m - j)) 0" using k that by (simp add: algebra_simps)
    moreover have "min DIRENT (DIRENT * (k + m - j)) = DIRENT" using that by (simp add: min_def)
    ultimately show ?thesis by (simp add: de_inum_def get16_def le16_dec_def)
  qed
  then have "find (?P ?e) (map (\<lambda>j. DIRENT * j) [k..<k + m]) = None" by (auto simp: find_None_iff)
  moreover have "find (?P ?e) (dir_slots d) = find (?P d) (dir_slots d)" by (rule find_cong) (simp_all add: old)
  moreover have "map_option (de_inum ?e) (find (?P d) (dir_slots d)) = map_option (de_inum d) (find (?P d) (dir_slots d))"
    by (rule option.map_cong [OF refl]) (auto simp: find_Some_iff old)
  ultimately show "dir_map ?e nm = dir_map d nm" 
    by (cases "find (?P d) (dir_slots d)") (simp_all add: dir_map_def sl find_append)
qed

text \<open>The directory that main() builds.\<close>

lemma root_dir_map:
  assumes "distinct (map (cname DIRSIZ) (cbytes ''.'' # cbytes ''..'' # nms))" "length nms \<le> NINODES"
  shows "dir_map (dirent_bytes 1 (cbytes ''.'') @ dirent_bytes 1 (cbytes ''..'') @ entries 0 nms)
    = [cbytes ''.'' \<mapsto> 1, cbytes ''..'' \<mapsto> 1] ++ name_map 0 nms"
proof -
  let ?r = "dirent_bytes 1 (cbytes ''.'') @ dirent_bytes 1 (cbytes ''..'')"
  have c: "cname DIRSIZ (cbytes ''.'') = cbytes ''.''" "cname DIRSIZ (cbytes ''..'') = cbytes ''..''" "cbytes ''.'' \<noteq> cbytes ''..''" by code_simp+
  have "dir_map [] = Map.empty" by (simp add: fun_eq_iff dir_map_def dir_slots_def)
  then have "dir_map (dirent_bytes 1 (cbytes ''.'')) = [cbytes ''.'' \<mapsto> 1]" using dir_map_append [of "[]" "cbytes ''.''" 1] c by simp
  then have m: "dir_map ?r = [cbytes ''.'' \<mapsto> 1, cbytes ''..'' \<mapsto> 1]"
    using dir_map_append [of "dirent_bytes 1 (cbytes ''.'')" "cbytes ''..''" 1] c by simp
  have "dir_map (?r @ entries 0 nms) = dir_map ?r ++ name_map 0 nms"
    by (rule dir_map_entries) (use assms c m in \<open>auto simp: image_iff\<close>)
  then show ?thesis using m by simp
qed

text \<open>The end of main().\<close>

definition root_size :: "nat \<Rightarrow> nat" where
  "root_size n = (n div BSIZE + 1) * BSIZE"

text \<open>
  The rounding gives the blocks that the entries need, except when they end at
  the end of a block: then the size covers one block more than there are.
\<close>

lemma root_size_blocks: "root_size n = (if BSIZE dvd n then nblk n + 1 else nblk n) * BSIZE"
proof (cases "BSIZE dvd n")
  case True
  then show ?thesis by (auto simp: root_size_def nblk_def dvd_def)
next
  case False
  then have "0 < n mod 512" by (simp add: mod_greater_zero_iff_not_dvd)
  then have "(n mod 512 + 511) div 512 = 1" using mod_less_divisor [of 512 n] by (intro div_nat_eqI) simp_all
  then have "nblk n = n div 512 + 1" unfolding nblk_def by (simp add: div_add1_eq [of n 511])
  then show ?thesis using False by (simp add: root_size_def)
qed

lemma finish_run:
  assumes h: "holds s r fs" and r: "root_size (length r) \<le> MAXFILE * BSIZE" and fs: "length fs + 2 \<le> NINODES"
  shows "\<exists>t. mkfs_finish 1 s = Ok () t \<and> img_ok t \<and> freeblock t = freeblock s \<and> view t 58 = fold set_bit_at [0..<unat (freeblock s)] (replicate BSIZE 0)
    \<and> (\<forall>j < NINODES. mk_dinode t j = (if j = 1 then (mk_dinode s 1)\<lparr>d_size := of_nat (root_size (length r))\<rparr> else mk_dinode s j))
    \<and> (\<forall>b. b < 32 \<or> NMETA \<le> b \<longrightarrow> view t b = view s b)"
proof -
  have ok: "mkfs_ok s" "length (mk_fdata s 1) = length r" using h by (simp_all add: holds_def)
  note okD = mkfs_okD [OF ok(1)]
  let ?o = "(d_size (mk_dinode s 1) div 512 + 1) * 512" and ?B = "fold set_bit_at [0..<unat (freeblock s)] (replicate BSIZE 0)"
  have sz: "unat (d_size (mk_dinode s 1)) = length r" using ok(2) by simp
  have "unat ?o = root_size (length r)" using r sz by (simp add: unat_word_ariths unat_div root_size_def)
  then have o: "?o = of_nat (root_size (length r))" using r by (intro u32_eqI) (simp only:, simp add: unat_of_nat)
  let ?d = "(mk_dinode s 1)\<lparr>d_size := ?o\<rparr>"
  have "exact (view s) (mk_inode s 1) (nblk (mk_size s 1))" using okD(1) by (simp add: mk_inv_def)
  then have la: "length (d_addrs ?d) = Suc NDIRECT" by (simp add: exact_def)
  have i: "unat (1 :: u32) < NINODES" by simp
  obtain t where t: "winode 1 ?d s = Ok () t" "img_ok t" "freeblock t = freeblock s" "freeinode t = freeinode s"
    "\<forall>j < NINODES. mk_dinode t j = (if j = 1 then ?d else mk_dinode s j)" "\<forall>b. b < 32 \<or> NMETA - 1 \<le> b \<longrightarrow> view t b = view s b"
    using winode_ok [OF okD(2) i la] by auto
  let ?u = "t\<lparr>img := (img t)[58 := ?B]\<rparr>"
  have f: "unat (freeblock s) \<le> FSSIZE" using img_okD(5) [OF okD(2)] .
  then have "sint (freeblock s) = int (unat (freeblock s))" by (intro sint_small) simp
  then have as: "sint (freeblock s) < int (BSIZE * 8)" using f by linarith
  have l: "length ?B = BSIZE" using bitmap_bits(1) f by simp
  have v: "view ?u = (view t)(58 := ?B)" by (rule view_upd) (use img_okD(1) [OF t(2)] in simp)
  have "wsect 58 ?B t = Ok () ?u" using wsect_ok [of 58 t] img_okD(1) [OF t(2)] by simp
  then have "mkfs_finish 1 s = Ok () ?u"
    using rinode_ok [OF okD(2) i] t(1,3) as img_okD(3) [OF t(2)] by (simp add: mkfs_finish_def mk_balloc_def kcode Let_def)
  moreover have "img_ok ?u" using t(2) l unfolding img_ok_def v by auto
  moreover have "mk_dinode ?u j = mk_dinode t j" if "j < NINODES" for j
  proof -
    have "j div 8 < 25" using that by (simp add: div_less_iff_less_mult)
    then show ?thesis by (simp add: mk_dinode_def v)
  qed
  ultimately show ?thesis using t(3,5,6) v o by (intro exI [of _ ?u]) simp
qed

lemma finish_ok:
  assumes h: "holds s r fs" and r: "root_size (length r) \<le> MAXFILE * BSIZE" and fs: "length fs + 2 \<le> NINODES"
  obtains t where "mkfs_finish 1 s = Ok () t" "view t 1 = super_sector"
    "mk_inv t (mk_inode t) (\<lambda>i. if i = 1 then nblk (length r) else nblk (mk_size t i))"
    "\<And>b. b < FSSIZE \<Longrightarrow> used (view t) mkfs_super b \<longleftrightarrow> b < unat (freeblock t)"
    "mk_fdata t 1 = r @ replicate (root_size (length r) - length r) 0" "d_type (mk_dinode t 1) = T_DIR" "mk_size t 1 = root_size (length r)"
    "\<And>k. k < length fs \<Longrightarrow> mk_fdata t (k + 2) = fs ! k" "\<And>k. k < length fs \<Longrightarrow> d_type (mk_dinode t (k + 2)) = T_FILE"
proof -
  have hD: "mkfs_ok s" "view s 1 = super_sector" "mk_fdata s 1 = r" "d_type (mk_dinode s 1) = T_DIR" using h by (simp_all add: holds_def)
  have hF: "mk_fdata s (k + 2) = fs ! k" "d_type (mk_dinode s (k + 2)) = T_FILE" if "k < length fs" for k using h that by (simp_all add: holds_def)
  note okD = mkfs_okD [OF hD(1)]
  obtain t where t: "mkfs_finish 1 s = Ok () t" "img_ok t" "freeblock t = freeblock s" "view t 58 = fold set_bit_at [0..<unat (freeblock s)] (replicate BSIZE 0)"
    "\<forall>j < NINODES. mk_dinode t j = (if j = 1 then (mk_dinode s 1)\<lparr>d_size := of_nat (root_size (length r))\<rparr> else mk_dinode s j)"
    "\<forall>b. b < 32 \<or> NMETA \<le> b \<longrightarrow> view t b = view s b"
    using finish_run [OF h r fs] by blast
  have sz: "length (mk_fdata s 1) = length r" "length (mk_fdata t 1) = root_size (length r)" using hD(3) t(5) r by (simp_all add: unat_of_nat)
  have v: "\<forall>b \<ge> NMETA. view t b = view s b" using t(6) by simp
  have a: "\<forall>j < NINODES. i_addrs (mk_inode t j) = i_addrs (mk_inode s j)
      \<and> (if j = 1 then nblk (length r) else nblk (mk_size t j)) = nblk (mk_size s j)" using t(5) sz(1) by simp
  note mi = mk_inv_meta [OF okD(1) t(2,3) v a]
  have "mk_fdata t 1 = r @ replicate (root_size (length r) - length r) 0"
  proof (rule nth_equalityI)
    have "length r < root_size (length r)" unfolding root_size_def by (simp add: dividend_less_div_times)
    then show "length (mk_fdata t 1) = length (r @ replicate (root_size (length r) - length r) 0)" using sz(2) by simp
    fix k assume k: "k < length (mk_fdata t 1)"
    then have "k < MAXFILE * BSIZE" using sz(2) r by simp
    then have "mk_fdata t 1 ! k = fbyte (view s) (mk_inode s 1) k" using mi(2) [of 1 k] k by (simp add: mk_fdata_nth)
    also have "\<dots> = (r @ replicate (root_size (length r) - length r) 0) ! k"
      using okD(4) [of 1 k] k \<open>k < MAXFILE * BSIZE\<close> sz mk_fdata_nth [of k s 1] hD(3) by (auto simp: nth_append)
    finally show "mk_fdata t 1 ! k = (r @ replicate (root_size (length r) - length r) 0) ! k" .
  qed
  moreover have "mk_fdata t (k + 2) = fs ! k" if "k < length fs" for k
  proof -
    have k: "k + 2 < NINODES" using that fs by simp
    have "mk_fdata t (k + 2) = mk_fdata s (k + 2)"
      unfolding mk_fdata_def fdata_def using t(5) k mi(2) [OF k] okD(3) [OF k] by (auto intro!: map_cong)
    then show ?thesis using hF(1) [OF that] by simp
  qed
  moreover have "d_type (mk_dinode t (k + 2)) = T_FILE" if "k < length fs" for k using t(5) fs hF(2) [OF that] that by simp
  moreover have "used (view t) mkfs_super b \<longleftrightarrow> b < unat (freeblock t)" if "b < FSSIZE" for b
    using bitmap_bits(2) [of "unat (freeblock s)" b] img_okD(5) [OF okD(2)] that t(3,4) by (simp add: used_def bmblk_def not_le)
  moreover have "mk_size t 1 = root_size (length r)" using sz(2) by simp
  ultimately show ?thesis using that [OF t(1) _ mi(1)] t(5,6) hD(2,4) by simp
qed

text \<open>
  A kernel that has read the super block and finds in its blocks those of the
  image, as after initlog() on a log that is empty.  Its invariants of the file
  system hold on every image that mkfs makes.
\<close>

definition mounted :: "'z ist_scheme \<Rightarrow> mkst \<Rightarrow> bool" where
  "mounted k t \<longleftrightarrow> sb k = super_of (view t 1) \<and> log_start k = sb_logstart (sb k) \<and> length (disk k) = FSSIZE \<and> blk k = view t"

lemma mkfs_mounted:
  fixes k :: "'z ist_scheme"
  assumes inv: "mk_inv t (mk_inode t) c" and sp: "super_of (view t 1) = mkfs_super"
    and u: "\<And>b. b < FSSIZE \<Longrightarrow> used (view t) mkfs_super b \<longleftrightarrow> b < unat (freeblock t)" and m: "mounted k t"
  shows "meta_ok k" "i < NINODES \<Longrightarrow> file_ok k ((mk_inode t i)\<lparr>i_dev := 1\<rparr>)"
proof -
  have k: "sb k = mkfs_super" "log_start k = 2" "length (disk k) = FSSIZE" "blk k = view t" using m sp by (simp_all add: mounted_def)
  have t: "NMETA \<le> unat (freeblock t)" "unat (freeblock t) \<le> FSSIZE" using inv img_okD(4,5) by (auto simp: mk_inv_def)
  have log: "in_log k b \<longleftrightarrow> 2 \<le> b \<and> b < 32" for b by (simp add: in_log_def k)
  have bm: "bmblk mkfs_super b = 58" if "b < FSSIZE" for b using that by (simp add: bmblk_def)
  have ib: "32 \<le> iblk mkfs_super j" "iblk mkfs_super j < 58" if "j < NINODES" for j
    using that less_mult_imp_div_less [of j 25 8] by (simp_all add: iblk_def)
  have us: "used (view t) mkfs_super b" if "b < NMETA" for b using u [of b] t(1) that by simp
  show "meta_ok k" unfolding meta_ok_def fs_ok_def Let_def
  proof (intro conjI allI impI)
    fix b assume b: "b < unat (sb_size (sb k))"
    then have b: "b < FSSIZE" by (simp add: k)
    show "bmblk (sb k) b < unat (sb_size (sb k))" "\<not> in_log k (bmblk (sb k) b)" "used (blk k) (sb k) (bmblk (sb k) b)"
      using bm [OF b] us [of 58] by (simp_all add: k log)
    show "used (blk k) (sb k) b" if "in_log k b" using that us [of b] by (simp add: k log)
  next
    fix j assume "j < unat (sb_ninodes (sb k))"
    then have j: "j < NINODES" by (simp add: k)
    show "iblk (sb k) j < unat (sb_size (sb k))" "\<not> in_log k (iblk (sb k) j)" "used (blk k) (sb k) (iblk (sb k) j)"
      using ib [OF j] us [of "iblk mkfs_super j"] by (simp_all add: k log)
    show "iblk (sb k) j \<noteq> bmblk (sb k) b" if "b < unat (sb_size (sb k))" for b using ib [OF j] bm [of b] that by (simp add: k)
  qed (use us [of 0] in \<open>simp_all add: k\<close>)
  assume i: "i < NINODES"
  let ?ip = "mk_inode t i" and ?v = "view t"
  have refs: "refs_ok ?v (unat (freeblock t)) (mk_inode t)" and ex: "exact ?v ?ip (c i)" using inv i by (simp_all add: mk_inv_def)
  have data: "data_blk k (unat (fref ?v ?ip n))" if n: "n \<le> MAXFILE" "fref ?v ?ip n \<noteq> 0" for n
  proof -
    let ?b = "unat (fref ?v ?ip n)"
    have b: "NMETA \<le> ?b" "?b < unat (freeblock t)" using refs_okD(1,2) [OF refs i n] by simp_all
    have "?b \<noteq> bmblk mkfs_super c" if "c < FSSIZE" for c using bm [OF that] b(1) by simp
    moreover have "?b \<noteq> iblk mkfs_super j" if "j < NINODES" for j using ib [OF that] b(1) by simp
    moreover have "used ?v mkfs_super ?b" using u [of ?b] b(2) t(2) by simp
    ultimately show ?thesis using b t(2) unfolding data_blk_def k log by (simp del: unat_eq_zero)
  qed
  have uniq: "n = m" if "n \<le> MAXFILE" "m \<le> MAXFILE" "fref ?v ?ip n \<noteq> 0" "fref ?v ?ip n = fref ?v ?ip m" for n m
    using refs i that unfolding refs_ok_def by blast
  have fr: "fref ?v ?ip n = fblk ?v ?ip n" if "n < MAXFILE" for n using that by (simp add: fref_def)
  have fm: "fref ?v ?ip MAXFILE = i_addrs ?ip ! NDIRECT" by (simp add: fref_def)
  have fb: "fblk v (ip\<lparr>i_dev := d\<rparr>) n = fblk v ip n" for v ip d n by (simp add: fblk_def)
  show "file_ok k (?ip\<lparr>i_dev := 1\<rparr>)" unfolding file_ok_def k(4) fb
  proof (intro conjI allI impI)
    show "length (i_addrs (?ip\<lparr>i_dev := 1\<rparr>)) = Suc NDIRECT" using ex by (simp add: exact_def)
    show "data_blk k (unat (i_addrs (?ip\<lparr>i_dev := 1\<rparr>) ! NDIRECT))" if "i_addrs (?ip\<lparr>i_dev := 1\<rparr>) ! NDIRECT \<noteq> 0"
      using data [of MAXFILE] that by (simp add: fm)
    fix n assume n: "n < MAXFILE"
    show "data_blk k (unat (fblk ?v ?ip n))" if "fblk ?v ?ip n \<noteq> 0" using data [of n] that n by (simp add: fr)
    show "fblk ?v ?ip n \<noteq> i_addrs (?ip\<lparr>i_dev := 1\<rparr>) ! NDIRECT" if "fblk ?v ?ip n \<noteq> 0"
      using uniq [of n MAXFILE] that n by (auto simp: fr fm)
    show "n = m" if "m < MAXFILE" "fblk ?v ?ip n = fblk ?v ?ip m" "fblk ?v ?ip n \<noteq> 0" for m
      using uniq [of n m] that n by (simp add: fr)
  qed simp
qed

text \<open>
  A file of the image has no holes when its blocks hold its size.  This is so for
  every file but the root directory, and for that unless its entries end at a
  block boundary, where mkfs counts one block too many (\<open>root_size_blocks\<close>).
\<close>

lemma mkfs_dense:
  assumes inv: "mk_inv t (mk_inode t) c" and i: "i < NINODES" "mk_size t i \<le> c i * BSIZE"
  shows "dense (view t) ((mk_inode t i)\<lparr>i_dev := 1\<rparr>)"
proof -
  let ?ip = "mk_inode t i"
  have ex: "exact (view t) ?ip (c i)" using inv i(1) by (simp add: mk_inv_def)
  then have c: "c i \<le> MAXFILE" by (simp add: exact_def)
  have "fblk (view t) (?ip\<lparr>i_dev := 1\<rparr>) n \<noteq> 0" if "n * BSIZE < mk_size t i" for n
  proof -
    have "n * BSIZE < c i * BSIZE" using that i(2) by linarith
    then have "n < c i" by simp
    then have "n < MAXFILE" "fref (view t) ?ip n \<noteq> 0" using c ex by (auto simp: exact_def)
    moreover have "fblk (view t) (ip\<lparr>i_dev := 1\<rparr>) n = fblk (view t) ip n" for ip by (simp add: fblk_def)
    ultimately show ?thesis by (simp add: fref_def)
  qed
  then show ?thesis using i(2) c by (simp add: dense_def)
qed

lemma mkfs_sizes: "n \<le> nblk n * BSIZE" "n mod BSIZE \<noteq> 0 \<Longrightarrow> root_size n \<le> nblk n * BSIZE"
proof -
  show "n \<le> nblk n * BSIZE" unfolding nblk_def by linarith
  assume "n mod BSIZE \<noteq> 0"
  then have "n mod 512 + 511 = 512 + (n mod 512 - 1)" "n mod 512 - 1 < 512" using mod_less_divisor [of 512 n] by linarith+
  then have "(n mod 512 + 511) div 512 = 1" by simp
  moreover have "(n + 511) div 512 = n div 512 + (n mod 512 + 511) div 512"
    using div_mult_self4 [of 512 "n div 512" "n mod 512 + 511"] mult_div_mod_eq [of 512 n] by (simp flip: add.assoc)
  ultimately have "(n + 511) div 512 = n div 512 + 1" by simp
  then show "root_size n \<le> nblk n * BSIZE" by (simp add: nblk_def root_size_def)
qed

text \<open>
  C38: mkfs with a list of files that fit builds the image it should: the super
  block decodes to the layout, every allocated block belongs to just one file
  and is marked in the bitmap, the others are free and zero, the root directory
  maps \<open>.\<close>, \<open>..\<close> and the name of each file (without a leading underscore) to its
  inode, and the kernel reads from that inode the bytes of the file.  A kernel
  that has mounted the image has its file system invariant, and every inode of
  the image describes a well-formed file without holes (the root directory, when
  its entries do not end at a block boundary).
\<close>

theorem mkfs_spec:
  assumes "\<forall>f \<in> set files. file_ok_arg f" "length files + 2 \<le> NINODES"
    and "distinct (map (cname DIRSIZ) (cbytes ''.'' # cbytes ''..'' # map file_name files))"
    and "NMETA + blocks_for (32 + DIRENT * length files) + data_blocks (map file_data files) \<le> FSSIZE" and "freeinode s = 1"
  shows "\<exists>t. mkfs_main (Some True) files s = Ok () t \<and> super_of (view t 1) = mkfs_super
    \<and> mk_inv t (mk_inode t) (\<lambda>i. if i = 1 then nblk (32 + DIRENT * length files) else nblk (mk_size t i))
    \<and> (\<forall>b < FSSIZE. used (view t) mkfs_super b \<longleftrightarrow> b < unat (freeblock t))
    \<and> d_type (mk_dinode t 1) = T_DIR \<and> mk_size t 1 = root_size (32 + DIRENT * length files)
    \<and> dir_map (mk_fdata t 1) = [cbytes ''.'' \<mapsto> 1, cbytes ''..'' \<mapsto> 1] ++ name_map 0 (map file_name files)
    \<and> (\<forall>k < length files. d_type (mk_dinode t (k + 2)) = T_FILE \<and> mk_fdata t (k + 2) = file_data (files ! k))
    \<and> (\<forall>k :: cst. mounted k t \<longrightarrow> meta_ok k \<and> (\<forall>i < NINODES. file_ok k ((mk_inode t i)\<lparr>i_dev := 1\<rparr>)
         \<and> (i \<noteq> 1 \<or> (32 + DIRENT * length files) mod BSIZE \<noteq> 0 \<longrightarrow> dense (blk k) ((mk_inode t i)\<lparr>i_dev := 1\<rparr>))))"
proof -
  let ?r = "dirent_bytes 1 (cbytes ''.'') @ dirent_bytes 1 (cbytes ''..'')" let ?n = "32 + DIRENT * length files"
  let ?R = "?r @ entries 0 (map file_name files)" let ?F = "map file_data files"
  have st: "freeinode (mkfs_start s) = 1" "freeblock (mkfs_start s) = 59" by (simp_all only: mkfs_start_fields assms(5))
  obtain t u where u: "mk_ialloc T_DIR (mkfs_start s) = Ok 1 t" "mkfs_root 1 t = Ok () u" "holds u ?r []"
    by (rule root_ok [OF start_ok [OF assms(5)] st])
  have "?n div 512 \<le> 3200 div 512" using assms(2) by (intro div_le_mono) simp
  then have le: "?n div 512 \<le> 6" by simp
  obtain v where v: "foreachM files (mkfs_file 1) u = Ok () v" "holds v ?R ?F"
    using mkfs_files_ok [OF u(3), of files] assms(1,2,4) by (auto simp: data_blocks_def)
  have lR: "length ?R = ?n" by simp
  have rs: "root_size (length ?R) \<le> MAXFILE * BSIZE" unfolding lR root_size_def using le by simp
  obtain w where w: "mkfs_finish 1 v = Ok () w" "view w 1 = super_sector" "mk_inv w (mk_inode w) (\<lambda>i. if i = 1 then nblk ?n else nblk (mk_size w i))"
    "\<And>b. b < FSSIZE \<Longrightarrow> used (view w) mkfs_super b \<longleftrightarrow> b < unat (freeblock w)"
    "mk_fdata w 1 = ?R @ replicate (root_size ?n - ?n) 0" "d_type (mk_dinode w 1) = T_DIR" "mk_size w 1 = root_size ?n"
    "\<And>k. k < length ?F \<Longrightarrow> mk_fdata w (k + 2) = ?F ! k" "\<And>k. k < length ?F \<Longrightarrow> d_type (mk_dinode w (k + 2)) = T_FILE"
    by (rule finish_ok [OF v(2) rs, unfolded lR]) (use assms(2) that in auto)
  have "DIRENT dvd root_size ?n" "DIRENT dvd ?n" unfolding root_size_def by (simp_all add: dvd_mult)
  then obtain m where m: "root_size ?n - ?n = DIRENT * m" by (metis dvd_diff_nat dvdE)
  have "DIRENT dvd length ?R" unfolding lR by simp
  then have "dir_map (mk_fdata w 1) = dir_map ?R" unfolding w(5) m by (rule dir_map_zeros)
  then have "dir_map (mk_fdata w 1) = [cbytes ''.'' \<mapsto> 1, cbytes ''..'' \<mapsto> 1] ++ name_map 0 (map file_name files)"
    using root_dir_map [OF assms(3)] assms(2) by simp
  moreover have "mkfs_main (Some True) files s = Ok () w" unfolding mkfs_start_run using u(1,2) v(1) w(1) by (simp add: kcode)
  moreover have "meta_ok k \<and> (\<forall>i < NINODES. file_ok k ((mk_inode w i)\<lparr>i_dev := 1\<rparr>))" if "mounted k w" for k :: cst
    using mkfs_mounted [OF w(3) _ w(4) that] w(2) super_of_sector by simp
  moreover have "dense (blk k) ((mk_inode w i)\<lparr>i_dev := 1\<rparr>)" if "mounted k w" "i < NINODES" "i \<noteq> 1 \<or> ?n mod BSIZE \<noteq> 0" for k :: cst and i
  proof -
    have "mk_size w i \<le> (if i = 1 then nblk ?n else nblk (mk_size w i)) * BSIZE"
      using that(3) w(7) mkfs_sizes(1) [of "mk_size w i"] mkfs_sizes(2) [of ?n] by (cases "i = 1") simp_all
    then have "dense (view w) ((mk_inode w i)\<lparr>i_dev := 1\<rparr>)" by (rule mkfs_dense [OF w(3) that(2)])
    then show ?thesis using that(1) by (simp add: mounted_def)
  qed
  ultimately show ?thesis using w super_of_sector by (intro exI [of _ w]) simp
qed

theorem mkfs_spec_witness:
  "\<exists>t. mkfs_main (Some True) [(cbytes ''_cat'', Some [cbytes ''hello'', cbytes '' world'']), (cbytes ''README'', Some [])]
      \<lparr>img = [], mk_sb = mkfs_super, freeinode = 1, freeblock = 0\<rparr> = Ok () t
    \<and> dir_map (mk_fdata t 1) (cbytes ''cat'') = Some 2 \<and> mk_fdata t 2 = cbytes ''hello world'' \<and> mk_fdata t 3 = []"
proof -
  let ?fs = "[(cbytes ''_cat'', Some [cbytes ''hello'', cbytes '' world'']), (cbytes ''README'', Some [])]"
  let ?s = "\<lparr>img = [], mk_sb = mkfs_super, freeinode = 1, freeblock = 0\<rparr>"
  have "0x2F \<notin> set (cbytes ''_cat'')" "0x2F \<notin> set (cbytes ''README'')" by code_simp+
  then have "\<forall>f \<in> set ?fs. file_ok_arg f" by (simp add: file_ok_arg_def file_data_def cbytes_def)
  moreover have "distinct (map (cname DIRSIZ) (cbytes ''.'' # cbytes ''..'' # map file_name ?fs))" by code_simp
  moreover have "NMETA + blocks_for (32 + DIRENT * length ?fs) + data_blocks (map file_data ?fs) \<le> FSSIZE"
    by (simp add: blocks_for_def nrefs_def nblk_def data_blocks_def file_data_def cbytes_def)
  moreover have "length ?fs + 2 \<le> NINODES" "freeinode ?s = 1" by simp_all
  ultimately obtain t where t: "mkfs_main (Some True) ?fs ?s = Ok () t"
    "dir_map (mk_fdata t 1) = [cbytes ''.'' \<mapsto> 1, cbytes ''..'' \<mapsto> 1] ++ name_map 0 (map file_name ?fs)"
    "\<forall>k < length ?fs. d_type (mk_dinode t (k + 2)) = T_FILE \<and> mk_fdata t (k + 2) = file_data (?fs ! k)"
    using mkfs_spec [of ?fs ?s] by blast
  have "name_map 0 (map file_name ?fs) (cbytes ''cat'') = Some 2" by code_simp
  then have "dir_map (mk_fdata t 1) (cbytes ''cat'') = Some 2" unfolding t(2) by (rule map_add_find_right)
  moreover have "mk_fdata t (0 + 2) = file_data (?fs ! 0)" "mk_fdata t (1 + 2) = file_data (?fs ! 1)"
    using t(3) [rule_format, of 0] t(3) [rule_format, of 1] by auto
  moreover have "file_data (?fs ! 0) = cbytes ''hello world''" "file_data (?fs ! 1) = []" "0 + 2 = (2::nat)" "1 + 2 = (3::nat)" by code_simp+
  ultimately show ?thesis using t(1) by (intro exI [of _ t]) (simp only:)
qed

end
