(* ===== verification/Spec2Isabelle.thy ===== *)
theory Spec2Isabelle
  imports CString Spinlock Segment Boot Mp Apic Diag Ulib Proc_Sched Interleave Sleeplock Kalloc Vm Vm_Copy Bio Ide Log Proc_Fork Syscall Grep Sh_Unparse Sh_Run Umalloc Mkfs
begin

text \<open>
  xv6 (x86), with the process queries this repository added to it: a model of
  the kernel and of some of its user programs, with the theorems that make
  them correct.  All paths below are relative to \<open>src/src/xv6-public/\<close>.

  \<^bold>\<open>How the program is modelled.\<close>  A kernel function is a function from the kernel
  state to an outcome (Xv6_Prelude): it returns a value and a state (\<open>Ok\<close>), calls
  panic (\<open>Panic\<close>), dereferences null, indexes outside an array or page-faults in
  the kernel (\<open>Fault\<close>), gives up the CPU in sched() (\<open>Swtch\<close>), or would run
  forever (\<open>Spin\<close>).  The combinators \<open>bindM\<close>, \<open>thenM\<close>, \<open>whenM\<close>, \<open>foreachM\<close>,
  \<open>findM\<close> follow the statements of the C code.  The state is a chain of records,
  one per layer, each extending the one below: locks and process table (\<open>kst\<close>),
  physical memory and free list (\<open>mst\<close>), kernel page table (\<open>vst\<close>), buffer
  cache and disk (\<open>bst\<close>), log (\<open>lst\<close>), super block and inode cache (\<open>ist\<close>),
  console (\<open>cst\<close>), pipes and open files (\<open>ost\<close>), ticks and link-time addresses
  (\<open>pst\<close>), input devices (\<open>tst\<close>).  A function is polymorphic in the layers above
  its own, so that what is proved of it holds in the whole kernel.  A function that sleeps
  returns \<open>Swtch\<close>; the loop around the sleep is a definition of its own, and
  the process continues at that definition when it runs again.  Integers are
  words of the C types' widths; memory is a function from 32-bit addresses to
  bytes, and page tables, the free page list and user memory live in it.

  \<^bold>\<open>The parts, from the bottom up.\<close>
  \<^item> CString: string.c.  memset by words and by bytes, memmove in both directions,
    strncmp, strncpy, safestrcpy, strlen, with their byte-list meaning.
  \<^item> Kstate: struct proc, trap frames, locks held.  Spinlock: spinlock.c on several
    CPUs.  The step relation \<open>lkstep\<close> interleaves the instructions of acquire and
    release; mutual exclusion is proved by rule induction.  The locale \<open>lock_ops\<close>
    is the contract of a lock; it is interpreted by the lock set of Kstate,
    which all other theories use, and by the routines of spinlock.c, which refine it.
    Segment: the descriptors of mmu.h bit by bit, seginit of vm.c, tvinit and idtinit of
    trap.c, proved against what the processor reads from the tables.
  \<^item> Boot: bootmain.c, which loads the kernel's ELF file; the disk controller is a
    parameter with its documented behaviour (\<open>ata_reads\<close>).  Mp: mp.c on the bytes of
    the BIOS tables.  Apic: lapic.c, ioapic.c, picirq.c and startothers of main.c, on the
    values written to and read from the devices.
  \<^item> Proc_Sched: sched, yield, sleep, wakeup, kill and get_siblings_info,
    get_ancestors, getppid of proc.c.  The bodies of sleep and wakeup are lists of
    their statements; Interleave runs them on several CPUs, one statement at a time
    in any order the locks allow (\<open>cpu_step\<close>), and proves that no wakeup is lost.
    Sleeplock: sleeplock.c.
  \<^item> Kalloc: kalloc.c; the locale \<open>page_pool\<close> is what its clients rely on.
    Vm: vm.c (loaduvm is in Exec).  The invariant \<open>uvm_ok\<close> says which pages an
    address space owns; allocuvm and deallocuvm keep it and free what they should.
    Vm_Copy: freevm, setupkvm and copyuvm on whole address spaces, with a frame
    (\<open>mframe\<close>) that says which pages a call may write.
  \<^item> Bio: bio.c with memide.c as the disk.  Ide: ide.c, the driver of a real disk; its
    queue is a step relation (\<open>idestep\<close>) of calls, interrupts and wakeups, and it is
    proved to do what memide.c does.  Log: log.c; the disk after a crash is
    the disk at any point of a commit, and recovery of it is proved to give the
    old or the new contents (\<open>in_log\<close> are the 30 blocks of the log).  Fs_Block, Inode, Bmap, Fs_File, Dir: fs.c.  A file's
    contents are the bytes its block map reaches (\<open>fdata\<close>), a directory is a map from
    names to inode numbers (\<open>dir_map\<close>); writei, readi, dirlookup and dirlink are
    proved against these.
  \<^item> Ring: ring buffers with wrapping indices and the locale \<open>byte_queue\<close>, interpreted
    by the console's input buffer (Console) and by pipes (Pipe).  Console:
    console.c and the output side of uart.c.  Kbd: kbd.c, kbd.h and the input side of uart.c.
    Diag: panic, procdump and uartinit, proved to change nothing but the output.
  \<^item> Pipe and File: pipe.c and file.c.  Proc: allocproc, userinit, growproc, fork,
    exit, wait, the scheduler's turn and forkret of proc.c, and the pages that
    wait gives back; Proc_Fork: what fork shares, copies and gives back.
  \<^item> Sysarg: fetchint, argptr and argstr of syscall.c on user memory.  Exec: exec.c.
    Sysfile: sysfile.c.  Syscall: sysproc.c, the table and dispatch of syscall.c, trap.c.
  \<^item> Grep: grep.c.  Sh, Sh_Unparse, Sh_Run: sh.c, its parser, a printer that the
    parser inverts, and the tree of processes that runcmd() makes, with the
    descriptors of each while it runs a program or waits.  Umalloc: umalloc.c on
    the memory of a process; \<open>heap_ok\<close> relates the circular list in memory to a
    sorted list of free blocks and a set of live ones.
  \<^item> Ulib: the string routines of ulib.c and printf.c, and wc, cat, echo and fmtname of ls
    (strchr and gets are in the theories of the shell).
  \<^item> Mkfs: mkfs.c, which builds the first image.  The image is read with the
    definitions of fs.c's theories (\<open>fdata\<close>, \<open>dir_map\<close>, \<open>used\<close>); \<open>mkfs_mounted\<close> shows
    that the invariants the theorems about fs.c assume (\<open>meta_ok\<close>, \<open>file_ok\<close>) hold on it.

  \<^bold>\<open>What the theorems show.\<close>  Each property stands in the theory of its component
  behind a block that names it (C1 to C40).  They are: mutual exclusion and
  refinement of spin locks; that sleep loses no wakeup, however it is interleaved
  with those who wake; the handing over of sleep
  locks; the order of disk requests, and that the driver of the real disk does
  what the memory disk does; allocation without sharing, zeroing and giving back of pages; exact
  copies of address spaces, and children that share their parent's files; that
  bread, balloc, readi, writei, dirlookup and dirlink do on the disk what their
  abstract counterparts do; atomic commits; the line discipline as a refinement
  of a line editor; queues; that numbers come out on the serial line and the
  screen as they should; the life of a process (zombies,
  reaping); the interrupt table; the boot loader and the
  search for the processors of the machine; that system call arguments keep the kernel inside
  user memory; the regular expression matcher against languages; the shell's
  parser (it ends, its words are NUL-terminated, it inverts the printer) and
  the streams of the programs it starts; that malloc gives out memory no live
  block uses and free joins neighbours; that mkfs builds an image in which the
  kernel finds the files.  Some are about errors in the code:
  the null dereference in get_siblings_info and the log that admits more
  blocks than it holds.  Further lemmas record what else modelling showed:
  \<open>Proc.growproc_below_zero\<close>, \<open>Proc.kill_zero_hits_unused_slot\<close>,
  \<open>Grep.grep_loses_split_line\<close>, \<open>Umalloc.malloc_wraps\<close>,
  \<open>Ide.ideintr_ignores_error\<close>, \<open>Mkfs.root_size_blocks\<close>, \<open>Mp.mptable_unknown_spins\<close>,
  \<open>Ulib.u_memmove_overlap\<close>, \<open>Ulib.atoi_overflows\<close>.

  \<^bold>\<open>Bounds and fuel.\<close>  Loops over pages have fuel of at least 2^20, the number of
  pages there are: \<open>Vm.mappages_terminates\<close> proves it enough for every
  argument, \<open>allocuvm_spec\<close> and \<open>deallocuvm_spec\<close> for user addresses; copyuvm
  and loaduvm have one round more for the final test, copyout one for a first and
  a last partial page.  freerange has as many rounds as pages
  (\<open>freerange_loop_ok\<close>); the scans of the buffer list have NBUF + 1 rounds, the length of the
  circular list; the loop that erases a line has INPUT_BUF + 1 rounds; the
  interrupt handlers read one more byte than the device has.  The shell's
  parser has 4 n + 4 nested calls for a line of n bytes (\<open>Sh.parsecmd_total\<close>).
  The walks of umalloc.c have fuel for twice around a list of all addresses;
  \<open>malloc_spec\<close> and \<open>free_spec\<close> prove that they end with it.
  readseg has one round per sector of the address space, the loops over headers
  and table entries as many as their 16-bit counts allow; the clock is read
  as long as there are readings of it.
  A theorem that says a function returns is proved with this fuel.

  \<^bold>\<open>Not modelled.\<close>  Assembly (swtch, trapasm, entry, bootasm: the \<open>Swtch\<close> outcome
  and the trap frame stand for them); main() and mpmain(), which only call what is
  modelled, on states that are not shared here; the tests (usertests, forktest,
  stressfs) and the programs that only pass their arguments to system calls
  (init, kill, ln, mkdir, rm, and the listing of ls).  Between processes
  only the order of kernel sections matters in the model: a section ends
  where it returns or gives up the CPU, and several CPUs at once are modelled in
  Spinlock and Interleave only.  The text that allocuvm, exec and
  others print on a failure is left out.
\<close>

end
